(* ===== verification/CPrelude.thy ===== *)
theory CPrelude
  imports Main "HOL-Library.Word" "HOL-Library.Monad_Syntax"
begin

text \<open>
  Shared vocabulary of the development: the C integer types at the widths of the target
  (64-bit little-endian, as the pods are built for iOS), byte strings, the control-flow
  combinators that the models of the C functions are written with, and the generic lemmas
  on words, byte lists and those combinators.

  A C function that returns \<open>bool\<close> or \<open>int\<close> as a success flag and works on a state is a
  \<open>'s step\<close>: it maps the state to \<open>Some (flag, new state)\<close>. \<open>None\<close> means that the C
  function has no defined result: its recursion went deeper than the model's fuel, or it
  executed an operation that C leaves undefined.
\<close>

unbundle bit_operations_syntax

type_synonym u8 = "8 word"
type_synonym u16 = "16 word"
type_synonym u32 = "32 word"
type_synonym u64 = "64 word"

named_theorems step_defs \<open>definitions of the control-flow combinators\<close>
named_theorems byte_simps \<open>byte strings and their integer values\<close>

section \<open>Steps\<close>

type_synonym 's step = "'s \<Rightarrow> (bool \<times> 's) option"

definition ret :: "bool \<Rightarrow> 's step" where
  "ret b = (\<lambda>s. Some (b, s))"

definition undef :: "'s step" where
  "undef = (\<lambda>s. None)"

text \<open>\<open>if (!a) return false; return b;\<close>\<close>

definition and_then :: "'s step \<Rightarrow> 's step \<Rightarrow> 's step" where
  "and_then a b = (\<lambda>s. case a s of
       None \<Rightarrow> None
     | Some (ok, s') \<Rightarrow> (if ok then b s' else Some (False, s')))"

text \<open>\<open>for (x in xs) if (!f(x)) return false; return true;\<close>\<close>

primrec all_steps :: "('a \<Rightarrow> 's step) \<Rightarrow> 'a list \<Rightarrow> 's step" where
  "all_steps f [] = ret True"
| "all_steps f (x # xs) = and_then (f x) (all_steps f xs)"

declare ret_def [step_defs] undef_def [step_defs] and_then_def [step_defs]

lemma ex_flag [simp]: "\<exists>b. b" "\<exists>b. \<not> b"
  by auto

lemma and_then_ret_True [simp]: "and_then (ret True) b = b"
  by (simp add: step_defs)

lemma and_then_ret_False [simp]: "and_then (ret False) b = ret False"
  by (simp add: step_defs)

lemma and_then_assoc: "and_then (and_then a b) c = and_then a (and_then b c)"
  by (rule ext) (simp add: and_then_def split: option.split prod.split)

lemma and_then_True [simp]: "a s = Some (True, s') \<Longrightarrow> and_then a b s = b s'"
  by (simp add: step_defs)

lemma and_then_False [simp]: "a s = Some (False, s') \<Longrightarrow> and_then a b s = Some (False, s')"
  by (simp add: step_defs)

lemma and_then_Some_cases:
  assumes "and_then a b s = Some (ok, t)"
  obtains (stop) "a s = Some (False, t)" "\<not> ok"
  | (go) u where "a s = Some (True, u)" "b u = Some (ok, t)"
  using assms by (auto simp: and_then_def split: option.splits prod.splits if_splits)

lemma all_steps_append:
  "all_steps f (xs @ ys) = and_then (all_steps f xs) (all_steps f ys)"
  by (induction xs) (simp_all add: and_then_assoc)

section \<open>Byte strings and integers\<close>

text \<open>The value of a little-endian byte string, and the \<open>n\<close> low bytes of a value.\<close>

primrec le_nat :: "u8 list \<Rightarrow> nat" where
  "le_nat [] = 0"
| "le_nat (b # bs) = unat b + 256 * le_nat bs"

primrec le_bytes :: "nat \<Rightarrow> nat \<Rightarrow> u8 list" where
  "le_bytes 0 v = []"
| "le_bytes (Suc n) v = word_of_nat v # le_bytes n (v div 256)"

lemma length_le_bytes [simp, byte_simps]: "length (le_bytes n v) = n"
  by (induction n arbitrary: v) auto

lemma unat_of_nat_u8 [byte_simps]: "unat (word_of_nat v :: u8) = v mod 256"
  by (simp add: unat_of_nat)

lemma le_nat_le_bytes [byte_simps]: "le_nat (le_bytes n v) = v mod 256 ^ n"
proof (induction n arbitrary: v)
  case (Suc n)
  have "v mod 256 ^ Suc n = v mod 256 + 256 * (v div 256 mod 256 ^ n)"
    by (simp add: mod_mult2_eq)
  with Suc show ?case by (simp add: unat_of_nat_u8)
qed simp

lemma unat_u8_less [simp]: "unat (b :: u8) < 256"
  using unsigned_less [of b, where 'a=nat] by simp

lemma unat_u8_le: "unat (b :: u8) \<le> 255"
  using unat_u8_less [of b] by linarith

lemma le_nat_bound [byte_simps]: "le_nat bs < 256 ^ length bs"
proof (induction bs)
  case (Cons b bs)
  have "unat b + 256 * le_nat bs < 256 + 256 * le_nat bs" by simp
  also have "\<dots> = 256 * Suc (le_nat bs)" by simp
  also have "\<dots> \<le> 256 * 256 ^ length bs" using Cons by (intro mult_le_mono2) simp
  finally show ?case by simp
qed simp

lemma le_bytes_le_nat [byte_simps]: "n = length bs \<Longrightarrow> le_bytes n (le_nat bs) = bs"
proof (induction bs arbitrary: n)
  case (Cons b bs)
  have "(256 :: u8) = 0" by simp
  then have "(word_of_nat (unat b + 256 * le_nat bs) :: u8) = b"
    by (simp del: word_eq_numeral_iff_iszero)
  moreover have "(unat b + 256 * le_nat bs) div 256 = le_nat bs" by simp
  ultimately show ?case using Cons by simp
qed simp

lemma unat_drop_bit_div [byte_simps]: "unat (drop_bit n w) = unat w div 2 ^ n"
  by (subst unat_drop_bit_eq) (simp add: drop_bit_eq_div)

lemma unat_of_nat_u64: "n < 2 ^ 64 \<Longrightarrow> unat (word_of_nat n :: u64) = n"
  by (simp add: unat_of_nat)

lemma of_nat_unat_u64 [simp]: "(word_of_nat (unat w) :: 'a::len word) = w"
  by simp

lemma unat_ucast_up:
  "LENGTH('a) \<le> LENGTH('b) \<Longrightarrow> unat (ucast (w :: 'a::len word) :: 'b::len word) = unat w"
proof -
  assume le: "LENGTH('a) \<le> LENGTH('b)"
  have "unat w < 2 ^ LENGTH('a)" by (rule unsigned_less)
  also have "\<dots> \<le> (2 :: nat) ^ LENGTH('b)" using le by (rule power_increasing) simp
  finally show ?thesis by (simp add: unsigned_ucast_eq take_bit_nat_eq_self)
qed

lemma unat_ucast_u32_u64 [simp, byte_simps]: "unat (ucast (w :: u32) :: u64) = unat w"
  by (simp add: unat_ucast_up)

lemma unat_ucast_u8_u32 [simp, byte_simps]: "unat (ucast (w :: u8) :: u32) = unat w"
  by (simp add: unat_ucast_up)

lemma unat_ucast_u8_u64 [simp, byte_simps]: "unat (ucast (w :: u8) :: u64) = unat w"
  by (simp add: unat_ucast_up)

lemma unat_u32_less: "unat (w :: u32) < 2 ^ 32"
  using unsigned_less [of w, where 'a=nat] by simp

lemma unat_u64_less: "unat (w :: u64) < 2 ^ 64"
  using unsigned_less [of w, where 'a=nat] by simp

lemma ucast_up_down: "LENGTH('a) \<le> LENGTH('b) \<Longrightarrow> ucast (ucast (w :: 'a::len word) :: 'b::len word) = w"
  by (rule bit_word_eqI) (auto simp: bit_simps dest: bit_imp_le_length)

lemma ucast_down_up:
  assumes "unat (v :: 'a::len word) < 2 ^ LENGTH('b)"
  shows "ucast (ucast v :: 'b::len word) = v"
proof -
  have "take_bit LENGTH('b) v = v" using assms by (simp add: word_unat_eq_iff unsigned_take_bit_eq take_bit_nat_eq_self)
  then have b: "bit v k \<Longrightarrow> k < LENGTH('b)" for k by (metis bit_take_bit_iff)
  show ?thesis by (rule bit_word_eqI) (auto simp: bit_simps dest: b)
qed

end
