(* ===== verification/CMemory.thy ===== *)
theory CMemory
  imports CPrelude
begin

text \<open>
  The byte-addressed memory that the message structs live in, for the code that works on
  raw struct pointers (nanopb). An address is an integer, \<open>NULL\<close> is 0, and values are
  stored little-endian as on the target. Two views are used: plain reads from a memory
  function (the encoder only reads the caller's struct), and a heap whose valid addresses
  and \<open>malloc\<close>ed blocks are tracked (the decoder writes, allocates and frees). In the
  second view a load, store, \<open>realloc\<close> or \<open>free\<close> that C leaves undefined is \<open>None\<close>.
\<close>

type_synonym addr = int

named_theorems mem_simps \<open>reads after writes\<close>

section \<open>Plain reads\<close>

definition rd_bytes :: "(addr \<Rightarrow> u8) \<Rightarrow> addr \<Rightarrow> nat \<Rightarrow> u8 list" where
  "rd_bytes m a n = map (\<lambda>i. m (a + int i)) [0..<n]"

definition rd_u16 :: "(addr \<Rightarrow> u8) \<Rightarrow> addr \<Rightarrow> u16" where
  "rd_u16 m a = word_of_nat (le_nat (rd_bytes m a 2))"

definition rd_u32 :: "(addr \<Rightarrow> u8) \<Rightarrow> addr \<Rightarrow> u32" where
  "rd_u32 m a = word_of_nat (le_nat (rd_bytes m a 4))"

definition rd_u64 :: "(addr \<Rightarrow> u8) \<Rightarrow> addr \<Rightarrow> u64" where
  "rd_u64 m a = word_of_nat (le_nat (rd_bytes m a 8))"

definition rd_ptr :: "(addr \<Rightarrow> u8) \<Rightarrow> addr \<Rightarrow> addr" where
  "rd_ptr m a = uint (rd_u64 m a)"

definition put_bytes :: "(addr \<Rightarrow> u8) \<Rightarrow> addr \<Rightarrow> u8 list \<Rightarrow> (addr \<Rightarrow> u8)" where
  "put_bytes m a bs =
     (\<lambda>x. if a \<le> x \<and> x < a + int (length bs) then bs ! nat (x - a) else m x)"

lemma length_rd_bytes [simp, mem_simps]: "length (rd_bytes m a n) = n"
  by (simp add: rd_bytes_def)

lemma rd_bytes_0 [simp, mem_simps]: "rd_bytes m a 0 = []"
  by (simp add: rd_bytes_def)

lemma rd_bytes_add [mem_simps]: "rd_bytes m a (n + k) = rd_bytes m a n @ rd_bytes m (a + int n) k"
proof (rule nth_equalityI)
  fix i assume "i < length (rd_bytes m a (n + k))"
  then show "rd_bytes m a (n + k) ! i = (rd_bytes m a n @ rd_bytes m (a + int n) k) ! i"
    by (cases "i < n") (auto simp: rd_bytes_def nth_append algebra_simps of_nat_diff)
qed simp

lemma rd_put_bytes [mem_simps]: "n = length bs \<Longrightarrow> rd_bytes (put_bytes m a bs) a n = bs"
  by (rule nth_equalityI) (auto simp: rd_bytes_def put_bytes_def)

lemma put_bytes_outside [mem_simps]:
  "x < a \<or> a + int (length bs) \<le> x \<Longrightarrow> put_bytes m a bs x = m x"
  by (auto simp: put_bytes_def)

lemma rd_bytes_put_disjoint [mem_simps]:
  "a + int n \<le> p \<or> p + int (length bs) \<le> a \<Longrightarrow> rd_bytes (put_bytes m p bs) a n = rd_bytes m a n"
  by (auto simp: rd_bytes_def put_bytes_def)

lemma put_bytes_Nil [simp, mem_simps]: "put_bytes m a [] = m"
  by (rule ext) (auto simp: put_bytes_def)

lemma put_bytes_append [mem_simps]:
  "put_bytes (put_bytes m a xs) (a + int (length xs)) ys = put_bytes m a (xs @ ys)"
  by (rule ext) (auto simp: put_bytes_def nth_append nat_less_iff
      intro!: arg_cong [where f = "\<lambda>k. ys ! k"])

section \<open>The checked heap\<close>

text \<open>
  \<open>hvalid\<close> holds of the addresses that may be accessed, \<open>hblocks\<close> of the live blocks of
  \<open>realloc\<close> with their sizes. Fresh blocks are taken from \<open>hbrk\<close> upwards, with a gap;
  the \<open>k\<close>-th allocation fails exactly when \<open>hoom k\<close>, so that every pattern of allocation
  failures is a choice of \<open>hoom\<close>.
\<close>

record heap =
  hbytes :: "addr \<Rightarrow> u8"
  hvalid :: "addr \<Rightarrow> bool"
  hblocks :: "addr \<Rightarrow> nat option"
  hbrk :: addr
  hallocs :: nat
  hoom :: "nat \<Rightarrow> bool"

definition empty_heap :: heap where
  "empty_heap = \<lparr>hbytes = (\<lambda>_. 0), hvalid = (\<lambda>_. False), hblocks = (\<lambda>_. None),
     hbrk = 4096, hallocs = 0, hoom = (\<lambda>_. False)\<rparr>"

definition h_ok :: "heap \<Rightarrow> addr \<Rightarrow> nat \<Rightarrow> bool" where
  "h_ok h a n \<longleftrightarrow> list_all (\<lambda>i. hvalid h (a + int i)) [0..<n]"

definition h_load :: "heap \<Rightarrow> addr \<Rightarrow> nat \<Rightarrow> u8 list option" where
  "h_load h a n = (if h_ok h a n then Some (rd_bytes (hbytes h) a n) else None)"

definition h_store :: "heap \<Rightarrow> addr \<Rightarrow> u8 list \<Rightarrow> heap option" where
  "h_store h a bs =
     (if h_ok h a (length bs) then Some (h\<lparr>hbytes := put_bytes (hbytes h) a bs\<rparr>) else None)"

definition h_load_nat :: "nat \<Rightarrow> heap \<Rightarrow> addr \<Rightarrow> nat option" where
  "h_load_nat n h a = map_option le_nat (h_load h a n)"

definition h_store_nat :: "nat \<Rightarrow> heap \<Rightarrow> addr \<Rightarrow> nat \<Rightarrow> heap option" where
  "h_store_nat n h a v = h_store h a (le_bytes n v)"

definition h_load_u32 :: "heap \<Rightarrow> addr \<Rightarrow> u32 option" where
  "h_load_u32 h a = map_option word_of_nat (h_load_nat 4 h a)"

definition h_store_u32 :: "heap \<Rightarrow> addr \<Rightarrow> u32 \<Rightarrow> heap option" where
  "h_store_u32 h a v = h_store_nat 4 h a (unat v)"

definition h_load_ptr :: "heap \<Rightarrow> addr \<Rightarrow> addr option" where
  "h_load_ptr h a = map_option int (h_load_nat 8 h a)"

definition h_store_ptr :: "heap \<Rightarrow> addr \<Rightarrow> addr \<Rightarrow> heap option" where
  "h_store_ptr h a p = h_store_nat 8 h a (nat p)"

text \<open>\<open>realloc\<close> and \<open>free\<close> of the C library, as far as the code uses them.\<close>

definition c_realloc :: "heap \<Rightarrow> addr \<Rightarrow> nat \<Rightarrow> (addr \<times> heap) option" where
  "c_realloc h p n =
     (if p \<noteq> 0 \<and> hblocks h p = None then None
      else if hoom h (hallocs h) then Some (0, h\<lparr>hallocs := Suc (hallocs h)\<rparr>)
      else
        let q = hbrk h;
            old = (if p = 0 then 0 else the (hblocks h p));
            keep = rd_bytes (hbytes h) p (min old n)
        in Some (q, h\<lparr>hbytes := put_bytes (hbytes h) q keep,
              hvalid := (\<lambda>x. (q \<le> x \<and> x < q + int n) \<or> (hvalid h x \<and> \<not> (p \<le> x \<and> x < p + int old))),
              hblocks := ((hblocks h)(p := None))(q \<mapsto> n),
              hbrk := q + int n + 16,
              hallocs := Suc (hallocs h)\<rparr>))"

definition c_free :: "heap \<Rightarrow> addr \<Rightarrow> heap option" where
  "c_free h p =
     (if p = 0 then Some h
      else case hblocks h p of
        None \<Rightarrow> None
      | Some n \<Rightarrow> Some (h\<lparr>hvalid := (\<lambda>x. hvalid h x \<and> \<not> (p \<le> x \<and> x < p + int n)),
                        hblocks := (hblocks h)(p := None)\<rparr>))"

lemma h_ok_iff: "h_ok h a n \<longleftrightarrow> (\<forall>x. a \<le> x \<and> x < a + int n \<longrightarrow> hvalid h x)"
proof
  assume *: "h_ok h a n"
  show "\<forall>x. a \<le> x \<and> x < a + int n \<longrightarrow> hvalid h x"
  proof (intro allI impI)
    fix x assume "a \<le> x \<and> x < a + int n"
    then have "nat (x - a) < n" and "x = a + int (nat (x - a))" by auto
    with * show "hvalid h x" by (metis (mono_tags, lifting) atLeastLessThan_iff h_ok_def
          list.pred_set of_nat_0_le_iff set_upt zero_le)
  qed
qed (auto simp: h_ok_def list_all_iff)

lemma h_ok_sub: "h_ok h a n \<Longrightarrow> a \<le> b \<Longrightarrow> b + int k \<le> a + int n \<Longrightarrow> h_ok h b k"
  by (auto simp: h_ok_iff)

lemma h_ok_0 [simp]: "h_ok h a 0"
  by (simp add: h_ok_def)

end
