(* ===== verification/Pb_Common.thy ===== *)
theory Pb_Common
  imports CMemory
begin

text \<open>
  nanopb: the field descriptors of \<open>pb.h\<close> and the field iterator of \<open>pb_common.c\<close>
  (src/LadyBook/Pods/nanopb), in the configuration the pods are built with:
  \<open>PB_FIELD_32BIT\<close>, so that \<open>pb_size_t\<close> is 32 bits wide, and \<open>PB_ENABLE_MALLOC\<close>.
  A \<open>pb_field_t\<close> array is the list of its entries; reading at or behind its end gives
  \<open>PB_LAST_FIELD\<close>. The \<open>ptr\<close> of a descriptor is null, the identifier of another
  descriptor array, or the bytes of a default value.
\<close>

named_theorems pb_simps \<open>field descriptors and the field iterator\<close>

section \<open>Field descriptors\<close>

datatype pb_ptr = PNull | PFields nat | PData "u8 list"

record pb_field =
  pf_tag :: u32
  pf_type :: u8
  data_offset :: u32
  size_offset :: u32
  data_size :: u32
  array_size :: u32
  pf_ptr :: pb_ptr

abbreviation PB_LTYPE_BOOL :: u8 where "PB_LTYPE_BOOL \<equiv> 0x00"
abbreviation PB_LTYPE_VARINT :: u8 where "PB_LTYPE_VARINT \<equiv> 0x01"
abbreviation PB_LTYPE_UVARINT :: u8 where "PB_LTYPE_UVARINT \<equiv> 0x02"
abbreviation PB_LTYPE_SVARINT :: u8 where "PB_LTYPE_SVARINT \<equiv> 0x03"
abbreviation PB_LTYPE_FIXED32 :: u8 where "PB_LTYPE_FIXED32 \<equiv> 0x04"
abbreviation PB_LTYPE_FIXED64 :: u8 where "PB_LTYPE_FIXED64 \<equiv> 0x05"
abbreviation PB_LTYPE_LAST_PACKABLE :: u8 where "PB_LTYPE_LAST_PACKABLE \<equiv> 0x05"
abbreviation PB_LTYPE_BYTES :: u8 where "PB_LTYPE_BYTES \<equiv> 0x06"
abbreviation PB_LTYPE_STRING :: u8 where "PB_LTYPE_STRING \<equiv> 0x07"
abbreviation PB_LTYPE_SUBMESSAGE :: u8 where "PB_LTYPE_SUBMESSAGE \<equiv> 0x08"
abbreviation PB_LTYPE_EXTENSION :: u8 where "PB_LTYPE_EXTENSION \<equiv> 0x09"
abbreviation PB_LTYPE_FIXED_LENGTH_BYTES :: u8 where "PB_LTYPE_FIXED_LENGTH_BYTES \<equiv> 0x0A"

abbreviation PB_HTYPE_REQUIRED :: u8 where "PB_HTYPE_REQUIRED \<equiv> 0x00"
abbreviation PB_HTYPE_OPTIONAL :: u8 where "PB_HTYPE_OPTIONAL \<equiv> 0x10"
abbreviation PB_HTYPE_REPEATED :: u8 where "PB_HTYPE_REPEATED \<equiv> 0x20"
abbreviation PB_HTYPE_ONEOF :: u8 where "PB_HTYPE_ONEOF \<equiv> 0x30"

abbreviation PB_ATYPE_STATIC :: u8 where "PB_ATYPE_STATIC \<equiv> 0x00"
abbreviation PB_ATYPE_POINTER :: u8 where "PB_ATYPE_POINTER \<equiv> 0x80"
abbreviation PB_ATYPE_CALLBACK :: u8 where "PB_ATYPE_CALLBACK \<equiv> 0x40"

definition PB_ATYPE :: "u8 \<Rightarrow> u8" where "PB_ATYPE x = x AND 0xC0"
definition PB_HTYPE :: "u8 \<Rightarrow> u8" where "PB_HTYPE x = x AND 0x30"
definition PB_LTYPE :: "u8 \<Rightarrow> u8" where "PB_LTYPE x = x AND 0x0F"

definition PB_SIZE_MAX :: u32 where "PB_SIZE_MAX = - 1"

definition PB_LAST_FIELD :: pb_field where
  "PB_LAST_FIELD = \<lparr>pf_tag = 0, pf_type = 0, data_offset = 0, size_offset = 0,
     data_size = 0, array_size = 0, pf_ptr = PNull\<rparr>"

type_synonym pb_fields = "pb_field list"

definition field_at :: "pb_fields \<Rightarrow> nat \<Rightarrow> pb_field" where
  "field_at fs i = (if i < length fs then fs ! i else PB_LAST_FIELD)"

text \<open>The wire types (\<open>pb_wire_type_t\<close>) as their numbers.\<close>

abbreviation PB_WT_VARINT :: u64 where "PB_WT_VARINT \<equiv> 0"
abbreviation PB_WT_64BIT :: u64 where "PB_WT_64BIT \<equiv> 1"
abbreviation PB_WT_STRING :: u64 where "PB_WT_STRING \<equiv> 2"
abbreviation PB_WT_32BIT :: u64 where "PB_WT_32BIT \<equiv> 5"

section \<open>The field iterator\<close>

record pb_field_iter =
  it_start :: pb_fields
  it_pos :: nat
  required_field_index :: u32
  dest_struct :: addr
  it_data :: addr
  it_size :: addr

abbreviation it_field :: "pb_field_iter \<Rightarrow> pb_field" where
  "it_field iter \<equiv> field_at (it_start iter) (it_pos iter)"

definition pb_field_iter_begin :: "pb_fields \<Rightarrow> addr \<Rightarrow> bool \<times> pb_field_iter" where
  "pb_field_iter_begin fs dest =
     (let f = field_at fs 0;
          data = dest + uint (data_offset f)
      in (pf_tag f \<noteq> 0,
          \<lparr>it_start = fs, it_pos = 0, required_field_index = 0, dest_struct = dest,
           it_data = data, it_size = data + sint (size_offset f)\<rparr>))"

definition pb_field_iter_next :: "pb_field_iter \<Rightarrow> bool \<times> pb_field_iter" where
  "pb_field_iter_next iter =
     (let prev_field = it_field iter in
      if pf_tag prev_field = 0 then (False, iter)
      else
        let iter' = iter\<lparr>it_pos := Suc (it_pos iter)\<rparr>;
            cur = it_field iter'
        in if pf_tag cur = 0
           then (False, snd (pb_field_iter_begin (it_start iter') (dest_struct iter')))
           else if PB_HTYPE (pf_type prev_field) = PB_HTYPE_ONEOF \<and>
                   PB_HTYPE (pf_type cur) = PB_HTYPE_ONEOF \<and>
                   data_offset cur = PB_SIZE_MAX
           then (True, iter')
           else
             let prev_size =
                   (if PB_ATYPE (pf_type prev_field) = PB_ATYPE_STATIC \<and>
                       PB_HTYPE (pf_type prev_field) = PB_HTYPE_REPEATED
                    then uint (data_size prev_field) * uint (array_size prev_field)
                    else if PB_ATYPE (pf_type prev_field) = PB_ATYPE_POINTER then 8
                    else uint (data_size prev_field));
                 req =
                   (if PB_HTYPE (pf_type prev_field) = PB_HTYPE_REQUIRED
                    then required_field_index iter' + 1 else required_field_index iter');
                 data = it_data iter' + prev_size + uint (data_offset cur)
             in (True, iter'\<lparr>required_field_index := req, it_data := data,
                             it_size := data + sint (size_offset cur)\<rparr>))"

text \<open>\<open>do { ... } while (iter->pos != start)\<close>: \<open>None\<close> if the loop does not end.\<close>

partial_function (option) iter_find_loop ::
  "(pb_field \<Rightarrow> bool) \<Rightarrow> nat \<Rightarrow> pb_field_iter \<Rightarrow> (bool \<times> pb_field_iter) option" where
  "iter_find_loop found start iter =
     (if found (it_field iter) then Some (True, iter)
      else let iter' = snd (pb_field_iter_next iter) in
        if it_pos iter' \<noteq> start then iter_find_loop found start iter'
        else Some (False, iter'))"

declare iter_find_loop.simps [code]

definition pb_field_iter_find :: "pb_field_iter \<Rightarrow> u32 \<Rightarrow> (bool \<times> pb_field_iter) option" where
  "pb_field_iter_find iter tag =
     iter_find_loop (\<lambda>f. pf_tag f = tag \<and> PB_LTYPE (pf_type f) \<noteq> PB_LTYPE_EXTENSION)
       (it_pos iter) iter"

text \<open>
  The iterator states that a loop \<open>do { ... } while (pb_field_iter_next(&iter))\<close> passes
  through, for the loops whose body leaves the iterator alone.
\<close>

function iter_states :: "pb_field_iter \<Rightarrow> pb_field_iter list" where
  "iter_states iter =
     iter # (if fst (pb_field_iter_next iter) then iter_states (snd (pb_field_iter_next iter)) else [])"
  by pat_completeness auto
termination
proof (relation "measure (\<lambda>iter. length (it_start iter) - it_pos iter)", simp)
  fix iter assume "fst (pb_field_iter_next iter)"
  then show "(snd (pb_field_iter_next iter), iter)
      \<in> measure (\<lambda>iter. length (it_start iter) - it_pos iter)"
    by (auto simp: pb_field_iter_next_def field_at_def PB_LAST_FIELD_def Let_def
        split: if_splits)
qed

declare iter_states.simps [simp del]

section \<open>Laws of the iterator\<close>

text \<open>
  A descriptor array is well-formed when none of its entries is the terminator. The
  iterator after \<open>i\<close> calls of \<open>pb_field_iter_next\<close> is \<open>iter_at fs dest i\<close>.
\<close>

definition wf_fields :: "pb_fields \<Rightarrow> bool" where
  "wf_fields fs \<longleftrightarrow> list_all (\<lambda>f. pf_tag f \<noteq> 0) fs"

primrec iter_at :: "pb_fields \<Rightarrow> addr \<Rightarrow> nat \<Rightarrow> pb_field_iter" where
  "iter_at fs dest 0 = snd (pb_field_iter_begin fs dest)"
| "iter_at fs dest (Suc i) = snd (pb_field_iter_next (iter_at fs dest i))"

lemma field_at_in [pb_simps]: "i < length fs \<Longrightarrow> field_at fs i = fs ! i"
  by (simp add: field_at_def)

lemma field_at_out [pb_simps]: "length fs \<le> i \<Longrightarrow> field_at fs i = PB_LAST_FIELD"
  by (simp add: field_at_def)

lemma PB_LAST_FIELD_tag [simp]: "pf_tag PB_LAST_FIELD = 0"
  by (simp add: PB_LAST_FIELD_def)

lemma wf_fields_tag: "wf_fields fs \<Longrightarrow> pf_tag (field_at fs i) = 0 \<longleftrightarrow> length fs \<le> i"
  by (auto simp: wf_fields_def list_all_length field_at_def)

lemma begin_simps [simp, pb_simps]:
  "fst (pb_field_iter_begin fs dest) \<longleftrightarrow> pf_tag (field_at fs 0) \<noteq> 0"
  "it_start (snd (pb_field_iter_begin fs dest)) = fs"
  "it_pos (snd (pb_field_iter_begin fs dest)) = 0"
  "dest_struct (snd (pb_field_iter_begin fs dest)) = dest"
  by (simp_all add: pb_field_iter_begin_def Let_def)

lemma next_frame [simp, pb_simps]:
  "it_start (snd (pb_field_iter_next iter)) = it_start iter"
  "dest_struct (snd (pb_field_iter_next iter)) = dest_struct iter"
  by (simp_all add: pb_field_iter_next_def Let_def)

lemma next_inside:
  assumes "wf_fields (it_start iter)" "Suc (it_pos iter) < length (it_start iter)"
  shows "fst (pb_field_iter_next iter)" "it_pos (snd (pb_field_iter_next iter)) = Suc (it_pos iter)"
  using assms by (auto simp: pb_field_iter_next_def Let_def wf_fields_tag)

lemma next_wraps:
  assumes "wf_fields (it_start iter)" "Suc (it_pos iter) = length (it_start iter)"
  shows "pb_field_iter_next iter = (False, snd (pb_field_iter_begin (it_start iter) (dest_struct iter)))"
  using assms by (auto simp: pb_field_iter_next_def Let_def wf_fields_tag)

lemma iter_at_frame [simp, pb_simps]:
  "it_start (iter_at fs dest i) = fs" "dest_struct (iter_at fs dest i) = dest"
  by (induction i) simp_all

lemma it_pos_iter_at [pb_simps]:
  "wf_fields fs \<Longrightarrow> i < length fs \<Longrightarrow> it_pos (iter_at fs dest i) = i"
  by (induction i) (simp_all add: next_inside)

lemma next_iter_at:
  assumes "wf_fields fs" "i < length fs"
  shows "snd (pb_field_iter_next (iter_at fs dest i)) = iter_at fs dest (Suc i mod length fs)"
proof (cases "Suc i = length fs")
  case True
  with assms show ?thesis by (simp add: next_wraps it_pos_iter_at)
next
  case False
  with assms show ?thesis by simp
qed

lemma iter_states_iter_at:
  assumes "wf_fields fs" "i < length fs"
  shows "iter_states (iter_at fs dest i) = map (iter_at fs dest) [i..<length fs]"
  using assms
proof (induction "length fs - i" arbitrary: i)
  case (Suc k)
  show ?case
  proof (cases "Suc i = length fs")
    case True
    with Suc.prems have "iter_states (iter_at fs dest i) = [iter_at fs dest i]"
      by (subst iter_states.simps) (simp add: next_wraps it_pos_iter_at)
    with True show ?thesis by (simp add: upt_conv_Cons [of i])
  next
    case False
    with Suc.prems have "Suc i < length fs" by simp
    moreover from this have "iter_states (iter_at fs dest (Suc i)) = map (iter_at fs dest) [Suc i..<length fs]"
      using Suc by (intro Suc.hyps(1)) auto
    ultimately show ?thesis using Suc.prems
      by (subst iter_states.simps) (simp add: next_inside it_pos_iter_at upt_conv_Cons [of i])
  qed
qed simp

text \<open>The search walks through the array cyclically and is back after one round.\<close>

lemma iter_find_loop_walk:
  assumes "wf_fields fs" "i < length fs" "start < length fs"
    and "k < length fs" "\<And>j. j < k \<Longrightarrow> \<not> found (fs ! ((i + j) mod length fs))"
    and "\<And>j. 0 < j \<Longrightarrow> j \<le> k \<Longrightarrow> (i + j) mod length fs \<noteq> start"
  shows "iter_find_loop found start (iter_at fs dest i)
       = iter_find_loop found start (iter_at fs dest ((i + k) mod length fs))"
  using assms(4-)
proof (induction k)
  case (Suc k)
  let ?p = "(i + k) mod length fs"
  have "?p < length fs" using assms(2) by (intro mod_less_divisor) auto
  moreover have "Suc ?p mod length fs = (i + Suc k) mod length fs" by (simp add: mod_Suc_eq)
  ultimately have "snd (pb_field_iter_next (iter_at fs dest ?p)) = iter_at fs dest ((i + Suc k) mod length fs)"
    using assms(1) by (simp add: next_iter_at)
  moreover have "\<not> found (field_at fs ?p)" using Suc.prems(2) [of k] \<open>?p < length fs\<close>
    by (simp add: field_at_in)
  moreover have "(i + Suc k) mod length fs < length fs" using assms(2) by (intro mod_less_divisor) auto
  ultimately have "iter_find_loop found start (iter_at fs dest ?p)
      = iter_find_loop found start (iter_at fs dest ((i + Suc k) mod length fs))"
    using assms(1) Suc.prems(3) [of "Suc k"] \<open>?p < length fs\<close>
    by (subst iter_find_loop.simps) (simp add: it_pos_iter_at Let_def)
  with Suc show ?case by simp
qed (use assms in simp)

lemma mod_add_neq: "i < n \<Longrightarrow> 0 < j \<Longrightarrow> j < n \<Longrightarrow> (i + j) mod n \<noteq> (i :: nat)"
  by (cases "i + j < n") (auto simp: mod_if)

lemma iter_find_loop_none:
  assumes "wf_fields fs" "i < length fs" "\<And>j. j < length fs \<Longrightarrow> \<not> found (fs ! j)"
  shows "iter_find_loop found i (iter_at fs dest i) = Some (False, iter_at fs dest i)"
proof -
  let ?n = "length fs" and ?last = "(i + (length fs - 1)) mod length fs"
  have nf: "\<not> found (fs ! (m mod ?n))" for m
    using assms(2) by (intro assms(3) mod_less_divisor) auto
  have last: "?last < ?n" using assms(2) by (intro mod_less_divisor) auto
  have "Suc (i + (?n - 1)) = i + ?n" using assms(2) by simp
  then have wrap: "Suc ?last mod ?n = i" using assms(2)
    by (metis mod_Suc_eq mod_add_self2 mod_less)
  have "iter_find_loop found i (iter_at fs dest i) = iter_find_loop found i (iter_at fs dest ?last)"
    using assms nf by (intro iter_find_loop_walk) (auto dest: mod_add_neq)
  also have "\<dots> = Some (False, iter_at fs dest i)"
    using assms last wrap next_iter_at [OF assms(1) last, of dest]
    by (subst iter_find_loop.simps) (simp add: field_at_in it_pos_iter_at Let_def)
  finally show ?thesis .
qed

lemma iter_find_loop_some:
  assumes "wf_fields fs" "i < length fs" "k < length fs"
    and "found (fs ! ((i + k) mod length fs))"
    and "\<And>j. j < k \<Longrightarrow> \<not> found (fs ! ((i + j) mod length fs))"
  shows "iter_find_loop found i (iter_at fs dest i) = Some (True, iter_at fs dest ((i + k) mod length fs))"
proof -
  have "(i + k) mod length fs < length fs" using assms(2) by (intro mod_less_divisor) auto
  then have "iter_find_loop found i (iter_at fs dest ((i + k) mod length fs))
      = Some (True, iter_at fs dest ((i + k) mod length fs))"
    using assms by (subst iter_find_loop.simps) (simp add: field_at_in it_pos_iter_at)
  moreover have "iter_find_loop found i (iter_at fs dest i)
      = iter_find_loop found i (iter_at fs dest ((i + k) mod length fs))"
    using assms by (intro iter_find_loop_walk) (auto dest: mod_add_neq)
  ultimately show ?thesis by simp
qed

definition tag_matches :: "u32 \<Rightarrow> pb_field \<Rightarrow> bool" where
  "tag_matches tag f \<longleftrightarrow> pf_tag f = tag \<and> PB_LTYPE (pf_type f) \<noteq> PB_LTYPE_EXTENSION"

lemma iter_find_loop_eq:
  assumes "wf_fields fs" "i < length fs"
  shows "iter_find_loop found i (iter_at fs dest i) =
    Some (case List.find (\<lambda>j. found (fs ! j)) (map (\<lambda>k. (i + k) mod length fs) [0..<length fs]) of
        Some j \<Rightarrow> (True, iter_at fs dest j)
      | None \<Rightarrow> (False, iter_at fs dest i))"
proof (cases "List.find (\<lambda>j. found (fs ! j)) (map (\<lambda>k. (i + k) mod length fs) [0..<length fs])")
  case None
  have "\<not> found (fs ! j)" if "j < length fs" for j
  proof -
    have "j = (i + ((j + (length fs - i)) mod length fs)) mod length fs"
      using that assms(2) by (simp add: mod_add_right_eq)
    moreover have "(j + (length fs - i)) mod length fs < length fs"
      using assms(2) by (intro mod_less_divisor) auto
    ultimately have "j \<in> set (map (\<lambda>k. (i + k) mod length fs) [0..<length fs])"
      by (metis (no_types, lifting) atLeastLessThan_iff image_eqI list.set_map set_upt zero_le)
    with None show ?thesis by (auto simp: find_None_iff)
  qed
  with None assms show ?thesis by (simp add: iter_find_loop_none)
next
  case (Some j)
  then obtain k where k: "k < length fs" "found (fs ! ((i + k) mod length fs))"
    "j = (i + k) mod length fs" "\<And>l. l < k \<Longrightarrow> \<not> found (fs ! ((i + l) mod length fs))"
    by (auto simp: find_Some_iff)
  then show ?thesis using assms Some by (simp add: iter_find_loop_some)
qed

text \<open>The loops over an array see its entries only, also when it is not well-formed.\<close>

lemma iter_states_field:
  "it \<in> set (iter_states iter) \<Longrightarrow> pf_tag (it_field iter) \<noteq> 0 \<Longrightarrow>
   it_start it = it_start iter \<and> pf_tag (it_field it) \<noteq> 0"
proof (induction iter rule: iter_states.induct)
  case (1 iter)
  show ?case
  proof (cases "it = iter")
    case False
    with "1.prems" have more: "fst (pb_field_iter_next iter)"
      and "it \<in> set (iter_states (snd (pb_field_iter_next iter)))"
      by (auto simp: iter_states.simps [of iter] split: if_splits)
    moreover have "pf_tag (it_field (snd (pb_field_iter_next iter))) \<noteq> 0"
      using more by (auto simp: pb_field_iter_next_def Let_def split: if_splits)
    ultimately have "it_start it = it_start (snd (pb_field_iter_next iter)) \<and> pf_tag (it_field it) \<noteq> 0"
      by (rule "1.IH")
    then show ?thesis unfolding next_frame .
  qed (use "1.prems" in simp)
qed

lemma iter_states_begin_field:
  assumes "fst (pb_field_iter_begin fs dest)"
    and "it \<in> set (iter_states (snd (pb_field_iter_begin fs dest)))"
  shows "it_field it \<in> set fs"
proof -
  have "it_start it = fs" "pf_tag (it_field it) \<noteq> 0"
    using iter_states_field [OF assms(2)] assms(1) by auto
  then show ?thesis by (auto simp: field_at_def split: if_splits)
qed

section \<open>Error messages\<close>

text \<open>\<open>PB_SET_ERROR\<close>: the first message wins.\<close>

definition PB_SET_ERROR :: "string option \<Rightarrow> string \<Rightarrow> string option" where
  "PB_SET_ERROR errmsg msg = (case errmsg of None \<Rightarrow> Some msg | Some e \<Rightarrow> Some e)"

section \<open>Properties of the iterator\<close>

text \<open>
  C6. A field search always ends, and it finds the first entry with the tag that is not an
  extension entry, in the cyclic order that starts at the current one; if there is none the
  iterator is back where it was. Here the iterator is at entry \<open>i\<close> of a well-formed array.
\<close>

theorem pb_field_iter_find_first:
  assumes "wf_fields fs" "i < length fs"
  shows "pb_field_iter_find (iter_at fs dest i) tag = Some
    (case List.find (\<lambda>j. pf_tag (fs ! j) = tag \<and> PB_LTYPE (pf_type (fs ! j)) \<noteq> PB_LTYPE_EXTENSION)
            (map (\<lambda>k. (i + k) mod length fs) [0..<length fs]) of
       Some j \<Rightarrow> (True, iter_at fs dest j)
     | None \<Rightarrow> (False, iter_at fs dest i))"
  unfolding pb_field_iter_find_def
  using iter_find_loop_eq [OF assms, of _ dest] assms by (simp add: it_pos_iter_at)

text \<open>A message with a required \<open>int32\<close> field and a required string of at most seven characters.\<close>

definition sample_fields :: pb_fields where
  "sample_fields =
     [\<lparr>pf_tag = 1, pf_type = PB_LTYPE_VARINT, data_offset = 0, size_offset = 0, data_size = 4,
       array_size = 0, pf_ptr = PNull\<rparr>,
      \<lparr>pf_tag = 2, pf_type = PB_LTYPE_STRING, data_offset = 0, size_offset = 0, data_size = 8,
       array_size = 0, pf_ptr = PNull\<rparr>]"

lemma sample_fields_wf: "wf_fields sample_fields" "length sample_fields = 2"
  by (simp_all add: sample_fields_def wf_fields_def)

lemma pb_field_iter_find_first_witness:
  "pb_field_iter_find (iter_at sample_fields 64 1) 1 = Some (True, iter_at sample_fields 64 0)"
proof -
  have "wf_fields sample_fields" "1 < length sample_fields" by (simp_all add: sample_fields_wf)
  from pb_field_iter_find_first [OF this, of 64 1] show ?thesis
    by (simp add: sample_fields_def PB_LTYPE_def upt_conv_Cons)
qed

end
