(* ===== verification/Pb_Encode.thy ===== *)
theory Pb_Encode
  imports Pb_Common
begin

text \<open>
  nanopb: the encoder, \<open>pb_encode.c\<close> (src/LadyBook/Pods/nanopb), in the configuration
  without \<open>PB_WITHOUT_64BIT\<close>, \<open>PB_BUFFER_ONLY\<close> and \<open>PB_ENCODE_ARRAYS_UNPACKED\<close>.

  An output stream is a record; \<open>os_sink\<close> holds the \<open>callback\<close> together with its
  \<open>state\<close>, and is \<open>None\<close> for a sizing stream (\<open>callback == NULL\<close>). The C functions
  \<open>f(stream, args)\<close> become \<open>f args :: 's pb_ostream step\<close>. The message struct is read
  from a memory function. The user's code (the callbacks of callback fields and of
  extension types) is a parameter in \<open>enc_env\<close>, as are the descriptor arrays that the
  \<open>ptr\<close> of a descriptor and the \<open>arg\<close> of an extension type point to. The recursion over
  submessages takes fuel; the argument \<open>rec\<close> of the functions below is \<open>pb_encode\<close> with
  one unit less.
\<close>

section \<open>Output streams\<close>

record 's pb_ostream =
  os_sink :: "(('s \<Rightarrow> u8 list \<Rightarrow> bool \<times> 's) \<times> 's) option"
  max_size :: u64
  bytes_written :: u64
  os_errmsg :: "string option"

record 's enc_env =
  descs :: "nat \<Rightarrow> pb_fields"
  emem :: "addr \<Rightarrow> u8"
  ext_arg :: "addr \<Rightarrow> pb_fields"
  cb_encode :: "addr \<Rightarrow> pb_field \<Rightarrow> addr \<Rightarrow> 's pb_ostream step"
  ext_encode :: "addr \<Rightarrow> addr \<Rightarrow> 's pb_ostream step"

definition PB_OSTREAM_SIZING :: "'s pb_ostream" where
  "PB_OSTREAM_SIZING = \<lparr>os_sink = None, max_size = 0, bytes_written = 0, os_errmsg = None\<rparr>"

text \<open>\<open>PB_RETURN_ERROR(stream, msg)\<close>\<close>

definition enc_error :: "string \<Rightarrow> 's pb_ostream step" where
  "enc_error msg = (\<lambda>stream.
     Some (False, stream\<lparr>os_errmsg := PB_SET_ERROR (os_errmsg stream) msg\<rparr>))"

text \<open>
  The sink of a stream that writes into memory: its state is the memory and the
  destination pointer.
\<close>

type_synonym membuf = "(addr \<Rightarrow> u8) \<times> addr"

definition buf_write :: "membuf \<Rightarrow> u8 list \<Rightarrow> bool \<times> membuf" where
  "buf_write st buf = (case st of (m, dest) \<Rightarrow>
     (True, (put_bytes m dest buf, dest + int (length buf))))"

definition pb_ostream_from_buffer :: "(addr \<Rightarrow> u8) \<Rightarrow> addr \<Rightarrow> u64 \<Rightarrow> membuf pb_ostream" where
  "pb_ostream_from_buffer m buf bufsize =
     \<lparr>os_sink = Some (buf_write, (m, buf)), max_size = bufsize, bytes_written = 0,
      os_errmsg = None\<rparr>"

text \<open>\<open>buf\<close> stands for the \<open>count\<close> bytes at \<open>buf\<close>; a sizing stream never looks at them.\<close>

definition pb_write :: "u8 list \<Rightarrow> u64 \<Rightarrow> 's pb_ostream step" where
  "pb_write buf count = (\<lambda>stream.
     case os_sink stream of
       None \<Rightarrow> Some (True, stream\<lparr>bytes_written := bytes_written stream + count\<rparr>)
     | Some (write, st) \<Rightarrow>
         if count > 0 then
           if bytes_written stream + count < bytes_written stream \<or>
              bytes_written stream + count > max_size stream
           then enc_error ''stream full'' stream
           else case write st buf of (ok, st') \<Rightarrow>
             let stream' = stream\<lparr>os_sink := Some (write, st')\<rparr> in
             if \<not> ok then enc_error ''io error'' stream'
             else Some (True, stream'\<lparr>bytes_written := bytes_written stream' + count\<rparr>)
         else Some (True, stream\<lparr>bytes_written := bytes_written stream + count\<rparr>))"

section \<open>Writing values\<close>

function varint_bytes :: "u64 \<Rightarrow> u8 list" where
  "varint_bytes value =
     (if value = 0 then []
      else (ucast (value AND 0x7F) OR 0x80) # varint_bytes (drop_bit 7 value))"
  by pat_completeness auto
termination
proof (relation "measure unat", simp)
  fix v :: u64 assume "v \<noteq> 0"
  then have "unat v \<noteq> 0" by (simp add: unat_eq_0)
  then have "unat v div 128 < unat v" by simp
  then show "(drop_bit 7 v, v) \<in> measure unat"
    by (simp add: unat_drop_bit_div)
qed

declare varint_bytes.simps [simp del]

definition pb_encode_varint :: "u64 \<Rightarrow> 's pb_ostream step" where
  "pb_encode_varint value =
     (if value \<le> 0x7F then pb_write [ucast value] 1
      else
        let buffer = varint_bytes value;
            i = length buffer;
            buffer' = buffer[i - 1 := (buffer ! (i - 1)) AND 0x7F]
        in pb_write buffer' (word_of_nat i))"

definition pb_encode_svarint :: "u64 \<Rightarrow> 's pb_ostream step" where
  "pb_encode_svarint value =
     (let zigzagged = (if sint value < 0 then NOT (push_bit 1 value) else push_bit 1 value)
      in pb_encode_varint zigzagged)"

definition pb_encode_fixed32 :: "u32 \<Rightarrow> 's pb_ostream step" where
  "pb_encode_fixed32 val =
     pb_write [ucast (val AND 0xFF), ucast (drop_bit 8 val AND 0xFF),
               ucast (drop_bit 16 val AND 0xFF), ucast (drop_bit 24 val AND 0xFF)] 4"

definition pb_encode_fixed64 :: "u64 \<Rightarrow> 's pb_ostream step" where
  "pb_encode_fixed64 val =
     pb_write [ucast (val AND 0xFF), ucast (drop_bit 8 val AND 0xFF),
               ucast (drop_bit 16 val AND 0xFF), ucast (drop_bit 24 val AND 0xFF),
               ucast (drop_bit 32 val AND 0xFF), ucast (drop_bit 40 val AND 0xFF),
               ucast (drop_bit 48 val AND 0xFF), ucast (drop_bit 56 val AND 0xFF)] 8"

definition pb_encode_tag :: "u64 \<Rightarrow> u32 \<Rightarrow> 's pb_ostream step" where
  "pb_encode_tag wiretype field_number =
     pb_encode_varint (push_bit 3 (ucast field_number) OR wiretype)"

definition pb_encode_tag_for_field :: "pb_field \<Rightarrow> 's pb_ostream step" where
  "pb_encode_tag_for_field field =
     (let lt = PB_LTYPE (pf_type field) in
      if lt = PB_LTYPE_BOOL \<or> lt = PB_LTYPE_VARINT \<or> lt = PB_LTYPE_UVARINT \<or> lt = PB_LTYPE_SVARINT
      then pb_encode_tag PB_WT_VARINT (pf_tag field)
      else if lt = PB_LTYPE_FIXED32 then pb_encode_tag PB_WT_32BIT (pf_tag field)
      else if lt = PB_LTYPE_FIXED64 then pb_encode_tag PB_WT_64BIT (pf_tag field)
      else if lt = PB_LTYPE_BYTES \<or> lt = PB_LTYPE_STRING \<or> lt = PB_LTYPE_SUBMESSAGE \<or>
              lt = PB_LTYPE_FIXED_LENGTH_BYTES
      then pb_encode_tag PB_WT_STRING (pf_tag field)
      else enc_error ''invalid field type'')"

definition pb_encode_string :: "u8 list \<Rightarrow> u64 \<Rightarrow> 's pb_ostream step" where
  "pb_encode_string buffer sz = and_then (pb_encode_varint sz) (pb_write buffer sz)"

text \<open>
  \<open>rec fs src\<close> encodes the submessage. The message is encoded twice, first into a
  sizing stream and then into a substream limited to the size found; the second definition
  is the part of the function before \<open>pb_encode_varint\<close>, the first one the part after it.
\<close>

definition submessage_body ::
  "(pb_fields \<Rightarrow> addr \<Rightarrow> 's pb_ostream step) \<Rightarrow> pb_fields \<Rightarrow> addr \<Rightarrow> u64 \<Rightarrow> 's pb_ostream step" where
  "submessage_body rec fs src sz = (\<lambda>stream.
     if os_sink stream = None then pb_write [] sz stream
     else if bytes_written stream + sz > max_size stream
     then enc_error ''stream full'' stream
     else
       case rec fs src \<lparr>os_sink = os_sink stream, max_size = sz, bytes_written = 0,
                        os_errmsg = None\<rparr> of
         None \<Rightarrow> None
       | Some (status, substream) \<Rightarrow>
           let stream' = stream\<lparr>bytes_written := bytes_written stream + bytes_written substream,
                                os_sink := os_sink substream,
                                os_errmsg := os_errmsg substream\<rparr> in
           if bytes_written substream \<noteq> sz
           then enc_error ''submsg size changed'' stream'
           else Some (status, stream'))"

definition pb_encode_submessage ::
  "(pb_fields \<Rightarrow> addr \<Rightarrow> 's pb_ostream step) \<Rightarrow> pb_fields \<Rightarrow> addr \<Rightarrow> 's pb_ostream step" where
  "pb_encode_submessage rec fs src = (\<lambda>stream.
     case rec fs src PB_OSTREAM_SIZING of
       None \<Rightarrow> None
     | Some (False, substream) \<Rightarrow> Some (False, stream\<lparr>os_errmsg := os_errmsg substream\<rparr>)
     | Some (True, substream) \<Rightarrow>
         let sz = bytes_written substream in
         and_then (pb_encode_varint sz) (submessage_body rec fs src sz) stream)"

section \<open>Field encoders\<close>

definition safe_read_bool :: "(addr \<Rightarrow> u8) \<Rightarrow> addr \<Rightarrow> bool" where
  "safe_read_bool m pSize = (m pSize \<noteq> 0)"

definition pb_enc_bool :: "(addr \<Rightarrow> u8) \<Rightarrow> pb_field \<Rightarrow> addr \<Rightarrow> 's pb_ostream step" where
  "pb_enc_bool m field src = pb_encode_varint (if safe_read_bool m src then 1 else 0)"

definition pb_enc_varint :: "(addr \<Rightarrow> u8) \<Rightarrow> pb_field \<Rightarrow> addr \<Rightarrow> 's pb_ostream step" where
  "pb_enc_varint m field src =
     (if data_size field = 1 then pb_encode_varint (scast (m src))
      else if data_size field = 2 then pb_encode_varint (scast (rd_u16 m src))
      else if data_size field = 4 then pb_encode_varint (scast (rd_u32 m src))
      else if data_size field = 8 then pb_encode_varint (rd_u64 m src)
      else enc_error ''invalid data_size'')"

definition pb_enc_uvarint :: "(addr \<Rightarrow> u8) \<Rightarrow> pb_field \<Rightarrow> addr \<Rightarrow> 's pb_ostream step" where
  "pb_enc_uvarint m field src =
     (if data_size field = 1 then pb_encode_varint (ucast (m src))
      else if data_size field = 2 then pb_encode_varint (ucast (rd_u16 m src))
      else if data_size field = 4 then pb_encode_varint (ucast (rd_u32 m src))
      else if data_size field = 8 then pb_encode_varint (rd_u64 m src)
      else enc_error ''invalid data_size'')"

definition pb_enc_svarint :: "(addr \<Rightarrow> u8) \<Rightarrow> pb_field \<Rightarrow> addr \<Rightarrow> 's pb_ostream step" where
  "pb_enc_svarint m field src =
     (if data_size field = 1 then pb_encode_svarint (scast (m src))
      else if data_size field = 2 then pb_encode_svarint (scast (rd_u16 m src))
      else if data_size field = 4 then pb_encode_svarint (scast (rd_u32 m src))
      else if data_size field = 8 then pb_encode_svarint (rd_u64 m src)
      else enc_error ''invalid data_size'')"

definition pb_enc_fixed32 :: "(addr \<Rightarrow> u8) \<Rightarrow> pb_field \<Rightarrow> addr \<Rightarrow> 's pb_ostream step" where
  "pb_enc_fixed32 m field src = pb_encode_fixed32 (rd_u32 m src)"

definition pb_enc_fixed64 :: "(addr \<Rightarrow> u8) \<Rightarrow> pb_field \<Rightarrow> addr \<Rightarrow> 's pb_ostream step" where
  "pb_enc_fixed64 m field src = pb_encode_fixed64 (rd_u64 m src)"

text \<open>A \<open>pb_bytes_array_t\<close> is a 32-bit size followed by the bytes.\<close>

definition pb_enc_bytes :: "(addr \<Rightarrow> u8) \<Rightarrow> pb_field \<Rightarrow> addr \<Rightarrow> 's pb_ostream step" where
  "pb_enc_bytes m field src =
     (if src = 0 then pb_encode_string [] 0
      else
        let sz = ucast (rd_u32 m src) :: u64;
            allocsize = sz + 4
        in if allocsize < sz \<or>
              (PB_ATYPE (pf_type field) = PB_ATYPE_STATIC \<and> allocsize > ucast (data_size field))
           then enc_error ''bytes size exceeded''
           else pb_encode_string (rd_bytes m (src + 4) (unat sz)) sz)"

function strnlen_loop :: "(addr \<Rightarrow> u8) \<Rightarrow> addr \<Rightarrow> nat \<Rightarrow> nat \<Rightarrow> nat" where
  "strnlen_loop m p sz limit =
     (if sz < limit \<and> m p \<noteq> 0 then strnlen_loop m (p + 1) (Suc sz) limit else sz)"
  by pat_completeness auto
termination by (relation "measure (\<lambda>(m, p, sz, limit). limit - sz)") auto

declare strnlen_loop.simps [simp del]

definition pb_enc_string :: "(addr \<Rightarrow> u8) \<Rightarrow> pb_field \<Rightarrow> addr \<Rightarrow> 's pb_ostream step" where
  "pb_enc_string m field src =
     (let limit = (if PB_ATYPE (pf_type field) = PB_ATYPE_POINTER then 2 ^ 64 - 1
                      else unat (data_size field));
          sz = (if src = 0 then 0 else strnlen_loop m src 0 limit)
      in pb_encode_string (rd_bytes m src sz) (word_of_nat sz))"

definition pb_enc_fixed_length_bytes :: "(addr \<Rightarrow> u8) \<Rightarrow> pb_field \<Rightarrow> addr \<Rightarrow> 's pb_ostream step" where
  "pb_enc_fixed_length_bytes m field src =
     pb_encode_string (rd_bytes m src (unat (data_size field))) (ucast (data_size field))"

definition pb_enc_submessage ::
  "(nat \<Rightarrow> pb_fields) \<Rightarrow> (pb_fields \<Rightarrow> addr \<Rightarrow> 's pb_ostream step) \<Rightarrow>
   pb_field \<Rightarrow> addr \<Rightarrow> 's pb_ostream step" where
  "pb_enc_submessage ds rec field src =
     (case pf_ptr field of
        PNull \<Rightarrow> enc_error ''invalid field descriptor''
      | PFields k \<Rightarrow> pb_encode_submessage rec (ds k) src
      | PData _ \<Rightarrow> undef)"

text \<open>The table \<open>PB_ENCODERS\<close>; its null entry and the indices behind its end cannot be called.\<close>

definition PB_ENCODERS ::
  "'s enc_env \<Rightarrow> (pb_fields \<Rightarrow> addr \<Rightarrow> 's pb_ostream step) \<Rightarrow> u8 \<Rightarrow>
   pb_field \<Rightarrow> addr \<Rightarrow> 's pb_ostream step" where
  "PB_ENCODERS env rec ltype =
     (if ltype = PB_LTYPE_BOOL then pb_enc_bool (emem env)
      else if ltype = PB_LTYPE_VARINT then pb_enc_varint (emem env)
      else if ltype = PB_LTYPE_UVARINT then pb_enc_uvarint (emem env)
      else if ltype = PB_LTYPE_SVARINT then pb_enc_svarint (emem env)
      else if ltype = PB_LTYPE_FIXED32 then pb_enc_fixed32 (emem env)
      else if ltype = PB_LTYPE_FIXED64 then pb_enc_fixed64 (emem env)
      else if ltype = PB_LTYPE_BYTES then pb_enc_bytes (emem env)
      else if ltype = PB_LTYPE_STRING then pb_enc_string (emem env)
      else if ltype = PB_LTYPE_SUBMESSAGE then pb_enc_submessage (descs env) rec
      else if ltype = PB_LTYPE_FIXED_LENGTH_BYTES then pb_enc_fixed_length_bytes (emem env)
      else (\<lambda>field src. undef))"

section \<open>Encoding a field\<close>

text \<open>
  The test for the proto3 default value; the fuel bounds the nesting of submessages.
\<close>

primrec all_opt :: "('a \<Rightarrow> bool option) \<Rightarrow> 'a list \<Rightarrow> bool option" where
  "all_opt f [] = Some True"
| "all_opt f (x # xs) = (case f x of None \<Rightarrow> None | Some b \<Rightarrow> if b then all_opt f xs else Some False)"

definition field_bytes_zero :: "(addr \<Rightarrow> u8) \<Rightarrow> pb_field \<Rightarrow> addr \<Rightarrow> bool" where
  "field_bytes_zero m field pData = list_all (\<lambda>b. b = 0) (rd_bytes m pData (unat (data_size field)))"

primrec pb_check_proto3_default_value ::
  "nat \<Rightarrow> (nat \<Rightarrow> pb_fields) \<Rightarrow> (addr \<Rightarrow> u8) \<Rightarrow> pb_field \<Rightarrow> addr \<Rightarrow> bool option" where
  "pb_check_proto3_default_value 0 ds m field pData = None"
| "pb_check_proto3_default_value (Suc n) ds m field pData =
     (let type = pf_type field;
          pSize = pData + sint (size_offset field)
      in
      if PB_HTYPE type = PB_HTYPE_REQUIRED then Some False
      else if PB_HTYPE type = PB_HTYPE_REPEATED \<and> size_offset field \<noteq> 0 then
        Some (rd_u32 m pSize = 0)
      else if PB_HTYPE type = PB_HTYPE_REPEATED \<and> PB_ATYPE type = PB_ATYPE_STATIC then
        Some False
      else if PB_HTYPE type = PB_HTYPE_ONEOF then Some (rd_u32 m pSize = 0)
      else if PB_HTYPE type = PB_HTYPE_OPTIONAL \<and> size_offset field \<noteq> 0 then
        Some (\<not> safe_read_bool m pSize)
      else if PB_ATYPE type = PB_ATYPE_STATIC \<and> PB_LTYPE type = PB_LTYPE_BYTES then
        Some (rd_u32 m pData = 0)
      else if PB_ATYPE type = PB_ATYPE_STATIC \<and> PB_LTYPE type = PB_LTYPE_STRING then
        Some (m pData = 0)
      else if PB_ATYPE type = PB_ATYPE_STATIC \<and> PB_LTYPE type = PB_LTYPE_FIXED_LENGTH_BYTES then
        Some (data_size field = 0)
      else if PB_ATYPE type = PB_ATYPE_STATIC \<and> PB_LTYPE type = PB_LTYPE_SUBMESSAGE then
        (case pf_ptr field of
           PFields k \<Rightarrow>
             (case pb_field_iter_begin (ds k) pData of (ok, iter) \<Rightarrow>
                if ok
                then all_opt (\<lambda>it. pb_check_proto3_default_value n ds m (it_field it) (it_data it))
                       (iter_states iter)
                else Some True)
         | _ \<Rightarrow> None)
      else if PB_ATYPE type = PB_ATYPE_POINTER \<and> PB_LTYPE type > PB_LTYPE_LAST_PACKABLE then
        Some (rd_ptr m pData = 0)
      else Some (field_bytes_zero m field pData))"

text \<open>
  \<open>func\<close> is the encoder of one entry. The entries of the array are at \<open>pData\<close>,
  \<open>pData + data_size\<close> and so on.
\<close>

definition array_items :: "pb_field \<Rightarrow> addr \<Rightarrow> nat \<Rightarrow> addr list" where
  "array_items field pData count = map (\<lambda>i. pData + int i * uint (data_size field)) [0..<count]"

definition encode_array ::
  "(addr \<Rightarrow> u8) \<Rightarrow> pb_field \<Rightarrow> addr \<Rightarrow> u64 \<Rightarrow> (pb_field \<Rightarrow> addr \<Rightarrow> 's pb_ostream step) \<Rightarrow>
   's pb_ostream step" where
  "encode_array m field pData count func =
     (let type = pf_type field; items = array_items field pData (unat count) in
      if count = 0 then ret True
      else if PB_ATYPE type \<noteq> PB_ATYPE_POINTER \<and> count > ucast (array_size field)
      then enc_error ''array max size exceeded''
      else if PB_LTYPE type \<le> PB_LTYPE_LAST_PACKABLE then
        and_then (pb_encode_tag PB_WT_STRING (pf_tag field)) (\<lambda>stream.
          case (if PB_LTYPE type = PB_LTYPE_FIXED32
                then Some (True, PB_OSTREAM_SIZING\<lparr>bytes_written := 4 * count\<rparr>)
                else if PB_LTYPE type = PB_LTYPE_FIXED64
                then Some (True, PB_OSTREAM_SIZING\<lparr>bytes_written := 8 * count\<rparr>)
                else all_steps (func field) items PB_OSTREAM_SIZING) of
            None \<Rightarrow> None
          | Some (False, sizestream) \<Rightarrow> Some (False, stream)
          | Some (True, sizestream) \<Rightarrow>
              let sz = bytes_written sizestream in
              and_then (pb_encode_varint sz) (\<lambda>stream.
                if os_sink stream = None then pb_write [] sz stream
                else all_steps (func field) items stream) stream)
      else
        all_steps (\<lambda>p. and_then (pb_encode_tag_for_field field)
            (if PB_ATYPE type = PB_ATYPE_POINTER \<and>
                (PB_LTYPE type = PB_LTYPE_STRING \<or> PB_LTYPE type = PB_LTYPE_BYTES)
             then func field (rd_ptr m p)
             else func field p)) items)"

text \<open>
  \<open>pSize\<close> points to the has/count/which field when \<open>size_offset\<close> is not zero, and to the
  local flag \<open>implicit_has\<close> otherwise; reading a \<open>which\<close> field from that flag is undefined.
\<close>

definition encode_basic_field ::
  "nat \<Rightarrow> 's enc_env \<Rightarrow> (pb_fields \<Rightarrow> addr \<Rightarrow> 's pb_ostream step) \<Rightarrow>
   pb_field \<Rightarrow> addr \<Rightarrow> 's pb_ostream step" where
  "encode_basic_field n env rec field pData =
     (let m = emem env;
          type = pf_type field;
          func = PB_ENCODERS env rec (PB_LTYPE type);
          pSize = pData + sint (size_offset field);
          has0 = (if size_offset field \<noteq> 0 then Some True
                  else if PB_HTYPE type = PB_HTYPE_OPTIONAL
                  then map_option Not (pb_check_proto3_default_value n (descs env) m field pData)
                  else Some True);
          pData' = (if PB_ATYPE type = PB_ATYPE_POINTER then rd_ptr m pData else pData)
      in case has0 of None \<Rightarrow> undef | Some implicit0 \<Rightarrow>
        let implicit_has = (if PB_ATYPE type = PB_ATYPE_POINTER then pData' \<noteq> 0 else implicit0) in
        if PB_HTYPE type = PB_HTYPE_REQUIRED then
          if pData' = 0 then enc_error ''missing required field''
          else and_then (pb_encode_tag_for_field field) (func field pData')
        else if PB_HTYPE type = PB_HTYPE_OPTIONAL then
          if (if size_offset field \<noteq> 0 then safe_read_bool m pSize else implicit_has)
          then and_then (pb_encode_tag_for_field field) (func field pData')
          else ret True
        else if PB_HTYPE type = PB_HTYPE_REPEATED then
          let count = (if size_offset field \<noteq> 0 then rd_u32 m pSize else array_size field)
          in encode_array m field pData' (ucast count) func
        else if PB_HTYPE type = PB_HTYPE_ONEOF then
          if size_offset field = 0 then undef
          else if rd_u32 m pSize = pf_tag field
          then and_then (pb_encode_tag_for_field field) (func field pData')
          else ret True
        else enc_error ''invalid field type'')"

text \<open>\<open>if (!a) PB_RETURN_ERROR(stream, msg); return true;\<close>\<close>

definition or_error :: "string \<Rightarrow> 's pb_ostream step \<Rightarrow> 's pb_ostream step" where
  "or_error msg a = (\<lambda>stream. case a stream of
       None \<Rightarrow> None
     | Some (ok, stream') \<Rightarrow> if ok then Some (True, stream') else enc_error msg stream')"

text \<open>A \<open>pb_callback_t\<close> is the function pointer followed by the argument.\<close>

definition encode_callback_field :: "'s enc_env \<Rightarrow> pb_field \<Rightarrow> addr \<Rightarrow> 's pb_ostream step" where
  "encode_callback_field env field pData = (\<lambda>stream.
     let fn = rd_ptr (emem env) pData; arg = pData + 8 in
     if fn \<noteq> 0 then or_error ''callback error'' (cb_encode env fn field arg) stream
     else Some (True, stream))"

definition encode_field ::
  "nat \<Rightarrow> 's enc_env \<Rightarrow> (pb_fields \<Rightarrow> addr \<Rightarrow> 's pb_ostream step) \<Rightarrow>
   pb_field \<Rightarrow> addr \<Rightarrow> 's pb_ostream step" where
  "encode_field n env rec field pData =
     (let at = PB_ATYPE (pf_type field) in
      if at = PB_ATYPE_STATIC \<or> at = PB_ATYPE_POINTER then encode_basic_field n env rec field pData
      else if at = PB_ATYPE_CALLBACK then encode_callback_field env field pData
      else enc_error ''invalid field type'')"

text \<open>
  A \<open>pb_extension_t\<close> has its type at offset 0, \<open>dest\<close> at 8 and \<open>next\<close> at 16; a
  \<open>pb_extension_type_t\<close> has \<open>decode\<close> at 0, \<open>encode\<close> at 8 and \<open>arg\<close> at 16.
\<close>

definition default_extension_encoder ::
  "nat \<Rightarrow> 's enc_env \<Rightarrow> (pb_fields \<Rightarrow> addr \<Rightarrow> 's pb_ostream step) \<Rightarrow> addr \<Rightarrow> 's pb_ostream step" where
  "default_extension_encoder n env rec extension =
     (let m = emem env;
          field = field_at (ext_arg env (rd_ptr m (rd_ptr m extension + 16))) 0
      in if PB_ATYPE (pf_type field) = PB_ATYPE_POINTER
         then encode_field n env rec field (extension + 8)
         else encode_field n env rec field (rd_ptr m (extension + 8)))"

primrec extension_loop ::
  "nat \<Rightarrow> nat \<Rightarrow> 's enc_env \<Rightarrow> (pb_fields \<Rightarrow> addr \<Rightarrow> 's pb_ostream step) \<Rightarrow> addr \<Rightarrow>
   's pb_ostream step" where
  "extension_loop 0 n env rec extension = (if extension = 0 then ret True else undef)"
| "extension_loop (Suc k) n env rec extension =
     (if extension = 0 then ret True
      else
        let encode = rd_ptr (emem env) (rd_ptr (emem env) extension + 8) in
        and_then
          (if encode \<noteq> 0 then ext_encode env encode extension
           else default_extension_encoder n env rec extension)
          (extension_loop k n env rec (rd_ptr (emem env) (extension + 16))))"

definition encode_extension_field ::
  "nat \<Rightarrow> 's enc_env \<Rightarrow> (pb_fields \<Rightarrow> addr \<Rightarrow> 's pb_ostream step) \<Rightarrow>
   pb_field \<Rightarrow> addr \<Rightarrow> 's pb_ostream step" where
  "encode_extension_field n env rec field pData =
     extension_loop n n env rec (rd_ptr (emem env) pData)"

section \<open>Encoding a message\<close>

primrec pb_encode :: "nat \<Rightarrow> 's enc_env \<Rightarrow> pb_fields \<Rightarrow> addr \<Rightarrow> 's pb_ostream step" where
  "pb_encode 0 env fs src_struct = undef"
| "pb_encode (Suc n) env fs src_struct =
     (case pb_field_iter_begin fs src_struct of (ok, iter) \<Rightarrow>
        if \<not> ok then ret True
        else all_steps (\<lambda>it.
          if PB_LTYPE (pf_type (it_field it)) = PB_LTYPE_EXTENSION
          then encode_extension_field (Suc n) env (pb_encode n env) (it_field it) (it_data it)
          else encode_field (Suc n) env (pb_encode n env) (it_field it) (it_data it)) (iter_states iter))"

definition pb_encode_delimited :: "nat \<Rightarrow> 's enc_env \<Rightarrow> pb_fields \<Rightarrow> addr \<Rightarrow> 's pb_ostream step" where
  "pb_encode_delimited n env fs src_struct = pb_encode_submessage (pb_encode n env) fs src_struct"

definition pb_encode_nullterminated :: "nat \<Rightarrow> 's enc_env \<Rightarrow> pb_fields \<Rightarrow> addr \<Rightarrow> 's pb_ostream step" where
  "pb_encode_nullterminated n env fs src_struct =
     and_then (pb_encode n env fs src_struct) (pb_write [0] 1)"

text \<open>\<open>Some None\<close>: returns false and leaves \<open>*size\<close> alone.\<close>

definition pb_get_encoded_size :: "nat \<Rightarrow> 's enc_env \<Rightarrow> pb_fields \<Rightarrow> addr \<Rightarrow> u64 option option" where
  "pb_get_encoded_size n env fs src_struct =
     map_option (\<lambda>(ok, stream). if ok then Some (bytes_written stream) else None)
       (pb_encode n env fs src_struct PB_OSTREAM_SIZING)"

end
