(* ===== verification/Pb_Wire.thy ===== *)
theory Pb_Wire
  imports Pb_Encode
begin

text \<open>
  The wire format of a message: the bytes that a message in memory stands for, defined from the documents
  of the protocol buffers (varints are little-endian groups of seven bits, a key is a field number and a wire
  type, strings and submessages follow their length), and an upper bound of the encoded size. The functions
  of \<open>pb_encode.c\<close> are compared with this in \<open>Pb_Encode_Spec\<close>. The lemmas of the last section are the
  parts of that comparison that do not depend on a stream.
\<close>

section \<open>Numbers\<close>

fun leb128 :: "nat \<Rightarrow> u8 list" where
  "leb128 n = (if n < 128 then [word_of_nat n] else word_of_nat (128 + n mod 128) # leb128 (n div 128))"

declare leb128.simps [simp del]

definition zigzag_nat :: "int \<Rightarrow> nat" where
  "zigzag_nat i = nat (if 0 \<le> i then 2 * i else - 2 * i - 1)"

text \<open>The number in a field of one, two, four or eight bytes, without and with sign.\<close>

definition field_nat :: "(addr \<Rightarrow> u8) \<Rightarrow> pb_field \<Rightarrow> addr \<Rightarrow> nat option" where
  "field_nat m f p = (let k = unat (data_size f) in
     if k = 1 \<or> k = 2 \<or> k = 4 \<or> k = 8 then Some (le_nat (rd_bytes m p k)) else None)"

definition field_int :: "(addr \<Rightarrow> u8) \<Rightarrow> pb_field \<Rightarrow> addr \<Rightarrow> int option" where
  "field_int m f p = map_option (\<lambda>v. let b = 256 ^ unat (data_size f) in
     if 2 * v < b then int v else int v - int b) (field_nat m f p)"

section \<open>Messages\<close>

text \<open>\<open>None\<close> stands for a message that cannot be encoded.\<close>

definition seq_bytes :: "u8 list option \<Rightarrow> u8 list option \<Rightarrow> u8 list option" where
  "seq_bytes a b = (case a of None \<Rightarrow> None | Some xs \<Rightarrow> map_option ((@) xs) b)"

primrec all_bytes :: "('a \<Rightarrow> u8 list option) \<Rightarrow> 'a list \<Rightarrow> u8 list option" where
  "all_bytes f [] = Some []"
| "all_bytes f (x # xs) = seq_bytes (f x) (all_bytes f xs)"

definition delimited :: "u8 list \<Rightarrow> u8 list" where
  "delimited bs = leb128 (length bs) @ bs"

definition key_bytes :: "u32 \<Rightarrow> nat \<Rightarrow> u8 list" where
  "key_bytes tag wt = leb128 (8 * unat tag + wt)"

definition wire_type :: "u8 \<Rightarrow> nat" where
  "wire_type lt = (if lt \<le> PB_LTYPE_SVARINT then 0 else if lt = PB_LTYPE_FIXED64 then 1
     else if lt = PB_LTYPE_FIXED32 then 5 else 2)"

definition field_key :: "pb_field \<Rightarrow> u8 list" where
  "field_key f = key_bytes (pf_tag f) (wire_type (PB_LTYPE (pf_type f)))"

text \<open>\<open>sub\<close> gives the bytes of a submessage.\<close>

definition value_bytes :: "(pb_fields \<Rightarrow> addr \<Rightarrow> u8 list option) \<Rightarrow> 's enc_env \<Rightarrow> pb_field \<Rightarrow> addr \<Rightarrow> u8 list option" where
  "value_bytes sub env f p = (let lt = PB_LTYPE (pf_type f); at = PB_ATYPE (pf_type f); m = emem env in
     if lt = PB_LTYPE_BOOL then Some (leb128 (if m p \<noteq> 0 then 1 else 0))
     else if lt = PB_LTYPE_VARINT then map_option (\<lambda>i. leb128 (nat (i mod 2 ^ 64))) (field_int m f p)
     else if lt = PB_LTYPE_UVARINT then map_option leb128 (field_nat m f p)
     else if lt = PB_LTYPE_SVARINT then map_option (\<lambda>i. leb128 (zigzag_nat i)) (field_int m f p)
     else if lt = PB_LTYPE_FIXED32 then Some (rd_bytes m p 4)
     else if lt = PB_LTYPE_FIXED64 then Some (rd_bytes m p 8)
     else if lt = PB_LTYPE_BYTES then
       if p = 0 then Some (delimited [])
       else let k = le_nat (rd_bytes m p 4) in
         if at = PB_ATYPE_STATIC \<and> unat (data_size f) < k + 4 then None
         else Some (delimited (rd_bytes m (p + 4) k))
     else if lt = PB_LTYPE_STRING then
       Some (delimited (if p = 0 then []
         else takeWhile (\<lambda>b. b \<noteq> 0) (rd_bytes m p (if at = PB_ATYPE_POINTER then 2 ^ 64 - 1 else unat (data_size f)))))
     else if lt = PB_LTYPE_FIXED_LENGTH_BYTES then Some (delimited (rd_bytes m p (unat (data_size f))))
     else if lt = PB_LTYPE_SUBMESSAGE then
       (case pf_ptr f of PFields k \<Rightarrow> map_option delimited (sub (descs env k) p) | _ \<Rightarrow> None)
     else None)"

definition array_bytes ::
  "(pb_fields \<Rightarrow> addr \<Rightarrow> u8 list option) \<Rightarrow> 's enc_env \<Rightarrow> pb_field \<Rightarrow> addr \<Rightarrow> nat \<Rightarrow> u8 list option" where
  "array_bytes sub env f pData count =
     (let lt = PB_LTYPE (pf_type f); pointer = (PB_ATYPE (pf_type f) = PB_ATYPE_POINTER);
          items = array_items f pData count in
      if count = 0 then Some []
      else if \<not> pointer \<and> unat (array_size f) < count then None
      else if lt \<le> PB_LTYPE_LAST_PACKABLE
      then map_option (\<lambda>bs. key_bytes (pf_tag f) 2 @ delimited bs) (all_bytes (value_bytes sub env f) items)
      else all_bytes (\<lambda>p. map_option ((@) (field_key f)) (value_bytes sub env f
        (if pointer \<and> (lt = PB_LTYPE_STRING \<or> lt = PB_LTYPE_BYTES) then rd_ptr (emem env) p else p))) items)"

text \<open>
  An optional field without a flag is present when its pointer is not null, or else when it fails the proto3 test
  for the default value.
\<close>

definition field_present :: "nat \<Rightarrow> 's enc_env \<Rightarrow> pb_field \<Rightarrow> addr \<Rightarrow> bool" where
  "field_present n env f pData =
     (if size_offset f \<noteq> 0 then emem env (pData + sint (size_offset f)) \<noteq> 0
      else if PB_ATYPE (pf_type f) = PB_ATYPE_POINTER then rd_ptr (emem env) pData \<noteq> 0
      else pb_check_proto3_default_value n (descs env) (emem env) f pData = Some False)"

definition field_bytes ::
  "(addr \<Rightarrow> pb_field \<Rightarrow> addr \<Rightarrow> u8 list option) \<Rightarrow> (pb_fields \<Rightarrow> addr \<Rightarrow> u8 list option) \<Rightarrow> nat \<Rightarrow>
   's enc_env \<Rightarrow> pb_field \<Rightarrow> addr \<Rightarrow> u8 list option" where
  "field_bytes cbs sub n env f pData =
     (let m = emem env; at = PB_ATYPE (pf_type f); ht = PB_HTYPE (pf_type f);
          p = (if at = PB_ATYPE_POINTER then rd_ptr m pData else pData);
          size = rd_u32 m (pData + sint (size_offset f));
          one = map_option ((@) (field_key f)) (value_bytes sub env f p) in
      if at = PB_ATYPE_CALLBACK then
        if rd_ptr m pData = 0 then Some [] else cbs (rd_ptr m pData) f (pData + 8)
      else if at \<noteq> PB_ATYPE_STATIC \<and> at \<noteq> PB_ATYPE_POINTER then None
      else if ht = PB_HTYPE_REQUIRED then if p = 0 then None else one
      else if ht = PB_HTYPE_OPTIONAL then if field_present n env f pData then one else Some []
      else if ht = PB_HTYPE_REPEATED then
        array_bytes sub env f p (unat (if size_offset f \<noteq> 0 then size else array_size f))
      else if ht = PB_HTYPE_ONEOF then if size = pf_tag f then one else Some []
      else None)"

primrec message_bytes ::
  "(addr \<Rightarrow> pb_field \<Rightarrow> addr \<Rightarrow> u8 list option) \<Rightarrow> nat \<Rightarrow> 's enc_env \<Rightarrow> pb_fields \<Rightarrow> addr \<Rightarrow> u8 list option" where
  "message_bytes cbs 0 env fs src = None"
| "message_bytes cbs (Suc n) env fs src = (case pb_field_iter_begin fs src of (ok, iter) \<Rightarrow>
     if ok
     then all_bytes (\<lambda>it. field_bytes cbs (message_bytes cbs n env) (Suc n) env (it_field it) (it_data it)) (iter_states iter)
     else Some [])"

section \<open>The volume of a message\<close>

text \<open>
  An upper bound of the bytes that are counted for a message, from the message in memory: ten for a tag, a
  length or a number, and the lengths of strings, bytes and submessages. \<open>cbv\<close> bounds what the callbacks write.
\<close>

definition value_volume :: "(pb_fields \<Rightarrow> addr \<Rightarrow> nat) \<Rightarrow> 's enc_env \<Rightarrow> pb_field \<Rightarrow> addr \<Rightarrow> nat" where
  "value_volume sub env f p = (let lt = PB_LTYPE (pf_type f) in
     if lt = PB_LTYPE_BYTES then 10 + (if p = 0 then 0 else unat (rd_u32 (emem env) p))
     else if lt = PB_LTYPE_STRING then 10 + (if p = 0 then 0 else strnlen_loop (emem env) p 0
       (if PB_ATYPE (pf_type f) = PB_ATYPE_POINTER then 2 ^ 64 - 1 else unat (data_size f)))
     else if lt = PB_LTYPE_FIXED_LENGTH_BYTES then 10 + unat (data_size f)
     else if lt = PB_LTYPE_SUBMESSAGE then 10 + (case pf_ptr f of PFields k \<Rightarrow> sub (descs env k) p | _ \<Rightarrow> 0)
     else 10)"

definition array_volume :: "(pb_fields \<Rightarrow> addr \<Rightarrow> nat) \<Rightarrow> 's enc_env \<Rightarrow> pb_field \<Rightarrow> addr \<Rightarrow> u64 \<Rightarrow> nat" where
  "array_volume sub env f pData count =
     (if PB_ATYPE (pf_type f) \<noteq> PB_ATYPE_POINTER \<and> count > ucast (array_size f) then 0
      else 20 + sum_list (map (\<lambda>p. 10 + value_volume sub env f
        (if PB_ATYPE (pf_type f) = PB_ATYPE_POINTER \<and>
            (PB_LTYPE (pf_type f) = PB_LTYPE_STRING \<or> PB_LTYPE (pf_type f) = PB_LTYPE_BYTES)
         then rd_ptr (emem env) p else p)) (array_items f pData (unat count))))"

definition field_volume ::
  "(addr \<Rightarrow> pb_field \<Rightarrow> addr \<Rightarrow> nat) \<Rightarrow> (pb_fields \<Rightarrow> addr \<Rightarrow> nat) \<Rightarrow> 's enc_env \<Rightarrow> pb_field \<Rightarrow> addr \<Rightarrow> nat" where
  "field_volume cbv sub env f pData =
     (if PB_ATYPE (pf_type f) = PB_ATYPE_CALLBACK then cbv (rd_ptr (emem env) pData) f (pData + 8)
      else let pData' = (if PB_ATYPE (pf_type f) = PB_ATYPE_POINTER then rd_ptr (emem env) pData else pData) in
        if PB_HTYPE (pf_type f) = PB_HTYPE_REPEATED
        then array_volume sub env f pData' (ucast (if size_offset f \<noteq> 0
          then rd_u32 (emem env) (pData + sint (size_offset f)) else array_size f))
        else 10 + value_volume sub env f pData')"

primrec message_volume :: "(addr \<Rightarrow> pb_field \<Rightarrow> addr \<Rightarrow> nat) \<Rightarrow> nat \<Rightarrow> 's enc_env \<Rightarrow> pb_fields \<Rightarrow> addr \<Rightarrow> nat" where
  "message_volume cbv 0 env fs src = 0"
| "message_volume cbv (Suc n) env fs src = (case pb_field_iter_begin fs src of (ok, iter) \<Rightarrow>
     if ok then sum_list (map (\<lambda>it. field_volume cbv (message_volume cbv n env) env (it_field it) (it_data it)) (iter_states iter))
     else 0)"


section \<open>The numbers of the encoder\<close>

definition varint_enc :: "u64 \<Rightarrow> u8 list" where
  "varint_enc value =
     (if value \<le> 0x7F then [ucast value]
      else let buffer = varint_bytes value; i = length buffer
           in buffer[i - 1 := (buffer ! (i - 1)) AND 0x7F])"

text \<open>The bytes of \<open>pb_encode_varint\<close>, by recursion on the value.\<close>

definition clear_last :: "u8 list \<Rightarrow> u8 list" where
  "clear_last xs = xs[length xs - 1 := (xs ! (length xs - 1)) AND 0x7F]"

lemma clear_last_Cons: "ys \<noteq> [] \<Longrightarrow> clear_last (x # ys) = x # clear_last ys"
  by (cases ys) (simp_all add: clear_last_def)

lemma varint_bytes_nonempty: "v \<noteq> 0 \<Longrightarrow> varint_bytes v \<noteq> []"
  by (simp add: varint_bytes.simps)

lemma and_7F: "(x :: 'a::len word) AND 0x7F = take_bit 7 x"
proof -
  have "(0x7F :: 'a word) = mask 7" by (simp add: mask_eq_exp_minus_1)
  then show ?thesis by (simp add: take_bit_eq_mask)
qed

lemma and_80_bit: "(b :: u8) AND 0x80 \<noteq> 0 \<longleftrightarrow> bit b 7"
proof -
  have "(0x80 :: u8) = push_bit 7 1" by (simp add: push_bit_eq_mult)
  then show ?thesis by (simp add: bit_iff_and_push_bit_not_eq_0)
qed

lemma small_bits:
  fixes w :: u64
  assumes "w \<le> 0x7F" shows "take_bit 7 w = w" "\<not> bit w 7" "bit w n \<Longrightarrow> n < 8"
proof -
  have "unat w < 2 ^ 7" using assms by (simp add: word_le_nat_alt)
  then have "unat (take_bit 7 w) = unat w" by (simp add: unsigned_take_bit_eq take_bit_nat_eq_self)
  then show *: "take_bit 7 w = w" by (simp only: word_unat_eq_iff)
  show "\<not> bit w 7" by (subst * [symmetric]) (simp add: bit_take_bit_iff)
  have "bit (take_bit 7 w) n \<Longrightarrow> n < 8" by (simp add: bit_take_bit_iff)
  then show "bit w n \<Longrightarrow> n < 8" by (simp only: *)
qed

lemma bit_80: "bit (0x80 :: u8) n \<longleftrightarrow> n = 7"
proof -
  have "(0x80 :: u8) = push_bit 7 1" by (simp add: push_bit_eq_mult)
  then show ?thesis by (simp only: bit_push_bit_iff bit_1_iff) auto
qed

lemma group_byte:
  fixes v :: u64
  shows "(ucast (v AND 0x7F) OR 0x80 :: u8) AND 0x80 \<noteq> 0"
    and "(ucast (v AND 0x7F) OR 0x80 :: u8) AND 0x7F = ucast (take_bit 7 v)"
  by (simp_all add: and_80_bit and_7F bit_simps bit_80)
    (auto intro!: bit_word_eqI simp: bit_simps bit_80)

lemma last_byte:
  fixes v :: u64
  assumes "v \<le> 0x7F"
  shows "(ucast v :: u8) AND 0x80 = 0" "(ucast v :: u8) AND 0x7F = ucast v"
proof -
  have "\<not> bit (ucast v :: u8) 7" using small_bits [OF assms] by (simp add: bit_simps)
  then show "(ucast v :: u8) AND 0x80 = 0" using and_80_bit by blast
  have "(ucast v :: u8) = ucast (take_bit 7 v)" using small_bits [OF assms] by simp
  then show "(ucast v :: u8) AND 0x7F = ucast v"
    by (simp only: and_7F) (auto intro!: bit_word_eqI simp: bit_simps)
qed

lemma varint_enc_rec:
  "varint_enc v = (if v \<le> 0x7F then [ucast v]
     else (ucast (v AND 0x7F) OR 0x80) # varint_enc (drop_bit 7 v))"
proof (cases "v \<le> 0x7F")
  case True
  then show ?thesis by (simp add: varint_enc_def)
next
  case False
  let ?w = "drop_bit 7 v"
  have "v \<noteq> 0" using False by auto
  have w: "?w \<noteq> 0" using False
    by (simp add: unat_eq_0 [symmetric] unat_drop_bit_div word_le_nat_alt)
  have "varint_enc v = clear_last (varint_bytes v)"
    using False by (simp add: varint_enc_def clear_last_def Let_def)
  also have "\<dots> = (ucast (v AND 0x7F) OR 0x80) # clear_last (varint_bytes ?w)"
    using \<open>v \<noteq> 0\<close> w varint_bytes_nonempty [OF w]
    by (subst varint_bytes.simps) (simp add: clear_last_Cons)
  also have "clear_last (varint_bytes ?w) = varint_enc ?w"
  proof (cases "?w \<le> 0x7F")
    case True
    then have "drop_bit 7 ?w = 0"
      by (simp add: unat_eq_0 [symmetric] unat_drop_bit_div word_le_nat_alt)
    then have "varint_bytes ?w = [ucast (?w AND 0x7F) OR 0x80]"
      using w by (simp add: varint_bytes.simps [of ?w] varint_bytes.simps [of 0])
    with True show ?thesis by (simp add: clear_last_def varint_enc_def group_byte small_bits)
  qed (simp add: varint_enc_def clear_last_def Let_def)
  finally show ?thesis using False by simp
qed

lemma varint_enc_nonempty [simp]: "varint_enc v \<noteq> []"
  by (subst varint_enc_rec) simp


lemma varint_enc_length: "unat v < 2 ^ (7 * Suc k) \<Longrightarrow> length (varint_enc v) \<le> Suc k"
proof (induction k arbitrary: v)
  case 0
  then show ?case by (simp add: varint_enc_rec word_le_nat_alt)
next
  case (Suc k)
  have "unat (drop_bit 7 v) < 2 ^ (7 * Suc k)"
    using Suc.prems by (simp add: unat_drop_bit_div less_mult_imp_div_less power_add)
  from Suc.IH [OF this] show ?case by (subst varint_enc_rec) simp
qed

lemma varint_enc_max: "length (varint_enc v) \<le> 10"
  using varint_enc_length [of v 9] unat_u64_less [of v] by simp

text \<open>The loop writes the groups of seven bits.\<close>

lemma low_group: "(ucast (v AND 0x7F) OR 0x80 :: u8) = word_of_nat (128 + unat (v :: u64) mod 128)"
proof -
  let ?x = "ucast (take_bit 7 v) :: u8"
  have "unat v mod 128 < 256" by (rule less_trans [OF mod_less_divisor]) simp_all
  then have "unat ?x = unat v mod 128"
    by (simp add: unsigned_ucast_eq unsigned_take_bit_eq take_bit_eq_mod unat_mod)
  then have x: "?x = word_of_nat (unat v mod 128)" by (simp only: word_unat_eq_iff unat_of_nat) simp
  have "\<not> bit ?x 7" by (simp add: bit_simps)
  then have "?x AND 0x80 = 0" using and_80_bit [of ?x] by blast
  then have "?x OR 0x80 = ?x + 0x80" by (rule disjunctive_add_eq_or [symmetric])
  then show ?thesis by (simp add: and_7F x add.commute)
qed

lemma varint_enc_leb128: "varint_enc v = leb128 (unat v)"
proof (induction v rule: varint_bytes.induct)
  case (1 v)
  show ?case
  proof (cases "v \<le> 0x7F")
    case True
    then have "(ucast v :: u8) = word_of_nat (unat v)" by simp
    then show ?thesis using True by (simp add: varint_enc_rec leb128.simps word_le_nat_alt)
  next
    case False
    then have "v \<noteq> 0" by auto
    then show ?thesis using False 1 [OF \<open>v \<noteq> 0\<close>] low_group [of v]
      by (subst varint_enc_rec, subst leb128.simps) (simp add: word_le_nat_alt unat_drop_bit_div)
  qed
qed

text \<open>Signed and unsigned fields are read as the C code reads them.\<close>

lemma sint_by_unat:
  fixes w :: "'a::len word"
  shows "sint w = (if 2 * unat w < 2 ^ LENGTH('a) then int (unat w) else int (unat w) - 2 ^ LENGTH('a))"
proof -
  obtain n where n: "LENGTH('a) = Suc n" using len_gt_0 [where 'a = 'a] by (cases "LENGTH('a)") auto
  have b: "- (2 ^ n) \<le> sint w" "sint w < 2 ^ n" using sint_ge [of w] sint_lt [of w] by (simp_all add: n)
  have u: "uint w = sint w mod 2 ^ Suc n" using uint_sint [of w] by (simp add: take_bit_eq_mod n)
  have p: "(2 :: int) ^ Suc n = 2 * 2 ^ n" by simp
  show ?thesis
  proof (cases "0 \<le> sint w")
    case True
    then have "uint w = sint w" unfolding u using b p by (intro mod_pos_pos_trivial) linarith+
    then have "int (unat w) = sint w" by simp
    moreover have "int (2 * unat w) < int (2 ^ LENGTH('a))" using \<open>uint w = sint w\<close> b by (simp add: n)
    ultimately show ?thesis by (simp only: of_nat_less_iff if_True)
  next
    case False
    have "uint w = (sint w + 2 ^ Suc n) mod 2 ^ Suc n" unfolding u by simp
    also have "\<dots> = sint w + 2 ^ Suc n" using False b p by (intro mod_pos_pos_trivial) linarith+
    finally have "int (unat w) = sint w + 2 ^ Suc n" by simp
    then have "int (2 ^ LENGTH('a)) \<le> int (2 * unat w)" using b p by (simp add: n)
    then have "\<not> 2 * unat w < 2 ^ LENGTH('a)" by (simp only: of_nat_le_iff not_less)
    then show ?thesis using \<open>int (unat w) = sint w + 2 ^ Suc n\<close> by (simp add: n)
  qed
qed

lemma field_int_word:
  fixes w :: "'a::len word"
  assumes "LENGTH('a) = 8 * unat (data_size f)" "field_nat m f p = Some (unat w)"
  shows "field_int m f p = Some (sint w)"
proof -
  have "256 ^ unat (data_size f) = (2 :: nat) ^ LENGTH('a)" by (simp add: assms(1) power_mult)
  moreover have "256 ^ unat (data_size f) = (2 :: int) ^ LENGTH('a)" by (simp add: assms(1) power_mult)
  ultimately show ?thesis by (simp add: field_int_def assms(2) Let_def sint_by_unat)
qed

lemma unat_le_nat:
  "length bs = k \<Longrightarrow> LENGTH('a) = 8 * k \<Longrightarrow> unat (word_of_nat (le_nat bs) :: 'a::len word) = le_nat bs"
  using le_nat_bound [of bs] by (simp add: unat_of_nat power_mult)

lemma field_nat_cases:
  "data_size f = 1 \<Longrightarrow> field_nat m f p = Some (unat (m p))"
  "data_size f = 2 \<Longrightarrow> field_nat m f p = Some (unat (rd_u16 m p))"
  "data_size f = 4 \<Longrightarrow> field_nat m f p = Some (unat (rd_u32 m p))"
  "data_size f = 8 \<Longrightarrow> field_nat m f p = Some (unat (rd_u64 m p))"
  "data_size f \<noteq> 1 \<Longrightarrow> data_size f \<noteq> 2 \<Longrightarrow> data_size f \<noteq> 4 \<Longrightarrow> data_size f \<noteq> 8 \<Longrightarrow> field_nat m f p = None"
  by (simp_all add: field_nat_def rd_bytes_def rd_u16_def rd_u32_def rd_u64_def unat_le_nat Let_def word_unat_eq_iff)

lemma field_int_cases:
  "data_size f = 1 \<Longrightarrow> field_int m f p = Some (sint (m p))"
  "data_size f = 2 \<Longrightarrow> field_int m f p = Some (sint (rd_u16 m p))"
  "data_size f = 4 \<Longrightarrow> field_int m f p = Some (sint (rd_u32 m p))"
  "data_size f = 8 \<Longrightarrow> field_int m f p = Some (sint (rd_u64 m p))"
  "data_size f \<noteq> 1 \<Longrightarrow> data_size f \<noteq> 2 \<Longrightarrow> data_size f \<noteq> 4 \<Longrightarrow> data_size f \<noteq> 8 \<Longrightarrow> field_int m f p = None"
  by (simp_all add: field_int_word field_nat_cases) (simp add: field_int_def field_nat_cases)

lemma unat_ucast_u32 [simp]: "unat (ucast (v :: u32) :: u64) = unat v"
proof -
  have "unat v < 2 ^ 32" using unsigned_less [of v] by simp
  then show ?thesis by (simp add: unsigned_ucast_eq take_bit_nat_eq_self)
qed

lemma unat_of_int64: "unat (word_of_int i :: u64) = nat (i mod 2 ^ 64)"
proof -
  have "uint (word_of_int i :: u64) = i mod 2 ^ 64" by (simp add: uint_word_of_int)
  then show ?thesis by (simp only: unat_eq_nat_uint)
qed

lemma unat_scast: "unat (scast w :: u64) = nat (sint w mod 2 ^ 64)"
  by (simp only: scast_eq unat_of_int64)

lemma sint_scast: 
  assumes "LENGTH('a::len) \<le> 64" shows "sint (scast (w :: 'a word) :: u64) = sint w"
proof -
  have "(2 :: int) ^ (LENGTH('a) - 1) \<le> 2 ^ 63" using assms by (intro power_increasing) auto
  then have "- (2 ^ 63) \<le> sint w" "sint w < 2 ^ 63" using sint_ge [of w] sint_lt [of w] by linarith+
  then show ?thesis by (simp add: signed_scast_eq signed_take_bit_int_eq_self)
qed

text \<open>The zigzag code of \<open>pb_encode_svarint\<close>.\<close>

lemma zigzag_nat_word:
  "unat (if sint v < 0 then NOT (push_bit 1 v) else push_bit 1 (v :: u64)) = zigzag_nat (sint v)"
proof -
  have b: "- (2 ^ 63) \<le> sint v" "sint v < 2 ^ 63" using sint_ge [of v] sint_lt [of v] by simp_all
  have double: "push_bit 1 v = word_of_int (2 * sint v)" by (simp add: push_bit_eq_mult)
  show ?thesis
  proof (cases "sint v < 0")
    case True
    have "NOT (push_bit 1 v) = word_of_int (- 2 * sint v - 1)" unfolding double by (simp add: not_eq_complement)
    moreover have "(- 2 * sint v - 1) mod 2 ^ 64 = - 2 * sint v - 1"
      using b True by (intro mod_pos_pos_trivial) simp_all
    ultimately show ?thesis using True by (simp only: unat_of_int64 if_True) (simp add: zigzag_nat_def)
  next
    case False
    have "(2 * sint v) mod 2 ^ 64 = 2 * sint v" using b False by (intro mod_pos_pos_trivial) simp_all
    then show ?thesis using False by (simp only: double unat_of_int64 if_False) (simp add: zigzag_nat_def)
  qed
qed

lemma strnlen_takeWhile:
  "strnlen_loop m p sz (sz + k) = sz + length (takeWhile (\<lambda>b. b \<noteq> 0) (rd_bytes m p k))"
proof (induction k arbitrary: p sz)
  case (Suc k)
  have "rd_bytes m p (Suc k) = m p # rd_bytes m (p + 1) k"
    using rd_bytes_add [of m p 1 k] by (simp add: rd_bytes_def)
  then show ?case using Suc.IH [of "p + 1" "Suc sz"] by (subst strnlen_loop.simps) simp
qed (simp add: strnlen_loop.simps)

lemma rd_bytes_string:
  "rd_bytes m p (strnlen_loop m p 0 k) = takeWhile (\<lambda>b. b \<noteq> 0) (rd_bytes m p k)"
proof -
  let ?l = "length (takeWhile (\<lambda>b. b \<noteq> 0) (rd_bytes m p k))"
  have "?l \<le> k" using length_takeWhile_le [of "\<lambda>b. b \<noteq> 0" "rd_bytes m p k"] by simp
  then have "rd_bytes m p ?l = take ?l (rd_bytes m p k)" by (simp add: rd_bytes_def take_map)
  also have "\<dots> = takeWhile (\<lambda>b. b \<noteq> 0) (rd_bytes m p k)" by (rule takeWhile_eq_take [symmetric])
  finally show ?thesis using strnlen_takeWhile [of m p 0 k] by simp
qed

end
