(* ===== verification/Pb_Encode_Spec.thy ===== *)
theory Pb_Encode_Spec
  imports Pb_Wire "HOL-Library.Sublist"
begin

text \<open>
  What the nanopb encoder promises about its output stream. The contract \<open>emits\<close> says
  that a step of the encoder stands for one fixed outcome, a success flag and a byte
  string, whatever stream it is run on: a sizing stream counts the bytes, a stream with
  enough room receives exactly these bytes, and a stream without the room makes the step
  fail after a prefix of them, never beyond \<open>max_size\<close>. \<open>emitting\<close> says that this outcome is a given
  one; the functions of the encoder have it with the bytes that \<open>Pb_Wire\<close> defines.
\<close>

section \<open>The interface between the encoder and a sink\<close>

text \<open>
  \<open>wr\<close> is the stream's callback, \<open>out\<close> the bytes it has taken so far and \<open>good\<close> the
  states of the sink in which it takes every byte.
\<close>

locale byte_sink =
  fixes wr :: "'s \<Rightarrow> u8 list \<Rightarrow> bool \<times> 's"
    and out :: "'s \<Rightarrow> u8 list"
    and good :: "'s \<Rightarrow> bool"
  assumes write_ok: "good st \<Longrightarrow> fst (wr st bs)"
    and write_good: "good st \<Longrightarrow> good (snd (wr st bs))"
    and write_out: "good st \<Longrightarrow> out (snd (wr st bs)) = out st @ bs"

section \<open>The contract\<close>

type_synonym 's sink = "('s \<Rightarrow> u8 list \<Rightarrow> bool \<times> 's) \<times> ('s \<Rightarrow> u8 list) \<times> ('s \<Rightarrow> bool)"

definition ready :: "'s sink \<Rightarrow> 's pb_ostream \<Rightarrow> 's \<Rightarrow> bool" where
  "ready k s st \<longleftrightarrow> (case k of (wr, out, good) \<Rightarrow>
     os_sink s = Some (wr, st) \<and> good st \<and> unat (bytes_written s) \<le> unat (max_size s))"

text \<open>The stream \<open>s\<close> has become \<open>s'\<close> by taking the bytes \<open>bs\<close>.\<close>

definition grown :: "'s sink \<Rightarrow> 's pb_ostream \<Rightarrow> 's \<Rightarrow> 's pb_ostream \<Rightarrow> 's \<Rightarrow> u8 list \<Rightarrow> bool" where
  "grown k s st s' st' bs \<longleftrightarrow> (case k of (wr, out, good) \<Rightarrow>
     ready k s' st' \<and> max_size s' = max_size s \<and> out st' = out st @ bs \<and>
     unat (bytes_written s') = unat (bytes_written s) + length bs)"

definition emits_sizing :: "'s pb_ostream step \<Rightarrow> bool \<Rightarrow> nat \<Rightarrow> bool" where
  "emits_sizing op ok len \<longleftrightarrow> (\<forall>s. os_sink s = None \<longrightarrow>
     (\<exists>s'. op s = Some (ok, s') \<and> os_sink s' = None \<and>
           bytes_written s' = bytes_written s + word_of_nat len))"

definition emits_fit :: "'s sink \<Rightarrow> 's pb_ostream step \<Rightarrow> bool \<Rightarrow> u8 list \<Rightarrow> nat \<Rightarrow> bool" where
  "emits_fit k op ok bs vol \<longleftrightarrow> (\<forall>s st. ready k s st \<longrightarrow>
     unat (bytes_written s) + vol < 2 ^ 64 \<longrightarrow>
     unat (bytes_written s) + length bs \<le> unat (max_size s) \<longrightarrow>
     (\<exists>s' st'. op s = Some (ok, s') \<and> grown k s st s' st' bs))"

definition emits_full :: "'s sink \<Rightarrow> 's pb_ostream step \<Rightarrow> u8 list \<Rightarrow> nat \<Rightarrow> bool" where
  "emits_full k op bs vol \<longleftrightarrow> (\<forall>s st. ready k s st \<longrightarrow>
     unat (bytes_written s) + vol < 2 ^ 64 \<longrightarrow>
     unat (max_size s) < unat (bytes_written s) + length bs \<longrightarrow>
     (\<exists>s' st' bs'. op s = Some (False, s') \<and> grown k s st s' st' bs' \<and> prefix bs' bs))"

text \<open>
  \<open>vol\<close> bounds the bytes that are counted on the way, also in the sizing passes of
  submessages that fail in the end; it is the length of \<open>bs\<close> when the step succeeds.
\<close>

definition emits :: "'s sink \<Rightarrow> 's pb_ostream step \<Rightarrow> bool \<Rightarrow> u8 list \<Rightarrow> nat \<Rightarrow> bool" where
  "emits k op ok bs vol \<longleftrightarrow>
     length bs \<le> vol \<and> (ok \<longrightarrow> length bs = vol) \<and>
     (vol < 2 ^ 64 \<longrightarrow> emits_sizing op ok (length bs)) \<and>
     emits_fit k op ok bs vol \<and> emits_full k op bs vol"

lemma ready_grown: "grown k s st s' st' bs \<Longrightarrow> ready k s' st'"
  by (auto simp: grown_def)

lemma grown_refl: "ready k s st \<Longrightarrow> grown k s st s st []"
  by (auto simp: grown_def split: prod.splits)

lemma grown_trans:
  "grown k s st s1 st1 b1 \<Longrightarrow> grown k s1 st1 s2 st2 b2 \<Longrightarrow> grown k s st s2 st2 (b1 @ b2)"
  by (auto simp: grown_def split: prod.splits)

lemma grown_measure:
  "grown k s st s' st' bs \<Longrightarrow> unat (bytes_written s') = unat (bytes_written s) + length bs"
  "grown k s st s' st' bs \<Longrightarrow> max_size s' = max_size s"
  by (auto simp: grown_def split: prod.splits)

lemma emits_sizingD:
  assumes "emits k op ok bs vol" "vol < 2 ^ 64" "os_sink s = None"
  shows "\<exists>s'. op s = Some (ok, s') \<and> os_sink s' = None \<and>
    bytes_written s' = bytes_written s + word_of_nat (length bs)"
  using assms unfolding emits_def emits_sizing_def by blast

lemma emits_fitD:
  assumes "emits k op ok bs vol" "ready k s st" "unat (bytes_written s) + vol < 2 ^ 64"
    "unat (bytes_written s) + length bs \<le> unat (max_size s)"
  shows "\<exists>s' st'. op s = Some (ok, s') \<and> grown k s st s' st' bs"
  using assms unfolding emits_def emits_fit_def by blast

lemma emits_fullD:
  assumes "emits k op ok bs vol" "ready k s st" "unat (bytes_written s) + vol < 2 ^ 64"
    "unat (max_size s) < unat (bytes_written s) + length bs"
  shows "\<exists>s' st' bs'. op s = Some (False, s') \<and> grown k s st s' st' bs' \<and> prefix bs' bs"
  using assms unfolding emits_def emits_full_def by blast

lemma emitsI:
  assumes "length bs \<le> vol" "ok \<Longrightarrow> length bs = vol"
    and "\<And>s. vol < 2 ^ 64 \<Longrightarrow> os_sink s = None \<Longrightarrow>
      \<exists>s'. op s = Some (ok, s') \<and> os_sink s' = None \<and>
        bytes_written s' = bytes_written s + word_of_nat (length bs)"
    and "\<And>s st. ready k s st \<Longrightarrow> unat (bytes_written s) + vol < 2 ^ 64 \<Longrightarrow>
      unat (bytes_written s) + length bs \<le> unat (max_size s) \<Longrightarrow>
      \<exists>s' st'. op s = Some (ok, s') \<and> grown k s st s' st' bs"
    and "\<And>s st. ready k s st \<Longrightarrow> unat (bytes_written s) + vol < 2 ^ 64 \<Longrightarrow>
      unat (max_size s) < unat (bytes_written s) + length bs \<Longrightarrow>
      \<exists>s' st' bs'. op s = Some (False, s') \<and> grown k s st s' st' bs' \<and> prefix bs' bs"
  shows "emits k op ok bs vol"
  using assms by (simp add: emits_def emits_sizing_def emits_fit_def emits_full_def)

lemma emits_lengths:
  "emits k op ok bs vol \<Longrightarrow> length bs \<le> vol" "emits k op True bs vol \<Longrightarrow> length bs = vol"
  by (auto simp: emits_def)

section \<open>Closure under the control flow of the encoder\<close>

lemma ready_room: "ready k s st \<Longrightarrow> unat (bytes_written s) \<le> unat (max_size s)"
  by (auto simp: ready_def split: prod.splits)

lemma emits_ret: "emits k (ret b) b [] 0"
  by (rule emitsI) (auto simp: ret_def intro: grown_refl dest: ready_room)

lemma emits_error: "emits k (enc_error msg) False [] 0"
proof -
  have "grown k s st (s\<lparr>os_errmsg := e\<rparr>) st []" if "ready k s st" for s st e
    using that by (auto simp: grown_def ready_def split: prod.splits)
  then show ?thesis
    by (intro emitsI) (auto simp: enc_error_def dest: ready_room)
qed

lemma emits_and_then_False:
  assumes a: "emits k a False bs vol"
  shows "emits k (and_then a b) False bs vol"
proof (rule emitsI)
  show "length bs \<le> vol" using emits_lengths(1) [OF a] .
  show "\<exists>s'. and_then a b s = Some (False, s') \<and> os_sink s' = None \<and>
      bytes_written s' = bytes_written s + word_of_nat (length bs)"
    if "vol < 2 ^ 64" "os_sink s = None" for s
    using emits_sizingD [OF a that] by (metis and_then_False)
  show "\<exists>s' st'. and_then a b s = Some (False, s') \<and> grown k s st s' st' bs"
    if "ready k s st" "unat (bytes_written s) + vol < 2 ^ 64"
      "unat (bytes_written s) + length bs \<le> unat (max_size s)" for s st
    using emits_fitD [OF a that] by (metis and_then_False)
  show "\<exists>s' st' bs'. and_then a b s = Some (False, s') \<and> grown k s st s' st' bs' \<and> prefix bs' bs"
    if "ready k s st" "unat (bytes_written s) + vol < 2 ^ 64"
      "unat (max_size s) < unat (bytes_written s) + length bs" for s st
    using emits_fullD [OF a that] by (metis and_then_False)
qed simp

lemma emits_and_then_True:
  assumes a: "emits k a True bs1 vol1" and b: "emits k b ok bs2 vol2"
  shows "emits k (and_then a b) ok (bs1 @ bs2) (vol1 + vol2)"
proof (rule emitsI)
  have l1: "length bs1 = vol1" using emits_lengths(2) [OF a] .
  show "length (bs1 @ bs2) \<le> vol1 + vol2" using l1 emits_lengths(1) [OF b] by simp
  show "length (bs1 @ bs2) = vol1 + vol2" if ok using l1 b that by (simp add: emits_def)
  show "\<exists>s'. and_then a b s = Some (ok, s') \<and> os_sink s' = None \<and>
      bytes_written s' = bytes_written s + word_of_nat (length (bs1 @ bs2))"
    if v: "vol1 + vol2 < 2 ^ 64" "os_sink s = None" for s
  proof -
    have v1: "vol1 < 2 ^ 64" and v2: "vol2 < 2 ^ 64" using v by auto
    obtain s1 where s1: "a s = Some (True, s1)" "os_sink s1 = None"
      "bytes_written s1 = bytes_written s + word_of_nat (length bs1)"
      using emits_sizingD [OF a v1 v(2)] by blast
    obtain s2 where "b s1 = Some (ok, s2)" "os_sink s2 = None"
      "bytes_written s2 = bytes_written s1 + word_of_nat (length bs2)"
      using emits_sizingD [OF b v2 s1(2)] by blast
    with s1 show ?thesis by simp
  qed
  show "\<exists>s' st'. and_then a b s = Some (ok, s') \<and> grown k s st s' st' (bs1 @ bs2)"
    if s: "ready k s st" "unat (bytes_written s) + (vol1 + vol2) < 2 ^ 64"
      "unat (bytes_written s) + length (bs1 @ bs2) \<le> unat (max_size s)" for s st
  proof -
    obtain s1 st1 where s1: "a s = Some (True, s1)" "grown k s st s1 st1 bs1"
      using emits_fitD [OF a s(1)] s by auto
    obtain s2 st2 where s2: "b s1 = Some (ok, s2)" "grown k s1 st1 s2 st2 bs2"
      using emits_fitD [OF b ready_grown [OF s1(2)]] s l1 grown_measure [OF s1(2)] by auto
    show ?thesis using s1 s2 grown_trans [OF s1(2) s2(2)] by auto
  qed
  show "\<exists>s' st' bs'. and_then a b s = Some (False, s') \<and> grown k s st s' st' bs' \<and> prefix bs' (bs1 @ bs2)"
    if s: "ready k s st" "unat (bytes_written s) + (vol1 + vol2) < 2 ^ 64"
      "unat (max_size s) < unat (bytes_written s) + length (bs1 @ bs2)" for s st
  proof (cases "unat (bytes_written s) + length bs1 \<le> unat (max_size s)")
    case True
    obtain s1 st1 where s1: "a s = Some (True, s1)" "grown k s st s1 st1 bs1"
      using emits_fitD [OF a s(1)] s True by auto
    obtain s2 st2 c2 where s2: "b s1 = Some (False, s2)" "grown k s1 st1 s2 st2 c2" "prefix c2 bs2"
      using emits_fullD [OF b ready_grown [OF s1(2)]] s l1 grown_measure [OF s1(2)] by auto
    have "and_then a b s = Some (False, s2)" "prefix (bs1 @ c2) (bs1 @ bs2)" using s1 s2 by auto
    then show ?thesis using grown_trans [OF s1(2) s2(2)] by blast
  next
    case False
    obtain s1 st1 c1 where s1: "a s = Some (False, s1)" "grown k s st s1 st1 c1" "prefix c1 bs1"
      using emits_fullD [OF a s(1)] s False by auto
    have "and_then a b s = Some (False, s1)" "prefix c1 (bs1 @ bs2)" using s1 by auto
    then show ?thesis using s1(2) by blast
  qed
qed

text \<open>
  The step emits the bytes \<open>R\<close>, or fails if there are none, and counts at most \<open>B\<close> bytes on the way, for a
  bound in the range of \<open>size_t\<close>.
\<close>

definition emitting :: "'s sink \<Rightarrow> nat \<Rightarrow> u8 list option \<Rightarrow> 's pb_ostream step \<Rightarrow> bool" where
  "emitting k B R op \<longleftrightarrow> (B < 2 ^ 64 \<longrightarrow> (case R of
     None \<Rightarrow> \<exists>bs vol. emits k op False bs vol \<and> vol \<le> B
   | Some bs \<Rightarrow> length bs \<le> B \<and> emits k op True bs (length bs)))"

lemma emitting_Some: "(B < 2 ^ 64 \<Longrightarrow> emits k op True bs (length bs)) \<Longrightarrow> length bs \<le> B \<Longrightarrow> emitting k B (Some bs) op"
  by (simp add: emitting_def)

lemma emitting_None: "emits k op False bs vol \<Longrightarrow> vol \<le> B \<Longrightarrow> emitting k B None op"
  by (auto simp: emitting_def)

lemma emitting_SomeD: "emitting k B (Some bs) op \<Longrightarrow> B < 2 ^ 64 \<Longrightarrow> length bs \<le> B \<and> emits k op True bs (length bs)"
  by (simp add: emitting_def)

lemma emitting_NoneD: "emitting k B None op \<Longrightarrow> B < 2 ^ 64 \<Longrightarrow> \<exists>bs vol. emits k op False bs vol \<and> vol \<le> B"
  by (simp add: emitting_def)

lemma emitting_large: "2 ^ 64 \<le> B \<Longrightarrow> emitting k B R op"
  by (simp add: emitting_def)

lemma emitting_mono: "emitting k A R op \<Longrightarrow> A \<le> B \<Longrightarrow> emitting k B R op"
  unfolding emitting_def by (auto split: option.splits intro: le_trans)

lemma emitting_ret [intro]: "emitting k B (Some []) (ret True)" "emitting k B None (ret False)"
  using emits_ret [of k] by (auto simp: emitting_def)

lemma emitting_error [intro]: "emitting k B None (enc_error msg)"
  by (rule emitting_None [OF emits_error]) simp

lemma emitting_and_then:
  assumes "emitting k A R a" "emitting k B S b" "A + B \<le> C"
  shows "emitting k C (seq_bytes R S) (and_then a b)"
proof (cases "C < 2 ^ 64")
  case C: True
  then have "A < 2 ^ 64" "B < 2 ^ 64" using assms(3) by auto
  show ?thesis
  proof (cases R)
    case None
    then obtain bs vol where "emits k a False bs vol" "vol \<le> A" using emitting_NoneD assms(1) \<open>A < 2 ^ 64\<close> by blast
    then show ?thesis using emitting_None [OF emits_and_then_False, of k a bs vol C b] assms(3) by (simp add: None seq_bytes_def)
  next
    case (Some xs)
    then have a: "emits k a True xs (length xs)" "length xs \<le> A" using emitting_SomeD assms(1) \<open>A < 2 ^ 64\<close> by blast+
    show ?thesis
    proof (cases S)
      case None
      then obtain bs vol where "emits k b False bs vol" "vol \<le> B" using emitting_NoneD assms(2) \<open>B < 2 ^ 64\<close> by blast
      then show ?thesis
        using emitting_None [OF emits_and_then_True [OF a(1)], of b bs vol C] a(2) assms(3)
        by (simp add: None Some seq_bytes_def)
    next
      case (Some ys)
      then have b: "emits k b True ys (length ys)" "length ys \<le> B" using emitting_SomeD assms(2) \<open>B < 2 ^ 64\<close> by blast+
      have "emits k (and_then a b) True (xs @ ys) (length (xs @ ys))" using emits_and_then_True [OF a(1) b(1)] by simp
      from emitting_Some [OF this] show ?thesis using \<open>R = Some xs\<close> Some a(2) b(2) assms(3) by (simp add: seq_bytes_def)
    qed
  qed
qed (simp add: emitting_large)

lemma emitting_all_steps:
  "(\<And>x. x \<in> set xs \<Longrightarrow> emitting k (B x) (R x) (f x)) \<Longrightarrow> emitting k (sum_list (map B xs)) (all_bytes R xs) (all_steps f xs)"
  by (induction xs) (auto intro: emitting_and_then)

lemma grown_errmsg: "grown k s st s' st' bs \<Longrightarrow> grown k s st (s'\<lparr>os_errmsg := e\<rparr>) st' bs"
  by (auto simp: grown_def ready_def split: prod.splits)

lemma emits_or_error:
  assumes a: "emits k a ok bs vol"
  shows "emits k (or_error msg a) ok bs vol"
proof (rule emitsI)
  show "length bs \<le> vol" "ok \<Longrightarrow> length bs = vol" using a by (auto simp: emits_def)
next
  fix s :: "'a pb_ostream" assume v: "vol < 2 ^ 64" "os_sink s = None"
  then obtain s' where "a s = Some (ok, s')" "os_sink s' = None"
    "bytes_written s' = bytes_written s + word_of_nat (length bs)" using emits_sizingD [OF a] by blast
  then show "\<exists>s'. or_error msg a s = Some (ok, s') \<and> os_sink s' = None \<and>
      bytes_written s' = bytes_written s + word_of_nat (length bs)"
    by (cases ok) (simp_all add: or_error_def enc_error_def)
next
  fix s :: "'a pb_ostream" and st
  assume s: "ready k s st" "unat (bytes_written s) + vol < 2 ^ 64"
  {
    assume "unat (bytes_written s) + length bs \<le> unat (max_size s)"
    then obtain s' st' where "a s = Some (ok, s')" "grown k s st s' st' bs"
      using emits_fitD [OF a s] by blast
    then show "\<exists>s' st'. or_error msg a s = Some (ok, s') \<and> grown k s st s' st' bs"
      by (cases ok) (auto simp: or_error_def enc_error_def intro: grown_errmsg)
  next
    assume "unat (max_size s) < unat (bytes_written s) + length bs"
    then obtain s' st' bs' where "a s = Some (False, s')" "grown k s st s' st' bs'" "prefix bs' bs"
      using emits_fullD [OF a s] by blast
    then show "\<exists>s' st' bs'. or_error msg a s = Some (False, s') \<and> grown k s st s' st' bs' \<and> prefix bs' bs"
      by (auto simp: or_error_def enc_error_def intro: grown_errmsg)
  }
qed

section \<open>The encoder's functions satisfy the contract\<close>

lemma pb_encode_varint_write:
  "pb_encode_varint value = pb_write (varint_enc value) (word_of_nat (length (varint_enc value)))"
  by (simp add: pb_encode_varint_def varint_enc_def Let_def)

text \<open>
  Descriptors the encoder is total on: no extension fields, every submessage field names
  its descriptors, and the submessages nest less than \<open>n\<close> deep.
\<close>

definition enc_field_ok :: "(pb_fields \<Rightarrow> bool) \<Rightarrow> (nat \<Rightarrow> pb_fields) \<Rightarrow> pb_field \<Rightarrow> bool" where
  "enc_field_ok sub_ok ds f \<longleftrightarrow>
     PB_LTYPE (pf_type f) \<le> 0x0A \<and> PB_LTYPE (pf_type f) \<noteq> PB_LTYPE_EXTENSION \<and>
     (PB_LTYPE (pf_type f) = PB_LTYPE_SUBMESSAGE \<longrightarrow>
        (case pf_ptr f of PFields k \<Rightarrow> sub_ok (ds k) | _ \<Rightarrow> PB_ATYPE (pf_type f) = PB_ATYPE_CALLBACK)) \<and>
     (PB_HTYPE (pf_type f) = PB_HTYPE_ONEOF \<longrightarrow> size_offset f \<noteq> 0)"

primrec enc_wf :: "nat \<Rightarrow> (nat \<Rightarrow> pb_fields) \<Rightarrow> pb_fields \<Rightarrow> bool" where
  "enc_wf 0 ds fs = False"
| "enc_wf (Suc n) ds fs = list_all (enc_field_ok (enc_wf n ds) ds) fs"

text \<open>The fuel is enough for the default-value test of such a field.\<close>

lemma all_opt_Some: "(\<And>x. x \<in> set xs \<Longrightarrow> f x \<noteq> None) \<Longrightarrow> all_opt f xs \<noteq> None"
proof (induction xs)
  case (Cons x xs)
  then obtain b where "f x = Some b" using Cons.prems by fastforce
  with Cons show ?case by (cases b) auto
qed simp

lemma if_not_None:
  "(c \<Longrightarrow> a \<noteq> None) \<Longrightarrow> (\<not> c \<Longrightarrow> b \<noteq> None) \<Longrightarrow> (if c then a else b) \<noteq> None"
  by simp

lemma iter_states_ok:
  assumes "enc_wf (Suc n) ds fs" "it \<in> set (iter_states (snd (pb_field_iter_begin fs p)))"
    and "fst (pb_field_iter_begin fs p)"
  shows "enc_field_ok (enc_wf n ds) ds (it_field it)"
  using iter_states_begin_field [OF assms(3,2)] assms(1) by (simp add: list_all_iff)

lemma check_proto3_total:
  "enc_field_ok (enc_wf n ds) ds f \<Longrightarrow> pb_check_proto3_default_value (Suc n) ds m f p \<noteq> None"
proof (induction n arbitrary: f p)
  case 0
  then have "PB_ATYPE (pf_type f) = PB_ATYPE_STATIC \<Longrightarrow> PB_LTYPE (pf_type f) \<noteq> PB_LTYPE_SUBMESSAGE"
    by (auto simp: enc_field_ok_def split: pb_ptr.splits)
  then show ?case
    unfolding pb_check_proto3_default_value.simps(2) Let_def by (intro if_not_None) blast+
next
  case (Suc n)
  have "all_opt (\<lambda>it. pb_check_proto3_default_value (Suc n) ds m (it_field it) (it_data it))
      (iter_states (snd (pb_field_iter_begin (ds k) p))) \<noteq> None"
    if "enc_wf (Suc n) ds (ds k)" "fst (pb_field_iter_begin (ds k) p)" for k
    using iter_states_ok [OF that(1) _ that(2)] Suc.IH by (intro all_opt_Some) blast
  then have sub: "(case pf_ptr f of PFields k \<Rightarrow>
      (case pb_field_iter_begin (ds k) p of (ok, iter) \<Rightarrow>
        if ok then all_opt (\<lambda>it. pb_check_proto3_default_value (Suc n) ds m (it_field it) (it_data it))
          (iter_states iter) else Some True) | _ \<Rightarrow> None) \<noteq> None"
    if "PB_ATYPE (pf_type f) = PB_ATYPE_STATIC \<and> PB_LTYPE (pf_type f) = PB_LTYPE_SUBMESSAGE"
    using Suc.prems that by (cases "pf_ptr f") (auto simp: enc_field_ok_def case_prod_beta
        simp del: pb_check_proto3_default_value.simps)
  show ?case
    unfolding pb_check_proto3_default_value.simps(2) [of "Suc n"] Let_def
    by (intro if_not_None sub) simp_all
qed

lemma seq_bytes_Some: "seq_bytes (Some xs) R = map_option ((@) xs) R"
  by (simp add: seq_bytes_def)

lemma unat_key:
  assumes "(w :: u64) < 8"
  shows "unat (push_bit 3 (ucast (n :: u32)) OR w) = 8 * unat n + unat w"
proof -
  have w: "unat w < 8" using assms by (simp add: word_less_nat_alt)
  then have "unat (take_bit 3 w) = unat w" by (simp add: unsigned_take_bit_eq take_bit_nat_eq_self)
  then have t: "take_bit 3 w = w" by (simp only: word_unat_eq_iff)
  have "push_bit 3 (ucast n) AND take_bit 3 w = 0" by (rule bit_word_eqI) (auto simp: bit_simps)
  then have "push_bit 3 (ucast n) OR w = push_bit 3 (ucast n) + w" by (metis disjunctive_add_eq_or t)
  moreover have "unat n < 2 ^ 32" using unsigned_less [of n] by simp
  moreover from this have "unat (push_bit 3 (ucast n) :: u64) = 8 * unat n" using \<open>unat n < 2 ^ 32\<close>
    by (simp add: push_bit_eq_mult unat_word_ariths)
  ultimately show ?thesis using w by (simp add: unat_word_ariths)
qed

lemma unat_u32_byte: "unat (ucast (drop_bit k (v :: u32) AND 0xFF) :: u8) = unat v div 2 ^ k mod 256"
  and unat_u64_byte: "unat (ucast (drop_bit k (w :: u64) AND 0xFF) :: u8) = unat w div 2 ^ k mod 256"
proof -
  have m: "(0xFF :: u32) = mask 8" "(0xFF :: u64) = mask 8" by (simp_all add: mask_eq_exp_minus_1)
  show "unat (ucast (drop_bit k v AND 0xFF) :: u8) = unat v div 2 ^ k mod 256"
    unfolding m by (simp add: take_bit_eq_mask [symmetric] unsigned_ucast_eq unsigned_take_bit_eq take_bit_eq_mod unat_mod unat_drop_bit_div)
  show "unat (ucast (drop_bit k w AND 0xFF) :: u8) = unat w div 2 ^ k mod 256"
    unfolding m by (simp add: take_bit_eq_mask [symmetric] unsigned_ucast_eq unsigned_take_bit_eq take_bit_eq_mod unat_mod unat_drop_bit_div)
qed

lemma byte_of_nat:
  "(ucast (drop_bit k (v :: u32) AND 0xFF) :: u8) = word_of_nat (unat v div 2 ^ k)"
  "(ucast (v AND 0xFF) :: u8) = word_of_nat (unat v)"
  "(ucast (drop_bit k (w :: u64) AND 0xFF) :: u8) = word_of_nat (unat w div 2 ^ k)"
  "(ucast (w AND 0xFF) :: u8) = word_of_nat (unat w)"
proof -
  have u: "unat (word_of_nat n :: u8) = n mod 256" for n by (simp add: unat_of_nat)
  note z = unat_u32_byte [of 0, unfolded drop_bit_0 id_apply power_0 div_by_1] unat_u64_byte [of 0, unfolded drop_bit_0 id_apply power_0 div_by_1]
  show "(ucast (drop_bit k v AND 0xFF) :: u8) = word_of_nat (unat v div 2 ^ k)" "(ucast (v AND 0xFF) :: u8) = word_of_nat (unat v)"
    "(ucast (drop_bit k w AND 0xFF) :: u8) = word_of_nat (unat w div 2 ^ k)" "(ucast (w AND 0xFF) :: u8) = word_of_nat (unat w)"
    by (simp_all only: word_unat_eq_iff z u unat_drop_bit_div)
qed

lemma le_bytes_list:
  "le_bytes 4 v = [word_of_nat v, word_of_nat (v div 2 ^ 8), word_of_nat (v div 2 ^ 16), word_of_nat (v div 2 ^ 24)]"
  "le_bytes 8 v = [word_of_nat v, word_of_nat (v div 2 ^ 8), word_of_nat (v div 2 ^ 16), word_of_nat (v div 2 ^ 24),
    word_of_nat (v div 2 ^ 32), word_of_nat (v div 2 ^ 40), word_of_nat (v div 2 ^ 48), word_of_nat (v div 2 ^ 56)]"
proof -
  have n: "4 = Suc (Suc (Suc (Suc 0)))" "8 = Suc (Suc (Suc (Suc (Suc (Suc (Suc (Suc 0)))))))" by simp_all
  show "le_bytes 4 v = [word_of_nat v, word_of_nat (v div 2 ^ 8), word_of_nat (v div 2 ^ 16), word_of_nat (v div 2 ^ 24)]"
    unfolding n(1) le_bytes.simps div_mult2_eq [symmetric] by simp
  show "le_bytes 8 v = [word_of_nat v, word_of_nat (v div 2 ^ 8), word_of_nat (v div 2 ^ 16), word_of_nat (v div 2 ^ 24),
    word_of_nat (v div 2 ^ 32), word_of_nat (v div 2 ^ 40), word_of_nat (v div 2 ^ 48), word_of_nat (v div 2 ^ 56)]"
    unfolding n(2) le_bytes.simps div_mult2_eq [symmetric] by simp
qed

lemma fixed_bytes:
  "[ucast (rd_u32 m p AND 0xFF), ucast (drop_bit 8 (rd_u32 m p) AND 0xFF), ucast (drop_bit 16 (rd_u32 m p) AND 0xFF),
    ucast (drop_bit 24 (rd_u32 m p) AND 0xFF)] = rd_bytes m p 4"
  "[ucast (rd_u64 m p AND 0xFF), ucast (drop_bit 8 (rd_u64 m p) AND 0xFF), ucast (drop_bit 16 (rd_u64 m p) AND 0xFF),
    ucast (drop_bit 24 (rd_u64 m p) AND 0xFF), ucast (drop_bit 32 (rd_u64 m p) AND 0xFF), ucast (drop_bit 40 (rd_u64 m p) AND 0xFF),
    ucast (drop_bit 48 (rd_u64 m p) AND 0xFF), ucast (drop_bit 56 (rd_u64 m p) AND 0xFF)] = rd_bytes m p 8"
  by (simp_all only: byte_of_nat unat_drop_bit_div le_bytes_list [symmetric])
    (simp_all add: rd_u32_def rd_u64_def unat_le_nat le_bytes_le_nat)

lemma emitting_or_error: "emitting k B R a \<Longrightarrow> emitting k B R (or_error msg a)"
  unfolding emitting_def by (auto split: option.splits intro: emits_or_error)

lemma ltype_cases:
  assumes "(lt :: u8) \<le> 0x0A" "lt \<noteq> PB_LTYPE_EXTENSION"
  shows "lt \<in> {0, 1, 2, 3, 4, 5, 6, 7, 8, 10}"
proof -
  have "unat lt \<le> 10" "unat lt \<noteq> 9" using assms by (simp_all add: word_le_nat_alt word_unat_eq_iff)
  then show ?thesis by (simp add: word_unat_eq_iff) presburger
qed

context byte_sink
begin

lemma write_split:
  assumes "good st"
  obtains st' where "wr st bs = (True, st')" "good st'" "out st' = out st @ bs"
  using write_ok [OF assms, of bs] write_good [OF assms, of bs] write_out [OF assms, of bs]
  by (metis prod.collapse)

lemma emits_write:
  assumes count: "count = word_of_nat (length bs)"
  shows "emits (wr, out, good) (pb_write bs count) True bs (length bs)"
proof (rule emitsI)
  fix s :: "'s pb_ostream" and st
  assume s: "ready (wr, out, good) s st" "unat (bytes_written s) + length bs < 2 ^ 64"
  have bw: "unat (bytes_written s + count) = unat (bytes_written s) + length bs"
    and c: "unat count = length bs"
    using s(2) by (simp_all add: count unat_word_ariths unat_of_nat)
  have sink: "os_sink s = Some (wr, st)" "good st" using s(1) by (auto simp: ready_def)
  obtain st' where st': "wr st bs = (True, st')" "good st'" "out st' = out st @ bs"
    using sink(2) by (rule write_split)
  {
    assume "unat (bytes_written s) + length bs \<le> unat (max_size s)"
    with s st' bw c sink show "\<exists>s' st'. pb_write bs count s = Some (True, s') \<and>
        grown (wr, out, good) s st s' st' bs"
      by (cases "bs = []") (auto simp: pb_write_def word_less_nat_alt ready_def grown_def Let_def)
  next
    assume "unat (max_size s) < unat (bytes_written s) + length bs"
    with s bw c sink show "\<exists>s' st' bs'. pb_write bs count s = Some (False, s') \<and>
        grown (wr, out, good) s st s' st' bs' \<and> prefix bs' bs"
      by (auto simp: pb_write_def word_less_nat_alt enc_error_def ready_def grown_def Let_def)
  }
qed (auto simp: pb_write_def count)

lemma emitting_write:
  "count = word_of_nat (length bs) \<Longrightarrow> length bs \<le> B \<Longrightarrow> emitting (wr, out, good) B (Some bs) (pb_write bs count)"
  by (simp add: emitting_Some emits_write)

lemma emits_varint:
  "emits (wr, out, good) (pb_encode_varint v) True (varint_enc v) (length (varint_enc v))"
  by (simp add: pb_encode_varint_write emits_write)

lemma emitting_varint: "emitting (wr, out, good) 10 (Some (leb128 (unat v))) (pb_encode_varint v)"
  unfolding varint_enc_leb128 [symmetric] by (rule emitting_Some [OF emits_varint varint_enc_max])

lemma emits_delimited:
  assumes len: "length bs < 2 ^ 64" and step: "emits (wr, out, good) b True bs (length bs)"
  shows "emits (wr, out, good) (and_then (pb_encode_varint (word_of_nat (length bs))) b) True (delimited bs) (length (delimited bs))"
    "length (delimited bs) \<le> 10 + length bs"
proof -
  have v: "varint_enc (word_of_nat (length bs)) = leb128 (length bs)"
    using len by (simp add: varint_enc_leb128 unat_of_nat)
  show "emits (wr, out, good) (and_then (pb_encode_varint (word_of_nat (length bs))) b) True (delimited bs) (length (delimited bs))"
    using emits_and_then_True [OF emits_varint step, of "word_of_nat (length bs)"] by (simp add: v delimited_def)
  show "length (delimited bs) \<le> 10 + length bs"
    using varint_enc_max [of "word_of_nat (length bs)"] by (simp add: v delimited_def)
qed

lemma emitting_string:
  assumes "sz = word_of_nat (length bs)" "10 + length bs \<le> B"
  shows "emitting (wr, out, good) B (Some (delimited bs)) (pb_encode_string bs sz)"
proof (cases "B < 2 ^ 64")
  case True
  then have "length bs < 2 ^ 64" using assms(2) by simp
  from emits_delimited [OF this emits_write [OF refl]] show ?thesis
    unfolding pb_encode_string_def assms(1) using assms(2) by (intro emitting_Some) auto
qed (simp add: emitting_large)

text \<open>
  A submessage: the size found in the first pass is the length of the bytes that the
  second pass writes, so \<open>submsg size changed\<close> does not happen.
\<close>

lemma emits_submessage_body:
  fixes rec :: "pb_fields \<Rightarrow> addr \<Rightarrow> 's pb_ostream step"
  assumes r: "emits (wr, out, good) (rec fs src) True bs vol"
    and sz: "sz = word_of_nat (length bs)" and vol: "vol < 2 ^ 64"
  shows "emits (wr, out, good) (submessage_body rec fs src sz) True bs vol"
proof (rule emitsI)
  have len: "length bs = vol" using emits_lengths(2) [OF r] .
  then have usz: "unat sz = length bs" using vol by (simp add: sz unat_of_nat)
  show "length bs \<le> vol" "length bs = vol" using len by auto
  show "\<exists>s'. submessage_body rec fs src sz s = Some (True, s') \<and> os_sink s' = None \<and>
      bytes_written s' = bytes_written s + word_of_nat (length bs)" if "os_sink s = None" for s
    using that by (simp add: submessage_body_def pb_write_def sz)
  fix s :: "'s pb_ostream" and st
  assume s: "ready (wr, out, good) s st" "unat (bytes_written s) + vol < 2 ^ 64"
  have sink: "os_sink s = Some (wr, st)" using s(1) by (auto simp: ready_def)
  have bw: "unat (bytes_written s + sz) = unat (bytes_written s) + length bs"
    using s(2) len usz by (simp add: unat_word_ariths)
  {
    assume room: "unat (bytes_written s) + length bs \<le> unat (max_size s)"
    let ?sub = "\<lparr>os_sink = os_sink s, max_size = sz, bytes_written = 0, os_errmsg = None\<rparr>"
    have "ready (wr, out, good) ?sub st" using s(1) by (auto simp: ready_def)
    then obtain s1 st1 where s1: "rec fs src ?sub = Some (True, s1)" "grown (wr, out, good) ?sub st s1 st1 bs"
      using emits_fitD [OF r] usz vol by fastforce
    have bw1: "bytes_written s1 = sz"
      using grown_measure(1) [OF s1(2)] usz by (simp add: word_unat_eq_iff)
    let ?s' = "s\<lparr>bytes_written := bytes_written s + bytes_written s1, os_sink := os_sink s1,
      os_errmsg := os_errmsg s1\<rparr>"
    have "\<not> bytes_written s + sz > max_size s" using bw room by (simp add: word_less_nat_alt)
    then have "submessage_body rec fs src sz s = Some (True, ?s')"
      using s1 sink bw1 by (simp add: submessage_body_def Let_def)
    moreover have "grown (wr, out, good) s st ?s' st1 bs"
      using s1(2) bw bw1 room by (auto simp: grown_def ready_def)
    ultimately show "\<exists>s' st'. submessage_body rec fs src sz s = Some (True, s') \<and>
        grown (wr, out, good) s st s' st' bs" by blast
  next
    assume room: "unat (max_size s) < unat (bytes_written s) + length bs"
    then have "bytes_written s + sz > max_size s" using bw by (simp add: word_less_nat_alt)
    then show "\<exists>s' st' bs'. submessage_body rec fs src sz s = Some (False, s') \<and>
        grown (wr, out, good) s st s' st' bs' \<and> prefix bs' bs"
      using s sink by (auto simp: submessage_body_def enc_error_def grown_def ready_def)
  }
qed

lemma emitting_submessage:
  fixes rec :: "pb_fields \<Rightarrow> addr \<Rightarrow> 's pb_ostream step"
  assumes r: "emitting (wr, out, good) B R (rec fs src)"
  shows "emitting (wr, out, good) (10 + B) (map_option delimited R) (pb_encode_submessage rec fs src)"
proof (cases "10 + B < 2 ^ 64")
  case True
  then have B: "B < 2 ^ 64" by simp
  have sizing: "os_sink (PB_OSTREAM_SIZING :: 's pb_ostream) = None" "bytes_written (PB_OSTREAM_SIZING :: 's pb_ostream) = 0"
    by (simp_all add: PB_OSTREAM_SIZING_def)
  show ?thesis
  proof (cases R)
    case (Some bs)
    have e: "length bs \<le> B" "emits (wr, out, good) (rec fs src) True bs (length bs)"
      using emitting_SomeD [OF r [unfolded Some] B] by auto
    have l: "length bs < 2 ^ 64" using e(1) B by simp
    obtain s0 where "rec fs src PB_OSTREAM_SIZING = Some (True, s0)" "bytes_written s0 = word_of_nat (length bs)"
      using emits_sizingD [OF e(2) l sizing(1)] sizing(2) by auto
    then have op: "pb_encode_submessage rec fs src =
      and_then (pb_encode_varint (word_of_nat (length bs))) (submessage_body rec fs src (word_of_nat (length bs)))"
      by (intro ext) (simp add: pb_encode_submessage_def Let_def)
    show ?thesis
      using emits_delimited [OF l emits_submessage_body [of rec fs src, OF e(2) refl l]] e(1) by (simp add: op Some emitting_Some)
  next
    case None
    obtain bs vol where e: "emits (wr, out, good) (rec fs src) False bs vol" "vol \<le> B"
      using emitting_NoneD [OF r [unfolded None] B] by blast
    then obtain s0 where s0: "rec fs src PB_OSTREAM_SIZING = Some (False, s0)"
      using emits_sizingD [OF e(1) _ sizing(1)] B by auto
    have "grown (wr, out, good) s st (s\<lparr>os_errmsg := e\<rparr>) st []" if "ready (wr, out, good) s st" for s st e
      using that by (auto simp: grown_def ready_def)
    then have "emits (wr, out, good) (pb_encode_submessage rec fs src) False [] 0"
      using s0 by (intro emitsI) (auto simp: pb_encode_submessage_def Let_def dest: ready_room)
    then show ?thesis using None by (simp add: emitting_None)
  qed
qed (simp add: emitting_large)

lemma emitting_tag: "w < 8 \<Longrightarrow> emitting (wr, out, good) 10 (Some (key_bytes n (unat w))) (pb_encode_tag w n)"
  unfolding pb_encode_tag_def key_bytes_def unat_key [symmetric] by (rule emitting_varint)

lemma emitting_tag_for_field:
  assumes "PB_LTYPE (pf_type f) \<le> 0x0A" "PB_LTYPE (pf_type f) \<noteq> PB_LTYPE_EXTENSION"
  shows "emitting (wr, out, good) 10 (Some (field_key f)) (pb_encode_tag_for_field f)"
  using ltype_cases [OF assms] emitting_tag [of 0 "pf_tag f"] emitting_tag [of 1 "pf_tag f"]
    emitting_tag [of 2 "pf_tag f"] emitting_tag [of 5 "pf_tag f"]
  by (elim insertE emptyE) (simp_all add: pb_encode_tag_for_field_def field_key_def wire_type_def)

lemma emitting_fixed: "emitting (wr, out, good) 10 (Some (rd_bytes m p 4)) (pb_encode_fixed32 (rd_u32 m p))"
  "emitting (wr, out, good) 10 (Some (rd_bytes m p 8)) (pb_encode_fixed64 (rd_u64 m p))"
  unfolding pb_encode_fixed32_def pb_encode_fixed64_def fixed_bytes by (rule emitting_write; simp)+

lemma emitting_svarint: "emitting (wr, out, good) 10 (Some (leb128 (zigzag_nat (sint v)))) (pb_encode_svarint v)"
  unfolding pb_encode_svarint_def Let_def zigzag_nat_word [symmetric] by (rule emitting_varint)

lemma emitting_numbers:
  "emitting (wr, out, good) 10 (Some (leb128 (if m p \<noteq> 0 then 1 else 0))) (pb_enc_bool m f p)"
  "emitting (wr, out, good) 10 (map_option (\<lambda>i. leb128 (nat (i mod 2 ^ 64))) (field_int m f p)) (pb_enc_varint m f p)"
  "emitting (wr, out, good) 10 (map_option leb128 (field_nat m f p)) (pb_enc_uvarint m f p)"
  "emitting (wr, out, good) 10 (map_option (\<lambda>i. leb128 (zigzag_nat i)) (field_int m f p)) (pb_enc_svarint m f p)"
proof -
  have u: "unat (ucast w :: u64) = unat w" if "LENGTH('b) \<le> 64" for w :: "'b::len word"
  proof -
    have "unat w < 2 ^ 64"
      by (rule less_le_trans [OF unsigned_less power_increasing [OF that]]) simp
    then show ?thesis by (simp add: unsigned_ucast_eq take_bit_nat_eq_self)
  qed
  have s: "nat (sint (w :: u64) mod 18446744073709551616) = unat w" for w
    using unat_scast [of w] by simp
  show "emitting (wr, out, good) 10 (Some (leb128 (if m p \<noteq> 0 then 1 else 0))) (pb_enc_bool m f p)"
    using emitting_varint [of 0] emitting_varint [of 1] by (auto simp: pb_enc_bool_def safe_read_bool_def)
  show "emitting (wr, out, good) 10 (map_option (\<lambda>i. leb128 (nat (i mod 2 ^ 64))) (field_int m f p)) (pb_enc_varint m f p)"
    unfolding pb_enc_varint_def
    using emitting_varint [of "scast (m p)"] emitting_varint [of "scast (rd_u16 m p)"]
      emitting_varint [of "scast (rd_u32 m p)"] emitting_varint [of "rd_u64 m p"]
    by (simp add: field_int_cases unat_scast s emitting_error)
  show "emitting (wr, out, good) 10 (map_option leb128 (field_nat m f p)) (pb_enc_uvarint m f p)"
    unfolding pb_enc_uvarint_def
    using emitting_varint [of "ucast (m p)"] emitting_varint [of "ucast (rd_u16 m p)"]
      emitting_varint [of "ucast (rd_u32 m p)"] emitting_varint [of "rd_u64 m p"]
    by (simp add: field_nat_cases u emitting_error)
  show "emitting (wr, out, good) 10 (map_option (\<lambda>i. leb128 (zigzag_nat i)) (field_int m f p)) (pb_enc_svarint m f p)"
    unfolding pb_enc_svarint_def
    using emitting_svarint [of "scast (m p)"] emitting_svarint [of "scast (rd_u16 m p)"]
      emitting_svarint [of "scast (rd_u32 m p)"] emitting_svarint [of "rd_u64 m p"]
    by (simp add: field_int_cases sint_scast emitting_error)
qed

lemma emitting_bytes:
  assumes "PB_LTYPE (pf_type f) = PB_LTYPE_BYTES"
  shows "emitting (wr, out, good) (value_volume sub env f p) (value_bytes subb env f p) (pb_enc_bytes (emem env) f p)"
proof (cases "p = 0")
  case True
  then show ?thesis using assms emitting_string [of 0 "[]" 10]
    by (simp add: value_volume_def value_bytes_def pb_enc_bytes_def)
next
  case False
  let ?m = "emem env" let ?k = "le_nat (rd_bytes ?m p 4)"
  have k: "unat (rd_u32 ?m p) = ?k" "?k < 2 ^ 32"
    using le_nat_bound [of "rd_bytes ?m p 4"] by (simp_all add: rd_u32_def unat_le_nat)
  then have sz: "unat (ucast (rd_u32 ?m p) :: u64) = ?k" by simp
  then have alloc: "unat ((ucast (rd_u32 ?m p) :: u64) + 4) = ?k + 4" using k by (simp add: unat_word_ariths)
  have t: "(ucast (rd_u32 ?m p) :: u64) + 4 > ucast (data_size f) \<longleftrightarrow> unat (data_size f) < ?k + 4"
    "\<not> (ucast (rd_u32 ?m p) :: u64) + 4 < ucast (rd_u32 ?m p)" by (simp_all add: word_less_nat_alt alloc k(1))
  have w: "(ucast (rd_u32 ?m p) :: u64) = word_of_nat ?k" using sz by (metis word_nat_cases of_nat_unat_u64)
  have "emitting (wr, out, good) (10 + ?k) (Some (delimited (rd_bytes ?m (p + 4) ?k)))
      (pb_encode_string (rd_bytes ?m (p + 4) ?k) (ucast (rd_u32 ?m p)))" by (rule emitting_string) (simp_all add: w)
  then show ?thesis using False assms
    by (simp add: value_volume_def value_bytes_def pb_enc_bytes_def Let_def t sz k(1) emitting_error)
qed

lemma emitting_encoders:
  assumes lt: "PB_LTYPE (pf_type field) \<le> 0x0A" "PB_LTYPE (pf_type field) \<noteq> PB_LTYPE_EXTENSION"
    and sub: "PB_LTYPE (pf_type field) = PB_LTYPE_SUBMESSAGE \<Longrightarrow>
      \<exists>k. pf_ptr field = PFields k \<and>
        (\<forall>a. emitting (wr, out, good) (sub (descs env k) a) (subb (descs env k) a) (rec (descs env k) a))"
  shows "emitting (wr, out, good) (value_volume sub env field p) (value_bytes subb env field p)
    (PB_ENCODERS env rec (PB_LTYPE (pf_type field)) field p)"
proof -
  consider (num) "PB_LTYPE (pf_type field) \<in> {0, 1, 2, 3, 4, 5}" | (bytes) "PB_LTYPE (pf_type field) = PB_LTYPE_BYTES"
    | (str) "PB_LTYPE (pf_type field) = PB_LTYPE_STRING" | (sub) "PB_LTYPE (pf_type field) = PB_LTYPE_SUBMESSAGE"
    | (fixed) "PB_LTYPE (pf_type field) = PB_LTYPE_FIXED_LENGTH_BYTES" using ltype_cases [OF lt] by blast
  then show ?thesis
  proof cases
    case num
    then show ?thesis using emitting_numbers [of "emem env"]
      by (elim insertE emptyE)
        (simp_all add: value_volume_def value_bytes_def PB_ENCODERS_def pb_enc_fixed32_def pb_enc_fixed64_def emitting_fixed)
  next
    case bytes
    then show ?thesis using emitting_bytes by (simp add: PB_ENCODERS_def)
  next
    case str
    let ?l = "if p = 0 then 0 else strnlen_loop (emem env) p 0
      (if PB_ATYPE (pf_type field) = PB_ATYPE_POINTER then 2 ^ 64 - 1 else unat (data_size field))"
    have V: "value_volume sub env field p = 10 + ?l" using str by (simp add: value_volume_def)
    have R: "value_bytes subb env field p = Some (delimited (rd_bytes (emem env) p ?l))"
      using str by (simp add: value_bytes_def rd_bytes_string)
    have "PB_ENCODERS env rec (PB_LTYPE (pf_type field)) field p = pb_encode_string (rd_bytes (emem env) p ?l) (word_of_nat ?l)"
      using str by (simp add: PB_ENCODERS_def pb_enc_string_def Let_def)
    then show ?thesis unfolding V R by (simp only:) (rule emitting_string; simp)
  next
    case sub
    then obtain k where "pf_ptr field = PFields k"
      "\<forall>a. emitting (wr, out, good) (sub (descs env k) a) (subb (descs env k) a) (rec (descs env k) a)"
      using assms(3) by blast
    then show ?thesis using sub
      by (simp add: PB_ENCODERS_def value_volume_def value_bytes_def pb_enc_submessage_def emitting_submessage)
  next
    case fixed
    have "emitting (wr, out, good) (10 + unat (data_size field)) (Some (delimited (rd_bytes (emem env) p (unat (data_size field)))))
      (pb_encode_string (rd_bytes (emem env) p (unat (data_size field))) (ucast (data_size field)))"
      by (rule emitting_string) simp_all
    then show ?thesis using fixed
      by (simp add: PB_ENCODERS_def value_volume_def value_bytes_def pb_enc_fixed_length_bytes_def)
  qed
qed

lemma emits_sized:
  assumes "emits (wr, out, good) op True bs vol" "sz = word_of_nat (length bs)"
  shows "emits (wr, out, good) (\<lambda>s. if os_sink s = None then pb_write [] sz s else op s) True bs vol"
proof (rule emitsI)
  show "length bs \<le> vol" "length bs = vol" using emits_lengths(2) [OF assms(1)] by auto
next
  fix s :: "'s pb_ostream" and st
  assume s: "ready (wr, out, good) s st" "unat (bytes_written s) + vol < 2 ^ 64"
  then have op: "(if os_sink s = None then pb_write [] sz s else op s) = op s" by (auto simp: ready_def)
  {
    assume "unat (bytes_written s) + length bs \<le> unat (max_size s)"
    then show "\<exists>s' st'. (if os_sink s = None then pb_write [] sz s else op s) = Some (True, s') \<and>
        grown (wr, out, good) s st s' st' bs" unfolding op by (rule emits_fitD [OF assms(1) s])
  next
    assume "unat (max_size s) < unat (bytes_written s) + length bs"
    then show "\<exists>s' st' bs'. (if os_sink s = None then pb_write [] sz s else op s) = Some (False, s') \<and>
        grown (wr, out, good) s st s' st' bs' \<and> prefix bs' bs" unfolding op by (rule emits_fullD [OF assms(1) s])
  }
qed (simp add: pb_write_def assms(2))

text \<open>
  An array. The packed form computes the size of its items first, by a sizing pass or, for
  fixed-size items, by a multiplication.
\<close>

lemma emitting_packed:
  fixes f :: "addr \<Rightarrow> 's pb_ostream step"
  assumes items: "emitting (wr, out, good) B R (all_steps f ps)"
    and size: "B < 2 ^ 64 \<Longrightarrow> \<exists>s1. sizing = Some (R \<noteq> None, s1) \<and>
      (\<forall>bs. R = Some bs \<longrightarrow> bytes_written (s1 :: 's pb_ostream) = word_of_nat (length bs))"
  shows "emitting (wr, out, good) (10 + B) (map_option delimited R) (\<lambda>stream.
      case sizing of
        None \<Rightarrow> None
      | Some (False, sizestream) \<Rightarrow> Some (False, stream)
      | Some (True, sizestream) \<Rightarrow>
          and_then (pb_encode_varint (bytes_written sizestream)) (\<lambda>stream.
            if os_sink stream = None then pb_write [] (bytes_written sizestream) stream
            else all_steps f ps stream) stream)" (is "emitting _ _ _ ?op")
proof (cases "10 + B < 2 ^ 64")
  case True
  then have B: "B < 2 ^ 64" by simp
  then obtain s1 where s1: "sizing = Some (R \<noteq> None, s1)" "\<And>bs. R = Some bs \<Longrightarrow> bytes_written s1 = word_of_nat (length bs)"
    using size by blast
  show ?thesis
  proof (cases R)
    case (Some bs)
    with s1 have op: "?op = and_then (pb_encode_varint (word_of_nat (length bs)))
      (\<lambda>stream. if os_sink stream = None then pb_write [] (word_of_nat (length bs)) stream
        else all_steps f ps stream)" by (simp cong: if_cong)
    have e: "length bs \<le> B" "emits (wr, out, good) (all_steps f ps) True bs (length bs)"
      using emitting_SomeD [OF items [unfolded Some] B] by auto
    then have "length bs < 2 ^ 64" using B by simp
    from emits_delimited [OF this emits_sized [OF e(2) refl]] show ?thesis
      unfolding op Some using e(1) by (simp add: emitting_Some)
  next
    case None
    with s1 have "?op = ret False" by (simp add: ret_def)
    with None show ?thesis by auto
  qed
qed (simp add: emitting_large)

lemma all_bytes_Some: "(\<And>x. f x = Some (g x)) \<Longrightarrow> all_bytes f xs = Some (concat (map g xs))"
  by (induction xs) (simp_all add: seq_bytes_def)

text \<open>The size of the items, as \<open>encode_array\<close> computes it.\<close>

definition packed_sizing :: "pb_field \<Rightarrow> u64 \<Rightarrow> 's pb_ostream step \<Rightarrow> (bool \<times> 's pb_ostream) option" where
  "packed_sizing field count items =
     (if PB_LTYPE (pf_type field) = PB_LTYPE_FIXED32 then Some (True, PB_OSTREAM_SIZING\<lparr>bytes_written := 4 * count\<rparr>)
      else if PB_LTYPE (pf_type field) = PB_LTYPE_FIXED64 then Some (True, PB_OSTREAM_SIZING\<lparr>bytes_written := 8 * count\<rparr>)
      else items PB_OSTREAM_SIZING)"

lemma packed_size:
  fixes op :: "'s pb_ostream step"
  assumes e: "emitting (wr, out, good) B R op" and B: "B < 2 ^ 64"
    and R: "R = all_bytes (value_bytes subb env field) ps" "length ps = unat count"
  shows "\<exists>s1. packed_sizing field count op = Some (R \<noteq> None, s1) \<and>
    (\<forall>bs. R = Some bs \<longrightarrow> bytes_written s1 = word_of_nat (length bs))"
proof -
  have fixed: "length (concat (map (\<lambda>p. rd_bytes (emem env) p k) ps)) = k * unat count" for k
    using R(2) by (simp add: length_concat o_def sum_list_triv)
  have sizing: "os_sink (PB_OSTREAM_SIZING :: 's pb_ostream) = None" "bytes_written (PB_OSTREAM_SIZING :: 's pb_ostream) = 0"
    by (simp_all add: PB_OSTREAM_SIZING_def)
  consider (f32) "PB_LTYPE (pf_type field) = PB_LTYPE_FIXED32" | (f64) "PB_LTYPE (pf_type field) = PB_LTYPE_FIXED64"
    | (other) "PB_LTYPE (pf_type field) \<noteq> PB_LTYPE_FIXED32" "PB_LTYPE (pf_type field) \<noteq> PB_LTYPE_FIXED64"
    by blast
  then show ?thesis
  proof cases
    case f32
    then have "R = Some (concat (map (\<lambda>p. rd_bytes (emem env) p 4) ps))"
      unfolding R(1) by (intro all_bytes_Some) (simp add: value_bytes_def)
    then show ?thesis using f32 fixed [of 4] by (simp add: packed_sizing_def)
  next
    case f64
    then have "R = Some (concat (map (\<lambda>p. rd_bytes (emem env) p 8) ps))"
      unfolding R(1) by (intro all_bytes_Some) (simp add: value_bytes_def)
    then show ?thesis using f64 fixed [of 8] by (simp add: packed_sizing_def)
  next
    case other
    then have p: "packed_sizing field count op = op PB_OSTREAM_SIZING" by (simp add: packed_sizing_def)
    show ?thesis
    proof (cases R)
      case None
      then obtain bs vol where "emits (wr, out, good) op False bs vol" "vol < 2 ^ 64"
        using emitting_NoneD [OF e [unfolded None] B] B by (auto dest: le_less_trans)
      from emits_sizingD [OF this sizing(1)] show ?thesis using None p by auto
    next
      case (Some bs)
      then have "emits (wr, out, good) op True bs (length bs)" "length bs < 2 ^ 64"
        using emitting_SomeD [OF e [unfolded Some] B] B by auto
      from emits_sizingD [OF this sizing(1)] show ?thesis using Some p sizing(2) by auto
    qed
  qed
qed

lemma emitting_array:
  fixes func :: "pb_field \<Rightarrow> addr \<Rightarrow> 's pb_ostream step"
  assumes lt: "PB_LTYPE (pf_type field) \<le> 0x0A" "PB_LTYPE (pf_type field) \<noteq> PB_LTYPE_EXTENSION"
    and func: "\<And>p. emitting (wr, out, good) (value_volume sub env field p) (value_bytes subb env field p) (func field p)"
  shows "emitting (wr, out, good) (array_volume sub env field pData count) (array_bytes subb env field pData (unat count))
    (encode_array (emem env) field pData count func)"
proof -
  let ?items = "array_items field pData (unat count)" and ?V = "value_volume sub env field" and ?R = "value_bytes subb env field"
  let ?B = "sum_list (map ?V ?items)"
  let ?at = "\<lambda>p. if PB_ATYPE (pf_type field) = PB_ATYPE_POINTER \<and>
      (PB_LTYPE (pf_type field) = PB_LTYPE_STRING \<or> PB_LTYPE (pf_type field) = PB_LTYPE_BYTES) then rd_ptr (emem env) p else p"
  consider (zero) "count = 0"
    | (over) "count \<noteq> 0" "PB_ATYPE (pf_type field) \<noteq> PB_ATYPE_POINTER \<and> count > ucast (array_size field)"
    | (packed) "count \<noteq> 0" "\<not> (PB_ATYPE (pf_type field) \<noteq> PB_ATYPE_POINTER \<and> count > ucast (array_size field))"
      "PB_LTYPE (pf_type field) \<le> PB_LTYPE_LAST_PACKABLE"
    | (plain) "count \<noteq> 0" "\<not> (PB_ATYPE (pf_type field) \<noteq> PB_ATYPE_POINTER \<and> count > ucast (array_size field))"
      "\<not> PB_LTYPE (pf_type field) \<le> PB_LTYPE_LAST_PACKABLE" by blast
  then show ?thesis
  proof cases
    case zero
    then show ?thesis by (auto simp: encode_array_def array_bytes_def)
  next
    case over
    then have "count \<noteq> 0" "unat count \<noteq> 0" "PB_ATYPE (pf_type field) \<noteq> PB_ATYPE_POINTER" "unat (array_size field) < unat count"
      by (simp_all add: word_less_nat_alt unat_eq_0)
    then show ?thesis using over by (simp add: encode_array_def array_bytes_def emitting_error)
  next
    case packed
    have n: "unat count \<noteq> 0" "\<not> (PB_ATYPE (pf_type field) \<noteq> PB_ATYPE_POINTER \<and> unat (array_size field) < unat count)"
      using packed by (simp_all add: word_less_nat_alt unat_eq_0)
    have lt: "PB_LTYPE (pf_type field) \<noteq> PB_LTYPE_STRING" "PB_LTYPE (pf_type field) \<noteq> PB_LTYPE_BYTES" using packed(3) by auto
    then have at: "?at p = p" for p by simp
    have "?B \<le> sum_list (map (\<lambda>p. 10 + ?V p) ?items)" by (rule sum_list_mono) simp
    then have V: "10 + (10 + ?B) \<le> array_volume sub env field pData count"
      unfolding array_volume_def if_not_P [OF packed(2)] at by simp
    have R: "array_bytes subb env field pData (unat count) =
        seq_bytes (Some (key_bytes (pf_tag field) (unat PB_WT_STRING))) (map_option delimited (all_bytes ?R ?items))"
      using n packed(3) by (auto simp: array_bytes_def Let_def seq_bytes_Some option.map_comp o_def)
    note items = emitting_all_steps [of ?items "(wr, out, good)" ?V ?R "func field", OF func]
    have "emitting (wr, out, good) (10 + ?B) (map_option delimited (all_bytes ?R ?items)) (\<lambda>stream.
      case packed_sizing field count (all_steps (func field) ?items) of
        None \<Rightarrow> None
      | Some (False, sizestream) \<Rightarrow> Some (False, stream)
      | Some (True, sizestream) \<Rightarrow>
          and_then (pb_encode_varint (bytes_written sizestream)) (\<lambda>stream.
            if os_sink stream = None then pb_write [] (bytes_written sizestream) stream
            else all_steps (func field) ?items stream) stream)"
      by (rule emitting_packed [OF items packed_size [OF items _ refl]]) (simp_all add: array_items_def)
    from emitting_and_then [OF emitting_tag this V, of PB_WT_STRING "pf_tag field"] show ?thesis
      unfolding R encode_array_def Let_def if_not_P [OF packed(1)] if_not_P [OF packed(2)] if_P [OF packed(3)]
      by (simp add: packed_sizing_def)
  next
    case plain
    have n: "unat count \<noteq> 0" "\<not> (PB_ATYPE (pf_type field) \<noteq> PB_ATYPE_POINTER \<and> unat (array_size field) < unat count)"
      using plain by (simp_all add: word_less_nat_alt unat_eq_0)
    have R: "array_bytes subb env field pData (unat count) = all_bytes (\<lambda>p. seq_bytes (Some (field_key field)) (?R (?at p))) ?items"
      unfolding seq_bytes_Some using n plain(3) by (auto simp: array_bytes_def Let_def)
    have "emitting (wr, out, good) (sum_list (map (\<lambda>p. 10 + ?V (?at p)) ?items))
        (all_bytes (\<lambda>p. seq_bytes (Some (field_key field)) (?R (?at p))) ?items)
        (all_steps (\<lambda>p. and_then (pb_encode_tag_for_field field) (func field (?at p))) ?items)"
      by (intro emitting_all_steps emitting_and_then [OF emitting_tag_for_field [OF lt] func order_refl])
    then show ?thesis
      unfolding R array_volume_def encode_array_def Let_def if_not_P [OF plain(1)] if_not_P [OF plain(2)] if_not_P [OF plain(3)]
        if_distrib [of "func field", symmetric]
      by (rule emitting_mono) simp
  qed
qed

text \<open>A field, and the fields of a message.\<close>

lemma emitting_field_value:
  assumes ok: "enc_field_ok (enc_wf n (descs env)) (descs env) field"
    and at: "PB_ATYPE (pf_type field) \<noteq> PB_ATYPE_CALLBACK"
    and rec: "\<And>fs a. enc_wf n (descs env) fs \<Longrightarrow> emitting (wr, out, good) (sub fs a) (subb fs a) (rec fs a)"
  shows "emitting (wr, out, good) (value_volume sub env field p) (value_bytes subb env field p)
    (PB_ENCODERS env rec (PB_LTYPE (pf_type field)) field p)"
proof (rule emitting_encoders)
  show "PB_LTYPE (pf_type field) \<le> 0x0A" "PB_LTYPE (pf_type field) \<noteq> PB_LTYPE_EXTENSION"
    using ok by (auto simp: enc_field_ok_def)
  assume "PB_LTYPE (pf_type field) = PB_LTYPE_SUBMESSAGE"
  then show "\<exists>k. pf_ptr field = PFields k \<and>
      (\<forall>a. emitting (wr, out, good) (sub (descs env k) a) (subb (descs env k) a) (rec (descs env k) a))"
    using ok at rec by (auto simp: enc_field_ok_def split: pb_ptr.splits)
qed

text \<open>A field that is no array: required, optional, or of a oneof.\<close>

lemma emitting_single:
  assumes ok: "enc_field_ok (enc_wf n (descs env)) (descs env) field"
    and at: "PB_ATYPE (pf_type field) = PB_ATYPE_STATIC \<or> PB_ATYPE (pf_type field) = PB_ATYPE_POINTER"
    and ht: "PB_HTYPE (pf_type field) \<noteq> PB_HTYPE_REPEATED"
    and one: "\<And>p. emitting (wr, out, good) (10 + value_volume sub env field p)
      (map_option ((@) (field_key field)) (value_bytes subb env field p))
      (and_then (pb_encode_tag_for_field field) (PB_ENCODERS env rec (PB_LTYPE (pf_type field)) field p))"
  shows "emitting (wr, out, good) (field_volume cbv sub env field pData) (field_bytes cbs subb (Suc n) env field pData)
    (encode_basic_field (Suc n) env rec field pData)"
proof -
  let ?p = "if PB_ATYPE (pf_type field) = PB_ATYPE_POINTER then rd_ptr (emem env) pData else pData"
  let ?one = "map_option ((@) (field_key field)) (value_bytes subb env field ?p)"
  let ?op = "and_then (pb_encode_tag_for_field field) (PB_ENCODERS env rec (PB_LTYPE (pf_type field)) field ?p)"
  obtain b where b: "pb_check_proto3_default_value (Suc n) (descs env) (emem env) field pData = Some b"
    using check_proto3_total [OF ok] by blast
  have V: "field_volume cbv sub env field pData = 10 + value_volume sub env field ?p"
    using ht at by (auto simp: field_volume_def Let_def)
  consider (req) "PB_HTYPE (pf_type field) = PB_HTYPE_REQUIRED" | (opt) "PB_HTYPE (pf_type field) = PB_HTYPE_OPTIONAL"
    | (oneof) "PB_HTYPE (pf_type field) = PB_HTYPE_ONEOF"
    | (invalid) "PB_HTYPE (pf_type field) \<notin> {PB_HTYPE_REQUIRED, PB_HTYPE_OPTIONAL, PB_HTYPE_REPEATED, PB_HTYPE_ONEOF}"
    using ht by blast
  then show ?thesis
  proof cases
    case req
    have "field_bytes cbs subb (Suc n) env field pData = (if ?p = 0 then None else ?one)"
      using req at by (simp only: field_bytes_def Let_def) auto
    moreover have "encode_basic_field (Suc n) env rec field pData = (if ?p = 0 then enc_error ''missing required field'' else ?op)"
      using req unfolding encode_basic_field_def Let_def b by simp
    ultimately show ?thesis unfolding V using one by (simp only: emitting_error split: if_split) simp
  next
    case opt
    have "field_bytes cbs subb (Suc n) env field pData = (if field_present (Suc n) env field pData then ?one else Some [])"
      using opt at by (simp only: field_bytes_def Let_def) auto
    moreover have "encode_basic_field (Suc n) env rec field pData = (if field_present (Suc n) env field pData then ?op else ret True)"
      using opt unfolding encode_basic_field_def field_present_def safe_read_bool_def Let_def b by simp
    ultimately show ?thesis unfolding V using one by (simp only: emitting_ret split: if_split) simp
  next
    case oneof
    let ?which = "rd_u32 (emem env) (pData + sint (size_offset field)) = pf_tag field"
    have "field_bytes cbs subb (Suc n) env field pData = (if ?which then ?one else Some [])"
      using oneof at by (simp only: field_bytes_def Let_def) auto
    moreover have "encode_basic_field (Suc n) env rec field pData = (if ?which then ?op else ret True)"
      using oneof ok unfolding encode_basic_field_def Let_def b by (simp add: enc_field_ok_def)
    ultimately show ?thesis unfolding V using one by (simp only: emitting_ret split: if_split) simp
  next
    case invalid
    have "field_bytes cbs subb (Suc n) env field pData = None" using invalid at by (auto simp: field_bytes_def Let_def)
    moreover have "encode_basic_field (Suc n) env rec field pData = enc_error ''invalid field type''"
      using invalid unfolding encode_basic_field_def Let_def b by simp
    ultimately show ?thesis by (simp only: emitting_error)
  qed
qed

lemma emitting_basic_field:
  assumes ok: "enc_field_ok (enc_wf n (descs env)) (descs env) field"
    and at: "PB_ATYPE (pf_type field) = PB_ATYPE_STATIC \<or> PB_ATYPE (pf_type field) = PB_ATYPE_POINTER"
    and rec: "\<And>fs a. enc_wf n (descs env) fs \<Longrightarrow> emitting (wr, out, good) (sub fs a) (subb fs a) (rec fs a)"
  shows "emitting (wr, out, good) (field_volume cbv sub env field pData) (field_bytes cbs subb (Suc n) env field pData)
    (encode_basic_field (Suc n) env rec field pData)"
proof -
  let ?func = "PB_ENCODERS env rec (PB_LTYPE (pf_type field))"
  have static: "PB_ATYPE (pf_type field) \<noteq> PB_ATYPE_CALLBACK" using at by auto
  have lt: "PB_LTYPE (pf_type field) \<le> 0x0A" "PB_LTYPE (pf_type field) \<noteq> PB_LTYPE_EXTENSION"
    using ok by (auto simp: enc_field_ok_def)
  have func: "emitting (wr, out, good) (value_volume sub env field p) (value_bytes subb env field p) (?func field p)" for p
    by (rule emitting_field_value [OF ok static rec])
  show ?thesis
  proof (cases "PB_HTYPE (pf_type field) = PB_HTYPE_REPEATED")
    case True
    let ?p = "if PB_ATYPE (pf_type field) = PB_ATYPE_POINTER then rd_ptr (emem env) pData else pData"
    let ?count = "if size_offset field \<noteq> 0 then rd_u32 (emem env) (pData + sint (size_offset field)) else array_size field"
    have "field_volume cbv sub env field pData = array_volume sub env field ?p (ucast ?count)"
      using True static by (simp add: field_volume_def Let_def)
    moreover have "field_bytes cbs subb (Suc n) env field pData = array_bytes subb env field ?p (unat (ucast ?count :: u64))"
      using True static at by (auto simp: field_bytes_def Let_def)
    moreover have "encode_basic_field (Suc n) env rec field pData = encode_array (emem env) field ?p (ucast ?count) ?func"
      using True check_proto3_total [OF ok] unfolding encode_basic_field_def Let_def by auto
    ultimately show ?thesis
      by (simp only: emitting_array [where func = ?func and env = env and sub = sub and subb = subb, OF lt func])
  next
    case False
    show ?thesis
      using emitting_and_then [OF emitting_tag_for_field [OF lt] func order_refl] unfolding seq_bytes_Some
      by (rule emitting_single [OF ok at False])
  qed
qed

lemma emitting_field:
  assumes ok: "enc_field_ok (enc_wf n (descs env)) (descs env) field"
    and rec: "\<And>fs a. enc_wf n (descs env) fs \<Longrightarrow> emitting (wr, out, good) (sub fs a) (subb fs a) (rec fs a)"
    and cb: "\<And>fn arg. emitting (wr, out, good) (cbv fn field arg) (cbs fn field arg) (cb_encode env fn field arg)"
  shows "emitting (wr, out, good) (field_volume cbv sub env field pData) (field_bytes cbs subb (Suc n) env field pData)
    (encode_field (Suc n) env rec field pData)"
proof -
  consider (basic) "PB_ATYPE (pf_type field) = PB_ATYPE_STATIC \<or> PB_ATYPE (pf_type field) = PB_ATYPE_POINTER"
    | (callback) "PB_ATYPE (pf_type field) = PB_ATYPE_CALLBACK"
    | (invalid) "PB_ATYPE (pf_type field) \<notin> {PB_ATYPE_STATIC, PB_ATYPE_POINTER, PB_ATYPE_CALLBACK}" by blast
  then show ?thesis
  proof cases
    case basic
    then show ?thesis unfolding encode_field_def Let_def if_P [OF basic] by (intro emitting_basic_field [OF ok] rec)
  next
    case callback
    let ?fn = "rd_ptr (emem env) pData"
    have V: "field_volume cbv sub env field pData = cbv ?fn field (pData + 8)"
      "field_bytes cbs subb (Suc n) env field pData = (if ?fn = 0 then Some [] else cbs ?fn field (pData + 8))"
      using callback by (simp_all add: field_volume_def field_bytes_def)
    have op: "encode_callback_field env field pData = (if ?fn = 0 then ret True
        else or_error ''callback error'' (cb_encode env ?fn field (pData + 8)))"
      by (intro ext) (simp add: encode_callback_field_def Let_def ret_def)
    have "emitting (wr, out, good) (cbv ?fn field (pData + 8)) (cbs ?fn field (pData + 8))
        (or_error ''callback error'' (cb_encode env ?fn field (pData + 8)))"
      using cb [of ?fn "pData + 8"] by (rule emitting_or_error)
    then have "emitting (wr, out, good) (field_volume cbv sub env field pData) (field_bytes cbs subb (Suc n) env field pData)
        (encode_callback_field env field pData)"
      unfolding V op by (simp add: emitting_ret)
    then show ?thesis using callback by (simp add: encode_field_def)
  next
    case invalid
    then have "field_bytes cbs subb (Suc n) env field pData = None"
      "encode_field (Suc n) env rec field pData = enc_error ''invalid field type''"
      by (simp_all add: field_bytes_def encode_field_def)
    then show ?thesis by (simp only: emitting_error)
  qed
qed

lemma emitting_pb_encode:
  assumes cb: "\<And>fn f arg. emitting (wr, out, good) (cbv fn f arg) (cbs fn f arg) (cb_encode env fn f arg)"
  shows "enc_wf n (descs env) fs \<Longrightarrow>
    emitting (wr, out, good) (message_volume cbv n env fs src) (message_bytes cbs n env fs src) (pb_encode n env fs src)"
proof (induction n arbitrary: fs src)
  case (Suc n)
  let ?its = "iter_states (snd (pb_field_iter_begin fs src))"
  let ?V = "\<lambda>it. field_volume cbv (message_volume cbv n env) env (it_field it) (it_data it)"
  let ?R = "\<lambda>it. field_bytes cbs (message_bytes cbs n env) (Suc n) env (it_field it) (it_data it)"
  show ?case
  proof (cases "fst (pb_field_iter_begin fs src)")
    case False
    then show ?thesis by (auto simp: case_prod_beta)
  next
    case True
    have field: "emitting (wr, out, good) (?V it) (?R it)
      (if PB_LTYPE (pf_type (it_field it)) = PB_LTYPE_EXTENSION
       then encode_extension_field (Suc n) env (pb_encode n env) (it_field it) (it_data it)
       else encode_field (Suc n) env (pb_encode n env) (it_field it) (it_data it))" if "it \<in> set ?its" for it
    proof -
      have ok: "enc_field_ok (enc_wf n (descs env)) (descs env) (it_field it)"
        using iter_states_ok [OF Suc.prems that True] .
      then have "PB_LTYPE (pf_type (it_field it)) \<noteq> PB_LTYPE_EXTENSION" by (simp add: enc_field_ok_def)
      moreover have "emitting (wr, out, good) (?V it) (?R it) (encode_field (Suc n) env (pb_encode n env) (it_field it) (it_data it))"
        by (rule emitting_field [OF ok]) (use Suc.IH cb in blast)+
      ultimately show ?thesis by simp
    qed
    have V: "message_volume cbv (Suc n) env fs src = sum_list (map ?V ?its)"
      "message_bytes cbs (Suc n) env fs src = all_bytes ?R ?its"
      using True by (simp_all add: case_prod_beta)
    show ?thesis
      using True unfolding V unfolding pb_encode.simps case_prod_beta by (simp only:) (simp, rule emitting_all_steps [OF field])
  qed
qed simp

end

section \<open>Encoding into a memory buffer\<close>

text \<open>
  The sink of \<open>pb_ostream_from_buffer\<close>: started with the memory \<open>m\<close> and the buffer at
  \<open>base\<close>, it has put the bytes taken so far behind each other from \<open>base\<close> on and left
  the rest of the memory alone.
\<close>

definition buf_out :: "addr \<Rightarrow> membuf \<Rightarrow> u8 list" where
  "buf_out base st = rd_bytes (fst st) base (nat (snd st - base))"

definition buf_good :: "(addr \<Rightarrow> u8) \<Rightarrow> addr \<Rightarrow> membuf \<Rightarrow> bool" where
  "buf_good m base st \<longleftrightarrow> (\<exists>bs. st = (put_bytes m base bs, base + int (length bs)))"

abbreviation buf_sink :: "(addr \<Rightarrow> u8) \<Rightarrow> addr \<Rightarrow> membuf sink" where
  "buf_sink m base \<equiv> (buf_write, buf_out base, buf_good m base)"

lemma buf_goodD: "buf_good m base st \<Longrightarrow> st = (put_bytes m base (buf_out base st), base + int (length (buf_out base st)))"
  by (auto simp: buf_good_def buf_out_def rd_put_bytes)

lemma buf_good_init: "buf_good m base (m, base)" "buf_out base (m, base) = []"
  by (auto simp: buf_good_def buf_out_def intro: exI [of _ "[]"])

lemma buf_write_good:
  assumes "buf_good m base st"
  shows "buf_write st bs = (True, (put_bytes m base (buf_out base st @ bs),
    base + int (length (buf_out base st @ bs))))"
proof -
  obtain xs where st: "st = (put_bytes m base xs, base + int (length xs))" and xs: "buf_out base st = xs"
    using buf_goodD [OF assms] by blast
  show ?thesis unfolding xs unfolding st by (simp add: buf_write_def put_bytes_append algebra_simps)
qed

interpretation membuf: byte_sink buf_write "buf_out base" "buf_good m base" for m base
proof
  fix st bs assume g: "buf_good m base st"
  show "fst (buf_write st bs)" by (simp add: buf_write_good [OF g])
  show "buf_good m base (snd (buf_write st bs))"
    unfolding buf_write_good [OF g] by (auto simp: buf_good_def)
  show "buf_out base (snd (buf_write st bs)) = buf_out base st @ bs"
    unfolding buf_write_good [OF g] by (simp add: buf_out_def rd_put_bytes)
qed

lemma ready_from_buffer: "ready (buf_sink m base) (pb_ostream_from_buffer m base sz) (m, base)"
  by (simp add: ready_def pb_ostream_from_buffer_def buf_good_init)

lemma grown_from_buffer:
  assumes "grown (buf_sink m base) (pb_ostream_from_buffer m base sz) (m, base) s' st' bs"
  shows "os_sink s' = Some (buf_write, (put_bytes m base bs, base + int (length bs)))"
    "unat (bytes_written s') = length bs" "length bs \<le> unat sz"
proof -
  have g: "os_sink s' = Some (buf_write, st')" "buf_good m base st'" "buf_out base st' = bs"
    "unat (bytes_written s') = length bs" "unat (bytes_written s') \<le> unat sz"
    using assms by (auto simp: grown_def ready_def buf_good_init pb_ostream_from_buffer_def)
  then show "os_sink s' = Some (buf_write, (put_bytes m base bs, base + int (length bs)))"
    using buf_goodD [of m base st'] by simp
  show "unat (bytes_written s') = length bs" "length bs \<le> unat sz" using g by auto
qed

lemma emits_from_buffer:
  assumes e: "emits (buf_sink m base) op ok bs vol" and vol: "vol < 2 ^ 64"
  shows "length bs \<le> unat sz \<Longrightarrow> \<exists>s'. op (pb_ostream_from_buffer m base sz) = Some (ok, s') \<and>
      os_sink s' = Some (buf_write, (put_bytes m base bs, base + int (length bs))) \<and>
      unat (bytes_written s') = length bs"
    and "unat sz < length bs \<Longrightarrow> \<exists>s' k. op (pb_ostream_from_buffer m base sz) = Some (False, s') \<and>
      k \<le> unat sz \<and> os_sink s' = Some (buf_write, (put_bytes m base (take k bs), base + int k)) \<and>
      unat (bytes_written s') = k"
proof -
  have init: "bytes_written (pb_ostream_from_buffer m base sz) = 0"
    "max_size (pb_ostream_from_buffer m base sz) = sz" by (simp_all add: pb_ostream_from_buffer_def)
  {
    assume "length bs \<le> unat sz"
    then obtain s' st' where "op (pb_ostream_from_buffer m base sz) = Some (ok, s')"
      "grown (buf_sink m base) (pb_ostream_from_buffer m base sz) (m, base) s' st' bs"
      using emits_fitD [OF e ready_from_buffer [where m = m and base = base and sz = sz]] vol init by auto
    then show "\<exists>s'. op (pb_ostream_from_buffer m base sz) = Some (ok, s') \<and>
      os_sink s' = Some (buf_write, (put_bytes m base bs, base + int (length bs))) \<and>
      unat (bytes_written s') = length bs" using grown_from_buffer by blast
  next
    assume "unat sz < length bs"
    then obtain s' st' bs' where r: "op (pb_ostream_from_buffer m base sz) = Some (False, s')"
      "grown (buf_sink m base) (pb_ostream_from_buffer m base sz) (m, base) s' st' bs'" "prefix bs' bs"
      using emits_fullD [OF e ready_from_buffer [where m = m and base = base and sz = sz]] vol init by auto
    moreover from r(3) have "bs' = take (length bs') bs" by (auto simp: prefix_def)
    ultimately show "\<exists>s' k. op (pb_ostream_from_buffer m base sz) = Some (False, s') \<and>
      k \<le> unat sz \<and> os_sink s' = Some (buf_write, (put_bytes m base (take k bs), base + int k)) \<and>
      unat (bytes_written s') = k"
      using grown_from_buffer [OF r(2)] by (intro exI [of _ s'] exI [of _ "length bs'"]) auto
  }
qed

section \<open>Properties of the encoder\<close>

text \<open>
  The outcome of encoding a message: \<open>pb_get_encoded_size\<close> returns the length of \<open>bs\<close>, a
  buffer of at least that length receives exactly \<open>bs\<close>, and a shorter buffer makes
  \<open>pb_encode\<close> return false after a prefix that fits into it. Apart from these bytes the
  memory \<open>m\<close> is unchanged.
\<close>

definition encoding_outcome ::
  "(addr \<Rightarrow> u8) \<Rightarrow> addr \<Rightarrow> nat \<Rightarrow> membuf enc_env \<Rightarrow> pb_fields \<Rightarrow> addr \<Rightarrow> bool \<Rightarrow> u8 list \<Rightarrow> bool" where
  "encoding_outcome m base n env fs src ok bs \<longleftrightarrow>
    pb_get_encoded_size n env fs src = Some (if ok then Some (word_of_nat (length bs)) else None) \<and>
    (\<forall>sz. length bs \<le> unat sz \<longrightarrow> (\<exists>s'.
       pb_encode n env fs src (pb_ostream_from_buffer m base sz) = Some (ok, s') \<and>
       os_sink s' = Some (buf_write, (put_bytes m base bs, base + int (length bs))) \<and>
       unat (bytes_written s') = length bs)) \<and>
    (\<forall>sz. unat sz < length bs \<longrightarrow> (\<exists>s' k.
       pb_encode n env fs src (pb_ostream_from_buffer m base sz) = Some (False, s') \<and> k \<le> unat sz \<and>
       os_sink s' = Some (buf_write, (put_bytes m base (take k bs), base + int k)) \<and>
       unat (bytes_written s') = k))"

lemma emits_outcome:
  assumes e: "emits (buf_sink m base) (pb_encode n env fs src) ok bs vol" and vol: "vol < 2 ^ 64"
  shows "encoding_outcome m base n env fs src ok bs"
proof -
  have "os_sink PB_OSTREAM_SIZING = None" "bytes_written PB_OSTREAM_SIZING = 0"
    by (simp_all add: PB_OSTREAM_SIZING_def)
  with emits_sizingD [OF e vol] have size: "pb_get_encoded_size n env fs src
      = Some (if ok then Some (word_of_nat (length bs)) else None)"
    unfolding pb_get_encoded_size_def by fastforce
  show ?thesis
    unfolding encoding_outcome_def
  proof (rule conjI [OF size], rule conjI; rule allI; rule impI)
  qed (rule emits_from_buffer [OF e vol], assumption)+
qed

text \<open>
  C2. Encoding a message writes its bytes in the wire format (\<open>message_bytes\<close>, defined in \<open>Pb_Wire\<close> from the
  message in memory): the size pass returns their number, every large enough buffer receives exactly them and
  the encoder returns true, and a short buffer makes it fail after a prefix that fits. A message without such bytes,
  with an array longer than its field, a bytes value larger than its field, a missing required field or a number
  of a wrong size, fails on every stream, and in the size pass. The descriptors are well-formed, the callbacks of
  the message behave like the encoder's own functions, and the volume of the message, an upper bound of its
  encoded size computed from the message in memory, is below the range of \<open>size_t\<close>, so that no counter of bytes
  wraps around.
\<close>

theorem pb_encode_outcome:
  assumes wf: "enc_wf n (descs env) fs"
    and callbacks: "\<And>fn f arg. emitting (buf_sink m base) (cbv fn f arg) (cbs fn f arg) (cb_encode env fn f arg)"
    and volume: "message_volume cbv n env fs src < 2 ^ 64"
  shows "case message_bytes cbs n env fs src of
      Some bs \<Rightarrow> encoding_outcome m base n env fs src True bs
    | None \<Rightarrow> \<exists>bs. length bs \<le> message_volume cbv n env fs src \<and> encoding_outcome m base n env fs src False bs"
proof -
  note e = membuf.emitting_pb_encode [OF callbacks wf, of src]
  show ?thesis
  proof (cases "message_bytes cbs n env fs src")
    case (Some bs)
    then have "emits (buf_sink m base) (pb_encode n env fs src) True bs (length bs)" "length bs < 2 ^ 64"
      using emitting_SomeD [of _ _ bs] e volume by fastforce+
    then show ?thesis using emits_outcome Some by simp
  next
    case None
    then obtain bs vol where b: "emits (buf_sink m base) (pb_encode n env fs src) False bs vol"
      "vol \<le> message_volume cbv n env fs src" using emitting_NoneD e volume by metis
    then have "length bs \<le> vol" "vol < 2 ^ 64" using volume by (auto simp: emits_def)
    then show ?thesis using emits_outcome [OF b(1)] b(2) None by (auto intro: le_trans)
  qed
qed

definition sample_enc_env :: "(addr \<Rightarrow> u8) \<Rightarrow> membuf enc_env" where
  "sample_enc_env m = \<lparr>descs = (\<lambda>_. []), emem = m, ext_arg = (\<lambda>_. []),
     cb_encode = (\<lambda>_ _ _. ret True), ext_encode = (\<lambda>_ _. ret True)\<rparr>"

lemma sample_enc_wf: "enc_wf (Suc 0) ds sample_fields"
  by (simp add: sample_fields_def enc_field_ok_def PB_LTYPE_def PB_HTYPE_def)

lemma sample_volume: "message_volume (\<lambda>_ _ _. 0) (Suc 0) (sample_enc_env (\<lambda>_. 7)) sample_fields 16 = 48"
  by code_simp

lemma sample_iters:
  "iter_states (snd (pb_field_iter_begin sample_fields 16)) =
    [iter_at sample_fields 16 0, iter_at sample_fields 16 (Suc 0)]"
  "it_field (iter_at sample_fields 16 0) = sample_fields ! 0" "it_data (iter_at sample_fields 16 0) = 16"
  "it_field (iter_at sample_fields 16 (Suc 0)) = sample_fields ! 1" "it_data (iter_at sample_fields 16 (Suc 0)) = 20"
proof -
  have "iter_states (iter_at sample_fields 16 0) = map (iter_at sample_fields 16) [0..<length sample_fields]"
    by (rule iter_states_iter_at) (simp_all add: sample_fields_wf)
  then show "iter_states (snd (pb_field_iter_begin sample_fields 16)) =
    [iter_at sample_fields 16 0, iter_at sample_fields 16 (Suc 0)]" by (simp add: sample_fields_wf upt_conv_Cons)
  show "it_field (iter_at sample_fields 16 0) = sample_fields ! 0"
    "it_field (iter_at sample_fields 16 (Suc 0)) = sample_fields ! 1"
    by (simp_all only: iter_at_frame it_pos_iter_at sample_fields_wf) (simp_all add: field_at_in sample_fields_wf)
  show "it_data (iter_at sample_fields 16 0) = 16" "it_data (iter_at sample_fields 16 (Suc 0)) = 20"
    by (simp_all add: pb_field_iter_begin_def pb_field_iter_next_def sample_fields_def field_at_def Let_def
        PB_HTYPE_def PB_ATYPE_def)
qed

lemma sample_bytes: "message_bytes (\<lambda>_ _ _. Some []) (Suc 0) (sample_enc_env (\<lambda>_. 7)) sample_fields 16 =
    Some [8, 0x87, 0x8E, 0x9C, 0x38, 18, 8, 7, 7, 7, 7, 7, 7, 7, 7]"
proof -
  have n: "le_nat (rd_bytes (\<lambda>_. 7) 16 4) = 0x07070707" by (simp add: rd_bytes_def upt_conv_Cons)
  have s: "rd_bytes (\<lambda>_. 7) 20 8 = [7, 7, 7, 7, 7, 7, 7, 7]" by (simp add: rd_bytes_def upt_conv_Cons)
  have small: "leb128 8 = [8]" "leb128 18 = [18]" by (simp_all add: leb128.simps)
  have eight: "leb128 (Suc (Suc (Suc (Suc (Suc (Suc (Suc (Suc 0)))))))) = [8]"
    using small(1) by (simp add: eval_nat_numeral)
  have num: "leb128 117901063 = [0x87, 0x8E, 0x9C, 0x38]"
    by (simp add: leb128.simps [of 117901063] leb128.simps [of 921102] leb128.simps [of 7196] leb128.simps [of 56])
  let ?env = "sample_enc_env (\<lambda>_. 7)"
  have "field_bytes (\<lambda>_ _ _. Some []) subb k ?env (sample_fields ! 0) 16 = Some [8, 0x87, 0x8E, 0x9C, 0x38]"
    "field_bytes (\<lambda>_ _ _. Some []) subb k ?env (sample_fields ! 1) 20 = Some [18, 8, 7, 7, 7, 7, 7, 7, 7, 7]" for subb k
    by (simp_all add: sample_fields_def sample_enc_env_def field_bytes_def value_bytes_def field_int_def field_nat_def
        field_key_def key_bytes_def wire_type_def delimited_def small eight num n s PB_HTYPE_def PB_ATYPE_def PB_LTYPE_def)
  moreover have "pf_tag (field_at sample_fields 0) \<noteq> 0" by (simp add: sample_fields_def field_at_def)
  ultimately show ?thesis
    unfolding message_bytes.simps case_prod_beta begin_simps sample_iters(1)
    by (simp add: seq_bytes_def sample_iters del: iter_at.simps iter_at_frame)
qed

text \<open>A message with a number and a string, in memory full of sevens.\<close>

lemma pb_encode_outcome_witness:
  "encoding_outcome (\<lambda>_. 7) 100 (Suc 0) (sample_enc_env (\<lambda>_. 7)) sample_fields 16 True
    [8, 0x87, 0x8E, 0x9C, 0x38, 18, 8, 7, 7, 7, 7, 7, 7, 7, 7]"
proof -
  have "emitting (buf_sink (\<lambda>_. 7) 100) 0 (Some []) (cb_encode (sample_enc_env (\<lambda>_. 7)) fn f arg)" for fn f arg
    by (simp add: sample_enc_env_def emitting_ret)
  from pb_encode_outcome [OF sample_enc_wf this, where src = 16] sample_volume sample_bytes show ?thesis by simp
qed

end
