(* ===== verification/Pb_Decode.thy ===== *)
theory Pb_Decode
  imports Pb_Common
begin

text \<open>
  nanopb: the decoder, \<open>pb_decode.c\<close> (src/LadyBook/Pods/nanopb), in the configuration
  with \<open>PB_ENABLE_MALLOC\<close> and without \<open>PB_WITHOUT_64BIT\<close> and \<open>PB_BUFFER_ONLY\<close>.

  An input stream reads from a byte buffer (the source whose callback is the C function
  \<open>buf_read\<close>, at the remaining bytes of the buffer) or through a callback of the user. A
  function with an out parameter, \<open>bool f(stream, T *dest)\<close>, is a reader: \<open>Some (Some v, s)\<close>
  when it returns true with \<open>*dest = v\<close>, \<open>Some (None, s)\<close> when it returns false, and \<open>None\<close>
  when C gives it no meaning, e.g. when it reads behind the end of the buffer. The
  functions that work on the message struct are steps on the stream and the heap. As in
  the encoder the user's callbacks are parameters, the recursion over submessages takes
  fuel, and \<open>rec\<close> is \<open>pb_decode_noinit\<close> with one unit less.
\<close>

named_theorems dec_defs \<open>control flow of the decoder\<close>

section \<open>Input streams\<close>

datatype 's source =
    buf_read "u8 list"
  | Callback "'s \<Rightarrow> u64 \<Rightarrow> (bool \<times> u8 list \<times> bool) \<times> 's" 's

record 's pb_istream =
  is_source :: "'s source"
  bytes_left :: u64
  is_errmsg :: "string option"

type_synonym ('s, 'a) reader = "'s pb_istream \<Rightarrow> ('a option \<times> 's pb_istream) option"

definition rd_error :: "string \<Rightarrow> ('s, 'a) reader" where
  "rd_error msg = (\<lambda>stream.
     Some (None, stream\<lparr>is_errmsg := PB_SET_ERROR (is_errmsg stream) msg\<rparr>))"

definition rd_value :: "'a \<Rightarrow> ('s, 'a) reader" where
  "rd_value v = (\<lambda>stream. Some (Some v, stream))"

text \<open>\<open>if (!f(stream, &v)) return false; k\<close>\<close>

definition rd_then :: "('s, 'a) reader \<Rightarrow> ('a \<Rightarrow> ('s, 'b) reader) \<Rightarrow> ('s, 'b) reader" where
  "rd_then f k = (\<lambda>stream. case f stream of
       None \<Rightarrow> None
     | Some (None, stream') \<Rightarrow> Some (None, stream')
     | Some (Some v, stream') \<Rightarrow> k v stream')"

declare rd_error_def [dec_defs] rd_value_def [dec_defs] rd_then_def [dec_defs]

definition pb_istream_from_buffer :: "u8 list \<Rightarrow> u64 \<Rightarrow> 's pb_istream" where
  "pb_istream_from_buffer buf bufsize =
     \<lparr>is_source = buf_read buf, bytes_left = bufsize, is_errmsg = None\<rparr>"

text \<open>
  \<open>stream->callback(stream, buf, count)\<close>: the flag it returns, the bytes it has put into
  \<open>buf\<close>, and the stream. A user's callback may report the end of its input by setting
  \<open>bytes_left\<close> to zero.
\<close>

definition source_read :: "u64 \<Rightarrow> 's pb_istream \<Rightarrow> (bool \<times> u8 list \<times> 's pb_istream) option" where
  "source_read count stream = (case is_source stream of
       buf_read source \<Rightarrow>
         if unat count \<le> length source
         then Some (True, take (unat count) source,
                    stream\<lparr>is_source := buf_read (drop (unat count) source)\<rparr>)
         else None
     | Callback f st \<Rightarrow> (case f st count of ((ok, bs, eof), st') \<Rightarrow>
         if length bs \<le> unat count \<and> (ok \<longrightarrow> length bs = unat count)
         then Some (ok, bs, stream\<lparr>is_source := Callback f st',
                                   bytes_left := if eof then 0 else bytes_left stream\<rparr>)
         else None))"

text \<open>\<open>pb_read\<close> into a buffer: the flag it returns and the bytes written to the buffer.\<close>

definition pb_read :: "u64 \<Rightarrow> 's pb_istream \<Rightarrow> (bool \<times> u8 list \<times> 's pb_istream) option" where
  "pb_read count stream =
     (if count = 0 then Some (True, [], stream)
      else if bytes_left stream < count
      then Some (False, [], stream\<lparr>is_errmsg := PB_SET_ERROR (is_errmsg stream) ''end-of-stream''\<rparr>)
      else case source_read count stream of
        None \<Rightarrow> None
      | Some (ok, bs, stream') \<Rightarrow>
          if \<not> ok
          then Some (False, bs, stream'\<lparr>is_errmsg := PB_SET_ERROR (is_errmsg stream') ''io error''\<rparr>)
          else Some (True, bs, stream'\<lparr>bytes_left := bytes_left stream' - count\<rparr>))"

definition pb_read_tmp :: "u64 \<Rightarrow> ('s, u8 list) reader" where
  "pb_read_tmp count stream =
     map_option (\<lambda>(ok, bs, stream'). (if ok then Some bs else None, stream')) (pb_read count stream)"

text \<open>\<open>pb_read\<close> with \<open>buf == NULL\<close>: skip input bytes, in chunks of 16 from a user's source.\<close>

function skip_chunks :: "u64 \<Rightarrow> ('s, unit) reader" where
  "skip_chunks count =
     (if count > 16 then rd_then (pb_read_tmp 16) (\<lambda>_. skip_chunks (count - 16))
      else rd_then (pb_read_tmp count) (\<lambda>_. rd_value ()))"
  by pat_completeness auto
termination
proof (relation "measure unat", simp)
  fix count :: u64 assume "16 < count"
  then show "(count - 16, count) \<in> measure unat"
    by (simp add: word_less_nat_alt unat_sub word_le_nat_alt)
qed

declare skip_chunks.simps [simp del]

definition pb_read_null :: "u64 \<Rightarrow> ('s, unit) reader" where
  "pb_read_null count stream =
     (if count = 0 then Some (Some (), stream)
      else case is_source stream of
        Callback f st \<Rightarrow> skip_chunks count stream
      | buf_read source \<Rightarrow> rd_then (pb_read_tmp count) (\<lambda>_. rd_value ()) stream)"

definition pb_readbyte :: "('s, u8) reader" where
  "pb_readbyte stream =
     (if bytes_left stream = 0 then rd_error ''end-of-stream'' stream
      else case source_read 1 stream of
        None \<Rightarrow> None
      | Some (ok, bs, stream') \<Rightarrow>
          if \<not> ok then rd_error ''io error'' stream'
          else Some (Some (hd bs), stream'\<lparr>bytes_left := bytes_left stream' - 1\<rparr>))"

section \<open>Reading values\<close>

text \<open>
  The loop of \<open>pb_decode_varint32_eof\<close> after the first byte; the position \<open>bitpos\<close> is an
  8-bit integer, as \<open>uint_fast8_t\<close> is on the target.
\<close>

partial_function (option) varint32_loop :: "u8 \<Rightarrow> u32 \<Rightarrow> ('s, u32) reader" where
  "varint32_loop bitpos result stream = (case pb_readbyte stream of
       None \<Rightarrow> None
     | Some (None, stream') \<Rightarrow> Some (None, stream')
     | Some (Some byte, stream') \<Rightarrow>
         if bitpos \<ge> 32 \<and> byte AND 0x7F \<noteq> 0 \<and>
            (drop_bit 31 result = 0 \<or> byte \<noteq> (if bitpos < 63 then 0xFF else 0x01))
         then rd_error ''varint overflow'' stream'
         else
           let result' = (if bitpos \<ge> 32 then result
                          else result OR push_bit (unat bitpos) (ucast (byte AND 0x7F)));
               bitpos' = bitpos + 7
           in if byte AND 0x80 \<noteq> 0 then varint32_loop bitpos' result' stream'
              else if bitpos' = 35 \<and> byte AND 0x70 \<noteq> 0 then rd_error ''varint overflow'' stream'
              else rd_value result' stream')"

text \<open>The result, whether \<open>*eof\<close> was set, and the stream.\<close>

definition pb_decode_varint32_eof ::
  "'s pb_istream \<Rightarrow> (u32 option \<times> bool \<times> 's pb_istream) option" where
  "pb_decode_varint32_eof stream = (case pb_readbyte stream of
       None \<Rightarrow> None
     | Some (None, stream') \<Rightarrow> Some (None, bytes_left stream' = 0, stream')
     | Some (Some byte, stream') \<Rightarrow>
         if byte AND 0x80 = 0 then Some (Some (ucast byte), False, stream')
         else map_option (\<lambda>(v, stream''). (v, False, stream''))
                (varint32_loop 7 (ucast (byte AND 0x7F)) stream'))"

definition pb_decode_varint32 :: "('s, u32) reader" where
  "pb_decode_varint32 stream =
     map_option (\<lambda>(v, eof, stream'). (v, stream')) (pb_decode_varint32_eof stream)"

partial_function (option) varint_loop :: "u8 \<Rightarrow> u64 \<Rightarrow> ('s, u64) reader" where
  "varint_loop bitpos result stream =
     (if bitpos \<ge> 64 then rd_error ''varint overflow'' stream
      else case pb_readbyte stream of
        None \<Rightarrow> None
      | Some (None, stream') \<Rightarrow> Some (None, stream')
      | Some (Some byte, stream') \<Rightarrow>
          let result' = result OR push_bit (unat bitpos) (ucast (byte AND 0x7F)) in
          if byte AND 0x80 \<noteq> 0 then varint_loop (bitpos + 7) result' stream'
          else rd_value result' stream')"

definition pb_decode_varint :: "('s, u64) reader" where
  "pb_decode_varint = varint_loop 0 0"

partial_function (option) pb_skip_varint :: "('s, unit) reader" where
  "pb_skip_varint stream = (case pb_read_tmp 1 stream of
       None \<Rightarrow> None
     | Some (None, stream') \<Rightarrow> Some (None, stream')
     | Some (Some bs, stream') \<Rightarrow>
         if hd bs AND 0x80 \<noteq> 0 then pb_skip_varint stream' else rd_value () stream')"

definition pb_skip_string :: "('s, unit) reader" where
  "pb_skip_string = rd_then pb_decode_varint32 (\<lambda>len. pb_read_null (ucast len))"

text \<open>The wire type and tag if it returns true, whether \<open>*eof\<close> was set, and the stream.\<close>

definition pb_decode_tag ::
  "'s pb_istream \<Rightarrow> ((u64 \<times> u32) option \<times> bool \<times> 's pb_istream) option" where
  "pb_decode_tag stream = (case pb_decode_varint32_eof stream of
       None \<Rightarrow> None
     | Some (None, eof, stream') \<Rightarrow> Some (None, eof, stream')
     | Some (Some temp, eof, stream') \<Rightarrow>
         if temp = 0 then Some (None, True, stream')
         else Some (Some (ucast (temp AND 7), drop_bit 3 temp), eof, stream'))"

definition pb_skip_field :: "u64 \<Rightarrow> ('s, unit) reader" where
  "pb_skip_field wire_type =
     (if wire_type = PB_WT_VARINT then pb_skip_varint
      else if wire_type = PB_WT_64BIT then pb_read_null 8
      else if wire_type = PB_WT_STRING then pb_skip_string
      else if wire_type = PB_WT_32BIT then pb_read_null 4
      else rd_error ''invalid wire_type'')"

text \<open>The bytes that \<open>read_raw_value\<close> leaves in \<open>buf[0..*size)\<close>; \<open>max_size\<close> is 10 at its call.\<close>

primrec raw_varint :: "nat \<Rightarrow> ('s, u8 list) reader" where
  "raw_varint 0 stream = Some (None, stream)"
| "raw_varint (Suc n) stream =
     rd_then (pb_read_tmp 1) (\<lambda>bs.
       if hd bs AND 0x80 \<noteq> 0 then rd_then (raw_varint n) (\<lambda>more. rd_value (hd bs # more))
       else rd_value [hd bs]) stream"

definition read_raw_value :: "u64 \<Rightarrow> nat \<Rightarrow> ('s, u8 list) reader" where
  "read_raw_value wire_type maxsize =
     (if wire_type = PB_WT_VARINT then raw_varint maxsize
      else if wire_type = PB_WT_64BIT then pb_read_tmp 8
      else if wire_type = PB_WT_32BIT then pb_read_tmp 4
      else rd_error ''invalid wire_type'')"

text \<open>The substream, and the stream shortened by its length.\<close>

definition pb_make_string_substream :: "('s, 's pb_istream) reader" where
  "pb_make_string_substream = rd_then pb_decode_varint32 (\<lambda>sz stream.
     if bytes_left stream < ucast sz then rd_error ''parent stream too short'' stream
     else Some (Some (stream\<lparr>bytes_left := ucast sz\<rparr>),
                stream\<lparr>bytes_left := bytes_left stream - ucast sz\<rparr>))"

definition pb_close_string_substream :: "'s pb_istream \<Rightarrow> ('s, unit) reader" where
  "pb_close_string_substream substream stream =
     (case (if bytes_left substream \<noteq> 0 then pb_read_null (bytes_left substream) substream
            else Some (Some (), substream)) of
        None \<Rightarrow> None
      | Some (None, substream') \<Rightarrow> Some (None, stream)
      | Some (Some _, substream') \<Rightarrow>
          Some (Some (), stream\<lparr>is_source := is_source substream', is_errmsg := is_errmsg substream'\<rparr>))"

definition pb_decode_svarint :: "('s, u64) reader" where
  "pb_decode_svarint = rd_then pb_decode_varint (\<lambda>v.
     rd_value (if v AND 1 \<noteq> 0 then NOT (drop_bit 1 v) else drop_bit 1 v))"

definition pb_decode_fixed32 :: "('s, u32) reader" where
  "pb_decode_fixed32 = rd_then (pb_read_tmp 4) (\<lambda>bytes.
     rd_value (push_bit 0 (ucast (bytes ! 0)) OR push_bit 8 (ucast (bytes ! 1)) OR
               push_bit 16 (ucast (bytes ! 2)) OR push_bit 24 (ucast (bytes ! 3))))"

definition pb_decode_fixed64 :: "('s, u64) reader" where
  "pb_decode_fixed64 = rd_then (pb_read_tmp 8) (\<lambda>bytes.
     rd_value (push_bit 0 (ucast (bytes ! 0)) OR push_bit 8 (ucast (bytes ! 1)) OR
               push_bit 16 (ucast (bytes ! 2)) OR push_bit 24 (ucast (bytes ! 3)) OR
               push_bit 32 (ucast (bytes ! 4)) OR push_bit 40 (ucast (bytes ! 5)) OR
               push_bit 48 (ucast (bytes ! 6)) OR push_bit 56 (ucast (bytes ! 7))))"

section \<open>Steps on the stream and the heap\<close>

type_synonym 's dstate = "'s pb_istream \<times> heap"
type_synonym 's dstep = "'s dstate step"

record 's dec_env =
  d_descs :: "nat \<Rightarrow> pb_fields"
  d_ext_arg :: "addr \<Rightarrow> pb_fields"
  cb_decode :: "addr \<Rightarrow> pb_field \<Rightarrow> addr \<Rightarrow> 's dstep"
  ext_decode :: "addr \<Rightarrow> addr \<Rightarrow> u32 \<Rightarrow> u64 \<Rightarrow> 's dstep"

definition dec_error :: "string \<Rightarrow> 's dstep" where
  "dec_error msg = (\<lambda>(stream, h).
     Some (False, (stream\<lparr>is_errmsg := PB_SET_ERROR (is_errmsg stream) msg\<rparr>, h)))"

text \<open>\<open>if (!f(stream, &v)) return false; k\<close> for a reader, a load and a heap operation.\<close>

definition with_value :: "('s, 'a) reader \<Rightarrow> ('a \<Rightarrow> 's dstep) \<Rightarrow> 's dstep" where
  "with_value f k = (\<lambda>(stream, h). case f stream of
       None \<Rightarrow> None
     | Some (None, stream') \<Rightarrow> Some (False, (stream', h))
     | Some (Some v, stream') \<Rightarrow> k v (stream', h))"

definition with_load :: "nat \<Rightarrow> addr \<Rightarrow> (nat \<Rightarrow> 's dstep) \<Rightarrow> 's dstep" where
  "with_load n a k = (\<lambda>(stream, h). case h_load_nat n h a of
       None \<Rightarrow> None
     | Some v \<Rightarrow> k v (stream, h))"

definition do_heap :: "(heap \<Rightarrow> heap option) \<Rightarrow> 's dstep" where
  "do_heap f = (\<lambda>(stream, h). map_option (\<lambda>h'. (True, (stream, h'))) (f h))"

definition do_store :: "nat \<Rightarrow> addr \<Rightarrow> nat \<Rightarrow> 's dstep" where
  "do_store n a v = do_heap (\<lambda>h. h_store_nat n h a v)"

definition h_memset0 :: "addr \<Rightarrow> nat \<Rightarrow> heap \<Rightarrow> heap option" where
  "h_memset0 a n h = h_store h a (replicate n 0)"

text \<open>\<open>pb_read(stream, dest, count)\<close> with \<open>dest\<close> in the heap.\<close>

definition pb_read_heap :: "addr \<Rightarrow> u64 \<Rightarrow> 's dstep" where
  "pb_read_heap dest count = (\<lambda>(stream, h).
     if dest = 0 then with_value (pb_read_null count) (\<lambda>_. ret True) (stream, h)
     else case pb_read count stream of
       None \<Rightarrow> None
     | Some (ok, bs, stream') \<Rightarrow>
         map_option (\<lambda>h'. (ok, (stream', h'))) (h_store h dest bs))"

declare dec_error_def [dec_defs] with_value_def [dec_defs] with_load_def [dec_defs]
  do_heap_def [dec_defs] do_store_def [dec_defs] h_memset0_def [dec_defs] pb_read_heap_def [dec_defs]

section \<open>Field decoders\<close>

definition pb_dec_bool :: "pb_field \<Rightarrow> addr \<Rightarrow> 's dstep" where
  "pb_dec_bool field dest =
     with_value pb_decode_varint32 (\<lambda>v. do_store 1 dest (if v \<noteq> 0 then 1 else 0))"

definition pb_decode_bool :: "addr \<Rightarrow> 's dstep" where
  "pb_decode_bool dest = pb_dec_bool PB_LAST_FIELD dest"

text \<open>The store of the value in its field's width, and the test that it fits.\<close>

definition pb_dec_varint :: "pb_field \<Rightarrow> addr \<Rightarrow> 's dstep" where
  "pb_dec_varint field dest = with_value pb_decode_varint (\<lambda>v.
     let svalue = (if data_size field = 8 then v else scast (ucast v :: u32)) :: u64 in
     if data_size field = 8 then do_store 8 dest (unat svalue)
     else if data_size field = 4 then
       and_then (do_store 4 dest (unat (ucast svalue :: u32)))
         (if scast (ucast svalue :: u32) \<noteq> svalue then dec_error ''integer too large'' else ret True)
     else if data_size field = 2 then
       and_then (do_store 2 dest (unat (ucast svalue :: u16)))
         (if scast (ucast svalue :: u16) \<noteq> svalue then dec_error ''integer too large'' else ret True)
     else if data_size field = 1 then
       and_then (do_store 1 dest (unat (ucast svalue :: u8)))
         (if scast (ucast svalue :: u8) \<noteq> svalue then dec_error ''integer too large'' else ret True)
     else dec_error ''invalid data_size'')"

definition pb_dec_uvarint :: "pb_field \<Rightarrow> addr \<Rightarrow> 's dstep" where
  "pb_dec_uvarint field dest = with_value pb_decode_varint (\<lambda>v.
     if data_size field = 8 then do_store 8 dest (unat v)
     else if data_size field = 4 then
       and_then (do_store 4 dest (unat (ucast v :: u32)))
         (if ucast (ucast v :: u32) \<noteq> v then dec_error ''integer too large'' else ret True)
     else if data_size field = 2 then
       and_then (do_store 2 dest (unat (ucast v :: u16)))
         (if ucast (ucast v :: u16) \<noteq> v then dec_error ''integer too large'' else ret True)
     else if data_size field = 1 then
       and_then (do_store 1 dest (unat (ucast v :: u8)))
         (if ucast (ucast v :: u8) \<noteq> v then dec_error ''integer too large'' else ret True)
     else dec_error ''invalid data_size'')"

definition pb_dec_svarint :: "pb_field \<Rightarrow> addr \<Rightarrow> 's dstep" where
  "pb_dec_svarint field dest = with_value pb_decode_svarint (\<lambda>v.
     if data_size field = 8 then do_store 8 dest (unat v)
     else if data_size field = 4 then
       and_then (do_store 4 dest (unat (ucast v :: u32)))
         (if scast (ucast v :: u32) \<noteq> v then dec_error ''integer too large'' else ret True)
     else if data_size field = 2 then
       and_then (do_store 2 dest (unat (ucast v :: u16)))
         (if scast (ucast v :: u16) \<noteq> v then dec_error ''integer too large'' else ret True)
     else if data_size field = 1 then
       and_then (do_store 1 dest (unat (ucast v :: u8)))
         (if scast (ucast v :: u8) \<noteq> v then dec_error ''integer too large'' else ret True)
     else dec_error ''invalid data_size'')"

definition pb_dec_fixed32 :: "pb_field \<Rightarrow> addr \<Rightarrow> 's dstep" where
  "pb_dec_fixed32 field dest = with_value pb_decode_fixed32 (\<lambda>v. do_store 4 dest (unat v))"

definition pb_dec_fixed64 :: "pb_field \<Rightarrow> addr \<Rightarrow> 's dstep" where
  "pb_dec_fixed64 field dest = with_value pb_decode_fixed64 (\<lambda>v. do_store 8 dest (unat v))"

definition allocate_field :: "addr \<Rightarrow> u64 \<Rightarrow> u64 \<Rightarrow> 's dstep" where
  "allocate_field pData datasize arraysize = with_load 8 pData (\<lambda>ptr.
     if datasize = 0 \<or> arraysize = 0 then dec_error ''invalid size''
     else if (datasize \<ge> 0x100000000 \<or> arraysize \<ge> 0x100000000) \<and> - 1 div arraysize < datasize
     then dec_error ''size too large''
     else (\<lambda>(stream, h). case c_realloc h (int ptr) (unat (arraysize * datasize)) of
         None \<Rightarrow> None
       | Some (q, h') \<Rightarrow>
           if q = 0 then dec_error ''realloc failed'' (stream, h')
           else do_store 8 pData (nat q) (stream, h')))"

definition pb_dec_bytes :: "pb_field \<Rightarrow> addr \<Rightarrow> 's dstep" where
  "pb_dec_bytes field dest = with_value pb_decode_varint32 (\<lambda>sz.
     let allocsize = ucast sz + 4 :: u64;
         store = (\<lambda>bdest. and_then (do_store 4 bdest (unat sz)) (pb_read_heap (bdest + 4) (ucast sz)))
     in if sz > PB_SIZE_MAX then dec_error ''bytes overflow''
        else if ucast sz > allocsize then dec_error ''size too large''
        else if PB_ATYPE (pf_type field) = PB_ATYPE_POINTER then
          and_then (allocate_field dest allocsize 1) (with_load 8 dest (\<lambda>bdest. store (int bdest)))
        else if allocsize > ucast (data_size field) then dec_error ''bytes overflow''
        else store dest)"

text \<open>\<open>status = f; g; return status\<close>\<close>

definition keep_status :: "'s step \<Rightarrow> 's step \<Rightarrow> 's step" where
  "keep_status f g = (\<lambda>s. case f s of
       None \<Rightarrow> None
     | Some (status, s') \<Rightarrow> map_option (\<lambda>(_, s''). (status, s'')) (g s'))"

declare keep_status_def [dec_defs]

definition pb_dec_string :: "pb_field \<Rightarrow> addr \<Rightarrow> 's dstep" where
  "pb_dec_string field dest = with_value pb_decode_varint32 (\<lambda>sz.
     let allocsize = ucast (sz + 1) :: u64;
         store = (\<lambda>p. keep_status (pb_read_heap p (ucast sz)) (do_store 1 (p + uint sz) 0))
     in if allocsize < ucast sz then dec_error ''size too large''
        else if PB_ATYPE (pf_type field) = PB_ATYPE_POINTER then
          and_then (allocate_field dest allocsize 1) (with_load 8 dest (\<lambda>p. store (int p)))
        else if allocsize > ucast (data_size field) then dec_error ''string overflow''
        else store dest)"

definition pb_dec_fixed_length_bytes :: "pb_field \<Rightarrow> addr \<Rightarrow> 's dstep" where
  "pb_dec_fixed_length_bytes field dest = with_value pb_decode_varint32 (\<lambda>sz.
     if sz > PB_SIZE_MAX then dec_error ''bytes overflow''
     else if sz = 0 then do_heap (h_memset0 dest (unat (data_size field)))
     else if sz \<noteq> data_size field then dec_error ''incorrect fixed length bytes size''
     else pb_read_heap dest (ucast (data_size field)))"

section \<open>Default values\<close>

text \<open>A loop over all fields of a message, and one over the linked list of extensions.\<close>

primrec fold_opt :: "('a \<Rightarrow> heap \<Rightarrow> heap option) \<Rightarrow> 'a list \<Rightarrow> heap \<Rightarrow> heap option" where
  "fold_opt f [] h = Some h"
| "fold_opt f (x # xs) h = Option.bind (f x h) (fold_opt f xs)"

definition each_field ::
  "(pb_field_iter \<Rightarrow> heap \<Rightarrow> heap option) \<Rightarrow> pb_fields \<Rightarrow> addr \<Rightarrow> heap \<Rightarrow> heap option" where
  "each_field f fs dest h = (case pb_field_iter_begin fs dest of (ok, iter) \<Rightarrow>
     if \<not> ok then Some h else fold_opt f (iter_states iter) h)"

primrec each_extension ::
  "nat \<Rightarrow> (addr \<Rightarrow> heap \<Rightarrow> heap option) \<Rightarrow> addr \<Rightarrow> heap \<Rightarrow> heap option" where
  "each_extension 0 f ext h = (if ext = 0 then Some h else None)"
| "each_extension (Suc k) f ext h =
     (if ext = 0 then Some h
      else do { h' \<leftarrow> f ext h; nxt \<leftarrow> h_load_ptr h' (ext + 16); each_extension k f nxt h' })"

text \<open>
  A \<open>pb_extension_t\<close> has its type at offset 0, \<open>dest\<close> at 8, \<open>next\<close> at 16 and \<open>found\<close> at
  24; a \<open>pb_extension_type_t\<close> has \<open>decode\<close> at 0, \<open>encode\<close> at 8 and \<open>arg\<close> at 16.
\<close>

definition extension_field :: "'s dec_env \<Rightarrow> heap \<Rightarrow> addr \<Rightarrow> pb_fields option" where
  "extension_field env h extension = do {
     type \<leftarrow> h_load_ptr h extension;
     arg \<leftarrow> h_load_ptr h (type + 16);
     Some (d_ext_arg env arg) }"

definition iter_from_extension :: "'s dec_env \<Rightarrow> heap \<Rightarrow> addr \<Rightarrow> pb_field_iter option" where
  "iter_from_extension env h extension = do {
     fs \<leftarrow> extension_field env h extension;
     dest \<leftarrow> h_load_ptr h (extension + 8);
     let iter = (snd (pb_field_iter_begin fs dest))\<lparr>it_size := extension + 24\<rparr>;
     Some (if PB_ATYPE (pf_type (field_at fs 0)) = PB_ATYPE_POINTER
           then iter\<lparr>it_data := extension + 8\<rparr> else iter\<lparr>it_data := dest\<rparr>) }"

primrec pb_field_set_to_default :: "nat \<Rightarrow> 's dec_env \<Rightarrow> pb_field_iter \<Rightarrow> heap \<Rightarrow> heap option" where
  "pb_field_set_to_default 0 env iter h = None"
| "pb_field_set_to_default (Suc n) env iter h =
     (let field = it_field iter; type = pf_type field in
      if PB_LTYPE type = PB_LTYPE_EXTENSION then do {
        ext \<leftarrow> h_load_ptr h (it_data iter);
        each_extension n (\<lambda>ext h. do {
          h1 \<leftarrow> h_store_nat 1 h (ext + 24) 0;
          ext_iter \<leftarrow> iter_from_extension env h1 ext;
          pb_field_set_to_default n env ext_iter h1 }) ext h }
      else if PB_ATYPE type = PB_ATYPE_STATIC then
        let init = (\<lambda>h.
              if PB_LTYPE type = PB_LTYPE_SUBMESSAGE then
                (case pf_ptr field of
                   PFields k \<Rightarrow> each_field (pb_field_set_to_default n env) (d_descs env k) (it_data iter) h
                 | _ \<Rightarrow> None)
              else (case pf_ptr field of
                  PNull \<Rightarrow> h_memset0 (it_data iter) (unat (data_size field)) h
                | PData bs \<Rightarrow>
                    if unat (data_size field) \<le> length bs
                    then h_store h (it_data iter) (take (unat (data_size field)) bs) else None
                | PFields k \<Rightarrow> None))
        in if PB_HTYPE type = PB_HTYPE_OPTIONAL \<and> it_size iter \<noteq> it_data iter
           then Option.bind (h_store_nat 1 h (it_size iter) 0) init
           else if PB_HTYPE type = PB_HTYPE_REPEATED \<or> PB_HTYPE type = PB_HTYPE_ONEOF
           then h_store_nat 4 h (it_size iter) 0
           else init h
      else if PB_ATYPE type = PB_ATYPE_POINTER then do {
        h1 \<leftarrow> h_store_nat 8 h (it_data iter) 0;
        if PB_HTYPE type = PB_HTYPE_REPEATED \<or> PB_HTYPE type = PB_HTYPE_ONEOF
        then h_store_nat 4 h1 (it_size iter) 0 else Some h1 }
      else Some h)"

declare pb_field_set_to_default.simps [simp del]

definition pb_message_set_to_defaults ::
  "nat \<Rightarrow> 's dec_env \<Rightarrow> pb_fields \<Rightarrow> addr \<Rightarrow> heap \<Rightarrow> heap option" where
  "pb_message_set_to_defaults n env = each_field (pb_field_set_to_default n env)"

text \<open>\<open>pb_message_set_to_defaults((const pb_field_t*)field->ptr, p)\<close>\<close>

definition submessage_defaults :: "nat \<Rightarrow> 's dec_env \<Rightarrow> pb_field \<Rightarrow> addr \<Rightarrow> heap \<Rightarrow> heap option" where
  "submessage_defaults n env field p h = (case pf_ptr field of
       PFields k \<Rightarrow> pb_message_set_to_defaults n env (d_descs env k) p h
     | _ \<Rightarrow> None)"

section \<open>Releasing allocations\<close>

primrec pb_release_single_field :: "nat \<Rightarrow> 's dec_env \<Rightarrow> pb_field_iter \<Rightarrow> heap \<Rightarrow> heap option" where
  "pb_release_single_field 0 env iter h = None"
| "pb_release_single_field (Suc n) env iter h =
     (let field = it_field iter; type = pf_type field;
          release_inside = (\<lambda>h.
            if PB_LTYPE type = PB_LTYPE_EXTENSION then do {
              ext \<leftarrow> h_load_ptr h (it_data iter);
              each_extension n (\<lambda>ext h. do {
                ext_iter \<leftarrow> iter_from_extension env h ext;
                pb_release_single_field n env ext_iter h }) ext h }
            else if PB_LTYPE type = PB_LTYPE_SUBMESSAGE \<and> PB_ATYPE type \<noteq> PB_ATYPE_CALLBACK then do {
              pItem \<leftarrow> (if PB_ATYPE type = PB_ATYPE_POINTER then h_load_ptr h (it_data iter)
                        else Some (it_data iter));
              count \<leftarrow> (if PB_HTYPE type = PB_HTYPE_REPEATED then
                          if PB_ATYPE type = PB_ATYPE_STATIC \<and> it_size iter = it_data iter
                          then Some (array_size field)
                          else map_option (\<lambda>c.
                            if PB_ATYPE type = PB_ATYPE_STATIC \<and> c > array_size field
                            then array_size field else c) (h_load_u32 h (it_size iter))
                        else Some 1);
              if pItem \<noteq> 0 then (case pf_ptr field of
                  PFields k \<Rightarrow> fold_opt (\<lambda>p h. if p = 0 then Some h
                      else each_field (pb_release_single_field n env) (d_descs env k) p h)
                    (map (\<lambda>i. pItem + int i * uint (data_size field)) [0..<unat count]) h
                | _ \<Rightarrow> if count = 0 then Some h else None)
              else Some h }
            else Some h);
          release_pointer = (\<lambda>h.
            if PB_ATYPE type = PB_ATYPE_POINTER then do {
              h1 \<leftarrow> (if PB_HTYPE type = PB_HTYPE_REPEATED \<and>
                        (PB_LTYPE type = PB_LTYPE_STRING \<or> PB_LTYPE type = PB_LTYPE_BYTES)
                     then do {
                       pItem \<leftarrow> h_load_ptr h (it_data iter);
                       count \<leftarrow> h_load_u32 h (it_size iter);
                       fold_opt (\<lambda>p h. do {
                           q \<leftarrow> h_load_ptr h p;
                           h' \<leftarrow> c_free h q;
                           h_store_nat 8 h' p 0 })
                         (map (\<lambda>i. pItem + int i * 8) [0..<unat count]) h }
                     else Some h);
              h2 \<leftarrow> (if PB_HTYPE type = PB_HTYPE_REPEATED then h_store_nat 4 h1 (it_size iter) 0
                     else Some h1);
              q \<leftarrow> h_load_ptr h2 (it_data iter);
              h3 \<leftarrow> c_free h2 q;
              h_store_nat 8 h3 (it_data iter) 0 }
            else Some h)
      in if PB_HTYPE type = PB_HTYPE_ONEOF then do {
           which \<leftarrow> h_load_u32 h (it_size iter);
           if which \<noteq> pf_tag field then Some h
           else Option.bind (release_inside h) release_pointer }
         else Option.bind (release_inside h) release_pointer)"

declare pb_release_single_field.simps [simp del]

definition pb_release :: "nat \<Rightarrow> 's dec_env \<Rightarrow> pb_fields \<Rightarrow> addr \<Rightarrow> heap \<Rightarrow> heap option" where
  "pb_release n env fs dest h =
     (if dest = 0 then Some h else each_field (pb_release_single_field n env) fs dest h)"

text \<open>The flag it returns, the iterator it leaves, and the state.\<close>

definition pb_release_union_field ::
  "nat \<Rightarrow> 's dec_env \<Rightarrow> pb_field_iter \<Rightarrow> 's dstate \<Rightarrow> (bool \<times> pb_field_iter \<times> 's dstate) option" where
  "pb_release_union_field n env iter s = (case s of (stream, h) \<Rightarrow> do {
     old_tag \<leftarrow> h_load_u32 h (it_size iter);
     let new_tag = pf_tag (it_field iter);
     if old_tag = 0 then Some (True, iter, (stream, h))
     else if old_tag = new_tag then Some (True, iter, (stream, h))
     else do {
       (found, iter1) \<leftarrow> pb_field_iter_find iter old_tag;
       if \<not> found
       then map_option (\<lambda>(b, t). (b, iter1, t)) (dec_error ''invalid union tag'' (stream, h))
       else do {
         h1 \<leftarrow> pb_release_single_field n env iter1 h;
         (found', iter2) \<leftarrow> pb_field_iter_find iter1 new_tag;
         if \<not> found'
         then map_option (\<lambda>(b, t). (b, iter2, t)) (dec_error ''iterator error'' (stream, h1))
         else Some (True, iter2, (stream, h1)) } } })"

section \<open>Submessages and the table of decoders\<close>

definition pb_decode_with ::
  "nat \<Rightarrow> 's dec_env \<Rightarrow> (pb_fields \<Rightarrow> addr \<Rightarrow> 's dstep) \<Rightarrow> pb_fields \<Rightarrow> addr \<Rightarrow> 's dstep" where
  "pb_decode_with n env noinit fs dest = (\<lambda>(stream, h).
     case pb_message_set_to_defaults n env fs dest h of
       None \<Rightarrow> None
     | Some h1 \<Rightarrow> (case noinit fs dest (stream, h1) of
         None \<Rightarrow> None
       | Some (status, (stream', h2)) \<Rightarrow>
           if status then Some (status, (stream', h2))
           else map_option (\<lambda>h3. (status, (stream', h3))) (pb_release n env fs dest h2)))"

text \<open>
  \<open>f(&substream)\<close> between \<open>pb_make_string_substream\<close> and \<open>pb_close_string_substream\<close>;
  the heap stays the current one.
\<close>

definition on_substream :: "'s dstep \<Rightarrow> 's dstep" where
  "on_substream f = with_value pb_make_string_substream (\<lambda>substream. \<lambda>(stream, h).
     case f (substream, h) of
       None \<Rightarrow> None
     | Some (status, (substream', h')) \<Rightarrow>
         with_value (pb_close_string_substream substream') (\<lambda>_. ret status) (stream, h'))"

definition pb_dec_submessage ::
  "nat \<Rightarrow> 's dec_env \<Rightarrow> (pb_fields \<Rightarrow> addr \<Rightarrow> 's dstep) \<Rightarrow> pb_field \<Rightarrow> addr \<Rightarrow> 's dstep" where
  "pb_dec_submessage n env rec field dest =
     (case pf_ptr field of
        PNull \<Rightarrow> with_value pb_make_string_substream (\<lambda>_. dec_error ''invalid field descriptor'')
      | PData _ \<Rightarrow> undef
      | PFields k \<Rightarrow> on_substream
          (if PB_HTYPE (pf_type field) = PB_HTYPE_REPEATED
           then pb_decode_with n env rec (d_descs env k) dest
           else rec (d_descs env k) dest))"

definition PB_DECODERS ::
  "nat \<Rightarrow> 's dec_env \<Rightarrow> (pb_fields \<Rightarrow> addr \<Rightarrow> 's dstep) \<Rightarrow> u8 \<Rightarrow> pb_field \<Rightarrow> addr \<Rightarrow> 's dstep" where
  "PB_DECODERS n env rec ltype =
     (if ltype = PB_LTYPE_BOOL then pb_dec_bool
      else if ltype = PB_LTYPE_VARINT then pb_dec_varint
      else if ltype = PB_LTYPE_UVARINT then pb_dec_uvarint
      else if ltype = PB_LTYPE_SVARINT then pb_dec_svarint
      else if ltype = PB_LTYPE_FIXED32 then pb_dec_fixed32
      else if ltype = PB_LTYPE_FIXED64 then pb_dec_fixed64
      else if ltype = PB_LTYPE_BYTES then pb_dec_bytes
      else if ltype = PB_LTYPE_STRING then pb_dec_string
      else if ltype = PB_LTYPE_SUBMESSAGE then pb_dec_submessage n env rec
      else if ltype = PB_LTYPE_FIXED_LENGTH_BYTES then pb_dec_fixed_length_bytes
      else (\<lambda>field dest. undef))"

section \<open>Decoding a field\<close>

text \<open>The address of entry \<open>i\<close>: the product is taken in \<open>pb_size_t\<close>.\<close>

definition array_item :: "addr \<Rightarrow> pb_field \<Rightarrow> u32 \<Rightarrow> addr" where
  "array_item base field i = base + uint (data_size field * i)"

text \<open>
  The loop of a packed array in a static field; the flag is \<open>status\<close> when it is left.
\<close>

partial_function (option) static_packed_loop ::
  "(pb_field \<Rightarrow> addr \<Rightarrow> 's dstep) \<Rightarrow> pb_field \<Rightarrow> addr \<Rightarrow> addr \<Rightarrow> 's dstate \<Rightarrow> (bool \<times> 's dstate) option" where
  "static_packed_loop func field pData pSize s =
     (case h_load_u32 (snd s) pSize of
        None \<Rightarrow> None
      | Some sz \<Rightarrow>
          if bytes_left (fst s) > 0 \<and> sz < array_size field then
            (case func field (array_item pData field sz) s of
               None \<Rightarrow> None
             | Some (ok, s') \<Rightarrow>
                 if \<not> ok then Some (False, s')
                 else (case h_load_u32 (snd s') pSize of
                     None \<Rightarrow> None
                   | Some sz' \<Rightarrow> (case h_store_u32 (snd s') pSize (sz' + 1) of
                         None \<Rightarrow> None
                       | Some h' \<Rightarrow> static_packed_loop func field pData pSize (fst s', h'))))
          else Some (True, s))"

definition decode_static_field ::
  "nat \<Rightarrow> 's dec_env \<Rightarrow> (pb_fields \<Rightarrow> addr \<Rightarrow> 's dstep) \<Rightarrow> u64 \<Rightarrow> pb_field_iter \<Rightarrow> 's dstep" where
  "decode_static_field n env rec wire_type iter =
     (let field = it_field iter; type = pf_type field;
          func = PB_DECODERS n env rec (PB_LTYPE type)
      in
      if PB_HTYPE type = PB_HTYPE_REQUIRED then func field (it_data iter)
      else if PB_HTYPE type = PB_HTYPE_OPTIONAL then
        and_then (if it_size iter \<noteq> it_data iter then do_store 1 (it_size iter) 1 else ret True)
          (func field (it_data iter))
      else if PB_HTYPE type = PB_HTYPE_REPEATED then
        if wire_type = PB_WT_STRING \<and> PB_LTYPE type \<le> PB_LTYPE_LAST_PACKABLE then
          with_value pb_make_string_substream (\<lambda>substream. \<lambda>(stream, h).
            case static_packed_loop func field (it_data iter) (it_size iter) (substream, h) of
              None \<Rightarrow> None
            | Some (status, (substream', h')) \<Rightarrow>
                if bytes_left substream' \<noteq> 0 then dec_error ''array overflow'' (stream, h')
                else with_value (pb_close_string_substream substream') (\<lambda>_. ret status) (stream, h'))
        else
          with_load 4 (it_size iter) (\<lambda>v. let sz = word_of_nat v :: u32 in
            and_then (do_store 4 (it_size iter) (unat (sz + 1)))
              (if sz \<ge> array_size field then dec_error ''array overflow''
               else func field (array_item (it_data iter) field sz)))
      else
        and_then (do_store 4 (it_size iter) (unat (pf_tag field)))
          (and_then
            (if PB_LTYPE type = PB_LTYPE_SUBMESSAGE then
               and_then (do_heap (h_memset0 (it_data iter) (unat (data_size field))))
                 (do_heap (submessage_defaults n env field (it_data iter)))
             else ret True)
            (func field (it_data iter))))"

definition initialize_pointer_field :: "nat \<Rightarrow> 's dec_env \<Rightarrow> addr \<Rightarrow> pb_field_iter \<Rightarrow> 's dstep" where
  "initialize_pointer_field n env pItem iter =
     (let field = it_field iter; lt = PB_LTYPE (pf_type field) in
      if lt = PB_LTYPE_STRING \<or> lt = PB_LTYPE_BYTES then do_store 8 pItem 0
      else if lt = PB_LTYPE_SUBMESSAGE then
        and_then (do_heap (h_memset0 pItem (unat (data_size field))))
          (do_heap (submessage_defaults n env field pItem))
      else ret True)"

text \<open>
  One entry of a packed array in a pointer field, after \<open>allocated_size\<close> is up to date,
  and the loop with the flag \<open>status\<close>. The result has the stream, since \<open>"too many array
  entries"\<close> is set there.
\<close>

definition pointer_packed_item ::
  "nat \<Rightarrow> 's dec_env \<Rightarrow> (pb_field \<Rightarrow> addr \<Rightarrow> 's dstep) \<Rightarrow> pb_field_iter \<Rightarrow> 's dstep" where
  "pointer_packed_item n env func iter =
     with_load 8 (it_data iter) (\<lambda>base. with_load 4 (it_size iter) (\<lambda>sz.
       let pItem = array_item (int base) (it_field iter) (word_of_nat sz) in
       and_then (initialize_pointer_field n env pItem iter)
         (and_then (func (it_field iter) pItem)
           (with_load 4 (it_size iter) (\<lambda>v.
             do_store 4 (it_size iter) (unat (word_of_nat v + 1 :: u32)))))))"

definition grown_size :: "u64 \<Rightarrow> u64 \<Rightarrow> u32 \<Rightarrow> u64" where
  "grown_size allocated bytesleft datasize =
     (let remain = (bytesleft - 1) div ucast datasize + 1 in
      if remain < ucast PB_SIZE_MAX - allocated then allocated + remain else allocated + 1)"

partial_function (option) pointer_packed_loop ::
  "nat \<Rightarrow> 's dec_env \<Rightarrow> (pb_field \<Rightarrow> addr \<Rightarrow> 's dstep) \<Rightarrow> pb_field_iter \<Rightarrow> u64 \<Rightarrow> 's pb_istream \<Rightarrow> 's dstate \<Rightarrow>
   (bool \<times> 's pb_istream \<times> 's dstate) option" where
  "pointer_packed_loop n env func iter allocated stream s =
     (if bytes_left (fst s) = 0 then Some (True, stream, s)
      else case h_load_u32 (snd s) (it_size iter) of
        None \<Rightarrow> None
      | Some sz \<Rightarrow>
          if sz = PB_SIZE_MAX
          then Some (False, stream\<lparr>is_errmsg := Some ''too many array entries''\<rparr>, s)
          else if ucast sz + 1 > allocated \<and> data_size (it_field iter) = 0 then None
          else
            let allocated' = (if ucast sz + 1 > allocated
                  then grown_size allocated (bytes_left (fst s)) (data_size (it_field iter)) else allocated)
            in (case (if ucast sz + 1 > allocated
                   then allocate_field (it_data iter) (ucast (data_size (it_field iter))) allocated' s
                   else Some (True, s)) of
                  None \<Rightarrow> None
                | Some (ok, s1) \<Rightarrow>
                    if \<not> ok then Some (False, stream, s1)
                    else (case pointer_packed_item n env func iter s1 of
                        None \<Rightarrow> None
                      | Some (ok', s2) \<Rightarrow>
                          if \<not> ok' then Some (False, stream, s2)
                          else pointer_packed_loop n env func iter allocated' stream s2)))"

definition decode_pointer_field ::
  "nat \<Rightarrow> 's dec_env \<Rightarrow> (pb_fields \<Rightarrow> addr \<Rightarrow> 's dstep) \<Rightarrow> u64 \<Rightarrow> pb_field_iter \<Rightarrow> 's dstep" where
  "decode_pointer_field n env rec wire_type iter =
     (let field = it_field iter; type = pf_type field;
          func = PB_DECODERS n env rec (PB_LTYPE type)
      in
      if PB_HTYPE type = PB_HTYPE_REPEATED then
        if wire_type = PB_WT_STRING \<and> PB_LTYPE type \<le> PB_LTYPE_LAST_PACKABLE then
          with_load 4 (it_size iter) (\<lambda>sz.
            with_value pb_make_string_substream (\<lambda>substream. \<lambda>(stream, h).
              case pointer_packed_loop n env func iter (word_of_nat sz) stream (substream, h) of
                None \<Rightarrow> None
              | Some (status, stream', (substream', h')) \<Rightarrow>
                  with_value (pb_close_string_substream substream') (\<lambda>_. ret status) (stream', h')))
        else
          with_load 4 (it_size iter) (\<lambda>v. let sz = word_of_nat v :: u32 in
            if sz = PB_SIZE_MAX then dec_error ''too many array entries''
            else
              and_then (allocate_field (it_data iter) (ucast (data_size field)) (ucast (sz + 1)))
                (with_load 8 (it_data iter) (\<lambda>base. with_load 4 (it_size iter) (\<lambda>v'.
                  let sz' = word_of_nat v' :: u32; pItem = array_item (int base) field sz' in
                  and_then (do_store 4 (it_size iter) (unat (sz' + 1)))
                    (and_then (initialize_pointer_field n env pItem iter) (func field pItem))))))
      else
        and_then
          (if PB_LTYPE type = PB_LTYPE_SUBMESSAGE
           then with_load 8 (it_data iter) (\<lambda>p.
             if p \<noteq> 0 then do_heap (pb_release_single_field n env iter) else ret True)
           else ret True)
        (and_then
          (if PB_HTYPE type = PB_HTYPE_ONEOF then do_store 4 (it_size iter) (unat (pf_tag field))
           else ret True)
          (if PB_LTYPE type = PB_LTYPE_STRING \<or> PB_LTYPE type = PB_LTYPE_BYTES
           then func field (it_data iter)
           else
             and_then (allocate_field (it_data iter) (ucast (data_size field)) 1)
               (with_load 8 (it_data iter) (\<lambda>p.
                 and_then (initialize_pointer_field n env (int p) iter)
                   (with_load 8 (it_data iter) (\<lambda>p. func field (int p))))))))"

text \<open>\<open>do { if (!decode(...)) error; } while (substream.bytes_left)\<close>\<close>

partial_function (option) callback_loop ::
  "('s dstate \<Rightarrow> (bool \<times> 's dstate) option) \<Rightarrow> 's dstate \<Rightarrow> (bool \<times> 's dstate) option" where
  "callback_loop decode s = (case decode s of
       None \<Rightarrow> None
     | Some (ok, s') \<Rightarrow>
         if \<not> ok then Some (False, s')
         else if bytes_left (fst s') \<noteq> 0 then callback_loop decode s'
         else Some (True, s'))"

definition decode_callback_field ::
  "'s dec_env \<Rightarrow> u64 \<Rightarrow> pb_field_iter \<Rightarrow> 's dstep" where
  "decode_callback_field env wire_type iter =
     (let pCallback = it_data iter; arg = pCallback + 8;
          skip = with_value (pb_skip_field wire_type) (\<lambda>_. ret True)
      in if pCallback = 0 then skip
         else with_load 8 pCallback (\<lambda>fn.
           if fn = 0 then skip
           else
             let decode = cb_decode env (int fn) (it_field iter) arg in
             if wire_type = PB_WT_STRING then
               with_value pb_make_string_substream (\<lambda>substream. \<lambda>(stream, h).
                 case callback_loop decode (substream, h) of
                   None \<Rightarrow> None
                 | Some (ok, (substream', h')) \<Rightarrow>
                     if \<not> ok then dec_error ''callback failed'' (stream, h')
                     else with_value (pb_close_string_substream substream') (\<lambda>_. ret True) (stream, h'))
             else
               with_value (read_raw_value wire_type 10) (\<lambda>buffer. \<lambda>(stream, h).
                 case decode (pb_istream_from_buffer buffer (word_of_nat (length buffer)), h) of
                   None \<Rightarrow> None
                 | Some (ok, (substream', h')) \<Rightarrow> Some (ok, (stream, h')))))"

text \<open>The flag, the iterator it leaves, and the state.\<close>

definition decode_field ::
  "nat \<Rightarrow> 's dec_env \<Rightarrow> (pb_fields \<Rightarrow> addr \<Rightarrow> 's dstep) \<Rightarrow> u64 \<Rightarrow> pb_field_iter \<Rightarrow> 's dstate \<Rightarrow>
   (bool \<times> pb_field_iter \<times> 's dstate) option" where
  "decode_field n env rec wire_type iter s =
     (case (if PB_HTYPE (pf_type (it_field iter)) = PB_HTYPE_ONEOF
            then pb_release_union_field n env iter s else Some (True, iter, s)) of
        None \<Rightarrow> None
      | Some (ok, iter', s') \<Rightarrow>
          if \<not> ok then Some (False, iter', s')
          else
            let at = PB_ATYPE (pf_type (it_field iter')) in
            map_option (\<lambda>(b, t). (b, iter', t))
              (if at = PB_ATYPE_STATIC then decode_static_field n env rec wire_type iter' s'
               else if at = PB_ATYPE_POINTER then decode_pointer_field n env rec wire_type iter' s'
               else if at = PB_ATYPE_CALLBACK then decode_callback_field env wire_type iter' s'
               else dec_error ''invalid field type'' s'))"

section \<open>Extensions\<close>

definition default_extension_decoder ::
  "nat \<Rightarrow> 's dec_env \<Rightarrow> (pb_fields \<Rightarrow> addr \<Rightarrow> 's dstep) \<Rightarrow> addr \<Rightarrow> u32 \<Rightarrow> u64 \<Rightarrow> 's dstep" where
  "default_extension_decoder n env rec extension tag wire_type = (\<lambda>(stream, h).
     case extension_field env h extension of
       None \<Rightarrow> None
     | Some fs \<Rightarrow>
         if pf_tag (field_at fs 0) \<noteq> tag then Some (True, (stream, h))
         else (case iter_from_extension env h extension of
             None \<Rightarrow> None
           | Some iter \<Rightarrow>
               and_then (do_store 1 (extension + 24) 1)
                 (\<lambda>s. map_option (\<lambda>(ok, iter', s'). (ok, s')) (decode_field n env rec wire_type iter s))
                 (stream, h)))"

primrec extension_decode_loop ::
  "nat \<Rightarrow> nat \<Rightarrow> 's dec_env \<Rightarrow> (pb_fields \<Rightarrow> addr \<Rightarrow> 's dstep) \<Rightarrow> u64 \<Rightarrow> u32 \<Rightarrow> u64 \<Rightarrow> addr \<Rightarrow> 's dstep" where
  "extension_decode_loop 0 n env rec pos tag wire_type extension =
     (\<lambda>s. if extension \<noteq> 0 \<and> pos = bytes_left (fst s) then None else Some (True, s))"
| "extension_decode_loop (Suc k) n env rec pos tag wire_type extension = (\<lambda>s.
     if extension \<noteq> 0 \<and> pos = bytes_left (fst s) then
       with_load 8 extension (\<lambda>type. with_load 8 (int type) (\<lambda>decode.
         and_then
           (if decode \<noteq> 0 then ext_decode env (int decode) extension tag wire_type
            else default_extension_decoder n env rec extension tag wire_type)
           (with_load 8 (extension + 16) (\<lambda>nxt.
             extension_decode_loop k n env rec pos tag wire_type (int nxt))))) s
     else Some (True, s))"

definition decode_extension ::
  "nat \<Rightarrow> 's dec_env \<Rightarrow> (pb_fields \<Rightarrow> addr \<Rightarrow> 's dstep) \<Rightarrow> u32 \<Rightarrow> u64 \<Rightarrow> pb_field_iter \<Rightarrow> 's dstep" where
  "decode_extension n env rec tag wire_type iter = with_load 8 (it_data iter) (\<lambda>extension. \<lambda>s.
     extension_decode_loop n n env rec (bytes_left (fst s)) tag wire_type (int extension) s)"

definition find_extension_field :: "pb_field_iter \<Rightarrow> (bool \<times> pb_field_iter) option" where
  "find_extension_field iter =
     iter_find_loop (\<lambda>f. PB_LTYPE (pf_type f) = PB_LTYPE_EXTENSION) (it_pos iter) iter"

section \<open>Decoding a message\<close>

abbreviation PB_MAX_REQUIRED_FIELDS :: u32 where "PB_MAX_REQUIRED_FIELDS \<equiv> 64"

text \<open>
  The locals of \<open>pb_decode_noinit\<close>. \<open>fixed_count_field\<close> is the index of the entry it
  points to. \<open>fixed_count_size\<close> is accessed through the iterator's \<open>pSize\<close>, so it lives
  in memory, at a negative address of its own for every active call: \<open>fixed_count_addr n\<close>
  for the call with fuel \<open>n\<close>. It is valid from the entry of the function to its return.
\<close>

record dec_locals =
  l_iter :: pb_field_iter
  fields_seen :: "u32 list"
  extension_range_start :: u32
  fixed_count_field :: "nat option"

definition fixed_count_addr :: "nat \<Rightarrow> addr" where
  "fixed_count_addr n = - 8 * (int n + 1)"

definition enter_local :: "addr \<Rightarrow> heap \<Rightarrow> heap" where
  "enter_local a h = h\<lparr>hbytes := put_bytes (hbytes h) a [0, 0, 0, 0],
     hvalid := (\<lambda>x. (a \<le> x \<and> x < a + 4) \<or> hvalid h x)\<rparr>"

definition leave_local :: "addr \<Rightarrow> heap \<Rightarrow> heap" where
  "leave_local a h = h\<lparr>hvalid := (\<lambda>x. hvalid h x \<and> \<not> (a \<le> x \<and> x < a + 4))\<rparr>"

datatype flow = Continue | Break | Return_False

text \<open>\<open>if (!f) return false; continue;\<close>\<close>

definition or_return :: "dec_locals \<Rightarrow> (bool \<times> 's dstate) option \<Rightarrow> (flow \<times> dec_locals \<times> 's dstate) option" where
  "or_return l r = map_option (\<lambda>(ok, s). (if ok then Continue else Return_False, l, s)) r"

text \<open>The branch of the loop for a tag that is not in the descriptor array.\<close>

definition decode_unknown ::
  "nat \<Rightarrow> 's dec_env \<Rightarrow> (pb_fields \<Rightarrow> addr \<Rightarrow> 's dstep) \<Rightarrow> u32 \<Rightarrow> u64 \<Rightarrow> dec_locals \<Rightarrow> 's dstate \<Rightarrow>
   (flow \<times> dec_locals \<times> 's dstate) option" where
  "decode_unknown n env rec tag wire_type l s =
     (let skip = (\<lambda>l s. or_return l (with_value (pb_skip_field wire_type) (\<lambda>_. ret True) s)) in
      if tag \<ge> extension_range_start l then
        (case find_extension_field (l_iter l) of
           None \<Rightarrow> None
         | Some (found, iter) \<Rightarrow>
             let l' = l\<lparr>l_iter := iter,
                        extension_range_start := (if found then pf_tag (it_field iter) else - 1)\<rparr>
             in if tag \<ge> extension_range_start l' then
                  (case decode_extension n env rec tag wire_type iter s of
                     None \<Rightarrow> None
                   | Some (ok, s') \<Rightarrow>
                       if \<not> ok then Some (Return_False, l', s')
                       else if bytes_left (fst s) \<noteq> bytes_left (fst s') then Some (Continue, l', s')
                       else skip l' s')
                else skip l' s)
      else skip l s)"

text \<open>The branch for a tag of the array, with the iterator at its entry.\<close>

definition mark_seen :: "pb_field_iter \<Rightarrow> dec_locals \<Rightarrow> dec_locals" where
  "mark_seen iter l =
     (let req = required_field_index iter in
      if PB_HTYPE (pf_type (it_field iter)) = PB_HTYPE_REQUIRED \<and> req < PB_MAX_REQUIRED_FIELDS
      then l\<lparr>fields_seen := (fields_seen l)
             [unat (drop_bit 5 req) := fields_seen l ! unat (drop_bit 5 req)
                OR push_bit (unat (req AND 31)) 1]\<rparr>
      else l)"

definition decode_known ::
  "nat \<Rightarrow> 's dec_env \<Rightarrow> (pb_fields \<Rightarrow> addr \<Rightarrow> 's dstep) \<Rightarrow> u64 \<Rightarrow> dec_locals \<Rightarrow> 's dstate \<Rightarrow>
   (flow \<times> dec_locals \<times> 's dstate) option" where
  "decode_known n env rec wire_type l s =
     (let iter = l_iter l; type = pf_type (it_field iter);
          fixed = PB_HTYPE type = PB_HTYPE_REPEATED \<and> it_size iter = it_data iter;
          switch = fixed \<and> fixed_count_field l \<noteq> Some (it_pos iter)
      in case (if switch \<and> fixed_count_field l \<noteq> None
               then map_option (\<lambda>sz. sz \<noteq> array_size (field_at (it_start iter) (the (fixed_count_field l))))
                      (h_load_u32 (snd s) (fixed_count_addr n))
               else Some False) of
        None \<Rightarrow> None
      | Some wrong \<Rightarrow>
          if wrong then or_return l (dec_error ''wrong size for fixed count field'' s)
          else (case (if switch then map_option (\<lambda>h. (fst s, h)) (h_store_u32 (snd s) (fixed_count_addr n) 0)
                      else Some s) of
              None \<Rightarrow> None
            | Some s1 \<Rightarrow>
                let l1 = (if switch then l\<lparr>fixed_count_field := Some (it_pos iter)\<rparr> else l);
                    iter1 = (if fixed then iter\<lparr>it_size := fixed_count_addr n\<rparr> else iter);
                    l2 = mark_seen iter1 l1
                in map_option (\<lambda>(ok, iter', s'). (if ok then Continue else Return_False, l2\<lparr>l_iter := iter'\<rparr>, s'))
                     (decode_field n env rec wire_type iter1 s1)))"

definition decode_iteration ::
  "nat \<Rightarrow> 's dec_env \<Rightarrow> (pb_fields \<Rightarrow> addr \<Rightarrow> 's dstep) \<Rightarrow> dec_locals \<Rightarrow> 's dstate \<Rightarrow>
   (flow \<times> dec_locals \<times> 's dstate) option" where
  "decode_iteration n env rec l s = (case pb_decode_tag (fst s) of
       None \<Rightarrow> None
     | Some (None, eof, stream) \<Rightarrow> Some (if eof then Break else Return_False, l, (stream, snd s))
     | Some (Some (wire_type, tag), eof, stream) \<Rightarrow>
         (case pb_field_iter_find (l_iter l) tag of
            None \<Rightarrow> None
          | Some (found, iter) \<Rightarrow>
              (if found then decode_known n env rec wire_type else decode_unknown n env rec tag wire_type)
                (l\<lparr>l_iter := iter\<rparr>) (stream, snd s)))"

partial_function (option) decode_loop ::
  "nat \<Rightarrow> 's dec_env \<Rightarrow> (pb_fields \<Rightarrow> addr \<Rightarrow> 's dstep) \<Rightarrow> dec_locals \<Rightarrow> 's dstate \<Rightarrow>
   (bool \<times> dec_locals \<times> 's dstate) option" where
  "decode_loop n env rec l s =
     (if bytes_left (fst s) = 0 then Some (True, l, s)
      else case decode_iteration n env rec l s of
        None \<Rightarrow> None
      | Some (exit, l', s') \<Rightarrow>
          if exit = Continue then decode_loop n env rec l' s'
          else Some (exit = Break, l', s'))"

definition required_count :: "pb_field_iter \<Rightarrow> u32" where
  "required_count iter =
     (let final = last (iter_states iter);
          start = snd (pb_field_iter_next final);
          n = required_field_index final +
            (if PB_HTYPE (pf_type (it_field final)) = PB_HTYPE_REQUIRED \<and> pf_tag (it_field start) \<noteq> 0
             then 1 else 0)
      in if n > PB_MAX_REQUIRED_FIELDS then PB_MAX_REQUIRED_FIELDS else n)"

definition all_seen :: "u32 \<Rightarrow> u32 list \<Rightarrow> bool" where
  "all_seen n seen \<longleftrightarrow> n = 0 \<or>
     (list_all (\<lambda>i. seen ! i = - 1) [0..<unat (drop_bit 5 n)] \<and>
      (n AND 31 \<noteq> 0 \<longrightarrow> seen ! unat (drop_bit 5 n) = drop_bit (unat (32 - (n AND 31))) (- 1)))"

definition decode_checks :: "nat \<Rightarrow> dec_locals \<Rightarrow> 's dstep" where
  "decode_checks n l = (\<lambda>(stream, h).
     case (case fixed_count_field l of
             None \<Rightarrow> Some False
           | Some i \<Rightarrow> map_option (\<lambda>sz. sz \<noteq> array_size (field_at (it_start (l_iter l)) i))
                         (h_load_u32 h (fixed_count_addr n))) of
       None \<Rightarrow> None
     | Some wrong \<Rightarrow>
         if wrong then dec_error ''wrong size for fixed count field'' (stream, h)
         else if all_seen (required_count (l_iter l)) (fields_seen l) then Some (True, (stream, h))
         else dec_error ''missing required field'' (stream, h))"

definition init_locals :: "pb_fields \<Rightarrow> addr \<Rightarrow> dec_locals" where
  "init_locals fs dest =
     \<lparr>l_iter = snd (pb_field_iter_begin fs dest), fields_seen = [0, 0],
      extension_range_start = 0, fixed_count_field = None\<rparr>"

definition noinit_body ::
  "nat \<Rightarrow> 's dec_env \<Rightarrow> (pb_fields \<Rightarrow> addr \<Rightarrow> 's dstep) \<Rightarrow> pb_fields \<Rightarrow> addr \<Rightarrow> 's dstep" where
  "noinit_body n env rec fs dest = (\<lambda>(stream, h).
     case decode_loop n env rec (init_locals fs dest) (stream, enter_local (fixed_count_addr n) h) of
       None \<Rightarrow> None
     | Some (ok, l, s) \<Rightarrow>
         map_option (\<lambda>(b, (stream', h')). (b, (stream', leave_local (fixed_count_addr n) h')))
           (if \<not> ok then Some (False, s) else decode_checks n l s))"

primrec pb_decode_noinit :: "nat \<Rightarrow> 's dec_env \<Rightarrow> pb_fields \<Rightarrow> addr \<Rightarrow> 's dstep" where
  "pb_decode_noinit 0 env fs dest = undef"
| "pb_decode_noinit (Suc n) env fs dest = noinit_body (Suc n) env (pb_decode_noinit n env) fs dest"

definition pb_decode :: "nat \<Rightarrow> 's dec_env \<Rightarrow> pb_fields \<Rightarrow> addr \<Rightarrow> 's dstep" where
  "pb_decode n env fs dest = pb_decode_with n env (pb_decode_noinit n env) fs dest"

definition pb_decode_delimited_noinit :: "nat \<Rightarrow> 's dec_env \<Rightarrow> pb_fields \<Rightarrow> addr \<Rightarrow> 's dstep" where
  "pb_decode_delimited_noinit n env fs dest = on_substream (pb_decode_noinit n env fs dest)"

definition pb_decode_delimited :: "nat \<Rightarrow> 's dec_env \<Rightarrow> pb_fields \<Rightarrow> addr \<Rightarrow> 's dstep" where
  "pb_decode_delimited n env fs dest = on_substream (pb_decode n env fs dest)"

definition pb_decode_nullterminated :: "nat \<Rightarrow> 's dec_env \<Rightarrow> pb_fields \<Rightarrow> addr \<Rightarrow> 's dstep" where
  "pb_decode_nullterminated n env fs dest = pb_decode n env fs dest"

text \<open>The loops can be evaluated.\<close>

declare varint32_loop.simps [code] varint_loop.simps [code] pb_skip_varint.simps [code]
  static_packed_loop.simps [code] pointer_packed_loop.simps [code] callback_loop.simps [code]
  decode_loop.simps [code]

end
