(* ===== verification/Pb_Varint.thy ===== *)
theory Pb_Varint
  imports Pb_Decode Pb_Encode_Spec
begin

text \<open>
  The readers of the decoder on a stream over a byte buffer: what they return for the bytes
  that the encoder writes (round trips), how much they consume, and that they never read
  behind the end of the buffer, whatever the input is.
\<close>

section \<open>Streams over a buffer\<close>

text \<open>
  \<open>at_bytes s bs more\<close>: the stream has the bytes \<open>bs\<close> next, and \<open>more\<close> further ones are
  within its limit; the buffer may extend beyond it.
\<close>

definition buf_stream :: "u8 list \<Rightarrow> nat \<Rightarrow> string option \<Rightarrow> 's pb_istream" where
  "buf_stream bs n e = \<lparr>is_source = buf_read bs, bytes_left = word_of_nat n, is_errmsg = e\<rparr>"

lemma buf_stream_simps [simp, dec_defs]:
  "is_source (buf_stream bs n e) = buf_read bs"
  "bytes_left (buf_stream bs n e) = word_of_nat n"
  "is_errmsg (buf_stream bs n e) = e"
  "(buf_stream bs n e)\<lparr>is_errmsg := e'\<rparr> = buf_stream bs n e'"
  "(buf_stream bs n e)\<lparr>is_source := buf_read bs'\<rparr> = buf_stream bs' n e"
  "(buf_stream bs n e)\<lparr>bytes_left := word_of_nat k\<rparr> = buf_stream bs k e"
  by (simp_all add: buf_stream_def)

lemma from_buffer_stream: "pb_istream_from_buffer bs (word_of_nat n) = buf_stream bs n None"
  by (simp add: pb_istream_from_buffer_def buf_stream_def)

lemma pb_readbyte_buf:
  assumes "0 < n" "n < 2 ^ 64"
  shows "pb_readbyte (buf_stream (b # bs) n e) = Some (Some b, buf_stream bs (n - 1) e)"
proof -
  have "(word_of_nat n :: u64) \<noteq> 0" using assms by (simp add: word_of_nat_eq_0_iff nat_dvd_not_less)
  moreover have "(word_of_nat (n - 1) :: u64) = word_of_nat n - 1" using assms by simp
  ultimately show ?thesis
    by (simp add: pb_readbyte_def source_read_def buf_stream_def)
qed

lemma pb_readbyte_end: "pb_readbyte (buf_stream bs 0 e) =
   Some (None, buf_stream bs 0 (PB_SET_ERROR e ''end-of-stream''))"
  by (simp add: pb_readbyte_def rd_error_def)

lemma pb_read_buf:
  assumes "unat count = length bs" "length bs \<le> n" "n < 2 ^ 64"
  shows "pb_read count (buf_stream (bs @ rest) n e) = Some (True, bs, buf_stream rest (n - length bs) e)"
proof -
  have c: "count = word_of_nat (length bs)" using assms(1) by (metis of_nat_unat_u64)
  have "\<not> word_of_nat n < count" using assms by (simp add: word_less_nat_alt unat_of_nat_u64)
  moreover have "(word_of_nat (n - length bs) :: u64) = word_of_nat n - count"
    using assms c by simp
  ultimately show ?thesis using assms
    by (auto simp: pb_read_def source_read_def buf_stream_def unat_eq_0)
qed

section \<open>Varints\<close>

lemma push_bit_split:
  "push_bit p (take_bit k v) OR push_bit (p + k) (drop_bit k v) = push_bit p (v :: 'a::len word)"
  by (rule bit_word_eqI) (auto simp: bit_simps, metis add_diff_inverse_nat diff_diff_left)

lemma rotate_or: "(r OR push_bit p (take_bit k v)) OR push_bit (p + k) (drop_bit k v)
    = r OR push_bit p (v :: 'a::len word)"
  by (simp only: or.assoc push_bit_split)

lemma varint_loop_enc:
  assumes "unat v * 2 ^ unat p < 2 ^ 64" "p < 64" "length (varint_enc v) \<le> n" "n < 2 ^ 64"
  shows "varint_loop p r (buf_stream (varint_enc v @ rest) n e :: 's pb_istream) =
    Some (Some (r OR push_bit (unat p) v), buf_stream rest (n - length (varint_enc v)) e)"
  using assms
proof (induction v arbitrary: p r n rule: varint_bytes.induct)
  case (1 v)
  note prems = "1.prems"
  have np: "\<not> 64 \<le> p" using prems(2) by simp
  show ?case
  proof (cases "v \<le> 0x7F")
    case True
    then have enc: "varint_enc v = [ucast v]" by (simp add: varint_enc_rec)
    have "(ucast (ucast v :: u8) :: u64) = v"
      using small_bits(3) [OF True] by (auto simp: bit_simps intro!: bit_word_eqI)
    with True prems enc np show ?thesis
      by (subst varint_loop.simps) (simp add: pb_readbyte_buf last_byte rd_value_def Let_def)
  next
    case False
    let ?w = "drop_bit 7 v"
    have enc: "varint_enc v = (ucast (v AND 0x7F) OR 0x80) # varint_enc ?w"
      using False by (subst varint_enc_rec) simp
    have "v \<noteq> 0" using False by auto
    have "127 < unat v" using False by (simp add: word_le_nat_alt)
    then have "128 * 2 ^ unat p \<le> unat v * 2 ^ unat p" by (intro mult_le_mono1) simp
    from le_less_trans [OF this prems(1)] have "(2::nat) ^ (unat p + 7) < 2 ^ 64"
      by (simp add: power_add)
    then have p: "unat p + 7 < 64" by (simp only: power_strict_increasing_iff)
    then have p7: "unat (p + 7) = unat p + 7" by (simp add: unat_word_ariths)
    have "unat ?w * 128 \<le> unat v" by (simp add: unat_drop_bit_div)
    then have "unat ?w * 128 * 2 ^ unat p \<le> unat v * 2 ^ unat p" by (rule mult_le_mono1)
    from le_less_trans [OF this prems(1)] have small: "unat ?w * 2 ^ unat (p + 7) < 2 ^ 64"
      by (simp add: p7 power_add mult.assoc mult.commute)
    have "varint_loop (p + 7) (r OR push_bit (unat p) (take_bit 7 v)) 
        (buf_stream (varint_enc ?w @ rest) (n - 1) e :: 's pb_istream)
      = Some (Some ((r OR push_bit (unat p) (take_bit 7 v)) OR push_bit (unat (p + 7)) ?w),
              buf_stream rest (n - 1 - length (varint_enc ?w)) e)"
      using prems p7 p enc \<open>v \<noteq> 0\<close> small
      by (intro "1.IH" [of "p + 7" "n - 1" "r OR push_bit (unat p) (take_bit 7 v)"]) (auto simp: word_less_nat_alt)
    moreover have "(ucast (ucast (take_bit 7 v) :: u8) :: u64) = take_bit 7 v"
      by (auto simp: bit_simps intro!: bit_word_eqI)
    ultimately show ?thesis using prems enc p7 np
      by (subst varint_loop.simps) (simp add: pb_readbyte_buf group_byte rotate_or Let_def)
  qed
qed

lemma pb_decode_varint_enc:
  assumes "length (varint_enc v) \<le> n" "n < 2 ^ 64"
  shows "pb_decode_varint (buf_stream (varint_enc v @ rest) n e) =
    Some (Some v, buf_stream rest (n - length (varint_enc v)) e)"
  using varint_loop_enc [of v 0 n 0 rest e] assms unsigned_less [of v, where 'a = nat]
  by (simp add: pb_decode_varint_def)

text \<open>The 32-bit reader, for values that fit.\<close>

lemma and_70:
  assumes "unat (b :: u8) < 16" shows "b AND 0x70 = 0"
proof -
  have "unat (take_bit 4 b) = unat b" using assms by (simp add: unsigned_take_bit_eq take_bit_nat_eq_self)
  then have "take_bit 4 b = b" by (simp only: word_unat_eq_iff)
  moreover have "(0x70 :: u8) = push_bit 4 7" by (simp add: push_bit_eq_mult)
  moreover have "take_bit 4 b AND push_bit 4 c = 0" for c
    by (rule bit_word_eqI) (simp add: bit_take_bit_iff bit_push_bit_iff bit_and_iff)
  ultimately show ?thesis by metis
qed

lemma ucast_u8_u32: "(ucast (ucast (x :: u64) :: u8) :: u32) = take_bit 8 (ucast x)"
  by (auto simp: bit_simps intro!: bit_word_eqI)

lemma small_ucast:
  fixes v :: u64
  assumes "v \<le> 0x7F" shows "(ucast (ucast v :: u8) :: u32) = ucast v"
proof -
  have "take_bit 8 v = v" by (rule bit_word_eqI) (use small_bits(3) [OF assms] in \<open>auto simp: bit_simps\<close>)
  then show ?thesis by (simp only: ucast_u8_u32) (metis unsigned_take_bit_eq)
qed

lemma varint32_loop_enc:
  assumes "unat v * 2 ^ unat p < 2 ^ 32" "p < 32" "length (varint_enc v) \<le> n" "n < 2 ^ 64"
    and "p = 7 \<or> p = 14 \<or> p = 21 \<or> p = 28"
  shows "varint32_loop p r (buf_stream (varint_enc v @ rest) n e :: 's pb_istream) =
    Some (Some (r OR push_bit (unat p) (ucast v)), buf_stream rest (n - length (varint_enc v)) e)"
  using assms
proof (induction v arbitrary: p r n rule: varint_bytes.induct)
  case (1 v)
  note prems = "1.prems"
  have np: "\<not> 32 \<le> p" using prems(2) by simp
  show ?case
  proof (cases "v \<le> 0x7F")
    case True
    then have enc: "varint_enc v = [ucast v]" by (simp add: varint_enc_rec)
    have "p + 7 = 35 \<Longrightarrow> (ucast v :: u8) AND 0x70 = 0"
    proof -
      assume "p + 7 = 35"
      then have "p = 28" using prems(5) by auto
      then have "unat v < 16" using prems(1) by simp
      then show ?thesis by (intro and_70) (simp add: unsigned_ucast_eq take_bit_nat_eq_self)
    qed
    with True prems enc np show ?thesis
      by (subst varint32_loop.simps) (auto simp: pb_readbyte_buf last_byte rd_value_def Let_def small_ucast)
  next
    case False
    let ?w = "drop_bit 7 v"
    have enc: "varint_enc v = (ucast (v AND 0x7F) OR 0x80) # varint_enc ?w"
      using False by (subst varint_enc_rec) simp
    have "v \<noteq> 0" using False by auto
    have "127 < unat v" using False by (simp add: word_le_nat_alt)
    then have "128 * 2 ^ unat p \<le> unat v * 2 ^ unat p" by (intro mult_le_mono1) simp
    from le_less_trans [OF this prems(1)] have "(2::nat) ^ (unat p + 7) < 2 ^ 32"
      by (simp add: power_add)
    then have p: "unat p + 7 < 32" by (simp only: power_strict_increasing_iff)
    then have p7: "unat (p + 7) = unat p + 7" by (simp add: unat_word_ariths)
    have "unat ?w * 128 \<le> unat v" by (simp add: unat_drop_bit_div)
    then have "unat ?w * 128 * 2 ^ unat p \<le> unat v * 2 ^ unat p" by (rule mult_le_mono1)
    from le_less_trans [OF this prems(1)] have small: "unat ?w * 2 ^ unat (p + 7) < 2 ^ 32"
      by (simp add: p7 power_add mult.assoc mult.commute)
    have "p + 7 < 32" "p + 7 = 7 \<or> p + 7 = 14 \<or> p + 7 = 21 \<or> p + 7 = 28"
      using prems(5) p by (auto simp: word_less_nat_alt)
    then have "varint32_loop (p + 7) (r OR push_bit (unat p) (take_bit 7 (ucast v)))
        (buf_stream (varint_enc ?w @ rest) (n - 1) e :: 's pb_istream)
      = Some (Some ((r OR push_bit (unat p) (take_bit 7 (ucast v))) OR push_bit (unat (p + 7)) (ucast ?w)),
              buf_stream rest (n - 1 - length (varint_enc ?w)) e)"
      using prems p7 p enc \<open>v \<noteq> 0\<close> small
      by (intro "1.IH") auto
    moreover have "(ucast (ucast (take_bit 7 v) :: u8) :: u32) = take_bit 7 (ucast v)"
      by (auto simp: bit_simps intro!: bit_word_eqI)
    moreover have "push_bit (unat p + 7) (ucast ?w :: u32) = push_bit (unat p + 7) (drop_bit 7 (ucast v))"
      by (auto simp: bit_simps intro!: bit_word_eqI)
    ultimately show ?thesis using prems enc p7 np
      by (subst varint32_loop.simps) (simp add: pb_readbyte_buf group_byte rotate_or Let_def)
  qed
qed

lemma pb_decode_varint32_eof_enc:
  assumes "length (varint_enc (ucast v)) \<le> n" "n < 2 ^ 64"
  shows "pb_decode_varint32_eof (buf_stream (varint_enc (ucast v) @ rest) n e :: 's pb_istream) =
    Some (Some v, False, buf_stream rest (n - length (varint_enc (ucast v))) e)"
proof (cases "(ucast v :: u64) \<le> 0x7F")
  case True
  then have enc: "varint_enc (ucast v) = [ucast (ucast v :: u64)]" by (simp add: varint_enc_rec)
  have v: "(ucast (ucast (ucast v :: u64) :: u8) :: u32) = v"
    using small_ucast [OF True] by (auto simp: bit_simps intro!: bit_word_eqI)
  show ?thesis
    using assms last_byte [OF True] v unfolding pb_decode_varint32_eof_def enc
    by (simp add: pb_readbyte_buf)
next
  case False
  let ?v = "ucast v :: u64" and ?w = "drop_bit 7 (ucast v :: u64)"
  have enc: "varint_enc ?v = (ucast (?v AND 0x7F) OR 0x80) # varint_enc ?w"
    using False by (subst varint_enc_rec) simp
  have "unat ?v < 2 ^ 32" using unat_u32_less [of v] by simp
  then have small: "unat ?w * 2 ^ unat (7 :: u8) < 2 ^ 32" by (simp add: unat_drop_bit_div)
  have "varint32_loop 7 (take_bit 7 v) (buf_stream (varint_enc ?w @ rest) (n - 1) e :: 's pb_istream)
      = Some (Some (take_bit 7 v OR push_bit (unat (7 :: u8)) (ucast ?w)),
              buf_stream rest (n - 1 - length (varint_enc ?w)) e)"
    using assms small enc by (intro varint32_loop_enc) auto
  moreover have "take_bit 7 v OR push_bit 7 (ucast ?w) = v"
    by (rule bit_word_eqI) (auto simp: bit_simps)
  moreover have "(ucast (ucast (take_bit 7 ?v) :: u8) :: u32) = take_bit 7 v"
    by (auto simp: bit_simps intro!: bit_word_eqI)
  ultimately show ?thesis using assms enc
    unfolding pb_decode_varint32_eof_def by (simp add: pb_readbyte_buf group_byte)
qed

lemma pb_decode_varint32_enc:
  assumes "length (varint_enc (ucast v)) \<le> n" "n < 2 ^ 64"
  shows "pb_decode_varint32 (buf_stream (varint_enc (ucast v) @ rest) n e) =
    Some (Some v, buf_stream rest (n - length (varint_enc (ucast v))) e)"
  by (simp add: pb_decode_varint32_def pb_decode_varint32_eof_enc [OF assms])

text \<open>The zigzag map of \<open>pb_encode_svarint\<close> and its inverse in \<open>pb_decode_svarint\<close>.\<close>

definition zigzag :: "u64 \<Rightarrow> u64" where
  "zigzag v = (if sint v < 0 then NOT (push_bit 1 v) else push_bit 1 v)"

definition unzigzag :: "u64 \<Rightarrow> u64" where
  "unzigzag v = (if v AND 1 \<noteq> 0 then NOT (drop_bit 1 v) else drop_bit 1 v)"

lemma and_1_bit: "w AND 1 \<noteq> 0 \<longleftrightarrow> bit (w :: 'a::len word) 0"
  by (simp add: and_one_eq bit_0 odd_iff_mod_2_eq_one)

lemma unzigzag_zigzag: "unzigzag (zigzag v) = v"
proof (cases "bit v 63")
  case True
  then have "sint v < 0" using bit_last_iff [of v] by simp
  then have z: "zigzag v = NOT (push_bit 1 v)" by (simp add: zigzag_def)
  have "bit (zigzag v) 0" unfolding z by (simp only: bit_not_iff bit_push_bit_iff) simp
  moreover have "NOT (drop_bit 1 (NOT (push_bit 1 v))) = v"
  proof (rule bit_word_eqI)
    fix n assume "n < LENGTH(64)"
    with True show "bit (NOT (drop_bit 1 (NOT (push_bit 1 v)))) n = bit v n"
      by (cases "n = 63") (auto simp: bit_simps simp del: push_bit_Suc)
  qed
  ultimately show ?thesis by (simp only: unzigzag_def and_1_bit if_True z)
next
  case False
  then have "\<not> sint v < 0" using bit_last_iff [of v] by simp
  then have z: "zigzag v = push_bit 1 v" by (simp add: zigzag_def)
  have "\<not> bit (zigzag v) 0" unfolding z by (simp only: bit_push_bit_iff) simp
  moreover have "drop_bit 1 (push_bit 1 v) = v"
  proof (rule bit_word_eqI)
    fix n assume "n < LENGTH(64)"
    with False show "bit (drop_bit 1 (push_bit 1 v)) n = bit v n"
      by (cases "n = 63") (auto simp: bit_simps simp del: push_bit_Suc)
  qed
  ultimately show ?thesis by (simp only: unzigzag_def and_1_bit if_False z)
qed

section \<open>Fixed-width values\<close>

lemma byte_cast:
  "LENGTH('a) \<ge> 8 \<Longrightarrow> ucast (ucast (x AND 0xFF) :: u8) = take_bit 8 (x :: 'a::len word)"
proof -
  have "(0xFF :: 'a word) = mask 8" by (simp add: mask_eq_exp_minus_1)
  then have "x AND 0xFF = take_bit 8 x" by (simp add: take_bit_eq_mask)
  then show ?thesis by (intro bit_word_eqI) (auto simp: bit_simps)
qed

lemma byte_join:
  "push_bit p (take_bit 8 (drop_bit p v)) OR push_bit (p + 8) (drop_bit (p + 8) v)
   = push_bit p (drop_bit p (v :: 'a::len word))"
  using push_bit_split [of p 8 "drop_bit p v"] by (simp add: add.commute)

lemma byte_top: "push_bit p (take_bit 8 (drop_bit p v)) = push_bit p (drop_bit p (v :: 'a::len word))"
  if "LENGTH('a) = p + 8"
  using that by (intro bit_word_eqI) (auto simp: bit_simps)

lemma fixed32_bytes:
  fixes v :: u32
  shows "push_bit 0 (ucast (ucast (v AND 0xFF) :: u8)) OR push_bit 8 (ucast (ucast (drop_bit 8 v AND 0xFF) :: u8)) OR
    push_bit 16 (ucast (ucast (drop_bit 16 v AND 0xFF) :: u8)) OR push_bit 24 (ucast (ucast (drop_bit 24 v AND 0xFF) :: u8)) = v"
  using byte_join [of 0 v] byte_join [of 8 v] byte_join [of 16 v] byte_top [of 24 v]
  by (simp add: byte_cast)

lemma fixed64_bytes:
  fixes v :: u64
  shows "push_bit 0 (ucast (ucast (v AND 0xFF) :: u8)) OR push_bit 8 (ucast (ucast (drop_bit 8 v AND 0xFF) :: u8)) OR
    push_bit 16 (ucast (ucast (drop_bit 16 v AND 0xFF) :: u8)) OR push_bit 24 (ucast (ucast (drop_bit 24 v AND 0xFF) :: u8)) OR
    push_bit 32 (ucast (ucast (drop_bit 32 v AND 0xFF) :: u8)) OR push_bit 40 (ucast (ucast (drop_bit 40 v AND 0xFF) :: u8)) OR
    push_bit 48 (ucast (ucast (drop_bit 48 v AND 0xFF) :: u8)) OR push_bit 56 (ucast (ucast (drop_bit 56 v AND 0xFF) :: u8)) = v"
  using byte_join [of 0 v] byte_join [of 8 v] byte_join [of 16 v] byte_join [of 24 v] byte_join [of 32 v]
    byte_join [of 40 v] byte_join [of 48 v] byte_top [of 56 v]
  by (simp add: byte_cast)

section \<open>Round trips\<close>

text \<open>
  \<open>carries write read v k\<close>: there are at most \<open>k\<close> bytes that \<open>write\<close> puts into every
  buffer that is large enough, and \<open>read\<close> takes exactly these bytes from every stream that
  starts with them and returns \<open>v\<close>.
\<close>

definition carries :: "membuf pb_ostream step \<Rightarrow> ('s, 'a) reader \<Rightarrow> 'a \<Rightarrow> nat \<Rightarrow> bool" where
  "carries write read v k \<longleftrightarrow> (\<exists>bs. length bs \<le> k \<and>
     (\<forall>m base sz. length bs \<le> unat sz \<longrightarrow> (\<exists>s'.
        write (pb_ostream_from_buffer m base sz) = Some (True, s') \<and>
        os_sink s' = Some (buf_write, (put_bytes m base bs, base + int (length bs))) \<and>
        unat (bytes_written s') = length bs)) \<and>
     (\<forall>rest n e. length bs \<le> n \<and> n < 2 ^ 64 \<longrightarrow>
        read (buf_stream (bs @ rest) n e) = Some (Some v, buf_stream rest (n - length bs) e)))"

lemma carriesI:
  assumes w: "\<And>m base. emits (buf_sink m base) write True bs (length bs)"
    and r: "\<And>rest n e. length bs \<le> n \<Longrightarrow> n < 2 ^ 64 \<Longrightarrow>
      read (buf_stream (bs @ rest) n e) = Some (Some v, buf_stream rest (n - length bs) e)"
    and k: "length bs \<le> k" "k < 2 ^ 64"
  shows "carries write read v k"
  unfolding carries_def
proof (rule exI [of _ bs], intro conjI allI impI)
  fix m base sz assume "length bs \<le> unat (sz :: u64)"
  with emits_from_buffer(1) [OF w] k show "\<exists>s'. write (pb_ostream_from_buffer m base sz) = Some (True, s') \<and>
        os_sink s' = Some (buf_write, (put_bytes m base bs, base + int (length bs))) \<and>
        unat (bytes_written s') = length bs" by simp
qed (use k r in auto)

lemma pb_encode_svarint_zigzag: "pb_encode_svarint v = pb_encode_varint (zigzag v)"
  by (simp add: pb_encode_svarint_def zigzag_def)

lemma pb_decode_svarint_unzigzag:
  "pb_decode_svarint = rd_then pb_decode_varint (\<lambda>v. rd_value (unzigzag v))"
  by (simp add: pb_decode_svarint_def unzigzag_def)

text \<open>Varints, plain and zigzag, in 64 and 32 bits.\<close>

lemma varint_roundtrip:
  "carries (pb_encode_varint v) (pb_decode_varint :: ('s, u64) reader) v 10 \<and>
   carries (pb_encode_svarint v) (pb_decode_svarint :: ('s, u64) reader) v 10 \<and>
   carries (pb_encode_varint (ucast w)) (pb_decode_varint32 :: ('s, u32) reader) w 10"
  using varint_enc_max
  by (intro conjI; intro carriesI [where bs = "varint_enc v"] carriesI [where bs = "varint_enc (zigzag v)"]
      carriesI [where bs = "varint_enc (ucast w)"])
    (auto simp: pb_encode_svarint_zigzag pb_decode_svarint_unzigzag pb_decode_varint_enc
      pb_decode_varint32_enc unzigzag_zigzag dec_defs intro: membuf.emits_varint)

lemma pb_read_tmp_buf:
  assumes "unat count = length bs" "length bs \<le> n" "n < 2 ^ 64"
  shows "pb_read_tmp count (buf_stream (bs @ rest) n e :: 's pb_istream) = Some (Some bs, buf_stream rest (n - length bs) e)"
  by (simp add: pb_read_tmp_def pb_read_buf [OF assms])

text \<open>Fixed-width values: four and eight bytes, low byte first.\<close>

lemma fixed_roundtrip:
  "carries (pb_encode_fixed32 v) (pb_decode_fixed32 :: ('s, u32) reader) v 4 \<and>
   carries (pb_encode_fixed64 w) (pb_decode_fixed64 :: ('s, u64) reader) w 8"
proof
  let ?b4 = "[ucast (v AND 0xFF), ucast (drop_bit 8 v AND 0xFF),
    ucast (drop_bit 16 v AND 0xFF), ucast (drop_bit 24 v AND 0xFF)] :: u8 list"
  show "carries (pb_encode_fixed32 v) (pb_decode_fixed32 :: ('s, u32) reader) v 4"
  proof (rule carriesI)
    show "emits (buf_sink m base) (pb_encode_fixed32 v) True ?b4 (length ?b4)" for m base
      unfolding pb_encode_fixed32_def by (rule membuf.emits_write) simp
    show "pb_decode_fixed32 (buf_stream (?b4 @ rest) n e :: 's pb_istream) =
        Some (Some v, buf_stream rest (n - length ?b4) e)" if "length ?b4 \<le> n" "n < 2 ^ 64" for rest n e
      using pb_read_tmp_buf [where 's = 's and count = 4 and bs = ?b4 and n = n and rest = rest and e = e] that fixed32_bytes [of v]
      by (simp only: pb_decode_fixed32_def rd_then_def) (simp add: rd_value_def)
  qed simp_all
  let ?b8 = "[ucast (w AND 0xFF), ucast (drop_bit 8 w AND 0xFF),
    ucast (drop_bit 16 w AND 0xFF), ucast (drop_bit 24 w AND 0xFF), ucast (drop_bit 32 w AND 0xFF),
    ucast (drop_bit 40 w AND 0xFF), ucast (drop_bit 48 w AND 0xFF), ucast (drop_bit 56 w AND 0xFF)] :: u8 list"
  show "carries (pb_encode_fixed64 w) (pb_decode_fixed64 :: ('s, u64) reader) w 8"
  proof (rule carriesI)
    show "emits (buf_sink m base) (pb_encode_fixed64 w) True ?b8 (length ?b8)" for m base
      unfolding pb_encode_fixed64_def by (rule membuf.emits_write) simp
    show "pb_decode_fixed64 (buf_stream (?b8 @ rest) n e :: 's pb_istream) =
        Some (Some w, buf_stream rest (n - length ?b8) e)" if "length ?b8 \<le> n" "n < 2 ^ 64" for rest n e
      using pb_read_tmp_buf [where 's = 's and count = 8 and bs = ?b8 and n = n and rest = rest and e = e] that fixed64_bytes [of w]
      by (simp only: pb_decode_fixed64_def rd_then_def) (simp add: rd_value_def)
  qed simp_all
qed

text \<open>Tags: a field number of the protobuf range and a wire type.\<close>

lemma tag_roundtrip:
  assumes "0 < num" "num < 2 ^ 29" "wt < 8"
  shows "carries (pb_encode_tag wt num)
    (\<lambda>s :: 's pb_istream. map_option (\<lambda>(r, eof, s'). (map_option (\<lambda>t. (t, eof)) r, s')) (pb_decode_tag s))
    ((wt, num), False) 5"
proof -
  define t where "t = push_bit 3 num OR ucast wt"
  have num_bits: "i < 29" if "bit num i" for i
  proof -
    have "unat num < 2 ^ 29" using assms(2) by (simp add: word_less_nat_alt)
    then have "unat (take_bit 29 num) = unat num" by (simp add: unsigned_take_bit_eq take_bit_nat_eq_self)
    then have "take_bit 29 num = num" by (simp only: word_unat_eq_iff)
    with that show ?thesis by (metis bit_take_bit_iff)
  qed
  have wt_take: "take_bit 3 wt = wt"
  proof -
    have "unat wt < 2 ^ 3" using assms(3) by (simp add: word_less_nat_alt)
    then have "unat (take_bit 3 wt) = unat wt" by (simp add: unsigned_take_bit_eq take_bit_nat_eq_self)
    then show ?thesis by (simp only: word_unat_eq_iff)
  qed
  then have wt_bits: "i < 3" if "bit wt i" for i
    using that by (metis bit_take_bit_iff)
  have t64: "push_bit 3 (ucast num) OR wt = (ucast t :: u64)"
    unfolding t_def by (rule bit_word_eqI) (auto simp: bit_simps dest: wt_bits num_bits)
  have t3: "drop_bit 3 t = num"
    unfolding t_def by (rule bit_word_eqI) (auto simp: bit_simps dest: wt_bits num_bits)
  have "t AND 7 = take_bit 3 t"
    by (simp add: take_bit_eq_mask mask_eq_exp_minus_1)
  then have t7: "ucast (t AND 7) = wt"
    unfolding t_def by (intro bit_word_eqI) (auto simp: bit_simps dest: wt_bits num_bits)
  have "t \<noteq> 0" using t3 assms(1) by auto
  have len: "length (varint_enc (ucast t)) \<le> 5"
    using varint_enc_length [of "ucast t" 4] unat_u32_less [of t] by simp
  show ?thesis
    using len \<open>t \<noteq> 0\<close> t7 t3
    by (intro carriesI [where bs = "varint_enc (ucast t)"])
      (simp_all add: pb_encode_tag_def t64 membuf.emits_varint pb_decode_tag_def pb_decode_varint32_eof_enc)
qed

text \<open>
  C3. Scalars round-trip: of what \<open>pb_encode.c\<close> writes for a value, \<open>pb_decode.c\<close> reads exactly these bytes and returns
  the value, whatever follows. This holds for varints and zigzag varints of all 64-bit values and for 32-bit varints (at
  most ten bytes), for fixed-width values (four and eight bytes), and for tags of a field number below
  \<open>2 ^ 29\<close>, not zero, and a wire type below 8 (at most five bytes), without reporting the end of the message.
\<close>

theorem scalar_roundtrip:
  assumes "0 < num" "num < 2 ^ 29" "wt < 8"
  shows "carries (pb_encode_varint v) (pb_decode_varint :: ('s, u64) reader) v 10 \<and>
    carries (pb_encode_svarint v) (pb_decode_svarint :: ('s, u64) reader) v 10 \<and>
    carries (pb_encode_varint (ucast w)) (pb_decode_varint32 :: ('s, u32) reader) w 10 \<and>
    carries (pb_encode_fixed32 w) (pb_decode_fixed32 :: ('s, u32) reader) w 4 \<and>
    carries (pb_encode_fixed64 v) (pb_decode_fixed64 :: ('s, u64) reader) v 8 \<and>
    carries (pb_encode_tag wt num)
      (\<lambda>s :: 's pb_istream. map_option (\<lambda>(r, eof, s'). (map_option (\<lambda>t. (t, eof)) r, s')) (pb_decode_tag s))
      ((wt, num), False) 5"
  using varint_roundtrip [of v w] fixed_roundtrip [of w v] tag_roundtrip [OF assms] by blast

lemma scalar_roundtrip_witness:
  "carries (pb_encode_svarint (- 7)) (pb_decode_svarint :: ('s, u64) reader) (- 7) 10 \<and>
   carries (pb_encode_tag 2 15)
    (\<lambda>s :: 's pb_istream. map_option (\<lambda>(r, eof, s'). (map_option (\<lambda>t. (t, eof)) r, s')) (pb_decode_tag s))
    ((2, 15), False) 5"
  using scalar_roundtrip [where 's = 's, of 15 2 "- 7" 0] by simp

section \<open>Framing\<close>

lemma pb_read_null_buf:
  assumes "unat count = length bs" "length bs \<le> n" "n < 2 ^ 64"
  shows "pb_read_null count (buf_stream (bs @ rest) n e) = Some (Some (), buf_stream rest (n - length bs) e)"
  using assms by (auto simp: pb_read_null_def pb_read_tmp_buf dec_defs unat_eq_0)

lemma make_substream_buf:
  assumes "length body < 2 ^ 32" "length (varint_enc (word_of_nat (length body))) + length body \<le> n" "n < 2 ^ 64"
  shows "pb_make_string_substream
      (buf_stream (varint_enc (word_of_nat (length body)) @ body @ rest) n e :: 's pb_istream) =
    Some (Some (buf_stream (body @ rest) (length body) e),
      buf_stream (body @ rest) (n - (length (varint_enc (word_of_nat (length body))) + length body)) e)"
proof -
  let ?w = "word_of_nat (length body) :: u32" and ?L = "length (varint_enc (word_of_nat (length body)))"
  have "unat (ucast ?w :: u64) = length body" "unat (word_of_nat (length body) :: u64) = length body"
    using assms(1) by (simp_all add: unat_of_nat)
  then have w: "(ucast ?w :: u64) = word_of_nat (length body)" by (simp only: word_unat_eq_iff)
  have d: "pb_decode_varint32 (buf_stream (varint_enc (ucast ?w) @ body @ rest) n e :: 's pb_istream) =
      Some (Some ?w, buf_stream (body @ rest) (n - length (varint_enc (ucast ?w))) e)"
    using assms unfolding w by (intro pb_decode_varint32_enc [of ?w, unfolded w]) auto
  have "\<not> (word_of_nat (n - ?L) :: u64) < word_of_nat (length body)"
    using assms unat_of_nat_u64 [of "n - ?L"] by (simp add: word_less_nat_alt unat_of_nat_u64 del: of_nat_diff)
  moreover have "(buf_stream (body @ rest) (n - ?L) e)\<lparr>bytes_left :=
      bytes_left (buf_stream (body @ rest) (n - ?L) e) - word_of_nat (length body)\<rparr>
      = buf_stream (body @ rest) (n - (?L + length body)) e"
    using assms by (simp add: buf_stream_def algebra_simps)
  ultimately show ?thesis using d
    by (simp add: pb_make_string_substream_def rd_then_def w del: of_nat_diff)
qed

lemma close_substream_buf:
  assumes "n < 2 ^ 64" "length bs < 2 ^ 64"
  shows "pb_close_string_substream (buf_stream (bs @ rest) (length bs) e' :: 's pb_istream) (buf_stream x n e)
    = Some (Some (), buf_stream rest n e')"
proof (cases "bs = []")
  case False
  then have "(word_of_nat (length bs) :: u64) \<noteq> 0"
    using unat_of_nat_u64 [OF assms(2)] by (metis length_0_conv unat_0)
  with assms show ?thesis
    by (simp add: pb_close_string_substream_def pb_read_null_buf unat_of_nat_u64)
qed (simp add: pb_close_string_substream_def)

text \<open>
  C4. Length-delimited framing: the function \<open>f\<close> that is run on a substream is limited to
  the delimited bytes \<open>body\<close>, and however many of them it leaves unread, the parent stream
  continues right behind them; status, heap and error message are those of \<open>f\<close>.
\<close>

theorem substream_framing:
  assumes "length body < 2 ^ 32" "length (varint_enc (word_of_nat (length body))) + length body \<le> n"
    and "n < 2 ^ 64" "k \<le> length body"
    and f: "f (buf_stream (body @ rest) (length body) e :: 's pb_istream, h) =
      Some (ok, (buf_stream (drop k body @ rest) (length body - k) e', h'))"
  shows "on_substream f (buf_stream (varint_enc (word_of_nat (length body)) @ body @ rest) n e, h) =
    Some (ok, (buf_stream rest (n - (length (varint_enc (word_of_nat (length body))) + length body)) e', h'))"
proof -
  have "pb_close_string_substream (buf_stream (drop k body @ rest) (length body - k) e' :: 's pb_istream)
      (buf_stream (body @ rest) (n - (length (varint_enc (word_of_nat (length body))) + length body)) e)
    = Some (Some (), buf_stream rest (n - (length (varint_enc (word_of_nat (length body))) + length body)) e')"
    using close_substream_buf [where 's = 's, of "n - (length (varint_enc (word_of_nat (length body))) + length body)" "drop k body" rest e' "body @ rest" e]
      assms(1,3) by simp
  then show ?thesis
    using make_substream_buf [where 's = 's, OF assms(1,2,3), of rest e] f
    by (simp add: on_substream_def with_value_def ret_def)
qed

text \<open>The values that follow a tag of the given wire type.\<close>

definition wire_value :: "u64 \<Rightarrow> u8 list \<Rightarrow> bool" where
  "wire_value wt bs \<longleftrightarrow>
     (if wt = PB_WT_VARINT
      then bs \<noteq> [] \<and> (\<forall>b \<in> set (butlast bs). b AND 0x80 \<noteq> 0) \<and> last bs AND 0x80 = 0
      else if wt = PB_WT_64BIT then length bs = 8
      else if wt = PB_WT_STRING then (\<exists>w body. bs = varint_enc (ucast (w :: u32)) @ body \<and> length body = unat w)
      else wt = PB_WT_32BIT \<and> length bs = 4)"

lemma skip_varint_buf:
  "bs \<noteq> [] \<Longrightarrow> \<forall>b \<in> set (butlast bs). b AND 0x80 \<noteq> 0 \<Longrightarrow> last bs AND 0x80 = 0 \<Longrightarrow>
   length bs \<le> n \<Longrightarrow> n < 2 ^ 64 \<Longrightarrow>
   pb_skip_varint (buf_stream (bs @ rest) n e :: 's pb_istream) = Some (Some (), buf_stream rest (n - length bs) e)"
proof (induction bs arbitrary: n)
  case (Cons b bs)
  have rd: "pb_read_tmp 1 (buf_stream (b # bs @ rest) n e :: 's pb_istream) = Some (Some [b], buf_stream (bs @ rest) (n - 1) e)"
    using Cons.prems pb_read_tmp_buf [where 's = 's, of 1 "[b]" n "bs @ rest" e] by simp
  show ?case
  proof (cases "bs = []")
    case True
    with Cons.prems rd show ?thesis by (subst pb_skip_varint.simps) (simp add: rd_value_def)
  next
    case False
    with Cons.prems have "pb_skip_varint (buf_stream (bs @ rest) (n - 1) e :: 's pb_istream)
        = Some (Some (), buf_stream rest (n - 1 - length bs) e)"
      by (intro Cons.IH) auto
    with Cons.prems rd False show ?thesis by (subst pb_skip_varint.simps) simp
  qed
qed simp

text \<open>
  C5. Skipping an unknown field consumes exactly its value, for every wire type of the
  protobuf format.
\<close>

theorem skip_field_exact:
  assumes "wire_value wt bs" "length bs \<le> n" "n < 2 ^ 64"
  shows "pb_skip_field wt (buf_stream (bs @ rest) n e) = Some (Some (), buf_stream rest (n - length bs) e)"
proof (cases "wt = PB_WT_STRING")
  case True
  then obtain w :: u32 and body where bs: "bs = varint_enc (ucast w) @ body" "length body = unat w"
    using assms(1) by (auto simp: wire_value_def)
  then show ?thesis using assms True
    by (simp add: pb_skip_field_def pb_skip_string_def rd_then_def pb_decode_varint32_enc pb_read_null_buf)
next
  case False
  with assms show ?thesis
    by (auto simp: pb_skip_field_def wire_value_def skip_varint_buf pb_read_null_buf split: if_splits)
qed

lemma skip_field_exact_witness:
  "wire_value 0 [0x96, 0x01] \<and>
   pb_skip_field 0 (buf_stream ([0x96, 0x01] @ [0x2A]) 3 None :: unit pb_istream)
     = Some (Some (), buf_stream [0x2A] 1 None)"
proof
  show wv: "wire_value 0 [0x96, 0x01]" by (simp add: wire_value_def)
  show "pb_skip_field 0 (buf_stream ([0x96, 0x01] @ [0x2A]) 3 None :: unit pb_istream)
     = Some (Some (), buf_stream [0x2A] 1 None)"
    using skip_field_exact [where 'a = unit, OF wv, of 3 "[0x2A]" None] by simp
qed

lemma substream_framing_witness:
  "on_substream (with_value pb_readbyte (\<lambda>_. ret True))
     (buf_stream (varint_enc (word_of_nat (length [7 :: u8, 8, 9])) @ [7, 8, 9] @ [0x55]) 5 None :: unit pb_istream, empty_heap)
   = Some (True, (buf_stream [0x55] (5 - (length (varint_enc (word_of_nat (length [7 :: u8, 8, 9]))) + length [7 :: u8, 8, 9])) None, empty_heap))"
  by (rule substream_framing [where k = 1])
    (simp_all add: varint_enc_rec with_value_def ret_def pb_readbyte_buf)

section \<open>Overlong varints\<close>

text \<open>
  \<open>pb_decode_varint\<close> refuses a varint of more than ten bytes, but \<open>pb_decode_varint32\<close>
  does not: its position counter has 8 bits and wraps around, so that 38 bytes are taken as
  the value 8.
\<close>

lemma varint32_overlong:
  "pb_decode_varint32 (buf_stream (replicate 37 0x80 @ [0x01]) 38 None :: unit pb_istream) =
     Some (Some 8, buf_stream [] 0 None) \<and>
   pb_decode_varint (buf_stream (replicate 37 0x80 @ [0x01]) 38 None :: unit pb_istream) =
     Some (None, buf_stream (replicate 27 0x80 @ [0x01]) 28 (Some ''varint overflow''))"
  by code_simp

end
