(* ===== verification/Pb_Decode_Safe.thy ===== *)
theory Pb_Decode_Safe
  imports Pb_Decode
begin

text \<open>
  Memory safety and termination of the decoder on arbitrary input, for messages whose
  fields are all statically allocated: every reader stays inside the input buffer, and
  \<open>pb_decode\<close> returns and changes nothing outside the message struct. The contracts
  \<open>reads\<close> (readers), \<open>keeps\<close> (heap operations) and \<open>safe\<close> (steps) are closed under the
  control flow of the decoder, and each function of \<open>pb_decode.c\<close> is shown to meet them.
\<close>

section \<open>Readers stay inside the buffer\<close>

definition in_buffer :: "'s pb_istream \<Rightarrow> bool" where
  "in_buffer s \<longleftrightarrow> (case is_source s of buf_read bs \<Rightarrow> unat (bytes_left s) \<le> length bs | _ \<Rightarrow> False)"

text \<open>
  From \<open>s\<close> to \<open>s'\<close> the limit does not grow, and the bytes of the buffer behind the limit do
  not get fewer.
\<close>

definition steady :: "'s pb_istream \<Rightarrow> 's pb_istream \<Rightarrow> bool" where
  "steady s s' \<longleftrightarrow> (case (is_source s, is_source s') of
       (buf_read bs, buf_read bs') \<Rightarrow>
         bytes_left s' \<le> bytes_left s \<and>
         length bs + unat (bytes_left s') \<le> length bs' + unat (bytes_left s)
     | _ \<Rightarrow> False)"

lemma steadyE:
  assumes "steady s s'"
  obtains bs bs' where "is_source s = buf_read bs" "is_source s' = buf_read bs'"
    "bytes_left s' \<le> bytes_left s"
    "length bs + unat (bytes_left s') \<le> length bs' + unat (bytes_left s)"
  using assms by (auto simp: steady_def split: source.splits)

lemma steadyI:
  "is_source s = buf_read bs \<Longrightarrow> is_source s' = buf_read bs' \<Longrightarrow> bytes_left s' \<le> bytes_left s \<Longrightarrow>
   length bs + unat (bytes_left s') \<le> length bs' + unat (bytes_left s) \<Longrightarrow> steady s s'"
  by (simp add: steady_def)

lemma steady_refl: "in_buffer s \<Longrightarrow> steady s s"
  by (auto simp: steady_def in_buffer_def split: source.splits)

lemma steady_trans: "steady s t \<Longrightarrow> steady t u \<Longrightarrow> steady s u"
  by (force elim!: steadyE intro!: steadyI)

lemma steady_in_buffer: "in_buffer s \<Longrightarrow> steady s s' \<Longrightarrow> in_buffer s'"
  by (auto elim!: steadyE simp: in_buffer_def)

lemma steady_left: "steady s s' \<Longrightarrow> bytes_left s' \<le> bytes_left s"
  by (auto elim: steadyE)

lemma steady_errmsg [simp]: "steady s (s'\<lparr>is_errmsg := e\<rparr>) \<longleftrightarrow> steady s s'"
  by (simp add: steady_def split: source.split)

definition reads :: "('s, 'a) reader \<Rightarrow> bool" where
  "reads r \<longleftrightarrow> (\<forall>s. in_buffer s \<longrightarrow> (\<exists>v s'. r s = Some (v, s') \<and> steady s s'))"

text \<open>A reader that takes at least one byte when it succeeds.\<close>

definition eats :: "('s, 'a) reader \<Rightarrow> bool" where
  "eats r \<longleftrightarrow> (\<forall>s. in_buffer s \<longrightarrow> (\<exists>v s'. r s = Some (v, s') \<and> steady s s' \<and>
     (v \<noteq> None \<longrightarrow> bytes_left s' < bytes_left s)))"

lemma readsI:
  "(\<And>s. in_buffer s \<Longrightarrow> \<exists>v s'. r s = Some (v, s') \<and> steady s s') \<Longrightarrow> reads r"
  by (simp add: reads_def)

lemma readsE:
  assumes "reads r" "in_buffer s"
  obtains v s' where "r s = Some (v, s')" "steady s s'" "in_buffer s'"
  using assms steady_in_buffer unfolding reads_def by blast

lemma eatsE:
  assumes "eats r" "in_buffer s"
  obtains v s' where "r s = Some (v, s')" "steady s s'" "in_buffer s'"
    "v \<noteq> None \<longrightarrow> bytes_left s' < bytes_left s"
proof -
  from assms obtain v s' where "r s = Some (v, s')" "steady s s'" "v \<noteq> None \<longrightarrow> bytes_left s' < bytes_left s"
    unfolding eats_def by blast
  with assms(2) steady_in_buffer that show thesis by blast
qed

lemma eats_reads: "eats r \<Longrightarrow> reads r"
  by (force simp: eats_def reads_def)

lemma reads_error [intro!]: "reads (rd_error msg)"
  by (simp add: reads_def rd_error_def steady_refl)

lemma eats_error [intro!]: "eats (rd_error msg)"
  by (simp add: eats_def rd_error_def steady_refl)

lemma reads_value [intro!]: "reads (rd_value v)"
  by (simp add: reads_def rd_value_def steady_refl)

lemma reads_then:
  assumes "reads f" "\<And>v. reads (k v)"
  shows "reads (rd_then f k)"
proof (rule readsI)
  fix s :: "'a pb_istream" assume "in_buffer s"
  then obtain v s' where f: "f s = Some (v, s')" "steady s s'" "in_buffer s'"
    using assms(1) by (elim readsE)
  show "\<exists>v s'. rd_then f k s = Some (v, s') \<and> steady s s'"
  proof (cases v)
    case (Some a)
    from assms(2) [of a] f(3) obtain w t where "k a s' = Some (w, t)" "steady s' t"
      by (elim readsE)
    with f Some show ?thesis by (auto simp: rd_then_def intro: steady_trans)
  qed (use f in \<open>simp add: rd_then_def\<close>)
qed

lemma eats_then:
  assumes "eats f" "\<And>v. reads (k v)"
  shows "eats (rd_then f k)"
  unfolding eats_def
proof (intro allI impI)
  fix s :: "'a pb_istream" assume "in_buffer s"
  then obtain v s' where f: "f s = Some (v, s')" "steady s s'" "in_buffer s'"
    "v \<noteq> None \<longrightarrow> bytes_left s' < bytes_left s"
    using assms(1) by (elim eatsE)
  show "\<exists>w s'. rd_then f k s = Some (w, s') \<and> steady s s' \<and> (w \<noteq> None \<longrightarrow> bytes_left s' < bytes_left s)"
  proof (cases v)
    case (Some a)
    from assms(2) [of a] f(3) obtain w t where k: "k a s' = Some (w, t)" "steady s' t"
      by (elim readsE)
    moreover have "bytes_left t < bytes_left s"
      using f(4) Some steady_left [OF k(2)] by (simp add: le_less_trans)
    ultimately show ?thesis using f Some by (auto simp: rd_then_def intro: steady_trans)
  qed (use f in \<open>simp add: rd_then_def\<close>)
qed

lemma reads_if: "(c \<Longrightarrow> reads a) \<Longrightarrow> (\<not> c \<Longrightarrow> reads b) \<Longrightarrow> reads (if c then a else b)"
  by simp

text \<open>The primitive reads of the buffer.\<close>

lemma in_bufferE:
  assumes "in_buffer s"
  obtains bs where "is_source s = buf_read bs" "unat (bytes_left s) \<le> length bs"
  using assms by (auto simp: in_buffer_def split: source.splits)

lemma pb_read_steady:
  assumes "in_buffer s"
  shows "\<exists>ok bs s'. pb_read count s = Some (ok, bs, s') \<and> steady s s' \<and> length bs \<le> unat count \<and>
    (ok \<longrightarrow> length bs = unat count \<and> unat (bytes_left s) = unat (bytes_left s') + unat count)"
proof -
  obtain bs where src: "is_source s = buf_read bs" "unat (bytes_left s) \<le> length bs"
    using assms by (elim in_bufferE)
  show ?thesis
  proof (cases "count = 0 \<or> bytes_left s < count")
    case True
    with assms show ?thesis by (auto simp: pb_read_def steady_refl)
  next
    case False
    then have le: "count \<le> bytes_left s" by (simp add: not_less)
    then have "unat count \<le> unat (bytes_left s)" by (simp add: word_le_nat_alt)
    moreover have "unat (bytes_left s - count) = unat (bytes_left s) - unat count"
      using le by (rule unat_sub)
    ultimately show ?thesis using src False le
      by (auto simp: pb_read_def source_read_def word_le_nat_alt intro!: steadyI)
  qed
qed

lemma pb_readbyte_eats [intro!]: "eats pb_readbyte"
  unfolding eats_def
proof (intro allI impI)
  fix s :: "'a pb_istream" assume b: "in_buffer s"
  then obtain bs where src: "is_source s = buf_read bs" "unat (bytes_left s) \<le> length bs"
    by (elim in_bufferE)
  show "\<exists>v s'. pb_readbyte s = Some (v, s') \<and> steady s s' \<and> (v \<noteq> None \<longrightarrow> bytes_left s' < bytes_left s)"
  proof (cases "bytes_left s = 0")
    case True
    with b show ?thesis by (simp add: pb_readbyte_def rd_error_def steady_refl)
  next
    case False
    then have "0 < unat (bytes_left s)" by (simp add: unat_gt_0)
    moreover from False have "unat (bytes_left s - 1) = unat (bytes_left s) - 1"
      by (simp add: unat_minus_one)
    ultimately show ?thesis using src False
      by (auto simp: pb_readbyte_def source_read_def word_le_nat_alt word_less_nat_alt intro!: steadyI)
  qed
qed

lemma pb_read_tmp_eats: "count \<noteq> 0 \<Longrightarrow> eats (pb_read_tmp count)"
  unfolding eats_def
proof (intro allI impI)
  fix s :: "'a pb_istream" assume c: "count \<noteq> 0" and "in_buffer s"
  then obtain ok bs s' where r: "pb_read count s = Some (ok, bs, s')" "steady s s'"
    "ok \<longrightarrow> unat (bytes_left s) = unat (bytes_left s') + unat count"
    using pb_read_steady by blast
  moreover have "0 < unat count" using c by (simp add: unat_gt_0)
  ultimately show "\<exists>v s'. pb_read_tmp count s = Some (v, s') \<and> steady s s' \<and>
      (v \<noteq> None \<longrightarrow> bytes_left s' < bytes_left s)"
    by (auto simp: pb_read_tmp_def word_less_nat_alt)
qed

lemma pb_read_tmp_reads [intro!]: "reads (pb_read_tmp count)"
proof (rule readsI)
  fix s :: "'a pb_istream" assume "in_buffer s"
  then obtain ok bs s' where r: "pb_read count s = Some (ok, bs, s')" "steady s s'"
    using pb_read_steady by blast
  then show "\<exists>v s'. pb_read_tmp count s = Some (v, s') \<and> steady s s'"
    by (auto simp: pb_read_tmp_def)
qed

lemma pb_read_null_reads [intro!]: "reads (pb_read_null count)"
proof (rule readsI)
  fix s :: "'a pb_istream" assume b: "in_buffer s"
  then obtain bs where src: "is_source s = buf_read bs" by (elim in_bufferE)
  have "reads (rd_then (pb_read_tmp count) (\<lambda>_. rd_value ()) :: ('a, unit) reader)"
    by (intro reads_then) auto
  then obtain v s' where "rd_then (pb_read_tmp count) (\<lambda>_. rd_value ()) s = Some (v, s')" "steady s s'"
    using b by (elim readsE)
  with src b show "\<exists>v s'. pb_read_null count s = Some (v, s') \<and> steady s s'"
    by (auto simp: pb_read_null_def steady_refl)
qed

text \<open>
  A read of zero bytes succeeds, and the one of \<open>count\<close> bytes leaves the limit lower by
  exactly \<open>count\<close>; so a closed substream is empty.
\<close>

lemma pb_read_null_exact:
  assumes "in_buffer s" "pb_read_null count s = Some (Some u, s')"
  shows "unat (bytes_left s) = unat (bytes_left s') + unat count"
proof -
  obtain bs where src: "is_source s = buf_read bs" using assms(1) by (elim in_bufferE)
  from pb_read_steady [OF assms(1), of count] obtain ok b t where
    r: "pb_read count s = Some (ok, b, t)"
    "ok \<longrightarrow> unat (bytes_left s) = unat (bytes_left t) + unat count" by blast
  show ?thesis
    using assms(2) r src
    by (cases ok) (auto simp: pb_read_null_def pb_read_tmp_def rd_then_def rd_value_def split: if_splits)
qed

section \<open>The loops of the readers end\<close>

lemma varint_loop_eats: "in_buffer s \<Longrightarrow>
  \<exists>v s'. varint_loop p r s = Some (v, s') \<and> steady s s' \<and> (v \<noteq> None \<longrightarrow> bytes_left s' < bytes_left s)"
proof (induction "unat (bytes_left s)" arbitrary: s p r rule: less_induct)
  case less
  obtain v s1 where rb: "pb_readbyte s = Some (v, s1)" "steady s s1" "in_buffer s1"
    "v \<noteq> None \<longrightarrow> bytes_left s1 < bytes_left s"
    by (rule eatsE [OF pb_readbyte_eats less.prems])
  show ?case
  proof (cases "64 \<le> p \<or> v = None")
    case True
    then show ?thesis using rb less.prems
      by (subst (1) varint_loop.simps) (auto simp: rd_error_def steady_refl)
  next
    case False
    then obtain b where b: "v = Some b" by auto
    with rb have lt: "bytes_left s1 < bytes_left s" by simp
    from less.hyps [of s1 "p + 7" "r OR push_bit (unat p) (ucast (b AND 0x7F))"] lt rb(3)
    obtain w s2 where "varint_loop (p + 7) (r OR push_bit (unat p) (ucast (b AND 0x7F))) s1 = Some (w, s2)"
      "steady s1 s2"
      by (auto simp: word_less_nat_alt)
    moreover have "bytes_left s2 < bytes_left s" if "steady s1 s2" for s2
      using lt steady_left [OF that] by simp
    ultimately show ?thesis using rb b False lt steady_trans [OF rb(2)]
      by (subst (1) varint_loop.simps) (auto simp: Let_def rd_value_def)
  qed
qed

lemma pb_decode_varint_eats [intro!]: "eats pb_decode_varint"
  unfolding eats_def pb_decode_varint_def using varint_loop_eats by blast

lemma varint32_loop_eats: "in_buffer s \<Longrightarrow>
  \<exists>v s'. varint32_loop p r s = Some (v, s') \<and> steady s s'"
proof (induction "unat (bytes_left s)" arbitrary: s p r rule: less_induct)
  case less
  obtain v s1 where rb: "pb_readbyte s = Some (v, s1)" "steady s s1" "in_buffer s1"
    "v \<noteq> None \<longrightarrow> bytes_left s1 < bytes_left s"
    by (rule eatsE [OF pb_readbyte_eats less.prems])
  show ?case
  proof (cases v)
    case None
    then show ?thesis using rb by (subst (1) varint32_loop.simps) auto
  next
    case (Some b)
    let ?r = "if 32 \<le> p then r else r OR push_bit (unat p) (ucast (b AND 0x7F))"
    from rb Some have lt: "bytes_left s1 < bytes_left s" by simp
    from less.hyps [of s1 "p + 7" ?r] lt rb(3)
    obtain w s2 where "varint32_loop (p + 7) ?r s1 = Some (w, s2)" "steady s1 s2"
      by (auto simp: word_less_nat_alt)
    then show ?thesis using rb Some steady_trans [OF rb(2)]
      by (subst (1) varint32_loop.simps) (auto simp: Let_def rd_value_def rd_error_def)
  qed
qed

lemma varint32_eof_steady:
  assumes "in_buffer s"
  shows "\<exists>v eof s'. pb_decode_varint32_eof s = Some (v, eof, s') \<and> steady s s' \<and>
    (v \<noteq> None \<longrightarrow> bytes_left s' < bytes_left s)"
proof -
  obtain v s1 where rb: "pb_readbyte s = Some (v, s1)" "steady s s1" "in_buffer s1"
    "v \<noteq> None \<longrightarrow> bytes_left s1 < bytes_left s"
    by (rule eatsE [OF pb_readbyte_eats assms])
  show ?thesis
  proof (cases v)
    case None
    with rb show ?thesis by (simp add: pb_decode_varint32_eof_def)
  next
    case (Some b)
    from varint32_loop_eats [OF rb(3)] obtain w s2 where
      w: "varint32_loop 7 (ucast (b AND 0x7F)) s1 = Some (w, s2)" "steady s1 s2" by blast
    have "bytes_left s2 < bytes_left s" using rb(4) Some steady_left [OF w(2)] by simp
    with w rb Some steady_trans [OF rb(2) w(2)] show ?thesis
      by (auto simp: pb_decode_varint32_eof_def)
  qed
qed

lemma pb_decode_varint32_eats [intro!]: "eats pb_decode_varint32"
  using varint32_eof_steady by (fastforce simp: eats_def pb_decode_varint32_def)

lemma pb_skip_varint_reads [intro!]: "reads pb_skip_varint"
proof (rule readsI)
  fix s :: "'a pb_istream"
  show "in_buffer s \<Longrightarrow> \<exists>v s'. pb_skip_varint s = Some (v, s') \<and> steady s s'"
  proof (induction "unat (bytes_left s)" arbitrary: s rule: less_induct)
    case less
    have "eats (pb_read_tmp 1 :: ('a, u8 list) reader)" by (rule pb_read_tmp_eats) simp
    then obtain v s1 where rb: "pb_read_tmp 1 s = Some (v, s1)" "steady s s1" "in_buffer s1"
      "v \<noteq> None \<longrightarrow> bytes_left s1 < bytes_left s" by (rule eatsE [OF _ less.prems])
    show ?case
    proof (cases v)
      case None
      then show ?thesis using rb by (subst (1) pb_skip_varint.simps) auto
    next
      case (Some b)
      from less.hyps [of s1] rb Some
      obtain w s2 where "pb_skip_varint s1 = Some (w, s2)" "steady s1 s2"
        by (auto simp: word_less_nat_alt)
      then show ?thesis using rb Some steady_trans [OF rb(2)]
        by (subst (1) pb_skip_varint.simps) (auto simp: rd_value_def)
    qed
  qed
qed

lemma pb_skip_field_reads [intro!]: "reads (pb_skip_field wt)"
  unfolding pb_skip_field_def pb_skip_string_def
  by (intro reads_if reads_then pb_skip_varint_reads pb_read_null_reads reads_error
      eats_reads [OF pb_decode_varint32_eats])

lemma pb_decode_svarint_eats [intro!]: "eats pb_decode_svarint"
  unfolding pb_decode_svarint_def by (intro eats_then) auto

lemma pb_decode_fixed_eats [intro!]: "eats pb_decode_fixed32" "eats pb_decode_fixed64"
  unfolding pb_decode_fixed32_def pb_decode_fixed64_def
  by (intro eats_then pb_read_tmp_eats reads_value; simp)+

lemma pb_decode_tag_steady:
  assumes "in_buffer s"
  shows "\<exists>r eof s'. pb_decode_tag s = Some (r, eof, s') \<and> steady s s' \<and>
    (\<forall>wt tag. r = Some (wt, tag) \<longrightarrow> bytes_left s' < bytes_left s \<and> tag \<noteq> - 1)"
proof -
  obtain v eof s' where v: "pb_decode_varint32_eof s = Some (v, eof, s')" "steady s s'"
    "v \<noteq> None \<longrightarrow> bytes_left s' < bytes_left s"
    using varint32_eof_steady [OF assms] by blast
  have "drop_bit 3 w \<noteq> (- 1 :: u32)" for w :: u32
  proof
    assume "drop_bit 3 w = - 1"
    then have "bit (drop_bit 3 w) 31" by simp
    then show False by (auto simp: bit_drop_bit_eq dest: bit_imp_le_length)
  qed
  with v show ?thesis by (cases v) (auto simp: pb_decode_tag_def)
qed

section \<open>Heap operations and steps that keep to a region\<close>

text \<open>
  The heap operations of the messages considered change bytes only: \<open>heap_frame R h h'\<close>
  says that \<open>h'\<close> has the blocks of \<open>h\<close>, and that its valid bytes outside \<open>R\<close> are those of
  \<open>h\<close>. In \<open>ready_heap n R h\<close> the region can be accessed, and the locals of the calls of
  \<open>pb_decode_noinit\<close> with fuel up to \<open>n\<close> are not yet in use.
\<close>

definition heap_frame :: "(addr \<Rightarrow> bool) \<Rightarrow> heap \<Rightarrow> heap \<Rightarrow> bool" where
  "heap_frame R h h' \<longleftrightarrow> (\<exists>m. h' = h\<lparr>hbytes := m\<rparr> \<and> (\<forall>x. hvalid h x \<and> \<not> R x \<longrightarrow> m x = hbytes h x))"

definition ready_heap :: "nat \<Rightarrow> (addr \<Rightarrow> bool) \<Rightarrow> heap \<Rightarrow> bool" where
  "ready_heap n R h \<longleftrightarrow> (\<forall>x. R x \<longrightarrow> hvalid h x) \<and>
     (\<forall>x. fixed_count_addr n \<le> x \<and> x < 0 \<longrightarrow> \<not> hvalid h x)"

abbreviation block :: "addr \<Rightarrow> nat \<Rightarrow> (addr \<Rightarrow> bool) \<Rightarrow> bool" where
  "block a n R \<equiv> (\<forall>x. a \<le> x \<and> x < a + int n \<longrightarrow> R x)"

lemma heap_frame_refl [simp]: "heap_frame R h h"
  by (auto simp: heap_frame_def intro!: exI [of _ "hbytes h"])

lemma heap_frame_trans: "heap_frame R h h1 \<Longrightarrow> heap_frame R h1 h2 \<Longrightarrow> heap_frame R h h2"
  by (auto simp: heap_frame_def)

lemma heap_frame_ready: "heap_frame R h h' \<Longrightarrow> ready_heap n Q h' \<longleftrightarrow> ready_heap n Q h"
  by (auto simp: heap_frame_def ready_heap_def)

lemma ready_block: "ready_heap n R h \<Longrightarrow> block a k R \<Longrightarrow> h_ok h a k"
  by (simp add: ready_heap_def h_ok_iff)

definition keeps :: "nat \<Rightarrow> (addr \<Rightarrow> bool) \<Rightarrow> (heap \<Rightarrow> heap option) \<Rightarrow> bool" where
  "keeps n R g \<longleftrightarrow> (\<forall>h. ready_heap n R h \<longrightarrow> (\<exists>h'. g h = Some h' \<and> heap_frame R h h'))"

lemma keepsI: "(\<And>h. ready_heap n R h \<Longrightarrow> \<exists>h'. g h = Some h' \<and> heap_frame R h h') \<Longrightarrow> keeps n R g"
  by (simp add: keeps_def)

lemma keepsE:
  assumes "keeps n R g" "ready_heap n R h"
  obtains h' where "g h = Some h'" "heap_frame R h h'" "ready_heap n R h'"
  using assms by (auto simp: keeps_def heap_frame_ready)

lemma keeps_same [intro!]: "keeps n R Some"
  by (simp add: keeps_def)

lemma keeps_store:
  assumes "block a (length bs) R" shows "keeps n R (\<lambda>h. h_store h a bs)"
proof (rule keepsI)
  fix h assume "ready_heap n R h"
  then have "h_ok h a (length bs)" using assms by (rule ready_block)
  moreover have "heap_frame R h (h\<lparr>hbytes := put_bytes (hbytes h) a bs\<rparr>)"
    unfolding heap_frame_def
    by (rule exI [of _ "put_bytes (hbytes h) a bs"]) (use assms in \<open>auto simp: put_bytes_def\<close>)
  ultimately show "\<exists>h'. h_store h a bs = Some h' \<and> heap_frame R h h'" by (simp add: h_store_def)
qed

lemma keeps_store_nat: "block a k R \<Longrightarrow> keeps n R (\<lambda>h. h_store_nat k h a v)"
  unfolding h_store_nat_def by (rule keeps_store) simp

lemma keeps_memset: "block a k R \<Longrightarrow> keeps n R (h_memset0 a k)"
  using keeps_store [of a "replicate k 0" R n] by (simp add: h_memset0_def [abs_def])

lemma keeps_bind:
  assumes "keeps n R f" "keeps n R g" shows "keeps n R (\<lambda>h. Option.bind (f h) g)"
proof (rule keepsI)
  fix h assume "ready_heap n R h"
  then obtain h1 where 1: "f h = Some h1" "heap_frame R h h1" "ready_heap n R h1"
    by (rule keepsE [OF assms(1)])
  obtain h2 where "g h1 = Some h2" "heap_frame R h1 h2" by (rule keepsE [OF assms(2) 1(3)])
  with 1 show "\<exists>h'. Option.bind (f h) g = Some h' \<and> heap_frame R h h'"
    by (auto intro: heap_frame_trans)
qed

lemma keeps_if: "(c \<Longrightarrow> keeps n R f) \<Longrightarrow> (\<not> c \<Longrightarrow> keeps n R g) \<Longrightarrow> keeps n R (\<lambda>h. if c then f h else g h)"
  by (cases c) simp_all

lemma keeps_fold_opt: "(\<And>x. x \<in> set xs \<Longrightarrow> keeps n R (f x)) \<Longrightarrow> keeps n R (fold_opt f xs)"
proof (induction xs)
  case (Cons x xs)
  then have "keeps n R (\<lambda>h. Option.bind (f x h) (fold_opt f xs))" by (intro keeps_bind) auto
  then show ?case by (simp add: keeps_def)
qed (simp add: keeps_def)

lemma load_ready:
  assumes "ready_heap n R h" "block a k R"
  shows "h_load_nat k h a = Some (le_nat (rd_bytes (hbytes h) a k))"
  using ready_block [OF assms] by (simp add: h_load_nat_def h_load_def)

text \<open>The contract of a step on the stream and the heap; with \<open>eating\<close> it takes a byte when it succeeds.\<close>

definition safe :: "bool \<Rightarrow> nat \<Rightarrow> (addr \<Rightarrow> bool) \<Rightarrow> 's dstep \<Rightarrow> bool" where
  "safe eating n R f \<longleftrightarrow> (\<forall>s h. in_buffer s \<and> ready_heap n R h \<longrightarrow>
     (\<exists>ok s' h'. f (s, h) = Some (ok, (s', h')) \<and> steady s s' \<and> heap_frame R h h' \<and>
        (eating \<and> ok \<longrightarrow> bytes_left s' < bytes_left s)))"

lemma safeI:
  "(\<And>s h. in_buffer s \<Longrightarrow> ready_heap n R h \<Longrightarrow>
      \<exists>ok s' h'. f (s, h) = Some (ok, (s', h')) \<and> steady s s' \<and> heap_frame R h h' \<and>
        (eating \<and> ok \<longrightarrow> bytes_left s' < bytes_left s)) \<Longrightarrow> safe eating n R f"
  by (simp add: safe_def)

lemma safeE:
  assumes "safe eating n R f" "in_buffer s" "ready_heap n R h"
  obtains ok s' h' where "f (s, h) = Some (ok, (s', h'))" "steady s s'" "heap_frame R h h'"
    "in_buffer s'" "ready_heap n R h'" "eating \<and> ok \<longrightarrow> bytes_left s' < bytes_left s"
proof -
  from assms obtain ok s' h' where *: "f (s, h) = Some (ok, (s', h'))" "steady s s'" "heap_frame R h h'"
    "eating \<and> ok \<longrightarrow> bytes_left s' < bytes_left s" unfolding safe_def by blast
  moreover have "in_buffer s'" using assms(2) *(2) by (rule steady_in_buffer)
  moreover have "ready_heap n R h'" using assms(3) *(3) by (simp add: heap_frame_ready)
  ultimately show thesis using that by blast
qed

lemma safe_weaken: "safe True n R f \<Longrightarrow> safe e n R f"
  by (auto simp: safe_def) (metis prod.inject option.inject)

lemma safe_ret [intro]: "safe False n R (ret b)"
  by (auto simp: safe_def ret_def steady_refl)

lemma safe_error [intro]: "safe e n R (dec_error msg)"
  by (auto simp: safe_def dec_error_def steady_refl)

lemma safe_if: "(c \<Longrightarrow> safe e n R f) \<Longrightarrow> (\<not> c \<Longrightarrow> safe e n R g) \<Longrightarrow> safe e n R (if c then f else g)"
  by simp

lemma safe_do_heap [intro]:
  assumes "keeps n R g" shows "safe False n R (do_heap g)"
proof (rule safeI)
  fix s :: "'a pb_istream" and h assume "in_buffer s" "ready_heap n R h"
  from this(2) obtain h' where "g h = Some h'" "heap_frame R h h'" by (rule keepsE [OF assms])
  with \<open>in_buffer s\<close> show "\<exists>ok s' h'. do_heap g (s, h) = Some (ok, (s', h')) \<and> steady s s' \<and>
      heap_frame R h h' \<and> (False \<and> ok \<longrightarrow> bytes_left s' < bytes_left s)"
    by (auto simp: do_heap_def steady_refl)
qed

lemma safe_do_store [intro]: "block a k R \<Longrightarrow> safe False n R (do_store k a v)"
  unfolding do_store_def by (intro safe_do_heap keeps_store_nat)

lemma safe_and_then_gen:
  assumes "safe d n R f" "safe e n R g"
  shows "safe (d \<or> e) n R (and_then f g)"
proof (rule safeI)
  fix s :: "'a pb_istream" and h assume "in_buffer s" "ready_heap n R h"
  then obtain ok s1 h1 where 1: "f (s, h) = Some (ok, (s1, h1))" "steady s s1" "heap_frame R h h1"
    "in_buffer s1" "ready_heap n R h1" "d \<and> ok \<longrightarrow> bytes_left s1 < bytes_left s"
    by (rule safeE [OF assms(1)])
  show "\<exists>ok s' h'. and_then f g (s, h) = Some (ok, (s', h')) \<and> steady s s' \<and>
      heap_frame R h h' \<and> ((d \<or> e) \<and> ok \<longrightarrow> bytes_left s' < bytes_left s)"
  proof (cases ok)
    case True
    from 1(4,5) obtain ok' s2 h2 where 2: "g (s1, h1) = Some (ok', (s2, h2))" "steady s1 s2"
      "heap_frame R h1 h2" "e \<and> ok' \<longrightarrow> bytes_left s2 < bytes_left s1"
      by (rule safeE [OF assms(2)])
    have "bytes_left s2 < bytes_left s" if "(d \<or> e) \<and> ok'"
      using that 1(6) 2(4) True steady_left [OF 1(2)] steady_left [OF 2(2)] by auto
    with 1 2 True show ?thesis by (auto intro: steady_trans heap_frame_trans)
  qed (use 1 in auto)
qed

lemmas safe_and_then = safe_and_then_gen [where d = False and e = False, simplified]

lemma safe_with_value:
  assumes "reads r" "\<And>v. safe False n R (k v)"
  shows "safe False n R (with_value r k)"
proof (rule safeI)
  fix s :: "'a pb_istream" and h assume b: "in_buffer s" and h: "ready_heap n R h"
  from assms(1) b obtain v s1 where 1: "r s = Some (v, s1)" "steady s s1" "in_buffer s1" by (rule readsE)
  show "\<exists>ok s' h'. with_value r k (s, h) = Some (ok, (s', h')) \<and> steady s s' \<and> heap_frame R h h' \<and>
      (False \<and> ok \<longrightarrow> bytes_left s' < bytes_left s)"
  proof (cases v)
    case (Some a)
    from 1(3) h obtain ok s2 h2 where "k a (s1, h) = Some (ok, (s2, h2))" "steady s1 s2" "heap_frame R h h2"
      by (rule safeE [OF assms(2)])
    with 1 Some show ?thesis by (auto simp: with_value_def intro: steady_trans)
  qed (use 1 in \<open>auto simp: with_value_def\<close>)
qed

lemma safe_with_value_eats:
  assumes "eats r" "\<And>v. safe False n R (k v)"
  shows "safe e n R (with_value r k)"
proof (rule safe_weaken, rule safeI)
  fix s :: "'a pb_istream" and h assume b: "in_buffer s" and h: "ready_heap n R h"
  from assms(1) b obtain v s1 where 1: "r s = Some (v, s1)" "steady s s1" "in_buffer s1"
    "v \<noteq> None \<longrightarrow> bytes_left s1 < bytes_left s" by (rule eatsE)
  show "\<exists>ok s' h'. with_value r k (s, h) = Some (ok, (s', h')) \<and> steady s s' \<and> heap_frame R h h' \<and>
      (True \<and> ok \<longrightarrow> bytes_left s' < bytes_left s)"
  proof (cases v)
    case (Some a)
    from 1(3) h obtain ok s2 h2 where 2: "k a (s1, h) = Some (ok, (s2, h2))" "steady s1 s2" "heap_frame R h h2"
      by (rule safeE [OF assms(2)])
    have "bytes_left s2 < bytes_left s" using 1(4) Some steady_left [OF 2(2)] by simp
    with 1 2 Some show ?thesis by (auto simp: with_value_def intro: steady_trans)
  qed (use 1 in \<open>auto simp: with_value_def\<close>)
qed

lemma safe_with_load:
  assumes "block a k R" "\<And>v. safe e n R (f v)"
  shows "safe e n R (with_load k a f)"
proof (rule safeI)
  fix s :: "'a pb_istream" and h assume b: "in_buffer s" and h: "ready_heap n R h"
  from b h obtain ok s' h' where "f (le_nat (rd_bytes (hbytes h) a k)) (s, h) = Some (ok, (s', h'))"
    "steady s s'" "heap_frame R h h'" "e \<and> ok \<longrightarrow> bytes_left s' < bytes_left s"
    by (rule safeE [OF assms(2)])
  then show "\<exists>ok s' h'. with_load k a f (s, h) = Some (ok, (s', h')) \<and> steady s s' \<and> heap_frame R h h' \<and>
      (e \<and> ok \<longrightarrow> bytes_left s' < bytes_left s)"
    using load_ready [OF h assms(1)] by (auto simp: with_load_def)
qed

section \<open>Field decoders\<close>

lemma block_sub: "block a k R \<Longrightarrow> a \<le> b \<Longrightarrow> b + int j \<le> a + int k \<Longrightarrow> block b j R"
  by auto

lemma safe_read_heap:
  assumes "block dest (unat count) R" shows "safe False n R (pb_read_heap dest count)"
proof (rule safeI)
  fix s :: "'a pb_istream" and h assume b: "in_buffer s" and h: "ready_heap n R h"
  show "\<exists>ok s' h'. pb_read_heap dest count (s, h) = Some (ok, (s', h')) \<and> steady s s' \<and> heap_frame R h h' \<and>
      (False \<and> ok \<longrightarrow> bytes_left s' < bytes_left s)"
  proof (cases "dest = 0")
    case True
    have "safe False n R (with_value (pb_read_null count) (\<lambda>_. ret True) :: 'a dstep)"
      by (intro safe_with_value) auto
    with b h True show ?thesis unfolding safe_def pb_read_heap_def by simp
  next
    case False
    from pb_read_steady [OF b, of count] obtain ok bs s' where
      r: "pb_read count s = Some (ok, bs, s')" "steady s s'" "length bs \<le> unat count" by blast
    have "block dest (length bs) R" using assms by (rule block_sub) (use r(3) in linarith)+
    then have "keeps n R (\<lambda>h. h_store h dest bs)" by (rule keeps_store)
    from keepsE [OF this h] False r show ?thesis by (auto simp: pb_read_heap_def)
  qed
qed

lemma safe_keep_status:
  assumes "safe e n R f" "safe False n R g" shows "safe e n R (keep_status f g)"
proof (rule safeI)
  fix s :: "'a pb_istream" and h assume "in_buffer s" "ready_heap n R h"
  then obtain ok s1 h1 where 1: "f (s, h) = Some (ok, (s1, h1))" "steady s s1" "heap_frame R h h1"
    "in_buffer s1" "ready_heap n R h1" "e \<and> ok \<longrightarrow> bytes_left s1 < bytes_left s"
    by (rule safeE [OF assms(1)])
  from 1(4,5) obtain ok' s2 h2 where 2: "g (s1, h1) = Some (ok', (s2, h2))" "steady s1 s2"
    "heap_frame R h1 h2" by (rule safeE [OF assms(2)])
  have "bytes_left s2 < bytes_left s" if "e \<and> ok"
    using that 1(6) steady_left [OF 2(2)] by auto
  with 1 2 show "\<exists>ok s' h'. keep_status f g (s, h) = Some (ok, (s', h')) \<and> steady s s' \<and>
      heap_frame R h h' \<and> (e \<and> ok \<longrightarrow> bytes_left s' < bytes_left s)"
    by (auto simp: keep_status_def intro: steady_trans heap_frame_trans)
qed

lemma safe_checked:
  assumes "block dest k R"
  shows "safe False n R (and_then (do_store k dest v) (if c then dec_error msg else ret True))"
  using assms by (intro safe_and_then safe_do_store safe_if) auto

text \<open>The sizes that the decoder of the type relies on, for a field with \<open>data_size\<close> bytes at \<open>dest\<close>.\<close>

definition scalar_fits :: "pb_field \<Rightarrow> bool" where
  "scalar_fits f \<longleftrightarrow> (let lt = PB_LTYPE (pf_type f) in
     (lt = PB_LTYPE_BOOL \<longrightarrow> 1 \<le> unat (data_size f)) \<and>
     (lt = PB_LTYPE_FIXED32 \<longrightarrow> 4 \<le> unat (data_size f)) \<and>
     (lt = PB_LTYPE_FIXED64 \<longrightarrow> 8 \<le> unat (data_size f)))"

lemma safe_dec_bool: "block dest 1 R \<Longrightarrow> safe e n R (pb_dec_bool f dest)"
  unfolding pb_dec_bool_def by (intro safe_with_value_eats safe_do_store) auto

lemma safe_dec_varints:
  assumes "block dest (unat (data_size f)) R"
  shows "safe e n R (pb_dec_varint f dest)" "safe e n R (pb_dec_uvarint f dest)" "safe e n R (pb_dec_svarint f dest)"
  unfolding pb_dec_varint_def pb_dec_uvarint_def pb_dec_svarint_def Let_def
  by (intro safe_with_value_eats pb_decode_varint_eats pb_decode_svarint_eats safe_if safe_do_store
      safe_checked safe_error; use assms in simp)+

lemma safe_dec_fixed32: "block dest 4 R \<Longrightarrow> safe e n R (pb_dec_fixed32 f dest)"
  unfolding pb_dec_fixed32_def by (intro safe_with_value_eats safe_do_store) auto

lemma safe_dec_fixed64: "block dest 8 R \<Longrightarrow> safe e n R (pb_dec_fixed64 f dest)"
  unfolding pb_dec_fixed64_def by (intro safe_with_value_eats safe_do_store) auto

lemma safe_dec_bytes:
  assumes "block dest (unat (data_size f)) R" "PB_ATYPE (pf_type f) = PB_ATYPE_STATIC"
  shows "safe e n R (pb_dec_bytes f dest)"
  unfolding pb_dec_bytes_def Let_def
proof (intro safe_with_value_eats pb_decode_varint32_eats safe_if safe_error)
  fix sz :: u32
  assume "\<not> ucast sz + 4 > (ucast (data_size f) :: u64)"
  moreover have "unat (ucast sz + 4 :: u64) = unat sz + 4"
    using unat_u32_less [of sz] by (simp add: unat_word_ariths)
  ultimately have sz: "unat sz + 4 \<le> unat (data_size f)" by (simp add: word_less_nat_alt not_less)
  have "block dest 4 R"
    by (rule block_sub [OF assms(1)]) (use sz in linarith)+
  moreover have "block (dest + 4) (unat sz) R"
    by (rule block_sub [OF assms(1)]) (use sz in linarith)+
  ultimately show "safe False n R (and_then (do_store 4 dest (unat sz)) (pb_read_heap (dest + 4) (ucast sz)))"
    by (intro safe_and_then safe_do_store safe_read_heap) simp_all
qed (use assms in simp_all)

lemma safe_dec_string:
  assumes "block dest (unat (data_size f)) R" "PB_ATYPE (pf_type f) = PB_ATYPE_STATIC"
  shows "safe e n R (pb_dec_string f dest)"
  unfolding pb_dec_string_def Let_def
proof (intro safe_with_value_eats pb_decode_varint32_eats safe_if safe_error)
  fix sz :: u32
  assume no: "\<not> (ucast (sz + 1) :: u64) < ucast sz" and le: "\<not> ucast (sz + 1) > (ucast (data_size f) :: u64)"
  have "unat (sz + 1) = unat sz + 1"
  proof -
    have "unat (sz + 1) = (unat sz + 1) mod 2 ^ 32" by (simp add: unat_word_ariths)
    moreover have "unat sz \<le> unat (sz + 1)" using no by (simp add: word_less_nat_alt not_less)
    moreover have "unat sz + 1 = 2 ^ 32" if "\<not> unat sz + 1 < 2 ^ 32"
      using that unat_u32_less [of sz] by simp
    ultimately show ?thesis by (cases "unat sz + 1 < 2 ^ 32") auto
  qed
  with le have sz: "unat sz + 1 \<le> unat (data_size f)" by (simp add: word_less_nat_alt not_less)
  show "safe False n R (keep_status (pb_read_heap dest (ucast sz)) (do_store 1 (dest + uint sz) 0))"
  proof (intro safe_keep_status safe_do_store safe_read_heap)
    have "int (unat sz) + 1 \<le> int (unat (data_size f))" using sz by linarith
    then show "block dest (unat (ucast sz :: u64)) R" "block (dest + uint sz) 1 R"
      using assms(1) by auto
  qed
qed (use assms in simp_all)

lemma safe_dec_fixed_bytes:
  assumes "block dest (unat (data_size f)) R"
  shows "safe e n R (pb_dec_fixed_length_bytes f dest)"
  unfolding pb_dec_fixed_length_bytes_def
  by (intro safe_with_value_eats pb_decode_varint32_eats safe_if safe_error safe_do_heap keeps_memset
      safe_read_heap) (use assms in auto)

section \<open>Messages with static fields\<close>

text \<open>
  What the descriptors must say: every field is static and no extension, its size suits
  its type, arrays are smaller than \<open>2 ^ 32\<close> bytes, a submessage field names descriptors
  that fit its size, and a default value is long enough.
\<close>

definition static_desc :: "(nat \<Rightarrow> pb_fields \<Rightarrow> bool) \<Rightarrow> (nat \<Rightarrow> pb_fields) \<Rightarrow> pb_field \<Rightarrow> bool" where
  "static_desc sub ds f \<longleftrightarrow> (let lt = PB_LTYPE (pf_type f) in
     PB_ATYPE (pf_type f) = PB_ATYPE_STATIC \<and> lt \<noteq> PB_LTYPE_EXTENSION \<and> lt \<le> 0x0A \<and> scalar_fits f \<and>
     unat (data_size f) * unat (array_size f) < 2 ^ 32 \<and>
     (case pf_ptr f of
        PNull \<Rightarrow> lt \<noteq> PB_LTYPE_SUBMESSAGE
      | PFields k \<Rightarrow> lt = PB_LTYPE_SUBMESSAGE \<and> sub (unat (data_size f)) (ds k)
      | PData bs \<Rightarrow> lt \<noteq> PB_LTYPE_SUBMESSAGE \<and> unat (data_size f) \<le> length bs))"

definition field_bytes :: "pb_field \<Rightarrow> nat" where
  "field_bytes f = unat (data_size f) *
     (if PB_HTYPE (pf_type f) = PB_HTYPE_REPEATED then unat (array_size f) else 1)"

definition size_bytes :: "pb_field_iter \<Rightarrow> nat" where
  "size_bytes it = (let ht = PB_HTYPE (pf_type (it_field it)) in
     if ht = PB_HTYPE_OPTIONAL \<and> it_size it \<noteq> it_data it then 1
     else if ht = PB_HTYPE_REPEATED \<or> ht = PB_HTYPE_ONEOF then 4 else 0)"

definition in_struct :: "nat \<Rightarrow> pb_field_iter \<Rightarrow> bool" where
  "in_struct sz it \<longleftrightarrow>
     0 \<le> it_data it \<and> it_data it + int (field_bytes (it_field it)) \<le> int sz \<and>
     (size_bytes it = 0 \<or> 0 \<le> it_size it \<and> it_size it + int (size_bytes it) \<le> int sz)"

text \<open>
  A struct of \<open>sz\<close> bytes holds the message, whose submessages nest less than \<open>n\<close> deep;
  \<open>iter_at fs 0\<close> are the offsets of the fields.
\<close>

primrec fits :: "nat \<Rightarrow> (nat \<Rightarrow> pb_fields) \<Rightarrow> nat \<Rightarrow> pb_fields \<Rightarrow> bool" where
  "fits 0 ds sz fs = False"
| "fits (Suc n) ds sz fs \<longleftrightarrow> fs \<noteq> [] \<and> wf_fields fs \<and> list_all (static_desc (fits n ds) ds) fs \<and>
     list_all (\<lambda>i. in_struct sz (iter_at fs 0 i)) [0..<length fs]"

definition in_region :: "(addr \<Rightarrow> bool) \<Rightarrow> pb_field_iter \<Rightarrow> bool" where
  "in_region R it \<longleftrightarrow> block (it_data it) (field_bytes (it_field it)) R \<and> block (it_size it) (size_bytes it) R"

definition shift :: "addr \<Rightarrow> pb_field_iter \<Rightarrow> pb_field_iter" where
  "shift d it = it\<lparr>dest_struct := dest_struct it + d, it_data := it_data it + d, it_size := it_size it + d\<rparr>"

lemma shift_simps [simp]:
  "it_start (shift d it) = it_start it" "it_pos (shift d it) = it_pos it"
  "it_data (shift d it) = it_data it + d" "it_size (shift d it) = it_size it + d"
  by (simp_all add: shift_def)

lemma next_shift: "snd (pb_field_iter_next (shift d it)) = shift d (snd (pb_field_iter_next it))"
  by (simp add: pb_field_iter_next_def pb_field_iter_begin_def Let_def shift_def cong: if_cong)

lemma iter_at_shift: "iter_at fs dest i = shift dest (iter_at fs 0 i)"
proof (induction i)
  case 0
  show ?case by (simp add: pb_field_iter_begin_def shift_def Let_def)
next
  case (Suc i)
  show ?case by (simp only: iter_at.simps Suc next_shift)
qed

lemma in_struct_region:
  assumes "in_struct sz (iter_at fs 0 i)" "block dest sz R"
  shows "in_region R (iter_at fs dest i)"
proof -
  have "size_bytes (shift dest (iter_at fs 0 i)) = size_bytes (iter_at fs 0 i)"
    by (simp add: size_bytes_def)
  with assms show ?thesis
    unfolding in_struct_def in_region_def iter_at_shift [of fs dest] by auto
qed

lemma fits_field:
  assumes "fits (Suc n) ds sz fs" "i < length fs" "block dest sz R"
  shows "in_region R (iter_at fs dest i)" "it_field (iter_at fs dest i) = fs ! i"
    "static_desc (fits n ds) ds (fs ! i)"
proof -
  from assms have *: "wf_fields fs" "in_struct sz (iter_at fs 0 i)" "static_desc (fits n ds) ds (fs ! i)"
    by (auto simp: list_all_iff)
  show "in_region R (iter_at fs dest i)" by (rule in_struct_region [OF *(2) assms(3)])
  show "it_field (iter_at fs dest i) = fs ! i"
    using *(1) assms(2) by (simp add: it_pos_iter_at field_at_in)
qed (use assms in \<open>auto simp: list_all_iff\<close>)

lemma each_field_eq:
  "wf_fields fs \<Longrightarrow> fs \<noteq> [] \<Longrightarrow>
   each_field f fs dest h = fold_opt f (map (iter_at fs dest) [0..<length fs]) h"
  using iter_states_iter_at [of fs 0 dest]
  by (simp add: each_field_def case_prod_beta wf_fields_tag)

lemma keeps_each_field:
  assumes "fits (Suc n) ds sz fs" "block dest sz R"
    and "\<And>it. in_region R it \<Longrightarrow> static_desc (fits n ds) ds (it_field it) \<Longrightarrow> keeps m R (f it)"
  shows "keeps m R (each_field f fs dest)"
proof -
  have "keeps m R (fold_opt f (map (iter_at fs dest) [0..<length fs]))"
    using assms fits_field [OF assms(1) _ assms(2)] by (intro keeps_fold_opt) auto
  moreover have "each_field f fs dest = fold_opt f (map (iter_at fs dest) [0..<length fs])"
    using assms(1) by (intro ext each_field_eq) auto
  ultimately show ?thesis by simp
qed

text \<open>Setting default values.\<close>

lemma keeps_default_step:
  assumes reg: "in_region R it" and desc: "static_desc sub (d_descs env) (it_field it)"
    and sub: "\<And>k. pf_ptr (it_field it) = PFields k \<Longrightarrow> sub (unat (data_size (it_field it))) (d_descs env k) \<Longrightarrow>
      block (it_data it) (unat (data_size (it_field it))) R \<Longrightarrow>
      keeps m R (each_field (pb_field_set_to_default n env) (d_descs env k) (it_data it))"
  shows "keeps m R (pb_field_set_to_default (Suc n) env it)"
proof -
  let ?f = "it_field it" let ?t = "pf_type (it_field it)"
  have st: "PB_LTYPE ?t \<noteq> PB_LTYPE_EXTENSION" "PB_ATYPE ?t = PB_ATYPE_STATIC"
    using desc by (auto simp: static_desc_def Let_def)
  define init where "init = (\<lambda>h.
      if PB_LTYPE ?t = PB_LTYPE_SUBMESSAGE then
        (case pf_ptr ?f of
           PFields k \<Rightarrow> each_field (pb_field_set_to_default n env) (d_descs env k) (it_data it) h
         | _ \<Rightarrow> None)
      else (case pf_ptr ?f of
          PNull \<Rightarrow> h_memset0 (it_data it) (unat (data_size ?f)) h
        | PData bs \<Rightarrow>
            if unat (data_size ?f) \<le> length bs
            then h_store h (it_data it) (take (unat (data_size ?f)) bs) else None
        | PFields k \<Rightarrow> None))"
  have init: "keeps m R init" if "PB_HTYPE ?t \<noteq> PB_HTYPE_REPEATED"
  proof -
    have b: "block (it_data it) (unat (data_size ?f)) R"
      using reg that by (simp add: in_region_def field_bytes_def)
    show ?thesis
    proof (cases "pf_ptr ?f")
      case PNull
      with desc have "init = h_memset0 (it_data it) (unat (data_size ?f))"
        by (auto simp: init_def static_desc_def Let_def)
      with b show ?thesis by (simp add: keeps_memset)
    next
      case (PFields k)
      with desc have "init = each_field (pb_field_set_to_default n env) (d_descs env k) (it_data it)"
        "sub (unat (data_size ?f)) (d_descs env k)"
        by (auto simp: init_def static_desc_def Let_def)
      with sub PFields b show ?thesis by simp
    next
      case (PData bs)
      with desc have "init = (\<lambda>h. h_store h (it_data it) (take (unat (data_size ?f)) bs))"
        "unat (data_size ?f) \<le> length bs"
        by (auto simp: init_def static_desc_def Let_def)
      with b show ?thesis by (simp add: keeps_store min_absorb2)
    qed
  qed
  have "pb_field_set_to_default (Suc n) env it = (\<lambda>h.
      if PB_HTYPE ?t = PB_HTYPE_OPTIONAL \<and> it_size it \<noteq> it_data it
      then Option.bind (h_store_nat 1 h (it_size it) 0) init
      else if PB_HTYPE ?t = PB_HTYPE_REPEATED \<or> PB_HTYPE ?t = PB_HTYPE_ONEOF
      then h_store_nat 4 h (it_size it) 0
      else init h)"
    by (rule ext) (simp add: pb_field_set_to_default.simps(2) st init_def Let_def)
  moreover have "block (it_size it) (size_bytes it) R" using reg by (simp add: in_region_def)
  ultimately show ?thesis
    by (simp only:) (intro keeps_if keeps_bind keeps_store_nat init; auto simp: size_bytes_def Let_def)
qed

lemma keeps_set_to_default:
  "in_region R it \<Longrightarrow> static_desc (fits n (d_descs env)) (d_descs env) (it_field it) \<Longrightarrow>
   keeps m R (pb_field_set_to_default (Suc n) env it)"
proof (induction n arbitrary: it)
  case 0
  show ?case by (rule keeps_default_step [OF "0.prems"]) simp
next
  case (Suc n)
  show ?case
    by (rule keeps_default_step [OF Suc.prems], rule keeps_each_field [OF _ _ Suc.IH]) auto
qed

lemma keeps_message_defaults:
  assumes "fits n (d_descs env) sz fs" "block dest sz R"
  shows "keeps m R (pb_message_set_to_defaults n env fs dest)"
proof (cases n)
  case (Suc k)
  with assms show ?thesis unfolding pb_message_set_to_defaults_def Suc
    by (intro keeps_each_field [of k "d_descs env" sz] keeps_set_to_default) auto
qed (use assms in simp)

text \<open>Releasing: without pointer fields nothing is freed and the struct stays as it is.\<close>

lemma block_item:
  assumes "block a (w * c) R" "i < c"
  shows "block (a + int i * int w) w R"
proof (rule block_sub [OF assms(1)])
  have "Suc i * w \<le> c * w" using assms(2) by (intro mult_le_mono1) simp
  then have "int (Suc i * w) \<le> int (c * w)" by (simp only: of_nat_le_iff)
  then show "a + int i * int w + int w \<le> a + int (w * c)" by (simp add: algebra_simps)
qed simp

lemma keeps_release_step:
  assumes reg: "in_region R it" and desc: "static_desc sub (d_descs env) (it_field it)"
    and sub: "\<And>k p. pf_ptr (it_field it) = PFields k \<Longrightarrow> sub (unat (data_size (it_field it))) (d_descs env k) \<Longrightarrow>
      block p (unat (data_size (it_field it))) R \<Longrightarrow>
      keeps m R (each_field (pb_release_single_field n env) (d_descs env k) p)"
  shows "keeps m R (pb_release_single_field (Suc n) env it)"
proof (rule keepsI)
  fix h assume h: "ready_heap m R h"
  let ?f = "it_field it" let ?t = "pf_type (it_field it)" and ?w = "unat (data_size (it_field it))"
  have st: "PB_LTYPE ?t \<noteq> PB_LTYPE_EXTENSION" "PB_ATYPE ?t = PB_ATYPE_STATIC"
    using desc by (auto simp: static_desc_def Let_def)
  have data: "block (it_data it) (field_bytes ?f) R" and sz: "block (it_size it) (size_bytes it) R"
    using reg by (auto simp: in_region_def)
  have ld: "\<exists>v. h_load_u32 h (it_size it) = Some v"
    if "PB_HTYPE ?t = PB_HTYPE_REPEATED \<or> PB_HTYPE ?t = PB_HTYPE_ONEOF"
  proof -
    from that have "size_bytes it = 4" by (auto simp: size_bytes_def Let_def)
    with load_ready [OF h] sz show ?thesis by (simp add: h_load_u32_def)
  qed
  have items: "\<exists>h'. fold_opt (\<lambda>p h. if p = 0 then Some h
         else each_field (pb_release_single_field n env) (d_descs env k) p h)
       (map (\<lambda>i. it_data it + int i * uint (data_size ?f)) [0..<unat c]) h = Some h' \<and> heap_frame R h h'"
    if "pf_ptr ?f = PFields k" "sub ?w (d_descs env k)"
      "unat c \<le> (if PB_HTYPE ?t = PB_HTYPE_REPEATED then unat (array_size ?f) else 1)" for k and c :: u32
  proof -
    have "keeps m R (fold_opt (\<lambda>p h. if p = 0 then Some h
         else each_field (pb_release_single_field n env) (d_descs env k) p h)
       (map (\<lambda>i. it_data it + int i * uint (data_size ?f)) [0..<unat c]))"
    proof (intro keeps_fold_opt keeps_if keeps_same sub that)
      fix p assume "p \<in> set (map (\<lambda>i. it_data it + int i * uint (data_size ?f)) [0..<unat c])"
      then obtain i where i: "i < unat c" "p = it_data it + int i * int ?w" by auto
      show "block p ?w R" unfolding i(2)
        by (rule block_item [OF data [unfolded field_bytes_def]]) (use i that(3) in linarith)
    qed
    with h show ?thesis by (auto elim: keepsE)
  qed
  define inside where "inside = (if PB_LTYPE ?t = PB_LTYPE_SUBMESSAGE then do {
       count \<leftarrow> (if PB_HTYPE ?t = PB_HTYPE_REPEATED then
                   if it_size it = it_data it then Some (array_size ?f)
                   else map_option (\<lambda>c. if c > array_size ?f then array_size ?f else c) (h_load_u32 h (it_size it))
                 else Some 1);
       if it_data it \<noteq> 0 then (case pf_ptr ?f of
           PFields k \<Rightarrow> fold_opt (\<lambda>p h. if p = 0 then Some h
               else each_field (pb_release_single_field n env) (d_descs env k) p h)
             (map (\<lambda>i. it_data it + int i * uint (data_size ?f)) [0..<unat count]) h
         | _ \<Rightarrow> if count = 0 then Some h else None)
       else Some h } else Some h)"
  have "\<exists>h'. inside = Some h' \<and> heap_frame R h h'"
  proof (cases "PB_LTYPE ?t = PB_LTYPE_SUBMESSAGE")
    case True
    then obtain k where k: "pf_ptr ?f = PFields k" "sub ?w (d_descs env k)"
      using desc by (auto simp: static_desc_def Let_def split: pb_ptr.splits)
    have "\<exists>c :: u32. (if PB_HTYPE ?t = PB_HTYPE_REPEATED then
           if it_size it = it_data it then Some (array_size ?f)
           else map_option (\<lambda>c. if c > array_size ?f then array_size ?f else c) (h_load_u32 h (it_size it))
         else Some 1) = Some c \<and>
      unat c \<le> (if PB_HTYPE ?t = PB_HTYPE_REPEATED then unat (array_size ?f) else 1)"
    proof (cases "PB_HTYPE ?t = PB_HTYPE_REPEATED")
      case True
      with ld obtain v where "h_load_u32 h (it_size it) = Some v" by blast
      with True show ?thesis by (simp add: word_le_nat_alt [symmetric] not_less)
    qed simp
    then obtain c :: u32 where "(if PB_HTYPE ?t = PB_HTYPE_REPEATED then
           if it_size it = it_data it then Some (array_size ?f)
           else map_option (\<lambda>c. if c > array_size ?f then array_size ?f else c) (h_load_u32 h (it_size it))
         else Some 1) = Some c"
      "unat c \<le> (if PB_HTYPE ?t = PB_HTYPE_REPEATED then unat (array_size ?f) else 1)" by blast
    with True k items [OF k, of c] show ?thesis by (simp add: inside_def)
  qed (simp add: inside_def)
  moreover have "pb_release_single_field (Suc n) env it h = (if PB_HTYPE ?t = PB_HTYPE_ONEOF then do {
       which \<leftarrow> h_load_u32 h (it_size it);
       if which \<noteq> pf_tag ?f then Some h else inside } else inside)"
    by (simp add: pb_release_single_field.simps(2) st inside_def Let_def cong: if_cong)
  ultimately show "\<exists>h'. pb_release_single_field (Suc n) env it h = Some h' \<and> heap_frame R h h'"
    using ld by auto
qed

lemma keeps_release_single:
  "in_region R it \<Longrightarrow> static_desc (fits n (d_descs env)) (d_descs env) (it_field it) \<Longrightarrow>
   keeps m R (pb_release_single_field (Suc n) env it)"
proof (induction n arbitrary: it)
  case 0
  show ?case by (rule keeps_release_step [OF "0.prems"]) simp
next
  case (Suc n)
  show ?case
    by (rule keeps_release_step [OF Suc.prems], rule keeps_each_field [OF _ _ Suc.IH]) auto
qed

lemma keeps_release:
  assumes "fits n (d_descs env) sz fs" "block dest sz R"
  shows "keeps m R (pb_release n env fs dest)"
proof (cases n)
  case (Suc k)
  with assms have "keeps m R (each_field (pb_release_single_field n env) fs dest)" unfolding Suc
    by (intro keeps_each_field [of k "d_descs env" sz] keeps_release_single) auto
  then show ?thesis by (simp add: pb_release_def [abs_def] keeps_def)
qed (use assms in simp)

lemma fits_mono: "fits n ds sz fs \<Longrightarrow> fits (Suc n) ds sz fs"
proof (induction n arbitrary: sz fs)
  case (Suc n)
  have "static_desc (fits (Suc n) ds) ds f" if "static_desc (fits n ds) ds f" for f
    using that Suc.IH unfolding static_desc_def by (auto simp: Let_def split: pb_ptr.splits simp del: fits.simps)
  with Suc.prems show ?case unfolding fits.simps(2) by (auto simp: list_all_iff)
qed simp

section \<open>Substreams\<close>

lemma make_substream_steady:
  assumes "in_buffer s"
  shows "\<exists>v s1. pb_make_string_substream s = Some (v, s1) \<and> steady s s1 \<and>
    (\<forall>sub. v = Some sub \<longrightarrow> in_buffer sub \<and> bytes_left s1 < bytes_left s \<and>
       (\<forall>sub'. steady sub sub' \<longrightarrow> (\<exists>w s2. pb_close_string_substream sub' s1 = Some (w, s2) \<and>
          steady s s2 \<and> bytes_left s2 < bytes_left s)))"
proof -
  obtain v t where rd: "pb_decode_varint32 s = Some (v, t)" "steady s t" "in_buffer t"
    "v \<noteq> None \<longrightarrow> bytes_left t < bytes_left s"
    by (rule eatsE [OF pb_decode_varint32_eats assms])
  show ?thesis
  proof (cases "v = None \<or> (\<exists>sz. v = Some sz \<and> bytes_left t < ucast sz)")
    case True
    with rd show ?thesis by (auto simp: pb_make_string_substream_def rd_then_def rd_error_def)
  next
    case False
    then obtain sz where sz: "v = Some sz" "ucast sz \<le> bytes_left t" by (auto simp: not_less)
    obtain bs where bs: "is_source t = buf_read bs" "unat (bytes_left t) \<le> length bs"
      using rd(3) by (elim in_bufferE)
    define sub where "sub = t\<lparr>bytes_left := ucast sz\<rparr>"
    define s1 where "s1 = t\<lparr>bytes_left := bytes_left t - ucast sz\<rparr>"
    have mk: "pb_make_string_substream s = Some (Some sub, s1)"
      using rd sz leD [OF sz(2)] by (simp add: pb_make_string_substream_def rd_then_def sub_def s1_def)
    have le: "unat sz \<le> unat (bytes_left t)" using sz(2) by (simp add: word_le_nat_alt)
    have u1: "unat (bytes_left s1) = unat (bytes_left t) - unat sz"
      using unat_sub [OF sz(2)] by (simp add: s1_def)
    have us: "unat (bytes_left sub) = unat sz" by (simp add: sub_def)
    have src: "is_source sub = buf_read bs" "is_source s1 = buf_read bs" by (simp_all add: sub_def s1_def bs)
    have "in_buffer sub" using le bs src us by (simp add: in_buffer_def)
    moreover have t1: "steady t s1"
      using bs src le u1 by (intro steadyI [of _ bs _ bs]) (auto simp: word_le_nat_alt)
    moreover have lt: "bytes_left s1 < bytes_left s"
      using rd(4) sz(1) steady_left [OF t1] by simp
    moreover have "\<exists>w s2. pb_close_string_substream sub' s1 = Some (w, s2) \<and> steady s s2 \<and>
        bytes_left s2 < bytes_left s" if st: "steady sub sub'" for sub'
    proof -
      have b': "in_buffer sub'" using \<open>in_buffer sub\<close> st by (rule steady_in_buffer)
      obtain w0 t0 where "pb_read_null (bytes_left sub') sub' = Some (w0, t0)" "steady sub' t0"
        by (rule readsE [OF pb_read_null_reads b'])
      then have "\<exists>w sub2. (if bytes_left sub' \<noteq> 0 then pb_read_null (bytes_left sub') sub'
            else Some (Some (), sub')) = Some (w, sub2) \<and> steady sub' sub2"
        using steady_refl [OF b'] by auto
      then obtain w sub2 where c: "(if bytes_left sub' \<noteq> 0 then pb_read_null (bytes_left sub') sub'
            else Some (Some (), sub')) = Some (w, sub2)" "steady sub' sub2" by blast
      show ?thesis
      proof (cases w)
        case None
        with c lt t1 rd show ?thesis
          by (auto simp: pb_close_string_substream_def intro: steady_trans)
      next
        case (Some u)
        have "unat (bytes_left sub2) = 0"
          using c(1) Some pb_read_null_exact [OF b', of "bytes_left sub'" u sub2]
          by (cases "bytes_left sub' = 0") auto
        moreover obtain b2 where b2: "is_source sub2 = buf_read b2"
          "length bs + unat (bytes_left sub2) \<le> length b2 + unat sz"
          using steady_trans [OF st c(2)] src(1) us by (elim steadyE) auto
        moreover obtain b0 where b0: "is_source s = buf_read b0" "bytes_left t \<le> bytes_left s"
          "length b0 + unat (bytes_left t) \<le> length bs + unat (bytes_left s)"
          using rd(2) bs(1) by (elim steadyE) auto
        ultimately have "steady s (s1\<lparr>is_source := is_source sub2, is_errmsg := is_errmsg sub2\<rparr>)"
          using u1 le lt by (intro steadyI [of _ b0 _ b2]) auto
        with c(1) Some lt show ?thesis by (simp add: pb_close_string_substream_def)
      qed
    qed
    ultimately show ?thesis using mk rd(2) by (auto intro: steady_trans)
  qed
qed

lemma safe_substream:
  assumes f: "safe False n R f" and g: "safe False n R g"
  shows "safe e n R (with_value pb_make_string_substream (\<lambda>substream. \<lambda>(stream, h).
    case f (substream, h) of
      None \<Rightarrow> None
    | Some (status, (substream', h')) \<Rightarrow>
        if c substream' then g (stream, h')
        else with_value (pb_close_string_substream substream') (\<lambda>_. ret status) (stream, h')))"
  (is "safe e n R ?op")
proof (rule safe_weaken, rule safeI)
  fix s :: "'a pb_istream" and h assume b: "in_buffer s" and h: "ready_heap n R h"
  from make_substream_steady [OF b] obtain v s1 where
    mk: "pb_make_string_substream s = Some (v, s1)" "steady s s1" and
    sub: "\<And>sub. v = Some sub \<Longrightarrow> in_buffer sub \<and> bytes_left s1 < bytes_left s \<and>
       (\<forall>sub'. steady sub sub' \<longrightarrow> (\<exists>w s2. pb_close_string_substream sub' s1 = Some (w, s2) \<and>
          steady s s2 \<and> bytes_left s2 < bytes_left s))" by blast
  show "\<exists>ok s' h'. ?op (s, h) = Some (ok, (s', h')) \<and> steady s s' \<and> heap_frame R h h' \<and>
      (True \<and> ok \<longrightarrow> bytes_left s' < bytes_left s)"
  proof (cases v)
    case None
    with mk show ?thesis by (auto simp: with_value_def)
  next
    case (Some x)
    with sub have x: "in_buffer x" "bytes_left s1 < bytes_left s" by auto
    from safeE [OF f x(1) h] obtain st x' h1 where
      1: "f (x, h) = Some (st, (x', h1))" "steady x x'" "heap_frame R h h1" "ready_heap n R h1" by metis
    show ?thesis
    proof (cases "c x'")
      case True
      from safeE [OF g steady_in_buffer [OF b mk(2)] 1(4)] obtain ok s2 h2 where
        2: "g (s1, h1) = Some (ok, (s2, h2))" "steady s1 s2" "heap_frame R h1 h2" by metis
      have "bytes_left s2 < bytes_left s" using x(2) steady_left [OF 2(2)] by simp
      with 1 2 True Some mk show ?thesis
        by (auto simp: with_value_def intro: steady_trans heap_frame_trans)
    next
      case False
      with sub [OF Some] 1(2) obtain w s2 where
        "pb_close_string_substream x' s1 = Some (w, s2)" "steady s s2" "bytes_left s2 < bytes_left s" by blast
      with 1 False Some mk show ?thesis
        by (cases w) (auto simp: with_value_def ret_def)
    qed
  qed
qed

lemma safe_on_substream: "safe False n R f \<Longrightarrow> safe e n R (on_substream f)"
  unfolding on_substream_def
  using safe_substream [of n R f "ret True" e "\<lambda>_. False", unfolded if_False] by (simp add: safe_ret)

section \<open>Decoding a field\<close>

text \<open>
  \<open>rec\<close> decodes the submessages: it is safe for the descriptors of \<open>sub\<close> in every struct
  inside the region.
\<close>

definition rec_safe ::
  "nat \<Rightarrow> (addr \<Rightarrow> bool) \<Rightarrow> nat \<Rightarrow> (nat \<Rightarrow> pb_fields) \<Rightarrow> (pb_fields \<Rightarrow> addr \<Rightarrow> 's dstep) \<Rightarrow> bool" where
  "rec_safe m R n ds rec \<longleftrightarrow>
     (\<forall>fs sz dest. fits n ds sz fs \<longrightarrow> block dest sz R \<longrightarrow> safe False m R (rec fs dest))"

lemma safe_decode_with:
  assumes "rec_safe m R n (d_descs env) rec" "fits n (d_descs env) sz fs" "block dest sz R"
  shows "safe False m R (pb_decode_with (Suc n) env rec fs dest)"
proof (rule safeI)
  fix s :: "'a pb_istream" and h assume b: "in_buffer s" and h: "ready_heap m R h"
  have fits': "fits (Suc n) (d_descs env) sz fs" using assms(2) by (rule fits_mono)
  from keepsE [OF keeps_message_defaults [OF fits' assms(3)] h] obtain h1 where
    1: "pb_message_set_to_defaults (Suc n) env fs dest h = Some h1" "heap_frame R h h1" "ready_heap m R h1"
    by metis
  have "safe False m R (rec fs dest)" using assms by (auto simp: rec_safe_def)
  from safeE [OF this b 1(3)] obtain ok s' h2 where
    2: "rec fs dest (s, h1) = Some (ok, (s', h2))" "steady s s'" "heap_frame R h1 h2" "ready_heap m R h2"
    by metis
  from keepsE [OF keeps_release [OF fits' assms(3)] 2(4)] obtain h3 where
    3: "pb_release (Suc n) env fs dest h2 = Some h3" "heap_frame R h2 h3" by metis
  from 1 2 3 show "\<exists>ok s' h'. pb_decode_with (Suc n) env rec fs dest (s, h) = Some (ok, (s', h')) \<and>
      steady s s' \<and> heap_frame R h h' \<and> (False \<and> ok \<longrightarrow> bytes_left s' < bytes_left s)"
    by (cases ok) (auto simp: pb_decode_with_def intro: heap_frame_trans)
qed

lemma safe_decoder:
  fixes rec :: "pb_fields \<Rightarrow> addr \<Rightarrow> 's dstep"
  assumes desc: "static_desc (fits n (d_descs env)) (d_descs env) f"
    and b: "block dest (unat (data_size f)) R"
    and rec: "rec_safe m R n (d_descs env) rec"
  shows "safe e m R (PB_DECODERS (Suc n) env rec (PB_LTYPE (pf_type f)) f dest)"
proof -
  let ?lt = "PB_LTYPE (pf_type f)"
  have st: "?lt \<noteq> PB_LTYPE_EXTENSION" "PB_ATYPE (pf_type f) = PB_ATYPE_STATIC" "?lt \<le> 0x0A" "scalar_fits f"
    using desc by (auto simp: static_desc_def Let_def)
  have "unat ?lt \<le> 10" using st(3) by (simp add: word_le_nat_alt)
  then have cases: "?lt = 0 \<or> ?lt = 1 \<or> ?lt = 2 \<or> ?lt = 3 \<or> ?lt = 4 \<or> ?lt = 5 \<or> ?lt = 6 \<or> ?lt = 7 \<or>
      ?lt = 8 \<or> ?lt = 10" using st(1) by (simp add: word_unat_eq_iff) presburger
  have sub: "safe e m R (pb_dec_submessage (Suc n) env rec f dest)" if "?lt = 8"
  proof -
    from desc that obtain k where k: "pf_ptr f = PFields k" "fits n (d_descs env) (unat (data_size f)) (d_descs env k)"
      by (auto simp: static_desc_def Let_def split: pb_ptr.splits)
    then have "safe False m R (rec (d_descs env k) dest)" using rec b by (auto simp: rec_safe_def)
    moreover have "safe False m R (pb_decode_with (Suc n) env rec (d_descs env k) dest)"
      using rec k(2) b by (rule safe_decode_with)
    ultimately show ?thesis unfolding pb_dec_submessage_def k
      by (simp only: pb_ptr.case) (intro safe_on_substream safe_if; simp)
  qed
  have small: "block dest k R" if "k \<le> unat (data_size f)" for k
    by (rule block_sub [OF b]) (use that in linarith)+
  have sz: "?lt = 0 \<Longrightarrow> block dest 1 R" "?lt = 4 \<Longrightarrow> block dest 4 R" "?lt = 5 \<Longrightarrow> block dest 8 R"
    using st(4) small [of 1] small [of 4] small [of 8] unfolding scalar_fits_def Let_def by blast+
  from cases show ?thesis
    by (elim disjE) (simp_all only: PB_DECODERS_def, simp_all add: safe_dec_bool safe_dec_varints
        safe_dec_fixed32 safe_dec_fixed64 safe_dec_bytes safe_dec_string safe_dec_fixed_bytes sub sz b st)
qed

lemma array_item_block:
  assumes "block pData (unat (data_size f) * unat (array_size f)) R"
    and "unat (data_size f) * unat (array_size f) < 2 ^ 32" and "i < array_size f"
  shows "block (array_item pData f i) (unat (data_size f)) R"
proof -
  have lt: "unat i < unat (array_size f)" using assms(3) by (simp add: word_less_nat_alt)
  then have "unat (data_size f) * unat i \<le> unat (data_size f) * unat (array_size f)" by simp
  from le_less_trans [OF this assms(2)] have "unat (data_size f * i) = unat (data_size f) * unat i"
    by (simp add: unat_word_ariths)
  then have "int (unat (data_size f * i)) = int (unat i) * int (unat (data_size f))" by simp
  then have eq: "array_item pData f i = pData + int (unat i) * int (unat (data_size f))"
    by (simp add: array_item_def)
  show ?thesis unfolding eq using assms(1) lt by (rule block_item)
qed

lemma static_packed_loop_safe:
  fixes func :: "pb_field \<Rightarrow> addr \<Rightarrow> 's dstep"
  assumes func: "\<And>i. i < array_size f \<Longrightarrow> safe True m R (func f (array_item pData f i))"
    and sz: "block pSize 4 R"
  shows "safe False m R (static_packed_loop func f pData pSize)"
proof (rule safeI)
  fix s :: "'s pb_istream" and h assume "in_buffer s" "ready_heap m R h"
  then have "\<exists>ok s' h'. static_packed_loop func f pData pSize (s, h) = Some (ok, (s', h')) \<and>
      steady s s' \<and> heap_frame R h h'"
  proof (induction "unat (bytes_left s)" arbitrary: s h rule: less_induct)
    case less
    define n where "n = (word_of_nat (le_nat (rd_bytes (hbytes h) pSize 4)) :: u32)"
    have ld: "h_load_u32 h pSize = Some n"
      using load_ready [OF less.prems(2) sz] by (simp add: h_load_u32_def n_def)
    show ?case
    proof (cases "bytes_left s > 0 \<and> n < array_size f")
      case False
      with ld less.prems show ?thesis
        by (subst static_packed_loop.simps) (auto simp: steady_refl)
    next
      case True
      from safeE [OF func less.prems] True obtain ok s1 h1 where
        1: "func f (array_item pData f n) (s, h) = Some (ok, (s1, h1))" "steady s s1" "heap_frame R h h1"
          "in_buffer s1" "ready_heap m R h1" "ok \<longrightarrow> bytes_left s1 < bytes_left s" by metis
      define n' where "n' = (word_of_nat (le_nat (rd_bytes (hbytes h1) pSize 4)) :: u32)"
      have ld1: "h_load_u32 h1 pSize = Some n'"
        using load_ready [OF 1(5) sz] by (simp add: h_load_u32_def n'_def)
      have "keeps m R (\<lambda>h. h_store_u32 h pSize (n' + 1))"
        unfolding h_store_u32_def using sz by (rule keeps_store_nat)
      from keepsE [OF this 1(5)] obtain h2 where
        2: "h_store_u32 h1 pSize (n' + 1) = Some h2" "heap_frame R h1 h2" "ready_heap m R h2" by metis
      show ?thesis
      proof (cases ok)
        case ok: True
        with 1(6) have "unat (bytes_left s1) < unat (bytes_left s)" by (simp add: word_less_nat_alt)
        from less.hyps [OF this 1(4) 2(3)] obtain ok' s3 h3 where
          "static_packed_loop func f pData pSize (s1, h2) = Some (ok', (s3, h3))" "steady s1 s3" "heap_frame R h2 h3"
          by blast
        then show ?thesis using ok 1 2 ld ld1 True
          by (subst static_packed_loop.simps) (auto intro: steady_trans heap_frame_trans)
      next
        case False
        with 1 ld True show ?thesis by (subst static_packed_loop.simps) auto
      qed
    qed
  qed
  then show "\<exists>ok s' h'. static_packed_loop func f pData pSize (s, h) = Some (ok, (s', h')) \<and>
      steady s s' \<and> heap_frame R h h' \<and> (False \<and> ok \<longrightarrow> bytes_left s' < bytes_left s)" by simp
qed

lemma pf_cases:
  obtains "PB_HTYPE t = PB_HTYPE_REQUIRED" | "PB_HTYPE t = PB_HTYPE_OPTIONAL"
  | "PB_HTYPE t = PB_HTYPE_REPEATED" | "PB_HTYPE t = PB_HTYPE_ONEOF"
proof -
  define y where "y = take_bit 2 (drop_bit 4 t)"
  have "t AND push_bit 4 (mask 2) = push_bit 4 y"
    unfolding y_def by (rule bit_word_eqI) (auto simp: bit_simps)
  moreover have "push_bit 4 (mask 2) = (0x30 :: u8)" by (simp add: mask_eq_exp_minus_1 push_bit_eq_mult)
  ultimately have t: "PB_HTYPE t = push_bit 4 y" by (simp add: PB_HTYPE_def)
  have "unat y < 4" unfolding y_def by (simp add: unsigned_take_bit_eq) (simp add: take_bit_eq_mod)
  then have "unat y = 0 \<or> unat y = 1 \<or> unat y = 2 \<or> unat y = 3" by presburger
  then have "y = 0 \<or> y = 1 \<or> y = 2 \<or> y = 3" by (simp add: word_unat_eq_iff)
  then have "PB_HTYPE t \<in> {0x00, 0x10, 0x20, 0x30}"
    unfolding t by (elim disjE) (simp_all add: push_bit_eq_mult)
  then show thesis using that by auto
qed

lemma safe_decode_static:
  assumes reg: "in_region R it" and desc: "static_desc (fits n (d_descs env)) (d_descs env) (it_field it)"
    and rec: "rec_safe m R n (d_descs env) rec"
  shows "safe False m R (decode_static_field (Suc n) env rec wt it)"
proof -
  let ?f = "it_field it" let ?t = "pf_type ?f" let ?w = "unat (data_size (it_field it))"
  have data: "block (it_data it) (field_bytes ?f) R" and szb: "block (it_size it) (size_bytes it) R"
    using reg by (auto simp: in_region_def)
  have func: "safe e m R (PB_DECODERS (Suc n) env rec (PB_LTYPE ?t) ?f dest)" if "block dest ?w R" for e dest
    using desc that rec by (rule safe_decoder)
  show ?thesis
  proof (cases "PB_HTYPE ?t = PB_HTYPE_REPEATED")
    case True
    have sz: "block (it_size it) 4 R" using szb True by (simp add: size_bytes_def)
    have prod: "unat (data_size ?f) * unat (array_size ?f) < 2 ^ 32"
      using desc by (simp add: static_desc_def Let_def)
    have item: "safe e m R (PB_DECODERS (Suc n) env rec (PB_LTYPE ?t) ?f (array_item (it_data it) ?f i))"
      if "i < array_size ?f" for e i
      using data True prod that by (intro func array_item_block) (simp_all add: field_bytes_def)
    show ?thesis
      unfolding decode_static_field_def Let_def True
      by simp (intro conjI impI safe_substream static_packed_loop_safe item sz safe_error safe_with_load
          safe_and_then safe_do_store; auto simp: item not_le)
  next
    case False
    then have w: "block (it_data it) ?w R" using data by (simp add: field_bytes_def)
    have one: "block (it_size it) 1 R" if "PB_HTYPE ?t = PB_HTYPE_OPTIONAL" "it_size it \<noteq> it_data it"
      using szb that by (simp add: size_bytes_def)
    have four: "block (it_size it) 4 R" if "PB_HTYPE ?t = PB_HTYPE_ONEOF"
      using szb that by (simp add: size_bytes_def)
    have defaults: "keeps m R (submessage_defaults (Suc n) env ?f (it_data it))" if "PB_LTYPE ?t = PB_LTYPE_SUBMESSAGE"
    proof -
      from desc that obtain k where k: "pf_ptr ?f = PFields k" "fits n (d_descs env) ?w (d_descs env k)"
        by (auto simp: static_desc_def Let_def split: pb_ptr.splits)
      have "keeps m R (pb_message_set_to_defaults (Suc n) env (d_descs env k) (it_data it))"
        by (rule keeps_message_defaults [OF fits_mono [OF k(2)] w])
      then show ?thesis by (simp add: submessage_defaults_def [abs_def] k)
    qed
    let ?call = "PB_DECODERS (Suc n) env rec (PB_LTYPE ?t) ?f (it_data it)"
    have call: "safe False m R ?call" using w by (rule func)
    have opt: "safe False m R (and_then
        (if it_size it \<noteq> it_data it then do_store 1 (it_size it) 1 else ret True) ?call)"
      if "PB_HTYPE ?t = PB_HTYPE_OPTIONAL"
      using one that by (intro safe_and_then safe_if safe_do_store safe_ret call)
    have oneof: "safe False m R (and_then (do_store 4 (it_size it) (unat (pf_tag ?f)))
          (and_then
            (if PB_LTYPE ?t = PB_LTYPE_SUBMESSAGE then
               and_then (do_heap (h_memset0 (it_data it) ?w))
                 (do_heap (submessage_defaults (Suc n) env ?f (it_data it)))
             else ret True) ?call))"
      if "PB_HTYPE ?t = PB_HTYPE_ONEOF"
      using four [OF that] w defaults
      by (intro safe_and_then safe_if safe_do_store safe_ret safe_do_heap keeps_memset call) simp_all
    show ?thesis
      by (cases ?t rule: pf_cases) (use call opt oneof False in \<open>simp_all add: decode_static_field_def Let_def\<close>)
  qed
qed

section \<open>The iterator of the message loop\<close>

text \<open>
  At an entry of the array, with its size pointer possibly turned to the local counter of
  fixed-count fields.
\<close>

definition loop_iter :: "pb_fields \<Rightarrow> addr \<Rightarrow> addr \<Rightarrow> pb_field_iter \<Rightarrow> bool" where
  "loop_iter fs dest a it \<longleftrightarrow> (\<exists>i < length fs. it = iter_at fs dest i \<or>
     (it = (iter_at fs dest i)\<lparr>it_size := a\<rparr> \<and> PB_HTYPE (pf_type (fs ! i)) = PB_HTYPE_REPEATED))"

lemma next_modified:
  assumes "wf_fields fs" "i < length fs" "PB_HTYPE (pf_type (fs ! i)) \<noteq> PB_HTYPE_ONEOF"
  shows "snd (pb_field_iter_next ((iter_at fs dest i)\<lparr>it_size := a\<rparr>)) = snd (pb_field_iter_next (iter_at fs dest i))"
proof -
  have f: "it_field (iter_at fs dest i) = fs ! i" "it_pos (iter_at fs dest i) = i" "pf_tag (fs ! i) \<noteq> 0"
    using assms wf_fields_tag [of fs i] by (auto simp: it_pos_iter_at field_at_in)
  with assms(3) show ?thesis
    by (simp add: pb_field_iter_next_def Let_def field_at_in assms(2))
qed

lemma find_loop_iter:
  assumes wf: "wf_fields fs" and it: "loop_iter fs dest a it"
  shows "\<exists>b it'. iter_find_loop found (it_pos it) it = Some (b, it') \<and> loop_iter fs dest a it' \<and>
    (b \<longrightarrow> (\<exists>f \<in> set fs. found f))"
proof -
  have plain: "\<exists>b it'. iter_find_loop found i (iter_at fs dest i) = Some (b, it') \<and> loop_iter fs dest a it' \<and>
      (b \<longrightarrow> (\<exists>f \<in> set fs. found f))" if i: "i < length fs" for i
  proof (cases "List.find (\<lambda>j. found (fs ! j)) (map (\<lambda>k. (i + k) mod length fs) [0..<length fs])")
    case None
    then show ?thesis using iter_find_loop_eq [OF wf i, of found dest] i by (auto simp: loop_iter_def)
  next
    case (Some j)
    moreover have "0 < length fs" using i by linarith
    ultimately have j: "found (fs ! j)" "j < length fs" by (auto simp: find_Some_iff)
    have "iter_find_loop found i (iter_at fs dest i) = Some (True, iter_at fs dest j)"
      using iter_find_loop_eq [OF wf i, of found dest] Some by simp
    moreover have "\<exists>f \<in> set fs. found f" using j by (intro bexI [of _ "fs ! j"]) simp_all
    ultimately show ?thesis using j(2) by (auto simp: loop_iter_def)
  qed
  from it obtain i where i: "i < length fs" and c: "it = iter_at fs dest i \<or>
     (it = (iter_at fs dest i)\<lparr>it_size := a\<rparr> \<and> PB_HTYPE (pf_type (fs ! i)) = PB_HTYPE_REPEATED)"
    by (auto simp: loop_iter_def)
  have pos: "it_pos (iter_at fs dest i) = i" "it_field (iter_at fs dest i) = fs ! i"
    using wf i by (simp_all add: it_pos_iter_at field_at_in)
  from c show ?thesis
  proof
    assume "it = iter_at fs dest i"
    with plain [OF i] pos show ?thesis by simp
  next
    assume m: "it = (iter_at fs dest i)\<lparr>it_size := a\<rparr> \<and> PB_HTYPE (pf_type (fs ! i)) = PB_HTYPE_REPEATED"
    show ?thesis
    proof (cases "found (fs ! i)")
      case True
      with m i pos have "iter_find_loop found (it_pos it) it = Some (True, it)"
        by (subst iter_find_loop.simps) (simp add: field_at_in)
      with it True nth_mem [OF i] show ?thesis by blast
    next
      case False
      have "iter_find_loop found i it = iter_find_loop found i (iter_at fs dest i)"
        using m pos False next_modified [OF wf i, where dest = dest and a = a] i
        by (subst (1 2) iter_find_loop.simps) (simp add: field_at_in Let_def)
      with plain [OF i] m pos show ?thesis by simp
    qed
  qed
qed

lemma field_iter_find_iter:
  assumes "wf_fields fs" "loop_iter fs dest a it"
  obtains b it' where "pb_field_iter_find it tag = Some (b, it')" "loop_iter fs dest a it'"
  using find_loop_iter [OF assms] unfolding pb_field_iter_find_def by blast

lemma loop_iter_region:
  assumes "fits (Suc n) ds sz fs" "block dest sz R" "block a 4 R" "loop_iter fs dest a it"
  shows "in_region R it" "static_desc (fits n ds) ds (it_field it)" "it_field it \<in> set fs"
proof -
  from assms(4) obtain i where i: "i < length fs" and c: "it = iter_at fs dest i \<or>
     (it = (iter_at fs dest i)\<lparr>it_size := a\<rparr> \<and> PB_HTYPE (pf_type (fs ! i)) = PB_HTYPE_REPEATED)"
    by (auto simp: loop_iter_def)
  note f = fits_field [OF assms(1) i assms(2)]
  have fld: "it_field it = fs ! i" using c f(2) by auto
  then show "static_desc (fits n ds) ds (it_field it)" "it_field it \<in> set fs" using f(3) i by auto
  from c f fld assms(3) show "in_region R it"
    by (auto simp: in_region_def size_bytes_def Let_def)
qed

lemma decode_field_safe:
  assumes fits: "fits (Suc n) (d_descs env) sz fs" and b: "block dest sz R" "block a 4 R"
    and rec: "rec_safe m R n (d_descs env) rec"
    and it: "loop_iter fs dest a it" and s: "in_buffer s" and h: "ready_heap m R h"
  shows "\<exists>ok it' s' h'. decode_field (Suc n) env rec wt it (s, h) = Some (ok, it', (s', h')) \<and>
    loop_iter fs dest a it' \<and> steady s s' \<and> heap_frame R h h'"
proof -
  have wf: "wf_fields fs" using fits by simp
  note reg = loop_iter_region [OF fits b]
  define rel where "rel = (if PB_HTYPE (pf_type (it_field it)) = PB_HTYPE_ONEOF
      then pb_release_union_field (Suc n) env it (s, h) else Some (True, it, (s, h)))"
  have "\<exists>ok it' s' h'. rel = Some (ok, it', (s', h')) \<and> loop_iter fs dest a it' \<and> steady s s' \<and> heap_frame R h h'"
  proof (cases "PB_HTYPE (pf_type (it_field it)) = PB_HTYPE_ONEOF")
    case True
    have "block (it_size it) 4 R" using reg(1) [OF it] True by (simp add: in_region_def size_bytes_def)
    from load_ready [OF h this] obtain old where old: "h_load_u32 h (it_size it) = Some old"
      by (simp add: h_load_u32_def)
    obtain b1 it1 where 1: "pb_field_iter_find it old = Some (b1, it1)" "loop_iter fs dest a it1"
      by (rule field_iter_find_iter [OF wf it])
    obtain b2 it2 where
      2: "pb_field_iter_find it1 (pf_tag (it_field it)) = Some (b2, it2)" "loop_iter fs dest a it2"
      by (rule field_iter_find_iter [OF wf 1(2)])
    have "keeps m R (pb_release_single_field (Suc n) env it1)"
      by (rule keeps_release_single [OF reg(1,2) [OF 1(2)]])
    from keepsE [OF this h] obtain h1 where "pb_release_single_field (Suc n) env it1 h = Some h1"
      "heap_frame R h h1" by metis
    with True old 1(1) 2(1) have "rel = (if old = 0 \<or> old = pf_tag (it_field it) then Some (True, it, (s, h))
        else if \<not> b1
        then Some (False, it1, (s\<lparr>is_errmsg := PB_SET_ERROR (is_errmsg s) ''invalid union tag''\<rparr>, h))
        else if \<not> b2
        then Some (False, it2, (s\<lparr>is_errmsg := PB_SET_ERROR (is_errmsg s) ''iterator error''\<rparr>, h1))
        else Some (True, it2, (s, h1)))"
      by (simp add: rel_def pb_release_union_field_def dec_error_def Let_def)
    moreover have "steady s s" using s by (rule steady_refl)
    ultimately show ?thesis using it 1(2) 2(2) \<open>heap_frame R h h1\<close>
      by (simp split: if_split)
  qed (use it s in \<open>simp add: rel_def steady_refl\<close>)
  then obtain ok it1 s1 h1 where 1: "rel = Some (ok, it1, (s1, h1))" "loop_iter fs dest a it1" "steady s s1"
    "heap_frame R h h1" by blast
  have "PB_ATYPE (pf_type (it_field it1)) = PB_ATYPE_STATIC"
    using reg(2) [OF 1(2)] by (simp add: static_desc_def Let_def)
  moreover have "safe False m R (decode_static_field (Suc n) env rec wt it1)"
    using reg(1,2) [OF 1(2)] rec by (rule safe_decode_static)
  from safeE [OF this steady_in_buffer [OF s 1(3)]] h 1(4) obtain ok2 s2 h2 where
    "decode_static_field (Suc n) env rec wt it1 (s1, h1) = Some (ok2, (s2, h2))" "steady s1 s2" "heap_frame R h1 h2"
    by (metis heap_frame_ready)
  ultimately show ?thesis using 1 unfolding decode_field_def rel_def [symmetric]
    by (auto simp: Let_def intro: steady_trans heap_frame_trans)
qed

section \<open>The message loop\<close>

lemma or_return_safe:
  assumes "safe False m R f" "in_buffer s" "ready_heap m R h"
  shows "\<exists>fl s' h'. or_return l (f (s, h)) = Some (fl, l, (s', h')) \<and> steady s s' \<and> heap_frame R h h'"
  using safeE [OF assms] by (metis (no_types, lifting) or_return_def option.simps(9) prod.case)

lemma loop_iter_local:
  assumes "loop_iter fs dest a it" "wf_fields fs" "PB_HTYPE (pf_type (it_field it)) = PB_HTYPE_REPEATED"
  shows "loop_iter fs dest a (it\<lparr>it_size := a\<rparr>)"
proof -
  from assms(1) obtain i where i: "i < length fs" and c: "it = iter_at fs dest i \<or>
     (it = (iter_at fs dest i)\<lparr>it_size := a\<rparr> \<and> PB_HTYPE (pf_type (fs ! i)) = PB_HTYPE_REPEATED)"
    by (auto simp: loop_iter_def)
  then have "it_field it = fs ! i" using assms(2) by (auto simp: it_pos_iter_at field_at_in)
  with assms(3) c i show ?thesis unfolding loop_iter_def
    by (intro exI [of _ i]) auto
qed

text \<open>The setting of a call of \<open>noinit_body\<close> with fuel \<open>Suc n\<close>.\<close>

definition static_call ::
  "nat \<Rightarrow> nat \<Rightarrow> 's dec_env \<Rightarrow> (pb_fields \<Rightarrow> addr \<Rightarrow> 's dstep) \<Rightarrow> pb_fields \<Rightarrow> addr \<Rightarrow> (addr \<Rightarrow> bool) \<Rightarrow> bool" where
  "static_call n m env rec fs dest R \<longleftrightarrow> (\<exists>sz. fits (Suc n) (d_descs env) sz fs \<and> block dest sz R) \<and>
     block (fixed_count_addr (Suc n)) 4 R \<and> rec_safe m R n (d_descs env) rec"

abbreviation locals_ok :: "pb_fields \<Rightarrow> addr \<Rightarrow> nat \<Rightarrow> dec_locals \<Rightarrow> bool" where
  "locals_ok fs dest n l \<equiv> loop_iter fs dest (fixed_count_addr (Suc n)) (l_iter l)"

lemma decode_known_safe:
  assumes call: "static_call n m env rec fs dest R" and l: "locals_ok fs dest n l"
    and s: "in_buffer s" and h: "ready_heap m R h"
  shows "\<exists>fl l' s' h'. decode_known (Suc n) env rec wt l (s, h) = Some (fl, l', (s', h')) \<and>
    locals_ok fs dest n l' \<and> steady s s' \<and> heap_frame R h h'"
proof -
  let ?a = "fixed_count_addr (Suc n)" let ?it = "l_iter l"
  obtain sz where fits: "fits (Suc n) (d_descs env) sz fs" and b: "block dest sz R"
    and loc: "block ?a 4 R" and rec: "rec_safe m R n (d_descs env) rec"
    using call unfolding static_call_def by blast
  define fixed where "fixed \<longleftrightarrow> PB_HTYPE (pf_type (it_field ?it)) = PB_HTYPE_REPEATED \<and> it_size ?it = it_data ?it"
  define switch where "switch \<longleftrightarrow> fixed \<and> fixed_count_field l \<noteq> Some (it_pos ?it)"
  obtain cnt where cnt: "h_load_u32 h ?a = Some cnt"
    using load_ready [OF h loc] by (simp add: h_load_u32_def)
  have "keeps m R (\<lambda>h. h_store_u32 h ?a 0)"
    unfolding h_store_u32_def using loc by (rule keeps_store_nat)
  then obtain h0 where h0: "h_store_u32 h ?a 0 = Some h0" "heap_frame R h h0" "ready_heap m R h0"
    by (rule keepsE [OF _ h])
  define h1 where "h1 = (if switch then h0 else h)"
  have h1: "ready_heap m R h1" "heap_frame R h h1" using h h0 by (auto simp: h1_def)
  define it1 where "it1 = (if fixed then ?it\<lparr>it_size := ?a\<rparr> else ?it)"
  have it1: "loop_iter fs dest ?a it1"
    using l fits by (auto simp: it1_def fixed_def intro: loop_iter_local)
  obtain ok it2 s2 h2 where d: "decode_field (Suc n) env rec wt it1 (s, h1) = Some (ok, it2, (s2, h2))"
    "loop_iter fs dest ?a it2" "steady s s2" "heap_frame R h1 h2"
    using decode_field_safe [OF fits b loc rec it1 s h1(1)] by blast
  have fr: "heap_frame R h h2" using h1(2) d(4) by (rule heap_frame_trans)
  define wrong where "wrong \<longleftrightarrow> switch \<and> fixed_count_field l \<noteq> None \<and>
    cnt \<noteq> array_size (field_at (it_start ?it) (the (fixed_count_field l)))"
  have chk: "(if switch \<and> fixed_count_field l \<noteq> None
      then map_option (\<lambda>sz. sz \<noteq> array_size (field_at (it_start ?it) (the (fixed_count_field l))))
             (h_load_u32 (snd (s, h)) ?a)
      else Some False) = Some wrong"
    by (simp add: cnt wrong_def)
  have st: "(if switch then map_option (\<lambda>h'. (fst (s, h), h')) (h_store_u32 (snd (s, h)) ?a 0) else Some (s, h))
      = Some (s, h1)"
    by (simp add: h0 h1_def)
  show ?thesis
  proof (cases wrong)
    case True
    then have "decode_known (Suc n) env rec wt l (s, h) = or_return l (dec_error ''wrong size for fixed count field'' (s, h))"
      using chk unfolding decode_known_def Let_def fixed_def [symmetric] switch_def [symmetric] by simp
    with or_return_safe [OF safe_error s h] l show ?thesis by metis
  next
    case False
    then have "\<exists>l2. decode_known (Suc n) env rec wt l (s, h) =
        Some (if ok then Continue else Return_False, l2\<lparr>l_iter := it2\<rparr>, (s2, h2))"
      using chk st d(1) unfolding decode_known_def Let_def fixed_def [symmetric] switch_def [symmetric]
        it1_def [symmetric]
      by (simp only: option.case if_False option.map prod.case) (rule exI, rule refl)
    with d fr show ?thesis by fastforce
  qed
qed

lemma decode_unknown_safe:
  assumes call: "static_call n m env rec fs dest R" and l: "locals_ok fs dest n l"
    and s: "in_buffer s" and h: "ready_heap m R h" and tag: "tag \<noteq> - 1"
  shows "\<exists>fl l' s' h'. decode_unknown (Suc n) env rec tag wt l (s, h) = Some (fl, l', (s', h')) \<and>
    locals_ok fs dest n l' \<and> steady s s' \<and> heap_frame R h h'"
proof -
  obtain sz where fits: "fits (Suc n) (d_descs env) sz fs"
    using call unfolding static_call_def by blast
  have noext: "PB_LTYPE (pf_type f) \<noteq> PB_LTYPE_EXTENSION" if "f \<in> set fs" for f
    using fits that by (auto simp: list_all_iff static_desc_def Let_def)
  have wf: "wf_fields fs" using fits by simp
  obtain found it where f: "find_extension_field (l_iter l) = Some (found, it)"
    "found \<longrightarrow> (\<exists>f\<in>set fs. PB_LTYPE (pf_type f) = PB_LTYPE_EXTENSION)"
    and it2: "loop_iter fs dest (fixed_count_addr (Suc n)) it"
    using find_loop_iter [OF wf l, of "\<lambda>f. PB_LTYPE (pf_type f) = PB_LTYPE_EXTENSION"]
    unfolding find_extension_field_def by blast
  with noext have it: "find_extension_field (l_iter l) = Some (False, it)" by auto
  have "\<not> (- 1 :: u32) \<le> tag" using tag antisym [OF word_n1_ge [of tag]] by blast
  have skip: "safe False m R (with_value (pb_skip_field wt) (\<lambda>_. ret True))"
    by (intro safe_with_value) auto
  show ?thesis
  proof (cases "tag \<ge> extension_range_start l")
    case True
    with it \<open>\<not> - 1 \<le> tag\<close> have "decode_unknown (Suc n) env rec tag wt l (s, h) =
        or_return (l\<lparr>l_iter := it, extension_range_start := - 1\<rparr>)
          (with_value (pb_skip_field wt) (\<lambda>_. ret True) (s, h))"
      by (simp add: decode_unknown_def)
    with or_return_safe [OF skip s h, of "l\<lparr>l_iter := it, extension_range_start := - 1\<rparr>"] it2
    show ?thesis by auto
  next
    case False
    with or_return_safe [OF skip s h, of l] l show ?thesis by (auto simp: decode_unknown_def)
  qed
qed

lemma decode_iteration_safe:
  assumes call: "static_call n m env rec fs dest R" and l: "locals_ok fs dest n l"
    and s: "in_buffer s" and h: "ready_heap m R h"
  shows "\<exists>fl l' s' h'. decode_iteration (Suc n) env rec l (s, h) = Some (fl, l', (s', h')) \<and>
    locals_ok fs dest n l' \<and> steady s s' \<and> heap_frame R h h' \<and> (fl = Continue \<longrightarrow> bytes_left s' < bytes_left s)"
proof -
  obtain sz where fits: "fits (Suc n) (d_descs env) sz fs"
    using call unfolding static_call_def by blast
  then have wf: "wf_fields fs" by simp
  obtain r eof s1 where t: "pb_decode_tag s = Some (r, eof, s1)" "steady s s1"
    "\<forall>wt tag. r = Some (wt, tag) \<longrightarrow> bytes_left s1 < bytes_left s \<and> tag \<noteq> - 1"
    using pb_decode_tag_steady [OF s] by blast
  have s1: "in_buffer s1" using s t(2) by (rule steady_in_buffer)
  show ?thesis
  proof (cases r)
    case None
    with t l show ?thesis by (simp add: decode_iteration_def)
  next
    case (Some p)
    obtain wt tag where p: "p = (wt, tag)" by (cases p)
    with Some t(3) have lt: "bytes_left s1 < bytes_left s" and tag: "tag \<noteq> - 1" by auto
    obtain found it where f: "pb_field_iter_find (l_iter l) tag = Some (found, it)"
      "loop_iter fs dest (fixed_count_addr (Suc n)) it"
      by (rule field_iter_find_iter [OF wf l])
    then have l1: "locals_ok fs dest n (l\<lparr>l_iter := it\<rparr>)" by simp
    define step where "step = (if found then decode_known (Suc n) env rec wt else decode_unknown (Suc n) env rec tag wt)
        (l\<lparr>l_iter := it\<rparr>) (s1, h)"
    have "\<exists>fl l' s' h'. step = Some (fl, l', (s', h')) \<and> locals_ok fs dest n l' \<and> steady s1 s' \<and> heap_frame R h h'"
      using decode_known_safe [OF call l1 s1 h, of wt] decode_unknown_safe [OF call l1 s1 h tag, of wt]
      by (simp add: step_def)
    then obtain fl l2 s2 h2 where 2: "step = Some (fl, l2, (s2, h2))" "locals_ok fs dest n l2" "steady s1 s2"
      "heap_frame R h h2" by blast
    have "decode_iteration (Suc n) env rec l (s, h) = step"
      using t(1) Some p f(1) by (simp add: decode_iteration_def step_def)
    moreover have "bytes_left s2 < bytes_left s" using lt steady_left [OF 2(3)] by simp
    ultimately show ?thesis using 2 steady_trans [OF t(2) 2(3)] by simp
  qed
qed

lemma decode_loop_safe:
  assumes call: "static_call n m env rec fs dest R"
  shows "locals_ok fs dest n l \<Longrightarrow> in_buffer s \<Longrightarrow> ready_heap m R h \<Longrightarrow>
    \<exists>ok l' s' h'. decode_loop (Suc n) env rec l (s, h) = Some (ok, l', (s', h')) \<and> steady s s' \<and> heap_frame R h h'"
proof (induction "unat (bytes_left s)" arbitrary: l s h rule: less_induct)
  case less
  show ?case
  proof (cases "bytes_left s = 0")
    case True
    with less.prems show ?thesis by (subst decode_loop.simps) (simp add: steady_refl)
  next
    case False
    obtain fl l1 s1 h1 where 1: "decode_iteration (Suc n) env rec l (s, h) = Some (fl, l1, (s1, h1))"
      "locals_ok fs dest n l1" "steady s s1" "heap_frame R h h1" "fl = Continue \<longrightarrow> bytes_left s1 < bytes_left s"
      using decode_iteration_safe [OF call less.prems] by blast
    have 2: "in_buffer s1" "ready_heap m R h1"
      using less.prems 1 by (auto simp: heap_frame_ready elim: steady_in_buffer)
    show ?thesis
    proof (cases "fl = Continue")
      case True
      with 1(5) have "unat (bytes_left s1) < unat (bytes_left s)" by (simp add: word_less_nat_alt)
      from less.hyps [OF this 1(2) 2] obtain ok l2 s2 h2 where
        "decode_loop (Suc n) env rec l1 (s1, h1) = Some (ok, l2, (s2, h2))" "steady s1 s2" "heap_frame R h1 h2"
        by blast
      with 1 True False show ?thesis
        by (subst decode_loop.simps) (auto intro: steady_trans heap_frame_trans)
    qed (use 1 False in \<open>subst decode_loop.simps, simp\<close>)
  qed
qed

section \<open>Decoding a message\<close>

text \<open>Around the local counter: entering makes its four bytes valid, leaving makes them invalid.\<close>

abbreviation with_local :: "nat \<Rightarrow> (addr \<Rightarrow> bool) \<Rightarrow> (addr \<Rightarrow> bool)" where
  "with_local n R \<equiv> (\<lambda>x. R x \<or> fixed_count_addr n \<le> x \<and> x < fixed_count_addr n + 4)"

lemma enter_ready:
  "ready_heap (Suc n) R h \<Longrightarrow> ready_heap n (with_local (Suc n) R) (enter_local (fixed_count_addr (Suc n)) h)"
  by (auto simp: ready_heap_def enter_local_def fixed_count_addr_def)

lemma leave_frame:
  assumes h: "ready_heap (Suc n) R h"
    and fr: "heap_frame (with_local (Suc n) R) (enter_local (fixed_count_addr (Suc n)) h) h2"
  shows "heap_frame R h (leave_local (fixed_count_addr (Suc n)) h2)"
proof -
  let ?a = "fixed_count_addr (Suc n)"
  have inv: "\<not> hvalid h x" if "?a \<le> x" "x < ?a + 4" for x
    using h that by (auto simp: ready_heap_def fixed_count_addr_def)
  obtain mem where h2: "h2 = (enter_local ?a h)\<lparr>hbytes := mem\<rparr>"
    and same: "\<And>x. hvalid (enter_local ?a h) x \<Longrightarrow> \<not> with_local (Suc n) R x \<Longrightarrow> mem x = hbytes (enter_local ?a h) x"
    using fr by (auto simp: heap_frame_def)
  have "leave_local ?a h2 = h\<lparr>hbytes := mem\<rparr>"
    unfolding h2 by (rule heap.equality) (use inv in \<open>auto simp: leave_local_def enter_local_def\<close>)
  moreover have "mem x = hbytes h x" if "hvalid h x" "\<not> R x" for x
  proof -
    have "\<not> (?a \<le> x \<and> x < ?a + 4)" using inv that(1) by blast
    with same [of x] that show ?thesis by (simp add: enter_local_def put_bytes_def)
  qed
  ultimately show ?thesis by (auto simp: heap_frame_def)
qed

lemma safe_noinit: "fits n (d_descs env) sz fs \<Longrightarrow> block dest sz R \<Longrightarrow> safe False n R (pb_decode_noinit n env fs dest)"
proof (induction n arbitrary: sz fs dest R)
  case (Suc n)
  let ?a = "fixed_count_addr (Suc n)" let ?R = "with_local (Suc n) R"
  show ?case
  proof (rule safeI)
    fix s :: "'a pb_istream" and h assume s: "in_buffer s" and h: "ready_heap (Suc n) R h"
    have "rec_safe n ?R n (d_descs env) (pb_decode_noinit n env)"
      using Suc.IH by (auto simp: rec_safe_def)
    moreover have "block dest sz ?R" "block ?a 4 ?R" using Suc.prems(2) by auto
    ultimately have call: "static_call n n env (pb_decode_noinit n env) fs dest ?R"
      using Suc.prems(1) unfolding static_call_def by blast
    have "fs \<noteq> []" using Suc.prems(1) by simp
    then have "locals_ok fs dest n (init_locals fs dest)"
      by (auto simp: loop_iter_def init_locals_def intro!: exI [of _ 0])
    from decode_loop_safe [OF call this s enter_ready [OF h]] obtain ok l s1 h1 where
      1: "decode_loop (Suc n) env (pb_decode_noinit n env) (init_locals fs dest) (s, enter_local ?a h)
          = Some (ok, l, (s1, h1))" "steady s s1" "heap_frame ?R (enter_local ?a h) h1" by blast
    have r1: "ready_heap n ?R h1" using 1(3) enter_ready [OF h] by (simp add: heap_frame_ready)
    from load_ready [OF r1, of ?a 4] obtain cnt where cnt: "h_load_u32 h1 ?a = Some cnt"
      by (auto simp: h_load_u32_def)
    have "\<exists>b s2. (if \<not> ok then Some (False, (s1, h1)) else decode_checks (Suc n) l (s1, h1)) = Some (b, (s2, h1)) \<and>
        steady s s2"
      using 1(2) by (cases "fixed_count_field l") (auto simp: decode_checks_def cnt dec_error_def)
    then obtain b s2 where
      2: "(if \<not> ok then Some (False, (s1, h1)) else decode_checks (Suc n) l (s1, h1)) = Some (b, (s2, h1))"
        "steady s s2" by blast
    have "pb_decode_noinit (Suc n) env fs dest (s, h) = Some (b, (s2, leave_local ?a h1))"
      using 1(1) 2(1) by (simp only: pb_decode_noinit.simps noinit_body_def prod.case option.case option.map)
    with leave_frame [OF h 1(3)] 2(2)
    show "\<exists>ok s' h'. pb_decode_noinit (Suc n) env fs dest (s, h) = Some (ok, (s', h')) \<and> steady s s' \<and>
        heap_frame R h h' \<and> (False \<and> ok \<longrightarrow> bytes_left s' < bytes_left s)" by blast
  qed
qed simp

lemma safe_pb_decode:
  assumes "fits n (d_descs env) sz fs" "block dest sz R"
  shows "safe False n R (pb_decode n env fs dest)"
proof (rule safeI)
  fix s :: "'a pb_istream" and h assume b: "in_buffer s" and h: "ready_heap n R h"
  from keepsE [OF keeps_message_defaults [OF assms] h] obtain h1 where
    1: "pb_message_set_to_defaults n env fs dest h = Some h1" "heap_frame R h h1" "ready_heap n R h1" by metis
  from safeE [OF safe_noinit [OF assms] b 1(3)] obtain ok s' h2 where
    2: "pb_decode_noinit n env fs dest (s, h1) = Some (ok, (s', h2))" "steady s s'" "heap_frame R h1 h2"
      "ready_heap n R h2" by metis
  from keepsE [OF keeps_release [OF assms] 2(4)] obtain h3 where
    3: "pb_release n env fs dest h2 = Some h3" "heap_frame R h2 h3" by metis
  from 1 2 3 show "\<exists>ok s' h'. pb_decode n env fs dest (s, h) = Some (ok, (s', h')) \<and>
      steady s s' \<and> heap_frame R h h' \<and> (False \<and> ok \<longrightarrow> bytes_left s' < bytes_left s)"
    by (cases ok) (auto simp: pb_decode_def pb_decode_with_def intro: heap_frame_trans)
qed

text \<open>
  C1. Memory safety and termination of the decoder: for a message whose fields are static
  and fit its struct, whatever the input bytes are, \<open>pb_decode\<close> returns; it has no undefined
  behaviour (no access outside valid memory, no read behind the end of the input), and
  afterwards all memory outside the struct, the valid addresses and the allocated blocks are
  as before. The fuel is the nesting depth of the submessages, not the length of the input.
\<close>

theorem pb_decode_memory_safe:
  assumes layout: "fits n (d_descs env) sz fs"
    and struct: "h_ok h dest sz" and addresses: "\<forall>x < 0. \<not> hvalid h x"
    and input: "unat len \<le> length buf"
  shows "\<exists>ok s' mem. pb_decode n env fs dest (pb_istream_from_buffer buf len, h) =
      Some (ok, (s', h\<lparr>hbytes := mem\<rparr>)) \<and> bytes_left s' \<le> len \<and>
    (\<forall>x. hvalid h x \<and> (x < dest \<or> dest + int sz \<le> x) \<longrightarrow> mem x = hbytes h x)"
proof -
  let ?R = "\<lambda>x. dest \<le> x \<and> x < dest + int sz"
  have "ready_heap n ?R h" using struct addresses by (auto simp: ready_heap_def h_ok_iff)
  moreover have "in_buffer (pb_istream_from_buffer buf len)"
    using input by (simp add: in_buffer_def pb_istream_from_buffer_def)
  ultimately obtain ok s' h' where *: "pb_decode n env fs dest (pb_istream_from_buffer buf len, h) = Some (ok, (s', h'))"
    "steady (pb_istream_from_buffer buf len) s'" "heap_frame ?R h h'"
    using safeE [OF safe_pb_decode [OF layout, of dest ?R]] by metis
  from *(3) obtain mem where "h' = h\<lparr>hbytes := mem\<rparr>"
    "\<forall>x. hvalid h x \<and> \<not> ?R x \<longrightarrow> mem x = hbytes h x" by (auto simp: heap_frame_def)
  moreover have "bytes_left s' \<le> len" using steady_left [OF *(2)] by (simp add: pb_istream_from_buffer_def)
  ultimately show ?thesis using *(1) by (intro exI [of _ ok] exI [of _ s'] exI [of _ mem]) (auto simp: not_less)
qed

definition sample_heap :: heap where
  "sample_heap = \<lparr>hbytes = (\<lambda>_. 0xAA), hvalid = (\<lambda>x. 100 \<le> x \<and> x < 120), hblocks = (\<lambda>_. None),
     hbrk = 4096, hallocs = 0, hoom = (\<lambda>_. False)\<rparr>"

definition sample_dec_env :: "unit dec_env" where
  "sample_dec_env = \<lparr>d_descs = (\<lambda>_. []), d_ext_arg = (\<lambda>_. []),
     cb_decode = (\<lambda>_ _ _. undef), ext_decode = (\<lambda>_ _ _ _. undef)\<rparr>"

lemma sample_fits: "fits (Suc 0) ds 12 sample_fields"
  by (simp add: sample_fields_def wf_fields_def static_desc_def scalar_fits_def in_struct_def
      field_bytes_def size_bytes_def PB_LTYPE_def PB_HTYPE_def PB_ATYPE_def pb_field_iter_begin_def
      pb_field_iter_next_def field_at_def Let_def upt_conv_Cons)

lemma pb_decode_memory_safe_witness:
  "\<exists>ok s' mem. pb_decode (Suc 0) sample_dec_env sample_fields 104
      (pb_istream_from_buffer [0x08, 0x96, 0x01, 0x12, 0x02, 0x68, 0x69] 7, sample_heap) =
      Some (ok, (s', sample_heap\<lparr>hbytes := mem\<rparr>)) \<and> bytes_left s' \<le> 7 \<and>
    (\<forall>x. hvalid sample_heap x \<and> (x < 104 \<or> 104 + int 12 \<le> x) \<longrightarrow> mem x = hbytes sample_heap x)"
proof (rule pb_decode_memory_safe)
  show "fits (Suc 0) (d_descs sample_dec_env) 12 sample_fields" by (rule sample_fits)
  show "h_ok sample_heap 104 12" by (simp add: h_ok_iff sample_heap_def)
  show "\<forall>x < 0. \<not> hvalid sample_heap x" by (simp add: sample_heap_def)
qed simp

section \<open>Behaviour outside the assumptions\<close>

definition flag_array :: pb_fields where
  "flag_array = [\<lparr>pf_tag = 1, pf_type = PB_HTYPE_REPEATED OR PB_LTYPE_BOOL, data_offset = 0,
     size_offset = 0, data_size = 1, array_size = 1, pf_ptr = PNull\<rparr>]"

text \<open>
  The layout assumption of \<open>pb_decode_memory_safe\<close> asks for four bytes at the size
  pointer of every repeated field, also when the array has a fixed count and no counter
  (\<open>size_offset = 0\<close>). It is needed: the default values are set by a 4-byte store there,
  which is out of bounds for a struct that is a single \<open>bool\<close>.
\<close>

theorem fixed_count_default_overflow:
  "pb_message_set_to_defaults (Suc n) env flag_array a
     \<lparr>hbytes = m, hvalid = (\<lambda>x. x = a), hblocks = b, hbrk = k, hallocs = c, hoom = oom\<rparr> = None"
  by (simp add: pb_message_set_to_defaults_def flag_array_def each_field_eq wf_fields_def
      pb_field_set_to_default.simps(2) pb_field_iter_begin_def field_at_def PB_LTYPE_def PB_HTYPE_def
      PB_ATYPE_def Let_def h_store_nat_def h_store_def h_ok_def upt_conv_Cons)

text \<open>
  The layout assumption also excludes a message without fields. There the search for
  the field number zero stops at the terminator of the array, which is decoded as a required
  \<open>bool\<close>: the input is accepted and a byte is written to the struct.
\<close>

theorem zero_tag_accepted:
  "map_option (\<lambda>(ok, (s, h)). (ok, hbytes h 104)) (pb_decode (Suc 0) sample_dec_env [] 104
     (pb_istream_from_buffer [0x01, 0x2A] 2, sample_heap)) = Some (True, 1)"
  by code_simp

end
