(* ===== verification/Ct_Word.thy ===== *)
theory Ct_Word
  imports CPrelude
begin

text \<open>
  BoringSSL: the branch-free comparisons and selections of \<open>crypto/internal.h\<close>
  (src/LadyBook/Pods/BoringSSL-GRPC/src) on the 64-bit \<open>crypto_word_t\<close>, and that they
  compute what their comments say. \<open>value_barrier_w\<close> only hides a value from the compiler
  and is the identity here. The comparisons return a mask: all ones for true, 0 for false.
\<close>

named_theorems ct_simps \<open>what the constant-time operations compute\<close>

definition constant_time_msb_w :: "u64 \<Rightarrow> u64" where
  "constant_time_msb_w a = 0 - drop_bit 63 a"

definition constant_time_lt_w :: "u64 \<Rightarrow> u64 \<Rightarrow> u64" where
  "constant_time_lt_w a b = constant_time_msb_w (a XOR ((a XOR b) OR ((a - b) XOR a)))"

definition constant_time_lt_8 :: "u64 \<Rightarrow> u64 \<Rightarrow> u8" where
  "constant_time_lt_8 a b = ucast (constant_time_lt_w a b)"

definition constant_time_ge_w :: "u64 \<Rightarrow> u64 \<Rightarrow> u64" where
  "constant_time_ge_w a b = NOT (constant_time_lt_w a b)"

definition constant_time_ge_8 :: "u64 \<Rightarrow> u64 \<Rightarrow> u8" where
  "constant_time_ge_8 a b = ucast (constant_time_ge_w a b)"

definition constant_time_is_zero_w :: "u64 \<Rightarrow> u64" where
  "constant_time_is_zero_w a = constant_time_msb_w (NOT a AND (a - 1))"

definition constant_time_is_zero_8 :: "u64 \<Rightarrow> u8" where
  "constant_time_is_zero_8 a = ucast (constant_time_is_zero_w a)"

definition constant_time_eq_w :: "u64 \<Rightarrow> u64 \<Rightarrow> u64" where
  "constant_time_eq_w a b = constant_time_is_zero_w (a XOR b)"

definition constant_time_eq_8 :: "u64 \<Rightarrow> u64 \<Rightarrow> u8" where
  "constant_time_eq_8 a b = ucast (constant_time_eq_w a b)"

text \<open>An \<open>int\<close> argument is converted to \<open>crypto_word_t\<close>, which extends its sign.\<close>

definition constant_time_eq_int :: "u32 \<Rightarrow> u32 \<Rightarrow> u64" where
  "constant_time_eq_int a b = constant_time_eq_w (scast a) (scast b)"

definition constant_time_eq_int_8 :: "u32 \<Rightarrow> u32 \<Rightarrow> u8" where
  "constant_time_eq_int_8 a b = constant_time_eq_8 (scast a) (scast b)"

definition constant_time_select_w :: "u64 \<Rightarrow> u64 \<Rightarrow> u64 \<Rightarrow> u64" where
  "constant_time_select_w msk a b = (msk AND a) OR (NOT msk AND b)"

definition constant_time_select_8 :: "u8 \<Rightarrow> u8 \<Rightarrow> u8 \<Rightarrow> u8" where
  "constant_time_select_8 msk a b = ucast (constant_time_select_w (ucast msk) (ucast a) (ucast b))"

definition constant_time_select_int :: "u64 \<Rightarrow> u32 \<Rightarrow> u32 \<Rightarrow> u32" where
  "constant_time_select_int msk a b = ucast (constant_time_select_w msk (scast a) (scast b))"

section \<open>What they compute\<close>

definition ct_mask :: "bool \<Rightarrow> 'a::len word" where
  "ct_mask p = (if p then - 1 else 0)"

lemma drop_63: "drop_bit 63 (a :: u64) = (if bit a 63 then 1 else 0)"
proof (rule bit_word_eqI)
  fix n assume "n < LENGTH(64)"
  show "bit (drop_bit 63 a) n = bit (if bit a 63 then 1 else 0 :: u64) n"
    by (cases "n = 0") (auto simp: bit_drop_bit_eq bit_1_iff dest: bit_imp_le_length)
qed

lemma bit_63: "bit (a :: u64) 63 \<longleftrightarrow> 2 ^ 63 \<le> unat a"
proof -
  have "unat (drop_bit 63 a) = unat a div 2 ^ 63" by (rule unat_drop_bit_div)
  moreover have "unat a div 2 ^ 63 = (if 2 ^ 63 \<le> unat a then 1 else 0)"
    using unat_u64_less [of a] by (auto simp: div_nat_eqI)
  ultimately show ?thesis by (auto simp: drop_63 split: if_splits)
qed

lemma msb_mask: "constant_time_msb_w a = ct_mask (bit a 63)"
  by (simp add: constant_time_msb_w_def ct_mask_def drop_63)

lemma bit_63_minus:
  "bit (a - b) 63 \<longleftrightarrow> a < b" if "bit (a :: u64) 63 = bit b 63"
proof (cases "a < b")
  case True
  then have lt: "unat a < unat b" by (simp add: word_less_nat_alt)
  have d: "unat (a - b) = unat a + 2 ^ 64 - unat b"
    using lt by (simp add: unat_sub_if_size word_size)
  have "2 ^ 63 \<le> unat a \<longleftrightarrow> 2 ^ 63 \<le> unat b" using that by (simp only: bit_63)
  then have "2 ^ 63 \<le> unat (a - b)" unfolding d using lt unat_u64_less [of b]
    by (cases "2 ^ 63 \<le> unat a") (simp_all add: not_le)
  with True show ?thesis by (simp only: bit_63)
next
  case False
  then have "unat (a - b) = unat a - unat b" by (intro unat_sub) simp
  with that False show ?thesis using unat_u64_less [of a] by (auto simp: bit_63)
qed

lemma ct_lt [ct_simps]: "constant_time_lt_w a b = ct_mask (a < b)"
proof -
  have "bit (a XOR ((a XOR b) OR ((a - b) XOR a))) 63 \<longleftrightarrow> a < b"
  proof (cases "bit a 63 = bit b 63")
    case True
    then show ?thesis using bit_63_minus [OF True] by (auto simp: bit_simps)
  next
    case False
    then have "a < b \<longleftrightarrow> bit b 63" by (auto simp: bit_63 word_less_nat_alt)
    with False show ?thesis by (auto simp: bit_simps)
  qed
  then show ?thesis by (simp add: constant_time_lt_w_def msb_mask)
qed

lemma ct_ge [ct_simps]: "constant_time_ge_w a b = ct_mask (a \<ge> b)"
  by (auto simp: constant_time_ge_w_def ct_lt ct_mask_def not_less)

lemma ct_is_zero [ct_simps]: "constant_time_is_zero_w a = ct_mask (a = 0)"
proof -
  have "bit (NOT a AND (a - 1)) 63 \<longleftrightarrow> a = 0"
  proof (cases "a = 0")
    case False
    then have "unat (a - 1) = unat a - 1" by (simp add: unat_minus_one)
    moreover have "bit (NOT a AND (a - 1)) 63 \<longleftrightarrow> \<not> bit a 63 \<and> bit (a - 1) 63"
      by (simp add: bit_and_iff bit_not_iff)
    ultimately show ?thesis using False unfolding bit_63 by auto
  qed (simp add: bit_simps)
  then show ?thesis by (simp add: constant_time_is_zero_w_def msb_mask)
qed

lemma ct_eq [ct_simps]: "constant_time_eq_w a b = ct_mask (a = b)"
proof -
  have "a XOR b = 0 \<longleftrightarrow> a = b" by (auto simp: bit_eq_iff bit_simps)
  then show ?thesis by (simp add: constant_time_eq_w_def ct_is_zero)
qed

lemma ct_mask_u8 [ct_simps]: "ucast (ct_mask p :: u64) = (ct_mask p :: u8)"
  by (cases p) (simp_all add: ct_mask_def, rule bit_word_eqI, simp add: bit_simps)

lemma ct_select [ct_simps]:
  "constant_time_select_w (ct_mask p) a b = (if p then a else b)"
  by (simp add: constant_time_select_w_def ct_mask_def)

lemma ct_select_8 [ct_simps]:
  "constant_time_select_8 (ct_mask p) a b = (if p then a else b)"
proof -
  have "(ucast (ucast x :: u64) :: u8) = x" for x :: u8
    by (rule bit_word_eqI) (simp add: bit_simps)
  moreover have "constant_time_select_8 (- 1) a b = a" "constant_time_select_8 0 a b = b"
    unfolding constant_time_select_8_def constant_time_select_w_def
    by (rule bit_word_eqI; simp add: bit_simps)+
  ultimately show ?thesis by (simp add: ct_mask_def)
qed

lemma ct_eq_8 [ct_simps]: "constant_time_eq_8 a b = ct_mask (a = b)"
  by (simp add: constant_time_eq_8_def ct_simps)

lemma ct_lt_8 [ct_simps]: "constant_time_lt_8 a b = ct_mask (a < b)"
  by (simp add: constant_time_lt_8_def ct_simps)

lemma ct_ge_8 [ct_simps]: "constant_time_ge_8 a b = ct_mask (a \<ge> b)"
  by (simp add: constant_time_ge_8_def ct_simps)

lemma ct_is_zero_8 [ct_simps]: "constant_time_is_zero_8 a = ct_mask (a = 0)"
  by (simp add: constant_time_is_zero_8_def ct_simps)

text \<open>Extending the sign of an \<open>int\<close> loses nothing.\<close>

lemma ucast_scast_u32: "(ucast (scast w :: u64) :: u32) = w"
  by (rule bit_word_eqI) (auto simp: bit_simps)

lemma scast_u32_eq: "(scast i :: u64) = scast j \<longleftrightarrow> i = j" for i j :: u32
  by (metis ucast_scast_u32)

lemma ct_eq_int [ct_simps]: "constant_time_eq_int i j = ct_mask (i = j)"
  by (simp add: constant_time_eq_int_def ct_eq scast_u32_eq)

lemma ct_eq_int_8 [ct_simps]: "constant_time_eq_int_8 i j = ct_mask (i = j)"
  by (simp add: constant_time_eq_int_8_def ct_eq_8 scast_u32_eq)

lemma ct_select_int [ct_simps]: "constant_time_select_int (ct_mask p) i j = (if p then i else j)"
  by (simp add: constant_time_select_int_def ct_select ucast_scast_u32 split: if_split)

text \<open>
  C39. The branch-free operations agree with the comparisons and the conditional expression
  they stand for, on all values: less-than, at-least, equality and the zero test of 64-bit values
  and the equality of two \<open>int\<close> values return all ones or zero accordingly, both as a 64-bit
  and as an 8-bit mask, and a selection of 64-bit, 8-bit or \<open>int\<close> values with an all-ones or
  zero mask picks its first or second argument.
\<close>

theorem constant_time_correct:
  "constant_time_msb_w a = (if 2 ^ 63 \<le> unat a then - 1 else 0) \<and>
   constant_time_lt_w a b = (if a < b then - 1 else 0) \<and>
   constant_time_lt_8 a b = (if a < b then - 1 else 0) \<and>
   constant_time_ge_w a b = (if a \<ge> b then - 1 else 0) \<and>
   constant_time_ge_8 a b = (if a \<ge> b then - 1 else 0) \<and>
   constant_time_is_zero_w a = (if a = 0 then - 1 else 0) \<and>
   constant_time_is_zero_8 a = (if a = 0 then - 1 else 0) \<and>
   constant_time_eq_w a b = (if a = b then - 1 else 0) \<and>
   constant_time_eq_8 a b = (if a = b then - 1 else 0) \<and>
   constant_time_eq_int i j = (if i = j then - 1 else 0) \<and>
   constant_time_eq_int_8 i j = (if i = j then - 1 else 0) \<and>
   constant_time_select_w (if p then - 1 else 0) c d = (if p then c else d) \<and>
   constant_time_select_8 (if p then - 1 else 0) e f = (if p then e else f) \<and>
   constant_time_select_int (if p then - 1 else 0) k l = (if p then k else l) \<and>
   constant_time_select_w (constant_time_lt_w a b) c d = (if a < b then c else d) \<and>
   constant_time_select_8 (constant_time_eq_8 a b) e f = (if a = b then e else f) \<and>
   constant_time_select_int (constant_time_eq_int i j) k l = (if i = j then k else l)"
  by (simp only: ct_mask_def [symmetric] msb_mask bit_63 ct_simps)

end
