(* ===== verification/CBuffer.thy ===== *)
theory CBuffer
  imports CPrelude
begin

text \<open>
  Output buffers and byte strings that the models of the BoringSSL functions share. A buffer
  that a function writes through a pointer is a list of fixed length with a cursor; a write
  outside the list is undefined (\<open>None\<close>), so that a theorem which shows a result also shows
  that every write stays inside the buffer. Also here: reading byte strings as big-endian
  numbers, and cutting lists into blocks of a fixed length.
\<close>

named_theorems buf_simps \<open>writes at the cursor of a buffer\<close>

section \<open>Writing at a cursor\<close>

definition put :: "'a list \<Rightarrow> nat \<Rightarrow> 'a list \<Rightarrow> 'a list option" where
  "put buf i bs = (if i + length bs \<le> length buf
     then Some (take i buf @ bs @ drop (i + length bs) buf) else None)"

lemma put_prefix [buf_simps]:
  "put (p @ r) (length p) bs = (if length bs \<le> length r then Some (p @ bs @ drop (length bs) r) else None)"
  by (simp add: put_def)

lemma put_prefix' :
  "i = length p \<Longrightarrow> length bs \<le> length r \<Longrightarrow> put (p @ r) i bs = Some (p @ bs @ drop (length bs) r)"
  by (simp add: put_def)

lemma put_Nil [simp]: "i \<le> length buf \<Longrightarrow> put buf i [] = Some buf"
  by (simp add: put_def)

lemma put_Some: "i + length bs \<le> length buf \<Longrightarrow> \<exists>buf'. put buf i bs = Some buf'"
  by (simp add: put_def)

lemma length_put: "put buf i bs = Some buf' \<Longrightarrow> length buf' = length buf"
  by (auto simp: put_def split: if_splits)

lemma take_put: "put buf i bs = Some buf' \<Longrightarrow> take (i + length bs) buf' = take i buf @ bs"
  by (auto simp: put_def split: if_splits)

lemma take_eq_mono: "take m xs = take m ys \<Longrightarrow> p \<le> m \<Longrightarrow> take p xs = take p ys"
  by (metis min.absorb1 take_take)

lemma take_put_before: "put buf i bs = Some buf' \<Longrightarrow> q \<le> i \<Longrightarrow> take q buf' = take q buf"
  by (auto simp: put_def min_def split: if_splits)

section \<open>Big-endian numbers\<close>

definition be_nat :: "u8 list \<Rightarrow> nat" where
  "be_nat bs = foldl (\<lambda>n b. 256 * n + unat b) 0 bs"

primrec be_bytes :: "nat \<Rightarrow> nat \<Rightarrow> u8 list" where
  "be_bytes 0 v = []"
| "be_bytes (Suc n) v = be_bytes n (v div 256) @ [word_of_nat v]"

lemma be_nat_Nil [simp]: "be_nat [] = 0"
  by (simp add: be_nat_def)

lemma be_nat_snoc [simp]: "be_nat (bs @ [b]) = 256 * be_nat bs + unat b"
  by (simp add: be_nat_def)

lemma length_be_bytes [simp]: "length (be_bytes n v) = n"
  by (induction n arbitrary: v) auto

lemma be_nat_be_bytes [byte_simps]: "be_nat (be_bytes n v) = v mod 256 ^ n"
proof (induction n arbitrary: v)
  case (Suc n)
  have "v mod 256 ^ Suc n = v mod 256 + 256 * (v div 256 mod 256 ^ n)"
    by (simp add: mod_mult2_eq)
  with Suc show ?case by (simp add: unat_of_nat_u8)
qed simp

lemma be_nat_bound [byte_simps]: "be_nat bs < 256 ^ length bs"
proof (induction bs rule: rev_induct)
  case (snoc b bs)
  have "256 * be_nat bs + unat b < 256 * Suc (be_nat bs)" by simp
  also have "\<dots> \<le> 256 * 256 ^ length bs" using snoc by (intro mult_le_mono2) simp
  finally show ?case by simp
qed simp

lemma be_bytes_be_nat [byte_simps]: "n = length bs \<Longrightarrow> be_bytes n (be_nat bs) = bs"
proof (induction bs arbitrary: n rule: rev_induct)
  case (snoc b bs)
  have "(256 :: u8) = 0" by simp
  then have "(word_of_nat (256 * be_nat bs + unat b) :: u8) = b"
    by (simp del: word_eq_numeral_iff_iszero)
  moreover have "(256 * be_nat bs + unat b) div 256 = be_nat bs" by simp
  ultimately show ?case using snoc by simp
qed simp

section \<open>Assembling words from bytes and bit groups\<close>

lemma nat_push_bit_or: "(n :: nat) < 2 ^ k \<Longrightarrow> push_bit k m OR n = m * 2 ^ k + n"
proof -
  assume n: "n < 2 ^ k"
  then have "\<not> bit n i" if "k \<le> i" for i
    using that by (metis bit_take_bit_iff leD take_bit_nat_eq_self)
  then have "push_bit k m + n = push_bit k m OR n"
    by (intro disjunctive_add) (auto simp: bit_push_bit_iff not_le)
  then show ?thesis by (simp add: push_bit_eq_mult)
qed

lemma unat_push_bit [byte_simps]:
  "unat x * 2 ^ k < 2 ^ LENGTH('a) \<Longrightarrow> unat (push_bit k x :: 'a::len word) = unat x * 2 ^ k"
  by (simp add: unsigned_push_bit_eq push_bit_eq_mult [of k "unat x"] take_bit_nat_eq_self
    del: push_bit_eq_mult)

lemma unat_push_bit_or [byte_simps]:
  assumes "unat x * 2 ^ k < 2 ^ LENGTH('a)" and "unat y < 2 ^ k"
  shows "unat (push_bit k x OR y :: 'a::len word) = unat x * 2 ^ k + unat y"
proof -
  have "unat (push_bit k x OR y) = push_bit k (unat x) OR unat y"
    using unat_push_bit [OF assms(1)] by (simp only: unsigned_or_eq push_bit_eq_mult [of k "unat x"])
  also have "\<dots> = unat x * 2 ^ k + unat y" by (rule nat_push_bit_or [OF assms(2)])
  finally show ?thesis .
qed

lemma bit_7F_word: "bit (0x7F :: 'a::len word) k \<longleftrightarrow> k < LENGTH('a) \<and> k < 7"
proof -
  have eq: "(0x7F :: 'a word) = mask 7" by (simp add: mask_eq_exp_minus_1)
  show ?thesis unfolding eq bit_mask_iff by auto
qed

lemma bit_80_word: "bit (0x80 :: 'a::len word) k \<longleftrightarrow> k < LENGTH('a) \<and> k = 7"
proof -
  have eq: "(0x80 :: 'a word) = push_bit 7 1" by simp
  show ?thesis unfolding eq bit_push_bit_iff bit_1_iff by auto
qed

lemma bit_7F_int [simp]: "bit (0x7F :: int) k \<longleftrightarrow> k < 7"
proof -
  have eq: "(0x7F :: int) = mask 7" by (simp add: mask_eq_exp_minus_1)
  show ?thesis unfolding eq bit_mask_iff by simp
qed

lemma bit_80_int [simp]: "bit (0x80 :: int) k \<longleftrightarrow> k = 7"
proof -
  have eq: "(0x80 :: int) = push_bit 7 1" by simp
  show ?thesis unfolding eq bit_push_bit_iff bit_1_iff by auto
qed

lemma bit_E0_int [simp]: "bit (0xE0 :: int) k \<longleftrightarrow> 5 \<le> k \<and> k < 8"
proof -
  have eq: "(0xE0 :: int) = push_bit 5 (mask 3)" by (simp add: mask_eq_exp_minus_1)
  show ?thesis unfolding eq bit_push_bit_iff bit_mask_iff by auto
qed

lemma bit_1F_int [simp]: "bit (0x1F :: int) k \<longleftrightarrow> k < 5"
proof -
  have eq: "(0x1F :: int) = mask 5" by (simp add: mask_eq_exp_minus_1)
  show ?thesis unfolding eq bit_mask_iff by simp
qed

lemma bit_mask29_int [simp]: "bit (0x1FFFFFFF :: int) k \<longleftrightarrow> k < 29"
proof -
  have eq: "(0x1FFFFFFF :: int) = mask 29" by (simp add: mask_eq_exp_minus_1)
  show ?thesis unfolding eq bit_mask_iff by simp
qed

lemma bit_E0000000_int [simp]: "bit (0xE0000000 :: int) k \<longleftrightarrow> 29 \<le> k \<and> k < 32"
proof -
  have eq: "(0xE0000000 :: int) = push_bit 29 (mask 3)" by (simp add: mask_eq_exp_minus_1)
  show ?thesis unfolding eq bit_push_bit_iff bit_mask_iff by auto
qed

lemma bit_consts_int [simp]:
  "bit (0x3F :: int) k \<longleftrightarrow> k < 6" "bit (0x0F :: int) k \<longleftrightarrow> k < 4" "bit (0x07 :: int) k \<longleftrightarrow> k < 3"
  "bit (0xC0 :: int) k \<longleftrightarrow> 6 \<le> k \<and> k < 8" "bit (0xF0 :: int) k \<longleftrightarrow> 4 \<le> k \<and> k < 8" "bit (0xF8 :: int) k \<longleftrightarrow> 3 \<le> k \<and> k < 8"
proof -
  have eq: "(0x3F :: int) = mask 6" "(0x0F :: int) = mask 4" "(0x07 :: int) = mask 3"
    "(0xC0 :: int) = push_bit 6 (mask 2)" "(0xF0 :: int) = push_bit 4 (mask 4)" "(0xF8 :: int) = push_bit 3 (mask 5)"
    by (simp_all add: mask_eq_exp_minus_1)
  show "bit (0x3F :: int) k \<longleftrightarrow> k < 6" unfolding eq bit_mask_iff by simp
  show "bit (0x0F :: int) k \<longleftrightarrow> k < 4" unfolding eq bit_mask_iff by simp
  show "bit (0x07 :: int) k \<longleftrightarrow> k < 3" unfolding eq bit_mask_iff by simp
  show "bit (0xC0 :: int) k \<longleftrightarrow> 6 \<le> k \<and> k < 8" unfolding eq bit_push_bit_iff bit_mask_iff by auto
  show "bit (0xF0 :: int) k \<longleftrightarrow> 4 \<le> k \<and> k < 8" unfolding eq bit_push_bit_iff bit_mask_iff by auto
  show "bit (0xF8 :: int) k \<longleftrightarrow> 3 \<le> k \<and> k < 8" unfolding eq bit_push_bit_iff bit_mask_iff by auto
qed

section \<open>Cutting a list into blocks\<close>

text \<open>The complete blocks of \<open>n\<close> elements, and what is left behind them.\<close>

function blocks :: "nat \<Rightarrow> 'a list \<Rightarrow> 'a list list" where
  "blocks n xs = (if n = 0 \<or> length xs < n then [] else take n xs # blocks n (drop n xs))"
  by pat_completeness auto
termination by (relation "measure (\<lambda>(n, xs). length xs)") auto

declare blocks.simps [simp del]

definition rest :: "nat \<Rightarrow> 'a list \<Rightarrow> 'a list" where
  "rest n xs = drop (n * (length xs div n)) xs"

lemma blocks_short: "length xs < n \<Longrightarrow> blocks n xs = []"
  by (simp add: blocks.simps)

lemma blocks_step: "0 < n \<Longrightarrow> n \<le> length xs \<Longrightarrow> blocks n xs = take n xs # blocks n (drop n xs)"
  by (subst blocks.simps) simp

lemma rest_short: "length xs < n \<Longrightarrow> rest n xs = xs"
  by (simp add: rest_def)

lemma rest_step: "0 < n \<Longrightarrow> n \<le> length xs \<Longrightarrow> rest n xs = rest n (drop n xs)"
  by (simp add: rest_def le_div_geq add.commute)

lemma blocks_append_block:
  "0 < n \<Longrightarrow> length b = n \<Longrightarrow> blocks n (b @ xs) = b # blocks n xs"
  by (simp add: blocks_step)

lemma rest_append_block: "0 < n \<Longrightarrow> length b = n \<Longrightarrow> rest n (b @ xs) = rest n xs"
  by (subst rest_step) simp_all

lemma blocks_induct [consumes 1, case_names short block]:
  assumes "0 < n"
    and "\<And>xs. length xs < n \<Longrightarrow> P xs"
    and "\<And>b xs. length b = n \<Longrightarrow> P xs \<Longrightarrow> P (b @ xs)"
  shows "P xs"
proof (induction "length xs" arbitrary: xs rule: less_induct)
  case less
  show ?case
  proof (cases "length xs < n")
    case False
    then have "P (take n xs @ drop n xs)" using assms(1) less by (intro assms(3)) auto
    then show ?thesis by simp
  qed (rule assms(2))
qed

lemmas blocks_simps = blocks_short rest_short blocks_append_block rest_append_block

lemma concat_blocks_rest:
  assumes n: "0 < n"
  shows "concat (blocks n xs) @ rest n xs = xs"
  using n by (induction xs rule: blocks_induct [of n]) (simp_all add: n blocks_simps)

lemma length_blocks:
  assumes n: "0 < n"
  shows "length (blocks n xs) = length xs div n"
  using n by (induction xs rule: blocks_induct [of n]) (simp_all add: n blocks_simps div_add_self1)

lemma blocks_append:
  assumes n: "0 < n"
  shows "blocks n (xs @ ys) = blocks n xs @ blocks n (rest n xs @ ys)"
  using n by (induction xs rule: blocks_induct [of n]) (simp_all add: n blocks_simps)

lemma rest_append:
  assumes n: "0 < n"
  shows "rest n (xs @ ys) = rest n (rest n xs @ ys)"
  using n by (induction xs rule: blocks_induct [of n]) (simp_all add: n blocks_simps)

lemma length_rest:
  assumes n: "0 < n"
  shows "length (rest n xs) = length xs mod n"
  using n by (induction xs rule: blocks_induct [of n]) (simp_all add: n blocks_simps)

lemma length_in_blocks:
  assumes n: "0 < n"
  shows "b \<in> set (blocks n xs) \<Longrightarrow> length b = n"
  using n by (induction xs rule: blocks_induct [of n]) (auto simp: n blocks_simps)

end
