(* ===== verification/Base64.thy ===== *)
theory Base64
  imports Ct_Word CBuffer
begin

text \<open>
  BoringSSL: \<open>crypto/base64/base64.c\<close>. The encoder and the decoder, each as a one-shot
  function and as a streaming context. An output pointer is a buffer with a cursor
  (\<open>put\<close>): a write behind the buffer is undefined. Input strings are lists; their length is
  the \<open>in_len\<close> of C. A violated \<open>assert\<close> is undefined as well. \<open>*out_len\<close> is part of
  the result.
\<close>

section \<open>Characters in constant time\<close>

definition constant_time_lt_args_8 :: "u8 \<Rightarrow> u8 \<Rightarrow> u8" where
  "constant_time_lt_args_8 a b = (let aw = ucast a; bw = ucast b in ucast (constant_time_msb_w (aw - bw)))"

definition constant_time_in_range_8 :: "u8 \<Rightarrow> u8 \<Rightarrow> u8 \<Rightarrow> u8" where
  "constant_time_in_range_8 a mn mx = (let a = a - mn in constant_time_lt_args_8 a (mx - mn + 1))"

text \<open>The character codes: \<open>+\<close> 2B, \<open>/\<close> 2F, \<open>0\<close> 30, \<open>9\<close> 39, \<open>=\<close> 3D, \<open>A\<close> 41, \<open>Z\<close> 5A,
  \<open>a\<close> 61, \<open>z\<close> 7A.\<close>

definition conv_bin2ascii :: "u8 \<Rightarrow> u8" where
  "conv_bin2ascii a = (let
     a = a AND 0x3F;
     r = constant_time_select_8 (constant_time_eq_8 (ucast a) 62) 0x2B 0x2F;
     r = constant_time_select_8 (constant_time_lt_args_8 a 62) (a - 52 + 0x30) r;
     r = constant_time_select_8 (constant_time_lt_args_8 a 52) (a - 26 + 0x61) r;
     r = constant_time_select_8 (constant_time_lt_args_8 a 26) (a + 0x41) r
   in r)"

definition base64_ascii_to_bin :: "u8 \<Rightarrow> u8" where
  "base64_ascii_to_bin a = (let
     is_upper = constant_time_in_range_8 a 0x41 0x5A;
     is_lower = constant_time_in_range_8 a 0x61 0x7A;
     is_digit = constant_time_in_range_8 a 0x30 0x39;
     is_plus = constant_time_eq_8 (ucast a) 0x2B;
     is_slash = constant_time_eq_8 (ucast a) 0x2F;
     is_equals = constant_time_eq_8 (ucast a) 0x3D;
     r = 0xFF;
     r = constant_time_select_8 is_upper (a - 0x41) r;
     r = constant_time_select_8 is_lower (a - 0x61 + 26) r;
     r = constant_time_select_8 is_digit (a - 0x30 + 52) r;
     r = constant_time_select_8 is_plus 62 r;
     r = constant_time_select_8 is_slash 63 r;
     r = constant_time_select_8 is_equals 0 r
   in r)"

section \<open>Encoding\<close>

record evp_encode_ctx =
  data_used :: u32
  ctx_data :: "u8 list"
  eof_seen :: bool
  error_encountered :: bool

definition sizeof_data :: nat where "sizeof_data = 48"

abbreviation INT_MAX :: nat where "INT_MAX \<equiv> 2147483647"

definition EVP_EncodedLength :: "u64 \<Rightarrow> u64 option" where
  "EVP_EncodedLength n =
    (if n + 2 < n then None
     else let n = (n + 2) div 3 in
       if drop_bit 2 (push_bit 2 n) \<noteq> n then None
       else let n = push_bit 2 n in
         if n + 1 < n then None else Some (n + 1))"

definition EVP_EncodeInit :: evp_encode_ctx where
  "EVP_EncodeInit = \<lparr>data_used = 0, ctx_data = replicate sizeof_data 0, eof_seen = False,
     error_encountered = False\<rparr>"

text \<open>The loop of \<open>EVP_EncodeBlock\<close>: cursor, result and the source that remains.\<close>

fun encode_loop :: "u8 list \<Rightarrow> nat \<Rightarrow> u64 \<Rightarrow> u8 list \<Rightarrow> (u8 list \<times> nat \<times> u64) option" where
  "encode_loop dst d r [] = Some (dst, d, r)"
| "encode_loop dst d r (s0 # s1 # s2 # src) = (
     let l = push_bit 16 (ucast s0) OR push_bit 8 (ucast s1) OR ucast s2 :: u32 in do {
       dst \<leftarrow> put dst d [conv_bin2ascii (ucast (drop_bit 18 l)), conv_bin2ascii (ucast (drop_bit 12 l)),
         conv_bin2ascii (ucast (drop_bit 6 l)), conv_bin2ascii (ucast l)];
       encode_loop dst (d + 4) (r + 4) src })"
| "encode_loop dst d r src = (
     let l = push_bit 16 (ucast (src ! 0)) :: u32;
       l = (if length src = 2 then l OR push_bit 8 (ucast (src ! 1)) else l) in do {
       dst \<leftarrow> put dst d [conv_bin2ascii (ucast (drop_bit 18 l)), conv_bin2ascii (ucast (drop_bit 12 l)),
         (if length src = 1 then 0x3D else conv_bin2ascii (ucast (drop_bit 6 l))), 0x3D];
       Some (dst, d + 4, r + 4) })"

definition EVP_EncodeBlock :: "u8 list \<Rightarrow> nat \<Rightarrow> u8 list \<Rightarrow> (u8 list \<times> u64) option" where
  "EVP_EncodeBlock dst d src = do {
     (dst, d, r) \<leftarrow> encode_loop dst d 0 src;
     dst \<leftarrow> put dst d [0];
     Some (dst, r) }"

text \<open>One line: a block, a newline and a terminating zero that the next write overwrites.\<close>

definition encode_line :: "u8 list \<Rightarrow> nat \<Rightarrow> u8 list \<Rightarrow> (u8 list \<times> nat \<times> u64) option" where
  "encode_line out d src = do {
     (out, encoded) \<leftarrow> EVP_EncodeBlock out d src;
     let d = d + unat encoded;
     out \<leftarrow> put out d [0x0A];
     let d = d + 1;
     out \<leftarrow> put out d [0];
     Some (out, d, encoded) }"

text \<open>The loop over whole lines; the last component tells that the sum of the lengths has
  overflowed, which ends the function with \<open>*out_len = 0\<close>.\<close>

function encode_lines ::
  "u8 list \<Rightarrow> nat \<Rightarrow> u64 \<Rightarrow> u8 list \<Rightarrow> (u8 list \<times> u64 \<times> u8 list \<times> bool) option" where
  "encode_lines out d tot inp = (
     if length inp < sizeof_data then Some (out, tot, inp, False)
     else do {
       (out, d, encoded) \<leftarrow> encode_line out d (take sizeof_data inp);
       if tot + encoded + 1 < tot then Some (out, tot, drop sizeof_data inp, True)
       else encode_lines out d (tot + (encoded + 1)) (drop sizeof_data inp) })"
  by pat_completeness auto
termination
  by (relation "measure (\<lambda>(out, d, tot, inp). length inp)") (auto simp: sizeof_data_def)

text \<open>The second half of \<open>EVP_EncodeUpdate\<close>, from the loop on.\<close>

definition encode_update_rest ::
  "evp_encode_ctx \<Rightarrow> u8 list \<Rightarrow> nat \<Rightarrow> u64 \<Rightarrow> u8 list \<Rightarrow> (evp_encode_ctx \<times> u8 list \<times> nat) option" where
  "encode_update_rest ctx out d tot inp = do {
     (out, tot, inp, overflow) \<leftarrow> encode_lines out d tot inp;
     if overflow then Some (ctx, out, 0)
     else do {
       dat \<leftarrow> put (ctx_data ctx) 0 inp;
       let ctx = ctx\<lparr>ctx_data := dat, data_used := word_of_nat (length inp)\<rparr>;
       let tot = (if unat tot > INT_MAX then 0 else tot);
       Some (ctx, out, unat tot) } }"

definition EVP_EncodeUpdate ::
  "evp_encode_ctx \<Rightarrow> u8 list \<Rightarrow> u8 list \<Rightarrow> (evp_encode_ctx \<times> u8 list \<times> nat) option" where
  "EVP_EncodeUpdate ctx out inp = (
     let used = unat (data_used ctx) in
     if length inp = 0 then Some (ctx, out, 0)
     else if \<not> used < sizeof_data then None
     else if sizeof_data - used > length inp then do {
       dat \<leftarrow> put (ctx_data ctx) used inp;
       Some (ctx\<lparr>ctx_data := dat, data_used := data_used ctx + word_of_nat (length inp)\<rparr>, out, 0) }
     else if used \<noteq> 0 then do {
       let todo = sizeof_data - used;
       dat \<leftarrow> put (ctx_data ctx) used (take todo inp);
       (out, d, encoded) \<leftarrow> encode_line out 0 dat;
       encode_update_rest (ctx\<lparr>ctx_data := dat, data_used := 0\<rparr>) out d (encoded + 1) (drop todo inp) }
     else encode_update_rest ctx out 0 0 inp)"

definition EVP_EncodeFinal ::
  "evp_encode_ctx \<Rightarrow> u8 list \<Rightarrow> (evp_encode_ctx \<times> u8 list \<times> nat) option" where
  "EVP_EncodeFinal ctx out = (
     if data_used ctx = 0 then Some (ctx, out, 0)
     else if unat (data_used ctx) > length (ctx_data ctx) then None
     else do {
       (out, encoded) \<leftarrow> EVP_EncodeBlock out 0 (take (unat (data_used ctx)) (ctx_data ctx));
       out \<leftarrow> put out (unat encoded) [0x0A];
       let encoded = encoded + 1;
       out \<leftarrow> put out (unat encoded) [0];
       if unat encoded \<le> INT_MAX then Some (ctx\<lparr>data_used := 0\<rparr>, out, unat encoded) else None })"

section \<open>Decoding\<close>

definition EVP_DecodedLength :: "u64 \<Rightarrow> u64 option" where
  "EVP_DecodedLength n = (if n mod 4 \<noteq> 0 then None else Some ((n div 4) * 3))"

definition EVP_DecodeInit :: evp_encode_ctx where
  "EVP_DecodeInit = \<lparr>data_used = 0, ctx_data = replicate sizeof_data 0, eof_seen = False,
     error_encountered = False\<rparr>"

text \<open>The bytes that a quad stands for, or \<open>None\<close> when it is not valid. The caller's buffer
  receives them with \<open>put\<close>.\<close>

definition base64_decode_quad :: "u8 \<Rightarrow> u8 \<Rightarrow> u8 \<Rightarrow> u8 \<Rightarrow> u8 list option" where
  "base64_decode_quad i0 i1 i2 i3 = (let
     a = base64_ascii_to_bin i0; b = base64_ascii_to_bin i1;
     c = base64_ascii_to_bin i2; d = base64_ascii_to_bin i3 in
     if a = 0xFF \<or> b = 0xFF \<or> c = 0xFF \<or> d = 0xFF then None
     else let
       v = push_bit 18 (ucast a) OR push_bit 12 (ucast b) OR push_bit 6 (ucast c) OR ucast d :: u32;
       padding_pattern = push_bit 3 (of_bool (i0 = 0x3D)) OR push_bit 2 (of_bool (i1 = 0x3D))
         OR push_bit 1 (of_bool (i2 = 0x3D)) OR of_bool (i3 = 0x3D) :: u32 in
       if padding_pattern = 0 then Some [ucast (drop_bit 16 v), ucast (drop_bit 8 v), ucast v]
       else if padding_pattern = 1 then Some [ucast (drop_bit 16 v), ucast (drop_bit 8 v)]
       else if padding_pattern = 3 then Some [ucast (drop_bit 16 v)]
       else None)"

definition is_space :: "u8 \<Rightarrow> bool" where
  "is_space c \<longleftrightarrow> c = 0x20 \<or> c = 0x09 \<or> c = 0x0D \<or> c = 0x0A"

text \<open>The loop of \<open>EVP_DecodeUpdate\<close> over the input characters: context, buffer and the
  number of bytes written; \<open>Inl\<close> is the return of -1 from inside the loop.\<close>

fun decode_chars ::
  "evp_encode_ctx \<Rightarrow> u8 list \<Rightarrow> nat \<Rightarrow> u8 list \<Rightarrow>
    ((evp_encode_ctx \<times> u8 list) + (evp_encode_ctx \<times> u8 list \<times> nat)) option" where
  "decode_chars ctx out n [] = Some (Inr (ctx, out, n))"
| "decode_chars ctx out n (c # cs) = (
     if is_space c then decode_chars ctx out n cs
     else if eof_seen ctx then Some (Inl (ctx\<lparr>error_encountered := True\<rparr>, out))
     else do {
       dat \<leftarrow> put (ctx_data ctx) (unat (data_used ctx)) [c];
       let ctx = ctx\<lparr>ctx_data := dat, data_used := data_used ctx + 1\<rparr>;
       if data_used ctx = 4 then
         (case base64_decode_quad (dat ! 0) (dat ! 1) (dat ! 2) (dat ! 3) of
            None \<Rightarrow> Some (Inl (ctx\<lparr>error_encountered := True\<rparr>, out))
          | Some bs \<Rightarrow> do {
              out \<leftarrow> put out n bs;
              let ctx = ctx\<lparr>data_used := 0\<rparr>;
              let ctx = (if length bs < 3 then ctx\<lparr>eof_seen := True\<rparr> else ctx);
              decode_chars ctx out (n + length bs) cs })
       else decode_chars ctx out n cs })"

text \<open>Result: the return value, \<open>*out_len\<close>, the context and the buffer.\<close>

definition EVP_DecodeUpdate ::
  "evp_encode_ctx \<Rightarrow> u8 list \<Rightarrow> u8 list \<Rightarrow> (int \<times> nat \<times> evp_encode_ctx \<times> u8 list) option" where
  "EVP_DecodeUpdate ctx out inp = (
     if error_encountered ctx then Some (- 1, 0, ctx, out)
     else do {
       r \<leftarrow> decode_chars ctx out 0 inp;
       (case r of
          Inl (ctx, out) \<Rightarrow> Some (- 1, 0, ctx, out)
        | Inr (ctx, out, bytes_out) \<Rightarrow>
            if bytes_out > INT_MAX then Some (- 1, 0, ctx\<lparr>error_encountered := True\<rparr>, out)
            else if eof_seen ctx then Some (0, bytes_out, ctx, out)
            else Some (1, bytes_out, ctx, out)) })"

definition EVP_DecodeFinal :: "evp_encode_ctx \<Rightarrow> int \<times> nat" where
  "EVP_DecodeFinal ctx = (if error_encountered ctx \<or> data_used ctx \<noteq> 0 then (- 1, 0) else (1, 0))"

text \<open>The loop of \<open>EVP_DecodeBase64\<close>: the flag tells whether it went through, then the
  buffer and the bytes written. The input has a length divisible by four.\<close>

fun decode_quads :: "u8 list \<Rightarrow> nat \<Rightarrow> u8 list \<Rightarrow> (bool \<times> u8 list \<times> nat) option" where
  "decode_quads out n (i0 # i1 # i2 # i3 # inp) =
     (case base64_decode_quad i0 i1 i2 i3 of
        None \<Rightarrow> Some (False, out, n)
      | Some bs \<Rightarrow> do {
          out \<leftarrow> put out n bs;
          if length bs \<noteq> 3 \<and> inp \<noteq> [] then Some (False, out, n + length bs)
          else decode_quads out (n + length bs) inp })"
| "decode_quads out n _ = Some (True, out, n)"

text \<open>Result: the return value, the buffer and \<open>*out_len\<close>.\<close>

definition EVP_DecodeBase64 :: "u8 list \<Rightarrow> u64 \<Rightarrow> u8 list \<Rightarrow> (bool \<times> u8 list \<times> nat) option" where
  "EVP_DecodeBase64 out max_out inp = (
     if length inp mod 4 \<noteq> 0 then Some (False, out, 0)
     else case EVP_DecodedLength (word_of_nat (length inp)) of
       None \<Rightarrow> Some (False, out, 0)
     | Some max_len \<Rightarrow>
         if max_out < max_len then Some (False, out, 0)
         else do {
           (ok, out, n) \<leftarrow> decode_quads out 0 inp;
           Some (ok, out, if ok then n else 0) })"

definition trim_front :: "u8 list \<Rightarrow> u8 list" where
  "trim_front src = dropWhile (\<lambda>c. c = 0x20 \<or> c = 0x09) src"

definition trim_back :: "u8 list \<Rightarrow> u8 list" where
  "trim_back src = rev (dropWhile is_space (rev src))"

text \<open>The padding with zeros up to a multiple of three.\<close>

function pad_nul :: "u8 list \<Rightarrow> nat \<Rightarrow> (u8 list \<times> nat) option" where
  "pad_nul dst n = (if n mod 3 = 0 then Some (dst, n)
     else do { dst \<leftarrow> put dst n [0]; pad_nul dst (n + 1) })"
  by pat_completeness auto
termination
proof (relation "measure (\<lambda>(dst, n). (3 - n mod 3) mod 3)", goal_cases)
  case (2 dst n x)
  then have "n mod 3 = 1 \<or> n mod 3 = 2" by linarith
  then show ?case by (auto simp: mod_Suc)
qed simp

definition EVP_DecodeBlock :: "u8 list \<Rightarrow> u8 list \<Rightarrow> (int \<times> u8 list) option" where
  "EVP_DecodeBlock dst src = (
     let src = trim_back (trim_front src) in
     case EVP_DecodedLength (word_of_nat (length src)) of
       None \<Rightarrow> Some (- 1, dst)
     | Some dst_len \<Rightarrow>
         if unat dst_len > INT_MAX then Some (- 1, dst)
         else do {
           (ok, dst, n) \<leftarrow> EVP_DecodeBase64 dst dst_len src;
           if \<not> ok then Some (- 1, dst)
           else do {
             (dst, n) \<leftarrow> pad_nul dst n;
             if n \<le> INT_MAX then Some (int n, dst) else None } })"

declare encode_lines.simps [simp del] pad_nul.simps [simp del]

end
