(* ===== verification/Base64_Spec.thy ===== *)
theory Base64_Spec
  imports Base64
begin

text \<open>
  What \<open>base64.c\<close> promises: the encoder writes the base64 text of RFC 4648 (for a streaming
  context in lines of 64 characters), independently of how the input is cut into pieces, the
  decoder inverts it for any way of cutting the text, and no write leaves a buffer of the
  announced size.
\<close>

section \<open>Reference encoding\<close>

definition b64_alphabet :: "u8 list" where
  "b64_alphabet = map of_char ''ABCDEFGHIJKLMNOPQRSTUVWXYZabcdefghijklmnopqrstuvwxyz0123456789+/''"

definition b64_digit :: "nat \<Rightarrow> u8" where
  "b64_digit n = b64_alphabet ! (n mod 64)"

fun b64 :: "u8 list \<Rightarrow> u8 list" where
  "b64 [] = []"
| "b64 [a] = (let n = unat a * 16 in [b64_digit (n div 64), b64_digit n, 0x3D, 0x3D])"
| "b64 [a, b] = (let n = (unat a * 256 + unat b) * 4 in
     [b64_digit (n div 4096), b64_digit (n div 64), b64_digit n, 0x3D])"
| "b64 (a # b # c # r) = (let n = unat a * 65536 + unat b * 256 + unat c in
     [b64_digit (n div 262144), b64_digit (n div 4096), b64_digit (n div 64), b64_digit n] @ b64 r)"

lemma length_b64: "length (b64 xs) = 4 * ((length xs + 2) div 3)"
  by (induction xs rule: b64.induct) (simp_all add: Let_def, presburger)

section \<open>Characters\<close>

lemma lt_args_8 [ct_simps]: "constant_time_lt_args_8 a b = ct_mask (a < b)"
proof -
  have m: "\<not> bit (ucast (x :: u8) :: u64) 63" for x
    by (auto simp: bit_ucast_iff dest: bit_imp_le_length)
  have "bit (ucast a - ucast b :: u64) 63 \<longleftrightarrow> a < b"
    using bit_63_minus [of "ucast a" "ucast b"] m by (simp add: word_less_nat_alt)
  then show ?thesis by (simp add: constant_time_lt_args_8_def Let_def msb_mask ct_mask_u8)
qed

lemma in_range_8 [ct_simps]: "constant_time_in_range_8 a mn mx = ct_mask (a - mn < mx - mn + 1)"
  by (simp add: constant_time_in_range_8_def Let_def ct_simps)

lemma ucast_u8_eq: "(ucast (a :: u8) :: u64) = ucast b \<longleftrightarrow> a = b" for b :: u8
  by (metis unat_ucast_u8_u64 of_nat_unat_u64)

lemma conv_ct: "conv_bin2ascii a = (let a = a AND 0x3F in
    if a < 26 then a + 0x41 else if a < 52 then a - 26 + 0x61
    else if a < 62 then a - 52 + 0x30 else if a = 62 then 0x2B else 0x2F)"
proof -
  have "(ucast x :: u64) = 62 \<longleftrightarrow> x = 62" for x :: u8
    using ucast_u8_eq [of x 62] by simp
  then show ?thesis by (simp add: conv_bin2ascii_def Let_def ct_simps)
qed

lemma to_bin_ct: "base64_ascii_to_bin a =
   (if a = 0x3D then 0 else if a = 0x2F then 63 else if a = 0x2B then 62
    else if a - 0x30 < 10 then a - 0x30 + 52 else if a - 0x61 < 26 then a - 0x61 + 26
    else if a - 0x41 < 26 then a - 0x41 else 0xFF)"
proof -
  have "(ucast x :: u64) = 0x2B \<longleftrightarrow> x = 0x2B" "(ucast x :: u64) = 0x2F \<longleftrightarrow> x = 0x2F"
    "(ucast x :: u64) = 0x3D \<longleftrightarrow> x = 0x3D" for x :: u8
    using ucast_u8_eq [of x "0x2B"] ucast_u8_eq [of x "0x2F"] ucast_u8_eq [of x "0x3D"] by simp_all
  then show ?thesis by (simp add: base64_ascii_to_bin_def Let_def ct_simps)
qed

lemma b64_alphabet_codes: "b64_alphabet =
  [65, 66, 67, 68, 69, 70, 71, 72, 73, 74, 75, 76, 77, 78, 79, 80, 81, 82, 83, 84, 85, 86, 87, 88, 89, 90,
   97, 98, 99, 100, 101, 102, 103, 104, 105, 106, 107, 108, 109, 110, 111, 112, 113, 114, 115, 116, 117,
   118, 119, 120, 121, 122, 48, 49, 50, 51, 52, 53, 54, 55, 56, 57, 43, 47]"
  by (simp add: b64_alphabet_def)

lemma all_digits_list:
  "list_all2 (\<lambda>n c. conv_bin2ascii (word_of_nat n) = c \<and> base64_ascii_to_bin c = word_of_nat n \<and>
     c \<noteq> 0x3D \<and> \<not> is_space c) [0..<64] b64_alphabet"
  unfolding conv_ct to_bin_ct b64_alphabet_codes is_space_def by (simp add: upt_conv_Cons)

lemma all_digits:
  assumes "n < 64"
  shows "conv_bin2ascii (word_of_nat n) = b64_digit n \<and>
     base64_ascii_to_bin (b64_digit n) = word_of_nat n \<and> b64_digit n \<noteq> 0x3D \<and> \<not> is_space (b64_digit n)"
  using list_all2_nthD [OF all_digits_list, of n] assms by (simp add: b64_digit_def)

lemma b64_digit_mod: "b64_digit (n mod 64) = b64_digit n"
  by (simp add: b64_digit_def)

lemma digit_facts [simp]:
  "base64_ascii_to_bin (b64_digit n) = word_of_nat (n mod 64)"
  "b64_digit n \<noteq> 0x3D" "\<not> is_space (b64_digit n)"
  using all_digits [of "n mod 64"] by (simp_all add: b64_digit_mod)

lemma conv_digit: "conv_bin2ascii a = b64_digit (unat a)"
proof -
  have m: "a AND 0x3F = word_of_nat (unat a mod 64)"
  proof -
    have "a AND 0x3F = take_bit 6 a" by (simp add: take_bit_eq_mask mask_eq_exp_minus_1)
    then have "unat (a AND 0x3F) = unat a mod 64"
      by (simp only: unsigned_take_bit_eq take_bit_eq_mod [of 6 "unat a"]) simp
    then show ?thesis by (metis of_nat_unat_u64)
  qed
  have "conv_bin2ascii a = conv_bin2ascii (a AND 0x3F)"
    by (simp add: conv_bin2ascii_def and.assoc)
  also have "\<dots> = b64_digit (unat a mod 64)"
    unfolding m using all_digits [of "unat a mod 64"] by simp
  finally show ?thesis by (simp add: b64_digit_mod)
qed

lemma conv_shift: "conv_bin2ascii (ucast (drop_bit k (l :: u32))) = b64_digit (unat l div 2 ^ k)"
proof -
  have "unat (ucast w :: u8) = unat w mod 256" for w :: u32
    by (simp add: unsigned_ucast_eq take_bit_eq_mod)
  moreover have "b64_digit (n mod 256) = b64_digit n" for n
    by (simp add: b64_digit_def mod_mod_cancel)
  ultimately show ?thesis by (simp add: conv_digit unat_drop_bit_div)
qed

lemma conv_low: "conv_bin2ascii (ucast (l :: u32)) = b64_digit (unat l)"
  using conv_shift [of 0 l] by simp

lemma unat_24:
  "unat (push_bit 16 (ucast (a :: u8)) OR push_bit 8 (ucast (b :: u8)) OR ucast (c :: u8) :: u32)
   = unat a * 65536 + unat b * 256 + unat c"
  "unat (push_bit 16 (ucast a) OR push_bit 8 (ucast b) :: u32) = unat a * 65536 + unat b * 256"
  "unat (push_bit 16 (ucast a) :: u32) = unat a * 65536"
proof -
  have l: "unat a < 256" "unat b < 256" "unat c < 256"
    "unat a < 65536" "unat b < 16777216" "unat c < 65536"
    "unat b * 256 + unat c < 65536"
    using unat_u8_less [of a] unat_u8_less [of b] unat_u8_less [of c] by linarith+
  have bc: "unat (push_bit 8 (ucast b) OR ucast c :: u32) = unat b * 256 + unat c"
    using l by (subst unat_push_bit_or) simp_all
  then show "unat (push_bit 16 (ucast a) OR push_bit 8 (ucast b) OR ucast c :: u32)
      = unat a * 65536 + unat b * 256 + unat c"
    using l by (subst unat_push_bit_or) simp_all
  have "unat (push_bit 8 (ucast b) :: u32) = unat b * 256"
    using l by (subst unat_push_bit) simp_all
  then show "unat (push_bit 16 (ucast a) OR push_bit 8 (ucast b) :: u32) = unat a * 65536 + unat b * 256"
    using l by (subst unat_push_bit_or) simp_all
  show "unat (push_bit 16 (ucast a) :: u32) = unat a * 65536"
    using l by (subst unat_push_bit) simp_all
qed


section \<open>Encoding\<close>

lemma encode_loop_steps:
  "encode_loop dst d k (a # b # c # src) =
    (let n = unat a * 65536 + unat b * 256 + unat c in do {
       dst \<leftarrow> put dst d [b64_digit (n div 262144), b64_digit (n div 4096), b64_digit (n div 64), b64_digit n];
       encode_loop dst (d + 4) (k + 4) src })"
  "encode_loop dst d k [a, b] = do { dst \<leftarrow> put dst d (b64 [a, b]); Some (dst, d + 4, k + 4) }"
  "encode_loop dst d k [a] = do { dst \<leftarrow> put dst d (b64 [a]); Some (dst, d + 4, k + 4) }"
proof -
  have e: "unat a * 65536 + unat b * 256 = 64 * ((unat a * 256 + unat b) * 4)"
    "unat a * 65536 = 64 * (64 * (unat a * 16))" by simp_all
  have n: "64 * x div 262144 = x div (4096 :: nat)" "64 * x div 4096 = x div (64 :: nat)"
    "64 * x div 64 = (x :: nat)" for x by simp_all
  have p: "(2 :: nat) ^ 18 = 262144" "(2 :: nat) ^ 12 = 4096" "(2 :: nat) ^ 6 = 64" by simp_all
  have l: "(length [a, b] = 2) = True" "(length [a, b] = 1) = False" "(length [a] = 2) = False"
    "(length [a] = 1) = True" by simp_all
  show "encode_loop dst d k (a # b # c # src) =
    (let n = unat a * 65536 + unat b * 256 + unat c in do {
       dst \<leftarrow> put dst d [b64_digit (n div 262144), b64_digit (n div 4096), b64_digit (n div 64), b64_digit n];
       encode_loop dst (d + 4) (k + 4) src })"
    unfolding encode_loop.simps Let_def conv_shift unfolding conv_low unat_24 by simp
  show "encode_loop dst d k [a, b] = do { dst \<leftarrow> put dst d (b64 [a, b]); Some (dst, d + 4, k + 4) }"
    unfolding encode_loop.simps Let_def conv_shift l if_True if_False
    unfolding One_nat_def nth_Cons_Suc nth_Cons_0
    unfolding unat_24 b64.simps e(1) p n Let_def ..
  show "encode_loop dst d k [a] = do { dst \<leftarrow> put dst d (b64 [a]); Some (dst, d + 4, k + 4) }"
    unfolding encode_loop.simps Let_def conv_shift l if_True if_False
    unfolding nth_Cons_0
    unfolding unat_24 b64.simps e(2) p n Let_def ..
qed

lemma encode_loop_b64:
  "length p = d \<Longrightarrow> length (b64 src) \<le> length r \<Longrightarrow>
   encode_loop (p @ r) d k src =
     Some (p @ b64 src @ drop (length (b64 src)) r, d + length (b64 src), k + word_of_nat (length (b64 src)))"
proof (induction src arbitrary: p r d k rule: b64.induct)
  case (4 a b c src)
  define q where "q = [b64_digit ((unat a * 65536 + unat b * 256 + unat c) div 262144),
    b64_digit ((unat a * 65536 + unat b * 256 + unat c) div 4096),
    b64_digit ((unat a * 65536 + unat b * 256 + unat c) div 64),
    b64_digit (unat a * 65536 + unat b * 256 + unat c)]"
  have l: "length q = 4" by (simp add: q_def)
  have b: "b64 (a # b # c # src) = q @ b64 src" by (simp add: Let_def q_def)
  have "put (p @ r) d q = Some ((p @ q) @ drop 4 r)"
    using 4(2,3) l unfolding b by (subst put_prefix') simp_all
  moreover have "encode_loop ((p @ q) @ drop 4 r) (d + 4) (k + 4) src =
      Some ((p @ q) @ b64 src @ drop (length (b64 src)) (drop 4 r), d + 4 + length (b64 src),
        k + 4 + word_of_nat (length (b64 src)))"
    using 4(2,3) l unfolding b by (intro 4(1)) auto
  ultimately show ?case
    unfolding b encode_loop_steps Let_def q_def [symmetric] using l by (simp add: ac_simps)
qed (simp_all add: encode_loop_steps(2,3) put_prefix' length_b64 del: b64.simps(2,3) encode_loop.simps(3,4))

lemma encode_block_b64:
  assumes "length p = d" and "length (b64 src) < length r"
  shows "EVP_EncodeBlock (p @ r) d src =
    Some (p @ b64 src @ [0] @ drop (length (b64 src) + 1) r, word_of_nat (length (b64 src)))"
proof -
  have "put ((p @ b64 src) @ drop (length (b64 src)) r) (d + length (b64 src)) [0] =
      Some ((p @ b64 src) @ [0] @ drop 1 (drop (length (b64 src)) r))"
    using assms by (subst put_prefix') simp_all
  then show ?thesis
    using assms by (simp add: EVP_EncodeBlock_def encode_loop_b64)
qed

lemma encoded_length_eq:
  assumes "n < 2 ^ 64"
  shows "EVP_EncodedLength (word_of_nat n) =
    (if 4 * ((n + 2) div 3) + 1 < 2 ^ 64 then Some (word_of_nat (4 * ((n + 2) div 3) + 1)) else None)"
proof (cases "n + 2 < 2 ^ 64")
  case False
  then consider "n = 2 ^ 64 - 2" | "n = 2 ^ 64 - 1" using assms by linarith
  then have "unat (word_of_nat n + 2 :: u64) < unat (word_of_nat n :: u64)"
    by cases (simp_all add: unat_word_ariths unat_of_nat)
  then show ?thesis using False by (simp add: EVP_EncodedLength_def word_less_nat_alt)
next
  case True
  define m where "m = (n + 2) div 3"
  have u: "unat (word_of_nat n + 2 :: u64) = n + 2" "unat (word_of_nat n :: u64) = n"
    using True by (simp_all add: unat_word_ariths unat_of_nat)
  then have "unat ((word_of_nat n + 2 :: u64) div 3) = m" by (simp add: unat_div_distrib m_def)
  then have d: "(word_of_nat n + 2 :: u64) div 3 = word_of_nat m" by (metis of_nat_unat_u64)
  have m: "m < 2 ^ 63" using True by (simp add: m_def)
  show ?thesis
  proof (cases "4 * m < 2 ^ 64")
    case fits: True
    have p: "push_bit 2 (word_of_nat m :: u64) = word_of_nat (4 * m)"
      by (simp add: push_bit_eq_mult)
    have "unat (word_of_nat (4 * m) :: u64) div 4 = unat (word_of_nat m :: u64)"
      using fits by (simp add: unat_of_nat del: of_nat_mult)
    then have q: "drop_bit 2 (push_bit 2 (word_of_nat m :: u64)) = word_of_nat m"
      unfolding p by (metis unat_drop_bit_div of_nat_unat_u64 numeral_Bit0 mult_2 power2_eq_square numeral_times_numeral)
    have "4 * m + 1 < 2 ^ 64" using fits by simp
    then have c: "\<not> (word_of_nat (4 * m) + 1 :: u64) < word_of_nat (4 * m)"
      by (simp add: word_less_nat_alt unat_word_ariths unat_of_nat del: of_nat_mult)
    have c': "\<not> (word_of_nat n + 2 :: u64) < word_of_nat n" using u by (simp add: word_less_nat_alt)
    have "EVP_EncodedLength (word_of_nat n) = Some (word_of_nat (4 * m) + 1)"
      by (simp only: EVP_EncodedLength_def Let_def d q [unfolded p] p c c' simp_thms if_False)
    then show ?thesis using \<open>4 * m + 1 < 2 ^ 64\<close> unfolding m_def [symmetric] by simp
  next
    case False
    have "unat (push_bit 2 (word_of_nat m :: u64)) div 4 \<noteq> m"
      using False unat_u64_less [of "push_bit 2 (word_of_nat m)"] by linarith
    moreover have "unat (word_of_nat m :: u64) = m" using m by (simp add: unat_of_nat)
    ultimately have q: "(drop_bit 2 (push_bit 2 (word_of_nat m :: u64)) \<noteq> word_of_nat m) = True"
      using unat_drop_bit_div [of 2 "push_bit 2 (word_of_nat m :: u64)"] by auto
    have "EVP_EncodedLength (word_of_nat n) = None"
      by (simp only: EVP_EncodedLength_def Let_def d q if_True if_cancel)
    then show ?thesis using False unfolding m_def [symmetric] by simp
  qed
qed

text \<open>
  \<open>EVP_EncodedLength\<close> announces the length of the base64 text and its terminating zero, and
  fails exactly when that does not fit 64 bits; into a buffer with that many bytes behind the
  cursor \<open>EVP_EncodeBlock\<close> writes the text and the zero, touches nothing else and returns the
  length of the text.
\<close>

theorem encode_block_correct:
  assumes "length src < 2 ^ 64" and "d + length (b64 src) + 1 \<le> length dst"
  shows "EVP_EncodedLength (word_of_nat (length src)) =
      (if length (b64 src) + 1 < 2 ^ 64 then Some (word_of_nat (length (b64 src) + 1)) else None) \<and>
    EVP_EncodeBlock dst d src =
      Some (take d dst @ b64 src @ [0] @ drop (d + length (b64 src) + 1) dst, word_of_nat (length (b64 src)))"
proof
  show "EVP_EncodedLength (word_of_nat (length src)) =
      (if length (b64 src) + 1 < 2 ^ 64 then Some (word_of_nat (length (b64 src) + 1)) else None)"
    using encoded_length_eq [OF assms(1)] by (simp only: length_b64)
  have "EVP_EncodeBlock (take d dst @ drop d dst) d src =
      Some (take d dst @ b64 src @ [0] @ drop (length (b64 src) + 1) (drop d dst), word_of_nat (length (b64 src)))"
    using assms by (intro encode_block_b64) simp_all
  then show "EVP_EncodeBlock dst d src =
      Some (take d dst @ b64 src @ [0] @ drop (d + length (b64 src) + 1) dst, word_of_nat (length (b64 src)))"
    by (simp add: ac_simps)
qed

theorem encode_block_correct_witness:
  "EVP_EncodeBlock (replicate 9 7) 0 [0x66, 0x6F, 0x6F, 0x62] =
     Some ([0x5A, 0x6D, 0x39, 0x76, 0x59, 0x67, 0x3D, 0x3D, 0], 8)"
proof -
  have "b64 [0x66, 0x6F, 0x6F, 0x62] = [0x5A, 0x6D, 0x39, 0x76, 0x59, 0x67, 0x3D, 0x3D]"
    by (simp add: Let_def b64_digit_def b64_alphabet_codes)
  then show ?thesis
    using encode_block_correct [of "[0x66, 0x6F, 0x6F, 0x62]" 0 "replicate 9 7"] by simp
qed

section \<open>The streaming encoder\<close>

definition b64_lines :: "u8 list \<Rightarrow> u8 list" where
  "b64_lines xs = concat (map (\<lambda>b. b64 b @ [0x0A]) (blocks 48 xs))"

lemma b64_lines_short [simp]: "length xs < 48 \<Longrightarrow> b64_lines xs = []"
  by (simp add: b64_lines_def blocks_short)

lemma b64_lines_block: "length b = 48 \<Longrightarrow> b64_lines (b @ xs) = b64 b @ [0x0A] @ b64_lines xs"
  by (simp add: b64_lines_def blocks_append_block)

lemmas blocks48_induct = blocks_induct [of 48, simplified, consumes 0, case_names short block]

lemma length_b64_lines: "length (b64_lines xs) = 65 * (length xs div 48)"
  by (induction xs rule: blocks48_induct) (simp_all add: b64_lines_block length_b64 div_add_self1)

lemma encode_line_b64:
  assumes "length p = d" and "length src = 48" and "66 \<le> length r"
  shows "encode_line (p @ r) d src = Some (p @ b64 src @ [0x0A] @ [0] @ drop 66 r, d + 65, 64)"
proof -
  have l: "length (b64 src) = 64" using assms(2) by (simp add: length_b64)
  have 1: "EVP_EncodeBlock (p @ r) d src = Some ((p @ b64 src) @ [0] @ drop 65 r, 64)"
    using assms l by (subst encode_block_b64) simp_all
  have 2: "put ((p @ b64 src) @ [0] @ drop 65 r) (d + 64) [0x0A] =
      Some ((p @ b64 src @ [0x0A]) @ drop 65 r)"
    using assms l by (subst put_prefix') simp_all
  have 3: "put ((p @ b64 src @ [0x0A]) @ drop 65 r) (d + 65) [0] =
      Some ((p @ b64 src @ [0x0A]) @ [0] @ drop 66 r)"
    using assms l by (subst put_prefix') simp_all
  have u: "unat (64 :: u64) = 64" and plus: "d + 64 + 1 = d + 65" by simp_all
  show ?thesis
    unfolding encode_line_def 1 Let_def Option.bind.simps prod.case u plus
    by (simp add: 2 [simplified] 3 [simplified])
qed


lemma encode_lines_b64:
  assumes "length p = d" and "t + length (b64_lines xs) < 2 ^ 64"
    and "blocks 48 xs \<noteq> [] \<Longrightarrow> length (b64_lines xs) < length r"
  shows "\<exists>r'. length r' + length (b64_lines xs) = length r \<and>
    encode_lines (p @ r) d (word_of_nat t) xs =
      Some (p @ b64_lines xs @ r', word_of_nat (t + length (b64_lines xs)), rest 48 xs, False)"
  using assms
proof (induction xs arbitrary: p d t r rule: blocks48_induct)
  case (short xs)
  then show ?case
    by (subst encode_lines.simps) (simp add: sizeof_data_def rest_short)
next
  case (block b xs)
  have l: "length (b64_lines (b @ xs)) = 65 + length (b64_lines xs)"
    using block.hyps by (simp add: b64_lines_block length_b64)
  have r: "65 + length (b64_lines xs) < length r"
    using block.prems(3) block.hyps l by (simp add: blocks_append_block)
  have sum: "(word_of_nat t + 64 + 1 :: u64) = word_of_nat (t + 65)" by simp
  have "unat (word_of_nat t + 64 + 1 :: u64) = t + 65"
    using block.prems(2) l unfolding sum by (intro unat_of_nat_u64) simp
  moreover have "unat (word_of_nat t :: u64) = t"
    using block.prems(2) l by (intro unat_of_nat_u64) simp
  ultimately have no: "((word_of_nat t + 64 + 1 :: u64) < word_of_nat t) = False"
    by (simp add: word_less_nat_alt)
  have r2: "length (b64_lines xs) < Suc (length r - 66)" using r by linarith
  obtain r' where r': "length r' + length (b64_lines xs) = length ([0] @ drop 66 r)"
    "encode_lines ((p @ b64 b @ [0x0A]) @ [0] @ drop 66 r) (d + 65) (word_of_nat (t + 65)) xs =
      Some ((p @ b64 b @ [0x0A]) @ b64_lines xs @ r', word_of_nat (t + 65 + length (b64_lines xs)), rest 48 xs, False)"
    using block.IH [of "p @ b64 b @ [0x0A]" "d + 65" "t + 65" "[0] @ drop 66 r"]
      block.prems block.hyps r r2 by (auto simp: l length_b64)
  have line: "encode_line (p @ r) d b = Some (p @ b64 b @ [0x0A] @ [0] @ drop 66 r, d + 65, 64)"
    using block r by (intro encode_line_b64) auto
  have tk: "take 48 (b @ xs) = b" "drop 48 (b @ xs) = xs" "(length (b @ xs) < 48) = False"
    using block.hyps by simp_all
  have "encode_lines (p @ r) d (word_of_nat t) (b @ xs) =
      encode_lines ((p @ b64 b @ [0x0A]) @ [0] @ drop 66 r) (d + 65) (word_of_nat (t + 65)) xs"
    unfolding encode_lines.simps [of "p @ r"] sizeof_data_def tk if_False line
    by (simp add: no [simplified] sum [simplified])
  with r' r block.hyps show ?case
    by (auto simp: l b64_lines_block rest_append_block add.assoc length_b64)
qed


text \<open>The invariant of an encoding context, and the input bytes it holds back.\<close>

definition encode_ctx_ok :: "evp_encode_ctx \<Rightarrow> bool" where
  "encode_ctx_ok ctx \<longleftrightarrow> length (ctx_data ctx) = 48 \<and> unat (data_used ctx) < 48"

definition pending :: "evp_encode_ctx \<Rightarrow> u8 list" where
  "pending ctx = take (unat (data_used ctx)) (ctx_data ctx)"

lemma length_pending: "encode_ctx_ok ctx \<Longrightarrow> length (pending ctx) = unat (data_used ctx)"
  by (simp add: encode_ctx_ok_def pending_def)

lemma unat_small_u32: "n < 48 \<Longrightarrow> unat (word_of_nat n :: u32) = n"
  by (simp add: unat_of_nat)

lemma store_rest:
  assumes "length (ctx_data ctx) = 48" and "length xs < 48"
  shows "\<exists>dat. put (ctx_data ctx) 0 xs = Some dat \<and>
    encode_ctx_ok (ctx\<lparr>ctx_data := dat, data_used := word_of_nat (length xs)\<rparr>) \<and>
    pending (ctx\<lparr>ctx_data := dat, data_used := word_of_nat (length xs)\<rparr>) = xs"
  using assms by (auto simp: put_def encode_ctx_ok_def pending_def unat_small_u32)

lemma encode_update_tail:
  assumes "length (ctx_data ctx) = 48" and "t + length (b64_lines xs) < 2 ^ 63" and "length p = t"
    and "blocks 48 xs \<noteq> [] \<Longrightarrow> length (b64_lines xs) < length r"
  shows "\<exists>ctx' r'. encode_update_rest ctx (p @ r) t (word_of_nat t) xs =
      Some (ctx', p @ b64_lines xs @ r',
        if t + length (b64_lines xs) > INT_MAX then 0 else t + length (b64_lines xs)) \<and>
    encode_ctx_ok ctx' \<and> pending ctx' = rest 48 xs \<and> length r' + length (b64_lines xs) = length r"
proof -
  obtain r' where r': "length r' + length (b64_lines xs) = length r"
    "encode_lines (p @ r) t (word_of_nat t) xs =
      Some (p @ b64_lines xs @ r', word_of_nat (t + length (b64_lines xs)), rest 48 xs, False)"
    using encode_lines_b64 [of p t t xs r] assms by auto
  have "length (rest 48 xs) < 48" by (simp add: length_rest)
  from store_rest [OF assms(1) this] obtain dat where dat: "put (ctx_data ctx) 0 (rest 48 xs) = Some dat"
    "encode_ctx_ok (ctx\<lparr>ctx_data := dat, data_used := word_of_nat (length (rest 48 xs))\<rparr>)"
    "pending (ctx\<lparr>ctx_data := dat, data_used := word_of_nat (length (rest 48 xs))\<rparr>) = rest 48 xs"
    by blast
  have u: "unat (word_of_nat (t + length (b64_lines xs)) :: u64) = t + length (b64_lines xs)"
    using assms(2) by (intro unat_of_nat_u64) simp
  show ?thesis
    using r'(1) dat(2,3) unfolding encode_update_rest_def r'(2)
    by (auto simp: dat(1) Let_def u simp del: of_nat_add)
qed


lemma encode_update_ok:
  assumes ok: "encode_ctx_ok ctx"
    and len: "length xs < 2 ^ 62"
    and room: "blocks 48 (pending ctx @ xs) \<noteq> [] \<Longrightarrow> length (b64_lines (pending ctx @ xs)) < length out"
  shows "\<exists>ctx' r'. EVP_EncodeUpdate ctx out xs = Some (ctx', b64_lines (pending ctx @ xs) @ r',
        if length (b64_lines (pending ctx @ xs)) > INT_MAX then 0 else length (b64_lines (pending ctx @ xs))) \<and>
      encode_ctx_ok ctx' \<and> pending ctx' = rest 48 (pending ctx @ xs) \<and>
      length r' + length (b64_lines (pending ctx @ xs)) = length out"
proof -
  let ?u = "unat (data_used ctx)" and ?p = "pending ctx"
  have u: "?u < 48" and d: "length (ctx_data ctx) = 48" using ok by (auto simp: encode_ctx_ok_def)
  have lp: "length ?p = ?u" by (rule length_pending [OF ok])
  have size: "length (b64_lines (?p @ xs)) < 2 ^ 63"
    using len lp u unfolding length_b64_lines by simp
  consider (none) "xs = []" | (store) "xs \<noteq> []" "?u + length xs < 48"
    | (first) "xs \<noteq> []" "48 \<le> ?u + length xs" "?u \<noteq> 0" | (lines) "xs \<noteq> []" "48 \<le> ?u + length xs" "?u = 0"
    by linarith
  then show ?thesis
  proof cases
    case none
    then show ?thesis using ok lp u by (simp add: EVP_EncodeUpdate_def rest_short)
  next
    case store
    define dat where "dat = take ?u (ctx_data ctx) @ xs @ drop (?u + length xs) (ctx_data ctx)"
    have put: "put (ctx_data ctx) ?u xs = Some dat" using store d by (simp add: put_def dat_def)
    have "unat (data_used ctx + word_of_nat (length xs)) = ?u + length xs"
      using store by (simp add: unat_word_ariths unat_of_nat)
    then have "encode_ctx_ok (ctx\<lparr>ctx_data := dat, data_used := data_used ctx + word_of_nat (length xs)\<rparr>)"
      "pending (ctx\<lparr>ctx_data := dat, data_used := data_used ctx + word_of_nat (length xs)\<rparr>) = ?p @ xs"
      using store d u by (simp_all add: encode_ctx_ok_def pending_def dat_def)
    then show ?thesis
      using store lp u put by (simp add: EVP_EncodeUpdate_def sizeof_data_def rest_short Let_def less_diff_conv add.commute)
  next
    case first
    define b where "b = ?p @ take (48 - ?u) xs"
    define ys where "ys = drop (48 - ?u) xs"
    have b: "length b = 48" using first lp u by (simp add: b_def)
    have split: "?p @ xs = b @ ys" by (simp add: b_def ys_def)
    have l: "length (b64_lines (?p @ xs)) = 65 + length (b64_lines ys)"
      using b unfolding split by (simp add: b64_lines_block length_b64)
    have room': "65 + length (b64_lines ys) < length out"
      using room b l unfolding split by (simp add: blocks_append_block)
    have put: "put (ctx_data ctx) ?u (take (48 - ?u) xs) = Some b"
      using first d u by (simp add: put_def b_def pending_def)
    have line: "encode_line out 0 b = Some ((b64 b @ [0x0A]) @ [0] @ drop 66 out, 65, 64)"
      using encode_line_b64 [of "[]" 0 b out] b room' by simp
    have "\<exists>ctx' r'. encode_update_rest (ctx\<lparr>ctx_data := b, data_used := 0\<rparr>)
          ((b64 b @ [0x0A]) @ [0] @ drop 66 out) 65 (word_of_nat 65) ys =
        Some (ctx', (b64 b @ [0x0A]) @ b64_lines ys @ r',
          if 65 + length (b64_lines ys) > INT_MAX then 0 else 65 + length (b64_lines ys)) \<and>
      encode_ctx_ok ctx' \<and> pending ctx' = rest 48 ys \<and>
      length r' + length (b64_lines ys) = length ([0] @ drop 66 out)"
      using b size l room' by (intro encode_update_tail) (auto simp: length_b64)
    then obtain ctx' r' where tl: "encode_update_rest (ctx\<lparr>ctx_data := b, data_used := 0\<rparr>)
          ((b64 b @ [0x0A]) @ [0] @ drop 66 out) 65 (word_of_nat 65) ys =
        Some (ctx', (b64 b @ [0x0A]) @ b64_lines ys @ r',
          if 65 + length (b64_lines ys) > INT_MAX then 0 else 65 + length (b64_lines ys))"
      "encode_ctx_ok ctx'" "pending ctx' = rest 48 ys"
      "length r' + length (b64_lines ys) = length ([0] @ drop 66 out)" by blast
    have "EVP_EncodeUpdate ctx out xs = Some (ctx', (b64 b @ [0x0A]) @ b64_lines ys @ r',
          if 65 + length (b64_lines ys) > INT_MAX then 0 else 65 + length (b64_lines ys))"
      using first u tl(1) by (simp add: EVP_EncodeUpdate_def sizeof_data_def put line [simplified] ys_def [symmetric] Let_def less_diff_conv)
    then show ?thesis
      using tl(2-4) b l room' unfolding split by (simp add: b64_lines_block rest_append_block)
  next
    case lines
    have p: "?p = []" using lp lines by simp
    have "\<exists>ctx' r'. encode_update_rest ctx ([] @ out) 0 (word_of_nat 0) xs =
        Some (ctx', [] @ b64_lines xs @ r',
          if 0 + length (b64_lines xs) > INT_MAX then 0 else 0 + length (b64_lines xs)) \<and>
      encode_ctx_ok ctx' \<and> pending ctx' = rest 48 xs \<and> length r' + length (b64_lines xs) = length out"
      using d size room unfolding p by (intro encode_update_tail) auto
    then show ?thesis
      using lines u p unfolding add_0 EVP_EncodeUpdate_def sizeof_data_def Let_def
      by (cases "length (b64_lines xs) > INT_MAX") simp_all
  qed
qed


text \<open>The use of a context: the client hands over the input in pieces, each with a fresh
  output buffer, and collects what the calls announce.\<close>

primrec encode_stream :: "nat \<Rightarrow> evp_encode_ctx \<Rightarrow> u8 list list \<Rightarrow> u8 list option" where
  "encode_stream n ctx [] = do {
     (ctx, out, k) \<leftarrow> EVP_EncodeFinal ctx (replicate n 0);
     Some (take k out) }"
| "encode_stream n ctx (xs # xss) = do {
     (ctx, out, k) \<leftarrow> EVP_EncodeUpdate ctx (replicate n 0) xs;
     rest \<leftarrow> encode_stream n ctx xss;
     Some (take k out @ rest) }"

definition b64_text :: "u8 list \<Rightarrow> u8 list" where
  "b64_text xs = b64_lines xs @ (if rest 48 xs = [] then [] else b64 (rest 48 xs) @ [0x0A])"

lemma encode_final_ok:
  assumes "encode_ctx_ok ctx" and "66 \<le> length out"
  shows "\<exists>ctx' out' k. EVP_EncodeFinal ctx out = Some (ctx', out', k) \<and> take k out' = b64_text (pending ctx) \<and>
    data_used ctx' = 0"
proof (cases "data_used ctx = 0")
  case True
  then have "pending ctx = []" by (simp add: pending_def)
  then show ?thesis using True by (simp add: EVP_EncodeFinal_def b64_text_def rest_short)
next
  case False
  define xs where "xs = pending ctx"
  have xs: "length xs = unat (data_used ctx)" "length xs < 48" "length (ctx_data ctx) = 48"
    using assms(1) length_pending [OF assms(1)] by (auto simp: xs_def encode_ctx_ok_def)
  have ne: "xs \<noteq> []" using False xs(1) by (auto simp: unat_eq_0)
  have l: "length (b64 xs) \<le> 64" using xs(2) by (simp add: length_b64)
  have 1: "EVP_EncodeBlock out 0 xs = Some (b64 xs @ [0] @ drop (length (b64 xs) + 1) out, word_of_nat (length (b64 xs)))"
    using encode_block_b64 [of "[]" 0 xs out] l assms(2) by simp
  have u: "unat (word_of_nat (length (b64 xs)) :: u64) = length (b64 xs)"
    "unat (word_of_nat (length (b64 xs)) + 1 :: u64) = length (b64 xs) + 1"
    using l by (simp_all add: unat_of_nat unat_word_ariths)
  have 2: "put (b64 xs @ [0] @ drop (length (b64 xs) + 1) out) (length (b64 xs)) [0x0A] =
      Some ((b64 xs @ [0x0A]) @ drop (length (b64 xs) + 1) out)"
    using l assms(2) by (subst put_prefix') simp_all
  have 3: "put ((b64 xs @ [0x0A]) @ drop (length (b64 xs) + 1) out) (length (b64 xs) + 1) [0] =
      Some ((b64 xs @ [0x0A]) @ [0] @ drop (length (b64 xs) + 2) out)"
    using l assms(2) by (subst put_prefix') (simp_all add: eval_nat_numeral)
  have "EVP_EncodeFinal ctx out = Some (ctx\<lparr>data_used := 0\<rparr>,
      (b64 xs @ [0x0A]) @ [0] @ drop (length (b64 xs) + 2) out, length (b64 xs) + 1)"
    using False xs l unfolding EVP_EncodeFinal_def pending_def [symmetric] xs_def [symmetric]
    by (simp add: 1 [simplified] Let_def u 2 [simplified] 3 [simplified] u [simplified])
  then show ?thesis
    using xs(2) ne by (simp add: b64_text_def rest_short xs_def [symmetric])
qed

lemma encode_stream_ok:
  assumes "encode_ctx_ok ctx" and "\<And>xs. xs \<in> set xss \<Longrightarrow> 65 * (length xs div 48 + 1) < n"
    and "65 < n" and "n \<le> INT_MAX"
  shows "encode_stream n ctx xss = Some (b64_text (pending ctx @ concat xss))"
  using assms(1,2)
proof (induction xss arbitrary: ctx)
  case Nil
  with encode_final_ok [of ctx "replicate n 0"] assms(3) show ?case by auto
next
  case (Cons xs xss)
  let ?l = "b64_lines (pending ctx @ xs)"
  have n: "65 * (length xs div 48 + 1) < n" using Cons.prems(2) by simp
  have "length (pending ctx) < 48"
    using Cons.prems(1) length_pending [OF Cons.prems(1)] by (simp add: encode_ctx_ok_def)
  then have "(length (pending ctx) + length xs) div 48 \<le> length xs div 48 + 1"
    by (metis add.commute add_less_cancel_left div_add_self2 div_le_mono less_or_eq_imp_le zero_neq_numeral)
  then have l: "length ?l < n" using n unfolding length_b64_lines length_append
    by (meson le_less_trans mult_le_mono2)
  have "length xs < 48 * (length xs div 48 + 1)" by (rule dividend_less_times_div [of 48, simplified, THEN order_less_le_trans]) simp
  then have xs: "length xs < 2 ^ 62" using n assms(4) by simp
  obtain ctx' r' where u: "EVP_EncodeUpdate ctx (replicate n 0) xs = Some (ctx', ?l @ r', length ?l)"
    "encode_ctx_ok ctx'" "pending ctx' = rest 48 (pending ctx @ xs)"
    using encode_update_ok [OF Cons.prems(1) xs, of "replicate n 0"] l assms(4) by auto
  have "encode_stream n ctx' xss = Some (b64_text (pending ctx' @ concat xss))"
    using Cons.IH [OF u(2)] Cons.prems(2) by simp
  then show ?case
    by (simp add: u(1,3) b64_text_def b64_lines_def blocks_append [of 48 "pending ctx @ xs", simplified]
        rest_append [of 48 "pending ctx @ xs", simplified])
qed


text \<open>
  C7. The streaming encoder refines the encoding of the whole input: however the client cuts
  the input into pieces, the outputs of \<open>EVP_EncodeUpdate\<close> and \<open>EVP_EncodeFinal\<close> put together are
  the base64 text of the concatenation in lines of 64 characters, when each output buffer is
  large enough for its piece.
\<close>

theorem encode_stream_refines:
  assumes "\<And>xs. xs \<in> set xss \<Longrightarrow> 65 * (length xs div 48 + 1) < n" and "65 < n" and "n \<le> INT_MAX"
  shows "encode_stream n EVP_EncodeInit xss = Some (b64_text (concat xss))"
proof -
  have "encode_ctx_ok EVP_EncodeInit" "pending EVP_EncodeInit = []"
    by (simp_all add: EVP_EncodeInit_def encode_ctx_ok_def pending_def sizeof_data_def)
  with encode_stream_ok [of EVP_EncodeInit xss n] assms show ?thesis by simp
qed

theorem encode_stream_refines_witness:
  "encode_stream 100 EVP_EncodeInit [[0x66], [], [0x6F, 0x6F]] = Some [0x5A, 0x6D, 0x39, 0x76, 0x0A]"
proof -
  have "b64_text [0x66, 0x6F, 0x6F] = [0x5A, 0x6D, 0x39, 0x76, 0x0A]"
    by (simp add: b64_text_def rest_short b64_digit_def b64_alphabet_codes)
  moreover have "encode_stream 100 EVP_EncodeInit [[0x66], [], [0x6F, 0x6F]] =
      Some (b64_text (concat [[0x66], [], [0x6F, 0x6F]]))"
    by (rule encode_stream_refines) auto
  ultimately show ?thesis by simp
qed

section \<open>Decoding\<close>

lemma unat_24_digits:
  assumes "a < 64" "b < 64" "c < 64" "d < 64"
  shows "unat (push_bit 18 (word_of_nat a) OR push_bit 12 (word_of_nat b) OR push_bit 6 (word_of_nat c) OR
     word_of_nat d :: u32) = a * 262144 + b * 4096 + c * 64 + d"
proof -
  have u: "unat (word_of_nat a :: u32) = a" "unat (word_of_nat b :: u32) = b"
    "unat (word_of_nat c :: u32) = c" "unat (word_of_nat d :: u32) = d"
    using assms by (simp_all add: unat_of_nat)
  have cd: "unat (push_bit 6 (word_of_nat c) OR word_of_nat d :: u32) = c * 64 + d"
    using assms u by (subst unat_push_bit_or) simp_all
  have bcd: "unat (push_bit 12 (word_of_nat b) OR push_bit 6 (word_of_nat c) OR word_of_nat d :: u32)
      = b * 4096 + c * 64 + d"
    using assms u cd by (subst unat_push_bit_or) simp_all
  show ?thesis using assms u bcd by (subst unat_push_bit_or) simp_all
qed

lemma ucast_digit: "n < 64 \<Longrightarrow> (ucast (word_of_nat n :: u8) :: u32) = word_of_nat n"
proof -
  assume "n < 64"
  then have "unat (ucast (word_of_nat n :: u8) :: u32) = n" by (simp add: unat_of_nat)
  then show ?thesis by (metis of_nat_unat_u64)
qed

lemma ucast_byte: "(ucast (drop_bit k (w :: u32)) :: u8) = word_of_nat (unat w div 2 ^ k)"
proof -
  have "unat (ucast (drop_bit k w) :: u8) = unat w div 2 ^ k mod 256"
    by (simp add: unsigned_ucast_eq take_bit_eq_mod unat_drop_bit_div)
  then show ?thesis by (metis of_nat_unat_u64 unat_of_nat_u8)
qed

lemma digit_not_invalid: "(word_of_nat (n mod 64) :: u8) \<noteq> 0xFF"
proof -
  have "unat (word_of_nat (n mod 64) :: u8) < 64" by (simp add: unat_of_nat)
  moreover have "unat (0xFF :: u8) = 255" by simp
  ultimately show ?thesis by force
qed

text \<open>The three shapes of a valid quad, and what they decode to.\<close>

lemma quad_value:
  "n < 16777216 \<Longrightarrow> (n div 262144 mod 64) * 262144 + (n div 4096 mod 64) * 4096 + (n div 64 mod 64) * 64 + n mod 64 = (n :: nat)"
  "n < 262144 \<Longrightarrow> (n div 4096 mod 64) * 262144 + (n div 64 mod 64) * 4096 + (n mod 64) * 64 + 0 = 64 * (n :: nat)"
  "n < 4096 \<Longrightarrow> (n div 64 mod 64) * 262144 + (n mod 64) * 4096 + 0 * 64 + 0 = 4096 * (n :: nat)"
proof -
  have div: "n div 4096 = n div 64 div 64" "n div 262144 = n div 64 div 64 div 64" for n :: nat
    by (simp_all add: div_mult2_eq [symmetric])
  have split: "m div 64 * 64 + m mod 64 = m" for m :: nat by simp
  {
    assume "n < 16777216"
    then have "n div 64 div 64 div 64 mod 64 = n div 64 div 64 div 64" by (simp add: less_mult_imp_div_less)
    then show "(n div 262144 mod 64) * 262144 + (n div 4096 mod 64) * 4096 + (n div 64 mod 64) * 64 + n mod 64 = n"
      using split [of n] split [of "n div 64"] split [of "n div 64 div 64"] unfolding div by linarith
  next
    assume "n < 262144"
    then have "n div 64 div 64 mod 64 = n div 64 div 64" by (simp add: less_mult_imp_div_less)
    then show "(n div 4096 mod 64) * 262144 + (n div 64 mod 64) * 4096 + (n mod 64) * 64 + 0 = 64 * n"
      using split [of n] split [of "n div 64"] unfolding div by linarith
  next
    assume "n < 4096"
    then have "n div 64 mod 64 = n div 64" by (simp add: less_mult_imp_div_less)
    then show "(n div 64 mod 64) * 262144 + (n mod 64) * 4096 + 0 * 64 + 0 = 4096 * n"
      using split [of n] by linarith
  }
qed

lemma quad_digits:
  "n < 16777216 \<Longrightarrow> base64_decode_quad (b64_digit (n div 262144)) (b64_digit (n div 4096)) (b64_digit (n div 64)) (b64_digit n)
     = Some [word_of_nat (n div 65536), word_of_nat (n div 256), word_of_nat n]"
  "n < 262144 \<Longrightarrow> base64_decode_quad (b64_digit (n div 4096)) (b64_digit (n div 64)) (b64_digit n) 0x3D
     = Some [word_of_nat (n div 1024), word_of_nat (n div 4)]"
  "n < 4096 \<Longrightarrow> base64_decode_quad (b64_digit (n div 64)) (b64_digit n) 0x3D 0x3D = Some [word_of_nat (n div 16)]"
proof -
  have v: "unat (push_bit 18 (ucast (word_of_nat (a mod 64) :: u8)) OR push_bit 12 (ucast (word_of_nat (b mod 64) :: u8))
      OR push_bit 6 (ucast (word_of_nat (c mod 64) :: u8)) OR ucast (word_of_nat (d mod 64) :: u8) :: u32)
      = (a mod 64) * 262144 + (b mod 64) * 4096 + (c mod 64) * 64 + d mod 64" for a b c d
    using unat_24_digits [of "a mod 64" "b mod 64" "c mod 64" "d mod 64"] by (simp add: ucast_digit)
  have eq: "base64_ascii_to_bin 0x3D = word_of_nat (0 mod 64)" by (simp add: to_bin_ct)
  have pow: "(2 :: nat) ^ 16 = 65536" "(2 :: nat) ^ 8 = 256" by simp_all
  have low: "ucast (w :: u32) = (word_of_nat (unat w) :: u8)" for w using ucast_byte [of 0 w] by simp
  have c: "of_bool (b64_digit k = 0x3D) = (0 :: u32)" "of_bool ((0x3D :: u8) = 0x3D) = (1 :: u32)" for k by simp_all
  {
    assume n: "n < 16777216"
    then show "base64_decode_quad (b64_digit (n div 262144)) (b64_digit (n div 4096)) (b64_digit (n div 64)) (b64_digit n)
     = Some [word_of_nat (n div 65536), word_of_nat (n div 256), word_of_nat n]"
      unfolding base64_decode_quad_def Let_def c digit_facts(1) ucast_byte v pow
      unfolding low v quad_value(1) [OF n] using digit_not_invalid [of "n div 262144"]
      by (simp add: digit_not_invalid)
  next
    assume n: "n < 262144"
    then show "base64_decode_quad (b64_digit (n div 4096)) (b64_digit (n div 64)) (b64_digit n) 0x3D
     = Some [word_of_nat (n div 1024), word_of_nat (n div 4)]"
      unfolding base64_decode_quad_def Let_def c digit_facts(1) eq ucast_byte v pow
      unfolding low v mod_0 quad_value(2) [OF n] using digit_not_invalid [of "n div 4096"]
      by (simp add: digit_not_invalid)
  next
    assume n: "n < 4096"
    then show "base64_decode_quad (b64_digit (n div 64)) (b64_digit n) 0x3D 0x3D = Some [word_of_nat (n div 16)]"
      unfolding base64_decode_quad_def Let_def c digit_facts(1) eq ucast_byte v pow
      unfolding low v mod_0 quad_value(3) [OF n] using digit_not_invalid [of "n div 64"]
      by (simp add: digit_not_invalid)
  }
qed


text \<open>What the decoder makes of a text, as a function of the characters held back (at most
  three) and the end-of-data flag: the new ones and the bytes, or \<open>None\<close> for an invalid text.\<close>

fun feed :: "u8 list \<Rightarrow> bool \<Rightarrow> u8 list \<Rightarrow> (u8 list \<times> bool \<times> u8 list) option" where
  "feed p e [] = Some (p, e, [])"
| "feed p e (c # cs) = (
     if is_space c then feed p e cs
     else if e then None
     else if length p = 3 then do {
       bs \<leftarrow> base64_decode_quad (p ! 0) (p ! 1) (p ! 2) c;
       (p', e', r) \<leftarrow> feed [] (length bs < 3) cs;
       Some (p', e', bs @ r) }
     else feed (p @ [c]) e cs)"

lemma feed_append:
  "feed p e (cs @ ds) = do {
     (p', e', r) \<leftarrow> feed p e cs;
     (p'', e'', r') \<leftarrow> feed p' e' ds;
     Some (p'', e'', r @ r') }"
proof (induction p e cs rule: feed.induct)
  case (2 p e c cs)
  then show ?case by (auto split: Option.bind_split simp: bind_eq_Some_conv)
qed (simp split: Option.bind_split)

lemma decode_quad_length: "base64_decode_quad a b c d = Some bs \<Longrightarrow> bs \<noteq> [] \<and> length bs \<le> 3"
  by (auto simp: base64_decode_quad_def Let_def split: if_splits)

text \<open>Four characters of text, not spaces, at a quad boundary.\<close>

lemma feed_quad:
  assumes "\<not> is_space a" "\<not> is_space b" "\<not> is_space c" "\<not> is_space d"
  shows "feed [] False (a # b # c # d # cs) = do {
     bs \<leftarrow> base64_decode_quad a b c d;
     (p', e', r) \<leftarrow> feed [] (length bs < 3) cs;
     Some (p', e', bs @ r) }"
  using assms by (simp add: numeral_3_eq_3)

lemma b64_bytes:
  "word_of_nat ((unat (a :: u8) * 65536 + unat (b :: u8) * 256 + unat (c :: u8)) div 65536) = a"
  "(word_of_nat ((unat a * 65536 + unat b * 256 + unat c) div 256) :: u8) = b"
  "(word_of_nat (unat a * 65536 + unat b * 256 + unat c) :: u8) = c"
  "(word_of_nat ((unat a * 256 + unat b) * 4 div 1024) :: u8) = a"
  "(word_of_nat ((unat a * 256 + unat b) * 4 div 4) :: u8) = b"
proof -
  have w: "(word_of_nat k :: u8) = x" if "k mod 256 = unat x" for k x
    using that by (metis of_nat_unat_u64 unat_of_nat_u8)
  have l: "unat a < 256" "unat b < 256" "unat c < 256" by simp_all
  have r: "unat a * 65536 + unat b * 256 + unat c = (unat a * 256 + unat b) * 256 + unat c" by simp
  have d: "(y * 256 + z) div 256 = y" if "z < 256" for y z :: nat using that by simp
  have m: "(y * 256 + z) mod 256 = z" if "z < 256" for y z :: nat using that by simp
  note d1 = d [OF l(3), of "unat a * 256 + unat b"] and d2 = d [OF l(2), of "unat a"]
  have d3: "x div 65536 = x div 256 div (256 :: nat)" "(x * 4) div 1024 = x div (256 :: nat)" for x
    by (simp_all add: div_mult2_eq [symmetric])
  show "word_of_nat ((unat a * 65536 + unat b * 256 + unat c) div 65536) = a"
    unfolding r d3 d1 d2 by simp
  show "(word_of_nat ((unat a * 65536 + unat b * 256 + unat c) div 256) :: u8) = b"
    unfolding r d1 by (rule w) simp
  show "(word_of_nat (unat a * 65536 + unat b * 256 + unat c) :: u8) = c"
    unfolding r by (rule w) (rule m [OF l(3)])
  show "(word_of_nat ((unat a * 256 + unat b) * 4 div 1024) :: u8) = a"
    unfolding d3 d2 by simp
  show "(word_of_nat ((unat a * 256 + unat b) * 4 div 4) :: u8) = b"
    by (rule w) simp
qed

lemma not_space_eq [simp]: "\<not> is_space 0x3D"
  by (simp add: is_space_def)

lemma feed_b64:
  "feed [] False (b64 xs @ cs) = do {
     (p', e', r) \<leftarrow> feed [] (length xs mod 3 \<noteq> 0) cs;
     Some (p', e', xs @ r) }"
proof (induction xs rule: b64.induct)
  case (2 a)
  have "unat a * 16 < 4096" using unat_u8_le [of a] by linarith
  from quad_digits(3) [OF this] show ?case by (simp add: feed_quad del: feed.simps)
next
  case (3 a b)
  have "unat a * 256 + unat b \<le> 65535" using unat_u8_le [of a] unat_u8_le [of b] by linarith
  then have "(unat a * 256 + unat b) * 4 < 262144" by simp
  from quad_digits(2) [OF this] show ?case
    by (simp only: b64.simps Let_def append_Cons append_Nil) (simp add: feed_quad b64_bytes [simplified] del: feed.simps)
next
  case (4 a b c r)
  have "unat a * 65536 + unat b * 256 + unat c < 16777216"
    using unat_u8_le [of a] unat_u8_le [of b] unat_u8_le [of c] by linarith
  from quad_digits(1) [OF this] 4 show ?case
    by (simp only: b64.simps Let_def append_Cons append_Nil)
      (simp add: feed_quad b64_bytes [simplified] del: feed.simps split: Option.bind_split)
qed (simp split: Option.bind_split)


section \<open>The streaming decoder\<close>

definition decode_ctx_ok :: "evp_encode_ctx \<Rightarrow> bool" where
  "decode_ctx_ok ctx \<longleftrightarrow> length (ctx_data ctx) = 48 \<and> unat (data_used ctx) < 4"

lemma length_pending_dec: "decode_ctx_ok ctx \<Longrightarrow> length (pending ctx) = unat (data_used ctx)"
  by (simp add: decode_ctx_ok_def pending_def)

text \<open>Storing a character: the context still holds less than four, or a quad is complete.\<close>

lemma store_char:
  assumes "decode_ctx_ok ctx"
  shows "\<exists>dat. put (ctx_data ctx) (unat (data_used ctx)) [c] = Some dat \<and> length dat = 48 \<and>
    take (Suc (unat (data_used ctx))) dat = pending ctx @ [c] \<and>
    unat (data_used ctx + 1) = Suc (unat (data_used ctx))"
proof -
  have d: "length (ctx_data ctx) = 48" "unat (data_used ctx) < 4" using assms by (auto simp: decode_ctx_ok_def)
  then obtain dat where p: "put (ctx_data ctx) (unat (data_used ctx)) [c] = Some dat"
    by (simp add: put_def)
  have "unat (data_used ctx + 1) = Suc (unat (data_used ctx))"
    using d by (simp add: unat_word_ariths)
  then show ?thesis using p length_put [OF p] take_put [OF p] d by (simp add: pending_def)
qed

lemma decode_chars_feed:
  assumes "decode_ctx_ok ctx" and "3 * ((length (pending ctx) + length cs) div 4) \<le> length r"
  shows "case feed (pending ctx) (eof_seen ctx) cs of
      None \<Rightarrow> \<exists>ctx' out'. decode_chars ctx (w @ r) (length w) cs = Some (Inl (ctx', out')) \<and> error_encountered ctx'
    | Some (p', e', bs) \<Rightarrow> \<exists>ctx' r'. decode_chars ctx (w @ r) (length w) cs = Some (Inr (ctx', w @ bs @ r', length w + length bs)) \<and>
        decode_ctx_ok ctx' \<and> pending ctx' = p' \<and> eof_seen ctx' = e' \<and>
        error_encountered ctx' = error_encountered ctx \<and> length bs + length r' = length r \<and>
        length bs \<le> 3 * ((length (pending ctx) + length cs) div 4)"
  using assms
proof (induction cs arbitrary: ctx w r)
  case (Cons c cs)
  let ?u = "unat (data_used ctx)"
  have lp: "length (pending ctx) = ?u" using length_pending_dec Cons.prems(1) by simp
  consider (space) "is_space c" | (eof) "\<not> is_space c" "eof_seen ctx"
    | (quad) "\<not> is_space c" "\<not> eof_seen ctx" "?u = 3" | (char) "\<not> is_space c" "\<not> eof_seen ctx" "?u < 3"
    using Cons.prems(1) by (force simp: decode_ctx_ok_def)
  then show ?case
  proof cases
    case space
    have mono: "3 * ((length (pending ctx) + length cs) div 4) \<le> 3 * ((length (pending ctx) + length (c # cs)) div 4)"
      by (intro mult_le_mono2 div_le_mono) simp
    show ?thesis
      using Cons.IH [of ctx r w] Cons.prems mono space
      by (auto split: option.splits intro: order_trans [OF _ mono [unfolded list.size add_Suc_right add_0_right]])
  next
    case eof
    then show ?thesis by simp
  next
    case char
    obtain dat where dat: "put (ctx_data ctx) ?u [c] = Some dat" "length dat = 48"
      "take (Suc ?u) dat = pending ctx @ [c]" "unat (data_used ctx + 1) = Suc ?u"
      using store_char [OF Cons.prems(1)] by blast
    let ?c = "ctx\<lparr>ctx_data := dat, data_used := data_used ctx + 1\<rparr>"
    have c: "decode_ctx_ok ?c" "pending ?c = pending ctx @ [c]" "eof_seen ?c = eof_seen ctx"
      "error_encountered ?c = error_encountered ctx"
      using dat char by (simp_all add: decode_ctx_ok_def pending_def)
    have n4: "data_used ctx + 1 \<noteq> 4"
    proof
      assume "data_used ctx + 1 = 4"
      then have "unat (data_used ctx + 1) = 4" by simp
      with dat(4) char show False by linarith
    qed
    have step: "decode_chars ctx (w @ r) (length w) (c # cs) = decode_chars ?c (w @ r) (length w) cs"
      using char by (simp add: dat(1) n4 Let_def)
    have len: "length (pending ctx @ [c]) + length cs = length (pending ctx) + length (c # cs)" by simp
    have fd: "feed (pending ctx) (eof_seen ctx) (c # cs) = feed (pending ?c) (eof_seen ?c) cs"
      using char lp c by simp
    show ?thesis
      using Cons.IH [OF c(1), of r w] Cons.prems(2) unfolding step fd c(2-4) len by blast
  next
    case quad
    obtain dat where dat: "put (ctx_data ctx) ?u [c] = Some dat" "length dat = 48"
      "take (Suc ?u) dat = pending ctx @ [c]" "unat (data_used ctx + 1) = Suc ?u"
      using store_char [OF Cons.prems(1)] by blast
    have "unat (data_used ctx + 1) = unat (4 :: u32)" using dat(4) quad by simp
    then have n4: "data_used ctx + 1 = 4" by (metis of_nat_unat_u64)
    have nth: "dat ! i = (pending ctx @ [c]) ! i" if "i < 4" for i
      using that quad nth_take [of i "Suc ?u" dat] unfolding dat(3) by simp
    have q: "base64_decode_quad (dat ! 0) (dat ! 1) (dat ! 2) (dat ! 3) =
        base64_decode_quad (pending ctx ! 0) (pending ctx ! 1) (pending ctx ! 2) c"
      using lp quad by (simp add: nth nth_append)
    show ?thesis
    proof (cases "base64_decode_quad (pending ctx ! 0) (pending ctx ! 1) (pending ctx ! 2) c")
      case None
      then show ?thesis using quad lp by (simp add: dat(1) [unfolded quad(3)] n4 q [simplified] Let_def)
    next
      case (Some bs)
      note lbs = decode_quad_length [OF Some]
      let ?c0 = "ctx\<lparr>ctx_data := dat, data_used := 0\<rparr>"
      let ?c = "if length bs < 3 then ?c0\<lparr>eof_seen := True\<rparr> else ?c0"
      have c: "decode_ctx_ok ?c" "pending ?c = []" "eof_seen ?c = (length bs < 3)"
        "error_encountered ?c = error_encountered ctx"
        using dat(2) quad by (auto simp: decode_ctx_ok_def pending_def)
      have room: "3 + 3 * (length cs div 4) \<le> length r"
        using div_add_self1 [of 4 "length cs"] Cons.prems(2) lp quad by simp
      have put: "put (w @ r) (length w) bs = Some ((w @ bs) @ drop (length bs) r)"
        using room lbs by (subst put_prefix') simp_all
      have step: "decode_chars ctx (w @ r) (length w) (c # cs) =
          decode_chars ?c ((w @ bs) @ drop (length bs) r) (length (w @ bs)) cs"
        using quad by (simp add: dat(1) [unfolded quad(3)] n4 q [simplified] Some [simplified] put [simplified] Let_def)
      have fd: "feed (pending ctx) (eof_seen ctx) (c # cs) = do {
          (p', e', r) \<leftarrow> feed (pending ?c) (eof_seen ?c) cs; Some (p', e', bs @ r) }"
        using quad lp c(2,3) by (simp add: Some [simplified])
      have "3 * (length cs div 4) + length bs \<le> length r" using room conjunct2 [OF lbs] by linarith
      then have "3 * ((length (pending ?c) + length cs) div 4) \<le> length (drop (length bs) r)"
        unfolding c(2) by simp
      note ih = Cons.IH [OF c(1) this, of "w @ bs"]
      have four: "(length (pending ctx) + length (c # cs)) div 4 = Suc (length cs div 4)"
        using lp quad by simp
      have lr: "length bs \<le> length r" "length bs \<le> 3" using room lbs by auto
      show ?thesis
      proof (cases "feed (pending ?c) (eof_seen ?c) cs")
        case None
        then show ?thesis using ih unfolding step fd by simp
      next
        case (Some t)
        then obtain p' e' bs' where t: "feed (pending ?c) (eof_seen ?c) cs = Some (p', e', bs')" by (cases t) auto
        obtain ctx' r' where "decode_chars ?c ((w @ bs) @ drop (length bs) r) (length (w @ bs)) cs =
            Some (Inr (ctx', (w @ bs) @ bs' @ r', length (w @ bs) + length bs'))"
          "decode_ctx_ok ctx'" "pending ctx' = p'" "eof_seen ctx' = e'"
          "error_encountered ctx' = error_encountered ctx" "length bs' + length r' = length (drop (length bs) r)"
          "length bs' \<le> 3 * ((length (pending ?c) + length cs) div 4)"
          using ih unfolding t option.case prod.case c(4) by blast
        moreover from this lr have "length (bs @ bs') + length r' = length r"
          "length (bs @ bs') \<le> 3 * Suc (length cs div 4)" unfolding c(2) by auto
        ultimately show ?thesis unfolding step fd t four by (simp add: add.assoc)
      qed
    qed
  qed
qed simp


lemma decode_update_feed:
  assumes "decode_ctx_ok ctx" and "\<not> error_encountered ctx"
    and "3 * ((length (pending ctx) + length cs) div 4) \<le> length out" and "length out \<le> INT_MAX"
  shows "case feed (pending ctx) (eof_seen ctx) cs of
      None \<Rightarrow> \<exists>ctx' out'. EVP_DecodeUpdate ctx out cs = Some (- 1, 0, ctx', out') \<and> error_encountered ctx'
    | Some (p', e', bs) \<Rightarrow> \<exists>ctx' r'. EVP_DecodeUpdate ctx out cs = Some (if e' then 0 else 1, length bs, ctx', bs @ r') \<and>
        decode_ctx_ok ctx' \<and> pending ctx' = p' \<and> eof_seen ctx' = e' \<and> \<not> error_encountered ctx'"
  using decode_chars_feed [OF assms(1,3), of "[]"] assms(2,4)
  by (auto simp: EVP_DecodeUpdate_def split: option.splits)

text \<open>The use of a context, as for the encoder: the client stops at an error.\<close>

primrec decode_stream :: "nat \<Rightarrow> evp_encode_ctx \<Rightarrow> u8 list list \<Rightarrow> u8 list option option" where
  "decode_stream n ctx [] = Some (if fst (EVP_DecodeFinal ctx) = 1 then Some [] else None)"
| "decode_stream n ctx (cs # css) = do {
     (r, k, ctx, out) \<leftarrow> EVP_DecodeUpdate ctx (replicate n 0) cs;
     if r = - 1 then Some None
     else do {
       more \<leftarrow> decode_stream n ctx css;
       Some (map_option ((@) (take k out)) more) } }"

lemma decode_stream_feed:
  assumes "decode_ctx_ok ctx" and "\<not> error_encountered ctx"
    and "\<And>cs. cs \<in> set css \<Longrightarrow> length cs + 3 \<le> n" and "n \<le> INT_MAX"
  shows "decode_stream n ctx css = Some (case feed (pending ctx) (eof_seen ctx) (concat css) of
      None \<Rightarrow> None | Some (p', e', bs) \<Rightarrow> if p' = [] then Some bs else None)"
  using assms(1-3)
proof (induction css arbitrary: ctx)
  case Nil
  have "data_used ctx = 0 \<longleftrightarrow> pending ctx = []"
    using length_pending_dec [OF Nil.prems(1)] by (simp add: unat_eq_0 flip: length_0_conv)
  then show ?case using Nil by (simp add: EVP_DecodeFinal_def)
next
  case (Cons cs css)
  have "length (pending ctx) \<le> 3"
    using length_pending_dec [OF Cons.prems(1)] Cons.prems(1) by (simp add: decode_ctx_ok_def)
  then have "3 * ((length (pending ctx) + length cs) div 4) \<le> length (replicate n (0 :: u8))"
    using Cons.prems(3) [of cs] by simp
  note up = decode_update_feed [OF Cons.prems(1,2) this, simplified, OF assms(4)]
  show ?case
  proof (cases "feed (pending ctx) (eof_seen ctx) cs")
    case None
    then show ?thesis using up by (auto simp: feed_append)
  next
    case (Some t)
    then obtain p' e' bs where t: "feed (pending ctx) (eof_seen ctx) cs = Some (p', e', bs)" by (cases t) auto
    with up obtain ctx' r' where u: "EVP_DecodeUpdate ctx (replicate n 0) cs = Some (if e' then 0 else 1, length bs, ctx', bs @ r')"
      "decode_ctx_ok ctx'" "pending ctx' = p'" "eof_seen ctx' = e'" "\<not> error_encountered ctx'" by auto
    have "decode_stream n ctx' css = Some (case feed p' e' (concat css) of
        None \<Rightarrow> None | Some (p', e', bs) \<Rightarrow> if p' = [] then Some bs else None)"
      using Cons.IH [OF u(2,5)] Cons.prems(3) u(3,4) by simp
    then show ?thesis
      by (auto simp: u(1) feed_append t split: option.splits)
  qed
qed

lemma feed_newline [simp]: "feed [] e (0x0A # cs) = feed [] e cs"
  by (simp add: is_space_def)

lemma feed_lines:
  "feed [] False (b64_lines xs @ cs) = do {
     (p', e', r) \<leftarrow> feed [] False cs;
     Some (p', e', concat (blocks 48 xs) @ r) }"
proof (induction xs rule: blocks48_induct)
  case (short xs)
  then show ?case by (simp add: blocks_short split: Option.bind_split)
next
  case (block b xs)
  then have "length b mod 3 = 0" by simp
  with block show ?case
    by (simp add: b64_lines_block blocks_append_block feed_b64 bind_assoc split_def del: feed.simps)
qed

lemma feed_text: "\<exists>e. feed [] False (b64_text xs) = Some ([], e, xs)"
proof -
  have split: "concat (blocks 48 xs) @ rest 48 xs = xs" by (rule concat_blocks_rest) simp
  show ?thesis
  proof (cases "rest 48 xs = []")
    case True
    then show ?thesis
      using feed_lines [of xs "[]"] split by (simp add: b64_text_def)
  next
    case False
    then show ?thesis
      using feed_lines [of xs "b64 (rest 48 xs) @ [0x0A]"] feed_b64 [of "rest 48 xs" "[0x0A]"] split
      by (simp add: b64_text_def del: feed.simps(2))
  qed
qed

text \<open>
  C8. The streaming decoder undoes the streaming encoder: whatever pieces the input was encoded
  in, and whatever pieces the text is then cut into, the decoder accepts it and returns the
  input, provided the output buffers have room for their pieces.
\<close>

theorem base64_stream_roundtrip:
  assumes "encode_stream n EVP_EncodeInit xss = Some text" and "concat css = text"
    and "\<And>xs. xs \<in> set xss \<Longrightarrow> 65 * (length xs div 48 + 1) < n" and "65 < n" and "n \<le> INT_MAX"
    and "\<And>cs. cs \<in> set css \<Longrightarrow> length cs + 3 \<le> m" and "m \<le> INT_MAX"
  shows "decode_stream m EVP_DecodeInit css = Some (Some (concat xss))"
proof -
  have enc: "encode_ctx_ok EVP_EncodeInit" "pending EVP_EncodeInit = []"
    by (simp_all add: EVP_EncodeInit_def encode_ctx_ok_def pending_def sizeof_data_def)
  have "text = b64_text (concat xss)"
    using encode_stream_ok [OF enc(1) assms(3-5)] enc(2) assms(1) by simp
  then obtain e where feed: "feed [] False (concat css) = Some ([], e, concat xss)"
    using feed_text [of "concat xss"] assms(2) by auto
  have dec: "decode_ctx_ok EVP_DecodeInit" "\<not> error_encountered EVP_DecodeInit"
    "pending EVP_DecodeInit = []" "eof_seen EVP_DecodeInit = False"
    by (simp_all add: EVP_DecodeInit_def decode_ctx_ok_def pending_def sizeof_data_def)
  show ?thesis
    using decode_stream_feed [OF dec(1,2) assms(6,7)] feed by (simp add: dec(3,4))
qed


theorem base64_stream_roundtrip_witness:
  "decode_stream 8 EVP_DecodeInit [[0x5A, 0x6D], [0x39, 0x76, 0x0A]] = Some (Some [0x66, 0x6F, 0x6F])"
proof -
  have t: "b64_text [0x66, 0x6F, 0x6F] = [0x5A, 0x6D, 0x39, 0x76, 0x0A]"
    by (simp add: b64_text_def rest_short b64_digit_def b64_alphabet_codes)
  have "encode_ctx_ok EVP_EncodeInit" "pending EVP_EncodeInit = []"
    by (simp_all add: EVP_EncodeInit_def encode_ctx_ok_def pending_def sizeof_data_def)
  then have "encode_stream 100 EVP_EncodeInit [[0x66], [0x6F, 0x6F]] = Some [0x5A, 0x6D, 0x39, 0x76, 0x0A]"
    using encode_stream_ok [of EVP_EncodeInit "[[0x66], [0x6F, 0x6F]]" 100] t by fastforce
  then have "decode_stream 8 EVP_DecodeInit [[0x5A, 0x6D], [0x39, 0x76, 0x0A]] =
      Some (Some (concat [[0x66], [0x6F, 0x6F]]))"
    by (rule base64_stream_roundtrip) auto
  then show "decode_stream 8 EVP_DecodeInit [[0x5A, 0x6D], [0x39, 0x76, 0x0A]] = Some (Some [0x66, 0x6F, 0x6F])"
    by simp
qed

section \<open>One-shot decoding\<close>

lemma decode_quads_b64:
  "length xs \<le> length r \<Longrightarrow>
   decode_quads (w @ r) (length w) (b64 xs) = Some (True, w @ xs @ drop (length xs) r, length w + length xs)"
proof (induction xs arbitrary: w r rule: b64.induct)
  case (2 a)
  have "unat a * 16 < 4096" using unat_u8_le [of a] by linarith
  from quad_digits(3) [OF this] 2 show ?case by (simp add: put_prefix')
next
  case (3 a b)
  have "unat a * 256 + unat b \<le> 65535" using unat_u8_le [of a] unat_u8_le [of b] by linarith
  then have "(unat a * 256 + unat b) * 4 < 262144" by simp
  from quad_digits(2) [OF this] have q: "base64_decode_quad (b64_digit ((unat a * 256 + unat b) * 4 div 4096))
      (b64_digit ((unat a * 256 + unat b) * 4 div 64)) (b64_digit ((unat a * 256 + unat b) * 4)) 0x3D = Some [a, b]"
    unfolding b64_bytes .
  have "put (w @ r) (length w) [a, b] = Some (w @ [a, b] @ drop 2 r)"
    using 3 by (subst put_prefix') (simp_all add: eval_nat_numeral)
  then show ?case unfolding b64.simps Let_def decode_quads.simps q by (simp add: eval_nat_numeral)
next
  case (4 a b c xs)
  have "unat a * 65536 + unat b * 256 + unat c < 16777216"
    using unat_u8_le [of a] unat_u8_le [of b] unat_u8_le [of c] by linarith
  from quad_digits(1) [OF this] have q: "base64_decode_quad (b64_digit ((unat a * 65536 + unat b * 256 + unat c) div 262144))
      (b64_digit ((unat a * 65536 + unat b * 256 + unat c) div 4096)) (b64_digit ((unat a * 65536 + unat b * 256 + unat c) div 64))
      (b64_digit (unat a * 65536 + unat b * 256 + unat c)) = Some [a, b, c]"
    unfolding b64_bytes .
  have p: "put (w @ r) (length w) [a, b, c] = Some ((w @ [a, b, c]) @ drop 3 r)"
    using 4(2) by (subst put_prefix') (simp_all add: eval_nat_numeral)
  have "decode_quads ((w @ [a, b, c]) @ drop 3 r) (length (w @ [a, b, c])) (b64 xs) =
      Some (True, (w @ [a, b, c]) @ xs @ drop (length xs) (drop 3 r), length (w @ [a, b, c]) + length xs)"
    using 4(2) by (intro 4(1)) auto
  then show ?case
    unfolding b64.simps Let_def append_Cons append_Nil decode_quads.simps q
    by (simp add: p [simplified] eval_nat_numeral ac_simps)
qed simp

lemma b64_not_space: "c \<in> set (b64 xs) \<Longrightarrow> \<not> is_space c"
  by (induction xs rule: b64.induct) (auto simp: Let_def)

lemma trim_b64:
  assumes "set f \<subseteq> {0x20, 0x09}" and "\<And>c. c \<in> set g \<Longrightarrow> is_space c"
  shows "trim_back (trim_front (f @ b64 xs @ g)) = b64 xs"
proof (cases "b64 xs")
  case Nil
  have "set (trim_front (f @ g)) \<subseteq> set (f @ g)"
    unfolding trim_front_def by (meson set_dropWhileD subsetI)
  then have "\<forall>c \<in> set (rev (trim_front (f @ g))). is_space c"
    using assms by (auto simp: is_space_def)
  then have "dropWhile is_space (rev (trim_front (f @ g))) = []" by (simp only: dropWhile_eq_Nil_conv)
  then show ?thesis using Nil by (simp add: trim_back_def)
next
  case (Cons c cs)
  have f: "trim_front (f @ b64 xs @ g) = b64 xs @ g"
    using assms(1) b64_not_space [of c xs] Cons
    by (auto simp: trim_front_def is_space_def dropWhile_append2 dropWhile_append3)
  have "last (b64 xs) \<in> set (b64 xs)" using Cons by (metis last_in_set list.distinct(1))
  then have "\<not> is_space (last (b64 xs))" by (rule b64_not_space)
  moreover have "rev (b64 xs) = last (b64 xs) # rev (butlast (b64 xs))"
    using Cons by (metis append_butlast_last_id list.distinct(1) rev_eq_Cons_iff rev_rev_ident)
  ultimately have d: "dropWhile is_space (rev (b64 xs)) = rev (b64 xs)" by (metis dropWhile.simps(2))
  have "dropWhile is_space (rev g @ rev (b64 xs)) = rev (b64 xs)"
    using assms(2) by (subst dropWhile_append2) (simp_all add: d)
  then show ?thesis unfolding f trim_back_def by simp
qed

lemma pad_nul_zeros:
  "k \<le> 3 \<Longrightarrow> (n + k) mod 3 = 0 \<Longrightarrow> (\<And>j. j < k \<Longrightarrow> (n + j) mod 3 \<noteq> 0) \<Longrightarrow> length w = n \<Longrightarrow> k \<le> length r \<Longrightarrow>
   pad_nul (w @ r) n = Some (w @ replicate k 0 @ drop k r, n + k)"
proof (induction k arbitrary: w n r)
  case 0
  then show ?case by (subst pad_nul.simps) simp
next
  case (Suc k)
  have n: "n mod 3 \<noteq> 0" using Suc.prems(3) [of 0] by simp
  have "(n + 1 + j) mod 3 \<noteq> 0" if "j < k" for j using Suc.prems(3) [of "Suc j"] that by simp
  then have "pad_nul ((w @ [0]) @ drop 1 r) (n + 1) = Some ((w @ [0]) @ replicate k 0 @ drop k (drop 1 r), n + 1 + k)"
    using Suc.prems by (intro Suc.IH) auto
  moreover have "put (w @ r) n [0] = Some ((w @ [0]) @ drop 1 r)"
    using Suc.prems by (subst put_prefix') simp_all
  ultimately show ?case using n by (subst pad_nul.simps) (simp add: ac_simps)
qed


text \<open>
  C9. \<open>EVP_DecodeBlock\<close> undoes \<open>EVP_EncodeBlock\<close>, whatever spaces and tabs stand before the text
  and whatever white space behind it: it writes the input and fills up with zero bytes to
  the multiple of three that it returns, inside a buffer of that size.
\<close>

theorem decode_block_roundtrip:
  assumes "length xs \<le> 2 ^ 30" and "set f \<subseteq> {0x20, 0x09}" and "\<And>c. c \<in> set g \<Longrightarrow> is_space c"
    and "3 * ((length xs + 2) div 3) \<le> length dst"
  shows "EVP_DecodeBlock dst (f @ b64 xs @ g) =
    Some (int (3 * ((length xs + 2) div 3)),
      xs @ replicate (3 * ((length xs + 2) div 3) - length xs) 0 @ drop (3 * ((length xs + 2) div 3)) dst)"
proof -
  define m where "m = (length xs + 2) div 3"
  define k where "k = 3 * m - length xs"
  have m: "length xs \<le> 3 * m" "3 * m \<le> length xs + 2" unfolding m_def by linarith+
  have small: "m \<le> 2 ^ 29" using m assms(1) by simp
  have lb: "length (b64 xs) = 4 * m" by (simp add: length_b64 m_def)
  have u4: "unat (word_of_nat (4 * m) :: u64) = 4 * m"
    using small by (intro unat_of_nat_u64) simp
  then have "unat ((word_of_nat (4 * m) :: u64) mod 4) = 0" by (simp add: unat_mod_distrib del: of_nat_mult)
  then have mod0: "(word_of_nat (4 * m) :: u64) mod 4 = 0" by (simp add: unat_eq_0)
  have "unat ((word_of_nat (4 * m) :: u64) div 4) = m" by (simp add: unat_div_distrib u4 del: of_nat_mult)
  then have "(word_of_nat (4 * m) :: u64) div 4 * 3 = word_of_nat (m * 3)"
    by (metis of_nat_unat_u64 of_nat_mult of_nat_numeral)
  then have len: "EVP_DecodedLength (word_of_nat (length (b64 xs))) = Some (word_of_nat (m * 3))"
    unfolding EVP_DecodedLength_def lb by (simp only: mod0 simp_thms if_False)
  have u3: "unat (word_of_nat (m * 3) :: u64) = 3 * m"
    using small by (subst unat_of_nat_u64) simp_all
  have "decode_quads dst 0 (b64 xs) = Some (True, xs @ drop (length xs) dst, length xs)"
    using decode_quads_b64 [of xs dst "[]"] m assms(4) by (simp add: m_def [symmetric])
  then have d: "EVP_DecodeBase64 dst (word_of_nat (m * 3)) (b64 xs) = Some (True, xs @ drop (length xs) dst, length xs)"
    unfolding EVP_DecodeBase64_def len by (simp add: lb)
  have "pad_nul (xs @ drop (length xs) dst) (length xs) =
      Some (xs @ replicate k 0 @ drop k (drop (length xs) dst), length xs + k)"
  proof (rule pad_nul_zeros)
    show "k \<le> 3" "(length xs + k) mod 3 = 0" using m by (simp_all add: k_def)
    show "(length xs + j) mod 3 \<noteq> 0" if "j < k" for j using that m unfolding k_def by presburger
    show "k \<le> length (drop (length xs) dst)" using m assms(4) unfolding k_def length_drop m_def [symmetric] by linarith
  qed simp
  then have p: "pad_nul (xs @ drop (length xs) dst) (length xs) =
      Some (xs @ replicate k 0 @ drop (3 * m) dst, 3 * m)" using m by (simp add: k_def)
  have t: "trim_back (trim_front (f @ b64 xs @ g)) = b64 xs"
    by (rule trim_b64 [OF assms(2)]) (rule assms(3))
  have "\<not> INT_MAX < 3 * m" using small by simp
  then show ?thesis
    unfolding EVP_DecodeBlock_def Let_def t len option.case u3 if_False m_def [symmetric] k_def [symmetric]
    by (simp add: d p del: of_nat_mult)
qed

theorem decode_block_roundtrip_witness:
  "EVP_DecodeBlock [9, 9, 9, 9] [0x20, 0x5A, 0x6D, 0x38, 0x3D, 0x0A] = Some (3, [0x66, 0x6F, 0, 9])"
proof -
  have b: "b64 [0x66, 0x6F] = [0x5A, 0x6D, 0x38, 0x3D]"
    by (simp add: b64_digit_def b64_alphabet_codes)
  have "EVP_DecodeBlock [9, 9, 9, 9] ([0x20] @ b64 [0x66, 0x6F] @ [0x0A]) = Some (int (3 * ((length [0x66 :: u8, 0x6F] + 2) div 3)),
      [0x66, 0x6F] @ replicate (3 * ((length [0x66 :: u8, 0x6F] + 2) div 3) - length [0x66 :: u8, 0x6F]) 0 @
      drop (3 * ((length [0x66 :: u8, 0x6F] + 2) div 3)) [9, 9, 9, 9])"
    by (rule decode_block_roundtrip) (auto simp: is_space_def)
  then show ?thesis unfolding b by simp
qed

end
