(* ===== verification/Cbs.thy ===== *)
theory Cbs
  imports CBuffer
begin

text \<open>
  BoringSSL: \<open>crypto/bytestring/cbs.c\<close>, the reader of byte strings. A \<open>CBS\<close> (pointer and
  length) is the list of the bytes that it still covers. An operation that takes the \<open>CBS\<close> by
  pointer returns its result, \<open>None\<close> for the return value 0, and the \<open>CBS\<close> that it leaves,
  also when it fails. The \<open>assert (0)\<close> in \<open>CBS_get_any_asn1\<close> and \<open>cbs_get_asn1\<close> is the failure that the
  code returns behind it. Heap copies (\<open>CBS_stow\<close>, \<open>CBS_strdup\<close>) take whether the allocation
  succeeds as an argument.
\<close>

type_synonym cbs = "u8 list"
type_synonym 'a cbs_reader = "cbs \<Rightarrow> 'a option \<times> cbs"

named_theorems cbs_defs \<open>definitions of the reader combinators\<close>

definition cbs_return :: "'a \<Rightarrow> 'a cbs_reader" where
  "cbs_return a = (\<lambda>s. (Some a, s))"

definition cbs_fail :: "'a cbs_reader" where
  "cbs_fail = (\<lambda>s. (None, s))"

definition cbs_then :: "'a cbs_reader \<Rightarrow> ('a \<Rightarrow> 'b cbs_reader) \<Rightarrow> 'b cbs_reader" where
  "cbs_then r f = (\<lambda>s. case r s of (None, s') \<Rightarrow> (None, s') | (Some a, s') \<Rightarrow> f a s')"

declare cbs_return_def [cbs_defs] cbs_fail_def [cbs_defs] cbs_then_def [cbs_defs]

section \<open>Basic access\<close>

definition CBS_init :: "u8 list \<Rightarrow> u64 \<Rightarrow> cbs" where
  "CBS_init dat n = take (unat n) dat"

definition cbs_get :: "u64 \<Rightarrow> u8 list cbs_reader" where
  "cbs_get n = (\<lambda>s. if length s < unat n then (None, s) else (Some (take (unat n) s), drop (unat n) s))"

definition CBS_skip :: "u64 \<Rightarrow> unit cbs_reader" where
  "CBS_skip n = cbs_then (cbs_get n) (\<lambda>dummy. cbs_return ())"

definition CBS_data :: "cbs \<Rightarrow> u8 list" where
  "CBS_data s = s"

definition CBS_len :: "cbs \<Rightarrow> u64" where
  "CBS_len s = word_of_nat (length s)"

text \<open>The copies: the new object, \<open>None\<close> when there is none, and the flag returned.\<close>

definition CBS_stow :: "bool \<Rightarrow> cbs \<Rightarrow> bool \<times> u8 list option" where
  "CBS_stow malloc_ok s = (if CBS_len s = 0 then (True, None)
     else if malloc_ok then (True, Some s) else (False, None))"

definition OPENSSL_strnlen :: "u8 list \<Rightarrow> nat" where
  "OPENSSL_strnlen s = length (takeWhile (\<lambda>c. c \<noteq> 0) s)"

definition OPENSSL_strndup :: "bool \<Rightarrow> u8 list \<Rightarrow> u8 list option" where
  "OPENSSL_strndup malloc_ok s = (let size = word_of_nat (OPENSSL_strnlen s) :: u64; alloc_size = size + 1 in
     if alloc_size < size then None
     else if \<not> malloc_ok then None
     else Some (take (unat size) s @ [0]))"

definition CBS_strdup :: "bool \<Rightarrow> cbs \<Rightarrow> bool \<times> u8 list option" where
  "CBS_strdup malloc_ok s = (let p = OPENSSL_strndup malloc_ok s in (p \<noteq> None, p))"

definition CBS_contains_zero_byte :: "cbs \<Rightarrow> bool" where
  "CBS_contains_zero_byte s = (0 \<in> set s)"

text \<open>\<open>CRYPTO_memcmp\<close> of two strings of one length: it looks at every byte.\<close>

fun CRYPTO_memcmp :: "u8 list \<Rightarrow> u8 list \<Rightarrow> u8" where
  "CRYPTO_memcmp (a # as) (b # bs) = (a XOR b) OR CRYPTO_memcmp as bs"
| "CRYPTO_memcmp _ _ = 0"

definition CBS_mem_equal :: "cbs \<Rightarrow> u8 list \<Rightarrow> bool" where
  "CBS_mem_equal s dat = (if word_of_nat (length dat) \<noteq> CBS_len s then False else CRYPTO_memcmp (CBS_data s) dat = 0)"

section \<open>Integers\<close>

definition cbs_get_u :: "u64 \<Rightarrow> u64 cbs_reader" where
  "cbs_get_u n = cbs_then (cbs_get n) (\<lambda>dat.
     cbs_return (foldl (\<lambda>result d. push_bit 8 result OR ucast d) 0 dat))"

definition CBS_get_u8 :: "u8 cbs_reader" where
  "CBS_get_u8 = cbs_then (cbs_get 1) (\<lambda>v. cbs_return (v ! 0))"

definition CBS_get_u16 :: "u16 cbs_reader" where
  "CBS_get_u16 = cbs_then (cbs_get_u 2) (\<lambda>v. cbs_return (ucast v))"

text \<open>\<open>CRYPTO_bswap2/4/8\<close> reverse the bytes of a word.\<close>

definition CRYPTO_bswap2 :: "u16 \<Rightarrow> u16" where
  "CRYPTO_bswap2 x = drop_bit 8 x OR push_bit 8 x"

definition CRYPTO_bswap4 :: "u32 \<Rightarrow> u32" where
  "CRYPTO_bswap4 x = word_of_nat (be_nat (le_bytes 4 (unat x)))"

definition CRYPTO_bswap8 :: "u64 \<Rightarrow> u64" where
  "CRYPTO_bswap8 x = word_of_nat (be_nat (le_bytes 8 (unat x)))"

definition CBS_get_u16le :: "u16 cbs_reader" where
  "CBS_get_u16le = cbs_then CBS_get_u16 (\<lambda>v. cbs_return (CRYPTO_bswap2 v))"

definition CBS_get_u24 :: "u32 cbs_reader" where
  "CBS_get_u24 = cbs_then (cbs_get_u 3) (\<lambda>v. cbs_return (ucast v))"

definition CBS_get_u32 :: "u32 cbs_reader" where
  "CBS_get_u32 = cbs_then (cbs_get_u 4) (\<lambda>v. cbs_return (ucast v))"

definition CBS_get_u32le :: "u32 cbs_reader" where
  "CBS_get_u32le = cbs_then CBS_get_u32 (\<lambda>v. cbs_return (CRYPTO_bswap4 v))"

definition CBS_get_u64 :: "u64 cbs_reader" where
  "CBS_get_u64 = cbs_get_u 8"

definition CBS_get_u64le :: "u64 cbs_reader" where
  "CBS_get_u64le = cbs_then (cbs_get_u 8) (\<lambda>v. cbs_return (CRYPTO_bswap8 v))"

definition CBS_get_last_u8 :: "u8 cbs_reader" where
  "CBS_get_last_u8 = (\<lambda>s. if CBS_len s = 0 then (None, s) else (Some (s ! (length s - 1)), take (length s - 1) s))"

definition CBS_get_bytes :: "u64 \<Rightarrow> cbs cbs_reader" where
  "CBS_get_bytes n = cbs_then (cbs_get n) (\<lambda>v. cbs_return (CBS_init v n))"

definition CBS_copy_bytes :: "u64 \<Rightarrow> u8 list cbs_reader" where
  "CBS_copy_bytes n = cbs_get n"

definition cbs_get_length_prefixed :: "u64 \<Rightarrow> cbs cbs_reader" where
  "cbs_get_length_prefixed len_len = cbs_then (cbs_get_u len_len) CBS_get_bytes"

definition CBS_get_u8_length_prefixed :: "cbs cbs_reader" where
  "CBS_get_u8_length_prefixed = cbs_get_length_prefixed 1"

definition CBS_get_u16_length_prefixed :: "cbs cbs_reader" where
  "CBS_get_u16_length_prefixed = cbs_get_length_prefixed 2"

definition CBS_get_u24_length_prefixed :: "cbs cbs_reader" where
  "CBS_get_u24_length_prefixed = cbs_get_length_prefixed 3"

section \<open>ASN.1 elements\<close>

definition CBS_ASN1_TAG_SHIFT :: nat where "CBS_ASN1_TAG_SHIFT = 24"
definition CBS_ASN1_CONSTRUCTED :: u32 where "CBS_ASN1_CONSTRUCTED = push_bit CBS_ASN1_TAG_SHIFT 0x20"
definition CBS_ASN1_TAG_NUMBER_MASK :: u32 where
  "CBS_ASN1_TAG_NUMBER_MASK = push_bit (5 + CBS_ASN1_TAG_SHIFT) 1 - 1"
definition CBS_ASN1_BOOLEAN :: u32 where "CBS_ASN1_BOOLEAN = 1"
definition CBS_ASN1_INTEGER :: u32 where "CBS_ASN1_INTEGER = 2"
definition CBS_ASN1_OCTETSTRING :: u32 where "CBS_ASN1_OCTETSTRING = 4"

text \<open>The loop of \<open>parse_base128_integer\<close> with the value so far.\<close>

fun base128_loop :: "u64 \<Rightarrow> u64 cbs_reader" where
  "base128_loop v [] = (None, [])"
| "base128_loop v (b # s) = (
     if drop_bit 57 v \<noteq> 0 then (None, s)
     else if v = 0 \<and> b = 0x80 then (None, s)
     else let v = push_bit 7 v OR ucast (b AND 0x7F) in
       if b AND 0x80 \<noteq> 0 then base128_loop v s else (Some v, s))"

definition parse_base128_integer :: "u64 cbs_reader" where
  "parse_base128_integer = base128_loop 0"

definition parse_asn1_tag :: "u32 cbs_reader" where
  "parse_asn1_tag = cbs_then CBS_get_u8 (\<lambda>tag_byte. let
     tag = push_bit CBS_ASN1_TAG_SHIFT (ucast tag_byte AND 0xE0);
     tag_number = ucast (tag_byte AND 0x1F) in
     if tag_number = 0x1F then
       cbs_then parse_base128_integer (\<lambda>v.
         if v > ucast CBS_ASN1_TAG_NUMBER_MASK \<or> v < 0x1F then cbs_fail
         else cbs_return (tag OR ucast v))
     else cbs_return (tag OR tag_number))"

text \<open>The result is the element (header included), its tag and the length of its header. The
  header is read from a copy of the \<open>CBS\<close>: only \<open>CBS_get_bytes\<close> at the end moves the original.\<close>

definition cbs_get_any_asn1_element :: "bool \<Rightarrow> (cbs \<times> u32 \<times> u64) cbs_reader" where
  "cbs_get_any_asn1_element ber_ok cbs = (
     case parse_asn1_tag cbs of (None, header) \<Rightarrow> (None, cbs) | (Some tag, header) \<Rightarrow>
     case CBS_get_u8 header of (None, header) \<Rightarrow> (None, cbs) | (Some length_byte, header) \<Rightarrow>
     let header_len = CBS_len cbs - CBS_len header;
       get = (\<lambda>n hl. cbs_then (CBS_get_bytes n) (\<lambda>out. cbs_return (out, tag, hl)) cbs) in
     if length_byte AND 0x80 = 0 then get (ucast length_byte + header_len) header_len
     else let num_bytes = ucast (length_byte AND 0x7F) :: u64 in
       if ber_ok \<and> tag AND CBS_ASN1_CONSTRUCTED \<noteq> 0 \<and> num_bytes = 0 then get header_len header_len
       else if num_bytes = 0 \<or> num_bytes > 4 then (None, cbs)
       else case cbs_get_u num_bytes header of (None, header) \<Rightarrow> (None, cbs) | (Some len64, header) \<Rightarrow>
         if len64 < 128 then (None, cbs)
         else if drop_bit ((unat num_bytes - 1) * 8) len64 = 0 then (None, cbs)
         else if len64 + header_len + num_bytes < len64 then (None, cbs)
         else get (len64 + (header_len + num_bytes)) (header_len + num_bytes))"

definition CBS_get_any_asn1_element :: "(cbs \<times> u32 \<times> u64) cbs_reader" where
  "CBS_get_any_asn1_element = cbs_get_any_asn1_element False"

definition CBS_get_any_ber_asn1_element :: "(cbs \<times> u32 \<times> u64) cbs_reader" where
  "CBS_get_any_ber_asn1_element = cbs_get_any_asn1_element True"

definition CBS_get_any_asn1 :: "(cbs \<times> u32) cbs_reader" where
  "CBS_get_any_asn1 = cbs_then CBS_get_any_asn1_element (\<lambda>(out, tag, header_len).
     case CBS_skip header_len out of (None, out) \<Rightarrow> cbs_fail | (Some _, out) \<Rightarrow> cbs_return (out, tag))"

definition cbs_get_asn1 :: "u32 \<Rightarrow> bool \<Rightarrow> cbs cbs_reader" where
  "cbs_get_asn1 tag_value skip_header = cbs_then CBS_get_any_asn1_element (\<lambda>(out, tag, header_len).
     if tag \<noteq> tag_value then cbs_fail
     else if skip_header then
       (case CBS_skip header_len out of (None, out) \<Rightarrow> cbs_fail | (Some _, out) \<Rightarrow> cbs_return out)
     else cbs_return out)"

definition CBS_get_asn1 :: "u32 \<Rightarrow> cbs cbs_reader" where
  "CBS_get_asn1 tag_value = cbs_get_asn1 tag_value True"

definition CBS_get_asn1_element :: "u32 \<Rightarrow> cbs cbs_reader" where
  "CBS_get_asn1_element tag_value = cbs_get_asn1 tag_value False"

definition CBS_peek_asn1_tag :: "cbs \<Rightarrow> u32 \<Rightarrow> bool" where
  "CBS_peek_asn1_tag cbs tag_value = (if CBS_len cbs < 1 then False
     else case fst (parse_asn1_tag cbs) of None \<Rightarrow> False | Some actual_tag \<Rightarrow> tag_value = actual_tag)"

section \<open>ASN.1 values\<close>

text \<open>The loop of \<open>CBS_get_asn1_uint64\<close>.\<close>

fun uint64_loop :: "u64 \<Rightarrow> u8 list \<Rightarrow> u64 option" where
  "uint64_loop out [] = Some out"
| "uint64_loop out (d # dat) =
     (if drop_bit 56 out \<noteq> 0 then None else uint64_loop (push_bit 8 out OR ucast d) dat)"

definition CBS_get_asn1_uint64 :: "u64 cbs_reader" where
  "CBS_get_asn1_uint64 = cbs_then (CBS_get_asn1 CBS_ASN1_INTEGER) (\<lambda>dat.
     if length dat = 0 then cbs_fail
     else if dat ! 0 AND 0x80 \<noteq> 0 then cbs_fail
     else if dat ! 0 = 0 \<and> length dat > 1 \<and> dat ! 1 AND 0x80 = 0 then cbs_fail
     else case uint64_loop 0 dat of None \<Rightarrow> cbs_fail | Some out \<Rightarrow> cbs_return out)"

text \<open>An \<open>int64_t\<close> is its 64-bit pattern; the union of the code is read little-endian.\<close>

definition CBS_get_asn1_int64 :: "u64 cbs_reader" where
  "CBS_get_asn1_int64 = cbs_then (CBS_get_asn1 CBS_ASN1_INTEGER) (\<lambda>dat.
     if length dat = 0 \<or> length dat > 8 then cbs_fail
     else if length dat > 1 \<and> dat ! 0 = 0 \<and> dat ! 1 AND 0x80 = 0 then cbs_fail
     else if length dat > 1 \<and> dat ! 0 = 0xFF \<and> dat ! 1 AND 0x80 \<noteq> 0 then cbs_fail
     else let is_negative = (dat ! 0 AND 0x80 \<noteq> 0);
       bytes = rev dat @ replicate (8 - length dat) (if is_negative then 0xFF else 0) in
       cbs_return (word_of_nat (le_nat bytes)))"

definition CBS_get_asn1_bool :: "bool cbs_reader" where
  "CBS_get_asn1_bool = cbs_then (CBS_get_asn1 CBS_ASN1_BOOLEAN) (\<lambda>bytes.
     if CBS_len bytes \<noteq> 1 then cbs_fail
     else let v = bytes ! 0 in if v \<noteq> 0 \<and> v \<noteq> 0xFF then cbs_fail else cbs_return (v \<noteq> 0))"

text \<open>An optional element: \<open>None\<close> inside the result when it is absent.\<close>

definition CBS_get_optional_asn1 :: "u32 \<Rightarrow> cbs option cbs_reader" where
  "CBS_get_optional_asn1 tag = (\<lambda>cbs. if CBS_peek_asn1_tag cbs tag
     then cbs_then (CBS_get_asn1 tag) (\<lambda>out. cbs_return (Some out)) cbs
     else (Some None, cbs))"

definition CBS_get_optional_asn1_octet_string :: "u32 \<Rightarrow> (cbs \<times> bool) cbs_reader" where
  "CBS_get_optional_asn1_octet_string tag = cbs_then (CBS_get_optional_asn1 tag) (\<lambda>child.
     case child of
       None \<Rightarrow> cbs_return ([], False)
     | Some child \<Rightarrow>
         (case CBS_get_asn1 CBS_ASN1_OCTETSTRING child of
            (None, child) \<Rightarrow> cbs_fail
          | (Some out, child) \<Rightarrow> if CBS_len child \<noteq> 0 then cbs_fail else cbs_return (out, True)))"

definition CBS_get_optional_asn1_uint64 :: "u32 \<Rightarrow> u64 \<Rightarrow> u64 cbs_reader" where
  "CBS_get_optional_asn1_uint64 tag default_value = cbs_then (CBS_get_optional_asn1 tag) (\<lambda>child.
     case child of
       None \<Rightarrow> cbs_return default_value
     | Some child \<Rightarrow>
         (case CBS_get_asn1_uint64 child of
            (None, child) \<Rightarrow> cbs_fail
          | (Some out, child) \<Rightarrow> if CBS_len child \<noteq> 0 then cbs_fail else cbs_return out))"

definition CBS_get_optional_asn1_bool :: "u32 \<Rightarrow> bool \<Rightarrow> bool cbs_reader" where
  "CBS_get_optional_asn1_bool tag default_value = cbs_then (CBS_get_optional_asn1 tag) (\<lambda>child.
     case child of
       None \<Rightarrow> cbs_return default_value
     | Some child \<Rightarrow>
         (case CBS_get_asn1 CBS_ASN1_BOOLEAN child of
            (None, child) \<Rightarrow> cbs_fail
          | (Some child2, child) \<Rightarrow>
              if CBS_len child2 \<noteq> 1 \<or> CBS_len child \<noteq> 0 then cbs_fail
              else let boolean = CBS_data child2 ! 0 in
                if boolean = 0 then cbs_return False
                else if boolean = 0xFF then cbs_return True
                else cbs_fail))"

definition CBS_is_valid_asn1_bitstring :: "cbs \<Rightarrow> bool" where
  "CBS_is_valid_asn1_bitstring cbs = (case CBS_get_u8 cbs of
     (None, s) \<Rightarrow> False
   | (Some num_unused_bits, s) \<Rightarrow>
       if num_unused_bits > 7 then False
       else if num_unused_bits = 0 then True
       else case CBS_get_last_u8 s of
         (None, s) \<Rightarrow> False
       | (Some last_u8, s) \<Rightarrow> last_u8 AND (push_bit (unat num_unused_bits) 1 - 1) = 0)"

definition CBS_asn1_bitstring_has_bit :: "cbs \<Rightarrow> u32 \<Rightarrow> bool" where
  "CBS_asn1_bitstring_has_bit cbs b = (
     if \<not> CBS_is_valid_asn1_bitstring cbs then False
     else let byte_num = drop_bit 3 b + 1; bit_num = 7 - (b AND 7) in
       unat byte_num < length cbs \<and> cbs ! unat byte_num AND push_bit (unat bit_num) 1 \<noteq> 0)"

section \<open>Unicode\<close>

text \<open>\<open>crypto/bytestring/unicode.c\<close>, its readers.\<close>

definition is_valid_code_point :: "u32 \<Rightarrow> bool" where
  "is_valid_code_point v = (
     if v > 0x10FFFF \<or> v AND 0xFFFE = 0xFFFE \<or> (v \<ge> 0xFDD0 \<and> v \<le> 0xFDEF) \<or> (v \<ge> 0xD800 \<and> v \<le> 0xDFFF)
     then False else True)"

definition BOTTOM_BITS :: "nat \<Rightarrow> u8" where
  "BOTTOM_BITS n = ucast (push_bit n 1 - 1 :: u32)"

definition TOP_BITS :: "nat \<Rightarrow> u8" where
  "TOP_BITS n = NOT (BOTTOM_BITS (8 - n))"

text \<open>The loop over the \<open>n\<close> continuation bytes.\<close>

primrec utf8_loop :: "nat \<Rightarrow> u32 \<Rightarrow> u32 cbs_reader" where
  "utf8_loop 0 v = cbs_return v"
| "utf8_loop (Suc n) v = cbs_then CBS_get_u8 (\<lambda>c.
     if c AND TOP_BITS 2 \<noteq> TOP_BITS 1 then cbs_fail
     else utf8_loop n (push_bit 6 v OR ucast (c AND BOTTOM_BITS 6)))"

definition cbs_get_utf8 :: "u32 cbs_reader" where
  "cbs_get_utf8 = cbs_then CBS_get_u8 (\<lambda>c.
     if c \<le> 0x7F then cbs_return (ucast c)
     else let rest_of = (\<lambda>v n lower_bound. cbs_then (utf8_loop n (ucast v)) (\<lambda>v.
         if \<not> is_valid_code_point v \<or> v < lower_bound then cbs_fail else cbs_return v)) in
       if c AND TOP_BITS 3 = TOP_BITS 2 then rest_of (c AND BOTTOM_BITS 5) 1 0x80
       else if c AND TOP_BITS 4 = TOP_BITS 3 then rest_of (c AND BOTTOM_BITS 4) 2 0x800
       else if c AND TOP_BITS 5 = TOP_BITS 4 then rest_of (c AND BOTTOM_BITS 3) 3 0x10000
       else cbs_fail)"

definition cbs_get_latin1 :: "u32 cbs_reader" where
  "cbs_get_latin1 = cbs_then CBS_get_u8 (\<lambda>c. cbs_return (ucast c))"

definition cbs_get_ucs2_be :: "u32 cbs_reader" where
  "cbs_get_ucs2_be = cbs_then CBS_get_u16 (\<lambda>c.
     if \<not> is_valid_code_point (ucast c) then cbs_fail else cbs_return (ucast c))"

definition cbs_get_utf32_be :: "u32 cbs_reader" where
  "cbs_get_utf32_be = cbs_then CBS_get_u32 (\<lambda>v.
     if is_valid_code_point v then cbs_return v else cbs_fail)"

end
