(* ===== verification/Cbb.thy ===== *)
theory Cbb
  imports Cbs
begin

text \<open>
  BoringSSL: \<open>crypto/bytestring/cbb.c\<close>, the writer of byte strings. All \<open>CBB\<close> objects that write to
  one buffer form a chain: the top-level one, its child, the child of that child. The model's
  state is the shared \<open>cbb_buffer_st\<close> and the chain of children; an object is named by its
  depth in the chain. An object that is no longer in the chain has \<open>base == NULL\<close> in C, and so
  has a depth beyond the chain here. The buffer is the list of its valid bytes (its \<open>len\<close> is
  the length) next to its capacity. Whether an allocation of a size succeeds is the argument
  \<open>mem\<close>. A violated \<open>assert\<close>, an access through \<open>NULL\<close> and a write outside the buffer are undefined.
\<close>

record cbb_buffer =
  cbb_buf :: "u8 list"
  cbb_cap :: u64
  can_resize :: bool
  cbb_error :: bool

record cbb_child =
  offset :: u64
  pending_len_len :: u8
  pending_is_asn1 :: bool

record cbb =
  base :: "cbb_buffer option"
  children :: "cbb_child list"

type_synonym mem = "u64 \<Rightarrow> bool"

section \<open>The buffer\<close>

abbreviation cbb_buf_len :: "cbb_buffer \<Rightarrow> u64" where
  "cbb_buf_len b \<equiv> word_of_nat (length (cbb_buf b))"

definition CBB_zero :: cbb where
  "CBB_zero = \<lparr>base = None, children = []\<rparr>"

definition cbb_init :: "mem \<Rightarrow> u64 \<Rightarrow> cbb step" where
  "cbb_init mem cap = (\<lambda>cbb. if \<not> mem 32 then Some (False, cbb)
     else Some (True, cbb\<lparr>base := Some \<lparr>cbb_buf = [], cbb_cap = cap, can_resize = True, cbb_error = False\<rparr>\<rparr>))"

definition CBB_init :: "mem \<Rightarrow> u64 \<Rightarrow> (bool \<times> cbb) option" where
  "CBB_init mem initial_capacity =
     (if initial_capacity > 0 \<and> \<not> mem initial_capacity then Some (False, CBB_zero)
      else cbb_init mem initial_capacity CBB_zero)"

definition CBB_init_fixed :: "mem \<Rightarrow> u64 \<Rightarrow> (bool \<times> cbb) option" where
  "CBB_init_fixed mem n = and_then (cbb_init mem n)
     (\<lambda>cbb. Some (True, cbb\<lparr>base := map_option (\<lambda>b. b\<lparr>can_resize := False\<rparr>) (base cbb)\<rparr>)) CBB_zero"

text \<open>\<open>CBB_cleanup\<close> frees the buffer of a top-level object.\<close>

definition CBB_cleanup :: "nat \<Rightarrow> cbb \<Rightarrow> cbb option" where
  "CBB_cleanup d cbb = (if d \<noteq> 0 then None else Some (cbb\<lparr>base := None\<rparr>))"

definition cbb_set_error :: "cbb_buffer \<Rightarrow> bool \<times> cbb_buffer" where
  "cbb_set_error b = (False, b\<lparr>cbb_error := True\<rparr>)"

definition cbb_buffer_reserve :: "mem \<Rightarrow> u64 \<Rightarrow> cbb_buffer \<Rightarrow> bool \<times> cbb_buffer" where
  "cbb_buffer_reserve mem n b = (let newlen = cbb_buf_len b + n in
     if newlen < cbb_buf_len b then cbb_set_error b
     else if newlen > cbb_cap b then
       let newcap = cbb_cap b * 2 in
       if \<not> can_resize b then cbb_set_error b
       else let newcap = (if newcap < cbb_cap b \<or> newcap < newlen then newlen else newcap) in
         if \<not> mem newcap then cbb_set_error b
         else (True, b\<lparr>cbb_cap := newcap\<rparr>)
     else (True, b))"

text \<open>\<open>cbb_buffer_add\<close>; the bytes are what the caller stores in the space it gets.\<close>

definition cbb_buffer_add :: "mem \<Rightarrow> u8 list \<Rightarrow> cbb_buffer \<Rightarrow> bool \<times> cbb_buffer" where
  "cbb_buffer_add mem bytes b = (case cbb_buffer_reserve mem (word_of_nat (length bytes)) b of
     (False, b) \<Rightarrow> (False, b)
   | (True, b) \<Rightarrow> (True, b\<lparr>cbb_buf := cbb_buf b @ bytes\<rparr>))"

definition cbb_buffer_add_u :: "mem \<Rightarrow> u64 \<Rightarrow> nat \<Rightarrow> cbb_buffer \<Rightarrow> bool \<times> cbb_buffer" where
  "cbb_buffer_add_u mem v len_len b = (
     if len_len = 0 then (True, b)
     else case cbb_buffer_add mem (be_bytes len_len (unat v)) b of
       (False, b) \<Rightarrow> (False, b)
     | (True, b) \<Rightarrow> if drop_bit (8 * len_len) v \<noteq> 0 then cbb_set_error b else (True, b))"

text \<open>An operation on the buffer of a chain; without a buffer it returns 0.\<close>

definition on_base :: "(cbb_buffer \<Rightarrow> bool \<times> cbb_buffer) \<Rightarrow> cbb step" where
  "on_base f = (\<lambda>cbb. case base cbb of
     None \<Rightarrow> Some (False, cbb)
   | Some b \<Rightarrow> (case f b of (ok, b) \<Rightarrow> Some (ok, cbb\<lparr>base := Some b\<rparr>)))"

section \<open>Flushing\<close>

text \<open>The length octets of an ASN.1 element: how many, and the first one. \<open>None\<close>: too large.\<close>

definition asn1_length :: "u64 \<Rightarrow> (nat \<times> u8) option" where
  "asn1_length len = (
     if len > 0xFFFFFFFE then None
     else if len > 0xFFFFFF then Some (5, 0x80 OR 4)
     else if len > 0xFFFF then Some (4, 0x80 OR 3)
     else if len > 0xFF then Some (3, 0x80 OR 2)
     else if len > 0x7F then Some (2, 0x80 OR 1)
     else Some (1, ucast len))"

text \<open>The length bytes of a child, whose first position and number are given; what is left
  of the length above them must be zero.\<close>

definition write_length :: "nat \<Rightarrow> nat \<Rightarrow> u64 \<Rightarrow> cbb_buffer \<Rightarrow> (bool \<times> cbb_buffer) option" where
  "write_length pos n len b = do {
     buf \<leftarrow> put (cbb_buf b) pos (be_bytes n (unat len));
     let b = b\<lparr>cbb_buf := buf\<rparr>;
     if drop_bit (8 * n) len \<noteq> 0 then Some (cbb_set_error b) else Some (True, b) }"

text \<open>The body of \<open>CBB_flush\<close> behind its recursive call: the child's length prefix.\<close>

definition close_child :: "mem \<Rightarrow> cbb_child \<Rightarrow> cbb_buffer \<Rightarrow> (bool \<times> cbb_buffer) option" where
  "close_child mem c b = (
     let child_start = offset c + ucast (pending_len_len c); len = cbb_buf_len b - child_start in
     if pending_is_asn1 c then
       if pending_len_len c \<noteq> 1 then None
       else (case asn1_length len of
           None \<Rightarrow> Some (cbb_set_error b)
         | Some (len_len, initial_length_byte) \<Rightarrow>
             let len' = (if len_len = 1 then 0 else len) in
             if len_len \<noteq> 1 then
               (let extra_bytes = len_len - 1 in
                case cbb_buffer_add mem (replicate extra_bytes 0) b of
                  (False, b) \<Rightarrow> Some (cbb_set_error b)
                | (True, b) \<Rightarrow> do {
                    buf \<leftarrow> put (cbb_buf b) (unat child_start + extra_bytes)
                      (take (unat len) (drop (unat child_start) (cbb_buf b)));
                    buf \<leftarrow> put buf (unat (offset c)) [initial_length_byte];
                    write_length (unat (offset c) + 1) (len_len - 1) len' (b\<lparr>cbb_buf := buf\<rparr>) })
             else do {
               buf \<leftarrow> put (cbb_buf b) (unat (offset c)) [initial_length_byte];
               write_length (unat (offset c) + 1) (len_len - 1) len' (b\<lparr>cbb_buf := buf\<rparr>) })
     else write_length (unat (offset c)) (unat (pending_len_len c)) len b)"

text \<open>\<open>CBB_flush\<close> of the object above a chain of children.\<close>

fun flush_children :: "mem \<Rightarrow> cbb_child list \<Rightarrow> cbb_buffer \<Rightarrow> (bool \<times> cbb_buffer \<times> cbb_child list) option" where
  "flush_children mem [] b = Some (\<not> cbb_error b, b, [])"
| "flush_children mem (c # cs) b = (
     if cbb_error b then Some (False, b, c # cs)
     else if pending_len_len c = 0 then Some (True, b, c # cs)
     else do {
       (ok, b, cs) \<leftarrow> flush_children mem cs b;
       let child_start = offset c + ucast (pending_len_len c);
       if \<not> ok \<or> child_start < offset c \<or> cbb_buf_len b < child_start
       then Some (False, b\<lparr>cbb_error := True\<rparr>, c # cs)
       else do {
         (ok, b) \<leftarrow> close_child mem c b;
         Some (if ok then (True, b, []) else (False, b\<lparr>cbb_error := True\<rparr>, c # cs)) } })"

definition CBB_flush :: "mem \<Rightarrow> nat \<Rightarrow> cbb step" where
  "CBB_flush mem d = (\<lambda>cbb. case base cbb of
     None \<Rightarrow> Some (False, cbb)
   | Some b \<Rightarrow>
       if d > length (children cbb) then Some (False, cbb)
       else do {
         (ok, b, cs) \<leftarrow> flush_children mem (drop d (children cbb)) b;
         Some (ok, cbb\<lparr>base := Some b, children := take d (children cbb) @ cs\<rparr>) })"

text \<open>\<open>CBB_finish\<close> hands out the buffer; \<open>out_null\<close> tells that an output pointer is \<open>NULL\<close>.\<close>

definition CBB_finish :: "mem \<Rightarrow> bool \<Rightarrow> nat \<Rightarrow> cbb \<Rightarrow> (u8 list option \<times> cbb) option" where
  "CBB_finish mem out_null d cbb = (
     if d \<noteq> 0 then Some (None, cbb)
     else do {
       (ok, cbb) \<leftarrow> CBB_flush mem 0 cbb;
       if \<not> ok then Some (None, cbb)
       else do {
         b \<leftarrow> base cbb;
         if can_resize b \<and> out_null then Some (None, cbb)
         else do {
           cbb \<leftarrow> CBB_cleanup 0 cbb;
           Some (Some (cbb_buf b), cbb) } } })"

text \<open>\<open>offset\<close> and \<open>pending_len_len\<close> of the object at a depth: zero for the top-level one.\<close>

definition cbb_start :: "nat \<Rightarrow> cbb \<Rightarrow> u64" where
  "cbb_start d cbb = (if d = 0 then 0
     else let c = children cbb ! (d - 1) in offset c + ucast (pending_len_len c))"

definition CBB_data :: "nat \<Rightarrow> cbb \<Rightarrow> u8 list option" where
  "CBB_data d cbb = (if length (children cbb) \<noteq> d then None
     else do { b \<leftarrow> base cbb; Some (drop (unat (cbb_start d cbb)) (cbb_buf b)) })"

definition CBB_len :: "nat \<Rightarrow> cbb \<Rightarrow> u64 option" where
  "CBB_len d cbb = (if length (children cbb) \<noteq> d then None
     else do {
       b \<leftarrow> base cbb;
       if cbb_start d cbb \<le> cbb_buf_len b then Some (cbb_buf_len b - cbb_start d cbb) else None })"

section \<open>Adding\<close>

text \<open>The tail of the functions that add a child at the given offset.\<close>

definition add_child :: "nat \<Rightarrow> cbb_child \<Rightarrow> cbb step" where
  "add_child d c = (\<lambda>cbb. Some (True, cbb\<lparr>children := take d (children cbb) @ [c]\<rparr>))"

text \<open>The value of \<open>cbb->base->len\<close>, which the code reads between two steps.\<close>

definition with_len :: "(u64 \<Rightarrow> cbb step) \<Rightarrow> cbb step" where
  "with_len f = (\<lambda>cbb. case base cbb of None \<Rightarrow> None | Some b \<Rightarrow> f (cbb_buf_len b) cbb)"

definition cbb_add_length_prefixed :: "mem \<Rightarrow> u8 \<Rightarrow> nat \<Rightarrow> cbb step" where
  "cbb_add_length_prefixed mem len_len d = and_then (CBB_flush mem d)
     (with_len (\<lambda>off. and_then (on_base (cbb_buffer_add mem (replicate (unat len_len) 0)))
       (add_child d \<lparr>offset = off, pending_len_len = len_len, pending_is_asn1 = False\<rparr>)))"

definition CBB_add_u8_length_prefixed :: "mem \<Rightarrow> nat \<Rightarrow> cbb step" where
  "CBB_add_u8_length_prefixed mem = cbb_add_length_prefixed mem 1"

definition CBB_add_u16_length_prefixed :: "mem \<Rightarrow> nat \<Rightarrow> cbb step" where
  "CBB_add_u16_length_prefixed mem = cbb_add_length_prefixed mem 2"

definition CBB_add_u24_length_prefixed :: "mem \<Rightarrow> nat \<Rightarrow> cbb step" where
  "CBB_add_u24_length_prefixed mem = cbb_add_length_prefixed mem 3"

definition CBB_add_bytes :: "mem \<Rightarrow> u8 list \<Rightarrow> nat \<Rightarrow> cbb step" where
  "CBB_add_bytes mem dat d = and_then (CBB_flush mem d) (on_base (cbb_buffer_add mem dat))"

text \<open>\<open>space\<close> is what the caller stores in the space it gets.\<close>

definition CBB_add_space :: "mem \<Rightarrow> u8 list \<Rightarrow> nat \<Rightarrow> cbb step" where
  "CBB_add_space mem space d = and_then (CBB_flush mem d) (on_base (cbb_buffer_add mem space))"

definition CBB_reserve :: "mem \<Rightarrow> u64 \<Rightarrow> nat \<Rightarrow> cbb step" where
  "CBB_reserve mem n d = and_then (CBB_flush mem d) (on_base (cbb_buffer_reserve mem n))"

text \<open>\<open>written\<close> is what the caller has stored behind the valid bytes.\<close>

definition CBB_did_write :: "u8 list \<Rightarrow> nat \<Rightarrow> cbb step" where
  "CBB_did_write written d = (\<lambda>cbb. case base cbb of None \<Rightarrow> None | Some b \<Rightarrow>
     if d > length (children cbb) then None
     else let newlen = cbb_buf_len b + word_of_nat (length written) in
       if length (children cbb) > d \<or> newlen < cbb_buf_len b \<or> newlen > cbb_cap b then Some (False, cbb)
       else Some (True, cbb\<lparr>base := Some (b\<lparr>cbb_buf := cbb_buf b @ written\<rparr>)\<rparr>))"

definition CBB_add_u8 :: "mem \<Rightarrow> u8 \<Rightarrow> nat \<Rightarrow> cbb step" where
  "CBB_add_u8 mem v d = and_then (CBB_flush mem d) (on_base (cbb_buffer_add_u mem (ucast v) 1))"

definition CBB_add_u16 :: "mem \<Rightarrow> u16 \<Rightarrow> nat \<Rightarrow> cbb step" where
  "CBB_add_u16 mem v d = and_then (CBB_flush mem d) (on_base (cbb_buffer_add_u mem (ucast v) 2))"

definition CBB_add_u16le :: "mem \<Rightarrow> u16 \<Rightarrow> nat \<Rightarrow> cbb step" where
  "CBB_add_u16le mem v d = CBB_add_u16 mem (CRYPTO_bswap2 v) d"

definition CBB_add_u24 :: "mem \<Rightarrow> u32 \<Rightarrow> nat \<Rightarrow> cbb step" where
  "CBB_add_u24 mem v d = and_then (CBB_flush mem d) (on_base (cbb_buffer_add_u mem (ucast v) 3))"

definition CBB_add_u32 :: "mem \<Rightarrow> u32 \<Rightarrow> nat \<Rightarrow> cbb step" where
  "CBB_add_u32 mem v d = and_then (CBB_flush mem d) (on_base (cbb_buffer_add_u mem (ucast v) 4))"

definition CBB_add_u32le :: "mem \<Rightarrow> u32 \<Rightarrow> nat \<Rightarrow> cbb step" where
  "CBB_add_u32le mem v d = CBB_add_u32 mem (CRYPTO_bswap4 v) d"

definition CBB_add_u64 :: "mem \<Rightarrow> u64 \<Rightarrow> nat \<Rightarrow> cbb step" where
  "CBB_add_u64 mem v d = and_then (CBB_flush mem d) (on_base (cbb_buffer_add_u mem v 8))"

definition CBB_add_u64le :: "mem \<Rightarrow> u64 \<Rightarrow> nat \<Rightarrow> cbb step" where
  "CBB_add_u64le mem v d = CBB_add_u64 mem (CRYPTO_bswap8 v) d"

definition CBB_discard_child :: "nat \<Rightarrow> cbb \<Rightarrow> cbb" where
  "CBB_discard_child d cbb = (if length (children cbb) \<le> d then cbb
     else cbb\<lparr>base := map_option (\<lambda>b. b\<lparr>cbb_buf := take (unat (offset (children cbb ! d))) (cbb_buf b)\<rparr>) (base cbb),
       children := take d (children cbb)\<rparr>)"

section \<open>Adding ASN.1\<close>

function base128_len :: "u64 \<Rightarrow> nat" where
  "base128_len copy = (if copy > 0 then Suc (base128_len (drop_bit 7 copy)) else 0)"
  by pat_completeness auto
termination
  by (relation "measure unat") (auto simp: unat_drop_bit_div word_less_nat_alt)

declare base128_len.simps [simp del]

text \<open>The bytes of \<open>add_base128_integer\<close>.\<close>

definition base128_bytes :: "u64 \<Rightarrow> u8 list" where
  "base128_bytes v = (let len_len = base128_len v; len_len = (if len_len = 0 then 1 else len_len) in
     map (\<lambda>i. let byte = ucast (drop_bit (7 * i) v) AND 0x7F in if i \<noteq> 0 then byte OR 0x80 else byte)
       (rev [0..<len_len]))"

definition add_base128_integer :: "mem \<Rightarrow> u64 \<Rightarrow> nat \<Rightarrow> cbb step" where
  "add_base128_integer mem v d = all_steps (\<lambda>byte. CBB_add_u8 mem byte d) (base128_bytes v)"

definition CBB_add_asn1 :: "mem \<Rightarrow> u32 \<Rightarrow> nat \<Rightarrow> cbb step" where
  "CBB_add_asn1 mem tag d = and_then (CBB_flush mem d) (
     let tag_bits = ucast (drop_bit CBS_ASN1_TAG_SHIFT tag) AND 0xE0;
       tag_number = tag AND CBS_ASN1_TAG_NUMBER_MASK in
     and_then
       (if tag_number \<ge> 0x1F
        then and_then (CBB_add_u8 mem (tag_bits OR 0x1F) d) (add_base128_integer mem (ucast tag_number) d)
        else CBB_add_u8 mem (tag_bits OR ucast tag_number) d)
       (with_len (\<lambda>off. and_then (CBB_add_u8 mem 0 d)
         (add_child d \<lparr>offset = off, pending_len_len = 1, pending_is_asn1 = True\<rparr>))))"

text \<open>The bytes that the loop of \<open>CBB_add_asn1_uint64\<close> adds.\<close>

fun uint64_bytes :: "bool \<Rightarrow> u8 list \<Rightarrow> u8 list" where
  "uint64_bytes started [] = (if \<not> started then [0] else [])"
| "uint64_bytes started (byte # bytes) = (
     if \<not> started then
       if byte = 0 then uint64_bytes started bytes
       else (if byte AND 0x80 \<noteq> 0 then [0] else []) @ byte # uint64_bytes True bytes
     else byte # uint64_bytes started bytes)"

definition CBB_add_asn1_uint64 :: "mem \<Rightarrow> u64 \<Rightarrow> nat \<Rightarrow> cbb step" where
  "CBB_add_asn1_uint64 mem v d = and_then (CBB_add_asn1 mem CBS_ASN1_INTEGER d) (
     and_then (all_steps (\<lambda>byte. CBB_add_u8 mem byte (d + 1))
       (uint64_bytes False (map (\<lambda>i. ucast (drop_bit (8 * (7 - i)) v) AND 0xFF) [0..<8])))
     (CBB_flush mem d))"

text \<open>The loop that skips leading sign-extension bytes of the little-endian bytes.\<close>

fun int64_start :: "u8 list \<Rightarrow> nat \<Rightarrow> nat" where
  "int64_start bytes 0 = 0"
| "int64_start bytes (Suc start) =
     (if bytes ! Suc start = 0xFF \<and> bytes ! start AND 0x80 \<noteq> 0 then int64_start bytes start else Suc start)"

definition CBB_add_asn1_int64 :: "mem \<Rightarrow> u64 \<Rightarrow> nat \<Rightarrow> cbb step" where
  "CBB_add_asn1_int64 mem v d = (
     if 0 \<le> sint v then CBB_add_asn1_uint64 mem v d
     else let bytes = le_bytes 8 (unat v); start = int64_start bytes 7 in
       and_then (CBB_add_asn1 mem CBS_ASN1_INTEGER d) (
         and_then (all_steps (\<lambda>i. CBB_add_u8 mem (bytes ! i) (d + 1)) (rev [0..<start + 1]))
         (CBB_flush mem d)))"

definition CBB_add_asn1_octet_string :: "mem \<Rightarrow> u8 list \<Rightarrow> nat \<Rightarrow> cbb step" where
  "CBB_add_asn1_octet_string mem dat d = and_then (CBB_add_asn1 mem CBS_ASN1_OCTETSTRING d) (
     and_then (CBB_add_bytes mem dat (d + 1)) (CBB_flush mem d))"

definition CBB_add_asn1_bool :: "mem \<Rightarrow> bool \<Rightarrow> nat \<Rightarrow> cbb step" where
  "CBB_add_asn1_bool mem v d = and_then (CBB_add_asn1 mem CBS_ASN1_BOOLEAN d) (
     and_then (CBB_add_u8 mem (if v then 0xFF else 0) (d + 1)) (CBB_flush mem d))"

end
