(* ===== verification/Cbb_Inv.thy ===== *)
theory Cbb_Inv
  imports Cbb
begin

text \<open>
  The invariant of a chain of \<open>CBB\<close> objects: the valid bytes fit the capacity, and the pending
  length prefixes lie inside them, one behind the other. Every operation of the interface
  keeps it and is defined: no write outside the buffer, no violated \<open>assert\<close>, whatever
  allocations fail.
\<close>

definition buffer_ok :: "cbb_buffer \<Rightarrow> bool" where
  "buffer_ok b \<longleftrightarrow> length (cbb_buf b) \<le> unat (cbb_cap b)"

text \<open>The children, from a position on, up to the end of the valid bytes.\<close>

fun chain_ok :: "nat \<Rightarrow> cbb_child list \<Rightarrow> nat \<Rightarrow> bool" where
  "chain_ok p [] n = (p \<le> n)"
| "chain_ok p (c # cs) n = (p \<le> unat (offset c) \<and> pending_len_len c \<noteq> 0 \<and>
     (pending_is_asn1 c \<longrightarrow> pending_len_len c = 1) \<and>
     chain_ok (unat (offset c) + unat (pending_len_len c)) cs n)"

definition cbb_ok :: "cbb \<Rightarrow> bool" where
  "cbb_ok cbb \<longleftrightarrow> (case base cbb of None \<Rightarrow> True
     | Some b \<Rightarrow> buffer_ok b \<and> chain_ok 0 (children cbb) (length (cbb_buf b)))"

lemma buffer_ok_less: "buffer_ok b \<Longrightarrow> length (cbb_buf b) < 2 ^ 64"
  using unat_u64_less [of "cbb_cap b"] by (simp add: buffer_ok_def)

lemma unat_buf_len: "buffer_ok b \<Longrightarrow> unat (cbb_buf_len b) = length (cbb_buf b)"
  by (intro unat_of_nat_u64 buffer_ok_less)

lemma chain_ok_le: "chain_ok p cs n \<Longrightarrow> p \<le> n"
  by (induction p cs n rule: chain_ok.induct) auto

lemma chain_ok_mono: "chain_ok p cs n \<Longrightarrow> n \<le> m \<Longrightarrow> chain_ok p cs m"
  by (induction p cs n rule: chain_ok.induct) auto

lemma chain_ok_append:
  "chain_ok p (cs @ ds) n \<longleftrightarrow>
     chain_ok p cs (if cs = [] then p else unat (offset (last cs)) + unat (pending_len_len (last cs))) \<and>
     chain_ok (if cs = [] then p else unat (offset (last cs)) + unat (pending_len_len (last cs))) ds n"
  by (induction p cs n rule: chain_ok.induct) (auto dest: chain_ok_le)

lemma chain_ok_snoc:
  assumes "chain_ok p cs n"
    and "n \<le> unat (offset c)" "pending_len_len c \<noteq> 0" "pending_is_asn1 c \<longrightarrow> pending_len_len c = 1"
    and "unat (offset c) + unat (pending_len_len c) \<le> m"
  shows "chain_ok p (cs @ [c]) m"
  using assms by (induction p cs n rule: chain_ok.induct) auto

section \<open>The buffer operations\<close>

lemma reserve_cases:
  assumes ok: "buffer_ok b" and n: "n < 2 ^ 64" and r: "cbb_buffer_reserve mem (word_of_nat n) b = (r, b')"
  shows "buffer_ok b' \<and> cbb_buf b' = cbb_buf b \<and> can_resize b' = can_resize b \<and>
    (if r then length (cbb_buf b) + n \<le> unat (cbb_cap b') \<and> cbb_error b' = cbb_error b
     else cbb_error b')"
proof -
  let ?l = "length (cbb_buf b)"
  have l: "unat (cbb_buf_len b) = ?l" by (rule unat_buf_len [OF ok])
  have u: "unat (word_of_nat n :: u64) = n" by (rule unat_of_nat_u64 [OF n])
  have ov: "\<not> cbb_buf_len b + word_of_nat n < cbb_buf_len b \<Longrightarrow> unat (cbb_buf_len b + word_of_nat n) = ?l + n"
    using l u unat_plus_simple [of "cbb_buf_len b" "word_of_nat n"] unfolding not_less by metis
  show ?thesis
    using r ok ov
    by (auto simp: cbb_buffer_reserve_def Let_def cbb_set_error_def buffer_ok_def word_less_nat_alt not_less
        split: if_splits)
qed

lemma add_cases:
  assumes ok: "buffer_ok b" and n: "length bs < 2 ^ 64" and r: "cbb_buffer_add mem bs b = (r, b')"
  shows "buffer_ok b' \<and> can_resize b' = can_resize b \<and>
    (if r then cbb_buf b' = cbb_buf b @ bs \<and> cbb_error b' = cbb_error b
     else cbb_buf b' = cbb_buf b \<and> cbb_error b')"
proof -
  obtain q b1 where q: "cbb_buffer_reserve mem (word_of_nat (length bs)) b = (q, b1)" by force
  from reserve_cases [OF ok n q] r q show ?thesis
    by (auto simp: cbb_buffer_add_def buffer_ok_def split: if_splits bool.splits)
qed

lemma add_u_cases:
  assumes ok: "buffer_ok b" and n: "n < 2 ^ 64" and r: "cbb_buffer_add_u mem v n b = (r, b')"
  shows "buffer_ok b' \<and> can_resize b' = can_resize b \<and> length (cbb_buf b) \<le> length (cbb_buf b') \<and>
    (if r then cbb_buf b' = cbb_buf b @ be_bytes n (unat v) \<and> cbb_error b' = cbb_error b else cbb_error b')"
proof (cases "n = 0")
  case True
  then show ?thesis using r ok by (simp add: cbb_buffer_add_u_def)
next
  case False
  obtain q b1 where q: "cbb_buffer_add mem (be_bytes n (unat v)) b = (q, b1)" by force
  have "length (be_bytes n (unat v)) < 2 ^ 64" using n by simp
  from add_cases [OF ok this q] r q False show ?thesis
    by (auto simp: cbb_buffer_add_u_def cbb_set_error_def buffer_ok_def split: if_splits bool.splits)
qed

section \<open>Flushing\<close>

lemma asn1_length_cases:
  assumes "asn1_length n = Some (k, i)"
  shows "1 \<le> k \<and> k \<le> 5 \<and> unat n < 2 ^ 32 \<and> (if k = 1 then unat n < 128 \<and> i = ucast n
    else 256 ^ (k - 2) \<le> unat n \<and> unat n < 256 ^ (k - 1) \<and> 128 \<le> unat n \<and> i = 0x80 OR word_of_nat (k - 1))"
  using assms by (auto simp: asn1_length_def word_less_nat_alt not_less split: if_splits)

lemma write_length_cases:
  assumes "buffer_ok b" and "pos + n \<le> length (cbb_buf b)"
  obtains b' where "write_length pos n len b = Some (drop_bit (8 * n) len = 0, b')" "buffer_ok b'"
    "can_resize b' = can_resize b" "length (cbb_buf b') = length (cbb_buf b)"
    "if drop_bit (8 * n) len = 0 then cbb_error b' = cbb_error b else cbb_error b'"
    "\<forall>q \<le> pos. take q (cbb_buf b') = take q (cbb_buf b)"
proof -
  let ?buf = "take pos (cbb_buf b) @ be_bytes n (unat len) @ drop (pos + n) (cbb_buf b)"
  have p: "put (cbb_buf b) pos (be_bytes n (unat len)) = Some ?buf"
    using assms(2) by (simp add: put_def)
  define b' where "b' = b\<lparr>cbb_buf := ?buf, cbb_error := cbb_error b \<or> drop_bit (8 * n) len \<noteq> 0\<rparr>"
  have "write_length pos n len b = Some (drop_bit (8 * n) len = 0, b')"
    by (simp add: write_length_def p Let_def cbb_set_error_def b'_def)
  moreover have "length ?buf = length (cbb_buf b)" by (rule length_put [OF p])
  moreover have "take q (cbb_buf b') = take q (cbb_buf b)" if "q \<le> pos" for q
    using that assms(2) by (simp add: b'_def)
  ultimately show ?thesis using assms(1) by (intro that [of b']) (simp_all add: b'_def buffer_ok_def)
qed

lemma write_length_buf:
  assumes "write_length pos n len b = Some (r, b')"
  shows "cbb_buf b' = take pos (cbb_buf b) @ be_bytes n (unat len) @ drop (pos + n) (cbb_buf b)"
  using assms by (auto simp: write_length_def put_def cbb_set_error_def Let_def split: if_splits)

text \<open>The position behind the length prefix of a child.\<close>

abbreviation child_end :: "cbb_child \<Rightarrow> nat" where
  "child_end c \<equiv> unat (offset c) + unat (pending_len_len c)"

lemma close_child_cases:
  assumes ok: "buffer_ok b" and c: "child_end c \<le> length (cbb_buf b)"
    and a: "pending_is_asn1 c \<longrightarrow> pending_len_len c = 1"
  shows "\<exists>r b'. close_child mem c b = Some (r, b') \<and> buffer_ok b' \<and> can_resize b' = can_resize b \<and>
    length (cbb_buf b) \<le> length (cbb_buf b') \<and>
    take (unat (offset c)) (cbb_buf b') = take (unat (offset c)) (cbb_buf b) \<and>
    (if r then cbb_error b' = cbb_error b else cbb_error b')"
proof -
  let ?o = "unat (offset c)" and ?l = "length (cbb_buf b)"
  have start: "unat (offset c + ucast (pending_len_len c)) = child_end c"
    using c buffer_ok_less [OF ok] by (subst unat_add_lem [THEN iffD1]) (simp_all add: unat_ucast_up)
  have len: "unat (cbb_buf_len b - (offset c + ucast (pending_len_len c))) = ?l - child_end c"
    using c start by (subst unat_sub) (simp_all add: word_le_nat_alt unat_buf_len [OF ok])
  let ?len = "cbb_buf_len b - (offset c + ucast (pending_len_len c))"
  show ?thesis
  proof (cases "pending_is_asn1 c")
    case False
    have "?o + unat (pending_len_len c) \<le> ?l" using c by simp
    then obtain b' where w: "write_length ?o (unat (pending_len_len c)) ?len b = Some (drop_bit (8 * unat (pending_len_len c)) ?len = 0, b')"
      "buffer_ok b'" "can_resize b' = can_resize b" "length (cbb_buf b') = ?l"
      "if drop_bit (8 * unat (pending_len_len c)) ?len = 0 then cbb_error b' = cbb_error b else cbb_error b'"
      "\<forall>q \<le> ?o. take q (cbb_buf b') = take q (cbb_buf b)"
      by (rule write_length_cases [OF ok, where len = ?len])
    show ?thesis
      unfolding close_child_def Let_def if_not_P [OF False] w(1) using w(2-5) w(6) [rule_format, of ?o] by simp
  next
    case True
    then have p1: "pending_len_len c = 1" using a by simp
    then have ol: "?o + 1 \<le> ?l" using c by simp
    show ?thesis
    proof (cases "asn1_length ?len")
      case None
      then show ?thesis using True p1 ok
        unfolding close_child_def Let_def by (simp add: cbb_set_error_def buffer_ok_def)
    next
      case (Some t)
      then obtain k i where ki: "asn1_length ?len = Some (k, i)" by (cases t) auto
      note k = asn1_length_cases [OF ki]
      show ?thesis
      proof (cases "k = 1")
        case k1: True
        have put: "put (cbb_buf b) ?o [i] = Some (take ?o (cbb_buf b) @ [i] @ drop (?o + 1) (cbb_buf b))"
          using ol by (simp add: put_def)
        let ?b = "b\<lparr>cbb_buf := take ?o (cbb_buf b) @ [i] @ drop (?o + 1) (cbb_buf b)\<rparr>"
        have "buffer_ok ?b" "?o + 1 + 0 \<le> length (cbb_buf ?b)" using ok ol by (auto simp: buffer_ok_def)
        then obtain b' where w: "write_length (?o + 1) 0 0 ?b = Some (drop_bit (8 * 0) (0 :: u64) = 0, b')"
          "buffer_ok b'" "can_resize b' = can_resize ?b" "length (cbb_buf b') = length (cbb_buf ?b)"
          "if drop_bit (8 * 0) (0 :: u64) = 0 then cbb_error b' = cbb_error ?b else cbb_error b'"
          "\<forall>q \<le> ?o + 1. take q (cbb_buf b') = take q (cbb_buf ?b)"
          by (rule write_length_cases)
        have "close_child mem c b = Some (True, b')"
          using True p1 ki k1 put w(1) unfolding close_child_def Let_def by simp
        then show ?thesis using w(2-5) w(6) [rule_format, of ?o] ol
          by (intro exI [of _ True] exI [of _ b']) auto
      next
        case kn: False
        obtain q b1 where q: "cbb_buffer_add mem (replicate (k - 1) 0) b = (q, b1)" by force
        have "k \<le> 5" using k by blast
        then have "length (replicate (k - 1) (0 :: u8)) < 2 ^ 64" by simp
        note q1 = add_cases [OF ok this q]
        show ?thesis
        proof (cases q)
          case False
          have "close_child mem c b = Some (cbb_set_error b1)"
            unfolding close_child_def Let_def if_P [OF True] ki option.case prod.case q
            using kn p1 False by simp
          then show ?thesis using q1 False
            by (intro exI [of _ False] exI [of _ "b1\<lparr>cbb_error := True\<rparr>"]) (auto simp: cbb_set_error_def buffer_ok_def)
        next
          case qT: True
          then have b1: "cbb_buf b1 = cbb_buf b @ replicate (k - 1) 0" "buffer_ok b1"
            "cbb_error b1 = cbb_error b" "can_resize b1 = can_resize b" using q1 by auto
          have l1: "length (cbb_buf b1) = ?l + (k - 1)" using b1 by simp
          let ?m = "take (unat ?len) (drop (?o + 1) (cbb_buf b1))"
          have lm: "length ?m = ?l - (?o + 1)" using len p1 l1 by simp
          obtain buf2 where buf2: "put (cbb_buf b1) (?o + 1 + (k - 1)) ?m = Some buf2"
          proof -
            have "?o + 1 + (k - 1) + length ?m \<le> length (cbb_buf b1)" using lm l1 ol by linarith
            from put_Some [OF this] that show ?thesis by blast
          qed
          have "take ?o buf2 = take ?o (cbb_buf b1)" by (rule take_put_before [OF buf2]) simp
          also have "\<dots> = take ?o (cbb_buf b)" using ol by (simp add: b1(1))
          finally have l2: "length buf2 = ?l + (k - 1)" "take ?o buf2 = take ?o (cbb_buf b)"
            using length_put [OF buf2] l1 by simp_all
          obtain buf3 where buf3: "put buf2 ?o [i] = Some buf3" using l2 ol by (simp add: put_def)
          have l3: "length buf3 = ?l + (k - 1)" "take ?o buf3 = take ?o (cbb_buf b)"
            using length_put [OF buf3] take_put_before [OF buf3, of ?o] l2 by simp_all
          let ?b = "b1\<lparr>cbb_buf := buf3\<rparr>"
          have "buffer_ok ?b" "?o + 1 + (k - 1) \<le> length (cbb_buf ?b)"
            using b1(2) l1 l3 ol by (auto simp: buffer_ok_def)
          then obtain b' where w: "write_length (?o + 1) (k - 1) ?len ?b = Some (drop_bit (8 * (k - 1)) ?len = 0, b')"
            "buffer_ok b'" "can_resize b' = can_resize ?b" "length (cbb_buf b') = length (cbb_buf ?b)"
            "if drop_bit (8 * (k - 1)) ?len = 0 then cbb_error b' = cbb_error ?b else cbb_error b'"
            "\<forall>q \<le> ?o + 1. take q (cbb_buf b') = take q (cbb_buf ?b)"
            by (rule write_length_cases [where len = ?len])
          have st: "unat (offset c + ucast (pending_len_len c)) = ?o + 1" using start p1 by simp
          have "close_child mem c b = Some (drop_bit (8 * (k - 1)) ?len = 0, b')"
            unfolding close_child_def Let_def if_P [OF True] ki option.case prod.case q st
            using kn qT p1 buf2 buf3 w(1) by simp
          then show ?thesis using w(2-5) w(6) [rule_format, of ?o] ol b1 l3 by simp
        qed
      qed
    qed
  qed
qed


lemma flush_children_cases:
  assumes "buffer_ok b" and "chain_ok p cs (length (cbb_buf b))"
  shows "\<exists>r b' cs'. flush_children mem cs b = Some (r, b', cs') \<and> buffer_ok b' \<and>
    chain_ok p cs' (length (cbb_buf b')) \<and> can_resize b' = can_resize b \<and>
    length (cbb_buf b) \<le> length (cbb_buf b') \<and> take p (cbb_buf b') = take p (cbb_buf b) \<and>
    (if r then cs' = [] \<and> \<not> cbb_error b' \<and> \<not> cbb_error b else cbb_error b')"
  using assms
proof (induction cs arbitrary: p b)
  case Nil
  then show ?case by (cases "cbb_error b") auto
next
  case (Cons c cs)
  have c: "p \<le> unat (offset c)" "pending_len_len c \<noteq> 0" "pending_is_asn1 c \<longrightarrow> pending_len_len c = 1"
    "chain_ok (child_end c) cs (length (cbb_buf b))" using Cons.prems(2) by auto
  show ?case
  proof (cases "cbb_error b")
    case True
    then show ?thesis using Cons.prems
      by (intro exI [of _ False] exI [of _ b] exI [of _ "c # cs"]) simp
  next
    case False
    obtain r b1 cs1 where f: "flush_children mem cs b = Some (r, b1, cs1)" "buffer_ok b1"
      "chain_ok (child_end c) cs1 (length (cbb_buf b1))" "can_resize b1 = can_resize b"
      "length (cbb_buf b) \<le> length (cbb_buf b1)" "take (child_end c) (cbb_buf b1) = take (child_end c) (cbb_buf b)"
      "if r then cs1 = [] \<and> \<not> cbb_error b1 \<and> \<not> cbb_error b else cbb_error b1"
      using Cons.IH [OF Cons.prems(1) c(4)] by blast
    have ce: "child_end c \<le> length (cbb_buf b1)" using chain_ok_le [OF f(3)] .
    have tp: "take p (cbb_buf b1) = take p (cbb_buf b)"
      using take_eq_mono [OF f(6)] c(1) by simp
    have start: "unat (offset c + ucast (pending_len_len c)) = child_end c"
      using ce buffer_ok_less [OF f(2)] by (subst unat_add_lem [THEN iffD1]) (simp_all add: unat_ucast_up)
    have no: "\<not> offset c + ucast (pending_len_len c) < offset c" "\<not> cbb_buf_len b1 < offset c + ucast (pending_len_len c)"
      using start ce by (simp_all add: word_less_nat_alt unat_buf_len [OF f(2)])
    show ?thesis
    proof (cases r)
      case False
      then have "flush_children mem (c # cs) b = Some (False, b1\<lparr>cbb_error := True\<rparr>, c # cs1)"
        using \<open>\<not> cbb_error b\<close> c(2) f(1) by (simp add: Let_def)
      then show ?thesis using f c tp
        by (intro exI [of _ False] exI [of _ "b1\<lparr>cbb_error := True\<rparr>"] exI [of _ "c # cs1"])
          (simp add: buffer_ok_def)
    next
      case True
      obtain q b2 where q: "close_child mem c b1 = Some (q, b2)" "buffer_ok b2" "can_resize b2 = can_resize b1"
        "length (cbb_buf b1) \<le> length (cbb_buf b2)" "take (unat (offset c)) (cbb_buf b2) = take (unat (offset c)) (cbb_buf b1)"
        "if q then cbb_error b2 = cbb_error b1 else cbb_error b2"
        using close_child_cases [OF f(2) ce c(3), of mem] by blast
      have tp2: "take p (cbb_buf b2) = take p (cbb_buf b)"
        using take_eq_mono [OF q(5) c(1)] tp by simp
      have fl: "flush_children mem (c # cs) b =
          Some (if q then (True, b2, []) else (False, b2\<lparr>cbb_error := True\<rparr>, c # cs1))"
        using \<open>\<not> cbb_error b\<close> c(2) f(1) True no q(1) by (simp add: Let_def)
      have pl: "p \<le> length (cbb_buf b2)" using c(1) ce q(4) by linarith
      show ?thesis
      proof (cases q)
        case qT: True
        then show ?thesis
          unfolding fl using q f tp2 pl True
          by (intro exI [of _ True] exI [of _ b2] exI [of _ "[]"]) auto
      next
        case qF: False
        have "chain_ok (child_end c) cs1 (length (cbb_buf b2))" using chain_ok_mono [OF f(3) q(4)] .
        with qF show ?thesis
          unfolding fl using q f tp2 c
          by (intro exI [of _ False] exI [of _ "b2\<lparr>cbb_error := True\<rparr>"] exI [of _ "c # cs1"])
            (auto simp: buffer_ok_def)
      qed
    qed
  qed
qed


section \<open>The operations\<close>

text \<open>The operations of the interface, on the object at a depth.\<close>

datatype cbb_op =
    Flush
  | Add_bytes "u8 list"
  | Add_space "u8 list"
  | Reserve u64
  | Did_write "u8 list"
  | Add_u8 u8
  | Add_u16 u16
  | Add_u16le u16
  | Add_u24 u32
  | Add_u32 u32
  | Add_u32le u32
  | Add_u64 u64
  | Add_u64le u64
  | Add_u8_length_prefixed
  | Add_u16_length_prefixed
  | Add_u24_length_prefixed
  | Discard_child
  | Add_asn1 u32
  | Add_asn1_uint64 u64
  | Add_asn1_int64 u64
  | Add_asn1_octet_string "u8 list"
  | Add_asn1_bool bool

primrec run_op :: "mem \<Rightarrow> nat \<Rightarrow> cbb_op \<Rightarrow> cbb step" where
  "run_op mem d Flush = CBB_flush mem d"
| "run_op mem d (Add_bytes bs) = CBB_add_bytes mem bs d"
| "run_op mem d (Add_space bs) = CBB_add_space mem bs d"
| "run_op mem d (Reserve n) = CBB_reserve mem n d"
| "run_op mem d (Did_write bs) = CBB_did_write bs d"
| "run_op mem d (Add_u8 v) = CBB_add_u8 mem v d"
| "run_op mem d (Add_u16 v) = CBB_add_u16 mem v d"
| "run_op mem d (Add_u16le v) = CBB_add_u16le mem v d"
| "run_op mem d (Add_u24 v) = CBB_add_u24 mem v d"
| "run_op mem d (Add_u32 v) = CBB_add_u32 mem v d"
| "run_op mem d (Add_u32le v) = CBB_add_u32le mem v d"
| "run_op mem d (Add_u64 v) = CBB_add_u64 mem v d"
| "run_op mem d (Add_u64le v) = CBB_add_u64le mem v d"
| "run_op mem d Add_u8_length_prefixed = CBB_add_u8_length_prefixed mem d"
| "run_op mem d Add_u16_length_prefixed = CBB_add_u16_length_prefixed mem d"
| "run_op mem d Add_u24_length_prefixed = CBB_add_u24_length_prefixed mem d"
| "run_op mem d Discard_child = (\<lambda>cbb. Some (True, CBB_discard_child d cbb))"
| "run_op mem d (Add_asn1 tag) = CBB_add_asn1 mem tag d"
| "run_op mem d (Add_asn1_uint64 v) = CBB_add_asn1_uint64 mem v d"
| "run_op mem d (Add_asn1_int64 v) = CBB_add_asn1_int64 mem v d"
| "run_op mem d (Add_asn1_octet_string bs) = CBB_add_asn1_octet_string mem bs d"
| "run_op mem d (Add_asn1_bool v) = CBB_add_asn1_bool mem v d"

text \<open>The lengths that a caller passes are \<open>size_t\<close> values.\<close>

primrec op_fits :: "cbb_op \<Rightarrow> bool" where
  "op_fits (Add_bytes bs) \<longleftrightarrow> length bs < 2 ^ 64"
| "op_fits (Add_space bs) \<longleftrightarrow> length bs < 2 ^ 64"
| "op_fits (Did_write bs) \<longleftrightarrow> length bs < 2 ^ 64"
| "op_fits (Add_asn1_octet_string bs) \<longleftrightarrow> length bs < 2 ^ 64"
| "op_fits Flush \<longleftrightarrow> True"
| "op_fits (Reserve n) \<longleftrightarrow> True"
| "op_fits (Add_u8 v) \<longleftrightarrow> True"
| "op_fits (Add_u16 v2) \<longleftrightarrow> True"
| "op_fits (Add_u16le v2) \<longleftrightarrow> True"
| "op_fits (Add_u24 v4) \<longleftrightarrow> True"
| "op_fits (Add_u32 v4) \<longleftrightarrow> True"
| "op_fits (Add_u32le v4) \<longleftrightarrow> True"
| "op_fits (Add_u64 v8) \<longleftrightarrow> True"
| "op_fits (Add_u64le v8) \<longleftrightarrow> True"
| "op_fits Add_u8_length_prefixed \<longleftrightarrow> True"
| "op_fits Add_u16_length_prefixed \<longleftrightarrow> True"
| "op_fits Add_u24_length_prefixed \<longleftrightarrow> True"
| "op_fits Discard_child \<longleftrightarrow> True"
| "op_fits (Add_asn1 v4) \<longleftrightarrow> True"
| "op_fits (Add_asn1_uint64 v8) \<longleftrightarrow> True"
| "op_fits (Add_asn1_int64 v8) \<longleftrightarrow> True"
| "op_fits (Add_asn1_bool b) \<longleftrightarrow> True"

text \<open>The object at the depth is in the chain; it is the last one of the chain.\<close>

definition live :: "nat \<Rightarrow> cbb \<Rightarrow> bool" where
  "live d cbb \<longleftrightarrow> base cbb \<noteq> None \<and> d \<le> length (children cbb)"

definition open_at :: "nat \<Rightarrow> cbb \<Rightarrow> bool" where
  "open_at d cbb \<longleftrightarrow> base cbb \<noteq> None \<and> length (children cbb) = d"

text \<open>A step that is defined and keeps the invariant, from states with \<open>P\<close>; with success it
  leads to \<open>Q\<close>.\<close>

definition keeping :: "(cbb \<Rightarrow> bool) \<Rightarrow> cbb step \<Rightarrow> (cbb \<Rightarrow> bool) \<Rightarrow> bool" where
  "keeping P f Q \<longleftrightarrow> (\<forall>s. cbb_ok s \<and> P s \<longrightarrow>
     (\<exists>r t. f s = Some (r, t) \<and> cbb_ok t \<and> (r \<longrightarrow> Q t)))"

lemma keeping_mono:
  "keeping P f Q \<Longrightarrow> (\<And>s. P' s \<Longrightarrow> P s) \<Longrightarrow> (\<And>s. Q s \<Longrightarrow> Q' s) \<Longrightarrow> keeping P' f Q'"
  unfolding keeping_def by meson

lemma keeping_and_then:
  assumes "keeping P f Q" "keeping Q g R"
  shows "keeping P (and_then f g) R"
  unfolding keeping_def
proof (intro allI impI)
  fix s assume "cbb_ok s \<and> P s"
  then obtain r t where f: "f s = Some (r, t)" "cbb_ok t" "r \<longrightarrow> Q t" using assms(1) unfolding keeping_def by blast
  show "\<exists>r t. and_then f g s = Some (r, t) \<and> cbb_ok t \<and> (r \<longrightarrow> R t)"
  proof (cases r)
    case True
    then obtain r' t' where "g t = Some (r', t')" "cbb_ok t'" "r' \<longrightarrow> R t'"
      using assms(2) f unfolding keeping_def by blast
    then show ?thesis using f(1) True by simp
  next
    case False
    then show ?thesis using f by (intro exI [of _ False] exI [of _ t]) simp
  qed
qed

lemma keeping_all_steps:
  assumes "\<And>x. x \<in> set xs \<Longrightarrow> keeping P (f x) P"
  shows "keeping P (all_steps f xs) P"
  using assms
proof (induction xs)
  case Nil
  then show ?case by (simp add: keeping_def ret_def)
next
  case (Cons x xs)
  have "keeping P (f x) P" by (rule Cons.prems) simp
  moreover have "keeping P (all_steps f xs) P" by (rule Cons.IH) (rule Cons.prems, simp)
  ultimately show ?case by (simp add: keeping_and_then)
qed

lemma keeping_if [intro]:
  "keeping P f Q \<Longrightarrow> keeping P g Q \<Longrightarrow> keeping P (if c then f else g) Q"
  by simp

lemma keeping_flush: "keeping P (CBB_flush mem d) (open_at d)"
  unfolding keeping_def
proof (intro allI impI)
  fix s assume s: "cbb_ok s \<and> P s"
  show "\<exists>r t. CBB_flush mem d s = Some (r, t) \<and> cbb_ok t \<and> (r \<longrightarrow> open_at d t)"
  proof (cases "base s")
    case None
    then show ?thesis using s by (intro exI [of _ False] exI [of _ s]) (simp add: CBB_flush_def)
  next
    case (Some b)
    show ?thesis
    proof (cases "d > length (children s)")
      case True
      then show ?thesis using s Some by (intro exI [of _ False] exI [of _ s]) (simp add: CBB_flush_def)
    next
      case False
      let ?pre = "take d (children s)"
      define p where "p = (if ?pre = [] then 0 else child_end (last ?pre))"
      have ok: "buffer_ok b" "chain_ok 0 (?pre @ drop d (children s)) (length (cbb_buf b))"
        using s Some by (auto simp: cbb_ok_def)
      then have pre: "chain_ok 0 ?pre p" and post: "chain_ok p (drop d (children s)) (length (cbb_buf b))"
        unfolding chain_ok_append p_def by blast+
      obtain r b' cs' where f: "flush_children mem (drop d (children s)) b = Some (r, b', cs')" "buffer_ok b'"
        "chain_ok p cs' (length (cbb_buf b'))" "if r then cs' = [] \<and> \<not> cbb_error b' \<and> \<not> cbb_error b else cbb_error b'"
        using flush_children_cases [OF ok(1) post, of mem] by blast
      have "chain_ok 0 (?pre @ cs') (length (cbb_buf b'))"
        unfolding chain_ok_append using pre f(3) unfolding p_def by blast
      then show ?thesis
        using f False Some by (auto simp: CBB_flush_def cbb_ok_def open_at_def)
    qed
  qed
qed


lemma keeping_on_base:
  assumes "\<And>b r b'. buffer_ok b \<Longrightarrow> f b = (r, b') \<Longrightarrow> buffer_ok b' \<and> length (cbb_buf b) \<le> length (cbb_buf b')"
  shows "keeping (open_at d) (on_base f) (open_at d)"
  unfolding keeping_def
proof (intro allI impI)
  fix s assume s: "cbb_ok s \<and> open_at d s"
  then obtain b where b: "base s = Some b" by (auto simp: open_at_def)
  obtain r b' where f: "f b = (r, b')" by force
  have "buffer_ok b" using s b by (simp add: cbb_ok_def)
  from assms [OF this f] s b f show "\<exists>r t. on_base f s = Some (r, t) \<and> cbb_ok t \<and> (r \<longrightarrow> open_at d t)"
    by (intro exI [of _ r] exI [of _ "s\<lparr>base := Some b'\<rparr>"])
      (auto simp: on_base_def cbb_ok_def open_at_def intro: chain_ok_mono)
qed

lemma keeping_add [intro]:
  "length bs < 2 ^ 64 \<Longrightarrow> keeping (open_at d) (on_base (cbb_buffer_add mem bs)) (open_at d)"
proof (rule keeping_on_base)
  fix b r b' assume "length bs < 2 ^ 64" "buffer_ok b" "cbb_buffer_add mem bs b = (r, b')"
  from add_cases [OF this(2,1,3)] show "buffer_ok b' \<and> length (cbb_buf b) \<le> length (cbb_buf b')"
    by (cases r) auto
qed

lemma keeping_reserve [intro]: "keeping (open_at d) (on_base (cbb_buffer_reserve mem n)) (open_at d)"
proof (rule keeping_on_base)
  fix b r b' assume "buffer_ok b" "cbb_buffer_reserve mem n b = (r, b')"
  then show "buffer_ok b' \<and> length (cbb_buf b) \<le> length (cbb_buf b')"
    using reserve_cases [of b "unat n" mem r b'] unat_u64_less [of n] by simp
qed

lemma keeping_add_u [intro]:
  "n < 2 ^ 64 \<Longrightarrow> keeping (open_at d) (on_base (cbb_buffer_add_u mem v n)) (open_at d)"
proof (rule keeping_on_base)
  fix b r b' assume "n < 2 ^ 64" "buffer_ok b" "cbb_buffer_add_u mem v n b = (r, b')"
  from add_u_cases [OF this(2,1,3)] show "buffer_ok b' \<and> length (cbb_buf b) \<le> length (cbb_buf b')"
    by blast
qed

lemma keeping_flush_then:
  "keeping (open_at d) f Q \<Longrightarrow> keeping (\<lambda>s. True) (and_then (CBB_flush mem d) f) Q"
  by (rule keeping_and_then [OF keeping_flush])

text \<open>The tail of the functions that add a child: a prefix of zero bytes, then the child.\<close>

lemma keeping_new_child:
  assumes f: "\<And>b r b'. buffer_ok b \<Longrightarrow> f b = (r, b') \<Longrightarrow> buffer_ok b' \<and> length (cbb_buf b) \<le> length (cbb_buf b') \<and>
      (r \<longrightarrow> length (cbb_buf b') = length (cbb_buf b) + unat k)"
    and k: "k \<noteq> 0" and a: "a \<longrightarrow> k = 1"
  shows "keeping (open_at d) (with_len (\<lambda>off. and_then (on_base f)
      (add_child d \<lparr>offset = off, pending_len_len = k, pending_is_asn1 = a\<rparr>))) (open_at (d + 1))"
  unfolding keeping_def
proof (intro allI impI)
  fix s assume s: "cbb_ok s \<and> open_at d s"
  then obtain b where b: "base s = Some b" by (auto simp: open_at_def)
  obtain r b' where fb: "f b = (r, b')" by force
  have ok: "buffer_ok b" using s b by (simp add: cbb_ok_def)
  note fb' = f [OF ok fb]
  have ch: "chain_ok 0 (children s) (length (cbb_buf b))" and d: "length (children s) = d"
    using s b by (auto simp: cbb_ok_def open_at_def)
  have on: "on_base f s = Some (r, s\<lparr>base := Some b'\<rparr>)" by (simp add: on_base_def b fb)
  show "\<exists>r t. with_len (\<lambda>off. and_then (on_base f)
      (add_child d \<lparr>offset = off, pending_len_len = k, pending_is_asn1 = a\<rparr>)) s = Some (r, t) \<and> cbb_ok t \<and> (r \<longrightarrow> open_at (d + 1) t)"
  proof (cases r)
    case False
    then show ?thesis using on fb' ch b
      by (intro exI [of _ False] exI [of _ "s\<lparr>base := Some b'\<rparr>"])
        (auto simp: with_len_def cbb_ok_def intro: chain_ok_mono)
  next
    case True
    let ?c = "\<lparr>offset = cbb_buf_len b, pending_len_len = k, pending_is_asn1 = a\<rparr>"
    let ?t = "s\<lparr>base := Some b', children := children s @ [?c]\<rparr>"
    have "chain_ok 0 (children s @ [?c]) (length (cbb_buf b'))"
      using chain_ok_snoc [OF ch] fb' True k a by (simp add: unat_buf_len [OF ok])
    then have "cbb_ok ?t" using fb' by (simp add: cbb_ok_def)
    moreover have "with_len (\<lambda>off. and_then (on_base f)
      (add_child d \<lparr>offset = off, pending_len_len = k, pending_is_asn1 = a\<rparr>)) s = Some (True, ?t)"
      using True on d b by (simp add: with_len_def add_child_def)
    ultimately show ?thesis using d by (intro exI [of _ True] exI [of _ ?t]) (simp add: open_at_def)
  qed
qed


text \<open>On the last object of the chain a flush does nothing but look at the error flag.\<close>

definition add_u8_base :: "mem \<Rightarrow> u8 \<Rightarrow> cbb_buffer \<Rightarrow> bool \<times> cbb_buffer" where
  "add_u8_base mem v b = (if cbb_error b then (False, b) else cbb_buffer_add_u mem (ucast v) 1 b)"

lemma flush_open: "open_at d s \<Longrightarrow> CBB_flush mem d s = on_base (\<lambda>b. (\<not> cbb_error b, b)) s"
  by (auto simp: open_at_def CBB_flush_def on_base_def)

lemma add_u8_open: "open_at d s \<Longrightarrow> CBB_add_u8 mem v d s = on_base (add_u8_base mem v) s"
  by (auto simp: CBB_add_u8_def and_then_def flush_open on_base_def open_at_def add_u8_base_def
      split: prod.splits)

lemma keeping_add_u8: "keeping (\<lambda>s. True) (CBB_add_u8 mem v d) (open_at d)"
  unfolding CBB_add_u8_def by (rule keeping_flush_then) (simp add: keeping_add_u)

lemma keeping_asn1_child:
  "keeping (open_at d) (with_len (\<lambda>off. and_then (CBB_add_u8 mem 0 d)
     (add_child d \<lparr>offset = off, pending_len_len = 1, pending_is_asn1 = True\<rparr>))) (open_at (d + 1))"
proof -
  have "keeping (open_at d) (with_len (\<lambda>off. and_then (on_base (add_u8_base mem 0))
     (add_child d \<lparr>offset = off, pending_len_len = 1, pending_is_asn1 = True\<rparr>))) (open_at (d + 1))"
  proof (rule keeping_new_child)
    fix b r b' assume b: "buffer_ok b" "add_u8_base mem 0 b = (r, b')"
    show "buffer_ok b' \<and> length (cbb_buf b) \<le> length (cbb_buf b') \<and>
        (r \<longrightarrow> length (cbb_buf b') = length (cbb_buf b) + unat (1 :: u8))"
      using b add_u_cases [OF b(1), of 1 mem "ucast (0 :: u8)" r b']
      by (auto simp: add_u8_base_def split: if_splits)
  qed simp_all
  moreover have "with_len (\<lambda>off. and_then (CBB_add_u8 mem 0 d) (f off)) s =
      with_len (\<lambda>off. and_then (on_base (add_u8_base mem 0)) (f off)) s" if "open_at d s" for f s
    using add_u8_open [OF that, of mem 0] by (auto simp: with_len_def and_then_def split: option.splits)
  ultimately show ?thesis unfolding keeping_def by metis
qed

lemma keeping_add_asn1: "keeping (\<lambda>s. True) (CBB_add_asn1 mem tag d) (open_at (d + 1))"
proof -
  have u8: "keeping (open_at d) (CBB_add_u8 mem v d) (open_at d)" for v
    by (rule keeping_mono [OF keeping_add_u8]) simp_all
  have "keeping (open_at d) (add_base128_integer mem v d) (open_at d)" for v
    unfolding add_base128_integer_def by (rule keeping_all_steps) (rule u8)
  then show ?thesis
    unfolding CBB_add_asn1_def Let_def
    by (intro keeping_flush_then keeping_and_then [OF _ keeping_asn1_child] keeping_if keeping_and_then [OF u8] u8)
qed

lemma keeping_prefixed:
  assumes "k \<noteq> 0"
  shows "keeping (\<lambda>s. True) (cbb_add_length_prefixed mem k d) (open_at (d + 1))"
  unfolding cbb_add_length_prefixed_def
proof (rule keeping_flush_then, rule keeping_new_child)
  fix b r b' assume b: "buffer_ok b" "cbb_buffer_add mem (replicate (unat k) 0) b = (r, b')"
  have "length (replicate (unat k) (0 :: u8)) < 2 ^ 64" by (simp add: order_less_trans [OF unat_u8_less])
  from add_cases [OF b(1) this b(2)]
  show "buffer_ok b' \<and> length (cbb_buf b) \<le> length (cbb_buf b') \<and> (r \<longrightarrow> length (cbb_buf b') = length (cbb_buf b) + unat k)"
    by (cases r) auto
qed (simp_all add: assms)

lemma keeping_top:
  "keeping (\<lambda>s. True) f Q \<Longrightarrow> keeping P f (\<lambda>s. True)"
  by (rule keeping_mono) simp_all

lemma keeping_asn1_body:
  assumes "keeping (\<lambda>s. True) f Q"
  shows "keeping P (and_then (CBB_add_asn1 mem tag d) (and_then f (CBB_flush mem d'))) (\<lambda>s. True)"
proof (rule keeping_top)
  have "keeping (open_at (d + 1)) f Q" by (rule keeping_mono [OF assms]) simp_all
  then show "keeping (\<lambda>s. True) (and_then (CBB_add_asn1 mem tag d) (and_then f (CBB_flush mem d'))) (open_at d')"
    by (intro keeping_and_then [OF keeping_add_asn1] keeping_and_then [OF _ keeping_flush])
qed

lemma keeping_bytes: "length bs < 2 ^ 64 \<Longrightarrow> keeping (\<lambda>s. True) (CBB_add_bytes mem bs d) (open_at d)"
  unfolding CBB_add_bytes_def by (rule keeping_flush_then) (rule keeping_add)

lemma keeping_u8s:
  "keeping (\<lambda>s. True) (all_steps (\<lambda>x. CBB_add_u8 mem (f x) d) xs) (\<lambda>s. True)"
  by (rule keeping_all_steps) (rule keeping_top [OF keeping_add_u8])

lemma keeping_did_write:
  assumes "length bs < 2 ^ 64"
  shows "keeping (live d) (CBB_did_write bs d) (\<lambda>s. True)"
  unfolding keeping_def
proof (intro allI impI)
  fix s assume s: "cbb_ok s \<and> live d s"
  then obtain b where b: "base s = Some b" by (auto simp: live_def)
  have ok: "buffer_ok b" and ch: "chain_ok 0 (children s) (length (cbb_buf b))"
    using s b by (auto simp: cbb_ok_def)
  have "length (cbb_buf b) + length bs \<le> unat (cbb_cap b)"
    if "\<not> cbb_buf_len b + word_of_nat (length bs) < cbb_buf_len b"
      "\<not> cbb_buf_len b + word_of_nat (length bs) > cbb_cap b"
    using that unat_plus_simple [of "cbb_buf_len b" "word_of_nat (length bs)"] unat_buf_len [OF ok]
      unat_of_nat_u64 [OF assms] by (simp add: not_less word_le_nat_alt)
  then show "\<exists>r t. CBB_did_write bs d s = Some (r, t) \<and> cbb_ok t \<and> (r \<longrightarrow> True)"
    using s b ch by (auto simp: CBB_did_write_def live_def Let_def cbb_ok_def buffer_ok_def intro: chain_ok_mono)
qed

lemma keeping_discard: "keeping P (\<lambda>s. Some (True, CBB_discard_child d s)) (\<lambda>s. True)"
  unfolding keeping_def
proof (intro allI impI)
  fix s assume s: "cbb_ok s \<and> P s"
  have "cbb_ok (CBB_discard_child d s)"
  proof (cases "base s")
    case None
    then show ?thesis by (simp add: CBB_discard_child_def cbb_ok_def)
  next
    case (Some b)
    show ?thesis
    proof (cases "length (children s) \<le> d")
      case True
      then show ?thesis using s by (simp add: CBB_discard_child_def)
    next
      case False
      then have split: "children s = take d (children s) @ children s ! d # drop (Suc d) (children s)"
        by (simp add: id_take_nth_drop)
      let ?c = "children s ! d"
      have "chain_ok 0 (take d (children s) @ ?c # drop (Suc d) (children s)) (length (cbb_buf b))"
        using s Some split by (simp add: cbb_ok_def)
      then have "chain_ok 0 (take d (children s)) (unat (offset ?c))" "unat (offset ?c) \<le> length (cbb_buf b)"
        unfolding chain_ok_append by (auto intro: chain_ok_mono dest: chain_ok_le)
      then show ?thesis
        using False s Some by (simp add: CBB_discard_child_def cbb_ok_def buffer_ok_def)
    qed
  qed
  then show "\<exists>r t. Some (True, CBB_discard_child d s) = Some (r, t) \<and> cbb_ok t \<and> (r \<longrightarrow> True)" by simp
qed

lemmas keeping_rules = keeping_top [OF keeping_flush] keeping_top [OF keeping_bytes] keeping_did_write
  keeping_discard keeping_top [OF keeping_add_u8] keeping_top [OF keeping_prefixed] keeping_top [OF keeping_add_asn1]
  keeping_top [OF keeping_flush_then [OF keeping_add]] keeping_top [OF keeping_flush_then [OF keeping_add_u]]
  keeping_top [OF keeping_flush_then [OF keeping_reserve]]

lemmas cbb_op_defs = CBB_add_space_def CBB_reserve_def CBB_add_u16_def CBB_add_u16le_def CBB_add_u24_def
    CBB_add_u32_def CBB_add_u32le_def CBB_add_u64_def CBB_add_u64le_def CBB_add_u8_length_prefixed_def
    CBB_add_u16_length_prefixed_def CBB_add_u24_length_prefixed_def

lemma keeping_op: "op_fits op \<Longrightarrow> keeping (live d) (run_op mem d op) (\<lambda>s. True)"
proof (cases op)
  case (Add_asn1_uint64 v)
  then show ?thesis
    by (simp only: run_op.simps CBB_add_asn1_uint64_def) (rule keeping_asn1_body [OF keeping_u8s])
next
  case (Add_asn1_int64 v)
  have "keeping P (CBB_add_asn1_uint64 mem v d) (\<lambda>s. True)" for P
    unfolding CBB_add_asn1_uint64_def by (rule keeping_asn1_body [OF keeping_u8s])
  moreover have "keeping (\<lambda>s. True) (all_steps (\<lambda>i. CBB_add_u8 mem (f i) (d + 1)) xs) (\<lambda>s. True)" for f xs
    by (rule keeping_u8s)
  ultimately show ?thesis
    unfolding Add_asn1_int64 run_op.simps CBB_add_asn1_int64_def Let_def
    by (intro keeping_if keeping_asn1_body)
next
  case (Add_asn1_octet_string bs)
  assume "op_fits op"
  with Add_asn1_octet_string have "length bs < 2 ^ 64" by simp
  then show ?thesis unfolding Add_asn1_octet_string run_op.simps CBB_add_asn1_octet_string_def
    by (rule keeping_asn1_body [OF keeping_bytes])
next
  case (Add_asn1_bool v)
  then show ?thesis
    by (simp only: run_op.simps CBB_add_asn1_bool_def) (rule keeping_asn1_body [OF keeping_add_u8])
qed ((clarify, unfold run_op.simps cbb_op_defs, (rule keeping_rules; simp))+)

section \<open>Reachable states\<close>

text \<open>What a client can do: create a chain, and run operations on live objects, in any order
  and with any allocation failing.\<close>

inductive cbb_reach :: "cbb \<Rightarrow> bool" where
  init: "CBB_init mem n = Some (r, s) \<Longrightarrow> cbb_reach s"
| init_fixed: "CBB_init_fixed mem n = Some (r, s) \<Longrightarrow> cbb_reach s"
| op: "cbb_reach s \<Longrightarrow> live d s \<Longrightarrow> op_fits op \<Longrightarrow> run_op mem d op s = Some (r, t) \<Longrightarrow> cbb_reach t"

lemma cbb_reach_ok: "cbb_reach s \<Longrightarrow> cbb_ok s"
proof (induction rule: cbb_reach.induct)
  case (op s d op mem r t)
  then obtain r' t' where "run_op mem d op s = Some (r', t')" "cbb_ok t'"
    using keeping_op [OF op(3), of d mem] unfolding keeping_def by blast
  then show ?case using op(4) by simp
qed (auto simp: CBB_init_def CBB_init_fixed_def cbb_init_def CBB_zero_def and_then_def cbb_ok_def buffer_ok_def
    split: if_splits)

text \<open>
  C18. In every state that a client can reach the valid bytes fit the capacity and the pending
  prefixes lie inside them, and every operation on an object of the chain is defined: it
  writes inside the buffer only and violates no \<open>assert\<close>, whatever allocations fail.
\<close>

theorem cbb_invariant:
  assumes "cbb_reach s"
  shows "cbb_ok s \<and> (live d s \<and> op_fits op \<longrightarrow> run_op mem d op s \<noteq> None)"
proof (intro conjI impI)
  show ok: "cbb_ok s" by (rule cbb_reach_ok [OF assms])
  assume "live d s \<and> op_fits op"
  then obtain r t where "run_op mem d op s = Some (r, t)"
    using keeping_op [of op d mem] ok unfolding keeping_def by blast
  then show "run_op mem d op s \<noteq> None" by simp
qed

theorem cbb_invariant_witness:
  "run_op (\<lambda>n. n < 100) 0 (Add_bytes [1, 2]) \<lparr>base = Some \<lparr>cbb_buf = [], cbb_cap = 0, can_resize = True,
     cbb_error = False\<rparr>, children = []\<rparr> \<noteq> None"
proof -
  let ?s = "\<lparr>base = Some \<lparr>cbb_buf = [], cbb_cap = 0, can_resize = True, cbb_error = False\<rparr>, children = []\<rparr>"
  have "cbb_reach ?s"
    by (rule cbb_reach.init [of "\<lambda>n. True" 0 True]) (simp add: CBB_init_def cbb_init_def CBB_zero_def)
  from cbb_invariant [OF this, of 0 "Add_bytes [1, 2]" "\<lambda>n. n < 100"] show ?thesis by (simp add: live_def)
qed

text \<open>
  An error is final: once an operation has failed, every operation that writes fails without
  changing anything, and the chain cannot be finished.
\<close>

theorem cbb_error_final:
  assumes "base s = Some b" and "cbb_error b" and "\<And>bs. op \<noteq> Did_write bs" and "op \<noteq> Discard_child"
  shows "run_op mem d op s = Some (False, s) \<and> CBB_finish mem null d s = Some (None, s)"
proof -
  have fc: "flush_children mem cs b = Some (False, b, cs)" for cs
    using assms(2) by (cases cs) simp_all
  have fl: "CBB_flush mem d s = Some (False, s)" for d
    using assms(1) fc [of "drop d (children s)"] by (simp add: CBB_flush_def)
  have "run_op mem d op s = Some (False, s)"
  proof (cases op)
    case (Did_write bs)
    then show ?thesis using assms(3) by blast
  qed (use assms(4) in \<open>simp_all add: fl CBB_add_bytes_def CBB_add_u8_def cbb_op_defs cbb_add_length_prefixed_def
      CBB_add_asn1_def CBB_add_asn1_uint64_def CBB_add_asn1_int64_def CBB_add_asn1_octet_string_def
      CBB_add_asn1_bool_def Let_def\<close>)
  moreover have "CBB_finish mem null d s = Some (None, s)" by (simp add: CBB_finish_def fl)
  ultimately show ?thesis ..
qed

theorem cbb_error_final_witness:
  "run_op (\<lambda>n. True) 0 (Add_u8 7) \<lparr>base = Some \<lparr>cbb_buf = [], cbb_cap = 0, can_resize = False,
     cbb_error = True\<rparr>, children = []\<rparr> \<noteq> None"
  using cbb_error_final [of "\<lparr>base = Some \<lparr>cbb_buf = [], cbb_cap = 0, can_resize = False,
     cbb_error = True\<rparr>, children = []\<rparr>" _ "Add_u8 7" "\<lambda>n. True" 0] by simp

end
