(* ===== verification/Cbb_Spec.thy ===== *)
theory Cbb_Spec
  imports Cbb_Inv
begin

text \<open>
  What the writer of byte strings promises: a client that nests length-prefixed strings and
  ASN.1 elements ends up with the byte string that a recursive encoder gives for the nested
  structure, every length filled in behind the contents, and only fails when a length does not
  fit its prefix or memory runs out.
\<close>

section \<open>Abstract encoding\<close>

definition der_len :: "nat \<Rightarrow> u8 list" where
  "der_len n = (if n < 128 then [word_of_nat n]
     else if n < 256 then 0x81 # be_bytes 1 n
     else if n < 65536 then 0x82 # be_bytes 2 n
     else if n < 16777216 then 0x83 # be_bytes 3 n
     else 0x84 # be_bytes 4 n)"

definition child_prefix :: "u8 \<Rightarrow> bool \<Rightarrow> nat \<Rightarrow> u8 list option" where
  "child_prefix k a n = (if a then if n \<le> 0xFFFFFFFE then Some (der_len n) else None
     else if n < 256 ^ unat k then Some (be_bytes (unat k) n) else None)"

definition der_tag :: "u32 \<Rightarrow> u8 list" where
  "der_tag tag = (let bits = ucast (drop_bit 24 tag) AND 0xE0; num = tag AND CBS_ASN1_TAG_NUMBER_MASK in
     if num \<ge> 0x1F then (bits OR 0x1F) # base128_bytes (ucast num) else [bits OR ucast num])"

datatype item =
    Raw "u8 list"
  | Prefixed u8 "item list"
  | Element u32 "item list"

text \<open>Sequencing of encodings that may fail.\<close>

definition cat :: "u8 list option \<Rightarrow> u8 list option \<Rightarrow> u8 list option" where
  "cat e e' = do { xs \<leftarrow> e; ys \<leftarrow> e'; Some (xs @ ys) }"

definition prefixed :: "u8 \<Rightarrow> bool \<Rightarrow> u8 list option \<Rightarrow> u8 list option" where
  "prefixed k a e = do { xs \<leftarrow> e; p \<leftarrow> child_prefix k a (length xs); Some (p @ xs) }"

fun encode :: "item \<Rightarrow> u8 list option" and encode_all :: "item list \<Rightarrow> u8 list option" where
  "encode (Raw bs) = Some bs"
| "encode (Prefixed k is) = prefixed k False (encode_all is)"
| "encode (Element tag is) = cat (Some (der_tag tag)) (prefixed 1 True (encode_all is))"
| "encode_all [] = Some []"
| "encode_all (i # is) = cat (encode i) (encode_all is)"

text \<open>The client that writes the structure through the interface.\<close>

fun build :: "mem \<Rightarrow> nat \<Rightarrow> item \<Rightarrow> cbb step" and build_all :: "mem \<Rightarrow> nat \<Rightarrow> item list \<Rightarrow> cbb step" where
  "build mem d (Raw bs) = CBB_add_bytes mem bs d"
| "build mem d (Prefixed k is) = and_then (cbb_add_length_prefixed mem k d)
     (and_then (build_all mem (d + 1) is) (CBB_flush mem d))"
| "build mem d (Element tag is) = and_then (CBB_add_asn1 mem tag d)
     (and_then (build_all mem (d + 1) is) (CBB_flush mem d))"
| "build_all mem d [] = ret True"
| "build_all mem d (i # is) = and_then (build mem d i) (build_all mem d is)"

text \<open>Sizes: what a caller can hand over, and prefixes of at least one byte.\<close>

fun item_ok :: "item \<Rightarrow> bool" where
  "item_ok (Raw bs) \<longleftrightarrow> length bs < 2 ^ 64"
| "item_ok (Prefixed k is) \<longleftrightarrow> k \<noteq> 0 \<and> (\<forall>i \<in> set is. item_ok i)"
| "item_ok (Element tag is) \<longleftrightarrow> (\<forall>i \<in> set is. item_ok i)"

section \<open>Closing a child\<close>

lemma asn1_length_der_len:
  assumes "n < 2 ^ 64"
  shows "asn1_length (word_of_nat n) = (if n \<le> 0xFFFFFFFE
    then Some (length (der_len n), hd (der_len n)) else None)"
    and "der_len n = hd (der_len n) # be_bytes (length (der_len n) - 1) (if length (der_len n) = 1 then 0 else n)"
proof -
  have u: "unat (word_of_nat n :: u64) = n" by (rule unat_of_nat_u64 [OF assms])
  have c: "(ucast (word_of_nat n :: u64) :: u8) = word_of_nat n"
  proof -
    have "unat (ucast (word_of_nat n :: u64) :: u8) = n mod 256"
      unfolding unsigned_ucast_eq u by (simp add: take_bit_eq_mod)
    then show ?thesis by (metis of_nat_unat_u64 unat_of_nat_u8)
  qed
  show "asn1_length (word_of_nat n) = (if n \<le> 0xFFFFFFFE then Some (length (der_len n), hd (der_len n)) else None)"
    using u c by (auto simp: asn1_length_def der_len_def word_less_nat_alt)
  show "der_len n = hd (der_len n) # be_bytes (length (der_len n) - 1) (if length (der_len n) = 1 then 0 else n)"
    by (auto simp: der_len_def)
qed

lemma length_der_len: "1 \<le> length (der_len n)" "length (der_len n) \<le> 5"
  by (simp_all add: der_len_def)

lemma der_len_fits: "n \<le> 0xFFFFFFFE \<Longrightarrow> length (der_len n) \<noteq> 1 \<Longrightarrow> n < 256 ^ (length (der_len n) - 1)"
  by (auto simp: der_len_def split: if_splits)

lemma drop_bit_zero_iff: "drop_bit (8 * n) (word_of_nat m :: u64) = 0 \<longleftrightarrow> m < 256 ^ n" if "m < 2 ^ 64"
proof -
  have "unat (drop_bit (8 * n) (word_of_nat m :: u64)) = m div 2 ^ (8 * n)"
    by (simp only: unat_drop_bit_div unat_of_nat_u64 [OF that])
  also have "\<dots> = m div 256 ^ n" by (simp add: power_mult)
  finally have "drop_bit (8 * n) (word_of_nat m :: u64) = 0 \<longleftrightarrow> m div 256 ^ n = 0" by (metis unat_eq_zero)
  then show ?thesis by (simp add: div_eq_0_iff)
qed

lemma buffer_add_ok:
  assumes "buffer_ok b" "can_resize b" "\<And>n. mem n" "length (cbb_buf b) + length bs < 2 ^ 64"
  shows "\<exists>b'. cbb_buffer_add mem bs b = (True, b')"
proof -
  have "unat (word_of_nat (length bs) :: u64) = length bs" using assms(4) by (intro unat_of_nat_u64) simp
  then have "cbb_buf_len b \<le> cbb_buf_len b + word_of_nat (length bs)"
    using assms(4) unat_buf_len [OF assms(1)] by (intro no_olen_add_nat [THEN iffD2]) simp
  then show ?thesis
    using assms(2,3) by (auto simp: cbb_buffer_add_def cbb_buffer_reserve_def Let_def not_less)
qed


lemma close_child_exact:
  assumes ok: "buffer_ok b" and buf: "cbb_buf b = pre @ z @ content" and pre: "length pre = unat (offset c)"
    and z: "length z = unat (pending_len_len c)" and a: "pending_is_asn1 c \<longrightarrow> pending_len_len c = 1"
    and r: "close_child mem c b = Some (r, b')"
  shows "(r \<longrightarrow> (\<exists>p. child_prefix (pending_len_len c) (pending_is_asn1 c) (length content) = Some p \<and>
      cbb_buf b' = pre @ p @ content)) \<and>
    ((\<exists>p. child_prefix (pending_len_len c) (pending_is_asn1 c) (length content) = Some p \<and> can_resize b \<and>
      (\<forall>n. mem n) \<and> length pre + length p + length content < 2 ^ 64) \<longrightarrow> r)"
proof -
  let ?n = "length content"
  let ?start = "offset c + ucast (pending_len_len c)"
  have lb: "length (cbb_buf b) = length pre + length z + ?n" using buf by simp
  have start: "unat ?start = length pre + length z"
    using lb pre z buffer_ok_less [OF ok] by (subst unat_add_lem [THEN iffD1]) (simp_all add: unat_ucast_up)
  have n: "?n < 2 ^ 64" using lb buffer_ok_less [OF ok] by simp
  have ub: "unat (cbb_buf_len b) = length pre + length z + ?n" unfolding unat_buf_len [OF ok] by (rule lb)
  have "?start \<le> cbb_buf_len b" unfolding word_le_nat_alt start ub by simp
  then have "unat (cbb_buf_len b - ?start) = ?n" by (subst unat_sub) (simp_all only: ub start diff_add_inverse)
  then have len: "cbb_buf_len b - ?start = word_of_nat ?n" by (metis of_nat_unat_u64)
  show ?thesis
  proof (cases "pending_is_asn1 c")
    case False
    have w: "write_length (length pre) (length z) (word_of_nat ?n) b = Some (r, b')"
      using r False by (simp add: close_child_def Let_def len pre z)
    obtain b2 where "write_length (length pre) (length z) (word_of_nat ?n) b = Some (drop_bit (8 * length z) (word_of_nat ?n :: u64) = 0, b2)"
      using write_length_cases [OF ok, of "length pre" "length z" "word_of_nat ?n"] lb by auto
    then have "r = (?n < 256 ^ length z)" using w drop_bit_zero_iff [OF n] by simp
    moreover have "cbb_buf b' = pre @ be_bytes (length z) ?n @ content"
      using write_length_buf [OF w] by (simp add: buf unat_of_nat_u64 [OF n])
    ultimately show ?thesis using False by (simp add: child_prefix_def z [symmetric])
  next
    case True
    then have p1: "pending_len_len c = 1" using a by simp
    then obtain z0 where z0: "z = [z0]" using z by (cases z) auto
    define l where "l = der_len ?n"
    show ?thesis
    proof (cases "?n \<le> 0xFFFFFFFE")
      case False
      then have "asn1_length (word_of_nat ?n) = None" using asn1_length_der_len(1) [OF n] by simp
      then have "close_child mem c b = Some (cbb_set_error b)"
        unfolding close_child_def Let_def if_P [OF True] len by (simp add: p1)
      then show ?thesis using r False True by (simp add: child_prefix_def cbb_set_error_def)
    next
      case fits: True
      have al: "asn1_length (word_of_nat ?n) = Some (length l, hd l)"
        using asn1_length_der_len(1) [OF n] fits by (simp add: l_def)
      have l: "l = hd l # be_bytes (length l - 1) (if length l = 1 then 0 else ?n)"
        unfolding l_def by (rule asn1_length_der_len(2) [OF n])
      have cp: "child_prefix (pending_len_len c) (pending_is_asn1 c) ?n = Some l"
        using fits True by (simp add: child_prefix_def l_def)
      show ?thesis
      proof (cases "length l = 1")
        case k1: True
        have put: "put (cbb_buf b) (length pre) [hd l] = Some (pre @ [hd l] @ content)"
          by (simp add: put_def buf z0)
        have w: "write_length (length pre + 1) 0 0 (b\<lparr>cbb_buf := pre @ [hd l] @ content\<rparr>) = Some (r, b')"
          using r unfolding close_child_def Let_def if_P [OF True] len al option.case prod.case
          by (simp add: p1 k1 pre [symmetric] put [simplified])
        have "l = [hd l]" using k1 l by simp
        moreover have "cbb_buf b' = pre @ [hd l] @ content"
          using write_length_buf [OF w] by simp
        moreover have r using w by (simp add: write_length_def put_def)
        ultimately show ?thesis using cp by auto
      next
        case kn: False
        define e where "e = length l - 1"
        have e: "length l = Suc e" "e < 5" using length_der_len [of ?n] kn by (simp_all add: l_def e_def)
        obtain q b1 where q: "cbb_buffer_add mem (replicate e 0) b = (q, b1)" by force
        have "length (replicate e (0 :: u8)) < 2 ^ 64" using e by simp
        note q1 = add_cases [OF ok this q]
        have cl: "close_child mem c b = (if q then do {
            buf \<leftarrow> put (cbb_buf b1) (length pre + 1 + e) (take ?n (drop (length pre + 1) (cbb_buf b1)));
            buf \<leftarrow> put buf (length pre) [hd l];
            write_length (length pre + 1) e (word_of_nat ?n) (b1\<lparr>cbb_buf := buf\<rparr>) } else Some (cbb_set_error b1))"
          unfolding close_child_def Let_def if_P [OF True] len al option.case prod.case start
          using kn e by (simp add: p1 q pre [symmetric] z0 unat_of_nat_u64 [OF n])
        show ?thesis
        proof (cases q)
          case False
          then have "\<not> r" using r cl by (simp add: cbb_set_error_def)
          moreover have "\<not> (can_resize b \<and> (\<forall>n. mem n) \<and> length pre + length l + ?n < 2 ^ 64)"
            using buffer_add_ok [OF ok, of mem "replicate e 0"] False q e lb z0 by auto
          ultimately show ?thesis using cp by auto
        next
          case qT: True
          then have b1: "cbb_buf b1 = pre @ [z0] @ content @ replicate e 0" "buffer_ok b1" using q1 buf z0 by auto
          have "take ?n (drop (length pre + 1) (cbb_buf b1)) = content" by (simp add: b1)
          moreover have put2: "put (cbb_buf b1) (length pre + 1 + e) content =
              Some (pre @ [z0] @ take e (content @ replicate e 0) @ content)"
            by (simp add: put_def b1(1) take_Cons' drop_Cons' add.commute)
          moreover have put3: "put (pre @ [z0] @ take e (content @ replicate e 0) @ content) (length pre) [hd l] =
              Some (pre @ [hd l] @ take e (content @ replicate e 0) @ content)"
            by (simp add: put_def)
          ultimately have w: "write_length (length pre + 1) e (word_of_nat ?n)
              (b1\<lparr>cbb_buf := pre @ [hd l] @ take e (content @ replicate e 0) @ content\<rparr>) = Some (r, b')"
            using r cl qT by simp
          have buf': "cbb_buf b' = pre @ [hd l] @ be_bytes e ?n @ content"
            using write_length_buf [OF w] by (simp add: unat_of_nat_u64 [OF n])
          have "drop_bit (8 * e) (word_of_nat ?n :: u64) = 0"
            using der_len_fits [OF fits] kn drop_bit_zero_iff [OF n] by (simp add: l_def e_def)
          then have r using w by (auto simp: write_length_def Let_def cbb_set_error_def put_def split: if_splits)
          moreover have "l = hd l # be_bytes e ?n" using l kn by (simp add: e_def)
          then have "cbb_buf b' = pre @ l @ content" using buf' by (metis append_Cons append_Nil append_assoc)
          ultimately show ?thesis using cp by auto
        qed
      qed
    qed
  qed
qed


section \<open>Steps that append\<close>

text \<open>On the last object of a chain, a step appends the given string if it succeeds, and it
  succeeds if there is such a string and memory for it.\<close>

definition appends :: "mem \<Rightarrow> nat \<Rightarrow> cbb step \<Rightarrow> u8 list option \<Rightarrow> bool" where
  "appends mem d f e \<longleftrightarrow> (\<forall>s b r t. cbb_ok s \<and> open_at d s \<and> base s = Some b \<and> f s = Some (r, t) \<longrightarrow>
     (r \<longrightarrow> (\<exists>bs b'. e = Some bs \<and> t = s\<lparr>base := Some b'\<rparr> \<and> cbb_buf b' = cbb_buf b @ bs \<and>
        cbb_error b' = cbb_error b \<and> can_resize b' = can_resize b)) \<and>
     (\<forall>bs. e = Some bs \<and> can_resize b \<and> \<not> cbb_error b \<and> (\<forall>n. mem n) \<and> length (cbb_buf b) + length bs < 2 ^ 64 \<longrightarrow> r))"

lemma appendsI:
  assumes "\<And>s b t. cbb_ok s \<Longrightarrow> open_at d s \<Longrightarrow> base s = Some b \<Longrightarrow> f s = Some (True, t) \<Longrightarrow>
      \<exists>bs b'. e = Some bs \<and> t = s\<lparr>base := Some b'\<rparr> \<and> cbb_buf b' = cbb_buf b @ bs \<and>
        cbb_error b' = cbb_error b \<and> can_resize b' = can_resize b"
    and "\<And>s b r t bs. cbb_ok s \<Longrightarrow> open_at d s \<Longrightarrow> base s = Some b \<Longrightarrow> f s = Some (r, t) \<Longrightarrow> e = Some bs \<Longrightarrow>
      can_resize b \<Longrightarrow> \<not> cbb_error b \<Longrightarrow> \<forall>n. mem n \<Longrightarrow> length (cbb_buf b) + length bs < 2 ^ 64 \<Longrightarrow> r"
  shows "appends mem d f e"
  unfolding appends_def using assms by (metis (full_types))

lemma appendsD:
  assumes "appends mem d f e" "cbb_ok s" "open_at d s" "base s = Some b" "f s = Some (r, t)"
  shows "r \<Longrightarrow> \<exists>bs b'. e = Some bs \<and> t = s\<lparr>base := Some b'\<rparr> \<and> cbb_buf b' = cbb_buf b @ bs \<and>
        cbb_error b' = cbb_error b \<and> can_resize b' = can_resize b"
    and "e = Some bs \<Longrightarrow> can_resize b \<Longrightarrow> \<not> cbb_error b \<Longrightarrow> \<forall>n. mem n \<Longrightarrow> length (cbb_buf b) + length bs < 2 ^ 64 \<Longrightarrow> r"
  using assms unfolding appends_def by blast+

lemma keeping_ok: "keeping P f Q \<Longrightarrow> cbb_ok s \<Longrightarrow> P s \<Longrightarrow> f s = Some (r, t) \<Longrightarrow> cbb_ok t"
  unfolding keeping_def by fastforce

lemma appends_and_then:
  assumes f: "appends mem d f e" and g: "appends mem d g e'" and k: "keeping (open_at d) f (open_at d)"
  shows "appends mem d (and_then f g) (cat e e')"
proof (rule appendsI)
  fix s b t assume s: "cbb_ok s" "open_at d s" "base s = Some b" and r: "and_then f g s = Some (True, t)"
  then obtain u where u: "f s = Some (True, u)" "g u = Some (True, t)" by (auto elim: and_then_Some_cases)
  from appendsD(1) [OF f s u(1)] obtain bs b' where e: "e = Some bs" "u = s\<lparr>base := Some b'\<rparr>"
    "cbb_buf b' = cbb_buf b @ bs" "cbb_error b' = cbb_error b" "can_resize b' = can_resize b" by auto
  have "cbb_ok u" "open_at d u" "base u = Some b'"
    using keeping_ok [OF k s(1,2) u(1)] s(2) e(2) by (auto simp: open_at_def)
  from appendsD(1) [OF g this u(2)] e
  show "\<exists>bs b'. cat e e' = Some bs \<and> t = s\<lparr>base := Some b'\<rparr> \<and> cbb_buf b' = cbb_buf b @ bs \<and>
        cbb_error b' = cbb_error b \<and> can_resize b' = can_resize b" by (auto simp: cat_def)
next
  fix s b r t bs assume s: "cbb_ok s" "open_at d s" "base s = Some b" and r: "and_then f g s = Some (r, t)"
    and c: "cat e e' = Some bs" "can_resize b" "\<not> cbb_error b" "\<forall>n. mem n" "length (cbb_buf b) + length bs < 2 ^ 64"
  from c(1) obtain xs ys where e: "e = Some xs" "e' = Some ys" "bs = xs @ ys"
    by (auto simp: cat_def bind_eq_Some_conv)
  from r show r
  proof (cases rule: and_then_Some_cases)
    case stop
    from appendsD(2) [OF f s stop(1) e(1) c(2-4)] c(5) e(3) show ?thesis by simp
  next
    case (go u)
    from appendsD(1) [OF f s go(1)] obtain bs' b' where e': "e = Some bs'" "u = s\<lparr>base := Some b'\<rparr>"
      "cbb_buf b' = cbb_buf b @ bs'" "cbb_error b' = cbb_error b" "can_resize b' = can_resize b" by auto
    have "cbb_ok u" "open_at d u" "base u = Some b'"
      using keeping_ok [OF k s(1,2) go(1)] s(2) e'(2) by (auto simp: open_at_def)
    from appendsD(2) [OF g this go(2) e(2)] c e e' show ?thesis by simp
  qed
qed

lemma appends_flush: "appends mem d (CBB_flush mem d) (Some [])"
  by (rule appendsI) (auto simp: flush_open on_base_def)

lemma appends_on_base:
  assumes "\<And>b r b'. buffer_ok b \<Longrightarrow> f b = (r, b') \<Longrightarrow>
      (r \<longrightarrow> (\<exists>bs. e = Some bs \<and> cbb_buf b' = cbb_buf b @ bs \<and> cbb_error b' = cbb_error b \<and> can_resize b' = can_resize b)) \<and>
      (\<forall>bs. e = Some bs \<and> can_resize b \<and> \<not> cbb_error b \<and> (\<forall>n. mem n) \<and> length (cbb_buf b) + length bs < 2 ^ 64 \<longrightarrow> r)"
  shows "appends mem d (on_base f) e"
proof (rule appendsI)
  fix s b t assume s: "cbb_ok s" "base s = Some b" "on_base f s = Some (True, t)"
  obtain r b' where fb: "f b = (r, b')" by force
  have "buffer_ok b" using s by (simp add: cbb_ok_def)
  from assms [OF this fb] s fb
  show "\<exists>bs b'. e = Some bs \<and> t = s\<lparr>base := Some b'\<rparr> \<and> cbb_buf b' = cbb_buf b @ bs \<and>
        cbb_error b' = cbb_error b \<and> can_resize b' = can_resize b" by (auto simp: on_base_def)
next
  fix s b r t bs assume s: "cbb_ok s" "base s = Some b" "on_base f s = Some (r, t)"
    and c: "e = Some bs" "can_resize b" "\<not> cbb_error b" "\<forall>n. mem n" "length (cbb_buf b) + length bs < 2 ^ 64"
  obtain r' b' where fb: "f b = (r', b')" by force
  have "buffer_ok b" using s by (simp add: cbb_ok_def)
  from assms [OF this fb] s fb c show r by (auto simp: on_base_def)
qed

lemma add_exact:
  assumes "buffer_ok b" "length bs < 2 ^ 64" "cbb_buffer_add mem bs b = (r, b')"
  shows "(r \<longrightarrow> cbb_buf b' = cbb_buf b @ bs \<and> cbb_error b' = cbb_error b \<and> can_resize b' = can_resize b) \<and>
    (can_resize b \<and> (\<forall>n. mem n) \<and> length (cbb_buf b) + length bs < 2 ^ 64 \<longrightarrow> r)"
  using add_cases [OF assms] buffer_add_ok [OF assms(1), of mem bs] assms(3) by auto

lemma appends_add: "length bs < 2 ^ 64 \<Longrightarrow> appends mem d (on_base (cbb_buffer_add mem bs)) (Some bs)"
proof (rule appends_on_base)
  fix b r b' assume "length bs < 2 ^ 64" "buffer_ok b" "cbb_buffer_add mem bs b = (r, b')"
  from add_exact [OF this(2,1,3)]
  show "(r \<longrightarrow> (\<exists>bs'. Some bs = Some bs' \<and> cbb_buf b' = cbb_buf b @ bs' \<and> cbb_error b' = cbb_error b \<and> can_resize b' = can_resize b)) \<and>
      (\<forall>bs'. Some bs = Some bs' \<and> can_resize b \<and> \<not> cbb_error b \<and> (\<forall>n. mem n) \<and> length (cbb_buf b) + length bs' < 2 ^ 64 \<longrightarrow> r)"
    by auto
qed

lemma add_u_exact:
  assumes "buffer_ok b" "n < 2 ^ 64" "cbb_buffer_add_u mem v n b = (r, b')"
  shows "(r \<longrightarrow> drop_bit (8 * n) v = 0 \<or> n = 0) \<and>
    (r \<longrightarrow> cbb_buf b' = cbb_buf b @ be_bytes n (unat v) \<and> cbb_error b' = cbb_error b \<and> can_resize b' = can_resize b) \<and>
    ((drop_bit (8 * n) v = 0 \<or> n = 0) \<and> can_resize b \<and> (\<forall>n. mem n) \<and> length (cbb_buf b) + n < 2 ^ 64 \<longrightarrow> r)"
proof (cases "n = 0")
  case True
  then show ?thesis using assms(3) by (simp add: cbb_buffer_add_u_def)
next
  case False
  obtain q b1 where q: "cbb_buffer_add mem (be_bytes n (unat v)) b = (q, b1)" by force
  have "length (be_bytes n (unat v)) < 2 ^ 64" using assms(2) by simp
  from add_exact [OF assms(1) this q] q assms(3) False show ?thesis
    by (cases q) (auto simp: cbb_buffer_add_u_def cbb_set_error_def split: if_splits)
qed

lemma appends_add_u:
  assumes "n < 2 ^ 64" "n \<noteq> 0"
  shows "appends mem d (on_base (cbb_buffer_add_u mem v n))
    (if drop_bit (8 * n) v = 0 then Some (be_bytes n (unat v)) else None)"
proof (rule appends_on_base)
  fix b r b' assume "buffer_ok b" "cbb_buffer_add_u mem v n b = (r, b')"
  from add_u_exact [OF this(1) assms(1) this(2)] assms(2)
  show "(r \<longrightarrow> (\<exists>bs'. (if drop_bit (8 * n) v = 0 then Some (be_bytes n (unat v)) else None) = Some bs' \<and> cbb_buf b' = cbb_buf b @ bs' \<and> cbb_error b' = cbb_error b \<and> can_resize b' = can_resize b)) \<and>
      (\<forall>bs'. (if drop_bit (8 * n) v = 0 then Some (be_bytes n (unat v)) else None) = Some bs' \<and> can_resize b \<and> \<not> cbb_error b \<and> (\<forall>n. mem n) \<and> length (cbb_buf b) + length bs' < 2 ^ 64 \<longrightarrow> r)"
    by auto
qed

lemma cat_Nil [simp]: "cat (Some []) e = e" "cat e (Some []) = e"
  by (simp_all add: cat_def split: Option.bind_split)

lemma appends_flush_then: "appends mem d f e \<Longrightarrow> appends mem d (and_then (CBB_flush mem d) f) e"
  using appends_and_then [OF appends_flush, of mem d f e] keeping_mono [OF keeping_flush [of "\<lambda>s. True"]] by simp

lemma appends_u8: "appends mem d (CBB_add_u8 mem v d) (Some [v])"
proof -
  have "drop_bit (8 * 1) (ucast v :: u64) = 0"
    by (rule bit_eqI) (auto simp: bit_drop_bit_eq bit_ucast_iff dest: bit_imp_le_length)
  moreover have "be_bytes 1 (unat (ucast v :: u64)) = [v]" by simp
  moreover have "appends mem d (CBB_add_u8 mem v d)
      (if drop_bit (8 * 1) (ucast v :: u64) = 0 then Some (be_bytes 1 (unat (ucast v :: u64))) else None)"
    unfolding CBB_add_u8_def by (intro appends_flush_then appends_add_u) simp_all
  ultimately show ?thesis by metis
qed

lemma appends_bytes: "length bs < 2 ^ 64 \<Longrightarrow> appends mem d (CBB_add_bytes mem bs d) (Some bs)"
  unfolding CBB_add_bytes_def by (intro appends_flush_then appends_add)

lemma keeping_u8: "keeping (open_at d) (CBB_add_u8 mem v d) (open_at d)"
  by (rule keeping_mono [OF keeping_add_u8]) simp_all

lemma base_same: "base s = Some b \<Longrightarrow> s\<lparr>base := Some b\<rparr> = s"
  by (cases s) simp

lemma appends_ret: "appends mem d (ret True) (Some [])"
proof (rule appendsI)
  fix s b t assume "base s = Some b" "ret True s = Some (True, t)"
  then show "\<exists>bs b'. Some [] = Some bs \<and> t = s\<lparr>base := Some b'\<rparr> \<and> cbb_buf b' = cbb_buf b @ bs \<and>
        cbb_error b' = cbb_error b \<and> can_resize b' = can_resize b"
    by (intro exI [of _ "[]"] exI [of _ b]) (simp add: ret_def base_same)
qed (simp add: ret_def)

lemma appends_u8s: "appends mem d (all_steps (\<lambda>v. CBB_add_u8 mem v d) vs) (Some vs)"
proof (induction vs)
  case (Cons v vs)
  from appends_and_then [OF appends_u8 Cons keeping_u8] show ?case by (simp add: cat_def)
qed (simp add: appends_ret)


section \<open>Children\<close>

lemma appends_cong: "appends mem d f e \<Longrightarrow> (\<And>s. open_at d s \<Longrightarrow> g s = f s) \<Longrightarrow> appends mem d g e"
  unfolding appends_def by metis

lemma flush_last:
  assumes ok: "cbb_ok t" and t: "children t = cs @ [c]" "length cs = d" "base t = Some b" and c: "pending_len_len c \<noteq> 0"
  shows "CBB_flush mem d t = (if cbb_error b then Some (False, t) else do {
     (ok, b') \<leftarrow> close_child mem c b;
     Some (if ok then (True, t\<lparr>base := Some b', children := cs\<rparr>)
       else (False, t\<lparr>base := Some (b'\<lparr>cbb_error := True\<rparr>)\<rparr>)) })"
proof -
  have b: "buffer_ok b" "child_end c \<le> length (cbb_buf b)"
    using ok t chain_ok_le by (auto simp: cbb_ok_def chain_ok_append split: if_splits)
  have start: "unat (offset c + ucast (pending_len_len c)) = child_end c"
    using b(2) buffer_ok_less [OF b(1)] by (subst unat_add_lem [THEN iffD1]) (simp_all add: unat_ucast_up)
  have no: "\<not> offset c + ucast (pending_len_len c) < offset c" "\<not> cbb_buf_len b < offset c + ucast (pending_len_len c)"
    using start b by (simp_all add: word_less_nat_alt unat_buf_len [OF b(1)])
  have dc: "drop d (children t) = [c]" "take d (children t) = cs" "\<not> length (children t) < d" using t by simp_all
  have same: "t\<lparr>base := x, children := cs @ [c]\<rparr> = t\<lparr>base := x\<rparr>" for x using t(1) by (cases t) simp
  show ?thesis
  proof (cases "cbb_error b")
    case True
    have "t\<lparr>base := Some b, children := cs @ [c]\<rparr> = t" using t by (cases t) simp
    then show ?thesis using True dc t(3) by (simp add: CBB_flush_def)
  next
    case False
    then show ?thesis using dc t(3) c no
      by (auto simp: CBB_flush_def Let_def same split: Option.bind_split)
  qed
qed

lemma child_prefix_length:
  "child_prefix k a n = Some p \<Longrightarrow> a \<longrightarrow> k = 1 \<Longrightarrow> unat k \<le> length p"
  using length_der_len [of n] by (auto simp: child_prefix_def split: if_splits)

lemma appends_child:
  assumes body: "appends mem (d + 1) f e" and kf: "keeping (open_at (d + 1)) f (open_at (d + 1))"
    and g: "\<And>b r b'. buffer_ok b \<Longrightarrow> g b = (r, b') \<Longrightarrow> buffer_ok b' \<and> length (cbb_buf b) \<le> length (cbb_buf b') \<and>
      (r \<longrightarrow> cbb_buf b' = cbb_buf b @ replicate (unat k) 0 \<and> cbb_error b' = cbb_error b \<and> can_resize b' = can_resize b) \<and>
      (can_resize b \<and> \<not> cbb_error b \<and> (\<forall>n. mem n) \<and> length (cbb_buf b) + unat k < 2 ^ 64 \<longrightarrow> r)"
    and k: "k \<noteq> 0" and a: "a \<longrightarrow> k = 1"
  shows "appends mem d (and_then (with_len (\<lambda>off. and_then (on_base g)
      (add_child d \<lparr>offset = off, pending_len_len = k, pending_is_asn1 = a\<rparr>))) (and_then f (CBB_flush mem d)))
    (prefixed k a e)"
    (is "appends mem d (and_then ?open _) _")
proof -
  have keep: "keeping (open_at d) ?open (open_at (d + 1))"
  proof (rule keeping_new_child [OF _ k a])
    fix b r b' assume "buffer_ok b" "g b = (r, b')"
    from g [OF this] show "buffer_ok b' \<and> length (cbb_buf b) \<le> length (cbb_buf b') \<and>
        (r \<longrightarrow> length (cbb_buf b') = length (cbb_buf b) + unat k)" by force
  qed
  have opened: "\<exists>b1. u = s\<lparr>base := Some b1, children := children s @ [\<lparr>offset = cbb_buf_len b, pending_len_len = k, pending_is_asn1 = a\<rparr>]\<rparr> \<and>
      cbb_buf b1 = cbb_buf b @ replicate (unat k) 0 \<and> cbb_error b1 = cbb_error b \<and> can_resize b1 = can_resize b"
    if s: "cbb_ok s" "open_at d s" "base s = Some b" and u: "?open s = Some (True, u)" for s u b
  proof -
    obtain r b1 where gb: "g b = (r, b1)" by force
    have "buffer_ok b" using s by (simp add: cbb_ok_def)
    from g [OF this gb] u s gb show ?thesis
      by (auto simp: with_len_def on_base_def and_then_def add_child_def open_at_def split: if_splits)
  qed
  have closed: "\<exists>xs b2. e = Some xs \<and> base v = Some b2 \<and>
      children v = children s @ [\<lparr>offset = cbb_buf_len b, pending_len_len = k, pending_is_asn1 = a\<rparr>] \<and> cbb_ok v \<and>
      v = u\<lparr>base := Some b2\<rparr> \<and> cbb_buf b2 = cbb_buf b @ replicate (unat k) 0 @ xs \<and> cbb_error b2 = cbb_error b \<and> can_resize b2 = can_resize b"
    if s: "cbb_ok s" "open_at d s" "base s = Some b" and u: "?open s = Some (True, u)" and v: "f u = Some (True, v)" for s u v b
  proof -
    obtain b1 where b1: "u = s\<lparr>base := Some b1, children := children s @ [\<lparr>offset = cbb_buf_len b, pending_len_len = k, pending_is_asn1 = a\<rparr>]\<rparr>"
      "cbb_buf b1 = cbb_buf b @ replicate (unat k) 0" "cbb_error b1 = cbb_error b" "can_resize b1 = can_resize b"
      using opened [OF s u] by blast
    have ou: "cbb_ok u" "open_at (d + 1) u" "base u = Some b1"
      using keeping_ok [OF keep s(1,2) u] b1(1) s(2) by (auto simp: open_at_def)
    from appendsD(1) [OF body ou v] obtain xs b2 where b2: "e = Some xs" "v = u\<lparr>base := Some b2\<rparr>"
      "cbb_buf b2 = cbb_buf b1 @ xs" "cbb_error b2 = cbb_error b1" "can_resize b2 = can_resize b1" by auto
    have "cbb_ok v" by (rule keeping_ok [OF kf ou(1,2) v])
    then show ?thesis using b1 b2 by simp
  qed
  let ?c = "\<lambda>b. \<lparr>offset = cbb_buf_len b, pending_len_len = k, pending_is_asn1 = a\<rparr>"
  have exact: "(r \<longrightarrow> (\<exists>p. child_prefix k a (length xs) = Some p \<and> cbb_buf b' = cbb_buf b @ p @ xs \<and>
        cbb_error b' = cbb_error b2 \<and> can_resize b' = can_resize b2)) \<and>
      ((\<exists>p. child_prefix k a (length xs) = Some p \<and> can_resize b2 \<and> (\<forall>n. mem n) \<and>
        length (cbb_buf b) + length p + length xs < 2 ^ 64) \<longrightarrow> r)"
    if "buffer_ok b" "buffer_ok b2" "cbb_buf b2 = cbb_buf b @ replicate (unat k) 0 @ xs" "close_child mem (?c b) b2 = Some (r, b')" for b b2 xs r b'
  proof -
    have "child_end (?c b) \<le> length (cbb_buf b2)" using that by (simp add: unat_buf_len)
    from close_child_cases [OF that(2) this, of mem] that(4) a
    have "if r then cbb_error b' = cbb_error b2 else cbb_error b'" "can_resize b' = can_resize b2" by auto
    with close_child_exact [OF that(2,3), of "?c b" mem r b'] that a show ?thesis
      by (auto simp: unat_buf_len)
  qed
  have fl: "CBB_flush mem d v = (if cbb_error b2 then Some (False, v) else do {
     (ok, b') \<leftarrow> close_child mem (?c b) b2;
     Some (if ok then (True, v\<lparr>base := Some b', children := children s\<rparr>)
       else (False, v\<lparr>base := Some (b'\<lparr>cbb_error := True\<rparr>)\<rparr>)) })"
    if "open_at d s" "cbb_ok v" "base v = Some b2" "children v = children s @ [?c b]" for s v b b2
    using that k by (intro flush_last) (auto simp: open_at_def)
  show ?thesis
  proof (rule appendsI)
    fix s b t assume s: "cbb_ok s" "open_at d s" "base s = Some b"
      and r: "and_then ?open (and_then f (CBB_flush mem d)) s = Some (True, t)"
    then obtain u v where uv: "?open s = Some (True, u)" "f u = Some (True, v)" "CBB_flush mem d v = Some (True, t)"
      by (auto elim!: and_then_Some_cases)
    from closed [OF s uv(1,2)] obtain xs b2 where b2: "e = Some xs" "base v = Some b2" "children v = children s @ [?c b]"
      "cbb_ok v" "v = u\<lparr>base := Some b2\<rparr>" "cbb_buf b2 = cbb_buf b @ replicate (unat k) 0 @ xs"
      "cbb_error b2 = cbb_error b" "can_resize b2 = can_resize b" by auto
    obtain b1 where u: "u = s\<lparr>base := Some b1, children := children s @ [?c b]\<rparr>" using opened [OF s uv(1)] by blast
    have ob: "buffer_ok b" "buffer_ok b2" using s b2 by (auto simp: cbb_ok_def)
    from uv(3) obtain b' where cl: "close_child mem (?c b) b2 = Some (True, b')"
      and t: "t = v\<lparr>base := Some b', children := children s\<rparr>"
      unfolding fl [OF s(2) b2(4,2,3)] by (auto simp: bind_eq_Some_conv split: if_splits)
    from exact [OF ob b2(6) cl] obtain p where p: "child_prefix k a (length xs) = Some p" "cbb_buf b' = cbb_buf b @ p @ xs"
      "cbb_error b' = cbb_error b2" "can_resize b' = can_resize b2" by auto
    have "t = s\<lparr>base := Some b'\<rparr>" unfolding t b2(5) u by (cases s) simp
    then show "\<exists>bs b'. prefixed k a e = Some bs \<and> t = s\<lparr>base := Some b'\<rparr> \<and> cbb_buf b' = cbb_buf b @ bs \<and>
        cbb_error b' = cbb_error b \<and> can_resize b' = can_resize b"
      using p b2 by (auto simp: prefixed_def)
  next
    fix s b r t bs assume s: "cbb_ok s" "open_at d s" "base s = Some b"
      and r: "and_then ?open (and_then f (CBB_flush mem d)) s = Some (r, t)"
      and c: "prefixed k a e = Some bs" "can_resize b" "\<not> cbb_error b" "\<forall>n. mem n" "length (cbb_buf b) + length bs < 2 ^ 64"
    from c(1) obtain xs p where e: "e = Some xs" "child_prefix k a (length xs) = Some p" "bs = p @ xs"
      by (auto simp: prefixed_def bind_eq_Some_conv)
    have kp: "unat k \<le> length p" by (rule child_prefix_length [OF e(2) a])
    have bb: "buffer_ok b" using s by (simp add: cbb_ok_def)
    obtain q b1 where gb: "g b = (q, b1)" by force
    have q using g [OF bb gb] c kp e(3) by simp
    then obtain u where u: "?open s = Some (True, u)"
      using s gb by (auto simp: with_len_def on_base_def add_child_def)
    from opened [OF s u] obtain b1 where b1: "u = s\<lparr>base := Some b1, children := children s @ [?c b]\<rparr>"
      "cbb_buf b1 = cbb_buf b @ replicate (unat k) 0" "cbb_error b1 = cbb_error b" "can_resize b1 = can_resize b" by blast
    have ou: "cbb_ok u" "open_at (d + 1) u" "base u = Some b1"
      using keeping_ok [OF keep s(1,2) u] b1(1) s(2) by (auto simp: open_at_def)
    obtain q2 v where v: "f u = Some (q2, v)" using kf ou unfolding keeping_def by blast
    have q2 using appendsD(2) [OF body ou v e(1)] c b1 kp e(3) by simp
    with v have v': "f u = Some (True, v)" by simp
    from closed [OF s u v'] e(1) obtain b2 where b2: "base v = Some b2" "children v = children s @ [?c b]"
      "cbb_ok v" "cbb_buf b2 = cbb_buf b @ replicate (unat k) 0 @ xs"
      "cbb_error b2 = cbb_error b" "can_resize b2 = can_resize b" by auto
    have bb2: "buffer_ok b2" using b2 by (simp add: cbb_ok_def)
    have "child_end (?c b) \<le> length (cbb_buf b2)" using b2(4) bb by (simp add: unat_buf_len)
    then obtain q3 b' where cl: "close_child mem (?c b) b2 = Some (q3, b')"
      using close_child_cases [OF bb2, of "?c b" mem] a by auto
    have q3 using exact [OF bb bb2 b2(4) cl] e c b2(6) by auto
    then have "CBB_flush mem d v = Some (True, v\<lparr>base := Some b', children := children s\<rparr>)"
      using fl [OF s(2) b2(3,1,2)] cl b2(5) c(3) by simp
    then show r using r u v' by simp
  qed
qed


section \<open>The client\<close>

lemma appends_tag:
  "appends mem d (let tag_bits = ucast (drop_bit CBS_ASN1_TAG_SHIFT tag) AND 0xE0; tag_number = tag AND CBS_ASN1_TAG_NUMBER_MASK in
     if tag_number \<ge> 0x1F
     then and_then (CBB_add_u8 mem (tag_bits OR 0x1F) d) (add_base128_integer mem (ucast tag_number) d)
     else CBB_add_u8 mem (tag_bits OR ucast tag_number) d) (Some (der_tag tag))"
  (is "appends mem d ?f _")
proof -
  have two: "appends mem d (and_then (CBB_add_u8 mem v d) (add_base128_integer mem w d)) (Some (v # base128_bytes w))" for v w
    unfolding add_base128_integer_def
    using appends_and_then [OF appends_u8 appends_u8s keeping_u8, of mem d v] by (simp add: cat_def)
  show ?thesis
    using two appends_u8 by (simp add: der_tag_def Let_def CBS_ASN1_TAG_SHIFT_def)
qed

lemma keeping_tag:
  "keeping (open_at d) (let tag_bits = ucast (drop_bit CBS_ASN1_TAG_SHIFT tag) AND 0xE0; tag_number = tag AND CBS_ASN1_TAG_NUMBER_MASK in
     if tag_number \<ge> 0x1F
     then and_then (CBB_add_u8 mem (tag_bits OR 0x1F) d) (add_base128_integer mem (ucast tag_number) d)
     else CBB_add_u8 mem (tag_bits OR ucast tag_number) d) (open_at d)"
  unfolding Let_def add_base128_integer_def
  by (intro keeping_if keeping_and_then [OF keeping_u8] keeping_all_steps keeping_u8)

lemma appends_prefixed:
  assumes "appends mem (d + 1) f e" "keeping (open_at (d + 1)) f (open_at (d + 1))" "k \<noteq> 0"
  shows "appends mem d (and_then (cbb_add_length_prefixed mem k d) (and_then f (CBB_flush mem d))) (prefixed k False e)"
  unfolding cbb_add_length_prefixed_def and_then_assoc [of "CBB_flush mem d"]
proof (rule appends_flush_then, rule appends_child [OF assms(1,2) _ assms(3)])
  fix b r b' assume b: "buffer_ok b" "cbb_buffer_add mem (replicate (unat k) 0) b = (r, b')"
  have l: "length (replicate (unat k) (0 :: u8)) < 2 ^ 64" by (simp add: order_less_trans [OF unat_u8_less])
  from add_cases [OF b(1) l b(2)] add_exact [OF b(1) l b(2)]
  show "buffer_ok b' \<and> length (cbb_buf b) \<le> length (cbb_buf b') \<and>
      (r \<longrightarrow> cbb_buf b' = cbb_buf b @ replicate (unat k) 0 \<and> cbb_error b' = cbb_error b \<and> can_resize b' = can_resize b) \<and>
      (can_resize b \<and> \<not> cbb_error b \<and> (\<forall>n. mem n) \<and> length (cbb_buf b) + unat k < 2 ^ 64 \<longrightarrow> r)"
    by (cases r) auto
qed simp

lemma appends_asn1:
  assumes "appends mem (d + 1) f e" "keeping (open_at (d + 1)) f (open_at (d + 1))"
  shows "appends mem d (and_then (CBB_add_asn1 mem tag d) (and_then f (CBB_flush mem d)))
    (cat (Some (der_tag tag)) (prefixed 1 True e))"
proof -
  have "appends mem d (and_then (with_len (\<lambda>off. and_then (on_base (add_u8_base mem 0))
      (add_child d \<lparr>offset = off, pending_len_len = 1, pending_is_asn1 = True\<rparr>))) (and_then f (CBB_flush mem d)))
    (prefixed 1 True e)"
  proof (rule appends_child [OF assms])
    fix b r b' assume b: "buffer_ok b" "add_u8_base mem 0 b = (r, b')"
    show "buffer_ok b' \<and> length (cbb_buf b) \<le> length (cbb_buf b') \<and>
      (r \<longrightarrow> cbb_buf b' = cbb_buf b @ replicate (unat (1 :: u8)) 0 \<and> cbb_error b' = cbb_error b \<and> can_resize b' = can_resize b) \<and>
      (can_resize b \<and> \<not> cbb_error b \<and> (\<forall>n. mem n) \<and> length (cbb_buf b) + unat (1 :: u8) < 2 ^ 64 \<longrightarrow> r)"
    proof (cases "cbb_error b")
      case True
      then show ?thesis using b by (auto simp: add_u8_base_def)
    next
      case False
      then have u: "cbb_buffer_add_u mem 0 1 b = (r, b')" using b by (simp add: add_u8_base_def)
      from add_u_cases [OF b(1) _ u] add_u_exact [OF b(1) _ u] show ?thesis by auto
    qed
  qed simp_all
  then have child: "appends mem d (and_then (with_len (\<lambda>off. and_then (CBB_add_u8 mem 0 d)
      (add_child d \<lparr>offset = off, pending_len_len = 1, pending_is_asn1 = True\<rparr>))) (and_then f (CBB_flush mem d)))
    (prefixed 1 True e)"
  proof (rule appends_cong)
    fix s assume "open_at d s"
    then show "and_then (with_len (\<lambda>off. and_then (CBB_add_u8 mem 0 d)
      (add_child d \<lparr>offset = off, pending_len_len = 1, pending_is_asn1 = True\<rparr>))) (and_then f (CBB_flush mem d)) s =
      and_then (with_len (\<lambda>off. and_then (on_base (add_u8_base mem 0))
      (add_child d \<lparr>offset = off, pending_len_len = 1, pending_is_asn1 = True\<rparr>))) (and_then f (CBB_flush mem d)) s"
      using add_u8_open [of d s mem 0] by (auto simp: with_len_def and_then_def split: option.splits)
  qed
  show ?thesis
    unfolding CBB_add_asn1_def Let_def and_then_assoc
    by (rule appends_flush_then) (rule appends_and_then [OF appends_tag [unfolded Let_def] child keeping_tag [unfolded Let_def]])
qed

lemma keeping_child_body:
  "keeping (open_at (d + 1)) f (open_at (d + 1)) \<Longrightarrow> keeping (\<lambda>s. True) h (open_at (d + 1)) \<Longrightarrow>
   keeping (open_at d) (and_then h (and_then f (CBB_flush mem d))) (open_at d)"
  by (rule keeping_mono [where P = "\<lambda>s. True" and Q = "open_at d"])
    (intro keeping_and_then [of _ h "open_at (d + 1)"] keeping_and_then [OF _ keeping_flush], simp_all)

lemma build_appends:
  "item_ok i \<Longrightarrow> appends mem d (build mem d i) (encode i) \<and> keeping (open_at d) (build mem d i) (open_at d)"
  "(\<forall>i \<in> set is. item_ok i) \<Longrightarrow> appends mem d (build_all mem d is) (encode_all is) \<and>
     keeping (open_at d) (build_all mem d is) (open_at d)"
proof (induction i and "is" arbitrary: d and d rule: encode_encode_all.induct)
  case (1 bs)
  then show ?case using appends_bytes keeping_mono [OF keeping_bytes] by fastforce
next
  case (2 k "is")
  then have "appends mem (d + 1) (build_all mem (d + 1) is) (encode_all is)"
    "keeping (open_at (d + 1)) (build_all mem (d + 1) is) (open_at (d + 1))" "k \<noteq> 0" by simp_all
  then show ?case
    by (simp only: build.simps encode.simps) (blast intro: appends_prefixed keeping_child_body keeping_prefixed)
next
  case (3 tag "is")
  then have "appends mem (d + 1) (build_all mem (d + 1) is) (encode_all is)"
    "keeping (open_at (d + 1)) (build_all mem (d + 1) is) (open_at (d + 1))" by simp_all
  then show ?case
    by (simp only: build.simps encode.simps) (blast intro: appends_asn1 keeping_child_body keeping_add_asn1)
next
  case 4
  then show ?case by (simp add: appends_ret) (simp add: keeping_def ret_def)
next
  case (5 i "is")
  then have "appends mem d (build mem d i) (encode i)" "keeping (open_at d) (build mem d i) (open_at d)"
    "appends mem d (build_all mem d is) (encode_all is)" "keeping (open_at d) (build_all mem d is) (open_at d)"
    by simp_all
  then show ?case
    by (simp only: build_all.simps encode_all.simps) (blast intro: appends_and_then keeping_and_then)
qed

text \<open>Creating a chain, writing with a client, taking the bytes; \<open>Some None\<close> is a failure.\<close>

definition produced :: "mem \<Rightarrow> u64 \<Rightarrow> cbb step \<Rightarrow> u8 list option option" where
  "produced mem cap client = do {
     (ok, s) \<leftarrow> CBB_init mem cap;
     if \<not> ok then Some None
     else do {
       (ok, s) \<leftarrow> client s;
       if \<not> ok then Some None
       else do {
         (out, s) \<leftarrow> CBB_finish mem False 0 s;
         Some out } } }"

definition serialize :: "mem \<Rightarrow> u64 \<Rightarrow> item \<Rightarrow> u8 list option option" where
  "serialize mem cap i = produced mem cap (build mem 0 i)"

lemma produced_appends:
  assumes ap: "appends mem 0 client e" and keep: "keeping (open_at 0) client (open_at 0)"
  shows "\<exists>res. produced mem cap client = Some res \<and> (\<forall>bs. res = Some bs \<longrightarrow> e = Some bs) \<and>
    ((\<forall>n. mem n) \<and> (\<forall>bs. e = Some bs \<longrightarrow> length bs < 2 ^ 64) \<longrightarrow> res = e)"
proof -
  obtain ok s where init: "CBB_init mem cap = Some (ok, s)"
    by (cases "cap > 0 \<and> \<not> mem cap"; cases "mem 32") (auto simp: CBB_init_def cbb_init_def)
  then have s: "ok \<longrightarrow> s = \<lparr>base = Some \<lparr>cbb_buf = [], cbb_cap = cap, can_resize = True, cbb_error = False\<rparr>, children = []\<rparr>"
    and mem: "(\<forall>n. mem n) \<longrightarrow> ok"
    by (auto simp: CBB_init_def cbb_init_def CBB_zero_def split: if_splits)
  show ?thesis
  proof (cases ok)
    case False
    then show ?thesis using init mem by (auto simp: produced_def)
  next
    case True
    define b where "b = \<lparr>cbb_buf = [], cbb_cap = cap, can_resize = True, cbb_error = False\<rparr>"
    have s': "cbb_ok s" "open_at 0 s" "base s = Some b"
      using s True by (simp_all add: cbb_ok_def open_at_def buffer_ok_def b_def)
      obtain r t where t: "client s = Some (r, t)"
      using keep s'(1,2) unfolding keeping_def by blast
    show ?thesis
    proof (cases r)
      case False
      then have "produced mem cap client = Some None" using init True t by (simp add: produced_def)
      moreover have "\<not> ((\<forall>n. mem n) \<and> (\<exists>bs. e = Some bs \<and> length bs < 2 ^ 64))"
        using appendsD(2) [OF ap s' t] False by (auto simp: b_def)
      ultimately show ?thesis by (cases "e") auto
    next
      case r: True
      from appendsD(1) [OF ap s' t r] obtain bs b' where e: "e = Some bs"
        "t = s\<lparr>base := Some b'\<rparr>" "cbb_buf b' = bs" "cbb_error b' = False" "can_resize b'" by (auto simp: b_def)
      have "CBB_finish mem False 0 t = Some (Some bs, t\<lparr>base := None\<rparr>)"
        using e s True by (simp add: CBB_finish_def CBB_flush_def CBB_cleanup_def)
      then show ?thesis using init True t r e(1) by (simp add: produced_def)
    qed
  qed
qed

text \<open>
  C17. The writer refines the recursive encoding: writing a nested structure through the interface
  is always defined, what it hands out is the encoding of the structure, and if no
  allocation fails and the encoding fits the address space it hands it out, so that it then
  fails exactly for a structure with a length that does not fit its prefix.
\<close>

theorem cbb_refines_encoding:
  assumes "item_ok i"
  shows "\<exists>res. serialize mem cap i = Some res \<and> (\<forall>bs. res = Some bs \<longrightarrow> encode i = Some bs) \<and>
    ((\<forall>n. mem n) \<and> (\<forall>bs. encode i = Some bs \<longrightarrow> length bs < 2 ^ 64) \<longrightarrow> res = encode i)"
  unfolding serialize_def using build_appends(1) [OF assms, of mem 0] by (intro produced_appends) simp_all

theorem cbb_refines_encoding_witness:
  "serialize (\<lambda>n. True) 0 (Element 0x20000010 [Raw [7], Prefixed 2 [Raw [8, 9]]]) =
     Some (Some [0x30, 5, 7, 0, 2, 8, 9])"
proof -
  have t: "der_tag 0x20000010 = [0x30]"
    by (simp add: der_tag_def Let_def CBS_ASN1_TAG_NUMBER_MASK_def CBS_ASN1_TAG_SHIFT_def)
  have p: "child_prefix 2 False (Suc (Suc 0)) = Some [0, 2]"
  proof -
    have u: "unat (2 :: u8) = Suc (Suc 0)" by simp
    show ?thesis unfolding child_prefix_def u by simp
  qed
  have q: "child_prefix 1 True (Suc (Suc (Suc (Suc (Suc 0))))) = Some [5]"
    by (simp add: child_prefix_def der_len_def)
  have e: "encode (Element 0x20000010 [Raw [7], Prefixed 2 [Raw [8, 9]]]) = Some [0x30, 5, 7, 0, 2, 8, 9]"
    using p q by (simp add: cat_def prefixed_def t)
  have "item_ok (Element 0x20000010 [Raw [7], Prefixed 2 [Raw [8, 9]]])" by simp
  from cbb_refines_encoding [OF this, of "\<lambda>n. True" 0] show ?thesis unfolding e by auto
qed

end
