(* ===== verification/Asn1_Spec.thy ===== *)
theory Asn1_Spec
  imports Cbb_Spec
begin

text \<open>
  DER elements: the reader of \<open>cbs.c\<close> accepts exactly the elements that the writer of \<open>cbb.c\<close>
  produces, with their one canonical header, and reads back the integers it wrote.
\<close>

section \<open>Readers on a known prefix\<close>

lemma cbs_get_append: "length xs = unat n \<Longrightarrow> cbs_get n (xs @ r) = (Some xs, r)"
  by (simp add: cbs_get_def)

lemma cbs_get_SomeD: "cbs_get n s = (Some xs, r) \<Longrightarrow> s = xs @ r \<and> length xs = unat n"
  by (auto simp: cbs_get_def split: if_splits)

lemma get_u8_Cons [simp]: "CBS_get_u8 (b # r) = (Some b, r)"
  by (simp add: CBS_get_u8_def cbs_defs cbs_get_def)

lemma get_u8_Nil [simp]: "CBS_get_u8 [] = (None, [])"
  by (simp add: CBS_get_u8_def cbs_defs cbs_get_def)

lemma get_bytes_append: "length xs = unat n \<Longrightarrow> CBS_get_bytes n (xs @ r) = (Some xs, r)"
  by (simp add: CBS_get_bytes_def cbs_defs cbs_get_append CBS_init_def)

lemma get_bytes_SomeD: "CBS_get_bytes n s = (Some xs, r) \<Longrightarrow> s = xs @ r \<and> length xs = unat n"
  by (auto simp: CBS_get_bytes_def cbs_defs CBS_init_def split: prod.splits option.splits dest!: cbs_get_SomeD)

text \<open>The big-endian fold of \<open>cbs_get_u\<close>.\<close>

lemma fold_be:
  "length xs \<le> 8 \<Longrightarrow> foldl (\<lambda>w d. push_bit 8 w OR ucast d) (0 :: u64) xs = word_of_nat (be_nat xs) \<and>
     be_nat xs < 256 ^ length xs"
proof (induction xs rule: rev_induct)
  case (snoc d xs)
  let ?w = "word_of_nat (be_nat xs) :: u64"
  have b: "be_nat xs < 256 ^ length xs" by (rule be_nat_bound)
  have "(256 :: nat) ^ length xs \<le> 256 ^ 7" using snoc.prems by (intro power_increasing) simp_all
  then have b7: "be_nat xs < 256 ^ 7" using b by linarith
  then have u: "unat ?w = be_nat xs" by (intro unat_of_nat_u64) simp
  have "unat (push_bit 8 ?w OR ucast d) = 256 * be_nat xs + unat d"
    using b7 u by (subst unat_push_bit_or) simp_all
  then have "push_bit 8 ?w OR ucast d = word_of_nat (256 * be_nat xs + unat d)"
    by (metis of_nat_unat_u64)
  then show ?case using snoc be_nat_bound [of "xs @ [d]"] by (simp add: mult.commute)
qed simp

lemma get_u_append:
  "length xs = unat n \<Longrightarrow> unat n \<le> 8 \<Longrightarrow> cbs_get_u n (xs @ r) = (Some (word_of_nat (be_nat xs)), r)"
  using fold_be [of xs] by (simp add: cbs_get_u_def cbs_defs cbs_get_append)

lemma get_u_SomeD:
  "cbs_get_u n s = (Some v, r) \<Longrightarrow> unat n \<le> 8 \<Longrightarrow>
   \<exists>xs. s = xs @ r \<and> length xs = unat n \<and> v = word_of_nat (be_nat xs)"
  using fold_be by (auto simp: cbs_get_u_def cbs_defs split: prod.splits option.splits dest!: cbs_get_SomeD)

section \<open>Base-128 integers\<close>

definition b128_byte :: "u64 \<Rightarrow> nat \<Rightarrow> u8" where
  "b128_byte v i = (let byte = ucast (drop_bit (7 * i) v) AND 0x7F in if i \<noteq> 0 then byte OR 0x80 else byte)"

lemma base128_len_bounds:
  "v = 0 \<Longrightarrow> base128_len v = 0"
  "v \<noteq> 0 \<Longrightarrow> base128_len v = Suc k \<Longrightarrow> drop_bit (7 * k) v \<noteq> 0 \<and> drop_bit (7 * Suc k) v = 0"
  "v \<noteq> 0 \<Longrightarrow> base128_len v \<noteq> 0"
proof -
  show "v = 0 \<Longrightarrow> base128_len v = 0" by (subst base128_len.simps) simp
  show "v \<noteq> 0 \<Longrightarrow> base128_len v \<noteq> 0" by (subst base128_len.simps) (simp add: word_gt_0)
  show "v \<noteq> 0 \<Longrightarrow> base128_len v = Suc k \<Longrightarrow> drop_bit (7 * k) v \<noteq> 0 \<and> drop_bit (7 * Suc k) v = 0"
  proof (induction v arbitrary: k rule: base128_len.induct)
    case (1 v)
    then have l: "base128_len (drop_bit 7 v) = k" by (subst (asm) (2) base128_len.simps) (simp add: word_gt_0)
    show ?case
    proof (cases "drop_bit 7 v = 0")
      case True
      then have "k = 0" using l by (subst (asm) base128_len.simps) simp
      then show ?thesis using True 1(2) by simp
    next
      case False
      then obtain j where j: "k = Suc j" using l by (subst (asm) base128_len.simps) (auto simp: word_gt_0)
      have "drop_bit (7 * j) (drop_bit 7 v) \<noteq> 0 \<and> drop_bit (7 * Suc j) (drop_bit 7 v) = 0"
        using 1(1) 1(2) False l j by (simp add: word_gt_0)
      then show ?thesis by (simp add: j add.commute)
    qed
  qed
qed

lemma base128_len_unique:
  assumes "drop_bit (7 * k) v \<noteq> 0" "drop_bit (7 * Suc k) v = 0"
  shows "base128_len v = Suc k"
proof -
  have v: "v \<noteq> 0" using assms(1) by auto
  then obtain j where j: "base128_len v = Suc j" using base128_len_bounds(3) not0_implies_Suc by blast
  note b = base128_len_bounds(2) [OF v j]
  have mono: "drop_bit m v = 0" if "drop_bit n v = 0" "n \<le> m" for n m
    using that by (metis drop_bit_of_0 drop_bit_drop_bit le_add_diff_inverse2)
  have "\<not> 7 * Suc k \<le> 7 * j" using mono [OF assms(2)] b by blast
  moreover have "\<not> 7 * Suc j \<le> 7 * k" using mono [of "7 * Suc j" "7 * k"] b assms(1) by blast
  ultimately show ?thesis using j by simp
qed

lemma b128_step:
  "push_bit 7 (drop_bit (7 * Suc i) v) OR ucast (b128_byte v i AND 0x7F) = drop_bit (7 * i) (v :: u64)"
proof (rule bit_word_eqI)
  fix n assume n: "n < LENGTH(64)"
  show "bit (push_bit 7 (drop_bit (7 * Suc i) v) OR ucast (b128_byte v i AND 0x7F)) n = bit (drop_bit (7 * i) v) n"
    using n by (cases "n < 7")
      (auto simp: b128_byte_def Let_def bit_simps bit_7F_word bit_80_word add.assoc)
qed

lemma b128_top: "b128_byte v i AND 0x80 \<noteq> 0 \<longleftrightarrow> i \<noteq> 0"
proof -
  have "(w AND 0x7F) AND 0x80 = 0" for w :: u8 by (simp add: and.assoc)
  moreover have "((w AND 0x7F) OR 0x80) AND 0x80 = (0x80 :: u8)" for w :: u8
    by (simp add: bit.conj_disj_distrib2 and.assoc)
  ultimately show ?thesis by (simp add: b128_byte_def Let_def)
qed

lemma b128_low: "b128_byte v i AND 0x7F = ucast (drop_bit (7 * i) v) AND 0x7F"
proof -
  have "((w AND 0x7F) OR 0x80) AND 0x7F = w AND (0x7F :: u8)" for w :: u8
    by (simp add: bit.conj_disj_distrib2 and.assoc)
  then show ?thesis by (simp add: b128_byte_def Let_def and.assoc)
qed

text \<open>The leading byte is 80 only if its digit is zero.\<close>

lemma b128_lead:
  assumes "b128_byte v i = 0x80" "drop_bit (7 * Suc i) v = 0"
  shows "i \<noteq> 0 \<and> drop_bit (7 * i) v = 0"
proof
  show "i \<noteq> 0" using b128_top [of v i] assms(1) by auto
  have "b128_byte v i AND 0x7F = 0" by (simp add: assms(1))
  then show "drop_bit (7 * i) v = 0" using b128_step [of i v] assms(2) by simp
qed

lemma base128_bytes_digits:
  "base128_bytes v = map (b128_byte v) (rev [0..<(if base128_len v = 0 then 1 else base128_len v)])"
  by (simp add: base128_bytes_def b128_byte_def Let_def)

lemma base128_loop_step:
  assumes "drop_bit 57 v = 0" "\<not> (v = 0 \<and> b = 0x80)"
  shows "base128_loop v (b # s) = (if b AND 0x80 \<noteq> 0 then base128_loop (push_bit 7 v OR ucast (b AND 0x7F)) s
    else (Some (push_bit 7 v OR ucast (b AND 0x7F)), s))"
proof -
  have c: "(drop_bit 57 v \<noteq> 0) = False" "(v = 0 \<and> b = 0x80) = False" using assms by simp_all
  show ?thesis unfolding base128_loop.simps Let_def c if_False ..
qed

declare base128_loop.simps(2) [simp del]

lemma base128_loop_digits:
  assumes "1 \<le> k" and "drop_bit (7 * k) v = 0 \<Longrightarrow> k = 1 \<or> drop_bit (7 * (k - 1)) v \<noteq> 0"
  shows "base128_loop (drop_bit (7 * k) v) (map (b128_byte v) (rev [0..<k]) @ r) = (Some v, r)"
  using assms
proof (induction k)
  case (Suc k)
  have ov: "drop_bit 57 (drop_bit (7 * Suc k) v) = 0"
  proof (rule bit_word_eqI)
    fix n show "bit (drop_bit 57 (drop_bit (7 * Suc k) v)) n = bit (0 :: u64) n"
      by (auto simp: bit_simps dest: bit_imp_le_length)
  qed
  have min: "\<not> (drop_bit (7 * Suc k) v = 0 \<and> b128_byte v k = 0x80)"
    using b128_lead [of v k] Suc.prems(2) by auto
  have rv: "rev [0..<Suc k] = k # rev [0..<k]" by simp
  show ?case
  proof (cases "k = 0")
    case True
    have top: "b128_byte v 0 AND 0x80 = 0" using b128_top [of v 0] by simp
    show ?thesis
      using base128_loop_step [OF ov min] top
      unfolding b128_step unfolding True rv list.map append_Cons by simp
  next
    case False
    have nz: "drop_bit (7 * k) v \<noteq> 0 \<or> (drop_bit (7 * Suc k) v \<noteq> 0)" using Suc.prems(2) False by auto
    have nz2: "drop_bit (7 * k) v \<noteq> 0"
    proof
      assume z: "drop_bit (7 * k) v = 0"
      then have "drop_bit (7 * Suc k) v = 0"
        by (metis drop_bit_drop_bit drop_bit_of_0 mult_Suc_right)
      then show False using nz z by simp
    qed
    have "base128_loop (drop_bit (7 * k) v) (map (b128_byte v) (rev [0..<k]) @ r) = (Some v, r)"
      using False nz2 by (intro Suc.IH) auto
    moreover have "b128_byte v k AND 0x80 \<noteq> 0" using b128_top False by simp
    ultimately show ?thesis
      using base128_loop_step [OF ov min]
      unfolding b128_step unfolding rv list.map append_Cons by simp
  qed
qed simp

lemma parse_base128: "parse_base128_integer (base128_bytes v @ r) = (Some v, r)"
proof (cases "v = 0")
  case True
  then show ?thesis
    using base128_loop_digits [of 1 0 r] by (simp add: parse_base128_integer_def base128_bytes_digits base128_len_bounds(1))
next
  case False
  then obtain k where k: "base128_len v = Suc k" using base128_len_bounds(3) not0_implies_Suc by blast
  note b = base128_len_bounds(2) [OF False k]
  have "base128_loop (drop_bit (7 * Suc k) v) (map (b128_byte v) (rev [0..<Suc k]) @ r) = (Some v, r)"
    using b by (intro base128_loop_digits) auto
  then show ?thesis using b by (simp add: parse_base128_integer_def base128_bytes_digits k)
qed

text \<open>And back: what the loop accepts are the digits of its result.\<close>

lemma byte_split:
  fixes b :: u8
  shows "b AND 0x80 \<noteq> 0 \<Longrightarrow> (b AND 0x7F) OR 0x80 = b" and "b AND 0x80 = 0 \<Longrightarrow> b AND 0x7F = b"
proof -
  have n: "n < 8 \<longleftrightarrow> n < 7 \<or> n = 7" for n :: nat by auto
  have t: "b AND 0x80 \<noteq> 0 \<longleftrightarrow> bit b 7"
  proof
    assume "b AND 0x80 \<noteq> 0"
    then obtain n where "bit (b AND 0x80) n" by (metis bit_0_eq bit_eqI bot_apply bot_bool_def)
    then show "bit b 7" by (auto simp add: bit_and_iff)
  next
    assume "bit b 7"
    then have "bit (b AND 0x80) 7" by (simp add: bit_and_iff)
    then show "b AND 0x80 \<noteq> 0" by (metis bit_0_eq bot_apply bot_bool_def)
  qed
  show "b AND 0x80 \<noteq> 0 \<Longrightarrow> (b AND 0x7F) OR 0x80 = b"
    unfolding t by (rule bit_word_eqI) (auto simp: bit_or_iff bit_and_iff bit_7F_word bit_80_word n)
  show "b AND 0x80 = 0 \<Longrightarrow> b AND 0x7F = b"
    using t by (intro bit_word_eqI) (auto simp: bit_and_iff bit_7F_word n)
qed

lemma base128_loop_SomeD:
  "base128_loop v s = (Some w, r) \<Longrightarrow> \<exists>k \<ge> 1. s = map (b128_byte w) (rev [0..<k]) @ r \<and>
     drop_bit (7 * k) w = v \<and> (v = 0 \<longrightarrow> k = 1 \<or> drop_bit (7 * (k - 1)) w \<noteq> 0)"
proof (induction v s rule: base128_loop.induct)
  case (2 v b s)
  let ?v = "push_bit 7 v OR ucast (b AND 0x7F)"
  have g: "drop_bit 57 v = 0" "\<not> (v = 0 \<and> b = 0x80)"
    using 2(2) by (cases "drop_bit 57 v = 0"; cases "v = 0 \<and> b = 0x80"; simp add: base128_loop.simps)+
  have low: "unat (ucast (b AND 0x7F) :: u64) < 128"
  proof -
    have "(b AND 0x7F) = take_bit 7 b" by (simp add: take_bit_eq_mask mask_eq_exp_minus_1)
    then have "unat (b AND 0x7F) = take_bit 7 (unat b)" by (simp only: unsigned_take_bit_eq)
    then show ?thesis using take_bit_nat_less_exp [of 7 "unat b"] by simp
  qed
  have "unat v div 2 ^ 57 = 0" using g(1) unat_drop_bit_div [of 57 v] by simp
  then have "unat v < 2 ^ 57" by (simp add: div_eq_0_iff)
  then have "unat ?v = unat v * 2 ^ 7 + unat (ucast (b AND 0x7F) :: u64)"
    using low by (intro unat_push_bit_or) simp_all
  then have uv: "unat ?v div 2 ^ 7 = unat v" "unat ?v mod 2 ^ 7 = unat (ucast (b AND 0x7F) :: u64)"
    using low by simp_all
  have v: "drop_bit 7 ?v = v" using uv(1) by (metis unat_drop_bit_div of_nat_unat_u64)
  show ?case
  proof (cases "b AND 0x80 \<noteq> 0")
    case True
    then have "base128_loop ?v s = (Some w, r)" using 2(2) base128_loop_step [OF g] by simp
    from 2(1) [OF _ g(2) refl True this] g obtain k where k: "k \<ge> 1" "s = map (b128_byte w) (rev [0..<k]) @ r"
      "drop_bit (7 * k) w = ?v" "?v = 0 \<longrightarrow> k = 1 \<or> drop_bit (7 * (k - 1)) w \<noteq> 0" by auto
    have low_v: "ucast ?v AND 0x7F = b AND 0x7F"
      by (rule bit_word_eqI) (auto simp: bit_and_iff bit_or_iff bit_ucast_iff bit_push_bit_iff bit_7F_word)
    have bk: "b128_byte w k = b"
      using k(1,3) byte_split(1) [OF True] by (simp add: b128_byte_def Let_def low_v)
    have "drop_bit (7 * Suc k) w = v"
      using v by (metis drop_bit_drop_bit k(3) mult_Suc_right)
    moreover have "drop_bit (7 * k) w \<noteq> 0" if "v = 0"
    proof
      assume "drop_bit (7 * k) w = 0"
      then have "unat (ucast (b AND 0x7F) :: u64) = 0" using k(3) uv(2) by simp
      then have "b AND 0x7F = 0" by (simp add: unat_eq_0)
      then have "b = 0x80" using byte_split(1) [OF True] by simp
      with g(2) that show False by simp
    qed
    ultimately show ?thesis using k(2) bk by (intro exI [of _ "Suc k"]) (simp del: mult_Suc_right)
  next
    case False
    then have w: "w = ?v" "r = s" using 2(2) base128_loop_step [OF g] by simp_all
    have "ucast ?v AND 0x7F = b AND 0x7F"
      by (rule bit_word_eqI) (auto simp: bit_and_iff bit_or_iff bit_ucast_iff bit_push_bit_iff bit_7F_word)
    then have "b128_byte w 0 = b" using byte_split(2) False by (simp add: b128_byte_def w)
    then show ?thesis using w v by (intro exI [of _ 1]) simp
  qed
qed simp

lemma parse_base128_SomeD:
  assumes "parse_base128_integer s = (Some w, r)"
  shows "s = base128_bytes w @ r"
proof -
  obtain k where k: "1 \<le> k" "s = map (b128_byte w) (rev [0..<k]) @ r" "drop_bit (7 * k) w = 0"
    "k = 1 \<or> drop_bit (7 * (k - 1)) w \<noteq> 0"
    using base128_loop_SomeD assms unfolding parse_base128_integer_def by blast
  then obtain j where j: "k = Suc j" by (cases k) auto
  show ?thesis
  proof (cases "w = 0")
    case True
    then have "k = 1" using k(4) by auto
    then show ?thesis using True k(2) by (simp add: base128_bytes_digits base128_len_bounds(1))
  next
    case False
    then have "drop_bit (7 * j) w \<noteq> 0" using k(4) j by auto
    from base128_len_unique [OF this] k(3) j have "base128_len w = k" by simp
    then show ?thesis using k(2) j by (simp add: base128_bytes_digits)
  qed
qed

section \<open>Tags\<close>

lemma tag_mask: "CBS_ASN1_TAG_NUMBER_MASK = 0x1FFFFFFF"
  by (simp add: CBS_ASN1_TAG_NUMBER_MASK_def CBS_ASN1_TAG_SHIFT_def)

lemma tag_join:
  assumes "x AND 0xE0 = 0"
  shows "push_bit 24 (ucast ((ucast (drop_bit 24 tag) AND 0xE0) OR x :: u8) AND 0xE0) OR (tag AND 0x1FFFFFFF) = (tag :: u32)"
proof -
  have "((ucast (drop_bit 24 tag) AND 0xE0) OR x) AND 0xE0 = ucast (drop_bit 24 tag) AND (0xE0 :: u8)"
    using assms by (simp add: bit.conj_disj_distrib2 and.assoc)
  moreover have "ucast b AND 0xE0 = (ucast (b AND 0xE0) :: u32)" for b :: u8
    by (rule bit_word_eqI) (auto simp: bit_simps)
  ultimately have "push_bit 24 (ucast ((ucast (drop_bit 24 tag) AND 0xE0) OR x :: u8) AND 0xE0) =
      push_bit 24 (ucast (ucast (drop_bit 24 tag) AND (0xE0 :: u8)) :: u32)" by simp
  also have "\<dots> OR (tag AND 0x1FFFFFFF) = tag"
    by (rule bit_word_eqI) (auto simp: bit_simps not_less not_le)
  finally show ?thesis .
qed

lemma tag_split:
  fixes b :: u8 and n :: u32
  assumes "n \<le> 0x1FFFFFFF"
  defines "t \<equiv> push_bit 24 (ucast b AND 0xE0) OR n"
  shows "ucast (drop_bit 24 t) AND 0xE0 = b AND 0xE0" "t AND 0x1FFFFFFF = n"
proof -
  have "unat n < 2 ^ 29" using assms(1) by (simp add: word_le_nat_alt)
  then have "take_bit 29 n = n" by (simp add: word_unat_eq_iff unsigned_take_bit_eq take_bit_nat_eq_self)
  then have n: "bit n k \<Longrightarrow> k < 29" for k by (metis bit_take_bit_iff)
  show "ucast (drop_bit 24 t) AND 0xE0 = b AND 0xE0"
    unfolding t_def by (rule bit_word_eqI) (auto simp: bit_simps dest!: n)
  show "t AND 0x1FFFFFFF = n"
    unfolding t_def by (rule bit_word_eqI) (auto simp: bit_simps dest: n)
qed

lemma low_bits:
  fixes w :: u8
  shows "(v AND 0xE0 OR w AND 0x1F) AND 0x1F = w AND 0x1F" "(w AND 0x1F) AND 0xE0 = 0"
    "(w AND 0xE0) OR (w AND 0x1F) = w" "(0x1F :: u8) AND 0xE0 = 0" "(v AND 0xE0 OR 0x1F) AND 0x1F = (0x1F :: u8)"
proof -
  show "(v AND 0xE0 OR w AND 0x1F) AND 0x1F = w AND 0x1F" by (simp add: bit.conj_disj_distrib2 and.assoc)
  show "(w AND 0x1F) AND 0xE0 = 0" by (simp add: and.assoc)
  show "(0x1F :: u8) AND 0xE0 = 0" by simp
  show "(v AND 0xE0 OR 0x1F) AND 0x1F = (0x1F :: u8)" by (simp add: bit.conj_disj_distrib2 and.assoc)
  show "(w AND 0xE0) OR (w AND 0x1F) = w" by (rule bit_word_eqI) (auto simp: bit_simps)
qed

lemma small_number:
  assumes "n < (0x1F :: u32)"
  shows "(ucast n :: u8) AND 0x1F = ucast n" "ucast ((ucast n) :: u8) = n" "(ucast n :: u8) \<noteq> 0x1F" 
proof -
  have "unat n < 2 ^ 5" using assms by (simp add: word_less_nat_alt)
  then have "take_bit 5 n = n" by (simp add: word_unat_eq_iff unsigned_take_bit_eq take_bit_nat_eq_self)
  then have n: "bit n k \<Longrightarrow> k < 5" for k by (metis bit_take_bit_iff)
  show "(ucast n :: u8) AND 0x1F = ucast n" by (rule bit_word_eqI) (auto simp: bit_simps dest: n)
  show u: "ucast ((ucast n) :: u8) = n" by (rule bit_word_eqI) (auto simp: bit_simps dest: n)
  show "(ucast n :: u8) \<noteq> 0x1F"
  proof
    assume "(ucast n :: u8) = 0x1F"
    then have "n = ucast (0x1F :: u8)" using u by simp
    then show False using assms by simp
  qed
qed

lemma parse_tag: "parse_asn1_tag (der_tag tag @ r) = (Some tag, r)"
proof -
  let ?n = "tag AND 0x1FFFFFFF" let ?b = "ucast (drop_bit 24 tag) AND 0xE0 :: u8"
  have le: "unat ?n \<le> 0x1FFFFFFF" using word_and_le1 [of tag "0x1FFFFFFF"] by (simp add: word_le_nat_alt)
  show ?thesis
  proof (cases "?n \<ge> 0x1F")
    case True
    have "parse_asn1_tag (der_tag tag @ r) = (Some (push_bit 24 (ucast (?b OR 0x1F) AND 0xE0) OR ucast (ucast ?n :: u64)), r)"
      using True le low_bits(5)
      by (simp add: parse_asn1_tag_def der_tag_def tag_mask Let_def cbs_defs CBS_ASN1_TAG_SHIFT_def parse_base128
          word_le_nat_alt not_le word_less_nat_alt)
    moreover have "ucast (ucast ?n :: u64) = ?n" by (rule bit_word_eqI) (auto simp: bit_simps)
    ultimately show ?thesis using tag_join [of "0x1F" tag] by simp
  next
    case False
    then have lt: "?n < 0x1F" and ne: "?n \<noteq> 0x1F" by auto
    note s = small_number [OF lt]
    have a: "(?b OR ucast ?n) AND 0x1F = ucast ?n"
      using low_bits(1) [of _ "ucast ?n"] unfolding s(1) .
    have "parse_asn1_tag (der_tag tag @ r) = (Some (push_bit 24 (ucast (?b OR ucast ?n) AND 0xE0) OR ucast (ucast ?n :: u8)), r)"
      using False lt unfolding parse_asn1_tag_def der_tag_def tag_mask Let_def
      by (simp add: cbs_defs CBS_ASN1_TAG_SHIFT_def a s(2) ne)
    moreover have "ucast ?n AND (0xE0 :: u8) = 0" using low_bits(2) [of "ucast ?n"] unfolding s(1) .
    ultimately show ?thesis using tag_join s(2) by simp
  qed
qed

lemma parse_tag_SomeD:
  assumes "parse_asn1_tag s = (Some tag, r)"
  shows "s = der_tag tag @ r"
proof -
  obtain b s' where s: "s = b # s'" using assms by (cases s) (simp_all add: parse_asn1_tag_def cbs_defs)
  show ?thesis
  proof (cases "b AND 0x1F = 0x1F")
    case True
    obtain v where v: "parse_base128_integer s' = (Some v, r)" "\<not> v > 0x1FFFFFFF" "\<not> v < 0x1F"
      "tag = push_bit 24 (ucast b AND 0xE0) OR ucast v"
      using assms True unfolding s
      by (auto simp: parse_asn1_tag_def cbs_defs tag_mask CBS_ASN1_TAG_SHIFT_def split: prod.splits option.splits if_splits)
    have uv: "unat (ucast v :: u32) = unat v"
      using v(2) by (simp add: unsigned_ucast_eq take_bit_nat_eq_self word_less_nat_alt)
    then have vv: "ucast (ucast v :: u32) = v" by (simp add: word_unat_eq_iff)
    have "ucast v \<le> (0x1FFFFFFF :: u32)" using v(2) uv by (simp add: word_le_nat_alt not_less)
    note sp = tag_split [OF this, of b, folded v(4)]
    have "\<not> ucast v < (0x1F :: u32)" using v(3) uv by (simp add: word_less_nat_alt)
    then have "der_tag tag = ((b AND 0xE0) OR 0x1F) # base128_bytes v"
      by (simp add: der_tag_def tag_mask sp vv Let_def not_less)
    then show ?thesis using low_bits(3) [of b] True parse_base128_SomeD [OF v(1)] by (simp add: s)
  next
    case False
    have ne: "(ucast (b AND 0x1F) :: u32) \<noteq> 0x1F"
    proof
      assume "(ucast (b AND 0x1F) :: u32) = 0x1F"
      then have "unat (ucast (b AND 0x1F) :: u32) = unat (0x1F :: u32)" by (rule arg_cong)
      then have "unat (b AND 0x1F) = 31" by simp
      then show False using False by (simp add: word_unat_eq_iff)
    qed
    have t: "tag = push_bit 24 (ucast b AND 0xE0) OR ucast (b AND 0x1F)" "r = s'"
      using assms ne unfolding s by (simp_all add: parse_asn1_tag_def cbs_defs CBS_ASN1_TAG_SHIFT_def)
    have "unat (b AND 0x1F) \<le> 31" using word_and_le1 [of b "0x1F"] by (simp add: word_le_nat_alt)
    moreover have "unat (b AND 0x1F) \<noteq> 31" using False by (simp add: word_unat_eq_iff)
    ultimately have lt: "(ucast (b AND 0x1F) :: u32) < 0x1F" by (simp add: word_less_nat_alt)
    then have "(ucast (b AND 0x1F) :: u32) \<le> 0x1FFFFFFF" by (simp add: word_less_nat_alt word_le_nat_alt)
    note sp = tag_split [OF this, of b, folded t(1)]
    have "ucast (ucast (b AND 0x1F) :: u32) = b AND 0x1F" by (rule bit_word_eqI) (auto simp: bit_simps)
    then show ?thesis using lt low_bits(3) [of b] by (simp add: der_tag_def tag_mask sp s t(2) Let_def not_less [symmetric])
  qed
qed

section \<open>Length octets\<close>

definition read_len :: "u64 \<Rightarrow> u8 list \<Rightarrow> (u64 \<times> u64) option" where
  "read_len hl s = (case CBS_get_u8 s of (None, s) \<Rightarrow> None | (Some lb, s) \<Rightarrow>
     if lb AND 0x80 = 0 then Some (ucast lb + hl, hl)
     else let k = ucast (lb AND 0x7F) :: u64 in
       if k = 0 \<or> k > 4 then None
       else case cbs_get_u k s of (None, s) \<Rightarrow> None | (Some n, s) \<Rightarrow>
         if n < 128 then None
         else if drop_bit ((unat k - 1) * 8) n = 0 then None
         else if n + hl + k < n then None
         else Some (n + (hl + k), hl + k))"

lemma any_element_read_len:
  "cbs_get_any_asn1_element False s = (case parse_asn1_tag s of (None, h) \<Rightarrow> (None, s) | (Some tag, h) \<Rightarrow>
     case read_len (CBS_len s - CBS_len (drop 1 h)) h of None \<Rightarrow> (None, s)
     | Some (n, hl) \<Rightarrow> cbs_then (CBS_get_bytes n) (\<lambda>out. cbs_return (out, tag, hl)) s)"
proof (cases "parse_asn1_tag s")
  case (Pair a h)
  then show ?thesis
    by (cases a; cases h) (auto simp: cbs_get_any_asn1_element_def read_len_def Let_def split: prod.split option.split)
qed

lemma der_len_long:
  assumes "128 \<le> n" "n < 2 ^ 32"
  obtains k where "k \<in> {1, 2, 3, 4}" "der_len n = (0x80 OR word_of_nat k) # be_bytes k n"
    "256 ^ (k - 1) \<le> n" "n < 256 ^ k"
proof -
  consider "n < 256" | "256 \<le> n" "n < 65536" | "65536 \<le> n" "n < 16777216" | "16777216 \<le> n" by linarith
  then show ?thesis
    using assms that by cases (force simp: der_len_def)+
qed

lemma long_byte:
  assumes "k \<in> {1, 2, 3, 4 :: nat}"
  shows "(0x80 OR word_of_nat k :: u8) AND 0x80 \<noteq> 0" "ucast ((0x80 OR word_of_nat k :: u8) AND 0x7F) = (word_of_nat k :: u64)"
    "unat (word_of_nat k :: u64) = k"
  using assms by auto

lemma read_len_der_len:
  assumes n: "n < 2 ^ 32" and hl: "hl \<le> 20" "0 < hl"
  shows "read_len (word_of_nat hl) (der_len n @ r) =
    Some (word_of_nat (hl - 1 + length (der_len n) + n), word_of_nat (hl - 1 + length (der_len n)))"
proof (cases "n < 128")
  case True
  have "(word_of_nat n :: u8) AND 0x80 = 0"
  proof -
    have "take_bit 7 n = n" using True by (simp add: take_bit_nat_eq_self)
    then have "\<not> bit n 7" by (metis bit_take_bit_iff less_irrefl)
    then show ?thesis by (intro bit_word_eqI) (auto simp: bit_simps)
  qed
  moreover have "ucast (word_of_nat n :: u8) = (word_of_nat n :: u64)"
    using True by (simp add: word_unat_eq_iff unat_of_nat)
  ultimately show ?thesis using True hl by (simp add: read_len_def der_len_def)
next
  case False
  then obtain k where k: "k \<in> {1, 2, 3, 4}" "der_len n = (0x80 OR word_of_nat k) # be_bytes k n"
    "256 ^ (k - 1) \<le> n" "n < 256 ^ k" using der_len_long n by (metis not_less)
  note lb = long_byte [OF k(1)]
  have k4: "k \<le> 4" "0 < k" using k(1) by auto
  have un: "unat (word_of_nat n :: u64) = n" using n by (intro unat_of_nat_u64) simp
  have get: "cbs_get_u (word_of_nat k) (be_bytes k n @ r) = (Some (word_of_nat n), r)"
    using get_u_append [of "be_bytes k n" "word_of_nat k" r] k4 lb(3) k(4) by (simp add: be_nat_be_bytes)
  have d: "drop_bit ((k - 1) * 8) (word_of_nat n :: u64) \<noteq> 0"
    using drop_bit_zero_iff [of n "k - 1"] n k(3) by (simp add: mult.commute)
  have sum: "unat (word_of_nat n + (word_of_nat hl + word_of_nat k) :: u64) = n + hl + k"
    using n hl k4 unat_of_nat_u64 [of "n + hl + k"] by (simp add: ac_simps)
  have ov: "\<not> (word_of_nat n + word_of_nat hl + word_of_nat k :: u64) < word_of_nat n"
    using sum un by (simp add: word_less_nat_alt ac_simps)
  have ge: "\<not> (word_of_nat n :: u64) < 128" using un False by (simp add: word_less_nat_alt)
  have kz: "\<not> ((word_of_nat k :: u64) = 0 \<or> word_of_nat k > (4 :: u64))"
    using k4 lb(3) by (auto simp: word_less_nat_alt)
  have "read_len (word_of_nat hl) (der_len n @ r) =
      Some (word_of_nat n + (word_of_nat hl + word_of_nat k), word_of_nat hl + word_of_nat k)"
    unfolding k(2) append_Cons read_len_def get_u8_Cons prod.case option.case Let_def lb(2) if_not_P [OF lb(1)] if_not_P [OF kz]
      get lb(3) if_not_P [OF ge] if_not_P [OF d] if_not_P [OF ov] ..
  then show ?thesis using hl k(2) by (simp add: ac_simps)
qed

lemma read_len_SomeD:
  assumes "read_len (word_of_nat hl) s = Some (t, h)" "hl \<le> 20" "0 < hl"
  shows "\<exists>n r. n < 2 ^ 32 \<and> s = der_len n @ r"
proof -
  obtain lb s' where s: "s = lb # s'" using assms(1) by (cases s) (simp_all add: read_len_def)
  show ?thesis
  proof (cases "lb AND 0x80 = 0")
    case True
    then have "lb AND 0x7F = lb" by (rule byte_split(2))
    moreover have "unat (lb AND 0x7F) \<le> 127" using word_and_le1 [of lb "0x7F"] by (simp add: word_le_nat_alt)
    ultimately have "unat lb < 128" by simp
    then show ?thesis by (intro exI [of _ "unat lb"] exI [of _ s']) (simp add: s der_len_def)
  next
    case False
    let ?k = "ucast (lb AND 0x7F) :: u64"
    have no: "\<not> c" if "(if c then None else x) = Some y" for c and x :: "'b option" and y
      using that by (cases c) simp_all
    have k: "\<not> (?k = 0 \<or> ?k > 4)" using assms(1)
      unfolding s read_len_def get_u8_Cons prod.case option.case Let_def if_not_P [OF False] by (rule no)
    obtain v r where v: "cbs_get_u ?k s' = (Some v, r)" "\<not> v < 128" "drop_bit ((unat ?k - 1) * 8) v \<noteq> 0"
    proof -
      have r: "(case cbs_get_u ?k s' of (None, s) \<Rightarrow> None | (Some n, s) \<Rightarrow>
         if n < 128 then None
         else if drop_bit ((unat ?k - 1) * 8) n = 0 then None
         else if n + word_of_nat hl + ?k < n then None
         else Some (n + (word_of_nat hl + ?k), word_of_nat hl + ?k)) = Some (t, h)" (is "?c = _")
        using assms(1) unfolding s read_len_def get_u8_Cons prod.case option.case Let_def if_not_P [OF False] if_not_P [OF k] .
      obtain a r where g: "cbs_get_u ?k s' = (a, r)" by force
      then obtain v where a: "a = Some v" using r by (cases a) simp_all
      have c: "\<not> v < 128" using r unfolding g a prod.case option.case by (rule no)
      have "drop_bit ((unat ?k - 1) * 8) v \<noteq> 0"
        using r unfolding g a prod.case option.case if_not_P [OF c] by (rule no)
      then show ?thesis using that [OF _ c] g a by simp
    qed
    have "unat ?k \<noteq> 0" using k unat_eq_zero by blast
    moreover have "unat ?k \<le> 4" using k by (auto simp: word_less_nat_alt)
    ultimately have uk: "0 < unat ?k" "unat ?k \<le> 4" by linarith+
    from get_u_SomeD [OF v(1)] uk obtain xs where xs: "s' = xs @ r" "length xs = unat ?k" "v = word_of_nat (be_nat xs)" by auto
    define n where "n = be_nat xs"
    have nb: "n < 256 ^ unat ?k" unfolding n_def xs(2) [symmetric] by (rule be_nat_bound)
    also have "\<dots> \<le> (256 :: nat) ^ 4" using uk by (intro power_increasing) simp_all
    finally have n32: "n < 2 ^ 32" by simp
    have un: "unat v = n" unfolding xs(3) n_def [symmetric] using n32 by (intro unat_of_nat_u64) simp
    have n128: "128 \<le> n" using v(2) un by (simp add: word_less_nat_alt)
    have low: "256 ^ (unat ?k - 1) \<le> n"
      using v(3) drop_bit_zero_iff [of n "unat ?k - 1"] n32 unfolding xs(3) n_def [symmetric]
      by (simp add: mult.commute not_less)
    obtain k where kk: "k \<in> {1, 2, 3, 4}" "der_len n = (0x80 OR word_of_nat k) # be_bytes k n"
      "256 ^ (k - 1) \<le> n" "n < 256 ^ k" using der_len_long n128 n32 by blast
    have "k = unat ?k"
    proof -
      have "256 ^ (k - 1) < (256 :: nat) ^ unat ?k" "256 ^ (unat ?k - 1) < (256 :: nat) ^ k"
        using kk nb low by linarith+
      then have "k - 1 < unat ?k" "unat ?k - 1 < k" by (simp_all add: power_strict_increasing_iff)
      then show ?thesis using kk(1) uk by linarith
    qed
    moreover have "lb = 0x80 OR word_of_nat (unat ?k)"
      using byte_split(1) [OF False] by (simp add: or.commute)
    ultimately have "der_len n = lb # xs" using kk(2) xs(2) by (simp add: n_def be_bytes_be_nat)
    then show ?thesis using n32 xs(1) by (intro exI [of _ n] exI [of _ r]) (simp add: s)
  qed
qed

lemma length_der_tag: "0 < length (der_tag tag)" "length (der_tag tag) \<le> 11"
proof -
  have "length (base128_bytes v) \<le> 10" for v
  proof (cases "v = 0 \<or> base128_len v = 0")
    case False
    then obtain k where k: "base128_len v = Suc k" using not0_implies_Suc by blast
    have "drop_bit (7 * k) v \<noteq> 0" using base128_len_bounds(2) [OF _ k] False by auto
    moreover have "drop_bit (7 * k) v = 0" if "64 \<le> 7 * k"
      by (rule bit_word_eqI) (use that in \<open>auto simp: bit_simps dest: bit_imp_le_length\<close>)
    ultimately have "7 * k < 64" by linarith
    then show ?thesis using k by (simp add: base128_bytes_digits)
  qed (auto simp: base128_bytes_digits base128_len_bounds)
  then show "length (der_tag tag) \<le> 11" by (simp add: der_tag_def Let_def)
  show "0 < length (der_tag tag)" by (simp add: der_tag_def Let_def)
qed


section \<open>Elements\<close>

definition der_header :: "u32 \<Rightarrow> nat \<Rightarrow> u8 list" where
  "der_header tag n = der_tag tag @ der_len n"

lemma length_der_header: "2 \<le> length (der_header tag n)" "length (der_header tag n) \<le> 16"
  using length_der_tag [of tag] length_der_len [of n] unfolding der_header_def length_append by linarith+

lemma header_len:
  assumes "s = der_tag tag @ h" "h \<noteq> []"
  shows "CBS_len s - CBS_len (drop 1 h) = word_of_nat (length (der_tag tag) + 1)"
proof -
  obtain b h' where "h = b # h'" using assms(2) by (cases h) auto
  then show ?thesis by (simp add: CBS_len_def assms(1))
qed

lemma any_element_encoding:
  assumes "length content < 2 ^ 32"
  shows "CBS_get_any_asn1_element (der_header tag (length content) @ content @ r) =
    (Some (der_header tag (length content) @ content, tag, word_of_nat (length (der_header tag (length content)))), r)"
proof -
  let ?n = "length content" let ?h = "der_len ?n @ content @ r"
  have ne: "?h \<noteq> []" using length_der_len [of ?n] by auto
  let ?m = "length (der_header tag ?n) + ?n"
  have um: "unat (word_of_nat ?m :: u64) = ?m"
    using assms length_der_header(2) [of tag ?n] by (intro unat_of_nat_u64) simp
  have rl: "read_len (word_of_nat (length (der_tag tag) + 1)) ?h = Some (word_of_nat ?m, word_of_nat (length (der_header tag ?n)))"
    using read_len_der_len [OF assms, of "length (der_tag tag) + 1" "content @ r"] length_der_tag [of tag]
    by (simp add: der_header_def)
  have "CBS_get_bytes (word_of_nat ?m) ((der_header tag ?n @ content) @ r) = (Some (der_header tag ?n @ content), r)"
    by (rule get_bytes_append) (simp add: um del: of_nat_add)
  then have "cbs_then (CBS_get_bytes (word_of_nat ?m)) (\<lambda>out. cbs_return (out, tag, hl)) (der_header tag ?n @ content @ r) =
      (Some (der_header tag ?n @ content, tag, hl), r)" for hl
    by (simp add: cbs_defs)
  then show ?thesis
    unfolding CBS_get_any_asn1_element_def any_element_read_len
    using parse_tag [of tag ?h] header_len [OF refl ne, of tag] rl
    by (simp add: der_header_def del: of_nat_add)
qed

lemma any_element_SomeD:
  assumes "CBS_get_any_asn1_element s = (Some (el, tag, hl), r)"
  shows "\<exists>content. length content < 2 ^ 32 \<and> el = der_header tag (length content) @ content \<and> s = el @ r \<and>
    hl = word_of_nat (length (der_header tag (length content)))"
proof -
  obtain h where p: "parse_asn1_tag s = (Some tag, h)" and "read_len (CBS_len s - CBS_len (drop 1 h)) h \<noteq> None"
    using assms unfolding CBS_get_any_asn1_element_def any_element_read_len
    by (auto simp: cbs_defs split: prod.splits option.splits)
  then obtain t hl' where t: "read_len (CBS_len s - CBS_len (drop 1 h)) h = Some (t, hl')" by auto
  note s = parse_tag_SomeD [OF p]
  have "h \<noteq> []" using t by (auto simp: read_len_def)
  note hl = header_len [OF s this]
  note small = length_der_tag [of tag]
  obtain n x where n: "n < 2 ^ 32" "h = der_len n @ x"
    using read_len_SomeD [OF t [unfolded hl]] small by auto
  have th: "t = word_of_nat (length (der_header tag n) + n)" "hl' = word_of_nat (length (der_header tag n))"
    using read_len_der_len [OF n(1), of "length (der_tag tag) + 1" x] small t unfolding hl n(2) [symmetric]
    by (auto simp: der_header_def simp del: of_nat_add)
  have ut: "unat t = length (der_header tag n) + n"
    unfolding th using n(1) length_der_header(2) [of tag n] by (intro unat_of_nat_u64) simp
  have g: "CBS_get_bytes t s = (Some el, r)" "hl = hl'"
    using assms unfolding CBS_get_any_asn1_element_def any_element_read_len p prod.case option.case t
    by (auto simp: cbs_defs split: prod.splits option.splits)
  from get_bytes_SomeD [OF g(1)] have el: "s = el @ r" "length el = length (der_header tag n) + n" using ut by auto
  have "el @ r = der_header tag n @ x" using el(1) s n(2) by (simp add: der_header_def)
  then have "take (length (der_header tag n)) (el @ r) = take (length (der_header tag n)) (der_header tag n @ x)" by simp
  then have "take (length (der_header tag n)) el = der_header tag n" using el(2) by simp
  then have "el = der_header tag n @ drop (length (der_header tag n)) el" by (metis append_take_drop_id)
  moreover have "length (drop (length (der_header tag n)) el) = n" using el(2) by simp
  ultimately show ?thesis using n(1) el(1) th(2) g(2)
    by (intro exI [of _ "drop (length (der_header tag n)) el"]) simp
qed

text \<open>
  C19. Reading an element accepts exactly the DER encodings: \<open>CBS_get_any_asn1_element\<close> succeeds
  with an element, its tag and its header length if and only if the input starts with the tag's
  only identifier octets, the shortest length octets of a content below 4 GB and that content,
  and it leaves what follows.
\<close>

theorem der_element_iff:
  "CBS_get_any_asn1_element s = (Some (el, tag, hl), r) \<longleftrightarrow>
   (\<exists>content. length content < 2 ^ 32 \<and> el = der_tag tag @ der_len (length content) @ content \<and>
     s = el @ r \<and> hl = word_of_nat (length (der_tag tag @ der_len (length content))))"
  (is "?l \<longleftrightarrow> ?r")
proof
  assume ?l
  then show ?r using any_element_SomeD unfolding der_header_def append_assoc by blast
next
  assume ?r
  then obtain content where c: "length content < 2 ^ 32" "el = der_header tag (length content) @ content" "s = el @ r"
    "hl = word_of_nat (length (der_header tag (length content)))" by (auto simp: der_header_def)
  show ?l using any_element_encoding [OF c(1), of tag r] unfolding c(2-4) append_assoc .
qed

section \<open>Values\<close>

lemma get_asn1_encoding:
  assumes "length c < 2 ^ 32"
  shows "CBS_get_asn1 tag (der_header tag (length c) @ c @ r) = (Some c, r)"
proof -
  have u: "unat (word_of_nat (length (der_header tag (length c))) :: u64) = length (der_header tag (length c))"
    using length_der_header(2) [of tag "length c"] by (intro unat_of_nat_u64) simp
  have "CBS_skip (word_of_nat (length (der_header tag (length c)))) (der_header tag (length c) @ c) = (Some (), c)"
    unfolding CBS_skip_def cbs_defs cbs_get_append [OF u [symmetric]] by simp
  then show ?thesis
    by (simp add: CBS_get_asn1_def cbs_get_asn1_def any_element_encoding [OF assms] cbs_then_def) (simp add: cbs_defs)
qed

lemma get_asn1_SomeD:
  assumes "CBS_get_asn1 tag s = (Some c, r)"
  shows "s = der_header tag (length c) @ c @ r \<and> length c < 2 ^ 32"
proof -
  obtain el tag' hl s' where e: "CBS_get_any_asn1_element s = (Some (el, tag', hl), s')"
    using assms by (auto simp: CBS_get_asn1_def cbs_get_asn1_def cbs_defs split: prod.splits option.splits)
  from any_element_SomeD [OF e] obtain x where x: "length x < 2 ^ 32" "s = der_header tag' (length x) @ x @ s'" by auto
  from any_element_encoding [OF x(1)] have el: "el = der_header tag' (length x) @ x" 
    "hl = word_of_nat (length (der_header tag' (length x)))"
    using e unfolding x(2) by auto
  have t: "tag' = tag"
    using assms e by (auto simp: CBS_get_asn1_def cbs_get_asn1_def cbs_defs split: if_splits)
  from get_asn1_encoding [OF x(1), of tag s'] have "c = x" "r = s'" using assms unfolding x(2) t by auto
  then show ?thesis using x t by simp
qed

lemma be_nat_Cons: "be_nat (d # xs) = unat d * 256 ^ length xs + be_nat xs"
proof (induction xs rule: rev_induct)
  case Nil
  then show ?case using be_nat_snoc [of "[]" d] by simp
next
  case (snoc x xs)
  have "be_nat (d # xs @ [x]) = 256 * be_nat (d # xs) + unat x" using be_nat_snoc [of "d # xs" x] by simp
  then show ?case using snoc by (simp add: algebra_simps)
qed

lemma be_nat_rev: "be_nat xs = le_nat (rev xs)"
  by (induction xs rule: rev_induct) simp_all

lemma le_nat_append: "le_nat (xs @ ys) = le_nat xs + 256 ^ length xs * le_nat ys"
  by (induction xs) (simp_all add: algebra_simps)

lemma top_clear: "(b :: u8) AND 0x80 = 0 \<longleftrightarrow> unat b < 128"
proof -
  have t: "take_bit 7 b = b AND 0x7F" by (simp add: take_bit_eq_mask mask_eq_exp_minus_1)
  have u: "unat (b AND 0x7F) = unat b mod 128"
    unfolding t [symmetric] unsigned_take_bit_eq unfolding take_bit_eq_mod by simp
  show ?thesis
  proof
    assume "b AND 0x80 = 0"
    then have "b AND 0x7F = b" by (rule byte_split(2))
    then have "unat b = unat b mod 128" using u by simp
    then show "unat b < 128" by (metis mod_less_divisor zero_less_numeral)
  next
    assume "unat b < 128"
    then have "b AND 0x7F = b" using u by (simp add: word_unat_eq_iff)
    then have "b AND 0x80 = (b AND 0x7F) AND 0x80" by simp
    then show "b AND 0x80 = 0" by (simp add: and.assoc)
  qed
qed

lemma uint64_loop_val:
  "unat out * 256 ^ length xs + be_nat xs < 2 ^ 64 \<Longrightarrow>
   uint64_loop out xs = Some (word_of_nat (unat out * 256 ^ length xs + be_nat xs))"
proof (induction xs arbitrary: out)
  case (Cons d xs)
  let ?o = "push_bit 8 out OR ucast d :: u64"
  have p: "256 * unat out * 256 ^ length xs \<le> unat out * 256 ^ length (d # xs)" by simp
  have "256 * unat out * 1 \<le> 256 * unat out * 256 ^ length xs" by (intro mult_le_mono2) simp
  then have o: "256 * unat out < 2 ^ 64" using Cons.prems p by linarith
  then have z: "drop_bit 56 out = 0"
  proof -
    have "unat (drop_bit 56 out) = 0" unfolding unat_drop_bit_div using o by simp
    then show ?thesis using unat_eq_zero by blast
  qed
  have uo: "unat ?o = 256 * unat out + unat d"
    using o by (subst unat_push_bit_or) simp_all
  have eq: "unat ?o * 256 ^ length xs + be_nat xs = unat out * 256 ^ length (d # xs) + be_nat (d # xs)"
    unfolding uo be_nat_Cons by (simp add: algebra_simps)
  show ?case using Cons.IH [of ?o] Cons.prems z unfolding eq by simp
qed simp

text \<open>The shortest two's-complement contents of a non-negative number.\<close>

definition canon :: "u8 list \<Rightarrow> bool" where
  "canon c \<longleftrightarrow> c \<noteq> [] \<and> hd c AND 0x80 = 0 \<and> \<not> (hd c = 0 \<and> length c > 1 \<and> c ! 1 AND 0x80 = 0)"

lemma uint64_bytes_started [simp]: "uint64_bytes True xs = xs"
  by (induction xs) simp_all

lemma uint64_bytes_props:
  "canon (uint64_bytes False xs) \<and> be_nat (uint64_bytes False xs) = be_nat xs \<and>
   length (uint64_bytes False xs) \<le> Suc (length xs) \<and>
   (length (uint64_bytes False xs) = Suc (length xs) \<longrightarrow> xs = [] \<or> 128 \<le> unat (hd xs))"
proof (induction xs)
  case Nil
  then show ?case using be_nat_snoc [of "[]" 0] by (simp add: canon_def)
next
  case (Cons d xs)
  show ?case
  proof (cases "d = 0")
    case True
    then show ?thesis using Cons by (simp add: be_nat_Cons)
  next
    case False
    then show ?thesis
      using top_clear [of d] by (cases "d AND 0x80 = 0") (simp_all add: canon_def be_nat_Cons)
  qed
qed

lemma be_bytes_map: "be_bytes n v = map (\<lambda>i. word_of_nat (v div 256 ^ (n - 1 - i))) [0..<n]"
proof (induction n arbitrary: v)
  case (Suc n)
  have "v div 256 div 256 ^ (n - 1 - i) = v div 256 ^ (n - i)" if "i < n" for i
  proof -
    have "Suc (n - 1 - i) = n - i" using that by simp
    then show ?thesis by (metis div_mult2_eq power_Suc)
  qed
  then show ?case by (simp add: Suc)
qed simp

lemma v_bytes: "map (\<lambda>i. ucast (drop_bit (8 * (7 - i)) v) AND 0xFF) [0..<8] = be_bytes 8 (unat (v :: u64))"
proof -
  have b: "ucast (drop_bit k v) AND (0xFF :: u8) = word_of_nat (unat v div 2 ^ k)" for k
  proof -
    have m: "(0xFF :: u8) = mask 8" by (simp add: mask_eq_exp_minus_1)
    have "ucast (drop_bit k v) AND (0xFF :: u8) = ucast (drop_bit k v)"
      unfolding m by (rule bit_word_eqI) (simp add: bit_simps)
    also have "\<dots> = word_of_nat (unat (drop_bit k v))" by simp
    finally show ?thesis unfolding unat_drop_bit_div .
  qed
  have e: "be_bytes 8 n = map (\<lambda>i. word_of_nat (n div 2 ^ (8 * (7 - i)))) [0..<8]" for n :: nat
    unfolding be_bytes_map by (rule map_cong) (simp_all add: power_mult)
  show ?thesis unfolding b e ..
qed

lemma get_uint64_content:
  assumes "canon c" "be_nat c < 2 ^ 64" "length c < 2 ^ 32"
  shows "CBS_get_asn1_uint64 (der_header CBS_ASN1_INTEGER (length c) @ c @ r) = (Some (word_of_nat (be_nat c)), r)"
proof -
  have l: "uint64_loop 0 c = Some (word_of_nat (be_nat c))" using uint64_loop_val [of 0 c] assms(2) by simp
  obtain d x where "c = d # x" using assms(1) by (cases c) (auto simp: canon_def)
  then have c: "\<not> length c = 0" "\<not> c ! 0 AND 0x80 \<noteq> 0" "\<not> (c ! 0 = 0 \<and> length c > 1 \<and> c ! 1 AND 0x80 = 0)"
    using assms(1) unfolding canon_def by auto
  show ?thesis
    unfolding CBS_get_asn1_uint64_def cbs_then_def get_asn1_encoding [OF assms(3)] prod.case option.case
      if_not_P [OF c(1)] if_not_P [OF c(2)] if_not_P [OF c(3)] l
    by (simp add: cbs_return_def)
qed

lemma get_int64_content:
  assumes c: "c \<noteq> []" "length c \<le> 8"
    "\<not> (length c > 1 \<and> c ! 0 = 0 \<and> c ! 1 AND 0x80 = 0)" "\<not> (length c > 1 \<and> c ! 0 = 0xFF \<and> c ! 1 AND 0x80 \<noteq> 0)"
  shows "CBS_get_asn1_int64 (der_header CBS_ASN1_INTEGER (length c) @ c @ r) =
    (Some (word_of_nat (le_nat (rev c @ replicate (8 - length c) (if c ! 0 AND 0x80 \<noteq> 0 then 0xFF else 0)))), r)"
proof -
  have l: "length c < 2 ^ 32" using c(2) by simp
  have n: "\<not> (length c = 0 \<or> length c > 8)" using c(1,2) by simp
  show ?thesis
    unfolding CBS_get_asn1_int64_def cbs_then_def get_asn1_encoding [OF l] prod.case option.case
      if_not_P [OF n] if_not_P [OF c(3)] if_not_P [OF c(4)]
    by (simp add: cbs_return_def Let_def)
qed

lemma get_int64_nonneg:
  assumes "canon c" "be_nat c < 2 ^ 63" "length c \<le> 8"
  shows "CBS_get_asn1_int64 (der_header CBS_ASN1_INTEGER (length c) @ c @ r) = (Some (word_of_nat (be_nat c)), r)"
proof -
  obtain d x where d: "c = d # x" using assms(1) by (cases c) (auto simp: canon_def)
  have ff: "c ! 0 \<noteq> 0xFF" using assms(1) d by (auto simp: canon_def)
  have p: "\<not> (length c > 1 \<and> c ! 0 = 0 \<and> c ! 1 AND 0x80 = 0)" "\<not> c ! 0 AND 0x80 \<noteq> 0"
    using assms(1) d by (auto simp: canon_def)
  have "le_nat (replicate n 0) = 0" for n by (induction n) simp_all
  then have "le_nat (rev c @ replicate (8 - length c) 0) = be_nat c" by (simp add: le_nat_append be_nat_rev)
  then show ?thesis using get_int64_content [OF _ assms(3) p(1), of r] p(2) ff d by simp
qed

lemma int64_start_props:
  assumes "n < length bytes" "bytes ! n AND 0x80 \<noteq> 0"
  shows "int64_start bytes n \<le> n \<and> bytes ! int64_start bytes n AND 0x80 \<noteq> 0 \<and>
    (\<forall>i. int64_start bytes n < i \<and> i \<le> n \<longrightarrow> bytes ! i = 0xFF) \<and>
    (int64_start bytes n \<noteq> 0 \<longrightarrow> \<not> (bytes ! int64_start bytes n = 0xFF \<and> bytes ! (int64_start bytes n - 1) AND 0x80 \<noteq> 0))"
  using assms
proof (induction n)
  case (Suc n)
  show ?case
  proof (cases "bytes ! Suc n = 0xFF \<and> bytes ! n AND 0x80 \<noteq> 0")
    case True
    then have "n < length bytes" "bytes ! n AND 0x80 \<noteq> 0" using Suc.prems by simp_all
    from Suc.IH [OF this] True show ?thesis by (auto simp: le_Suc_eq)
  next
    case False
    then have "int64_start bytes (Suc n) = Suc n" by auto
    then show ?thesis using Suc.prems(2) False by auto
  qed
qed simp

lemma get_int64_neg:
  assumes v: "2 ^ 63 \<le> unat (v :: u64)"
  defines "bytes \<equiv> le_bytes 8 (unat v)"
  defines "c \<equiv> map (\<lambda>i. bytes ! i) (rev [0..<int64_start bytes 7 + 1])"
  shows "CBS_get_asn1_int64 (der_header CBS_ASN1_INTEGER (length c) @ c @ r) = (Some v, r)"
proof -
  have l: "length bytes = 8" by (simp add: bytes_def)
  have le: "le_nat bytes = unat v" using unat_u64_less [of v] by (simp add: bytes_def le_nat_le_bytes)
  have b: "bytes = take 7 bytes @ [bytes ! 7]"
    using take_Suc_conv_app_nth [of 7 bytes] l by simp
  have top: "bytes ! 7 AND 0x80 \<noteq> 0"
  proof
    assume "bytes ! 7 AND 0x80 = 0"
    then have s: "unat (bytes ! 7) < 128" by (simp add: top_clear)
    have "le_nat bytes = le_nat (take 7 bytes) + 256 ^ 7 * unat (bytes ! 7)"
      by (subst b) (simp add: le_nat_append l)
    moreover have "le_nat (take 7 bytes) < 256 ^ 7" using le_nat_bound [of "take 7 bytes"] l by simp
    moreover have "(256::nat) ^ 7 * unat (bytes ! 7) \<le> 256 ^ 7 * 127" using s by (intro mult_le_mono2) simp
    ultimately have "unat v < 256 ^ 7 + 256 ^ 7 * 127" using le by linarith
    then show False using v by simp
  qed
  let ?s = "int64_start bytes 7"
  have "7 < length bytes" using l by simp
  note p = int64_start_props [OF this top]
  have lc: "length c = ?s + 1" by (simp add: c_def)
  have nth: "c ! i = bytes ! (?s - i)" if "i \<le> ?s" for i
    using that unfolding c_def by (simp add: nth_append rev_nth del: upt_Suc)
  have rc: "rev c = take (?s + 1) bytes"
    using p l by (intro nth_equalityI) (simp_all add: c_def rev_map del: upt_Suc)
  have all: "rev c @ replicate (8 - length c) 0xFF = bytes"
  proof (rule nth_equalityI)
    show "length (rev c @ replicate (8 - length c) 0xFF) = length bytes" using p l lc by simp
    fix i assume "i < length (rev c @ replicate (8 - length c) 0xFF)"
    then have i: "i < 8" using p lc by simp
    show "(rev c @ replicate (8 - length c) 0xFF) ! i = bytes ! i"
      using p i l unfolding rc by (cases "i \<le> ?s") (simp_all add: nth_append lc)
  qed
  have c0: "c ! 0 AND 0x80 \<noteq> 0" using nth [of 0] p by simp
  have a: "c \<noteq> []" "length c \<le> 8" "\<not> (length c > 1 \<and> c ! 0 = 0 \<and> c ! 1 AND 0x80 = 0)"
    using lc p c0 by auto
  have d: "\<not> (length c > 1 \<and> c ! 0 = 0xFF \<and> c ! 1 AND 0x80 \<noteq> 0)"
  proof
    assume h: "length c > 1 \<and> c ! 0 = 0xFF \<and> c ! 1 AND 0x80 \<noteq> 0"
    then have "1 \<le> ?s" using lc by linarith
    from nth [OF this] nth [of 0] h p \<open>1 \<le> ?s\<close> show False by simp
  qed
  show ?thesis
    unfolding get_int64_content [OF a d] if_P [OF c0] all le by simp
qed

section \<open>Writing values\<close>

lemma produced_value:
  assumes body: "appends mem 1 f (Some c)" "keeping (open_at 1) f (open_at 1)"
    and c: "length c \<le> 0xFFFFFFFE" and mem: "\<forall>n. mem n"
  shows "produced mem cap (and_then (CBB_add_asn1 mem tag 0) (and_then f (CBB_flush mem 0))) =
    Some (Some (der_header tag (length c) @ c))"
proof -
  have e: "cat (Some (der_tag tag)) (prefixed 1 True (Some c)) = Some (der_header tag (length c) @ c)"
    using c by (simp add: cat_def prefixed_def child_prefix_def der_header_def)
  have "length (der_header tag (length c) @ c) < 2 ^ 64" using c length_der_header(2) [of tag "length c"] by simp
  moreover have "appends mem 0 (and_then (CBB_add_asn1 mem tag 0) (and_then f (CBB_flush mem 0)))
      (Some (der_header tag (length c) @ c))"
    using appends_asn1 [of mem 0 f "Some c" tag] body unfolding e by simp
  moreover have "keeping (open_at 0) (and_then (CBB_add_asn1 mem tag 0) (and_then f (CBB_flush mem 0))) (open_at 0)"
    by (rule keeping_child_body) (use body keeping_add_asn1 [of mem tag 0] in simp_all)
  ultimately show ?thesis
    using mem
      produced_appends [of mem "and_then (CBB_add_asn1 mem tag 0) (and_then f (CBB_flush mem 0))"
        "Some (der_header tag (length c) @ c)" cap] by auto
qed

lemma keeping_u8s_open: "keeping (open_at d) (all_steps (\<lambda>v. CBB_add_u8 mem v d) vs) (open_at d)"
  by (intro keeping_all_steps keeping_u8)

lemma all_steps_map: "all_steps (\<lambda>x. f (g x)) xs = all_steps f (map g xs)"
  by (induction xs) simp_all

lemma produced_bytes:
  assumes "length c \<le> 0xFFFFFFFE" "\<forall>n. mem n"
  shows "produced mem cap (and_then (CBB_add_asn1 mem tag 0) (and_then (all_steps (\<lambda>v. CBB_add_u8 mem v (0 + 1)) c) (CBB_flush mem 0))) =
    Some (Some (der_header tag (length c) @ c))"
  using produced_value [OF appends_u8s keeping_u8s_open, of c mem cap tag] assms by simp

lemma sint_nonneg: "0 \<le> sint (v :: u64) \<longleftrightarrow> unat v < 2 ^ 63"
proof -
  have "sint v < 0 \<longleftrightarrow> bit v 63" using bit_last_iff [of v] by simp
  also have "\<dots> \<longleftrightarrow> bit (unat v) 63" by (simp add: bit_unsigned_iff)
  also have "\<dots> \<longleftrightarrow> odd (unat v div 2 ^ 63)" by (simp add: bit_iff_odd)
  also have "\<dots> \<longleftrightarrow> 2 ^ 63 \<le> unat v"
  proof -
    have "unat v div 2 ^ 63 < 2" using unat_u64_less [of v] by (simp add: div_less_iff_less_mult)
    moreover have "1 \<le> unat v div 2 ^ 63 \<longleftrightarrow> 2 ^ 63 \<le> unat v" using div_greater_zero_iff [of "unat v" "2 ^ 63"] by (simp add: Suc_le_eq)
    moreover have "odd n \<longleftrightarrow> 1 \<le> n" if "n < 2" for n :: nat using that by (cases n) auto
    ultimately show ?thesis by blast
  qed
  finally show ?thesis by linarith
qed

text \<open>
  C20. The typed values of ASN.1 make the round trip: what the writer hands out after adding
  an unsigned or signed 64-bit integer, an octet string or a boolean reads back, with the typed
  reader, as that value and leaves exactly the bytes that follow; the writer does not
  fail when memory is available.
\<close>

theorem asn1_values_roundtrip:
  assumes "\<forall>n. mem n" and "length dat \<le> 0xFFFFFFFE"
  shows "(\<exists>bs. produced mem cap (CBB_add_asn1_uint64 mem v 0) = Some (Some bs) \<and>
      CBS_get_asn1_uint64 (bs @ r) = (Some v, r)) \<and>
    (\<exists>bs. produced mem cap (CBB_add_asn1_int64 mem v 0) = Some (Some bs) \<and>
      CBS_get_asn1_int64 (bs @ r) = (Some v, r)) \<and>
    (\<exists>bs. produced mem cap (CBB_add_asn1_octet_string mem dat 0) = Some (Some bs) \<and>
      CBS_get_asn1 CBS_ASN1_OCTETSTRING (bs @ r) = (Some dat, r)) \<and>
    (\<exists>bs. produced mem cap (CBB_add_asn1_bool mem b 0) = Some (Some bs) \<and>
      CBS_get_asn1_bool (bs @ r) = (Some b, r))"
proof -
  define c where "c = uint64_bytes False (be_bytes 8 (unat v))"
  have c: "canon c" "be_nat c = unat v" "length c \<le> 9"
    "length c = 9 \<Longrightarrow> 128 \<le> unat (hd (be_bytes 8 (unat v)))"
    using uint64_bytes_props [of "be_bytes 8 (unat v)"] unat_u64_less [of v]
    by (auto simp: c_def be_nat_be_bytes)
  have pu: "produced mem cap (CBB_add_asn1_uint64 mem v 0) = Some (Some (der_header CBS_ASN1_INTEGER (length c) @ c))"
    unfolding CBB_add_asn1_uint64_def v_bytes c_def [symmetric] using c(3) assms(1) by (intro produced_bytes) simp_all
  have ru: "CBS_get_asn1_uint64 (der_header CBS_ASN1_INTEGER (length c) @ c @ r) = (Some v, r)"
    using get_uint64_content [OF c(1), of r] c(2,3) unat_u64_less [of v] by simp
  have "\<exists>bs. produced mem cap (CBB_add_asn1_int64 mem v 0) = Some (Some bs) \<and> CBS_get_asn1_int64 (bs @ r) = (Some v, r)"
  proof (cases "0 \<le> sint v")
    case True
    then have v: "unat v < 2 ^ 63" by (simp add: sint_nonneg)
    have "length c \<noteq> 9"
    proof
      assume "length c = 9"
      then have h: "128 \<le> unat (hd (be_bytes 8 (unat v)))" by (rule c(4))
      define x where "x = be_bytes 8 (unat v)"
      obtain d y where x: "x = d # y" "length y = 7" using length_be_bytes [of 8 "unat v"] unfolding x_def [symmetric]
        by (cases x) simp_all
      have "be_nat x = unat v" using unat_u64_less [of v] by (simp add: x_def be_nat_be_bytes)
      then have "unat d * 256 ^ 7 \<le> unat v" using x by (simp add: be_nat_Cons)
      moreover have "128 * 256 ^ 7 \<le> unat d * (256 :: nat) ^ 7"
        using h unfolding x_def [symmetric] x by (intro mult_le_mono1) simp
      ultimately show False using v by simp
    qed
    then have "length c \<le> 8" using c(3) by linarith
    from get_int64_nonneg [OF c(1) _ this, of r] c(2) v pu True show ?thesis
      by (simp add: CBB_add_asn1_int64_def)
  next
    case False
    then have v: "2 ^ 63 \<le> unat v" by (simp add: sint_nonneg)
    let ?bytes = "le_bytes 8 (unat v)" let ?is = "rev [0..<int64_start (le_bytes 8 (unat v)) 7 + 1]"
    have l: "length (map (\<lambda>i. ?bytes ! i) ?is) \<le> 0xFFFFFFFE"
    proof -
      have "int64_start b n \<le> n" for b n by (induction n) auto
      then have "int64_start ?bytes 7 \<le> 7" .
      then show ?thesis by simp
    qed
    have "produced mem cap (CBB_add_asn1_int64 mem v 0) =
        Some (Some (der_header CBS_ASN1_INTEGER (length (map (\<lambda>i. ?bytes ! i) ?is)) @ map (\<lambda>i. ?bytes ! i) ?is))"
      using produced_bytes [OF l assms(1), of cap CBS_ASN1_INTEGER] False
      unfolding CBB_add_asn1_int64_def Let_def all_steps_map [where f = "\<lambda>b. CBB_add_u8 mem b (0 + 1)" and g = "\<lambda>i. ?bytes ! i"]
      by (simp only: if_False)
    then show ?thesis using get_int64_neg [OF v, of r] by (intro exI conjI) (assumption, simp only: append_assoc)
  qed
  moreover have "\<exists>bs. produced mem cap (CBB_add_asn1_octet_string mem dat 0) = Some (Some bs) \<and>
      CBS_get_asn1 CBS_ASN1_OCTETSTRING (bs @ r) = (Some dat, r)"
  proof -
    have l: "length dat < 2 ^ 64" "length dat < 2 ^ 32" using assms(2) by simp_all
    have "keeping (open_at 1) (CBB_add_bytes mem dat 1) (open_at 1)"
      by (rule keeping_mono [OF keeping_bytes [OF l(1)]]) simp_all
    from produced_value [OF appends_bytes [OF l(1)] this assms(2,1)] get_asn1_encoding [OF l(2)]
    show ?thesis unfolding CBB_add_asn1_octet_string_def by simp
  qed
  moreover have "\<exists>bs. produced mem cap (CBB_add_asn1_bool mem b 0) = Some (Some bs) \<and> CBS_get_asn1_bool (bs @ r) = (Some b, r)"
  proof -
    have l: "length [x :: u8] \<le> 0xFFFFFFFE" for x by simp
    have "CBS_get_asn1_bool (der_header CBS_ASN1_BOOLEAN (length [x]) @ [x] @ r) = (Some b, r)" if "x = (if b then 0xFF else 0)" for x
      using get_asn1_encoding [of "[x]" CBS_ASN1_BOOLEAN r] that
      by (simp add: CBS_get_asn1_bool_def cbs_defs CBS_len_def Let_def)
    then show ?thesis
      using produced_value [OF appends_u8 keeping_u8 l assms(1), of cap CBS_ASN1_BOOLEAN "if b then 0xFF else 0"]
      unfolding CBB_add_asn1_bool_def by simp
  qed
  ultimately show ?thesis using pu ru by (intro conjI) (auto simp only: append_assoc)
qed

theorem asn1_values_roundtrip_witness:
  "\<exists>bs. produced (\<lambda>n. True) 0 (CBB_add_asn1_int64 (\<lambda>n. True) (- 129) 0) = Some (Some bs) \<and>
     CBS_get_asn1_int64 (bs @ [7]) = (Some (- 129), [7])"
  using asn1_values_roundtrip [where mem = "\<lambda>n. True" and dat = "[1, 2]" and cap = 0 and v = "- 129" and r = "[7]" and b = True]
  by auto

lemma canon_unique_le:
  assumes "canon c" "canon c'" "be_nat c = be_nat c'" "length c \<le> length c'"
  shows "c = c'"
proof (cases "length c = length c'")
  case True
  then show ?thesis using be_bytes_be_nat [of "length c" c] be_bytes_be_nat [of "length c" c'] assms(3) by metis
next
  case False
  obtain a x where a: "c = a # x" using assms(1) by (cases c) (auto simp: canon_def)
  obtain d y where d: "c' = d # y" using assms(2) by (cases c') (auto simp: canon_def)
  have l: "length x < length y" using False assms(4) a d by simp
  have "unat a < 128" using assms(1) by (simp add: canon_def a top_clear)
  then have "unat a * 256 ^ length x \<le> 127 * 256 ^ length x" by (intro mult_le_mono1) simp
  then have u: "be_nat c < 128 * 256 ^ length x" using be_nat_bound [of x] unfolding a be_nat_Cons by linarith
  have m: "(256 :: nat) ^ Suc (length x) \<le> 256 ^ length y" using l by (intro power_increasing) simp_all
  have "128 * 256 ^ length x \<le> be_nat c'"
  proof (cases "d = 0")
    case True
    obtain e z where e: "y = e # z" using l by (cases y) auto
    have "128 \<le> unat e" using assms(2) True d e by (auto simp: canon_def top_clear)
    then have "128 * 256 ^ length z \<le> unat e * 256 ^ length z" by (rule mult_le_mono1)
    moreover have "(256 :: nat) ^ length x \<le> 256 ^ length z" using l e by (intro power_increasing) simp_all
    ultimately have "128 * 256 ^ length x \<le> unat e * 256 ^ length z" by linarith
    then show ?thesis by (simp add: d True e be_nat_Cons)
  next
    case False
    then have "1 * 256 ^ length y \<le> unat d * 256 ^ length y"
      using unat_eq_zero [of d] by (intro mult_le_mono1) linarith
    then have "256 ^ length y \<le> be_nat c'" unfolding d be_nat_Cons by linarith
    then show ?thesis using m by simp
  qed
  then show ?thesis using u assms(3) by linarith
qed

lemma canon_unique: "canon c \<Longrightarrow> canon c' \<Longrightarrow> be_nat c = be_nat c' \<Longrightarrow> c = c'"
  using canon_unique_le [of c c'] canon_unique_le [of c' c] by (metis nle_le)

lemma uint64_loop_SomeD:
  "uint64_loop out xs = Some v \<Longrightarrow> unat out * 256 ^ length xs + be_nat xs < 2 ^ 64"
proof (induction xs arbitrary: out)
  case Nil
  then show ?case using unat_u64_less [of out] by simp
next
  case (Cons d xs)
  let ?o = "push_bit 8 out OR ucast d :: u64"
  have z: "drop_bit 56 out = 0" using Cons.prems by (cases "drop_bit 56 out = 0") simp_all
  then have "unat out div 2 ^ 56 = 0" using unat_drop_bit_div [of 56 out] by simp
  then have "unat out < 2 ^ 56" by (simp add: div_eq_0_iff)
  then have "unat ?o = 256 * unat out + unat d" by (subst unat_push_bit_or) simp_all
  then show ?case using Cons.IH [of ?o] Cons.prems z by (simp add: be_nat_Cons algebra_simps)
qed

text \<open>
  C21. \<open>CBS_get_asn1_uint64\<close> accepts one encoding per number: it succeeds with \<open>v\<close> if and only if
  the input starts with exactly the bytes that \<open>CBB_add_asn1_uint64\<close> writes for \<open>v\<close>.
\<close>

theorem asn1_uint64_canonical:
  "CBS_get_asn1_uint64 s = (Some v, r) \<longleftrightarrow>
   (\<exists>bs. produced (\<lambda>n. True) 0 (CBB_add_asn1_uint64 (\<lambda>n. True) v 0) = Some (Some bs) \<and> s = bs @ r)"
proof -
  define c where "c = uint64_bytes False (be_bytes 8 (unat v))"
  have c: "canon c" "be_nat c = unat v" "length c \<le> 9"
    using uint64_bytes_props [of "be_bytes 8 (unat v)"] unat_u64_less [of v] by (auto simp: c_def be_nat_be_bytes)
  have "length c \<le> 0xFFFFFFFE" using c(3) by simp
  then have w: "produced (\<lambda>n. True) 0 (CBB_add_asn1_uint64 (\<lambda>n. True) v 0) = Some (Some (der_header CBS_ASN1_INTEGER (length c) @ c))"
    unfolding CBB_add_asn1_uint64_def v_bytes c_def [symmetric] by (intro produced_bytes) simp_all
  show ?thesis
  proof
    assume a: "CBS_get_asn1_uint64 s = (Some v, r)"
    obtain dat s' where g: "CBS_get_asn1 CBS_ASN1_INTEGER s = (Some dat, s')"
      using a by (auto simp: CBS_get_asn1_uint64_def cbs_then_def split: prod.splits option.splits)
    have no: "\<not> c" if "(if c then cbs_fail else f) s' = (Some (x :: u64), r)" for c f x
      using that by (cases c) (simp_all add: cbs_fail_def)
    note a1 = a [unfolded CBS_get_asn1_uint64_def cbs_then_def g prod.case option.case]
    note n1 = no [OF a1] note a2 = a1 [unfolded if_not_P [OF n1]]
    note n2 = no [OF a2] note a3 = a2 [unfolded if_not_P [OF n2]]
    note n3 = no [OF a3] note a4 = a3 [unfolded if_not_P [OF n3]]
    obtain d x where d: "dat = d # x" using n1 by (cases dat) auto
    then have cd: "canon dat" using n2 n3 by (auto simp: canon_def)
    have l: "uint64_loop 0 dat = Some v" "s' = r"
      using a4 by (cases "uint64_loop 0 dat"; simp add: cbs_fail_def cbs_return_def)+
    have b: "be_nat dat < 2 ^ 64" using uint64_loop_SomeD [OF l(1)] by simp
    have "v = word_of_nat (be_nat dat)" using uint64_loop_val [of 0 dat] b l(1) by simp
    then have "be_nat dat = unat v" using unat_of_nat_u64 [OF b] by simp
    then have "dat = c" using canon_unique [OF cd c(1)] c(2) by simp
    then show "\<exists>bs. produced (\<lambda>n. True) 0 (CBB_add_asn1_uint64 (\<lambda>n. True) v 0) = Some (Some bs) \<and> s = bs @ r"
      using get_asn1_SomeD [OF g] l(2) unfolding w by simp
  next
    assume "\<exists>bs. produced (\<lambda>n. True) 0 (CBB_add_asn1_uint64 (\<lambda>n. True) v 0) = Some (Some bs) \<and> s = bs @ r"
    then have "s = der_header CBS_ASN1_INTEGER (length c) @ c @ r" unfolding w by simp
    then show "CBS_get_asn1_uint64 s = (Some v, r)"
      using get_uint64_content [OF c(1), of r] c(2,3) unat_u64_less [of v] by simp
  qed
qed

end
