(* ===== verification/Cbb_Asn1.thy ===== *)
theory Cbb_Asn1
  imports Asn1_Spec
begin

text \<open>
  BoringSSL: the rest of \<open>cbs.c\<close>, \<open>cbb.c\<close> and \<open>asn1_compat.c\<close>: object identifiers and their
  decimal text, the sorting of a SET OF, and the old-style output of an encoding. The library
  functions \<open>BIO_snprintf\<close> with \<open>PRIu64\<close>, \<open>memcmp\<close> and \<open>qsort\<close> are modelled by what they compute;
  the order that \<open>qsort\<close> leaves is unique here, because only equal strings compare as equal.
\<close>

section \<open>Object identifiers from text\<close>

definition UINT64_MAX :: u64 where "UINT64_MAX = 0xFFFFFFFFFFFFFFFF"

text \<open>The loop of \<open>parse_dotted_decimal\<close>: the value so far, and whether a digit was seen.\<close>

fun dotted_loop :: "u64 \<Rightarrow> bool \<Rightarrow> u64 cbs_reader" where
  "dotted_loop out seen_digit [] = (if seen_digit then Some out else None, [])"
| "dotted_loop out seen_digit (u # cbs) = (
     if u = 0x2E \<and> length cbs > 0 then (if seen_digit then Some out else None, cbs)
     else if u < 0x30 \<or> u > 0x39 \<or> (seen_digit \<and> out = 0) \<or> out > UINT64_MAX div 10 \<or>
       out * 10 > UINT64_MAX - ucast (u - 0x30) then (None, cbs)
     else dotted_loop (out * 10 + ucast (u - 0x30)) True cbs)"

definition parse_dotted_decimal :: "u64 cbs_reader" where
  "parse_dotted_decimal = dotted_loop 0 False"

lemma dotted_loop_shorter: "dotted_loop v b s = (Some w, r) \<Longrightarrow> length r \<le> length s \<and> (s \<noteq> [] \<longrightarrow> length r < length s)"
  by (induction v b s rule: dotted_loop.induct) (auto split: if_splits)

text \<open>The loop over the remaining components.\<close>

function oid_rest :: "mem \<Rightarrow> nat \<Rightarrow> cbs \<Rightarrow> cbb step" where
  "oid_rest mem d cbs = (
     if length cbs > 0 then
       (case parse_dotted_decimal cbs of
          (None, cbs) \<Rightarrow> ret False
        | (Some a, cbs) \<Rightarrow> and_then (add_base128_integer mem a d) (oid_rest mem d cbs))
     else ret True)"
  by pat_completeness auto
termination
  by (relation "measure (\<lambda>(mem, d, cbs). length cbs)")
    (auto simp: parse_dotted_decimal_def dest!: dotted_loop_shorter [OF sym])

declare oid_rest.simps [simp del]

definition CBB_add_asn1_oid_from_text :: "mem \<Rightarrow> u8 list \<Rightarrow> nat \<Rightarrow> cbb step" where
  "CBB_add_asn1_oid_from_text mem text d = and_then (CBB_flush mem d) (
     case parse_dotted_decimal text of
       (None, cbs) \<Rightarrow> ret False
     | (Some a, cbs) \<Rightarrow>
         (case parse_dotted_decimal cbs of
            (None, cbs) \<Rightarrow> ret False
          | (Some b, cbs) \<Rightarrow>
              if a > 2 \<or> (a < 2 \<and> b > 39) \<or> b > UINT64_MAX - 80 then ret False
              else and_then (add_base128_integer mem (40 * a + b) d) (oid_rest mem d cbs)))"

section \<open>Object identifiers to text\<close>

text \<open>What \<open>printf\<close> writes for an unsigned number.\<close>

function decimal :: "nat \<Rightarrow> u8 list" where
  "decimal n = (if n < 10 then [word_of_nat (48 + n)] else decimal (n div 10) @ [word_of_nat (48 + n mod 10)])"
  by pat_completeness auto
termination by (relation "measure id") auto

declare decimal.simps [simp del]

definition add_decimal :: "mem \<Rightarrow> u64 \<Rightarrow> nat \<Rightarrow> cbb step" where
  "add_decimal mem v d = CBB_add_bytes mem (decimal (unat v)) d"

lemma base128_loop_shorter: "base128_loop v s = (Some w, r) \<Longrightarrow> length r < length s"
  by (induction v s rule: base128_loop.induct) (auto simp: base128_loop.simps Let_def split: if_splits)

function oid_text_rest :: "mem \<Rightarrow> cbs \<Rightarrow> cbb step" where
  "oid_text_rest mem cbs = (
     if length cbs \<noteq> 0 then
       (case parse_base128_integer cbs of
          (None, cbs) \<Rightarrow> ret False
        | (Some v, cbs) \<Rightarrow> and_then (CBB_add_u8 mem 0x2E 0) (and_then (add_decimal mem v 0) (oid_text_rest mem cbs)))
     else ret True)"
  by pat_completeness auto
termination
  by (relation "measure (\<lambda>(mem, cbs). length cbs)")
    (auto simp: parse_base128_integer_def dest!: base128_loop_shorter [OF sym])

declare oid_text_rest.simps [simp del]

text \<open>What \<open>CBS_asn1_oid_to_text\<close> writes before it finishes.\<close>

definition oid_text :: "mem \<Rightarrow> cbs \<Rightarrow> cbb step" where
  "oid_text mem cbs = (case parse_base128_integer cbs of
     (None, copy) \<Rightarrow> ret False
   | (Some v, copy) \<Rightarrow>
       and_then
         (if v \<ge> 80 then and_then (CBB_add_bytes mem [0x32, 0x2E] 0) (add_decimal mem (v - 80) 0)
          else and_then (add_decimal mem (v div 40) 0)
            (and_then (CBB_add_u8 mem 0x2E 0) (add_decimal mem (v mod 40) 0)))
         (and_then (oid_text_rest mem copy) (CBB_add_u8 mem 0 0)))"

text \<open>The text with its terminating zero; \<open>Some None\<close> is the \<open>NULL\<close> that is returned behind \<open>err\<close>.\<close>

definition CBS_asn1_oid_to_text :: "mem \<Rightarrow> cbs \<Rightarrow> u8 list option option" where
  "CBS_asn1_oid_to_text mem cbs = do {
     (ok, cbb) \<leftarrow> CBB_init mem 32;
     if \<not> ok then do { cbb \<leftarrow> CBB_cleanup 0 cbb; Some None }
     else do {
       (ok, cbb) \<leftarrow> oid_text mem cbs cbb;
       if \<not> ok then do { cbb \<leftarrow> CBB_cleanup 0 cbb; Some None }
       else do {
         (txt, cbb) \<leftarrow> CBB_finish mem False 0 cbb;
         if txt = None then do { cbb \<leftarrow> CBB_cleanup 0 cbb; Some None } else Some txt } } }"

section \<open>SET OF\<close>

text \<open>\<open>memcmp\<close> of two blocks of one length: the sign is that of the first difference.\<close>

fun OPENSSL_memcmp :: "u8 list \<Rightarrow> u8 list \<Rightarrow> int" where
  "OPENSSL_memcmp (a # as) (b # bs) = (if a = b then OPENSSL_memcmp as bs else uint a - uint b)"
| "OPENSSL_memcmp _ _ = 0"

lemma memcmp_zero: "length a = length b \<Longrightarrow> OPENSSL_memcmp a b = 0 \<longleftrightarrow> a = b"
  by (induction a b rule: OPENSSL_memcmp.induct) (auto dest: word_uint_eq_iff [THEN iffD2])

definition compare_set_of_element :: "cbs \<Rightarrow> cbs \<Rightarrow> int" where
  "compare_set_of_element a b = (let a_len = length a; b_len = length b;
     min_len = (if a_len < b_len then a_len else b_len);
     r = OPENSSL_memcmp (take min_len a) (take min_len b) in
     if r \<noteq> 0 then r else if a_len = b_len then 0 else if a_len < b_len then - 1 else 1)"

primrec insert_by :: "('a \<Rightarrow> 'a \<Rightarrow> int) \<Rightarrow> 'a \<Rightarrow> 'a list \<Rightarrow> 'a list" where
  "insert_by cmp x [] = [x]"
| "insert_by cmp x (y # ys) = (if cmp x y \<le> 0 then x # y # ys else y # insert_by cmp x ys)"

definition qsort :: "('a \<Rightarrow> 'a \<Rightarrow> int) \<Rightarrow> 'a list \<Rightarrow> 'a list" where
  "qsort cmp xs = foldr (insert_by cmp) xs []"

lemma any_element_shorter:
  "CBS_get_any_asn1_element s = (Some x, r) \<Longrightarrow> length r < length s"
proof -
  assume a: "CBS_get_any_asn1_element s = (Some x, r)"
  obtain el tag hl where x: "x = (el, tag, hl)" by (cases x)
  from any_element_SomeD [OF a [unfolded x]] obtain c where "s = (der_header tag (length c) @ c) @ r" by blast
  then show ?thesis using length_der_header(1) [of tag "length c"] by (cases "der_header tag (length c)") auto
qed

text \<open>The loop that counts the elements, and the one that reads \<open>n\<close> of them.\<close>

function count_elements :: "cbs \<Rightarrow> nat option" where
  "count_elements cbs = (
     if length cbs \<noteq> 0 then
       (case CBS_get_any_asn1_element cbs of
          (None, cbs) \<Rightarrow> None
        | (Some _, cbs) \<Rightarrow> map_option Suc (count_elements cbs))
     else Some 0)"
  by pat_completeness auto
termination
  by (relation "measure length") (auto dest!: any_element_shorter [OF sym])

declare count_elements.simps [simp del]

primrec get_elements :: "nat \<Rightarrow> cbs \<Rightarrow> cbs list option" where
  "get_elements 0 cbs = Some []"
| "get_elements (Suc n) cbs = (case CBS_get_any_asn1_element cbs of
     (None, cbs) \<Rightarrow> None
   | (Some (child, _, _), cbs) \<Rightarrow> map_option ((#) child) (get_elements n cbs))"

definition CBB_flush_asn1_set_of :: "mem \<Rightarrow> nat \<Rightarrow> cbb step" where
  "CBB_flush_asn1_set_of mem d = and_then (CBB_flush mem d) (\<lambda>cbb. do {
     dat \<leftarrow> CBB_data d cbb;
     buf_len \<leftarrow> CBB_len d cbb;
     case count_elements (CBS_init dat buf_len) of
       None \<Rightarrow> Some (False, cbb)
     | Some num_children \<Rightarrow>
         if num_children < 2 then Some (True, cbb)
         else if num_children > (2 ^ 64 - 1) div 16 then Some (False, cbb)
         else if \<not> mem buf_len \<or> \<not> mem (word_of_nat (num_children * 16)) then Some (False, cbb)
         else (case get_elements num_children (CBS_init dat buf_len) of
             None \<Rightarrow> Some (False, cbb)
           | Some els \<Rightarrow>
               let els = qsort compare_set_of_element els;
                 cbb = cbb\<lparr>base := map_option (\<lambda>b. b\<lparr>cbb_buf := take (unat (cbb_start d cbb)) (cbb_buf b)\<rparr>) (base cbb)\<rparr> in
               and_then (all_steps (\<lambda>child. CBB_add_bytes mem child d) els)
                 (\<lambda>cbb. if CBB_len d cbb = Some buf_len then Some (True, cbb) else None) cbb) })"

section \<open>Old-style output\<close>

text \<open>
  \<open>CBB_finish_i2d\<close> on a top-level object that can be resized; \<open>outp\<close> is \<open>None\<close> for \<open>NULL\<close>,
  \<open>Some None\<close> when it points to \<open>NULL\<close>, and the bytes from \<open>*outp\<close> on otherwise. The result is the value
  returned (\<open>-1\<close> or the length, by which \<open>*outp\<close> moves forward), the bytes at the old \<open>*outp\<close>, and the
  object.
\<close>

definition CBB_finish_i2d ::
  "mem \<Rightarrow> u8 list option option \<Rightarrow> cbb \<Rightarrow> (int \<times> u8 list option option \<times> cbb) option" where
  "CBB_finish_i2d mem outp cbb = do {
     b \<leftarrow> base cbb;
     if \<not> can_resize b then None
     else do {
       (der, cbb) \<leftarrow> CBB_finish mem False 0 cbb;
       (case der of
          None \<Rightarrow> do { cbb \<leftarrow> CBB_cleanup 0 cbb; Some (- 1, outp, cbb) }
        | Some der \<Rightarrow>
            if length der > 0x7FFFFFFF then Some (- 1, outp, cbb)
            else (case outp of
                None \<Rightarrow> Some (int (length der), None, cbb)
              | Some None \<Rightarrow> Some (int (length der), Some (Some der), cbb)
              | Some (Some buf) \<Rightarrow> do {
                  buf \<leftarrow> put buf 0 der;
                  Some (int (length der), Some (Some buf), cbb) })) } }"

end
