(* ===== verification/Compare.thy ===== *)
theory Compare
  imports Cbb_Asn1 "HOL-Library.Multiset"
begin

text \<open>
  The contract of the C comparison functions that sorting and searching rely on, and what follows
  for \<open>qsort\<close>; it holds of \<open>strcmp\<close> and of the comparison of byte strings by length and contents.
\<close>

locale comparison =
  fixes valid :: "'a \<Rightarrow> bool" and cmp :: "'a \<Rightarrow> 'a \<Rightarrow> int"
  assumes swap: "valid x \<Longrightarrow> valid y \<Longrightarrow> cmp x y < 0 \<longleftrightarrow> 0 < cmp y x"
    and trans: "valid x \<Longrightarrow> valid y \<Longrightarrow> valid z \<Longrightarrow> cmp x y \<le> 0 \<Longrightarrow> cmp y z \<le> 0 \<Longrightarrow> cmp x z \<le> 0"

lemma set_insert_cmp [simp]: "set (insert_by cmp x xs) = insert x (set xs)"
  by (induction xs) auto

lemma set_qsort [simp]: "set (qsort cmp xs) = set xs"
  by (induction xs) (simp_all add: qsort_def)

lemma length_insert_cmp [simp]: "length (insert_by cmp x xs) = Suc (length xs)"
  by (induction xs) auto

lemma length_qsort [simp]: "length (qsort cmp xs) = length xs"
  by (induction xs) (simp_all add: qsort_def)

lemma mset_insert_by [simp]: "mset (insert_by cmp x xs) = add_mset x (mset xs)"
  by (induction xs) simp_all

lemma mset_qsort [simp]: "mset (qsort cmp xs) = mset xs"
  by (induction xs) (simp_all add: qsort_def)

abbreviation cmp_sorted :: "('a \<Rightarrow> 'a \<Rightarrow> int) \<Rightarrow> 'a list \<Rightarrow> bool" where
  "cmp_sorted cmp \<equiv> sorted_wrt (\<lambda>x y. cmp x y \<le> 0)"

context comparison begin

lemma refl: "valid x \<Longrightarrow> cmp x x = 0"
  using swap [of x x] by linarith

lemma zero_swap: "valid x \<Longrightarrow> valid y \<Longrightarrow> cmp x y = 0 \<longleftrightarrow> cmp y x = 0"
  using swap [of x y] swap [of y x] by linarith

lemma trans_less: "valid x \<Longrightarrow> valid y \<Longrightarrow> valid z \<Longrightarrow> cmp x y < 0 \<Longrightarrow> cmp y z \<le> 0 \<Longrightarrow> cmp x z < 0"
  using trans [of x y z] trans [of y z x] swap [of x z] swap [of z x] swap [of x y] swap [of y x] by linarith

lemma less_trans: "valid x \<Longrightarrow> valid y \<Longrightarrow> valid z \<Longrightarrow> cmp x y \<le> 0 \<Longrightarrow> cmp y z < 0 \<Longrightarrow> cmp x z < 0"
  using trans [of x y z] trans [of z x y] swap [of x z] swap [of z x] swap [of y z] swap [of z y] by linarith

lemma insert_sorted:
  "\<forall>y \<in> insert x (set xs). valid y \<Longrightarrow> cmp_sorted cmp xs \<Longrightarrow> cmp_sorted cmp (insert_by cmp x xs)"
proof (induction xs)
  case (Cons y ys)
  have v: "valid x" "valid y" using Cons.prems(1) by simp_all
  show ?case
  proof (cases "cmp x y \<le> 0")
    case True
    have "cmp x z \<le> 0" if z: "z \<in> set ys" for z
      using trans [OF v _ True] z Cons.prems by simp
    then show ?thesis using True Cons.prems(2) by simp
  next
    case False
    then have "cmp y x \<le> 0" using swap [OF v(2,1)] by linarith
    then show ?thesis using False Cons by simp
  qed
qed simp

lemma qsort_sorted: "\<forall>y \<in> set xs. valid y \<Longrightarrow> cmp_sorted cmp (qsort cmp xs)"
proof (induction xs)
  case (Cons x xs)
  then have "cmp_sorted cmp (insert_by cmp x (qsort cmp xs))" by (intro insert_sorted) simp_all
  then show ?case by (simp add: qsort_def)
qed (simp add: qsort_def)

end

section \<open>Comparisons of the standard library\<close>

text \<open>C strings are given without their terminating zero.\<close>

fun strcmp :: "u8 list \<Rightarrow> u8 list \<Rightarrow> int" where
  "strcmp [] [] = 0"
| "strcmp [] (b # bs) = - uint b"
| "strcmp (a # as) [] = uint a"
| "strcmp (a # as) (b # bs) = (if a = b then strcmp as bs else uint a - uint b)"

definition is_cstring :: "u8 list \<Rightarrow> bool" where
  "is_cstring s \<longleftrightarrow> 0 \<notin> set s"

lemma uint_inject: "uint x = uint y \<longleftrightarrow> x = y"
  by (simp add: word_uint_eq_iff)

lemma uint_pos: "x \<noteq> 0 \<Longrightarrow> 0 < uint (x :: u8)"
proof -
  assume "x \<noteq> 0"
  then have "uint x \<noteq> uint (0 :: u8)" unfolding uint_inject .
  then show ?thesis using uint_ge_0 [of x] by (simp add: less_le)
qed

lemma strcmp_zero: "is_cstring a \<Longrightarrow> is_cstring b \<Longrightarrow> strcmp a b = 0 \<longleftrightarrow> a = b"
  by (induction a b rule: strcmp.induct) (auto simp: is_cstring_def uint_inject dest: uint_pos)

interpretation strcmp: comparison is_cstring strcmp
proof
  fix x y :: "u8 list" assume "is_cstring x" "is_cstring y"
  then show "strcmp x y < 0 \<longleftrightarrow> 0 < strcmp y x"
    by (induction x y rule: strcmp.induct) (auto simp: is_cstring_def uint_pos)
next
  fix x y z :: "u8 list"
  assume "is_cstring x" "is_cstring y" "is_cstring z" "strcmp x y \<le> 0" "strcmp y z \<le> 0"
  then show "strcmp x z \<le> 0"
  proof (induction x y arbitrary: z rule: strcmp.induct)
    case (4 a as b bs)
    show ?case
    proof (cases z)
      case (Cons c cs)
      have v: "is_cstring as" "is_cstring bs" "is_cstring cs" using 4(2,3,4) Cons by (simp_all add: is_cstring_def)
      have n: "uint a = uint b \<longleftrightarrow> a = b" "uint b = uint c \<longleftrightarrow> b = c" by (rule uint_inject)+
      show ?thesis
      proof (cases "a = b \<and> b = c")
        case True
        then show ?thesis using 4(1) [OF _ v] 4(5,6) Cons by simp
      next
        case False
        then show ?thesis using n 4(5,6) Cons by (cases "a = c") (simp_all split: if_splits)
      qed
    next
      case Nil
      then show ?thesis using 4 uint_pos [of b] by (auto simp: is_cstring_def)
    qed
  next
    case (3 a as)
    then show ?case using uint_pos [of a] by (simp add: is_cstring_def)
  next
    case (2 b bs)
    then show ?case by (cases z) simp_all
  next
    case 1
    then show ?case by (cases z) simp_all
  qed
qed

definition block_cmp :: "u8 list \<Rightarrow> u8 list \<Rightarrow> int" where
  "block_cmp a b = (if int (length a) - int (length b) \<noteq> 0 then int (length a) - int (length b) else OPENSSL_memcmp a b)"

lemma memcmp_order:
  "length x = length y \<Longrightarrow> OPENSSL_memcmp x y < 0 \<longleftrightarrow> 0 < OPENSSL_memcmp y x"
  by (induction x y rule: OPENSSL_memcmp.induct) auto

lemma memcmp_trans:
  "length x = length y \<Longrightarrow> length y = length z \<Longrightarrow> OPENSSL_memcmp x y \<le> 0 \<Longrightarrow> OPENSSL_memcmp y z \<le> 0 \<Longrightarrow> OPENSSL_memcmp x z \<le> 0"
proof (induction x y arbitrary: z rule: OPENSSL_memcmp.induct)
  case (1 a as b bs)
  then obtain c cs where z: "z = c # cs" by (cases z) auto
  have n: "uint a = uint b \<longleftrightarrow> a = b" "uint b = uint c \<longleftrightarrow> b = c" by (rule uint_inject)+
  show ?case
  proof (cases "a = b \<and> b = c")
    case True
    then show ?thesis using 1 z by simp
  next
    case False
    then show ?thesis using n 1(4,5) z by (cases "a = c") (simp_all split: if_splits)
  qed
qed auto

interpretation block_cmp: comparison "\<lambda>x. True" block_cmp
proof
  fix x y :: "u8 list"
  show "block_cmp x y < 0 \<longleftrightarrow> 0 < block_cmp y x" using memcmp_order [of x y] by (simp add: block_cmp_def)
next
  fix x y z :: "u8 list"
  assume a: "block_cmp x y \<le> 0" "block_cmp y z \<le> 0"
  show "block_cmp x z \<le> 0"
  proof (cases "length x = length y \<and> length y = length z")
    case True
    then show ?thesis using a memcmp_trans [of x y z] by (simp add: block_cmp_def)
  next
    case False
    then show ?thesis using a by (auto simp: block_cmp_def split: if_splits)
  qed
qed

end
