(* ===== verification/Unicode.thy ===== *)
theory Unicode
  imports Cbb
begin

text \<open>
  BoringSSL: the character writers of \<open>crypto/bytestring/unicode.c\<close>, on the writer of
  \<open>cbb.c\<close>. The readers are in the theory of \<open>cbs.c\<close>.
\<close>

definition cbb_get_utf8_len :: "u32 \<Rightarrow> u64" where
  "cbb_get_utf8_len u = (if u \<le> 0x7F then 1 else if u \<le> 0x7FF then 2 else if u \<le> 0xFFFF then 3 else 4)"

definition cbb_add_utf8 :: "mem \<Rightarrow> u32 \<Rightarrow> nat \<Rightarrow> cbb step" where
  "cbb_add_utf8 mem u d = (let low = (\<lambda>w. ucast (w :: u32) AND BOTTOM_BITS 6) in
     if \<not> is_valid_code_point u then ret False
     else if u \<le> 0x7F then CBB_add_u8 mem (ucast u) d
     else if u \<le> 0x7FF then
       and_then (CBB_add_u8 mem (TOP_BITS 2 OR ucast (drop_bit 6 u)) d)
         (CBB_add_u8 mem (TOP_BITS 1 OR low u) d)
     else if u \<le> 0xFFFF then
       and_then (CBB_add_u8 mem (TOP_BITS 3 OR ucast (drop_bit 12 u)) d)
         (and_then (CBB_add_u8 mem (TOP_BITS 1 OR low (drop_bit 6 u)) d)
           (CBB_add_u8 mem (TOP_BITS 1 OR low u) d))
     else if u \<le> 0x10FFFF then
       and_then (CBB_add_u8 mem (TOP_BITS 4 OR ucast (drop_bit 18 u)) d)
         (and_then (CBB_add_u8 mem (TOP_BITS 1 OR low (drop_bit 12 u)) d)
           (and_then (CBB_add_u8 mem (TOP_BITS 1 OR low (drop_bit 6 u)) d)
             (CBB_add_u8 mem (TOP_BITS 1 OR low u) d)))
     else ret False)"

definition cbb_add_latin1 :: "mem \<Rightarrow> u32 \<Rightarrow> nat \<Rightarrow> cbb step" where
  "cbb_add_latin1 mem u d = (if u \<le> 0xFF then CBB_add_u8 mem (ucast u) d else ret False)"

definition cbb_add_ucs2_be :: "mem \<Rightarrow> u32 \<Rightarrow> nat \<Rightarrow> cbb step" where
  "cbb_add_ucs2_be mem u d = (if u \<le> 0xFFFF \<and> is_valid_code_point u then CBB_add_u16 mem (ucast u) d else ret False)"

definition cbb_add_utf32_be :: "mem \<Rightarrow> u32 \<Rightarrow> nat \<Rightarrow> cbb step" where
  "cbb_add_utf32_be mem u d = (if is_valid_code_point u then CBB_add_u32 mem u d else ret False)"

end
