(* ===== verification/Unicode_Spec.thy ===== *)
theory Unicode_Spec
  imports Asn1_Spec Unicode
begin

text \<open>
  The character encodings of \<open>unicode.c\<close>: each reader accepts exactly what the writer of the
  same encoding writes.
\<close>

section \<open>The bytes of a character\<close>

definition utf8_bytes :: "u32 \<Rightarrow> u8 list" where
  "utf8_bytes u = (let b = (\<lambda>k. 0x80 OR (ucast (drop_bit k u) AND 0x3F)) in
     if u \<le> 0x7F then [ucast u]
     else if u \<le> 0x7FF then [0xC0 OR ucast (drop_bit 6 u), b 0]
     else if u \<le> 0xFFFF then [0xE0 OR ucast (drop_bit 12 u), b 6, b 0]
     else [0xF0 OR ucast (drop_bit 18 u), b 12, b 6, b 0])"

lemma bits_consts:
  "BOTTOM_BITS 6 = 0x3F" "BOTTOM_BITS 5 = 0x1F" "BOTTOM_BITS 4 = 0x0F" "BOTTOM_BITS 3 = 0x07"
  "TOP_BITS 1 = 0x80" "TOP_BITS (Suc 0) = 0x80" "TOP_BITS 2 = 0xC0" "TOP_BITS 3 = 0xE0" "TOP_BITS 4 = 0xF0" "TOP_BITS 5 = 0xF8"
  by (simp_all add: BOTTOM_BITS_def TOP_BITS_def)

lemma bound_bits: "unat (u :: u32) < 2 ^ n \<Longrightarrow> bit u k \<Longrightarrow> k < n"
proof -
  assume "unat u < 2 ^ n" "bit u k"
  then have "take_bit n u = u" by (simp add: word_unat_eq_iff unsigned_take_bit_eq take_bit_nat_eq_self)
  then show "k < n" using \<open>bit u k\<close> by (metis bit_take_bit_iff)
qed

lemma bits_bound: "(\<And>k. bit (u :: u32) k \<Longrightarrow> k < n) \<Longrightarrow> unat u < 2 ^ n"
proof -
  assume a: "\<And>k. bit u k \<Longrightarrow> k < n"
  have "take_bit n u = u" by (rule bit_word_eqI) (auto simp: bit_take_bit_iff dest: a)
  then have "unat u = take_bit n (unat u)" by (metis unsigned_take_bit_eq)
  then show "unat u < 2 ^ n" by (metis take_bit_nat_less_exp)
qed

definition cont_byte :: "u32 \<Rightarrow> nat \<Rightarrow> u8" where
  "cont_byte u i = 0x80 OR (ucast (drop_bit (6 * i) u) AND 0x3F)"

lemma utf8_bytes_cont:
  "utf8_bytes u = (if u \<le> 0x7F then [ucast u]
     else if u \<le> 0x7FF then [0xC0 OR ucast (drop_bit (6 * 1) u)] @ map (cont_byte u) (rev [0..<1])
     else if u \<le> 0xFFFF then [0xE0 OR ucast (drop_bit (6 * 2) u)] @ map (cont_byte u) (rev [0..<2])
     else [0xF0 OR ucast (drop_bit (6 * 3) u)] @ map (cont_byte u) (rev [0..<3]))"
  by (simp add: utf8_bytes_def cont_byte_def Let_def upt_rec [of _ "Suc 0"] upt_rec [of _ 2] upt_rec [of _ 3])

lemma cont_byte:
  "cont_byte u i AND 0xC0 = 0x80"
  "push_bit 6 (drop_bit (6 * Suc i) u) OR ucast (cont_byte u i AND 0x3F) = drop_bit (6 * i) u"
proof -
  show "cont_byte u i AND 0xC0 = 0x80"
    unfolding cont_byte_def by (rule bit_word_eqI) (auto simp: bit_simps)
  show "push_bit 6 (drop_bit (6 * Suc i) u) OR ucast (cont_byte u i AND 0x3F) = drop_bit (6 * i) u"
  proof (rule bit_word_eqI)
    fix n assume n: "n < LENGTH(32)"
    show "bit (push_bit 6 (drop_bit (6 * Suc i) u) OR ucast (cont_byte u i AND 0x3F)) n = bit (drop_bit (6 * i) u) n"
    proof (cases "n < 6")
      case True
      then show ?thesis unfolding cont_byte_def by (auto simp: bit_simps)
    next
      case False
      then obtain m where "n = 6 + m" using le_Suc_ex not_less by blast
      then show ?thesis using n unfolding cont_byte_def by (auto simp: bit_simps ac_simps)
    qed
  qed
qed

lemma utf8_loop_step:
  "utf8_loop (Suc n) v (c # s) = (if c AND 0xC0 = 0x80 then utf8_loop n (push_bit 6 v OR ucast (c AND 0x3F)) s else (None, s))"
  by (simp add: cbs_defs bits_consts)

declare utf8_loop.simps(2) [simp del]

lemma utf8_loop_bytes:
  "utf8_loop n (drop_bit (6 * n) u) (map (cont_byte u) (rev [0..<n]) @ r) = (Some u, r)"
proof (induction n)
  case (Suc n)
  then show ?case using cont_byte [where u = u and i = n] by (simp add: utf8_loop_step del: mult_Suc_right)
qed (simp add: cbs_defs)

lemma utf8_loop_SomeD:
  "utf8_loop n v s = (Some u, r) \<Longrightarrow> unat v < 2 ^ (32 - 6 * n) \<Longrightarrow> n \<le> 5 \<Longrightarrow>
   s = map (cont_byte u) (rev [0..<n]) @ r \<and> drop_bit (6 * n) u = v"
proof (induction n arbitrary: v s)
  case (Suc n)
  then obtain c s' where s: "s = c # s'" by (cases s) (auto simp: utf8_loop.simps(2) cbs_defs)
  let ?v = "push_bit 6 v OR ucast (c AND 0x3F) :: u32"
  have c: "c AND 0xC0 = 0x80" and rec: "utf8_loop n ?v s' = (Some u, r)"
    using Suc.prems(1) unfolding s utf8_loop_step by (auto split: if_splits)
  have v: "bit v k \<Longrightarrow> k < 26 - 6 * n" for k using bound_bits [OF Suc.prems(2)] by simp
  have "unat ?v < 2 ^ (32 - 6 * n)"
    using Suc.prems(3) by (intro bits_bound) (auto simp: bit_simps dest!: v)
  from Suc.IH [OF rec this] Suc.prems(3) have i: "s' = map (cont_byte u) (rev [0..<n]) @ r" "drop_bit (6 * n) u = ?v" by auto
  have "drop_bit 6 ?v = v"
    using Suc.prems(3) by (intro bit_word_eqI) (auto simp: bit_simps dest: v)
  then have d: "drop_bit (6 * Suc n) u = v"
    using i(2) by (metis drop_bit_drop_bit mult_Suc_right)
  have "cont_byte u n = 0x80 OR (c AND 0x3F)"
    unfolding cont_byte_def i(2) by (rule bit_word_eqI) (auto simp: bit_simps)
  also have "\<dots> = c"
  proof -
    have "(c AND 0xC0) OR (c AND 0x3F) = c" by (rule bit_word_eqI) (auto simp: bit_simps)
    then show ?thesis by (simp add: c)
  qed
  finally show ?case using i(1) d by (simp add: s)
qed (simp add: cbs_defs)

text \<open>The leading bytes.\<close>

lemma lead_split:
  fixes c :: u8
  shows "c AND 0xE0 = 0xC0 \<Longrightarrow> 0xC0 OR (c AND 0x1F) = c" "c AND 0xF0 = 0xE0 \<Longrightarrow> 0xE0 OR (c AND 0x0F) = c"
    "c AND 0xF8 = 0xF0 \<Longrightarrow> 0xF0 OR (c AND 0x07) = c"
proof -
  have "(c AND 0xE0) OR (c AND 0x1F) = c" "(c AND 0xF0) OR (c AND 0x0F) = c" "(c AND 0xF8) OR (c AND 0x07) = c"
    by (rule bit_word_eqI, auto simp: bit_simps)+
  then show "c AND 0xE0 = 0xC0 \<Longrightarrow> 0xC0 OR (c AND 0x1F) = c" "c AND 0xF0 = 0xE0 \<Longrightarrow> 0xE0 OR (c AND 0x0F) = c"
    "c AND 0xF8 = 0xF0 \<Longrightarrow> 0xF0 OR (c AND 0x07) = c" by metis+
qed

lemma lead_bytes:
  fixes w :: u32
  shows "unat w < 2 ^ 5 \<Longrightarrow> (0xC0 OR ucast w) AND (0xE0 :: u8) = 0xC0 \<and> ucast ((0xC0 OR ucast w) AND (0x1F :: u8)) = w"
    and "unat w < 2 ^ 4 \<Longrightarrow> (0xE0 OR ucast w) AND (0xF0 :: u8) = 0xE0 \<and> ucast ((0xE0 OR ucast w) AND (0x0F :: u8)) = w"
    and "unat w < 2 ^ 3 \<Longrightarrow> (0xF0 OR ucast w) AND (0xF8 :: u8) = 0xF0 \<and> ucast ((0xF0 OR ucast w) AND (0x07 :: u8)) = w"
proof -
  show "unat w < 2 ^ 5 \<Longrightarrow> (0xC0 OR ucast w) AND (0xE0 :: u8) = 0xC0 \<and> ucast ((0xC0 OR ucast w) AND (0x1F :: u8)) = w"
  proof -
    assume "unat w < 2 ^ 5"
    note b = bound_bits [OF this]
    show ?thesis by (intro conjI bit_word_eqI; auto simp: bit_simps dest: b)
  qed
  show "unat w < 2 ^ 4 \<Longrightarrow> (0xE0 OR ucast w) AND (0xF0 :: u8) = 0xE0 \<and> ucast ((0xE0 OR ucast w) AND (0x0F :: u8)) = w"
  proof -
    assume "unat w < 2 ^ 4"
    note b = bound_bits [OF this]
    show ?thesis by (intro conjI bit_word_eqI; auto simp: bit_simps dest: b)
  qed
  show "unat w < 2 ^ 3 \<Longrightarrow> (0xF0 OR ucast w) AND (0xF8 :: u8) = 0xF0 \<and> ucast ((0xF0 OR ucast w) AND (0x07 :: u8)) = w"
  proof -
    assume "unat w < 2 ^ 3"
    note b = bound_bits [OF this]
    show ?thesis by (intro conjI bit_word_eqI; auto simp: bit_simps dest: b)
  qed
qed

text \<open>A byte with a top bit set is above 7F, and the three patterns exclude each other.\<close>

lemma lead_patterns:
  fixes c :: u8
  shows "c AND 0xE0 = 0xC0 \<Longrightarrow> \<not> c \<le> 0x7F"
    and "c AND 0xF0 = 0xE0 \<Longrightarrow> \<not> c \<le> 0x7F \<and> c AND 0xE0 \<noteq> 0xC0"
    and "c AND 0xF8 = 0xF0 \<Longrightarrow> \<not> c \<le> 0x7F \<and> c AND 0xE0 \<noteq> 0xC0 \<and> c AND 0xF0 \<noteq> 0xE0"
proof -
  have low: "\<not> bit c 7" if "c \<le> 0x7F" for c :: u8
  proof -
    have "unat c < 128" using that by (simp add: word_le_nat_alt)
    then have "take_bit 7 c = c" by (simp add: word_unat_eq_iff unsigned_take_bit_eq take_bit_nat_eq_self)
    then show ?thesis by (metis bit_take_bit_iff less_irrefl)
  qed
  have b: "bit c k" if "c AND m = t" "bit t k" for m t k using that by (auto simp: bit_and_iff)
  have nb: "\<not> bit c k" if "c AND m = t" "\<not> bit t k" "bit m k" for m t k using that by (auto simp: bit_and_iff)
  show "c AND 0xE0 = 0xC0 \<Longrightarrow> \<not> c \<le> 0x7F" using b [of "0xE0" "0xC0" 7] low [of c] by auto
  show "c AND 0xF0 = 0xE0 \<Longrightarrow> \<not> c \<le> 0x7F \<and> c AND 0xE0 \<noteq> 0xC0"
    using b [of "0xF0" "0xE0" 7] b [of "0xF0" "0xE0" 5] nb [of "0xE0" "0xC0" 5] low [of c] by auto
  show "c AND 0xF8 = 0xF0 \<Longrightarrow> \<not> c \<le> 0x7F \<and> c AND 0xE0 \<noteq> 0xC0 \<and> c AND 0xF0 \<noteq> 0xE0"
    using b [of "0xF8" "0xF0" 7] b [of "0xF8" "0xF0" 5] b [of "0xF8" "0xF0" 4] nb [of "0xE0" "0xC0" 5]
      nb [of "0xF0" "0xE0" 4] low [of c] by auto
qed


section \<open>Reading UTF-8\<close>

lemma get_utf8_Cons:
  "cbs_get_utf8 (c # s) = (let rest_of = (\<lambda>v n lower_bound. cbs_then (utf8_loop n (ucast v)) (\<lambda>v.
      if \<not> is_valid_code_point v \<or> v < lower_bound then cbs_fail else cbs_return v) s) in
    if c \<le> 0x7F then (Some (ucast c), s)
    else if c AND 0xE0 = 0xC0 then rest_of (c AND 0x1F) 1 0x80
    else if c AND 0xF0 = 0xE0 then rest_of (c AND 0x0F) 2 0x800
    else if c AND 0xF8 = 0xF0 then rest_of (c AND 0x07) 3 0x10000
    else (None, s))"
  by (simp add: cbs_get_utf8_def cbs_defs bits_consts Let_def)

lemma valid_code_point_bound: "is_valid_code_point u \<Longrightarrow> u \<le> 0x10FFFF"
  by (auto simp: is_valid_code_point_def split: if_splits)

lemma ascii_valid: "u \<le> 0x7F \<Longrightarrow> is_valid_code_point u"
proof -
  assume u: "u \<le> 0x7F"
  then have "unat u < 2 ^ 7" by (simp add: word_le_nat_alt)
  note b = bound_bits [OF this]
  have "\<not> u AND 0xFFFE = 0xFFFE"
  proof
    assume "u AND 0xFFFE = 0xFFFE"
    then have "bit (u AND 0xFFFE) 8" by simp
    then have "bit u 8" by (simp only: bit_and_iff)
    then show False using b by fastforce
  qed
  then show ?thesis using u by (auto simp: is_valid_code_point_def word_le_nat_alt word_less_nat_alt)
qed

lemma get_utf8_bytes:
  assumes "is_valid_code_point u"
  shows "cbs_get_utf8 (utf8_bytes u @ r) = (Some u, r)"
proof -
  have small: "unat (drop_bit k u) < 2 ^ n" if "unat u < 2 ^ (n + k)" for k n
    using that unfolding unat_drop_bit_div by (simp add: div_less_iff_less_mult power_add)
  have le: "unat u \<le> 0x10FFFF" using valid_code_point_bound [OF assms] by (simp add: word_le_nat_alt)
  consider (1) "u \<le> 0x7F" | (2) "\<not> u \<le> 0x7F" "u \<le> 0x7FF" | (3) "\<not> u \<le> 0x7FF" "u \<le> 0xFFFF" | (4) "\<not> u \<le> 0xFFFF"
    by blast
  then show ?thesis
  proof cases
    case 1
    then have "unat (ucast u :: u8) = unat u"
      by (simp add: unsigned_ucast_eq take_bit_nat_eq_self word_le_nat_alt)
    then have "ucast u \<le> (0x7F :: u8)" "ucast (ucast u :: u8) = u"
      using 1 by (simp_all add: word_le_nat_alt word_unat_eq_iff)
    then show ?thesis using 1 by (simp add: utf8_bytes_def get_utf8_Cons)
  next
    case 2
    then have "unat (drop_bit (6 * 1) u) < 2 ^ 5" by (intro small) (simp add: word_le_nat_alt)
    note l = lead_bytes(1) [OF this]
    note p = lead_patterns(1) [OF conjunct1 [OF l]]
    have nl: "\<not> u < 0x80" using 2 by (auto simp: word_le_nat_alt word_less_nat_alt)
    show ?thesis
      unfolding utf8_bytes_cont if_not_P [OF 2(1)] if_P [OF 2(2)] append_assoc append_Cons append_Nil get_utf8_Cons Let_def
        if_not_P [OF p] if_P [OF conjunct1 [OF l]] conjunct2 [OF l] cbs_then_def utf8_loop_bytes
      using assms nl by (simp add: cbs_defs)
  next
    case 3
    then have "unat (drop_bit (6 * 2) u) < 2 ^ 4" by (intro small) (simp add: word_le_nat_alt)
    note l = lead_bytes(2) [OF this]
    note p = lead_patterns(2) [OF conjunct1 [OF l]]
    have nl: "\<not> u < 0x800" "\<not> u \<le> 0x7F" using 3 by (auto simp: word_le_nat_alt word_less_nat_alt)
    show ?thesis
      unfolding utf8_bytes_cont if_not_P [OF nl(2)] if_not_P [OF 3(1)] if_P [OF 3(2)] append_assoc append_Cons append_Nil get_utf8_Cons Let_def
        if_not_P [OF conjunct1 [OF p]] if_not_P [OF conjunct2 [OF p]] if_P [OF conjunct1 [OF l]] conjunct2 [OF l] cbs_then_def utf8_loop_bytes
      using assms nl by (simp add: cbs_defs)
  next
    case 4
    then have "unat (drop_bit (6 * 3) u) < 2 ^ 3" using le by (intro small) (simp add: word_le_nat_alt)
    note l = lead_bytes(3) [OF this]
    note p = lead_patterns(3) [OF conjunct1 [OF l]]
    have nl: "\<not> u < 0x10000" "\<not> u \<le> 0x7F" "\<not> u \<le> 0x7FF" using 4 by (auto simp: word_le_nat_alt word_less_nat_alt)
    show ?thesis
      unfolding utf8_bytes_cont if_not_P [OF nl(2)] if_not_P [OF nl(3)] if_not_P [OF 4] append_assoc append_Cons append_Nil get_utf8_Cons Let_def
        if_not_P [OF conjunct1 [OF p]] if_not_P [OF conjunct1 [OF conjunct2 [OF p]]] if_not_P [OF conjunct2 [OF conjunct2 [OF p]]]
        if_P [OF conjunct1 [OF l]] conjunct2 [OF l] cbs_then_def utf8_loop_bytes
      using assms nl by (simp add: cbs_defs)
  qed
qed

lemma get_utf8_SomeD:
  assumes "cbs_get_utf8 s = (Some u, r)"
  shows "is_valid_code_point u \<and> s = utf8_bytes u @ r"
proof -
  obtain c s' where s: "s = c # s'" using assms by (cases s) (auto simp: cbs_get_utf8_def cbs_defs)
  have loopD: "is_valid_code_point u \<and> \<not> u < lb \<and> s' = map (cont_byte u) (rev [0..<n]) @ r \<and> drop_bit (6 * n) u = ucast v"
    if "cbs_then (utf8_loop n (ucast v)) (\<lambda>v. if \<not> is_valid_code_point v \<or> v < lb then cbs_fail else cbs_return v) s' = (Some u, r)"
      "n \<le> 3" "unat (v :: u8) < 2 ^ (32 - 6 * n)" for n v lb
  proof -
    note h = that
    obtain w t where w: "utf8_loop n (ucast v) s' = (Some w, t)"
      using h(1) by (cases "utf8_loop n (ucast v) s'"; cases "fst (utf8_loop n (ucast v) s')") (auto simp: cbs_then_def)
    then have "w = u" "t = r" "is_valid_code_point u" "\<not> u < lb"
      using that(1) by (auto simp: cbs_defs split: if_splits)
    then show ?thesis using utf8_loop_SomeD [OF w] that(2,3) by simp
  qed
  have up: "unat u < 2 ^ (m + 6 * n)" if "drop_bit (6 * n) u = ucast (v :: u8)" "unat v < 2 ^ m" for n v m
  proof -
    have "unat u div 2 ^ (6 * n) < 2 ^ m" using that unat_drop_bit_div [of "6 * n" u] by simp
    then show ?thesis by (simp add: div_less_iff_less_mult power_add)
  qed
  have masks: "unat (c AND 0x1F) \<le> 31" "unat (c AND 0x0F) \<le> 15" "unat (c AND 0x07) \<le> 7"
    using word_and_le1 [of c "0x1F"] word_and_le1 [of c "0x0F"] word_and_le1 [of c "0x07"] by (simp_all add: word_le_nat_alt)
  note again = ucast_up_down [where 'a = 8 and 'b = 32, simplified]
  consider (1) "c \<le> 0x7F" | (2) "\<not> c \<le> 0x7F" "c AND 0xE0 = 0xC0"
    | (3) "\<not> c \<le> 0x7F" "c AND 0xE0 \<noteq> 0xC0" "c AND 0xF0 = 0xE0"
    | (4) "\<not> c \<le> 0x7F" "c AND 0xE0 \<noteq> 0xC0" "c AND 0xF0 \<noteq> 0xE0" "c AND 0xF8 = 0xF0"
    | (5) "\<not> c \<le> 0x7F" "c AND 0xE0 \<noteq> 0xC0" "c AND 0xF0 \<noteq> 0xE0" "c AND 0xF8 \<noteq> 0xF0" by blast
  then show ?thesis
  proof cases
    case 1
    then have u: "u = ucast c" "r = s'" using assms by (simp_all add: s get_utf8_Cons)
    then have "u \<le> 0x7F" using 1 by (simp add: word_le_nat_alt)
    then show ?thesis using u ascii_valid again by (simp add: utf8_bytes_def s)
  next
    case 2
    note a = assms [unfolded s get_utf8_Cons Let_def if_not_P [OF 2(1)] if_P [OF 2(2)]]
    have d: "is_valid_code_point u" "\<not> u < 0x80" "s' = map (cont_byte u) (rev [0..<1]) @ r" "drop_bit (6 * 1) u = ucast (c AND 0x1F)"
      using loopD [OF a] masks(1) by simp_all
    have "unat u < 2 ^ (5 + 6 * 1)" using masks(1) by (intro up [OF d(4)]) simp
    then have r: "\<not> u \<le> 0x7F" "u \<le> 0x7FF" using d(2) by (auto simp: word_le_nat_alt word_less_nat_alt)
    show ?thesis
      unfolding s utf8_bytes_cont if_not_P [OF r(1)] if_P [OF r(2)] d(4) again lead_split(1) [OF 2(2)]
      using d(1,3) by simp
  next
    case 3
    note a = assms [unfolded s get_utf8_Cons Let_def if_not_P [OF 3(1)] if_not_P [OF 3(2)] if_P [OF 3(3)]]
    have d: "is_valid_code_point u" "\<not> u < 0x800" "s' = map (cont_byte u) (rev [0..<2]) @ r" "drop_bit (6 * 2) u = ucast (c AND 0x0F)"
      using loopD [OF a] masks(2) by simp_all
    have "unat u < 2 ^ (4 + 6 * 2)" using masks(2) by (intro up [OF d(4)]) simp
    then have r: "\<not> u \<le> 0x7F" "\<not> u \<le> 0x7FF" "u \<le> 0xFFFF" using d(2) by (auto simp: word_le_nat_alt word_less_nat_alt)
    show ?thesis
      unfolding s utf8_bytes_cont if_not_P [OF r(1)] if_not_P [OF r(2)] if_P [OF r(3)] d(4) again lead_split(2) [OF 3(3)]
      using d(1,3) by simp
  next
    case 4
    note a = assms [unfolded s get_utf8_Cons Let_def if_not_P [OF 4(1)] if_not_P [OF 4(2)] if_not_P [OF 4(3)] if_P [OF 4(4)]]
    have d: "is_valid_code_point u" "\<not> u < 0x10000" "s' = map (cont_byte u) (rev [0..<3]) @ r" "drop_bit (6 * 3) u = ucast (c AND 0x07)"
      using loopD [OF a] masks(3) by simp_all
    have r: "\<not> u \<le> 0x7F" "\<not> u \<le> 0x7FF" "\<not> u \<le> 0xFFFF" using d(2) by (auto simp: word_le_nat_alt word_less_nat_alt)
    show ?thesis
      unfolding s utf8_bytes_cont if_not_P [OF r(1)] if_not_P [OF r(2)] if_not_P [OF r(3)] d(4) again lead_split(3) [OF 4(4)]
      using d(1,3) by simp
  next
    case 5
    then show ?thesis using assms by (simp add: s get_utf8_Cons)
  qed
qed


section \<open>Writing\<close>

lemma add_utf8_eq:
  "cbb_add_utf8 mem u d = (if is_valid_code_point u then all_steps (\<lambda>v. CBB_add_u8 mem v d) (utf8_bytes u) else ret False)"
proof -
  have last: "and_then f (ret True) = f" for f :: "cbb step"
    by (rule ext) (auto simp: and_then_def ret_def split: option.split)
  show ?thesis
    using valid_code_point_bound [of u]
    by (simp add: cbb_add_utf8_def utf8_bytes_def Let_def bits_consts last)
qed

lemma appends_False: "appends mem d (ret False) None"
  by (rule appendsI) (auto simp: ret_def)

lemma produced_iff:
  assumes "appends mem 0 f e" "keeping (open_at 0) f (open_at 0)" "\<forall>n. mem n" "\<And>bs. e = Some bs \<Longrightarrow> length bs < 2 ^ 64"
  shows "produced mem cap f = Some e"
  using produced_appends [OF assms(1,2), of cap] assms(3,4) by auto

text \<open>What an encoder that always writes the same bytes, or none, produces.\<close>

lemma produced_u8s:
  assumes "f = (if c then all_steps (\<lambda>v. CBB_add_u8 mem v 0) bs else ret False)" "\<forall>n. mem n" "length bs < 2 ^ 64"
  shows "produced mem cap f = Some (if c then Some bs else None)"
proof (cases c)
  case True
  then show ?thesis
    using produced_iff [OF appends_u8s keeping_u8s_open assms(2), of bs cap] assms(1,3) by simp
next
  case False
  have "keeping (open_at 0) (ret False) (open_at 0)" by (simp add: keeping_def ret_def)
  then show ?thesis using produced_iff [OF appends_False _ assms(2)] assms(1) False by simp
qed

lemma keeping_add_u8_16_32:
  "keeping (open_at d) (CBB_add_u16 mem w d) (open_at d)" "keeping (open_at d) (CBB_add_u32 mem v d) (open_at d)"
  unfolding CBB_add_u16_def CBB_add_u32_def
  by (rule keeping_mono [OF keeping_flush_then [OF keeping_add_u]]; simp)+

lemma drop_ucast: "n \<ge> LENGTH('a) \<Longrightarrow> drop_bit n (ucast (w :: 'a::len word) :: u64) = 0"
  by (rule bit_eqI) (auto simp: bit_simps dest: bit_imp_le_length)

lemma add_u_be:
  "appends mem d (CBB_add_u16 mem w d) (Some (be_bytes 2 (unat w)))"
  "appends mem d (CBB_add_u32 mem v d) (Some (be_bytes 4 (unat v)))"
proof -
  have z: "drop_bit (8 * 2) (ucast w :: u64) = 0" "drop_bit (8 * 4) (ucast v :: u64) = 0"
    by (rule drop_ucast; simp)+
  have u: "unat (ucast w :: u64) = unat w" "unat (ucast v :: u64) = unat v" by (simp_all add: unat_ucast_up)
  have "appends mem d (CBB_add_u16 mem w d)
      (if drop_bit (8 * 2) (ucast w :: u64) = 0 then Some (be_bytes 2 (unat (ucast w :: u64))) else None)"
    unfolding CBB_add_u16_def by (intro appends_flush_then appends_add_u) simp_all
  then show "appends mem d (CBB_add_u16 mem w d) (Some (be_bytes 2 (unat w)))" unfolding z u by simp
  have "appends mem d (CBB_add_u32 mem v d)
      (if drop_bit (8 * 4) (ucast v :: u64) = 0 then Some (be_bytes 4 (unat (ucast v :: u64))) else None)"
    unfolding CBB_add_u32_def by (intro appends_flush_then appends_add_u) simp_all
  then show "appends mem d (CBB_add_u32 mem v d) (Some (be_bytes 4 (unat v)))" unfolding z u by simp
qed

text \<open>An encoding that the writer \<open>f\<close> and the reader \<open>g\<close> agree on: the reader accepts exactly
  what the writer writes.\<close>

definition codec :: "(mem \<Rightarrow> 'a \<Rightarrow> nat \<Rightarrow> cbb step) \<Rightarrow> 'a cbs_reader \<Rightarrow> bool" where
  "codec f g \<longleftrightarrow> (\<forall>v s r. g s = (Some v, r) \<longleftrightarrow>
     (\<exists>bs. produced (\<lambda>n. True) 0 (f (\<lambda>n. True) v 0) = Some (Some bs) \<and> s = bs @ r))"

lemma codecI:
  assumes "\<And>v. produced (\<lambda>n. True) 0 (f (\<lambda>n. True) v 0) = Some (if P v then Some (e v) else None)"
    and "\<And>v r. P v \<Longrightarrow> g (e v @ r) = (Some v, r)"
    and "\<And>v s r. g s = (Some v, r) \<Longrightarrow> P v \<and> s = e v @ r"
  shows "codec f g"
  unfolding codec_def assms(1) using assms(2,3) by auto

lemma produced_step:
  assumes "appends mem 0 f (Some e)" "keeping (open_at 0) f (open_at 0)" "\<forall>n. mem n" "length e < 2 ^ 64"
  shows "produced mem cap (if P then f else ret False) = Some (if P then Some e else None)"
  using produced_iff [OF assms(1,2,3), of cap] produced_iff [OF appends_False _ assms(3), of cap] assms(4)
  by (simp add: keeping_def ret_def)

lemma get_u16_iff: "CBS_get_u16 s = (Some w, r) \<longleftrightarrow> s = be_bytes 2 (unat w) @ r"
proof
  assume "CBS_get_u16 s = (Some w, r)"
  then obtain v where v: "cbs_get_u 2 s = (Some v, r)" "w = ucast v"
    by (auto simp: CBS_get_u16_def cbs_defs split: prod.splits option.splits)
  from get_u_SomeD [OF v(1)] obtain xs where xs: "s = xs @ r" "length xs = 2" "v = word_of_nat (be_nat xs)" by auto
  have b: "be_nat xs < 256 ^ 2" using be_nat_bound [of xs] xs(2) by simp
  then have "unat w = be_nat xs"
    unfolding v(2) xs(3) by (simp add: unsigned_ucast_eq unat_of_nat take_bit_nat_eq_self)
  then show "s = be_bytes 2 (unat w) @ r" using be_bytes_be_nat [of 2 xs] xs by simp
next
  assume s: "s = be_bytes 2 (unat w) @ r"
  have b: "unat w < 256 ^ 2" using unsigned_less [of w, where 'a = nat] by simp
  then have "cbs_get_u 2 s = (Some (word_of_nat (unat w)), r)"
    using get_u_append [of "be_bytes 2 (unat w)" 2 r] unfolding s by (simp add: be_nat_be_bytes)
  then show "CBS_get_u16 s = (Some w, r)" by (simp add: CBS_get_u16_def cbs_defs ucast_up_down)
qed

lemma get_u32_iff: "CBS_get_u32 s = (Some w, r) \<longleftrightarrow> s = be_bytes 4 (unat w) @ r"
proof
  assume "CBS_get_u32 s = (Some w, r)"
  then obtain v where v: "cbs_get_u 4 s = (Some v, r)" "w = ucast v"
    by (auto simp: CBS_get_u32_def cbs_defs split: prod.splits option.splits)
  from get_u_SomeD [OF v(1)] obtain xs where xs: "s = xs @ r" "length xs = 4" "v = word_of_nat (be_nat xs)" by auto
  have b: "be_nat xs < 256 ^ 4" using be_nat_bound [of xs] xs(2) by simp
  then have "unat w = be_nat xs"
    unfolding v(2) xs(3) by (simp add: unsigned_ucast_eq unat_of_nat take_bit_nat_eq_self)
  then show "s = be_bytes 4 (unat w) @ r" using be_bytes_be_nat [of 4 xs] xs by simp
next
  assume s: "s = be_bytes 4 (unat w) @ r"
  have b: "unat w < 256 ^ 4" using unat_u32_less [of w] by simp
  then have "cbs_get_u 4 s = (Some (word_of_nat (unat w)), r)"
    using get_u_append [of "be_bytes 4 (unat w)" 4 r] unfolding s by (simp add: be_nat_be_bytes)
  then show "CBS_get_u32 s = (Some w, r)" by (simp add: CBS_get_u32_def cbs_defs ucast_up_down)
qed

lemma codec_utf8: "codec cbb_add_utf8 cbs_get_utf8"
proof (rule codecI)
  show "produced (\<lambda>n. True) 0 (cbb_add_utf8 (\<lambda>n. True) v 0) =
      Some (if is_valid_code_point v then Some (utf8_bytes v) else None)" for v
    unfolding add_utf8_eq by (rule produced_step [OF appends_u8s keeping_u8s_open]) (simp_all add: utf8_bytes_def Let_def)
qed (use get_utf8_bytes get_utf8_SomeD in auto)

lemma codec_latin1: "codec cbb_add_latin1 cbs_get_latin1"
proof (rule codecI)
  show "produced (\<lambda>n. True) 0 (cbb_add_latin1 (\<lambda>n. True) v 0) = Some (if v \<le> 0xFF then Some [ucast v] else None)" for v
    unfolding cbb_add_latin1_def by (rule produced_step [OF appends_u8 keeping_u8]) simp_all
  have c: "ucast (ucast v :: u8) = v" if "v \<le> 0xFF" for v :: u32
    using that by (intro ucast_down_up) (simp add: word_le_nat_alt)
  show "v \<le> 0xFF \<Longrightarrow> cbs_get_latin1 ([ucast v] @ r) = (Some v, r)" for v r
    using c [of v] by (simp add: cbs_get_latin1_def cbs_defs)
  have b: "ucast (c :: u8) \<le> (0xFF :: u32)" "ucast (ucast c :: u32) = c" for c
    using unat_u8_le [of c] by (simp_all add: word_le_nat_alt ucast_up_down)
  show "cbs_get_latin1 s = (Some v, r) \<Longrightarrow> v \<le> 0xFF \<and> s = [ucast v] @ r" for v s r
    using b by (cases s) (auto simp: cbs_get_latin1_def cbs_defs)
qed

lemma codec_ucs2: "codec cbb_add_ucs2_be cbs_get_ucs2_be"
proof (rule codecI)
  show "produced (\<lambda>n. True) 0 (cbb_add_ucs2_be (\<lambda>n. True) v 0) =
      Some (if v \<le> 0xFFFF \<and> is_valid_code_point v then Some (be_bytes 2 (unat (ucast v :: u16))) else None)" for v
    unfolding cbb_add_ucs2_be_def by (rule produced_step [OF add_u_be(1) keeping_add_u8_16_32(1)]) simp_all
  have c: "ucast (ucast v :: u16) = v" if "v \<le> 0xFFFF" for v :: u32
    using that by (intro ucast_down_up) (simp add: word_le_nat_alt)
  show "v \<le> 0xFFFF \<and> is_valid_code_point v \<Longrightarrow> cbs_get_ucs2_be (be_bytes 2 (unat (ucast v :: u16)) @ r) = (Some v, r)" for v r
    using c [of v] get_u16_iff [THEN iffD2, OF refl, of "ucast v" r] by (simp add: cbs_get_ucs2_be_def cbs_defs)
  have b: "ucast (c :: u16) \<le> (0xFFFF :: u32)" "ucast (ucast c :: u32) = c" for c
    using unsigned_less [of c, where 'a = nat] by (simp_all add: word_le_nat_alt ucast_up_down unat_ucast_up)
  show "cbs_get_ucs2_be s = (Some v, r) \<Longrightarrow> (v \<le> 0xFFFF \<and> is_valid_code_point v) \<and> s = be_bytes 2 (unat (ucast v :: u16)) @ r" for v s r
  proof -
    assume a: "cbs_get_ucs2_be s = (Some v, r)"
    then obtain c where c: "CBS_get_u16 s = (Some c, r)" "is_valid_code_point (ucast c)" "v = ucast c"
      by (auto simp: cbs_get_ucs2_be_def cbs_defs split: prod.splits option.splits if_splits)
    then show ?thesis using c(1) [unfolded get_u16_iff] b by simp
  qed
qed

lemma codec_utf32: "codec cbb_add_utf32_be cbs_get_utf32_be"
proof (rule codecI)
  show "produced (\<lambda>n. True) 0 (cbb_add_utf32_be (\<lambda>n. True) v 0) =
      Some (if is_valid_code_point v then Some (be_bytes 4 (unat v)) else None)" for v
    unfolding cbb_add_utf32_be_def by (rule produced_step [OF add_u_be(2) keeping_add_u8_16_32(2)]) simp_all
  show "is_valid_code_point v \<Longrightarrow> cbs_get_utf32_be (be_bytes 4 (unat v) @ r) = (Some v, r)" for v r
    using get_u32_iff [THEN iffD2, OF refl, of v r] by (simp add: cbs_get_utf32_be_def cbs_defs)
  show "cbs_get_utf32_be s = (Some v, r) \<Longrightarrow> is_valid_code_point v \<and> s = be_bytes 4 (unat v) @ r" for v s r
  proof -
    assume a: "cbs_get_utf32_be s = (Some v, r)"
    then have c: "CBS_get_u32 s = (Some v, r)" "is_valid_code_point v"
      by (auto simp: cbs_get_utf32_be_def cbs_defs split: prod.splits option.splits if_splits)
    then show ?thesis unfolding get_u32_iff by simp
  qed
qed

text \<open>
  C22. Each of the four character encodings (UTF-8, Latin-1, UCS-2 and UTF-32, big-endian) has one
  byte string per character: the reader accepts exactly what the writer writes for the
  character it returns, so that overlong UTF-8, surrogates and characters out of range are refused
  on both sides.
\<close>

theorem unicode_codecs:
  "codec cbb_add_utf8 cbs_get_utf8 \<and> codec cbb_add_latin1 cbs_get_latin1 \<and>
   codec cbb_add_ucs2_be cbs_get_ucs2_be \<and> codec cbb_add_utf32_be cbs_get_utf32_be"
  by (intro conjI codec_utf8 codec_latin1 codec_ucs2 codec_utf32)

end
