(* ===== verification/Cbb_Asn1_Spec.thy ===== *)
theory Cbb_Asn1_Spec
  imports Cbb_Asn1 Compare Unicode_Spec "HOL-Library.Multiset"
begin

text \<open>
  Object identifiers as text and back, and the order that the flushing of a SET OF establishes.
\<close>

section \<open>Decimal numbers\<close>

lemma decimal_small: "n < 10 \<Longrightarrow> decimal n = [word_of_nat (48 + n)]"
  by (simp add: decimal.simps)

lemma decimal_snoc: "10 \<le> n \<Longrightarrow> decimal n = decimal (n div 10) @ [word_of_nat (48 + n mod 10)]"
  by (simp add: decimal.simps [of n])

lemma decimal_ne: "decimal n \<noteq> []"
  by (cases "n < 10") (simp_all add: decimal_small decimal_snoc)

lemma max_div: "unat (UINT64_MAX div 10) = 1844674407370955161" "unat UINT64_MAX = 2 ^ 64 - 1"
  by (simp_all add: UINT64_MAX_def unat_div_distrib)

text \<open>The overflow check is exact.\<close>

lemma digit_ok:
  fixes out d :: u64
  assumes "unat d < 10"
  shows "(\<not> out > UINT64_MAX div 10 \<and> \<not> out * 10 > UINT64_MAX - d) \<longleftrightarrow> unat out * 10 + unat d < 2 ^ 64"
    and "unat out * 10 + unat d < 2 ^ 64 \<Longrightarrow> unat (out * 10 + d) = unat out * 10 + unat d"
proof -
  have sub: "unat (UINT64_MAX - d) = 2 ^ 64 - 1 - unat d"
  proof -
    have "d \<le> UINT64_MAX" using assms by (simp add: word_le_nat_alt max_div)
    then show ?thesis by (simp add: unat_sub max_div)
  qed
  have mul: "unat (out * 10) = unat out * 10" if "unat out * 10 < 2 ^ 64"
    using that unat_mult_lem [of out 10] by simp
  show "(\<not> out > UINT64_MAX div 10 \<and> \<not> out * 10 > UINT64_MAX - d) \<longleftrightarrow> unat out * 10 + unat d < 2 ^ 64"
  proof (cases "unat out * 10 < 2 ^ 64")
    case True
    then show ?thesis using assms sub mul max_div by (auto simp: word_less_nat_alt)
  next
    case False
    then show ?thesis using max_div by (simp add: word_less_nat_alt)
  qed
  show "unat (out * 10 + d) = unat out * 10 + unat d" if "unat out * 10 + unat d < 2 ^ 64"
  proof -
    have "unat (out * 10) = unat out * 10" using that by (intro mul) simp
    then show ?thesis using that unat_add_lem [of "out * 10" d] by simp
  qed
qed

lemma digit_byte:
  assumes "d < 10"
  shows "\<not> (word_of_nat (48 + d) :: u8) < 0x30" "\<not> (word_of_nat (48 + d) :: u8) > 0x39"
    "(word_of_nat (48 + d) :: u8) \<noteq> 0x2E" "unat ((word_of_nat (48 + d) :: u8) - 0x30) = d"
proof -
  have u: "unat (word_of_nat (48 + d) :: u8) = 48 + d" using assms by (simp add: unat_of_nat_u8 del: of_nat_add)
  show "\<not> (word_of_nat (48 + d) :: u8) < 0x30" "\<not> (word_of_nat (48 + d) :: u8) > 0x39"
    using u assms by (simp_all only: word_less_nat_alt) simp_all
  show "(word_of_nat (48 + d) :: u8) \<noteq> 0x2E"
  proof
    assume "(word_of_nat (48 + d) :: u8) = 0x2E"
    then have "unat (word_of_nat (48 + d) :: u8) = unat (0x2E :: u8)" by (rule arg_cong)
    then show False using u by simp
  qed
  have "(0x30 :: u8) \<le> word_of_nat (48 + d)" using u by (simp only: word_le_nat_alt) simp
  then have "unat ((word_of_nat (48 + d) :: u8) - 0x30) = unat (word_of_nat (48 + d) :: u8) - unat (0x30 :: u8)"
    by (rule unat_sub)
  then show "unat ((word_of_nat (48 + d) :: u8) - 0x30) = d" using u by simp
qed

declare dotted_loop.simps [simp del]

lemma dotted_digit:
  assumes "d < 10" "\<not> (seen \<and> out = 0)" "unat out * 10 + d < 2 ^ 64"
  shows "dotted_loop out seen (word_of_nat (48 + d) # s) = dotted_loop (word_of_nat (unat out * 10 + d)) True s"
proof -
  note b = digit_byte [OF assms(1)]
  have ud: "unat (ucast ((word_of_nat (48 + d) :: u8) - 0x30) :: u64) = d" using b(4) by simp
  note ok = digit_ok [of "ucast ((word_of_nat (48 + d) :: u8) - 0x30)" out, unfolded ud, OF assms(1)]
  have "out * 10 + ucast ((word_of_nat (48 + d) :: u8) - 0x30) = word_of_nat (unat out * 10 + d)"
    using ok(2) [OF assms(3)] by (metis of_nat_unat_u64)
  moreover have "\<not> out > UINT64_MAX div 10" "\<not> out * 10 > UINT64_MAX - ucast ((word_of_nat (48 + d) :: u8) - 0x30)"
    using ok(1) assms(3) by blast+
  moreover have "\<not> ((word_of_nat (48 + d) :: u8) = 0x2E \<and> length s > 0)" using b(3) by blast
  ultimately show ?thesis
    using b(1,2) assms(2) unfolding dotted_loop.simps(2) by (metis (no_types, lifting))
qed

lemma dotted_decimal:
  "n < 2 ^ 64 \<Longrightarrow> dotted_loop 0 False (decimal n @ t) = dotted_loop (word_of_nat n) True t"
proof (induction n arbitrary: t rule: less_induct)
  case (less n)
  show ?case
  proof (cases "n < 10")
    case True
    then show ?thesis using dotted_digit [of n False 0 t] less.prems by (simp add: decimal_small del: of_nat_add)
  next
    case False
    let ?m = "n div 10"
    have u: "unat (word_of_nat ?m :: u64) = ?m" using less.prems by (intro unat_of_nat_u64) simp
    have "?m < n" using False by simp
    then have "dotted_loop 0 False (decimal ?m @ word_of_nat (48 + n mod 10) # t) =
        dotted_loop (word_of_nat ?m) True (word_of_nat (48 + n mod 10) # t)"
      using less.prems by (intro less.IH) simp_all
    also have "\<dots> = dotted_loop (word_of_nat (?m * 10 + n mod 10)) True t"
    proof -
      have "(word_of_nat ?m :: u64) \<noteq> 0" using u False by (metis unat_eq_zero div_greater_zero_iff not_less zero_less_numeral less_irrefl)
      then show ?thesis using dotted_digit [of "n mod 10" True "word_of_nat ?m" t] u less.prems by simp
    qed
    finally show ?thesis using False by (simp add: decimal_snoc)
  qed
qed

text \<open>The text behind a component: nothing, or a dot and more.\<close>

definition component_end :: "u8 list \<Rightarrow> u8 list \<Rightarrow> bool" where
  "component_end t r \<longleftrightarrow> t = [] \<and> r = [] \<or> t = 0x2E # r \<and> r \<noteq> []"

lemma parse_dotted: "component_end t r \<Longrightarrow> parse_dotted_decimal (decimal (unat v) @ t) = (Some v, r)"
  using dotted_decimal [of "unat v" t] unat_u64_less [of v]
  by (auto simp: parse_dotted_decimal_def component_end_def dotted_loop.simps)

lemma dotted_loop_SomeD:
  "dotted_loop out True s = (Some v, r) \<Longrightarrow>
   \<exists>t. decimal (unat out) @ s = decimal (unat v) @ t \<and> component_end t r"
proof (induction s arbitrary: out)
  case Nil
  then show ?case by (simp add: dotted_loop.simps component_end_def)
next
  case (Cons u s)
  show ?case
  proof (cases "u = 0x2E \<and> length s > 0")
    case True
    then show ?thesis using Cons.prems by (auto simp: dotted_loop.simps component_end_def)
  next
    case False
    define d where "d = unat (u - 0x30)"
    have rec: "dotted_loop (out * 10 + ucast (u - 0x30)) True s = (Some v, r)"
      and c: "\<not> u < 0x30" "\<not> u > 0x39" "out \<noteq> 0" "\<not> out > UINT64_MAX div 10" "\<not> out * 10 > UINT64_MAX - ucast (u - 0x30)"
      using Cons.prems False unfolding dotted_loop.simps(2) if_not_P [OF False] by (auto split: if_splits)
    have ge: "48 \<le> unat u" "unat u \<le> 57" using c(1,2) by (simp_all add: word_less_nat_alt)
    then have "unat (u - 0x30) = unat u - unat (0x30 :: u8)" by (intro unat_sub) (simp add: word_le_nat_alt)
    then have d: "unat u = 48 + d" "d < 10" using ge by (simp_all add: d_def)
    have ud: "unat (ucast (u - 0x30) :: u64) = d" by (simp add: d_def)
    note ok = digit_ok [of "ucast (u - 0x30)" out, unfolded ud, OF d(2)]
    have lt: "unat out * 10 + d < 2 ^ 64" using ok(1) c(4,5) by blast
    note un = ok(2) [OF lt]
    have "unat out \<noteq> 0" using c(3) unat_eq_zero by blast
    then have "decimal (unat out * 10 + d) = decimal (unat out) @ [word_of_nat (48 + d)]"
      using d(2) by (subst decimal_snoc) simp_all
    moreover have "word_of_nat (48 + d) = u" using d(1) by (metis of_nat_unat_u64)
    ultimately show ?thesis using Cons.IH [OF rec] unfolding un by simp
  qed
qed

lemma parse_dotted_SomeD:
  assumes "parse_dotted_decimal s = (Some v, r)"
  shows "\<exists>t. s = decimal (unat v) @ t \<and> component_end t r"
proof -
  have a: "dotted_loop 0 False s = (Some v, r)" using assms by (simp add: parse_dotted_decimal_def)
  then obtain u s' where s: "s = u # s'" by (cases s) (simp_all add: dotted_loop.simps)
  define d where "d = unat (u - 0x30)"
  have rec: "dotted_loop (ucast (u - 0x30)) True s' = (Some v, r)" and c: "\<not> u < 0x30" "\<not> u > 0x39"
    using a unfolding s dotted_loop.simps(2) by (auto split: if_splits)
  have ge: "48 \<le> unat u" "unat u \<le> 57" using c by (simp_all add: word_less_nat_alt)
  then have "unat (u - 0x30) = unat u - unat (0x30 :: u8)" by (intro unat_sub) (simp add: word_le_nat_alt)
  then have d: "unat u = 48 + d" "d < 10" using ge by (simp_all add: d_def)
  then have "decimal (unat (ucast (u - 0x30) :: u64)) = [u]"
    by (simp add: decimal_small d_def [symmetric]) (metis of_nat_unat_u64 of_nat_add of_nat_numeral)
  then show ?thesis using dotted_loop_SomeD [OF rec] by (simp add: s)
qed


section \<open>Sequences of components\<close>

definition comps_text :: "u64 list \<Rightarrow> u8 list" where
  "comps_text vs = concat (map (\<lambda>v. 0x2E # decimal (unat v)) vs)"

definition comps_der :: "u64 list \<Rightarrow> u8 list" where
  "comps_der vs = concat (map base128_bytes vs)"

fun join_dots :: "u64 list \<Rightarrow> u8 list" where
  "join_dots [] = []"
| "join_dots (v # vs) = decimal (unat v) @ comps_text vs"

lemma comps_simps [simp]:
  "comps_text [] = []" "comps_text (v # vs) = 0x2E # decimal (unat v) @ comps_text vs"
  "comps_der [] = []" "comps_der (v # vs) = base128_bytes v @ comps_der vs"
  by (simp_all add: comps_text_def comps_der_def)

lemma join_end: "component_end (comps_text vs) (join_dots vs)"
  by (cases vs) (simp_all add: component_end_def decimal_ne)

lemma join_eq_Nil [simp]: "join_dots vs = [] \<longleftrightarrow> vs = []"
  by (cases vs) (simp_all add: decimal_ne)

lemma parse_join: "parse_dotted_decimal (join_dots (v # vs)) = (Some v, join_dots vs)"
  using parse_dotted [OF join_end] by simp

lemma parse_join_SomeD:
  assumes "parse_dotted_decimal s = (Some v, join_dots vs)"
  shows "s = join_dots (v # vs)"
proof -
  obtain t where t: "s = decimal (unat v) @ t" "component_end t (join_dots vs)" using parse_dotted_SomeD [OF assms] by blast
  have "t = comps_text vs" using t(2) by (cases vs) (auto simp: component_end_def decimal_ne)
  then show ?thesis using t(1) by simp
qed

lemma base128_ne: "base128_bytes v \<noteq> []"
  by (simp add: base128_bytes_digits)

lemma appends_cat:
  assumes "appends mem d f e" "appends mem d g e'" "keeping (open_at d) f (open_at d)" "cat e e' = x"
  shows "appends mem d (and_then f g) x"
  using appends_and_then [OF assms(1,2,3)] assms(4) by simp

lemma keeping_ret: "keeping (open_at d) (ret b) (open_at d)"
  by (simp add: keeping_def ret_def)

lemma appends_base128: "appends mem d (add_base128_integer mem v d) (Some (base128_bytes v))"
  and keeping_base128: "keeping (open_at d) (add_base128_integer mem v d) (open_at d)"
  unfolding add_base128_integer_def by (rule appends_u8s, rule keeping_u8s_open)

lemma keeping_oid_rest: "keeping (open_at d) (oid_rest mem d s) (open_at d)"
proof (induction mem d s rule: oid_rest.induct)
  case (1 mem d s)
  obtain a r where p: "parse_dotted_decimal s = (a, r)" by force
  show ?case
  proof (cases "length s > 0")
    case True
    show ?thesis
      using 1 [OF True p [symmetric]] True p
      by (cases a) (subst oid_rest.simps, simp add: keeping_ret keeping_and_then [OF keeping_base128])+
  next
    case False
    then show ?thesis by (subst oid_rest.simps) (simp add: keeping_ret)
  qed
qed

lemma oid_rest_join: "appends mem d (oid_rest mem d (join_dots vs)) (Some (comps_der vs))"
proof (induction vs)
  case Nil
  show ?case by (subst oid_rest.simps) (simp add: appends_ret)
next
  case (Cons v vs)
  have l: "length (join_dots (v # vs)) > 0" using decimal_ne by simp
  show ?case
    by (subst oid_rest.simps, unfold if_P [OF l] parse_join prod.case option.case)
      (rule appends_cat [OF appends_base128 Cons keeping_base128], simp add: cat_def)
qed

lemma oid_rest_fails: "(\<And>vs. s \<noteq> join_dots vs) \<Longrightarrow> appends mem d (oid_rest mem d s) None"
proof (induction mem d s rule: oid_rest.induct)
  case (1 mem d s)
  have l: "length s > 0" using 1(2) [of "[]"] by (cases s) simp_all
  obtain a r where p: "parse_dotted_decimal s = (a, r)" by force
  show ?case
  proof (cases a)
    case None
    then show ?thesis using l p by (subst oid_rest.simps) (simp add: appends_False)
  next
    case (Some v)
    have "\<And>vs. r \<noteq> join_dots vs" using parse_join_SomeD p Some 1(2) by blast
    then have rec: "appends mem d (oid_rest mem d r) None" using 1(1) [OF l p [symmetric] Some] by blast
    show ?thesis
      using l p Some by (subst oid_rest.simps, simp) (rule appends_cat [OF appends_base128 rec keeping_base128], simp add: cat_def)
  qed
qed

lemma decimal_length: "n < 10 ^ k \<Longrightarrow> 0 < k \<Longrightarrow> length (decimal n) \<le> k"
proof (induction k arbitrary: n)
  case (Suc k)
  show ?case
  proof (cases "n < 10")
    case True
    then show ?thesis by (simp add: decimal_small)
  next
    case False
    then have "k \<noteq> 0" using Suc.prems by (cases k) simp_all
    moreover have "n div 10 < 10 ^ k" using Suc.prems by (simp add: div_less_iff_less_mult mult.commute)
    ultimately show ?thesis using Suc.IH [of "n div 10"] False by (simp add: decimal_snoc)
  qed
qed simp

lemma appends_decimal: "appends mem d (add_decimal mem v d) (Some (decimal (unat v)))"
  and keeping_decimal: "keeping (open_at d) (add_decimal mem v d) (open_at d)"
proof -
  have "unat v < 10 ^ 20" using unat_u64_less [of v] by simp
  then have "length (decimal (unat v)) \<le> 20" by (intro decimal_length) simp_all
  then have l: "length (decimal (unat v)) < 2 ^ 64" by simp
  show "appends mem d (add_decimal mem v d) (Some (decimal (unat v)))"
    unfolding add_decimal_def by (rule appends_bytes [OF l])
  show "keeping (open_at d) (add_decimal mem v d) (open_at d)"
    unfolding add_decimal_def by (rule keeping_mono [OF keeping_bytes [OF l]]) simp_all
qed

lemma appends_dotted: "appends mem 0 g e \<Longrightarrow>
    appends mem 0 (and_then (CBB_add_u8 mem 0x2E 0) (and_then (add_decimal mem v 0) g)) (cat (Some (0x2E # decimal (unat v))) e)"
proof (rule appends_cat [OF appends_u8 _ keeping_u8])
  assume "appends mem 0 g e"
  then show "appends mem 0 (and_then (add_decimal mem v 0) g) (cat (Some (decimal (unat v))) e)"
    by (rule appends_cat [OF appends_decimal _ keeping_decimal refl])
qed (simp add: cat_def)

lemma keeping_oid_text_rest: "keeping (open_at 0) (oid_text_rest mem s) (open_at 0)"
proof (induction mem s rule: oid_text_rest.induct)
  case (1 mem s)
  obtain a r where p: "parse_base128_integer s = (a, r)" by force
  show ?case
  proof (cases "length s \<noteq> 0")
    case True
    show ?thesis
      using 1 [OF True p [symmetric]] True p
      by (cases a) (subst oid_text_rest.simps, simp add: keeping_ret keeping_and_then [OF keeping_u8 keeping_and_then [OF keeping_decimal]])+
  next
    case False
    then show ?thesis by (subst oid_text_rest.simps) (simp add: keeping_ret)
  qed
qed

lemma oid_text_rest_comps: "appends mem 0 (oid_text_rest mem (comps_der vs)) (Some (comps_text vs))"
proof (induction vs)
  case Nil
  show ?case by (subst oid_text_rest.simps) (simp add: appends_ret)
next
  case (Cons v vs)
  have l: "length (comps_der (v # vs)) \<noteq> 0" using base128_ne by simp
  have p: "parse_base128_integer (comps_der (v # vs)) = (Some v, comps_der vs)" by (simp add: parse_base128)
  show ?case
    using appends_dotted [OF Cons, of v]
    by (subst oid_text_rest.simps, unfold if_P [OF l] p prod.case option.case) (simp add: cat_def)
qed

lemma oid_text_rest_fails: "(\<And>vs. s \<noteq> comps_der vs) \<Longrightarrow> appends mem 0 (oid_text_rest mem s) None"
proof (induction mem s rule: oid_text_rest.induct)
  case (1 mem s)
  have l: "length s \<noteq> 0" using 1(2) [of "[]"] by (cases s) simp_all
  obtain a r where p: "parse_base128_integer s = (a, r)" by force
  show ?case
  proof (cases a)
    case None
    then show ?thesis using l p by (subst oid_text_rest.simps) (simp add: appends_False)
  next
    case (Some v)
    have "r \<noteq> comps_der vs" for vs
      using parse_base128_SomeD [of s v r] p Some 1(2) [of "v # vs"] by auto
    then have rec: "appends mem 0 (oid_text_rest mem r) None" using 1(1) [OF l p [symmetric] Some] by blast
    show ?thesis
      using l p Some appends_dotted [OF rec, of v] by (subst oid_text_rest.simps) (simp add: cat_def)
  qed
qed


section \<open>Object identifiers\<close>

text \<open>The two first components share one number.\<close>

definition first_ok :: "u64 \<Rightarrow> u64 \<Rightarrow> bool" where
  "first_ok a b \<longleftrightarrow> \<not> (a > 2 \<or> (a < 2 \<and> b > 39) \<or> b > UINT64_MAX - 80)"

lemma first_value:
  assumes "first_ok a b"
  shows "unat (40 * a + b) = 40 * unat a + unat b" "unat a \<le> 2" "unat a < 2 \<Longrightarrow> unat b \<le> 39"
proof -
  have s: "unat (UINT64_MAX - 80) = 2 ^ 64 - 1 - 80" by (simp add: UINT64_MAX_def)
  have b: "unat a \<le> 2" "unat a < 2 \<longrightarrow> unat b \<le> 39" "unat b \<le> 2 ^ 64 - 1 - 80"
    using assms unfolding first_ok_def word_less_nat_alt s by auto
  then have "unat (40 * a) = 40 * unat a" using unat_mult_lem [of 40 a] by simp
  then show "unat (40 * a + b) = 40 * unat a + unat b" using b unat_add_lem [of "40 * a" b] by simp
  show "unat a \<le> 2" "unat a < 2 \<Longrightarrow> unat b \<le> 39" using b by simp_all
qed

lemma first_split:
  obtains a b where "first_ok a b" "v = 40 * a + b"
    "a = (if v \<ge> 80 then 2 else v div 40)" "b = (if v \<ge> 80 then v - 80 else v mod 40)"
proof (cases "v \<ge> 80")
  case True
  have "v \<le> UINT64_MAX" using unat_u64_less [of v] by (simp add: word_le_nat_alt max_div)
  moreover have s: "unat (UINT64_MAX - 80) = 2 ^ 64 - 1 - 80" by (simp add: UINT64_MAX_def)
  moreover have "unat (v - 80) = unat v - 80" using True unat_sub [of 80 v] by simp
  ultimately have "\<not> v - 80 > UINT64_MAX - 80"
    using unat_u64_less [of v] by (simp only: word_less_nat_alt)
  then show ?thesis using True by (intro that [of 2 "v - 80"]) (simp_all add: first_ok_def)
next
  case False
  then have v: "unat v < 80" by (simp add: word_le_nat_alt)
  have "unat (v div 40) = unat v div 40" "unat (v mod 40) = unat v mod 40"
    by (simp_all add: unat_div_distrib unat_mod_distrib)
  then have "v div 40 < 2" "v mod 40 \<le> 39" using v by (simp_all add: word_less_nat_alt word_le_nat_alt)
  moreover have "\<not> v mod 40 > UINT64_MAX - 80"
  proof -
    have "unat (UINT64_MAX - 80) = 2 ^ 64 - 1 - 80" by (simp add: UINT64_MAX_def)
    then show ?thesis using \<open>unat (v mod 40) = _\<close> by (simp only: word_less_nat_alt) simp
  qed
  moreover have "v = 40 * (v div 40) + v mod 40" by (metis mult_div_mod_eq)
  ultimately show ?thesis using False by (intro that [of "v div 40" "v mod 40"]) (auto simp: first_ok_def)
qed

lemma first_unique:
  assumes "first_ok a b"
  shows "a = (if 40 * a + b \<ge> 80 then 2 else (40 * a + b) div 40)"
    "b = (if 40 * a + b \<ge> 80 then (40 * a + b) - 80 else (40 * a + b) mod 40)"
proof -
  note v = first_value [OF assms]
  have c: "40 * a + b \<ge> 80 \<longleftrightarrow> a = 2"
  proof -
    have "80 \<le> 40 * unat a + unat b \<longleftrightarrow> unat a = 2"
    proof (cases "unat a < 2")
      case True
      then show ?thesis using v(3) [OF True] by linarith
    next
      case False
      then show ?thesis using v(2) by linarith
    qed
    then show ?thesis by (simp add: word_le_nat_alt word_unat_eq_iff v(1))
  qed
  have d: "(40 * a + b) div 40 = a" "(40 * a + b) mod 40 = b" if "a \<noteq> 2"
  proof -
    have "unat a < 2" using v(2) that by (simp add: word_unat_eq_iff)
    then have b: "unat b \<le> 39" by (rule v(3))
    have "unat ((40 * a + b) div 40) = unat a" "unat ((40 * a + b) mod 40) = unat b"
      using b by (simp_all add: unat_div_distrib unat_mod_distrib v(1))
    then show "(40 * a + b) div 40 = a" "(40 * a + b) mod 40 = b" by (simp_all add: word_unat_eq_iff)
  qed
  show "a = (if 40 * a + b \<ge> 80 then 2 else (40 * a + b) div 40)" using c d(1) by auto
  show "b = (if 40 * a + b \<ge> 80 then (40 * a + b) - 80 else (40 * a + b) mod 40)" using c d(2) by auto
qed

lemma from_text_join:
  assumes "first_ok a b"
  shows "appends mem d (CBB_add_asn1_oid_from_text mem (join_dots (a # b # vs)) d) (Some (comps_der ((40 * a + b) # vs)))"
  unfolding CBB_add_asn1_oid_from_text_def parse_join prod.case option.case if_not_P [OF assms [unfolded first_ok_def]]
  by (rule appends_flush_then) (rule appends_cat [OF appends_base128 oid_rest_join keeping_base128], simp add: cat_def)

lemma from_text_fails:
  assumes "\<And>a b vs. first_ok a b \<Longrightarrow> text \<noteq> join_dots (a # b # vs)"
  shows "appends mem d (CBB_add_asn1_oid_from_text mem text d) None"
proof -
  obtain x r where p: "parse_dotted_decimal text = (x, r)" by force
  obtain y r' where q: "parse_dotted_decimal r = (y, r')" by force
  have "appends mem d (case y of None \<Rightarrow> ret False | Some b \<Rightarrow>
      if a > 2 \<or> (a < 2 \<and> b > 39) \<or> b > UINT64_MAX - 80 then ret False
      else and_then (add_base128_integer mem (40 * a + b) d) (oid_rest mem d r')) None" if a: "x = Some a" for a
  proof (cases y)
    case (Some b)
    show ?thesis
    proof (cases "first_ok a b")
      case True
      have "r' \<noteq> join_dots vs" for vs
      proof
        assume "r' = join_dots vs"
        then have "r = join_dots (b # vs)" using q Some parse_join_SomeD by blast
        then have "text = join_dots (a # b # vs)" using p a parse_join_SomeD by blast
        then show False using assms True by blast
      qed
      then have "appends mem d (oid_rest mem d r') None" by (rule oid_rest_fails)
      from appends_cat [OF appends_base128 this keeping_base128]
      show ?thesis unfolding Some option.case if_not_P [OF True [unfolded first_ok_def]] by (simp add: cat_def)
    next
      case False
      then have "a > 2 \<or> (a < 2 \<and> b > 39) \<or> b > UINT64_MAX - 80" unfolding first_ok_def by blast
      then show ?thesis unfolding Some option.case by (simp only: if_True appends_False)
    qed
  qed (simp add: appends_False)
  then show ?thesis
    unfolding CBB_add_asn1_oid_from_text_def p prod.case q
    by (intro appends_flush_then) (cases x; simp add: appends_False)
qed

lemma keeping_from_text: "keeping (open_at d) (CBB_add_asn1_oid_from_text mem text d) (open_at d)"
proof -
  have "keeping (open_at d) (case parse_dotted_decimal text of (None, cbs) \<Rightarrow> ret False | (Some a, cbs) \<Rightarrow>
      (case parse_dotted_decimal cbs of (None, cbs) \<Rightarrow> ret False | (Some b, cbs) \<Rightarrow>
        if a > 2 \<or> (a < 2 \<and> b > 39) \<or> b > UINT64_MAX - 80 then ret False
        else and_then (add_base128_integer mem (40 * a + b) d) (oid_rest mem d cbs))) (open_at d)"
    by (auto split: prod.split option.split intro!: keeping_ret keeping_and_then [OF keeping_base128 keeping_oid_rest])
  then show ?thesis unfolding CBB_add_asn1_oid_from_text_def
    by (rule keeping_mono [OF keeping_flush_then]) simp_all
qed

lemma oid_text_comps:
  assumes "first_ok a b"
  shows "appends mem 0 (oid_text mem (comps_der ((40 * a + b) # vs))) (Some (join_dots (a # b # vs) @ [0]))"
proof -
  let ?v = "40 * a + b"
  have p: "parse_base128_integer (comps_der (?v # vs)) = (Some ?v, comps_der vs)" by (simp add: parse_base128)
  have tail: "appends mem 0 (and_then (oid_text_rest mem (comps_der vs)) (CBB_add_u8 mem 0 0)) (Some (comps_text vs @ [0]))"
    by (rule appends_cat [OF oid_text_rest_comps appends_u8 keeping_oid_text_rest]) (simp add: cat_def)
  note u = first_unique [OF assms]
  have k2: "keeping (open_at 0) (CBB_add_bytes mem [0x32, 0x2E] 0) (open_at 0)"
    by (rule keeping_mono [OF keeping_bytes]) simp_all
  have a2: "appends mem 0 (CBB_add_bytes mem [0x32, 0x2E] 0) (Some [0x32, 0x2E])" by (rule appends_bytes) simp
  show ?thesis
  proof (cases "?v \<ge> 80")
    case True
    then have ab: "a = 2" "?v - 80 = b" using u by auto
    have "appends mem 0 (and_then (CBB_add_bytes mem [0x32, 0x2E] 0) (add_decimal mem b 0)) (Some ([0x32, 0x2E] @ decimal (unat b)))"
      by (rule appends_cat [OF a2 appends_decimal k2]) (simp add: cat_def)
    from appends_cat [OF this tail keeping_and_then [OF k2 keeping_decimal] refl] True ab
    show ?thesis unfolding oid_text_def p by (simp add: cat_def decimal_small)
  next
    case False
    then have ab: "?v div 40 = a" "?v mod 40 = b" using u by auto
    have "appends mem 0 (and_then (add_decimal mem a 0) (and_then (CBB_add_u8 mem 0x2E 0) (add_decimal mem b 0)))
      (Some (decimal (unat a) @ 0x2E # decimal (unat b)))"
      by (rule appends_cat [OF appends_decimal appends_cat [OF appends_u8 appends_decimal keeping_u8 refl] keeping_decimal])
        (simp add: cat_def)
    from appends_cat [OF this tail keeping_and_then [OF keeping_decimal keeping_and_then [OF keeping_u8 keeping_decimal]] refl] False ab
    show ?thesis unfolding oid_text_def p by (simp add: cat_def)
  qed
qed

lemma keeping_oid_text: "keeping (open_at 0) (oid_text mem s) (open_at 0)"
proof -
  have k2: "keeping (open_at 0) (CBB_add_bytes mem [0x32, 0x2E] 0) (open_at 0)"
    by (rule keeping_mono [OF keeping_bytes]) simp_all
  show ?thesis
    unfolding oid_text_def
    by (auto split: prod.split option.split intro!: keeping_ret keeping_and_then [OF keeping_oid_text_rest keeping_u8]
        keeping_and_then [OF keeping_decimal keeping_and_then [OF keeping_u8 keeping_decimal]] keeping_and_then [OF k2 keeping_decimal]
        keeping_and_then [where Q = "open_at 0"])
qed

lemma oid_text_fails:
  assumes "\<And>v vs. der \<noteq> comps_der (v # vs)"
  shows "appends mem 0 (oid_text mem der) None"
proof -
  obtain x r where p: "parse_base128_integer der = (x, r)" by force
  show ?thesis
  proof (cases x)
    case None
    then show ?thesis using p by (simp add: oid_text_def appends_False)
  next
    case (Some v)
    have "r \<noteq> comps_der vs" for vs
      using parse_base128_SomeD [of der v r] p Some assms [of v vs] by auto
    then have "appends mem 0 (oid_text_rest mem r) None" by (rule oid_text_rest_fails)
    from appends_cat [OF this appends_u8 keeping_oid_text_rest refl, of 0]
    have tail: "appends mem 0 (and_then (oid_text_rest mem r) (CBB_add_u8 mem 0 0)) None" by (simp add: cat_def)
    have k2: "keeping (open_at 0) (CBB_add_bytes mem [0x32, 0x2E] 0) (open_at 0)"
      by (rule keeping_mono [OF keeping_bytes]) simp_all
    have a2: "appends mem 0 (CBB_add_bytes mem [0x32, 0x2E] 0) (Some [0x32, 0x2E])" by (rule appends_bytes) simp
    note h1 = appends_cat [OF a2 appends_decimal k2 refl] and h2 = appends_cat [OF appends_decimal appends_cat [OF appends_u8 appends_decimal keeping_u8 refl] keeping_decimal refl]
    have "cat e None = None" for e by (cases e) (simp_all add: cat_def)
    then show ?thesis
      using appends_cat [OF h1 tail keeping_and_then [OF k2 keeping_decimal] refl]
        appends_cat [OF h2 tail keeping_and_then [OF keeping_decimal keeping_and_then [OF keeping_u8 keeping_decimal]] refl]
      unfolding oid_text_def p Some by simp
  qed
qed

lemma to_text_produced: "CBS_asn1_oid_to_text mem der = produced mem 32 (oid_text mem der)"
  by (auto simp: CBS_asn1_oid_to_text_def produced_def CBB_cleanup_def split: Option.bind_split option.split prod.split)

lemma sample_oid:
  "produced (\<lambda>n. True) cap (CBB_add_asn1_oid_from_text (\<lambda>n. True) [0x31, 0x2E, 0x32, 0x2E, 0x33] 0) = Some (Some [42, 3])"
proof -
  have l: "base128_len v = 1" if "unat v < 128" "v \<noteq> 0" for v
  proof -
    have "drop_bit (7 * Suc 0) v = 0" using that(1) unat_drop_bit_div [of 7 v] by (simp add: unat_eq_zero [symmetric])
    then show ?thesis using base128_len_unique [of 0 v] that(2) by simp
  qed
  have b: "base128_bytes 42 = [42]" "base128_bytes 3 = [3]" using l [of 42] l [of 3] by (simp_all add: base128_bytes_def)
  have "first_ok 1 2" by (simp add: first_ok_def UINT64_MAX_def)
  note w = from_text_join [OF this, where mem = "\<lambda>n. True" and d = 0 and vs = "[3]"]
  show ?thesis using produced_iff [OF w keeping_from_text, of cap] by (simp add: b decimal_small)
qed

text \<open>
  C23. Object identifiers: parsing a dotted decimal text and writing the content octets is the
  inverse of printing the content octets as text. With memory available, the writer makes of
  a text the octets \<open>der\<close> if and only if the printer makes of \<open>der\<close> that text (with its
  terminating zero), so that both are exact partial inverses of each other and each accepts only
  canonical input.
\<close>

theorem oid_text_inverse:
  assumes "length der < 2 ^ 64" and "length text + 1 < 2 ^ 64"
  shows "produced (\<lambda>n. True) 0 (CBB_add_asn1_oid_from_text (\<lambda>n. True) text 0) = Some (Some der) \<longleftrightarrow>
    CBS_asn1_oid_to_text (\<lambda>n. True) der = Some (Some (text @ [0]))"
  (is "?from = _ \<longleftrightarrow> ?to = _")
proof
  assume f: "?from = Some (Some der)"
  have "\<exists>a b vs. first_ok a b \<and> text = join_dots (a # b # vs)"
  proof (rule ccontr)
    assume "\<not> ?thesis"
    then have "appends (\<lambda>n. True) 0 (CBB_add_asn1_oid_from_text (\<lambda>n. True) text 0) None" by (intro from_text_fails) blast
    from produced_iff [OF this keeping_from_text] f show False by simp
  qed
  then obtain a b vs where ab: "first_ok a b" "text = join_dots (a # b # vs)" by blast
  note w = from_text_join [OF ab(1), where mem = "\<lambda>n. True" and d = 0 and vs = vs]
  from produced_appends [OF w keeping_from_text, of 0] f
  have "der = comps_der ((40 * a + b) # vs)" by (simp add: ab(2) del: join_dots.simps comps_simps)
  then show "?to = Some (Some (text @ [0]))"
    using produced_iff [OF oid_text_comps [OF ab(1), where mem = "\<lambda>n. True" and vs = vs] keeping_oid_text, of 32] assms(2)
    by (simp add: to_text_produced ab(2) del: join_dots.simps comps_simps)
next
  assume t: "?to = Some (Some (text @ [0]))"
  have "\<exists>v vs. der = comps_der (v # vs)"
  proof (rule ccontr)
    assume "\<not> ?thesis"
    then have "appends (\<lambda>n. True) 0 (oid_text (\<lambda>n. True) der) None" by (intro oid_text_fails) blast
    from produced_iff [OF this keeping_oid_text] t show False by (simp add: to_text_produced)
  qed
  then obtain v vs where v: "der = comps_der (v # vs)" by blast
  obtain a b where ab: "first_ok a b" "v = 40 * a + b" by (rule first_split)
  note w = oid_text_comps [OF ab(1), where mem = "\<lambda>n. True" and vs = vs]
  from produced_appends [OF w keeping_oid_text, of 32] t
  have "text = join_dots (a # b # vs)" by (simp add: to_text_produced v ab(2) del: join_dots.simps comps_simps)
  then show "?from = Some (Some der)"
    using produced_iff [OF from_text_join [OF ab(1), where mem = "\<lambda>n. True" and d = 0 and vs = vs] keeping_from_text, of 0] assms(1)
    by (simp add: v ab(2) del: join_dots.simps comps_simps)
qed

theorem oid_text_inverse_witness:
  "produced (\<lambda>n. True) 0 (CBB_add_asn1_oid_from_text (\<lambda>n. True) [0x31, 0x2E, 0x32, 0x2E, 0x33] 0) = Some (Some [42, 3]) \<and>
   CBS_asn1_oid_to_text (\<lambda>n. True) [42, 3] = Some (Some [0x31, 0x2E, 0x32, 0x2E, 0x33, 0])"
  using oid_text_inverse [of "[42, 3]" "[0x31, 0x2E, 0x32, 0x2E, 0x33]"] sample_oid [of 0] by simp

section \<open>The order of a SET OF\<close>

lemma compare_simps [simp]:
  "compare_set_of_element [] [] = 0" "compare_set_of_element [] (y # ys) = - 1" "compare_set_of_element (x # xs) [] = 1"
  "compare_set_of_element (x # xs) (y # ys) = (if x = y then compare_set_of_element xs ys else uint x - uint y)"
  by (auto simp: compare_set_of_element_def Let_def word_uint_eq_iff)

lemma compare_lex: "compare_set_of_element a b \<le> 0 \<longleftrightarrow> lexordp_eq a b"
  by (induction a b rule: list_induct2') (auto simp: word_less_def word_uint_eq_iff)

lemma compare_swap: "compare_set_of_element a b < 0 \<longleftrightarrow> 0 < compare_set_of_element b a"
  by (induction a b rule: list_induct2') auto

interpretation set_of: comparison "\<lambda>x. True" compare_set_of_element
  by unfold_locales (auto simp: compare_swap compare_lex intro: lexordp_eq_trans)

lemma sorted_qsort: "sorted_wrt lexordp_eq (qsort compare_set_of_element xs)"
  using set_of.qsort_sorted [of xs] by (simp add: compare_lex)

section \<open>Reading the elements\<close>

definition der_element :: "u8 list \<Rightarrow> bool" where
  "der_element el \<longleftrightarrow> (\<exists>tag content. length content < 2 ^ 32 \<and> el = der_tag tag @ der_len (length content) @ content)"

lemma der_element_read:
  assumes "der_element el"
  shows "\<exists>tag hl. CBS_get_any_asn1_element (el @ r) = (Some (el, tag, hl), r)" "el \<noteq> []"
proof -
  obtain tag c where c: "length c < 2 ^ 32" "el = der_header tag (length c) @ c"
    using assms by (auto simp: der_element_def der_header_def)
  show "\<exists>tag hl. CBS_get_any_asn1_element (el @ r) = (Some (el, tag, hl), r)"
    using any_element_encoding [OF c(1), of tag r] unfolding c(2) append_assoc by blast
  show "el \<noteq> []" using length_der_header(1) [of tag "length c"] c(2) by auto
qed

lemma element_SomeD:
  assumes "CBS_get_any_asn1_element s = (Some (el, tag, hl), r)"
  shows "der_element el" "s = el @ r"
  using any_element_SomeD [OF assms] by (auto simp: der_element_def der_header_def)

lemma count_concat: "\<forall>el \<in> set els. der_element el \<Longrightarrow> count_elements (concat els) = Some (length els)"
proof (induction els)
  case (Cons el els)
  have "der_element el" using Cons.prems by simp
  from der_element_read(1) [OF this, of "concat els"] der_element_read(2) [OF this] obtain tag hl where
    g: "CBS_get_any_asn1_element (el @ concat els) = (Some (el, tag, hl), concat els)" and ne: "el \<noteq> []" by blast
  then show ?case using Cons by (subst count_elements.simps) simp
qed (simp add: count_elements.simps)

lemma count_SomeD: "count_elements s = Some n \<Longrightarrow> \<exists>els. s = concat els \<and> (\<forall>el \<in> set els. der_element el)"
proof (induction s arbitrary: n rule: count_elements.induct)
  case (1 s)
  show ?case
  proof (cases "length s \<noteq> 0")
    case True
    obtain a r where g: "CBS_get_any_asn1_element s = (a, r)" by force
    then obtain x where x: "a = Some x" using 1(2) True by (cases a) (subst (asm) count_elements.simps, simp)+
    obtain m where m: "count_elements r = Some m"
      using 1(2) True g x by (subst (asm) count_elements.simps) auto
    obtain els where els: "r = concat els" "\<forall>el \<in> set els. der_element el"
      using 1(1) [OF True g [symmetric] x m] by blast
    obtain el tag hl where "x = (el, tag, hl)" by (cases x)
    with element_SomeD g x have "der_element el" "s = el @ r" by blast+
    then show ?thesis using els by (intro exI [of _ "el # els"]) simp
  next
    case False
    then show ?thesis by (intro exI [of _ "[]"]) simp
  qed
qed

lemma get_concat: "\<forall>el \<in> set els. der_element el \<Longrightarrow> get_elements (length els) (concat els) = Some els"
proof (induction els)
  case (Cons el els)
  have "der_element el" using Cons.prems by simp
  from der_element_read(1) [OF this, of "concat els"] Cons show ?case by auto
qed simp

section \<open>Writing them back\<close>

lemma start_le:
  assumes "cbb_ok s" "open_at d s" "base s = Some b"
  shows "unat (cbb_start d s) \<le> length (cbb_buf b)"
proof (cases "d = 0")
  case False
  let ?c = "last (children s)"
  have ne: "children s \<noteq> []" using False assms(2) by (auto simp: open_at_def)
  have nth: "children s ! (d - Suc 0) = ?c" using ne assms(2) by (simp add: open_at_def last_conv_nth)
  have c: "chain_ok 0 (children s) (length (cbb_buf b))" and b: "buffer_ok b" using assms by (auto simp: cbb_ok_def)
  have le: "child_end ?c \<le> length (cbb_buf b)"
    using chain_ok_append [of 0 "children s" "[]" "length (cbb_buf b)"] c ne by simp
  then have "unat (offset ?c + ucast (pending_len_len ?c)) = child_end ?c"
    using buffer_ok_less [OF b] by (subst unat_add_lem [THEN iffD1]) (simp_all add: unat_ucast_up)
  then show ?thesis using le False by (simp add: cbb_start_def nth Let_def)
qed (simp add: cbb_start_def)

lemma open_base: "open_at d s \<Longrightarrow> open_at d (s\<lparr>base := Some b\<rparr>)"
  by (simp add: open_at_def)

lemma flush_open_ok: "open_at d s \<Longrightarrow> base s = Some b \<Longrightarrow> \<not> cbb_error b \<Longrightarrow> CBB_flush mem d s = Some (True, s)"
  by (simp add: CBB_flush_def open_at_def base_same)

lemma add_bytes_fits:
  assumes "open_at d s" "base s = Some b" "\<not> cbb_error b" "length (cbb_buf b) + length xs \<le> unat (cbb_cap b)"
  shows "CBB_add_bytes mem xs d s = Some (True, s\<lparr>base := Some (b\<lparr>cbb_buf := cbb_buf b @ xs\<rparr>)\<rparr>)"
proof -
  have lt: "length (cbb_buf b) + length xs < 2 ^ 64" using assms(4) unat_u64_less [of "cbb_cap b"] by linarith
  have u: "unat (cbb_buf_len b) = length (cbb_buf b)" "unat (word_of_nat (length xs) :: u64) = length xs"
    using lt by (intro unat_of_nat_u64, simp)+
  have p: "unat (cbb_buf_len b + word_of_nat (length xs)) = length (cbb_buf b) + length xs"
    using lt unat_of_nat_u64 [of "length (cbb_buf b) + length xs"] by simp
  have "\<not> cbb_buf_len b + word_of_nat (length xs) < cbb_buf_len b" "\<not> cbb_buf_len b + word_of_nat (length xs) > cbb_cap b"
    using p u(1) assms(4) by (simp_all add: word_less_nat_alt)
  then have "cbb_buffer_add mem xs b = (True, b\<lparr>cbb_buf := cbb_buf b @ xs\<rparr>)"
    by (simp add: cbb_buffer_add_def cbb_buffer_reserve_def Let_def)
  then show ?thesis
    unfolding CBB_add_bytes_def using flush_open_ok [OF assms(1-3)] assms(2) by (simp add: on_base_def)
qed

lemma add_all_fit:
  assumes "open_at d s" "base s = Some b" "\<not> cbb_error b" "length (cbb_buf b) + length (concat xss) \<le> unat (cbb_cap b)"
  shows "all_steps (\<lambda>xs. CBB_add_bytes mem xs d) xss s = Some (True, s\<lparr>base := Some (b\<lparr>cbb_buf := cbb_buf b @ concat xss\<rparr>)\<rparr>)"
  using assms
proof (induction xss arbitrary: s b)
  case Nil
  then show ?case using base_same [of s b] by (simp add: ret_def)
next
  case (Cons xs xss)
  have f: "length (cbb_buf b) + length xs \<le> unat (cbb_cap b)" using Cons.prems(4) by simp
  note a = add_bytes_fits [OF Cons.prems(1-3) f, of mem]
  let ?b = "b\<lparr>cbb_buf := cbb_buf b @ xs\<rparr>"
  have "all_steps (\<lambda>xs. CBB_add_bytes mem xs d) xss (s\<lparr>base := Some ?b\<rparr>) =
      Some (True, s\<lparr>base := Some ?b\<rparr>\<lparr>base := Some (?b\<lparr>cbb_buf := cbb_buf ?b @ concat xss\<rparr>)\<rparr>)"
    using Cons.prems by (intro Cons.IH open_base) simp_all
  then show ?case using a by simp
qed

text \<open>
  C24. Flushing a SET OF whose contents are complete DER elements succeeds and leaves the same
  elements in ascending order of their encodings, with everything before them unchanged;
  contents that are not a sequence of elements are refused and the object is not changed.
\<close>

theorem set_of_sorted:
  assumes ok: "cbb_ok s" "open_at d s" "base s = Some b" "\<not> cbb_error b"
    and mem: "\<forall>n. mem n" and small: "length (cbb_buf b) < 2 ^ 60"
  defines "start \<equiv> unat (cbb_start d s)"
  shows "(\<forall>els. drop start (cbb_buf b) = concat els \<and> (\<forall>el \<in> set els. der_element el) \<longrightarrow>
      (\<exists>els'. mset els' = mset els \<and> sorted_wrt lexordp_eq els' \<and>
        CBB_flush_asn1_set_of mem d s =
          Some (True, s\<lparr>base := Some (b\<lparr>cbb_buf := take start (cbb_buf b) @ concat els'\<rparr>)\<rparr>))) \<and>
    ((\<nexists>els. drop start (cbb_buf b) = concat els \<and> (\<forall>el \<in> set els. der_element el)) \<longrightarrow>
      CBB_flush_asn1_set_of mem d s = Some (False, s))"
proof -
  let ?dat = "drop start (cbb_buf b)"
  have le: "start \<le> length (cbb_buf b)" using start_le [OF ok(1-3)] by (simp add: start_def)
  have bok: "buffer_ok b" using ok by (simp add: cbb_ok_def)
  have dat: "CBB_data d s = Some ?dat" using ok(2,3) by (simp add: CBB_data_def open_at_def start_def)
  have len: "CBB_len d s = Some (word_of_nat (length ?dat))"
  proof -
    have "cbb_start d s \<le> cbb_buf_len b" using le unat_buf_len [OF bok] by (simp add: word_le_nat_alt start_def)
    moreover have "cbb_buf_len b - cbb_start d s = word_of_nat (length ?dat)"
      using le by (simp add: of_nat_diff start_def)
    ultimately show ?thesis using ok(2,3) by (simp add: CBB_len_def open_at_def)
  qed
  have ul: "unat (word_of_nat (length ?dat) :: u64) = length ?dat" using small by (intro unat_of_nat_u64) simp
  have init: "CBS_init ?dat (word_of_nat (length ?dat)) = ?dat" by (simp only: CBS_init_def ul) simp
  note fl = flush_open_ok [OF ok(2-4), of mem]
  note run = CBB_flush_asn1_set_of_def and_then_True [of "CBB_flush mem d" s s, OF fl] dat len
  have good: "\<exists>els'. mset els' = mset els \<and> sorted_wrt lexordp_eq els' \<and>
      CBB_flush_asn1_set_of mem d s = Some (True, s\<lparr>base := Some (b\<lparr>cbb_buf := take start (cbb_buf b) @ concat els'\<rparr>)\<rparr>)"
    if els: "?dat = concat els" "\<forall>el \<in> set els. der_element el" for els
  proof -
    have cnt: "count_elements ?dat = Some (length els)" unfolding els(1) by (rule count_concat [OF els(2)])
    show ?thesis
    proof (cases "length els < 2")
      case True
      have "sorted_wrt lexordp_eq els" using True by (cases els; cases "tl els") auto
      moreover have "take start (cbb_buf b) @ concat els = cbb_buf b" unfolding els(1) [symmetric] by simp
      moreover have "CBB_flush_asn1_set_of mem d s = Some (True, s)"
        unfolding run using True cnt init by simp
      ultimately show ?thesis using base_same [OF ok(3)] by (intro exI [of _ els]) simp
    next
      case False
      let ?els = "qsort compare_set_of_element els"
      have ll: "length els \<le> length (concat els)"
        using els(2) by (induction els) (auto dest!: der_element_read(2) simp: Suc_le_eq add_pos_nonneg intro: add_le_mono [of 1, simplified])
      have same: "length (concat ?els) = length ?dat"
        using arg_cong [OF mset_qsort [of compare_set_of_element els], of "\<lambda>m. sum_mset (image_mset length m)"]
        by (simp add: els(1) length_concat sum_mset_sum_list [symmetric])
      have nl: "\<not> length els > (2 ^ 64 - 1) div 16"
      proof -
        have "length (concat els) < 2 ^ 60" using small unfolding els(1) [symmetric] by simp
        then show ?thesis using ll by simp
      qed
      let ?s = "s\<lparr>base := Some (b\<lparr>cbb_buf := take start (cbb_buf b)\<rparr>)\<rparr>"
      let ?t = "s\<lparr>base := Some (b\<lparr>cbb_buf := take start (cbb_buf b) @ concat ?els\<rparr>)\<rparr>"
      have st: "all_steps (\<lambda>xs. CBB_add_bytes mem xs d) ?els ?s = Some (True, ?t)"
      proof -
        have "length (take start (cbb_buf b)) + length (concat ?els) \<le> unat (cbb_cap b)"
          using bok le unfolding same buffer_ok_def by simp
        then show ?thesis
          using add_all_fit [of d ?s "b\<lparr>cbb_buf := take start (cbb_buf b)\<rparr>" ?els mem] ok(2,4) open_base by simp
      qed
      have len': "CBB_len d ?t = Some (word_of_nat (length ?dat))"
      proof -
        have "length (take start (cbb_buf b) @ concat ?els) = length (cbb_buf b)" using le same by simp
        then have "CBB_len d ?t = CBB_len d s" using ok(3) by (simp add: CBB_len_def cbb_start_def)
        then show ?thesis using len by simp
      qed
      have upd: "s\<lparr>base := map_option (\<lambda>b. b\<lparr>cbb_buf := take (unat (cbb_start d s)) (cbb_buf b)\<rparr>) (base s)\<rparr> = ?s"
        using ok(3) by (simp add: start_def)
      have "CBB_flush_asn1_set_of mem d s = Some (True, ?t)"
        unfolding run bind.bind_lunit init cnt option.case if_not_P [OF False] if_not_P [OF nl] Let_def upd
        using mem get_concat [OF els(2)] len' and_then_True [of "all_steps (\<lambda>xs. CBB_add_bytes mem xs d) ?els" ?s ?t, OF st] by (simp add: els(1))
      then show ?thesis using mset_qsort sorted_qsort by blast
    qed
  qed
  moreover have "CBB_flush_asn1_set_of mem d s = Some (False, s)"
    if "\<nexists>els. ?dat = concat els \<and> (\<forall>el \<in> set els. der_element el)"
  proof -
    have "count_elements ?dat = None" using count_SomeD that by (cases "count_elements ?dat") blast+
    then show ?thesis unfolding run using init by simp
  qed
  ultimately show ?thesis by blast
qed

theorem set_of_sorted_witness:
  "\<exists>els'. mset els' = {#[4, 1, 9], [4, 1, 3]#} \<and> sorted_wrt lexordp_eq els' \<and>
     CBB_flush_asn1_set_of (\<lambda>n. True) 0
       \<lparr>base = Some \<lparr>cbb_buf = [4, 1, 9, 4, 1, 3], cbb_cap = 6, can_resize = True, cbb_error = False\<rparr>, children = []\<rparr> =
     Some (True, \<lparr>base = Some \<lparr>cbb_buf = concat els', cbb_cap = 6, can_resize = True, cbb_error = False\<rparr>, children = []\<rparr>)"
proof -
  let ?s = "\<lparr>base = Some \<lparr>cbb_buf = [4, 1, 9, 4, 1, 3], cbb_cap = 6, can_resize = True, cbb_error = False\<rparr>, children = []\<rparr>"
  have "der_element [4, 1, x]" for x
    by (auto simp: der_element_def der_tag_def tag_mask der_len_def Let_def intro!: exI [of _ 4] exI [of _ "[x]"])
  then have e: "\<forall>el \<in> set [[4, 1, 9], [4, 1, 3]]. der_element el" by simp
  have ok: "cbb_ok ?s" "open_at 0 ?s" by (simp_all add: cbb_ok_def buffer_ok_def open_at_def)
  from set_of_sorted [OF ok, of _ "\<lambda>n. True"] e show ?thesis
    by (fastforce simp: cbb_start_def dest: spec [of _ "[[4, 1, 9], [4, 1, 3]]"])
qed

end
