(* ===== verification/Lhash.thy ===== *)
theory Lhash
  imports CPrelude
begin

text \<open>
  BoringSSL: the chained hash table of \<open>crypto/lhash/lhash.c\<close>. A chain of \<open>LHASH_ITEM\<close> objects is
  the list of its items; a pointer to the pointer that leads to an item is the number of its
  bucket and the position in the chain, and it points to \<open>NULL\<close> at the end of the chain. The
  helper functions that cast the arguments of the hash and comparison functions are the
  identity here. Whether an allocation of a size succeeds is the argument \<open>mem\<close>. \<open>None\<close> is a
  violated \<open>assert\<close> or a table without buckets. The callback of \<open>lh_doall_arg\<close> works on its
  argument and does not change the table.
\<close>

record 'a lhash_item =
  item_data :: 'a
  item_hash :: u32

record 'a lhash =
  num_items :: u64
  buckets :: "'a lhash_item list list"
  callback_depth :: u32
  lh_hash :: "'a \<Rightarrow> u32"
  lh_comp :: "'a \<Rightarrow> 'a \<Rightarrow> int"

definition kMinNumBuckets :: u64 where "kMinNumBuckets = 16"
definition kMaxAverageChainLength :: u64 where "kMaxAverageChainLength = 2"
definition kMinAverageChainLength :: u64 where "kMinAverageChainLength = 1"

abbreviation num_buckets :: "'a lhash \<Rightarrow> u64" where
  "num_buckets lh \<equiv> word_of_nat (length (buckets lh))"

definition lh_new :: "(u64 \<Rightarrow> bool) \<Rightarrow> ('a \<Rightarrow> u32) \<Rightarrow> ('a \<Rightarrow> 'a \<Rightarrow> int) \<Rightarrow> 'a lhash option" where
  "lh_new mem hash cmp = (if \<not> mem 48 then None
     else if \<not> mem (8 * kMinNumBuckets) then None
     else Some \<lparr>num_items = 0, buckets = replicate (unat kMinNumBuckets) [], callback_depth = 0,
       lh_hash = hash, lh_comp = cmp\<rparr>)"

definition lh_num_items :: "'a lhash \<Rightarrow> u64" where
  "lh_num_items lh = num_items lh"

section \<open>Finding an item\<close>

definition next_item :: "'a lhash \<Rightarrow> nat \<times> nat \<Rightarrow> 'a lhash_item option" where
  "next_item lh ptr = (case ptr of (i, k) \<Rightarrow> if k < length (buckets lh ! i) then Some (buckets lh ! i ! k) else None)"

text \<open>The loop along the chain.\<close>

primrec chain_pos :: "('a \<Rightarrow> bool) \<Rightarrow> 'a list \<Rightarrow> nat" where
  "chain_pos found [] = 0"
| "chain_pos found (cur # chain) = (if found cur then 0 else Suc (chain_pos found chain))"

definition get_next_ptr_and_hash :: "'a lhash \<Rightarrow> 'a \<Rightarrow> (u32 \<times> (nat \<times> nat)) option" where
  "get_next_ptr_and_hash lh dat = (if buckets lh = [] then None
     else let hash = lh_hash lh dat; i = unat (ucast hash mod num_buckets lh) in
       Some (hash, i, chain_pos (\<lambda>cur. lh_comp lh (item_data cur) dat = 0) (buckets lh ! i)))"

definition get_next_ptr_by_key :: "'a lhash \<Rightarrow> 'k \<Rightarrow> u32 \<Rightarrow> ('k \<Rightarrow> 'a \<Rightarrow> int) \<Rightarrow> (nat \<times> nat) option" where
  "get_next_ptr_by_key lh key key_hash cmp_key = (if buckets lh = [] then None
     else let i = unat (ucast key_hash mod num_buckets lh) in
       Some (i, chain_pos (\<lambda>cur. cmp_key key (item_data cur) = 0) (buckets lh ! i)))"

text \<open>The inner option is the pointer that is returned.\<close>

definition lh_retrieve :: "'a lhash \<Rightarrow> 'a \<Rightarrow> 'a option option" where
  "lh_retrieve lh dat = map_option (\<lambda>(hash, next_ptr). map_option item_data (next_item lh next_ptr))
     (get_next_ptr_and_hash lh dat)"

definition lh_retrieve_key :: "'a lhash \<Rightarrow> 'k \<Rightarrow> u32 \<Rightarrow> ('k \<Rightarrow> 'a \<Rightarrow> int) \<Rightarrow> 'a option option" where
  "lh_retrieve_key lh key key_hash cmp_key = map_option (\<lambda>next_ptr. map_option item_data (next_item lh next_ptr))
     (get_next_ptr_by_key lh key key_hash cmp_key)"

section \<open>Resizing\<close>

definition rebucket_item :: "u64 \<Rightarrow> 'a lhash_item \<Rightarrow> 'a lhash_item list list \<Rightarrow> 'a lhash_item list list" where
  "rebucket_item new_num_buckets cur new_buckets = (
     let new_bucket = unat (ucast (item_hash cur) mod new_num_buckets) in
     new_buckets[new_bucket := cur # new_buckets ! new_bucket])"

definition lh_rebucket :: "(u64 \<Rightarrow> bool) \<Rightarrow> u64 \<Rightarrow> 'a lhash \<Rightarrow> 'a lhash" where
  "lh_rebucket mem new_num_buckets lh = (let alloc_size = 8 * new_num_buckets in
     if alloc_size div 8 \<noteq> new_num_buckets then lh
     else if \<not> mem alloc_size then lh
     else lh\<lparr>buckets := fold (fold (rebucket_item new_num_buckets)) (buckets lh)
       (replicate (unat new_num_buckets) [])\<rparr>)"

definition lh_maybe_resize :: "(u64 \<Rightarrow> bool) \<Rightarrow> 'a lhash \<Rightarrow> 'a lhash option" where
  "lh_maybe_resize mem lh = (
     if callback_depth lh > 0 then Some lh
     else if num_buckets lh < kMinNumBuckets then None
     else let avg_chain_length = num_items lh div num_buckets lh in
       if avg_chain_length > kMaxAverageChainLength then
         let new_num_buckets = num_buckets lh * 2 in
         Some (if new_num_buckets > num_buckets lh then lh_rebucket mem new_num_buckets lh else lh)
       else if avg_chain_length < kMinAverageChainLength \<and> num_buckets lh > kMinNumBuckets then
         let new_num_buckets = num_buckets lh div 2;
           new_num_buckets = (if new_num_buckets < kMinNumBuckets then kMinNumBuckets else new_num_buckets) in
         Some (lh_rebucket mem new_num_buckets lh)
       else Some lh)"

section \<open>Changing the table\<close>

text \<open>The value returned, \<open>*old_data\<close>, and the table.\<close>

definition lh_insert :: "(u64 \<Rightarrow> bool) \<Rightarrow> 'a \<Rightarrow> 'a lhash \<Rightarrow> (bool \<times> 'a option \<times> 'a lhash) option" where
  "lh_insert mem dat lh = (case get_next_ptr_and_hash lh dat of None \<Rightarrow> None | Some (hash, i, k) \<Rightarrow>
     (case next_item lh (i, k) of
        Some item \<Rightarrow> Some (True, Some (item_data item),
          lh\<lparr>buckets := (buckets lh)[i := (buckets lh ! i)[k := item\<lparr>item_data := dat\<rparr>]]\<rparr>)
      | None \<Rightarrow>
          if \<not> mem 24 then Some (False, None, lh)
          else map_option (\<lambda>lh. (True, None, lh)) (lh_maybe_resize mem
            (lh\<lparr>buckets := (buckets lh)[i := buckets lh ! i @ [\<lparr>item_data = dat, item_hash = hash\<rparr>]],
              num_items := num_items lh + 1\<rparr>))))"

definition lh_delete :: "(u64 \<Rightarrow> bool) \<Rightarrow> 'a \<Rightarrow> 'a lhash \<Rightarrow> ('a option \<times> 'a lhash) option" where
  "lh_delete mem dat lh = (case get_next_ptr_and_hash lh dat of None \<Rightarrow> None | Some (hash, i, k) \<Rightarrow>
     (case next_item lh (i, k) of
        None \<Rightarrow> Some (None, lh)
      | Some item \<Rightarrow> map_option (\<lambda>lh. (Some (item_data item), lh)) (lh_maybe_resize mem
          (lh\<lparr>buckets := (buckets lh)[i := take k (buckets lh ! i) @ drop (Suc k) (buckets lh ! i)],
            num_items := num_items lh - 1\<rparr>))))"

definition UINT_MAX :: u32 where "UINT_MAX = 0xFFFFFFFF"

definition lh_doall_arg ::
  "(u64 \<Rightarrow> bool) \<Rightarrow> ('a \<Rightarrow> 'b \<Rightarrow> 'b) \<Rightarrow> 'b \<Rightarrow> 'a lhash \<Rightarrow> ('b \<times> 'a lhash) option" where
  "lh_doall_arg mem func arg lh = (
     let lh = (if callback_depth lh < UINT_MAX then lh\<lparr>callback_depth := callback_depth lh + 1\<rparr> else lh);
       arg = fold (fold (\<lambda>cur. func (item_data cur))) (buckets lh) arg;
       lh = (if callback_depth lh < UINT_MAX then lh\<lparr>callback_depth := callback_depth lh - 1\<rparr> else lh) in
     map_option (\<lambda>lh. (arg, lh)) (lh_maybe_resize mem lh))"

section \<open>Hash functions\<close>

definition OPENSSL_hash32 :: "u8 list \<Rightarrow> u32" where
  "OPENSSL_hash32 bs = foldl (\<lambda>h b. (h XOR ucast b) * 16777619) 2166136261 bs"

text \<open>A C string is the list of its bytes before the terminating zero; \<open>None\<close> is \<open>NULL\<close>.\<close>

definition lh_strhash :: "u8 list option \<Rightarrow> u32" where
  "lh_strhash c = (case c of None \<Rightarrow> 0 | Some s \<Rightarrow> OPENSSL_hash32 s)"

end
