(* ===== verification/Lhash_Spec.thy ===== *)
theory Lhash_Spec
  imports Lhash "HOL-Library.Multiset"
begin

text \<open>
  The hash table refines a finite map. The lemmas on chains and buckets say what the operations do to
  the multiset of the stored items; the locale \<open>lhash_keys\<close> is the contract of the hash and
  comparison functions, under which the operations are those of the map \<open>lh_lookup\<close>.
\<close>

section \<open>Chains and buckets\<close>

lemma chain_pos_le: "chain_pos P xs \<le> length xs"
  by (induction xs) simp_all

lemma chain_pos_nth: "chain_pos P xs < length xs \<Longrightarrow> P (xs ! chain_pos P xs)"
  by (induction xs) (auto split: if_splits)

lemma chain_pos_end: "chain_pos P xs = length xs \<longleftrightarrow> (\<forall>x \<in> set xs. \<not> P x)"
  by (induction xs) auto

text \<open>The items of a table, as a multiset.\<close>

definition lh_items :: "'a lhash \<Rightarrow> 'a lhash_item multiset" where
  "lh_items lh = mset (concat (buckets lh))"

lemma mset_bucket:
  "i < length bs \<Longrightarrow> mset (concat (bs[i := c])) + mset (bs ! i) = mset (concat bs) + mset c"
proof (induction bs arbitrary: i)
  case (Cons b bs)
  show ?case
  proof (cases i)
    case (Suc j)
    then have "mset (concat (bs[j := c])) + mset (bs ! j) = mset (concat bs) + mset c" using Cons by simp
    then show ?thesis using Suc by (simp add: ac_simps)
  qed simp
qed simp

lemma set_bucket: "x \<in># mset (concat bs) \<longleftrightarrow> (\<exists>i < length bs. x \<in> set (bs ! i))"
proof -
  have "x \<in># mset (concat bs) \<longleftrightarrow> (\<exists>c \<in> set bs. x \<in> set c)" by auto
  then show ?thesis by (metis in_set_conv_nth)
qed

section \<open>Redistribution\<close>

definition placed :: "'a lhash_item list list \<Rightarrow> bool" where
  "placed bs \<longleftrightarrow> (\<forall>i < length bs. \<forall>it \<in> set (bs ! i). unat (item_hash it) mod length bs = i)"

lemma bucket_index:
  assumes "length bs < 2 ^ 64"
  shows "unat (ucast (h :: u32) mod word_of_nat (length bs) :: u64) = unat h mod length bs"
  using assms unat_of_nat_u64 [of "length bs"] by (simp add: unat_mod_distrib)

lemma rebucket_item_props:
  assumes n: "length bs = unat new" "0 < unat new" and p: "placed bs"
  shows "length (rebucket_item new it bs) = length bs" "placed (rebucket_item new it bs)"
    "mset (concat (rebucket_item new it bs)) = add_mset it (mset (concat bs))"
proof -
  define i where "i = unat (item_hash it) mod unat new"
  have e: "rebucket_item new it bs = bs[i := it # bs ! i]"
    by (simp add: rebucket_item_def Let_def i_def unat_mod_distrib)
  have i: "i < length bs" using n by (simp add: i_def)
  show "length (rebucket_item new it bs) = length bs" by (simp add: e)
  show "placed (rebucket_item new it bs)"
    unfolding e placed_def using p i n by (auto simp: placed_def nth_list_update i_def)
  show "mset (concat (rebucket_item new it bs)) = add_mset it (mset (concat bs))"
    using mset_bucket [OF i, of "it # bs ! i"] by (simp add: e)
qed

lemma rebucket_fold_props:
  assumes "length bs = unat new" "0 < unat new" "placed bs"
  shows "length (fold (rebucket_item new) c bs) = unat new \<and> placed (fold (rebucket_item new) c bs) \<and>
    mset (concat (fold (rebucket_item new) c bs)) = mset c + mset (concat bs)"
  using assms
proof (induction c arbitrary: bs)
  case (Cons it c)
  then show ?case using rebucket_item_props [OF Cons.prems, of it] Cons.IH [of "rebucket_item new it bs"] by simp
qed simp

lemma rebucket_all_props:
  assumes "length bs = unat new" "0 < unat new" "placed bs"
  shows "length (fold (fold (rebucket_item new)) cs bs) = unat new \<and> placed (fold (fold (rebucket_item new)) cs bs) \<and>
    mset (concat (fold (fold (rebucket_item new)) cs bs)) = mset (concat cs) + mset (concat bs)"
  using assms
proof (induction cs arbitrary: bs)
  case (Cons c cs)
  then show ?case using rebucket_fold_props [OF Cons.prems, of c] Cons.IH [of "fold (rebucket_item new) c bs"]
    by (simp add: ac_simps)
qed simp

text \<open>What every table keeps, whatever its keys are: its buckets and its counter.\<close>

definition lh_shape :: "'a lhash \<Rightarrow> bool" where
  "lh_shape lh \<longleftrightarrow> 16 \<le> length (buckets lh) \<and> length (buckets lh) < 2 ^ 64 \<and> placed (buckets lh) \<and>
     num_items lh = word_of_nat (size (lh_items lh))"

definition same_contents :: "'a lhash \<Rightarrow> 'a lhash \<Rightarrow> bool" where
  "same_contents lh lh' \<longleftrightarrow> lh_items lh' = lh_items lh \<and> num_items lh' = num_items lh \<and>
     callback_depth lh' = callback_depth lh \<and> lh_hash lh' = lh_hash lh \<and> lh_comp lh' = lh_comp lh"

lemma rebucket_ok:
  assumes "lh_shape lh" "16 \<le> new"
  shows "lh_shape (lh_rebucket mem new lh) \<and> same_contents lh (lh_rebucket mem new lh)"
proof (cases "8 * new div 8 \<noteq> new \<or> \<not> mem (8 * new)")
  case True
  then have "lh_rebucket mem new lh = lh" by (auto simp: lh_rebucket_def Let_def)
  then show ?thesis using assms by (simp add: same_contents_def)
next
  case False
  have n: "16 \<le> unat new" using assms(2) by (simp add: word_le_nat_alt)
  let ?bs = "fold (fold (rebucket_item new)) (buckets lh) (replicate (unat new) [])"
  have "placed (replicate (unat new) [])" by (simp add: placed_def)
  from rebucket_all_props [OF _ _ this, of new "buckets lh"] n
  have p: "length ?bs = unat new" "placed ?bs" "mset (concat ?bs) = mset (concat (buckets lh))" by simp_all
  have "lh_rebucket mem new lh = lh\<lparr>buckets := ?bs\<rparr>" using False by (simp add: lh_rebucket_def Let_def)
  then show ?thesis
    using p n assms(1) unat_u64_less [of new] by (simp add: lh_shape_def same_contents_def lh_items_def)
qed

lemma maybe_resize_ok:
  assumes "lh_shape lh"
  shows "\<exists>lh'. lh_maybe_resize mem lh = Some lh' \<and> lh_shape lh' \<and> same_contents lh lh'"
proof -
  let ?n = "num_buckets lh"
  have n: "16 \<le> ?n" using assms unat_of_nat_u64 [of "length (buckets lh)"] by (simp add: lh_shape_def word_le_nat_alt)
  have same: "lh_shape lh \<and> same_contents lh lh" using assms by (simp add: same_contents_def)
  have "\<not> ?n < kMinNumBuckets" using n by (simp add: kMinNumBuckets_def)
  moreover have "16 \<le> ?n * 2" if "?n * 2 > ?n" using n that by simp
  moreover have "16 \<le> (if ?n div 2 < kMinNumBuckets then kMinNumBuckets else ?n div 2)"
    by (auto simp: kMinNumBuckets_def)
  ultimately show ?thesis
    using same rebucket_ok [OF assms] by (auto simp: lh_maybe_resize_def Let_def)
qed


section \<open>The contract of the keys\<close>

text \<open>
  What the table relies on: on the objects that are stored and looked up, the comparison function is
  zero exactly on the classes of an equivalence, and equal objects have equal hash values.
\<close>

locale lhash_keys =
  fixes valid :: "'a \<Rightarrow> bool" and hash :: "'a \<Rightarrow> u32" and cmp :: "'a \<Rightarrow> 'a \<Rightarrow> int"
  assumes refl: "valid x \<Longrightarrow> cmp x x = 0"
    and sym: "valid x \<Longrightarrow> valid y \<Longrightarrow> cmp x y = 0 \<Longrightarrow> cmp y x = 0"
    and trans: "valid x \<Longrightarrow> valid y \<Longrightarrow> valid z \<Longrightarrow> cmp x y = 0 \<Longrightarrow> cmp y z = 0 \<Longrightarrow> cmp x z = 0"
    and hash_cong: "valid x \<Longrightarrow> valid y \<Longrightarrow> cmp x y = 0 \<Longrightarrow> hash x = hash y"

text \<open>A table of such keys: at most one item per class, stored with its hash value.\<close>

definition lh_ok :: "('a \<Rightarrow> bool) \<Rightarrow> ('a \<Rightarrow> u32) \<Rightarrow> ('a \<Rightarrow> 'a \<Rightarrow> int) \<Rightarrow> 'a lhash \<Rightarrow> bool" where
  "lh_ok valid hash cmp lh \<longleftrightarrow> lh_shape lh \<and> lh_hash lh = hash \<and> lh_comp lh = cmp \<and>
     (\<forall>it \<in># lh_items lh. valid (item_data it) \<and> item_hash it = hash (item_data it)) \<and>
     (\<forall>x. valid x \<longrightarrow> size (filter_mset (\<lambda>it. cmp (item_data it) x = 0) (lh_items lh)) \<le> 1)"

text \<open>The finite map that a table stands for.\<close>

definition lh_lookup :: "'a lhash \<Rightarrow> 'a \<Rightarrow> 'a option" where
  "lh_lookup lh x = map_option item_data (find (\<lambda>it. lh_comp lh (item_data it) x = 0) (concat (buckets lh)))"

lemma size_le_1_unique:
  assumes "size (filter_mset P M) \<le> 1" "a \<in># M" "P a" "b \<in># M" "P b"
  shows "a = b"
proof (rule ccontr)
  assume "a \<noteq> b"
  then have "{#a, b#} \<subseteq># filter_mset P M"
    using assms(2-5) by (auto simp: subseteq_mset_def Suc_le_eq)
  then have "size {#a, b#} \<le> size (filter_mset P M)" by (rule size_mset_mono)
  then show False using assms(1) by simp
qed

lemma filter_none: "filter_mset P M = {#} \<longleftrightarrow> (\<forall>x \<in># M. \<not> P x)"
  by (induction M) auto

lemma find_SomeD: "find P xs = Some y \<Longrightarrow> y \<in> set xs \<and> P y"
  by (induction xs) (auto split: if_splits)

lemma lookup_None: "lh_lookup lh x = None \<longleftrightarrow> (\<forall>it \<in># lh_items lh. lh_comp lh (item_data it) x \<noteq> 0)"
  by (auto simp: lh_lookup_def lh_items_def find_None_iff)

lemma lookup_Some:
  assumes "lh_ok valid hash cmp lh" "valid x" "it \<in># lh_items lh" "cmp (item_data it) x = 0"
  shows "lh_lookup lh x = Some (item_data it)"
proof -
  let ?P = "\<lambda>it. lh_comp lh (item_data it) x = 0"
  have c: "lh_comp lh = cmp" using assms(1) by (simp add: lh_ok_def)
  obtain it' where it': "find ?P (concat (buckets lh)) = Some it'"
    using assms(3,4) c by (cases "find ?P (concat (buckets lh))") (auto simp: find_None_iff lh_items_def)
  from find_SomeD [OF it'] have "it' \<in> set (concat (buckets lh))" "?P it'" by simp_all
  then have "it' = it"
    using assms c by (intro size_le_1_unique [of "\<lambda>it. cmp (item_data it) x = 0" "lh_items lh"])
      (auto simp: lh_ok_def lh_items_def)
  then show ?thesis using it' by (simp add: lh_lookup_def)
qed

text \<open>Tables with the same items and functions stand for the same map.\<close>

lemma same_contents_ok: "same_contents lh lh' \<Longrightarrow> lh_shape lh' \<Longrightarrow> lh_ok valid hash cmp lh \<Longrightarrow> lh_ok valid hash cmp lh'"
  by (simp add: same_contents_def lh_ok_def)

context lhash_keys begin

abbreviation ok :: "'a lhash \<Rightarrow> bool" where
  "ok \<equiv> lh_ok valid hash cmp"

lemma lookup_eqI:
  assumes "ok lh" "ok lh'" "valid x"
    and "\<And>it. it \<in># lh_items lh \<Longrightarrow> cmp (item_data it) x = 0 \<Longrightarrow> \<exists>it' \<in># lh_items lh'. item_data it' = item_data it"
    and "\<And>it. it \<in># lh_items lh' \<Longrightarrow> cmp (item_data it) x = 0 \<Longrightarrow> \<exists>it' \<in># lh_items lh. item_data it' = item_data it"
  shows "lh_lookup lh' x = lh_lookup lh x"
proof (cases "lh_lookup lh' x")
  case None
  have "cmp (item_data it) x \<noteq> 0" if "it \<in># lh_items lh" for it
  proof
    assume c: "cmp (item_data it) x = 0"
    from assms(4) [OF that c] obtain it' where "it' \<in># lh_items lh'" "item_data it' = item_data it" by blast
    then show False using None lookup_None [of lh' x] c assms(2) by (auto simp: lh_ok_def)
  qed
  then have "lh_lookup lh x = None" using assms(1) by (simp add: lookup_None lh_ok_def)
  then show ?thesis using None by simp
next
  case (Some y)
  then obtain it where it: "it \<in># lh_items lh'" "cmp (item_data it) x = 0"
    using assms(2) lookup_None [of lh' x] by (auto simp: lh_ok_def)
  then obtain it' where "it' \<in># lh_items lh" "item_data it' = item_data it" using assms(5) by blast
  then show ?thesis using lookup_Some [OF assms(2,3)] lookup_Some [OF assms(1,3)] it by metis
qed

lemma lookup_same: "ok lh \<Longrightarrow> lh_shape lh' \<Longrightarrow> same_contents lh lh' \<Longrightarrow> valid x \<Longrightarrow> lh_lookup lh' x = lh_lookup lh x"
proof -
  assume a: "ok lh" "lh_shape lh'" "same_contents lh lh'" "valid x"
  then have "ok lh'" using same_contents_ok by blast
  then show "lh_lookup lh' x = lh_lookup lh x" using a by (intro lookup_eqI) (auto simp: same_contents_def)
qed

text \<open>The pointer that the search returns.\<close>

lemma next_ptr:
  assumes "ok lh" "valid x"
  obtains i k where "get_next_ptr_and_hash lh x = Some (hash x, i, k)" "i < length (buckets lh)"
    "i = unat (hash x) mod length (buckets lh)" "k \<le> length (buckets lh ! i)"
    "k < length (buckets lh ! i) \<Longrightarrow> cmp (item_data (buckets lh ! i ! k)) x = 0"
    "k = length (buckets lh ! i) \<Longrightarrow> lh_lookup lh x = None"
proof -
  define i where "i = unat (hash x) mod length (buckets lh)"
  define k where "k = chain_pos (\<lambda>cur. cmp (item_data cur) x = 0) (buckets lh ! i)"
  have sh: "lh_shape lh" "lh_hash lh = hash" "lh_comp lh = cmp" using assms(1) by (simp_all add: lh_ok_def)
  then have n: "length (buckets lh) < 2 ^ 64" "0 < length (buckets lh)" unfolding lh_shape_def by linarith+
  have ge: "get_next_ptr_and_hash lh x = Some (hash x, i, k)"
    using n(2) by (simp add: get_next_ptr_and_hash_def Let_def sh bucket_index [OF n(1)] i_def k_def del: length_greater_0_conv) auto
  have i: "i < length (buckets lh)" using n(2) by (simp add: i_def)
  have "lh_lookup lh x = None" if e: "k = length (buckets lh ! i)"
  proof -
    have "cmp (item_data it) x \<noteq> 0" if it: "it \<in># lh_items lh" for it
    proof
      assume c: "cmp (item_data it) x = 0"
      have v: "valid (item_data it)" "item_hash it = hash (item_data it)" using assms(1) it by (simp_all add: lh_ok_def)
      obtain j where j: "j < length (buckets lh)" "it \<in> set (buckets lh ! j)"
        using set_bucket [THEN iffD1, OF it [unfolded lh_items_def]] by blast
      then have "j = unat (item_hash it) mod length (buckets lh)" using sh(1) by (simp add: lh_shape_def placed_def)
      then have "j = i" using v hash_cong [OF v(1) assms(2) c] by (simp add: i_def)
      have "\<forall>cur \<in> set (buckets lh ! i). \<not> cmp (item_data cur) x = 0"
        using e unfolding k_def chain_pos_end .
      then show False using \<open>j = i\<close> j(2) c by blast
    qed
    then show ?thesis by (simp add: lookup_None sh)
  qed
  moreover have "cmp (item_data (buckets lh ! i ! k)) x = 0" if "k < length (buckets lh ! i)"
    using chain_pos_nth [OF that [unfolded k_def]] by (simp add: k_def)
  moreover have "k \<le> length (buckets lh ! i)" unfolding k_def by (rule chain_pos_le)
  ultimately show ?thesis using that [OF ge i i_def] by blast
qed

lemma next_ptr_lookup:
  assumes "ok lh" "valid x" "i < length (buckets lh)" "k < length (buckets lh ! i)" "cmp (item_data (buckets lh ! i ! k)) x = 0"
  shows "lh_lookup lh x = Some (item_data (buckets lh ! i ! k))"
    and "buckets lh ! i ! k \<in># lh_items lh"
proof -
  show m: "buckets lh ! i ! k \<in># lh_items lh"
    using assms(3) nth_mem [OF assms(4)] set_bucket [of "buckets lh ! i ! k" "buckets lh"] unfolding lh_items_def by blast
  show "lh_lookup lh x = Some (item_data (buckets lh ! i ! k))" by (rule lookup_Some [OF assms(1,2) m assms(5)])
qed

lemma retrieve_refines: "ok lh \<Longrightarrow> valid x \<Longrightarrow> lh_retrieve lh x = Some (lh_lookup lh x)"
proof -
  assume a: "ok lh" "valid x"
  obtain i k where p: "get_next_ptr_and_hash lh x = Some (hash x, i, k)" "i < length (buckets lh)" "k \<le> length (buckets lh ! i)"
    "k < length (buckets lh ! i) \<Longrightarrow> cmp (item_data (buckets lh ! i ! k)) x = 0" "k = length (buckets lh ! i) \<Longrightarrow> lh_lookup lh x = None"
    using next_ptr [OF a] by metis
  show ?thesis
    using p next_ptr_lookup(1) [OF a p(2)]
    by (cases "k < length (buckets lh ! i)") (simp_all add: lh_retrieve_def next_item_def)
qed

text \<open>Changing the items of one class.\<close>

lemma class_size:
  assumes "ok lh" "valid x" "valid z"
  shows "cmp x z = 0 \<Longrightarrow> filter_mset (\<lambda>it. cmp (item_data it) z = 0) (lh_items lh) =
    filter_mset (\<lambda>it. cmp (item_data it) x = 0) (lh_items lh)"
proof (rule filter_mset_cong [OF HOL.refl])
  fix it assume c: "cmp x z = 0" "it \<in># lh_items lh"
  then have "valid (item_data it)" using assms(1) by (simp add: lh_ok_def)
  then show "cmp (item_data it) z = 0 \<longleftrightarrow> cmp (item_data it) x = 0"
    using c(1) assms(2,3) by (meson sym trans)
qed

lemma insert_new:
  assumes a: "ok lh" "valid x" "lh_lookup lh x = None"
    and items: "lh_items lh' = add_mset \<lparr>item_data = x, item_hash = hash x\<rparr> (lh_items lh)"
    and rest: "lh_shape lh'" "lh_hash lh' = hash" "lh_comp lh' = cmp"
  shows "ok lh'" "valid y \<Longrightarrow> lh_lookup lh' y = (if cmp x y = 0 then Some x else lh_lookup lh y)"
proof -
  have c: "lh_comp lh = cmp" using a(1) by (simp add: lh_ok_def)
  have none: "filter_mset (\<lambda>it. cmp (item_data it) x = 0) (lh_items lh) = {#}"
    using a(3) by (auto simp: lookup_None c filter_none)
  have "size (filter_mset (\<lambda>it. cmp (item_data it) z = 0) (lh_items lh')) \<le> 1" if z: "valid z" for z
    using class_size [OF a(1,2) z] none a(1) z by (cases "cmp x z = 0") (simp_all add: items lh_ok_def)
  then show ok': "ok lh'" using a(1,2) rest by (simp add: lh_ok_def items)
  assume y: "valid y"
  show "lh_lookup lh' y = (if cmp x y = 0 then Some x else lh_lookup lh y)"
  proof (cases "cmp x y = 0")
    case True
    then show ?thesis
      using lookup_Some [OF ok' y, of "\<lparr>item_data = x, item_hash = hash x\<rparr>"] by (simp add: items)
  next
    case False
    have "lh_lookup lh' y = lh_lookup lh y"
      by (rule lookup_eqI [OF a(1) ok' y]) (use False in \<open>auto simp: items\<close>)
    then show ?thesis using False by simp
  qed
qed

lemma insert_old:
  assumes a: "ok lh" "valid x" "it \<in># lh_items lh" "cmp (item_data it) x = 0"
    and items: "lh_items lh' = add_mset (it\<lparr>item_data := x\<rparr>) (lh_items lh - {#it#})"
    and rest: "lh_shape lh'" "lh_hash lh' = hash" "lh_comp lh' = cmp"
  shows "ok lh'" "valid y \<Longrightarrow> lh_lookup lh' y = (if cmp x y = 0 then Some x else lh_lookup lh y)"
proof -
  have v: "valid (item_data it)" "item_hash it = hash (item_data it)" using a(1,3) by (simp_all add: lh_ok_def)
  have hx: "hash (item_data it) = hash x" by (rule hash_cong [OF v(1) a(2,4)])
  have cls: "cmp (item_data it) z = 0 \<longleftrightarrow> cmp x z = 0" if "valid z" for z
    using a(2,4) v(1) that by (meson sym trans)
  have "size (filter_mset (\<lambda>it. cmp (item_data it) z = 0) (lh_items lh')) =
      size (filter_mset (\<lambda>it. cmp (item_data it) z = 0) (lh_items lh))" if z: "valid z" for z
  proof -
    have "lh_items lh = add_mset it (lh_items lh - {#it#})" using a(3) by simp
    then have s: "filter_mset (\<lambda>it. cmp (item_data it) z = 0) (lh_items lh) =
      filter_mset (\<lambda>it. cmp (item_data it) z = 0) (add_mset it (lh_items lh - {#it#}))" by (rule arg_cong)
    show ?thesis by (subst s) (simp add: items cls [OF z])
  qed
  moreover have "valid (item_data it') \<and> item_hash it' = hash (item_data it')" if "it' \<in># lh_items lh'" for it'
  proof (cases "it' = it\<lparr>item_data := x\<rparr>")
    case True
    show ?thesis unfolding True using a(2) v(2) hx by simp
  next
    case False
    then have "it' \<in># lh_items lh - {#it#}" using that unfolding items by simp
    then have "it' \<in># lh_items lh" by (rule in_diffD)
    then show ?thesis using a(1) by (simp add: lh_ok_def)
  qed
  ultimately show ok': "ok lh'" using a(1) rest by (simp add: lh_ok_def)
  assume y: "valid y"
  show "lh_lookup lh' y = (if cmp x y = 0 then Some x else lh_lookup lh y)"
  proof (cases "cmp x y = 0")
    case True
    then show ?thesis using lookup_Some [OF ok' y, of "it\<lparr>item_data := x\<rparr>"] by (simp add: items)
  next
    case False
    have "lh_lookup lh' y = lh_lookup lh y"
    proof (rule lookup_eqI [OF a(1) ok' y])
      fix it' assume i: "it' \<in># lh_items lh" "cmp (item_data it') y = 0"
      then have "it' \<noteq> it" using False cls [OF y] by auto
      then have "it' \<in># lh_items lh'" using i by (simp add: items in_diff_count)
      then show "\<exists>it'' \<in># lh_items lh'. item_data it'' = item_data it'" by blast
    next
      fix it' assume i: "it' \<in># lh_items lh'" "cmp (item_data it') y = 0"
      then show "\<exists>it'' \<in># lh_items lh. item_data it'' = item_data it'" using False by (auto simp: items dest: in_diffD)
    qed
    then show ?thesis using False by simp
  qed
qed

lemma delete_old:
  assumes a: "ok lh" "valid x" "it \<in># lh_items lh" "cmp (item_data it) x = 0"
    and items: "lh_items lh' = lh_items lh - {#it#}"
    and rest: "lh_shape lh'" "lh_hash lh' = hash" "lh_comp lh' = cmp"
  shows "ok lh'" "valid y \<Longrightarrow> lh_lookup lh' y = (if cmp x y = 0 then None else lh_lookup lh y)"
proof -
  have v: "valid (item_data it)" using a(1,3) by (simp add: lh_ok_def)
  have cls: "cmp (item_data it) z = 0 \<longleftrightarrow> cmp x z = 0" if "valid z" for z
    using a(2,4) v(1) that by (meson sym trans)
  have split: "lh_items lh = add_mset it (lh_items lh')" using a(3) by (simp add: items)
  have one: "size (filter_mset (\<lambda>it. cmp (item_data it) z = 0) (lh_items lh)) \<le> 1" if "valid z" for z
    using a(1) that by (simp add: lh_ok_def)
  have "size (filter_mset (\<lambda>it. cmp (item_data it) z = 0) (lh_items lh')) \<le> 1" if z: "valid z" for z
  proof -
    have "lh_items lh' \<subseteq># lh_items lh" by (simp add: items)
    from size_mset_mono [OF multiset_filter_mono [OF this]] one [OF z] show ?thesis by (rule order_trans)
  qed
  then show ok': "ok lh'" using a(1) rest by (auto simp: lh_ok_def items dest: in_diffD)
  assume y: "valid y"
  show "lh_lookup lh' y = (if cmp x y = 0 then None else lh_lookup lh y)"
  proof (cases "cmp x y = 0")
    case True
    then have "filter_mset (\<lambda>it. cmp (item_data it) y = 0) (lh_items lh') = {#}"
      using one [OF y] cls [OF y] unfolding split by simp
    then show ?thesis using True rest(3) by (auto simp: lookup_None filter_none)
  next
    case False
    have "lh_lookup lh' y = lh_lookup lh y"
      by (rule lookup_eqI [OF a(1) ok' y]) (use False cls [OF y] in \<open>auto simp: split\<close>)
    then show ?thesis using False by simp
  qed
qed

theorem insert_refines:
  assumes a: "ok lh" "valid x"
  shows "\<exists>b old lh'. lh_insert mem x lh = Some (b, old, lh') \<and> ok lh' \<and>
    (if b then old = lh_lookup lh x \<and> (\<forall>y. valid y \<longrightarrow> lh_lookup lh' y = (if cmp x y = 0 then Some x else lh_lookup lh y))
     else lh' = lh \<and> old = None \<and> lh_lookup lh x = None \<and> \<not> mem 24)"
proof -
  obtain i k where p: "get_next_ptr_and_hash lh x = Some (hash x, i, k)" "i < length (buckets lh)"
    "i = unat (hash x) mod length (buckets lh)" "k \<le> length (buckets lh ! i)"
    "k < length (buckets lh ! i) \<Longrightarrow> cmp (item_data (buckets lh ! i ! k)) x = 0" "k = length (buckets lh ! i) \<Longrightarrow> lh_lookup lh x = None"
    using next_ptr [OF a] by metis
  have sh: "lh_shape lh" "lh_hash lh = hash" "lh_comp lh = cmp" using a(1) by (simp_all add: lh_ok_def)
  let ?c = "buckets lh ! i"
  show ?thesis
  proof (cases "k < length ?c")
    case True
    let ?it = "?c ! k"
    define lh' where "lh' = lh\<lparr>buckets := (buckets lh)[i := ?c[k := ?it\<lparr>item_data := x\<rparr>]]\<rparr>"
    note m = next_ptr_lookup [OF a p(2) True p(5) [OF True]]
    have "mset (concat ((buckets lh)[i := ?c[k := ?it\<lparr>item_data := x\<rparr>]])) + mset ?c =
        mset (concat (buckets lh)) + (add_mset (?it\<lparr>item_data := x\<rparr>) (mset ?c - {#?it#}))"
      using mset_bucket [OF p(2)] True by (simp add: mset_update)
    then have items: "lh_items lh' = add_mset (?it\<lparr>item_data := x\<rparr>) (lh_items lh - {#?it#})"
    proof -
      have s: "mset ?c = add_mset ?it (mset ?c - {#?it#})" using True by simp
      assume e: "mset (concat ((buckets lh)[i := ?c[k := ?it\<lparr>item_data := x\<rparr>]])) + mset ?c =
        mset (concat (buckets lh)) + (add_mset (?it\<lparr>item_data := x\<rparr>) (mset ?c - {#?it#}))"
      have t: "lh_items lh = add_mset ?it (lh_items lh - {#?it#})" using m(2) by simp
      have "lh_items lh' + add_mset ?it (mset ?c - {#?it#}) =
          add_mset ?it (lh_items lh - {#?it#}) + add_mset (?it\<lparr>item_data := x\<rparr>) (mset ?c - {#?it#})"
        using e s t by (simp add: lh_items_def lh'_def)
      then show ?thesis by simp
    qed
    have "placed (buckets lh')"
      unfolding placed_def
    proof (intro allI impI ballI)
      fix j it assume j: "j < length (buckets lh')" "it \<in> set (buckets lh' ! j)"
      have pl: "j < length (buckets lh) \<Longrightarrow> it \<in> set (buckets lh ! j) \<Longrightarrow> unat (item_hash it) mod length (buckets lh) = j" for j it
        using sh(1) by (simp add: lh_shape_def placed_def)
      show "unat (item_hash it) mod length (buckets lh') = j"
      proof (cases "j = i")
        case ji: True
        then have "it \<in> set (?c[k := ?it\<lparr>item_data := x\<rparr>])" using j(2) p(2) by (simp add: lh'_def)
        then have "it = ?it\<lparr>item_data := x\<rparr> \<or> it \<in> set ?c" using set_update_subset_insert by fast
        then show ?thesis
        proof
          assume e: "it = ?it\<lparr>item_data := x\<rparr>"
          show ?thesis unfolding e using pl [OF p(2) nth_mem [OF True]] ji by (simp add: lh'_def)
        next
          assume "it \<in> set ?c"
          then show ?thesis using pl [OF p(2)] ji by (simp add: lh'_def)
        qed
      next
        case False
        then show ?thesis using j pl by (simp add: lh'_def)
      qed
    qed
    moreover have "size (lh_items lh') = size (lh_items lh)" using size_Suc_Diff1 [OF m(2)] by (simp add: items)
    moreover have "num_items lh' = num_items lh" "length (buckets lh') = length (buckets lh)" by (simp_all add: lh'_def)
    ultimately have shape: "lh_shape lh'" using sh(1) by (simp add: lh_shape_def)
    have fns: "lh_hash lh' = hash" "lh_comp lh' = cmp" using sh by (simp_all add: lh'_def)
    note ins = insert_old [OF a m(2) p(5) [OF True] items shape fns]
    have "lh_insert mem x lh = Some (True, Some (item_data ?it), lh')"
      using p(1) True by (simp add: lh_insert_def next_item_def lh'_def)
    then show ?thesis using ins m(1) by auto
  next
    case False
    then have k: "k = length ?c" using p(4) by simp
    note none = p(6) [OF k]
    show ?thesis
    proof (cases "mem 24")
      case mF: False
      have "lh_insert mem x lh = Some (False, None, lh)"
        using p(1) k mF by (simp add: lh_insert_def next_item_def)
      then show ?thesis using a none mF by auto
    next
      case True
      let ?item = "\<lparr>item_data = x, item_hash = hash x\<rparr>"
      define lh1 where "lh1 = lh\<lparr>buckets := (buckets lh)[i := ?c @ [?item]], num_items := num_items lh + 1\<rparr>"
      have items: "lh_items lh1 = add_mset ?item (lh_items lh)"
        using mset_bucket [OF p(2), of "?c @ [?item]"] by (simp add: lh_items_def lh1_def)
      have "placed (buckets lh1)"
        using sh(1) p(2,3) unfolding lh1_def lh_shape_def placed_def by (auto simp: nth_list_update)
      moreover have "num_items lh1 = num_items lh + 1" "length (buckets lh1) = length (buckets lh)" by (simp_all add: lh1_def)
      ultimately have shape: "lh_shape lh1" using sh(1) items by (simp add: lh_shape_def add.commute)
      have fns: "lh_hash lh1 = hash" "lh_comp lh1 = cmp" using sh by (simp_all add: lh1_def)
      note ins = insert_new [OF a none items shape fns]
      obtain lh' where r: "lh_maybe_resize mem lh1 = Some lh'" "lh_shape lh'" "same_contents lh1 lh'"
        using maybe_resize_ok [OF shape] by blast
      have "lh_insert mem x lh = Some (True, None, lh')"
        using p(1) k True r(1) by (simp add: lh_insert_def next_item_def lh1_def)
      then show ?thesis
        using same_contents_ok [OF r(3,2) ins(1)] lookup_same [OF ins(1) r(2,3)] ins(2) none by auto
    qed
  qed
qed

theorem delete_refines:
  assumes a: "ok lh" "valid x"
  shows "\<exists>lh'. lh_delete mem x lh = Some (lh_lookup lh x, lh') \<and> ok lh' \<and>
    (\<forall>y. valid y \<longrightarrow> lh_lookup lh' y = (if cmp x y = 0 then None else lh_lookup lh y))"
proof -
  obtain i k where p: "get_next_ptr_and_hash lh x = Some (hash x, i, k)" "i < length (buckets lh)" "k \<le> length (buckets lh ! i)"
    "k < length (buckets lh ! i) \<Longrightarrow> cmp (item_data (buckets lh ! i ! k)) x = 0" "k = length (buckets lh ! i) \<Longrightarrow> lh_lookup lh x = None"
    using next_ptr [OF a] by metis
  have sh: "lh_shape lh" "lh_hash lh = hash" "lh_comp lh = cmp" using a(1) by (simp_all add: lh_ok_def)
  let ?c = "buckets lh ! i"
  show ?thesis
  proof (cases "k < length ?c")
    case True
    let ?it = "?c ! k" and ?c' = "take k ?c @ drop (Suc k) ?c"
    define lh1 where "lh1 = lh\<lparr>buckets := (buckets lh)[i := ?c'], num_items := num_items lh - 1\<rparr>"
    note m = next_ptr_lookup [OF a p(2) True p(4) [OF True]]
    have split: "mset ?c = add_mset ?it (mset ?c')"
      by (subst id_take_nth_drop [OF True]) simp
    then have "lh_items lh1 + mset ?c = lh_items lh + mset ?c'"
      using mset_bucket [OF p(2), of ?c'] by (simp add: lh_items_def lh1_def)
    then have l: "lh_items lh = add_mset ?it (lh_items lh1)" unfolding split by simp
    then have items: "lh_items lh1 = lh_items lh - {#?it#}" by simp
    have "placed (buckets lh1)"
      using sh(1) p(2) unfolding lh1_def lh_shape_def placed_def
      by (auto simp: nth_list_update dest: in_set_takeD in_set_dropD)
    moreover have "num_items lh1 = num_items lh - 1" "length (buckets lh1) = length (buckets lh)" by (simp_all add: lh1_def)
    ultimately have shape: "lh_shape lh1" using sh(1) l by (simp add: lh_shape_def)
    have fns: "lh_hash lh1 = hash" "lh_comp lh1 = cmp" using sh by (simp_all add: lh1_def)
    note del = delete_old [OF a m(2) p(4) [OF True] items shape fns]
    obtain lh' where r: "lh_maybe_resize mem lh1 = Some lh'" "lh_shape lh'" "same_contents lh1 lh'"
      using maybe_resize_ok [OF shape] by blast
    have "lh_delete mem x lh = Some (Some (item_data ?it), lh')"
      using p(1) True r(1) by (simp add: lh_delete_def next_item_def lh1_def)
    then show ?thesis
      using same_contents_ok [OF r(3,2) del(1)] lookup_same [OF del(1) r(2,3)] del(2) m(1) by auto
  next
    case False
    then have k: "k = length ?c" using p(3) by simp
    note none = p(5) [OF k]
    have "lh_delete mem x lh = Some (None, lh)" using p(1) k by (simp add: lh_delete_def next_item_def)
    moreover have "lh_lookup lh y = None" if "valid y" "cmp x y = 0" for y
    proof -
      have "filter_mset (\<lambda>it. cmp (item_data it) y = 0) (lh_items lh) = {#}"
        using class_size [OF a that] none sh(3) by (simp add: lookup_None filter_none)
      then show ?thesis using sh(3) by (simp add: lookup_None filter_none)
    qed
    ultimately show ?thesis using a none by auto
  qed
qed

text \<open>Looking up by a key of another type that a comparison function relates to the stored objects.\<close>

theorem retrieve_key_refines:
  assumes a: "ok lh" "valid x" and key: "key_hash = hash x" "\<And>y. valid y \<Longrightarrow> cmp_key key y = 0 \<longleftrightarrow> cmp y x = 0"
  shows "lh_retrieve_key lh key key_hash cmp_key = Some (lh_lookup lh x)"
proof -
  have sh: "lh_shape lh" "lh_hash lh = hash" "lh_comp lh = cmp" using a(1) by (simp_all add: lh_ok_def)
  then have n: "length (buckets lh) < 2 ^ 64" "0 < length (buckets lh)" unfolding lh_shape_def by linarith+
  define i where "i = unat (hash x) mod length (buckets lh)"
  have i: "i < length (buckets lh)" using n(2) by (simp add: i_def)
  have pos: "chain_pos (\<lambda>cur. cmp_key key (item_data cur) = 0) c = chain_pos (\<lambda>cur. cmp (item_data cur) x = 0) c"
    if "\<forall>it \<in> set c. valid (item_data it)" for c
    using that by (induction c) (simp_all add: key(2))
  have "\<forall>it \<in> set (buckets lh ! i). valid (item_data it)"
  proof
    fix it assume "it \<in> set (buckets lh ! i)"
    then have "it \<in># lh_items lh" unfolding lh_items_def by (intro set_bucket [THEN iffD2]) (use i in blast)
    then show "valid (item_data it)" using a(1) by (simp add: lh_ok_def)
  qed
  from pos [OF this] have "get_next_ptr_by_key lh key key_hash cmp_key = map_option snd (get_next_ptr_and_hash lh x)"
    unfolding get_next_ptr_by_key_def get_next_ptr_and_hash_def Let_def sh key(1) bucket_index [OF n(1)] i_def [symmetric] by simp
  then have "lh_retrieve_key lh key key_hash cmp_key = lh_retrieve lh x"
    by (cases "get_next_ptr_and_hash lh x") (auto simp: lh_retrieve_key_def lh_retrieve_def)
  then show ?thesis using retrieve_refines [OF a] by simp
qed

theorem new_refines:
  assumes "lh_new mem hash cmp = Some lh"
  shows "ok lh" "lh_lookup lh x = None" "lh_items lh = {#}" "callback_depth lh = 0"
proof -
  have lh: "lh = \<lparr>num_items = 0, buckets = replicate 16 [], callback_depth = 0, lh_hash = hash, lh_comp = cmp\<rparr>"
    using assms by (simp add: lh_new_def kMinNumBuckets_def split: if_splits)
  show items: "lh_items lh = {#}" by (simp add: lh_items_def lh)
  have "lh_shape lh" using items by (simp add: lh_shape_def placed_def lh)
  then show "ok lh" using items by (simp add: lh_ok_def lh)
  show "lh_lookup lh x = None" using items by (simp add: lookup_None)
  show "callback_depth lh = 0" by (simp add: lh)
qed

text \<open>The iteration visits every stored object once.\<close>

theorem doall_refines:
  assumes a: "ok lh"
  shows "\<exists>xs lh'. mset xs = image_mset item_data (lh_items lh) \<and> lh_doall_arg mem f arg lh = Some (fold f xs arg, lh') \<and>
    ok lh' \<and> (\<forall>x. valid x \<longrightarrow> lh_lookup lh' x = lh_lookup lh x)"
proof -
  let ?xs = "map item_data (concat (buckets lh))"
  let ?d = "if callback_depth lh < UINT_MAX then callback_depth lh + 1 else callback_depth lh"
  define lh1 where "lh1 = lh\<lparr>callback_depth := if ?d < UINT_MAX then ?d - 1 else ?d\<rparr>"
  have same: "lh_items lh1 = lh_items lh" "lh_hash lh1 = lh_hash lh" "lh_comp lh1 = lh_comp lh" "buckets lh1 = buckets lh"
    "num_items lh1 = num_items lh" by (simp_all add: lh1_def lh_items_def)
  have ok1: "ok lh1" using a unfolding lh_ok_def lh_shape_def same .
  have look: "lh_lookup lh1 x = lh_lookup lh x" for x by (simp add: lh_lookup_def same)
  have f: "fold (fold (\<lambda>cur. f (item_data cur))) bs arg = fold f (map item_data (concat bs)) arg" for bs arg
    by (induction bs arbitrary: arg) (simp_all add: fold_map comp_def)
  obtain lh' where r: "lh_maybe_resize mem lh1 = Some lh'" "lh_shape lh'" "same_contents lh1 lh'"
    using maybe_resize_ok [of lh1 mem] ok1 by (auto simp: lh_ok_def)
  have "lh_doall_arg mem f arg lh = map_option (\<lambda>lh. (fold f ?xs arg, lh)) (lh_maybe_resize mem lh1)"
    by (simp add: lh_doall_arg_def Let_def f lh1_def)
  then have "lh_doall_arg mem f arg lh = Some (fold f ?xs arg, lh')" using r(1) by simp
  moreover have "mset ?xs = image_mset item_data (lh_items lh)" by (simp only: lh_items_def mset_map)
  moreover have "ok lh'" by (rule same_contents_ok [OF r(3,2) ok1])
  moreover have "lh_lookup lh' x = lh_lookup lh x" if "valid x" for x
    using lookup_same [OF ok1 r(2,3) that] look by simp
  ultimately show ?thesis by blast
qed

end

section \<open>Runs\<close>

text \<open>
  The tables that a client reaches from a new one by inserting, deleting and iterating, each with the
  finite map that the operations describe.
\<close>

inductive lh_run ::
  "('a \<Rightarrow> bool) \<Rightarrow> ('a \<Rightarrow> u32) \<Rightarrow> ('a \<Rightarrow> 'a \<Rightarrow> int) \<Rightarrow> 'a lhash \<Rightarrow> ('a \<Rightarrow> 'a option) \<Rightarrow> bool"
  for valid hash cmp where
  run_new: "lh_new mem hash cmp = Some lh \<Longrightarrow> lh_run valid hash cmp lh (\<lambda>y. None)"
| run_insert: "lh_run valid hash cmp lh m \<Longrightarrow> valid x \<Longrightarrow> lh_insert mem x lh = Some (b, old, lh') \<Longrightarrow>
    lh_run valid hash cmp lh' (if b then (\<lambda>y. if cmp x y = 0 then Some x else m y) else m)"
| run_delete: "lh_run valid hash cmp lh m \<Longrightarrow> valid x \<Longrightarrow> lh_delete mem x lh = Some (old, lh') \<Longrightarrow>
    lh_run valid hash cmp lh' (\<lambda>y. if cmp x y = 0 then None else m y)"
| run_doall: "lh_run valid hash cmp lh m \<Longrightarrow> lh_doall_arg mem (f :: 'a \<Rightarrow> 'a list \<Rightarrow> 'a list) arg lh = Some (arg', lh') \<Longrightarrow>
    lh_run valid hash cmp lh' m"

context lhash_keys begin

lemma run_refines:
  "lh_run valid hash cmp lh m \<Longrightarrow> ok lh \<and> (\<forall>x. valid x \<longrightarrow> lh_lookup lh x = m x)"
proof (induction rule: lh_run.induct)
  case (run_new mem lh)
  then show ?case using new_refines(1,2) by blast
next
  case (run_insert lh m x mem b old lh')
  then show ?case using insert_refines [of lh x mem] by (cases b) auto
next
  case (run_delete lh m x mem old lh')
  then show ?case using delete_refines [of lh x mem] by auto
next
  case (run_doall lh m mem f arg arg' lh')
  then show ?case using doall_refines [of lh mem f arg] by auto
qed

end

text \<open>
  C11. The hash table refines a finite map: after any sequence of insertions, deletions and
  iterations, whatever allocations failed and however often it was resized, a lookup returns what
  the map that the sequence describes holds, an insertion and a deletion return the object that they
  replace or remove, an insertion fails only when the new item cannot be allocated, and every
  operation is defined.
\<close>

theorem lhash_refines_map:
  assumes "lhash_keys valid hash cmp" and "lh_run valid hash cmp lh m" and "valid x"
  shows "lh_retrieve lh x = Some (m x) \<and>
    (\<exists>b old lh'. lh_insert mem x lh = Some (b, old, lh') \<and>
      (if b then old = m x else m x = None \<and> \<not> mem 24 \<and> lh' = lh)) \<and>
    (\<exists>lh'. lh_delete mem x lh = Some (m x, lh'))"
proof -
  note ok = lhash_keys.run_refines [OF assms(1,2)]
  note look = ok [THEN conjunct2, rule_format, OF assms(3)]
  from lhash_keys.retrieve_refines [OF assms(1) ok [THEN conjunct1] assms(3)]
    lhash_keys.insert_refines [OF assms(1) ok [THEN conjunct1] assms(3), of mem]
    lhash_keys.delete_refines [OF assms(1) ok [THEN conjunct1] assms(3), of mem]
  show ?thesis unfolding look by (auto split: if_splits)
qed

text \<open>A table of machine words, compared by their difference.\<close>

definition word_cmp :: "u32 \<Rightarrow> u32 \<Rightarrow> int" where
  "word_cmp x y = (if x = y then 0 else 1)"

lemma lhash_refines_map_witness:
  "\<exists>lh. lh_retrieve lh (37 :: u32) = Some (Some 37) \<and> (\<exists>lh'. lh_delete (\<lambda>n. True) 37 lh = Some (Some 37, lh'))"
proof -
  let ?H = "\<lambda>x :: u32. x mod 8"
  have k: "lhash_keys (\<lambda>x. True) ?H word_cmp" by unfold_locales (auto simp: word_cmp_def split: if_splits)
  obtain lh where n: "lh_new (\<lambda>n. True) ?H word_cmp = Some lh" by (simp add: lh_new_def)
  note r = run_new [OF n, of "\<lambda>x. True"]
  obtain old lh' where i: "lh_insert (\<lambda>n. True) 37 lh = Some (True, old, lh')"
    using lhash_refines_map [OF k r TrueI, of 37 "\<lambda>n. True"] by (auto split: if_splits)
  have "lh_run (\<lambda>x. True) ?H word_cmp lh' (\<lambda>y. if word_cmp 37 y = 0 then Some 37 else None)"
    using run_insert [OF r _ i] by simp
  from lhash_refines_map [OF k this TrueI, of 37 "\<lambda>n. True"] show ?thesis by (auto simp: word_cmp_def)
qed

end
