(* ===== verification/Pool.thy ===== *)
theory Pool
  imports Lhash_Spec Cbb_Asn1
begin

text \<open>
  BoringSSL: the pool that shares equal byte buffers between threads (\<open>crypto/pool/pool.c\<close>, with
  the reference counts of \<open>crypto/refcount_c11.c\<close> and \<open>crypto/refcount_lock.c\<close>).

  The buffers are a heap of objects with addresses; an address is reused after it was freed. The
  table holds addresses; what the hash and the comparison read through an address, the bytes of the
  buffer, is kept with it, since no function writes them after the buffer was created. One pool is
  modelled, with the buffers that belong to no pool. A call is the program counter of its thread,
  with the local variables that are still used; a step executes the code up to the next access to
  shared state, so calls interleave at every lock operation, table operation and counter update.
  A call that returns gives its reference to the client, whose references are counted in \<open>held\<close>;
  that counter is not part of the program.
\<close>

section \<open>Reference counts\<close>

definition CRYPTO_REFCOUNT_MAX :: u32 where "CRYPTO_REFCOUNT_MAX = 0xffffffff"

text \<open>With the lock; \<open>None\<close> is \<open>abort\<close>.\<close>

definition CRYPTO_refcount_inc :: "u32 \<Rightarrow> u32" where
  "CRYPTO_refcount_inc n = (if n < CRYPTO_REFCOUNT_MAX then n + 1 else n)"

definition CRYPTO_refcount_dec_and_test_zero :: "u32 \<Rightarrow> (bool \<times> u32) option" where
  "CRYPTO_refcount_dec_and_test_zero n = (if n = 0 then None
     else let n = (if n < CRYPTO_REFCOUNT_MAX then n - 1 else n) in Some (n = 0, n))"

text \<open>
  With \<open>atomic_compare_exchange_weak\<close>. The list holds what the shared count is when each attempt is
  made, and whether the attempt fails although the count is the expected one. The result is the
  number of attempts before the one that wrote, and the value written; a loop that ends without an
  attempt wrote nothing. The outer \<open>None\<close> says that the loop is still running after these attempts.
\<close>

fun refcount_inc_loop :: "u32 \<Rightarrow> (u32 \<times> bool) list \<Rightarrow> (nat \<times> u32) option option" where
  "refcount_inc_loop expected attempts = (if expected = CRYPTO_REFCOUNT_MAX then Some None
     else case attempts of [] \<Rightarrow> None
     | (n, fails) # attempts \<Rightarrow>
         let new_value = expected + 1 in
         if n = expected \<and> \<not> fails then Some (Some (0, new_value))
         else map_option (map_option (map_prod Suc id)) (refcount_inc_loop n attempts))"

datatype dec_result = Dec_abort | Dec_saturated | Dec_wrote nat u32

fun refcount_dec_loop :: "u32 \<Rightarrow> (u32 \<times> bool) list \<Rightarrow> dec_result option" where
  "refcount_dec_loop expected attempts = (if expected = 0 then Some Dec_abort
     else if expected = CRYPTO_REFCOUNT_MAX then Some Dec_saturated
     else case attempts of [] \<Rightarrow> None
     | (n, fails) # attempts \<Rightarrow>
         let new_value = expected - 1 in
         if n = expected \<and> \<not> fails then Some (Dec_wrote 0 new_value)
         else map_option (\<lambda>r. case r of Dec_wrote k v \<Rightarrow> Dec_wrote (Suc k) v | r \<Rightarrow> r) (refcount_dec_loop n attempts))"

declare refcount_inc_loop.simps [simp del] refcount_dec_loop.simps [simp del]

section \<open>Buffers and the pool\<close>

record crypto_buffer =
  buf_pooled :: bool
  buf_data :: "u8 list"
  references :: u32

type_synonym buf_ref = "nat \<times> u8 list"

definition CRYPTO_BUFFER_hash :: "buf_ref \<Rightarrow> u32" where
  "CRYPTO_BUFFER_hash buf = OPENSSL_hash32 (snd buf)"

definition CRYPTO_BUFFER_cmp :: "buf_ref \<Rightarrow> buf_ref \<Rightarrow> int" where
  "CRYPTO_BUFFER_cmp a b = (if length (snd a) \<noteq> length (snd b) then 1 else OPENSSL_memcmp (snd a) (snd b))"

record crypto_pool =
  bufs :: "buf_ref lhash"
  readers :: nat
  writer :: bool
  bufheap :: "nat \<Rightarrow> crypto_buffer option"

definition CRYPTO_BUFFER_POOL_new :: "(u64 \<Rightarrow> bool) \<Rightarrow> crypto_pool option" where
  "CRYPTO_BUFFER_POOL_new mem = (if \<not> mem 208 then None
     else case lh_new mem CRYPTO_BUFFER_hash CRYPTO_BUFFER_cmp of None \<Rightarrow> None
     | Some lh \<Rightarrow> Some \<lparr>bufs = lh, readers = 0, writer = False, bufheap = (\<lambda>r. None)\<rparr>)"

text \<open>\<open>False\<close> when the assertion fails.\<close>

definition CRYPTO_BUFFER_POOL_free :: "crypto_pool \<Rightarrow> bool" where
  "CRYPTO_BUFFER_POOL_free P \<longleftrightarrow> lh_num_items (bufs P) = 0"

definition CRYPTO_BUFFER_data :: "crypto_buffer \<Rightarrow> u8 list" where
  "CRYPTO_BUFFER_data buf = buf_data buf"

definition CRYPTO_BUFFER_len :: "crypto_buffer \<Rightarrow> u64" where
  "CRYPTO_BUFFER_len buf = word_of_nat (length (buf_data buf))"

definition CRYPTO_BUFFER_init_CBS :: "crypto_buffer \<Rightarrow> cbs" where
  "CRYPTO_BUFFER_init_CBS buf = CBS_init (buf_data buf) (CRYPTO_BUFFER_len buf)"

section \<open>The steps of the calls\<close>

text \<open>
  Where a call stands: \<open>data\<close> is the argument of \<open>CRYPTO_BUFFER_new\<close>, \<open>r\<close> a buffer. A call whose
  next step is \<open>Ret\<close> has finished, with the buffers of the list as the references it gives to the
  client.
\<close>

datatype call =
    NewLockRead "u8 list" | NewRetrieve "u8 list" | NewIncRead "u8 list" nat
  | NewUnlockRead "u8 list" "nat option" | NewAlloc "u8 list" bool
  | NewLockWrite "u8 list" nat | NewInsert "u8 list" nat | NewIncWrite "u8 list" nat nat
  | NewUnlockWrite "u8 list" nat bool "nat option" | NewDrop "u8 list" nat "nat option"
  | NewRet "u8 list" "nat option"
  | FreeEnter nat | FreeDec nat | FreeLock nat | FreeDecLocked nat | FreeDelete nat
  | FreeUnlock nat bool | FreeMem nat | FreeRet
  | UpRef nat | UpRefRet nat

text \<open>\<open>Wrong\<close> is an access to a freed buffer, a failed assertion or a call of \<open>abort\<close>.\<close>

datatype outcome = Blocked | Wrong | Next call crypto_pool

definition CRYPTO_BUFFER_new :: "u8 list \<Rightarrow> bool \<Rightarrow> call" where
  "CRYPTO_BUFFER_new dat pooled = (if pooled then NewLockRead dat else NewAlloc dat False)"

text \<open>The buffer that \<open>CRYPTO_BUFFER_alloc\<close> returns has bytes that nobody has written.\<close>

definition CRYPTO_BUFFER_alloc :: "u8 list \<Rightarrow> call" where
  "CRYPTO_BUFFER_alloc uninit = NewAlloc uninit False"

definition CRYPTO_BUFFER_new_from_CBS :: "cbs \<Rightarrow> bool \<Rightarrow> call" where
  "CRYPTO_BUFFER_new_from_CBS s pooled = CRYPTO_BUFFER_new (CBS_data s) pooled"

definition CRYPTO_BUFFER_free :: "nat option \<Rightarrow> call" where
  "CRYPTO_BUFFER_free buf = (case buf of None \<Rightarrow> FreeRet | Some r \<Rightarrow> FreeEnter r)"

definition CRYPTO_BUFFER_up_ref :: "nat \<Rightarrow> call" where
  "CRYPTO_BUFFER_up_ref r = UpRef r"

definition with_buf :: "crypto_pool \<Rightarrow> nat \<Rightarrow> (crypto_buffer \<Rightarrow> outcome) \<Rightarrow> outcome" where
  "with_buf P r k = (case bufheap P r of None \<Rightarrow> Wrong | Some b \<Rightarrow> k b)"

definition lock_read :: "call \<Rightarrow> crypto_pool \<Rightarrow> outcome" where
  "lock_read c P = (if writer P then Blocked else Next c (P\<lparr>readers := readers P + 1\<rparr>))"

definition lock_write :: "call \<Rightarrow> crypto_pool \<Rightarrow> outcome" where
  "lock_write c P = (if writer P \<or> readers P > 0 then Blocked else Next c (P\<lparr>writer := True\<rparr>))"

definition inc_step :: "nat \<Rightarrow> call \<Rightarrow> crypto_pool \<Rightarrow> outcome" where
  "inc_step r c P = with_buf P r (\<lambda>b. Next c (P\<lparr>bufheap := (bufheap P)(r \<mapsto>
     b\<lparr>references := CRYPTO_refcount_inc (references b)\<rparr>)\<rparr>))"

definition dec_step :: "nat \<Rightarrow> (bool \<Rightarrow> call) \<Rightarrow> crypto_pool \<Rightarrow> outcome" where
  "dec_step r c P = with_buf P r (\<lambda>b. case CRYPTO_refcount_dec_and_test_zero (references b) of
       None \<Rightarrow> Wrong
     | Some (z, n) \<Rightarrow> Next (c z) (P\<lparr>bufheap := (bufheap P)(r \<mapsto> b\<lparr>references := n\<rparr>)\<rparr>))"

definition free_step :: "nat \<Rightarrow> call \<Rightarrow> crypto_pool \<Rightarrow> outcome" where
  "free_step r c P = with_buf P r (\<lambda>b. Next c (P\<lparr>bufheap := (bufheap P)(r := None)\<rparr>))"

text \<open>
  One step of a call. \<open>mem\<close> is the allocator, \<open>new\<close> the address of the next buffer; two
  allocations make a buffer, and the second may only return \<open>NULL\<close> when it is empty.
\<close>

fun call_step :: "(u64 \<Rightarrow> bool) \<Rightarrow> nat \<Rightarrow> call \<Rightarrow> crypto_pool \<Rightarrow> outcome" where
  "call_step mem new (NewLockRead dat) P = lock_read (NewRetrieve dat) P"
| "call_step mem new (NewRetrieve dat) P = (case lh_retrieve (bufs P) (0, dat) of
       None \<Rightarrow> Wrong
     | Some None \<Rightarrow> Next (NewUnlockRead dat None) P
     | Some (Some duplicate) \<Rightarrow> Next (NewIncRead dat (fst duplicate)) P)"
| "call_step mem new (NewIncRead dat r) P = inc_step r (NewUnlockRead dat (Some r)) P"
| "call_step mem new (NewUnlockRead dat duplicate) P =
     Next (if duplicate \<noteq> None then NewRet dat duplicate else NewAlloc dat True) (P\<lparr>readers := readers P - 1\<rparr>)"
| "call_step mem new (NewAlloc dat pooled) P =
     (if \<not> mem 32 then Next (NewRet dat None) P
      else if length dat \<noteq> 0 \<and> \<not> mem (word_of_nat (length dat)) then Next (NewRet dat None) P
      else Next (if pooled then NewLockWrite dat new else NewRet dat (Some new))
        (P\<lparr>bufheap := (bufheap P)(new \<mapsto> \<lparr>buf_pooled = pooled, buf_data = dat, references = 1\<rparr>)\<rparr>))"
| "call_step mem new (NewLockWrite dat r) P = lock_write (NewInsert dat r) P"
| "call_step mem new (NewInsert dat r) P = with_buf P r (\<lambda>buf. case lh_retrieve (bufs P) (r, buf_data buf) of
       None \<Rightarrow> Wrong
     | Some (Some duplicate) \<Rightarrow> Next (NewIncWrite dat r (fst duplicate)) P
     | Some None \<Rightarrow> (case lh_insert mem (r, buf_data buf) (bufs P) of
           None \<Rightarrow> Wrong
         | Some (inserted, old, lh) \<Rightarrow>
             if old \<noteq> None then Wrong else Next (NewUnlockWrite dat r inserted None) (P\<lparr>bufs := lh\<rparr>)))"
| "call_step mem new (NewIncWrite dat r duplicate) P = inc_step duplicate (NewUnlockWrite dat r False (Some duplicate)) P"
| "call_step mem new (NewUnlockWrite dat r inserted duplicate) P =
     Next (if \<not> inserted then NewDrop dat r duplicate else NewRet dat (Some r)) (P\<lparr>writer := False\<rparr>)"
| "call_step mem new (NewDrop dat r duplicate) P = free_step r (NewRet dat duplicate) P"
| "call_step mem new (NewRet dat r) P = Blocked"
| "call_step mem new (FreeEnter r) P = with_buf P r (\<lambda>buf. Next (if buf_pooled buf then FreeLock r else FreeDec r) P)"
| "call_step mem new (FreeDec r) P = dec_step r (\<lambda>zero. if zero then FreeMem r else FreeRet) P"
| "call_step mem new (FreeLock r) P = lock_write (FreeDecLocked r) P"
| "call_step mem new (FreeDecLocked r) P = dec_step r (\<lambda>zero. if \<not> zero then FreeUnlock r False else FreeDelete r) P"
| "call_step mem new (FreeDelete r) P = with_buf P r (\<lambda>buf. case lh_delete mem (r, buf_data buf) (bufs P) of
       None \<Rightarrow> Wrong
     | Some (found, lh) \<Rightarrow> (case found of None \<Rightarrow> Wrong
         | Some buf' \<Rightarrow> if fst buf' \<noteq> r then Wrong else Next (FreeUnlock r True) (P\<lparr>bufs := lh\<rparr>)))"
| "call_step mem new (FreeUnlock r gone) P =
     with_buf P r (\<lambda>buf. Next (if gone then FreeMem r else FreeRet) (P\<lparr>writer := False\<rparr>))"
| "call_step mem new (FreeMem r) P = free_step r FreeRet P"
| "call_step mem new FreeRet P = Blocked"
| "call_step mem new (UpRef r) P = inc_step r (UpRefRet r) P"
| "call_step mem new (UpRefRet r) P = Blocked"

section \<open>Clients\<close>

text \<open>
  The state of the program: the pool, the calls that its threads have under way, in any number and
  order, and the references that the clients hold. A client starts a call on a buffer with a
  reference of its own, which the call works on; \<open>CRYPTO_BUFFER_up_ref\<close> gives it back with a new one.
\<close>

record pool_system =
  pool :: crypto_pool
  calls :: "call multiset"
  held :: "nat \<Rightarrow> nat"

inductive pool_step :: "pool_system \<Rightarrow> pool_system \<Rightarrow> bool" where
  run: "calls s = add_mset c R \<Longrightarrow> bufheap (pool s) new = None \<Longrightarrow> call_step mem new c (pool s) = Next c' P' \<Longrightarrow>
    pool_step s (s\<lparr>pool := P', calls := add_mset c' R\<rparr>)"

inductive client_step :: "pool_system \<Rightarrow> pool_system \<Rightarrow> bool" where
  call_new: "client_step s (s\<lparr>calls := add_mset (CRYPTO_BUFFER_new dat pooled) (calls s)\<rparr>)"
| call_free: "held s r > 0 \<Longrightarrow>
    client_step s (s\<lparr>calls := add_mset (CRYPTO_BUFFER_free (Some r)) (calls s), held := (held s)(r := held s r - 1)\<rparr>)"
| call_free_null: "client_step s (s\<lparr>calls := add_mset (CRYPTO_BUFFER_free None) (calls s)\<rparr>)"
| call_up_ref: "held s r > 0 \<Longrightarrow>
    client_step s (s\<lparr>calls := add_mset (CRYPTO_BUFFER_up_ref r) (calls s), held := (held s)(r := held s r - 1)\<rparr>)"
| return_new: "calls s = add_mset (NewRet dat (Some r)) R \<Longrightarrow>
    client_step s (s\<lparr>calls := R, held := (held s)(r := held s r + 1)\<rparr>)"
| return_null: "calls s = add_mset (NewRet dat None) R \<Longrightarrow> client_step s (s\<lparr>calls := R\<rparr>)"
| return_free: "calls s = add_mset FreeRet R \<Longrightarrow> client_step s (s\<lparr>calls := R\<rparr>)"
| return_up_ref: "calls s = add_mset (UpRefRet r) R \<Longrightarrow>
    client_step s (s\<lparr>calls := R, held := (held s)(r := held s r + 2)\<rparr>)"

inductive pool_reach :: "pool_system \<Rightarrow> bool" where
  reach_new: "CRYPTO_BUFFER_POOL_new mem = Some P \<Longrightarrow> pool_reach \<lparr>pool = P, calls = {#}, held = (\<lambda>r. 0)\<rparr>"
| reach_run: "pool_reach s \<Longrightarrow> pool_step s s' \<Longrightarrow> pool_reach s'"
| reach_client: "pool_reach s \<Longrightarrow> client_step s s' \<Longrightarrow> pool_reach s'"

end
