(* ===== verification/Pool_Spec.thy ===== *)
theory Pool_Spec
  imports Pool
begin

text \<open>
  The pool of shared buffers is safe, shares, makes progress and does not leak. The table is used
  through the contract of its keys (\<open>lhash_keys\<close>), which the hash and comparison functions of the
  buffers satisfy; \<open>pool_inv\<close> counts, for every buffer, the references that the calls under way hold
  and the places where the buffer is, and every step of every call preserves it.
\<close>

section \<open>The contract of the table\<close>

lemma buffer_cmp_zero: "CRYPTO_BUFFER_cmp a b = 0 \<longleftrightarrow> snd a = snd b"
  by (auto simp: CRYPTO_BUFFER_cmp_def memcmp_zero)

interpretation pool_keys: lhash_keys "\<lambda>buf. True" CRYPTO_BUFFER_hash CRYPTO_BUFFER_cmp
  by unfold_locales (auto simp: buffer_cmp_zero CRYPTO_BUFFER_hash_def)

abbreviation table_ok :: "crypto_pool \<Rightarrow> bool" where
  "table_ok P \<equiv> pool_keys.ok (bufs P)"

text \<open>The pool as a map from bytes to the buffer that holds them.\<close>

definition tab :: "crypto_pool \<Rightarrow> u8 list \<Rightarrow> nat option" where
  "tab P dat = map_option fst (lh_lookup (bufs P) (0, dat))"

lemma lookup_tab: "table_ok P \<Longrightarrow> lh_lookup (bufs P) (q, dat) = map_option (\<lambda>r. (r, dat)) (tab P dat)"
  unfolding tab_def lh_lookup_def
  by (auto simp: lh_ok_def buffer_cmp_zero option.map_comp comp_def dest!: find_SomeD intro!: map_option_cong)

lemma retrieve_tab: "table_ok P \<Longrightarrow> lh_retrieve (bufs P) (q, dat) = Some (map_option (\<lambda>r. (r, dat)) (tab P dat))"
  by (simp add: pool_keys.retrieve_refines lookup_tab)

lemma insert_tab:
  assumes "table_ok P" "tab P dat = None"
  obtains inserted lh where "lh_insert mem (r, dat) (bufs P) = Some (inserted, None, lh)" "table_ok (P\<lparr>bufs := lh\<rparr>)"
    "tab (P\<lparr>bufs := lh\<rparr>) = (if inserted then (tab P)(dat \<mapsto> r) else tab P)"
proof -
  have n: "lh_lookup (bufs P) (r, dat) = None" using assms by (simp add: lookup_tab)
  from pool_keys.insert_refines [OF assms(1) TrueI, of mem "(r, dat)"]
  obtain b old lh where i: "lh_insert mem (r, dat) (bufs P) = Some (b, old, lh)" "pool_keys.ok lh"
    and l: "if b then old = lh_lookup (bufs P) (r, dat) \<and>
        (\<forall>y. True \<longrightarrow> lh_lookup lh y = (if CRYPTO_BUFFER_cmp (r, dat) y = 0 then Some (r, dat) else lh_lookup (bufs P) y))
      else lh = bufs P \<and> old = None \<and> lh_lookup (bufs P) (r, dat) = None \<and> \<not> mem 24" by blast
  have "old = None" using l n by (simp split: if_splits)
  moreover have "tab (P\<lparr>bufs := lh\<rparr>) = (if b then (tab P)(dat \<mapsto> r) else tab P)"
    using l by (cases b) (auto simp: tab_def buffer_cmp_zero)
  ultimately show ?thesis using that [of b lh] i by simp
qed

lemma delete_tab:
  assumes "table_ok P" "tab P dat = Some r"
  obtains lh where "lh_delete mem (q, dat) (bufs P) = Some (Some (r, dat), lh)" "table_ok (P\<lparr>bufs := lh\<rparr>)"
    "tab (P\<lparr>bufs := lh\<rparr>) = (tab P)(dat := None)"
proof -
  have n: "lh_lookup (bufs P) (q, dat) = Some (r, dat)" using assms by (simp add: lookup_tab)
  from pool_keys.delete_refines [OF assms(1) TrueI, of mem "(q, dat)"] n
  obtain lh where d: "lh_delete mem (q, dat) (bufs P) = Some (Some (r, dat), lh)" "pool_keys.ok lh"
    and l: "\<And>y. lh_lookup lh y = (if CRYPTO_BUFFER_cmp (q, dat) y = 0 then None else lh_lookup (bufs P) y)" by auto
  have "tab (P\<lparr>bufs := lh\<rparr>) = (tab P)(dat := None)"
    by (auto simp: tab_def l buffer_cmp_zero)
  then show ?thesis using that [of lh] d by simp
qed

section \<open>The invariant\<close>

text \<open>What a call holds: references, locks, and the buffers that only it knows.\<close>

fun owns :: "call \<Rightarrow> nat \<Rightarrow> nat" where
  "owns (NewUnlockRead dat (Some x)) r = of_bool (x = r)"
| "owns (NewLockWrite dat x) r = of_bool (x = r)"
| "owns (NewInsert dat x) r = of_bool (x = r)"
| "owns (NewIncWrite dat x y) r = of_bool (x = r)"
| "owns (NewUnlockWrite dat x inserted y) r = of_bool (x = r) + of_bool (y = Some r)"
| "owns (NewDrop dat x y) r = of_bool (x = r) + of_bool (y = Some r)"
| "owns (NewRet dat (Some x)) r = of_bool (x = r)"
| "owns (FreeEnter x) r = of_bool (x = r)"
| "owns (FreeDec x) r = of_bool (x = r)"
| "owns (FreeLock x) r = of_bool (x = r)"
| "owns (FreeDecLocked x) r = of_bool (x = r)"
| "owns (UpRef x) r = of_bool (x = r)"
| "owns (UpRefRet x) r = 2 * of_bool (x = r)"
| "owns c r = 0"

fun unshared :: "call \<Rightarrow> nat \<Rightarrow> nat" where
  "unshared (NewLockWrite dat x) r = of_bool (x = r)"
| "unshared (NewInsert dat x) r = of_bool (x = r)"
| "unshared (NewIncWrite dat x y) r = of_bool (x = r)"
| "unshared (NewUnlockWrite dat x inserted y) r = of_bool (\<not> inserted \<and> x = r)"
| "unshared (NewDrop dat x y) r = of_bool (x = r)"
| "unshared c r = 0"

fun removed :: "call \<Rightarrow> nat \<Rightarrow> nat" where
  "removed (FreeUnlock x gone) r = of_bool (gone \<and> x = r)"
| "removed (FreeMem x) r = of_bool (x = r)"
| "removed c r = 0"

fun dying :: "call \<Rightarrow> nat \<Rightarrow> nat" where
  "dying (FreeDelete x) r = of_bool (x = r)"
| "dying c r = removed c r"

fun reading :: "call \<Rightarrow> nat" where
  "reading (NewRetrieve dat) = 1"
| "reading (NewIncRead dat r) = 1"
| "reading (NewUnlockRead dat r) = 1"
| "reading c = 0"

fun writing :: "call \<Rightarrow> nat" where
  "writing (NewInsert dat r) = 1"
| "writing (NewIncWrite dat r x) = 1"
| "writing (NewUnlockWrite dat r inserted x) = 1"
| "writing (FreeDecLocked r) = 1"
| "writing (FreeDelete r) = 1"
| "writing (FreeUnlock r gone) = 1"
| "writing c = 0"

text \<open>What a buffer is, apart from its count.\<close>

definition kind :: "crypto_pool \<Rightarrow> nat \<Rightarrow> (bool \<times> u8 list) option" where
  "kind P r = map_option (\<lambda>b. (buf_pooled b, buf_data b)) (bufheap P r)"

text \<open>What a call knows. The calls that know of the table hold the lock.\<close>

fun call_ok :: "(u8 list \<Rightarrow> nat option) \<Rightarrow> (nat \<Rightarrow> (bool \<times> u8 list) option) \<Rightarrow> call \<Rightarrow> bool" where
  "call_ok T K (NewIncRead dat r) \<longleftrightarrow> T dat = Some r"
| "call_ok T K (NewUnlockRead dat (Some r)) \<longleftrightarrow> K r = Some (True, dat)"
| "call_ok T K (NewRet dat (Some r)) \<longleftrightarrow> (\<exists>p. K r = Some (p, dat))"
| "call_ok T K (NewLockWrite dat r) \<longleftrightarrow> K r = Some (True, dat)"
| "call_ok T K (NewInsert dat r) \<longleftrightarrow> K r = Some (True, dat)"
| "call_ok T K (NewIncWrite dat r x) \<longleftrightarrow> K r = Some (True, dat) \<and> T dat = Some x"
| "call_ok T K (NewUnlockWrite dat r inserted y) \<longleftrightarrow> K r = Some (True, dat) \<and> (inserted \<longrightarrow> y = None) \<and>
     (\<forall>x. y = Some x \<longrightarrow> x \<noteq> r \<and> K x = Some (True, dat))"
| "call_ok T K (NewDrop dat r y) \<longleftrightarrow> K r = Some (True, dat) \<and> (\<forall>x. y = Some x \<longrightarrow> x \<noteq> r \<and> K x = Some (True, dat))"
| "call_ok T K (FreeDec r) \<longleftrightarrow> (\<exists>dat. K r = Some (False, dat))"
| "call_ok T K (FreeLock r) \<longleftrightarrow> (\<exists>dat. K r = Some (True, dat))"
| "call_ok T K (FreeDecLocked r) \<longleftrightarrow> (\<exists>dat. K r = Some (True, dat))"
| "call_ok T K (FreeDelete r) \<longleftrightarrow> (\<exists>dat. K r = Some (True, dat) \<and> T dat = Some r)"
| "call_ok T K (FreeUnlock r gone) \<longleftrightarrow> \<not> gone \<longrightarrow> (\<exists>dat. T dat = Some r)"
| "call_ok T K c \<longleftrightarrow> True"

text \<open>
  A buffer with its counts: of references, of the calls that are about to free it, of those that have
  not published it and of those that have removed it. A buffer of the pool is in exactly one place.
\<close>

definition buffer_ok :: "crypto_pool \<Rightarrow> nat \<Rightarrow> nat \<Rightarrow> nat \<Rightarrow> nat \<Rightarrow> nat \<Rightarrow> bool" where
  "buffer_ok P r ow dy pr rm \<longleftrightarrow> (case bufheap P r of
       None \<Rightarrow> ow = 0 \<and> dy = 0
     | Some b \<Rightarrow> (references b = CRYPTO_REFCOUNT_MAX \<or> unat (references b) = ow) \<and>
         dy = of_bool (references b = 0) \<and> (pr > 0 \<longrightarrow> references b = 1) \<and>
         (if buf_pooled b then of_bool (tab P (buf_data b) = Some r) + pr + rm = 1 else pr = 0))"

definition total :: "(call \<Rightarrow> nat) \<Rightarrow> call multiset \<Rightarrow> nat" where
  "total f M = sum_mset (image_mset f M)"

lemma total_empty [simp]: "total f {#} = 0"
  by (simp add: total_def)

lemma total_add [simp]: "total f (add_mset c R) = f c + total f R"
  by (simp add: total_def)

lemma total_le: "c \<in># C \<Longrightarrow> f c \<le> total f C"
  by (auto simp: total_def dest!: multi_member_split)

definition pool_inv :: "crypto_pool \<Rightarrow> call multiset \<Rightarrow> (nat \<Rightarrow> nat) \<Rightarrow> bool" where
  "pool_inv P C h \<longleftrightarrow> table_ok P \<and>
     readers P = total reading C \<and> of_bool (writer P) = total writing C \<and> (writer P \<longrightarrow> readers P = 0) \<and>
     (\<forall>dat r. tab P dat = Some r \<longrightarrow> kind P r = Some (True, dat)) \<and>
     (\<forall>r. buffer_ok P r (h r + total (\<lambda>c. owns c r) C) (total (\<lambda>c. dying c r) C) (total (\<lambda>c. unshared c r) C)
        (total (\<lambda>c. removed c r) C)) \<and>
     (\<forall>c \<in># C. call_ok (tab P) (kind P) c)"

lemma tab_cong: "bufs P' = bufs P \<Longrightarrow> tab P' = tab P"
  by (rule ext) (simp add: tab_def)

lemma kind_cong: "bufheap P' = bufheap P \<Longrightarrow> kind P' = kind P"
  by (rule ext) (simp add: kind_def)

lemma tab_upd [simp]: "tab (P\<lparr>bufheap := H\<rparr>) = tab P" "tab (P\<lparr>readers := n\<rparr>) = tab P" "tab (P\<lparr>writer := w\<rparr>) = tab P"
  by (rule ext, simp add: tab_def)+

lemma buffer_ok_cong: "tab P' = tab P \<Longrightarrow> bufheap P' r = bufheap P r \<Longrightarrow> buffer_ok P' r = buffer_ok P r"
  by (intro ext) (simp only: buffer_ok_def)

lemma kind_upd [simp]: "kind (P\<lparr>bufheap := H\<rparr>) r = map_option (\<lambda>b. (buf_pooled b, buf_data b)) (H r)"
  by (simp add: kind_def)

lemma pool_invD:
  assumes "pool_inv P C h"
  shows "table_ok P" "readers P = total reading C" "of_bool (writer P) = total writing C" "writer P \<Longrightarrow> readers P = 0"
    "tab P dat = Some r \<Longrightarrow> kind P r = Some (True, dat)"
    "buffer_ok P r (h r + total (\<lambda>c. owns c r) C) (total (\<lambda>c. dying c r) C) (total (\<lambda>c. unshared c r) C)
        (total (\<lambda>c. removed c r) C)"
    "c \<in># C \<Longrightarrow> call_ok (tab P) (kind P) c"
  using assms by (auto simp: pool_inv_def)

text \<open>A step that changes neither the buffers nor the table.\<close>

lemma inv_move:
  assumes inv: "pool_inv P (add_mset c R) h"
    and same: "bufs P' = bufs P" "bufheap P' = bufheap P"
    and counts: "owns c' = owns c" "dying c' = dying c" "unshared c' = unshared c" "removed c' = removed c"
    and locks: "readers P' + reading c = readers P + reading c'"
      "of_bool (writer P') + writing c = of_bool (writer P) + writing c'" "writer P' \<Longrightarrow> readers P' = 0"
    and ok: "call_ok (tab P) (kind P) c'"
  shows "pool_inv P' (add_mset c' R) h"
proof -
  note t = tab_cong [OF same(1)] and k = kind_cong [OF same(2)]
  have l: "readers P' = total reading (add_mset c' R)" "of_bool (writer P') = total writing (add_mset c' R)"
    using pool_invD(2,3) [OF inv] locks(1,2) unfolding total_add by linarith+
  have "buffer_ok P' r = buffer_ok P r" for r by (rule buffer_ok_cong [OF t]) (simp add: same(2))
  then show ?thesis
    using inv l locks(3) ok unfolding pool_inv_def t k same(1) by (simp add: counts)
qed

text \<open>A step that changes the count of one buffer.\<close>

lemma inv_count:
  assumes inv: "pool_inv P (add_mset c R) h" and b: "bufheap P r = Some b"
    and P': "P' = P\<lparr>bufheap := (bufheap P)(r \<mapsto> b\<lparr>references := n\<rparr>)\<rparr>"
    and others: "\<And>q. q \<noteq> r \<Longrightarrow> owns c' q = owns c q \<and> dying c' q = dying c q \<and> unshared c' q = unshared c q \<and> removed c' q = removed c q"
    and this_one: "buffer_ok P' r (h r + owns c' r + total (\<lambda>c. owns c r) R) (dying c' r + total (\<lambda>c. dying c r) R)
       (unshared c' r + total (\<lambda>c. unshared c r) R) (removed c' r + total (\<lambda>c. removed c r) R)"
    and locks: "reading c' = reading c" "writing c' = writing c"
    and ok: "call_ok (tab P) (kind P) c'"
  shows "pool_inv P' (add_mset c' R) h"
proof -
  have t: "tab P' = tab P" by (rule tab_cong) (simp add: P')
  have k: "kind P' = kind P" by (rule ext) (simp add: P' b kind_def)
  have o: "buffer_ok P' q = buffer_ok P q" if "q \<noteq> r" for q
    by (rule buffer_ok_cong [OF t]) (simp add: that P')
  have "buffer_ok P' q (h q + total (\<lambda>c. owns c q) (add_mset c' R)) (total (\<lambda>c. dying c q) (add_mset c' R))
      (total (\<lambda>c. unshared c q) (add_mset c' R)) (total (\<lambda>c. removed c q) (add_mset c' R))" for q
  proof (cases "q = r")
    case True
    then show ?thesis using this_one by (simp add: add.assoc)
  next
    case False
    then show ?thesis using pool_invD(6) [OF inv, of q] o others by simp
  qed
  moreover have "bufs P' = bufs P" "readers P' = readers P" "writer P' = writer P" by (simp_all add: P')
  moreover have "reading c + total reading R = 0" if "writer P" using pool_invD(2,4) [OF inv] that by simp
  ultimately show ?thesis using inv ok unfolding pool_inv_def t k by (simp add: locks)
qed

lemma not_max: "n < CRYPTO_REFCOUNT_MAX \<longleftrightarrow> n \<noteq> CRYPTO_REFCOUNT_MAX"
  using unat_u32_less [of n] by (auto simp: CRYPTO_REFCOUNT_MAX_def word_less_nat_alt word_unat_eq_iff)

lemma inc_ref:
  "n \<noteq> 0 \<Longrightarrow> CRYPTO_refcount_inc n \<noteq> 0"
  "n = CRYPTO_REFCOUNT_MAX \<or> unat n = k \<Longrightarrow> CRYPTO_refcount_inc n = CRYPTO_REFCOUNT_MAX \<or> unat (CRYPTO_refcount_inc n) = Suc k"
proof -
  have s: "unat (n + 1) = Suc (unat n)" if "n < CRYPTO_REFCOUNT_MAX"
    using that unat_u32_less [of n] by (simp add: CRYPTO_REFCOUNT_MAX_def word_less_nat_alt unat_word_ariths)
  show "n \<noteq> 0 \<Longrightarrow> CRYPTO_refcount_inc n \<noteq> 0" using s by (auto simp: CRYPTO_refcount_inc_def)
  show "n = CRYPTO_REFCOUNT_MAX \<or> unat n = k \<Longrightarrow> CRYPTO_refcount_inc n = CRYPTO_REFCOUNT_MAX \<or> unat (CRYPTO_refcount_inc n) = Suc k"
    using s by (auto simp: CRYPTO_refcount_inc_def not_max)
qed

lemma inv_inc:
  assumes inv: "pool_inv P (add_mset c R) h" and b: "bufheap P r = Some b" "references b \<noteq> 0"
    and shared: "total (\<lambda>c. unshared c r) (add_mset c R) = 0"
    and counts: "\<And>q. owns c' q = owns c q + of_bool (q = r)" "dying c' = dying c" "unshared c' = unshared c" "removed c' = removed c"
    and locks: "reading c' = reading c" "writing c' = writing c" and ok: "call_ok (tab P) (kind P) c'"
  shows "inc_step r c' P = Next c' (P\<lparr>bufheap := (bufheap P)(r \<mapsto> b\<lparr>references := CRYPTO_refcount_inc (references b)\<rparr>)\<rparr>)"
    "pool_inv (P\<lparr>bufheap := (bufheap P)(r \<mapsto> b\<lparr>references := CRYPTO_refcount_inc (references b)\<rparr>)\<rparr>) (add_mset c' R) h"
proof -
  show "inc_step r c' P = Next c' (P\<lparr>bufheap := (bufheap P)(r \<mapsto> b\<lparr>references := CRYPTO_refcount_inc (references b)\<rparr>)\<rparr>)"
    by (simp add: inc_step_def with_buf_def b)
  show "pool_inv (P\<lparr>bufheap := (bufheap P)(r \<mapsto> b\<lparr>references := CRYPTO_refcount_inc (references b)\<rparr>)\<rparr>) (add_mset c' R) h"
  proof (rule inv_count [OF inv b(1) refl _ _ locks ok])
    show "owns c' q = owns c q \<and> dying c' q = dying c q \<and> unshared c' q = unshared c q \<and> removed c' q = removed c q" if "q \<noteq> r" for q
      using that by (simp add: counts)
    show "buffer_ok (P\<lparr>bufheap := (bufheap P)(r \<mapsto> b\<lparr>references := CRYPTO_refcount_inc (references b)\<rparr>)\<rparr>) r
       (h r + owns c' r + total (\<lambda>c. owns c r) R) (dying c' r + total (\<lambda>c. dying c r) R)
       (unshared c' r + total (\<lambda>c. unshared c r) R) (removed c' r + total (\<lambda>c. removed c r) R)"
      using pool_invD(6) [OF inv, of r] shared b inc_ref(1) [of "references b"]
        inc_ref(2) [of "references b" "h r + (owns c r + total (\<lambda>c. owns c r) R)"]
      by (cases "buf_pooled b") (simp_all add: buffer_ok_def counts add.assoc split del: if_split split_of_bool)
  qed
qed

lemma dec_ref:
  assumes "n \<noteq> 0" "n = CRYPTO_REFCOUNT_MAX \<or> unat n = Suc k"
  obtains n' where "CRYPTO_refcount_dec_and_test_zero n = Some (n' = 0, n')" "n' = CRYPTO_REFCOUNT_MAX \<or> unat n' = k"
proof (cases "n = CRYPTO_REFCOUNT_MAX")
  case True
  then show ?thesis using that [of n] assms(1) by (simp add: CRYPTO_refcount_dec_and_test_zero_def)
next
  case False
  then have "unat (n - 1) = k" using assms by (simp add: unat_minus_one)
  then show ?thesis
    using that [of "n - 1"] False assms(1) by (simp add: CRYPTO_refcount_dec_and_test_zero_def not_max)
qed

lemma inv_dec:
  assumes inv: "pool_inv P (add_mset c R) h" and b: "bufheap P r = Some b"
    and shared: "total (\<lambda>c. unshared c r) (add_mset c R) = 0"
    and owns: "\<And>q z. owns c q = owns (k z) q + of_bool (q = r)"
    and dying: "\<And>q. dying c q = 0" "\<And>q z. dying (k z) q = of_bool (z \<and> r = q)"
    and unshared: "unshared c = (\<lambda>q. 0)" "\<And>z. unshared (k z) = (\<lambda>q. 0)"
    and removed: "\<And>q. removed c q = 0" "\<And>q z. removed (k z) q = of_bool (z \<and> r = q \<and> \<not> buf_pooled b)"
    and locks: "\<And>z. reading (k z) = reading c" "\<And>z. writing (k z) = writing c"
    and ok: "\<And>z. call_ok (tab P) (kind P) (k z)"
  obtains n where "dec_step r k P = Next (k (n = 0)) (P\<lparr>bufheap := (bufheap P)(r \<mapsto> b\<lparr>references := n\<rparr>)\<rparr>)"
    "pool_inv (P\<lparr>bufheap := (bufheap P)(r \<mapsto> b\<lparr>references := n\<rparr>)\<rparr>) (add_mset (k (n = 0)) R) h"
proof -
  have B: "buffer_ok P r (Suc (h r + owns (k z) r + total (\<lambda>c. owns c r) R)) (total (\<lambda>c. dying c r) R) 0
      (total (\<lambda>c. removed c r) R)" for z
    using pool_invD(6) [OF inv, of r] shared owns [of r z] dying(1) removed(1) by (simp add: add.assoc)
  then have nz: "references b \<noteq> 0" using b by (auto simp: buffer_ok_def CRYPTO_REFCOUNT_MAX_def)
  moreover have "references b = CRYPTO_REFCOUNT_MAX \<or> unat (references b) = Suc (h r + owns (k True) r + total (\<lambda>c. owns c r) R)"
    using B [of True] b by (simp add: buffer_ok_def)
  ultimately obtain n where n: "CRYPTO_refcount_dec_and_test_zero (references b) = Some (n = 0, n)"
    "n = CRYPTO_REFCOUNT_MAX \<or> unat n = h r + owns (k True) r + total (\<lambda>c. owns c r) R" by (rule dec_ref)
  have same: "owns (k z) r = owns (k True) r" for z using owns [of r z] owns [of r True] by simp
  show ?thesis
  proof (rule that)
    show "dec_step r k P = Next (k (n = 0)) (P\<lparr>bufheap := (bufheap P)(r \<mapsto> b\<lparr>references := n\<rparr>)\<rparr>)"
      by (simp add: dec_step_def with_buf_def b n)
    show "pool_inv (P\<lparr>bufheap := (bufheap P)(r \<mapsto> b\<lparr>references := n\<rparr>)\<rparr>) (add_mset (k (n = 0)) R) h"
    proof (rule inv_count [OF inv b refl _ _ locks ok])
      show "owns (k (n = 0)) q = owns c q \<and> dying (k (n = 0)) q = dying c q \<and>
          unshared (k (n = 0)) q = unshared c q \<and> removed (k (n = 0)) q = removed c q" if "q \<noteq> r" for q
        using that owns [of q "n = 0"] by (simp add: dying unshared removed)
      show "buffer_ok (P\<lparr>bufheap := (bufheap P)(r \<mapsto> b\<lparr>references := n\<rparr>)\<rparr>) r
         (h r + owns (k (n = 0)) r + total (\<lambda>c. owns c r) R) (dying (k (n = 0)) r + total (\<lambda>c. dying c r) R)
         (unshared (k (n = 0)) r + total (\<lambda>c. unshared c r) R) (removed (k (n = 0)) r + total (\<lambda>c. removed c r) R)"
        using B [of True] n(2) nz b shared same [of "n = 0"]
        by (cases "buf_pooled b") (simp_all add: buffer_ok_def dying unshared removed split del: if_split split_of_bool)
    qed
  qed
qed

section \<open>Buffers appear and disappear\<close>

lemma call_ok_mono: "(\<And>r k. K r = Some k \<Longrightarrow> K' r = Some k) \<Longrightarrow> call_ok T K c \<Longrightarrow> call_ok T K' c"
  by (induction T K c rule: call_ok.induct) fastforce+

lemma call_ok_forget:
  "owns c r = 0 \<Longrightarrow> dying c r = 0 \<Longrightarrow> (\<And>dat. T dat \<noteq> Some r) \<Longrightarrow> call_ok T K c \<Longrightarrow> call_ok T (K(r := None)) c"
  by (induction T K c rule: call_ok.induct) (auto split: if_splits)

lemma call_ok_unlocked: "reading c = 0 \<Longrightarrow> writing c = 0 \<Longrightarrow> call_ok T K c = call_ok T' K c"
  by (induction T K c rule: call_ok.induct) auto

lemma unshared_owns: "unshared c r \<le> owns c r" and removed_dying: "removed c r \<le> dying c r"
  by (cases c; simp)+

lemma total_mono: "(\<And>c. f c \<le> g c) \<Longrightarrow> total f C \<le> total g C"
  by (induction C) (auto intro: add_mono)

lemma inv_free:
  assumes inv: "pool_inv P (add_mset c R) h" and b: "bufheap P r = Some b"
    and last: "dying c r = 1 \<and> owns c r = 0 \<or> unshared c r = 1 \<and> owns c r = 1" and "unshared c r + removed c r = 1"
    and owns: "\<And>q. owns c' q = (if q = r then 0 else owns c q)"
    and others: "\<And>q. dying c' q = 0" "\<And>q. q \<noteq> r \<Longrightarrow> dying c q = 0 \<and> unshared c q = 0 \<and> removed c q = 0"
      "\<And>q. unshared c' q = 0" "\<And>q. removed c' q = 0"
    and locks: "reading c' = reading c" "writing c' = writing c"
    and ok: "call_ok (tab P) ((kind P)(r := None)) c'"
  shows "free_step r c' P = Next c' (P\<lparr>bufheap := (bufheap P)(r := None)\<rparr>)"
    "pool_inv (P\<lparr>bufheap := (bufheap P)(r := None)\<rparr>) (add_mset c' R) h"
proof -
  show "free_step r c' P = Next c' (P\<lparr>bufheap := (bufheap P)(r := None)\<rparr>)"
    by (simp add: free_step_def with_buf_def b)
  let ?P = "P\<lparr>bufheap := (bufheap P)(r := None)\<rparr>"
  note B = pool_invD(6) [OF inv, of r, unfolded buffer_ok_def b option.case total_add]
  have zero: "h r = 0" "total (\<lambda>c. owns c r) R = 0" "total (\<lambda>c. dying c r) R = 0"
    using B last by (auto simp: CRYPTO_REFCOUNT_MAX_def split: if_splits split_of_bool_asm)
  have no_tab: "tab P dat \<noteq> Some r" for dat
  proof
    assume t: "tab P dat = Some r"
    then have "buf_pooled b" "buf_data b = dat" using pool_invD(5) [OF inv t] b by (auto simp: kind_def)
    then show False using B t assms(4) by simp
  qed
  have k: "kind ?P = (kind P)(r := None)" by (rule ext) (simp add: kind_def)
  have "call_ok (tab P) (kind ?P) x" if "x \<in># R" for x
  proof -
    have "owns x r = 0" "dying x r = 0"
      using zero(2,3) total_le [OF that, of "\<lambda>c. owns c r"] total_le [OF that, of "\<lambda>c. dying c r"] by simp_all
    then show ?thesis using call_ok_forget no_tab pool_invD(7) [OF inv, of x] that unfolding k by simp
  qed
  moreover have "buffer_ok ?P q (h q + total (\<lambda>c. owns c q) (add_mset c' R)) (total (\<lambda>c. dying c q) (add_mset c' R))
      (total (\<lambda>c. unshared c q) (add_mset c' R)) (total (\<lambda>c. removed c q) (add_mset c' R))" for q
  proof (cases "q = r")
    case True
    then show ?thesis using zero owns others by (simp add: buffer_ok_def)
  next
    case False
    then have "buffer_ok ?P q = buffer_ok P q" by (intro buffer_ok_cong) simp_all
    then show ?thesis using pool_invD(6) [OF inv, of q] False owns others by simp
  qed
  moreover have "kind ?P x = Some (True, dat)" if "tab P dat = Some x" for dat x
    using pool_invD(5) [OF inv that] that no_tab unfolding k by auto
  ultimately show "pool_inv ?P (add_mset c' R) h"
    using inv ok unfolding pool_inv_def tab_upd by (elim conjE) (simp add: locks k)
qed

lemma inv_alloc:
  assumes inv: "pool_inv P (add_mset (NewAlloc dat pooled) R) h" and new: "bufheap P new = None"
  defines "c' \<equiv> (if pooled then NewLockWrite dat new else NewRet dat (Some new))"
  shows "pool_inv (P\<lparr>bufheap := (bufheap P)(new \<mapsto> \<lparr>buf_pooled = pooled, buf_data = dat, references = 1\<rparr>)\<rparr>) (add_mset c' R) h"
proof -
  let ?P = "P\<lparr>bufheap := (bufheap P)(new \<mapsto> \<lparr>buf_pooled = pooled, buf_data = dat, references = 1\<rparr>)\<rparr>"
  have zero: "h new = 0" "total (\<lambda>c. owns c new) R = 0" "total (\<lambda>c. dying c new) R = 0"
    using pool_invD(6) [OF inv, of new] new by (simp_all add: buffer_ok_def)
  have zero': "total (\<lambda>c. unshared c new) R = 0" "total (\<lambda>c. removed c new) R = 0"
    using zero total_mono [of "\<lambda>c. unshared c new" "\<lambda>c. owns c new" R] unshared_owns
      total_mono [of "\<lambda>c. removed c new" "\<lambda>c. dying c new" R] removed_dying by simp_all
  have no_tab: "tab P dat \<noteq> Some new" for dat
    using pool_invD(5) [OF inv, of dat new] new by (auto simp: kind_def)
  have k: "kind P q = Some x \<Longrightarrow> kind ?P q = Some x" for q x using new by (auto simp: kind_def)
  have "call_ok (tab P) (kind ?P) x" if "x \<in># R" for x
    using call_ok_mono [of "kind P" "kind ?P", OF k] pool_invD(7) [OF inv, of x] that by auto
  moreover have "buffer_ok ?P q (h q + total (\<lambda>c. owns c q) (add_mset c' R)) (total (\<lambda>c. dying c q) (add_mset c' R))
      (total (\<lambda>c. unshared c q) (add_mset c' R)) (total (\<lambda>c. removed c q) (add_mset c' R))" for q
  proof (cases "q = new")
    case True
    then show ?thesis using zero zero' no_tab by (simp add: buffer_ok_def c'_def)
  next
    case False
    then have "buffer_ok ?P q = buffer_ok P q" by (intro buffer_ok_cong) simp_all
    then show ?thesis using pool_invD(6) [OF inv, of q] False by (simp add: c'_def)
  qed
  moreover have "kind ?P x = Some (True, dat)" if "tab P dat = Some x" for dat x
    using pool_invD(5) [OF inv that] k by blast
  moreover have "call_ok (tab P) (kind ?P) c'" by (simp add: c'_def)
  moreover have "reading c' = 0" "writing c' = 0" by (simp_all add: c'_def)
  ultimately show "pool_inv ?P (add_mset c' R) h"
    using inv unfolding pool_inv_def tab_upd by (elim conjE) simp
qed

text \<open>A step that changes the table: nobody else knows what is in it.\<close>

lemma inv_table:
  assumes inv: "pool_inv P (add_mset c R) h" and w: "writing c = 1" "writing c' = 1"
    and P': "P' = P\<lparr>bufs := lh\<rparr>" and tok: "table_ok P'"
    and tab: "\<And>dat x. tab P' dat = Some x \<Longrightarrow> kind P x = Some (True, dat)"
    and counts: "owns c' = owns c"
    and bufs: "\<And>q. buffer_ok P' q (h q + (owns c q + total (\<lambda>c. owns c q) R)) (dying c' q + total (\<lambda>c. dying c q) R)
      (unshared c' q + total (\<lambda>c. unshared c q) R) (removed c' q + total (\<lambda>c. removed c q) R)"
    and ok: "call_ok (tab P') (kind P) c'"
  shows "pool_inv P' (add_mset c' R) h"
proof -
  have "writer P" using pool_invD(3) [OF inv] w by (cases "writer P") simp_all
  then have r: "reading c = 0" "total reading R = 0" and "readers P = 0" "total writing R = 0"
    using pool_invD(2,3,4) [OF inv] w by simp_all
  have k: "kind P' = kind P" by (rule kind_cong) (simp add: P')
  have "call_ok (tab P') (kind P) x" if "x \<in># R" for x
  proof -
    have "reading x = 0" "writing x = 0"
      using r \<open>total writing R = 0\<close> total_le [OF that, of reading] total_le [OF that, of writing] by simp_all
    from call_ok_unlocked [OF this, of "tab P'" _ "tab P"] show ?thesis using pool_invD(7) [OF inv, of x] that by simp
  qed
  moreover have "reading c' = 0" using w(2) by (cases c') simp_all
  moreover have "readers P' = 0" "writer P'" using \<open>readers P = 0\<close> \<open>writer P\<close> by (simp_all add: P')
  ultimately show ?thesis
    using tok tab bufs ok w r \<open>total writing R = 0\<close> unfolding pool_inv_def k by (simp add: counts)
qed

lemma inv_insert:
  assumes inv: "pool_inv P (add_mset (NewInsert dat r) R) h" and none: "tab P dat = None"
  obtains inserted lh where "lh_insert mem (r, dat) (bufs P) = Some (inserted, None, lh)"
    "pool_inv (P\<lparr>bufs := lh\<rparr>) (add_mset (NewUnlockWrite dat r inserted None) R) h"
proof -
  obtain inserted lh where i: "lh_insert mem (r, dat) (bufs P) = Some (inserted, None, lh)" "table_ok (P\<lparr>bufs := lh\<rparr>)"
    "tab (P\<lparr>bufs := lh\<rparr>) = (if inserted then (tab P)(dat \<mapsto> r) else tab P)"
    by (rule insert_tab [OF pool_invD(1) [OF inv] none])
  have k: "kind P r = Some (True, dat)" using pool_invD(7) [OF inv, of "NewInsert dat r"] by simp
  show ?thesis
  proof (rule that [OF i(1)], rule inv_table [OF inv _ _ refl i(2)])
    show "kind P x = Some (True, d)" if "tab (P\<lparr>bufs := lh\<rparr>) d = Some x" for d x
      using that k pool_invD(5) [OF inv] by (simp add: i(3) split: if_splits)
    show "buffer_ok (P\<lparr>bufs := lh\<rparr>) q (h q + (owns (NewInsert dat r) q + total (\<lambda>c. owns c q) R))
        (dying (NewUnlockWrite dat r inserted None) q + total (\<lambda>c. dying c q) R)
        (unshared (NewUnlockWrite dat r inserted None) q + total (\<lambda>c. unshared c q) R)
        (removed (NewUnlockWrite dat r inserted None) q + total (\<lambda>c. removed c q) R)" for q
      using pool_invD(6) [OF inv, of q] none k
      by (cases "q = r"; cases inserted; cases "bufheap P q") (auto simp: buffer_ok_def i(3) kind_def)
  qed (auto simp: k fun_eq_iff)
qed

lemma inv_delete:
  assumes inv: "pool_inv P (add_mset (FreeDelete r) R) h" and b: "bufheap P r = Some b"
  obtains lh where "lh_delete mem (r, buf_data b) (bufs P) = Some (Some (r, buf_data b), lh)"
    "pool_inv (P\<lparr>bufs := lh\<rparr>) (add_mset (FreeUnlock r True) R) h"
proof -
  have t: "tab P (buf_data b) = Some r" and k: "buf_pooled b"
    using pool_invD(7) [OF inv, of "FreeDelete r"] b by (auto simp: kind_def)
  obtain lh where i: "lh_delete mem (r, buf_data b) (bufs P) = Some (Some (r, buf_data b), lh)" "table_ok (P\<lparr>bufs := lh\<rparr>)"
    "tab (P\<lparr>bufs := lh\<rparr>) = (tab P)(buf_data b := None)"
    by (rule delete_tab [OF pool_invD(1) [OF inv] t])
  show ?thesis
  proof (rule that [OF i(1)], rule inv_table [OF inv _ _ refl i(2)])
    show "kind P x = Some (True, d)" if "tab (P\<lparr>bufs := lh\<rparr>) d = Some x" for d x
      using that pool_invD(5) [OF inv] by (simp add: i(3) split: if_splits)
    show "buffer_ok (P\<lparr>bufs := lh\<rparr>) q (h q + (owns (FreeDelete r) q + total (\<lambda>c. owns c q) R))
        (dying (FreeUnlock r True) q + total (\<lambda>c. dying c q) R)
        (unshared (FreeUnlock r True) q + total (\<lambda>c. unshared c q) R)
        (removed (FreeUnlock r True) q + total (\<lambda>c. removed c q) R)" for q
      using pool_invD(6) [OF inv, of q] t k b
      by (cases "q = r"; cases "bufheap P q") (auto simp: buffer_ok_def i(3))
  qed (auto simp: fun_eq_iff)
qed

section \<open>Every step\<close>

lemma unshared_ref:
  "pool_inv P C h \<Longrightarrow> c \<in># C \<Longrightarrow> unshared c r > 0 \<Longrightarrow> \<exists>b. bufheap P r = Some b \<and> references b = 1"
  using pool_invD(6) [of P C h r] total_le [of c C "\<lambda>c. unshared c r"] total_le [of c C "\<lambda>c. owns c r"] unshared_owns [of c r]
  by (auto simp: buffer_ok_def split: option.splits)

lemma total_pos: "total f C > 0 \<Longrightarrow> \<exists>c \<in># C. f c > 0"
  by (induction C) auto

lemma owned_live:
  assumes "pool_inv P C h" "h r + total (\<lambda>c. owns c r) C > 0"
  shows "\<exists>b. bufheap P r = Some b \<and> references b \<noteq> 0"
proof (cases "bufheap P r")
  case None
  then show ?thesis using pool_invD(6) [OF assms(1), of r] assms(2) by (simp add: buffer_ok_def)
next
  case (Some b)
  have "(0 :: u32) \<noteq> CRYPTO_REFCOUNT_MAX" by (simp add: CRYPTO_REFCOUNT_MAX_def)
  then have "references b \<noteq> 0"
    using pool_invD(6) [OF assms(1), of r] assms(2) Some by (cases "references b = 0") (simp_all add: buffer_ok_def)
  then show ?thesis using Some by simp
qed

lemma dying_live:
  assumes "pool_inv P C h" "total (\<lambda>c. dying c r) C > 0"
  obtains b where "bufheap P r = Some b"
  using pool_invD(6) [OF assms(1), of r] assms(2) by (auto simp: buffer_ok_def split: option.splits)

text \<open>A buffer of the table is alive and has been published.\<close>

lemma tab_live:
  assumes "pool_inv P C h" "tab P dat = Some r"
  obtains b where "bufheap P r = Some b" "buf_pooled b" "buf_data b = dat" "total (\<lambda>c. unshared c r) C = 0"
    "total (\<lambda>c. removed c r) C = 0"
proof -
  obtain b where b: "bufheap P r = Some b" "buf_pooled b" "buf_data b = dat"
    using pool_invD(5) [OF assms] by (auto simp: kind_def)
  moreover have "total (\<lambda>c. unshared c r) C = 0" "total (\<lambda>c. removed c r) C = 0"
    using pool_invD(6) [OF assms(1), of r] b assms(2) by (simp_all add: buffer_ok_def)
  ultimately show ?thesis by (rule that)
qed

text \<open>While a call holds a lock and does not delete, no buffer of the table has lost its last reference.\<close>

lemma tab_counted:
  assumes inv: "pool_inv P C h" and "tab P dat = Some r" and lock: "c \<in># C" "reading c + writing c > 0" "\<And>q. dying c q = 0"
    and b: "bufheap P r = Some b"
  shows "references b \<noteq> 0"
proof
  assume "references b = 0"
  then have "total (\<lambda>c. dying c r) C = 1" using pool_invD(6) [OF inv, of r] b by (simp add: buffer_ok_def)
  then obtain x where x: "x \<in># C" "dying x r > 0" using total_pos [of "\<lambda>c. dying c r" C] by auto
  obtain b' where "total (\<lambda>c. removed c r) C = 0" by (rule tab_live [OF inv assms(2)])
  then have "removed x r = 0" using total_le [OF x(1), of "\<lambda>c. removed c r"] by simp
  then have w: "writing x = 1" using x(2) by (cases x) simp_all
  have "x \<noteq> c" using x(2) lock(3) by auto
  then obtain R where R: "C = add_mset c (add_mset x R)" using lock(1) x(1) by (metis insert_noteq_member mset_add)
  have "of_bool (writer P) = writing c + (1 + total writing R)" "readers P = reading c + (reading x + total reading R)"
    using pool_invD(2,3) [OF inv] w unfolding R by simp_all
  then show False using pool_invD(4) [OF inv] lock(2) by (cases "writer P") simp_all
qed

text \<open>A buffer to which a call holds a published reference.\<close>

lemma owned_shared:
  assumes inv: "pool_inv P C h" and c: "c \<in># C" "unshared c r = 0" "owns c r > 0"
  shows "total (\<lambda>c. unshared c r) C = 0"
proof (rule ccontr)
  assume "total (\<lambda>c. unshared c r) C \<noteq> 0"
  then obtain x where x: "x \<in># C" "unshared x r > 0" using total_pos [of "\<lambda>c. unshared c r" C] by auto
  then obtain b where b: "bufheap P r = Some b" "references b = 1" using unshared_ref [OF inv] by blast
  have "x \<noteq> c" using x(2) c(2) by auto
  then obtain R where R: "C = add_mset c (add_mset x R)" using c(1) x(1) by (metis insert_noteq_member mset_add)
  have "h r + total (\<lambda>c. owns c r) C = 1"
    using pool_invD(6) [OF inv, of r] b by (simp add: buffer_ok_def CRYPTO_REFCOUNT_MAX_def)
  then show False using c(3) x(2) unshared_owns [of x r] unfolding R by simp
qed

text \<open>A published buffer of the pool with references is in the table.\<close>

lemma owned_tab:
  assumes inv: "pool_inv P C h" and b: "bufheap P r = Some b" "buf_pooled b" "references b \<noteq> 0"
    and s: "total (\<lambda>c. unshared c r) C = 0"
  shows "tab P (buf_data b) = Some r"
proof -
  have "total (\<lambda>c. removed c r) C = 0"
    using pool_invD(6) [OF inv, of r] b total_mono [of "\<lambda>c. removed c r" "\<lambda>c. dying c r" C] removed_dying by (simp add: buffer_ok_def)
  then show ?thesis using pool_invD(6) [OF inv, of r] b s by (simp add: buffer_ok_def split: if_splits split_of_bool_asm)
qed

definition step_ok :: "outcome \<Rightarrow> call multiset \<Rightarrow> (nat \<Rightarrow> nat) \<Rightarrow> bool" where
  "step_ok out R h \<longleftrightarrow> (case out of Blocked \<Rightarrow> True | Wrong \<Rightarrow> False | Next c' P' \<Rightarrow> pool_inv P' (add_mset c' R) h)"

lemma step_ok_simps [simp]: "step_ok Blocked R h" "\<not> step_ok Wrong R h" "step_ok (Next c' P') R h = pool_inv P' (add_mset c' R) h"
  by (simp_all add: step_ok_def)

lemma step_lock_read:
  assumes inv: "pool_inv P (add_mset c R) h"
    and counts: "owns c' = owns c" "dying c' = dying c" "unshared c' = unshared c" "removed c' = removed c"
    and locks: "reading c = 0" "reading c' = 1" "writing c = 0" "writing c' = 0" and ok: "call_ok (tab P) (kind P) c'"
  shows "step_ok (lock_read c' P) R h"
proof (cases "writer P")
  case False
  have "pool_inv (P\<lparr>readers := readers P + 1\<rparr>) (add_mset c' R) h"
    by (rule inv_move [OF inv _ _ counts]) (simp_all add: locks ok False)
  then show ?thesis using False by (simp add: lock_read_def)
qed (simp add: lock_read_def)

lemma step_lock_write:
  assumes inv: "pool_inv P (add_mset c R) h"
    and counts: "owns c' = owns c" "dying c' = dying c" "unshared c' = unshared c" "removed c' = removed c"
    and locks: "reading c = 0" "reading c' = 0" "writing c = 0" "writing c' = 1" and ok: "call_ok (tab P) (kind P) c'"
  shows "step_ok (lock_write c' P) R h"
proof (cases "writer P \<or> readers P > 0")
  case False
  have "pool_inv (P\<lparr>writer := True\<rparr>) (add_mset c' R) h"
    by (rule inv_move [OF inv _ _ counts]) (use False in \<open>simp_all add: locks ok\<close>)
  then show ?thesis using False by (simp add: lock_write_def)
qed (simp add: lock_write_def)

lemma step_new_read:
  assumes inv: "pool_inv P (add_mset c R) h"
  shows "c = NewRetrieve dat \<Longrightarrow> step_ok (call_step mem new c P) R h"
    "c = NewIncRead dat r \<Longrightarrow> step_ok (call_step mem new c P) R h"
    "c = NewUnlockRead dat dup \<Longrightarrow> step_ok (call_step mem new c P) R h"
proof -
  note ok = pool_invD(7) [OF inv, of c, simplified]
  note move = inv_move [OF inv, of P, OF refl refl]
  show "step_ok (call_step mem new c P) R h" if "c = NewRetrieve dat"
    using retrieve_tab [OF pool_invD(1) [OF inv], of 0 dat] that pool_invD(4) [OF inv] that
    by (cases "tab P dat") (auto intro!: move)
  show "step_ok (call_step mem new c P) R h" if c: "c = NewIncRead dat r"
  proof -
    have t: "tab P dat = Some r" using ok c by simp
    obtain b where b: "bufheap P r = Some b" "buf_pooled b" "buf_data b = dat" "total (\<lambda>c. unshared c r) (add_mset c R) = 0"
      by (rule tab_live [OF inv t])
    have "references b \<noteq> 0" by (rule tab_counted [OF inv t _ _ _ b(1), of c]) (simp_all add: c)
    from inv_inc [OF inv b(1) this b(4), of "NewUnlockRead dat (Some r)"] show ?thesis
      using b by (simp add: c kind_def fun_eq_iff)
  qed
  show "step_ok (call_step mem new c P) R h" if c: "c = NewUnlockRead dat dup"
  proof -
    have "readers P > 0" using pool_invD(2) [OF inv] c by simp
    then have "pool_inv (P\<lparr>readers := readers P - 1\<rparr>) (add_mset (if dup \<noteq> None then NewRet dat dup else NewAlloc dat True) R) h"
      using ok pool_invD(4) [OF inv] c by (intro inv_move [OF inv]) (auto simp: fun_eq_iff)
    then show ?thesis by (simp add: c)
  qed
qed

lemma step_new_write:
  assumes inv: "pool_inv P (add_mset c R) h"
  shows "c = NewInsert dat r \<Longrightarrow> step_ok (call_step mem new c P) R h"
    "c = NewIncWrite dat r x \<Longrightarrow> step_ok (call_step mem new c P) R h"
    "c = NewUnlockWrite dat r inserted dup \<Longrightarrow> step_ok (call_step mem new c P) R h"
    "c = NewDrop dat r dup \<Longrightarrow> step_ok (call_step mem new c P) R h"
proof -
  note ok = pool_invD(7) [OF inv, of c, simplified]
  note move = inv_move [OF inv, of P, OF refl refl]
  show "step_ok (call_step mem new c P) R h" if c: "c = NewInsert dat r"
  proof -
    have k: "kind P r = Some (True, dat)" using ok c by simp
    then obtain b where b: "bufheap P r = Some b" "buf_data b = dat" by (auto simp: kind_def)
    note ret = retrieve_tab [OF pool_invD(1) [OF inv], of r dat]
    show ?thesis
    proof (cases "tab P dat")
      case None
      obtain inserted lh where "lh_insert mem (r, dat) (bufs P) = Some (inserted, None, lh)"
        "pool_inv (P\<lparr>bufs := lh\<rparr>) (add_mset (NewUnlockWrite dat r inserted None) R) h"
        by (rule inv_insert [OF inv [unfolded c] None])
      then show ?thesis using None ret b by (simp add: c with_buf_def)
    next
      case (Some x)
      have "pool_inv P (add_mset (NewIncWrite dat r x) R) h"
        by (rule move) (use k Some pool_invD(4) [OF inv] in \<open>auto simp: c fun_eq_iff\<close>)
      then show ?thesis using Some ret b by (simp add: c with_buf_def)
    qed
  qed
  show "step_ok (call_step mem new c P) R h" if c: "c = NewIncWrite dat r x"
  proof -
    have t: "tab P dat = Some x" and k: "kind P r = Some (True, dat)" using ok c by simp_all
    obtain b where b: "bufheap P x = Some b" "buf_pooled b" "buf_data b = dat" "total (\<lambda>c. unshared c x) (add_mset c R) = 0"
      by (rule tab_live [OF inv t])
    have "x \<noteq> r" using b(4) c by auto
    have "references b \<noteq> 0" by (rule tab_counted [OF inv t _ _ _ b(1), of c]) (simp_all add: c)
    from inv_inc [OF inv b(1) this b(4), of "NewUnlockWrite dat r False (Some x)"] show ?thesis
      using b k \<open>x \<noteq> r\<close> by (simp add: c kind_def fun_eq_iff)
  qed
  show "step_ok (call_step mem new c P) R h" if c: "c = NewUnlockWrite dat r inserted dup"
  proof -
    have "writer P" using pool_invD(3) [OF inv] c by (cases "writer P") simp_all
    then have "pool_inv (P\<lparr>writer := False\<rparr>) (add_mset (if \<not> inserted then NewDrop dat r dup else NewRet dat (Some r)) R) h"
      using ok c by (intro inv_move [OF inv]) (auto simp: fun_eq_iff)
    then show ?thesis by (simp add: c)
  qed
  show "step_ok (call_step mem new c P) R h" if c: "c = NewDrop dat r dup"
  proof -
    have k: "kind P r = Some (True, dat)" "\<And>x. dup = Some x \<Longrightarrow> x \<noteq> r \<and> kind P x = Some (True, dat)" using ok c by simp_all
    then obtain b where b: "bufheap P r = Some b" by (auto simp: kind_def)
    have "call_ok (tab P) ((kind P)(r := None)) (NewRet dat dup)" using k by (cases dup) auto
    moreover have "owns (NewRet dat dup) q = (if q = r then 0 else owns c q)" for q using k(2) by (cases dup) (auto simp: c)
    ultimately show ?thesis
      using inv_free [OF inv b, of "NewRet dat dup"] k(2) by (cases dup) (auto simp: c)
  qed
qed

lemma step_free:
  assumes inv: "pool_inv P (add_mset c R) h"
  shows "c = FreeEnter r \<Longrightarrow> step_ok (call_step mem new c P) R h"
    "c = FreeDec r \<Longrightarrow> step_ok (call_step mem new c P) R h"
    "c = FreeDecLocked r \<Longrightarrow> step_ok (call_step mem new c P) R h"
    "c = FreeDelete r \<Longrightarrow> step_ok (call_step mem new c P) R h"
proof -
  note ok = pool_invD(7) [OF inv, of c, simplified]
  note move = inv_move [OF inv, of P, OF refl refl]
  show "step_ok (call_step mem new c P) R h" if c: "c = FreeEnter r"
  proof -
    obtain b where b: "bufheap P r = Some b" using owned_live [OF inv, of r] c by auto
    have "pool_inv P (add_mset (if buf_pooled b then FreeLock r else FreeDec r) R) h"
      by (rule move) (use b pool_invD(4) [OF inv] in \<open>auto simp: c fun_eq_iff kind_def\<close>)
    then show ?thesis by (simp add: c with_buf_def b)
  qed
  show "step_ok (call_step mem new c P) R h" if c: "c = FreeDec r"
  proof -
    obtain b where b: "bufheap P r = Some b" "\<not> buf_pooled b" using ok c by (auto simp: kind_def)
    have "total (\<lambda>c. unshared c r) (add_mset c R) = 0" by (rule owned_shared [OF inv, of c]) (simp_all add: c)
    then obtain n where "dec_step r (\<lambda>z. if z then FreeMem r else FreeRet) P =
        Next (if n = 0 then FreeMem r else FreeRet) (P\<lparr>bufheap := (bufheap P)(r \<mapsto> b\<lparr>references := n\<rparr>)\<rparr>)"
      "pool_inv (P\<lparr>bufheap := (bufheap P)(r \<mapsto> b\<lparr>references := n\<rparr>)\<rparr>) (add_mset (if n = 0 then FreeMem r else FreeRet) R) h"
      by (rule inv_dec [OF inv b(1), of "\<lambda>z. if z then FreeMem r else FreeRet"]) (auto simp: c b fun_eq_iff)
    then show ?thesis by (simp add: c)
  qed
  show "step_ok (call_step mem new c P) R h" if c: "c = FreeDecLocked r"
  proof -
    obtain b where b: "bufheap P r = Some b" "buf_pooled b" using ok c by (auto simp: kind_def)
    have s: "total (\<lambda>c. unshared c r) (add_mset c R) = 0" by (rule owned_shared [OF inv, of c]) (simp_all add: c)
    have "references b \<noteq> 0" using owned_live [OF inv, of r] b c by auto
    note t = owned_tab [OF inv b this s]
    obtain n where "dec_step r (\<lambda>z. if \<not> z then FreeUnlock r False else FreeDelete r) P =
        Next (if \<not> n = 0 then FreeUnlock r False else FreeDelete r) (P\<lparr>bufheap := (bufheap P)(r \<mapsto> b\<lparr>references := n\<rparr>)\<rparr>)"
      "pool_inv (P\<lparr>bufheap := (bufheap P)(r \<mapsto> b\<lparr>references := n\<rparr>)\<rparr>) (add_mset (if \<not> n = 0 then FreeUnlock r False else FreeDelete r) R) h"
      by (rule inv_dec [OF inv b(1) s, of "\<lambda>z. if \<not> z then FreeUnlock r False else FreeDelete r"]) (use t b in \<open>auto simp: c fun_eq_iff kind_def\<close>)
    then show ?thesis by (simp add: c)
  qed
  show "step_ok (call_step mem new c P) R h" if c: "c = FreeDelete r"
  proof -
    obtain b where b: "bufheap P r = Some b" using ok c by (auto simp: kind_def)
    obtain lh where "lh_delete mem (r, buf_data b) (bufs P) = Some (Some (r, buf_data b), lh)"
      "pool_inv (P\<lparr>bufs := lh\<rparr>) (add_mset (FreeUnlock r True) R) h"
      by (rule inv_delete [OF inv [unfolded c] b])
    then show ?thesis by (simp add: c with_buf_def b)
  qed
qed

lemma step_free_end:
  assumes inv: "pool_inv P (add_mset c R) h"
  shows "c = FreeUnlock r gone \<Longrightarrow> step_ok (call_step mem new c P) R h"
    "c = FreeMem r \<Longrightarrow> step_ok (call_step mem new c P) R h"
    "c = UpRef r \<Longrightarrow> step_ok (call_step mem new c P) R h"
proof -
  note ok = pool_invD(7) [OF inv, of c, simplified]
  show "step_ok (call_step mem new c P) R h" if c: "c = FreeUnlock r gone"
  proof -
    have "\<exists>b. bufheap P r = Some b"
    proof (cases gone)
      case True
      then show ?thesis using dying_live [OF inv, of r] c by auto
    next
      case False
      then obtain dat where "tab P dat = Some r" using ok c by auto
      from pool_invD(5) [OF inv this] show ?thesis by (auto simp: kind_def)
    qed
    then obtain b where b: "bufheap P r = Some b" by blast
    have "writer P" using pool_invD(3) [OF inv] c by (cases "writer P") simp_all
    then have "pool_inv (P\<lparr>writer := False\<rparr>) (add_mset (if gone then FreeMem r else FreeRet) R) h"
      using c by (intro inv_move [OF inv]) (auto simp: fun_eq_iff)
    then show ?thesis by (simp add: c with_buf_def b)
  qed
  show "step_ok (call_step mem new c P) R h" if c: "c = FreeMem r"
  proof -
    obtain b where b: "bufheap P r = Some b" using dying_live [OF inv, of r] c by auto
    from inv_free [OF inv b, of FreeRet] show ?thesis by (simp add: c)
  qed
  show "step_ok (call_step mem new c P) R h" if c: "c = UpRef r"
  proof -
    obtain b where b: "bufheap P r = Some b" "references b \<noteq> 0" using owned_live [OF inv, of r] c by auto
    have s: "total (\<lambda>c. unshared c r) (add_mset c R) = 0" by (rule owned_shared [OF inv, of c]) (simp_all add: c)
    from inv_inc [OF inv b s, of "UpRefRet r"] show ?thesis by (simp add: c fun_eq_iff)
  qed
qed

theorem inv_step:
  assumes inv: "pool_inv P (add_mset c R) h" and new: "bufheap P new = None"
  shows "step_ok (call_step mem new c P) R h"
proof (cases c)
  case (NewLockRead dat)
  then show ?thesis using step_lock_read [OF inv, of "NewRetrieve dat"] by (simp add: fun_eq_iff)
next
  case (NewAlloc dat pooled)
  have "pool_inv P (add_mset (NewRet dat None) R) h"
    by (rule inv_move [OF inv]) (use pool_invD(4) [OF inv] in \<open>auto simp: NewAlloc fun_eq_iff\<close>)
  then show ?thesis using inv_alloc [OF inv [unfolded NewAlloc] new] by (simp add: NewAlloc)
next
  case (NewLockWrite dat r)
  then show ?thesis
    using step_lock_write [OF inv, of "NewInsert dat r"] pool_invD(7) [OF inv, of c] by (simp add: fun_eq_iff)
next
  case (FreeLock r)
  then show ?thesis
    using step_lock_write [OF inv, of "FreeDecLocked r"] pool_invD(7) [OF inv, of c] by (simp add: fun_eq_iff)
qed (erule step_new_read [OF inv] step_new_write [OF inv] step_free [OF inv] step_free_end [OF inv] | simp)+

section \<open>Reachable states\<close>

lemma inv_client:
  assumes inv: "pool_inv P C h" and P': "P' = P"
    and counts: "\<And>r. h' r + total (\<lambda>c. owns c r) C' = h r + total (\<lambda>c. owns c r) C"
      "\<And>r. total (\<lambda>c. dying c r) C' = total (\<lambda>c. dying c r) C" "\<And>r. total (\<lambda>c. unshared c r) C' = total (\<lambda>c. unshared c r) C"
      "\<And>r. total (\<lambda>c. removed c r) C' = total (\<lambda>c. removed c r) C"
    and locks: "total reading C' = total reading C" "total writing C' = total writing C"
    and ok: "\<And>c. c \<in># C' \<Longrightarrow> c \<notin># C \<Longrightarrow> call_ok (tab P) (kind P) c"
  shows "pool_inv P' C' h'"
  using inv ok unfolding P' pool_inv_def counts locks by blast

lemma inv_client_step: "client_step s s' \<Longrightarrow> pool_inv (pool s) (calls s) (held s) \<Longrightarrow> pool_inv (pool s') (calls s') (held s')"
  by (induction rule: client_step.induct; erule inv_client;
      auto simp: CRYPTO_BUFFER_new_def CRYPTO_BUFFER_free_def CRYPTO_BUFFER_up_ref_def split: if_splits)

lemma reach_inv: "pool_reach s \<Longrightarrow> pool_inv (pool s) (calls s) (held s)"
proof (induction rule: pool_reach.induct)
  case (reach_new mem P)
  then obtain lh where lh: "lh_new mem CRYPTO_BUFFER_hash CRYPTO_BUFFER_cmp = Some lh"
    and P: "P = \<lparr>bufs = lh, readers = 0, writer = False, bufheap = (\<lambda>r. None)\<rparr>"
    by (auto simp: CRYPTO_BUFFER_POOL_new_def split: if_splits option.splits)
  have "tab P dat = None" for dat by (simp add: tab_def P pool_keys.new_refines [OF lh])
  then show ?case using pool_keys.new_refines(1) [OF lh] by (simp add: pool_inv_def buffer_ok_def P)
next
  case (reach_run s s')
  then obtain c R new mem c' P' where "calls s = add_mset c R" "bufheap (pool s) new = None"
    "call_step mem new c (pool s) = Next c' P'" "s' = s\<lparr>pool := P', calls := add_mset c' R\<rparr>"
    by (auto elim: pool_step.cases)
  then show ?case using inv_step [of "pool s" c R "held s" new mem] reach_run.IH by simp
next
  case (reach_client s s')
  then show ?case using inv_client_step by blast
qed

lemma call_step_finite:
  "call_step mem new c P = Next c' P' \<Longrightarrow> finite (dom (bufheap P)) \<Longrightarrow> finite (dom (bufheap P'))"
  by (cases c) (auto simp: lock_read_def lock_write_def inc_step_def dec_step_def free_step_def with_buf_def
      split: if_splits option.splits prod.splits)

lemma reach_finite: "pool_reach s \<Longrightarrow> finite (dom (bufheap (pool s)))"
proof (induction rule: pool_reach.induct)
  case (reach_new mem P)
  then show ?case by (auto simp: CRYPTO_BUFFER_POOL_new_def split: if_splits option.splits)
next
  case (reach_run s s')
  then obtain c R new mem c' P' where p: "call_step mem new c (pool s) = Next c' P'" "pool s' = P'"
    by (auto elim: pool_step.cases)
  then show ?case using call_step_finite reach_run.IH by blast
next
  case (reach_client s s')
  then have "pool s' = pool s" by (auto elim: client_step.cases)
  then show ?case using reach_client.IH by simp
qed

text \<open>
  C10. Whatever the threads do and however their steps interleave, no call touches a buffer that was
  freed, no assertion of \<open>CRYPTO_BUFFER_new\<close> or \<open>CRYPTO_BUFFER_free\<close> fails, and no reference count
  is decremented at zero.
\<close>

theorem pool_calls_safe:
  assumes "pool_reach s" "c \<in># calls s" "bufheap (pool s) new = None"
  shows "call_step mem new c (pool s) \<noteq> Wrong"
proof -
  obtain R where R: "calls s = add_mset c R" using assms(2) by (blast dest: multi_member_split)
  then show ?thesis
    using inv_step [of "pool s" c R "held s" new mem] reach_inv [OF assms(1)] assms(3)
    by (cases "call_step mem new c (pool s)") simp_all
qed

text \<open>A buffer that the client holds, or that a call returns to it.\<close>

definition client_ref :: "pool_system \<Rightarrow> nat \<Rightarrow> bool" where
  "client_ref s r \<longleftrightarrow> held s r > 0 \<or> (\<exists>dat. NewRet dat (Some r) \<in># calls s) \<or> UpRefRet r \<in># calls s"

lemma client_ref_live:
  assumes "pool_reach s" "client_ref s r"
  obtains b where "bufheap (pool s) r = Some b" "references b \<noteq> 0" "buf_pooled b \<Longrightarrow> tab (pool s) (buf_data b) = Some r"
proof -
  note inv = reach_inv [OF assms(1)]
  have own: "held s r + total (\<lambda>c. owns c r) (calls s) > 0"
    using assms(2) unfolding client_ref_def by (auto dest!: multi_member_split)
  then obtain b where b: "bufheap (pool s) r = Some b" "references b \<noteq> 0" using owned_live [OF inv own] by blast
  have "total (\<lambda>c. unshared c r) (calls s) = 0"
  proof (cases "held s r > 0")
    case False
    then obtain c where "c \<in># calls s" "unshared c r = 0" "owns c r > 0" using assms(2) by (auto simp: client_ref_def)
    then show ?thesis by (rule owned_shared [OF inv])
  next
    case True
    show ?thesis
    proof (rule ccontr)
      assume "total (\<lambda>c. unshared c r) (calls s) \<noteq> 0"
      then obtain x where x: "x \<in># calls s" "unshared x r > 0" using total_pos [of "\<lambda>c. unshared c r"] by auto
      then have "references b = 1" using unshared_ref [OF inv x] b by simp
      then have "held s r + total (\<lambda>c. owns c r) (calls s) = 1"
        using pool_invD(6) [OF inv, of r] b by (simp add: buffer_ok_def CRYPTO_REFCOUNT_MAX_def)
      then show False using True x unshared_owns [of x r] total_le [OF x(1), of "\<lambda>c. owns c r"] by simp
    qed
  qed
  then show ?thesis using that [OF b] owned_tab [OF inv b(1) _ b(2)] by simp
qed

text \<open>
  C12. \<open>CRYPTO_BUFFER_new\<close> returns a live buffer with the bytes that it was given, and the pool
  shares: two references to buffers of the pool with equal bytes are to the same buffer.
\<close>

theorem pool_shares_buffers:
  assumes "pool_reach s"
  shows "(\<forall>dat r. NewRet dat (Some r) \<in># calls s \<longrightarrow>
      (\<exists>b. bufheap (pool s) r = Some b \<and> references b \<noteq> 0 \<and> CRYPTO_BUFFER_data b = dat)) \<and>
    (\<forall>r r' b b'. client_ref s r \<longrightarrow> client_ref s r' \<longrightarrow> bufheap (pool s) r = Some b \<longrightarrow> bufheap (pool s) r' = Some b' \<longrightarrow>
      buf_pooled b \<longrightarrow> buf_pooled b' \<longrightarrow> CRYPTO_BUFFER_data b = CRYPTO_BUFFER_data b' \<longrightarrow> r = r')"
proof (intro conjI allI impI)
  fix dat r assume c: "NewRet dat (Some r) \<in># calls s"
  then have "client_ref s r" by (auto simp: client_ref_def)
  with assms obtain b where "bufheap (pool s) r = Some b" "references b \<noteq> 0" by (rule client_ref_live)
  then show "\<exists>b. bufheap (pool s) r = Some b \<and> references b \<noteq> 0 \<and> CRYPTO_BUFFER_data b = dat"
    using pool_invD(7) [OF reach_inv [OF assms] c] by (auto simp: kind_def CRYPTO_BUFFER_data_def)
next
  fix r r' b b'
  assume r: "client_ref s r" "client_ref s r'" and b: "bufheap (pool s) r = Some b" "bufheap (pool s) r' = Some b'"
    and "buf_pooled b" "buf_pooled b'" "CRYPTO_BUFFER_data b = CRYPTO_BUFFER_data b'"
  moreover have "tab (pool s) (buf_data b) = Some r" using client_ref_live [OF assms r(1)] b calculation by (metis option.inject)
  moreover have "tab (pool s) (buf_data b') = Some r'" using client_ref_live [OF assms r(2)] b calculation by (metis option.inject)
  ultimately show "r = r'" by (simp add: CRYPTO_BUFFER_data_def)
qed

section \<open>Progress\<close>

definition returned :: "call \<Rightarrow> bool" where
  "returned c = (case c of NewRet dat r \<Rightarrow> True | FreeRet \<Rightarrow> True | UpRefRet r \<Rightarrow> True | _ \<Rightarrow> False)"

fun steps_left :: "call \<Rightarrow> nat" where
  "steps_left (NewLockRead dat) = 10"
| "steps_left (NewRetrieve dat) = 9"
| "steps_left (NewIncRead dat r) = 8"
| "steps_left (NewUnlockRead dat r) = 7"
| "steps_left (NewAlloc dat pooled) = 6"
| "steps_left (NewLockWrite dat r) = 5"
| "steps_left (NewInsert dat r) = 4"
| "steps_left (NewIncWrite dat r x) = 3"
| "steps_left (NewUnlockWrite dat r inserted x) = 2"
| "steps_left (NewDrop dat r x) = 1"
| "steps_left (FreeEnter r) = 6"
| "steps_left (FreeLock r) = 5"
| "steps_left (FreeDecLocked r) = 4"
| "steps_left (FreeDelete r) = 3"
| "steps_left (FreeDec r) = 2"
| "steps_left (FreeUnlock r gone) = 2"
| "steps_left (FreeMem r) = 1"
| "steps_left (UpRef r) = 1"
| "steps_left c = 0"

lemma call_step_less: "call_step mem new c P = Next c' P' \<Longrightarrow> steps_left c' < steps_left c"
  by (cases c) (auto simp: lock_read_def lock_write_def inc_step_def dec_step_def free_step_def with_buf_def
      split: if_splits option.splits prod.splits)

lemma pool_step_less: "pool_step s s' \<Longrightarrow> total steps_left (calls s') < total steps_left (calls s)"
  by (auto elim!: pool_step.cases dest: call_step_less)

text \<open>Only the lock operations wait.\<close>

lemma call_step_waits:
  assumes "call_step mem new c P = Blocked" "\<not> returned c"
  shows "reading c = 0 \<and> writing c = 0 \<and> (writer P \<or> readers P > 0)"
  using assms by (cases c) (auto simp: returned_def lock_read_def lock_write_def inc_step_def dec_step_def free_step_def with_buf_def
      split: if_splits option.splits prod.splits)

lemma not_returned_steps:
  assumes reach: "pool_reach s" and c: "c \<in># calls s" "\<not> returned c"
  shows "\<exists>s'. pool_step s s'"
proof -
  note inv = reach_inv [OF reach]
  have "\<exists>x \<in># calls s. \<not> returned x \<and> (reading x + writing x > 0 \<or> \<not> writer (pool s) \<and> readers (pool s) = 0)"
  proof (cases "writer (pool s) \<or> readers (pool s) > 0")
    case True
    then have "total reading (calls s) > 0 \<or> total writing (calls s) > 0"
      using pool_invD(2,3) [OF inv] by (cases "writer (pool s)") auto
    then obtain x where "x \<in># calls s" "reading x + writing x > 0" using total_pos by (metis add_gr_0)
    moreover from this(2) have "\<not> returned x" by (cases x) (simp_all add: returned_def)
    ultimately show ?thesis by blast
  qed (use c in auto)
  then obtain x where x: "x \<in># calls s" "\<not> returned x" "reading x + writing x > 0 \<or> \<not> writer (pool s) \<and> readers (pool s) = 0" by blast
  have "finite (dom (bufheap (pool s)))" by (rule reach_finite [OF reach])
  from ex_new_if_finite [OF infinite_UNIV_nat this] obtain new where new: "bufheap (pool s) new = None" by auto
  obtain R where R: "calls s = add_mset x R" using x(1) by (blast dest: multi_member_split)
  have "step_ok (call_step (\<lambda>n. True) new x (pool s)) R (held s)" using inv_step [of _ x R] inv new unfolding R by blast
  moreover have "call_step (\<lambda>n. True) new x (pool s) \<noteq> Blocked" using call_step_waits x(2,3) by force
  ultimately obtain c' P' where "call_step (\<lambda>n. True) new x (pool s) = Next c' P'"
    by (cases "call_step (\<lambda>n. True) new x (pool s)") simp_all
  then show ?thesis using run [OF R new] by blast
qed

lemma run_reach: "pool_step\<^sup>*\<^sup>* s s' \<Longrightarrow> pool_reach s \<Longrightarrow> pool_reach s'"
  by (induction rule: rtranclp_induct) (blast intro: reach_run)+

text \<open>
  C13. The calls that are under way return: there is no schedule of their steps that is longer than
  the sum of the steps they have left, and in a state where no call can make a step, which such a
  schedule therefore reaches, every call has returned. There is no deadlock.
\<close>

theorem pool_calls_return:
  assumes "pool_reach s"
  shows "(\<forall>n s'. (pool_step ^^ n) s s' \<longrightarrow> n \<le> total steps_left (calls s)) \<and>
    (\<forall>s'. pool_step\<^sup>*\<^sup>* s s' \<longrightarrow> (\<forall>t. \<not> pool_step s' t) \<longrightarrow> (\<forall>c \<in># calls s'. returned c))"
proof (intro conjI allI impI ballI)
  fix n s' assume "(pool_step ^^ n) s s'"
  then have "n + total steps_left (calls s') \<le> total steps_left (calls s)"
    by (induction n arbitrary: s') (auto dest!: pool_step_less, fastforce)
  then show "n \<le> total steps_left (calls s)" by simp
next
  fix s' c assume "pool_step\<^sup>*\<^sup>* s s'" "\<forall>t. \<not> pool_step s' t" "c \<in># calls s'"
  then show "returned c" using not_returned_steps [OF run_reach [OF _ assms]] by blast
qed

text \<open>
  C25. When no call is under way and the clients have given back every reference, the only buffers that
  still exist are those whose count was saturated; without one, the assertion of
  \<open>CRYPTO_BUFFER_POOL_free\<close> holds.
\<close>

theorem pool_no_leak:
  assumes "pool_reach s" "calls s = {#}" "\<forall>r. held s r = 0"
  shows "(\<forall>r b. bufheap (pool s) r = Some b \<longrightarrow> references b = CRYPTO_REFCOUNT_MAX) \<and>
    (CRYPTO_BUFFER_POOL_free (pool s) \<or>
      (\<exists>r b. bufheap (pool s) r = Some b \<and> buf_pooled b \<and> references b = CRYPTO_REFCOUNT_MAX))"
proof
  note inv = reach_inv [OF assms(1)]
  have sat: "references b = CRYPTO_REFCOUNT_MAX" if "bufheap (pool s) r = Some b" for r b
    using pool_invD(6) [OF inv, of r] that assms(2,3) by (auto simp: buffer_ok_def unat_eq_0)
  then show "\<forall>r b. bufheap (pool s) r = Some b \<longrightarrow> references b = CRYPTO_REFCOUNT_MAX" by blast
  show "CRYPTO_BUFFER_POOL_free (pool s) \<or> (\<exists>r b. bufheap (pool s) r = Some b \<and> buf_pooled b \<and> references b = CRYPTO_REFCOUNT_MAX)"
  proof (cases "lh_items (bufs (pool s)) = {#}")
    case True
    then have "num_items (bufs (pool s)) = 0"
      using pool_invD(1) [OF inv] by (simp add: lh_ok_def lh_shape_def)
    then show ?thesis by (simp add: CRYPTO_BUFFER_POOL_free_def lh_num_items_def)
  next
    case False
    then obtain it where it: "it \<in># lh_items (bufs (pool s))" by blast
    have "lh_lookup (bufs (pool s)) (item_data it) = Some (item_data it)"
      using lookup_Some [OF pool_invD(1) [OF inv] _ it] by (simp add: buffer_cmp_zero)
    then have "tab (pool s) (snd (item_data it)) = Some (fst (item_data it))"
      using lookup_tab [OF pool_invD(1) [OF inv], of "fst (item_data it)" "snd (item_data it)"]
      by (cases "tab (pool s) (snd (item_data it))") (auto simp: prod_eq_iff)
    from tab_live [OF inv this] sat show ?thesis by metis
  qed
qed

section \<open>The lock-free reference counts\<close>

lemma inc_loop_simps [simp]:
  "refcount_inc_loop e [] = (if e = CRYPTO_REFCOUNT_MAX then Some None else None)"
  "refcount_inc_loop e ((n, fails) # as) = (if e = CRYPTO_REFCOUNT_MAX then Some None
     else if n = e \<and> \<not> fails then Some (Some (0, e + 1))
     else map_option (map_option (map_prod Suc id)) (refcount_inc_loop n as))"
  by (simp_all add: refcount_inc_loop.simps [of e "[]"] refcount_inc_loop.simps [of e "(n, fails) # as"])

lemma dec_loop_simps [simp]:
  "refcount_dec_loop e [] = (if e = 0 then Some Dec_abort else if e = CRYPTO_REFCOUNT_MAX then Some Dec_saturated else None)"
  "refcount_dec_loop e ((n, fails) # as) = (if e = 0 then Some Dec_abort
     else if e = CRYPTO_REFCOUNT_MAX then Some Dec_saturated
     else if n = e \<and> \<not> fails then Some (Dec_wrote 0 (e - 1))
     else map_option (\<lambda>r. case r of Dec_wrote k v \<Rightarrow> Dec_wrote (Suc k) v | r \<Rightarrow> r) (refcount_dec_loop n as))"
  by (simp_all add: refcount_dec_loop.simps [of e "[]"] refcount_dec_loop.simps [of e "(n, fails) # as"])

lemma inc_loop_result:
  "refcount_inc_loop e as = Some res \<Longrightarrow> (case res of
      Some (k, v) \<Rightarrow> k < length as \<and> \<not> snd (as ! k) \<and> fst (as ! k) \<noteq> CRYPTO_REFCOUNT_MAX \<and> v = CRYPTO_refcount_inc (fst (as ! k))
    | None \<Rightarrow> (\<exists>n \<in> insert e (fst ` set as). CRYPTO_refcount_inc n = n))"
proof (induction as arbitrary: e res)
  case Nil
  then show ?case by (auto simp: CRYPTO_refcount_inc_def split: if_splits)
next
  case (Cons a as)
  obtain n fails where a: "a = (n, fails)" by fastforce
  show ?case
  proof (cases "e = CRYPTO_REFCOUNT_MAX \<or> n = e \<and> \<not> fails")
    case True
    then show ?thesis using Cons.prems a by (auto simp: CRYPTO_refcount_inc_def not_max split: if_splits)
  next
    case False
    then obtain r where r: "refcount_inc_loop n as = Some r" "res = map_option (map_prod Suc id) r"
      using Cons.prems a by (auto split: if_splits)
    from Cons.IH [OF r(1)] show ?thesis using r(2) a by (cases r) auto
  qed
qed

lemma dec_loop_result:
  "refcount_dec_loop e as = Some res \<Longrightarrow> (case res of
      Dec_wrote k v \<Rightarrow> k < length as \<and> \<not> snd (as ! k) \<and> fst (as ! k) \<noteq> CRYPTO_REFCOUNT_MAX \<and>
        CRYPTO_refcount_dec_and_test_zero (fst (as ! k)) = Some (v = 0, v)
    | Dec_saturated \<Rightarrow> (\<exists>n \<in> insert e (fst ` set as). CRYPTO_refcount_dec_and_test_zero n = Some (False, n))
    | Dec_abort \<Rightarrow> (\<exists>n \<in> insert e (fst ` set as). CRYPTO_refcount_dec_and_test_zero n = None))"
proof (induction as arbitrary: e res)
  case Nil
  then show ?case by (auto simp: CRYPTO_refcount_dec_and_test_zero_def split: if_splits)
next
  case (Cons a as)
  obtain n fails where a: "a = (n, fails)" by fastforce
  show ?case
  proof (cases "e = 0 \<or> e = CRYPTO_REFCOUNT_MAX \<or> n = e \<and> \<not> fails")
    case True
    then show ?thesis using Cons.prems a
      by (auto simp: CRYPTO_refcount_dec_and_test_zero_def not_max split: if_splits)
  next
    case False
    then obtain r where r: "refcount_dec_loop n as = Some r" "res = (case r of Dec_wrote k v \<Rightarrow> Dec_wrote (Suc k) v | r \<Rightarrow> r)"
      using Cons.prems a by (auto split: if_splits)
    from Cons.IH [OF r(1)] show ?thesis using r(2) a by (cases r) auto
  qed
qed

lemma loops_return:
  "k < length as \<Longrightarrow> \<not> snd (as ! k) \<Longrightarrow> fst (as ! k) = (if k = 0 then e else fst (as ! (k - 1))) \<Longrightarrow>
    refcount_inc_loop e as \<noteq> None \<and> refcount_dec_loop e as \<noteq> None"
proof (induction as arbitrary: e k)
  case (Cons a as)
  obtain n fails where a: "a = (n, fails)" by fastforce
  show ?case
  proof (cases k)
    case 0
    then show ?thesis using Cons.prems a by auto
  next
    case (Suc j)
    then have "refcount_inc_loop n as \<noteq> None \<and> refcount_dec_loop n as \<noteq> None"
      using Cons.prems a by (intro Cons.IH [of j]) (cases j; simp)+
    then show ?thesis using a by auto
  qed
qed simp

text \<open>
  The compare-and-exchange loops are atomic: when a loop ends, one attempt saw the count that the
  operation with the lock would have changed in the way that the loop did, and nobody changed it in
  between. A loop ends when the count did not change between two of its attempts.
\<close>

theorem refcount_loops_atomic:
  "(\<forall>k v. refcount_inc_loop e as = Some (Some (k, v)) \<longrightarrow>
      k < length as \<and> \<not> snd (as ! k) \<and> fst (as ! k) \<noteq> CRYPTO_REFCOUNT_MAX \<and> v = CRYPTO_refcount_inc (fst (as ! k))) \<and>
   (refcount_inc_loop e as = Some None \<longrightarrow> (\<exists>n \<in> insert e (fst ` set as). CRYPTO_refcount_inc n = n)) \<and>
   (\<forall>res. refcount_dec_loop e as = Some res \<longrightarrow> (case res of
      Dec_wrote k v \<Rightarrow> k < length as \<and> \<not> snd (as ! k) \<and> fst (as ! k) \<noteq> CRYPTO_REFCOUNT_MAX \<and>
        CRYPTO_refcount_dec_and_test_zero (fst (as ! k)) = Some (v = 0, v)
    | Dec_saturated \<Rightarrow> (\<exists>n \<in> insert e (fst ` set as). CRYPTO_refcount_dec_and_test_zero n = Some (False, n))
    | Dec_abort \<Rightarrow> (\<exists>n \<in> insert e (fst ` set as). CRYPTO_refcount_dec_and_test_zero n = None))) \<and>
   (\<forall>k < length as. \<not> snd (as ! k) \<longrightarrow> fst (as ! k) = (if k = 0 then e else fst (as ! (k - 1))) \<longrightarrow>
      refcount_inc_loop e as \<noteq> None \<and> refcount_dec_loop e as \<noteq> None)"
proof (intro conjI)
  show "\<forall>k v. refcount_inc_loop e as = Some (Some (k, v)) \<longrightarrow>
      k < length as \<and> \<not> snd (as ! k) \<and> fst (as ! k) \<noteq> CRYPTO_REFCOUNT_MAX \<and> v = CRYPTO_refcount_inc (fst (as ! k))"
    using inc_loop_result [of e as] by fastforce
  show "refcount_inc_loop e as = Some None \<longrightarrow> (\<exists>n \<in> insert e (fst ` set as). CRYPTO_refcount_inc n = n)"
    using inc_loop_result [of e as None] by simp
qed (use dec_loop_result loops_return in blast)+

lemma refcount_loops_atomic_witness:
  "refcount_inc_loop 7 [(9, False), (9, True), (9, False)] = Some (Some (2, 10)) \<and> (10 :: u32) = CRYPTO_refcount_inc 9 \<and>
   refcount_dec_loop 7 [(1, False), (1, False)] = Some (Dec_wrote 1 0) \<and> CRYPTO_refcount_dec_and_test_zero 1 = Some (True, 0)"
proof -
  have i: "refcount_inc_loop 7 [(9, False), (9, True), (9, False)] = Some (Some (2, 10))"
    and d: "refcount_dec_loop 7 [(1, False), (1, False)] = Some (Dec_wrote 1 0)" by (simp_all add: CRYPTO_REFCOUNT_MAX_def)
  have "(10 :: u32) = CRYPTO_refcount_inc 9"
    using refcount_loops_atomic [of 7 "[(9, False), (9, True), (9, False)]", THEN conjunct1, rule_format, OF i] by simp
  moreover have "CRYPTO_refcount_dec_and_test_zero 1 = Some (True, 0)"
    using refcount_loops_atomic [of 7 "[(1, False), (1, False)]", THEN conjunct2, THEN conjunct2, THEN conjunct1, rule_format, OF d]
    by simp
  ultimately show ?thesis using i d by blast
qed

section \<open>Runs of the pool\<close>

text \<open>One call that runs alone, with the addresses that the allocator offers at each step.\<close>

fun run_call :: "nat list \<Rightarrow> call \<Rightarrow> crypto_pool \<Rightarrow> (call \<times> crypto_pool) option" where
  "run_call [] c P = Some (c, P)"
| "run_call (new # news) c P = (case bufheap P new of Some b \<Rightarrow> None | None \<Rightarrow>
     (case call_step (\<lambda>n. True) new c P of Next c' P' \<Rightarrow> run_call news c' P' | _ \<Rightarrow> None))"

lemma run_call_reach:
  "run_call news c P = Some (c', P') \<Longrightarrow> pool_reach \<lparr>pool = P, calls = add_mset c R, held = h\<rparr> \<Longrightarrow>
    pool_reach \<lparr>pool = P', calls = add_mset c' R, held = h\<rparr>"
proof (induction news c P rule: run_call.induct)
  case (2 new news c P)
  then obtain c1 P1 where s: "bufheap P new = None" "call_step (\<lambda>n. True) new c P = Next c1 P1" "run_call news c1 P1 = Some (c', P')"
    by (auto split: option.splits outcome.splits)
  have "pool_reach \<lparr>pool = P1, calls = add_mset c1 R, held = h\<rparr>"
    using reach_run [OF 2(3) run [of "\<lparr>pool = P, calls = add_mset c R, held = h\<rparr>"]] s(1,2) by simp
  then show ?case using 2(1) s by simp
qed simp

text \<open>A new pool in which two equal buffers are made and, in the second run, one is made and freed.\<close>

definition two_news :: "nat list \<Rightarrow> nat list \<Rightarrow> (crypto_pool \<times> call \<times> call) option" where
  "two_news n1 n2 = (case CRYPTO_BUFFER_POOL_new (\<lambda>n. True) of None \<Rightarrow> None | Some P \<Rightarrow>
     (case run_call n1 (CRYPTO_BUFFER_new [1, 2] True) P of None \<Rightarrow> None | Some (c1, P1) \<Rightarrow>
       map_option (\<lambda>(c2, P2). (P2, c1, c2)) (run_call n2 (CRYPTO_BUFFER_new [1, 2] True) P1)))"

lemma two_news_run:
  "map_option snd (two_news [0, 0, 0, 0, 1, 1, 1] [1, 1, 1, 1]) = Some (NewRet [1, 2] (Some 0), NewRet [1, 2] (Some 0))"
  by code_simp

lemma two_news_reach:
  obtains P where "pool_reach \<lparr>pool = P, calls = {#NewRet [1, 2] (Some 0), NewRet [1, 2] (Some 0)#}, held = (\<lambda>r. 0)\<rparr>"
proof -
  obtain P0 P1 P2 c1 c2 where P0: "CRYPTO_BUFFER_POOL_new (\<lambda>n. True) = Some P0"
    and r1: "run_call [0, 0, 0, 0, 1, 1, 1] (CRYPTO_BUFFER_new [1, 2] True) P0 = Some (c1, P1)"
    and r2: "run_call [1, 1, 1, 1] (CRYPTO_BUFFER_new [1, 2] True) P1 = Some (c2, P2)"
    and c: "c1 = NewRet [1, 2] (Some 0)" "c2 = NewRet [1, 2] (Some 0)"
    using two_news_run by (auto simp: two_news_def split: option.splits prod.splits)
  let ?s = "\<lambda>P C. \<lparr>pool = P, calls = C, held = (\<lambda>r. 0)\<rparr>"
  note s0 = reach_new [OF P0]
  have "pool_reach (?s P0 (add_mset (CRYPTO_BUFFER_new [1, 2] True) {#}))"
    using reach_client [OF s0 call_new [of "?s P0 {#}" "[1, 2]" True]] by simp
  from run_call_reach [OF r1 this] have s1: "pool_reach (?s P1 {#c1#})" .
  have "pool_reach (?s P1 (add_mset (CRYPTO_BUFFER_new [1, 2] True) {#c1#}))"
    using reach_client [OF s1 call_new [of "?s P1 {#c1#}" "[1, 2]" True]] by simp
  from run_call_reach [OF r2 this] show ?thesis using that c by simp
qed

lemma pool_calls_safe_witness: "\<exists>s. pool_reach s \<and> call_step (\<lambda>n. True) 5 (NewLockRead [1]) (pool s) \<noteq> Wrong"
proof -
  let ?P = "the (CRYPTO_BUFFER_POOL_new (\<lambda>n. True))"
  let ?s = "\<lparr>pool = ?P, calls = {#NewLockRead [1]#}, held = (\<lambda>r. 0)\<rparr>"
  have P: "CRYPTO_BUFFER_POOL_new (\<lambda>n. True) = Some ?P" "bufheap ?P 5 = None"
    by (simp_all add: CRYPTO_BUFFER_POOL_new_def lh_new_def)
  have "pool_reach ?s"
    using reach_client [OF reach_new [OF P(1)] call_new [of _ "[1]" True]] by (simp add: CRYPTO_BUFFER_new_def)
  then show ?thesis using pool_calls_safe [of ?s "NewLockRead [1]" 5 "\<lambda>n. True"] P(2) by auto
qed

lemma pool_shares_buffers_witness:
  "\<exists>s b. pool_reach s \<and> calls s = {#NewRet [1, 2] (Some 0), NewRet [1, 2] (Some 0)#} \<and> bufheap (pool s) 0 = Some b \<and>
    CRYPTO_BUFFER_data b = [1, 2]"
proof -
  obtain P where P: "pool_reach \<lparr>pool = P, calls = {#NewRet [1, 2] (Some 0), NewRet [1, 2] (Some 0)#}, held = (\<lambda>r. 0)\<rparr>"
    by (rule two_news_reach)
  from pool_shares_buffers [OF this, THEN conjunct1, rule_format, of "[1, 2]" 0] P show ?thesis by force
qed

lemma pool_calls_return_witness:
  "\<exists>s. pool_reach s \<and> calls s \<noteq> {#} \<and> (\<forall>s'. pool_step\<^sup>*\<^sup>* s s' \<longrightarrow> (\<forall>t. \<not> pool_step s' t) \<longrightarrow> (\<forall>c \<in># calls s'. returned c))"
proof -
  obtain P where P: "pool_reach \<lparr>pool = P, calls = {#NewRet [1, 2] (Some 0), NewRet [1, 2] (Some 0)#}, held = (\<lambda>r. 0)\<rparr>"
    by (rule two_news_reach)
  have "pool_reach \<lparr>pool = P, calls = {#NewLockRead [1], NewRet [1, 2] (Some 0), NewRet [1, 2] (Some 0)#}, held = (\<lambda>r. 0)\<rparr>"
    using reach_client [OF P call_new [of _ "[1]" True]] by (simp add: CRYPTO_BUFFER_new_def)
  from pool_calls_return [OF this] this show ?thesis by force
qed

text \<open>One buffer is made and freed.\<close>

definition new_free :: "nat list \<Rightarrow> nat list \<Rightarrow> (crypto_pool \<times> call \<times> call) option" where
  "new_free n1 n2 = (case CRYPTO_BUFFER_POOL_new (\<lambda>n. True) of None \<Rightarrow> None | Some P \<Rightarrow>
     (case run_call n1 (CRYPTO_BUFFER_new [1, 2] True) P of None \<Rightarrow> None | Some (c1, P1) \<Rightarrow>
       map_option (\<lambda>(c2, P2). (P2, c1, c2)) (run_call n2 (CRYPTO_BUFFER_free (Some 0)) P1)))"

lemma new_free_run:
  "map_option (\<lambda>(P, cs). (cs, Option.is_none (bufheap P 0), CRYPTO_BUFFER_POOL_free P)) (new_free [0, 0, 0, 0, 1, 1, 1] [1, 1, 1, 1, 1, 1]) =
    Some ((NewRet [1, 2] (Some 0), FreeRet), True, True)"
  by code_simp

lemma pool_no_leak_witness:
  "\<exists>s. pool_reach s \<and> calls s = {#} \<and> (\<forall>r b. bufheap (pool s) r = Some b \<longrightarrow> references b = CRYPTO_REFCOUNT_MAX) \<and>
    CRYPTO_BUFFER_POOL_free (pool s)"
proof -
  obtain P0 P1 P2 c1 c2 where P0: "CRYPTO_BUFFER_POOL_new (\<lambda>n. True) = Some P0"
    and r1: "run_call [0, 0, 0, 0, 1, 1, 1] (CRYPTO_BUFFER_new [1, 2] True) P0 = Some (c1, P1)"
    and r2: "run_call [1, 1, 1, 1, 1, 1] (CRYPTO_BUFFER_free (Some 0)) P1 = Some (c2, P2)"
    and c: "c1 = NewRet [1, 2] (Some 0)" "c2 = FreeRet" and fr: "CRYPTO_BUFFER_POOL_free P2"
    using new_free_run by (auto simp: new_free_def split: option.splits prod.splits)
  let ?s = "\<lambda>P C h. \<lparr>pool = P, calls = C, held = h\<rparr>" and ?z = "\<lambda>r :: nat. 0 :: nat"
  note s0 = reach_new [OF P0]
  have "pool_reach (?s P0 (add_mset (CRYPTO_BUFFER_new [1, 2] True) {#}) ?z)"
    using reach_client [OF s0 call_new [of "?s P0 {#} ?z" "[1, 2]" True]] by simp
  from run_call_reach [OF r1 this] have s1: "pool_reach (?s P1 {#c1#} ?z)" .
  have "pool_reach (?s P1 {#} (?z(0 := 1)))"
    using reach_client [OF s1 return_new [of _ "[1, 2]" 0 "{#}"]] c by simp
  from reach_client [OF this call_free [of _ 0]]
  have "pool_reach (?s P1 (add_mset (CRYPTO_BUFFER_free (Some 0)) {#}) ?z)" by (simp add: fun_upd_idem)
  from run_call_reach [OF r2 this] have s2: "pool_reach (?s P2 {#c2#} ?z)" .
  have "pool_reach (?s P2 {#} ?z)" using reach_client [OF s2 return_free [of _ "{#}"]] c by simp
  from pool_no_leak [OF this] this fr show ?thesis by force
qed

end
