(* ===== verification/Stack.thy ===== *)
theory Stack
  imports Cbb_Asn1
begin

text \<open>
  BoringSSL: the growing array of pointers of \<open>crypto/stack/stack.c\<close>. A pointer is an \<open>option\<close>, a
  comparison function its address and what it computes. \<open>mem size\<close> is the outcome of an allocation:
  \<open>None\<close> when it fails, and otherwise what the fresh slots hold. \<open>None\<close> as the result of a function is
  an access outside the array or a failed assertion. The functions of \<open>free\<close> and \<open>copy\<close> are
  parameters; of a function that frees elements the model gives the elements in their order.
\<close>

type_synonym 'a cmp_func = "nat \<times> ('a option \<Rightarrow> 'a option \<Rightarrow> int)"

record 'a stack =
  stk_num :: u64
  stk_data :: "'a option list"
  stk_sorted :: bool
  stk_num_alloc :: u64
  stk_comp :: "'a cmp_func option"

type_synonym 'a stk_mem = "u64 \<Rightarrow> 'a option option"

definition kMinSize :: u64 where "kMinSize = 4"

definition sk_new :: "'a stk_mem \<Rightarrow> bool \<Rightarrow> 'a cmp_func option \<Rightarrow> 'a stack option" where
  "sk_new mem mem_stack cf = (if \<not> mem_stack then None
     else case mem (8 * kMinSize) of None \<Rightarrow> None
     | Some _ \<Rightarrow> Some \<lparr>stk_num = 0, stk_data = replicate (unat kMinSize) None, stk_sorted = False,
         stk_num_alloc = kMinSize, stk_comp = cf\<rparr>)"

definition sk_new_null :: "'a stk_mem \<Rightarrow> bool \<Rightarrow> 'a stack option" where
  "sk_new_null mem mem_stack = sk_new mem mem_stack None"

definition sk_num :: "'a stack option \<Rightarrow> u64" where
  "sk_num sk = (case sk of None \<Rightarrow> 0 | Some s \<Rightarrow> stk_num s)"

definition sk_zero :: "'a stack option \<Rightarrow> 'a stack option option" where
  "sk_zero sk = (case sk of None \<Rightarrow> Some None
     | Some s \<Rightarrow> if stk_num s = 0 then Some (Some s)
         else do { dat \<leftarrow> put (stk_data s) 0 (replicate (unat (stk_num s)) None);
                   Some (Some (s\<lparr>stk_data := dat, stk_num := 0, stk_sorted := False\<rparr>)) })"

definition slot :: "'a stack \<Rightarrow> u64 \<Rightarrow> 'a option option" where
  "slot s i = (if unat i < length (stk_data s) then Some (stk_data s ! unat i) else None)"

definition sk_value :: "'a stack option \<Rightarrow> u64 \<Rightarrow> 'a option option" where
  "sk_value sk i = (case sk of None \<Rightarrow> Some None
     | Some s \<Rightarrow> if i \<ge> stk_num s then Some None else slot s i)"

definition sk_set :: "'a stack option \<Rightarrow> u64 \<Rightarrow> 'a option \<Rightarrow> ('a option \<times> 'a stack option) option" where
  "sk_set sk i v = (case sk of None \<Rightarrow> Some (None, None)
     | Some s \<Rightarrow> if i \<ge> stk_num s then Some (None, Some s)
         else do { dat \<leftarrow> put (stk_data s) (unat i) [v]; Some (v, Some (s\<lparr>stk_data := dat\<rparr>)) })"

text \<open>The elements that are passed to the free function.\<close>

definition sk_pop_free_ex :: "'a stack option \<Rightarrow> 'a list option" where
  "sk_pop_free_ex sk = (case sk of None \<Rightarrow> Some []
     | Some s \<Rightarrow> if unat (stk_num s) \<le> length (stk_data s)
         then Some (List.map_filter id (take (unat (stk_num s)) (stk_data s))) else None)"

definition sk_pop_free :: "'a stack option \<Rightarrow> 'a list option" where
  "sk_pop_free sk = sk_pop_free_ex sk"

section \<open>Insertion and removal\<close>

text \<open>\<open>None\<close> is the failure of the growth, which leaves the stack as it is.\<close>

definition sk_grow :: "'a stk_mem \<Rightarrow> 'a stack \<Rightarrow> 'a stack option" where
  "sk_grow mem s = (
     let new_alloc = push_bit 1 (stk_num_alloc s); alloc_size = new_alloc * 8;
       (new_alloc, alloc_size) =
         (if new_alloc < stk_num_alloc s \<or> alloc_size div 8 \<noteq> new_alloc
          then (stk_num_alloc s + 1, (stk_num_alloc s + 1) * 8) else (new_alloc, alloc_size)) in
     if new_alloc < stk_num_alloc s \<or> alloc_size div 8 \<noteq> new_alloc then None
     else case mem alloc_size of None \<Rightarrow> None
     | Some fresh \<Rightarrow> Some (s\<lparr>stk_data := take (unat new_alloc) (stk_data s) @
         replicate (unat new_alloc - length (stk_data s)) fresh, stk_num_alloc := new_alloc\<rparr>))"

definition sk_insert :: "'a stk_mem \<Rightarrow> 'a stack option \<Rightarrow> 'a option \<Rightarrow> u64 \<Rightarrow> (u64 \<times> 'a stack option) option" where
  "sk_insert mem sk p whr = (case sk of None \<Rightarrow> Some (0, None)
     | Some s \<Rightarrow>
        (case (if stk_num_alloc s \<le> stk_num s + 1 then sk_grow mem s else Some s) of
           None \<Rightarrow> Some (0, Some s)
         | Some s \<Rightarrow> do {
             dat \<leftarrow> (if whr \<ge> stk_num s then put (stk_data s) (unat (stk_num s)) [p]
               else do {
                 dat \<leftarrow> put (stk_data s) (unat whr + 1) (take (unat (stk_num s - whr)) (drop (unat whr) (stk_data s)));
                 put dat (unat whr) [p] });
             Some (stk_num s + 1, Some (s\<lparr>stk_data := dat, stk_num := stk_num s + 1, stk_sorted := False\<rparr>)) }))"

definition sk_delete :: "'a stack option \<Rightarrow> u64 \<Rightarrow> ('a option \<times> 'a stack option) option" where
  "sk_delete sk whr = (case sk of None \<Rightarrow> Some (None, None)
     | Some s \<Rightarrow> if whr \<ge> stk_num s then Some (None, Some s)
       else do {
         r \<leftarrow> slot s whr;
         dat \<leftarrow> (if whr \<noteq> stk_num s - 1
           then put (stk_data s) (unat whr) (take (unat (stk_num s - whr - 1)) (drop (unat whr + 1) (stk_data s)))
           else Some (stk_data s));
         Some (r, Some (s\<lparr>stk_data := dat, stk_num := stk_num s - 1\<rparr>)) })"

text \<open>The first index below \<open>num\<close> whose element satisfies a condition; \<open>None\<close> is an access outside the array.\<close>

definition first_slot :: "'a stack \<Rightarrow> ('a option \<Rightarrow> bool) \<Rightarrow> u64 option option" where
  "first_slot s found = (if unat (stk_num s) \<le> length (stk_data s)
     then Some (map_option word_of_nat (List.find (\<lambda>i. found (stk_data s ! i)) [0..<unat (stk_num s)])) else None)"

definition sk_delete_ptr :: "'a stack option \<Rightarrow> 'a option \<Rightarrow> ('a option \<times> 'a stack option) option" where
  "sk_delete_ptr sk p = (case sk of None \<Rightarrow> Some (None, None)
     | Some s \<Rightarrow> do {
         i \<leftarrow> first_slot s (\<lambda>elem. elem = p);
         (case i of Some i \<Rightarrow> sk_delete sk i | None \<Rightarrow> Some (None, sk)) })"

definition sk_shift :: "'a stack option \<Rightarrow> ('a option \<times> 'a stack option) option" where
  "sk_shift sk = (case sk of None \<Rightarrow> Some (None, None)
     | Some s \<Rightarrow> if stk_num s = 0 then Some (None, sk) else sk_delete sk 0)"

definition sk_push :: "'a stk_mem \<Rightarrow> 'a stack option \<Rightarrow> 'a option \<Rightarrow> (u64 \<times> 'a stack option) option" where
  "sk_push mem sk p = sk_insert mem sk p (sk_num sk)"

definition sk_pop :: "'a stack option \<Rightarrow> ('a option \<times> 'a stack option) option" where
  "sk_pop sk = (case sk of None \<Rightarrow> Some (None, None)
     | Some s \<Rightarrow> if stk_num s = 0 then Some (None, sk) else sk_delete sk (stk_num s - 1))"

section \<open>Searching and sorting\<close>

definition sk_is_sorted :: "'a stack option \<Rightarrow> bool" where
  "sk_is_sorted sk = (case sk of None \<Rightarrow> True | Some s \<Rightarrow> stk_sorted s)"

text \<open>The binary search; the inner option is the index that was found.\<close>

function sk_search :: "'a stack \<Rightarrow> ('a option \<Rightarrow> int) \<Rightarrow> u64 \<Rightarrow> u64 \<Rightarrow> u64 option option" where
  "sk_search s cmp lo hi = (if lo < hi then
     let mid = lo + (hi - lo - 1) div 2 in
     if \<not> (lo \<le> mid \<and> mid < hi) then None
     else case slot s mid of None \<Rightarrow> None | Some elem \<Rightarrow>
       let r = cmp elem in
       if r > 0 then sk_search s cmp (mid + 1) hi
       else if r < 0 then sk_search s cmp lo mid
       else if hi - lo = 1 then Some (Some mid)
       else if \<not> mid + 1 < hi then None
       else sk_search s cmp lo (mid + 1)
     else if lo = hi then Some None else None)"
  by auto

lemma sk_mid:
  assumes "(lo :: u64) < hi"
  shows "unat (lo + (hi - lo - 1) div 2) = unat lo + (unat hi - unat lo - 1) div 2"
proof -
  have lh: "unat lo < unat hi" "unat hi < 2 ^ 64" using assms unat_u64_less [of hi] by (simp_all add: word_less_nat_alt)
  then have d: "unat (hi - lo) = unat hi - unat lo" using assms by (simp add: unat_sub word_le_nat_alt)
  then have "unat (hi - lo - 1) = unat hi - unat lo - 1" using lh by (subst unat_minus_one) auto
  then have "unat ((hi - lo - 1) div 2) = (unat hi - unat lo - 1) div 2" by (simp add: unat_div_distrib)
  then show ?thesis using lh by (simp add: unat_word_ariths)
qed

lemma unat_Suc_u64: "(x :: u64) < y \<Longrightarrow> unat (x + 1) = unat x + 1"
  using unat_u64_less [of y] by (simp add: word_less_nat_alt unat_word_ariths)

termination sk_search
proof (relation "measure (\<lambda>(s, cmp, lo, hi). unat hi - unat lo)", goal_cases)
  case (2 s cmp lo hi mid elem r)
  then show ?case using sk_mid [of lo hi] unat_Suc_u64 [of mid hi] by (simp add: word_less_nat_alt) arith
next
  case (3 s cmp lo hi mid elem r)
  then show ?case using sk_mid [of lo hi] by (simp add: word_less_nat_alt) arith
next
  case (4 s cmp lo hi mid elem r)
  then show ?case using sk_mid [of lo hi] unat_Suc_u64 [of mid hi] by (simp add: word_less_nat_alt)
qed simp

declare sk_search.simps [simp del]

definition sk_find :: "'a stack option \<Rightarrow> 'a option \<Rightarrow> u64 option option" where
  "sk_find sk p = (case sk of None \<Rightarrow> Some None
     | Some s \<Rightarrow> (case stk_comp s of
         None \<Rightarrow> first_slot s (\<lambda>elem. elem = p)
       | Some cf \<Rightarrow>
           if p = None then Some None
           else if \<not> sk_is_sorted sk then first_slot s (\<lambda>elem. snd cf p elem = 0)
           else sk_search s (snd cf p) 0 (stk_num s)))"

definition sk_sort :: "'a stack option \<Rightarrow> 'a stack option option" where
  "sk_sort sk = (case sk of None \<Rightarrow> Some None
     | Some s \<Rightarrow> (case stk_comp s of None \<Rightarrow> Some sk
       | Some cf \<Rightarrow>
           if stk_sorted s then Some sk
           else if stk_num s \<ge> 2 then do {
             dat \<leftarrow> put (stk_data s) 0 (qsort (snd cf) (take (unat (stk_num s)) (stk_data s)));
             Some (Some (s\<lparr>stk_data := dat, stk_sorted := True\<rparr>)) }
           else Some (Some (s\<lparr>stk_sorted := True\<rparr>))))"

definition sk_set_cmp_func :: "'a stack \<Rightarrow> 'a cmp_func option \<Rightarrow> 'a cmp_func option \<times> 'a stack" where
  "sk_set_cmp_func s cf = (stk_comp s,
     (if map_option fst (stk_comp s) \<noteq> map_option fst cf then s\<lparr>stk_sorted := False\<rparr> else s)\<lparr>stk_comp := cf\<rparr>)"

section \<open>Copies\<close>

text \<open>The inner option is the copy; the size of the new array is that of the old one.\<close>

definition sk_dup :: "'a stk_mem \<Rightarrow> bool \<Rightarrow> 'a stack option \<Rightarrow> 'a stack option option" where
  "sk_dup mem mem_stack sk = (case sk of None \<Rightarrow> Some None
     | Some s \<Rightarrow> (case sk_new mem mem_stack (stk_comp s) of None \<Rightarrow> Some None
       | Some dup \<Rightarrow> (case mem (8 * stk_num_alloc s) of None \<Rightarrow> Some None
         | Some fresh \<Rightarrow> do {
             dat \<leftarrow> put (take (unat (stk_num_alloc s)) (stk_data dup) @
               replicate (unat (stk_num_alloc s) - length (stk_data dup)) fresh) 0 (take (unat (stk_num s)) (stk_data s));
             Some (Some (dup\<lparr>stk_data := dat, stk_num := stk_num s, stk_sorted := stk_sorted s,
               stk_num_alloc := stk_num_alloc s, stk_comp := stk_comp s\<rparr>)) })))"

text \<open>
  The loop of the deep copy on the elements of the copy: the copied elements, or those that were
  copied before one failed, which are freed.
\<close>

fun copy_elements :: "('a \<Rightarrow> 'a option) \<Rightarrow> 'a option list \<Rightarrow> 'a option list \<Rightarrow> 'a list + 'a option list" where
  "copy_elements copy copied [] = Inr copied"
| "copy_elements copy copied (e # es) = (case e of None \<Rightarrow> copy_elements copy (copied @ [None]) es
     | Some x \<Rightarrow> (case copy x of
           None \<Rightarrow> Inl (List.map_filter id copied)
         | Some y \<Rightarrow> copy_elements copy (copied @ [Some y]) es))"

text \<open>The elements that were freed, and the copy.\<close>

definition sk_deep_copy ::
  "'a stk_mem \<Rightarrow> bool \<Rightarrow> ('a \<Rightarrow> 'a option) \<Rightarrow> 'a stack option \<Rightarrow> ('a list \<times> 'a stack option) option" where
  "sk_deep_copy mem mem_stack copy sk = do {
     dup \<leftarrow> sk_dup mem mem_stack sk;
     (case dup of None \<Rightarrow> Some ([], None)
      | Some dup \<Rightarrow> (case copy_elements copy [] (take (unat (stk_num dup)) (stk_data dup)) of
            Inl freed \<Rightarrow> Some (freed, None)
          | Inr es \<Rightarrow> do { dat \<leftarrow> put (stk_data dup) 0 es; Some ([], Some (dup\<lparr>stk_data := dat\<rparr>)) })) }"

end
