(* ===== verification/Stack_Spec.thy ===== *)
theory Stack_Spec
  imports Stack Compare
begin

text \<open>
  The growing array is memory-safe and refines a list; searching returns the first match, under the
  contract of comparison functions (\<open>comparison\<close>), and copying does not leak.
\<close>

section \<open>The list that a stack holds\<close>

definition elems :: "'a stack \<Rightarrow> 'a option list" where
  "elems s = take (unat (stk_num s)) (stk_data s)"

text \<open>There is always a free slot, and the size of the array in bytes is representable.\<close>

definition stk_ok :: "'a stack \<Rightarrow> bool" where
  "stk_ok s \<longleftrightarrow> length (stk_data s) = unat (stk_num_alloc s) \<and> unat (stk_num s) < unat (stk_num_alloc s) \<and>
     8 * unat (stk_num_alloc s) < 2 ^ 64"

lemma length_elems: "stk_ok s \<Longrightarrow> length (elems s) = unat (stk_num s)"
  by (simp add: stk_ok_def elems_def)

lemma stk_len: "stk_ok s \<Longrightarrow> unat (stk_num s) < length (stk_data s)"
  by (simp add: stk_ok_def)

lemma times_8_div:
  "(8 * n) div 8 = (n :: u64) \<longleftrightarrow> 8 * unat n < 2 ^ 64"
proof -
  have "unat ((8 * n) div 8) = (8 * unat n) mod 2 ^ 64 div 8"
    by (simp add: unat_div_distrib unat_word_ariths)
  also have "\<dots> = unat n \<longleftrightarrow> 8 * unat n < 2 ^ 64"
  proof
    assume e: "(8 * unat n) mod 2 ^ 64 div 8 = unat n"
    have "(8 * unat n) mod 2 ^ 64 < 2 ^ 64" by simp
    then have "(8 * unat n) mod 2 ^ 64 div 8 < 2 ^ 61" by simp
    then show "8 * unat n < 2 ^ 64" using e by simp
  qed simp
  finally show ?thesis by (simp add: word_unat_eq_iff)
qed

lemma grow_ok:
  assumes s: "stk_ok s" and g: "sk_grow mem s = Some t"
  shows "unat (stk_num_alloc s) < unat (stk_num_alloc t)" "length (stk_data t) = unat (stk_num_alloc t)"
    "8 * unat (stk_num_alloc t) < 2 ^ 64" "take (unat (stk_num s)) (stk_data t) = elems s"
    "stk_num t = stk_num s" "stk_comp t = stk_comp s" "stk_sorted t = stk_sorted s"
proof -
  let ?a = "stk_num_alloc s"
  have a: "8 * unat ?a < 2 ^ 64" "0 < unat ?a" using s by (auto simp: stk_ok_def)
  have p: "unat (push_bit 1 ?a) = 2 * unat ?a" using a by (simp add: push_bit_eq_mult unat_word_ariths)
  have i: "unat (?a + 1) = unat ?a + 1" using a by (simp add: unat_word_ariths)
  define new where "new = (if push_bit 1 ?a < ?a \<or> push_bit 1 ?a * 8 div 8 \<noteq> push_bit 1 ?a then ?a + 1 else push_bit 1 ?a)"
  have "sk_grow mem s = (if new < ?a \<or> new * 8 div 8 \<noteq> new then None else case mem (new * 8) of None \<Rightarrow> None
     | Some fresh \<Rightarrow> Some (s\<lparr>stk_data := take (unat new) (stk_data s) @ replicate (unat new - length (stk_data s)) fresh, stk_num_alloc := new\<rparr>))"
    unfolding sk_grow_def Let_def new_def by (cases "push_bit 1 ?a < ?a \<or> push_bit 1 ?a * 8 div 8 \<noteq> push_bit 1 ?a") (simp_all only: if_True if_False prod.case simp_thms)
  then obtain fresh where n: "new * 8 div 8 = new"
    and t: "t = s\<lparr>stk_data := take (unat new) (stk_data s) @ replicate (unat new - length (stk_data s)) fresh, stk_num_alloc := new\<rparr>"
    using g by (auto split: if_splits option.splits)
  have "8 * new div 8 = new" using n by (simp only: mult.commute)
  then have n: "8 * unat new < 2 ^ 64" by (simp only: times_8_div)
  have new: "unat ?a < unat new" unfolding new_def using p i a by auto
  show "unat ?a < unat (stk_num_alloc t)" "length (stk_data t) = unat (stk_num_alloc t)" "8 * unat (stk_num_alloc t) < 2 ^ 64"
    "take (unat (stk_num s)) (stk_data t) = elems s"
    "stk_num t = stk_num s" "stk_comp t = stk_comp s" "stk_sorted t = stk_sorted s"
    using new n s by (simp_all add: t stk_ok_def elems_def)
qed

lemma grow_fails:
  assumes s: "stk_ok s" and g: "sk_grow mem s = None"
  shows "mem (16 * stk_num_alloc s) = None \<or> mem (8 * (stk_num_alloc s + 1)) = None \<or> unat (stk_num_alloc s) + 1 = 2 ^ 61"
proof (rule ccontr)
  let ?a = "stk_num_alloc s"
  assume n: "\<not> ?thesis"
  have a: "8 * unat ?a < 2 ^ 64" "0 < unat ?a" using s by (auto simp: stk_ok_def)
  have i: "unat (?a + 1) = unat ?a + 1" using a by (simp add: unat_word_ariths)
  have "8 * unat (?a + 1) < 2 ^ 64" using n a i by simp
  then have m: "(?a + 1) * 8 div 8 = ?a + 1" unfolding times_8_div [symmetric] by (simp only: mult.commute)
  have "\<not> ?a + 1 < ?a" using i by (simp add: word_less_nat_alt)
  moreover have "mem ((?a + 1) * 8) \<noteq> None" "mem (push_bit 1 ?a * 8) \<noteq> None"
    using n by (simp_all add: mult.commute push_bit_eq_mult mult.assoc)
  ultimately show False
    using g m unfolding sk_grow_def Let_def
    by (cases "push_bit 1 ?a < ?a \<or> push_bit 1 ?a * 8 div 8 \<noteq> push_bit 1 ?a")
      (simp_all only: if_True if_False prod.case simp_thms de_Morgan_disj, auto)
qed

text \<open>Storing at the end, in front of an element, and closing a gap.\<close>

lemma put_end:
  "n < length dat \<Longrightarrow> \<exists>dat'. put dat n [p] = Some dat' \<and> length dat' = length dat \<and> take (n + 1) dat' = take n dat @ [p]"
  using put_Some [of n "[p]" dat] take_put [of dat n "[p]"] length_put [of dat n "[p]"] by fastforce

lemma put_gap:
  assumes "n < length dat" "w < n"
  shows "\<exists>dat' dat''. put dat (w + 1) (take (n - w) (drop w dat)) = Some dat' \<and> put dat' w [p] = Some dat'' \<and>
    length dat'' = length dat \<and> take (n + 1) dat'' = take w dat @ p # drop w (take n dat)"
proof -
  let ?m = "take (n - w) (drop w dat)"
  have l: "length ?m = n - w" using assms by simp
  have p1: "put dat (w + 1) ?m = Some (take (w + 1) dat @ ?m @ drop (n + 1) dat)" using assms by (simp add: put_def)
  have t: "take (w + 1) dat = take w dat @ [dat ! w]" using assms by (simp add: take_Suc_conv_app_nth)
  have "put (take (w + 1) dat @ ?m @ drop (n + 1) dat) w [p] = Some (take w dat @ p # ?m @ drop (n + 1) dat)"
    unfolding t append_assoc by (subst put_prefix') (use assms in simp_all)
  moreover have "length (take w dat @ p # ?m @ drop (n + 1) dat) = length dat" using assms by simp
  moreover have "take (n + 1) (take w dat @ p # ?m @ drop (n + 1) dat) = take w dat @ p # drop w (take n dat)"
  proof -
    have "length (take w dat @ p # ?m) = n + 1" using assms by simp
    then have "take (n + 1) ((take w dat @ p # ?m) @ drop (n + 1) dat) = take w dat @ p # ?m" by (metis append_eq_conv_conj)
    then show ?thesis by (simp add: drop_take)
  qed
  ultimately show ?thesis using p1 by blast
qed

lemma put_close:
  assumes "n \<le> length dat" "w < n"
  shows "\<exists>dat'. put dat w (take (n - w - 1) (drop (w + 1) dat)) = Some dat' \<and> length dat' = length dat \<and>
    take (n - 1) dat' = take w (take n dat) @ drop (w + 1) (take n dat)"
proof -
  let ?m = "take (n - w - 1) (drop (w + 1) dat)"
  have l: "length ?m = n - w - 1" using assms by simp
  have p: "put dat w ?m = Some (take w dat @ ?m @ drop (n - 1) dat)" using assms by (simp add: put_def)
  have f: "take (n - 1) (take w dat @ ?m @ drop (n - 1) dat) = take w dat @ ?m" using assms by simp
  have t: "take w (take n dat) = take w dat" "drop (w + 1) (take n dat) = ?m" using assms by (simp_all add: min_def drop_take)
  show ?thesis unfolding t using p length_put [OF p] f by blast
qed

section \<open>The operations on the list\<close>

lemma insert_room:
  assumes s: "stk_ok s" and room: "length (stk_data t) = unat (stk_num_alloc t)" "unat (stk_num s) + 1 < unat (stk_num_alloc t)"
    "8 * unat (stk_num_alloc t) < 2 ^ 64" "take (unat (stk_num s)) (stk_data t) = elems s" "stk_num t = stk_num s"
  shows "\<exists>dat. (if whr \<ge> stk_num t then put (stk_data t) (unat (stk_num t)) [p]
        else do { dat \<leftarrow> put (stk_data t) (unat whr + 1) (take (unat (stk_num t - whr)) (drop (unat whr) (stk_data t)));
                  put dat (unat whr) [p] }) = Some dat \<and>
      length dat = unat (stk_num_alloc t) \<and> take (unat (stk_num s) + 1) dat = take (unat whr) (elems s) @ p # drop (unat whr) (elems s)"
proof (cases "whr \<ge> stk_num s")
  case True
  have l: "length (elems s) \<le> unat whr" using True s by (simp add: length_elems word_le_nat_alt)
  obtain dat where "put (stk_data t) (unat (stk_num t)) [p] = Some dat" "length dat = length (stk_data t)"
    "take (unat (stk_num t) + 1) dat = take (unat (stk_num t)) (stk_data t) @ [p]"
    using put_end [of "unat (stk_num t)" "stk_data t" p] room by auto
  then show ?thesis using True l room by simp
next
  case False
  then have w: "unat whr < unat (stk_num s)" "unat (stk_num s - whr) = unat (stk_num s) - unat whr"
    by (simp_all add: word_le_nat_alt unat_sub)
  have n: "unat (stk_num s) < length (stk_data t)" using room by simp
  obtain dat' dat where "put (stk_data t) (unat whr + 1) (take (unat (stk_num s) - unat whr) (drop (unat whr) (stk_data t))) = Some dat'"
    "put dat' (unat whr) [p] = Some dat" "length dat = length (stk_data t)"
    "take (unat (stk_num s) + 1) dat = take (unat whr) (stk_data t) @ p # drop (unat whr) (take (unat (stk_num s)) (stk_data t))"
    using put_gap [OF n w(1), of p] by blast
  moreover have "take (unat whr) (stk_data t) = take (unat whr) (elems s)"
    unfolding room(4) [symmetric] using w(1) by (simp add: min_def)
  ultimately show ?thesis using False room(1,4,5) w(2) by simp
qed

lemma insert_ok:
  assumes s: "stk_ok s"
  shows "\<exists>r s'. sk_insert mem (Some s) p whr = Some (r, Some s') \<and> stk_ok s' \<and> stk_comp s' = stk_comp s \<and>
    (if r = 0 then s' = s \<and> sk_grow mem s = None
     else unat r = length (elems s) + 1 \<and> elems s' = take (unat whr) (elems s) @ p # drop (unat whr) (elems s) \<and> \<not> stk_sorted s')"
proof -
  have n: "unat (stk_num s + 1) = unat (stk_num s) + 1" using s by (simp add: stk_ok_def unat_word_ariths)
  have go: ?thesis if t: "(if stk_num_alloc s \<le> stk_num s + 1 then sk_grow mem s else Some s) = Some t"
    and room: "length (stk_data t) = unat (stk_num_alloc t)" "unat (stk_num s) + 1 < unat (stk_num_alloc t)"
    "8 * unat (stk_num_alloc t) < 2 ^ 64" "take (unat (stk_num s)) (stk_data t) = elems s" "stk_num t = stk_num s" "stk_comp t = stk_comp s"
    for t
  proof -
    obtain dat where dat: "(if whr \<ge> stk_num t then put (stk_data t) (unat (stk_num t)) [p]
        else do { dat \<leftarrow> put (stk_data t) (unat whr + 1) (take (unat (stk_num t - whr)) (drop (unat whr) (stk_data t)));
                  put dat (unat whr) [p] }) = Some dat"
      "length dat = unat (stk_num_alloc t)" "take (unat (stk_num s) + 1) dat = take (unat whr) (elems s) @ p # drop (unat whr) (elems s)"
      using insert_room [OF s room(1-5), of whr p] by blast
    let ?s' = "t\<lparr>stk_data := dat, stk_num := stk_num t + 1, stk_sorted := False\<rparr>"
    have "sk_insert mem (Some s) p whr = Some (stk_num t + 1, Some ?s')"
      unfolding sk_insert_def option.case t dat(1) by simp
    moreover have "stk_ok ?s'" using room(2,3,5) dat(2) n by (simp add: stk_ok_def)
    moreover have "elems ?s' = take (unat whr) (elems s) @ p # drop (unat whr) (elems s)"
      using dat(3) room(5) n by (simp add: elems_def)
    moreover have "stk_num t + 1 \<noteq> 0" using n room(5) by (metis Suc_eq_plus1 unat_0 Zero_not_Suc)
    ultimately show ?thesis using n room(5,6) s by (simp add: length_elems)
  qed
  show ?thesis
  proof (cases "stk_num_alloc s \<le> stk_num s + 1")
    case False
    then show ?thesis using go [of s] s n by (simp add: stk_ok_def elems_def word_le_nat_alt)
  next
    case True
    show ?thesis
    proof (cases "sk_grow mem s")
      case None
      then have "sk_insert mem (Some s) p whr = Some (0, Some s)" using True by (simp add: sk_insert_def)
      then show ?thesis using s None by auto
    next
      case (Some t)
      note g = grow_ok [OF s Some]
      show ?thesis using go [of t] True Some g s n by (simp add: stk_ok_def)
    qed
  qed
qed

lemma slot_ok:
  assumes "stk_ok s" "i < stk_num s"
  shows "slot s i = Some (elems s ! unat i)"
  using assms by (simp add: slot_def stk_ok_def elems_def word_less_nat_alt)

lemma value_ok: "stk_ok s \<Longrightarrow> sk_value (Some s) i = Some (if unat i < length (elems s) then elems s ! unat i else None)"
  using slot_ok [of s i] by (simp add: sk_value_def length_elems word_le_nat_alt word_less_nat_alt)

lemma set_ok:
  assumes s: "stk_ok s"
  obtains s' where "sk_set (Some s) i v = Some (if unat i < length (elems s) then v else None, Some s')" "stk_ok s'"
    "stk_comp s' = stk_comp s" "stk_sorted s' = stk_sorted s" "elems s' = (elems s)[unat i := v]"
proof (cases "unat i < length (elems s)")
  case False
  then have "(elems s)[unat i := v] = elems s" by (simp add: list_update_beyond)
  with False show ?thesis using s that [of s] by (simp add: sk_set_def length_elems word_le_nat_alt)
next
  case True
  then have i: "unat i < unat (stk_num s)" using s by (simp add: length_elems)
  then have "unat i < length (stk_data s)" using stk_len [OF s] by simp
  then have p: "put (stk_data s) (unat i) [v] = Some ((stk_data s)[unat i := v])"
    by (simp add: put_def upd_conv_take_nth_drop)
  have "sk_set (Some s) i v = Some (v, Some (s\<lparr>stk_data := (stk_data s)[unat i := v]\<rparr>))"
    using i p by (simp add: sk_set_def word_le_nat_alt)
  then show ?thesis
    using that [of "s\<lparr>stk_data := (stk_data s)[unat i := v]\<rparr>"] True s by (simp add: stk_ok_def elems_def take_update_swap)
qed

lemma delete_ok:
  assumes s: "stk_ok s"
  obtains s' where "sk_delete (Some s) i = Some (if unat i < length (elems s) then elems s ! unat i else None, Some s')" "stk_ok s'"
    "stk_comp s' = stk_comp s" "stk_sorted s' = stk_sorted s" "elems s' = take (unat i) (elems s) @ drop (unat i + 1) (elems s)"
proof (cases "unat i < length (elems s)")
  case False
  then show ?thesis using s that [of s] by (simp add: sk_delete_def length_elems word_le_nat_alt)
next
  case True
  then have i: "unat i < unat (stk_num s)" using s by (simp add: length_elems)
  have n1: "unat (stk_num s - 1) = unat (stk_num s) - 1" using i by (subst unat_minus_one) auto
  have d: "unat (stk_num s - i - 1) = unat (stk_num s) - unat i - 1"
    using i by (subst unat_minus_one) (auto simp: unat_sub word_le_nat_alt)
  have last: "i = stk_num s - 1 \<longleftrightarrow> unat i = unat (stk_num s) - 1" using n1 by (simp add: word_unat_eq_iff)
  obtain dat where p: "(if i \<noteq> stk_num s - 1
           then put (stk_data s) (unat i) (take (unat (stk_num s - i - 1)) (drop (unat i + 1) (stk_data s)))
           else Some (stk_data s)) = Some dat"
    "length dat = length (stk_data s)" "take (unat (stk_num s) - 1) dat = take (unat i) (elems s) @ drop (unat i + 1) (elems s)"
  proof (cases "i = stk_num s - 1")
    case True
    then show ?thesis using that [of "stk_data s"] i last by (simp add: elems_def min_def)
  next
    case False
    have "unat (stk_num s) \<le> length (stk_data s)" using stk_len [OF s] by simp
    from put_close [OF this i] that False d show ?thesis by (auto simp: elems_def)
  qed
  let ?s' = "s\<lparr>stk_data := dat, stk_num := stk_num s - 1\<rparr>"
  have "sk_delete (Some s) i = Some (elems s ! unat i, Some ?s')"
    using p(1) slot_ok [OF s, of i] i by (simp add: sk_delete_def word_le_nat_alt word_less_nat_alt)
  moreover have "stk_ok ?s'" using s p(2) n1 i unfolding stk_ok_def by simp linarith
  ultimately show ?thesis using that [of ?s'] True p(3) n1 by (simp add: elems_def)
qed

lemma zero_ok:
  assumes s: "stk_ok s"
  obtains s' where "sk_zero (Some s) = Some (Some s')" "stk_ok s'" "stk_comp s' = stk_comp s" "elems s' = []"
proof (cases "stk_num s = 0")
  case True
  then show ?thesis using that [of s] s by (simp add: sk_zero_def elems_def)
next
  case False
  have "unat (stk_num s) \<le> length (stk_data s)" using stk_len [OF s] by simp
  then obtain dat where p: "put (stk_data s) 0 (replicate (unat (stk_num s)) None) = Some dat"
    using put_Some [of 0 "replicate (unat (stk_num s)) None" "stk_data s"] by auto
  then show ?thesis
    using that [of "s\<lparr>stk_data := dat, stk_num := 0, stk_sorted := False\<rparr>"] False s length_put [OF p]
    by (simp add: sk_zero_def stk_ok_def elems_def)
qed

text \<open>The first index of a list with a property.\<close>

definition first_index :: "('a \<Rightarrow> bool) \<Rightarrow> 'a list \<Rightarrow> nat option" where
  "first_index P xs = List.find (\<lambda>i. P (xs ! i)) [0..<length xs]"

lemma first_slot_ok: "stk_ok s \<Longrightarrow> first_slot s P = Some (map_option word_of_nat (first_index P (elems s)))"
proof -
  assume s: "stk_ok s"
  have "List.find (\<lambda>i. P (stk_data s ! i)) xs = List.find (\<lambda>i. P (elems s ! i)) xs" if "\<forall>i \<in> set xs. i < unat (stk_num s)" for xs
    using that by (induction xs) (simp_all add: elems_def)
  then show ?thesis
    using s stk_len [OF s] by (simp add: first_slot_def first_index_def length_elems)
qed

lemma first_index_Some:
  "first_index P xs = Some i \<longleftrightarrow> i < length xs \<and> P (xs ! i) \<and> (\<forall>j < i. \<not> P (xs ! j))"
  unfolding first_index_def by (auto simp: find_Some_iff)

lemma first_index_None: "first_index P xs = None \<longleftrightarrow> (\<forall>x \<in> set xs. \<not> P x)"
  unfolding first_index_def by (auto simp: find_None_iff) (metis in_set_conv_nth)

section \<open>The binary search\<close>

lemma sorted_below:
  assumes c: "comparison valid cmp" and v: "\<forall>e \<in> set es. valid e" "valid p" and so: "cmp_sorted cmp es"
    and m: "m < length es" "0 < cmp p (es ! m)" "i \<le> m"
  shows "0 < cmp p (es ! i)"
proof -
  have vs: "valid (es ! i)" "valid (es ! m)" using v(1) m nth_mem by (metis le_less_trans)+
  have "cmp (es ! i) (es ! m) \<le> 0"
    using so m comparison.refl [OF c vs(1)] by (cases "i = m") (auto simp: sorted_wrt_iff_nth_less)
  moreover have "cmp (es ! m) p < 0" using comparison.swap [OF c vs(2) v(2)] m(2) by simp
  ultimately have "cmp (es ! i) p < 0" by (rule comparison.less_trans [OF c vs(1,2) v(2)])
  then show ?thesis using comparison.swap [OF c vs(1) v(2)] by simp
qed

lemma sorted_above:
  assumes c: "comparison valid cmp" and v: "\<forall>e \<in> set es. valid e" "valid p" and so: "cmp_sorted cmp es"
    and m: "i < length es" "cmp p (es ! m) < 0" "m \<le> i"
  shows "cmp p (es ! i) < 0"
proof -
  have vs: "valid (es ! i)" "valid (es ! m)" using v(1) m nth_mem by (metis le_less_trans)+
  have "cmp (es ! m) (es ! i) \<le> 0"
    using so m comparison.refl [OF c vs(1)] by (cases "i = m") (auto simp: sorted_wrt_iff_nth_less)
  with m(2) show ?thesis by (rule comparison.trans_less [OF c v(2) vs(2,1)])
qed

lemma search_first:
  assumes c: "comparison valid cmp" and s: "stk_ok s" and v: "\<forall>e \<in> set (elems s). valid e" "valid p"
    and so: "cmp_sorted cmp (elems s)"
    and inv: "unat lo \<le> unat hi" "unat hi \<le> length (elems s)" "\<forall>i < unat lo. 0 < cmp p (elems s ! i)"
      "(\<forall>i < length (elems s). unat hi \<le> i \<longrightarrow> cmp p (elems s ! i) < 0) \<or> lo < hi \<and> cmp p (elems s ! (unat hi - 1)) = 0"
  shows "sk_search s (cmp p) lo hi = Some (map_option word_of_nat (first_index (\<lambda>e. cmp p e = 0) (elems s)))"
  using inv
proof (induction "unat hi - unat lo" arbitrary: lo hi rule: less_induct)
  case less
  let ?es = "elems s" and ?P = "\<lambda>e. cmp p e = 0"
  show ?case
  proof (cases "lo < hi")
    case False
    then have e: "lo = hi" using less.prems(1) by (simp add: word_less_nat_alt word_unat_eq_iff)
    have "cmp p (?es ! i) \<noteq> 0" if "i < length ?es" for i
      using less.prems(3,4) that e by (cases "i < unat lo") auto
    then have "first_index ?P ?es = None" by (auto simp: first_index_None in_set_conv_nth)
    then show ?thesis using e by (simp add: sk_search.simps [of s "cmp p" hi hi])
  next
    case True
    let ?mid = "lo + (hi - lo - 1) div 2"
    have lh: "unat lo < unat hi" using True by (simp add: word_less_nat_alt)
    note m = sk_mid [OF True]
    have mh: "unat lo \<le> unat ?mid" "unat ?mid < unat hi" using lh unfolding m by auto
    then have mid: "lo \<le> ?mid" "?mid < hi" by (simp_all add: word_le_nat_alt word_less_nat_alt)
    have ml: "unat ?mid < length ?es" using mh less.prems(2) by simp
    then have sl: "slot s ?mid = Some (?es ! unat ?mid)" using s by (intro slot_ok) (simp_all add: length_elems word_less_nat_alt)
    have m1: "unat (?mid + 1) = unat ?mid + 1" by (rule unat_Suc_u64 [OF mid(2)])
    let ?r = "cmp p (?es ! unat ?mid)"
    have unfold: "sk_search s (cmp p) lo hi = (if ?r > 0 then sk_search s (cmp p) (?mid + 1) hi
       else if ?r < 0 then sk_search s (cmp p) lo ?mid
       else if hi - lo = 1 then Some (Some ?mid)
       else if \<not> ?mid + 1 < hi then None else sk_search s (cmp p) lo (?mid + 1))"
      by (subst sk_search.simps) (simp only: True mid sl if_True Let_def option.case not_True_eq_False if_False simp_thms)
    consider (gt) "?r > 0" | (lt) "?r < 0" | (eq) "?r = 0" by linarith
    then show ?thesis
    proof cases
      case gt
      have low: "\<forall>i < unat (?mid + 1). 0 < cmp p (?es ! i)"
        using sorted_below [OF c v so ml gt] m1 by simp
      have high: "(\<forall>i < length ?es. unat hi \<le> i \<longrightarrow> cmp p (?es ! i) < 0) \<or> ?mid + 1 < hi \<and> cmp p (?es ! (unat hi - 1)) = 0"
      proof (cases "cmp p (?es ! (unat hi - 1)) = 0")
        case True
        then have "unat ?mid \<noteq> unat hi - 1" using gt by auto
        then have "unat (?mid + 1) < unat hi" using mh m1 by linarith
        then show ?thesis using True by (simp add: word_less_nat_alt)
      qed (use less.prems(4) in blast)
      show ?thesis unfolding unfold using gt less.hyps [OF _ _ less.prems(2) low high] mh m1 lh by simp
    next
      case lt
      have "\<forall>i < length ?es. unat ?mid \<le> i \<longrightarrow> cmp p (?es ! i) < 0" using sorted_above [OF c v so _ lt] by blast
      then have "sk_search s (cmp p) lo ?mid = Some (map_option word_of_nat (first_index ?P ?es))"
        using less.hyps [of ?mid lo] less.prems(3) mh ml by simp
      then show ?thesis unfolding unfold using lt by (simp only: if_True if_False not_less_iff_gr_or_eq refl) simp
    next
      case eq
      show ?thesis
      proof (cases "hi - lo = 1")
        case True
        have "unat (hi - lo) = unat hi - unat lo" using lh by (simp add: unat_sub word_le_nat_alt)
        then have "unat ?mid = unat lo" using True mh by simp
        then have "first_index ?P ?es = Some (unat ?mid)" using eq ml less.prems(3) by (auto simp: first_index_Some)
        then show ?thesis unfolding unfold using eq True by simp
      next
        case False
        have "unat (hi - lo) = unat hi - unat lo" using lh by (simp add: unat_sub word_le_nat_alt)
        then have "unat hi - unat lo \<noteq> 1" using False by (metis unat_1 word_unat_eq_iff)
        then have gap: "unat ?mid + 1 < unat hi" using lh unfolding m by arith
        have "lo < ?mid + 1 \<and> cmp p (?es ! (unat (?mid + 1) - 1)) = 0" using eq mh m1 by (simp add: word_less_nat_alt)
        then show ?thesis
          unfolding unfold using eq False gap m1 less.hyps [of "?mid + 1" lo] less.prems(3) mh ml by (simp add: word_less_nat_alt)
      qed
    qed
  qed
qed

section \<open>Sorting and copying\<close>

lemma sort_ok:
  assumes s: "stk_ok s"
  obtains s' where "sk_sort (Some s) = Some (Some s')" "stk_ok s'" "stk_comp s' = stk_comp s"
    "case stk_comp s of None \<Rightarrow> s' = s | Some cf \<Rightarrow> stk_sorted s' \<and>
       elems s' = (if stk_sorted s then elems s else if length (elems s) \<ge> 2 then qsort (snd cf) (elems s) else elems s)"
proof (cases "stk_comp s")
  case None
  then show ?thesis using that [of s] s by (simp add: sk_sort_def)
next
  case (Some cf)
  have n: "unat (stk_num s) \<le> length (stk_data s)" using stk_len [OF s] by simp
  have two: "stk_num s \<ge> 2 \<longleftrightarrow> length (elems s) \<ge> 2" using s by (simp add: length_elems word_le_nat_alt)
  show ?thesis
  proof (cases "stk_sorted s \<or> length (elems s) < 2")
    case True
    then show ?thesis using that [of "s\<lparr>stk_sorted := True\<rparr>"] s Some two
      by (cases "stk_sorted s") (simp_all add: sk_sort_def stk_ok_def elems_def)
  next
    case False
    obtain dat where p: "put (stk_data s) 0 (qsort (snd cf) (elems s)) = Some dat"
      using put_Some [of 0 "qsort (snd cf) (elems s)" "stk_data s"] n s by (auto simp: length_elems)
    have t: "take (unat (stk_num s)) dat = qsort (snd cf) (elems s)" using take_put [OF p] s by (simp add: length_elems)
    show ?thesis
      using that [of "s\<lparr>stk_data := dat, stk_sorted := True\<rparr>"] s Some two False p length_put [OF p] t
      by (simp add: sk_sort_def stk_ok_def) (simp add: elems_def)
  qed
qed

lemma new_ok: "sk_new mem ms cf = Some s \<Longrightarrow> stk_ok s \<and> elems s = [] \<and> stk_comp s = cf \<and> \<not> stk_sorted s"
  by (auto simp: sk_new_def stk_ok_def elems_def kMinSize_def split: if_splits option.splits)

lemma dup_ok:
  assumes s: "stk_ok s"
  shows "sk_dup mem ms (Some s) = Some None \<or> (\<exists>t. sk_dup mem ms (Some s) = Some (Some t) \<and> stk_ok t \<and> elems t = elems s \<and>
    stk_comp t = stk_comp s \<and> stk_sorted t = stk_sorted s)"
proof (cases "sk_new mem ms (stk_comp s)")
  case None
  then show ?thesis by (simp add: sk_dup_def)
next
  case (Some u)
  show ?thesis
  proof (cases "mem (8 * stk_num_alloc s)")
    case None
    then show ?thesis using Some by (simp add: sk_dup_def)
  next
    case fr: (Some fresh)
    let ?a = "unat (stk_num_alloc s)"
    let ?d = "take ?a (stk_data u) @ replicate (?a - length (stk_data u)) fresh"
    have l: "length ?d = ?a" by simp
    then have "unat (stk_num s) \<le> length ?d" using s by (simp add: stk_ok_def)
    then obtain dat where p: "put ?d 0 (elems s) = Some dat" using put_Some [of 0 "elems s" ?d] s by (auto simp: length_elems)
    let ?t = "u\<lparr>stk_data := dat, stk_num := stk_num s, stk_sorted := stk_sorted s, stk_num_alloc := stk_num_alloc s, stk_comp := stk_comp s\<rparr>"
    have "sk_dup mem ms (Some s) = Some (Some ?t)" using Some fr p by (simp add: sk_dup_def elems_def)
    moreover have "stk_ok ?t" using s length_put [OF p] l by (simp add: stk_ok_def)
    moreover have "elems ?t = elems s" using take_put [OF p] s by (simp add: length_elems) (simp add: elems_def)
    ultimately show ?thesis by auto
  qed
qed

lemma copy_elements_iff:
  "copy_elements copy done es = (if \<exists>x. Some x \<in> set es \<and> copy x = None
     then Inl (List.map_filter id (done @ map (\<lambda>e. Option.bind e copy) (takeWhile (\<lambda>e. \<forall>x. e = Some x \<longrightarrow> copy x \<noteq> None) es)))
     else Inr (done @ map (\<lambda>e. Option.bind e copy) es))"
proof (induction es arbitrary: "done")
  case (Cons e es)
  show ?case
  proof (cases e)
    case None
    then show ?thesis using Cons.IH [of "done @ [None]"] by (simp add: id_def)
  next
    case (Some x)
    then show ?thesis using Cons.IH [of "done @ [copy x]"] by (cases "copy x") (auto simp: id_def)
  qed
qed simp

section \<open>Runs\<close>

text \<open>
  The stacks that a client reaches, each with the list that it stands for. A function at an address is
  always the same one, and it orders the elements. \<open>sk_set\<close> is only used on a stack that is not marked
  as sorted: it does not clear the mark (\<open>sk_set_keeps_mark\<close>).
\<close>

definition cmp_ok :: "('a option \<Rightarrow> bool) \<Rightarrow> (nat \<Rightarrow> 'a option \<Rightarrow> 'a option \<Rightarrow> int) \<Rightarrow> 'a cmp_func option \<Rightarrow> bool" where
  "cmp_ok valid code cf \<longleftrightarrow> (case cf of None \<Rightarrow> True | Some (a, f) \<Rightarrow> f = code a \<and> comparison valid f)"

inductive sk_run :: "('a option \<Rightarrow> bool) \<Rightarrow> (nat \<Rightarrow> 'a option \<Rightarrow> 'a option \<Rightarrow> int) \<Rightarrow> 'a stack \<Rightarrow> 'a option list \<Rightarrow> bool"
  for valid code where
  run_sk_new: "sk_new mem ms cf = Some s \<Longrightarrow> cmp_ok valid code cf \<Longrightarrow> sk_run valid code s []"
| run_sk_insert: "sk_run valid code s xs \<Longrightarrow> valid p \<Longrightarrow> sk_insert mem (Some s) p i = Some (r, Some s') \<Longrightarrow>
    sk_run valid code s' (if r = 0 then xs else take (unat i) xs @ p # drop (unat i) xs)"
| run_sk_delete: "sk_run valid code s xs \<Longrightarrow> sk_delete (Some s) i = Some (e, Some s') \<Longrightarrow>
    sk_run valid code s' (take (unat i) xs @ drop (unat i + 1) xs)"
| run_sk_set: "sk_run valid code s xs \<Longrightarrow> valid v \<Longrightarrow> \<not> stk_sorted s \<Longrightarrow> sk_set (Some s) i v = Some (r, Some s') \<Longrightarrow>
    sk_run valid code s' (xs[unat i := v])"
| run_sk_zero: "sk_run valid code s xs \<Longrightarrow> sk_zero (Some s) = Some (Some s') \<Longrightarrow> sk_run valid code s' []"
| run_sk_sort: "sk_run valid code s xs \<Longrightarrow> sk_sort (Some s) = Some (Some s') \<Longrightarrow>
    sk_run valid code s' (case stk_comp s of None \<Rightarrow> xs | Some cf \<Rightarrow> qsort (snd cf) xs)"
| run_sk_cmp: "sk_run valid code s xs \<Longrightarrow> cmp_ok valid code cf \<Longrightarrow> sk_set_cmp_func s cf = (old, s') \<Longrightarrow> sk_run valid code s' xs"

definition mark_ok :: "'a stack \<Rightarrow> bool" where
  "mark_ok s \<longleftrightarrow> (case stk_comp s of None \<Rightarrow> True | Some cf \<Rightarrow> stk_sorted s \<longrightarrow> cmp_sorted (snd cf) (elems s))"

lemma qsort_same: "cmp_sorted cmp xs \<Longrightarrow> qsort cmp xs = xs"
proof (induction xs)
  case (Cons x xs)
  then show ?case by (cases xs) (simp_all add: qsort_def)
qed (simp add: qsort_def)

lemma qsort_short: "length xs < 2 \<Longrightarrow> qsort cmp xs = xs"
  by (cases xs) (auto simp: qsort_def)

lemma run_list:
  "sk_run valid code s xs \<Longrightarrow> stk_ok s \<and> elems s = xs \<and> (\<forall>x \<in> set xs. valid x) \<and> cmp_ok valid code (stk_comp s) \<and> mark_ok s"
proof (induction rule: sk_run.induct)
  case (run_sk_new mem ms cf s)
  then show ?case using new_ok [OF run_sk_new(1)] by (auto simp: mark_ok_def split: option.split)
next
  case (run_sk_insert s xs p mem i r s')
  then show ?case
    using insert_ok [of s mem p i] by (auto simp: mark_ok_def split: if_splits option.splits dest: in_set_takeD in_set_dropD)
next
  case (run_sk_delete s xs i e s')
  then obtain s1 where "sk_delete (Some s) i = Some (if unat i < length (elems s) then elems s ! unat i else None, Some s1)" "stk_ok s1"
    "stk_comp s1 = stk_comp s" "stk_sorted s1 = stk_sorted s" "elems s1 = take (unat i) (elems s) @ drop (unat i + 1) (elems s)"
    using delete_ok [of s i] by metis
  moreover have "cmp_sorted f (take (unat i) ys @ drop (unat i + 1) ys)" if "cmp_sorted f ys" for f and ys :: "'a option list"
  proof -
    have "cmp_sorted f (take (unat i) ys @ drop (unat i) ys)" using that by simp
    then have "cmp_sorted f (take (unat i) ys) \<and> cmp_sorted f (drop (unat i) ys) \<and>
        (\<forall>x \<in> set (take (unat i) ys). \<forall>y \<in> set (drop (unat i) ys). f x y \<le> 0)"
      unfolding sorted_wrt_append .
    then show ?thesis unfolding sorted_wrt_append
      using set_drop_subset_set_drop [of "unat i" "unat i + 1" ys] sorted_wrt_drop [of "\<lambda>x y. f x y \<le> 0" ys "unat i + 1"] that by auto
  qed
  ultimately show ?case
    using run_sk_delete by (auto simp: mark_ok_def split: option.splits dest: in_set_takeD in_set_dropD)
next
  case (run_sk_set s xs v i r s')
  then obtain s1 where "sk_set (Some s) i v = Some (if unat i < length (elems s) then v else None, Some s1)" "stk_ok s1"
    "stk_comp s1 = stk_comp s" "stk_sorted s1 = stk_sorted s" "elems s1 = (elems s)[unat i := v]"
    using set_ok [of s i v] by metis
  then show ?case using run_sk_set set_update_subset_insert [of xs "unat i" v]
    by (auto simp: mark_ok_def split: option.splits)
next
  case (run_sk_zero s xs s')
  then obtain s1 where "sk_zero (Some s) = Some (Some s1)" "stk_ok s1" "stk_comp s1 = stk_comp s" "elems s1 = []"
    using zero_ok [of s] by metis
  then show ?case using run_sk_zero by (simp add: mark_ok_def split: option.split)
next
  case (run_sk_sort s xs s')
  then obtain s1 where s1: "sk_sort (Some s) = Some (Some s1)" "stk_ok s1" "stk_comp s1 = stk_comp s"
    "case stk_comp s of None \<Rightarrow> s1 = s | Some cf \<Rightarrow> stk_sorted s1 \<and>
       elems s1 = (if stk_sorted s then elems s else if length (elems s) \<ge> 2 then qsort (snd cf) (elems s) else elems s)"
    using sort_ok [of s] by metis
  have s': "s' = s1" using s1(1) run_sk_sort(2) by simp
  show ?case
  proof (cases "stk_comp s")
    case None
    then show ?thesis using s1 run_sk_sort s' by simp
  next
    case (Some cf)
    have "elems s1 = qsort (snd cf) xs"
      using s1(4) Some run_sk_sort.IH qsort_same [of "snd cf" xs] qsort_short [of xs "snd cf"]
      by (cases "stk_sorted s"; cases "length xs \<ge> 2") (simp_all add: mark_ok_def not_le)
    moreover have "cmp_sorted (snd cf) (qsort (snd cf) xs)"
    proof (rule comparison.qsort_sorted [of valid])
      show "comparison valid (snd cf)" using Some run_sk_sort.IH by (cases cf) (simp add: cmp_ok_def)
      show "\<forall>y \<in> set xs. valid y" using run_sk_sort.IH by blast
    qed
    ultimately show ?thesis using s1(2,3) run_sk_sort.IH s' Some by (simp add: mark_ok_def)
  qed
next
  case (run_sk_cmp s xs cf old s')
  show ?case
  proof (cases "map_option fst (stk_comp s) = map_option fst cf")
    case True
    then have "stk_comp s = cf" using run_sk_cmp.IH run_sk_cmp(2)
      by (cases "stk_comp s"; cases cf) (auto simp: cmp_ok_def)
    then have "s' = s" using run_sk_cmp(3) by (cases s) (auto simp: sk_set_cmp_func_def)
    then show ?thesis using run_sk_cmp.IH by simp
  next
    case False
    then have "s' = s\<lparr>stk_sorted := False, stk_comp := cf\<rparr>" using run_sk_cmp(3) by (simp add: sk_set_cmp_func_def)
    then show ?thesis using run_sk_cmp.IH run_sk_cmp(2) by (simp add: stk_ok_def elems_def mark_ok_def split: option.split)
  qed
qed

text \<open>
  The runs in which every operation is used without a restriction, with the list operation that each one
  stands for. \<open>sk_set\<close> can store into a stack that is marked as sorted, which then need not be sorted.
\<close>

inductive sk_any :: "('a option \<Rightarrow> bool) \<Rightarrow> (nat \<Rightarrow> 'a option \<Rightarrow> 'a option \<Rightarrow> int) \<Rightarrow> 'a stack \<Rightarrow> 'a option list \<Rightarrow> bool"
  for valid code where
  any_new: "sk_new mem ms cf = Some s \<Longrightarrow> cmp_ok valid code cf \<Longrightarrow> sk_any valid code s []"
| any_insert: "sk_any valid code s xs \<Longrightarrow> valid p \<Longrightarrow> sk_insert mem (Some s) p i = Some (r, Some s') \<Longrightarrow>
    sk_any valid code s' (if r = 0 then xs else take (unat i) xs @ p # drop (unat i) xs)"
| any_push: "sk_any valid code s xs \<Longrightarrow> valid p \<Longrightarrow> sk_push mem (Some s) p = Some (r, Some s') \<Longrightarrow>
    sk_any valid code s' (if r = 0 then xs else xs @ [p])"
| any_delete: "sk_any valid code s xs \<Longrightarrow> sk_delete (Some s) i = Some (e, Some s') \<Longrightarrow>
    sk_any valid code s' (take (unat i) xs @ drop (unat i + 1) xs)"
| any_delete_ptr: "sk_any valid code s xs \<Longrightarrow> sk_delete_ptr (Some s) p = Some (e, Some s') \<Longrightarrow> sk_any valid code s' (remove1 p xs)"
| any_pop: "sk_any valid code s xs \<Longrightarrow> sk_pop (Some s) = Some (e, Some s') \<Longrightarrow> sk_any valid code s' (butlast xs)"
| any_shift: "sk_any valid code s xs \<Longrightarrow> sk_shift (Some s) = Some (e, Some s') \<Longrightarrow> sk_any valid code s' (tl xs)"
| any_set: "sk_any valid code s xs \<Longrightarrow> valid v \<Longrightarrow> sk_set (Some s) i v = Some (e, Some s') \<Longrightarrow>
    sk_any valid code s' (xs[unat i := v])"
| any_zero: "sk_any valid code s xs \<Longrightarrow> sk_zero (Some s) = Some (Some s') \<Longrightarrow> sk_any valid code s' []"
| any_sort: "sk_any valid code s xs \<Longrightarrow> sk_sort (Some s) = Some (Some s') \<Longrightarrow>
    sk_any valid code s' (case stk_comp s of None \<Rightarrow> xs | Some cf \<Rightarrow> if stk_sorted s then xs else qsort (snd cf) xs)"
| any_cmp: "sk_any valid code s xs \<Longrightarrow> cmp_ok valid code cf \<Longrightarrow> sk_set_cmp_func s cf = (old, s') \<Longrightarrow> sk_any valid code s' xs"
| any_dup: "sk_any valid code s xs \<Longrightarrow> sk_dup mem ms (Some s) = Some (Some t) \<Longrightarrow> sk_any valid code t xs"

lemma sort_list:
  assumes "stk_ok s"
  obtains s' where "sk_sort (Some s) = Some (Some s')" "stk_ok s'" "stk_comp s' = stk_comp s"
    "elems s' = (case stk_comp s of None \<Rightarrow> elems s | Some cf \<Rightarrow> if stk_sorted s then elems s else qsort (snd cf) (elems s))"
proof -
  obtain s1 where "sk_sort (Some s) = Some (Some s1)" "stk_ok s1" "stk_comp s1 = stk_comp s"
    "case stk_comp s of None \<Rightarrow> s1 = s | Some cf \<Rightarrow> stk_sorted s1 \<and>
       elems s1 = (if stk_sorted s then elems s else if length (elems s) \<ge> 2 then qsort (snd cf) (elems s) else elems s)"
    by (rule sort_ok [OF assms])
  then show ?thesis using that [of s1] by (auto simp: qsort_short split: option.splits if_splits)
qed

lemma dup_None:
  "sk_dup mem ms (Some s) = Some None \<longleftrightarrow> \<not> ms \<or> mem (8 * kMinSize) = None \<or> mem (8 * stk_num_alloc s) = None"
  by (auto simp: sk_dup_def sk_new_def Option.bind_eq_Some_conv split: option.splits)

lemma sort_sorts:
  assumes s: "stk_ok s" "elems s = xs" and v: "\<forall>x \<in> set xs. valid x" and c: "cmp_ok valid code (stk_comp s)"
  shows "\<exists>s'. sk_sort (Some s) = Some (Some s') \<and> mset (elems s') = mset xs \<and>
      (case stk_comp s of None \<Rightarrow> elems s' = xs
       | Some cf \<Rightarrow> (stk_sorted s \<longrightarrow> elems s' = xs) \<and>
           (\<not> stk_sorted s \<or> sk_run valid code s xs \<longrightarrow> cmp_sorted (snd cf) (elems s')))"
proof -
  obtain s' where s': "sk_sort (Some s) = Some (Some s')"
    "elems s' = (case stk_comp s of None \<Rightarrow> elems s | Some cf \<Rightarrow> if stk_sorted s then elems s else qsort (snd cf) (elems s))"
    using sort_list [OF s(1)] by metis
  have srt: "cmp_sorted (snd cf) (qsort (snd cf) xs)" if "stk_comp s = Some cf" for cf
    using comparison.qsort_sorted [of valid "snd cf" xs] c v that by (cases cf) (simp add: cmp_ok_def)
  have run: "cmp_sorted (snd cf) xs" if "stk_comp s = Some cf" "stk_sorted s" "sk_run valid code s xs" for cf
    using run_list [OF that(3)] that(1,2) s(2) by (simp add: mark_ok_def)
  show ?thesis
  proof (cases "stk_comp s")
    case None
    then show ?thesis using s' s(2) by simp
  next
    case (Some cf)
    then show ?thesis using s' s(2) srt [OF Some] run [OF Some] by (cases "stk_sorted s") (simp_all add: mset_qsort)
  qed
qed

lemma shift_ok:
  assumes s: "stk_ok s"
  obtains s' where "sk_shift (Some s) = Some (if elems s = [] then None else hd (elems s), Some s')" "stk_ok s'"
    "stk_comp s' = stk_comp s" "stk_sorted s' = stk_sorted s" "elems s' = tl (elems s)"
proof (cases "stk_num s = 0")
  case True
  then show ?thesis using that [of s] s length_elems [OF s] by (simp add: sk_shift_def)
next
  case False
  then have ne: "elems s \<noteq> []" using length_elems [OF s] by (auto simp: unat_eq_0)
  obtain s' where "sk_delete (Some s) 0 = Some (if unat (0 :: u64) < length (elems s) then elems s ! unat (0 :: u64) else None, Some s')" "stk_ok s'"
    "stk_comp s' = stk_comp s" "stk_sorted s' = stk_sorted s" "elems s' = take (unat (0 :: u64)) (elems s) @ drop (unat (0 :: u64) + 1) (elems s)"
    by (rule delete_ok [OF s, of 0])
  then show ?thesis using that [of s'] False ne by (simp add: sk_shift_def hd_conv_nth drop_Suc)
qed

lemma pop_ok:
  assumes s: "stk_ok s"
  obtains s' where "sk_pop (Some s) = Some (if elems s = [] then None else last (elems s), Some s')" "stk_ok s'"
    "stk_comp s' = stk_comp s" "stk_sorted s' = stk_sorted s" "elems s' = butlast (elems s)"
proof (cases "stk_num s = 0")
  case True
  then show ?thesis using that [of s] s length_elems [OF s] by (simp add: sk_pop_def)
next
  case False
  let ?i = "stk_num s - 1"
  have u: "unat ?i = length (elems s) - 1" and ne: "elems s \<noteq> []"
    using False length_elems [OF s] by (auto simp: unat_minus_one unat_eq_0)
  obtain s' where d: "sk_delete (Some s) ?i = Some (if unat ?i < length (elems s) then elems s ! unat ?i else None, Some s')" "stk_ok s'"
    "stk_comp s' = stk_comp s" "stk_sorted s' = stk_sorted s" "elems s' = take (unat ?i) (elems s) @ drop (unat ?i + 1) (elems s)"
    by (rule delete_ok [OF s, of ?i])
  have "sk_pop (Some s) = Some (last (elems s), Some s')" using d(1) False u ne by (simp add: sk_pop_def last_conv_nth)
  moreover have "elems s' = butlast (elems s)" using d(5) u ne by (simp add: butlast_conv_take)
  ultimately show ?thesis using that [of s'] d(2-4) ne by simp
qed

lemma delete_ptr_ok:
  assumes s: "stk_ok s"
  obtains s' where "sk_delete_ptr (Some s) p = Some (if p \<in> set (elems s) then p else None, Some s')" "stk_ok s'"
    "stk_comp s' = stk_comp s" "stk_sorted s' = stk_sorted s" "elems s' = remove1 p (elems s)"
proof (cases "first_index (\<lambda>e. e = p) (elems s)")
  case None
  then have "p \<notin> set (elems s)" by (auto simp: first_index_None)
  then show ?thesis using that [of s] None first_slot_ok [OF s] s by (simp add: sk_delete_ptr_def remove1_idem)
next
  case (Some k)
  let ?xs = "elems s"
  have k: "k < length ?xs" "?xs ! k = p" "\<forall>j < k. ?xs ! j \<noteq> p" using Some by (auto simp: first_index_Some)
  then have u: "unat (word_of_nat k :: u64) = k" using length_elems [OF s] unat_u64_less [of "stk_num s"] by (intro unat_of_nat_u64) simp
  obtain s' where d: "sk_delete (Some s) (word_of_nat k) = Some (if unat (word_of_nat k :: u64) < length ?xs then ?xs ! unat (word_of_nat k :: u64) else None, Some s')"
    "stk_ok s'" "stk_comp s' = stk_comp s" "stk_sorted s' = stk_sorted s"
    "elems s' = take (unat (word_of_nat k :: u64)) ?xs @ drop (unat (word_of_nat k :: u64) + 1) ?xs"
    by (rule delete_ok [OF s, of "word_of_nat k"])
  have "p \<notin> set (take k ?xs)" using k by (auto simp: in_set_conv_nth)
  then have "remove1 p ?xs = take k ?xs @ drop (k + 1) ?xs"
    using id_take_nth_drop [OF k(1)] k(2) by (metis remove1_append remove1.simps(2) Suc_eq_plus1)
  moreover have "sk_delete_ptr (Some s) p = Some (p, Some s')" using d(1) Some first_slot_ok [OF s] k u by (simp add: sk_delete_ptr_def)
  moreover have "p \<in> set ?xs" using k nth_mem by blast
  ultimately show ?thesis using that [of s'] d u by simp
qed

lemma push_ok:
  assumes s: "stk_ok s"
  shows "\<exists>r s'. sk_push mem (Some s) p = Some (r, Some s') \<and> stk_ok s' \<and> stk_comp s' = stk_comp s \<and>
    (if r = 0 then s' = s \<and> sk_grow mem s = None else unat r = length (elems s) + 1 \<and> elems s' = elems s @ [p] \<and> \<not> stk_sorted s')"
proof -
  have e: "take (unat (stk_num s)) (elems s) @ p # drop (unat (stk_num s)) (elems s) = elems s @ [p]" using length_elems [OF s] by simp
  show ?thesis using insert_ok [OF s, of mem p "stk_num s"] unfolding e sk_push_def by (simp only: sk_num_def option.case)
qed

lemma any_list: "sk_any valid code s xs \<Longrightarrow> stk_ok s \<and> elems s = xs \<and> (\<forall>x \<in> set xs. valid x) \<and> cmp_ok valid code (stk_comp s)"
proof (induction rule: sk_any.induct)
  case (any_new mem ms cf s)
  then show ?case using new_ok [OF any_new(1)] by auto
next
  case (any_insert s xs p mem i r s')
  then show ?case using insert_ok [of s mem p i] by (auto split: if_splits dest: in_set_takeD in_set_dropD)
next
  case (any_push s xs p mem r s')
  then show ?case using push_ok [of s mem p] by (auto split: if_splits)
next
  case (any_delete s xs i e s')
  obtain s1 where "sk_delete (Some s) i = Some (if unat i < length (elems s) then elems s ! unat i else None, Some s1)" "stk_ok s1"
    "stk_comp s1 = stk_comp s" "elems s1 = take (unat i) (elems s) @ drop (unat i + 1) (elems s)"
    using any_delete.IH by (meson delete_ok)
  then show ?case using any_delete by (auto dest: in_set_takeD in_set_dropD)
next
  case (any_delete_ptr s xs p e s')
  obtain s1 where "sk_delete_ptr (Some s) p = Some (if p \<in> set (elems s) then p else None, Some s1)" "stk_ok s1"
    "stk_comp s1 = stk_comp s" "elems s1 = remove1 p (elems s)"
    using any_delete_ptr.IH by (meson delete_ptr_ok)
  then show ?case using any_delete_ptr by (auto dest: notin_set_remove1 [rotated])
next
  case (any_pop s xs e s')
  obtain s1 where "sk_pop (Some s) = Some (if elems s = [] then None else last (elems s), Some s1)" "stk_ok s1"
    "stk_comp s1 = stk_comp s" "elems s1 = butlast (elems s)"
    using any_pop.IH by (meson pop_ok)
  then show ?case using any_pop by (auto dest: in_set_butlastD)
next
  case (any_shift s xs e s')
  obtain s1 where "sk_shift (Some s) = Some (if elems s = [] then None else hd (elems s), Some s1)" "stk_ok s1"
    "stk_comp s1 = stk_comp s" "elems s1 = tl (elems s)"
    using any_shift.IH by (meson shift_ok)
  then show ?case using any_shift by (cases xs) auto
next
  case (any_set s xs v i e s')
  obtain s1 where "sk_set (Some s) i v = Some (if unat i < length (elems s) then v else None, Some s1)" "stk_ok s1"
    "stk_comp s1 = stk_comp s" "elems s1 = (elems s)[unat i := v]"
    using any_set.IH by (meson set_ok)
  then show ?case using any_set set_update_subset_insert [of xs "unat i" v] by auto
next
  case (any_zero s xs s')
  obtain s1 where "sk_zero (Some s) = Some (Some s1)" "stk_ok s1" "stk_comp s1 = stk_comp s" "elems s1 = []"
    using any_zero.IH by (meson zero_ok)
  then show ?case using any_zero by simp
next
  case (any_sort s xs s')
  obtain s1 where "sk_sort (Some s) = Some (Some s1)" "stk_ok s1" "stk_comp s1 = stk_comp s"
    "elems s1 = (case stk_comp s of None \<Rightarrow> elems s | Some cf \<Rightarrow> if stk_sorted s then elems s else qsort (snd cf) (elems s))"
    using any_sort.IH by (metis sort_list)
  moreover have "set (qsort f xs) = set xs" for f using mset_qsort [of f xs] by (metis set_mset_mset)
  ultimately show ?case using any_sort by (auto split: option.splits)
next
  case (any_cmp s xs cf old s')
  then show ?case by (auto simp: sk_set_cmp_func_def stk_ok_def elems_def)
next
  case (any_dup s xs mem ms t)
  then show ?case using dup_ok [of s mem ms] by auto
qed

text \<open>
  C14. A stack refines a list: after any operations, whatever allocations failed, its accesses stay
  inside the array and every operation returns what the list operation returns and leaves the list that
  it leaves: the length, an element, the insertion at an index (behind the end when the index is too
  large), the removal at an index, of the first or last element or of the first occurrence of a pointer,
  the update at an index, clearing, copying and sorting. An insertion fails only when the array cannot
  grow, in memory or in the range of \<open>size_t\<close>, and then leaves the stack as it is. Sorting permutes the
  elements of a stack that is not marked as sorted into a sorted order and leaves any other one as it is,
  which is sorted then when \<open>sk_set\<close> was not used on a stack so marked.
\<close>

theorem stack_refines_list:
  assumes "sk_any valid code s xs"
  shows "length (stk_data s) = unat (stk_num_alloc s) \<and> elems s = xs \<and>
    unat (sk_num (Some s)) = length xs \<and>
    sk_value (Some s) i = Some (if unat i < length xs then xs ! unat i else None) \<and>
    (\<exists>s'. sk_set (Some s) i p = Some (if unat i < length xs then p else None, Some s') \<and> elems s' = xs[unat i := p]) \<and>
    (\<exists>s'. sk_delete (Some s) i = Some (if unat i < length xs then xs ! unat i else None, Some s') \<and>
      elems s' = take (unat i) xs @ drop (unat i + 1) xs) \<and>
    (\<exists>s'. sk_shift (Some s) = Some (if xs = [] then None else hd xs, Some s') \<and> elems s' = tl xs) \<and>
    (\<exists>s'. sk_pop (Some s) = Some (if xs = [] then None else last xs, Some s') \<and> elems s' = butlast xs) \<and>
    (\<exists>s'. sk_delete_ptr (Some s) p = Some (if p \<in> set xs then p else None, Some s') \<and> elems s' = remove1 p xs) \<and>
    (\<exists>s'. sk_zero (Some s) = Some (Some s') \<and> elems s' = []) \<and>
    (\<exists>s'. sk_sort (Some s) = Some (Some s') \<and> mset (elems s') = mset xs \<and>
      (case stk_comp s of None \<Rightarrow> elems s' = xs
       | Some cf \<Rightarrow> (stk_sorted s \<longrightarrow> elems s' = xs) \<and>
           (\<not> stk_sorted s \<or> sk_run valid code s xs \<longrightarrow> cmp_sorted (snd cf) (elems s')))) \<and>
    (\<exists>r s'. sk_insert mem (Some s) p i = Some (r, Some s') \<and>
      (if r = 0 then s' = s \<and> (mem (16 * stk_num_alloc s) = None \<or> mem (8 * (stk_num_alloc s + 1)) = None \<or> unat (stk_num_alloc s) + 1 = 2 ^ 61)
       else unat r = length xs + 1 \<and> elems s' = take (unat i) xs @ p # drop (unat i) xs)) \<and>
    (\<exists>r s'. sk_push mem (Some s) p = Some (r, Some s') \<and>
      (if r = 0 then s' = s \<and> (mem (16 * stk_num_alloc s) = None \<or> mem (8 * (stk_num_alloc s + 1)) = None \<or> unat (stk_num_alloc s) + 1 = 2 ^ 61)
       else unat r = length xs + 1 \<and> elems s' = xs @ [p])) \<and>
    (\<exists>d. sk_dup mem ms (Some s) = Some d \<and> (d = None \<longleftrightarrow> \<not> ms \<or> mem (8 * kMinSize) = None \<or> mem (8 * stk_num_alloc s) = None) \<and>
      (\<forall>t. d = Some t \<longrightarrow> elems t = xs \<and> stk_comp t = stk_comp s \<and> stk_sorted t = stk_sorted s))"
proof -
  have inv: "stk_ok s" "elems s = xs" "\<forall>x \<in> set xs. valid x" "cmp_ok valid code (stk_comp s)"
    using any_list [OF assms] by simp_all
  have num: "unat (sk_num (Some s)) = length xs" using length_elems [OF inv(1)] inv(2) by (simp add: sk_num_def)
  have set: "\<exists>s'. sk_set (Some s) i p = Some (if unat i < length xs then p else None, Some s') \<and> elems s' = xs[unat i := p]"
    by (rule set_ok [OF inv(1), of i p]) (use inv(2) in blast)
  have del: "\<exists>s'. sk_delete (Some s) i = Some (if unat i < length xs then xs ! unat i else None, Some s') \<and>
      elems s' = take (unat i) xs @ drop (unat i + 1) xs"
    by (rule delete_ok [OF inv(1), of i]) (use inv(2) in blast)
  have shift: "\<exists>s'. sk_shift (Some s) = Some (if xs = [] then None else hd xs, Some s') \<and> elems s' = tl xs"
    by (rule shift_ok [OF inv(1)]) (use inv(2) in blast)
  have pop: "\<exists>s'. sk_pop (Some s) = Some (if xs = [] then None else last xs, Some s') \<and> elems s' = butlast xs"
    by (rule pop_ok [OF inv(1)]) (use inv(2) in blast)
  have ptr: "\<exists>s'. sk_delete_ptr (Some s) p = Some (if p \<in> set xs then p else None, Some s') \<and> elems s' = remove1 p xs"
    by (rule delete_ptr_ok [OF inv(1), of p]) (use inv(2) in blast)
  have zero: "\<exists>s'. sk_zero (Some s) = Some (Some s') \<and> elems s' = []"
    by (rule zero_ok [OF inv(1)]) blast
  have ins: "\<exists>r s'. sk_insert mem (Some s) p i = Some (r, Some s') \<and>
      (if r = 0 then s' = s \<and> (mem (16 * stk_num_alloc s) = None \<or> mem (8 * (stk_num_alloc s + 1)) = None \<or> unat (stk_num_alloc s) + 1 = 2 ^ 61)
       else unat r = length xs + 1 \<and> elems s' = take (unat i) xs @ p # drop (unat i) xs)"
    using insert_ok [OF inv(1), of mem p i] grow_fails [OF inv(1), of mem] inv(2) by (auto split: if_splits)
  have push: "\<exists>r s'. sk_push mem (Some s) p = Some (r, Some s') \<and>
      (if r = 0 then s' = s \<and> (mem (16 * stk_num_alloc s) = None \<or> mem (8 * (stk_num_alloc s + 1)) = None \<or> unat (stk_num_alloc s) + 1 = 2 ^ 61)
       else unat r = length xs + 1 \<and> elems s' = xs @ [p])"
    using push_ok [OF inv(1), of mem p] grow_fails [OF inv(1), of mem] inv(2) by (auto split: if_splits)
  have dup: "\<exists>d. sk_dup mem ms (Some s) = Some d \<and> (d = None \<longleftrightarrow> \<not> ms \<or> mem (8 * kMinSize) = None \<or> mem (8 * stk_num_alloc s) = None) \<and>
      (\<forall>t. d = Some t \<longrightarrow> elems t = xs \<and> stk_comp t = stk_comp s \<and> stk_sorted t = stk_sorted s)"
    using dup_ok [OF inv(1), of mem ms] dup_None [of mem ms s] inv(2) by auto
  show ?thesis
    using inv(1,2) num value_ok [OF inv(1), of i] set del shift pop ptr zero sort_sorts [OF inv] ins push dup
    by (intro conjI) (simp_all only: stk_ok_def)
qed

text \<open>
  C15. \<open>sk_find\<close> returns the first element that the comparison function finds equal, or, without a
  comparison function, the first that is the same pointer, whether it searches a sorted stack by
  halving or any other one from the front.
\<close>

theorem sk_find_earliest:
  assumes "sk_run valid code s xs" and "valid p"
  shows "sk_find (Some s) p = Some (map_option word_of_nat (first_index
    (\<lambda>e. case stk_comp s of None \<Rightarrow> e = p | Some cf \<Rightarrow> p \<noteq> None \<and> snd cf p e = 0) xs))"
proof -
  have inv: "stk_ok s" "elems s = xs" "\<forall>x \<in> set xs. valid x" "cmp_ok valid code (stk_comp s)" "mark_ok s"
    using run_list [OF assms(1)] by simp_all
  show ?thesis
  proof (cases "stk_comp s")
    case None
    then show ?thesis using first_slot_ok [OF inv(1)] inv(2) by (simp add: sk_find_def)
  next
    case (Some cf)
    have c: "comparison valid (snd cf)" using inv(4) Some by (cases cf) (simp add: cmp_ok_def)
    have none: "first_index (\<lambda>e. False) xs = None" by (simp add: first_index_None)
    have "sk_search s (snd cf p) 0 (stk_num s) = Some (map_option word_of_nat (first_index (\<lambda>e. snd cf p e = 0) (elems s)))"
      if "stk_sorted s"
      by (rule search_first [OF c inv(1) _ assms(2)]) (use that inv Some length_elems [OF inv(1)] in \<open>auto simp: mark_ok_def\<close>)
    then show ?thesis
      using Some none inv(2) first_slot_ok [OF inv(1)] by (cases p) (simp_all add: sk_find_def sk_is_sorted_def)
  qed
qed

text \<open>
  \<open>sk_set\<close> keeps the mark, so that a stack can be marked as sorted and hold an element that
  \<open>sk_find\<close> does not find.
\<close>

definition num_cmp :: "nat option \<Rightarrow> nat option \<Rightarrow> int" where
  "num_cmp a b = (case (a, b) of (Some x, Some y) \<Rightarrow> int x - int y | _ \<Rightarrow> 0)"

definition set_after_sort :: "nat stack option" where
  "set_after_sort = do {
     s \<leftarrow> sk_new (\<lambda>n. Some None) True (Some (0, num_cmp));
     (_, s) \<leftarrow> sk_push (\<lambda>n. Some None) (Some s) (Some 3);
     (_, s) \<leftarrow> sk_push (\<lambda>n. Some None) s (Some 1);
     (_, s) \<leftarrow> sk_push (\<lambda>n. Some None) s (Some 2);
     s \<leftarrow> sk_sort s;
     (_, s) \<leftarrow> sk_set s 0 (Some 9);
     s }"

lemma sk_set_keeps_mark:
  "sk_is_sorted set_after_sort \<and> sk_value set_after_sort 0 = Some (Some 9) \<and> sk_find set_after_sort (Some 9) = Some None"
  by code_simp

text \<open>
  C26. The deep copy is NULL without a freed element exactly when the copy of the array cannot be
  allocated; otherwise it holds the copies of all elements, with the comparison function and the mark of
  the original, or, when an element cannot be copied, it is NULL and exactly the copies that were made
  of the elements before the first such element are freed, once each and in their order.
\<close>

theorem deep_copy_frees:
  assumes "sk_any valid code s xs"
  shows "if \<not> ms \<or> mem (8 * kMinSize) = None \<or> mem (8 * stk_num_alloc s) = None
    then sk_deep_copy mem ms copy (Some s) = Some ([], None)
    else if \<forall>x. Some x \<in> set xs \<longrightarrow> copy x \<noteq> None
    then \<exists>t. sk_deep_copy mem ms copy (Some s) = Some ([], Some t) \<and> elems t = map (\<lambda>e. Option.bind e copy) xs \<and>
      stk_comp t = stk_comp s \<and> stk_sorted t = stk_sorted s
    else \<exists>k < length xs. (\<exists>x. xs ! k = Some x \<and> copy x = None) \<and> (\<forall>j < k. \<forall>x. xs ! j = Some x \<longrightarrow> copy x \<noteq> None) \<and>
      sk_deep_copy mem ms copy (Some s) = Some (List.map_filter (\<lambda>e. Option.bind e copy) (take k xs), None)"
proof (cases "\<not> ms \<or> mem (8 * kMinSize) = None \<or> mem (8 * stk_num_alloc s) = None")
  case True
  then have "sk_dup mem ms (Some s) = Some None" by (simp only: dup_None)
  then show ?thesis unfolding if_P [OF True] by (simp add: sk_deep_copy_def)
next
  case False
  have inv: "stk_ok s" "elems s = xs" using any_list [OF assms] by simp_all
  have "sk_dup mem ms (Some s) \<noteq> Some None" using False by (simp only: dup_None not_False_eq_True)
  then obtain t where t: "sk_dup mem ms (Some s) = Some (Some t)" "stk_ok t" "elems t = xs" "stk_comp t = stk_comp s" "stk_sorted t = stk_sorted s"
    using dup_ok [OF inv(1), of mem ms] inv(2) by blast
  have e: "take (unat (stk_num t)) (stk_data t) = xs" using t(3) by (simp add: elems_def)
  show ?thesis
  proof (cases "\<forall>x. Some x \<in> set xs \<longrightarrow> copy x \<noteq> None")
    case all: True
    let ?ys = "map (\<lambda>e. Option.bind e copy) xs"
    have "\<not> (\<exists>x. Some x \<in> set xs \<and> copy x = None)" using all by blast
    then have c: "copy_elements copy [] xs = Inr ?ys" unfolding copy_elements_iff by (simp only: if_False append_Nil)
    have l: "length ?ys = unat (stk_num t)" using length_elems [OF t(2)] t(3) by simp
    then obtain dat where p: "put (stk_data t) 0 ?ys = Some dat" using put_Some [of 0 ?ys "stk_data t"] stk_len [OF t(2)] by auto
    have "take (unat (stk_num t)) dat = ?ys" using take_put [OF p] l by simp
    then have "sk_deep_copy mem ms copy (Some s) = Some ([], Some (t\<lparr>stk_data := dat\<rparr>))" "elems (t\<lparr>stk_data := dat\<rparr>) = ?ys"
      using t(1) e c p by (simp_all add: sk_deep_copy_def elems_def)
    then show ?thesis unfolding if_not_P [OF False] if_P [OF all] using t(4,5) by (intro exI [of _ "t\<lparr>stk_data := dat\<rparr>"]) simp
  next
    case some: False
    let ?P = "\<lambda>e. \<forall>x. e = Some x \<longrightarrow> copy x \<noteq> None"
    define k where "k = length (takeWhile ?P xs)"
    have k: "takeWhile ?P xs = take k xs" unfolding k_def by (rule takeWhile_eq_take)
    have "takeWhile ?P xs \<noteq> xs" using some by (auto simp: takeWhile_eq_all_conv)
    then have l: "k < length xs" using length_takeWhile_le [of ?P xs] k unfolding k_def [symmetric] by (metis le_neq_implies_less take_all order_refl)
    have x: "\<exists>x. xs ! k = Some x \<and> copy x = None" using l nth_length_takeWhile [of ?P xs] by (auto simp: k_def)
    have b: "\<forall>j < k. \<forall>x. xs ! j = Some x \<longrightarrow> copy x \<noteq> None"
    proof (intro allI impI)
      fix j x assume "j < k" "xs ! j = Some x"
      then have "Some x \<in> set (takeWhile ?P xs)" using takeWhile_nth [of j ?P xs] nth_mem [of j "takeWhile ?P xs"] by (simp add: k_def)
      then show "copy x \<noteq> None" using set_takeWhileD [of "Some x" ?P xs] by blast
    qed
    have "copy_elements copy [] xs = Inl (List.map_filter id (map (\<lambda>e. Option.bind e copy) (take k xs)))"
      unfolding copy_elements_iff k using some by simp
    moreover have "List.map_filter id (map f ys) = List.map_filter f ys" for f :: "'a option \<Rightarrow> 'a option" and ys
      by (simp add: List.map_filter_def comp_def filter_map)
    ultimately have "sk_deep_copy mem ms copy (Some s) = Some (List.map_filter (\<lambda>e. Option.bind e copy) (take k xs), None)"
      using t(1) e by (simp add: sk_deep_copy_def)
    then show ?thesis unfolding if_not_P [OF False] if_not_P [OF some] using l x b by blast
  qed
qed

section \<open>A stack of numbers\<close>

interpretation num_cmp: comparison "\<lambda>e. e \<noteq> None" num_cmp
  by unfold_locales (auto simp: num_cmp_def)

definition three :: "nat stack option" where
  "three = do {
     s \<leftarrow> sk_new (\<lambda>n. Some None) True (Some (0, num_cmp));
     (_, s) \<leftarrow> sk_insert (\<lambda>n. Some None) (Some s) (Some 5) 0;
     s \<leftarrow> s;
     (_, s) \<leftarrow> sk_insert (\<lambda>n. Some None) (Some s) (Some 7) 0;
     s }"

lemma three_run: "\<exists>s. three = Some s \<and> sk_run (\<lambda>e. e \<noteq> None) (\<lambda>a. num_cmp) s [Some 7, Some 5] \<and>
    stk_comp s = Some (0, num_cmp)"
proof -
  let ?m = "\<lambda>n :: u64. Some (None :: nat option)" and ?v = "\<lambda>e :: nat option. e \<noteq> None"
  have ok: "cmp_ok ?v (\<lambda>a. num_cmp) (Some (0, num_cmp))" using num_cmp.comparison_axioms by (simp add: cmp_ok_def)
  obtain s0 where s0: "sk_new ?m True (Some (0, num_cmp)) = Some s0" by (simp add: sk_new_def)
  note r0 = run_sk_new [OF s0 ok]
  have four: "replicate 4 x = [x, x, x, x]" for x :: "nat option" by (simp add: eval_nat_numeral)
  have e0: "s0 = \<lparr>stk_num = 0, stk_data = [None, None, None, None], stk_sorted = False, stk_num_alloc = 4, stk_comp = Some (0, num_cmp)\<rparr>"
    using s0 by (simp add: sk_new_def kMinSize_def four)
  obtain s1 where s1: "sk_insert ?m (Some s0) (Some 5) 0 = Some (1, Some s1)"
    and e1: "s1 = \<lparr>stk_num = 1, stk_data = [Some 5, None, None, None], stk_sorted = False, stk_num_alloc = 4, stk_comp = Some (0, num_cmp)\<rparr>"
    by (simp add: sk_insert_def e0 put_def word_le_nat_alt)
  have r1: "sk_run ?v (\<lambda>a. num_cmp) s1 [Some 5]" using run_sk_insert [OF r0 _ s1] by simp
  obtain s2 where s2: "sk_insert ?m (Some s1) (Some 7) 0 = Some (2, Some s2)" and e2: "stk_comp s2 = Some (0, num_cmp)"
    by (simp add: sk_insert_def e1 put_def word_le_nat_alt)
  have r2: "sk_run ?v (\<lambda>a. num_cmp) s2 [Some 7, Some 5]" using run_sk_insert [OF r1 _ s2] by simp
  then show ?thesis using s0 s1 s2 e2 by (simp add: three_def)
qed

lemma run_any: "sk_run valid code s xs \<Longrightarrow> sk_any valid code s xs"
proof (induction rule: sk_run.induct)
  case (run_sk_sort s xs s')
  have same: "qsort (snd cf) xs = xs" if "stk_comp s = Some cf" "stk_sorted s" for cf
    using run_list [OF run_sk_sort(1)] that by (intro qsort_same) (auto simp: mark_ok_def)
  then have "(case stk_comp s of None \<Rightarrow> xs | Some cf \<Rightarrow> qsort (snd cf) xs)
      = (case stk_comp s of None \<Rightarrow> xs | Some cf \<Rightarrow> if stk_sorted s then xs else qsort (snd cf) xs)"
    by (cases "stk_comp s") (simp_all add: same)
  then show ?case using any_sort [OF run_sk_sort.IH run_sk_sort(2)] by simp
qed (metis any_new any_insert any_delete any_set any_zero any_cmp)+

lemma stack_refines_list_witness:
  "\<exists>s s'. three = Some s \<and> unat (sk_num (Some s)) = 2 \<and> sk_pop (Some s) = Some (Some 5, Some s') \<and> elems s' = [Some 7]"
proof -
  obtain s where s: "three = Some s" "sk_run (\<lambda>e. e \<noteq> None) (\<lambda>a. num_cmp) s [Some 7, Some 5]" using three_run by blast
  then have "unat (sk_num (Some s)) = 2 \<and> (\<exists>s'. sk_pop (Some s) = Some (Some 5, Some s') \<and> elems s' = [Some 7])"
    using stack_refines_list [OF run_any [OF s(2)]] by (simp del: One_nat_def)
  then show ?thesis using s(1) by blast
qed

lemma sk_find_earliest_witness: "\<exists>s. three = Some s \<and> sk_find (Some s) (Some 5) = Some (Some 1)"
proof -
  obtain s where s: "three = Some s" "sk_run (\<lambda>e. e \<noteq> None) (\<lambda>a. num_cmp) s [Some 7, Some 5]" "stk_comp s = Some (0, num_cmp)"
    using three_run by blast
  have i: "first_index (\<lambda>e. num_cmp (Some 5) e = 0) [Some 7, Some 5] = Some 1" by (simp add: first_index_def num_cmp_def)
  have "sk_find (Some s) (Some 5) = Some (Some 1)" using sk_find_earliest [OF s(2), of "Some 5"] s(3) i by simp
  then show ?thesis using s(1) by blast
qed

lemma deep_copy_frees_witness:
  "\<exists>s. three = Some s \<and> sk_deep_copy (\<lambda>n. Some None) True (\<lambda>x. if x = 5 then None else Some (x + 1)) (Some s) = Some ([8], None)"
proof -
  obtain s where s: "three = Some s" "sk_run (\<lambda>e. e \<noteq> None) (\<lambda>a. num_cmp) s [Some 7, Some 5]" using three_run by blast
  let ?copy = "\<lambda>x :: nat. if x = 5 then None else Some (x + 1)" and ?xs = "[Some 7, Some 5] :: nat option list"
  have some: "\<not> (\<forall>x. Some x \<in> set ?xs \<longrightarrow> ?copy x \<noteq> None)" by auto
  obtain k where k: "k < length ?xs" "\<exists>x. ?xs ! k = Some x \<and> ?copy x = None"
    "sk_deep_copy (\<lambda>n. Some None) True ?copy (Some s) = Some (List.map_filter (\<lambda>e. Option.bind e ?copy) (take k ?xs), None)"
    using deep_copy_frees [OF run_any [OF s(2)], where mem = "\<lambda>n. Some None" and ms = True and copy = ?copy] some by (simp only: if_not_P [OF some]) auto
  then have "k = 1" by (auto simp: less_Suc_eq split: if_splits)
  then have "sk_deep_copy (\<lambda>n. Some None) True ?copy (Some s) = Some ([8], None)" using k(3) by (simp add: List.map_filter_def)
  then show ?thesis using s(1) by blast
qed

end
