(* ===== verification/Obj.thy ===== *)
theory Obj
  imports Lhash_Spec Compare
begin

text \<open>
  BoringSSL: the registry of object identifiers, \<open>crypto/obj/obj.c\<close> with the object functions of
  \<open>asn1/a_object.c\<close> that it uses. The generated tables of \<open>obj_dat.h\<close> are the record \<open>obj_tables\<close>, the
  global variables the record \<open>obj_state\<close>; the locks around their uses make every function atomic.
  C strings are given without their terminating zero. \<open>bsearch\<close> is what the C standard says of it, and
  undefined where the standard leaves it undefined: when the elements are not ordered with respect to
  the key. \<open>None\<close> as the result of a function is undefined behaviour. A subtraction of identifiers that
  overflows wraps around.
\<close>

record asn1_object =
  o_sn :: "u8 list option"
  o_ln :: "u8 list option"
  o_nid :: u32
  o_length :: int
  o_data :: "u8 list option"
  o_flags :: u32

record obj_tables =
  kObjects :: "asn1_object list"
  kNIDsInOIDOrder :: "nat list"
  kNIDsInShortNameOrder :: "nat list"
  kNIDsInLongNameOrder :: "nat list"

record obj_state =
  added_by_data :: "asn1_object lhash option"
  added_by_nid :: "asn1_object lhash option"
  added_by_short_name :: "asn1_object lhash option"
  added_by_long_name :: "asn1_object lhash option"
  next_nid :: u32

definition NUM_NID :: nat where "NUM_NID = 962"
definition NID_undef :: u32 where "NID_undef = 0"
definition INT_MAX :: u64 where "INT_MAX = 0x7FFFFFFF"

definition obj_initial :: obj_state where
  "obj_initial = \<lparr>added_by_data = None, added_by_nid = None, added_by_short_name = None, added_by_long_name = None,
     next_nid = word_of_nat NUM_NID\<rparr>"

definition obj_next_nid :: "obj_state \<Rightarrow> u32 \<times> obj_state" where
  "obj_next_nid st = (next_nid st, st\<lparr>next_nid := next_nid st + 1\<rparr>)"

section \<open>Objects\<close>

definition ASN1_OBJECT_FLAG_DYNAMIC :: u32 where "ASN1_OBJECT_FLAG_DYNAMIC = 0x01"
definition ASN1_OBJECT_FLAG_DYNAMIC_STRINGS :: u32 where "ASN1_OBJECT_FLAG_DYNAMIC_STRINGS = 0x04"
definition ASN1_OBJECT_FLAG_DYNAMIC_DATA :: u32 where "ASN1_OBJECT_FLAG_DYNAMIC_DATA = 0x08"

definition dynamic_flags :: u32 where
  "dynamic_flags = ASN1_OBJECT_FLAG_DYNAMIC OR ASN1_OBJECT_FLAG_DYNAMIC_STRINGS OR ASN1_OBJECT_FLAG_DYNAMIC_DATA"

definition ASN1_OBJECT_new :: "mem \<Rightarrow> asn1_object option" where
  "ASN1_OBJECT_new mem = (if mem 40 then Some \<lparr>o_sn = None, o_ln = None, o_nid = 0, o_length = 0, o_data = None,
     o_flags = ASN1_OBJECT_FLAG_DYNAMIC\<rparr> else None)"

text \<open>The bytes that are read through the data pointer.\<close>

definition obj_bytes :: "asn1_object \<Rightarrow> u8 list" where
  "obj_bytes o' = (case o_data o' of None \<Rightarrow> [] | Some d \<Rightarrow> take (nat (o_length o')) d)"

definition strdup_ok :: "mem \<Rightarrow> u8 list option \<Rightarrow> bool" where
  "strdup_ok mem s \<longleftrightarrow> (case s of None \<Rightarrow> True | Some s \<Rightarrow> mem (word_of_nat (length s + 1)))"

text \<open>A negative length is converted to a size that no allocation has.\<close>

definition OBJ_dup :: "mem \<Rightarrow> asn1_object option \<Rightarrow> asn1_object option" where
  "OBJ_dup mem o' = (case o' of None \<Rightarrow> None
     | Some o' \<Rightarrow> if o_flags o' AND ASN1_OBJECT_FLAG_DYNAMIC = 0 then Some o'
       else (case ASN1_OBJECT_new mem of None \<Rightarrow> None
         | Some r \<Rightarrow> if o_length o' < 0 \<or> \<not> mem (word_of_int (o_length o')) then None
           else if \<not> strdup_ok mem (o_ln o') then None
           else if \<not> strdup_ok mem (o_sn o') then None
           else Some (r\<lparr>o_data := Some (obj_bytes o'), o_length := o_length o', o_nid := o_nid o', o_sn := o_sn o',
             o_ln := o_ln o', o_flags := o_flags o' OR dynamic_flags\<rparr>)))"

definition ASN1_OBJECT_create ::
  "mem \<Rightarrow> u32 \<Rightarrow> u8 list option \<Rightarrow> int \<Rightarrow> u8 list option \<Rightarrow> u8 list option \<Rightarrow> asn1_object option" where
  "ASN1_OBJECT_create mem nid dat len sn ln = OBJ_dup mem (Some \<lparr>o_sn = sn, o_ln = ln, o_nid = nid, o_length = len,
     o_data = dat, o_flags = dynamic_flags\<rparr>)"

definition OBJ_cmp :: "asn1_object \<Rightarrow> asn1_object \<Rightarrow> int" where
  "OBJ_cmp a b = (let r = o_length a - o_length b in if r \<noteq> 0 then r else OPENSSL_memcmp (obj_bytes a) (obj_bytes b))"

definition OBJ_get0_data :: "asn1_object option \<Rightarrow> u8 list option" where
  "OBJ_get0_data obj = (case obj of None \<Rightarrow> None | Some o' \<Rightarrow> o_data o')"

definition OBJ_length :: "asn1_object option \<Rightarrow> u64" where
  "OBJ_length obj = (case obj of None \<Rightarrow> 0 | Some o' \<Rightarrow> if o_length o' < 0 then 0 else word_of_int (o_length o'))"

section \<open>Keys of the added objects\<close>

definition hash_nid :: "asn1_object \<Rightarrow> u32" where "hash_nid obj = o_nid obj"
definition cmp_nid :: "asn1_object \<Rightarrow> asn1_object \<Rightarrow> int" where "cmp_nid a b = sint (o_nid a - o_nid b)"
definition hash_data :: "asn1_object \<Rightarrow> u32" where "hash_data obj = OPENSSL_hash32 (obj_bytes obj)"

definition cmp_data :: "asn1_object \<Rightarrow> asn1_object \<Rightarrow> int" where
  "cmp_data a b = (let i = o_length a - o_length b in if i \<noteq> 0 then i else OPENSSL_memcmp (obj_bytes a) (obj_bytes b))"

definition hash_short_name :: "asn1_object \<Rightarrow> u32" where "hash_short_name obj = lh_strhash (o_sn obj)"
definition cmp_short_name :: "asn1_object \<Rightarrow> asn1_object \<Rightarrow> int" where
  "cmp_short_name a b = strcmp (the (o_sn a)) (the (o_sn b))"
definition hash_long_name :: "asn1_object \<Rightarrow> u32" where "hash_long_name obj = lh_strhash (o_ln obj)"
definition cmp_long_name :: "asn1_object \<Rightarrow> asn1_object \<Rightarrow> int" where
  "cmp_long_name a b = strcmp (the (o_ln a)) (the (o_ln b))"

section \<open>Lookups\<close>

definition bsearch :: "('k \<Rightarrow> 'e \<Rightarrow> int) \<Rightarrow> 'k \<Rightarrow> 'e list \<Rightarrow> 'e option option" where
  "bsearch cmp key xs = (if sorted_wrt (\<lambda>x y. y \<le> x) (map (\<lambda>e. sgn (cmp key e)) xs)
     then Some (List.find (\<lambda>e. cmp key e = 0) xs) else None)"

definition obj_cmp :: "obj_tables \<Rightarrow> asn1_object \<Rightarrow> nat \<Rightarrow> int" where
  "obj_cmp T a nid = (let b = kObjects T ! nid in
     if o_length a < o_length b then - 1 else if o_length a > o_length b then 1
     else OPENSSL_memcmp (obj_bytes a) (obj_bytes b))"

definition short_name_cmp :: "obj_tables \<Rightarrow> u8 list \<Rightarrow> nat \<Rightarrow> int" where
  "short_name_cmp T name nid = strcmp name (the (o_sn (kObjects T ! nid)))"

definition long_name_cmp :: "obj_tables \<Rightarrow> u8 list \<Rightarrow> nat \<Rightarrow> int" where
  "long_name_cmp T name nid = strcmp name (the (o_ln (kObjects T ! nid)))"

text \<open>What a search of a static table ends with.\<close>

definition static_nid :: "obj_tables \<Rightarrow> nat option \<Rightarrow> u32" where
  "static_nid T nid_ptr = (case nid_ptr of None \<Rightarrow> NID_undef | Some nid \<Rightarrow> o_nid (kObjects T ! nid))"

text \<open>The object that equals the template in a table of added objects, if there is one.\<close>

definition retrieve_added :: "asn1_object lhash option \<Rightarrow> asn1_object \<Rightarrow> asn1_object option option" where
  "retrieve_added lh template = (case lh of None \<Rightarrow> Some None | Some lh \<Rightarrow> lh_retrieve lh template)"

definition template :: asn1_object where
  "template = \<lparr>o_sn = None, o_ln = None, o_nid = 0, o_length = 0, o_data = None, o_flags = 0\<rparr>"

definition OBJ_obj2nid :: "obj_tables \<Rightarrow> obj_state \<Rightarrow> asn1_object option \<Rightarrow> u32 option" where
  "OBJ_obj2nid T st obj = (case obj of None \<Rightarrow> Some NID_undef
     | Some obj \<Rightarrow> if o_nid obj \<noteq> 0 then Some (o_nid obj)
       else do {
         match \<leftarrow> retrieve_added (added_by_data st) obj;
         (case match of Some m \<Rightarrow> Some (o_nid m)
          | None \<Rightarrow> do { nid_ptr \<leftarrow> bsearch (obj_cmp T) obj (kNIDsInOIDOrder T); Some (static_nid T nid_ptr) }) })"

definition OBJ_cbs2nid :: "obj_tables \<Rightarrow> obj_state \<Rightarrow> cbs \<Rightarrow> u32 option" where
  "OBJ_cbs2nid T st cbs = (if CBS_len cbs > INT_MAX then Some NID_undef
     else OBJ_obj2nid T st (Some (template\<lparr>o_data := Some (CBS_data cbs), o_length := uint (CBS_len cbs)\<rparr>)))"

definition OBJ_sn2nid :: "obj_tables \<Rightarrow> obj_state \<Rightarrow> u8 list \<Rightarrow> u32 option" where
  "OBJ_sn2nid T st short_name = do {
     match \<leftarrow> retrieve_added (added_by_short_name st) (template\<lparr>o_sn := Some short_name\<rparr>);
     (case match of Some m \<Rightarrow> Some (o_nid m)
      | None \<Rightarrow> do { nid_ptr \<leftarrow> bsearch (short_name_cmp T) short_name (kNIDsInShortNameOrder T);
                      Some (static_nid T nid_ptr) }) }"

definition OBJ_ln2nid :: "obj_tables \<Rightarrow> obj_state \<Rightarrow> u8 list \<Rightarrow> u32 option" where
  "OBJ_ln2nid T st long_name = do {
     match \<leftarrow> retrieve_added (added_by_long_name st) (template\<lparr>o_ln := Some long_name\<rparr>);
     (case match of Some m \<Rightarrow> Some (o_nid m)
      | None \<Rightarrow> do { nid_ptr \<leftarrow> bsearch (long_name_cmp T) long_name (kNIDsInLongNameOrder T);
                      Some (static_nid T nid_ptr) }) }"

definition OBJ_nid2obj :: "obj_tables \<Rightarrow> obj_state \<Rightarrow> u32 \<Rightarrow> asn1_object option option" where
  "OBJ_nid2obj T st nid = (if 0 \<le> sint nid \<and> sint nid < int NUM_NID
     then (let o' = kObjects T ! unat nid in
       if nid \<noteq> NID_undef \<and> o_nid o' = NID_undef then Some None else Some (Some o'))
     else retrieve_added (added_by_nid st) (template\<lparr>o_nid := nid\<rparr>))"

definition OBJ_nid2sn :: "obj_tables \<Rightarrow> obj_state \<Rightarrow> u32 \<Rightarrow> u8 list option option" where
  "OBJ_nid2sn T st nid = map_option (\<lambda>obj. Option.bind obj o_sn) (OBJ_nid2obj T st nid)"

definition OBJ_nid2ln :: "obj_tables \<Rightarrow> obj_state \<Rightarrow> u32 \<Rightarrow> u8 list option option" where
  "OBJ_nid2ln T st nid = map_option (\<lambda>obj. Option.bind obj o_ln) (OBJ_nid2obj T st nid)"

definition CBS_ASN1_OBJECT :: u32 where "CBS_ASN1_OBJECT = 6"

definition OBJ_nid2cbb :: "obj_tables \<Rightarrow> obj_state \<Rightarrow> mem \<Rightarrow> u32 \<Rightarrow> nat \<Rightarrow> cbb step" where
  "OBJ_nid2cbb T st mem nid d = (case OBJ_nid2obj T st nid of
     None \<Rightarrow> undef
   | Some None \<Rightarrow> ret False
   | Some (Some obj) \<Rightarrow> and_then (CBB_add_asn1 mem CBS_ASN1_OBJECT d)
       (and_then (CBB_add_bytes mem (obj_bytes obj) (Suc d)) (CBB_flush mem d)))"

section \<open>Texts\<close>

text \<open>A size that is passed as an \<open>int\<close>.\<close>

definition int_of_size :: "nat \<Rightarrow> int" where
  "int_of_size len = sint (word_of_nat len :: u32)"

text \<open>The object that a dotted decimal text describes; \<open>Some None\<close> is the error.\<close>

definition create_object_with_text_oid ::
  "mem \<Rightarrow> bool \<Rightarrow> u8 list \<Rightarrow> u8 list option \<Rightarrow> u8 list option \<Rightarrow> obj_state \<Rightarrow> (asn1_object option \<times> obj_state) option" where
  "create_object_with_text_oid mem get_nid oid short_name long_name st = do {
     (ok, cbb) \<leftarrow> CBB_init mem 32;
     if \<not> ok then do { cbb \<leftarrow> CBB_cleanup 0 cbb; Some (None, st) }
     else do {
       (ok, cbb) \<leftarrow> CBB_add_asn1_oid_from_text mem oid 0 cbb;
       if \<not> ok then do { cbb \<leftarrow> CBB_cleanup 0 cbb; Some (None, st) }
       else do {
         (buf, cbb) \<leftarrow> CBB_finish mem False 0 cbb;
         (case buf of None \<Rightarrow> do { cbb \<leftarrow> CBB_cleanup 0 cbb; Some (None, st) }
          | Some buf \<Rightarrow>
              let (nid, st) = (if get_nid then obj_next_nid st else (NID_undef, st)) in
              Some (ASN1_OBJECT_create mem nid (Some buf) (int_of_size (length buf)) short_name long_name, st)) } } }"

definition OBJ_txt2obj :: "obj_tables \<Rightarrow> obj_state \<Rightarrow> mem \<Rightarrow> u8 list \<Rightarrow> bool \<Rightarrow> asn1_object option option" where
  "OBJ_txt2obj T st mem s dont_search_names = do {
     nid \<leftarrow> (if dont_search_names then Some NID_undef
       else do { nid \<leftarrow> OBJ_sn2nid T st s; if nid = NID_undef then OBJ_ln2nid T st s else Some nid });
     if nid \<noteq> NID_undef then OBJ_nid2obj T st nid
     else map_option fst (create_object_with_text_oid mem False s None None st) }"

definition OBJ_txt2nid :: "obj_tables \<Rightarrow> obj_state \<Rightarrow> mem \<Rightarrow> u8 list \<Rightarrow> u32 option" where
  "OBJ_txt2nid T st mem s = do { obj \<leftarrow> OBJ_txt2obj T st mem s False; OBJ_obj2nid T st obj }"

text \<open>The copy of a string into a buffer of which \<open>dst_size\<close> bytes may be written.\<close>

definition OPENSSL_strlcpy :: "u8 list \<Rightarrow> u8 list \<Rightarrow> u64 \<Rightarrow> (u64 \<times> u8 list) option" where
  "OPENSSL_strlcpy dst s dst_size = (if dst_size = 0 then Some (word_of_nat (length s), dst)
     else map_option (Pair (word_of_nat (length s))) (put dst 0 (take (unat dst_size - 1) s @ [0])))"

text \<open>The value returned, and the buffer.\<close>

definition strlcpy_int :: "u8 list \<Rightarrow> u8 list \<Rightarrow> int \<Rightarrow> (int \<times> u8 list) option" where
  "strlcpy_int dst s dst_size = map_option (\<lambda>(n, dst). (if n > INT_MAX then - 1 else uint n, dst))
     (OPENSSL_strlcpy dst s (if dst_size < 0 then 0 else word_of_int dst_size))"

definition OBJ_obj2txt ::
  "obj_tables \<Rightarrow> obj_state \<Rightarrow> mem \<Rightarrow> u8 list \<Rightarrow> int \<Rightarrow> asn1_object option \<Rightarrow> bool \<Rightarrow> (int \<times> u8 list) option" where
  "OBJ_obj2txt T st mem out out_len obj always_return_oid = (
     case (if obj = None \<or> map_option o_length obj = Some 0 then None else obj) of
       None \<Rightarrow> strlcpy_int out [] out_len
     | Some obj \<Rightarrow> do {
         name \<leftarrow> (if always_return_oid then Some None
           else do {
             nid \<leftarrow> OBJ_obj2nid T st (Some obj);
             if nid = NID_undef then Some None
             else do { ln \<leftarrow> OBJ_nid2ln T st nid; if ln = None then OBJ_nid2sn T st nid else Some ln } });
         (case name of Some name \<Rightarrow> strlcpy_int out name out_len
          | None \<Rightarrow> do {
              txt \<leftarrow> CBS_asn1_oid_to_text mem (CBS_init (obj_bytes obj) (word_of_int (o_length obj)));
              (case txt of None \<Rightarrow> if out_len > 0 then map_option (Pair (- 1)) (put out 0 [0]) else Some (- 1, out)
               | Some txt \<Rightarrow> strlcpy_int out (butlast txt) out_len) }) })"

section \<open>Adding objects\<close>

text \<open>An insertion into a table that was not created reads through a null pointer.\<close>

definition insert_added ::
  "mem \<Rightarrow> asn1_object \<Rightarrow> asn1_object lhash option \<Rightarrow> (bool \<times> asn1_object lhash option) option" where
  "insert_added mem obj lh = (case lh of None \<Rightarrow> None
     | Some lh \<Rightarrow> map_option (\<lambda>(ok, old, lh). (ok, Some lh)) (lh_insert mem obj lh))"

definition new_tables :: "(nat \<Rightarrow> mem) \<Rightarrow> obj_state \<Rightarrow> obj_state" where
  "new_tables mem st = (if added_by_nid st = None
     then st\<lparr>added_by_nid := lh_new (mem 1) hash_nid cmp_nid, added_by_data := lh_new (mem 2) hash_data cmp_data,
       added_by_short_name := lh_new (mem 3) hash_short_name cmp_short_name,
       added_by_long_name := lh_new (mem 4) hash_long_name cmp_long_name\<rparr>
     else st)"

text \<open>\<open>mem k\<close> is the allocator during the \<open>k\<close>-th of the calls that allocate.\<close>

definition obj_add_object :: "(nat \<Rightarrow> mem) \<Rightarrow> asn1_object \<Rightarrow> obj_state \<Rightarrow> (bool \<times> obj_state) option" where
  "obj_add_object mem obj st = do {
     let obj = obj\<lparr>o_flags := o_flags obj AND NOT dynamic_flags\<rparr>;
     let st = new_tables mem st;
     (ok1, lh) \<leftarrow> insert_added (mem 5) obj (added_by_nid st);
     let st = st\<lparr>added_by_nid := lh\<rparr>;
     (ok2, lh) \<leftarrow> (if o_length obj \<noteq> 0 \<and> o_data obj \<noteq> None then insert_added (mem 6) obj (added_by_data st)
       else Some (True, added_by_data st));
     let st = st\<lparr>added_by_data := lh\<rparr>;
     (ok3, lh) \<leftarrow> (if o_sn obj \<noteq> None then insert_added (mem 7) obj (added_by_short_name st)
       else Some (True, added_by_short_name st));
     let st = st\<lparr>added_by_short_name := lh\<rparr>;
     (ok4, lh) \<leftarrow> (if o_ln obj \<noteq> None then insert_added (mem 8) obj (added_by_long_name st)
       else Some (True, added_by_long_name st));
     let st = st\<lparr>added_by_long_name := lh\<rparr>;
     Some (ok1 \<and> ok2 \<and> ok3 \<and> ok4, st) }"

definition OBJ_create ::
  "(nat \<Rightarrow> mem) \<Rightarrow> u8 list \<Rightarrow> u8 list option \<Rightarrow> u8 list option \<Rightarrow> obj_state \<Rightarrow> (u32 \<times> obj_state) option" where
  "OBJ_create mem oid short_name long_name st = do {
     (op', st) \<leftarrow> create_object_with_text_oid (mem 0) True oid short_name long_name st;
     (case op' of None \<Rightarrow> Some (NID_undef, st)
      | Some op' \<Rightarrow> do {
          (ok, st) \<leftarrow> obj_add_object mem op' st;
          Some (if ok then o_nid op' else NID_undef, st) }) }"

end
