(* ===== verification/Obj_Spec.thy ===== *)
theory Obj_Spec
  imports Obj Cbb_Asn1_Spec
begin

text \<open>
  The registry of object identifiers: the four comparison functions of the added objects meet the contract
  of the hash table, the searches of the generated tables find an equal entry when the
  tables are ordered, every state that calls of \<open>OBJ_create\<close> reach is well formed, and the lookups are those in
  the added objects, laid over the generated tables.
\<close>

section \<open>The keys of the tables\<close>

definition data_ok :: "asn1_object \<Rightarrow> bool" where
  "data_ok obj \<longleftrightarrow> o_length obj = int (length (obj_bytes obj))"

definition named :: "(asn1_object \<Rightarrow> u8 list option) \<Rightarrow> asn1_object \<Rightarrow> bool" where
  "named name obj \<longleftrightarrow> (\<exists>s. name obj = Some s \<and> is_cstring s)"

lemma obj_bytes_flags [simp]: "obj_bytes (obj\<lparr>o_flags := f\<rparr>) = obj_bytes obj"
  by (cases "o_data obj") (simp_all add: obj_bytes_def)

lemma cmp_data_zero: "data_ok a \<Longrightarrow> data_ok b \<Longrightarrow> cmp_data a b = 0 \<longleftrightarrow> obj_bytes a = obj_bytes b"
  by (auto simp: cmp_data_def Let_def data_ok_def memcmp_zero)

lemma cmp_nid_zero: "cmp_nid a b = 0 \<longleftrightarrow> o_nid a = o_nid b"
  by (simp add: cmp_nid_def signed_eq_0_iff)

interpretation by_nid: lhash_keys "\<lambda>obj. True" hash_nid cmp_nid
  by unfold_locales (auto simp: cmp_nid_zero hash_nid_def)

interpretation by_data: lhash_keys data_ok hash_data cmp_data
  by unfold_locales (auto simp: cmp_data_zero hash_data_def)

interpretation by_short_name: lhash_keys "named o_sn" hash_short_name cmp_short_name
  by unfold_locales (auto simp: named_def cmp_short_name_def hash_short_name_def strcmp_zero)

interpretation by_long_name: lhash_keys "named o_ln" hash_long_name cmp_long_name
  by unfold_locales (auto simp: named_def cmp_long_name_def hash_long_name_def strcmp_zero)

section \<open>Searching the static tables\<close>

lemma find_cong_set: "(\<And>x. x \<in> set xs \<Longrightarrow> P x = Q x) \<Longrightarrow> List.find P xs = List.find Q xs"
  by (induction xs) auto

lemma bsearch_ok:
  assumes c: "comparison valid cmp" and v: "\<forall>x \<in> set xs. valid (f x)" "valid (g key)" and so: "cmp_sorted cmp (map f xs)"
    and s: "\<And>x. x \<in> set xs \<Longrightarrow> sgn (cmp' key x) = sgn (cmp (g key) (f x))"
  shows "bsearch cmp' key xs = Some (List.find (\<lambda>x. cmp (g key) (f x) = 0) xs)"
proof -
  have m: "map (\<lambda>e. sgn (cmp' key e)) xs = map (\<lambda>e. sgn (cmp (g key) (f e))) xs" using s by simp
  have "sorted_wrt (\<lambda>x y. y \<le> x) (map (\<lambda>e. sgn (cmp (g key) (f e))) xs)"
    unfolding sorted_wrt_map
  proof (rule sorted_wrt_mono_rel [OF _ so [unfolded sorted_wrt_map]])
    fix x y assume xy: "x \<in> set xs" "y \<in> set xs" "cmp (f x) (f y) \<le> 0"
    then have vs: "valid (f x)" "valid (f y)" using v by simp_all
    show "sgn (cmp (g key) (f y)) \<le> sgn (cmp (g key) (f x))"
    proof (cases "cmp (g key) (f x) \<le> 0")
      case True
      then show ?thesis
        using comparison.trans [OF c v(2) vs _ xy(3)] comparison.trans_less [OF c v(2) vs _ xy(3)]
        by (cases "cmp (g key) (f x) < 0") (auto simp: sgn_if)
    qed (auto simp: sgn_if)
  qed
  then have "bsearch cmp' key xs = Some (List.find (\<lambda>e. cmp' key e = 0) xs)" unfolding bsearch_def m by simp
  also have "List.find (\<lambda>e. cmp' key e = 0) xs = List.find (\<lambda>x. cmp (g key) (f x) = 0) xs"
    by (rule find_cong_set) (metis s sgn_0_0)
  finally show ?thesis .
qed

text \<open>
  What the searches rely on of the generated tables: their size, objects and names that are well
  formed, and the order of the three indices.
\<close>

definition tables_ok :: "obj_tables \<Rightarrow> bool" where
  "tables_ok T \<longleftrightarrow> length (kObjects T) = NUM_NID \<and>
     (\<forall>k \<in> set (kNIDsInOIDOrder T). k < NUM_NID \<and> data_ok (kObjects T ! k)) \<and>
     (\<forall>k \<in> set (kNIDsInShortNameOrder T). k < NUM_NID \<and> named o_sn (kObjects T ! k)) \<and>
     (\<forall>k \<in> set (kNIDsInLongNameOrder T). k < NUM_NID \<and> named o_ln (kObjects T ! k)) \<and>
     cmp_sorted block_cmp (map (\<lambda>k. obj_bytes (kObjects T ! k)) (kNIDsInOIDOrder T)) \<and>
     cmp_sorted strcmp (map (\<lambda>k. the (o_sn (kObjects T ! k))) (kNIDsInShortNameOrder T)) \<and>
     cmp_sorted strcmp (map (\<lambda>k. the (o_ln (kObjects T ! k))) (kNIDsInLongNameOrder T))"

lemma short_name_search:
  assumes T: "tables_ok T" and s: "is_cstring s"
  shows "bsearch (short_name_cmp T) s (kNIDsInShortNameOrder T) =
    Some (List.find (\<lambda>k. o_sn (kObjects T ! k) = Some s) (kNIDsInShortNameOrder T))"
proof -
  have "bsearch (short_name_cmp T) s (kNIDsInShortNameOrder T) =
      Some (List.find (\<lambda>k. strcmp s (the (o_sn (kObjects T ! k))) = 0) (kNIDsInShortNameOrder T))"
    by (rule bsearch_ok [where cmp = strcmp and valid = is_cstring and g = "\<lambda>x. x"])
      (use T s strcmp.comparison_axioms in \<open>auto simp: tables_ok_def named_def short_name_cmp_def\<close>)
  also have "List.find (\<lambda>k. strcmp s (the (o_sn (kObjects T ! k))) = 0) (kNIDsInShortNameOrder T) =
      List.find (\<lambda>k. o_sn (kObjects T ! k) = Some s) (kNIDsInShortNameOrder T)"
    by (rule find_cong_set) (use T s in \<open>auto simp: tables_ok_def named_def strcmp_zero\<close>)
  finally show ?thesis .
qed

lemma long_name_search:
  assumes T: "tables_ok T" and s: "is_cstring s"
  shows "bsearch (long_name_cmp T) s (kNIDsInLongNameOrder T) =
    Some (List.find (\<lambda>k. o_ln (kObjects T ! k) = Some s) (kNIDsInLongNameOrder T))"
proof -
  have "bsearch (long_name_cmp T) s (kNIDsInLongNameOrder T) =
      Some (List.find (\<lambda>k. strcmp s (the (o_ln (kObjects T ! k))) = 0) (kNIDsInLongNameOrder T))"
    by (rule bsearch_ok [where cmp = strcmp and valid = is_cstring and g = "\<lambda>x. x"])
      (use T s strcmp.comparison_axioms in \<open>auto simp: tables_ok_def named_def long_name_cmp_def\<close>)
  also have "List.find (\<lambda>k. strcmp s (the (o_ln (kObjects T ! k))) = 0) (kNIDsInLongNameOrder T) =
      List.find (\<lambda>k. o_ln (kObjects T ! k) = Some s) (kNIDsInLongNameOrder T)"
    by (rule find_cong_set) (use T s in \<open>auto simp: tables_ok_def named_def strcmp_zero\<close>)
  finally show ?thesis .
qed

lemma oid_search:
  assumes T: "tables_ok T" and s: "data_ok obj"
  shows "bsearch (obj_cmp T) obj (kNIDsInOIDOrder T) =
    Some (List.find (\<lambda>k. obj_bytes (kObjects T ! k) = obj_bytes obj) (kNIDsInOIDOrder T))"
proof -
  have "bsearch (obj_cmp T) obj (kNIDsInOIDOrder T) =
      Some (List.find (\<lambda>k. block_cmp (obj_bytes obj) (obj_bytes (kObjects T ! k)) = 0) (kNIDsInOIDOrder T))"
    by (rule bsearch_ok [where cmp = block_cmp and valid = "\<lambda>x. True" and g = obj_bytes])
      (use T s block_cmp.comparison_axioms in \<open>auto simp: tables_ok_def data_ok_def obj_cmp_def block_cmp_def Let_def sgn_if\<close>)
  also have "List.find (\<lambda>k. block_cmp (obj_bytes obj) (obj_bytes (kObjects T ! k)) = 0) (kNIDsInOIDOrder T) =
      List.find (\<lambda>k. obj_bytes (kObjects T ! k) = obj_bytes obj) (kNIDsInOIDOrder T)"
    by (rule find_cong_set) (auto simp: block_cmp_def memcmp_zero)
  finally show ?thesis .
qed


section \<open>Objects that are added\<close>

lemma create_produced:
  "create_object_with_text_oid mem g oid sn ln st =
    (case produced mem 32 (CBB_add_asn1_oid_from_text mem oid 0) of None \<Rightarrow> None
     | Some None \<Rightarrow> Some (None, st)
     | Some (Some buf) \<Rightarrow> (let (nid, st) = (if g then obj_next_nid st else (NID_undef, st)) in
         Some (ASN1_OBJECT_create mem nid (Some buf) (int_of_size (length buf)) sn ln, st)))"
  by (auto simp: create_object_with_text_oid_def produced_def CBB_cleanup_def split: Option.bind_split option.split prod.split)

lemma int_of_size: "n < 2 ^ 31 \<Longrightarrow> int_of_size n = int n"
  unfolding int_of_size_def by (simp add: signed_of_nat signed_take_bit_int_eq_self)

lemma int_of_size_le: "int_of_size n \<le> int n"
proof (cases "n < 2 ^ 31")
  case False
  have "sint (word_of_nat n :: u32) < 2 ^ 31" using sint_lt [of "word_of_nat n :: u32"] by simp
  moreover have "2 ^ 31 \<le> int n" using False by simp
  ultimately show ?thesis unfolding int_of_size_def by linarith
qed (simp add: int_of_size)

text \<open>What the tables hold of an object that was made from a text.\<close>

definition object_for :: "u8 list \<Rightarrow> u8 list option \<Rightarrow> u8 list option \<Rightarrow> u32 \<Rightarrow> asn1_object \<Rightarrow> bool" where
  "object_for oid sn ln nid obj \<longleftrightarrow> o_nid obj = nid \<and> o_sn obj = sn \<and> o_ln obj = ln \<and> o_data obj \<noteq> None \<and> data_ok obj \<and>
     (\<exists>a b vs. oid = join_dots (a # b # vs) \<and> first_ok a b \<and>
       (length (comps_der ((40 * a + b) # vs)) < 2 ^ 31 \<longrightarrow> obj_bytes obj = comps_der ((40 * a + b) # vs)))"

lemma create_object_for:
  assumes "ASN1_OBJECT_create mem nid (Some buf) (int_of_size (length buf)) sn ln = Some obj"
    and "oid = join_dots (a # b # vs)" "first_ok a b" "buf = comps_der ((40 * a + b) # vs)"
  shows "object_for oid sn ln nid obj"
proof -
  let ?l = "int_of_size (length buf)"
  have l: "0 \<le> ?l" and o: "o_nid obj = nid" "o_sn obj = sn" "o_ln obj = ln" "o_length obj = ?l"
      "o_data obj = Some (take (nat ?l) buf)"
    using assms(1) unfolding ASN1_OBJECT_create_def OBJ_dup_def
    by (auto simp: obj_bytes_def dynamic_flags_def ASN1_OBJECT_FLAG_DYNAMIC_def ASN1_OBJECT_FLAG_DYNAMIC_STRINGS_def
        ASN1_OBJECT_FLAG_DYNAMIC_DATA_def split: option.splits if_splits)
  have d: "data_ok obj" using l int_of_size_le [of "length buf"] by (simp add: data_ok_def obj_bytes_def o)
  have b: "length buf < 2 ^ 31 \<longrightarrow> obj_bytes obj = buf" by (simp add: obj_bytes_def o int_of_size)
  show ?thesis unfolding object_for_def using o d b assms(2-4) by blast
qed

text \<open>Making an object is always defined; only a valid text gives one, and only then is an identifier used up.\<close>

lemma create_text:
  "\<exists>res st'. create_object_with_text_oid mem True oid sn ln st = Some (res, st') \<and>
    (st' = st \<and> res = None \<or> st' = snd (obj_next_nid st) \<and> (\<forall>obj. res = Some obj \<longrightarrow> object_for oid sn ln (next_nid st) obj))"
proof (cases "\<exists>a b vs. first_ok a b \<and> oid = join_dots (a # b # vs)")
  case True
  then obtain a b vs where v: "first_ok a b" "oid = join_dots (a # b # vs)" by blast
  from produced_appends [OF from_text_join [OF v(1), where mem = mem and d = 0 and vs = vs] keeping_from_text, of 32]
  obtain res where r: "produced mem 32 (CBB_add_asn1_oid_from_text mem oid 0) = Some res"
    "\<forall>bs. res = Some bs \<longrightarrow> bs = comps_der ((40 * a + b) # vs)" unfolding v(2) by auto
  show ?thesis
  proof (cases res)
    case None
    then show ?thesis using r(1) by (simp add: create_produced)
  next
    case (Some buf)
    then have "create_object_with_text_oid mem True oid sn ln st =
        Some (ASN1_OBJECT_create mem (next_nid st) (Some buf) (int_of_size (length buf)) sn ln, snd (obj_next_nid st))"
      using r(1) by (simp add: create_produced obj_next_nid_def)
    moreover have "\<forall>obj. ASN1_OBJECT_create mem (next_nid st) (Some buf) (int_of_size (length buf)) sn ln = Some obj \<longrightarrow>
        object_for oid sn ln (next_nid st) obj"
      using r(2) Some create_object_for [OF _ v(2,1)] by blast
    ultimately show ?thesis by blast
  qed
next
  case False
  then have "appends mem 0 (CBB_add_asn1_oid_from_text mem oid 0) None" by (intro from_text_fails) blast
  from produced_appends [OF this keeping_from_text, of 32]
  have "produced mem 32 (CBB_add_asn1_oid_from_text mem oid 0) = Some None" by (metis option.distinct(1) option.exhaust)
  then show ?thesis by (simp add: create_produced)
qed

section \<open>States of the registry\<close>

abbreviation tables :: "obj_state \<Rightarrow> asn1_object lhash option \<times> asn1_object lhash option \<times> asn1_object lhash option \<times> asn1_object lhash option" where
  "tables st \<equiv> (added_by_nid st, added_by_data st, added_by_short_name st, added_by_long_name st)"

definition tables_made :: "obj_state \<Rightarrow> bool" where
  "tables_made st \<longleftrightarrow> (\<exists>n d s l. tables st = (Some n, Some d, Some s, Some l) \<and>
     by_nid.ok n \<and> by_data.ok d \<and> by_short_name.ok s \<and> by_long_name.ok l)"

definition registry_ok :: "obj_state \<Rightarrow> bool" where
  "registry_ok st \<longleftrightarrow> tables st = (None, None, None, None) \<or> tables_made st"

text \<open>The object that a table holds for a key.\<close>

definition added :: "asn1_object lhash option \<Rightarrow> asn1_object \<Rightarrow> asn1_object option" where
  "added lh key = Option.bind lh (\<lambda>lh. lh_lookup lh key)"

lemma added_None [simp]: "added None key = None" by (simp add: added_def)

text \<open>An insertion into a table either stores the object for its class of keys, or leaves the table.\<close>

definition stored :: "('a \<Rightarrow> bool) \<Rightarrow> ('a \<Rightarrow> 'a \<Rightarrow> int) \<Rightarrow> 'a \<Rightarrow> bool \<Rightarrow> 'a lhash \<Rightarrow> 'a lhash \<Rightarrow> bool" where
  "stored valid cmp obj ok lh lh' \<longleftrightarrow>
     (\<forall>y. valid y \<longrightarrow> lh_lookup lh' y = (if ok \<and> cmp obj y = 0 then Some obj else lh_lookup lh y))"

lemma insert_stored:
  assumes k: "lhash_keys valid hash cmp" and a: "lh_ok valid hash cmp lh" "valid obj"
  shows "\<exists>ok lh'. insert_added mem obj (Some lh) = Some (ok, Some lh') \<and> lh_ok valid hash cmp lh' \<and> stored valid cmp obj ok lh lh'"
  using lhash_keys.insert_refines [OF k a, of mem] by (fastforce simp: insert_added_def stored_def split: if_splits)


definition tables_allocated :: "(nat \<Rightarrow> mem) \<Rightarrow> bool" where
  "tables_allocated mem \<longleftrightarrow> (\<forall>k \<in> {1, 2, 3, 4}. mem k 48 \<and> mem k 128)"

lemma new_table:
  assumes k: "lhash_keys valid hash cmp" and m: "mem 48" "mem 128"
  shows "\<exists>lh. lh_new mem hash cmp = Some lh \<and> lh_ok valid hash cmp lh \<and> (\<forall>y. lh_lookup lh y = None)"
proof -
  obtain lh where lh: "lh_new mem hash cmp = Some lh" using m by (simp add: lh_new_def kMinNumBuckets_def)
  show ?thesis using lh lhash_keys.new_refines(1,2) [OF k lh] by blast
qed

lemma new_tables_made:
  assumes "registry_ok st" "added_by_nid st = None \<longrightarrow> tables_allocated mem"
  shows "tables_made (new_tables mem st) \<and> next_nid (new_tables mem st) = next_nid st \<and>
    added (added_by_nid (new_tables mem st)) = added (added_by_nid st) \<and>
    added (added_by_data (new_tables mem st)) = added (added_by_data st) \<and>
    added (added_by_short_name (new_tables mem st)) = added (added_by_short_name st) \<and>
    added (added_by_long_name (new_tables mem st)) = added (added_by_long_name st)"
proof (cases "added_by_nid st = None")
  case True
  then have t: "tables st = (None, None, None, None)" using assms(1) by (auto simp: registry_ok_def tables_made_def)
  have m: "mem 1 48" "mem 1 128" "mem 2 48" "mem 2 128" "mem 3 48" "mem 3 128" "mem 4 48" "mem 4 128"
    using assms(2) True by (simp_all add: tables_allocated_def)
  obtain n d s l where new: "lh_new (mem 1) hash_nid cmp_nid = Some n" "by_nid.ok n" "\<forall>y. lh_lookup n y = None"
      "lh_new (mem 2) hash_data cmp_data = Some d" "by_data.ok d" "\<forall>y. lh_lookup d y = None"
      "lh_new (mem 3) hash_short_name cmp_short_name = Some s" "by_short_name.ok s" "\<forall>y. lh_lookup s y = None"
      "lh_new (mem 4) hash_long_name cmp_long_name = Some l" "by_long_name.ok l" "\<forall>y. lh_lookup l y = None"
    using new_table [where mem = "mem 1", OF by_nid.lhash_keys_axioms m(1,2)] new_table [where mem = "mem 2", OF by_data.lhash_keys_axioms m(3,4)]
      new_table [where mem = "mem 3", OF by_short_name.lhash_keys_axioms m(5,6)] new_table [where mem = "mem 4", OF by_long_name.lhash_keys_axioms m(7,8)]
    by metis
  show ?thesis using t new by (auto simp: new_tables_def tables_made_def added_def fun_eq_iff)
next
  case False
  then show ?thesis using assms(1) by (auto simp: registry_ok_def new_tables_def)
qed

text \<open>The lookups after an addition.\<close>

definition overlay :: "(asn1_object \<Rightarrow> bool) \<Rightarrow> (asn1_object \<Rightarrow> asn1_object \<Rightarrow> int) \<Rightarrow> asn1_object \<Rightarrow> bool \<Rightarrow>
    asn1_object lhash option \<Rightarrow> asn1_object lhash option \<Rightarrow> bool" where
  "overlay valid cmp obj ok lh lh' \<longleftrightarrow>
     (\<forall>y. valid y \<longrightarrow> added lh' y = (if ok \<and> cmp obj y = 0 then Some obj else added lh y))"

lemma overlay_stored: "overlay valid cmp obj ok (Some lh) (Some lh') \<longleftrightarrow> stored valid cmp obj ok lh lh'"
  by (simp add: overlay_def stored_def added_def)

lemma overlay_same: "overlay valid cmp obj False lh lh"
  by (simp add: overlay_def)

lemma insert_overlay:
  assumes k: "lhash_keys valid hash cmp" and lh: "lh_ok valid hash cmp lh" and v: "p \<longrightarrow> valid obj"
  shows "\<exists>ok lh'. (if p then insert_added mem obj (Some lh) else Some (True, Some lh)) = Some (ok, Some lh') \<and>
    lh_ok valid hash cmp lh' \<and> overlay valid cmp obj (p \<and> ok) (Some lh) (Some lh')"
proof (cases p)
  case True
  then have v: "valid obj" using v by simp
  show ?thesis using insert_stored [OF k lh v, of mem] True by (simp add: overlay_stored)
next
  case False
  then show ?thesis using lh by (simp add: overlay_same)
qed

lemma add_object:
  assumes r: "registry_ok st" and al: "added_by_nid st = None \<longrightarrow> tables_allocated mem"
    and v: "data_ok obj" "o_sn obj \<noteq> None \<longrightarrow> named o_sn obj" "o_ln obj \<noteq> None \<longrightarrow> named o_ln obj"
  defines "obj' \<equiv> obj\<lparr>o_flags := o_flags obj AND NOT dynamic_flags\<rparr>"
  shows "\<exists>ok1 ok2 ok3 ok4 st'. obj_add_object mem obj st = Some (ok1 \<and> ok2 \<and> ok3 \<and> ok4, st') \<and> tables_made st' \<and>
    next_nid st' = next_nid st \<and>
    overlay (\<lambda>x. True) cmp_nid obj' ok1 (added_by_nid st) (added_by_nid st') \<and>
    overlay data_ok cmp_data obj' ((o_length obj \<noteq> 0 \<and> o_data obj \<noteq> None) \<and> ok2) (added_by_data st) (added_by_data st') \<and>
    overlay (named o_sn) cmp_short_name obj' (o_sn obj \<noteq> None \<and> ok3) (added_by_short_name st) (added_by_short_name st') \<and>
    overlay (named o_ln) cmp_long_name obj' (o_ln obj \<noteq> None \<and> ok4) (added_by_long_name st) (added_by_long_name st')"
proof -
  let ?s = "new_tables mem st"
  note new = new_tables_made [OF r al]
  then obtain n d s l where t: "tables ?s = (Some n, Some d, Some s, Some l)" "by_nid.ok n" "by_data.ok d"
      "by_short_name.ok s" "by_long_name.ok l" by (auto simp: tables_made_def)
  have f: "o_length obj' = o_length obj" "o_data obj' = o_data obj" "o_sn obj' = o_sn obj" "o_ln obj' = o_ln obj"
    by (simp_all add: obj'_def)
  have v': "data_ok obj'" "o_sn obj \<noteq> None \<longrightarrow> named o_sn obj'" "o_ln obj \<noteq> None \<longrightarrow> named o_ln obj'"
    using v unfolding data_ok_def obj_bytes_def named_def f by blast+
  obtain ok1 n' where 1: "insert_added (mem 5) obj' (Some n) = Some (ok1, Some n')" "by_nid.ok n'"
      "overlay (\<lambda>x. True) cmp_nid obj' ok1 (Some n) (Some n')"
    using insert_overlay [OF by_nid.lhash_keys_axioms t(2), where p = True and obj = obj' and mem = "mem 5"] by auto
  obtain ok2 d' where 2: "(if o_length obj' \<noteq> 0 \<and> o_data obj' \<noteq> None then insert_added (mem 6) obj' (Some d) else Some (True, Some d)) = Some (ok2, Some d')"
      "by_data.ok d'" "overlay data_ok cmp_data obj' ((o_length obj \<noteq> 0 \<and> o_data obj \<noteq> None) \<and> ok2) (Some d) (Some d')"
    using insert_overlay [OF by_data.lhash_keys_axioms t(3), where p = "o_length obj \<noteq> 0 \<and> o_data obj \<noteq> None" and obj = obj' and mem = "mem 6"] v'(1)
    unfolding f by blast
  obtain ok3 s' where 3: "(if o_sn obj' \<noteq> None then insert_added (mem 7) obj' (Some s) else Some (True, Some s)) = Some (ok3, Some s')"
      "by_short_name.ok s'" "overlay (named o_sn) cmp_short_name obj' (o_sn obj \<noteq> None \<and> ok3) (Some s) (Some s')"
    using insert_overlay [OF by_short_name.lhash_keys_axioms t(4) v'(2), where mem = "mem 7"] unfolding f by blast
  obtain ok4 l' where 4: "(if o_ln obj' \<noteq> None then insert_added (mem 8) obj' (Some l) else Some (True, Some l)) = Some (ok4, Some l')"
      "by_long_name.ok l'" "overlay (named o_ln) cmp_long_name obj' (o_ln obj \<noteq> None \<and> ok4) (Some l) (Some l')"
    using insert_overlay [OF by_long_name.lhash_keys_axioms t(5) v'(3), where mem = "mem 8"] unfolding f by blast
  define st' where "st' = ?s\<lparr>added_by_nid := Some n', added_by_data := Some d', added_by_short_name := Some s', added_by_long_name := Some l'\<rparr>"
  have "obj_add_object mem obj st = Some (ok1 \<and> ok2 \<and> ok3 \<and> ok4, st')"
    using t(1) 1(1) 2(1) 3(1) 4(1)
    by (simp add: obj_add_object_def Let_def obj'_def [symmetric] st'_def split del: if_split del: not_None_eq cong: if_cong)
  moreover have "tables_made st'" using 1(2) 2(2) 3(2) 4(2) by (simp add: tables_made_def st'_def)
  moreover have "next_nid st' = next_nid st" using new by (simp add: st'_def)
  moreover have ov: "overlay vd cmp obj' ok lh lh'" if "overlay vd cmp obj' ok lh'' lh'" "added lh'' = added lh" for vd cmp ok lh lh' lh''
    using that by (simp add: overlay_def)
  have "overlay (\<lambda>x. True) cmp_nid obj' ok1 (added_by_nid st) (added_by_nid st')"
    "overlay data_ok cmp_data obj' ((o_length obj \<noteq> 0 \<and> o_data obj \<noteq> None) \<and> ok2) (added_by_data st) (added_by_data st')"
    "overlay (named o_sn) cmp_short_name obj' (o_sn obj \<noteq> None \<and> ok3) (added_by_short_name st) (added_by_short_name st')"
    "overlay (named o_ln) cmp_long_name obj' (o_ln obj \<noteq> None \<and> ok4) (added_by_long_name st) (added_by_long_name st')"
    using ov [OF 1(3)] ov [OF 2(3)] ov [OF 3(3)] ov [OF 4(3)] new t(1) by (simp_all add: st'_def)
  ultimately show ?thesis by blast
qed


section \<open>Reachable states\<close>

definition name_ok :: "u8 list option \<Rightarrow> bool" where
  "name_ok name \<longleftrightarrow> (\<forall>s. name = Some s \<longrightarrow> is_cstring s)"

text \<open>
  The states after \<open>n\<close> calls of \<open>OBJ_create\<close>, successful or not, any allocation of which may fail, but for
  those of the tables themselves in the first call that adds an object.
\<close>

inductive obj_run :: "nat \<Rightarrow> obj_state \<Rightarrow> bool" where
  run_start: "obj_run 0 obj_initial"
| run_create: "obj_run n st \<Longrightarrow> added_by_nid st = None \<longrightarrow> tables_allocated mem \<Longrightarrow> name_ok sn \<Longrightarrow> name_ok ln \<Longrightarrow>
    OBJ_create mem oid sn ln st = Some (nid, st') \<Longrightarrow> obj_run (Suc n) st'"

text \<open>A creation fails, or it adds the object in every table that has its key.\<close>

lemma create_cases:
  assumes r: "registry_ok st" and al: "added_by_nid st = None \<longrightarrow> tables_allocated mem" and v: "name_ok sn" "name_ok ln"
  shows "\<exists>nid st'. OBJ_create mem oid sn ln st = Some (nid, st') \<and> registry_ok st' \<and>
    (next_nid st' = next_nid st \<or> next_nid st' = next_nid st + 1) \<and>
    (nid \<noteq> 0 \<longrightarrow> (\<exists>obj. object_for oid sn ln nid obj \<and> nid = next_nid st \<and>
       overlay (\<lambda>x. True) cmp_nid obj True (added_by_nid st) (added_by_nid st') \<and>
       overlay data_ok cmp_data obj (o_length obj \<noteq> 0) (added_by_data st) (added_by_data st') \<and>
       overlay (named o_sn) cmp_short_name obj (sn \<noteq> None) (added_by_short_name st) (added_by_short_name st') \<and>
       overlay (named o_ln) cmp_long_name obj (ln \<noteq> None) (added_by_long_name st) (added_by_long_name st')))"
proof -
  obtain res st1 where c: "create_object_with_text_oid (mem 0) True oid sn ln st = Some (res, st1)"
      "st1 = st \<and> res = None \<or> st1 = snd (obj_next_nid st) \<and> (\<forall>obj. res = Some obj \<longrightarrow> object_for oid sn ln (next_nid st) obj)"
    using create_text by blast
  have next': "next_nid st1 = next_nid st \<or> next_nid st1 = next_nid st + 1" and t: "tables st1 = tables st"
    using c(2) by (auto simp: obj_next_nid_def)
  have r1: "registry_ok st1" using r t by (simp add: registry_ok_def tables_made_def)
  show ?thesis
  proof (cases res)
    case None
    then have "OBJ_create mem oid sn ln st = Some (0, st1)" using c(1) by (simp add: OBJ_create_def NID_undef_def)
    then show ?thesis using r1 next' by auto
  next
    case (Some obj)
    then have o: "object_for oid sn ln (next_nid st) obj" using c(2) by simp
    then have f: "data_ok obj" "o_sn obj = sn" "o_ln obj = ln" "o_nid obj = next_nid st" "o_data obj \<noteq> None"
      by (simp_all add: object_for_def)
    have al1: "added_by_nid st1 = None \<longrightarrow> tables_allocated mem" using al t by simp
    have n: "o_sn obj \<noteq> None \<longrightarrow> named o_sn obj" "o_ln obj \<noteq> None \<longrightarrow> named o_ln obj"
      using v by (auto simp: named_def name_ok_def f)
    let ?obj = "obj\<lparr>o_flags := o_flags obj AND NOT dynamic_flags\<rparr>"
    have o': "object_for oid sn ln (next_nid st) ?obj" using o by (simp add: object_for_def data_ok_def)
    obtain ok1 ok2 ok3 ok4 st' where a: "obj_add_object mem obj st1 = Some (ok1 \<and> ok2 \<and> ok3 \<and> ok4, st')" "tables_made st'"
        "next_nid st' = next_nid st1"
        "overlay (\<lambda>x. True) cmp_nid ?obj ok1 (added_by_nid st) (added_by_nid st')"
        "overlay data_ok cmp_data ?obj ((o_length obj \<noteq> 0 \<and> o_data obj \<noteq> None) \<and> ok2) (added_by_data st) (added_by_data st')"
        "overlay (named o_sn) cmp_short_name ?obj (o_sn obj \<noteq> None \<and> ok3) (added_by_short_name st) (added_by_short_name st')"
        "overlay (named o_ln) cmp_long_name ?obj (o_ln obj \<noteq> None \<and> ok4) (added_by_long_name st) (added_by_long_name st')"
      using add_object [OF r1 al1 f(1) n] t by auto
    have "OBJ_create mem oid sn ln st = Some (if ok1 \<and> ok2 \<and> ok3 \<and> ok4 then next_nid st else 0, st')"
      using c(1) Some a(1) f(4) by (simp add: OBJ_create_def NID_undef_def)
    moreover have "registry_ok st'" using a(2) by (simp add: registry_ok_def)
    moreover have "next_nid st' = next_nid st \<or> next_nid st' = next_nid st + 1" using next' a(3) by simp
    moreover have "overlay (\<lambda>x. True) cmp_nid ?obj True (added_by_nid st) (added_by_nid st') \<and>
       overlay data_ok cmp_data ?obj (o_length ?obj \<noteq> 0) (added_by_data st) (added_by_data st') \<and>
       overlay (named o_sn) cmp_short_name ?obj (sn \<noteq> None) (added_by_short_name st) (added_by_short_name st') \<and>
       overlay (named o_ln) cmp_long_name ?obj (ln \<noteq> None) (added_by_long_name st) (added_by_long_name st')"
      if "ok1 \<and> ok2 \<and> ok3 \<and> ok4"
      using a(4-7) that f(5) by (simp add: f(2,3))
    ultimately show ?thesis using o' by auto
  qed
qed

lemma run_ok: "obj_run n st \<Longrightarrow> registry_ok st \<and> (\<exists>m \<le> n. next_nid st = word_of_nat (NUM_NID + m))"
proof (induction rule: obj_run.induct)
  case run_start
  then show ?case by (auto simp: obj_initial_def registry_ok_def)
next
  case (run_create n st mem sn ln oid nid st')
  then obtain m where m: "registry_ok st" "m \<le> n" "next_nid st = word_of_nat (NUM_NID + m)" by blast
  have "registry_ok st'" "next_nid st' = next_nid st \<or> next_nid st' = next_nid st + 1"
    using create_cases [OF m(1) run_create(2-4), of oid] run_create(5) by auto
  moreover have "next_nid st + 1 = word_of_nat (NUM_NID + Suc m)" using m(3) by simp
  ultimately show ?case using m(2,3) by (metis Suc_le_mono le_SucI)
qed


section \<open>Lookups\<close>

lemma retrieve_added_ok:
  assumes "lhash_keys valid hash cmp" "lh = None \<or> (\<exists>t. lh = Some t \<and> lh_ok valid hash cmp t)" "valid key"
  shows "retrieve_added lh key = Some (added lh key)"
  using lhash_keys.retrieve_refines [OF assms(1) _ assms(3)] assms(2) by (auto simp: retrieve_added_def added_def)

lemma retrieve_tables:
  assumes "registry_ok st"
  shows "retrieve_added (added_by_nid st) key = Some (added (added_by_nid st) key)"
    "data_ok key \<Longrightarrow> retrieve_added (added_by_data st) key = Some (added (added_by_data st) key)"
    "named o_sn key \<Longrightarrow> retrieve_added (added_by_short_name st) key = Some (added (added_by_short_name st) key)"
    "named o_ln key \<Longrightarrow> retrieve_added (added_by_long_name st) key = Some (added (added_by_long_name st) key)"
  using assms retrieve_added_ok [OF by_nid.lhash_keys_axioms] retrieve_added_ok [OF by_data.lhash_keys_axioms]
    retrieve_added_ok [OF by_short_name.lhash_keys_axioms] retrieve_added_ok [OF by_long_name.lhash_keys_axioms]
  by (auto simp: registry_ok_def tables_made_def)

text \<open>The keys that the lookups make.\<close>

abbreviation sn_key :: "u8 list \<Rightarrow> asn1_object" where "sn_key s \<equiv> template\<lparr>o_sn := Some s\<rparr>"
abbreviation ln_key :: "u8 list \<Rightarrow> asn1_object" where "ln_key s \<equiv> template\<lparr>o_ln := Some s\<rparr>"
abbreviation nid_key :: "u32 \<Rightarrow> asn1_object" where "nid_key nid \<equiv> template\<lparr>o_nid := nid\<rparr>"
abbreviation data_key :: "u8 list \<Rightarrow> asn1_object" where
  "data_key d \<equiv> template\<lparr>o_data := Some d, o_length := int (length d)\<rparr>"

lemma keys_ok [simp]: "is_cstring s \<Longrightarrow> named o_sn (sn_key s)" "is_cstring s \<Longrightarrow> named o_ln (ln_key s)" "data_ok (data_key d)"
  "obj_bytes (data_key d) = d"
  by (simp_all add: named_def data_ok_def obj_bytes_def)

text \<open>The identifier of an added object, if there is one, and otherwise that of the static tables.\<close>

definition overlaid :: "obj_tables \<Rightarrow> asn1_object option \<Rightarrow> nat option \<Rightarrow> u32" where
  "overlaid T a k = (case a of Some obj \<Rightarrow> o_nid obj | None \<Rightarrow> static_nid T k)"

lemma cbs_len_small: "length d < 2 ^ 31 \<Longrightarrow> \<not> CBS_len d > INT_MAX \<and> uint (CBS_len d) = int (length d)"
proof -
  assume "length d < 2 ^ 31"
  then have "length d < 2 ^ 64" "length d \<le> 0x7FFFFFFF" by simp_all
  then show ?thesis by (simp add: CBS_len_def INT_MAX_def word_less_nat_alt unat_of_nat take_bit_nat_eq_self uint_nat)
qed

lemma sn2nid:
  assumes "registry_ok st" "tables_ok T" "is_cstring s"
  shows "OBJ_sn2nid T st s = Some (overlaid T (added (added_by_short_name st) (sn_key s))
    (List.find (\<lambda>k. o_sn (kObjects T ! k) = Some s) (kNIDsInShortNameOrder T)))"
  using retrieve_tables(3) [OF assms(1) keys_ok(1) [OF assms(3)]] short_name_search [OF assms(2,3)]
  by (cases "added (added_by_short_name st) (sn_key s)") (simp_all add: OBJ_sn2nid_def overlaid_def)

lemma ln2nid:
  assumes "registry_ok st" "tables_ok T" "is_cstring s"
  shows "OBJ_ln2nid T st s = Some (overlaid T (added (added_by_long_name st) (ln_key s))
    (List.find (\<lambda>k. o_ln (kObjects T ! k) = Some s) (kNIDsInLongNameOrder T)))"
  using retrieve_tables(4) [OF assms(1) keys_ok(2) [OF assms(3)]] long_name_search [OF assms(2,3)]
  by (cases "added (added_by_long_name st) (ln_key s)") (simp_all add: OBJ_ln2nid_def overlaid_def)

lemma cbs2nid:
  assumes "registry_ok st" "tables_ok T" "length d < 2 ^ 31"
  shows "OBJ_cbs2nid T st d = Some (overlaid T (added (added_by_data st) (data_key d))
    (List.find (\<lambda>k. obj_bytes (kObjects T ! k) = d) (kNIDsInOIDOrder T)))"
proof -
  have "OBJ_cbs2nid T st d = OBJ_obj2nid T st (Some (data_key d))"
    using cbs_len_small [OF assms(3)] by (simp add: OBJ_cbs2nid_def CBS_data_def)
  moreover have "o_nid (data_key d) = 0" by (simp add: template_def)
  ultimately show ?thesis
    using retrieve_tables(2) [OF assms(1) keys_ok(3) [of d]] oid_search [OF assms(2) keys_ok(3) [of d]]
    by (cases "added (added_by_data st) (data_key d)") (simp_all add: OBJ_obj2nid_def overlaid_def)
qed

lemma nid2obj:
  assumes "registry_ok st"
  shows "OBJ_nid2obj T st nid = Some (if 0 \<le> sint nid \<and> sint nid < int NUM_NID
    then (if nid \<noteq> 0 \<and> o_nid (kObjects T ! unat nid) = 0 then None else Some (kObjects T ! unat nid))
    else added (added_by_nid st) (nid_key nid))"
  using retrieve_tables(1) [OF assms] by (simp add: OBJ_nid2obj_def NID_undef_def Let_def)

text \<open>
  C27. The registry of object identifiers: after any calls of \<open>OBJ_create\<close>, successful or not, every
  lookup is defined and is the one in the added objects, and where they hold no match, the one
  in the generated tables, by a search for an entry with equal bytes or an equal name; and
  \<open>OBJ_create\<close> is defined in every such state unless it has to allocate the tables and cannot.
\<close>

theorem obj_lookups_refine:
  assumes T: "tables_ok T" and run: "obj_run n st"
  shows "(\<forall>s. is_cstring s \<longrightarrow> OBJ_sn2nid T st s = Some (overlaid T (added (added_by_short_name st) (sn_key s))
      (List.find (\<lambda>k. o_sn (kObjects T ! k) = Some s) (kNIDsInShortNameOrder T)))) \<and>
    (\<forall>s. is_cstring s \<longrightarrow> OBJ_ln2nid T st s = Some (overlaid T (added (added_by_long_name st) (ln_key s))
      (List.find (\<lambda>k. o_ln (kObjects T ! k) = Some s) (kNIDsInLongNameOrder T)))) \<and>
    (\<forall>d. length d < 2 ^ 31 \<longrightarrow> OBJ_cbs2nid T st d = Some (overlaid T (added (added_by_data st) (data_key d))
      (List.find (\<lambda>k. obj_bytes (kObjects T ! k) = d) (kNIDsInOIDOrder T)))) \<and>
    (\<forall>mem oid sn ln. (added_by_nid st = None \<longrightarrow> tables_allocated mem) \<and> name_ok sn \<and> name_ok ln \<longrightarrow>
      OBJ_create mem oid sn ln st \<noteq> None)"
  using run_ok [OF run, THEN conjunct1] sn2nid [OF _ T] ln2nid [OF _ T] cbs2nid [OF _ T] create_cases by fastforce

text \<open>A successful creation, seen by the lookups.\<close>

lemma key_cases:
  "data_ok obj \<Longrightarrow> cmp_data obj (data_key d) = 0 \<longleftrightarrow> obj_bytes obj = d"
  "cmp_nid obj (nid_key k) = 0 \<longleftrightarrow> o_nid obj = k"
  "o_sn obj = Some t \<Longrightarrow> is_cstring t \<Longrightarrow> is_cstring s \<Longrightarrow> cmp_short_name obj (sn_key s) = 0 \<longleftrightarrow> t = s"
  "o_ln obj = Some t \<Longrightarrow> is_cstring t \<Longrightarrow> is_cstring s \<Longrightarrow> cmp_long_name obj (ln_key s) = 0 \<longleftrightarrow> t = s"
  by (simp_all add: cmp_data_zero cmp_nid_zero cmp_short_name_def cmp_long_name_def strcmp_zero)

lemma comps_der_ne: "comps_der (v # vs) \<noteq> []"
  using base128_ne by simp


lemma sn2nid_overlay:
  assumes "registry_ok st" "registry_ok st'" "is_cstring s"
    and "added (added_by_short_name st') (sn_key s) = (if c then Some obj else added (added_by_short_name st) (sn_key s))"
  shows "OBJ_sn2nid T st' s = (if c then Some (o_nid obj) else OBJ_sn2nid T st s)"
  using retrieve_tables(3) [OF assms(1) keys_ok(1) [OF assms(3)]] retrieve_tables(3) [OF assms(2) keys_ok(1) [OF assms(3)]] assms(4)
  by (simp add: OBJ_sn2nid_def)

lemma ln2nid_overlay:
  assumes "registry_ok st" "registry_ok st'" "is_cstring s"
    and "added (added_by_long_name st') (ln_key s) = (if c then Some obj else added (added_by_long_name st) (ln_key s))"
  shows "OBJ_ln2nid T st' s = (if c then Some (o_nid obj) else OBJ_ln2nid T st s)"
  using retrieve_tables(4) [OF assms(1) keys_ok(2) [OF assms(3)]] retrieve_tables(4) [OF assms(2) keys_ok(2) [OF assms(3)]] assms(4)
  by (simp add: OBJ_ln2nid_def)

lemma cbs2nid_overlay:
  assumes "registry_ok st" "registry_ok st'" "length d < 2 ^ 31"
    and "added (added_by_data st') (data_key d) = (if c then Some obj else added (added_by_data st) (data_key d))"
  shows "OBJ_cbs2nid T st' d = (if c then Some (o_nid obj) else OBJ_cbs2nid T st d)"
proof -
  have l: "OBJ_cbs2nid T st d = OBJ_obj2nid T st (Some (data_key d))" for st
    using cbs_len_small [OF assms(3)] by (simp add: OBJ_cbs2nid_def CBS_data_def)
  have "o_nid (data_key d) = 0" by (simp add: template_def)
  then show ?thesis
    using retrieve_tables(2) [OF assms(1) keys_ok(3) [of d]] retrieve_tables(2) [OF assms(2) keys_ok(3) [of d]] assms(4)
    unfolding l by (simp add: OBJ_obj2nid_def)
qed

lemma nid2obj_overlay:
  assumes "registry_ok st" "registry_ok st'" "int NUM_NID \<le> sint (o_nid obj)"
    and "\<And>k. added (added_by_nid st') (nid_key k) = (if o_nid obj = k then Some obj else added (added_by_nid st) (nid_key k))"
  shows "OBJ_nid2obj T st' k = (if k = o_nid obj then Some (Some obj) else OBJ_nid2obj T st k)"
  using assms(3,4) unfolding nid2obj [OF assms(1)] nid2obj [OF assms(2)] by auto

text \<open>
  C16. An object that \<open>OBJ_create\<close> has added is found, and nothing else changes: the text was that of an object
  identifier with valid first components, the result is a fresh identifier, by which
  \<open>OBJ_nid2obj\<close> returns the object with its names, both names and the content octets are
  mapped to the identifier, and all other lookups return what they did before.
\<close>

theorem obj_create_found:
  assumes run: "obj_run n st" and n: "n < 2 ^ 31 - NUM_NID" and al: "added_by_nid st = None \<longrightarrow> tables_allocated mem"
    and v: "name_ok sn" "name_ok ln"
    and c: "OBJ_create mem oid sn ln st = Some (nid, st')" and nz: "nid \<noteq> NID_undef"
  shows "\<exists>a b vs obj. oid = join_dots (a # b # vs) \<and> first_ok a b \<and> o_sn obj = sn \<and> o_ln obj = ln \<and>
    (\<forall>k. OBJ_nid2obj T st' k = (if k = nid then Some (Some obj) else OBJ_nid2obj T st k)) \<and>
    (\<forall>s. is_cstring s \<longrightarrow> OBJ_sn2nid T st' s = (if sn = Some s then Some nid else OBJ_sn2nid T st s)) \<and>
    (\<forall>s. is_cstring s \<longrightarrow> OBJ_ln2nid T st' s = (if ln = Some s then Some nid else OBJ_ln2nid T st s)) \<and>
    (let der = comps_der ((40 * a + b) # vs) in length der < 2 ^ 31 \<longrightarrow> obj_bytes obj = der \<and>
      (\<forall>d. length d < 2 ^ 31 \<longrightarrow> OBJ_cbs2nid T st' d = (if d = der then Some nid else OBJ_cbs2nid T st d)))"
proof -
  obtain m where r: "registry_ok st" and m: "m \<le> n" "next_nid st = word_of_nat (NUM_NID + m)" using run_ok [OF run] by blast
  obtain obj where r': "registry_ok st'" and o: "object_for oid sn ln nid obj" "nid = next_nid st"
    and ov: "overlay (\<lambda>x. True) cmp_nid obj True (added_by_nid st) (added_by_nid st')"
      "overlay data_ok cmp_data obj (o_length obj \<noteq> 0) (added_by_data st) (added_by_data st')"
      "overlay (named o_sn) cmp_short_name obj (sn \<noteq> None) (added_by_short_name st) (added_by_short_name st')"
      "overlay (named o_ln) cmp_long_name obj (ln \<noteq> None) (added_by_long_name st) (added_by_long_name st')"
    using create_cases [OF r al v, of oid] c nz by (auto simp: NID_undef_def)
  from o(1) obtain a b vs where f: "o_nid obj = nid" "o_sn obj = sn" "o_ln obj = ln" "data_ok obj"
      and oid: "oid = join_dots (a # b # vs)" "first_ok a b"
      "length (comps_der ((40 * a + b) # vs)) < 2 ^ 31 \<longrightarrow> obj_bytes obj = comps_der ((40 * a + b) # vs)"
    unfolding object_for_def by blast
  have "int NUM_NID \<le> int_of_size (NUM_NID + m)" using m(1) n by (subst int_of_size) (simp_all add: NUM_NID_def)
  then have "int NUM_NID \<le> sint (o_nid obj)" using m(2) f(1) o(2) by (simp add: int_of_size_def)
  then have 1: "OBJ_nid2obj T st' k = (if k = nid then Some (Some obj) else OBJ_nid2obj T st k)" for k
    using nid2obj_overlay [OF r r', of obj T k] ov(1) f(1) key_cases(2) [of obj] by (simp add: overlay_def)
  have 2: "OBJ_sn2nid T st' s = (if sn = Some s then Some nid else OBJ_sn2nid T st s)" if s: "is_cstring s" for s
  proof -
    have "(sn \<noteq> None \<and> cmp_short_name obj (sn_key s) = 0) = (sn = Some s)"
      using key_cases(3) [of obj _ s] v(1) s f(2) by (cases sn) (simp_all add: name_ok_def)
    then show ?thesis
      using sn2nid_overlay [OF r r' s, of "sn = Some s" obj T] ov(3) keys_ok(1) [OF s] f(1) by (simp add: overlay_def)
  qed
  have 3: "OBJ_ln2nid T st' s = (if ln = Some s then Some nid else OBJ_ln2nid T st s)" if s: "is_cstring s" for s
  proof -
    have "(ln \<noteq> None \<and> cmp_long_name obj (ln_key s) = 0) = (ln = Some s)"
      using key_cases(4) [of obj _ s] v(2) s f(3) by (cases ln) (simp_all add: name_ok_def)
    then show ?thesis
      using ln2nid_overlay [OF r r' s, of "ln = Some s" obj T] ov(4) keys_ok(2) [OF s] f(1) by (simp add: overlay_def)
  qed
  let ?der = "comps_der ((40 * a + b) # vs)"
  have 4: "obj_bytes obj = ?der \<and>
      (\<forall>d. length d < 2 ^ 31 \<longrightarrow> OBJ_cbs2nid T st' d = (if d = ?der then Some nid else OBJ_cbs2nid T st d))"
    if l: "length ?der < 2 ^ 31"
  proof -
    have der: "obj_bytes obj = ?der" using oid(3) l by blast
    have "o_length obj \<noteq> 0" using f(4) comps_der_ne [of "40 * a + b" vs] unfolding data_ok_def der
      by (metis length_0_conv of_nat_eq_0_iff)
    then have "added (added_by_data st') (data_key d) = (if d = ?der then Some obj else added (added_by_data st) (data_key d))" for d
      using ov(2) key_cases(1) [OF f(4), of d] unfolding overlay_def der by (metis keys_ok(3))
    then show ?thesis using cbs2nid_overlay [OF r r'] der f(1) by blast
  qed
  show ?thesis unfolding Let_def using oid(1,2) f(2,3) 1 2 3 4 by blast
qed


text \<open>One object, added to tables with a single entry.\<close>

definition sample_tables :: obj_tables where
  "sample_tables = \<lparr>kObjects = template # template\<lparr>o_sn := Some [97], o_ln := Some [98], o_nid := 1, o_data := Some [42], o_length := 1\<rparr> #
     replicate 960 template, kNIDsInOIDOrder = [1], kNIDsInShortNameOrder = [1], kNIDsInLongNameOrder = [1]\<rparr>"

lemma sample_tables_ok: "tables_ok sample_tables"
  by (simp add: tables_ok_def sample_tables_def NUM_NID_def data_ok_def obj_bytes_def named_def is_cstring_def)

lemma obj_lookups_refine_witness:
  "OBJ_sn2nid sample_tables obj_initial [97] = Some 1 \<and> OBJ_sn2nid sample_tables obj_initial [99] = Some 0 \<and>
    OBJ_create (\<lambda>k n. True) [0x31] None None obj_initial \<noteq> None"
proof -
  have "is_cstring [97]" "is_cstring [99]" "name_ok None" "tables_allocated (\<lambda>k n. True)"
    by (simp_all add: is_cstring_def name_ok_def tables_allocated_def)
  moreover have "overlaid sample_tables (added (added_by_short_name obj_initial) (sn_key s))
      (List.find (\<lambda>k. o_sn (kObjects sample_tables ! k) = Some s) (kNIDsInShortNameOrder sample_tables)) = (if s = [97] then 1 else 0)" for s
    by (simp add: overlaid_def obj_initial_def sample_tables_def static_nid_def NID_undef_def)
  ultimately show ?thesis using obj_lookups_refine [OF sample_tables_ok run_start] by simp
qed

lemma sample_create:
  "map_option fst (OBJ_create (\<lambda>k n. True) [0x31, 0x2E, 0x32, 0x2E, 0x33] (Some [120]) None obj_initial) = Some 962"
proof -
  note p = sample_oid [of 32]
  let ?o = "\<lparr>o_sn = Some [120], o_ln = None, o_nid = 962, o_length = 2, o_data = Some [42, 3], o_flags = dynamic_flags\<rparr>"
  let ?st = "obj_initial\<lparr>next_nid := 963\<rparr>"
  have c: "ASN1_OBJECT_create (\<lambda>n. True) 962 (Some [42, 3]) (int_of_size (Suc (Suc 0))) (Some [120]) None = Some ?o"
    by code_simp
  have a: "map_option fst (obj_add_object (\<lambda>k n. True) ?o ?st) = Some True" by code_simp
  then obtain st' where "obj_add_object (\<lambda>k n. True) ?o ?st = Some (True, st')" by auto
  moreover have "obj_next_nid obj_initial = (962, ?st)" by (simp add: obj_next_nid_def obj_initial_def NUM_NID_def)
  ultimately show ?thesis using p c by (simp add: OBJ_create_def create_produced)
qed


lemma obj_create_found_witness:
  "\<exists>st. OBJ_create (\<lambda>k n. True) [0x31, 0x2E, 0x32, 0x2E, 0x33] (Some [120]) None obj_initial = Some (962, st) \<and>
    OBJ_sn2nid sample_tables st [120] = Some 962 \<and> OBJ_sn2nid sample_tables st [97] = Some 1"
proof -
  obtain st where c: "OBJ_create (\<lambda>k n. True) [0x31, 0x2E, 0x32, 0x2E, 0x33] (Some [120]) None obj_initial = Some (962, st)"
    using sample_create by auto
  have v: "name_ok (Some [120])" "name_ok None" "tables_allocated (\<lambda>k n. True)" "(962 :: u32) \<noteq> NID_undef" "is_cstring [120]" "is_cstring [97]"
    by (simp_all add: is_cstring_def name_ok_def tables_allocated_def NID_undef_def)
  have "0 < 2 ^ 31 - NUM_NID" "added_by_nid obj_initial = None \<longrightarrow> tables_allocated (\<lambda>k n. True)"
    using v(3) by (simp_all add: NUM_NID_def)
  from obj_create_found [OF run_start this v(1,2) c v(4), of sample_tables]
  have f: "\<forall>s. is_cstring s \<longrightarrow> OBJ_sn2nid sample_tables st s = (if Some [120] = Some s then Some 962 else OBJ_sn2nid sample_tables obj_initial s)"
    by blast
  have "registry_ok obj_initial" using run_ok [OF run_start] by blast
  from sn2nid [OF this sample_tables_ok v(6)] have "OBJ_sn2nid sample_tables obj_initial [97] = Some 1"
    by (simp add: overlaid_def obj_initial_def sample_tables_def static_nid_def NID_undef_def)
  then show ?thesis using c f v(5,6) by simp
qed

text \<open>
  If the first table can be allocated and a later one cannot, adding an object reads through the
  null pointer that is stored for the missing table, here for the data of the object.
\<close>

lemma obj_add_object_missing_table:
  assumes "added_by_nid st = None" "mem 1 = (\<lambda>n. True)" "mem 2 = (\<lambda>n. False)" "o_length obj \<noteq> 0" "o_data obj \<noteq> None"
  shows "obj_add_object mem obj st = None"
  using assms by (simp add: obj_add_object_def new_tables_def lh_new_def insert_added_def Let_def split: Option.bind_split)

end
