(* ===== verification/Md32.thy ===== *)
theory Md32
  imports CBuffer
begin

text \<open>
  BoringSSL: the collector of \<open>crypto/fipsmodule/digest/md32_common.h\<close>, which the digests SHA-1, SHA-224,
  SHA-256, MD4 and MD5 instantiate by macros. The macros are the record \<open>md32_alg\<close>: the byte order, the block
  size, the block function and the conversion of the state to bytes, where \<open>None\<close> of the last is its
  \<open>return 0\<close>. Input lists stand for \<open>data\<close> with \<open>len\<close>. Block functions read their blocks from a list; reading
  behind its end and writing outside \<open>c->data\<close> are undefined. The code loads the words of a block in
  between the first rounds, here they are loaded in front of them.
\<close>

unbundle bit_operations_syntax

record md32_ctx =
  md_h :: "u32 list"
  md_Nl :: u32
  md_Nh :: u32
  md_data :: "u8 list"
  md_num :: u32
  md_len :: u32

record md32_alg =
  DATA_ORDER_IS_BIG_ENDIAN :: bool
  HASH_CBLOCK :: nat
  HASH_BLOCK_DATA_ORDER :: "u32 list \<Rightarrow> u8 list \<Rightarrow> nat \<Rightarrow> u32 list option"
  HASH_MAKE_STRING :: "md32_ctx \<Rightarrow> u8 list option"

section \<open>Words and bytes\<close>

definition ROTATE :: "u32 \<Rightarrow> nat \<Rightarrow> u32" where
  "ROTATE a n = push_bit n a OR drop_bit (32 - n) a"

definition HOST_c2l :: "bool \<Rightarrow> u8 list \<Rightarrow> (u32 \<times> u8 list) option" where
  "HOST_c2l big c = (case c of c0 # c1 # c2 # c3 # c \<Rightarrow>
       Some (if big then push_bit 24 (ucast c0) OR push_bit 16 (ucast c1) OR push_bit 8 (ucast c2) OR ucast c3
         else ucast c0 OR push_bit 8 (ucast c1) OR push_bit 16 (ucast c2) OR push_bit 24 (ucast c3), c)
     | _ \<Rightarrow> None)"

definition HOST_l2c :: "bool \<Rightarrow> u32 \<Rightarrow> u8 list" where
  "HOST_l2c big l = (if big
     then [ucast (drop_bit 24 l AND 0xff), ucast (drop_bit 16 l AND 0xff), ucast (drop_bit 8 l AND 0xff), ucast (l AND 0xff)]
     else [ucast (l AND 0xff), ucast (drop_bit 8 l AND 0xff), ucast (drop_bit 16 l AND 0xff), ucast (drop_bit 24 l AND 0xff)])"

primrec load_words :: "bool \<Rightarrow> nat \<Rightarrow> u8 list \<Rightarrow> (u32 list \<times> u8 list) option" where
  "load_words big 0 dat = Some ([], dat)"
| "load_words big (Suc n) dat = do {
     (l, dat) \<leftarrow> HOST_c2l big dat;
     (X, dat) \<leftarrow> load_words big n dat;
     Some (l # X, dat) }"

text \<open>\<open>while (num--)\<close>: the block function on the words of every block.\<close>

primrec each_block :: "bool \<Rightarrow> (u32 list \<Rightarrow> u32 list \<Rightarrow> u32 list) \<Rightarrow> u32 list \<Rightarrow> u8 list \<Rightarrow> nat \<Rightarrow> u32 list option" where
  "each_block big block state dat 0 = Some state"
| "each_block big block state dat (Suc num) = do {
     (X, dat) \<leftarrow> load_words big 16 dat;
     each_block big block (block state X) dat num }"

section \<open>Collecting\<close>

text \<open>The inner result tells whether all input was put into \<open>c->data\<close>.\<close>

definition fill_block :: "md32_alg \<Rightarrow> u8 list \<Rightarrow> md32_ctx \<Rightarrow> (bool \<times> u8 list \<times> md32_ctx) option" where
  "fill_block alg dat c = (let n = ucast (md_num c) :: u64; len = word_of_nat (length dat); cblock = word_of_nat (HASH_CBLOCK alg) in
     if n \<noteq> 0 then
       if len \<ge> cblock \<or> len + n \<ge> cblock then do {
         buf \<leftarrow> put (md_data c) (unat n) (take (unat (cblock - n)) dat);
         h \<leftarrow> HASH_BLOCK_DATA_ORDER alg (md_h c) buf 1;
         buf \<leftarrow> put buf 0 (replicate (HASH_CBLOCK alg) 0);
         Some (False, drop (unat (cblock - n)) dat, c\<lparr>md_h := h, md_num := 0, md_data := buf\<rparr>) }
       else do {
         buf \<leftarrow> put (md_data c) (unat n) dat;
         Some (True, dat, c\<lparr>md_data := buf, md_num := md_num c + ucast len\<rparr>) }
     else Some (False, dat, c))"

definition add_length :: "u64 \<Rightarrow> md32_ctx \<Rightarrow> md32_ctx" where
  "add_length len c = (let l = md_Nl c + push_bit 3 (ucast len);
     c = (if l < md_Nl c then c\<lparr>md_Nh := md_Nh c + 1\<rparr> else c) in
     c\<lparr>md_Nh := md_Nh c + ucast (drop_bit 29 len), md_Nl := l\<rparr>)"

definition HASH_UPDATE :: "md32_alg \<Rightarrow> u8 list \<Rightarrow> md32_ctx step" where
  "HASH_UPDATE alg dat c = (
     if length dat = 0 then Some (True, c)
     else do {
       (filled, dat, c) \<leftarrow> fill_block alg dat (add_length (word_of_nat (length dat)) c);
       if filled then Some (True, c)
       else do {
         let n = length dat div HASH_CBLOCK alg;
         h \<leftarrow> (if n > 0 then HASH_BLOCK_DATA_ORDER alg (md_h c) dat n else Some (md_h c));
         let dat = drop (n * HASH_CBLOCK alg) dat;
         let c = c\<lparr>md_h := h\<rparr>;
         if length dat \<noteq> 0 then do {
           buf \<leftarrow> put (md_data c) 0 dat;
           Some (True, c\<lparr>md_num := word_of_nat (length dat), md_data := buf\<rparr>) }
         else Some (True, c) } })"

definition HASH_TRANSFORM :: "md32_alg \<Rightarrow> u8 list \<Rightarrow> md32_ctx \<Rightarrow> md32_ctx option" where
  "HASH_TRANSFORM alg dat c = map_option (\<lambda>h. c\<lparr>md_h := h\<rparr>) (HASH_BLOCK_DATA_ORDER alg (md_h c) dat 1)"

text \<open>The output, \<open>None\<close> for the return value 0, and the context.\<close>

definition HASH_FINAL :: "md32_alg \<Rightarrow> md32_ctx \<Rightarrow> (u8 list option \<times> md32_ctx) option" where
  "HASH_FINAL alg c = (let n = unat (md_num c); cblock = HASH_CBLOCK alg in
     if \<not> n < cblock then None
     else do {
       buf \<leftarrow> put (md_data c) n [0x80];
       let n = n + 1;
       (n, buf, h) \<leftarrow> (if n > cblock - 8 then do {
           buf \<leftarrow> put buf n (replicate (cblock - n) 0);
           h \<leftarrow> HASH_BLOCK_DATA_ORDER alg (md_h c) buf 1;
           Some (0, buf, h) }
         else Some (n, buf, md_h c));
       buf \<leftarrow> put buf n (replicate (cblock - 8 - n) 0);
       let big = DATA_ORDER_IS_BIG_ENDIAN alg;
       buf \<leftarrow> put buf (cblock - 8) (if big then HOST_l2c big (md_Nh c) @ HOST_l2c big (md_Nl c)
         else HOST_l2c big (md_Nl c) @ HOST_l2c big (md_Nh c));
       h \<leftarrow> HASH_BLOCK_DATA_ORDER alg h buf 1;
       buf \<leftarrow> put buf 0 (replicate cblock 0);
       let c = c\<lparr>md_h := h, md_num := 0, md_data := buf\<rparr>;
       Some (HASH_MAKE_STRING alg c, c) })"

text \<open>A one-shot function.\<close>

definition one_shot :: "md32_alg \<Rightarrow> md32_ctx \<Rightarrow> u8 list \<Rightarrow> u8 list option option" where
  "one_shot alg ctx dat = do {
     (ok, ctx) \<leftarrow> HASH_UPDATE alg dat ctx;
     (out, ctx) \<leftarrow> HASH_FINAL alg ctx;
     Some out }"

end
