(* ===== verification/Sha.thy ===== *)
theory Sha
  imports Md32
begin

text \<open>
  BoringSSL: SHA-1, SHA-224 and SHA-256 (\<open>crypto/fipsmodule/sha/sha1.c\<close> and \<open>sha256.c\<close>), built without
  assembly. The local variables of a block function are a list, and the arguments of an unrolled round
  are the numbers of the variables; they rotate from round to round. Constants are written in decimal.
  Erasing a context on the stack has no effect here.
\<close>

section \<open>SHA-256\<close>

definition K256 :: "u32 list" where
  "K256 = [
     1116352408, 1899447441, 3049323471, 3921009573, 961987163, 1508970993, 2453635748, 2870763221,
     3624381080, 310598401, 607225278, 1426881987, 1925078388, 2162078206, 2614888103, 3248222580,
     3835390401, 4022224774, 264347078, 604807628, 770255983, 1249150122, 1555081692, 1996064986,
     2554220882, 2821834349, 2952996808, 3210313671, 3336571891, 3584528711, 113926993, 338241895,
     666307205, 773529912, 1294757372, 1396182291, 1695183700, 1986661051, 2177026350, 2456956037,
     2730485921, 2820302411, 3259730800, 3345764771, 3516065817, 3600352804, 4094571909, 275423344,
     430227734, 506948616, 659060556, 883997877, 958139571, 1322822218, 1537002063, 1747873779,
     1955562222, 2024104815, 2227730452, 2361852424, 2428436474, 2756734187, 3204031479, 3329325298]"

definition Sigma0 :: "u32 \<Rightarrow> u32" where "Sigma0 x = ROTATE x 30 XOR ROTATE x 19 XOR ROTATE x 10"
definition Sigma1 :: "u32 \<Rightarrow> u32" where "Sigma1 x = ROTATE x 26 XOR ROTATE x 21 XOR ROTATE x 7"
definition sigma0 :: "u32 \<Rightarrow> u32" where "sigma0 x = ROTATE x 25 XOR ROTATE x 14 XOR drop_bit 3 x"
definition sigma1 :: "u32 \<Rightarrow> u32" where "sigma1 x = ROTATE x 15 XOR ROTATE x 13 XOR drop_bit 10 x"

definition Ch :: "u32 \<Rightarrow> u32 \<Rightarrow> u32 \<Rightarrow> u32" where "Ch x y z = (x AND y) XOR (NOT x AND z)"
definition Maj :: "u32 \<Rightarrow> u32 \<Rightarrow> u32 \<Rightarrow> u32" where "Maj x y z = (x AND y) XOR (x AND z) XOR (y AND z)"

text \<open>The arguments \<open>a, b, c, d, e, f, g, h\<close> of round \<open>i\<close>: the eight variables, rotated by \<open>i\<close>.\<close>

definition sha256_args :: "nat \<Rightarrow> nat list" where
  "sha256_args i = map (\<lambda>j. (j + 8 - i mod 8) mod 8) [0..<8]"

definition ROUND_00_15 :: "nat \<Rightarrow> nat list \<Rightarrow> u32 \<Rightarrow> u32 list \<Rightarrow> u32 list" where
  "ROUND_00_15 i args T1 v = (case args of [a, b, c, d, e, f, g, h] \<Rightarrow>
     let T1 = T1 + (v ! h + Sigma1 (v ! e) + Ch (v ! e) (v ! f) (v ! g) + K256 ! i);
       v = v[h := Sigma0 (v ! a) + Maj (v ! a) (v ! b) (v ! c)];
       v = v[d := v ! d + T1] in
     v[h := v ! h + T1])"

definition ROUND_16_63 :: "nat \<Rightarrow> nat list \<Rightarrow> u32 list \<times> u32 list \<Rightarrow> u32 list \<times> u32 list" where
  "ROUND_16_63 i args = (\<lambda>(X, v).
     let s0 = sigma0 (X ! ((i + 1) mod 16));
       s1 = sigma1 (X ! ((i + 14) mod 16));
       T1 = X ! (i mod 16) + (s0 + s1 + X ! ((i + 9) mod 16)) in
     (X[i mod 16 := T1], ROUND_00_15 i args T1 v))"

definition sha256_block :: "u32 list \<Rightarrow> u32 list \<Rightarrow> u32 list" where
  "sha256_block state X = (
     let v = fold (\<lambda>i v. ROUND_00_15 i (sha256_args i) (X ! i) v) [0..<16] state;
       (X, v) = fold (\<lambda>i. ROUND_16_63 i (sha256_args i)) [16..<64] (X, v) in
     map2 (+) state v)"

definition sha256_block_data_order :: "u32 list \<Rightarrow> u8 list \<Rightarrow> nat \<Rightarrow> u32 list option" where
  "sha256_block_data_order = each_block True sha256_block"

definition SHA224_DIGEST_LENGTH :: u32 where "SHA224_DIGEST_LENGTH = 28"
definition SHA256_DIGEST_LENGTH :: u32 where "SHA256_DIGEST_LENGTH = 32"

definition sha256_make_string :: "md32_ctx \<Rightarrow> u8 list option" where
  "sha256_make_string c = (
     if md_len c = SHA224_DIGEST_LENGTH then Some (concat (map (HOST_l2c True) (take (unat (SHA224_DIGEST_LENGTH div 4)) (md_h c))))
     else if md_len c = SHA256_DIGEST_LENGTH then Some (concat (map (HOST_l2c True) (take (unat (SHA256_DIGEST_LENGTH div 4)) (md_h c))))
     else if md_len c > SHA256_DIGEST_LENGTH then None
     else Some (concat (map (HOST_l2c True) (take (unat (md_len c div 4)) (md_h c)))))"

definition sha256_alg :: md32_alg where
  "sha256_alg = \<lparr>DATA_ORDER_IS_BIG_ENDIAN = True, HASH_CBLOCK = 64, HASH_BLOCK_DATA_ORDER = sha256_block_data_order,
     HASH_MAKE_STRING = sha256_make_string\<rparr>"

definition SHA224_Init :: md32_ctx where
  "SHA224_Init = \<lparr>md_h = [3238371032, 914150663, 812702999, 4144912697, 4290775857, 1750603025, 1694076839, 3204075428],
     md_Nl = 0, md_Nh = 0, md_data = replicate 64 0, md_num = 0, md_len = SHA224_DIGEST_LENGTH\<rparr>"

definition SHA256_Init :: md32_ctx where
  "SHA256_Init = \<lparr>md_h = [1779033703, 3144134277, 1013904242, 2773480762, 1359893119, 2600822924, 528734635, 1541459225],
     md_Nl = 0, md_Nh = 0, md_data = replicate 64 0, md_num = 0, md_len = SHA256_DIGEST_LENGTH\<rparr>"

definition SHA256_Update :: "u8 list \<Rightarrow> md32_ctx step" where "SHA256_Update = HASH_UPDATE sha256_alg"
definition SHA256_Transform :: "u8 list \<Rightarrow> md32_ctx \<Rightarrow> md32_ctx option" where "SHA256_Transform = HASH_TRANSFORM sha256_alg"
definition SHA256_Final :: "md32_ctx \<Rightarrow> (u8 list option \<times> md32_ctx) option" where "SHA256_Final = HASH_FINAL sha256_alg"
definition SHA224_Update :: "u8 list \<Rightarrow> md32_ctx step" where "SHA224_Update dat ctx = SHA256_Update dat ctx"
definition SHA224_Final :: "md32_ctx \<Rightarrow> (u8 list option \<times> md32_ctx) option" where "SHA224_Final ctx = SHA256_Final ctx"
definition SHA256_TransformBlocks :: "u32 list \<Rightarrow> u8 list \<Rightarrow> nat \<Rightarrow> u32 list option" where
  "SHA256_TransformBlocks state dat num_blocks = sha256_block_data_order state dat num_blocks"

definition SHA224 :: "u8 list \<Rightarrow> u8 list option option" where "SHA224 = one_shot sha256_alg SHA224_Init"
definition SHA256 :: "u8 list \<Rightarrow> u8 list option option" where "SHA256 = one_shot sha256_alg SHA256_Init"

section \<open>SHA-1\<close>

definition F_00_19 :: "u32 \<Rightarrow> u32 \<Rightarrow> u32 \<Rightarrow> u32" where "F_00_19 b c d = ((c XOR d) AND b) XOR d"
definition F_20_39 :: "u32 \<Rightarrow> u32 \<Rightarrow> u32 \<Rightarrow> u32" where "F_20_39 b c d = b XOR c XOR d"
definition F_40_59 :: "u32 \<Rightarrow> u32 \<Rightarrow> u32 \<Rightarrow> u32" where "F_40_59 b c d = (b AND c) OR ((b OR c) AND d)"
definition F_60_79 :: "u32 \<Rightarrow> u32 \<Rightarrow> u32 \<Rightarrow> u32" where "F_60_79 b c d = F_20_39 b c d"

definition K_00_19 :: u32 where "K_00_19 = 1518500249"
definition K_20_39 :: u32 where "K_20_39 = 1859775393"
definition K_40_59 :: u32 where "K_40_59 = 2400959708"
definition K_60_79 :: u32 where "K_60_79 = 3395469782"

text \<open>The arguments \<open>a, b, c, d, e, f\<close> of round \<open>i\<close>: the variables \<open>A, B, C, D, E, T\<close>, rotated by \<open>i\<close>.\<close>

definition sha1_args :: "nat \<Rightarrow> nat list" where
  "sha1_args i = map (\<lambda>j. (j + 6 - i mod 6) mod 6) [0..<6]"

definition Xupdate :: "nat \<Rightarrow> u32 list \<Rightarrow> u32" where
  "Xupdate i X = ROTATE (X ! (i mod 16) XOR X ! ((i + 2) mod 16) XOR X ! ((i + 8) mod 16) XOR X ! ((i + 13) mod 16)) 1"

text \<open>What the bodies of the rounds share: \<open>f\<close> is assigned, \<open>b\<close> is rotated.\<close>

definition BODY :: "nat list \<Rightarrow> u32 \<Rightarrow> u32 \<Rightarrow> (u32 \<Rightarrow> u32 \<Rightarrow> u32 \<Rightarrow> u32) \<Rightarrow> u32 list \<Rightarrow> u32 list" where
  "BODY args x K F v = (case args of [a, b, c, d, e, f] \<Rightarrow>
     let v = v[f := x + v ! e + K + ROTATE (v ! a) 5 + F (v ! b) (v ! c) (v ! d)] in
     v[b := ROTATE (v ! b) 30])"

definition BODY_00_15 :: "nat \<Rightarrow> u32 list \<times> u32 list \<Rightarrow> u32 list \<times> u32 list" where
  "BODY_00_15 i = (\<lambda>(X, v). (X, BODY (sha1_args i) (X ! i) K_00_19 F_00_19 v))"

definition BODY_16_79 :: "u32 \<Rightarrow> (u32 \<Rightarrow> u32 \<Rightarrow> u32 \<Rightarrow> u32) \<Rightarrow> nat \<Rightarrow> u32 list \<times> u32 list \<Rightarrow> u32 list \<times> u32 list" where
  "BODY_16_79 K F i = (\<lambda>(X, v). let f = Xupdate i X in (X[i mod 16 := f], BODY (sha1_args i) f K F v))"

definition sha1_block :: "u32 list \<Rightarrow> u32 list \<Rightarrow> u32 list" where
  "sha1_block state X = (
     let r = fold BODY_00_15 [0..<16] (X, state @ [0]);
       r = fold (BODY_16_79 K_00_19 F_00_19) [16..<20] r;
       r = fold (BODY_16_79 K_20_39 F_20_39) [20..<40] r;
       r = fold (BODY_16_79 K_40_59 F_40_59) [40..<60] r;
       (X, v) = fold (BODY_16_79 K_60_79 F_60_79) [60..<80] r in
     map2 (+) state [v ! 4, v ! 5, v ! 0, v ! 1, v ! 2])"

text \<open>The loop of SHA-1 tests the number of blocks at its end, so it must not be called with none.\<close>

definition sha1_block_data_order :: "u32 list \<Rightarrow> u8 list \<Rightarrow> nat \<Rightarrow> u32 list option" where
  "sha1_block_data_order state dat num = (if num = 0 then None else each_block True sha1_block state dat num)"

definition sha1_alg :: md32_alg where
  "sha1_alg = \<lparr>DATA_ORDER_IS_BIG_ENDIAN = True, HASH_CBLOCK = 64, HASH_BLOCK_DATA_ORDER = sha1_block_data_order,
     HASH_MAKE_STRING = (\<lambda>c. Some (concat (map (HOST_l2c True) (md_h c))))\<rparr>"

definition SHA1_Init :: md32_ctx where
  "SHA1_Init = \<lparr>md_h = [1732584193, 4023233417, 2562383102, 271733878, 3285377520],
     md_Nl = 0, md_Nh = 0, md_data = replicate 64 0, md_num = 0, md_len = 0\<rparr>"

definition SHA1_Update :: "u8 list \<Rightarrow> md32_ctx step" where "SHA1_Update = HASH_UPDATE sha1_alg"
definition SHA1_Transform :: "u8 list \<Rightarrow> md32_ctx \<Rightarrow> md32_ctx option" where "SHA1_Transform = HASH_TRANSFORM sha1_alg"
definition SHA1_Final :: "md32_ctx \<Rightarrow> (u8 list option \<times> md32_ctx) option" where "SHA1_Final = HASH_FINAL sha1_alg"
definition SHA1 :: "u8 list \<Rightarrow> u8 list option option" where "SHA1 = one_shot sha1_alg SHA1_Init"

end
