(* ===== verification/Md.thy ===== *)
theory Md
  imports Md32
begin

text \<open>
  BoringSSL: MD5 and MD4 (\<open>crypto/fipsmodule/md5/md5.c\<close> and \<open>md4/md4.c\<close>), built without assembly. The calls of
  the round macros are tables of their last three arguments: the word of the block, the rotation and the
  constant (in decimal); their first four arguments are the variables \<open>A, B, C, D\<close>, rotated from call to
  call. Erasing a context on the stack has no effect here.
\<close>

text \<open>The arguments \<open>a, b, c, d\<close> of call \<open>i\<close>.\<close>

definition md_args :: "nat \<Rightarrow> nat list" where
  "md_args i = map (\<lambda>j. (j + 4 - i mod 4) mod 4) [0..<4]"

section \<open>MD5\<close>

definition md5_F :: "u32 \<Rightarrow> u32 \<Rightarrow> u32 \<Rightarrow> u32" where "md5_F b c d = ((c XOR d) AND b) XOR d"
definition md5_G :: "u32 \<Rightarrow> u32 \<Rightarrow> u32 \<Rightarrow> u32" where "md5_G b c d = ((b XOR c) AND d) XOR c"
definition md5_H :: "u32 \<Rightarrow> u32 \<Rightarrow> u32 \<Rightarrow> u32" where "md5_H b c d = b XOR c XOR d"
definition md5_I :: "u32 \<Rightarrow> u32 \<Rightarrow> u32 \<Rightarrow> u32" where "md5_I b c d = (NOT d OR b) XOR c"

text \<open>The macros \<open>R0\<close> to \<open>R3\<close>, which differ in the function.\<close>

definition md5_R :: "(u32 \<Rightarrow> u32 \<Rightarrow> u32 \<Rightarrow> u32) \<Rightarrow> nat list \<Rightarrow> u32 \<Rightarrow> nat \<Rightarrow> u32 \<Rightarrow> u32 list \<Rightarrow> u32 list" where
  "md5_R F args k s t v = (case args of [a, b, c, d] \<Rightarrow>
     let v = v[a := v ! a + (k + t + F (v ! b) (v ! c) (v ! d))];
       v = v[a := ROTATE (v ! a) s] in
     v[a := v ! a + v ! b])"

definition md5_calls :: "(nat \<times> nat \<times> u32) list" where
  "md5_calls = [
     (0, 7, 3614090360), (1, 12, 3905402710), (2, 17, 606105819), (3, 22, 3250441966),
     (4, 7, 4118548399), (5, 12, 1200080426), (6, 17, 2821735955), (7, 22, 4249261313),
     (8, 7, 1770035416), (9, 12, 2336552879), (10, 17, 4294925233), (11, 22, 2304563134),
     (12, 7, 1804603682), (13, 12, 4254626195), (14, 17, 2792965006), (15, 22, 1236535329),
     (1, 5, 4129170786), (6, 9, 3225465664), (11, 14, 643717713), (0, 20, 3921069994),
     (5, 5, 3593408605), (10, 9, 38016083), (15, 14, 3634488961), (4, 20, 3889429448),
     (9, 5, 568446438), (14, 9, 3275163606), (3, 14, 4107603335), (8, 20, 1163531501),
     (13, 5, 2850285829), (2, 9, 4243563512), (7, 14, 1735328473), (12, 20, 2368359562),
     (5, 4, 4294588738), (8, 11, 2272392833), (11, 16, 1839030562), (14, 23, 4259657740),
     (1, 4, 2763975236), (4, 11, 1272893353), (7, 16, 4139469664), (10, 23, 3200236656),
     (13, 4, 681279174), (0, 11, 3936430074), (3, 16, 3572445317), (6, 23, 76029189),
     (9, 4, 3654602809), (12, 11, 3873151461), (15, 16, 530742520), (2, 23, 3299628645),
     (0, 6, 4096336452), (7, 10, 1126891415), (14, 15, 2878612391), (5, 21, 4237533241),
     (12, 6, 1700485571), (3, 10, 2399980690), (10, 15, 4293915773), (1, 21, 2240044497),
     (8, 6, 1873313359), (15, 10, 4264355552), (6, 15, 2734768916), (13, 21, 1309151649),
     (4, 6, 4149444226), (11, 10, 3174756917), (2, 15, 718787259), (9, 21, 3951481745)]"

definition md5_round_fn :: "nat \<Rightarrow> u32 \<Rightarrow> u32 \<Rightarrow> u32 \<Rightarrow> u32" where
  "md5_round_fn i = (if i < 16 then md5_F else if i < 32 then md5_G else if i < 48 then md5_H else md5_I)"

definition md5_block :: "u32 list \<Rightarrow> u32 list \<Rightarrow> u32 list" where
  "md5_block state X = map2 (+) state
     (fold (\<lambda>i v. case md5_calls ! i of (k, s, t) \<Rightarrow> md5_R (md5_round_fn i) (md_args i) (X ! k) s t v) [0..<64] state)"

definition md5_block_data_order :: "u32 list \<Rightarrow> u8 list \<Rightarrow> nat \<Rightarrow> u32 list option" where
  "md5_block_data_order = each_block False md5_block"

definition md5_alg :: md32_alg where
  "md5_alg = \<lparr>DATA_ORDER_IS_BIG_ENDIAN = False, HASH_CBLOCK = 64, HASH_BLOCK_DATA_ORDER = md5_block_data_order,
     HASH_MAKE_STRING = (\<lambda>c. Some (concat (map (HOST_l2c False) (md_h c))))\<rparr>"

definition MD5_Init :: md32_ctx where
  "MD5_Init = \<lparr>md_h = [1732584193, 4023233417, 2562383102, 271733878], md_Nl = 0, md_Nh = 0, md_data = replicate 64 0,
     md_num = 0, md_len = 0\<rparr>"

definition MD5_Update :: "u8 list \<Rightarrow> md32_ctx step" where "MD5_Update = HASH_UPDATE md5_alg"
definition MD5_Transform :: "u8 list \<Rightarrow> md32_ctx \<Rightarrow> md32_ctx option" where "MD5_Transform = HASH_TRANSFORM md5_alg"
definition MD5_Final :: "md32_ctx \<Rightarrow> (u8 list option \<times> md32_ctx) option" where "MD5_Final = HASH_FINAL md5_alg"
definition MD5 :: "u8 list \<Rightarrow> u8 list option option" where "MD5 = one_shot md5_alg MD5_Init"

section \<open>MD4\<close>

definition md4_F :: "u32 \<Rightarrow> u32 \<Rightarrow> u32 \<Rightarrow> u32" where "md4_F b c d = ((c XOR d) AND b) XOR d"
definition md4_G :: "u32 \<Rightarrow> u32 \<Rightarrow> u32 \<Rightarrow> u32" where "md4_G b c d = (b AND c) OR (b AND d) OR (c AND d)"
definition md4_H :: "u32 \<Rightarrow> u32 \<Rightarrow> u32 \<Rightarrow> u32" where "md4_H b c d = b XOR c XOR d"

definition md4_R :: "(u32 \<Rightarrow> u32 \<Rightarrow> u32 \<Rightarrow> u32) \<Rightarrow> nat list \<Rightarrow> u32 \<Rightarrow> nat \<Rightarrow> u32 \<Rightarrow> u32 list \<Rightarrow> u32 list" where
  "md4_R F args k s t v = (case args of [a, b, c, d] \<Rightarrow>
     let v = v[a := v ! a + (k + t + F (v ! b) (v ! c) (v ! d))] in
     v[a := ROTATE (v ! a) s])"

definition md4_calls :: "(nat \<times> nat \<times> u32) list" where
  "md4_calls = [
     (0, 3, 0), (1, 7, 0), (2, 11, 0), (3, 19, 0),
     (4, 3, 0), (5, 7, 0), (6, 11, 0), (7, 19, 0),
     (8, 3, 0), (9, 7, 0), (10, 11, 0), (11, 19, 0),
     (12, 3, 0), (13, 7, 0), (14, 11, 0), (15, 19, 0),
     (0, 3, 1518500249), (4, 5, 1518500249), (8, 9, 1518500249), (12, 13, 1518500249),
     (1, 3, 1518500249), (5, 5, 1518500249), (9, 9, 1518500249), (13, 13, 1518500249),
     (2, 3, 1518500249), (6, 5, 1518500249), (10, 9, 1518500249), (14, 13, 1518500249),
     (3, 3, 1518500249), (7, 5, 1518500249), (11, 9, 1518500249), (15, 13, 1518500249),
     (0, 3, 1859775393), (8, 9, 1859775393), (4, 11, 1859775393), (12, 15, 1859775393),
     (2, 3, 1859775393), (10, 9, 1859775393), (6, 11, 1859775393), (14, 15, 1859775393),
     (1, 3, 1859775393), (9, 9, 1859775393), (5, 11, 1859775393), (13, 15, 1859775393),
     (3, 3, 1859775393), (11, 9, 1859775393), (7, 11, 1859775393), (15, 15, 1859775393)]"

definition md4_round_fn :: "nat \<Rightarrow> u32 \<Rightarrow> u32 \<Rightarrow> u32 \<Rightarrow> u32" where
  "md4_round_fn i = (if i < 16 then md4_F else if i < 32 then md4_G else md4_H)"

definition md4_block :: "u32 list \<Rightarrow> u32 list \<Rightarrow> u32 list" where
  "md4_block state X = map2 (+) state
     (fold (\<lambda>i v. case md4_calls ! i of (k, s, t) \<Rightarrow> md4_R (md4_round_fn i) (md_args i) (X ! k) s t v) [0..<48] state)"

definition md4_block_data_order :: "u32 list \<Rightarrow> u8 list \<Rightarrow> nat \<Rightarrow> u32 list option" where
  "md4_block_data_order = each_block False md4_block"

definition md4_alg :: md32_alg where
  "md4_alg = \<lparr>DATA_ORDER_IS_BIG_ENDIAN = False, HASH_CBLOCK = 64, HASH_BLOCK_DATA_ORDER = md4_block_data_order,
     HASH_MAKE_STRING = (\<lambda>c. Some (concat (map (HOST_l2c False) (md_h c))))\<rparr>"

definition MD4_Init :: md32_ctx where
  "MD4_Init = \<lparr>md_h = [1732584193, 4023233417, 2562383102, 271733878], md_Nl = 0, md_Nh = 0, md_data = replicate 64 0,
     md_num = 0, md_len = 0\<rparr>"

definition MD4_Update :: "u8 list \<Rightarrow> md32_ctx step" where "MD4_Update = HASH_UPDATE md4_alg"
definition MD4_Transform :: "u8 list \<Rightarrow> md32_ctx \<Rightarrow> md32_ctx option" where "MD4_Transform = HASH_TRANSFORM md4_alg"
definition MD4_Final :: "md32_ctx \<Rightarrow> (u8 list option \<times> md32_ctx) option" where "MD4_Final = HASH_FINAL md4_alg"
definition MD4 :: "u8 list \<Rightarrow> u8 list option option" where "MD4 = one_shot md4_alg MD4_Init"

end
