(* ===== verification/Evp.thy ===== *)
theory Evp
  imports Sha Md
begin

text \<open>
  BoringSSL: digests by name (\<open>crypto/fipsmodule/digest/digest.c\<close> and \<open>digests.c\<close>). A pointer to a table of methods is
  the name of the function that returns it; of those, MD4, MD5, SHA-1, SHA-224 and SHA-256 are modelled. A context
  owns the heap block of the digest's state: the block is an optional value, where \<open>None\<close> is \<open>NULL\<close>. Contexts for
  signing (\<open>pctx\<close>) and engines are not modelled: \<open>pctx\<close> is \<open>NULL\<close>. \<open>mem\<close> tells whether the allocation succeeds. A digest that
  fails violates an assertion.
\<close>

section \<open>The tables of methods\<close>

datatype EVP_MD = EVP_md4 | EVP_md5 | EVP_sha1 | EVP_sha224 | EVP_sha256

fun EVP_MD_size :: "EVP_MD \<Rightarrow> nat" where
  "EVP_MD_size EVP_md4 = 16"
| "EVP_MD_size EVP_md5 = 16"
| "EVP_MD_size EVP_sha1 = 20"
| "EVP_MD_size EVP_sha224 = 28"
| "EVP_MD_size EVP_sha256 = 32"

fun EVP_MD_block_size :: "EVP_MD \<Rightarrow> nat" where
  "EVP_MD_block_size EVP_md4 = 64"
| "EVP_MD_block_size EVP_md5 = 64"
| "EVP_MD_block_size EVP_sha1 = 64"
| "EVP_MD_block_size EVP_sha224 = 64"
| "EVP_MD_block_size EVP_sha256 = 64"

fun md_method_init :: "EVP_MD \<Rightarrow> md32_ctx" where
  "md_method_init EVP_md4 = MD4_Init"
| "md_method_init EVP_md5 = MD5_Init"
| "md_method_init EVP_sha1 = SHA1_Init"
| "md_method_init EVP_sha224 = SHA224_Init"
| "md_method_init EVP_sha256 = SHA256_Init"

fun md_low_update :: "EVP_MD \<Rightarrow> u8 list \<Rightarrow> md32_ctx step" where
  "md_low_update EVP_md4 = MD4_Update"
| "md_low_update EVP_md5 = MD5_Update"
| "md_low_update EVP_sha1 = SHA1_Update"
| "md_low_update EVP_sha224 = SHA224_Update"
| "md_low_update EVP_sha256 = SHA256_Update"

fun md_low_final :: "EVP_MD \<Rightarrow> md32_ctx \<Rightarrow> (u8 list option \<times> md32_ctx) option" where
  "md_low_final EVP_md4 = MD4_Final"
| "md_low_final EVP_md5 = MD5_Final"
| "md_low_final EVP_sha1 = SHA1_Final"
| "md_low_final EVP_sha224 = SHA224_Final"
| "md_low_final EVP_sha256 = SHA256_Final"

text \<open>The methods \<open>update\<close> and \<open>final\<close> with their \<open>CHECK\<close>.\<close>

definition md_method_update :: "EVP_MD \<Rightarrow> u8 list \<Rightarrow> md32_ctx \<Rightarrow> md32_ctx option" where
  "md_method_update md dat c = do { (ok, c) \<leftarrow> md_low_update md dat c; if ok then Some c else None }"

definition md_method_final :: "EVP_MD \<Rightarrow> md32_ctx \<Rightarrow> (u8 list \<times> md32_ctx) option" where
  "md_method_final md c = do { (out, c) \<leftarrow> md_low_final md c; case out of Some h \<Rightarrow> Some (h, c) | None \<Rightarrow> None }"

section \<open>Contexts\<close>

record EVP_MD_CTX =
  ctx_digest :: "EVP_MD option"
  ctx_data :: "md32_ctx option"

definition EVP_MD_CTX_init :: EVP_MD_CTX where
  "EVP_MD_CTX_init = \<lparr>ctx_digest = None, ctx_data = None\<rparr>"

definition EVP_MD_CTX_cleanup :: "EVP_MD_CTX \<Rightarrow> EVP_MD_CTX" where
  "EVP_MD_CTX_cleanup ctx = EVP_MD_CTX_init"

definition EVP_MD_CTX_reset :: "EVP_MD_CTX \<Rightarrow> bool \<times> EVP_MD_CTX" where
  "EVP_MD_CTX_reset ctx = (True, let ctx = EVP_MD_CTX_cleanup ctx in EVP_MD_CTX_init)"

text \<open>\<open>OPENSSL_cleanse\<close> of a state.\<close>

definition cleansed :: "md32_ctx \<Rightarrow> md32_ctx" where
  "cleansed c = \<lparr>md_h = map (\<lambda>_. 0) (md_h c), md_Nl = 0, md_Nh = 0, md_data = map (\<lambda>_. 0) (md_data c), md_num = 0, md_len = 0\<rparr>"

definition EVP_MD_CTX_copy_ex :: "bool \<Rightarrow> EVP_MD_CTX \<Rightarrow> EVP_MD_CTX \<Rightarrow> (bool \<times> EVP_MD_CTX) option" where
  "EVP_MD_CTX_copy_ex mem out inn = (
     if ctx_digest inn = None then Some (False, out)
     else if ctx_digest out \<noteq> ctx_digest inn \<and> \<not> mem then Some (False, out)
     else if ctx_digest out = ctx_digest inn \<and> ctx_data out = None then None
     else case ctx_data inn of
       None \<Rightarrow> None
     | Some data \<Rightarrow> let out = EVP_MD_CTX_cleanup out in
         Some (True, out\<lparr>ctx_digest := ctx_digest inn, ctx_data := Some data\<rparr>))"

definition EVP_MD_CTX_copy :: "bool \<Rightarrow> EVP_MD_CTX \<Rightarrow> EVP_MD_CTX \<Rightarrow> (bool \<times> EVP_MD_CTX) option" where
  "EVP_MD_CTX_copy mem out inn = (let out = EVP_MD_CTX_init in EVP_MD_CTX_copy_ex mem out inn)"

definition EVP_DigestInit_ex :: "bool \<Rightarrow> EVP_MD_CTX \<Rightarrow> EVP_MD \<Rightarrow> (bool \<times> EVP_MD_CTX) option" where
  "EVP_DigestInit_ex mem ctx type = (
     if ctx_digest ctx \<noteq> Some type then
       if \<not> mem then Some (False, ctx)
       else Some (True, ctx\<lparr>ctx_digest := Some type, ctx_data := Some (md_method_init type)\<rparr>)
     else if ctx_data ctx = None then None
     else Some (True, ctx\<lparr>ctx_data := Some (md_method_init type)\<rparr>))"

definition EVP_DigestInit :: "bool \<Rightarrow> EVP_MD_CTX \<Rightarrow> EVP_MD \<Rightarrow> (bool \<times> EVP_MD_CTX) option" where
  "EVP_DigestInit mem ctx type = (let ctx = EVP_MD_CTX_init in EVP_DigestInit_ex mem ctx type)"

definition EVP_DigestUpdate :: "u8 list \<Rightarrow> EVP_MD_CTX step" where
  "EVP_DigestUpdate dat ctx = do {
     md \<leftarrow> ctx_digest ctx;
     c \<leftarrow> ctx_data ctx;
     c \<leftarrow> md_method_update md dat c;
     Some (True, ctx\<lparr>ctx_data := Some c\<rparr>) }"

text \<open>The bytes that are written, whose number is \<open>*size\<close>.\<close>

definition EVP_DigestFinal_ex :: "EVP_MD_CTX \<Rightarrow> (u8 list \<times> EVP_MD_CTX) option" where
  "EVP_DigestFinal_ex ctx = do {
     md \<leftarrow> ctx_digest ctx;
     c \<leftarrow> ctx_data ctx;
     if EVP_MD_size md \<le> 64 then do {
       (out, c) \<leftarrow> md_method_final md c;
       Some (out, ctx\<lparr>ctx_data := Some (cleansed c)\<rparr>) }
     else None }"

definition EVP_DigestFinal :: "EVP_MD_CTX \<Rightarrow> (u8 list \<times> EVP_MD_CTX) option" where
  "EVP_DigestFinal ctx = do {
     (out, ctx) \<leftarrow> EVP_DigestFinal_ex ctx;
     Some (out, EVP_MD_CTX_cleanup ctx) }"

text \<open>The output, or \<open>None\<close> for the return value 0.\<close>

definition EVP_Digest :: "bool \<Rightarrow> u8 list \<Rightarrow> EVP_MD \<Rightarrow> u8 list option option" where
  "EVP_Digest mem dat type = do {
     (ok, ctx) \<leftarrow> EVP_DigestInit_ex mem EVP_MD_CTX_init type;
     if \<not> ok then Some None
     else do {
       (ok, ctx) \<leftarrow> EVP_DigestUpdate dat ctx;
       if \<not> ok then Some None
       else do {
         (out, ctx) \<leftarrow> EVP_DigestFinal_ex ctx;
         Some (Some out) } } }"

end
