(* ===== verification/Hmac.thy ===== *)
theory Hmac
  imports Evp
begin

text \<open>
  BoringSSL: \<open>crypto/fipsmodule/hmac/hmac.c\<close> and \<open>crypto/hkdf/hkdf.c\<close>. A key is optional, where \<open>None\<close> is the null pointer (with
  length 0). The stack arrays are lists; \<open>mem i\<close> tells whether the \<open>i\<close>-th allocation of an initialisation succeeds: of
  the digest of a long key, of the inner and the outer context, and of the copy.
\<close>

unbundle bit_operations_syntax

definition EVP_MAX_MD_BLOCK_SIZE :: nat where "EVP_MAX_MD_BLOCK_SIZE = 128"

section \<open>HMAC\<close>

record HMAC_CTX =
  hmac_md :: "EVP_MD option"
  md_ctx :: EVP_MD_CTX
  i_ctx :: EVP_MD_CTX
  o_ctx :: EVP_MD_CTX

definition HMAC_CTX_init :: HMAC_CTX where
  "HMAC_CTX_init = \<lparr>hmac_md = None, md_ctx = EVP_MD_CTX_init, i_ctx = EVP_MD_CTX_init, o_ctx = EVP_MD_CTX_init\<rparr>"

definition HMAC_CTX_cleanup :: "HMAC_CTX \<Rightarrow> HMAC_CTX" where
  "HMAC_CTX_cleanup ctx = HMAC_CTX_init"

text \<open>The bytes of the key, hashed when they are more than a block; the flag is false when that fails.\<close>

definition hmac_key :: "(nat \<Rightarrow> bool) \<Rightarrow> EVP_MD \<Rightarrow> u8 list \<Rightarrow> HMAC_CTX \<Rightarrow> (u8 list option \<times> HMAC_CTX) option" where
  "hmac_key mem md key ctx = (
     if \<not> EVP_MD_block_size md \<le> EVP_MAX_MD_BLOCK_SIZE then None
     else if EVP_MD_block_size md < length key then do {
       (ok, c) \<leftarrow> EVP_DigestInit_ex (mem 0) (md_ctx ctx) md;
       if \<not> ok then Some (None, ctx\<lparr>md_ctx := c\<rparr>)
       else do {
         (ok, c) \<leftarrow> EVP_DigestUpdate key c;
         if \<not> ok then Some (None, ctx\<lparr>md_ctx := c\<rparr>)
         else do {
           (key_block, c) \<leftarrow> EVP_DigestFinal_ex c;
           Some (Some key_block, ctx\<lparr>md_ctx := c\<rparr>) } } }
     else if length key \<le> EVP_MAX_MD_BLOCK_SIZE then Some (Some key, ctx)
     else None)"

text \<open>A context that has hashed the key block with a pad.\<close>

definition hmac_pad :: "bool \<Rightarrow> EVP_MD \<Rightarrow> u8 \<Rightarrow> u8 list \<Rightarrow> EVP_MD_CTX step" where
  "hmac_pad mem md x key_block c = do {
     let pad = map (\<lambda>b. x XOR b) key_block;
     (ok, c) \<leftarrow> EVP_DigestInit_ex mem c md;
     if \<not> ok then Some (False, c) else EVP_DigestUpdate (take (EVP_MD_block_size md) pad) c }"

definition HMAC_Init_ex :: "(nat \<Rightarrow> bool) \<Rightarrow> HMAC_CTX \<Rightarrow> u8 list option \<Rightarrow> EVP_MD option \<Rightarrow> (bool \<times> HMAC_CTX) option" where
  "HMAC_Init_ex mem ctx key md = do {
     let md = (if md = None then hmac_md ctx else md);
     (ok, ctx) \<leftarrow> (
       if md \<noteq> hmac_md ctx \<or> key \<noteq> None then do {
         md \<leftarrow> md;
         (k, ctx) \<leftarrow> hmac_key mem md (case key of None \<Rightarrow> [] | Some key \<Rightarrow> key) ctx;
         case k of
           None \<Rightarrow> Some (False, ctx)
         | Some k \<Rightarrow> do {
             let key_block = k @ replicate (EVP_MAX_MD_BLOCK_SIZE - length k) 0;
             (ok, c) \<leftarrow> hmac_pad (mem 1) md 0x36 key_block (i_ctx ctx);
             let ctx = ctx\<lparr>i_ctx := c\<rparr>;
             if \<not> ok then Some (False, ctx)
             else do {
               (ok, c) \<leftarrow> hmac_pad (mem 2) md 0x5c key_block (o_ctx ctx);
               let ctx = ctx\<lparr>o_ctx := c\<rparr>;
               if \<not> ok then Some (False, ctx) else Some (True, ctx\<lparr>hmac_md := Some md\<rparr>) } } }
       else Some (True, ctx));
     if \<not> ok then Some (False, ctx)
     else do {
       (ok, c) \<leftarrow> EVP_MD_CTX_copy_ex (mem 3) (md_ctx ctx) (i_ctx ctx);
       Some (ok, ctx\<lparr>md_ctx := c\<rparr>) } }"

definition HMAC_Update :: "u8 list \<Rightarrow> HMAC_CTX step" where
  "HMAC_Update dat ctx = do {
     (ok, c) \<leftarrow> EVP_DigestUpdate dat (md_ctx ctx);
     Some (ok, ctx\<lparr>md_ctx := c\<rparr>) }"

text \<open>The output, \<open>None\<close> for the return value 0, and the context.\<close>

definition HMAC_Final :: "bool \<Rightarrow> HMAC_CTX \<Rightarrow> (u8 list option \<times> HMAC_CTX) option" where
  "HMAC_Final mem ctx = do {
     (buf, c) \<leftarrow> EVP_DigestFinal_ex (md_ctx ctx);
     (ok, c) \<leftarrow> EVP_MD_CTX_copy_ex mem c (o_ctx ctx);
     if \<not> ok then Some (None, ctx\<lparr>md_ctx := c\<rparr>)
     else do {
       (ok, c) \<leftarrow> EVP_DigestUpdate buf c;
       if \<not> ok then Some (None, ctx\<lparr>md_ctx := c\<rparr>)
       else do {
         (out, c) \<leftarrow> EVP_DigestFinal_ex c;
         Some (Some out, ctx\<lparr>md_ctx := c\<rparr>) } } }"

definition HMAC_size :: "HMAC_CTX \<Rightarrow> nat option" where
  "HMAC_size ctx = map_option EVP_MD_size (hmac_md ctx)"

definition HMAC_CTX_copy_ex :: "(nat \<Rightarrow> bool) \<Rightarrow> HMAC_CTX \<Rightarrow> HMAC_CTX \<Rightarrow> (bool \<times> HMAC_CTX) option" where
  "HMAC_CTX_copy_ex mem dest src = do {
     (ok, c) \<leftarrow> EVP_MD_CTX_copy_ex (mem 0) (i_ctx dest) (i_ctx src);
     let dest = dest\<lparr>i_ctx := c\<rparr>;
     if \<not> ok then Some (False, dest)
     else do {
       (ok, c) \<leftarrow> EVP_MD_CTX_copy_ex (mem 1) (o_ctx dest) (o_ctx src);
       let dest = dest\<lparr>o_ctx := c\<rparr>;
       if \<not> ok then Some (False, dest)
       else do {
         (ok, c) \<leftarrow> EVP_MD_CTX_copy_ex (mem 2) (md_ctx dest) (md_ctx src);
         let dest = dest\<lparr>md_ctx := c\<rparr>;
         if \<not> ok then Some (False, dest) else Some (True, dest\<lparr>hmac_md := hmac_md src\<rparr>) } } }"

definition HMAC_CTX_copy :: "(nat \<Rightarrow> bool) \<Rightarrow> HMAC_CTX \<Rightarrow> HMAC_CTX \<Rightarrow> (bool \<times> HMAC_CTX) option" where
  "HMAC_CTX_copy mem dest src = (let dest = HMAC_CTX_init in HMAC_CTX_copy_ex mem dest src)"

text \<open>The one-shot function: the output, or \<open>None\<close> for \<open>NULL\<close>. The last allocation is the copy of \<open>HMAC_Final\<close>.\<close>

definition HMAC :: "(nat \<Rightarrow> bool) \<Rightarrow> EVP_MD \<Rightarrow> u8 list option \<Rightarrow> u8 list \<Rightarrow> u8 list option option" where
  "HMAC mem evp_md key dat = do {
     let ctx = HMAC_CTX_init;
     (ok, ctx) \<leftarrow> HMAC_Init_ex mem ctx key (Some evp_md);
     if \<not> ok then Some None
     else do {
       (ok, ctx) \<leftarrow> HMAC_Update dat ctx;
       if \<not> ok then Some None
       else do {
         (out, ctx) \<leftarrow> HMAC_Final (mem 4) ctx;
         Some out } } }"

section \<open>HKDF\<close>

definition HKDF_extract :: "(nat \<Rightarrow> bool) \<Rightarrow> EVP_MD \<Rightarrow> u8 list \<Rightarrow> u8 list option \<Rightarrow> u8 list option option" where
  "HKDF_extract mem digest secret salt = do {
     out \<leftarrow> HMAC mem digest salt secret;
     case out of
       None \<Rightarrow> Some None
     | Some out_key \<Rightarrow> if length out_key = EVP_MD_size digest then Some (Some out_key) else None }"

text \<open>One round of the loop: the new block \<open>previous\<close>, \<open>None\<close> when a call fails. No call allocates.\<close>

definition hkdf_round :: "u8 list \<Rightarrow> nat \<Rightarrow> u8 list \<Rightarrow> HMAC_CTX \<Rightarrow> (u8 list option \<times> HMAC_CTX) option" where
  "hkdf_round info i previous hmac = do {
     let ctr = word_of_nat (i + 1);
     (ok, hmac) \<leftarrow> (
       if i \<noteq> 0 then do {
         (ok, hmac) \<leftarrow> HMAC_Init_ex (\<lambda>_. False) hmac None None;
         if \<not> ok then Some (False, hmac) else HMAC_Update previous hmac }
       else Some (True, hmac));
     if \<not> ok then Some (None, hmac)
     else do {
       (ok, hmac) \<leftarrow> HMAC_Update info hmac;
       if \<not> ok then Some (None, hmac)
       else do {
         (ok, hmac) \<leftarrow> HMAC_Update [ctr] hmac;
         if \<not> ok then Some (None, hmac) else HMAC_Final False hmac } } }"

text \<open>The loop over the rounds \<open>is\<close>, with the bytes written so far; \<open>done\<close> is their number.\<close>

fun hkdf_rounds :: "u64 \<Rightarrow> nat \<Rightarrow> u8 list \<Rightarrow> nat list \<Rightarrow> u8 list \<Rightarrow> u8 list \<Rightarrow> HMAC_CTX \<Rightarrow> u8 list option option" where
  "hkdf_rounds out_len digest_len info [] out_key previous hmac = Some (Some out_key)"
| "hkdf_rounds out_len digest_len info (i # is) out_key previous hmac = do {
     (p, hmac) \<leftarrow> hkdf_round info i previous hmac;
     case p of
       None \<Rightarrow> Some None
     | Some previous \<Rightarrow>
         let dn = word_of_nat (length out_key) :: u64;
           todo = word_of_nat digest_len;
           todo = (if dn + todo > out_len then out_len - dn else todo) in
         hkdf_rounds out_len digest_len info is (out_key @ take (unat todo) previous) previous hmac }"

definition HKDF_expand :: "(nat \<Rightarrow> bool) \<Rightarrow> u64 \<Rightarrow> EVP_MD \<Rightarrow> u8 list \<Rightarrow> u8 list \<Rightarrow> u8 list option option" where
  "HKDF_expand mem out_len digest prk info = do {
     let digest_len = (word_of_nat (EVP_MD_size digest) :: u64);
     let n = (out_len + digest_len - 1) div digest_len;
     if out_len + digest_len < out_len \<or> n > 255 then Some None
     else do {
       (ok, hmac) \<leftarrow> HMAC_Init_ex mem HMAC_CTX_init (Some prk) (Some digest);
       if \<not> ok then Some None
       else hkdf_rounds out_len (EVP_MD_size digest) info [0..<unat n] [] [] hmac } }"

definition HKDF :: "(nat \<Rightarrow> bool) \<Rightarrow> (nat \<Rightarrow> bool) \<Rightarrow> u64 \<Rightarrow> EVP_MD \<Rightarrow> u8 list \<Rightarrow> u8 list option \<Rightarrow> u8 list \<Rightarrow> u8 list option option" where
  "HKDF mem mem' out_len digest secret salt info = do {
     prk \<leftarrow> HKDF_extract mem digest secret salt;
     case prk of
       None \<Rightarrow> Some None
     | Some prk \<Rightarrow> HKDF_expand mem' out_len digest prk info }"

end
