(* ===== verification/Md32_Spec.thy ===== *)
theory Md32_Spec
  imports Md32
begin

text \<open>
  The collector of the digests: fed with any pieces, it applies the block function to the blocks of their
  concatenation, padded as the standards say. The locale \<open>md32\<close> is the contract of an
  instantiation of the macros: blocks of 64 bytes, and a block function that chains a compression function
  over the blocks.
\<close>

section \<open>Padding\<close>

definition len_bytes :: "bool \<Rightarrow> nat \<Rightarrow> u8 list" where
  "len_bytes big n = (if big then be_bytes 8 n else rev (be_bytes 8 n))"

definition md_pad :: "bool \<Rightarrow> u8 list \<Rightarrow> u8 list" where
  "md_pad big m = m @ 0x80 # replicate ((119 - length m mod 64) mod 64) 0 @ len_bytes big (8 * length m)"

definition md_chain :: "(u32 list \<Rightarrow> u8 list \<Rightarrow> u32 list) \<Rightarrow> u32 list \<Rightarrow> u8 list \<Rightarrow> u32 list" where
  "md_chain compress h m = foldl compress h (blocks 64 m)"

locale md32 =
  fixes alg :: md32_alg and compress :: "u32 list \<Rightarrow> u8 list \<Rightarrow> u32 list" and words :: nat
  assumes cblock: "HASH_CBLOCK alg = 64"
    and compress_length: "length s = words \<Longrightarrow> length b = 64 \<Longrightarrow> length (compress s b) = words"
    and block_refines: "length s = words \<Longrightarrow> n > 0 \<Longrightarrow> 64 * n \<le> length dat \<Longrightarrow>
      HASH_BLOCK_DATA_ORDER alg s dat n = Some (md_chain compress s (take (64 * n) dat))"

lemma md_chain_append_block:
  "length b = 64 \<Longrightarrow> md_chain compress s (b @ m) = md_chain compress (compress s b) m"
  by (simp add: md_chain_def blocks_append_block)

lemma md_chain_Nil [simp]: "md_chain compress s [] = s"
  by (simp add: md_chain_def blocks_short)

text \<open>The block functions are loops over the blocks.\<close>

lemma each_block_chain:
  assumes len: "\<And>s X. length s = words \<Longrightarrow> length X = 16 \<Longrightarrow> length (block s X) = words"
    and load: "\<And>b r. length b = 64 \<Longrightarrow> load_words big 16 (b @ r) = Some (wordsof b, r)"
    and wl: "\<And>b. length b = 64 \<Longrightarrow> length (wordsof b) = 16"
    and cp: "\<And>s b. length s = words \<Longrightarrow> length b = 64 \<Longrightarrow> block s (wordsof b) = compress s b"
  shows "length s = words \<Longrightarrow> 64 * n \<le> length dat \<Longrightarrow>
    each_block big block s dat n = Some (md_chain compress s (take (64 * n) dat))"
proof (induction n arbitrary: s dat)
  case (Suc n)
  define b where "b = take 64 dat"
  define r where "r = drop 64 dat"
  have d: "dat = b @ r" "length b = 64" "64 * n \<le> length r" using Suc.prems by (simp_all add: b_def r_def)
  have "64 * Suc n = length b + 64 * n" using d(2) by simp
  then have t: "take (64 * Suc n) dat = b @ take (64 * n) r" unfolding d(1) by (simp only: take_append) simp
  have ih: "each_block big block (block s (wordsof b)) r n = Some (md_chain compress (block s (wordsof b)) (take (64 * n) r))"
    by (rule Suc.IH) (rule len [OF Suc.prems(1) wl [OF d(2)]], rule d(3))
  have e: "each_block big block s dat (Suc n) = each_block big block (block s (wordsof b)) r n"
    unfolding d(1) each_block.simps load [OF d(2)] Option.bind.simps prod.case by (rule refl)
  show ?case unfolding e ih t md_chain_append_block [OF d(2)] unfolding cp [OF Suc.prems(1) d(2)] by (rule refl)
qed simp

section \<open>Collecting\<close>

text \<open>What the context holds after the input \<open>m\<close>, from the chaining value \<open>h0\<close>.\<close>

definition chained :: "(u32 list \<Rightarrow> u8 list \<Rightarrow> u32 list) \<Rightarrow> u32 list \<Rightarrow> u8 list \<Rightarrow> md32_ctx \<Rightarrow> bool" where
  "chained compress h0 m c \<longleftrightarrow> md_h c = md_chain compress h0 m \<and> length (md_data c) = 64 \<and> unat (md_num c) = length m mod 64 \<and>
     take (length m mod 64) (md_data c) = rest 64 m"

definition counted :: "nat \<Rightarrow> md32_ctx \<Rightarrow> bool" where
  "counted n c \<longleftrightarrow> unat (md_Nh c) * 2 ^ 32 + unat (md_Nl c) = 8 * n mod 2 ^ 64"

definition holds :: "(u32 list \<Rightarrow> u8 list \<Rightarrow> u32 list) \<Rightarrow> u32 list \<Rightarrow> u8 list \<Rightarrow> md32_ctx \<Rightarrow> bool" where
  "holds compress h0 m c \<longleftrightarrow> chained compress h0 m c \<and> counted (length m) c"

text \<open>Feeding the pieces of an input one after the other.\<close>

definition updates :: "md32_alg \<Rightarrow> u8 list list \<Rightarrow> md32_ctx \<Rightarrow> md32_ctx option" where
  "updates alg ps c = foldl (\<lambda>c p. Option.bind c (\<lambda>c. map_option snd (HASH_UPDATE alg p c))) (Some c) ps"

lemma md_chain_append: "md_chain compress s (m @ d) = foldl compress (md_chain compress s m) (blocks 64 (rest 64 m @ d))"
  by (simp add: md_chain_def blocks_append [of 64 m d])

text \<open>The two counters together are the number of bits, modulo \<open>2 ^ 64\<close>.\<close>

lemma carry_nat:
  fixes M a b q r :: nat
  assumes "a < M" "r < M"
  shows "(b * M + a + (M * q + r)) mod (M * M) = (b + (if (a + r) mod M < a then 1 else 0) + q) mod M * M + (a + r) mod M"
proof -
  let ?c = "if (a + r) mod M < a then 1 else 0 :: nat"
  have "a + r = M * ?c + (a + r) mod M"
  proof (cases "a + r < M")
    case False
    then have "(a + r) mod M = a + r - M" using assms by (simp add: le_mod_geq)
    then show ?thesis using False assms by simp
  qed simp
  then have "b * M + a + (M * q + r) = M * (b + ?c + q) + (a + r) mod M"
    by (simp only: add_mult_distrib2 mult.commute add.assoc add.commute add.left_commute)
  moreover have "(M * x + y) mod (M * M) = x mod M * M + y" if "y < M" for x y
    using that by (simp add: mod_mult2_eq)
  moreover have "(a + r) mod M < M" using assms(1) by simp
  ultimately show ?thesis by metis
qed

lemma add_length_counts:
  fixes len :: u64
  assumes "unat (md_Nh c) * 2 ^ 32 + unat (md_Nl c) = N mod 2 ^ 64"
  shows "unat (md_Nh (add_length len c)) * 2 ^ 32 + unat (md_Nl (add_length len c)) = (N + 8 * unat len) mod 2 ^ 64"
proof -
  let ?r = "8 * unat len mod 2 ^ 32"
  have nl: "unat (md_Nl c) < 2 ^ 32" by (rule order_less_le_trans [OF unsigned_less]) simp
  have r: "unat (push_bit 3 (ucast len) :: u32) = ?r"
    by (simp only: unsigned_push_bit_eq unsigned_ucast_eq) (simp add: take_bit_eq_mod push_bit_eq_mult mod_mult_left_eq mult.commute [of 8])
  have q: "unat (ucast (drop_bit 29 len) :: u32) = unat len div 2 ^ 29 mod 2 ^ 32"
    by (simp add: unsigned_ucast_eq take_bit_eq_mod unat_drop_bit_div)
  have "8 * unat len div 2 ^ 32 = unat len div 2 ^ 29"
    by (simp add: div_mult2_eq [of "8 * unat len" 8 "2 ^ 29", simplified])
  then have d: "8 * unat len = 2 ^ 32 * (unat len div 2 ^ 29) + ?r" using mult_div_mod_eq [of "2 ^ 32" "8 * unat len"] by presburger
  have "(N + 8 * unat len) mod 2 ^ 64 = (unat (md_Nh c) * 2 ^ 32 + unat (md_Nl c) + (2 ^ 32 * (unat len div 2 ^ 29) + ?r)) mod 2 ^ 64"
    unfolding d [symmetric] assms by (simp add: mod_add_left_eq)
  also have "\<dots> = (unat (md_Nh c) + (if (unat (md_Nl c) + ?r) mod 2 ^ 32 < unat (md_Nl c) then 1 else 0) + unat len div 2 ^ 29) mod 2 ^ 32 * 2 ^ 32 +
      (unat (md_Nl c) + ?r) mod 2 ^ 32"
    using carry_nat [of "unat (md_Nl c)" "2 ^ 32" ?r "unat (md_Nh c)" "unat len div 2 ^ 29"] nl by simp
  also have "\<dots> = unat (md_Nh (add_length len c)) * 2 ^ 32 + unat (md_Nl (add_length len c))"
  proof -
    have "unat (md_Nl (add_length len c)) = (unat (md_Nl c) + ?r) mod 2 ^ 32"
      by (simp add: add_length_def Let_def unat_word_ariths r del: push_bit_numeral)
    moreover have "unat (md_Nh (add_length len c)) =
        (unat (md_Nh c) + (if (unat (md_Nl c) + ?r) mod 2 ^ 32 < unat (md_Nl c) then 1 else 0) + unat len div 2 ^ 29) mod 2 ^ 32"
      by (simp add: add_length_def Let_def unat_word_ariths r q word_less_nat_alt mod_simps)
    ultimately show ?thesis by simp
  qed
  finally show ?thesis by simp
qed


lemma counted_add_length: "counted n c \<Longrightarrow> counted (n + unat len) (add_length len c)"
  using add_length_counts [of c "8 * n" len] by (simp add: counted_def add_mult_distrib2)

lemma add_length_same [simp]:
  "md_h (add_length len c) = md_h c" "md_data (add_length len c) = md_data c" "md_num (add_length len c) = md_num c"
  "md_len (add_length len c) = md_len c"
  by (simp_all add: add_length_def Let_def)

lemma md_chain_short: "length (rest 64 m @ d) < 64 \<Longrightarrow> md_chain compress s (m @ d) = md_chain compress s m"
  by (simp add: md_chain_append blocks_short)

lemma rest_dvd: "length m mod 64 = 0 \<Longrightarrow> rest 64 m = []"
  by (simp add: length_0_conv [symmetric] length_rest del: length_0_conv)

context md32 begin

lemma chain_length: "length h0 = words \<Longrightarrow> length (md_chain compress h0 m) = words"
proof -
  have "(0 :: nat) < 64" by simp
  then show "length h0 = words \<Longrightarrow> length (md_chain compress h0 m) = words"
  proof (induction m arbitrary: h0 rule: blocks_induct)
    case (short xs)
    then show ?case by (simp add: md_chain_def blocks_short)
  next
    case (block b xs)
    then show ?case using compress_length by (simp add: md_chain_append_block)
  qed
qed

lemma block_one:
  assumes "length s = words" "length b = 64"
  shows "HASH_BLOCK_DATA_ORDER alg s b 1 = Some (compress s b)"
proof -
  have "md_chain compress s (take (64 * 1) b) = compress s b" using md_chain_append_block [of b compress s "[]"] assms(2) by simp
  then show ?thesis using block_refines [of s 1 b] assms by simp
qed

text \<open>Filling a block that was begun.\<close>

lemma fill_small:
  assumes c: "chained compress h0 m c" and k: "length m mod 64 \<noteq> 0" "length m mod 64 + length d < 64"
  shows "\<exists>c'. fill_block alg d c = Some (True, d, c') \<and> chained compress h0 (m @ d) c' \<and> md_len c' = md_len c \<and>
    md_Nh c' = md_Nh c \<and> md_Nl c' = md_Nl c"
proof -
  let ?k = "length m mod 64"
  have n: "unat (ucast (md_num c) :: u64) = ?k" using c by (simp add: chained_def unsigned_ucast_eq take_bit_nat_eq_self)
  have l: "unat (word_of_nat (length d) :: u64) = length d" using k(2) by (simp add: unat_of_nat take_bit_nat_eq_self)
  have nz: "(ucast (md_num c) :: u64) \<noteq> 0" using k(1) n by (metis unat_eq_0)
  have small: "\<not> (word_of_nat (length d) \<ge> (64 :: u64) \<or> word_of_nat (length d) + ucast (md_num c) \<ge> (64 :: u64))"
    using k(2) n l by (simp add: word_le_nat_alt unat_word_ariths)
  have put: "put (md_data c) ?k d = Some (rest 64 m @ d @ drop (?k + length d) (md_data c))"
    using c k(2) by (simp add: chained_def put_def)
  have f: "fill_block alg d c = Some (True, d, c\<lparr>md_data := rest 64 m @ d @ drop (?k + length d) (md_data c), md_num := md_num c + ucast (word_of_nat (length d) :: u64)\<rparr>)"
    using nz small put n by (simp add: fill_block_def Let_def cblock)
  have lr: "length (rest 64 m) = ?k" by (simp add: length_rest)
  have "unat (md_num c + ucast (word_of_nat (length d) :: u64)) = ?k + length d"
    using c k(2) l by (simp add: chained_def unat_word_ariths unsigned_ucast_eq take_bit_nat_eq_self)
  moreover have "length (m @ d) mod 64 = ?k + length d" using k(2) by (metis length_append mod_add_left_eq mod_less)
  moreover have "rest 64 (m @ d) = rest 64 m @ d" using k(2) lr by (simp add: rest_append [of 64 m d] rest_short)
  ultimately have "chained compress h0 (m @ d) (c\<lparr>md_data := rest 64 m @ d @ drop (?k + length d) (md_data c), md_num := md_num c + ucast (word_of_nat (length d) :: u64)\<rparr>)"
    using c k(2) lr by (simp add: chained_def md_chain_short)
  then show ?thesis using f by auto
qed


lemma fill_full:
  assumes c: "chained compress h0 m c" and h0: "length h0 = words" and k: "length m mod 64 \<noteq> 0" "64 \<le> length m mod 64 + length d"
    and d: "length d < 2 ^ 64"
  defines "d1 \<equiv> take (64 - length m mod 64) d" and "d2 \<equiv> drop (64 - length m mod 64) d"
  shows "\<exists>c'. fill_block alg d c = Some (False, d2, c') \<and> chained compress h0 (m @ d1) c' \<and> length (m @ d1) mod 64 = 0 \<and>
    md_len c' = md_len c \<and> md_Nh c' = md_Nh c \<and> md_Nl c' = md_Nl c"
proof -
  let ?k = "length m mod 64"
  have n: "unat (ucast (md_num c) :: u64) = ?k" using c by (simp add: chained_def unsigned_ucast_eq take_bit_nat_eq_self)
  have l: "unat (word_of_nat (length d) :: u64) = length d" using d by (simp add: unat_of_nat take_bit_nat_eq_self)
  have nz: "(ucast (md_num c) :: u64) \<noteq> 0" using k(1) n by (metis unat_eq_0)
  have large: "word_of_nat (length d) \<ge> (64 :: u64) \<or> word_of_nat (length d) + ucast (md_num c) \<ge> (64 :: u64)"
  proof (cases "length d \<ge> 64")
    case False
    then have "length d + ?k < 2 ^ 64" by simp
    then show ?thesis using k(2) n l by (simp add: word_le_nat_alt unat_word_ariths)
  qed (use l in \<open>simp add: word_le_nat_alt\<close>)
  have km: "unat (64 - ucast (md_num c) :: u64) = 64 - ?k"
    using n by (subst unat_sub) (simp_all add: word_le_nat_alt)
  let ?b = "rest 64 m @ d1"
  have lb: "length (rest 64 m) = ?k" "length d1 = 64 - ?k" "length ?b = 64"
    using k(2) mod_less_divisor [of 64 "length m"] by (simp_all add: length_rest d1_def)
  have put1: "put (md_data c) ?k d1 = Some ?b" using c lb by (simp add: chained_def put_def)
  have put2: "put ?b 0 (replicate 64 0) = Some (replicate 64 0)" using lb(3) by (simp add: put_def)
  have hl: "length (md_h c) = words" using c chain_length [OF h0] by (simp add: chained_def)
  have f: "fill_block alg d c = Some (False, d2, c\<lparr>md_h := compress (md_h c) ?b, md_num := 0, md_data := replicate 64 0\<rparr>)"
    using nz large n put1 put2 block_one [OF hl lb(3)] by (simp add: fill_block_def Let_def cblock km d1_def d2_def)
  have z: "length (m @ d1) mod 64 = 0"
  proof -
    have "length m + length d1 = 64 * (length m div 64) + (?k + length d1)" by presburger
    moreover have "?k + length d1 = 64" using lb(2) mod_less_divisor [of 64 "length m"] by simp
    ultimately show ?thesis by simp
  qed
  have "chained compress h0 (m @ d1) (c\<lparr>md_h := compress (md_h c) ?b, md_num := 0, md_data := replicate 64 0\<rparr>)"
    using c z rest_dvd [OF z] lb(3) by (simp add: chained_def md_chain_append blocks_step blocks_short)
  then show ?thesis using f z by auto
qed

lemma fill_any:
  assumes "chained compress h0 m c" "length h0 = words" "length d < 2 ^ 64"
  shows "\<exists>filled d1 d2 c'. fill_block alg d c = Some (filled, d2, c') \<and> md_len c' = md_len c \<and> md_Nh c' = md_Nh c \<and> md_Nl c' = md_Nl c \<and>
    (if filled then chained compress h0 (m @ d) c'
     else d = d1 @ d2 \<and> chained compress h0 (m @ d1) c' \<and> length (m @ d1) mod 64 = 0)"
proof (cases "length m mod 64 = 0")
  case True
  then have "unat (md_num c) = 0" using assms(1) by (simp add: chained_def)
  then have "md_num c = 0" by (simp only: unat_eq_0)
  then have "fill_block alg d c = Some (False, d, c)" by (simp add: fill_block_def Let_def)
  then show ?thesis using assms(1) True
    by - (rule exI [of _ False], rule exI [of _ "[]"], rule exI [of _ d], rule exI [of _ c], simp)
next
  case k: False
  show ?thesis
  proof (cases "length m mod 64 + length d < 64")
    case True
    from fill_small [OF assms(1) k True] show ?thesis by (metis (full_types))
  next
    case False
    then have "64 \<le> length m mod 64 + length d" by simp
    from fill_full [OF assms(1,2) k this assms(3)] show ?thesis
      by (metis (full_types) append_take_drop_id)
  qed
qed

lemma chain_complete: "md_chain compress s (take (64 * (length d div 64)) d) = md_chain compress s d"
proof -
  let ?t = "take (64 * (length d div 64)) d"
  have "length ?t mod 64 = 0" by simp
  from rest_dvd [OF this] have "length (rest 64 ?t @ rest 64 d) < 64" by (simp add: length_rest)
  from md_chain_short [OF this, of compress s] have "md_chain compress s (?t @ rest 64 d) = md_chain compress s ?t" .
  moreover have "?t @ rest 64 d = d" unfolding rest_def by (rule append_take_drop_id)
  ultimately show ?thesis by simp
qed

lemma update_rest:
  assumes c: "chained compress h0 m c" and h0: "length h0 = words" and z: "length m mod 64 = 0"
  shows "\<exists>c'. do {
         h \<leftarrow> (if length d div 64 > 0 then HASH_BLOCK_DATA_ORDER alg (md_h c) d (length d div 64) else Some (md_h c));
         let dat = drop (length d div 64 * 64) d;
         let c = c\<lparr>md_h := h\<rparr>;
         if length dat \<noteq> 0 then do {
           buf \<leftarrow> put (md_data c) 0 dat;
           Some (True, c\<lparr>md_num := word_of_nat (length dat), md_data := buf\<rparr>) }
         else Some (True, c) } = Some (True, c') \<and>
    chained compress h0 (m @ d) c' \<and> md_len c' = md_len c \<and> md_Nh c' = md_Nh c \<and> md_Nl c' = md_Nl c"
proof -
  have c': "md_h c = md_chain compress h0 m" "length (md_data c) = 64" "unat (md_num c) = 0" "rest 64 m = []"
    using c z rest_dvd [OF z] by (simp_all add: chained_def)
  have n0: "md_num c = 0" using c'(3) by (simp only: unat_eq_0)
  have hl: "length (md_h c) = words" using c chain_length [OF h0] by (simp add: chained_def)
  have h: "(if length d div 64 > 0 then HASH_BLOCK_DATA_ORDER alg (md_h c) d (length d div 64) else Some (md_h c)) = Some (md_chain compress (md_h c) d)"
  proof (cases "length d div 64 > 0")
    case True
    then show ?thesis using block_refines [OF hl True, of d] chain_complete [of "md_h c" d] by simp
  next
    case False
    then have "length d < 64" by simp
    then show ?thesis by (simp add: md_chain_def blocks_short)
  qed
  have r: "drop (length d div 64 * 64) d = rest 64 d" by (simp add: rest_def mult.commute)
  have dl: "length (rest 64 d) = length d mod 64" by (simp add: length_rest)
  have lm: "length (m @ d) mod 64 = length d mod 64" using z by (metis length_append mod_add_left_eq add_0)
  have rm: "rest 64 (m @ d) = rest 64 d" using c'(4) by (simp add: rest_append [of 64 m d])
  have ch: "md_chain compress (md_h c) d = md_chain compress h0 (m @ d)"
    unfolding md_chain_append [of compress h0 m d] c'(4) c'(1) append_Nil by (simp only: md_chain_def)
  show ?thesis
  proof (cases "length d mod 64 = 0")
    case True
    then have "rest 64 d = []" using dl by simp
    then show ?thesis unfolding h r using True c' n0 lm rm by (simp add: Let_def chained_def ch [unfolded c'(1)])
  next
    case False
    have p: "put (md_data c) 0 (rest 64 d) = Some (rest 64 d @ drop (length (rest 64 d)) (md_data c))"
      using c'(2) dl by (simp add: put_def)
    have u: "unat (word_of_nat (length (rest 64 d)) :: u32) = length d mod 64"
      unfolding dl by (simp add: unat_of_nat take_bit_nat_eq_self)
    have ne: "rest 64 d \<noteq> []" using False dl by fastforce
    show ?thesis unfolding h r using False dl p u c'(2) lm rm ne by (simp add: Let_def chained_def ch)
  qed
qed

lemma update_holds:
  assumes h: "holds compress h0 m c" and h0: "length h0 = words" and d: "length d < 2 ^ 64"
  shows "\<exists>c'. HASH_UPDATE alg d c = Some (True, c') \<and> holds compress h0 (m @ d) c' \<and> md_len c' = md_len c"
proof (cases "d = []")
  case True
  then show ?thesis using h by (simp add: HASH_UPDATE_def)
next
  case False
  let ?c1 = "add_length (word_of_nat (length d)) c"
  have l: "unat (word_of_nat (length d) :: u64) = length d" using d by (simp add: unat_of_nat take_bit_nat_eq_self)
  have c1: "chained compress h0 m ?c1" "counted (length (m @ d)) ?c1"
    using h counted_add_length [of "length m" c "word_of_nat (length d)"] by (simp_all add: holds_def chained_def l)
  obtain filled d1 d2 c2 where f: "fill_block alg d ?c1 = Some (filled, d2, c2)" "md_len c2 = md_len c"
      "md_Nh c2 = md_Nh ?c1" "md_Nl c2 = md_Nl ?c1"
      "if filled then chained compress h0 (m @ d) c2
       else d = d1 @ d2 \<and> chained compress h0 (m @ d1) c2 \<and> length (m @ d1) mod 64 = 0"
    using fill_any [OF c1(1) h0 d] by auto
  have count: "counted (length (m @ d)) c'" if "md_Nh c' = md_Nh c2" "md_Nl c' = md_Nl c2" for c'
    using c1(2) that f(3,4) by (simp add: counted_def)
  show ?thesis
  proof (cases filled)
    case True
    then show ?thesis using False f count [of c2] by (simp add: HASH_UPDATE_def holds_def)
  next
    case nf: False
    then have d12: "m @ d = (m @ d1) @ d2" and c2: "chained compress h0 (m @ d1) c2" "length (m @ d1) mod 64 = 0" using f(5) by simp_all
    from update_rest [OF c2(1) h0 c2(2), of d2] obtain c' where c': "HASH_UPDATE alg d c = Some (True, c')"
        "chained compress h0 ((m @ d1) @ d2) c'" "md_len c' = md_len c2" "md_Nh c' = md_Nh c2" "md_Nl c' = md_Nl c2"
      using False nf f(1) unfolding HASH_UPDATE_def cblock by auto
    then show ?thesis using f(2) count [of c'] d12 by (auto simp: holds_def)
  qed
qed


lemma updates_holds:
  "holds compress h0 m c \<Longrightarrow> length h0 = words \<Longrightarrow> \<forall>p \<in> set ps. length p < 2 ^ 64 \<Longrightarrow>
    \<exists>c'. updates alg ps c = Some c' \<and> holds compress h0 (m @ concat ps) c' \<and> md_len c' = md_len c"
proof (induction ps arbitrary: m c)
  case (Cons p ps)
  obtain c1 where c1: "HASH_UPDATE alg p c = Some (True, c1)" "holds compress h0 (m @ p) c1" "md_len c1 = md_len c"
    using update_holds [OF Cons.prems(1,2), of p] Cons.prems(3) by auto
  from Cons.IH [OF c1(2) Cons.prems(2)] Cons.prems(3)
  obtain c' where "updates alg ps c1 = Some c'" "holds compress h0 ((m @ p) @ concat ps) c'" "md_len c' = md_len c1" by auto
  then show ?case using c1 by (simp add: updates_def)
qed (simp add: updates_def)

end

section \<open>The length and the last blocks\<close>

lemma l2c_bytes: "HOST_l2c True l = be_bytes 4 (unat l)" "HOST_l2c False l = rev (be_bytes 4 (unat l))"
proof -
  have m: "(ucast (x AND 0xff) :: u8) = ucast x" for x :: u32
  proof (rule bit_word_eqI)
    have e: "(0xff :: u32) = mask 8" by (simp add: mask_eq_exp_minus_1)
    show "bit (ucast (x AND 0xff) :: u8) n = bit (ucast x :: u8) n" if "n < LENGTH(8)" for n
      using that unfolding e by (simp add: bit_simps)
  qed
  have s: "(ucast (drop_bit k l) :: u8) = word_of_nat (unat l div 2 ^ k)" for k
    by (simp add: unat_drop_bit_div [symmetric] of_nat_unat)
  have "(ucast l :: u8) = word_of_nat (unat l)" by (simp add: of_nat_unat)
  moreover have "be_bytes (Suc (Suc (Suc (Suc 0)))) v = [word_of_nat (v div 2 ^ 24), word_of_nat (v div 2 ^ 16), word_of_nat (v div 2 ^ 8), word_of_nat v]" for v
    by (simp add: div_mult2_eq [symmetric])
  moreover have "(4 :: nat) = Suc (Suc (Suc (Suc 0)))" by simp
  ultimately have b: "be_bytes 4 (unat l) = [ucast (drop_bit 24 l), ucast (drop_bit 16 l), ucast (drop_bit 8 l), ucast l]"
    by (simp only: s)
  show "HOST_l2c True l = be_bytes 4 (unat l)" "HOST_l2c False l = rev (be_bytes 4 (unat l))"
    unfolding b by (simp_all add: HOST_l2c_def m)
qed


lemma len_words:
  assumes "counted n c"
  shows "len_bytes big (8 * n) = (if big then HOST_l2c big (md_Nh c) @ HOST_l2c big (md_Nl c)
    else HOST_l2c big (md_Nl c) @ HOST_l2c big (md_Nh c))"
proof -
  have a: "be_bytes (k + j) v = be_bytes k (v div 256 ^ j) @ be_bytes j v" for k j v
    by (induction j arbitrary: v) (simp_all add: div_mult2_eq)
  have m: "be_bytes k (v mod 256 ^ (k + j)) = be_bytes k v" for k j v
  proof (induction k arbitrary: v j)
    case (Suc k)
    have "v mod 256 ^ (Suc k + j) div 256 = v div 256 mod 256 ^ (k + j)" by (simp add: mod_mult2_eq)
    moreover have "(word_of_nat (v mod 256 ^ (Suc k + j)) :: u8) = word_of_nat v"
      by (simp add: word_of_nat_eq_iff take_bit_eq_mod mod_mod_cancel)
    ultimately show ?case using Suc by simp
  qed simp
  have "be_bytes 8 (8 * n) = be_bytes (4 + 4) (8 * n mod 256 ^ (8 + 0))" using m [of 8 "8 * n" 0] by simp
  also have "8 * n mod 256 ^ (8 + 0) = unat (md_Nh c) * 2 ^ 32 + unat (md_Nl c)"
    using assms by (simp add: counted_def)
  also have "be_bytes (4 + 4) (unat (md_Nh c) * 2 ^ 32 + unat (md_Nl c)) = be_bytes 4 (unat (md_Nh c)) @ be_bytes 4 (unat (md_Nl c))"
  proof -
    have l: "unat (md_Nl c) < 256 ^ 4" by (rule order_less_le_trans [OF unsigned_less]) simp
    then have "(unat (md_Nh c) * 2 ^ 32 + unat (md_Nl c)) div 256 ^ 4 = unat (md_Nh c)" by simp
    moreover have "be_bytes 4 (unat (md_Nh c) * 2 ^ 32 + unat (md_Nl c)) = be_bytes 4 (unat (md_Nl c))"
      using m [of 4 "unat (md_Nh c) * 2 ^ 32 + unat (md_Nl c)" 0] m [of 4 "unat (md_Nl c)" 0] l by simp
    ultimately show ?thesis unfolding a by simp
  qed
  finally show ?thesis by (simp add: len_bytes_def l2c_bytes)
qed


lemma length_len_bytes [simp]: "length (len_bytes big n) = 8"
  by (simp add: len_bytes_def)

lemma put_mid: "length a = i \<Longrightarrow> length b = length b' \<Longrightarrow> put (a @ b @ r) i b' = Some (a @ b' @ r)"
  by (simp add: put_def)

lemma put_last: "length a = i \<Longrightarrow> length b = length b' \<Longrightarrow> put (a @ b) i b' = Some (a @ b')"
  by (simp add: put_def)

context md32 begin

lemma chain_one:
  assumes "length (b1 :: u8 list) = 64" "rest 64 m @ p = b1"
  shows "md_chain compress h0 (m @ p) = compress (md_chain compress h0 m) b1"
  unfolding md_chain_append [of compress h0 m p] assms(2) using assms(1) by (simp add: blocks_step blocks_short)

lemma chain_two:
  assumes "length (b1 :: u8 list) = 64" "length b2 = 64" "rest 64 m @ p = b1 @ b2"
  shows "md_chain compress h0 (m @ p) = compress (compress (md_chain compress h0 m) b1) b2"
  unfolding md_chain_append [of compress h0 m p] assms(3) using assms(1,2)
  by (simp add: blocks_append_block blocks_step [of 64 b2] blocks_short)

lemma final_holds:
  assumes h: "holds compress h0 m c" and h0: "length h0 = words"
  shows "HASH_FINAL alg c = (let c' = c\<lparr>md_h := md_chain compress h0 (md_pad (DATA_ORDER_IS_BIG_ENDIAN alg) m), md_num := 0,
      md_data := replicate 64 0\<rparr> in Some (HASH_MAKE_STRING alg c', c'))"
proof -
  let ?big = "DATA_ORDER_IS_BIG_ENDIAN alg"
  define k where "k = length m mod 64"
  define r where "r = rest 64 m"
  define lb where "lb = len_bytes ?big (8 * length m)"
  let ?d = "md_data c"
  have c: "md_h c = md_chain compress h0 m" "length ?d = 64" "unat (md_num c) = k" "take k ?d = r" "length r = k" "k < 64"
    using h by (simp_all add: holds_def chained_def k_def r_def length_rest)
  have hl: "length (md_chain compress h0 m) = words" by (rule chain_length [OF h0])
  have lw: "(if ?big then HOST_l2c ?big (md_Nh c) @ HOST_l2c ?big (md_Nl c) else HOST_l2c ?big (md_Nl c) @ HOST_l2c ?big (md_Nh c)) = lb"
    using len_words [of "length m" c ?big] h by (simp add: holds_def lb_def)
  have l8: "length lb = 8" by (simp add: lb_def)
  define t where "t = drop (Suc k) ?d"
  have lt: "length t = 63 - k" using c(2) by (simp add: t_def)
  have p1: "put ?d k [0x80] = Some (r @ [0x80] @ t)" using c(2,4,6) by (simp add: put_def t_def)
  have "(119 - k) mod 64 = (if k + 1 > 56 then 119 - k else 55 - k)"
    using c(6) by (auto simp: mod_if)
  then have pad: "md_pad ?big m = m @ 0x80 # replicate (if k + 1 > 56 then 119 - k else 55 - k) 0 @ lb"
    by (simp add: md_pad_def lb_def k_def)
  show ?thesis
  proof (cases "k + 1 > 56")
    case True
    let ?b1 = "(r @ [0x80]) @ replicate (63 - k) 0" and ?b2 = "replicate 56 0 @ lb"
    have len: "length ?b1 = 64" "length ?b2 = 64" using c(5,6) l8 by simp_all
    have p2: "put (r @ [0x80] @ t) (k + 1) (replicate (63 - k) 0) = Some ?b1"
      using put_last [of "r @ [0x80]" "k + 1" t "replicate (63 - k) 0"] c(5) lt by simp
    have p3: "put ?b1 0 (replicate 56 0) = Some (replicate 56 0 @ drop 56 ?b1)" using len(1) by (simp add: put_def del: append_assoc)
    have p4: "put (replicate 56 0 @ drop 56 ?b1) 56 lb = Some ?b2" by (rule put_last) (use len(1) l8 in simp_all)
    have p5: "put ?b2 0 (replicate 64 0) = Some (replicate 64 0)" using len(2) by (simp add: put_def)
    have "replicate (119 - k) (0 :: u8) = replicate (63 - k) 0 @ replicate 56 0" using c(6) by (simp flip: replicate_add)
    then have "r @ 0x80 # replicate (119 - k) 0 @ lb = ?b1 @ ?b2" by simp
    then have "md_chain compress h0 (md_pad ?big m) = compress (compress (md_chain compress h0 m) ?b1) ?b2"
      unfolding pad if_P [OF True] using len by (intro chain_two) (simp_all only: r_def)
    moreover have "HASH_FINAL alg c = (let c' = c\<lparr>md_h := compress (compress (md_chain compress h0 m) ?b1) ?b2, md_num := 0,
        md_data := replicate 64 0\<rparr> in Some (HASH_MAKE_STRING alg c', c'))"
      using True c(6) p1 p2 p3 p4 p5 block_one [OF hl len(1)] block_one [OF compress_length [OF hl len(1)] len(2)]
      unfolding HASH_FINAL_def Let_def cblock c(1,3) lw by (simp del: append_assoc)
    ultimately show ?thesis by simp
  next
    case False
    then have k: "k \<le> 55" by simp
    let ?b = "((r @ [0x80]) @ replicate (55 - k) 0) @ lb"
    have len: "length ?b = 64" using c(5) k l8 by simp
    define t1 where "t1 = drop (55 - k) t"
    have lt1: "length t1 = 8" using lt k by (simp add: t1_def)
    have p2: "put (r @ [0x80] @ t) (k + 1) (replicate (55 - k) 0) = Some ((r @ [0x80]) @ replicate (55 - k) 0 @ t1)"
      using put_prefix' [of "k + 1" "r @ [0x80]" "replicate (55 - k) 0" t] c(5) lt k by (simp add: t1_def)
    have p3: "put ((r @ [0x80]) @ replicate (55 - k) 0 @ t1) 56 lb = Some ?b"
      using put_last [of "(r @ [0x80]) @ replicate (55 - k) 0" 56 t1 lb] c(5) k lt1 l8 by simp
    have p4: "put ?b 0 (replicate 64 0) = Some (replicate 64 0)" using len by (simp add: put_def del: append_assoc)
    have "md_chain compress h0 (md_pad ?big m) = compress (md_chain compress h0 m) ?b"
      unfolding pad if_not_P [OF False] using len by (rule chain_one) (simp add: r_def)
    moreover have "HASH_FINAL alg c = (let c' = c\<lparr>md_h := compress (md_chain compress h0 m) ?b, md_num := 0,
        md_data := replicate 64 0\<rparr> in Some (HASH_MAKE_STRING alg c', c'))"
      using False k p1 p2 p3 p4 block_one [OF hl len]
      unfolding HASH_FINAL_def Let_def cblock c(1,3) lw by (simp del: append_assoc)
    ultimately show ?thesis by simp
  qed
qed


theorem digest_pieces:
  assumes "md_h c0 = h0" "length h0 = words" "md_Nl c0 = 0" "md_Nh c0 = 0" "length (md_data c0) = 64" "md_num c0 = 0"
    and "\<forall>p \<in> set ps. length p < 2 ^ 64"
  shows "\<exists>c c'. updates alg ps c0 = Some c \<and> HASH_FINAL alg c = Some (HASH_MAKE_STRING alg c', c') \<and>
    md_h c' = md_chain compress h0 (md_pad (DATA_ORDER_IS_BIG_ENDIAN alg) (concat ps)) \<and> md_len c' = md_len c0"
proof -
  have "holds compress h0 [] c0" using assms by (simp add: holds_def chained_def counted_def rest_short)
  from updates_holds [OF this assms(2,7)] obtain c where "updates alg ps c0 = Some c" "holds compress h0 (concat ps) c" "md_len c = md_len c0"
    by auto
  then show ?thesis using final_holds [OF _ assms(2)] by (auto simp: Let_def)
qed

end

section \<open>Loading words\<close>

definition block_words :: "bool \<Rightarrow> u8 list \<Rightarrow> u32 list" where
  "block_words big b = map (\<lambda>q. word_of_nat (be_nat (if big then q else rev q))) (blocks 4 b)"

lemma c2l_word: "HOST_c2l big (c0 # c1 # c2 # c3 # r) = Some (word_of_nat (be_nat (if big then [c0, c1, c2, c3] else rev [c0, c1, c2, c3])), r)"
proof -
  have w: "push_bit 24 (ucast a) OR push_bit 16 (ucast b) OR push_bit 8 (ucast c) OR ucast d = (word_of_nat (be_nat [a, b, c, d]) :: u32)" for a b c d :: u8
  proof -
    have n: "be_nat [a, b, c, d] = ((unat a * 2 ^ 8 + unat b) * 2 ^ 8 + unat c) * 2 ^ 8 + unat d" by (simp add: be_nat_def)
    have u: "unat (ucast x :: u32) = unat x" for x :: u8 by (simp add: unsigned_ucast_eq take_bit_nat_eq_self)
    have l: "unat x \<le> 255" for x :: u8
    proof -
      have "unat x < 256" by (rule order_less_le_trans [OF unsigned_less]) simp
      then show ?thesis by linarith
    qed
    have 1: "unat (push_bit 8 (ucast c) OR ucast d :: u32) = unat c * 2 ^ 8 + unat d"
      by (subst unat_push_bit_or) (insert l [of c] l [of d], simp_all add: u)
    have 2: "unat (push_bit 16 (ucast b) OR (push_bit 8 (ucast c) OR ucast d) :: u32) = unat b * 2 ^ 16 + (unat c * 2 ^ 8 + unat d)"
      by (subst unat_push_bit_or) (insert l [of b] l [of c] l [of d], simp_all add: u 1)
    have 3: "unat (push_bit 24 (ucast a) OR (push_bit 16 (ucast b) OR (push_bit 8 (ucast c) OR ucast d)) :: u32) =
        unat a * 2 ^ 24 + (unat b * 2 ^ 16 + (unat c * 2 ^ 8 + unat d))"
      by (subst unat_push_bit_or) (insert l [of a] l [of b] l [of c] l [of d], simp_all add: u 2)
    let ?W = "push_bit 24 (ucast a) OR (push_bit 16 (ucast b) OR (push_bit 8 (ucast c) OR ucast d)) :: u32"
    have n': "be_nat [a, b, c, d] = unat a * 2 ^ 24 + (unat b * 2 ^ 16 + (unat c * 2 ^ 8 + unat d))" unfolding n by simp
    have "word_of_nat (unat ?W) = ?W" by simp
    then have "?W = word_of_nat (be_nat [a, b, c, d])" unfolding 3 n' by (rule sym)
    then show ?thesis by (simp only: or.assoc)
  qed
  have "ucast c0 OR push_bit 8 (ucast c1) OR push_bit 16 (ucast c2) OR push_bit 24 (ucast c3) = (word_of_nat (be_nat [c3, c2, c1, c0]) :: u32)"
    unfolding w [symmetric] by (simp only: or.commute or.left_commute or.assoc)
  then show ?thesis unfolding HOST_c2l_def list.case w [of c0 c1 c2 c3] by (cases big) (simp_all only: if_True if_False rev.simps append.simps)
qed


lemma load_block:
  "length b = 4 * n \<Longrightarrow> load_words big n (b @ r) = Some (block_words big b, r)"
proof (induction n arbitrary: b)
  case (Suc n)
  obtain q b' where b: "b = q @ b'" "length q = 4" "length b' = 4 * n"
    using Suc.prems by (intro that [of "take 4 b" "drop 4 b"]) simp_all
  then obtain c0 c1 c2 c3 where q: "q = [c0, c1, c2, c3]" by (auto simp: numeral_eq_Suc length_Suc_conv)
  have h: "HOST_c2l big (b @ r) = Some (word_of_nat (be_nat (if big then q else rev q)), b' @ r)" unfolding b(1) q using c2l_word by simp
  have "block_words big b = word_of_nat (be_nat (if big then q else rev q)) # block_words big b'"
    unfolding block_words_def b(1) blocks_append_block [OF _ b(2)] by (simp add: b(2) blocks_append_block)
  then show ?case using Suc.IH [OF b(3)] h by simp
qed (simp add: block_words_def blocks_short)

lemma length_block_words [simp]: "length (block_words big b) = length b div 4"
  by (simp add: block_words_def length_blocks)

text \<open>A block function that is a loop over the blocks meets the contract.\<close>

lemma md32_loop:
  assumes "HASH_CBLOCK alg = 64"
    and "\<And>s dat n. n > 0 \<Longrightarrow> HASH_BLOCK_DATA_ORDER alg s dat n = each_block big block s dat n"
    and len: "\<And>s X. length s = words \<Longrightarrow> length X = 16 \<Longrightarrow> length (block s X) = words"
    and cp: "\<And>s b. length s = words \<Longrightarrow> length b = 64 \<Longrightarrow> block s (block_words big b) = compress s b"
  shows "md32 alg compress words"
proof
  show "HASH_CBLOCK alg = 64" by fact
  show "length (compress s b) = words" if "length s = words" "length b = 64" for s b
    unfolding cp [OF that, symmetric] using that by (intro len) simp_all
  fix s :: "u32 list" and n :: nat and dat :: "u8 list"
  assume a: "length s = words" "0 < n" "64 * n \<le> length dat"
  have load: "load_words big 16 (b @ r) = Some (block_words big b, r)" if "length b = 64" for b r
    using load_block [of b 16] that by simp
  have "each_block big block s dat n = Some (md_chain compress s (take (64 * n) dat))"
    by (rule each_block_chain [where wordsof = "block_words big" and words = words]) (simp_all add: len load cp a)
  then show "HASH_BLOCK_DATA_ORDER alg s dat n = Some (md_chain compress s (take (64 * n) dat))"
    using assms(2) [OF a(2)] by simp
qed

section \<open>Rotations\<close>

lemma ROTATE_rotl:
  assumes "0 < n" "n < 32"
  shows "ROTATE a n = word_rotl n a"
proof (rule bit_word_eqI)
  fix k :: nat assume k: "k < LENGTH(32)"
  have o: "\<not> bit a (32 + k - n)" if "n \<le> k"
    using that bit_imp_le_length [of a "32 + k - n"] by auto
  have m: "(k + 32 - n) mod 32 = (if n \<le> k then k - n else 32 + k - n)"
    using k assms by (auto simp: mod_if)
  have "bit (ROTATE a n) k \<longleftrightarrow> (n \<le> k \<and> bit a (k - n)) \<or> bit a (32 + k - n)"
    using k assms by (auto simp: ROTATE_def bit_or_iff bit_push_bit_iff bit_drop_bit_eq)
  also have "\<dots> \<longleftrightarrow> bit a ((k + 32 - n) mod 32)" using o unfolding m by auto
  also have "\<dots> \<longleftrightarrow> bit (word_rotl n a) k" using k assms by (simp add: bit_word_rotl_iff)
  finally show "bit (ROTATE a n) k = bit (word_rotl n a) k" .
qed

lemma ROTATE_rotr: "0 < n \<Longrightarrow> n < 32 \<Longrightarrow> ROTATE a n = word_rotr (32 - n) a"
  by (simp add: ROTATE_rotl word_rotl_eq_word_rotr)

text \<open>The variables in the order of the arguments of round \<open>i\<close>.\<close>

definition rotated :: "nat list \<Rightarrow> 'a list \<Rightarrow> 'a list" where
  "rotated args v = map (\<lambda>j. v ! j) args"

section \<open>Digests\<close>

definition digest_bytes :: "bool \<Rightarrow> u32 list \<Rightarrow> u8 list" where
  "digest_bytes big h = concat (map (\<lambda>w. if big then be_bytes 4 (unat w) else rev (be_bytes 4 (unat w))) h)"

lemma l2c_digest: "concat (map (HOST_l2c big) h) = digest_bytes big h"
proof -
  have "HOST_l2c big = (\<lambda>w. if big then be_bytes 4 (unat w) else rev (be_bytes 4 (unat w)))"
    by (cases big) (simp_all add: fun_eq_iff l2c_bytes)
  then show ?thesis by (simp only: digest_bytes_def)
qed

lemma one_shot_updates: "one_shot alg c0 m = map_option fst (Option.bind (updates alg [m] c0) (HASH_FINAL alg))"
  by (cases "HASH_UPDATE alg m c0") (auto simp: one_shot_def updates_def map_option_bind split: Option.bind_split prod.split)

end
