(* ===== verification/Sha_Spec.thy ===== *)
theory Sha_Spec
  imports Sha Md32_Spec
begin

text \<open>
  SHA-1, SHA-224 and SHA-256 against FIPS 180-4. The standard is given in its own terms: right rotations, a
  message schedule that is a recursive function, working variables that are shifted in every step. The
  block functions of the code, which rotate the names of the variables instead and keep the
  last 16 words of the schedule in a circular buffer (\<open>window\<close>), compute the same.
\<close>

section \<open>SHA-256 as FIPS 180-4 describes it\<close>

definition fips_Sigma0 :: "u32 \<Rightarrow> u32" where "fips_Sigma0 x = word_rotr 2 x XOR word_rotr 13 x XOR word_rotr 22 x"
definition fips_Sigma1 :: "u32 \<Rightarrow> u32" where "fips_Sigma1 x = word_rotr 6 x XOR word_rotr 11 x XOR word_rotr 25 x"
definition fips_sigma0 :: "u32 \<Rightarrow> u32" where "fips_sigma0 x = word_rotr 7 x XOR word_rotr 18 x XOR drop_bit 3 x"
definition fips_sigma1 :: "u32 \<Rightarrow> u32" where "fips_sigma1 x = word_rotr 17 x XOR word_rotr 19 x XOR drop_bit 10 x"

text \<open>The message schedule and the step on the working variables.\<close>

fun sha256_W :: "u32 list \<Rightarrow> nat \<Rightarrow> u32" where
  "sha256_W M t = (if t < 16 then M ! t
     else fips_sigma1 (sha256_W M (t - 2)) + sha256_W M (t - 7) + fips_sigma0 (sha256_W M (t - 15)) + sha256_W M (t - 16))"

declare sha256_W.simps [simp del]

definition sha256_step :: "u32 \<Rightarrow> u32 \<Rightarrow> u32 list \<Rightarrow> u32 list" where
  "sha256_step k w s = (case s of [a, b, c, d, e, f, g, h] \<Rightarrow>
     let T1 = h + fips_Sigma1 e + Ch e f g + k + w; T2 = fips_Sigma0 a + Maj a b c in
     [T1 + T2, a, b, c, d + T1, e, f, g])"

definition sha256_compress :: "u32 list \<Rightarrow> u8 list \<Rightarrow> u32 list" where
  "sha256_compress H b = (let M = block_words True b in
     map2 (+) H (fold (\<lambda>t. sha256_step (K256 ! t) (sha256_W M t)) [0..<64] H))"

lemma sigmas: "Sigma0 x = fips_Sigma0 x" "Sigma1 x = fips_Sigma1 x" "sigma0 x = fips_sigma0 x" "sigma1 x = fips_sigma1 x"
  by (simp_all add: Sigma0_def Sigma1_def sigma0_def sigma1_def fips_Sigma0_def fips_Sigma1_def fips_sigma0_def fips_sigma1_def ROTATE_rotr)

section \<open>The unrolled rounds\<close>

lemma less_8_cases: "(r :: nat) < 8 \<Longrightarrow> r = 0 \<or> r = 1 \<or> r = 2 \<or> r = 3 \<or> r = 4 \<or> r = 5 \<or> r = 6 \<or> r = 7"
  by linarith

lemma sha256_args_mod: "i mod 8 = r \<Longrightarrow> sha256_args i = sha256_args r"
  by (auto simp: sha256_args_def)

lemma sha256_args_values:
  "sha256_args 0 = [0, 1, 2, 3, 4, 5, 6, 7]" "sha256_args 1 = [7, 0, 1, 2, 3, 4, 5, 6]" "sha256_args 2 = [6, 7, 0, 1, 2, 3, 4, 5]"
  "sha256_args 3 = [5, 6, 7, 0, 1, 2, 3, 4]" "sha256_args 4 = [4, 5, 6, 7, 0, 1, 2, 3]" "sha256_args 5 = [3, 4, 5, 6, 7, 0, 1, 2]"
  "sha256_args 6 = [2, 3, 4, 5, 6, 7, 0, 1]" "sha256_args 7 = [1, 2, 3, 4, 5, 6, 7, 0]" "sha256_args 8 = [0, 1, 2, 3, 4, 5, 6, 7]"
  "sha256_args (Suc (Suc 0)) = [6, 7, 0, 1, 2, 3, 4, 5]"
  by (simp_all add: sha256_args_def upt_rec)

lemma length_8: "length v = 8 \<Longrightarrow> \<exists>a b c d e f g h. v = [a, b, c, d, e, f, g, h]"
  by (auto simp: numeral_eq_Suc length_Suc_conv)

lemma sha256_round:
  assumes "length v = 8"
  shows "rotated (sha256_args (Suc i)) (ROUND_00_15 i (sha256_args i) w v) = sha256_step (K256 ! i) w (rotated (sha256_args i) v)"
    and "length (ROUND_00_15 i (sha256_args i) w v) = 8"
proof -
  obtain a b c d e f g h where v: "v = [a, b, c, d, e, f, g, h]" using length_8 [OF assms] by blast
  define r where "r = i mod 8"
  have r: "sha256_args i = sha256_args r" "sha256_args (Suc i) = sha256_args (Suc r)"
    by (simp_all add: sha256_args_def r_def mod_Suc_eq)
  have "r < 8" by (simp add: r_def)
  then have "rotated (sha256_args (Suc r)) (ROUND_00_15 i (sha256_args r) w v) = sha256_step (K256 ! i) w (rotated (sha256_args r) v) \<and>
      length (ROUND_00_15 i (sha256_args r) w v) = 8"
    by (elim less_8_cases [elim_format] disjE)
      (simp_all add: v sha256_args_values [simplified] rotated_def ROUND_00_15_def sha256_step_def Let_def sigmas ac_simps)
  then show "rotated (sha256_args (Suc i)) (ROUND_00_15 i (sha256_args i) w v) = sha256_step (K256 ! i) w (rotated (sha256_args i) v)"
    and "length (ROUND_00_15 i (sha256_args i) w v) = 8" unfolding r by simp_all
qed


text \<open>A circular buffer of 16 words that holds the last words of the schedule \<open>W\<close>.\<close>

definition window :: "(nat \<Rightarrow> u32) \<Rightarrow> nat \<Rightarrow> u32 list \<Rightarrow> bool" where
  "window W n X \<longleftrightarrow> length X = 16 \<and> (\<forall>s. s < n \<and> n \<le> s + 16 \<longrightarrow> X ! (s mod 16) = W s)"

lemma window_nth: "window W n X \<Longrightarrow> s < n \<Longrightarrow> n \<le> s + 16 \<Longrightarrow> j mod 16 = s mod 16 \<Longrightarrow> X ! (j mod 16) = W s"
  by (simp add: window_def)

lemma window_step: "window W n X \<Longrightarrow> window W (Suc n) (X[n mod 16 := W n])"
proof -
  assume w: "window W n X"
  have "s mod 16 \<noteq> n mod 16" if "s < n" "Suc n \<le> s + 16" for s
  proof
    assume "s mod 16 = n mod 16"
    then have "16 dvd n - s" using that(1) by (metis less_imp_le mod_eq_dvd_iff_nat)
    moreover have "0 < n - s" "n - s < 16" using that by auto
    ultimately show False by (auto dest: dvd_imp_le)
  qed
  then have ne: "n mod 16 \<noteq> s mod 16" if "s < n" "Suc n \<le> s + 16" for s using that by metis
  have "X[n mod 16 := W n] ! (s mod 16) = W s" if "s < Suc n" "Suc n \<le> s + 16" for s
  proof (cases "s = n")
    case False
    then show ?thesis using w ne [of s] that by (simp add: window_def)
  qed (use w in \<open>simp add: window_def\<close>)
  then show ?thesis using w by (simp add: window_def)
qed

lemma mod_16_shift: "k \<le> i \<Longrightarrow> j + k = 16 \<Longrightarrow> (i + j) mod 16 = (i - k) mod (16 :: nat)"
proof -
  assume a: "k \<le> i" "j + k = 16"
  then have "i + j = i - k + 16" by simp
  then show ?thesis by simp
qed

lemma fold_upt_Suc: "a \<le> n \<Longrightarrow> fold f [a..<Suc n] s = f n (fold f [a..<n] s)"
  by simp

lemma sha256_rounds_16:
  assumes "length v = 8" "length X = 16"
  shows "n \<le> 16 \<Longrightarrow> (let v' = fold (\<lambda>i v. ROUND_00_15 i (sha256_args i) (X ! i) v) [0..<n] v in
    length v' = 8 \<and> rotated (sha256_args n) v' = fold (\<lambda>t. sha256_step (K256 ! t) (sha256_W X t)) [0..<n] v)"
proof (induction n)
  case 0
  then show ?case using length_8 [OF assms(1)] by (auto simp: rotated_def sha256_args_values)
next
  case (Suc n)
  then have "sha256_W X n = X ! n" by (simp add: sha256_W.simps)
  then show ?case using Suc sha256_round by (simp add: Let_def)
qed

lemma window_first: "length X = 16 \<Longrightarrow> window (sha256_W X) 16 X"
  by (simp add: window_def sha256_W.simps)

lemma sha256_rounds_64:
  assumes v: "length v16 = 8" "rotated (sha256_args 16) v16 = fold (\<lambda>t. sha256_step (K256 ! t) (sha256_W M t)) [0..<16] s" and M: "length M = 16"
  shows "case fold (\<lambda>i. ROUND_16_63 i (sha256_args i)) [16..<16 + m] (M, v16) of (X, v) \<Rightarrow>
    window (sha256_W M) (16 + m) X \<and> length v = 8 \<and>
    rotated (sha256_args (16 + m)) v = fold (\<lambda>t. sha256_step (K256 ! t) (sha256_W M t)) [0..<16 + m] s"
proof (induction m)
  case 0
  then show ?case using v window_first [OF M] by simp
next
  case (Suc m)
  let ?i = "16 + m"
  obtain X v where e: "fold (\<lambda>i. ROUND_16_63 i (sha256_args i)) [16..<?i] (M, v16) = (X, v)" by force
  have w: "window (sha256_W M) ?i X" "length v = 8"
    "rotated (sha256_args ?i) v = fold (\<lambda>t. sha256_step (K256 ! t) (sha256_W M t)) [0..<?i] s" using Suc.IH by (simp_all add: e)
  have "X ! ((?i + 1) mod 16) = sha256_W M (?i - 15)" "X ! ((?i + 14) mod 16) = sha256_W M (?i - 2)"
    "X ! ((?i + 9) mod 16) = sha256_W M (?i - 7)" "X ! (?i mod 16) = sha256_W M (?i - 16)"
    using window_nth [OF w(1) _ _ mod_16_shift [of 15 ?i 1]] window_nth [OF w(1) _ _ mod_16_shift [of 2 ?i 14]]
      window_nth [OF w(1) _ _ mod_16_shift [of 7 ?i 9]] window_nth [OF w(1), of "?i - 16" ?i] by simp_all
  then have "X ! (?i mod 16) + (sigma0 (X ! ((?i + 1) mod 16)) + sigma1 (X ! ((?i + 14) mod 16)) + X ! ((?i + 9) mod 16)) = sha256_W M ?i"
    by (simp only: sha256_W.simps [of M ?i] sigmas) (simp add: ac_simps)
  then have "ROUND_16_63 ?i (sha256_args ?i) (X, v) = (X[?i mod 16 := sha256_W M ?i], ROUND_00_15 ?i (sha256_args ?i) (sha256_W M ?i) v)"
    by (simp only: ROUND_16_63_def Let_def prod.case)
  then have "fold (\<lambda>i. ROUND_16_63 i (sha256_args i)) [16..<16 + Suc m] (M, v16) =
      (X[?i mod 16 := sha256_W M ?i], ROUND_00_15 ?i (sha256_args ?i) (sha256_W M ?i) v)"
    using fold_upt_Suc [of 16 ?i "\<lambda>i. ROUND_16_63 i (sha256_args i)" "(M, v16)"] e by simp
  then show ?case
    using window_step [OF w(1)] sha256_round [OF w(2), of ?i] w(3) fold_upt_Suc [of 0 ?i "\<lambda>t. sha256_step (K256 ! t) (sha256_W M t)" s]
    by simp
qed

lemma sha256_block_fips:
  assumes "length s = 8" "length X = 16"
  shows "sha256_block s X = map2 (+) s (fold (\<lambda>t. sha256_step (K256 ! t) (sha256_W X t)) [0..<64] s)" and "length (sha256_block s X) = 8"
proof -
  define v16 where "v16 = fold (\<lambda>i v. ROUND_00_15 i (sha256_args i) (X ! i) v) [0..<16] s"
  have v16: "length v16 = 8" "rotated (sha256_args 16) v16 = fold (\<lambda>t. sha256_step (K256 ! t) (sha256_W X t)) [0..<16] s"
    using sha256_rounds_16 [OF assms, of 16] unfolding Let_def v16_def by simp_all
  obtain X' v where e: "fold (\<lambda>i. ROUND_16_63 i (sha256_args i)) [16..<64] (X, v16) = (X', v)" by force
  have q: "16 + 48 = (64 :: nat)" by simp
  have v: "length v = 8" "rotated (sha256_args 64) v = fold (\<lambda>t. sha256_step (K256 ! t) (sha256_W X t)) [0..<64] s"
    using sha256_rounds_64 [OF v16 assms(2), of 48, unfolded q e prod.case] by blast+
  have "rotated (sha256_args 64) v = v"
    using length_8 [OF v(1)] sha256_args_mod [of 64 0] by (auto simp: rotated_def sha256_args_values)
  then have r: "sha256_block s X = map2 (+) s v" unfolding sha256_block_def v16_def [symmetric] Let_def e by simp
  then show "sha256_block s X = map2 (+) s (fold (\<lambda>t. sha256_step (K256 ! t) (sha256_W X t)) [0..<64] s)"
    using v(2) \<open>rotated (sha256_args 64) v = v\<close> by simp
  show "length (sha256_block s X) = 8" using r v(1) assms(1) by simp
qed

lemma sha256_compress_block: "length s = 8 \<Longrightarrow> length b = 64 \<Longrightarrow> sha256_block s (block_words True b) = sha256_compress s b"
  by (simp add: sha256_block_fips sha256_compress_def)

interpretation sha256: md32 sha256_alg sha256_compress 8
  by (rule md32_loop [where block = sha256_block and big = True])
    (simp_all add: sha256_alg_def sha256_block_data_order_def sha256_block_fips(2) sha256_compress_block)


section \<open>The constants\<close>

text \<open>The first 32 bits of the fractional part of the \<open>k\<close>-th root of \<open>p\<close>.\<close>

definition root_bits :: "nat \<Rightarrow> int \<Rightarrow> u32 \<Rightarrow> bool" where
  "root_bits k p w \<longleftrightarrow> (\<exists>i \<in> set [1, 2, 3, 4, 5, 6, 7]. let r = i * 4294967296 + uint w in
     r ^ k \<le> p * 4294967296 ^ k \<and> p * 4294967296 ^ k < (r + 1) ^ k)"

definition first_primes :: "int list" where
  "first_primes = [2, 3, 5, 7, 11, 13, 17, 19, 23, 29, 31, 37, 41, 43, 47, 53, 59, 61, 67, 71, 73, 79, 83, 89, 97, 101, 103, 107, 109,
     113, 127, 131, 137, 139, 149, 151, 157, 163, 167, 173, 179, 181, 191, 193, 197, 199, 211, 223, 227, 229, 233, 239, 241, 251,
     257, 263, 269, 271, 277, 281, 283, 293, 307, 311]"

lemma K256_roots: "list_all2 (root_bits 3) first_primes K256"
  by code_simp

lemma IV256_roots: "list_all2 (root_bits 2) (take 8 first_primes) (md_h SHA256_Init)"
  by code_simp

text \<open>For SHA-224 the second 32 bits, of the square roots of the next eight primes; given are the bits in front of them.\<close>

lemma IV224_roots: "list_all2 (\<lambda>p (i, w). let r = i * 4294967296 + uint w in r ^ 2 \<le> p * 4294967296 ^ 4 \<and> p * 4294967296 ^ 4 < (r + 1) ^ 2)
  (take 8 (drop 8 first_primes)) (zip [20597939549, 23129106730, 23913365850, 26125266136, 27501209191, 28163984007, 29444812301, 31267833885] (md_h SHA224_Init))"
  by code_simp

section \<open>SHA-1 as FIPS 180-4 describes it\<close>

definition sha1_f :: "nat \<Rightarrow> u32 \<Rightarrow> u32 \<Rightarrow> u32 \<Rightarrow> u32" where
  "sha1_f t x y z = (if t < 20 then Ch x y z else if t < 40 then x XOR y XOR z else if t < 60 then Maj x y z else x XOR y XOR z)"

definition sha1_K :: "nat \<Rightarrow> u32" where
  "sha1_K t = (if t < 20 then 0x5a827999 else if t < 40 then 0x6ed9eba1 else if t < 60 then 0x8f1bbcdc else 0xca62c1d6)"

fun sha1_W :: "u32 list \<Rightarrow> nat \<Rightarrow> u32" where
  "sha1_W M t = (if t < 16 then M ! t
     else word_rotl 1 (sha1_W M (t - 3) XOR sha1_W M (t - 8) XOR sha1_W M (t - 14) XOR sha1_W M (t - 16)))"

declare sha1_W.simps [simp del]

definition sha1_step :: "nat \<Rightarrow> u32 \<Rightarrow> u32 list \<Rightarrow> u32 list" where
  "sha1_step t w s = (case s of [a, b, c, d, e] \<Rightarrow>
     [word_rotl 5 a + sha1_f t b c d + e + sha1_K t + w, a, word_rotl 30 b, c, d])"

definition sha1_compress :: "u32 list \<Rightarrow> u8 list \<Rightarrow> u32 list" where
  "sha1_compress H b = (let M = block_words True b in map2 (+) H (fold (\<lambda>t. sha1_step t (sha1_W M t)) [0..<80] H))"

lemma F_ch: "F_00_19 b c d = Ch b c d"
  unfolding F_00_19_def Ch_def by (rule bit_word_eqI) (auto simp: bit_simps)

lemma F_maj: "F_40_59 b c d = Maj b c d"
  unfolding F_40_59_def Maj_def by (rule bit_word_eqI) (auto simp: bit_simps)

text \<open>The function and the constant of a round in the code.\<close>

definition sha1_F :: "nat \<Rightarrow> u32 \<Rightarrow> u32 \<Rightarrow> u32 \<Rightarrow> u32" where
  "sha1_F t = (if t < 20 then F_00_19 else if t < 40 then F_20_39 else if t < 60 then F_40_59 else F_60_79)"

lemma sha1_F: "sha1_F t = sha1_f t"
  by (auto simp: fun_eq_iff sha1_F_def sha1_f_def F_ch F_maj F_20_39_def F_60_79_def)

lemma sha1_args_values:
  "sha1_args 0 = [0, 1, 2, 3, 4, 5]" "sha1_args 1 = [5, 0, 1, 2, 3, 4]" "sha1_args 2 = [4, 5, 0, 1, 2, 3]"
  "sha1_args 3 = [3, 4, 5, 0, 1, 2]" "sha1_args 4 = [2, 3, 4, 5, 0, 1]" "sha1_args 5 = [1, 2, 3, 4, 5, 0]"
  "sha1_args 6 = [0, 1, 2, 3, 4, 5]" "sha1_args (Suc (Suc 0)) = [4, 5, 0, 1, 2, 3]"
  by (simp_all add: sha1_args_def upt_rec)

lemma less_6_cases: "(r :: nat) < 6 \<Longrightarrow> r = 0 \<or> r = 1 \<or> r = 2 \<or> r = 3 \<or> r = 4 \<or> r = 5"
  by linarith

lemma length_6: "length v = 6 \<Longrightarrow> \<exists>a b c d e f. v = [a, b, c, d, e, f]"
  by (auto simp: numeral_eq_Suc length_Suc_conv)

text \<open>The working variables: the first five of the six in the order of the arguments.\<close>

abbreviation sha1_vars :: "nat \<Rightarrow> u32 list \<Rightarrow> u32 list" where
  "sha1_vars i v \<equiv> butlast (rotated (sha1_args i) v)"

lemma sha1_round:
  assumes "length v = 6"
  shows "sha1_vars (Suc i) (BODY (sha1_args i) w (sha1_K i) (sha1_F i) v) = sha1_step i w (sha1_vars i v)"
    and "length (BODY (sha1_args i) w (sha1_K i) (sha1_F i) v) = 6"
proof -
  obtain a b c d e f where v: "v = [a, b, c, d, e, f]" using length_6 [OF assms] by blast
  define r where "r = i mod 6"
  have r: "sha1_args i = sha1_args r" "sha1_args (Suc i) = sha1_args (Suc r)"
    by (simp_all add: sha1_args_def r_def mod_Suc_eq)
  have "r < 6" by (simp add: r_def)
  then have "sha1_vars (Suc r) (BODY (sha1_args r) w (sha1_K i) (sha1_F i) v) = sha1_step i w (sha1_vars r v) \<and>
      length (BODY (sha1_args r) w (sha1_K i) (sha1_F i) v) = 6"
    by (elim less_6_cases [elim_format] disjE)
      (simp_all add: v sha1_args_values [simplified] rotated_def BODY_def sha1_step_def Let_def sha1_F ROTATE_rotl ac_simps)
  then show "sha1_vars (Suc i) (BODY (sha1_args i) w (sha1_K i) (sha1_F i) v) = sha1_step i w (sha1_vars i v)"
    and "length (BODY (sha1_args i) w (sha1_K i) (sha1_F i) v) = 6" unfolding r by simp_all
qed

definition sha1_round_at :: "nat \<Rightarrow> u32 list \<times> u32 list \<Rightarrow> u32 list \<times> u32 list" where
  "sha1_round_at i = (if i < 16 then BODY_00_15 i else BODY_16_79 (sha1_K i) (sha1_F i) i)"

lemma upt_split: "a \<le> b \<Longrightarrow> b \<le> c \<Longrightarrow> fold f [a..<c] s = fold f [b..<c] (fold f [a..<b] s)"
  using upt_add_eq_append [of a b "c - b"] by simp

lemma sha1_block_rounds:
  "sha1_block s X = (case fold sha1_round_at [0..<80] (X, s @ [0]) of (X, v) \<Rightarrow> map2 (+) s [v ! 4, v ! 5, v ! 0, v ! 1, v ! 2])"
proof -
  have r: "fold f [a..<b] x = fold sha1_round_at [a..<b] x" if "\<And>i. a \<le> i \<Longrightarrow> i < b \<Longrightarrow> f i = sha1_round_at i" for f a b x
    using that by (intro fold_cong) simp_all
  have e: "fold BODY_00_15 [0..<16] x = fold sha1_round_at [0..<16] x"
    "fold (BODY_16_79 K_00_19 F_00_19) [16..<20] x = fold sha1_round_at [16..<20] x"
    "fold (BODY_16_79 K_20_39 F_20_39) [20..<40] x = fold sha1_round_at [20..<40] x"
    "fold (BODY_16_79 K_40_59 F_40_59) [40..<60] x = fold sha1_round_at [40..<60] x"
    "fold (BODY_16_79 K_60_79 F_60_79) [60..<80] x = fold sha1_round_at [60..<80] x" for x
    by (rule r; simp add: sha1_round_at_def sha1_K_def sha1_F_def K_00_19_def K_20_39_def K_40_59_def K_60_79_def)+
  have "fold sha1_round_at [0..<80] x = fold sha1_round_at [60..<80] (fold sha1_round_at [40..<60] (fold sha1_round_at [20..<40]
      (fold sha1_round_at [16..<20] (fold sha1_round_at [0..<16] x))))" for x
    using upt_split [of 0 16 80 sha1_round_at x] upt_split [of 16 20 80 sha1_round_at] upt_split [of 20 40 80 sha1_round_at]
      upt_split [of 40 60 80 sha1_round_at] by (simp del: upt_rec_numeral fold_Cons_rev)
  then show ?thesis unfolding sha1_block_def Let_def e by simp
qed

lemma sha1_rounds:
  assumes s: "length s = 5" and M: "length M = 16"
  shows "case fold sha1_round_at [0..<n] (M, s @ [x]) of (X, v) \<Rightarrow>
    length X = 16 \<and> (n \<le> 16 \<longrightarrow> X = M) \<and> (16 \<le> n \<longrightarrow> window (sha1_W M) n X) \<and> length v = 6 \<and>
    sha1_vars n v = fold (\<lambda>t. sha1_step t (sha1_W M t)) [0..<n] s"
proof (induction n)
  case 0
  obtain a b c d e where "s = [a, b, c, d, e]" using s by (auto simp: numeral_eq_Suc length_Suc_conv)
  then show ?case using M by (simp add: rotated_def sha1_args_values)
next
  case (Suc n)
  obtain X v where e: "fold sha1_round_at [0..<n] (M, s @ [x]) = (X, v)" by force
  have h: "length X = 16" "n \<le> 16 \<longrightarrow> X = M" "16 \<le> n \<longrightarrow> window (sha1_W M) n X" "length v = 6"
    "sha1_vars n v = fold (\<lambda>t. sha1_step t (sha1_W M t)) [0..<n] s" using Suc.IH by (simp_all add: e)
  let ?v = "BODY (sha1_args n) (sha1_W M n) (sha1_K n) (sha1_F n) v"
  have f: "sha1_round_at n (X, v) = (if n < 16 then X else X[n mod 16 := sha1_W M n], ?v)"
  proof (cases "n < 16")
    case True
    then show ?thesis using h(2) by (simp add: sha1_round_at_def BODY_00_15_def sha1_W.simps [of M n] sha1_K_def sha1_F_def K_00_19_def)
  next
    case False
    then have w: "window (sha1_W M) n X" "16 \<le> n" using h(3) by simp_all
    have "X ! (n mod 16) = sha1_W M (n - 16)" "X ! ((n + 2) mod 16) = sha1_W M (n - 14)"
      "X ! ((n + 8) mod 16) = sha1_W M (n - 8)" "X ! ((n + 13) mod 16) = sha1_W M (n - 3)"
      using window_nth [OF w(1), of "n - 16" n] window_nth [OF w(1) _ _ mod_16_shift [of 14 n 2]] window_nth [OF w(1) _ _ mod_16_shift [of 8 n 8]]
        window_nth [OF w(1) _ _ mod_16_shift [of 3 n 13]] w(2) by (simp_all add: le_mod_geq)
    then have "Xupdate n X = sha1_W M n" using False by (simp add: Xupdate_def sha1_W.simps [of M n] ROTATE_rotl ac_simps)
    then show ?thesis using False by (simp add: sha1_round_at_def BODY_16_79_def Let_def)
  qed
  have "window (sha1_W M) (Suc n) X" if "n < 16" "15 \<le> n" using that h(2) M by (simp add: window_def sha1_W.simps)
  then show ?case
    using h f e sha1_round [OF h(4), of n] window_step [of "sha1_W M" n X] by (auto simp: not_less less_Suc_eq_le)
qed

lemma sha1_block_fips:
  assumes "length s = 5" "length X = 16"
  shows "sha1_block s X = map2 (+) s (fold (\<lambda>t. sha1_step t (sha1_W X t)) [0..<80] s)" and "length (sha1_block s X) = 5"
proof -
  obtain X' v where e: "fold sha1_round_at [0..<80] (X, s @ [0]) = (X', v)" by force
  have v: "length v = 6" "sha1_vars 80 v = fold (\<lambda>t. sha1_step t (sha1_W X t)) [0..<80] s"
    using sha1_rounds [OF assms, of 80 0, unfolded e prod.case] by blast+
  have "sha1_args 80 = sha1_args 2" by (simp add: sha1_args_def)
  then have "sha1_vars 80 v = [v ! 4, v ! 5, v ! 0, v ! 1, v ! 2]" by (simp add: rotated_def sha1_args_values)
  then show r: "sha1_block s X = map2 (+) s (fold (\<lambda>t. sha1_step t (sha1_W X t)) [0..<80] s)"
    unfolding sha1_block_rounds e prod.case using v(2) by simp
  show "length (sha1_block s X) = 5" unfolding sha1_block_rounds e using assms(1) by simp
qed

lemma sha1_compress_block: "length s = 5 \<Longrightarrow> length b = 64 \<Longrightarrow> sha1_block s (block_words True b) = sha1_compress s b"
  by (simp add: sha1_block_fips(1) sha1_compress_def)

interpretation sha1: md32 sha1_alg sha1_compress 5
  by (rule md32_loop [where block = sha1_block and big = True])
    (simp_all add: sha1_alg_def sha1_block_data_order_def sha1_block_fips(2) sha1_compress_block)


section \<open>Digests\<close>

definition sha1_digest :: "u8 list \<Rightarrow> u8 list" where
  "sha1_digest m = digest_bytes True (md_chain sha1_compress [0x67452301, 0xefcdab89, 0x98badcfe, 0x10325476, 0xc3d2e1f0] (md_pad True m))"

definition sha224_digest :: "u8 list \<Rightarrow> u8 list" where
  "sha224_digest m = digest_bytes True (take 7 (md_chain sha256_compress (md_h SHA224_Init) (md_pad True m)))"

definition sha256_digest :: "u8 list \<Rightarrow> u8 list" where
  "sha256_digest m = digest_bytes True (md_chain sha256_compress (md_h SHA256_Init) (md_pad True m))"

lemma sha1_pieces:
  "\<forall>p \<in> set ps. length p < 2 ^ 64 \<Longrightarrow>
    \<exists>c c'. updates sha1_alg ps SHA1_Init = Some c \<and> SHA1_Final c = Some (Some (sha1_digest (concat ps)), c')"
  using sha1.digest_pieces [of SHA1_Init "md_h SHA1_Init" ps]
  by (auto simp: SHA1_Init_def SHA1_Final_def sha1_digest_def sha1_alg_def l2c_digest)

lemma sha224_pieces:
  "\<forall>p \<in> set ps. length p < 2 ^ 64 \<Longrightarrow>
    \<exists>c c'. updates sha256_alg ps SHA224_Init = Some c \<and> SHA224_Final c = Some (Some (sha224_digest (concat ps)), c')"
  using sha256.digest_pieces [of SHA224_Init "md_h SHA224_Init" ps]
  by (auto simp: SHA224_Init_def SHA224_Final_def SHA256_Final_def sha224_digest_def sha256_alg_def sha256_make_string_def
      SHA224_DIGEST_LENGTH_def l2c_digest)

lemma sha256_pieces:
  "\<forall>p \<in> set ps. length p < 2 ^ 64 \<Longrightarrow>
    \<exists>c c'. updates sha256_alg ps SHA256_Init = Some c \<and> SHA256_Final c = Some (Some (sha256_digest (concat ps)), c')"
proof -
  have "length (md_chain sha256_compress (md_h SHA256_Init) m) = 8" for m
    by (rule sha256.chain_length) (simp add: SHA256_Init_def)
  then show "\<forall>p \<in> set ps. length p < 2 ^ 64 \<Longrightarrow>
    \<exists>c c'. updates sha256_alg ps SHA256_Init = Some c \<and> SHA256_Final c = Some (Some (sha256_digest (concat ps)), c')"
    using sha256.digest_pieces [of SHA256_Init "md_h SHA256_Init" ps]
    by (auto simp: SHA256_Init_def SHA256_Final_def sha256_digest_def sha256_alg_def sha256_make_string_def
        SHA224_DIGEST_LENGTH_def SHA256_DIGEST_LENGTH_def l2c_digest)
qed

text \<open>
  C32. SHA-1, SHA-224 and SHA-256 are the digests of FIPS 180-4: however the input is cut into pieces, the
  context takes them without leaving its buffer, and the digest that is written at the end is that of
  the standard (message schedule, rounds with their right rotations, padding) of the whole
  input; the one-shot functions return the same. The constants are the bits of roots of
  primes that the standard names (\<open>K256_roots\<close>, \<open>IV256_roots\<close>, \<open>IV224_roots\<close>).
\<close>

theorem sha_digests:
  assumes "\<forall>p \<in> set ps. length p < 2 ^ 64"
  shows "(\<exists>c c'. updates sha1_alg ps SHA1_Init = Some c \<and> SHA1_Final c = Some (Some (sha1_digest (concat ps)), c')) \<and>
    (\<exists>c c'. updates sha256_alg ps SHA224_Init = Some c \<and> SHA224_Final c = Some (Some (sha224_digest (concat ps)), c')) \<and>
    (\<exists>c c'. updates sha256_alg ps SHA256_Init = Some c \<and> SHA256_Final c = Some (Some (sha256_digest (concat ps)), c')) \<and>
    (\<forall>m. length m < 2 ^ 64 \<longrightarrow> SHA1 m = Some (Some (sha1_digest m)) \<and> SHA224 m = Some (Some (sha224_digest m)) \<and>
      SHA256 m = Some (Some (sha256_digest m)))"
proof -
  have "SHA1 m = Some (Some (sha1_digest m)) \<and> SHA224 m = Some (Some (sha224_digest m)) \<and> SHA256 m = Some (Some (sha256_digest m))"
    if "length m < 2 ^ 64" for m
    using sha1_pieces [of "[m]"] sha224_pieces [of "[m]"] sha256_pieces [of "[m]"] that
    by (auto simp: SHA1_def SHA224_def SHA256_def one_shot_updates SHA1_Final_def SHA224_Final_def SHA256_Final_def)
  then show ?thesis using sha1_pieces [OF assms] sha224_pieces [OF assms] sha256_pieces [OF assms] by blast
qed

lemma sha_digests_witness:
  "SHA256 [0x61, 0x62, 0x63] = Some (Some (sha256_digest [0x61, 0x62, 0x63])) \<and>
    (\<exists>c c'. updates sha1_alg [[0x61], [], [0x62, 0x63]] SHA1_Init = Some c \<and> SHA1_Final c = Some (Some (sha1_digest [0x61, 0x62, 0x63]), c'))"
proof -
  have "\<forall>p \<in> set [[0x61], [], [0x62, 0x63]]. length (p :: u8 list) < 2 ^ 64" by simp
  from sha_digests [OF this] show ?thesis by simp
qed

end
