(* ===== verification/Md_Sine.thy ===== *)
theory Md_Sine
  imports Complex_Main
begin

text \<open>
  The integer parts of \<open>2 ^ 32\<close> times the absolute values of \<open>sin 1\<close> to \<open>sin 64\<close>, which RFC 1321 takes as the
  constants of MD5, computed with integers: the values of \<open>sin 1\<close> and \<open>cos 1\<close>, scaled by \<open>2 ^ 64\<close>, from their
  series, and those of the other angles by rotation, with bounds of the errors.
\<close>

section \<open>The first angle\<close>

definition scale :: int where "scale = 2 ^ 64"

text \<open>The division by a factorial, one factor after the other.\<close>

primrec scale_div_fact :: "nat \<Rightarrow> int" where
  "scale_div_fact 0 = scale"
| "scale_div_fact (Suc m) = scale_div_fact m div int (Suc m)"

lemma scale_div_fact: "scale_div_fact m = scale div fact m"
  by (induction m) (simp_all add: zdiv_zmult2_eq [symmetric] mult.commute del: of_nat_Suc)

definition sin_term :: "nat \<Rightarrow> int" where
  "sin_term m = (if even m then 0 else if m mod 4 = 1 then scale_div_fact m else - scale_div_fact m)"

definition cos_term :: "nat \<Rightarrow> int" where
  "cos_term m = (if odd m then 0 else if m mod 4 = 0 then scale_div_fact m else - scale_div_fact m)"

definition sin_one :: int where "sin_one = sum_list (map sin_term [0..<21])"
definition cos_one :: int where "cos_one = sum_list (map cos_term [0..<21])"

text \<open>Both series in one pass, from term \<open>m\<close> on.\<close>

primrec series :: "nat \<Rightarrow> int \<Rightarrow> nat \<Rightarrow> int \<times> int" where
  "series m t 0 = (0, 0)"
| "series m t (Suc n) = (case series (Suc m) (t div int (Suc m)) n of (s, c) \<Rightarrow>
     if even m then (s, (if m mod 4 = 0 then t else - t) + c) else ((if m mod 4 = 1 then t else - t) + s, c))"

lemma series_terms: "series m (scale_div_fact m) n = (sum_list (map sin_term [m..<m + n]), sum_list (map cos_term [m..<m + n]))"
proof (induction n arbitrary: m)
  case (Suc n)
  have "[m..<m + Suc n] = m # [Suc m..<Suc m + n]" by (simp add: upt_rec)
  then show ?case using Suc.IH [of "Suc m"] by (simp add: sin_term_def cos_term_def)
qed simp

lemma one_series: "(sin_one, cos_one) = series 0 scale 21"
  using series_terms [of 0 21] by (simp add: sin_one_def cos_one_def)

lemma scale_pos: "0 < scale"
  by (simp add: scale_def)

lemma div_bound: "\<bar>real_of_int (a div scale) - real_of_int a / real_of_int scale\<bar> \<le> 1"
  using real_of_int_div3 [of a scale] real_of_int_div4 [of a scale] by linarith

lemma term_bound: "\<bar>real_of_int (scale div fact m) - real_of_int scale * (1 / fact m)\<bar> \<le> 1"
  using real_of_int_div3 [of scale "fact m"] real_of_int_div4 [of scale "fact m"] by (simp add: of_int_fact)

lemma sin_term_bound: "\<bar>real_of_int (sin_term m) - real_of_int scale * sin_coeff m\<bar> \<le> 1"
proof (cases "even m")
  case False
  then have "m mod 4 = 1 \<or> m mod 4 = 3" by presburger
  moreover have "even ((m - Suc 0) div 2) \<longleftrightarrow> m mod 4 = 1" using False by presburger
  ultimately show ?thesis using False term_bound [of m] by (auto simp: sin_term_def sin_coeff_def scale_div_fact)
qed (simp add: sin_term_def sin_coeff_def)

lemma cos_term_bound: "\<bar>real_of_int (cos_term m) - real_of_int scale * cos_coeff m\<bar> \<le> 1"
proof (cases "odd m")
  case False
  then have "m mod 4 = 0 \<or> m mod 4 = 2" by presburger
  moreover have "even (m div 2) \<longleftrightarrow> m mod 4 = 0" using False by presburger
  ultimately show ?thesis using False term_bound [of m] by (auto simp: cos_term_def cos_coeff_def scale_div_fact)
qed (simp add: cos_term_def cos_coeff_def)

lemma sum_bound:
  assumes "\<And>m. \<bar>real_of_int (f m) - real_of_int scale * g m\<bar> \<le> 1"
  shows "\<bar>real_of_int (sum_list (map f [0..<n])) - real_of_int scale * (\<Sum>m<n. g m)\<bar> \<le> real n"
proof (induction n)
  case (Suc n)
  then show ?case using assms [of n] by (simp add: algebra_simps)
qed simp

lemma series_error:
  assumes f: "\<And>m. \<bar>real_of_int (f m) - real_of_int scale * g m\<bar> \<le> 1" and x: "\<bar>x - (\<Sum>m<21. g m)\<bar> \<le> 1 / fact 21"
  shows "\<bar>real_of_int (sum_list (map f [0..<21])) - real_of_int scale * x\<bar> \<le> 22"
proof -
  have "\<bar>real_of_int scale * (x - (\<Sum>m<21. g m))\<bar> \<le> real_of_int scale * (1 / fact 21)"
    using x scale_pos unfolding abs_mult by (intro mult_mono) simp_all
  also have "\<dots> \<le> 1" by (simp add: scale_def fact_numeral)
  finally have "\<bar>real_of_int scale * x - real_of_int scale * (\<Sum>m<21. g m)\<bar> \<le> 1" by (simp only: right_diff_distrib)
  then show ?thesis using sum_bound [of f g 21, OF f] by linarith
qed

lemma sin_one_error: "\<bar>real_of_int sin_one - real_of_int scale * sin 1\<bar> \<le> 22"
proof -
  have "\<bar>sin 1 - (\<Sum>m<21. sin_coeff m)\<bar> \<le> 1 / fact 21"
    using Maclaurin_sin_bound [of 1 21] by (simp add: divide_inverse)
  then show ?thesis unfolding sin_one_def by (rule series_error [OF sin_term_bound])
qed

lemma cos_one_error: "\<bar>real_of_int cos_one - real_of_int scale * cos 1\<bar> \<le> 22"
proof -
  obtain t :: real where "cos 1 = (\<Sum>m<21. cos_coeff m) + cos (t + 1 / 2 * real 21 * pi) / fact 21"
    using Maclaurin_cos_expansion [of 1 21] by auto
  then have "\<bar>cos 1 - (\<Sum>m<21. cos_coeff m)\<bar> \<le> 1 / fact 21"
    by (simp add: abs_cos_le_one divide_right_mono)
  then show ?thesis unfolding cos_one_def by (rule series_error [OF cos_term_bound])
qed

section \<open>Rotation\<close>

text \<open>A sine and a cosine are a point of the plane; rotating one keeps its distance to the exact one up to what is rounded.\<close>

definition rotate_sin :: "int \<Rightarrow> int \<Rightarrow> int \<Rightarrow> int \<Rightarrow> int" where
  "rotate_sin s c s1 c1 = (s * c1 + c * s1) div scale"

definition rotate_cos :: "int \<Rightarrow> int \<Rightarrow> int \<Rightarrow> int \<Rightarrow> int" where
  "rotate_cos s c s1 c1 = (c * c1 - s * s1) div scale"

definition point :: "int \<Rightarrow> int \<Rightarrow> complex" where
  "point s c = Complex (real_of_int c) (real_of_int s)"

definition exact :: "real \<Rightarrow> complex" where
  "exact x = of_int scale * cis x"

definition near :: "real \<Rightarrow> int \<Rightarrow> int \<Rightarrow> real \<Rightarrow> bool" where
  "near e s c x \<longleftrightarrow> cmod (point s c - exact x) \<le> e"

lemma near_one: "near 44 sin_one cos_one 1"
  using cmod_le [of "point sin_one cos_one - exact 1"] sin_one_error cos_one_error
  by (simp add: near_def point_def exact_def)

lemma cmod_exact: "cmod (exact x) = real_of_int scale"
  using scale_pos by (simp add: exact_def norm_mult)

lemma exact_add: "exact x * exact y = of_int scale * exact (x + y)"
  by (simp add: exact_def cis_mult [symmetric])

lemma rotate_rounding:
  "cmod (of_int scale * point (rotate_sin s c s1 c1) (rotate_cos s c s1 c1) - point s c * point s1 c1) \<le> 2 * real_of_int scale"
proof -
  have d: "\<bar>real_of_int scale * real_of_int (a div scale) - real_of_int a\<bar> \<le> real_of_int scale" for a
  proof -
    have "real_of_int scale * \<bar>real_of_int (a div scale) - real_of_int a / real_of_int scale\<bar> \<le> real_of_int scale * 1"
      using div_bound [of a] scale_pos by (intro mult_left_mono) simp_all
    moreover have "real_of_int scale * (real_of_int (a div scale) - real_of_int a / real_of_int scale) = real_of_int scale * real_of_int (a div scale) - real_of_int a"
      using scale_pos by (simp add: field_simps)
    ultimately show ?thesis using scale_pos by (metis abs_mult abs_of_pos mult.right_neutral of_int_0_less_iff)
  qed
  show ?thesis
    using cmod_le [of "of_int scale * point (rotate_sin s c s1 c1) (rotate_cos s c s1 c1) - point s c * point s1 c1"]
      d [of "s * c1 + c * s1"] d [of "c * c1 - s * s1"]
    by (simp add: point_def rotate_sin_def rotate_cos_def algebra_simps)
qed

lemma near_rotate:
  assumes n: "near e s c x" and e: "0 \<le> e" "44 * e \<le> real_of_int scale"
  shows "near (e + 47) (rotate_sin s c sin_one cos_one) (rotate_cos s c sin_one cos_one) (x + 1)"
proof -
  let ?N = "real_of_int scale"
  define u v U V w where "u = point s c" and "v = point sin_one cos_one" and "U = exact x" and "V = exact 1"
    and "w = point (rotate_sin s c sin_one cos_one) (rotate_cos s c sin_one cos_one)"
  have N: "0 < ?N" using scale_pos by simp
  have d: "cmod (u - U) \<le> e" "cmod (v - V) \<le> 44" using n near_one by (simp_all add: near_def u_def v_def U_def V_def)
  have UV: "cmod U = ?N" "cmod V = ?N" by (simp_all add: U_def V_def cmod_exact)
  have "cmod v \<le> ?N + 44" using norm_triangle_ineq [of V "v - V"] d(2) UV(2) by simp
  then have "cmod (u - U) * cmod v \<le> e * (?N + 44)" using d(1) e(1) by (intro mult_mono) simp_all
  moreover have "cmod U * cmod (v - V) \<le> ?N * 44" using d(2) N UV(1) by (simp add: mult_left_mono)
  moreover have "u * v - U * V = (u - U) * v + U * (v - V)" by (simp add: algebra_simps)
  ultimately have p: "cmod (u * v - U * V) \<le> e * (?N + 44) + ?N * 44"
    using norm_triangle_ineq [of "(u - U) * v" "U * (v - V)"] by (simp add: norm_mult)
  have "cmod (of_int scale * w - u * v) \<le> 2 * ?N" using rotate_rounding by (simp add: u_def v_def w_def)
  then have "cmod (of_int scale * w - U * V) \<le> 2 * ?N + (e * (?N + 44) + ?N * 44)"
    using norm_triangle_ineq [of "of_int scale * w - u * v" "u * v - U * V"] p by simp
  also have "of_int scale * w - U * V = of_int scale * (w - exact (x + 1))"
    by (simp add: U_def V_def exact_add right_diff_distrib)
  also have "2 * ?N + (e * (?N + 44) + ?N * 44) \<le> ?N * (e + 47)" using e(2) by (simp add: algebra_simps)
  finally have "?N * cmod (w - exact (x + 1)) \<le> ?N * (e + 47)" using N by (simp add: norm_mult)
  then show ?thesis using N by (simp add: near_def w_def)
qed

section \<open>The table\<close>

text \<open>A list of integers holds the integer parts for the angles from one on; \<open>2 ^ 14\<close> is more than the error of any of them.\<close>

fun sines_ok :: "int \<Rightarrow> int \<Rightarrow> int \<Rightarrow> int \<Rightarrow> int list \<Rightarrow> bool" where
  "sines_ok s1 c1 s c [] \<longleftrightarrow> True"
| "sines_ok s1 c1 s c (t # ts) \<longleftrightarrow> t * 2 ^ 32 + 2 ^ 14 \<le> \<bar>s\<bar> \<and> \<bar>s\<bar> + 2 ^ 14 < (t + 1) * 2 ^ 32 \<and>
     (let s' = rotate_sin s c s1 c1; c' = rotate_cos s c s1 c1 in sines_ok s1 c1 s' c' ts)"

lemma sine_part:
  assumes n: "near e s c x" and e: "e \<le> 2 ^ 14" and t: "t * 2 ^ 32 + 2 ^ 14 \<le> \<bar>s\<bar>" "\<bar>s\<bar> + 2 ^ 14 < (t + 1) * 2 ^ 32"
  shows "\<lfloor>4294967296 * \<bar>sin x\<bar>\<rfloor> = t"
proof -
  have "\<bar>real_of_int s - real_of_int scale * sin x\<bar> \<le> 2 ^ 14"
    using n e abs_Im_le_cmod [of "point s c - exact x"] by (simp add: near_def point_def exact_def)
  then have "\<bar>\<bar>real_of_int s\<bar> - real_of_int scale * \<bar>sin x\<bar>\<bar> \<le> 2 ^ 14"
    using scale_pos abs_triangle_ineq3 [of "real_of_int s" "real_of_int scale * sin x"] by (simp add: abs_mult)
  then have b: "\<bar>\<bar>real_of_int s\<bar> - 2 ^ 64 * \<bar>sin x\<bar>\<bar> \<le> 2 ^ 14" by (simp add: scale_def)
  have "real_of_int (t * 2 ^ 32 + 2 ^ 14) \<le> real_of_int \<bar>s\<bar>" "real_of_int (\<bar>s\<bar> + 2 ^ 14) < real_of_int ((t + 1) * 2 ^ 32)"
    using t by (simp_all only: of_int_le_iff of_int_less_iff)
  then have r: "real_of_int t * 2 ^ 32 + 2 ^ 14 \<le> \<bar>real_of_int s\<bar>" "\<bar>real_of_int s\<bar> + 2 ^ 14 < (real_of_int t + 1) * 2 ^ 32" by simp_all
  have "real_of_int t \<le> 4294967296 * \<bar>sin x\<bar>" "4294967296 * \<bar>sin x\<bar> < real_of_int t + 1" using b r by simp_all
  then show ?thesis by (simp add: floor_unique)
qed

lemma sines_ok_parts:
  assumes "sines_ok sin_one cos_one s c ts" "near e s c x" "0 \<le> e" "e + 47 * real (length ts) \<le> 2 ^ 14"
  shows "i < length ts \<Longrightarrow> ts ! i = \<lfloor>4294967296 * \<bar>sin (x + real i)\<bar>\<rfloor>"
  using assms
proof (induction ts arbitrary: s c e x i)
  case (Cons t ts)
  note ok = Cons.prems(2) [unfolded sines_ok.simps Let_def]
  have small: "e \<le> 2 ^ 14" "44 * e \<le> real_of_int scale" using Cons.prems(4,5) by (simp_all add: scale_def)
  show ?case
  proof (cases i)
    case 0
    then show ?thesis using sine_part [OF Cons.prems(3) small(1) conjunct1 [OF ok] conjunct1 [OF conjunct2 [OF ok]]] by simp
  next
    case (Suc j)
    have "ts ! j = \<lfloor>4294967296 * \<bar>sin (x + 1 + real j)\<bar>\<rfloor>"
      using Cons.prems(1,4,5) Suc
      by (intro Cons.IH [OF _ conjunct2 [OF conjunct2 [OF ok]] near_rotate [OF Cons.prems(3,4) small(2)]]) simp_all
    then show ?thesis using Suc by (simp add: ac_simps)
  qed
qed simp

lemma sine_table:
  assumes "sines_ok sin_one cos_one sin_one cos_one ts" "length ts = 64" "i < 64"
  shows "ts ! i = \<lfloor>4294967296 * \<bar>sin (real (i + 1))\<bar>\<rfloor>"
  using sines_ok_parts [OF assms(1) near_one, of i] assms by (simp add: add.commute)

end
