(* ===== verification/Md_Spec.thy ===== *)
theory Md_Spec
  imports Md Md32_Spec Md_Sine
begin

text \<open>
  MD5 and MD4 against RFC 1321 and RFC 1320: the standards' functions, orders of the words and rotations, as
  steps that shift the four working variables. The constants of MD5 are defined by the sine, as in RFC 1321, and the
  table of the code is proved to hold them.
\<close>

section \<open>The steps of the standards\<close>

definition md5_f :: "nat \<Rightarrow> u32 \<Rightarrow> u32 \<Rightarrow> u32 \<Rightarrow> u32" where
  "md5_f i x y z = (if i < 16 then (x AND y) OR (NOT x AND z) else if i < 32 then (x AND z) OR (y AND NOT z)
     else if i < 48 then x XOR y XOR z else y XOR (x OR NOT z))"

definition md5_k :: "nat \<Rightarrow> nat" where
  "md5_k i = (if i < 16 then i else if i < 32 then (1 + 5 * i) mod 16 else if i < 48 then (5 + 3 * i) mod 16 else (7 * i) mod 16)"

definition md5_s :: "nat \<Rightarrow> nat" where
  "md5_s i = [[7, 12, 17, 22], [5, 9, 14, 20], [4, 11, 16, 23], [6, 10, 15, 21]] ! (i div 16) ! (i mod 4)"

text \<open>RFC 1321, section 3.4: the integer part of 4294967296 times the absolute value of the sine of \<open>i + 1\<close> radians.\<close>

definition md5_T :: "nat \<Rightarrow> u32" where
  "md5_T i = word_of_int \<lfloor>4294967296 * \<bar>sin (real (i + 1))\<bar>\<rfloor>"

definition md5_step :: "u32 list \<Rightarrow> nat \<Rightarrow> u32 list \<Rightarrow> u32 list" where
  "md5_step M i s = (case s of [a, b, c, d] \<Rightarrow> [d, b + word_rotl (md5_s i) (a + md5_f i b c d + M ! md5_k i + md5_T i), b, c])"

definition md5_compress :: "u32 list \<Rightarrow> u8 list \<Rightarrow> u32 list" where
  "md5_compress H b = map2 (+) H (fold (md5_step (block_words False b)) [0..<64] H)"

definition md4_f :: "nat \<Rightarrow> u32 \<Rightarrow> u32 \<Rightarrow> u32 \<Rightarrow> u32" where
  "md4_f i x y z = (if i < 16 then (x AND y) OR (NOT x AND z) else if i < 32 then (x AND y) OR (x AND z) OR (y AND z)
     else x XOR y XOR z)"

definition md4_k :: "nat \<Rightarrow> nat" where
  "md4_k i = (if i < 16 then i else if i < 32 then 4 * (i mod 4) + i mod 16 div 4
     else [0, 8, 4, 12, 2, 10, 6, 14, 1, 9, 5, 13, 3, 11, 7, 15] ! (i mod 16))"

definition md4_s :: "nat \<Rightarrow> nat" where
  "md4_s i = [[3, 7, 11, 19], [3, 5, 9, 13], [3, 9, 11, 15]] ! (i div 16) ! (i mod 4)"

definition md4_T :: "nat \<Rightarrow> u32" where
  "md4_T i = (if i < 16 then 0 else if i < 32 then 0x5A827999 else 0x6ED9EBA1)"

definition md4_step :: "u32 list \<Rightarrow> nat \<Rightarrow> u32 list \<Rightarrow> u32 list" where
  "md4_step M i s = (case s of [a, b, c, d] \<Rightarrow> [d, word_rotl (md4_s i) (a + md4_f i b c d + M ! md4_k i + md4_T i), b, c])"

definition md4_compress :: "u32 list \<Rightarrow> u8 list \<Rightarrow> u32 list" where
  "md4_compress H b = map2 (+) H (fold (md4_step (block_words False b)) [0..<48] H)"

section \<open>The calls of the code\<close>

lemma md5_fn: "md5_round_fn i = md5_f i"
proof -
  have "md5_F b c d = (b AND c) OR (NOT b AND d)" "md5_G b c d = (b AND d) OR (c AND NOT d)" "md5_I b c d = c XOR (b OR NOT d)" for b c d
    unfolding md5_F_def md5_G_def md5_I_def by (rule bit_word_eqI; auto simp: bit_simps)+
  then show ?thesis by (auto simp: fun_eq_iff md5_round_fn_def md5_f_def md5_H_def)
qed

lemma md4_fn: "md4_round_fn i = md4_f i"
proof -
  have "md4_F b c d = (b AND c) OR (NOT b AND d)" for b c d
    unfolding md4_F_def by (rule bit_word_eqI) (auto simp: bit_simps)
  then show ?thesis by (auto simp: fun_eq_iff md4_round_fn_def md4_f_def md4_G_def md4_H_def)
qed

lemma one_values: "sin_one = 15522399902203605025" "cos_one = 9966818358784711824"
proof -
  have "series 0 scale 21 = (15522399902203605025, 9966818358784711824)" by code_simp
  then show "sin_one = 15522399902203605025" "cos_one = 9966818358784711824" using one_series by simp_all
qed

lemma md5_sines:
  assumes "i < 64"
  shows "snd (snd (md5_calls ! i)) = md5_T i"
proof -
  let ?ts = "map (\<lambda>(k, s, t). uint t) md5_calls"
  have "sines_ok 15522399902203605025 9966818358784711824 15522399902203605025 9966818358784711824 ?ts" by code_simp
  then have "sines_ok sin_one cos_one sin_one cos_one ?ts" by (simp only: one_values)
  moreover have l: "length ?ts = 64" by (simp add: md5_calls_def)
  ultimately have "?ts ! i = \<lfloor>4294967296 * \<bar>sin (real (i + 1))\<bar>\<rfloor>" using assms by (rule sine_table)
  moreover have "?ts ! i = uint (snd (snd (md5_calls ! i)))" using l assms by (simp add: case_prod_beta)
  ultimately show ?thesis by (simp only: md5_T_def) (metis word_of_int_uint)
qed

lemma md5_calls: "i < 64 \<Longrightarrow> md5_calls ! i = (md5_k i, md5_s i, md5_T i)"
proof -
  have "map (\<lambda>(k, s, t). (k, s)) md5_calls = map (\<lambda>i. (md5_k i, md5_s i)) [0..<64]" by code_simp
  moreover have l: "length md5_calls = 64" by (simp add: md5_calls_def)
  moreover assume "i < 64"
  ultimately have "(case md5_calls ! i of (k, s, t) \<Rightarrow> (k, s)) = (md5_k i, md5_s i)" by (metis (lifting) nth_map nth_map_upt add_0 diff_zero)
  then show ?thesis using md5_sines [OF \<open>i < 64\<close>] by (auto split: prod.splits)
qed

lemma md4_calls:
  assumes "i < 48"
  shows "md4_calls ! i = (md4_k i, md4_s i, md4_T i)"
proof -
  have "md4_calls = map (\<lambda>i. (md4_k i, md4_s i, md4_T i)) [0..<48]" by code_simp
  then have "md4_calls ! i = map (\<lambda>i. (md4_k i, md4_s i, md4_T i)) [0..<48] ! i" by (rule arg_cong)
  also have "\<dots> = (md4_k (0 + i), md4_s (0 + i), md4_T (0 + i))" by (rule nth_map_upt) (simp add: assms)
  finally show ?thesis by simp
qed

lemma md_args_values:
  "md_args 0 = [0, 1, 2, 3]" "md_args 1 = [3, 0, 1, 2]" "md_args 2 = [2, 3, 0, 1]" "md_args 3 = [1, 2, 3, 0]" "md_args 4 = [0, 1, 2, 3]"
  "md_args (Suc (Suc 0)) = [2, 3, 0, 1]"
  by (simp_all add: md_args_def upt_rec)

lemma less_4_cases: "(r :: nat) < 4 \<Longrightarrow> r = 0 \<or> r = 1 \<or> r = 2 \<or> r = 3"
  by linarith

lemma length_4: "length v = 4 \<Longrightarrow> \<exists>a b c d. v = [a, b, c, d]"
  by (auto simp: numeral_eq_Suc length_Suc_conv)

lemma md_args_cases:
  obtains r where "r < 4" "md_args i = md_args r" "md_args (Suc i) = md_args (Suc r)"
proof (rule that [of "i mod 4"])
  show "md_args i = md_args (i mod 4)" "md_args (Suc i) = md_args (Suc (i mod 4))" by (simp_all add: md_args_def mod_Suc_eq)
qed simp

lemma md5_call:
  assumes "length v = 4" and s: "0 < s" "s < 32"
  shows "rotated (md_args (Suc i)) (md5_R F (md_args i) k s t v) =
      (case rotated (md_args i) v of [a, b, c, d] \<Rightarrow> [d, b + word_rotl s (a + F b c d + k + t), b, c])"
    and "length (md5_R F (md_args i) k s t v) = 4"
proof -
  obtain a b c d where v: "v = [a, b, c, d]" using length_4 [OF assms(1)] by blast
  obtain r where r: "r < 4" "md_args i = md_args r" "md_args (Suc i) = md_args (Suc r)" by (rule md_args_cases)
  have "rotated (md_args (Suc r)) (md5_R F (md_args r) k s t v) =
      (case rotated (md_args r) v of [a, b, c, d] \<Rightarrow> [d, b + word_rotl s (a + F b c d + k + t), b, c]) \<and>
      length (md5_R F (md_args r) k s t v) = 4"
    using less_4_cases [OF r(1)]
    by (elim disjE) (simp_all add: v md_args_values [simplified] rotated_def md5_R_def Let_def ROTATE_rotl [OF s] ac_simps)
  then show "rotated (md_args (Suc i)) (md5_R F (md_args i) k s t v) =
      (case rotated (md_args i) v of [a, b, c, d] \<Rightarrow> [d, b + word_rotl s (a + F b c d + k + t), b, c])"
    and "length (md5_R F (md_args i) k s t v) = 4" unfolding r by blast+
qed

lemma md4_call:
  assumes "length v = 4" and s: "0 < s" "s < 32"
  shows "rotated (md_args (Suc i)) (md4_R F (md_args i) k s t v) =
      (case rotated (md_args i) v of [a, b, c, d] \<Rightarrow> [d, word_rotl s (a + F b c d + k + t), b, c])"
    and "length (md4_R F (md_args i) k s t v) = 4"
proof -
  obtain a b c d where v: "v = [a, b, c, d]" using length_4 [OF assms(1)] by blast
  obtain r where r: "r < 4" "md_args i = md_args r" "md_args (Suc i) = md_args (Suc r)" by (rule md_args_cases)
  have "rotated (md_args (Suc r)) (md4_R F (md_args r) k s t v) =
      (case rotated (md_args r) v of [a, b, c, d] \<Rightarrow> [d, word_rotl s (a + F b c d + k + t), b, c]) \<and>
      length (md4_R F (md_args r) k s t v) = 4"
    using less_4_cases [OF r(1)]
    by (elim disjE) (simp_all add: v md_args_values [simplified] rotated_def md4_R_def Let_def ROTATE_rotl [OF s] ac_simps)
  then show "rotated (md_args (Suc i)) (md4_R F (md_args i) k s t v) =
      (case rotated (md_args i) v of [a, b, c, d] \<Rightarrow> [d, word_rotl s (a + F b c d + k + t), b, c])"
    and "length (md4_R F (md_args i) k s t v) = 4" unfolding r by blast+
qed

lemma md5_s_bounds: "i < 64 \<Longrightarrow> 0 < md5_s i \<and> md5_s i < 32"
proof -
  have "list_all (\<lambda>i. 0 < md5_s i \<and> md5_s i < 32) [0..<64]" by code_simp
  moreover assume "i < 64"
  ultimately show ?thesis by (simp add: list_all_iff)
qed

lemma md4_s_bounds: "i < 48 \<Longrightarrow> 0 < md4_s i \<and> md4_s i < 32"
proof -
  have "list_all (\<lambda>i. 0 < md4_s i \<and> md4_s i < 32) [0..<48]" by code_simp
  moreover assume "i < 48"
  ultimately show ?thesis by (simp add: list_all_iff)
qed

lemma rotated_md_start: "length s = 4 \<Longrightarrow> i mod 4 = 0 \<Longrightarrow> rotated (md_args i) s = s"
  using length_4 [of s] by (auto simp: rotated_def md_args_def upt_rec)

lemma md5_rounds:
  assumes "length s = 4"
  shows "n \<le> 64 \<Longrightarrow>
    (let v = fold (\<lambda>i v. case md5_calls ! i of (k, s, t) \<Rightarrow> md5_R (md5_round_fn i) (md_args i) (X ! k) s t v) [0..<n] s in
     length v = 4 \<and> rotated (md_args n) v = fold (md5_step X) [0..<n] s)"
proof (induction n)
  case 0
  then show ?case using assms by (simp add: rotated_md_start)
next
  case (Suc n)
  let ?v = "fold (\<lambda>i v. case md5_calls ! i of (k, s, t) \<Rightarrow> md5_R (md5_round_fn i) (md_args i) (X ! k) s t v) [0..<n] s"
  have v: "length ?v = 4" "rotated (md_args n) ?v = fold (md5_step X) [0..<n] s" and n: "n < 64" using Suc by (simp_all add: Let_def)
  note call = md5_call [OF v(1), where s = "md5_s n" and i = n and F = "md5_f n" and k = "X ! md5_k n" and t = "md5_T n"]
  have s: "0 < md5_s n" "md5_s n < 32" using md5_s_bounds [OF n] by simp_all
  show ?case unfolding Let_def using call [OF s] n v by (simp add: md5_calls md5_fn md5_step_def)
qed

lemma md4_rounds:
  assumes "length s = 4"
  shows "n \<le> 48 \<Longrightarrow>
    (let v = fold (\<lambda>i v. case md4_calls ! i of (k, s, t) \<Rightarrow> md4_R (md4_round_fn i) (md_args i) (X ! k) s t v) [0..<n] s in
     length v = 4 \<and> rotated (md_args n) v = fold (md4_step X) [0..<n] s)"
proof (induction n)
  case 0
  then show ?case using assms by (simp add: rotated_md_start)
next
  case (Suc n)
  let ?v = "fold (\<lambda>i v. case md4_calls ! i of (k, s, t) \<Rightarrow> md4_R (md4_round_fn i) (md_args i) (X ! k) s t v) [0..<n] s"
  have v: "length ?v = 4" "rotated (md_args n) ?v = fold (md4_step X) [0..<n] s" and n: "n < 48" using Suc by (simp_all add: Let_def)
  note call = md4_call [OF v(1), where s = "md4_s n" and i = n and F = "md4_f n" and k = "X ! md4_k n" and t = "md4_T n"]
  have s: "0 < md4_s n" "md4_s n < 32" using md4_s_bounds [OF n] by simp_all
  show ?case unfolding Let_def using call [OF s] n v by (simp add: md4_calls md4_fn md4_step_def)
qed

lemma md5_block_rfc:
  assumes "length s = 4"
  shows "md5_block s X = map2 (+) s (fold (md5_step X) [0..<64] s)" "length (md5_block s X) = 4"
proof -
  define v where "v = fold (\<lambda>i v. case md5_calls ! i of (k, s, t) \<Rightarrow> md5_R (md5_round_fn i) (md_args i) (X ! k) s t v) [0..<64] s"
  have v: "length v = 4" "rotated (md_args 64) v = fold (md5_step X) [0..<64] s"
    using md5_rounds [OF assms, of 64 X] unfolding v_def Let_def by blast+
  then have "v = fold (md5_step X) [0..<64] s" using rotated_md_start [OF v(1), of 64] by simp
  then show "md5_block s X = map2 (+) s (fold (md5_step X) [0..<64] s)" "length (md5_block s X) = 4"
    using v(1) assms unfolding md5_block_def v_def [symmetric] by simp_all
qed

lemma md4_block_rfc:
  assumes "length s = 4"
  shows "md4_block s X = map2 (+) s (fold (md4_step X) [0..<48] s)" "length (md4_block s X) = 4"
proof -
  define v where "v = fold (\<lambda>i v. case md4_calls ! i of (k, s, t) \<Rightarrow> md4_R (md4_round_fn i) (md_args i) (X ! k) s t v) [0..<48] s"
  have v: "length v = 4" "rotated (md_args 48) v = fold (md4_step X) [0..<48] s"
    using md4_rounds [OF assms, of 48 X] unfolding v_def Let_def by blast+
  then have "v = fold (md4_step X) [0..<48] s" using rotated_md_start [OF v(1), of 48] by simp
  then show "md4_block s X = map2 (+) s (fold (md4_step X) [0..<48] s)" "length (md4_block s X) = 4"
    using v(1) assms unfolding md4_block_def v_def [symmetric] by simp_all
qed

lemma md_compress_block:
  "length s = 4 \<Longrightarrow> md5_block s (block_words False b) = md5_compress s b"
  "length s = 4 \<Longrightarrow> md4_block s (block_words False b) = md4_compress s b"
  by (simp_all only: md5_block_rfc(1) md4_block_rfc(1) md5_compress_def md4_compress_def)

interpretation md5: md32 md5_alg md5_compress 4
  by (rule md32_loop [where block = md5_block and big = False])
    (simp_all add: md5_alg_def md5_block_data_order_def md5_block_rfc(2) md_compress_block)

interpretation md4: md32 md4_alg md4_compress 4
  by (rule md32_loop [where block = md4_block and big = False])
    (simp_all add: md4_alg_def md4_block_data_order_def md4_block_rfc(2) md_compress_block)

section \<open>Digests\<close>

definition md5_digest :: "u8 list \<Rightarrow> u8 list" where
  "md5_digest m = digest_bytes False (md_chain md5_compress [0x67452301, 0xefcdab89, 0x98badcfe, 0x10325476] (md_pad False m))"

definition md4_digest :: "u8 list \<Rightarrow> u8 list" where
  "md4_digest m = digest_bytes False (md_chain md4_compress [0x67452301, 0xefcdab89, 0x98badcfe, 0x10325476] (md_pad False m))"

lemma md5_pieces:
  "\<forall>p \<in> set ps. length p < 2 ^ 64 \<Longrightarrow>
    \<exists>c c'. updates md5_alg ps MD5_Init = Some c \<and> MD5_Final c = Some (Some (md5_digest (concat ps)), c')"
  using md5.digest_pieces [of MD5_Init "md_h MD5_Init" ps]
  by (auto simp: MD5_Init_def MD5_Final_def md5_digest_def md5_alg_def l2c_digest)

lemma md4_pieces:
  "\<forall>p \<in> set ps. length p < 2 ^ 64 \<Longrightarrow>
    \<exists>c c'. updates md4_alg ps MD4_Init = Some c \<and> MD4_Final c = Some (Some (md4_digest (concat ps)), c')"
  using md4.digest_pieces [of MD4_Init "md_h MD4_Init" ps]
  by (auto simp: MD4_Init_def MD4_Final_def md4_digest_def md4_alg_def l2c_digest)

text \<open>
  C33. MD5 and MD4 are the digests of RFC 1321, whose constants are the integer parts of \<open>2 ^ 32\<close> times the absolute
  values of the sines of 1 to 64, and RFC 1320: however the input is cut into pieces, the context
  takes them without leaving its buffer, and the digest written at the end is that of the whole
  input, with the length of the input in bits modulo \<open>2 ^ 64\<close>; the one-shot functions return
  the same.
\<close>

theorem md_digests:
  assumes "\<forall>p \<in> set ps. length p < 2 ^ 64"
  shows "(\<exists>c c'. updates md5_alg ps MD5_Init = Some c \<and> MD5_Final c = Some (Some (md5_digest (concat ps)), c')) \<and>
    (\<exists>c c'. updates md4_alg ps MD4_Init = Some c \<and> MD4_Final c = Some (Some (md4_digest (concat ps)), c')) \<and>
    (\<forall>m. length m < 2 ^ 64 \<longrightarrow> MD5 m = Some (Some (md5_digest m)) \<and> MD4 m = Some (Some (md4_digest m)))"
proof -
  have "MD5 m = Some (Some (md5_digest m)) \<and> MD4 m = Some (Some (md4_digest m))" if "length m < 2 ^ 64" for m
    using md5_pieces [of "[m]"] md4_pieces [of "[m]"] that by (auto simp: MD5_def MD4_def one_shot_updates MD5_Final_def MD4_Final_def)
  then show ?thesis using md5_pieces [OF assms] md4_pieces [OF assms] by blast
qed

lemma md_digests_witness:
  "MD5 [0x61, 0x62, 0x63] = Some (Some (md5_digest [0x61, 0x62, 0x63])) \<and>
    (\<exists>c c'. updates md4_alg [[0x61], [], [0x62, 0x63]] MD4_Init = Some c \<and> MD4_Final c = Some (Some (md4_digest [0x61, 0x62, 0x63]), c'))"
proof -
  have "\<forall>p \<in> set [[0x61], [], [0x62, 0x63]]. length (p :: u8 list) < 2 ^ 64" by simp
  from md_digests [OF this] show ?thesis by simp
qed

end
