(* ===== verification/Hmac_Spec.thy ===== *)
theory Hmac_Spec
  imports Hmac Sha_Spec Md_Spec
begin

text \<open>
  HMAC against RFC 2104 and HKDF against RFC 5869. The locale \<open>evp_digest\<close> is what the code relies on of a digest
  behind the table of methods: fed with any pieces it returns the hash of their concatenation. It is interpreted
  on the five digests.
\<close>

section \<open>The standards\<close>

definition hmac :: "(u8 list \<Rightarrow> u8 list) \<Rightarrow> nat \<Rightarrow> u8 list \<Rightarrow> u8 list \<Rightarrow> u8 list" where
  "hmac H B key m = (let k = (if length key > B then H key else key); k0 = k @ replicate (B - length k) 0 in
     H (map (\<lambda>b. 0x5c XOR b) k0 @ H (map (\<lambda>b. 0x36 XOR b) k0 @ m)))"

text \<open>The blocks \<open>T(i)\<close>, and the first \<open>L\<close> bytes of \<open>T(1), \<dots>, T(N)\<close>.\<close>

primrec hkdf_T :: "(u8 list \<Rightarrow> u8 list) \<Rightarrow> u8 list \<Rightarrow> nat \<Rightarrow> u8 list" where
  "hkdf_T mac info 0 = []"
| "hkdf_T mac info (Suc i) = mac (hkdf_T mac info i @ info @ [word_of_nat (Suc i)])"

definition hkdf_okm :: "(u8 list \<Rightarrow> u8 list) \<Rightarrow> nat \<Rightarrow> u8 list \<Rightarrow> nat \<Rightarrow> u8 list" where
  "hkdf_okm mac hash_len info L = take L (concat (map (hkdf_T mac info) [1..<Suc ((L + hash_len - 1) div hash_len)]))"

section \<open>Digests behind their table\<close>

text \<open>The state of a digest that has taken \<open>m\<close>.\<close>

definition absorbed :: "md32_alg \<Rightarrow> EVP_MD \<Rightarrow> u8 list \<Rightarrow> md32_ctx \<Rightarrow> bool" where
  "absorbed alg md m c \<longleftrightarrow> (\<exists>ps. (\<forall>p \<in> set ps. length p < 2 ^ 64) \<and> concat ps = m \<and> updates alg ps (md_method_init md) = Some c)"

text \<open>A context that owns a block for the digest, and one that has taken \<open>m\<close>.\<close>

definition owns :: "EVP_MD \<Rightarrow> EVP_MD_CTX \<Rightarrow> bool" where
  "owns md c \<longleftrightarrow> ctx_digest c = Some md \<and> ctx_data c \<noteq> None"

definition ctx_at :: "md32_alg \<Rightarrow> EVP_MD \<Rightarrow> u8 list \<Rightarrow> EVP_MD_CTX \<Rightarrow> bool" where
  "ctx_at alg md m c \<longleftrightarrow> ctx_digest c = Some md \<and> (\<exists>d. ctx_data c = Some d \<and> absorbed alg md m d)"

definition fresh_or :: "EVP_MD \<Rightarrow> bool \<Rightarrow> EVP_MD_CTX \<Rightarrow> bool" where
  "fresh_or md mem c \<longleftrightarrow> owns md c \<or> ctx_digest c \<noteq> Some md \<and> mem"

lemma ctx_at_owns: "ctx_at alg md m c \<Longrightarrow> owns md c"
  by (auto simp: ctx_at_def owns_def)

lemma update_flag: "HASH_UPDATE alg p c = Some (b, c') \<Longrightarrow> b"
  by (auto simp: HASH_UPDATE_def Let_def split: if_splits Option.bind_splits)

text \<open>The key block.\<close>

definition key_bytes :: "(u8 list \<Rightarrow> u8 list) \<Rightarrow> u8 list \<Rightarrow> u8 list" where
  "key_bytes H key = (if length key > 64 then H key else key)"

definition padded :: "(u8 list \<Rightarrow> u8 list) \<Rightarrow> u8 list \<Rightarrow> u8 list" where
  "padded H key = key_bytes H key @ replicate (64 - length (key_bytes H key)) 0"

lemma hmac_padded: "hmac H 64 key m = H (map (\<lambda>b. 0x5c XOR b) (padded H key) @ H (map (\<lambda>b. 0x36 XOR b) (padded H key) @ m))"
  by (simp add: hmac_def padded_def key_bytes_def Let_def)

text \<open>A context that is keyed, and one that has also taken \<open>m\<close>.\<close>

definition keyed :: "md32_alg \<Rightarrow> (u8 list \<Rightarrow> u8 list) \<Rightarrow> EVP_MD \<Rightarrow> u8 list \<Rightarrow> HMAC_CTX \<Rightarrow> bool" where
  "keyed alg H md key ctx \<longleftrightarrow> hmac_md ctx = Some md \<and> owns md (md_ctx ctx) \<and>
     ctx_at alg md (map (\<lambda>b. 0x36 XOR b) (padded H key)) (i_ctx ctx) \<and> ctx_at alg md (map (\<lambda>b. 0x5c XOR b) (padded H key)) (o_ctx ctx)"

definition hmac_at :: "md32_alg \<Rightarrow> (u8 list \<Rightarrow> u8 list) \<Rightarrow> EVP_MD \<Rightarrow> u8 list \<Rightarrow> u8 list \<Rightarrow> HMAC_CTX \<Rightarrow> bool" where
  "hmac_at alg H md key m ctx \<longleftrightarrow> keyed alg H md key ctx \<and> ctx_at alg md (map (\<lambda>b. 0x36 XOR b) (padded H key) @ m) (md_ctx ctx)"

text \<open>The allocations that keying a fresh context needs.\<close>

definition allocs :: "(nat \<Rightarrow> bool) \<Rightarrow> u8 list \<Rightarrow> bool" where
  "allocs mem key \<longleftrightarrow> mem 1 \<and> mem 2 \<and> (if length key > 64 then mem 0 else mem 3)"

text \<open>What a table of methods promises.\<close>

locale evp_digest =
  fixes md :: EVP_MD and alg :: md32_alg and H :: "u8 list \<Rightarrow> u8 list"
  assumes pieces: "\<forall>p \<in> set ps. length p < 2 ^ 64 \<Longrightarrow>
      \<exists>c c'. updates alg ps (md_method_init md) = Some c \<and> md_low_final md c = Some (Some (H (concat ps)), c')"
    and low_update: "md_low_update md = HASH_UPDATE alg"
    and hash_length: "length (H m) = EVP_MD_size md"
    and block_64: "EVP_MD_block_size md = 64"
    and size_64: "EVP_MD_size md \<le> 64"

context evp_digest begin

lemma absorbed_init: "absorbed alg md [] (md_method_init md)"
  unfolding absorbed_def by (rule exI [of _ "[]"]) (simp add: updates_def)

lemma absorbed_update:
  assumes "absorbed alg md m c" "length p < 2 ^ 64"
  shows "\<exists>c'. md_method_update md p c = Some c' \<and> absorbed alg md (m @ p) c'"
proof -
  obtain ps where ps: "\<forall>p \<in> set ps. length p < 2 ^ 64" "concat ps = m" "updates alg ps (md_method_init md) = Some c"
    using assms(1) by (auto simp: absorbed_def)
  have l: "\<forall>q \<in> set (ps @ [p]). length q < 2 ^ 64" using ps(1) assms(2) by simp
  obtain c' where c': "updates alg (ps @ [p]) (md_method_init md) = Some c'" using pieces [OF l] by blast
  then obtain b where b: "HASH_UPDATE alg p c = Some (b, c')" using ps(3) by (auto simp: updates_def)
  then have "md_method_update md p c = Some c'" using update_flag [OF b] by (simp add: md_method_update_def low_update)
  moreover have "absorbed alg md (m @ p) c'" unfolding absorbed_def using l c' ps(2) by (intro exI [of _ "ps @ [p]"]) simp
  ultimately show ?thesis by blast
qed

lemma absorbed_final: "absorbed alg md m c \<Longrightarrow> \<exists>c'. md_method_final md c = Some (H m, c')"
  using pieces by (fastforce simp: absorbed_def md_method_final_def)

section \<open>Contexts\<close>

lemma init_at: "fresh_or md mem c \<Longrightarrow> \<exists>c'. EVP_DigestInit_ex mem c md = Some (True, c') \<and> ctx_at alg md [] c'"
  using absorbed_init by (auto simp: fresh_or_def owns_def EVP_DigestInit_ex_def ctx_at_def)

lemma update_at:
  assumes "ctx_at alg md m c" "length p < 2 ^ 64"
  shows "\<exists>c'. EVP_DigestUpdate p c = Some (True, c') \<and> ctx_at alg md (m @ p) c'"
proof -
  obtain d where d: "ctx_digest c = Some md" "ctx_data c = Some d" "absorbed alg md m d" using assms(1) by (auto simp: ctx_at_def)
  obtain d' where "md_method_update md p d = Some d'" "absorbed alg md (m @ p) d'" using absorbed_update [OF d(3) assms(2)] by blast
  then show ?thesis using d by (simp add: EVP_DigestUpdate_def ctx_at_def)
qed

lemma final_at:
  assumes "ctx_at alg md m c"
  shows "\<exists>c'. EVP_DigestFinal_ex c = Some (H m, c') \<and> owns md c'"
proof -
  obtain d where d: "ctx_digest c = Some md" "ctx_data c = Some d" "absorbed alg md m d" using assms by (auto simp: ctx_at_def)
  obtain d' where "md_method_final md d = Some (H m, d')" using absorbed_final [OF d(3)] by blast
  then show ?thesis using d size_64 by (simp add: EVP_DigestFinal_ex_def owns_def)
qed

lemma copy_at:
  assumes "fresh_or md mem out" "ctx_at alg md m inn"
  shows "\<exists>c'. EVP_MD_CTX_copy_ex mem out inn = Some (True, c') \<and> ctx_at alg md m c'"
  using assms by (auto simp: EVP_MD_CTX_copy_ex_def ctx_at_def fresh_or_def owns_def Let_def)

section \<open>HMAC\<close>

lemma key_bytes_le: "length (key_bytes H key) \<le> 64"
  using size_64 by (simp add: key_bytes_def hash_length)

lemma length_padded: "length (padded H key) = 64"
  using key_bytes_le [of key] by (simp add: padded_def)

lemma pad_take: "take 64 (map f (key_bytes H key @ replicate (EVP_MAX_MD_BLOCK_SIZE - length (key_bytes H key)) 0)) = map f (padded H key)"
  using key_bytes_le [of key] by (simp add: padded_def EVP_MAX_MD_BLOCK_SIZE_def take_map)

lemma hmac_key_value:
  assumes "length key < 2 ^ 64" "length key > 64 \<longrightarrow> mem 0"
  shows "\<exists>c. hmac_key mem md key HMAC_CTX_init = Some (Some (key_bytes H key), HMAC_CTX_init\<lparr>md_ctx := c\<rparr>) \<and>
    (if length key > 64 then owns md c else c = EVP_MD_CTX_init)"
proof (cases "length key > 64")
  case True
  have "fresh_or md (mem 0) EVP_MD_CTX_init" using assms(2) True by (simp add: fresh_or_def EVP_MD_CTX_init_def)
  then obtain c where c: "EVP_DigestInit_ex (mem 0) EVP_MD_CTX_init md = Some (True, c)" "ctx_at alg md [] c" using init_at by blast
  obtain c' where c': "EVP_DigestUpdate key c = Some (True, c')" "ctx_at alg md key c'" using update_at [OF c(2) assms(1)] by auto
  obtain c'' where "EVP_DigestFinal_ex c' = Some (H key, c'')" "owns md c''" using final_at [OF c'(2)] by blast
  then show ?thesis using True c c'
    by (simp add: hmac_key_def block_64 EVP_MAX_MD_BLOCK_SIZE_def HMAC_CTX_init_def key_bytes_def)
next
  case False
  then show ?thesis by (intro exI [of _ EVP_MD_CTX_init])
    (simp add: hmac_key_def block_64 EVP_MAX_MD_BLOCK_SIZE_def HMAC_CTX_init_def key_bytes_def)
qed

lemma hmac_pad_value:
  assumes "fresh_or md mem c"
  shows "\<exists>c'. hmac_pad mem md x (key_bytes H key @ replicate (EVP_MAX_MD_BLOCK_SIZE - length (key_bytes H key)) 0) c = Some (True, c') \<and>
    ctx_at alg md (map (\<lambda>b. x XOR b) (padded H key)) c'"
proof -
  obtain c1 where c1: "EVP_DigestInit_ex mem c md = Some (True, c1)" "ctx_at alg md [] c1" using init_at [OF assms] by blast
  have l: "length (map (\<lambda>b. x XOR b) (padded H key)) < 2 ^ 64" by (simp add: length_padded)
  from update_at [OF c1(2) l] show ?thesis unfolding hmac_pad_def block_64 pad_take Let_def using c1(1) by auto
qed

lemma hmac_key_fails:
  assumes "length key > 64" "\<not> mem 0"
  shows "\<exists>c. hmac_key mem md key HMAC_CTX_init = Some (None, c)"
  using assms by (simp add: hmac_key_def block_64 EVP_MAX_MD_BLOCK_SIZE_def HMAC_CTX_init_def EVP_DigestInit_ex_def EVP_MD_CTX_init_def)

lemma hmac_pad_fails: "\<not> mem \<Longrightarrow> \<exists>c. hmac_pad mem md x k EVP_MD_CTX_init = Some (False, c)"
  by (simp add: hmac_pad_def EVP_DigestInit_ex_def EVP_MD_CTX_init_def Let_def)

lemma hmac_init:
  assumes "length (case key of None \<Rightarrow> [] | Some k \<Rightarrow> k) < 2 ^ 64"
  defines "k \<equiv> case key of None \<Rightarrow> [] | Some k \<Rightarrow> k"
  shows "if allocs mem k then \<exists>c. HMAC_Init_ex mem HMAC_CTX_init key (Some md) = Some (True, c) \<and> hmac_at alg H md k [] c
    else \<exists>c. HMAC_Init_ex mem HMAC_CTX_init key (Some md) = Some (False, c)"
proof (cases "length k > 64 \<longrightarrow> mem 0")
  case False
  then obtain c where "hmac_key mem md k HMAC_CTX_init = Some (None, c)" using hmac_key_fails by blast
  then show ?thesis using False unfolding HMAC_Init_ex_def k_def [symmetric] by (simp add: allocs_def HMAC_CTX_init_def)
next
  case True
  have fr: "fresh_or md b EVP_MD_CTX_init = b" for b by (auto simp: fresh_or_def owns_def EVP_MD_CTX_init_def)
  obtain c0 where c0: "hmac_key mem md k HMAC_CTX_init = Some (Some (key_bytes H k), HMAC_CTX_init\<lparr>md_ctx := c0\<rparr>)"
    "if length k > 64 then owns md c0 else c0 = EVP_MD_CTX_init" using hmac_key_value [of k mem] assms(1) True by (auto simp: k_def)
  let ?kb = "key_bytes H k @ replicate (EVP_MAX_MD_BLOCK_SIZE - length (key_bytes H k)) 0"
  have i: "i_ctx HMAC_CTX_init = EVP_MD_CTX_init" "o_ctx HMAC_CTX_init = EVP_MD_CTX_init" "hmac_md HMAC_CTX_init = None"
    by (simp_all add: HMAC_CTX_init_def)
  show ?thesis
  proof (cases "mem 1")
    case F1: False
    then obtain c where "hmac_pad (mem 1) md 0x36 ?kb EVP_MD_CTX_init = Some (False, c)" using hmac_pad_fails by blast
    then show ?thesis using F1 c0 i unfolding HMAC_Init_ex_def k_def [symmetric] by (simp add: allocs_def)
  next
    case T1: True
    then obtain c1 where c1: "hmac_pad (mem 1) md 0x36 ?kb EVP_MD_CTX_init = Some (True, c1)" "ctx_at alg md (map (\<lambda>b. 0x36 XOR b) (padded H k)) c1"
      using hmac_pad_value [of True EVP_MD_CTX_init "0x36" k] fr by auto
    show ?thesis
    proof (cases "mem 2")
      case F2: False
      then obtain c where "hmac_pad (mem 2) md 0x5c ?kb EVP_MD_CTX_init = Some (False, c)" using hmac_pad_fails by blast
      then show ?thesis using F2 T1 c1 c0 i unfolding HMAC_Init_ex_def k_def [symmetric] by (simp add: allocs_def)
    next
      case T2: True
      then obtain c2 where c2: "hmac_pad (mem 2) md 0x5c ?kb EVP_MD_CTX_init = Some (True, c2)" "ctx_at alg md (map (\<lambda>b. 0x5c XOR b) (padded H k)) c2"
        using hmac_pad_value [of True EVP_MD_CTX_init "0x5c" k] fr by auto
      have e: "HMAC_Init_ex mem HMAC_CTX_init key (Some md) = do { (ok, c) \<leftarrow> EVP_MD_CTX_copy_ex (mem 3) c0 c1;
          Some (ok, HMAC_CTX_init\<lparr>i_ctx := c1, o_ctx := c2, hmac_md := Some md, md_ctx := c\<rparr>) }"
        using T1 T2 c1 c2 c0 i unfolding HMAC_Init_ex_def k_def [symmetric] by simp
      show ?thesis
      proof (cases "length k > 64 \<or> mem 3")
        case T3: True
        then have "fresh_or md (mem 3) c0" using c0(2) by (auto simp: fresh_or_def owns_def EVP_MD_CTX_init_def split: if_splits)
        then obtain c where c: "EVP_MD_CTX_copy_ex (mem 3) c0 c1 = Some (True, c)" "ctx_at alg md (map (\<lambda>b. 0x36 XOR b) (padded H k)) c"
          using copy_at c1(2) by blast
        then show ?thesis unfolding e using T1 T2 T3 True c1 c2 ctx_at_owns by (auto simp: allocs_def hmac_at_def keyed_def)
      next
        case F3: False
        then have "EVP_MD_CTX_copy_ex (mem 3) c0 c1 = Some (False, c0)"
          using c0(2) c1(2) by (simp add: EVP_MD_CTX_copy_ex_def EVP_MD_CTX_init_def ctx_at_def)
        then show ?thesis unfolding e using F3 by (simp add: allocs_def)
      qed
    qed
  qed
qed

text \<open>Rewinding needs no allocation.\<close>

lemma hmac_rewind:
  assumes "keyed alg H md key ctx"
  shows "\<exists>c. HMAC_Init_ex mem ctx None None = Some (True, c) \<and> hmac_at alg H md key [] c"
proof -
  have k: "hmac_md ctx = Some md" "fresh_or md (mem 3) (md_ctx ctx)" "ctx_at alg md (map (\<lambda>b. 0x36 XOR b) (padded H key)) (i_ctx ctx)"
    using assms by (simp_all add: keyed_def fresh_or_def)
  obtain c where "EVP_MD_CTX_copy_ex (mem 3) (md_ctx ctx) (i_ctx ctx) = Some (True, c)" "ctx_at alg md (map (\<lambda>b. 0x36 XOR b) (padded H key)) c"
    using copy_at [OF k(2,3)] by blast
  then show ?thesis using assms k(1) ctx_at_owns by (auto simp: HMAC_Init_ex_def hmac_at_def keyed_def)
qed

lemma hmac_update:
  assumes "hmac_at alg H md key m ctx" "length p < 2 ^ 64"
  shows "\<exists>c. HMAC_Update p ctx = Some (True, c) \<and> hmac_at alg H md key (m @ p) c"
proof -
  obtain c where "EVP_DigestUpdate p (md_ctx ctx) = Some (True, c)" "ctx_at alg md (map (\<lambda>b. 0x36 XOR b) (padded H key) @ m @ p) c"
    using update_at [of "map (\<lambda>b. 0x36 XOR b) (padded H key) @ m" "md_ctx ctx" p] assms by (auto simp: hmac_at_def)
  then show ?thesis using assms(1) ctx_at_owns by (auto simp: HMAC_Update_def hmac_at_def keyed_def)
qed

lemma hmac_final:
  assumes "hmac_at alg H md key m ctx"
  shows "\<exists>c. HMAC_Final mem ctx = Some (Some (hmac H 64 key m), c) \<and> keyed alg H md key c"
proof -
  let ?i = "map (\<lambda>b. 0x36 XOR b) (padded H key)" and ?o = "map (\<lambda>b. 0x5c XOR b) (padded H key)"
  have a: "ctx_at alg md (?i @ m) (md_ctx ctx)" "ctx_at alg md ?o (o_ctx ctx)" using assms by (simp_all add: hmac_at_def keyed_def)
  obtain c1 where c1: "EVP_DigestFinal_ex (md_ctx ctx) = Some (H (?i @ m), c1)" "owns md c1" using final_at [OF a(1)] by blast
  have "fresh_or md mem c1" using c1(2) by (simp add: fresh_or_def)
  then obtain c2 where c2: "EVP_MD_CTX_copy_ex mem c1 (o_ctx ctx) = Some (True, c2)" "ctx_at alg md ?o c2" using copy_at a(2) by blast
  have "length (H (?i @ m)) < 2 ^ 64" using size_64 by (simp add: hash_length)
  then obtain c3 where c3: "EVP_DigestUpdate (H (?i @ m)) c2 = Some (True, c3)" "ctx_at alg md (?o @ H (?i @ m)) c3" using update_at [OF c2(2)] by blast
  obtain c4 where "EVP_DigestFinal_ex c3 = Some (H (?o @ H (?i @ m)), c4)" "owns md c4" using final_at [OF c3(2)] by blast
  then show ?thesis using assms c1 c2 c3 by (simp add: HMAC_Final_def hmac_padded hmac_at_def keyed_def)
qed

lemma HMAC_value:
  assumes "length (case key of None \<Rightarrow> [] | Some k \<Rightarrow> k) < 2 ^ 64" "length dat < 2 ^ 64"
  defines "k \<equiv> case key of None \<Rightarrow> [] | Some k \<Rightarrow> k"
  shows "HMAC mem md key dat = Some (if allocs mem k then Some (hmac H 64 k dat) else None)"
proof (cases "allocs mem k")
  case True
  then obtain c where c: "HMAC_Init_ex mem HMAC_CTX_init key (Some md) = Some (True, c)" "hmac_at alg H md k [] c"
    using hmac_init [OF assms(1), of mem] by (auto simp: k_def)
  obtain c' where c': "HMAC_Update dat c = Some (True, c')" "hmac_at alg H md k dat c'" using hmac_update [OF c(2) assms(2)] by auto
  obtain c'' where "HMAC_Final (mem 4) c' = Some (Some (hmac H 64 k dat), c'')" using hmac_final [OF c'(2)] by blast
  then show ?thesis using True c c' by (simp add: HMAC_def)
next
  case False
  then obtain c where "HMAC_Init_ex mem HMAC_CTX_init key (Some md) = Some (False, c)"
    using hmac_init [OF assms(1), of mem] by (auto simp: k_def)
  then show ?thesis using False by (simp add: HMAC_def)
qed

lemma length_hmac: "length (hmac H 64 key m) = EVP_MD_size md"
  by (simp add: hmac_padded hash_length)

section \<open>HKDF\<close>

lemma length_T: "length (hkdf_T (hmac H 64 key) info i) = (if i = 0 then 0 else EVP_MD_size md)"
  by (cases i) (simp_all add: length_hmac)

text \<open>The state of the loop in front of round \<open>i\<close>.\<close>

lemma hkdf_round_value:
  assumes "length info < 2 ^ 64" "if i = 0 then hmac_at alg H md key [] c else keyed alg H md key c"
  shows "\<exists>c'. hkdf_round info i (hkdf_T (hmac H 64 key) info i) c = Some (Some (hkdf_T (hmac H 64 key) info (Suc i)), c') \<and> keyed alg H md key c'"
proof -
  let ?T = "hkdf_T (hmac H 64 key) info"
  have lT: "length (?T i) < 2 ^ 64" using size_64 by (simp add: length_T)
  have "\<exists>c1. (if i \<noteq> 0 then do {
         (ok, hmac) \<leftarrow> HMAC_Init_ex (\<lambda>_. False) c None None;
         if \<not> ok then Some (False, hmac) else HMAC_Update (?T i) hmac }
       else Some (True, c)) = Some (True, c1) \<and> hmac_at alg H md key (?T i) c1"
  proof (cases "i = 0")
    case False
    then obtain c0 where c0: "HMAC_Init_ex (\<lambda>_. False) c None None = Some (True, c0)" "hmac_at alg H md key [] c0"
      using hmac_rewind assms(2) by force
    then show ?thesis using False hmac_update [OF c0(2) lT] by simp
  qed (use assms(2) in simp)
  then obtain c1 where c1: "(if i \<noteq> 0 then do {
         (ok, hmac) \<leftarrow> HMAC_Init_ex (\<lambda>_. False) c None None;
         if \<not> ok then Some (False, hmac) else HMAC_Update (?T i) hmac }
       else Some (True, c)) = Some (True, c1)" "hmac_at alg H md key (?T i) c1" by blast
  obtain c2 where c2: "HMAC_Update info c1 = Some (True, c2)" "hmac_at alg H md key (?T i @ info) c2"
    using hmac_update [OF c1(2) assms(1)] by blast
  have "length [word_of_nat (i + 1) :: u8] < 2 ^ 64" by simp
  from hmac_update [OF c2(2) this] obtain c3 where c3: "HMAC_Update [word_of_nat (i + 1)] c2 = Some (True, c3)"
    "hmac_at alg H md key ((?T i @ info) @ [word_of_nat (i + 1)]) c3" by blast
  obtain c4 where "HMAC_Final False c3 = Some (Some (?T (Suc i)), c4)" "keyed alg H md key c4" using hmac_final [OF c3(2), of False] by auto
  then show ?thesis unfolding hkdf_round_def Let_def c1(1) using c2(1) c3(1) by simp
qed

lemma concat_T_length: "length (concat (map (hkdf_T (hmac H 64 key) info) [1..<Suc i])) = i * EVP_MD_size md"
  by (induction i) (simp_all add: length_T length_hmac)

lemma hkdf_rounds_value:
  assumes info: "length info < 2 ^ 64" and L: "L + EVP_MD_size md < 2 ^ 64" and n: "n = (L + EVP_MD_size md - 1) div EVP_MD_size md"
  shows "i \<le> n \<Longrightarrow> if i = 0 then hmac_at alg H md key [] c else keyed alg H md key c \<Longrightarrow>
    hkdf_rounds (word_of_nat L) (EVP_MD_size md) info [i..<n] (take L (concat (map (hkdf_T (hmac H 64 key) info) [1..<Suc i])))
      (hkdf_T (hmac H 64 key) info i) c = Some (Some (take L (concat (map (hkdf_T (hmac H 64 key) info) [1..<Suc n]))))"
proof (induction "n - i" arbitrary: i c)
  case 0
  then show ?case by simp
next
  case (Suc k)
  let ?T = "hkdf_T (hmac H 64 key) info" and ?d = "EVP_MD_size md"
  let ?out = "\<lambda>j. concat (map ?T [1..<Suc j])"
  have d: "0 < ?d" by (cases md) simp_all
  have i: "i < n" using Suc.hyps(2) by simp
  then have "i + 1 \<le> (L + ?d - 1) div ?d" unfolding n by simp
  then have "(i + 1) * ?d \<le> L + ?d - 1" using d by (simp add: less_eq_div_iff_mult_less_eq)
  then have iL: "i * ?d < L" using d by (simp add: algebra_simps)
  have len: "length (take L (?out i)) = i * ?d" unfolding length_take concat_T_length using iL by simp
  have tk: "take L (?out i) = ?out i" using len iL concat_T_length by simp
  have L64: "L < 2 ^ 64" using L by simp
  define dn where "dn = (word_of_nat (i * ?d) :: u64)"
  define w where "w = (word_of_nat ?d :: u64)"
  have u: "unat dn = i * ?d" "unat w = ?d" "unat (word_of_nat L :: u64) = L"
    unfolding dn_def w_def by (rule unat_of_nat_u64; use iL L in linarith)+
  have s: "unat (dn + w) = i * ?d + ?d" using u iL L by (simp add: unat_word_ariths)
  have todo: "unat (if dn + w > word_of_nat L then word_of_nat L - dn else w) = min ?d (L - i * ?d)"
  proof (cases "i * ?d + ?d > L")
    case True
    then have "dn + w > word_of_nat L" unfolding word_less_nat_alt s u(3) .
    moreover have "dn \<le> word_of_nat L" unfolding word_le_nat_alt u using iL by simp
    ultimately show ?thesis using True u by (simp add: unat_sub)
  next
    case False
    then have "\<not> dn + w > word_of_nat L" unfolding word_less_nat_alt s u(3) .
    then show ?thesis using False u by simp
  qed
  obtain c' where c': "hkdf_round info i (?T i) c = Some (Some (?T (Suc i)), c')" "keyed alg H md key c'"
    using hkdf_round_value [OF info Suc.prems(2)] by blast
  have "?out i @ take (min ?d (L - i * ?d)) (?T (Suc i)) = take L (?out (Suc i))"
  proof -
    have "?out (Suc i) = ?out i @ ?T (Suc i)" by simp
    moreover have "take (min ?d (L - i * ?d)) (?T (Suc i)) = take (L - i * ?d) (?T (Suc i))"
      using length_T [of key info "Suc i"] by (auto simp: min_def)
    ultimately show ?thesis using concat_T_length iL by (simp del: upt_Suc hkdf_T.simps add: take_append)
  qed
  then have step: "take L (?out i) @ take (unat (if dn + w > word_of_nat L then word_of_nat L - dn else w)) (?T (Suc i)) = take L (?out (Suc i))"
    unfolding tk todo .
  have ih: "hkdf_rounds (word_of_nat L) ?d info [Suc i..<n] (take L (?out (Suc i))) (?T (Suc i)) c' = Some (Some (take L (?out n)))"
    by (rule Suc.hyps(1)) (use Suc.hyps(2) i c'(2) in simp_all)
  have "[i..<n] = i # [Suc i..<n]" using i by (simp add: upt_conv_Cons)
  then show ?case
    by (simp only: hkdf_rounds.simps c'(1) Option.bind.simps prod.case option.case Let_def len dn_def [symmetric] w_def [symmetric] step ih)
qed

lemma HKDF_expand_value:
  assumes "length prk < 2 ^ 64" "length info < 2 ^ 64" "L < 2 ^ 64"
  shows "HKDF_expand mem (word_of_nat L) md prk info =
    Some (if L \<le> 255 * EVP_MD_size md \<and> allocs mem prk then Some (hkdf_okm (hmac H 64 prk) (EVP_MD_size md) info L) else None)"
proof -
  let ?d = "EVP_MD_size md"
  have d: "0 < ?d" by (cases md) simp_all
  define n where "n = (L + ?d - 1) div ?d"
  define w where "w = (word_of_nat ?d :: u64)"
  have u: "unat w = ?d" "unat (word_of_nat L :: u64) = L" using size_64 assms(3) unfolding w_def by (simp_all add: unat_of_nat_u64)
  show ?thesis
  proof (cases "L + ?d < 2 ^ 64")
    case False
    then have "word_of_nat L + w < word_of_nat L" using u size_64 assms(3)
      by (simp add: word_less_nat_alt unat_word_ariths le_mod_geq)
    moreover have "\<not> L \<le> 255 * ?d" using False size_64 by simp
    ultimately show ?thesis by (simp add: HKDF_expand_def Let_def w_def)
  next
    case True
    have s: "unat (word_of_nat L + w) = L + ?d" using True u by (simp add: unat_word_ariths)
    then have nw: "\<not> word_of_nat L + w < word_of_nat L" using u by (simp add: word_less_nat_alt)
    have "1 \<le> word_of_nat L + w" using s d by (simp add: word_le_nat_alt)
    then have "unat (word_of_nat L + w - 1) = L + ?d - 1" using s by (simp add: unat_sub)
    then have nn: "unat ((word_of_nat L + w - 1) div w) = n" using u by (simp add: unat_div n_def)
    have nL: "n > 255 \<longleftrightarrow> \<not> L \<le> 255 * ?d"
    proof -
      have "n > 255 \<longleftrightarrow> 256 \<le> (L + ?d - 1) div ?d" by (auto simp: n_def)
      also have "\<dots> \<longleftrightarrow> 256 * ?d \<le> L + ?d - 1" using d by (rule less_eq_div_iff_mult_less_eq)
      finally show ?thesis using d by auto
    qed
    have n255: "(word_of_nat L + w - 1) div w > 255 \<longleftrightarrow> n > 255" unfolding word_less_nat_alt nn by simp
    show ?thesis
    proof (cases "L \<le> 255 * ?d \<and> allocs mem prk")
      case ok: True
      then obtain c where c: "HMAC_Init_ex mem HMAC_CTX_init (Some prk) (Some md) = Some (True, c)" "hmac_at alg H md prk [] c"
        using hmac_init [of "Some prk" mem] assms(1) by auto
      have "hkdf_rounds (word_of_nat L) ?d info [0..<n] [] [] c = Some (Some (hkdf_okm (hmac H 64 prk) ?d info L))"
        using hkdf_rounds_value [OF assms(2) True n_def, of 0 prk c] c(2) by (simp add: hkdf_okm_def n_def)
      then show ?thesis using ok c(1) nw n255 nL nn by (simp add: HKDF_expand_def Let_def w_def)
    next
      case bad: False
      show ?thesis
      proof (cases "L \<le> 255 * ?d")
        case l: True
        then obtain c where "HMAC_Init_ex mem HMAC_CTX_init (Some prk) (Some md) = Some (False, c)"
          using hmac_init [of "Some prk" mem] assms(1) bad by auto
        then show ?thesis using l bad nw n255 nL by (simp add: HKDF_expand_def Let_def w_def)
      next
        case False
        then show ?thesis using n255 nL by (simp add: HKDF_expand_def Let_def w_def)
      qed
    qed
  qed
qed

end

section \<open>The five digests\<close>

fun evp_alg :: "EVP_MD \<Rightarrow> md32_alg" where
  "evp_alg EVP_md4 = md4_alg"
| "evp_alg EVP_md5 = md5_alg"
| "evp_alg EVP_sha1 = sha1_alg"
| "evp_alg EVP_sha224 = sha256_alg"
| "evp_alg EVP_sha256 = sha256_alg"

text \<open>The hash function that a name stands for.\<close>

fun evp_hash :: "EVP_MD \<Rightarrow> u8 list \<Rightarrow> u8 list" where
  "evp_hash EVP_md4 = md4_digest"
| "evp_hash EVP_md5 = md5_digest"
| "evp_hash EVP_sha1 = sha1_digest"
| "evp_hash EVP_sha224 = sha224_digest"
| "evp_hash EVP_sha256 = sha256_digest"

lemma length_digest_bytes: "length (digest_bytes big h) = 4 * length h"
  by (induction h) (simp_all add: digest_bytes_def)

lemma digest_lengths:
  "length (md4_digest m) = 16" "length (md5_digest m) = 16" "length (sha1_digest m) = 20"
  "length (sha224_digest m) = 28" "length (sha256_digest m) = 32"
  using md4.chain_length md5.chain_length sha1.chain_length sha256.chain_length
  by (simp_all add: md4_digest_def md5_digest_def sha1_digest_def sha224_digest_def sha256_digest_def length_digest_bytes
      SHA224_Init_def SHA256_Init_def)

interpretation evp_md4: evp_digest EVP_md4 md4_alg md4_digest
  by (unfold_locales, unfold md_method_init.simps md_low_final.simps, erule md4_pieces)
    (simp_all add: MD4_Update_def digest_lengths)

interpretation evp_md5: evp_digest EVP_md5 md5_alg md5_digest
  by (unfold_locales, unfold md_method_init.simps md_low_final.simps, erule md5_pieces)
    (simp_all add: MD5_Update_def digest_lengths)

interpretation evp_sha1: evp_digest EVP_sha1 sha1_alg sha1_digest
  by (unfold_locales, unfold md_method_init.simps md_low_final.simps, erule sha1_pieces)
    (simp_all add: SHA1_Update_def digest_lengths)

interpretation evp_sha224: evp_digest EVP_sha224 sha256_alg sha224_digest
  by (unfold_locales, unfold md_method_init.simps md_low_final.simps, erule sha224_pieces)
    (simp_all add: SHA224_Update_def [abs_def] SHA256_Update_def digest_lengths)

interpretation evp_sha256: evp_digest EVP_sha256 sha256_alg sha256_digest
  by (unfold_locales, unfold md_method_init.simps md_low_final.simps, erule sha256_pieces)
    (simp_all add: SHA256_Update_def digest_lengths)

lemma evp_digest_all: "evp_digest md (evp_alg md) (evp_hash md)"
  using evp_md4.evp_digest_axioms evp_md5.evp_digest_axioms evp_sha1.evp_digest_axioms evp_sha224.evp_digest_axioms
    evp_sha256.evp_digest_axioms by (cases md) simp_all

lemmas evp_init = evp_digest.hmac_init [OF evp_digest_all]
lemmas evp_rewind = evp_digest.hmac_rewind [OF evp_digest_all]
lemmas evp_update = evp_digest.hmac_update [OF evp_digest_all]
lemmas evp_final = evp_digest.hmac_final [OF evp_digest_all]
lemmas evp_HMAC = evp_digest.HMAC_value [OF evp_digest_all]
lemmas evp_expand = evp_digest.HKDF_expand_value [OF evp_digest_all]
lemmas evp_length = evp_digest.length_hmac [OF evp_digest_all]

section \<open>HMAC and HKDF\<close>

text \<open>Messages in pieces, one after the other on one context that is rewound in between.\<close>

fun hmac_updates :: "u8 list list \<Rightarrow> HMAC_CTX \<Rightarrow> HMAC_CTX option" where
  "hmac_updates [] c = Some c"
| "hmac_updates (p # ps) c = do { (ok, c) \<leftarrow> HMAC_Update p c; if ok then hmac_updates ps c else None }"

fun hmac_runs :: "u8 list list list \<Rightarrow> HMAC_CTX \<Rightarrow> u8 list list option" where
  "hmac_runs [] c = Some []"
| "hmac_runs (ps # rs) c = do {
     c \<leftarrow> hmac_updates ps c;
     (mac, c) \<leftarrow> HMAC_Final False c;
     mac \<leftarrow> mac;
     (ok, c) \<leftarrow> HMAC_Init_ex (\<lambda>_. False) c None None;
     macs \<leftarrow> (if ok then hmac_runs rs c else None);
     Some (mac # macs) }"

lemma hmac_updates_at:
  "hmac_at (evp_alg md) (evp_hash md) md key m c \<Longrightarrow> \<forall>p \<in> set ps. length p < 2 ^ 64 \<Longrightarrow>
    \<exists>c'. hmac_updates ps c = Some c' \<and> hmac_at (evp_alg md) (evp_hash md) md key (m @ concat ps) c'"
proof (induction ps arbitrary: m c)
  case (Cons p ps)
  then obtain c1 where c1: "HMAC_Update p c = Some (True, c1)" "hmac_at (evp_alg md) (evp_hash md) md key (m @ p) c1"
    using evp_update [OF Cons.prems(1), of p] by auto
  show ?case using Cons.IH [OF c1(2)] Cons.prems(2) c1(1) by simp
qed simp

lemma hmac_runs_value:
  "hmac_at (evp_alg md) (evp_hash md) md key [] c \<Longrightarrow> \<forall>ps \<in> set rs. \<forall>p \<in> set ps. length p < 2 ^ 64 \<Longrightarrow>
    hmac_runs rs c = Some (map (\<lambda>ps. hmac (evp_hash md) 64 key (concat ps)) rs)"
proof (induction rs arbitrary: c)
  case (Cons ps rs)
  obtain c1 where c1: "hmac_updates ps c = Some c1" "hmac_at (evp_alg md) (evp_hash md) md key (concat ps) c1"
    using hmac_updates_at [OF Cons.prems(1), of ps] Cons.prems(2) by auto
  obtain c2 where c2: "HMAC_Final False c1 = Some (Some (hmac (evp_hash md) 64 key (concat ps)), c2)"
    "keyed (evp_alg md) (evp_hash md) md key c2" using evp_final [OF c1(2)] by blast
  obtain c3 where c3: "HMAC_Init_ex (\<lambda>_. False) c2 None None = Some (True, c3)" "hmac_at (evp_alg md) (evp_hash md) md key [] c3"
    using evp_rewind [OF c2(2)] by blast
  show ?case using Cons.IH [OF c3(2)] Cons.prems(2) c1(1) c2(1) c3(1) by simp
qed simp

text \<open>
  C34. HMAC over MD4, MD5, SHA-1, SHA-224 and SHA-256 is that of RFC 2104. Keying a context, with a key of any
  length, succeeds exactly if its allocations do; then any number of messages, each in any pieces, get their
  codes on that context, which is rewound in between without an allocation. The one-shot function returns the
  code, or \<open>NULL\<close> if an allocation fails.
\<close>

theorem hmac_rfc2104:
  assumes "length key < 2 ^ 64" "\<forall>ps \<in> set rs. \<forall>p \<in> set ps. length p < 2 ^ 64" "length dat < 2 ^ 64"
  shows "(case HMAC_Init_ex mem HMAC_CTX_init (Some key) (Some md) of
       Some (True, c) \<Rightarrow> allocs mem key \<and> hmac_runs rs c = Some (map (\<lambda>ps. hmac (evp_hash md) (EVP_MD_block_size md) key (concat ps)) rs)
     | Some (False, c) \<Rightarrow> \<not> allocs mem key
     | None \<Rightarrow> False) \<and>
    HMAC mem md (Some key) dat = Some (if allocs mem key then Some (hmac (evp_hash md) (EVP_MD_block_size md) key dat) else None)"
proof -
  have b: "EVP_MD_block_size md = 64" by (rule evp_digest.block_64 [OF evp_digest_all])
  have "HMAC mem md (Some key) dat = Some (if allocs mem key then Some (hmac (evp_hash md) 64 key dat) else None)"
    using evp_HMAC [where key = "Some key" and dat = dat and mem = mem and md = md] assms(1,3) by simp
  moreover have "case HMAC_Init_ex mem HMAC_CTX_init (Some key) (Some md) of
       Some (True, c) \<Rightarrow> allocs mem key \<and> hmac_runs rs c = Some (map (\<lambda>ps. hmac (evp_hash md) 64 key (concat ps)) rs)
     | Some (False, c) \<Rightarrow> \<not> allocs mem key | None \<Rightarrow> False"
    using evp_init [where key = "Some key" and mem = mem and md = md] assms(1) hmac_runs_value [OF _ assms(2), of md key] by (auto split: if_splits)
  ultimately show ?thesis unfolding b by blast
qed

lemma hmac_rfc2104_witness:
  "HMAC (\<lambda>_. True) EVP_sha256 (Some [0x4a, 0x65]) [0x68, 0x69] = Some (Some (hmac sha256_digest 64 [0x4a, 0x65] [0x68, 0x69])) \<and>
    (\<exists>c. HMAC_Init_ex (\<lambda>_. True) HMAC_CTX_init (Some [0x4a, 0x65]) (Some EVP_sha256) = Some (True, c) \<and>
      hmac_runs [[[0x68], [0x69]], []] c = Some [hmac sha256_digest 64 [0x4a, 0x65] [0x68, 0x69], hmac sha256_digest 64 [0x4a, 0x65] []])"
  using hmac_rfc2104 [of "[0x4a, 0x65]" "[[[0x68], [0x69]], []]" "[0x68, 0x69]" "\<lambda>_. True" EVP_sha256]
  by (auto simp: allocs_def split: option.splits prod.splits bool.splits)

text \<open>
  C35. \<open>HKDF\<close> over these digests is the key derivation of RFC 5869 (a missing salt is the empty key). It fails exactly if
  more than 255 blocks are asked for, which includes lengths on which the code's computation of the number of
  blocks wraps around, or if an allocation of one of its two keyed contexts fails.
\<close>

theorem hkdf_rfc5869:
  fixes salt :: "u8 list option" and secret info :: "u8 list" and md :: EVP_MD
  assumes "length secret < 2 ^ 64" "length (case salt of None \<Rightarrow> [] | Some s \<Rightarrow> s) < 2 ^ 64" "length info < 2 ^ 64"
  defines "s \<equiv> case salt of None \<Rightarrow> [] | Some s \<Rightarrow> s"
  defines "prk \<equiv> hmac (evp_hash md) (EVP_MD_block_size md) s secret"
  shows "HKDF mem mem' out_len md secret salt info =
    Some (if unat out_len \<le> 255 * EVP_MD_size md \<and> allocs mem s \<and> allocs mem' prk
      then Some (hkdf_okm (hmac (evp_hash md) (EVP_MD_block_size md) prk) (EVP_MD_size md) info (unat out_len)) else None)"
proof -
  have b: "EVP_MD_block_size md = 64" by (rule evp_digest.block_64 [OF evp_digest_all])
  have h: "HMAC mem md salt secret = Some (if allocs mem s then Some prk else None)"
    using evp_HMAC [OF assms(2,1), where mem = mem and md = md] by (simp add: s_def prk_def b)
  have l: "length prk = EVP_MD_size md" unfolding prk_def b by (rule evp_length)
  have "EVP_MD_size md \<le> 64" by (rule evp_digest.size_64 [OF evp_digest_all])
  then have "length prk < 2 ^ 64" unfolding l by simp
  then show ?thesis using h l evp_expand [where prk = prk and info = info and L = "unat out_len" and mem = mem' and md = md] assms(3) unat_u64_less [of out_len]
    by (simp add: HKDF_def HKDF_extract_def b)
qed

lemma hkdf_rfc5869_witness:
  "HKDF (\<lambda>_. True) (\<lambda>_. True) 42 EVP_sha256 [0x0b] None [] =
    Some (Some (hkdf_okm (hmac sha256_digest 64 (hmac sha256_digest 64 [] [0x0b])) 32 [] 42)) \<and>
    HKDF (\<lambda>_. True) (\<lambda>_. True) 0xfffffffffffffff8 EVP_md5 [0x0b] None [] = Some None"
  using hkdf_rfc5869 [of "[0x0b]" None "[]" "\<lambda>_. True" "\<lambda>_. True" 42 EVP_sha256]
    hkdf_rfc5869 [of "[0x0b]" None "[]" "\<lambda>_. True" "\<lambda>_. True" "0xfffffffffffffff8" EVP_md5]
  by (simp add: allocs_def)

end
