(* ===== verification/Ber.thy ===== *)
theory Ber
  imports Cbb_Asn1
begin

text \<open>
  BoringSSL: the conversion of BER to DER, \<open>crypto/bytestring/ber.c\<close>. A function that reads from a \<open>CBS\<close> and
  writes to a \<open>CBB\<close> returns its flag, the \<open>CBS\<close> and the \<open>CBB\<close>. The recursions of the code, over the elements
  and into their contents, take fuel, one unit for an element that is read; \<open>None\<close> is exhausted fuel,
  a violated \<open>assert\<close> or what the \<open>CBB\<close> functions leave undefined. The recursion depth is a natural
  number, it stays below 2050.
\<close>

definition kMaxDepth :: nat where "kMaxDepth = 2048"

definition CBS_ASN1_BITSTRING :: u32 where "CBS_ASN1_BITSTRING = 0x3"
definition CBS_ASN1_UTF8STRING :: u32 where "CBS_ASN1_UTF8STRING = 0xc"
definition CBS_ASN1_NUMERICSTRING :: u32 where "CBS_ASN1_NUMERICSTRING = 0x12"
definition CBS_ASN1_PRINTABLESTRING :: u32 where "CBS_ASN1_PRINTABLESTRING = 0x13"
definition CBS_ASN1_T61STRING :: u32 where "CBS_ASN1_T61STRING = 0x14"
definition CBS_ASN1_VIDEOTEXSTRING :: u32 where "CBS_ASN1_VIDEOTEXSTRING = 0x15"
definition CBS_ASN1_IA5STRING :: u32 where "CBS_ASN1_IA5STRING = 0x16"
definition CBS_ASN1_GRAPHICSTRING :: u32 where "CBS_ASN1_GRAPHICSTRING = 0x19"
definition CBS_ASN1_VISIBLESTRING :: u32 where "CBS_ASN1_VISIBLESTRING = 0x1a"
definition CBS_ASN1_GENERALSTRING :: u32 where "CBS_ASN1_GENERALSTRING = 0x1b"
definition CBS_ASN1_UNIVERSALSTRING :: u32 where "CBS_ASN1_UNIVERSALSTRING = 0x1c"
definition CBS_ASN1_BMPSTRING :: u32 where "CBS_ASN1_BMPSTRING = 0x1e"

definition is_string_type :: "u32 \<Rightarrow> bool" where
  "is_string_type tag \<longleftrightarrow> tag AND NOT CBS_ASN1_CONSTRUCTED \<in> set [CBS_ASN1_BITSTRING, CBS_ASN1_OCTETSTRING,
     CBS_ASN1_UTF8STRING, CBS_ASN1_NUMERICSTRING, CBS_ASN1_PRINTABLESTRING, CBS_ASN1_T61STRING, CBS_ASN1_VIDEOTEXSTRING,
     CBS_ASN1_IA5STRING, CBS_ASN1_GRAPHICSTRING, CBS_ASN1_VISIBLESTRING, CBS_ASN1_GENERALSTRING, CBS_ASN1_UNIVERSALSTRING,
     CBS_ASN1_BMPSTRING]"

text \<open>The header is the whole element and ends with \<open>0x80\<close>.\<close>

definition is_indefinite :: "u64 \<Rightarrow> cbs \<Rightarrow> bool" where
  "is_indefinite header_len contents \<longleftrightarrow>
     CBS_len contents = header_len \<and> header_len > 0 \<and> CBS_data contents ! unat (header_len - 1) = 0x80"

text \<open>
  The loop of \<open>cbs_find_ber\<close>, with \<open>*ber_found\<close> so far. \<open>None\<close> inside the result is the error, otherwise it is
  \<open>*ber_found\<close>, which the call for the contents of an element sets to zero first.
\<close>

primrec find_loop :: "nat \<Rightarrow> cbs \<Rightarrow> nat \<Rightarrow> bool \<Rightarrow> bool option option" where
  "find_loop 0 inn depth ber_found = None"
| "find_loop (Suc n) inn depth ber_found = (
     if length inn = 0 then Some (Some ber_found)
     else case CBS_get_any_ber_asn1_element inn of
       (None, inn) \<Rightarrow> Some None
     | (Some (contents, tag, header_len), inn) \<Rightarrow>
         if is_indefinite header_len contents then Some (Some True)
         else if tag AND CBS_ASN1_CONSTRUCTED \<noteq> 0 then
           if is_string_type tag then Some (Some True)
           else (case CBS_skip header_len contents of
             (None, contents) \<Rightarrow> Some None
           | (Some _, contents) \<Rightarrow> do {
               r \<leftarrow> (if depth + 1 > kMaxDepth then Some None else find_loop n contents (depth + 1) False);
               (case r of None \<Rightarrow> Some None | Some ber_found \<Rightarrow> find_loop n inn depth ber_found) })
         else find_loop n inn depth ber_found)"

definition cbs_find_ber :: "cbs \<Rightarrow> nat \<Rightarrow> bool option option" where
  "cbs_find_ber orig_in depth = (if depth > kMaxDepth then Some None else find_loop (Suc (length orig_in)) orig_in depth False)"

definition is_eoc :: "u64 \<Rightarrow> cbs \<Rightarrow> bool" where
  "is_eoc header_len contents \<longleftrightarrow> header_len = 2 \<and> CBS_len contents = 2 \<and> OPENSSL_memcmp (CBS_data contents) [0, 0] = 0"

text \<open>\<open>if (!f(out)) return 0; k\<close> for a writing function.\<close>

definition wr_then :: "cbb step \<Rightarrow> cbs \<Rightarrow> (cbb \<Rightarrow> (bool \<times> cbs \<times> cbb) option) \<Rightarrow> cbb \<Rightarrow> (bool \<times> cbs \<times> cbb) option" where
  "wr_then f inn k out = (case f out of None \<Rightarrow> None | Some (ok, out) \<Rightarrow> if ok then k out else Some (False, inn, out))"

text \<open>\<open>if (!f(in, out)) return 0; k\<close> for a conversion.\<close>

definition conv_then :: "(bool \<times> cbs \<times> cbb) option \<Rightarrow> (cbs \<Rightarrow> cbb \<Rightarrow> (bool \<times> cbs \<times> cbb) option) \<Rightarrow> (bool \<times> cbs \<times> cbb) option" where
  "conv_then r k = (case r of None \<Rightarrow> None | Some (ok, inn, out) \<Rightarrow> if ok then k inn out else Some (False, inn, out))"

text \<open>
  A conversion of the contents of an element, which are a \<open>CBS\<close> of their own: \<open>in\<close> is the input behind the element
  already, whatever happens to the contents.
\<close>

definition on_contents :: "cbs \<Rightarrow> (bool \<times> cbs \<times> cbb) option \<Rightarrow> (bool \<times> cbs \<times> cbb) option" where
  "on_contents inn r = map_option (\<lambda>(ok, contents, out). (ok, inn, out)) r"

text \<open>The loop of \<open>cbs_convert_ber\<close>; \<open>d\<close> is the place of \<open>out\<close> in the chain of \<open>CBB\<close> objects.\<close>

primrec convert_loop :: "mem \<Rightarrow> nat \<Rightarrow> u32 \<Rightarrow> bool \<Rightarrow> nat \<Rightarrow> nat \<Rightarrow> cbs \<Rightarrow> cbb \<Rightarrow> (bool \<times> cbs \<times> cbb) option" where
  "convert_loop mem 0 string_tag looking_for_eoc depth d inn out = None"
| "convert_loop mem (Suc n) string_tag looking_for_eoc depth d inn out = (
     if length inn = 0 then Some (\<not> looking_for_eoc, inn, out)
     else case CBS_get_any_ber_asn1_element inn of
       (None, inn) \<Rightarrow> Some (False, inn, out)
     | (Some (contents, tag, header_len), inn) \<Rightarrow>
       if is_eoc header_len contents then Some (looking_for_eoc, inn, out)
       else if string_tag \<noteq> 0 \<and> tag AND NOT CBS_ASN1_CONSTRUCTED \<noteq> string_tag then Some (False, inn, out)
       else let constructed_string = (tag AND CBS_ASN1_CONSTRUCTED \<noteq> 0 \<and> is_string_type tag);
           out_tag = (if constructed_string then tag AND NOT CBS_ASN1_CONSTRUCTED else tag);
           child_string_tag = (if string_tag = 0 \<and> constructed_string then out_tag else string_tag);
           out_contents = (if string_tag \<noteq> 0 then d else d + 1);
           child = (\<lambda>looking_for_eoc inn out.
             if child_string_tag AND CBS_ASN1_CONSTRUCTED \<noteq> 0 then None
             else if depth + 1 > kMaxDepth then Some (False, inn, out)
             else convert_loop mem n child_string_tag looking_for_eoc (depth + 1) out_contents inn out) in
         wr_then (if string_tag \<noteq> 0 then ret True else CBB_add_asn1 mem out_tag d) inn (\<lambda>out.
           if is_indefinite header_len contents then
             conv_then (child True inn out) (\<lambda>inn.
             wr_then (CBB_flush mem d) inn (convert_loop mem n string_tag looking_for_eoc depth d inn))
           else case CBS_skip header_len contents of
             (None, contents) \<Rightarrow> Some (False, inn, out)
           | (Some _, contents) \<Rightarrow>
               if tag AND CBS_ASN1_CONSTRUCTED \<noteq> 0 then
                 conv_then (on_contents inn (child False contents out)) (\<lambda>inn.
                 wr_then (CBB_flush mem d) inn (convert_loop mem n string_tag looking_for_eoc depth d inn))
               else
                 wr_then (CBB_add_bytes mem (CBS_data contents) out_contents) inn (
                 wr_then (CBB_flush mem d) inn (convert_loop mem n string_tag looking_for_eoc depth d inn)) out) out)"

definition cbs_convert_ber :: "mem \<Rightarrow> u32 \<Rightarrow> bool \<Rightarrow> nat \<Rightarrow> nat \<Rightarrow> cbs \<Rightarrow> cbb \<Rightarrow> (bool \<times> cbs \<times> cbb) option" where
  "cbs_convert_ber mem string_tag looking_for_eoc depth d inn out = (
     if string_tag AND CBS_ASN1_CONSTRUCTED \<noteq> 0 then None
     else if depth > kMaxDepth then Some (False, inn, out)
     else convert_loop mem (Suc (length inn)) string_tag looking_for_eoc depth d inn out)"

text \<open>
  The element and whether it is in a buffer of its own, \<open>None\<close> for the return value 0; the \<open>CBS\<close> that is left.
\<close>

definition CBS_asn1_ber_to_der :: "mem \<Rightarrow> cbs \<Rightarrow> ((cbs \<times> bool) option \<times> cbs) option" where
  "CBS_asn1_ber_to_der mem inn = do {
     r \<leftarrow> cbs_find_ber inn 0;
     (case r of
        None \<Rightarrow> Some (None, inn)
      | Some False \<Rightarrow> (case CBS_get_any_asn1_element inn of
            (None, inn) \<Rightarrow> Some (None, inn)
          | (Some (out, _), inn) \<Rightarrow> Some (Some (out, False), inn))
      | Some True \<Rightarrow> do {
          (ok, cbb) \<leftarrow> CBB_init mem (CBS_len inn);
          if \<not> ok then do { cbb \<leftarrow> CBB_cleanup 0 cbb; Some (None, inn) }
          else do {
            (ok, inn, cbb) \<leftarrow> cbs_convert_ber mem 0 False 0 0 inn cbb;
            if \<not> ok then do { cbb \<leftarrow> CBB_cleanup 0 cbb; Some (None, inn) }
            else do {
              (out_storage, cbb) \<leftarrow> CBB_finish mem False 0 cbb;
              (case out_storage of
                 None \<Rightarrow> do { cbb \<leftarrow> CBB_cleanup 0 cbb; Some (None, inn) }
               | Some out \<Rightarrow> Some (Some (out, True), inn)) } } }) }"

text \<open>The loop over the chunks; \<open>None\<close> when one is not a string or cannot be added.\<close>

primrec add_chunks :: "mem \<Rightarrow> nat \<Rightarrow> u32 \<Rightarrow> cbs \<Rightarrow> cbb step" where
  "add_chunks mem 0 inner_tag child result = None"
| "add_chunks mem (Suc n) inner_tag child result = (
     if length child = 0 then Some (True, result)
     else case CBS_get_asn1 inner_tag child of
       (None, child) \<Rightarrow> Some (False, result)
     | (Some chunk, child) \<Rightarrow>
         and_then (CBB_add_bytes mem (CBS_data chunk) 0) (add_chunks mem n inner_tag child) result)"

definition CBS_get_asn1_implicit_string :: "mem \<Rightarrow> u32 \<Rightarrow> u32 \<Rightarrow> cbs \<Rightarrow> ((cbs \<times> bool) option \<times> cbs) option" where
  "CBS_get_asn1_implicit_string mem outer_tag inner_tag inn = (
     if outer_tag AND CBS_ASN1_CONSTRUCTED \<noteq> 0 \<or> inner_tag AND CBS_ASN1_CONSTRUCTED \<noteq> 0 \<or> \<not> is_string_type inner_tag then None
     else if CBS_peek_asn1_tag inn outer_tag then
       (case CBS_get_asn1 outer_tag inn of (out, inn) \<Rightarrow> Some (map_option (\<lambda>out. (out, False)) out, inn))
     else do {
       (ok, result) \<leftarrow> CBB_init mem (CBS_len inn);
       if \<not> ok then do { result \<leftarrow> CBB_cleanup 0 result; Some (None, inn) }
       else case CBS_get_asn1 (outer_tag OR CBS_ASN1_CONSTRUCTED) inn of
         (None, inn) \<Rightarrow> do { result \<leftarrow> CBB_cleanup 0 result; Some (None, inn) }
       | (Some child, inn) \<Rightarrow> do {
           (ok, result) \<leftarrow> add_chunks mem (Suc (length child)) inner_tag child result;
           if \<not> ok then do { result \<leftarrow> CBB_cleanup 0 result; Some (None, inn) }
           else do {
             (dat, result) \<leftarrow> CBB_finish mem False 0 result;
             (case dat of
                None \<Rightarrow> do { result \<leftarrow> CBB_cleanup 0 result; Some (None, inn) }
              | Some dat \<Rightarrow> Some (Some (dat, True), inn)) } } })"

end
