(* ===== verification/Ber_Spec.thy ===== *)
theory Ber_Spec
  imports Ber Cbb_Asn1_Spec
begin

text \<open>
  The conversion of BER to DER against a grammar of BER: the inputs that are accepted for conversion are
  exactly the encodings of lists of trees of elements, and the output is the DER encoding of these trees, with
  definite lengths and with the fragments of constructed strings put together.
\<close>

section \<open>The reader of elements\<close>
lemma byte_0x80: "(b :: u8) AND 0x80 \<noteq> 0 \<and> (ucast (b AND 0x7F) :: u64) = 0 \<longleftrightarrow> b = 0x80"
proof
  assume a: "b AND 0x80 \<noteq> 0 \<and> (ucast (b AND 0x7F) :: u64) = 0"
  then have "unat (ucast (b AND 0x7F) :: u64) = 0" by (simp only: unat_0)
  then have "b AND 0x7F = 0" by (simp add: unsigned_ucast_eq unat_eq_zero)
  then show "b = 0x80" using byte_split(1) [of b] a by simp
qed simp

lemma ber_reader:
  "CBS_get_any_ber_asn1_element s = (case parse_asn1_tag s of
     (Some tag, b # h) \<Rightarrow> if b = 0x80 \<and> tag AND CBS_ASN1_CONSTRUCTED \<noteq> 0
       then (Some (der_tag tag @ [0x80], tag, word_of_nat (length (der_tag tag) + 1)), h)
       else CBS_get_any_asn1_element s
   | _ \<Rightarrow> CBS_get_any_asn1_element s)"
proof (cases "\<exists>tag b h. parse_asn1_tag s = (Some tag, b # h)")
  case True
  then obtain tag b h where p: "parse_asn1_tag s = (Some tag, b # h)" by blast
  note s = parse_tag_SomeD [OF p]
  have l: "CBS_len s - CBS_len h = word_of_nat (length (der_tag tag) + 1)" using header_len [OF s] by simp
  have u: "unat (word_of_nat (length (der_tag tag) + 1) :: u64) = length (der_tag tag) + 1"
    using length_der_tag(2) [of tag] by (intro unat_of_nat_u64) simp
  show ?thesis
  proof (cases "b = 0x80 \<and> tag AND CBS_ASN1_CONSTRUCTED \<noteq> 0")
    case True
    have "CBS_get_bytes (word_of_nat (length (der_tag tag) + 1)) s = (Some (der_tag tag @ [0x80]), h)"
      using get_bytes_append [of "der_tag tag @ [0x80]", OF _, of "word_of_nat (length (der_tag tag) + 1)" h] u s True by simp
    then show ?thesis
      using p True l unfolding CBS_get_any_ber_asn1_element_def cbs_get_any_asn1_element_def Let_def
      by (simp add: cbs_defs)
  next
    case False
    then have "\<not> (b AND 0x80 \<noteq> 0 \<and> tag AND CBS_ASN1_CONSTRUCTED \<noteq> 0 \<and> (ucast (b AND 0x7F) :: u64) = 0)"
      using byte_0x80 [of b] by blast
    then show ?thesis
      using p False unfolding CBS_get_any_ber_asn1_element_def CBS_get_any_asn1_element_def cbs_get_any_asn1_element_def Let_def
      by (auto split: option.splits prod.splits)
  qed
next
  case False
  obtain a h where "parse_asn1_tag s = (a, h)" by force
  with False show ?thesis
    by (cases a; cases h) (simp_all add: CBS_get_any_ber_asn1_element_def CBS_get_any_asn1_element_def cbs_get_any_asn1_element_def)
qed

lemma ber_read_cases:
  obtains s' where "CBS_get_any_ber_asn1_element s = (None, s')"
  | tag c r where "length c < 2 ^ 32" "s = der_header tag (length c) @ c @ r"
  | tag r where "tag AND CBS_ASN1_CONSTRUCTED \<noteq> 0" "s = der_tag tag @ 0x80 # r"
proof (cases "\<exists>tag r. tag AND CBS_ASN1_CONSTRUCTED \<noteq> 0 \<and> s = der_tag tag @ 0x80 # r")
  case True
  then show thesis using that(3) by blast
next
  case False
  then have "CBS_get_any_ber_asn1_element s = CBS_get_any_asn1_element s"
    unfolding ber_reader by (auto split: prod.split option.split list.split dest!: parse_tag_SomeD)
  then show thesis
    using that(1,2) any_element_SomeD [of s] by (cases "CBS_get_any_asn1_element s"; cases "fst (CBS_get_any_asn1_element s)") fastforce+
qed

lemma unat_header: "unat (word_of_nat (length (der_header tag n)) :: u64) = length (der_header tag n)"
  using length_der_header(2) [of tag n] by (intro unat_of_nat_u64) simp

lemma der_tag_ne: "der_tag tag \<noteq> []"
  using length_der_tag(1) [of tag] by auto

lemma read_definite:
  assumes "length c < 2 ^ 32"
  shows "CBS_get_any_ber_asn1_element (der_header tag (length c) @ c @ r) =
    (Some (der_header tag (length c) @ c, tag, word_of_nat (length (der_header tag (length c)))), r)"
proof -
  have h: "der_len (length c) = hd (der_len (length c)) # tl (der_len (length c))" "hd (der_len (length c)) \<noteq> 0x80"
  proof -
    show "der_len (length c) = hd (der_len (length c)) # tl (der_len (length c))" using length_der_len(1) [of "length c"] by (cases "der_len (length c)") simp_all
    have "(word_of_nat n :: u8) \<noteq> 0x80" if "n < 128" for n
    proof -
      have "unat (word_of_nat n :: u8) = n" using that by (simp add: unat_of_nat_u8)
      then have "unat (word_of_nat n :: u8) \<noteq> unat (0x80 :: u8)" using that by simp
      then show ?thesis by metis
    qed
    then show "hd (der_len (length c)) \<noteq> 0x80" by (simp add: der_len_def)
  qed
  have "parse_asn1_tag (der_header tag (length c) @ c @ r) = (Some tag, hd (der_len (length c)) # tl (der_len (length c)) @ c @ r)"
    using parse_tag [of tag "der_len (length c) @ c @ r"] h(1) by (simp add: der_header_def)
  then show ?thesis using h(2) any_element_encoding [OF assms] unfolding ber_reader by simp
qed


lemma length_definite:
  assumes "length c < 2 ^ 32" "n < 2 ^ 64"
  shows "CBS_len (der_header tag (length c) @ c) = word_of_nat n \<longleftrightarrow> length (der_header tag (length c)) + length c = n"
proof -
  have "unat (CBS_len (der_header tag (length c) @ c)) = length (der_header tag (length c)) + length c"
    unfolding CBS_len_def length_append [symmetric]
    using assms length_der_header(2) [of tag "length c"] by (intro unat_of_nat_u64) simp
  moreover have "unat (word_of_nat n :: u64) = n" using assms(2) by (rule unat_of_nat_u64)
  ultimately show ?thesis by (metis of_nat_unat_u64)
qed

lemma definite_not_indefinite:
  assumes "length c < 2 ^ 32"
  shows "\<not> is_indefinite (word_of_nat (length (der_header tag (length c)))) (der_header tag (length c) @ c)"
proof
  let ?h = "der_header tag (length c)"
  assume i: "is_indefinite (word_of_nat (length ?h)) (?h @ c)"
  have "length ?h < 2 ^ 64" using length_der_header(2) [of tag "length c"] by simp
  then have c: "c = []" using i length_definite [OF assms, of "length ?h" tag] by (simp add: is_indefinite_def)
  have "unat (word_of_nat (length ?h) - 1 :: u64) = length ?h - 1"
    using unat_header [of tag "length c"] length_der_header(1) [of tag "length c"] by (subst unat_sub) (simp_all add: word_le_nat_alt)
  then have "?h ! (length ?h - 1) = 0x80" using i c by (simp add: is_indefinite_def CBS_data_def)
  then show False using c by (simp add: der_header_def der_len_def)
qed

lemma skip_definite: "CBS_skip (word_of_nat (length (der_header tag n))) (der_header tag n @ c) = (Some (), c)"
  unfolding CBS_skip_def cbs_defs cbs_get_append [OF unat_header [symmetric]] by simp

lemma eoc_bytes:
  assumes "length el < 2 ^ 64"
  shows "is_eoc hl el \<longleftrightarrow> hl = 2 \<and> el = [0, 0]"
proof -
  have "unat (CBS_len el) = length el" unfolding CBS_len_def using assms by (rule unat_of_nat_u64)
  then have "CBS_len el = 2 \<longleftrightarrow> length el = 2" by (simp add: word_unat_eq_iff)
  then show ?thesis using memcmp_zero [of el "[0, 0]"] by (auto simp: is_eoc_def CBS_data_def)
qed

lemma eoc_definite:
  assumes "length c < 2 ^ 32"
  shows "is_eoc (word_of_nat (length (der_header tag (length c)))) (der_header tag (length c) @ c) \<longleftrightarrow> tag = 0 \<and> c = []"
proof -
  let ?h = "der_header tag (length c)"
  have l: "length (?h @ c) < 2 ^ 64" using assms length_der_header(2) [of tag "length c"] by simp
  show ?thesis
  proof
    assume "is_eoc (word_of_nat (length ?h)) (?h @ c)"
    then have z: "?h @ c = [0, 0]" unfolding eoc_bytes [OF l] by blast
    have "length (?h @ c) = 2" unfolding z by simp
    then have "length ?h + length c = 2" unfolding length_append .
    then have c: "c = []" using length_der_header(1) [of tag "length c"] by (cases c) simp_all
    have "[0, 0] = der_header 0 (length ([] :: u8 list)) @ []" by (simp add: der_header_def der_len_def der_tag_def tag_mask)
    with z c have "der_header tag (length []) @ [] @ [] = der_header 0 (length ([] :: u8 list)) @ [] @ []" by simp
    then show "tag = 0 \<and> c = []"
      using any_element_encoding [of "[]" tag "[]"] any_element_encoding [of "[]" 0 "[]"] c by simp
  next
    assume "tag = 0 \<and> c = []"
    then show "is_eoc (word_of_nat (length ?h)) (?h @ c)"
      unfolding eoc_bytes [OF l] by (simp add: der_header_def der_len_def der_tag_def tag_mask)
  qed
qed

lemma read_indefinite:
  assumes "tag AND CBS_ASN1_CONSTRUCTED \<noteq> 0"
  shows "CBS_get_any_ber_asn1_element (der_tag tag @ 0x80 # r) =
    (Some (der_tag tag @ [0x80], tag, word_of_nat (length (der_tag tag) + 1)), r)"
  unfolding ber_reader parse_tag using assms by simp

lemma indefinite_indefinite: "is_indefinite (word_of_nat (length (der_tag tag) + 1)) (der_tag tag @ [0x80])"
proof -
  have u: "unat (word_of_nat (length (der_tag tag) + 1) :: u64) = length (der_tag tag) + 1"
    using length_der_tag(2) [of tag] by (intro unat_of_nat_u64) simp
  moreover have "unat (word_of_nat (length (der_tag tag) + 1) - 1 :: u64) = length (der_tag tag)"
    using u by (subst unat_sub) (simp_all add: word_le_nat_alt del: of_nat_add)
  moreover have "(0 :: u64) < word_of_nat (length (der_tag tag) + 1)" using u by (simp add: word_less_nat_alt del: of_nat_add)
  ultimately show ?thesis by (simp add: is_indefinite_def CBS_len_def CBS_data_def)
qed

lemma indefinite_not_eoc: "\<not> is_eoc n (der_tag tag @ [0x80])"
  using length_der_tag [of tag] by (subst eoc_bytes) (auto simp: append_eq_Cons_conv)


section \<open>Trees of elements\<close>

text \<open>The flag of a constructed element tells the indefinite form.\<close>

datatype ber = Primitive u32 "u8 list" | Constructed u32 bool "ber list"

definition out_tag :: "u32 \<Rightarrow> u32" where
  "out_tag tag = (if tag AND CBS_ASN1_CONSTRUCTED \<noteq> 0 \<and> is_string_type tag then tag AND NOT CBS_ASN1_CONSTRUCTED else tag)"

definition child_tag :: "u32 \<Rightarrow> u32 \<Rightarrow> u32" where
  "child_tag string_tag tag = (if string_tag = 0 \<and> tag AND CBS_ASN1_CONSTRUCTED \<noteq> 0 \<and> is_string_type tag
     then tag AND NOT CBS_ASN1_CONSTRUCTED else string_tag)"

definition wrap :: "u32 \<Rightarrow> u32 \<Rightarrow> item list \<Rightarrow> item list" where
  "wrap string_tag tag is = (if string_tag \<noteq> 0 then is else [Element (out_tag tag) is])"

text \<open>The bytes of a tree, and what is written for it: inside a constructed string only the primitive contents.\<close>

fun ber_bytes :: "ber \<Rightarrow> u8 list" where
  "ber_bytes (Primitive tag c) = der_header tag (length c) @ c"
| "ber_bytes (Constructed tag indefinite ts) = (let c = concat (map ber_bytes ts) in
     if indefinite then der_tag tag @ 0x80 # c @ [0, 0] else der_header tag (length c) @ c)"

fun ber_items :: "u32 \<Rightarrow> ber \<Rightarrow> item list" where
  "ber_items string_tag (Primitive tag c) = wrap string_tag tag [Raw c]"
| "ber_items string_tag (Constructed tag indefinite ts) =
     wrap string_tag tag (concat (map (ber_items (child_tag string_tag tag)) ts))"

text \<open>
  The trees that can be converted, at a depth and inside a constructed string or not: no end-of-contents marks, contents below
  4 GB in definite elements, fragments of the string's type, limited depth.
\<close>

fun ber_ok :: "u32 \<Rightarrow> nat \<Rightarrow> ber \<Rightarrow> bool" where
  "ber_ok string_tag depth (Primitive tag c) \<longleftrightarrow> tag AND CBS_ASN1_CONSTRUCTED = 0 \<and> \<not> (tag = 0 \<and> c = []) \<and> length c < 2 ^ 32 \<and>
     (string_tag \<noteq> 0 \<longrightarrow> tag AND NOT CBS_ASN1_CONSTRUCTED = string_tag)"
| "ber_ok string_tag depth (Constructed tag indefinite ts) \<longleftrightarrow> tag AND CBS_ASN1_CONSTRUCTED \<noteq> 0 \<and> depth < kMaxDepth \<and>
     (\<not> indefinite \<longrightarrow> length (concat (map ber_bytes ts)) < 2 ^ 32) \<and>
     (string_tag \<noteq> 0 \<longrightarrow> tag AND NOT CBS_ASN1_CONSTRUCTED = string_tag) \<and>
     (\<forall>t \<in> set ts. ber_ok (child_tag string_tag tag) (depth + 1) t)"

text \<open>A parser of trees.\<close>

primrec parse :: "nat \<Rightarrow> u32 \<Rightarrow> bool \<Rightarrow> nat \<Rightarrow> cbs \<Rightarrow> (ber list \<times> cbs) option" where
  "parse 0 string_tag eoc depth s = None"
| "parse (Suc n) string_tag eoc depth s = (
     if s = [] then if eoc then None else Some ([], [])
     else case CBS_get_any_ber_asn1_element s of
       (None, r) \<Rightarrow> None
     | (Some (el, tag, hl), r) \<Rightarrow>
         if is_eoc hl el then if eoc then Some ([], r) else None
         else if string_tag \<noteq> 0 \<and> tag AND NOT CBS_ASN1_CONSTRUCTED \<noteq> string_tag then None
         else let nested = (\<lambda>eoc s. if depth + 1 > kMaxDepth then None else parse n (child_tag string_tag tag) eoc (depth + 1) s) in
         do {
           (t, r) \<leftarrow> (if is_indefinite hl el then do { (ts, r) \<leftarrow> nested True r; Some (Constructed tag True ts, r) }
             else if tag AND CBS_ASN1_CONSTRUCTED \<noteq> 0 then do { (ts, _) \<leftarrow> nested False (drop (unat hl) el); Some (Constructed tag False ts, r) }
             else Some (Primitive tag (drop (unat hl) el), r));
           (ts, r) \<leftarrow> parse n string_tag eoc depth r;
           Some (t # ts, r) })"

text \<open>The next element of the input, in its two forms.\<close>

lemma header_nonempty: "der_header tag n \<noteq> []"
  using length_der_header(1) [of tag n] by auto

lemma header_ne: "der_header tag n @ x \<noteq> []" "der_tag tag @ y \<noteq> []"
  by (simp_all add: header_nonempty der_tag_ne)

lemma parse_definite:
  assumes "length c < 2 ^ 32"
  shows "parse (Suc n) st eoc depth (der_header tag (length c) @ c @ r) = (
     if tag = 0 \<and> c = [] then if eoc then Some ([], r) else None
     else if st \<noteq> 0 \<and> tag AND NOT CBS_ASN1_CONSTRUCTED \<noteq> st then None
     else do {
       t \<leftarrow> (if tag AND CBS_ASN1_CONSTRUCTED \<noteq> 0 then
              if depth + 1 > kMaxDepth then None
              else do { (ts, _) \<leftarrow> parse n (child_tag st tag) False (depth + 1) c; Some (Constructed tag False ts) }
            else Some (Primitive tag c));
       (ts, r) \<leftarrow> parse n st eoc depth r;
       Some (t # ts, r) })"
  unfolding parse.simps if_not_P [OF header_ne(1)] read_definite [OF assms] prod.case option.case eoc_definite [OF assms]
    if_not_P [OF definite_not_indefinite [OF assms]] Let_def unat_header
  by (cases "parse n (child_tag st tag) False (depth + 1) c") auto

lemma parse_indefinite:
  assumes "tag AND CBS_ASN1_CONSTRUCTED \<noteq> 0"
  shows "parse (Suc n) st eoc depth (der_tag tag @ 0x80 # r) = (
     if st \<noteq> 0 \<and> tag AND NOT CBS_ASN1_CONSTRUCTED \<noteq> st then None
     else do {
       (ts, r) \<leftarrow> (if depth + 1 > kMaxDepth then None else parse n (child_tag st tag) True (depth + 1) r);
       (us, r) \<leftarrow> parse n st eoc depth r;
       Some (Constructed tag True ts # us, r) })"
  unfolding parse.simps if_not_P [OF header_ne(2)] read_indefinite [OF assms] prod.case option.case
    if_not_P [OF indefinite_not_eoc] if_P [OF indefinite_indefinite] Let_def
  by (cases "parse n (child_tag st tag) True (depth + 1) r") auto


section \<open>The parser and the trees\<close>

lemma ber_bytes_ne: "ber_bytes t \<noteq> []"
  by (cases t) (simp_all add: Let_def header_nonempty der_tag_ne)

lemma parse_trees:
  "\<forall>t \<in> set ts. ber_ok st depth t \<Longrightarrow> length (concat (map ber_bytes ts) @ e) < n \<Longrightarrow>
   e = (if eoc then [0, 0] @ r else []) \<Longrightarrow>
   parse n st eoc depth (concat (map ber_bytes ts) @ e) = Some (ts, if eoc then r else [])"
proof (induction n arbitrary: ts st depth eoc e r)
  case (Suc n)
  show ?case
  proof (cases ts)
    case Nil
    have z: "der_header 0 (length ([] :: u8 list)) @ [] @ r = 0 # 0 # r"
      by (simp add: der_header_def der_len_def der_tag_def tag_mask)
    show ?thesis using Nil Suc.prems(3) parse_definite [of "[]" n st eoc depth 0 r] z by simp
  next
    case (Cons t us)
    define rest where "rest = concat (map ber_bytes us) @ e"
    have ok: "ber_ok st depth t" "\<forall>t \<in> set us. ber_ok st depth t" using Suc.prems(1) Cons by simp_all
    have l: "length (ber_bytes t) + length rest \<le> n" "0 < length (ber_bytes t)"
      using Suc.prems(2) Cons ber_bytes_ne by (auto simp: rest_def)
    have rec: "parse n st eoc depth rest = Some (us, if eoc then r else [])"
      using Suc.IH [OF ok(2) _ Suc.prems(3)] l by (simp add: rest_def [symmetric])
    have s: "concat (map ber_bytes ts) @ e = ber_bytes t @ rest" by (simp add: Cons rest_def)
    show ?thesis
    proof (cases t)
      case (Primitive tag c)
      then show ?thesis using ok(1) rec Cons unfolding s by (auto simp add: parse_definite simp del: parse.simps)
    next
      case (Constructed tag ind vs)
      define b where "b = concat (map ber_bytes vs)"
      have vs: "\<forall>t \<in> set vs. ber_ok (child_tag st tag) (depth + 1) t" "\<not> depth + 1 > kMaxDepth" "tag AND CBS_ASN1_CONSTRUCTED \<noteq> 0"
        "\<not> (st \<noteq> 0 \<and> tag AND NOT CBS_ASN1_CONSTRUCTED \<noteq> st)"
        using ok(1) Constructed by auto
      then have t0: "tag \<noteq> 0" by auto
      show ?thesis
      proof (cases ind)
        case True
        have "parse n (child_tag st tag) True (depth + 1) (b @ [0, 0] @ rest) = Some (vs, rest)"
          unfolding b_def using l(1) Suc.IH [OF vs(1), of "[0, 0] @ rest" True rest] Constructed True by simp
        moreover have "ber_bytes t @ rest = der_tag tag @ 0x80 # (b @ [0, 0] @ rest)" using Constructed True by (simp add: b_def Let_def)
        ultimately show ?thesis
          unfolding s Constructed using True rec vs Cons Constructed parse_indefinite [OF vs(3), of n st eoc depth "b @ [0, 0] @ rest"] by (simp del: parse.simps)
      next
        case False
        have lb: "length b < n" using l(1) Constructed False length_der_header(1) [of tag "length b"] by (simp add: Let_def b_def)
        have "parse n (child_tag st tag) False (depth + 1) b = Some (vs, [])"
          using lb Suc.IH [OF vs(1), of "[]" False "[]"] by (simp add: b_def)
        moreover have "ber_bytes t @ rest = der_header tag (length b) @ b @ rest" using Constructed False by (simp add: b_def Let_def)
        moreover have "length b < 2 ^ 32" using ok(1) Constructed False by (simp add: b_def)
        ultimately show ?thesis
          unfolding s Constructed using False rec vs t0 Cons Constructed parse_definite [of b n st eoc depth tag rest] by (simp del: parse.simps)
      qed
    qed
  qed
qed simp

lemma parse_SomeD:
  "parse n st eoc depth s = Some (ts, r) \<Longrightarrow>
   (\<forall>t \<in> set ts. ber_ok st depth t) \<and> s = concat (map ber_bytes ts) @ (if eoc then [0, 0] @ r else []) \<and> (\<not> eoc \<longrightarrow> r = [])"
proof (induction n arbitrary: s ts r st depth eoc)
  case (Suc n)
  show ?case
  proof (cases "s = []")
    case True
    then show ?thesis using Suc.prems by (simp split: if_splits)
  next
    case False
    show ?thesis
    proof (rule ber_read_cases [of s])
      fix s' assume "CBS_get_any_ber_asn1_element s = (None, s')"
      then show ?thesis using Suc.prems False by simp
    next
      fix tag c x assume c: "length c < 2 ^ 32" "s = der_header tag (length c) @ c @ x"
      show ?thesis
      proof (cases "tag = 0 \<and> c = []")
        case True
        then show ?thesis using Suc.prems unfolding c(2) parse_definite [OF c(1)] if_P [OF True]
          by (auto simp: der_header_def der_len_def der_tag_def tag_mask split: if_splits)
      next
        case z: False
        note p = Suc.prems [unfolded c(2) parse_definite [OF c(1)] if_not_P [OF z]]
        from p have st: "st \<noteq> 0 \<longrightarrow> tag AND NOT CBS_ASN1_CONSTRUCTED = st" by (auto split: if_splits)
        from p obtain t us where ts: "ts = t # us" "parse n st eoc depth x = Some (us, r)"
          and t: "(if tag AND CBS_ASN1_CONSTRUCTED \<noteq> 0 then if depth + 1 > kMaxDepth then None
              else do { (ts, _) \<leftarrow> parse n (child_tag st tag) False (depth + 1) c; Some (Constructed tag False ts) }
            else Some (Primitive tag c)) = Some t"
          by (auto simp: bind_eq_Some_conv simp del: parse.simps split: if_split_asm prod.splits)
        note us = Suc.IH [OF ts(2)]
        show ?thesis
        proof (cases "tag AND CBS_ASN1_CONSTRUCTED = 0")
          case True
          then have "t = Primitive tag c" using t by simp
          with True show ?thesis using ts us st z c by simp
        next
          case con: False
          then obtain vs y where v: "parse n (child_tag st tag) False (depth + 1) c = Some (vs, y)" "t = Constructed tag False vs" "depth < kMaxDepth"
            using t by (auto simp: bind_eq_Some_conv split: if_splits prod.splits)
          from Suc.IH [OF v(1)] show ?thesis using v ts us st con c by (simp add: Let_def)
        qed
      qed
    next
      fix tag x assume c: "tag AND CBS_ASN1_CONSTRUCTED \<noteq> 0" "s = der_tag tag @ 0x80 # x"
      note p = Suc.prems [unfolded c(2) parse_indefinite [OF c(1)]]
      from p obtain vs y us where v: "st \<noteq> 0 \<longrightarrow> tag AND NOT CBS_ASN1_CONSTRUCTED = st" "depth < kMaxDepth"
        "parse n (child_tag st tag) True (depth + 1) x = Some (vs, y)" "parse n st eoc depth y = Some (us, r)" "ts = Constructed tag True vs # us"
        by (auto simp: bind_eq_Some_conv simp del: parse.simps split: if_split_asm prod.splits)
      from Suc.IH [OF v(3)] Suc.IH [OF v(4)] show ?thesis using v c by (simp add: Let_def)
    qed
  qed
qed simp


section \<open>The conversion as a writer\<close>

text \<open>What is left of the input is forgotten.\<close>

definition strip :: "(cbb \<Rightarrow> (bool \<times> cbs \<times> cbb) option) \<Rightarrow> cbb step" where
  "strip f = (\<lambda>out. map_option (\<lambda>(ok, inn, out). (ok, out)) (f out))"

definition conv :: "mem \<Rightarrow> nat \<Rightarrow> u32 \<Rightarrow> bool \<Rightarrow> nat \<Rightarrow> nat \<Rightarrow> cbs \<Rightarrow> cbb step" where
  "conv mem n st eoc depth d s = strip (convert_loop mem n st eoc depth d s)"

lemma strip_wr: "strip (wr_then f inn k) = and_then f (strip k)"
  by (auto simp: fun_eq_iff strip_def wr_then_def and_then_def split: option.split)

lemma strip_Some: "strip (\<lambda>out. Some (ok, inn, out)) = ret ok"
  by (simp add: fun_eq_iff strip_def ret_def)

lemma strip_conv:
  assumes "\<And>out inn t. g out = Some (True, inn, t) \<Longrightarrow> strip (k inn) t = h t"
  shows "strip (\<lambda>out. conv_then (g out) k) = and_then (strip g) h"
proof
  fix out
  show "strip (\<lambda>out. conv_then (g out) k) out = and_then (strip g) h out"
    using assms [of out] by (auto simp: strip_def conv_then_def and_then_def split: option.split)
qed

lemma strip_on_contents: "strip (\<lambda>out. on_contents inn (g out)) = strip g"
  by (auto simp: fun_eq_iff strip_def on_contents_def option.map_comp intro!: option.map_cong)

lemma on_contentsD: "on_contents inn r = Some (ok, inn', out) \<Longrightarrow> inn' = inn \<and> (\<exists>c. r = Some (ok, c, out))"
  by (auto simp: on_contents_def)

text \<open>The rest of the input that a successful conversion leaves.\<close>

definition check_string :: "u32 \<Rightarrow> u32 \<Rightarrow> bool" where
  "check_string st tag \<longleftrightarrow> st \<noteq> 0 \<and> tag AND NOT CBS_ASN1_CONSTRUCTED \<noteq> st"

definition open_element :: "mem \<Rightarrow> u32 \<Rightarrow> u32 \<Rightarrow> nat \<Rightarrow> cbb step" where
  "open_element mem st tag d = (if st \<noteq> 0 then ret True else CBB_add_asn1 mem (out_tag tag) d)"

definition child_conv :: "mem \<Rightarrow> nat \<Rightarrow> u32 \<Rightarrow> bool \<Rightarrow> nat \<Rightarrow> nat \<Rightarrow> cbs \<Rightarrow> cbb \<Rightarrow> (bool \<times> cbs \<times> cbb) option" where
  "child_conv mem n st eoc depth d s out = (if st AND CBS_ASN1_CONSTRUCTED \<noteq> 0 then None
     else if depth + 1 > kMaxDepth then Some (False, s, out)
     else convert_loop mem n st eoc (depth + 1) d s out)"

lemma convert_tags:
  "(if tag AND CBS_ASN1_CONSTRUCTED \<noteq> 0 \<and> is_string_type tag then tag AND NOT CBS_ASN1_CONSTRUCTED else tag) = out_tag tag"
  "(if st = 0 \<and> tag AND CBS_ASN1_CONSTRUCTED \<noteq> 0 \<and> is_string_type tag then out_tag tag else st) = child_tag st tag"
  by (auto simp: out_tag_def child_tag_def)

lemma convert_definite:
  assumes "length c < 2 ^ 32"
  shows "convert_loop mem (Suc n) st eoc depth d (der_header tag (length c) @ c @ r) = (
     if tag = 0 \<and> c = [] then \<lambda>out. Some (eoc, r, out)
     else if check_string st tag then \<lambda>out. Some (False, r, out)
     else wr_then (open_element mem st tag d) r (
       if tag AND CBS_ASN1_CONSTRUCTED \<noteq> 0 then
         \<lambda>out. conv_then (on_contents r (child_conv mem n (child_tag st tag) False depth (if st \<noteq> 0 then d else d + 1) c out)) (\<lambda>r.
           wr_then (CBB_flush mem d) r (convert_loop mem n st eoc depth d r))
       else wr_then (CBB_add_bytes mem c (if st \<noteq> 0 then d else d + 1)) r (
         wr_then (CBB_flush mem d) r (convert_loop mem n st eoc depth d r))))"
  (is "?l = ?r")
proof
  fix out
  have l: "length (der_header tag (length c) @ c @ r) \<noteq> 0" using header_nonempty by simp
  note unf = convert_loop.simps if_not_P [OF l] read_definite [OF assms] prod.case option.case eoc_definite [OF assms]
    if_not_P [OF definite_not_indefinite [OF assms]] Let_def skip_definite CBS_data_def check_string_def [symmetric]
    open_element_def child_conv_def convert_tags
  show "?l out = ?r out"
  proof (cases "tag = 0 \<and> c = []")
    case True
    show ?thesis unfolding unf if_P [OF True] ..
  next
    case False
    show ?thesis unfolding unf if_not_P [OF False] by (cases "check_string st tag"; cases "tag AND CBS_ASN1_CONSTRUCTED = 0") simp_all
  qed
qed

lemma convert_indefinite:
  assumes "tag AND CBS_ASN1_CONSTRUCTED \<noteq> 0"
  shows "convert_loop mem (Suc n) st eoc depth d (der_tag tag @ 0x80 # r) = (
     if check_string st tag then \<lambda>out. Some (False, r, out)
     else wr_then (open_element mem st tag d) r (\<lambda>out.
       conv_then (child_conv mem n (child_tag st tag) True depth (if st \<noteq> 0 then d else d + 1) r out) (\<lambda>r.
         wr_then (CBB_flush mem d) r (convert_loop mem n st eoc depth d r))))"
  (is "?l = ?r")
proof
  fix out
  have l: "length (der_tag tag @ 0x80 # r) \<noteq> 0" using der_tag_ne by simp
  show "?l out = ?r out"
    unfolding convert_loop.simps if_not_P [OF l] read_indefinite [OF assms] prod.case option.case if_not_P [OF indefinite_not_eoc]
      if_P [OF indefinite_indefinite] Let_def check_string_def [symmetric] open_element_def child_conv_def convert_tags
    by (cases "check_string st tag") simp_all
qed

lemma wr_then_TrueD: "wr_then f inn k out = Some (True, x) \<Longrightarrow> \<exists>t. k t = Some (True, x)"
  by (auto simp: wr_then_def split: option.splits if_splits)

lemma conv_then_TrueD: "conv_then g k = Some (True, x) \<Longrightarrow> \<exists>inn t. g = Some (True, inn, t) \<and> k inn t = Some (True, x)"
  by (auto simp: conv_then_def split: option.splits if_splits)

lemma child_convD:
  "child_conv mem n st eoc depth d s out = Some (True, r, t) \<Longrightarrow>
   \<not> depth + 1 > kMaxDepth \<and> convert_loop mem n st eoc (depth + 1) d s out = Some (True, r, t)"
  by (auto simp: child_conv_def split: if_splits)

lemma convert_rest:
  "convert_loop mem n st eoc depth d s out = Some (True, r, t) \<Longrightarrow> \<exists>ts. parse n st eoc depth s = Some (ts, r)"
proof (induction n arbitrary: st eoc depth d s out r t)
  case (Suc n)
  show ?case
  proof (cases "s = []")
    case True
    then show ?thesis using Suc.prems by simp
  next
    case False
    show ?thesis
    proof (rule ber_read_cases [of s])
      fix s' assume "CBS_get_any_ber_asn1_element s = (None, s')"
      then show ?thesis using Suc.prems False by simp
    next
      fix tag c x assume c: "length c < 2 ^ 32" "s = der_header tag (length c) @ c @ x"
      note p = Suc.prems [unfolded c(2) convert_definite [OF c(1)]]
      show ?thesis
      proof (cases "tag = 0 \<and> c = []")
        case True
        then show ?thesis using p unfolding c(2) parse_definite [OF c(1)] by simp
      next
        case z: False
        with p have st: "\<not> check_string st tag" by auto
        note p = p [unfolded if_not_P [OF z] if_not_P [OF st]]
        show ?thesis
        proof (cases "tag AND CBS_ASN1_CONSTRUCTED = 0")
          case True
          then obtain t' where "convert_loop mem n st eoc depth d x t' = Some (True, r, t)" using p by (auto dest!: wr_then_TrueD)
          from Suc.IH [OF this] show ?thesis unfolding c(2) parse_definite [OF c(1)] using z st True by (auto simp: check_string_def)
        next
          case con: False
          then obtain t' u y v where u: "child_conv mem n (child_tag st tag) False depth (if st \<noteq> 0 then d else d + 1) c t' = Some (True, y, u)"
            "convert_loop mem n st eoc depth d x v = Some (True, r, t)" using p by (auto simp del: Suc_eq_plus1 dest!: wr_then_TrueD conv_then_TrueD on_contentsD)
          note w = child_convD [OF u(1)]
          from Suc.IH [OF conjunct2 [OF w]] Suc.IH [OF u(2)] conjunct1 [OF w] show ?thesis
            unfolding c(2) parse_definite [OF c(1)] using z st con by (auto simp: check_string_def)
        qed
      qed
    next
      fix tag x assume c: "tag AND CBS_ASN1_CONSTRUCTED \<noteq> 0" "s = der_tag tag @ 0x80 # x"
      note p = Suc.prems [unfolded c(2) convert_indefinite [OF c(1)]]
      then have st: "\<not> check_string st tag" by auto
      note p = p [unfolded if_not_P [OF st]]
      from p obtain t' u y v where u: "child_conv mem n (child_tag st tag) True depth (if st \<noteq> 0 then d else d + 1) x t' = Some (True, y, u)"
        "convert_loop mem n st eoc depth d y v = Some (True, r, t)" by (auto simp del: Suc_eq_plus1 dest!: wr_then_TrueD conv_then_TrueD)
      note w = child_convD [OF u(1)]
      from Suc.IH [OF conjunct2 [OF w]] Suc.IH [OF u(2)] conjunct1 [OF w] show ?thesis
        unfolding c(2) parse_indefinite [OF c(1)] using st by (auto simp: check_string_def)
    qed
  qed
qed simp


lemma cat_simps [simp]: "cat (Some []) e = e" "cat e (Some []) = e" "cat None e = None" "cat e None = None"
  by (cases e; simp add: cat_def)+

lemma cat_assoc: "cat (cat a b) c = cat a (cat b c)"
  by (cases a; cases b; cases c) (simp_all add: cat_def)

lemma encode_all_append: "encode_all (xs @ ys) = cat (encode_all xs) (encode_all ys)"
  by (induction xs) (simp_all add: cat_assoc)

text \<open>The encoding of an element whose content is encoded.\<close>

definition wrap_enc :: "u32 \<Rightarrow> u32 \<Rightarrow> u8 list option \<Rightarrow> u8 list option" where
  "wrap_enc st tag e = (if st \<noteq> 0 then e else cat (Some (der_tag (out_tag tag))) (prefixed 1 True e))"

lemma encode_wrap: "encode_all (wrap st tag is @ js) = cat (wrap_enc st tag (encode_all is)) (encode_all js)"
  by (simp add: wrap_def wrap_enc_def encode_all_append)

lemma element_appends:
  assumes X: "appends mem oc X e" "keeping (open_at oc) X (open_at oc)" and R: "appends mem d R e'" "keeping (open_at d) R (open_at d)"
    and oc: "oc = (if st \<noteq> 0 then d else d + 1)"
  shows "appends mem d (and_then (open_element mem st tag d) (and_then X (and_then (CBB_flush mem d) R))) (cat (wrap_enc st tag e) e')"
    and "keeping (open_at d) (and_then (open_element mem st tag d) (and_then X (and_then (CBB_flush mem d) R))) (open_at d)"
proof -
  have fl: "appends mem d (and_then (CBB_flush mem d) R) e'" "keeping (open_at d) (and_then (CBB_flush mem d) R) (open_at d)"
    by (rule appends_flush_then [OF R(1)], rule keeping_and_then [OF keeping_flush R(2)])
  have "appends mem d (and_then (open_element mem st tag d) (and_then X (and_then (CBB_flush mem d) R))) (cat (wrap_enc st tag e) e') \<and>
    keeping (open_at d) (and_then (open_element mem st tag d) (and_then X (and_then (CBB_flush mem d) R))) (open_at d)"
  proof (cases "st = 0")
    case False
    then have "and_then (open_element mem st tag d) f = f" for f by (simp add: open_element_def and_then_def ret_def fun_eq_iff)
    then show ?thesis
      using False X oc appends_and_then [OF _ fl(1)] keeping_and_then [OF _ fl(2)] by (simp add: wrap_enc_def)
  next
    case True
    then have oc: "oc = d + 1" using oc by simp
    have k: "keeping (open_at d) (and_then (CBB_add_asn1 mem (out_tag tag) d) (and_then X (CBB_flush mem d))) (open_at d)"
      using keeping_child_body [OF X(2) [unfolded oc] keeping_add_asn1] .
    have a: "and_then (open_element mem st tag d) (and_then X (and_then (CBB_flush mem d) R)) =
      and_then (and_then (CBB_add_asn1 mem (out_tag tag) d) (and_then X (CBB_flush mem d))) R"
      using True by (simp add: open_element_def and_then_assoc)
    show ?thesis
      unfolding a wrap_enc_def using True appends_and_then [OF appends_asn1 [OF X [unfolded oc]] R(1) k] keeping_and_then [OF k R(2)] by simp
  qed
  then show "appends mem d (and_then (open_element mem st tag d) (and_then X (and_then (CBB_flush mem d) R))) (cat (wrap_enc st tag e) e')"
    "keeping (open_at d) (and_then (open_element mem st tag d) (and_then X (and_then (CBB_flush mem d) R))) (open_at d)" by blast+
qed

definition enc :: "u32 \<Rightarrow> (ber list \<times> cbs) option \<Rightarrow> u8 list option" where
  "enc st x = (case x of None \<Rightarrow> None | Some (ts, r) \<Rightarrow> encode_all (concat (map (ber_items st) ts)))"

definition child_step :: "mem \<Rightarrow> nat \<Rightarrow> u32 \<Rightarrow> bool \<Rightarrow> nat \<Rightarrow> nat \<Rightarrow> cbs \<Rightarrow> cbb step" where
  "child_step mem n st eoc depth d s = (if depth + 1 > kMaxDepth then ret False else conv mem n st eoc (depth + 1) d s)"

lemma child_tag_primitive: "st AND CBS_ASN1_CONSTRUCTED = 0 \<Longrightarrow> child_tag st tag AND CBS_ASN1_CONSTRUCTED = 0"
  by (simp add: child_tag_def and.assoc)

lemma strip_child: "st AND CBS_ASN1_CONSTRUCTED = 0 \<Longrightarrow> strip (child_conv mem n st eoc depth d s) = child_step mem n st eoc depth d s"
  by (auto simp: fun_eq_iff child_conv_def child_step_def conv_def strip_def ret_def)

lemma conv_nil: "conv mem (Suc n) st eoc depth d [] = ret (\<not> eoc)"
  by (simp add: conv_def strip_Some [where inn = "[]"] fun_eq_iff strip_def ret_def)

lemma conv_fail: "s \<noteq> [] \<Longrightarrow> CBS_get_any_ber_asn1_element s = (None, s') \<Longrightarrow> conv mem (Suc n) st eoc depth d s = ret False"
  by (simp add: conv_def fun_eq_iff strip_def ret_def)

lemma conv_definite:
  assumes "length c < 2 ^ 32" "st AND CBS_ASN1_CONSTRUCTED = 0"
  shows "conv mem (Suc n) st eoc depth d (der_header tag (length c) @ c @ r) = (
     if tag = 0 \<and> c = [] then ret eoc
     else if check_string st tag then ret False
     else and_then (open_element mem st tag d) (and_then
       (if tag AND CBS_ASN1_CONSTRUCTED \<noteq> 0 then child_step mem n (child_tag st tag) False depth (if st \<noteq> 0 then d else d + 1) c
        else CBB_add_bytes mem c (if st \<noteq> 0 then d else d + 1))
       (and_then (CBB_flush mem d) (conv mem n st eoc depth d r))))"
proof -
  let ?oc = "if st \<noteq> 0 then d else d + 1"
  let ?g = "child_conv mem n (child_tag st tag) False depth ?oc c"
  have k: "strip (wr_then (CBB_flush mem d) r (convert_loop mem n st eoc depth d r)) =
      and_then (CBB_flush mem d) (conv mem n st eoc depth d r)" by (simp add: strip_wr conv_def)
  have "strip (\<lambda>out. conv_then (on_contents r (?g out)) (\<lambda>r. wr_then (CBB_flush mem d) r (convert_loop mem n st eoc depth d r))) =
      and_then (strip ?g) (and_then (CBB_flush mem d) (conv mem n st eoc depth d r))"
    unfolding strip_on_contents [of r ?g, symmetric]
    by (rule strip_conv) (auto simp: k dest!: on_contentsD)
  then show ?thesis
    unfolding conv_def [of mem "Suc n"] convert_definite [OF assms(1)] strip_child [OF child_tag_primitive [OF assms(2)]]
    by (auto simp: strip_wr strip_Some conv_def [symmetric])
qed

lemma conv_indefinite:
  assumes "tag AND CBS_ASN1_CONSTRUCTED \<noteq> 0" "st AND CBS_ASN1_CONSTRUCTED = 0"
  shows "conv mem (Suc n) st eoc depth d (der_tag tag @ 0x80 # r) = (
     if check_string st tag then ret False
     else and_then (open_element mem st tag d) (and_then
       (child_step mem n (child_tag st tag) True depth (if st \<noteq> 0 then d else d + 1) r)
       (and_then (CBB_flush mem d) (case parse n (child_tag st tag) True (depth + 1) r of
          None \<Rightarrow> ret True | Some (ts, r) \<Rightarrow> conv mem n st eoc depth d r))))"
proof -
  let ?oc = "if st \<noteq> 0 then d else d + 1"
  let ?g = "child_conv mem n (child_tag st tag) True depth ?oc r"
  have "strip (\<lambda>out. conv_then (?g out) (\<lambda>r. wr_then (CBB_flush mem d) r (convert_loop mem n st eoc depth d r))) =
      and_then (strip ?g) (and_then (CBB_flush mem d) (case parse n (child_tag st tag) True (depth + 1) r of
          None \<Rightarrow> ret True | Some (ts, r) \<Rightarrow> conv mem n st eoc depth d r))"
  proof (rule strip_conv)
    fix out y t assume "?g out = Some (True, y, t)"
    from convert_rest [OF conjunct2 [OF child_convD [OF this]]]
    obtain ts where "parse n (child_tag st tag) True (depth + 1) r = Some (ts, y)" by blast
    then show "strip (wr_then (CBB_flush mem d) y (convert_loop mem n st eoc depth d y)) t =
        and_then (CBB_flush mem d) (case parse n (child_tag st tag) True (depth + 1) r of
          None \<Rightarrow> ret True | Some (ts, r) \<Rightarrow> conv mem n st eoc depth d r) t"
      by (simp add: strip_wr conv_def)
  qed
  then show ?thesis
    unfolding conv_def [of mem "Suc n"] convert_indefinite [OF assms(1)] strip_child [OF child_tag_primitive [OF assms(2)]]
    by (auto simp: strip_wr strip_Some)
qed


lemma prefixed_None [simp]: "prefixed k a None = None"
  by (simp add: prefixed_def)

lemma wrap_enc_None [simp]: "wrap_enc st tag None = None"
  by (simp add: wrap_enc_def)

lemma enc_simps [simp]: "enc st None = None" "enc st (Some ([], r)) = Some []"
  "enc st (Some (t # ts, r)) = cat (encode_all (ber_items st t)) (enc st (Some (ts, r)))"
  by (simp_all add: enc_def encode_all_append)

lemma enc_trees: "enc st (Some (ts, r)) = encode_all (concat (map (ber_items st) ts))"
  by (simp add: enc_def)

lemma encode_element: "encode_all (wrap st tag is) = wrap_enc st tag (encode_all is)"
  using encode_wrap [of st tag "is" "[]"] by simp

lemma parse_shorter: "parse n st True depth s = Some (ts, r) \<Longrightarrow> length r < length s"
  by (drule parse_SomeD) simp

text \<open>Without fuel running out, the conversion appends the encoding of the parsed trees.\<close>

lemma conv_appends:
  "length s < n \<Longrightarrow> length s < 2 ^ 64 \<Longrightarrow> st AND CBS_ASN1_CONSTRUCTED = 0 \<Longrightarrow>
   appends mem d (conv mem n st eoc depth d s) (enc st (parse n st eoc depth s)) \<and>
   keeping (open_at d) (conv mem n st eoc depth d s) (open_at d)"
proof (induction n arbitrary: s st eoc depth d)
  case (Suc n)
  note f = appends_False keeping_ret and t = appends_ret keeping_ret
  have child: "appends mem d' (child_step mem n st' eoc' depth d' s')
      (if depth + 1 > kMaxDepth then None else enc st' (parse n st' eoc' (depth + 1) s')) \<and>
      keeping (open_at d') (child_step mem n st' eoc' depth d' s') (open_at d')"
    if "length s' < n" "length s' < 2 ^ 64" "st' AND CBS_ASN1_CONSTRUCTED = 0" for d' st' eoc' s'
    using Suc.IH [OF that] f by (simp add: child_step_def)
  show ?case
  proof (cases "s = []")
    case True
    then show ?thesis using f t by (cases eoc) (simp_all only: conv_nil, simp_all)
  next
    case False
    show ?thesis
    proof (rule ber_read_cases [of s])
      fix s' assume "CBS_get_any_ber_asn1_element s = (None, s')"
      then show ?thesis using conv_fail [OF False] False f by simp
    next
      fix tag c r assume c: "length c < 2 ^ 32" "s = der_header tag (length c) @ c @ r"
      have l: "length c < n" "length r < n" "length c < 2 ^ 64" "length r < 2 ^ 64"
        using Suc.prems(1,2) c length_der_header(1) [of tag "length c"] by simp_all
      note cv = conv_definite [OF c(1) Suc.prems(3)] and pa = parse_definite [OF c(1)]
      show ?thesis
      proof (cases "tag = 0 \<and> c = [] \<or> check_string st tag")
        case True
        then show ?thesis using f t unfolding c(2) cv pa by (cases eoc) (auto simp: check_string_def)
      next
        case False
        then have z: "\<not> (tag = 0 \<and> c = [])" "\<not> check_string st tag" by blast+
        let ?oc = "if st \<noteq> 0 then d else d + 1"
        let ?X = "if tag AND CBS_ASN1_CONSTRUCTED \<noteq> 0 then child_step mem n (child_tag st tag) False depth ?oc c else CBB_add_bytes mem c ?oc"
        let ?e = "if tag AND CBS_ASN1_CONSTRUCTED \<noteq> 0
          then if depth + 1 > kMaxDepth then None else enc (child_tag st tag) (parse n (child_tag st tag) False (depth + 1) c) else Some c"
        have X: "appends mem ?oc ?X ?e \<and> keeping (open_at ?oc) ?X (open_at ?oc)"
          using child [OF l(1,3) child_tag_primitive [OF Suc.prems(3)]] appends_bytes [OF l(3)] keeping_mono [OF keeping_bytes [OF l(3)]] by simp
        note R = Suc.IH [OF l(2,4) Suc.prems(3)]
        have e: "enc st (parse (Suc n) st eoc depth s) = cat (wrap_enc st tag ?e) (enc st (parse n st eoc depth r))"
          using z unfolding c(2) pa
          by (cases "parse n (child_tag st tag) False (depth + 1) c"; cases "parse n st eoc depth r")
            (auto simp: check_string_def encode_element enc_def encode_all_append)
        show ?thesis
          unfolding e unfolding c(2) cv if_not_P [OF z(1)] if_not_P [OF z(2)]
          by (rule conjI [OF element_appends [OF conjunct1 [OF X] conjunct2 [OF X] conjunct1 [OF R] conjunct2 [OF R] refl]])
      qed
    next
      fix tag r assume c: "tag AND CBS_ASN1_CONSTRUCTED \<noteq> 0" "s = der_tag tag @ 0x80 # r"
      have l: "length r < n" "length r < 2 ^ 64" using Suc.prems(1,2) c by simp_all
      note cv = conv_indefinite [OF c(1) Suc.prems(3)] and pa = parse_indefinite [OF c(1)]
      show ?thesis
      proof (cases "check_string st tag")
        case True
        then show ?thesis using f unfolding c(2) cv pa by (auto simp: check_string_def)
      next
        case z: False
        let ?oc = "if st \<noteq> 0 then d else d + 1"
        let ?p = "parse n (child_tag st tag) True (depth + 1) r"
        let ?R = "case ?p of None \<Rightarrow> ret True | Some (ts, r) \<Rightarrow> conv mem n st eoc depth d r"
        let ?er = "case ?p of None \<Rightarrow> Some [] | Some (ts, r) \<Rightarrow> enc st (parse n st eoc depth r)"
        note X = child [OF l child_tag_primitive [OF Suc.prems(3)], of ?oc]
        have R: "appends mem d ?R ?er \<and> keeping (open_at d) ?R (open_at d)"
        proof (cases ?p)
          case (Some x)
          then obtain ts y where x: "x = (ts, y)" by (cases x)
          from parse_shorter [OF Some [unfolded x]] have "length y < n" "length y < 2 ^ 64" using l by simp_all
          from Suc.IH [OF this Suc.prems(3)] show ?thesis using Some x by simp
        qed (simp add: t)
        have e: "enc st (parse (Suc n) st eoc depth s) = cat (wrap_enc st tag (if depth + 1 > kMaxDepth then None else enc (child_tag st tag) ?p)) ?er"
          using z unfolding c(2) pa
          by (cases ?p) (auto simp: check_string_def encode_element enc_def encode_all_append split: option.split)
        show ?thesis
          unfolding e unfolding c(2) cv if_not_P [OF z]
          by (rule conjI [OF element_appends [OF conjunct1 [OF X] conjunct2 [OF X] conjunct1 [OF R] conjunct2 [OF R] refl]])
      qed
    qed
  qed
qed simp


section \<open>The search for BER\<close>

text \<open>What \<open>cbs_find_ber\<close> leaves in \<open>*ber_found\<close>: a later constructed element forgets an earlier one.\<close>

fun found :: "bool \<Rightarrow> ber list \<Rightarrow> bool" where
  "found ber_found [] = ber_found"
| "found ber_found (Primitive tag c # ts) = found ber_found ts"
| "found ber_found (Constructed tag indefinite us # ts) =
     (indefinite \<or> is_string_type tag \<or> found (found False us) ts)"

lemma find_definite:
  assumes "length c < 2 ^ 32"
  shows "find_loop (Suc n) (der_header tag (length c) @ c @ r) depth f = (
     if tag AND CBS_ASN1_CONSTRUCTED \<noteq> 0 then
       if is_string_type tag then Some (Some True)
       else do {
         x \<leftarrow> (if depth + 1 > kMaxDepth then Some None else find_loop n c (depth + 1) False);
         (case x of None \<Rightarrow> Some None | Some f \<Rightarrow> find_loop n r depth f) }
     else find_loop n r depth f)"
proof -
  have l: "length (der_header tag (length c) @ c @ r) \<noteq> 0" using header_nonempty by simp
  show ?thesis
    unfolding find_loop.simps if_not_P [OF l] read_definite [OF assms] prod.case option.case
      if_not_P [OF definite_not_indefinite [OF assms]] skip_definite ..
qed

lemma find_indefinite:
  assumes "tag AND CBS_ASN1_CONSTRUCTED \<noteq> 0"
  shows "find_loop (Suc n) (der_tag tag @ 0x80 # r) depth f = Some (Some True)"
proof -
  have l: "length (der_tag tag @ 0x80 # r) \<noteq> 0" using der_tag_ne by simp
  show ?thesis
    unfolding find_loop.simps if_not_P [OF l] read_indefinite [OF assms] prod.case option.case if_P [OF indefinite_indefinite] ..
qed

lemma find_total: "length s < n \<Longrightarrow> find_loop n s depth f \<noteq> None"
proof (induction n arbitrary: s depth f)
  case (Suc n)
  show ?case
  proof (cases "s = []")
    case False
    show ?thesis
    proof (rule ber_read_cases [of s])
      fix s' assume "CBS_get_any_ber_asn1_element s = (None, s')"
      then show ?thesis using False by simp
    next
      fix tag c r assume c: "length c < 2 ^ 32" "s = der_header tag (length c) @ c @ r"
      have l: "length c < n" "length r < n" using Suc.prems c length_der_header(1) [of tag "length c"] by simp_all
      obtain x where "find_loop n c (depth + 1) False = Some x" using Suc.IH [OF l(1)] by blast
      moreover have "\<exists>y. find_loop n r depth f = Some y" for f using Suc.IH [OF l(2)] by blast
      ultimately show ?thesis unfolding c(2) find_definite [OF c(1)] by (simp split: option.split)
    next
      fix tag r assume c: "tag AND CBS_ASN1_CONSTRUCTED \<noteq> 0" "s = der_tag tag @ 0x80 # r"
      show ?thesis unfolding c(2) find_indefinite [OF c(1)] by simp
    qed
  qed simp
qed simp

lemma find_trees:
  "\<forall>t \<in> set ts. ber_ok st depth t \<Longrightarrow> length (concat (map ber_bytes ts)) < n \<Longrightarrow>
   find_loop n (concat (map ber_bytes ts)) depth f = Some (Some (found f ts))"
proof (induction n arbitrary: ts st depth f)
  case (Suc n)
  show ?case
  proof (cases ts)
    case (Cons t us)
    define rest where "rest = concat (map ber_bytes us)"
    have ok: "ber_ok st depth t" "\<forall>t \<in> set us. ber_ok st depth t" using Suc.prems(1) Cons by simp_all
    have l: "length (ber_bytes t) + length rest \<le> n" "0 < length (ber_bytes t)"
      using Suc.prems(2) Cons ber_bytes_ne by (auto simp: rest_def)
    have rec: "find_loop n rest depth f = Some (Some (found f us))" for f
      using Suc.IH [OF ok(2)] l by (simp add: rest_def [symmetric])
    have s: "concat (map ber_bytes ts) = ber_bytes t @ rest" by (simp add: Cons rest_def)
    show ?thesis
    proof (cases t)
      case (Primitive tag c)
      then show ?thesis using ok(1) rec unfolding s by (simp add: find_definite Cons del: find_loop.simps)
    next
      case (Constructed tag ind vs)
      define b where "b = concat (map ber_bytes vs)"
      show ?thesis
      proof (cases ind)
        case True
        then show ?thesis using ok(1) unfolding s Constructed by (simp add: find_indefinite Cons Constructed Let_def del: find_loop.simps)
      next
        case False
        have vs: "\<forall>t \<in> set vs. ber_ok (child_tag st tag) (depth + 1) t" "\<not> depth + 1 > kMaxDepth" "tag AND CBS_ASN1_CONSTRUCTED \<noteq> 0"
          "length b < 2 ^ 32" using ok(1) Constructed False by (auto simp: b_def)
        have "length b < n" using l(1) Constructed False length_der_header(1) [of tag "length b"] by (simp add: Let_def b_def)
        then have "find_loop n b (depth + 1) False = Some (Some (found False vs))"
          unfolding b_def by (rule Suc.IH [OF vs(1)])
        moreover have "ber_bytes t @ rest = der_header tag (length b) @ b @ rest" using Constructed False by (simp add: b_def Let_def)
        ultimately show ?thesis
          unfolding s using rec vs find_definite [OF vs(4), of n tag rest depth f] by (simp add: Cons Constructed False del: find_loop.simps)
      qed
    qed
  qed simp
qed simp

lemma find_ber_trees:
  "\<forall>t \<in> set ts. ber_ok 0 0 t \<Longrightarrow> cbs_find_ber (concat (map ber_bytes ts)) 0 = Some (Some (found False ts))"
  by (simp add: cbs_find_ber_def find_trees [of ts 0 0] del: find_loop.simps)

text \<open>
  A tree contains BER when it has an element of indefinite length or a constructed string, at any depth. The
  search sees it in an element of the list itself, and otherwise only in the contents of the last constructed
  element of the list.
\<close>

fun has_ber :: "ber \<Rightarrow> bool" where
  "has_ber (Primitive tag c) \<longleftrightarrow> False"
| "has_ber (Constructed tag indefinite ts) \<longleftrightarrow> indefinite \<or> is_string_type tag \<or> (\<exists>t \<in> set ts. has_ber t)"

inductive ber_seen :: "ber list \<Rightarrow> bool" where
  seen_here: "Constructed tag indefinite us \<in> set ts \<Longrightarrow> indefinite \<or> is_string_type tag \<Longrightarrow> ber_seen ts"
| seen_last: "ber_seen us \<Longrightarrow> \<forall>t \<in> set ys. \<exists>tag c. t = Primitive tag c \<Longrightarrow> ber_seen (xs @ Constructed tag indefinite us # ys)"

lemma ber_seen_has_ber: "ber_seen ts \<Longrightarrow> \<exists>t \<in> set ts. has_ber t"
proof (induction rule: ber_seen.induct)
  case (seen_here tag indefinite us ts)
  then show ?case by (intro bexI [of _ "Constructed tag indefinite us"]) auto
qed auto

lemma ber_seen_Nil: "\<not> ber_seen []"
  by (auto elim: ber_seen.cases)

lemma ber_seen_ConsI: "ber_seen ts \<Longrightarrow> ber_seen (t # ts)"
proof (induction rule: ber_seen.cases)
  case (seen_here tag indefinite us ts')
  then show ?case by (intro ber_seen.seen_here [of tag indefinite us]) simp_all
next
  case (seen_last us ys xs tag indefinite)
  then show ?case using ber_seen.seen_last [of us ys "t # xs" tag indefinite] by simp
qed

lemma ber_seen_Cons:
  "ber_seen (t # ts) \<longleftrightarrow> ber_seen ts \<or> (case t of Primitive tag c \<Rightarrow> False
     | Constructed tag indefinite us \<Rightarrow> indefinite \<or> is_string_type tag \<or>
         ber_seen us \<and> (\<forall>t \<in> set ts. \<exists>tag c. t = Primitive tag c))" (is "?l \<longleftrightarrow> ?r")
proof
  assume ?l
  then show ?r
  proof cases
    case (seen_here tag indefinite us)
    then show ?thesis by (auto intro: ber_seen.seen_here)
  next
    case (seen_last us ys xs tag indefinite)
    then show ?thesis by (cases xs) (auto intro: ber_seen.seen_last)
  qed
next
  assume ?r
  then show ?l using ber_seen.seen_last [of _ ts "[]"] by (auto intro: ber_seen_ConsI ber_seen.seen_here split: ber.splits)
qed

lemma found_seen: "found f ts \<longleftrightarrow> ber_seen ts \<or> f \<and> (\<forall>t \<in> set ts. \<exists>tag c. t = Primitive tag c)"
  by (induction f ts rule: found.induct) (auto simp: ber_seen_Nil ber_seen_Cons)

section \<open>The size of the output\<close>

lemma length_out_tag: "length (der_tag (out_tag tag)) \<le> length (der_tag tag)"
proof (cases "tag AND CBS_ASN1_CONSTRUCTED \<noteq> 0 \<and> is_string_type tag")
  case True
  then have "length (der_tag (out_tag tag)) = 1"
    by (auto simp: out_tag_def is_string_type_def der_tag_def tag_mask CBS_ASN1_BITSTRING_def CBS_ASN1_OCTETSTRING_def
      CBS_ASN1_UTF8STRING_def CBS_ASN1_NUMERICSTRING_def CBS_ASN1_PRINTABLESTRING_def CBS_ASN1_T61STRING_def CBS_ASN1_VIDEOTEXSTRING_def
      CBS_ASN1_IA5STRING_def CBS_ASN1_GRAPHICSTRING_def CBS_ASN1_VISIBLESTRING_def CBS_ASN1_GENERALSTRING_def CBS_ASN1_UNIVERSALSTRING_def
      CBS_ASN1_BMPSTRING_def)
  then show ?thesis using length_der_tag(1) [of tag] by linarith
qed (auto simp: out_tag_def)

lemma wrap_enc_length:
  assumes "wrap_enc st tag e = Some bs"
  shows "\<exists>xs. e = Some xs \<and> length bs \<le> length (der_tag tag) + 5 + length xs"
proof (cases "st = 0")
  case True
  then obtain xs p where "e = Some xs" "child_prefix 1 True (length xs) = Some p" "bs = der_tag (out_tag tag) @ p @ xs"
    using assms by (auto simp: wrap_enc_def cat_def prefixed_def bind_eq_Some_conv)
  moreover from this have "length p \<le> 5" using length_der_len(2) by (auto simp: child_prefix_def split: if_splits)
  ultimately show ?thesis using length_out_tag [of tag] by simp
qed (use assms in \<open>simp add: wrap_enc_def\<close>)

lemma items_length:
  "encode_all (ber_items st t) = Some bs \<Longrightarrow> length bs \<le> 5 * length (ber_bytes t)"
proof (induction t arbitrary: st bs)
  case (Primitive tag c)
  then obtain xs where "encode_all [Raw c] = Some xs" "length bs \<le> length (der_tag tag) + 5 + length xs"
    using wrap_enc_length by (fastforce simp: encode_element simp del: encode_all.simps)
  then show ?case using length_der_len(1) [of "length c"] length_der_tag(1) [of tag] by (simp add: cat_def der_header_def)
next
  case (Constructed tag ind ts)
  have all: "length xs \<le> 5 * length (concat (map ber_bytes us))"
    if "set us \<subseteq> set ts" "encode_all (concat (map (ber_items st') us)) = Some xs" for us xs st'
    using that
  proof (induction us arbitrary: xs)
    case (Cons u us)
    then obtain ys zs where "encode_all (ber_items st' u) = Some ys" "encode_all (concat (map (ber_items st') us)) = Some zs" "xs = ys @ zs"
      by (auto simp: encode_all_append cat_def bind_eq_Some_conv)
    then show ?case using Cons Constructed.IH [of u st' ys] by fastforce
  qed simp
  from Constructed.prems obtain xs where xs: "encode_all (concat (map (ber_items (child_tag st tag)) ts)) = Some xs"
    "length bs \<le> length (der_tag tag) + 5 + length xs"
    using wrap_enc_length by (fastforce simp: encode_element)
  from all [OF order_refl xs(1)] xs(2) show ?case
    using length_der_len(1) [of "length (concat (map ber_bytes ts))"] length_der_tag(1) [of tag] by (simp add: Let_def der_header_def)
qed

lemma all_items_length:
  "encode_all (concat (map (ber_items st) ts)) = Some bs \<Longrightarrow> length bs \<le> 5 * length (concat (map ber_bytes ts))"
proof (induction ts arbitrary: bs)
  case (Cons t ts)
  then obtain ys zs where "encode_all (ber_items st t) = Some ys" "encode_all (concat (map (ber_items st) ts)) = Some zs" "bs = ys @ zs"
    by (auto simp: encode_all_append cat_def bind_eq_Some_conv)
  with Cons.IH [of zs] items_length [of st t ys] show ?case by simp
qed simp


section \<open>Conversion\<close>

lemma converted:
  assumes f: "cbs_find_ber inn 0 = Some (Some True)"
    and p: "produced mem (CBS_len inn) (conv mem (Suc (length inn)) 0 False 0 0 inn) = Some x"
  shows "\<exists>r. CBS_asn1_ber_to_der mem inn = Some (map_option (\<lambda>out. (out, True)) x, r) \<and> (x \<noteq> None \<longrightarrow> r = [])"
proof -
  have cl: "\<And>c. CBB_cleanup 0 c = Some (c\<lparr>base := None\<rparr>)" by (simp add: CBB_cleanup_def)
  have cv: "cbs_convert_ber mem 0 False 0 0 inn = convert_loop mem (Suc (length inn)) 0 False 0 0 inn"
    by (simp add: fun_eq_iff cbs_convert_ber_def kMaxDepth_def del: convert_loop.simps)
  obtain ok s where init: "CBB_init mem (CBS_len inn) = Some (ok, s)"
    using p by (auto simp: produced_def bind_eq_Some_conv)
  note run = CBS_asn1_ber_to_der_def f init cv cl
  show ?thesis
  proof (cases ok)
    case False
    then show ?thesis using p by (simp add: run produced_def)
  next
    case True
    then obtain ok2 r t where c: "convert_loop mem (Suc (length inn)) 0 False 0 0 inn s = Some (ok2, r, t)"
      using p init by (auto simp: produced_def conv_def strip_def bind_eq_Some_conv simp del: convert_loop.simps)
    show ?thesis
    proof (cases ok2)
      case False
      then show ?thesis using p True c by (simp add: run produced_def conv_def strip_def del: convert_loop.simps)
    next
      case ok2: True
      obtain ts where "parse (Suc (length inn)) 0 False 0 inn = Some (ts, r)" using c ok2 by (auto dest!: convert_rest simp del: parse.simps convert_loop.simps)
      then have "r = []" using parse_SomeD by blast
      moreover obtain out u where "CBB_finish mem False 0 t = Some (out, u)" "out = x"
        using p init True c ok2 by (auto simp: produced_def conv_def strip_def bind_eq_Some_conv simp del: convert_loop.simps)
      ultimately show ?thesis
        using True c ok2 by (cases x) (simp_all add: run del: convert_loop.simps)
    qed
  qed
qed

lemma conversion:
  assumes mem: "\<forall>n. mem n" and small: "length inn < 2 ^ 60"
  shows "produced mem (CBS_len inn) (conv mem (Suc (length inn)) 0 False 0 0 inn) = Some (enc 0 (parse (Suc (length inn)) 0 False 0 inn))"
proof -
  let ?e = "enc 0 (parse (Suc (length inn)) 0 False 0 inn)"
  have "length bs < 2 ^ 64" if "?e = Some bs" for bs
  proof -
    obtain ts r where ts: "parse (Suc (length inn)) 0 False 0 inn = Some (ts, r)" using \<open>?e = Some bs\<close>
      by (cases "parse (Suc (length inn)) 0 False 0 inn") (auto simp del: parse.simps)
    then have "inn = concat (map ber_bytes ts)" using parse_SomeD [OF ts] by simp
    moreover have "encode_all (concat (map (ber_items 0) ts)) = Some bs" using that ts by (simp add: enc_trees del: parse.simps)
    ultimately show ?thesis using all_items_length small by fastforce
  qed
  moreover have "length inn < Suc (length inn)" "length inn < 2 ^ 64" "(0 :: u32) AND CBS_ASN1_CONSTRUCTED = 0" using small by simp_all
  note ck = conv_appends [OF this, of mem 0 False 0]
  ultimately show ?thesis using produced_appends [OF conjunct1 [OF ck] conjunct2 [OF ck]] mem by fastforce
qed

lemma unconverted:
  assumes "\<forall>u \<in> set (t # ts). ber_ok 0 0 u" "\<not> ber_seen (t # ts)"
  shows "CBS_asn1_ber_to_der mem (concat (map ber_bytes (t # ts))) = Some (Some (ber_bytes t, False), concat (map ber_bytes ts))"
proof -
  have d: "\<not> (\<exists>tag us. t = Constructed tag True us)" using assms(2) by (auto simp: ber_seen_Cons)
  then obtain tag c where "ber_bytes t = der_header tag (length c) @ c" "length c < 2 ^ 32"
    using assms(1) by (cases t) (auto simp: Let_def)
  moreover have "cbs_find_ber (concat (map ber_bytes (t # ts))) 0 = Some (Some False)"
    using find_ber_trees [OF assms(1)] assms(2) by (simp add: found_seen del: found.simps)
  ultimately show ?thesis
    using any_element_encoding [of c tag "concat (map ber_bytes ts)"] by (simp add: CBS_asn1_ber_to_der_def)
qed

text \<open>
  C28. What \<open>CBS_asn1_ber_to_der\<close> does with the encoding of a list of well-formed BER elements below \<open>2 ^ 60\<close> bytes,
  when memory does not run out: it is defined, and
  \<^item> if none of the elements contains BER at any depth, it returns the first one as it is and leaves the others;
  \<^item> if the search sees BER, it returns the DER encoding of all the elements, or an error when that would need an element
    of 4 GB, and all of the input is consumed: the elements behind the first one as well, where its comment in
    \<open>internal.h\<close> has it read one element;
  \<^item> if there is BER that the search does not see, because it lies below an element in front of the last constructed
    one of its list, it returns the first element as it is, unconverted: a fault of \<open>cbs_find_ber\<close>, whose nested calls
    reset \<open>*ber_found\<close>. One element of indefinite length or one constructed string is always seen.
  On any other input nothing is returned as converted.
\<close>

theorem ber_to_der:
  assumes mem: "\<forall>n. mem n" and small: "length inn < 2 ^ 60"
  shows "CBS_asn1_ber_to_der mem inn \<noteq> None \<and>
    (\<forall>t ts. (\<forall>u \<in> set (t # ts). ber_ok 0 0 u) \<and> inn = concat (map ber_bytes (t # ts)) \<longrightarrow>
      (\<not> (\<exists>u \<in> set (t # ts). has_ber u) \<longrightarrow> CBS_asn1_ber_to_der mem inn = Some (Some (ber_bytes t, False), concat (map ber_bytes ts))) \<and>
      (ber_seen (t # ts) \<longrightarrow> (case encode_all (concat (map (ber_items 0) (t # ts))) of
          None \<Rightarrow> \<exists>r. CBS_asn1_ber_to_der mem inn = Some (None, r)
        | Some out \<Rightarrow> CBS_asn1_ber_to_der mem inn = Some (Some (out, True), []))) \<and>
      ((\<exists>u \<in> set (t # ts). has_ber u) \<and> \<not> ber_seen (t # ts) \<longrightarrow>
        CBS_asn1_ber_to_der mem inn = Some (Some (ber_bytes t, False), concat (map ber_bytes ts)))) \<and>
    (\<forall>out r. CBS_asn1_ber_to_der mem inn = Some (Some (out, True), r) \<longrightarrow>
      r = [] \<and> (\<exists>ts. (\<forall>t \<in> set ts. ber_ok 0 0 t) \<and> inn = concat (map ber_bytes ts) \<and> (\<exists>t \<in> set ts. has_ber t) \<and>
        encode_all (concat (map (ber_items 0) ts)) = Some out))"
  (is "?def \<and> ?trees \<and> ?only")
proof -
  define p where "p = parse (Suc (length inn)) 0 False 0 inn"
  note conv = conversion [OF mem small, folded p_def]
  obtain f where f: "cbs_find_ber inn 0 = Some f" using find_total [of inn "Suc (length inn)" 0 False] by (auto simp: cbs_find_ber_def)
  have yes: "\<exists>r. CBS_asn1_ber_to_der mem inn = Some (map_option (\<lambda>out. (out, True)) (enc 0 p), r) \<and> (enc 0 p \<noteq> None \<longrightarrow> r = [])" if "f = Some True"
    using f that by (intro converted conv) simp
  have no: "\<exists>x r. CBS_asn1_ber_to_der mem inn = Some (x, r) \<and> (\<forall>out. x \<noteq> Some (out, True))" if "f \<noteq> Some True"
    using f that by (cases f) (auto simp: CBS_asn1_ber_to_der_def split: prod.split option.split bool.split)
  have ?def using yes no by (cases "f = Some True") auto
  moreover have ?only
  proof (intro allI impI)
    fix out r assume r: "CBS_asn1_ber_to_der mem inn = Some (Some (out, True), r)"
    then have c: "f = Some True" "enc 0 p = Some out" "r = []" using yes no by (cases "f = Some True"; fastforce)+
    then obtain ts r' where ts: "p = Some (ts, r')" by (cases p) auto
    from parse_SomeD [OF ts [unfolded p_def]] have w: "\<forall>t \<in> set ts. ber_ok 0 0 t" "inn = concat (map ber_bytes ts)" by simp_all
    have "ber_seen ts" using find_ber_trees [OF w(1)] w(2) f c(1) found_seen [of False ts] by simp
    then show "r = [] \<and> (\<exists>ts. (\<forall>t \<in> set ts. ber_ok 0 0 t) \<and> inn = concat (map ber_bytes ts) \<and> (\<exists>t \<in> set ts. has_ber t) \<and>
        encode_all (concat (map (ber_items 0) ts)) = Some out)"
      using c ts w ber_seen_has_ber by (auto simp: enc_trees)
  qed
  moreover have ?trees
  proof (intro allI impI, elim conjE)
    fix t ts assume w: "\<forall>u \<in> set (t # ts). ber_ok 0 0 u" "inn = concat (map ber_bytes (t # ts))"
    note un = unconverted [OF w(1), of mem, folded w(2)]
    have "f = Some True" if "ber_seen (t # ts)"
      using find_ber_trees [OF w(1)] w(2) f that found_seen [of False "t # ts"] by simp
    moreover have "p = Some (t # ts, [])" unfolding p_def
      using parse_trees [OF w(1), of "[]" "Suc (length inn)" False "[]"] w(2) by (simp del: parse.simps)
    ultimately have "case encode_all (concat (map (ber_items 0) (t # ts))) of
          None \<Rightarrow> \<exists>r. CBS_asn1_ber_to_der mem inn = Some (None, r)
        | Some out \<Rightarrow> CBS_asn1_ber_to_der mem inn = Some (Some (out, True), [])" if "ber_seen (t # ts)"
      using yes that by (auto simp: enc_trees split: option.split)
    then show "(\<not> (\<exists>u \<in> set (t # ts). has_ber u) \<longrightarrow> CBS_asn1_ber_to_der mem inn = Some (Some (ber_bytes t, False), concat (map ber_bytes ts))) \<and>
      (ber_seen (t # ts) \<longrightarrow> (case encode_all (concat (map (ber_items 0) (t # ts))) of
          None \<Rightarrow> \<exists>r. CBS_asn1_ber_to_der mem inn = Some (None, r)
        | Some out \<Rightarrow> CBS_asn1_ber_to_der mem inn = Some (Some (out, True), []))) \<and>
      ((\<exists>u \<in> set (t # ts). has_ber u) \<and> \<not> ber_seen (t # ts) \<longrightarrow>
        CBS_asn1_ber_to_der mem inn = Some (Some (ber_bytes t, False), concat (map ber_bytes ts)))"
      using un ber_seen_has_ber [of "t # ts"] by blast
  qed
  ultimately show ?thesis by blast
qed


theorem ber_to_der_witness:
  "CBS_asn1_ber_to_der (\<lambda>n. True) [0x30, 0x80, 0x24, 6, 4, 1, 7, 4, 1, 8, 0, 0, 2, 1, 5] =
     Some (Some ([0x30, 4, 4, 2, 7, 8, 2, 1, 5], True), []) \<and>
   CBS_asn1_ber_to_der (\<lambda>n. True) [0x30, 8, 0x30, 4, 0x30, 0x80, 0, 0, 0x30, 0] =
     Some (Some ([0x30, 8, 0x30, 4, 0x30, 0x80, 0, 0, 0x30, 0], False), [])"
proof
  note tags = der_tag_def tag_mask der_header_def der_len_def out_tag_def child_tag_def CBS_ASN1_CONSTRUCTED_def CBS_ASN1_TAG_SHIFT_def
    is_string_type_def CBS_ASN1_BITSTRING_def CBS_ASN1_OCTETSTRING_def CBS_ASN1_UTF8STRING_def CBS_ASN1_NUMERICSTRING_def CBS_ASN1_PRINTABLESTRING_def CBS_ASN1_T61STRING_def CBS_ASN1_VIDEOTEXSTRING_def
      CBS_ASN1_IA5STRING_def CBS_ASN1_GRAPHICSTRING_def CBS_ASN1_VISIBLESTRING_def CBS_ASN1_GENERALSTRING_def CBS_ASN1_UNIVERSALSTRING_def
      CBS_ASN1_BMPSTRING_def
  let ?inn = "[0x30, 0x80, 0x24, 6, 4, 1, 7, 4, 1, 8, 0, 0, 2, 1, 5] :: u8 list" and ?out = "[0x30, 4, 4, 2, 7, 8, 2, 1, 5] :: u8 list"
  define t ts where "t = Constructed 0x20000010 True [Constructed 0x20000004 False [Primitive 4 [7], Primitive 4 [8]]]" and "ts = [Primitive 2 [5]]"
  have ok: "\<forall>u \<in> set (t # ts). ber_ok 0 0 u" by (simp add: t_def ts_def tags kMaxDepth_def)
  have bytes: "?inn = concat (map ber_bytes (t # ts))" by (simp add: t_def ts_def tags Let_def)
  have l: "length ?inn < 2 ^ 60" by simp
  have s: "ber_seen (t # ts)" by (simp add: t_def ber_seen_Cons)
  have e: "encode_all (concat (map (ber_items 0) (t # ts))) = Some ?out"
    by (simp add: t_def ts_def tags wrap_def cat_def prefixed_def child_prefix_def)
  have "case encode_all (concat (map (ber_items 0) (t # ts))) of
          None \<Rightarrow> \<exists>r. CBS_asn1_ber_to_der (\<lambda>n. True) ?inn = Some (None, r)
        | Some out \<Rightarrow> CBS_asn1_ber_to_der (\<lambda>n. True) ?inn = Some (Some (out, True), [])"
    using ber_to_der [of "\<lambda>n. True" ?inn] l ok bytes s by blast
  then show "CBS_asn1_ber_to_der (\<lambda>n. True) ?inn = Some (Some (?out, True), [])" unfolding e by simp
  let ?inn = "[0x30, 8, 0x30, 4, 0x30, 0x80, 0, 0, 0x30, 0] :: u8 list"
  define t where "t = Constructed 0x20000010 False [Constructed 0x20000010 False [Constructed 0x20000010 True []], Constructed 0x20000010 False []]"
  have ok: "\<forall>u \<in> set (t # []). ber_ok 0 0 u" by (simp add: t_def tags kMaxDepth_def)
  have bytes: "?inn = concat (map ber_bytes (t # []))" by (simp add: t_def tags Let_def)
  have l: "length ?inn < 2 ^ 60" by simp
  have s: "has_ber t" "\<not> ber_seen (t # [])" by (simp_all add: t_def ber_seen_Cons ber_seen_Nil tags)
  have "CBS_asn1_ber_to_der (\<lambda>n. True) ?inn = Some (Some (ber_bytes t, False), concat (map ber_bytes []))"
    using ber_to_der [of "\<lambda>n. True" ?inn] l ok bytes s list.set_intros(1) [of t "[]"] by blast
  then show "CBS_asn1_ber_to_der (\<lambda>n. True) ?inn = Some (Some (?inn, False), [])" using bytes by simp
qed

section \<open>Strings in chunks\<close>

text \<open>The elements of an implicitly tagged constructed string, and their contents.\<close>

definition chunks :: "u32 \<Rightarrow> u8 list list \<Rightarrow> u8 list" where
  "chunks tag cs = concat (map (\<lambda>c. der_header tag (length c) @ c) cs)"

lemma chunks_simps [simp]: "chunks tag [] = []" "chunks tag (c # cs) = der_header tag (length c) @ c @ chunks tag cs"
  by (simp_all add: chunks_def)

lemma chunks_Nil: "chunks tag cs = [] \<longleftrightarrow> cs = []"
  using header_nonempty by (cases cs) auto

lemma chunks_ne: "chunks tag (c # cs) \<noteq> []"
  unfolding chunks_Nil by simp

lemma get_chunk:
  "length c < 2 ^ 32 \<Longrightarrow> CBS_get_asn1 tag (chunks tag (c # cs)) = (Some c, chunks tag cs)"
  using get_asn1_encoding [of c tag "chunks tag cs"] by simp

lemma add_chunks_ret: "add_chunks mem (Suc n) tag [] = ret True"
  by (simp add: fun_eq_iff ret_def)

lemma add_chunks_step: "child \<noteq> [] \<Longrightarrow> add_chunks mem (Suc n) tag child = (case CBS_get_asn1 tag child of
    (None, child) \<Rightarrow> ret False
  | (Some chunk, child) \<Rightarrow> and_then (CBB_add_bytes mem chunk 0) (add_chunks mem n tag child))"
  by (auto simp: fun_eq_iff ret_def CBS_data_def split: prod.split option.split)

declare add_chunks.simps(2) [simp del]

lemma keeping_bytes_open: "length bs < 2 ^ 64 \<Longrightarrow> keeping (open_at d) (CBB_add_bytes mem bs d) (open_at d)"
  by (rule keeping_mono [OF keeping_bytes]) simp_all

lemma add_chunks_keeping:
  "length child < n \<Longrightarrow> length child < 2 ^ 64 \<Longrightarrow> keeping (open_at 0) (add_chunks mem n tag child) (open_at 0)"
proof (induction n arbitrary: child)
  case (Suc n)
  obtain a r where g: "CBS_get_asn1 tag child = (a, r)" by force
  show ?case
  proof (cases "child = [] \<or> a = None")
    case True
    then have "add_chunks mem (Suc n) tag child = ret (child = [])"
      using g by (cases "child = []") (simp_all add: add_chunks_ret add_chunks_step)
    then show ?thesis using keeping_ret by simp
  next
    case False
    then obtain c where c: "a = Some c" "child \<noteq> []" by auto
    from get_asn1_SomeD [OF g [unfolded c]] have "length r < length child" "length c < 2 ^ 64"
      using length_der_header(1) [of tag "length c"] by auto
    then show ?thesis
      using Suc.IH [of r] Suc.prems g c keeping_and_then [OF keeping_bytes_open] by (simp add: add_chunks_step)
  qed
qed simp

lemma add_chunks_join:
  "\<forall>c \<in> set cs. length c < 2 ^ 32 \<Longrightarrow> length (chunks tag cs) < n \<Longrightarrow>
   appends mem 0 (add_chunks mem n tag (chunks tag cs)) (Some (concat cs))"
proof (induction cs arbitrary: n)
  case Nil
  then obtain m where "n = Suc m" by (cases n) simp_all
  then show ?case by (simp only: chunks_simps add_chunks_ret concat.simps appends_ret)
next
  case (Cons c cs)
  then obtain m where n: "n = Suc m" by (cases n) simp_all
  have l: "length (chunks tag cs) < m" "length c < 2 ^ 32" "\<forall>c \<in> set cs. length c < 2 ^ 32"
    using Cons.prems n length_der_header(1) [of tag "length c"] by simp_all
  have c64: "length c < 2 ^ 64" using l(2) by simp
  show ?case
    unfolding n add_chunks_step [OF chunks_ne] get_chunk [OF l(2)] prod.case option.case concat.simps
    by (rule appends_cat [OF appends_bytes [OF c64] Cons.IH [OF l(3,1)] keeping_bytes_open [OF c64]]) (simp add: cat_def)
qed

lemma add_chunks_fails:
  "\<nexists>cs. (\<forall>c \<in> set cs. length c < 2 ^ 32) \<and> child = chunks tag cs \<Longrightarrow> length child < n \<Longrightarrow> appends mem 0 (add_chunks mem n tag child) None"
proof (induction n arbitrary: child)
  case (Suc n)
  have ne: "child \<noteq> []" using Suc.prems(1) by (metis chunks_simps(1) empty_iff list.set(1))
  obtain a r where g: "CBS_get_asn1 tag child = (a, r)" by force
  show ?case
  proof (cases a)
    case None
    then show ?thesis unfolding add_chunks_step [OF ne] g by (simp add: appends_False)
  next
    case (Some c)
    note d = get_asn1_SomeD [OF g [unfolded Some]]
    have c64: "length c < 2 ^ 64" using d by simp
    have "\<nexists>cs. (\<forall>c \<in> set cs. length c < 2 ^ 32) \<and> r = chunks tag cs"
    proof
      assume "\<exists>cs. (\<forall>c \<in> set cs. length c < 2 ^ 32) \<and> r = chunks tag cs"
      then obtain cs where cs: "\<forall>c \<in> set cs. length c < 2 ^ 32" "r = chunks tag cs" by blast
      then have "(\<forall>c \<in> set (c # cs). length c < 2 ^ 32) \<and> child = chunks tag (c # cs)" using d by simp
      then show False using Suc.prems(1) by blast
    qed
    moreover have "length r < n" using d Suc.prems(2) length_der_header(1) [of tag "length c"] by simp
    ultimately have "appends mem 0 (add_chunks mem n tag r) None" by (rule Suc.IH)
    then show ?thesis
      unfolding add_chunks_step [OF ne] g Some prod.case option.case
      by (rule appends_cat [OF appends_bytes [OF c64] _ keeping_bytes_open [OF c64]]) simp
  qed
qed simp

text \<open>The result of writing the chunks into a buffer of their own.\<close>

lemma chunks_produced:
  assumes "\<forall>n. mem n" "length child < 2 ^ 60"
  shows "\<exists>e. produced mem cap (add_chunks mem (Suc (length child)) tag child) = Some e \<and>
    (\<forall>out. e = Some out \<longleftrightarrow> (\<exists>cs. (\<forall>c \<in> set cs. length c < 2 ^ 32) \<and> child = chunks tag cs \<and> out = concat cs))"
proof (cases "\<exists>cs. (\<forall>c \<in> set cs. length c < 2 ^ 32) \<and> child = chunks tag cs")
  case True
  then obtain cs where cs: "\<forall>c \<in> set cs. length c < 2 ^ 32" "child = chunks tag cs" by blast
  have inj: "concat cs' = concat cs" if "\<forall>c \<in> set cs'. length c < 2 ^ 32" "chunks tag cs' = chunks tag cs" for cs'
    using that cs(1)
  proof (induction cs' arbitrary: cs)
    case Nil
    then show ?case using chunks_Nil [of tag cs] by simp
  next
    case (Cons c cs')
    have "chunks tag cs \<noteq> []" unfolding Cons.prems(2) [symmetric] by (rule chunks_ne)
    then obtain c2 cs2 where c2: "cs = c2 # cs2" unfolding chunks_Nil by (cases cs) simp_all
    have l: "length c < 2 ^ 32" "length c2 < 2 ^ 32" "\<forall>c \<in> set cs'. length c < 2 ^ 32" "\<forall>c \<in> set cs2. length c < 2 ^ 32"
      using Cons.prems(1,3) c2 by simp_all
    have "CBS_get_asn1 tag (chunks tag (c # cs')) = CBS_get_asn1 tag (chunks tag (c2 # cs2))" unfolding Cons.prems(2) c2 ..
    then have e: "c = c2" "chunks tag cs' = chunks tag cs2" unfolding get_chunk [OF l(1)] get_chunk [OF l(2)] by simp_all
    from Cons.IH [OF l(3) e(2) l(4)] show ?case unfolding c2 e(1) by simp
  qed
  have le: "length (concat xs) \<le> length (chunks tag xs)" for xs by (induction xs) simp_all
  have "length (concat cs) < 2 ^ 64" using le [of cs] assms(2) cs(2) by simp
  moreover have l64: "length child < 2 ^ 64" "length child < Suc (length child)" using assms(2) by simp_all
  have ap: "appends mem 0 (add_chunks mem (Suc (length child)) tag child) (Some (concat cs))"
    using add_chunks_join [OF cs(1), of tag "Suc (length child)" mem] cs(2) by (simp)
  ultimately have "produced mem cap (add_chunks mem (Suc (length child)) tag child) = Some (Some (concat cs))"
    using produced_appends [OF ap add_chunks_keeping [OF l64(2,1)]] assms(1) by fastforce
  moreover have "Some (concat cs) = Some out \<longleftrightarrow> (\<exists>cs. (\<forall>c \<in> set cs. length c < 2 ^ 32) \<and> child = chunks tag cs \<and> out = concat cs)" for out
  proof
    assume "Some (concat cs) = Some out"
    then show "\<exists>cs. (\<forall>c \<in> set cs. length c < 2 ^ 32) \<and> child = chunks tag cs \<and> out = concat cs" using cs by blast
  next
    assume "\<exists>cs. (\<forall>c \<in> set cs. length c < 2 ^ 32) \<and> child = chunks tag cs \<and> out = concat cs"
    then obtain cs' where "\<forall>c \<in> set cs'. length c < 2 ^ 32" "child = chunks tag cs'" "out = concat cs'" by blast
    with inj [of cs'] cs(2) show "Some (concat cs) = Some out" by simp
  qed
  ultimately show ?thesis by blast
next
  case False
  have l64: "length child < 2 ^ 64" "length child < Suc (length child)" using assms(2) by simp_all
  have "produced mem cap (add_chunks mem (Suc (length child)) tag child) = Some None"
    using produced_appends [OF add_chunks_fails [OF False l64(2)] add_chunks_keeping [OF l64(2,1)]] assms(1) by fastforce
  then show ?thesis using False by auto
qed


lemma peek_tag:
  assumes "length (der_header tag n @ x) < 2 ^ 64"
  shows "CBS_peek_asn1_tag (der_header tag n @ x) outer \<longleftrightarrow> outer = tag"
proof -
  have "unat (CBS_len (der_header tag n @ x)) = length (der_header tag n @ x)"
    unfolding CBS_len_def using assms by (rule unat_of_nat_u64)
  then have "\<not> CBS_len (der_header tag n @ x) < 1" using header_ne(1) [of tag n x] by (simp add: word_less_nat_alt)
  moreover have "parse_asn1_tag (der_header tag n @ x) = (Some tag, der_len n @ x)"
    using parse_tag [of tag "der_len n @ x"] by (simp add: der_header_def)
  ultimately show ?thesis by (simp add: CBS_peek_asn1_tag_def)
qed

lemma implicit_constructed:
  assumes mem: "\<forall>n. mem n" and small: "length inn < 2 ^ 60"
    and tags: "outer AND CBS_ASN1_CONSTRUCTED = 0" "inner AND CBS_ASN1_CONSTRUCTED = 0" "is_string_type inner"
    and peek: "\<not> CBS_peek_asn1_tag inn outer"
  shows "\<exists>x r. CBS_get_asn1_implicit_string mem outer inner inn = Some (map_option (\<lambda>out. (out, True)) x, r) \<and>
    r = snd (CBS_get_asn1 (outer OR CBS_ASN1_CONSTRUCTED) inn) \<and> (\<forall>out. x = Some out \<longleftrightarrow> (\<exists>cs. (\<forall>c \<in> set cs. length c < 2 ^ 32) \<and> length (chunks inner cs) < 2 ^ 32 \<and>
      inn = der_header (outer OR CBS_ASN1_CONSTRUCTED) (length (chunks inner cs)) @ chunks inner cs @ r \<and> out = concat cs))"
proof -
  let ?tag = "outer OR CBS_ASN1_CONSTRUCTED"
  have cl: "\<And>c. CBB_cleanup 0 c = Some (c\<lparr>base := None\<rparr>)" by (simp add: CBB_cleanup_def)
  obtain s where init: "CBB_init mem (CBS_len inn) = Some (True, s)"
    using mem by (auto simp: CBB_init_def cbb_init_def)
  note run = CBS_get_asn1_implicit_string_def init cl
  obtain a r where g: "CBS_get_asn1 ?tag inn = (a, r)" by force
  show ?thesis
  proof (cases a)
    case None
    have "inn \<noteq> der_header ?tag (length c) @ c @ r'" if "length c < 2 ^ 32" for c r'
      using get_asn1_encoding [OF that, of ?tag r'] g None by auto
    then show ?thesis using g None tags peek by (intro exI [of _ None] exI [of _ r]) (auto simp: run)
  next
    case (Some child)
    note d = get_asn1_SomeD [OF g [unfolded Some]]
    have l60: "length child < 2 ^ 60" using d by simp
    obtain e where e: "produced mem (CBS_len inn) (add_chunks mem (Suc (length child)) inner child) = Some e"
      "\<And>out. e = Some out \<longleftrightarrow> (\<exists>cs. (\<forall>c \<in> set cs. length c < 2 ^ 32) \<and> child = chunks inner cs \<and> out = concat cs)"
      using chunks_produced [OF mem l60, of "CBS_len inn" inner] by auto
    have iff: "e = Some out \<longleftrightarrow> (\<exists>cs. (\<forall>c \<in> set cs. length c < 2 ^ 32) \<and> length (chunks inner cs) < 2 ^ 32 \<and>
      inn = der_header ?tag (length (chunks inner cs)) @ chunks inner cs @ r \<and> out = concat cs)" for out
    proof
      assume "e = Some out"
      then show "\<exists>cs. (\<forall>c \<in> set cs. length c < 2 ^ 32) \<and> length (chunks inner cs) < 2 ^ 32 \<and>
        inn = der_header ?tag (length (chunks inner cs)) @ chunks inner cs @ r \<and> out = concat cs" unfolding e(2) using d by blast
    next
      assume "\<exists>cs. (\<forall>c \<in> set cs. length c < 2 ^ 32) \<and> length (chunks inner cs) < 2 ^ 32 \<and>
        inn = der_header ?tag (length (chunks inner cs)) @ chunks inner cs @ r \<and> out = concat cs"
      then obtain cs where cs: "\<forall>c \<in> set cs. length c < 2 ^ 32" "length (chunks inner cs) < 2 ^ 32"
        "inn = der_header ?tag (length (chunks inner cs)) @ chunks inner cs @ r" "out = concat cs" by blast
      have "child = chunks inner cs" using get_asn1_encoding [OF cs(2), of ?tag r] g Some unfolding cs(3) by simp
      then show "e = Some out" unfolding e(2) using cs by blast
    qed
    have "CBS_get_asn1_implicit_string mem outer inner inn = Some (map_option (\<lambda>out. (out, True)) e, r)"
      using e(1) g Some tags peek init by (cases e) (auto simp: run produced_def bind_eq_Some_conv split: option.splits if_splits)
    then show ?thesis using iff g by (intro exI [of _ e] exI [of _ r]) simp
  qed
qed

text \<open>
  C29. \<open>CBS_get_asn1_implicit_string\<close> with its preconditions, enough memory and less than \<open>2 ^ 60\<close> bytes is defined. It returns bytes of the
  input if and only if the input starts with a primitive element with the outer tag, whose content they are; it returns a new
  string if and only if the input starts with a constructed one whose content is a sequence of primitive elements with the inner tag,
  and the string is that of their contents in order. It leaves what follows.
\<close>

theorem implicit_string:
  assumes mem: "\<forall>n. mem n" and small: "length inn < 2 ^ 60"
    and tags: "outer AND CBS_ASN1_CONSTRUCTED = 0" "inner AND CBS_ASN1_CONSTRUCTED = 0" "is_string_type inner"
  shows "CBS_get_asn1_implicit_string mem outer inner inn \<noteq> None \<and>
    (CBS_get_asn1_implicit_string mem outer inner inn = Some (Some (out, False), r) \<longleftrightarrow>
      length out < 2 ^ 32 \<and> inn = der_tag outer @ der_len (length out) @ out @ r) \<and>
    (CBS_get_asn1_implicit_string mem outer inner inn = Some (Some (out, True), r) \<longleftrightarrow>
      (\<exists>cs body. body = concat (map (\<lambda>c. der_tag inner @ der_len (length c) @ c) cs) \<and> (\<forall>c \<in> set cs. length c < 2 ^ 32) \<and> length body < 2 ^ 32 \<and>
        inn = der_tag (outer OR CBS_ASN1_CONSTRUCTED) @ der_len (length body) @ body @ r \<and> out = concat cs))"
proof -
  let ?tag = "outer OR CBS_ASN1_CONSTRUCTED" and ?res = "CBS_get_asn1_implicit_string mem outer inner inn"
  have "?tag AND CBS_ASN1_CONSTRUCTED = CBS_ASN1_CONSTRUCTED" by (simp add: bit_eq_iff bit_simps)
  moreover have "CBS_ASN1_CONSTRUCTED \<noteq> 0" by (simp add: CBS_ASN1_CONSTRUCTED_def CBS_ASN1_TAG_SHIFT_def)
  ultimately have neq: "?tag \<noteq> outer" using tags(1) by force
  have form: "(\<exists>cs body. body = concat (map (\<lambda>c. der_tag inner @ der_len (length c) @ c) cs) \<and> (\<forall>c \<in> set cs. length c < 2 ^ 32) \<and>
        length body < 2 ^ 32 \<and> inn = der_tag ?tag @ der_len (length body) @ body @ r \<and> out = concat cs) \<longleftrightarrow>
      (\<exists>cs. (\<forall>c \<in> set cs. length c < 2 ^ 32) \<and> length (chunks inner cs) < 2 ^ 32 \<and>
        inn = der_header ?tag (length (chunks inner cs)) @ chunks inner cs @ r \<and> out = concat cs)"
    by (auto simp: chunks_def der_header_def)
  have form1: "inn = der_tag outer @ der_len (length out) @ out @ r \<longleftrightarrow> inn = der_header outer (length out) @ out @ r"
    by (simp add: der_header_def)
  have small': "length inn < 2 ^ 64" using small by simp
  show ?thesis
  proof (cases "CBS_peek_asn1_tag inn outer")
    case True
    then have res: "?res = Some (map_option (\<lambda>out. (out, False)) (fst (CBS_get_asn1 outer inn)), snd (CBS_get_asn1 outer inn))"
      using tags by (simp add: CBS_get_asn1_implicit_string_def split: prod.split)
    have "\<not> (\<exists>cs. (\<forall>c \<in> set cs. length c < 2 ^ 32) \<and> length (chunks inner cs) < 2 ^ 32 \<and>
        inn = der_header ?tag (length (chunks inner cs)) @ chunks inner cs @ r \<and> out = concat cs)"
      using True neq peek_tag [of ?tag _ _ outer] small' by auto
    moreover have "?res = Some (Some (out, False), r) \<longleftrightarrow> CBS_get_asn1 outer inn = (Some out, r)"
      unfolding res by (cases "CBS_get_asn1 outer inn") auto
    moreover have "CBS_get_asn1 outer inn = (Some out, r) \<longleftrightarrow> length out < 2 ^ 32 \<and> inn = der_header outer (length out) @ out @ r"
      using get_asn1_SomeD [of outer inn out r] get_asn1_encoding [of out outer r] by auto
    ultimately show ?thesis unfolding form form1 using res by auto
  next
    case False
    have "\<not> (length out < 2 ^ 32 \<and> inn = der_header outer (length out) @ out @ r)"
      using False peek_tag [of outer "length out" "out @ r" outer] small' by auto
    moreover obtain x y where xy: "?res = Some (map_option (\<lambda>out. (out, True)) x, y)" "y = snd (CBS_get_asn1 ?tag inn)"
      "\<And>out. x = Some out \<longleftrightarrow> (\<exists>cs. (\<forall>c \<in> set cs. length c < 2 ^ 32) \<and> length (chunks inner cs) < 2 ^ 32 \<and>
        inn = der_header ?tag (length (chunks inner cs)) @ chunks inner cs @ y \<and> out = concat cs)"
      using implicit_constructed [OF mem small tags False] by blast
    moreover have "?res = Some (Some (out, True), r) \<longleftrightarrow> (\<exists>cs. (\<forall>c \<in> set cs. length c < 2 ^ 32) \<and> length (chunks inner cs) < 2 ^ 32 \<and>
        inn = der_header ?tag (length (chunks inner cs)) @ chunks inner cs @ r \<and> out = concat cs)"
    proof
      assume "?res = Some (Some (out, True), r)"
      then have "x = Some out" "y = r" using xy(1) by auto
      then show "\<exists>cs. (\<forall>c \<in> set cs. length c < 2 ^ 32) \<and> length (chunks inner cs) < 2 ^ 32 \<and>
        inn = der_header ?tag (length (chunks inner cs)) @ chunks inner cs @ r \<and> out = concat cs" using xy(3) by blast
    next
      assume "\<exists>cs. (\<forall>c \<in> set cs. length c < 2 ^ 32) \<and> length (chunks inner cs) < 2 ^ 32 \<and>
        inn = der_header ?tag (length (chunks inner cs)) @ chunks inner cs @ r \<and> out = concat cs"
      then obtain cs where cs: "\<forall>c \<in> set cs. length c < 2 ^ 32" "length (chunks inner cs) < 2 ^ 32"
        "inn = der_header ?tag (length (chunks inner cs)) @ chunks inner cs @ r" "out = concat cs" by blast
      have "y = r" using get_asn1_encoding [OF cs(2), of ?tag r] xy(2) unfolding cs(3) by simp
      then have "x = Some out" using xy(3) cs by blast
      then show "?res = Some (Some (out, True), r)" using xy(1) \<open>y = r\<close> by simp
    qed
    ultimately show ?thesis unfolding form form1 by auto
  qed
qed


theorem implicit_string_witness:
  "CBS_get_asn1_implicit_string (\<lambda>n. True) 0x80000000 4 [0xA0, 6, 4, 1, 7, 4, 1, 8, 5] = Some (Some ([7, 8], True), [5])"
proof -
  let ?body = "concat (map (\<lambda>c. der_tag 4 @ der_len (length c) @ c) [[7], [8 :: u8]])"
  have c: "(0x80000000 OR CBS_ASN1_CONSTRUCTED :: u32) = 0xA0000000" "(0x80000000 :: u32) AND CBS_ASN1_CONSTRUCTED = 0" "(4 :: u32) AND CBS_ASN1_CONSTRUCTED = 0"
    "is_string_type 4" by (simp_all add: CBS_ASN1_CONSTRUCTED_def CBS_ASN1_TAG_SHIFT_def is_string_type_def CBS_ASN1_OCTETSTRING_def)
  have b: "?body = [4, 1, 7, 4, 1, 8]" "der_tag 0xA0000000 = [0xA0]" "der_len 6 = [6]"
    by (simp_all add: der_tag_def tag_mask der_len_def)
  have "\<exists>cs body. body = concat (map (\<lambda>c. der_tag 4 @ der_len (length c) @ c) cs) \<and> (\<forall>c \<in> set cs. length c < 2 ^ 32) \<and> length body < 2 ^ 32 \<and>
      [0xA0, 6, 4, 1, 7, 4, 1, 8, 5] = der_tag (0x80000000 OR CBS_ASN1_CONSTRUCTED) @ der_len (length body) @ body @ [5] \<and> [7, 8] = concat cs"
    by (rule exI [of _ "[[7], [8]]"], rule exI [of _ ?body], unfold c(1) b) (simp add: der_len_def)
  with implicit_string [of "\<lambda>n. True" "[0xA0, 6, 4, 1, 7, 4, 1, 8, 5]" "0x80000000" 4 "[7, 8]" "[5]"] c show ?thesis by simp
qed

end
