(* ===== verification/Upb_Table.thy ===== *)
theory Upb_Table
  imports CPrelude
begin

text \<open>
  upb: the hash tables of \<open>upb/table.c\<close> and \<open>upb/table.int.h\<close>, a chained scatter table with Brent's
  variation. The entries of a table are a list, a \<open>next\<close> pointer is the index of an entry. Values carry
  their type, as in a build with assertions, and a violated assertion is undefined, as is a read through \<open>NULL\<close> or outside
  the entries. Whether an allocation of a size succeeds is the argument \<open>mem\<close>; the arrays of the tables are
  values, the key copies of a string table are blocks of a heap. Comparisons of doubles are the exact comparisons of the rationals that
  the doubles stand for: the divisors are powers of two and the counts are below \<open>2 ^ 53\<close>.
\<close>

datatype upb_ctype_t = UPB_CTYPE_INT32 | UPB_CTYPE_INT64 | UPB_CTYPE_UINT32 | UPB_CTYPE_UINT64 | UPB_CTYPE_BOOL | UPB_CTYPE_CSTR
  | UPB_CTYPE_PTR | UPB_CTYPE_CONSTPTR | UPB_CTYPE_FPTR | UPB_CTYPE_FLOAT | UPB_CTYPE_DOUBLE

record upb_value =
  v_val :: u64
  v_ctype :: upb_ctype_t

record upb_tabent =
  e_key :: u64
  e_val :: u64
  e_next :: "nat option"

record upb_table =
  t_count :: u64
  t_mask :: u64
  t_ctype :: upb_ctype_t
  t_size_lg2 :: u8
  t_entries :: "upb_tabent list"

definition SIZE_MAX :: u64 where "SIZE_MAX = 0xFFFFFFFFFFFFFFFF"

section \<open>Values\<close>

text \<open>The macro \<open>FUNCS\<close>: a constructor converts its argument to the bits of a value, a getter of another type violates an assertion. Pointers are addresses.\<close>

definition value_make :: "('a \<Rightarrow> u64) \<Rightarrow> upb_ctype_t \<Rightarrow> 'a \<Rightarrow> upb_value" where
  "value_make converter proto_type cval = \<lparr>v_val = converter cval, v_ctype = proto_type\<rparr>"

definition value_get :: "(u64 \<Rightarrow> 'a) \<Rightarrow> upb_ctype_t \<Rightarrow> upb_value \<Rightarrow> 'a option" where
  "value_get converter proto_type val = (if v_ctype val = proto_type then Some (converter (v_val val)) else None)"

definition upb_value_int32 :: "u32 \<Rightarrow> upb_value" where
  "upb_value_int32 = value_make scast UPB_CTYPE_INT32"

definition upb_value_getint32 :: "upb_value \<Rightarrow> u32 option" where
  "upb_value_getint32 = value_get ucast UPB_CTYPE_INT32"

definition upb_value_int64 :: "u64 \<Rightarrow> upb_value" where
  "upb_value_int64 = value_make id UPB_CTYPE_INT64"

definition upb_value_getint64 :: "upb_value \<Rightarrow> u64 option" where
  "upb_value_getint64 = value_get id UPB_CTYPE_INT64"

definition upb_value_uint32 :: "u32 \<Rightarrow> upb_value" where
  "upb_value_uint32 = value_make ucast UPB_CTYPE_UINT32"

definition upb_value_getuint32 :: "upb_value \<Rightarrow> u32 option" where
  "upb_value_getuint32 = value_get ucast UPB_CTYPE_UINT32"

definition upb_value_uint64 :: "u64 \<Rightarrow> upb_value" where
  "upb_value_uint64 = value_make id UPB_CTYPE_UINT64"

definition upb_value_getuint64 :: "upb_value \<Rightarrow> u64 option" where
  "upb_value_getuint64 = value_get id UPB_CTYPE_UINT64"

definition upb_value_bool :: "bool \<Rightarrow> upb_value" where
  "upb_value_bool = value_make (\<lambda>b. if b then 1 else 0) UPB_CTYPE_BOOL"

definition upb_value_getbool :: "upb_value \<Rightarrow> bool option" where
  "upb_value_getbool = value_get (\<lambda>v. v \<noteq> 0) UPB_CTYPE_BOOL"

definition upb_value_cstr :: "u64 \<Rightarrow> upb_value" where
  "upb_value_cstr = value_make id UPB_CTYPE_CSTR"

definition upb_value_getcstr :: "upb_value \<Rightarrow> u64 option" where
  "upb_value_getcstr = value_get id UPB_CTYPE_CSTR"

definition upb_value_ptr :: "u64 \<Rightarrow> upb_value" where
  "upb_value_ptr = value_make id UPB_CTYPE_PTR"

definition upb_value_getptr :: "upb_value \<Rightarrow> u64 option" where
  "upb_value_getptr = value_get id UPB_CTYPE_PTR"

definition upb_value_constptr :: "u64 \<Rightarrow> upb_value" where
  "upb_value_constptr = value_make id UPB_CTYPE_CONSTPTR"

definition upb_value_getconstptr :: "upb_value \<Rightarrow> u64 option" where
  "upb_value_getconstptr = value_get id UPB_CTYPE_CONSTPTR"

definition upb_value_fptr :: "u64 \<Rightarrow> upb_value" where
  "upb_value_fptr = value_make id UPB_CTYPE_FPTR"

definition upb_value_getfptr :: "upb_value \<Rightarrow> u64 option" where
  "upb_value_getfptr = value_get id UPB_CTYPE_FPTR"

definition upb_value_val :: "u64 \<Rightarrow> upb_ctype_t \<Rightarrow> upb_value" where
  "upb_value_val val ctype = \<lparr>v_val = val, v_ctype = ctype\<rparr>"

section \<open>Hash functions\<close>

definition murmur_m :: u32 where "murmur_m = 0x5bd1e995"

definition MIX :: "u32 \<Rightarrow> u32 \<Rightarrow> u32" where
  "MIX h k = (let k = k * murmur_m; k = k XOR drop_bit 24 k; k = k * murmur_m; h = h * murmur_m in h XOR k)"

text \<open>A load of four bytes, and the bytes that the switches with fall-through gather.\<close>

definition load32 :: "u8 list \<Rightarrow> u32" where
  "load32 d = word_of_nat (le_nat (take 4 d))"

definition gather :: "u8 list \<Rightarrow> nat \<Rightarrow> u32" where
  "gather d n = (if n \<ge> 3 then push_bit 16 (ucast (d ! 2)) else 0) OR (if n \<ge> 2 then push_bit 8 (ucast (d ! 1)) else 0) OR
     (if n \<ge> 1 then ucast (d ! 0) else 0)"

definition murmur_tail :: "u32 \<Rightarrow> u8 list \<Rightarrow> u32" where
  "murmur_tail h d = (let h = (if length d \<ge> 3 then h XOR push_bit 16 (ucast (d ! 2)) else h);
     h = (if length d \<ge> 2 then h XOR push_bit 8 (ucast (d ! 1)) else h) in
     if length d \<ge> 1 then (h XOR ucast (d ! 0)) * murmur_m else h)"

definition murmur_final :: "u32 \<Rightarrow> u32" where
  "murmur_final h = (let h = h XOR drop_bit 13 h; h = h * murmur_m in h XOR drop_bit 15 h)"

function murmur_aligned :: "u32 \<Rightarrow> u8 list \<Rightarrow> u32 \<times> u8 list" where
  "murmur_aligned h d = (if length d \<ge> 4 then murmur_aligned (MIX h (load32 d)) (drop 4 d) else (h, d))"
  by pat_completeness auto
termination by (relation "measure (length \<circ> snd)") auto

text \<open>The loop for data that is not aligned; \<open>t\<close> holds the bytes that are read and not mixed yet.\<close>

function murmur_shifted :: "nat \<Rightarrow> u32 \<Rightarrow> u32 \<Rightarrow> u8 list \<Rightarrow> u32 \<times> u32 \<times> u8 list" where
  "murmur_shifted al h t data = (
     if length data \<ge> 4 then
       let d = load32 data; k = drop_bit (8 * al) t OR push_bit (8 * (4 - al)) d in murmur_shifted al (MIX h k) d (drop 4 data)
     else (h, t, data))"
  by pat_completeness auto
termination by (relation "measure (\<lambda>(al, h, t, data). length data)") auto

declare murmur_aligned.simps [simp del] murmur_shifted.simps [simp del]

text \<open>The hash of the bytes at an address; the low bits of the address choose between two ways to compute it.\<close>

definition upb_murmur_hash2 :: "u64 \<Rightarrow> u8 list \<Rightarrow> u32 \<Rightarrow> u32" where
  "upb_murmur_hash2 addr data seed = (
     let h = seed XOR word_of_nat (length data); al = unat (addr AND 3) in
     if al \<noteq> 0 \<and> length data \<ge> 4 then
       let t = push_bit (8 * al) (gather data (4 - al)) in
       case murmur_shifted al h t (drop (4 - al) data) of (h, t, data) \<Rightarrow>
         if length data \<ge> al then
           let d = gather data al; k = drop_bit (8 * al) t OR push_bit (8 * (4 - al)) d in
           murmur_final (murmur_tail (MIX h k) (drop al data))
         else let d = gather data (length data) in
           murmur_final ((h XOR (drop_bit (8 * al) t OR push_bit (8 * (4 - al)) d)) * murmur_m)
     else case murmur_aligned h data of (h, data) \<Rightarrow> murmur_final (murmur_tail h data))"

definition upb_inthash :: "u64 \<Rightarrow> u32" where
  "upb_inthash key = ucast key"

section \<open>The shared code\<close>

definition is_pow2 :: "u64 \<Rightarrow> bool" where
  "is_pow2 v \<longleftrightarrow> v = 0 \<or> v AND (v - 1) = 0"

text \<open>The loop of \<open>log2ceil\<close>: how often a number can be halved until it is zero.\<close>

function halvings :: "u64 \<Rightarrow> nat" where
  "halvings v = (let v = drop_bit 1 v in if v \<noteq> 0 then Suc (halvings v) else 0)"
  by pat_completeness auto
termination
proof (relation "measure unat", goal_cases)
  case (2 v x)
  then have "unat x = unat v div 2" using unat_drop_bit_div [of 1 v] by simp
  moreover have "unat x \<noteq> 0" unfolding unat_eq_zero using 2 by simp
  ultimately show ?case by simp
qed simp

declare halvings.simps [simp del]

definition log2ceil :: "u64 \<Rightarrow> nat" where
  "log2ceil v = (let r = halvings v; r = (if is_pow2 v then r else r + 1) in min 16 r)"

definition upb_table_size :: "upb_table \<Rightarrow> u64" where
  "upb_table_size t = (if t_size_lg2 t = 0 then 0 else push_bit (unat (t_size_lg2 t)) 1)"

abbreviation empty_ent :: upb_tabent where
  "empty_ent \<equiv> \<lparr>e_key = 0, e_val = 0, e_next = None\<rparr>"

definition upb_tabent_isempty :: "upb_tabent \<Rightarrow> bool" where
  "upb_tabent_isempty e \<longleftrightarrow> e_key e = 0"

text \<open>The constant 0.85 is the double \<open>7656119366529843 / 2 ^ 53\<close>.\<close>

definition isfull :: "upb_table \<Rightarrow> bool" where
  "isfull t = (if upb_table_size t = 0 then True
     else unat (t_count t + 1) * 2 ^ 53 > 7656119366529843 * unat (upb_table_size t))"

text \<open>\<open>init\<close>; a shift by 31 or more overflows the \<open>int\<close> in \<open>upb_table_size\<close>. \<open>Some None\<close> is a failed allocation.\<close>

definition tab_init :: "(u64 \<Rightarrow> bool) \<Rightarrow> upb_ctype_t \<Rightarrow> u8 \<Rightarrow> upb_table option option" where
  "tab_init mem ctype size_lg2 = (if size_lg2 \<ge> 31 then None
     else let t = \<lparr>t_count = 0, t_mask = 0, t_ctype = ctype, t_size_lg2 = size_lg2, t_entries = []\<rparr>; size = upb_table_size t;
         t = t\<lparr>t_mask := (if size \<noteq> 0 then size - 1 else 0)\<rparr>; bytes = size * 24 in
       if bytes > 0 then
         if \<not> mem bytes then Some None else Some (Some (t\<lparr>t_entries := replicate (unat size) empty_ent\<rparr>))
       else Some (Some t))"

text \<open>The main position of a hash: the index of the entry, \<open>None\<close> if there is none.\<close>

definition upb_getentry :: "upb_table \<Rightarrow> u32 \<Rightarrow> nat option" where
  "upb_getentry t hash = (let i = unat (ucast hash AND t_mask t) in if i < length (t_entries t) then Some i else None)"

text \<open>The last empty entry.\<close>

primrec last_empty :: "upb_tabent list \<Rightarrow> nat \<Rightarrow> nat option" where
  "last_empty es 0 = None"
| "last_empty es (Suc e) = (if upb_tabent_isempty (es ! e) then Some e else last_empty es e)"

definition emptyent :: "upb_table \<Rightarrow> nat option" where
  "emptyent t = last_empty (t_entries t) (length (t_entries t))"

text \<open>The loop along a chain, with fuel; the comparison may be undefined.\<close>

primrec chain_find :: "nat \<Rightarrow> (u64 \<Rightarrow> bool option) \<Rightarrow> upb_tabent list \<Rightarrow> nat \<Rightarrow> nat option option" where
  "chain_find 0 eql es i = None"
| "chain_find (Suc n) eql es i = (if i \<ge> length es then None else do {
     found \<leftarrow> eql (e_key (es ! i));
     if found then Some (Some i)
     else case e_next (es ! i) of None \<Rightarrow> Some None | Some i \<Rightarrow> chain_find n eql es i })"

definition findentry :: "(u64 \<Rightarrow> bool option) \<Rightarrow> upb_table \<Rightarrow> u32 \<Rightarrow> nat option option" where
  "findentry eql t hash = (if t_size_lg2 t = 0 then Some None
     else do {
       e \<leftarrow> upb_getentry t hash;
       if upb_tabent_isempty (t_entries t ! e) then Some None
       else chain_find (length (t_entries t)) eql (t_entries t) e })"

definition tab_lookup :: "(u64 \<Rightarrow> bool option) \<Rightarrow> upb_table \<Rightarrow> u32 \<Rightarrow> upb_value option option" where
  "tab_lookup eql t hash = do {
     e \<leftarrow> findentry eql t hash;
     Some (map_option (\<lambda>e. upb_value_val (e_val (t_entries t ! e)) (t_ctype t)) e) }"

text \<open>The predecessor of an entry in a chain.\<close>

primrec chain_pred :: "nat \<Rightarrow> upb_tabent list \<Rightarrow> nat \<Rightarrow> nat \<Rightarrow> nat option" where
  "chain_pred 0 es mainpos chain = None"
| "chain_pred (Suc n) es mainpos chain = (if chain \<ge> length es then None
     else if e_next (es ! chain) = Some mainpos then Some chain
     else case e_next (es ! chain) of None \<Rightarrow> None | Some chain \<Rightarrow> chain_pred n es mainpos chain)"

definition tab_insert :: "(u64 \<Rightarrow> bool option) \<Rightarrow> (u64 \<Rightarrow> u32 option) \<Rightarrow> u64 \<Rightarrow> upb_value \<Rightarrow> u32 \<Rightarrow> upb_table \<Rightarrow> upb_table option" where
  "tab_insert eql hashfunc tabkey val hash t = do {
     e \<leftarrow> findentry eql t hash;
     if e \<noteq> None \<or> v_ctype val \<noteq> t_ctype t then None
     else do {
       let es = t_entries t;
       mainpos \<leftarrow> upb_getentry t hash;
       (our, es) \<leftarrow> (if upb_tabent_isempty (es ! mainpos) then Some (mainpos, es[mainpos := (es ! mainpos)\<lparr>e_next := None\<rparr>])
         else do {
           new \<leftarrow> emptyent t;
           h \<leftarrow> hashfunc (e_key (es ! mainpos));
           chain \<leftarrow> upb_getentry t h;
           if chain = mainpos then
             let es = es[new := (es ! new)\<lparr>e_next := e_next (es ! mainpos)\<rparr>] in
             Some (new, es[mainpos := (es ! mainpos)\<lparr>e_next := Some new\<rparr>])
           else do {
             let es = es[new := es ! mainpos];
             pred \<leftarrow> chain_pred (length es) es mainpos chain;
             let es = es[pred := (es ! pred)\<lparr>e_next := Some new\<rparr>];
             Some (mainpos, es[mainpos := (es ! mainpos)\<lparr>e_next := None\<rparr>]) } });
       let t = t\<lparr>t_count := t_count t + 1, t_entries := es[our := (es ! our)\<lparr>e_key := tabkey, e_val := v_val val\<rparr>]\<rparr>;
       e \<leftarrow> findentry eql t hash;
       if e \<noteq> Some our then None else Some t } }"

text \<open>The result is the removed value with its key, \<open>None\<close> inside if there is none.\<close>

primrec chain_rm :: "nat \<Rightarrow> (u64 \<Rightarrow> bool option) \<Rightarrow> upb_tabent list \<Rightarrow> nat \<Rightarrow> (nat \<times> nat) option option" where
  "chain_rm 0 eql es chain = None"
| "chain_rm (Suc n) eql es chain = (if chain \<ge> length es then None
     else case e_next (es ! chain) of
       None \<Rightarrow> Some None
     | Some nxt \<Rightarrow> if nxt \<ge> length es then None else do {
         found \<leftarrow> eql (e_key (es ! nxt));
         if found then Some (Some (chain, nxt)) else chain_rm n eql es nxt })"

definition tab_rm :: "(u64 \<Rightarrow> bool option) \<Rightarrow> u32 \<Rightarrow> upb_table \<Rightarrow> ((upb_value \<times> u64) option \<times> upb_table) option" where
  "tab_rm eql hash t = do {
     let es = t_entries t;
     chain \<leftarrow> upb_getentry t hash;
     if upb_tabent_isempty (es ! chain) then Some (None, t)
     else do {
       found \<leftarrow> eql (e_key (es ! chain));
       if found then
         let r = (upb_value_val (e_val (es ! chain)) (t_ctype t), e_key (es ! chain)); t = t\<lparr>t_count := t_count t - 1\<rparr> in
         (case e_next (es ! chain) of
            None \<Rightarrow> Some (Some r, t\<lparr>t_entries := es[chain := (es ! chain)\<lparr>e_key := 0\<rparr>]\<rparr>)
          | Some move \<Rightarrow> if move \<ge> length es then None
              else let es = es[chain := es ! move] in Some (Some r, t\<lparr>t_entries := es[move := (es ! move)\<lparr>e_key := 0\<rparr>]\<rparr>))
       else do {
         p \<leftarrow> chain_rm (length es) eql es chain;
         (case p of
            None \<Rightarrow> Some (None, t)
          | Some (chain, rm) \<Rightarrow>
              let r = (upb_value_val (e_val (es ! rm)) (t_ctype t), e_key (es ! rm));
                es = es[rm := (es ! rm)\<lparr>e_key := 0\<rparr>];
                es = es[chain := (es ! chain)\<lparr>e_next := e_next (es ! rm)\<rparr>] in
              Some (Some r, t\<lparr>t_count := t_count t - 1, t_entries := es\<rparr>)) } } }"

definition tab_next :: "upb_table \<Rightarrow> u64 \<Rightarrow> u64" where
  "tab_next t i = (case find (\<lambda>j. \<not> upb_tabent_isempty (t_entries t ! j)) [unat (i + 1)..<length (t_entries t)] of
     None \<Rightarrow> SIZE_MAX | Some j \<Rightarrow> word_of_nat j)"

definition tab_begin :: "upb_table \<Rightarrow> u64" where
  "tab_begin t = tab_next t (- 1)"

text \<open>The indices that a loop over the table visits, at most one for each entry.\<close>

primrec visited :: "nat \<Rightarrow> upb_table \<Rightarrow> u64 \<Rightarrow> nat list" where
  "visited 0 t i = []"
| "visited (Suc n) t i = (if i \<ge> upb_table_size t then [] else unat i # visited n t (tab_next t i))"

end
