(* ===== verification/Upb_Maps.thy ===== *)
theory Upb_Maps
  imports Upb_Table
begin

text \<open>
  upb: the tables with strings and with integers as keys, the rest of \<open>upb/table.c\<close>. The key of an entry of a
  string table is the address of a block of a heap: four bytes of length, the string and a zero. A string that a caller passes
  comes with its address, because the code that hashes it depends on its alignment. An integer table has an
  array part; the elements that are allocated for it are a list.
\<close>

section \<open>Key copies\<close>

type_synonym heap = "(u64 \<times> u8 list) list"

definition fresh_addr :: "heap \<Rightarrow> u64" where
  "fresh_addr m = (case find (\<lambda>a. a \<noteq> 0 \<and> a \<notin> fst ` set m) (map word_of_nat [1..<length m + 2]) of None \<Rightarrow> 0 | Some a \<Rightarrow> a)"

text \<open>An allocated block with its contents; 0 when there is none.\<close>

definition heap_alloc :: "(u64 \<Rightarrow> bool) \<Rightarrow> u64 \<Rightarrow> u8 list \<Rightarrow> heap \<Rightarrow> u64 \<times> heap" where
  "heap_alloc mem n blk m = (let a = fresh_addr m in if \<not> mem n \<or> a = 0 then (0, m) else (a, (a, blk) # m))"

definition heap_free :: "u64 \<Rightarrow> heap \<Rightarrow> heap option" where
  "heap_free a m = (if a = 0 then Some m else if a \<in> fst ` set m then Some (filter (\<lambda>(b, _). b \<noteq> a) m) else None)"

definition upb_strdup2 :: "(u64 \<Rightarrow> bool) \<Rightarrow> u8 list \<Rightarrow> heap \<Rightarrow> u64 \<times> heap" where
  "upb_strdup2 mem s m = (if word_of_nat (length s) = SIZE_MAX then (0, m)
     else heap_alloc mem (word_of_nat (length s) + 1) (s @ [0]) m)"

text \<open>A string up to its zero; reading behind the bytes is undefined.\<close>

definition upb_strdup :: "(u64 \<Rightarrow> bool) \<Rightarrow> u8 list \<Rightarrow> heap \<Rightarrow> (u64 \<times> heap) option" where
  "upb_strdup mem s m = (if 0 \<notin> set s then None else Some (upb_strdup2 mem (takeWhile (\<lambda>c. c \<noteq> 0) s) m))"

definition strcopy :: "(u64 \<Rightarrow> bool) \<Rightarrow> u8 list \<Rightarrow> heap \<Rightarrow> u64 \<times> heap" where
  "strcopy mem k m = heap_alloc mem (word_of_nat (length k) + 4 + 1) (le_bytes 4 (length k) @ k @ [0]) m"

definition upb_tabstr :: "heap \<Rightarrow> u64 \<Rightarrow> u8 list option" where
  "upb_tabstr m key = do {
     blk \<leftarrow> map_of m key;
     let len = le_nat (take 4 blk);
     if length blk < 4 + len then None else Some (take len (drop 4 blk)) }"

definition strhash :: "heap \<Rightarrow> u64 \<Rightarrow> u32 option" where
  "strhash m key = do { str \<leftarrow> upb_tabstr m key; Some (upb_murmur_hash2 (key + 4) str 0) }"

text \<open>\<open>memcmp\<close> of two strings of one length.\<close>

definition streql :: "heap \<Rightarrow> u8 list \<Rightarrow> u64 \<Rightarrow> bool option" where
  "streql m k2 k1 = do { str \<leftarrow> upb_tabstr m k1; Some (length str = length k2 \<and> str = k2) }"

section \<open>String tables\<close>

definition upb_strtable_init2 :: "(u64 \<Rightarrow> bool) \<Rightarrow> upb_ctype_t \<Rightarrow> upb_table option option" where
  "upb_strtable_init2 mem ctype = tab_init mem ctype 2"

primrec free_keys :: "upb_tabent list \<Rightarrow> heap \<Rightarrow> heap option" where
  "free_keys [] m = Some m"
| "free_keys (e # es) m = do { m \<leftarrow> heap_free (e_key e) m; free_keys es m }"

definition upb_strtable_uninit2 :: "upb_table \<Rightarrow> heap \<Rightarrow> heap option" where
  "upb_strtable_uninit2 t m = free_keys (t_entries t) m"

text \<open>The start of an iteration and the next index.\<close>

definition upb_strtable_begin :: "upb_table \<Rightarrow> u64" where
  "upb_strtable_begin t = tab_begin t"

definition upb_strtable_next :: "upb_table \<Rightarrow> u64 \<Rightarrow> u64" where
  "upb_strtable_next t i = tab_next t i"

text \<open>A function that inserts a key at an address; the new key, the table and the heap follow.\<close>

type_synonym inserter = "u64 \<Rightarrow> u8 list \<Rightarrow> upb_value \<Rightarrow> upb_table \<Rightarrow> heap \<Rightarrow> (bool \<times> upb_table \<times> heap) option"

text \<open>The loop of \<open>upb_strtable_resize\<close>; what the insertion returns is ignored.\<close>

primrec resize_loop :: "inserter \<Rightarrow> upb_table \<Rightarrow> nat list \<Rightarrow> upb_table \<Rightarrow> heap \<Rightarrow> (upb_table \<times> heap) option" where
  "resize_loop ins t [] new_table m = Some (new_table, m)"
| "resize_loop ins t (i # is) new_table m = do {
     let e = t_entries t ! i;
     k \<leftarrow> upb_tabstr m (e_key e);
     (ok, new_table, m) \<leftarrow> ins (e_key e + 4) k (upb_value_val (e_val e) (t_ctype t)) new_table m;
     resize_loop ins t is new_table m }"

definition strtable_resize :: "inserter \<Rightarrow> (u64 \<Rightarrow> bool) \<Rightarrow> u64 \<Rightarrow> upb_table \<Rightarrow> heap \<Rightarrow> (bool \<times> upb_table \<times> heap) option" where
  "strtable_resize ins mem size_lg2 t m = do {
     r \<leftarrow> tab_init mem (t_ctype t) (ucast size_lg2);
     (case r of
        None \<Rightarrow> Some (False, t, m)
      | Some new_table \<Rightarrow> do {
          (new_table, m) \<leftarrow> resize_loop ins t (visited (length (t_entries t)) t (upb_strtable_begin t)) new_table m;
          m \<leftarrow> upb_strtable_uninit2 t m;
          Some (True, new_table, m) }) }"

text \<open>The insertion and the resizing call each other; the fuel is the depth of these calls.\<close>

primrec strtable_insert :: "nat \<Rightarrow> (u64 \<Rightarrow> bool) \<Rightarrow> inserter" where
  "strtable_insert 0 mem ka k v t m = None"
| "strtable_insert (Suc n) mem ka k v t m = do {
     (ok, t, m) \<leftarrow> (if isfull t then strtable_resize (strtable_insert n mem) mem (ucast (t_size_lg2 t) + 1) t m else Some (True, t, m));
     if \<not> ok then Some (False, t, m)
     else let (tabkey, m) = strcopy mem k m in
       if tabkey = 0 then Some (False, t, m)
       else do {
         t \<leftarrow> tab_insert (streql m k) (strhash m) tabkey v (upb_murmur_hash2 ka k 0) t;
         Some (True, t, m) } }"

definition upb_strtable_insert3 :: "(u64 \<Rightarrow> bool) \<Rightarrow> inserter" where
  "upb_strtable_insert3 mem = strtable_insert 2 mem"

definition upb_strtable_resize :: "(u64 \<Rightarrow> bool) \<Rightarrow> u64 \<Rightarrow> upb_table \<Rightarrow> heap \<Rightarrow> (bool \<times> upb_table \<times> heap) option" where
  "upb_strtable_resize mem = strtable_resize (strtable_insert 2 mem) mem"

definition upb_strtable_lookup2 :: "u64 \<Rightarrow> u8 list \<Rightarrow> upb_table \<Rightarrow> heap \<Rightarrow> upb_value option option" where
  "upb_strtable_lookup2 ka k t m = tab_lookup (streql m k) t (upb_murmur_hash2 ka k 0)"

definition upb_strtable_remove3 :: "u64 \<Rightarrow> u8 list \<Rightarrow> upb_table \<Rightarrow> heap \<Rightarrow> (upb_value option \<times> upb_table \<times> heap) option" where
  "upb_strtable_remove3 ka k t m = do {
     (r, t) \<leftarrow> tab_rm (streql m k) (upb_murmur_hash2 ka k 0) t;
     (case r of
        None \<Rightarrow> Some (None, t, m)
      | Some (val, tabkey) \<Rightarrow> do { m \<leftarrow> heap_free tabkey m; Some (Some val, t, m) }) }"

definition upb_strtable_count :: "upb_table \<Rightarrow> u64" where
  "upb_strtable_count t = t_count t"

text \<open>Iterators: the index; the table is an argument. An iterator without a table, which is done, is the index \<open>SIZE_MAX\<close>, which is done for every table.\<close>

definition upb_strtable_done :: "upb_table \<Rightarrow> u64 \<Rightarrow> bool" where
  "upb_strtable_done t i \<longleftrightarrow> i \<ge> upb_table_size t \<or> upb_tabent_isempty (t_entries t ! unat i)"

definition upb_strtable_iter_key :: "heap \<Rightarrow> upb_table \<Rightarrow> u64 \<Rightarrow> u8 list option" where
  "upb_strtable_iter_key m t i = (if upb_strtable_done t i then None else upb_tabstr m (e_key (t_entries t ! unat i)))"

definition upb_strtable_iter_value :: "upb_table \<Rightarrow> u64 \<Rightarrow> upb_value option" where
  "upb_strtable_iter_value t i = (if upb_strtable_done t i then None
     else Some (upb_value_val (e_val (t_entries t ! unat i)) (t_ctype t)))"

definition upb_strtable_iter_setdone :: u64 where
  "upb_strtable_iter_setdone = SIZE_MAX"

definition upb_strtable_iter_isequal :: "upb_table \<Rightarrow> u64 \<Rightarrow> u64 \<Rightarrow> bool" where
  "upb_strtable_iter_isequal t i1 i2 \<longleftrightarrow> (if upb_strtable_done t i1 \<and> upb_strtable_done t i2 then True else i1 = i2)"

section \<open>Integer tables\<close>

record upb_inttable =
  i_t :: upb_table
  i_array :: "u64 list"
  i_array_size :: u64
  i_array_count :: u64

definition upb_arrhas :: "u64 \<Rightarrow> bool" where
  "upb_arrhas v \<longleftrightarrow> v \<noteq> - 1"

definition inthash :: "u64 \<Rightarrow> u32 option" where
  "inthash key = Some (upb_inthash key)"

definition inteql :: "u64 \<Rightarrow> u64 \<Rightarrow> bool option" where
  "inteql k2 k1 = Some (k1 = k2)"

definition arr_get :: "upb_inttable \<Rightarrow> u64 \<Rightarrow> u64 option" where
  "arr_get t key = (if unat key < length (i_array t) then Some (i_array t ! unat key) else None)"

text \<open>Where a value is: \<open>Inl\<close> an index of the array, \<open>Inr\<close> one of the entries.\<close>

definition inttable_val :: "upb_inttable \<Rightarrow> u64 \<Rightarrow> (nat + nat) option option" where
  "inttable_val t key = (
     if key < i_array_size t then do { v \<leftarrow> arr_get t key; Some (if upb_arrhas v then Some (Inl (unat key)) else None) }
     else do { e \<leftarrow> findentry (inteql key) (i_t t) (upb_inthash key); Some (map_option Inr e) })"

definition tabval :: "upb_inttable \<Rightarrow> nat + nat \<Rightarrow> u64" where
  "tabval t p = (case p of Inl i \<Rightarrow> i_array t ! i | Inr e \<Rightarrow> e_val (t_entries (i_t t) ! e))"

definition upb_inttable_count :: "upb_inttable \<Rightarrow> u64" where
  "upb_inttable_count t = t_count (i_t t) + i_array_count t"

text \<open>\<open>sizeof(upb_value)\<close> is 16 here; the product may wrap. The elements of the array have eight bytes.\<close>

definition upb_inttable_sizedinit :: "(u64 \<Rightarrow> bool) \<Rightarrow> upb_ctype_t \<Rightarrow> u64 \<Rightarrow> nat \<Rightarrow> upb_inttable option option" where
  "upb_inttable_sizedinit mem ctype asize hsize_lg2 = do {
     r \<leftarrow> tab_init mem ctype (word_of_nat hsize_lg2);
     (case r of
        None \<Rightarrow> Some None
      | Some t \<Rightarrow> let size = max 1 asize; bytes = size * 16 in
          if bytes = 0 \<or> \<not> mem bytes then Some None
          else Some (Some \<lparr>i_t = t, i_array = replicate (unat bytes div 8) (- 1), i_array_size = size, i_array_count = 0\<rparr>)) }"

definition upb_inttable_init2 :: "(u64 \<Rightarrow> bool) \<Rightarrow> upb_ctype_t \<Rightarrow> upb_inttable option option" where
  "upb_inttable_init2 mem ctype = upb_inttable_sizedinit mem ctype 0 4"

text \<open>The loop that fills the larger hash part.\<close>

primrec rehash :: "upb_table \<Rightarrow> nat list \<Rightarrow> upb_table \<Rightarrow> upb_table option" where
  "rehash t [] new_table = Some new_table"
| "rehash t (i # is) new_table = do {
     let e = t_entries t ! i;
     new_table \<leftarrow> tab_insert (inteql (e_key e)) inthash (e_key e) (upb_value_val (e_val e) (t_ctype t)) (upb_inthash (e_key e)) new_table;
     rehash t is new_table }"

definition upb_inttable_insert2 :: "(u64 \<Rightarrow> bool) \<Rightarrow> u64 \<Rightarrow> upb_value \<Rightarrow> upb_inttable \<Rightarrow> (bool \<times> upb_inttable) option" where
  "upb_inttable_insert2 mem key val t = (
     if \<not> upb_arrhas (v_val val) then None
     else if key < i_array_size t then do {
       v \<leftarrow> arr_get t key;
       if upb_arrhas v then None
       else Some (True, t\<lparr>i_array_count := i_array_count t + 1, i_array := (i_array t)[unat key := v_val val]\<rparr>) }
     else do {
       r \<leftarrow> (if isfull (i_t t) then do {
           r \<leftarrow> tab_init mem (t_ctype (i_t t)) (t_size_lg2 (i_t t) + 1);
           (case r of
              None \<Rightarrow> Some None
            | Some new_table \<Rightarrow> do {
                new_table \<leftarrow> rehash (i_t t) (visited (length (t_entries (i_t t))) (i_t t) (tab_begin (i_t t))) new_table;
                if t_count (i_t t) \<noteq> t_count new_table then None else Some (Some (t\<lparr>i_t := new_table\<rparr>)) }) }
         else Some (Some t));
       (case r of
          None \<Rightarrow> Some (False, t)
        | Some t \<Rightarrow> do {
            h \<leftarrow> tab_insert (inteql key) inthash key val (upb_inthash key) (i_t t);
            Some (True, t\<lparr>i_t := h\<rparr>) }) })"

definition upb_inttable_lookup :: "u64 \<Rightarrow> upb_inttable \<Rightarrow> upb_value option option" where
  "upb_inttable_lookup key t = do {
     p \<leftarrow> inttable_val t key;
     Some (map_option (\<lambda>p. upb_value_val (tabval t p) (t_ctype (i_t t))) p) }"

definition upb_inttable_replace :: "u64 \<Rightarrow> upb_value \<Rightarrow> upb_inttable \<Rightarrow> (bool \<times> upb_inttable) option" where
  "upb_inttable_replace key val t = do {
     p \<leftarrow> inttable_val t key;
     Some (case p of
       None \<Rightarrow> (False, t)
     | Some (Inl i) \<Rightarrow> (True, t\<lparr>i_array := (i_array t)[i := v_val val]\<rparr>)
     | Some (Inr e) \<Rightarrow> (True, t\<lparr>i_t := (i_t t)\<lparr>t_entries := (t_entries (i_t t))[e := (t_entries (i_t t) ! e)\<lparr>e_val := v_val val\<rparr>]\<rparr>\<rparr>)) }"

definition upb_inttable_remove :: "u64 \<Rightarrow> upb_inttable \<Rightarrow> (upb_value option \<times> upb_inttable) option" where
  "upb_inttable_remove key t = (
     if key < i_array_size t then do {
       v \<leftarrow> arr_get t key;
       Some (if upb_arrhas v
         then (Some (upb_value_val v (t_ctype (i_t t))), t\<lparr>i_array_count := i_array_count t - 1, i_array := (i_array t)[unat key := - 1]\<rparr>)
         else (None, t)) }
     else do {
       (r, h) \<leftarrow> tab_rm (inteql key) (upb_inthash key) (i_t t);
       Some (map_option fst r, t\<lparr>i_t := h\<rparr>) })"

definition upb_inttable_push2 :: "(u64 \<Rightarrow> bool) \<Rightarrow> upb_value \<Rightarrow> upb_inttable \<Rightarrow> (bool \<times> upb_inttable) option" where
  "upb_inttable_push2 mem val t = upb_inttable_insert2 mem (upb_inttable_count t) val t"

definition upb_inttable_pop :: "upb_inttable \<Rightarrow> (upb_value \<times> upb_inttable) option" where
  "upb_inttable_pop t = do {
     (r, t) \<leftarrow> upb_inttable_remove (upb_inttable_count t - 1) t;
     val \<leftarrow> r;
     Some (val, t) }"

text \<open>Pointers as keys.\<close>

definition upb_inttable_insertptr2 :: "(u64 \<Rightarrow> bool) \<Rightarrow> u64 \<Rightarrow> upb_value \<Rightarrow> upb_inttable \<Rightarrow> (bool \<times> upb_inttable) option" where
  "upb_inttable_insertptr2 mem key val t = upb_inttable_insert2 mem key val t"

definition upb_inttable_lookupptr :: "u64 \<Rightarrow> upb_inttable \<Rightarrow> upb_value option option" where
  "upb_inttable_lookupptr key t = upb_inttable_lookup key t"

definition upb_inttable_removeptr :: "u64 \<Rightarrow> upb_inttable \<Rightarrow> (upb_value option \<times> upb_inttable) option" where
  "upb_inttable_removeptr key t = upb_inttable_remove key t"

text \<open>The special case for 32-bit keys, which compares the low halves of the keys.\<close>

definition upb_inttable_lookup32 :: "u32 \<Rightarrow> upb_inttable \<Rightarrow> upb_value option option" where
  "upb_inttable_lookup32 key t = (
     if ucast key < i_array_size t then do {
       v \<leftarrow> arr_get t (ucast key);
       Some (if upb_arrhas v then Some (upb_value_val v (t_ctype (i_t t))) else None) }
     else if t_entries (i_t t) = [] then Some None
     else do {
       e \<leftarrow> upb_getentry (i_t t) (upb_inthash (ucast key));
       p \<leftarrow> chain_find (length (t_entries (i_t t))) (\<lambda>k. Some (ucast k = key)) (t_entries (i_t t)) e;
       Some (map_option (\<lambda>e. upb_value_val (e_val (t_entries (i_t t) ! e)) (t_ctype (i_t t))) p) })"

text \<open>Iterators; the table is an argument.\<close>

record upb_inttable_iter =
  ii_index :: u64
  ii_array_part :: bool

definition upb_inttable_next :: "upb_inttable \<Rightarrow> upb_inttable_iter \<Rightarrow> upb_inttable_iter" where
  "upb_inttable_next t iter = (if ii_array_part iter then
       case find (\<lambda>j. upb_arrhas (i_array t ! j)) [unat (ii_index iter + 1)..<unat (i_array_size t)] of
         Some j \<Rightarrow> iter\<lparr>ii_index := word_of_nat j\<rparr>
       | None \<Rightarrow> iter\<lparr>ii_array_part := False, ii_index := tab_begin (i_t t)\<rparr>
     else iter\<lparr>ii_index := tab_next (i_t t) (ii_index iter)\<rparr>)"

definition upb_inttable_begin :: "upb_inttable \<Rightarrow> upb_inttable_iter" where
  "upb_inttable_begin t = upb_inttable_next t \<lparr>ii_index = - 1, ii_array_part = True\<rparr>"

definition upb_inttable_done :: "upb_inttable \<Rightarrow> upb_inttable_iter \<Rightarrow> bool" where
  "upb_inttable_done t i \<longleftrightarrow> (if ii_array_part i
     then ii_index i \<ge> i_array_size t \<or> \<not> upb_arrhas (i_array t ! unat (ii_index i))
     else ii_index i \<ge> upb_table_size (i_t t) \<or> upb_tabent_isempty (t_entries (i_t t) ! unat (ii_index i)))"

definition upb_inttable_iter_key :: "upb_inttable \<Rightarrow> upb_inttable_iter \<Rightarrow> u64 option" where
  "upb_inttable_iter_key t i = (if upb_inttable_done t i then None
     else Some (if ii_array_part i then ii_index i else e_key (t_entries (i_t t) ! unat (ii_index i))))"

definition upb_inttable_iter_value :: "upb_inttable \<Rightarrow> upb_inttable_iter \<Rightarrow> upb_value option" where
  "upb_inttable_iter_value t i = (if upb_inttable_done t i then None
     else Some (upb_value_val (if ii_array_part i then i_array t ! unat (ii_index i) else e_val (t_entries (i_t t) ! unat (ii_index i)))
       (t_ctype (i_t t))))"

definition upb_inttable_iter_setdone :: upb_inttable_iter where
  "upb_inttable_iter_setdone = \<lparr>ii_index = SIZE_MAX, ii_array_part = False\<rparr>"

definition upb_inttable_iter_isequal :: "upb_inttable \<Rightarrow> upb_inttable_iter \<Rightarrow> upb_inttable_iter \<Rightarrow> bool" where
  "upb_inttable_iter_isequal t i1 i2 \<longleftrightarrow> (if upb_inttable_done t i1 \<and> upb_inttable_done t i2 then True
     else ii_index i1 = ii_index i2 \<and> ii_array_part i1 = ii_array_part i2)"

text \<open>The elements that a loop over the table sees, at most one for each element of the array and entry. An array that is shorter than its size is read out of bounds.\<close>

primrec inttable_loop :: "nat \<Rightarrow> upb_inttable \<Rightarrow> upb_inttable_iter \<Rightarrow> (u64 \<times> upb_value) list option" where
  "inttable_loop 0 t i = (if upb_inttable_done t i then Some [] else None)"
| "inttable_loop (Suc n) t i = (if upb_inttable_done t i then Some []
     else do {
       k \<leftarrow> upb_inttable_iter_key t i;
       v \<leftarrow> upb_inttable_iter_value t i;
       kvs \<leftarrow> inttable_loop n t (upb_inttable_next t i);
       Some ((k, v) # kvs) })"

definition inttable_elements :: "upb_inttable \<Rightarrow> (u64 \<times> upb_value) list option" where
  "inttable_elements t = (if unat (i_array_size t) > length (i_array t) then None
     else inttable_loop (unat (i_array_size t) + length (t_entries (i_t t))) t (upb_inttable_begin t))"

text \<open>The histogram of the keys, and the loop that looks for the largest array with enough elements; 0.1 is \<open>3602879701896397 / 2 ^ 55\<close>.\<close>

definition bucket_keys :: "u64 list \<Rightarrow> nat \<Rightarrow> u64 list" where
  "bucket_keys ks b = filter (\<lambda>k. log2ceil k = b) ks"

primrec shrink :: "(nat \<Rightarrow> nat) \<Rightarrow> nat \<Rightarrow> nat \<Rightarrow> nat \<times> nat" where
  "shrink counts 0 arr_count = (0, arr_count)"
| "shrink counts (Suc s) arr_count = (
     if counts (Suc s) = 0 then shrink counts s arr_count
     else if arr_count * 2 ^ 55 \<ge> 2 ^ Suc s * 3602879701896397 then (Suc s, arr_count)
     else shrink counts s (arr_count - counts (Suc s)))"

primrec insert_elements :: "(u64 \<Rightarrow> bool) \<Rightarrow> (u64 \<times> upb_value) list \<Rightarrow> upb_inttable \<Rightarrow> upb_inttable option" where
  "insert_elements mem [] t = Some t"
| "insert_elements mem (kv # kvs) t = do {
     (ok, t) \<leftarrow> upb_inttable_insert2 mem (fst kv) (snd kv) t;
     insert_elements mem kvs t }"

text \<open>
  The result of \<open>upb_inttable_sizedinit\<close> is ignored, so its failure is undefined. The quotient by 0.85 is rounded down; for counts below
  \<open>2 ^ 40\<close> this is the quotient by 17/20.
\<close>

definition upb_inttable_compact2 :: "(u64 \<Rightarrow> bool) \<Rightarrow> upb_inttable \<Rightarrow> upb_inttable option" where
  "upb_inttable_compact2 mem t = do {
     kvs \<leftarrow> inttable_elements t;
     let keys = map fst kvs;
     let n = unat (upb_inttable_count t);
     let (size_lg2, arr_count) = shrink (\<lambda>b. length (bucket_keys keys b)) 16 n;
     let arr_size = foldl max 0 (bucket_keys keys size_lg2) + 1;
     let hash_count = n - arr_count;
     let hash_size = (if hash_count \<noteq> 0 then hash_count * 20 div 17 + 1 else 0);
     let hashsize_lg2 = log2ceil (word_of_nat hash_size);
     r \<leftarrow> upb_inttable_sizedinit mem (t_ctype (i_t t)) arr_size hashsize_lg2;
     new_t \<leftarrow> r;
     new_t \<leftarrow> insert_elements mem kvs new_t;
     if i_array_size new_t \<noteq> arr_size \<or> unat (t_size_lg2 (i_t new_t)) \<noteq> hashsize_lg2 then None else Some new_t }"

end
