(* ===== verification/Upb_Table_Spec.thy ===== *)
theory Upb_Table_Spec
  imports Upb_Table CBuffer "HOL-Library.Multiset"
begin

text \<open>
  The chained scatter table refines a finite map. The invariant \<open>scatter\<close> of the entries has the chains as a ghost;
  insertion and removal keep it in each of their cases, and add or remove one pair of the multiset of the stored pairs. The locale \<open>table_keys\<close> is
  the contract of the hash and comparison functions that the tables of strings and of integers share.
\<close>

section \<open>Chains\<close>

text \<open>The entries on the way from one link to another, in the style of the list predicates of pointer programs.\<close>

primrec path :: "upb_tabent list \<Rightarrow> nat option \<Rightarrow> nat list \<Rightarrow> nat option \<Rightarrow> bool" where
  "path es p [] q \<longleftrightarrow> p = q"
| "path es p (x # xs) q \<longleftrightarrow> p = Some x \<and> path es (e_next (es ! x)) xs q"

text \<open>
  The invariant of the entries, with the chains as a ghost: the chain of a position holds the occupied entries of
  this main position, and starts there.
\<close>

definition occupied :: "upb_tabent list \<Rightarrow> nat \<Rightarrow> bool" where
  "occupied es i \<longleftrightarrow> i < length es \<and> e_key (es ! i) \<noteq> 0"

definition scatter :: "(u64 \<Rightarrow> nat) \<Rightarrow> upb_tabent list \<Rightarrow> (nat \<Rightarrow> nat list) \<Rightarrow> bool" where
  "scatter pos es ch \<longleftrightarrow> (\<forall>h. ch h = [] \<or> path es (Some h) (ch h) None) \<and> (\<forall>h. distinct (ch h)) \<and>
     (\<forall>h i. i \<in> set (ch h) \<longleftrightarrow> occupied es i \<and> pos (e_key (es ! i)) = h)"

lemma path_append [simp]: "path es p (xs @ ys) q \<longleftrightarrow> (\<exists>r. path es p xs r \<and> path es r ys q)"
  by (induction xs arbitrary: p) auto

lemma path_cong: "(\<And>i. i \<in> set xs \<Longrightarrow> e_next (es' ! i) = e_next (es ! i)) \<Longrightarrow> path es' p xs q = path es p xs q"
  by (induction xs arbitrary: p) auto

lemma path_update [simp]: "i \<notin> set xs \<Longrightarrow> path (es[i := e]) p xs q = path es p xs q"
  by (rule path_cong) (metis nth_list_update_neq)

lemma scatter_chain: "scatter pos es ch \<Longrightarrow> i \<in> set (ch h) \<longleftrightarrow> occupied es i \<and> pos (e_key (es ! i)) = h"
  by (simp add: scatter_def)

lemma scatter_head:
  assumes "scatter pos es ch" "ch h \<noteq> []"
  shows "\<exists>xs. ch h = h # xs" "path es (Some h) (ch h) None"
proof -
  show p: "path es (Some h) (ch h) None" using assms by (auto simp: scatter_def)
  show "\<exists>xs. ch h = h # xs" using p assms(2) by (cases "ch h") auto
qed

lemma scatter_empty: "scatter pos es ch \<Longrightarrow> \<not> occupied es h \<Longrightarrow> ch h = []"
  using scatter_head [of pos es ch h] scatter_chain [of pos es ch h h] by force

lemma scatter_foreign: "scatter pos es ch \<Longrightarrow> pos (e_key (es ! h)) \<noteq> h \<Longrightarrow> ch h = []"
  using scatter_head [of pos es ch h] scatter_chain [of pos es ch h h] by force

lemma scatter_unoccupied: "scatter pos es ch \<Longrightarrow> \<not> occupied es i \<Longrightarrow> i \<notin> set (ch h)"
  by (simp add: scatter_chain)

lemma scatter_split:
  assumes s: "scatter pos es ch" and o: "occupied es i"
  shows "\<exists>xs ys. ch (pos (e_key (es ! i))) = xs @ i # ys \<and> path es (Some (pos (e_key (es ! i)))) xs (Some i) \<and>
    path es (Some i) (i # ys) None \<and> distinct (xs @ i # ys)"
proof -
  define h where "h = pos (e_key (es ! i))"
  have i: "i \<in> set (ch h)" using scatter_chain [OF s, of i h] o h_def by simp
  then obtain xs ys where c: "ch h = xs @ i # ys" by (meson split_list)
  have "path es (Some h) (xs @ i # ys) None" using scatter_head(2) [OF s, of h] c by simp
  moreover have "distinct (xs @ i # ys)" using s c unfolding scatter_def by metis
  ultimately show ?thesis using c h_def by auto
qed

section \<open>The walks along a chain\<close>

lemma chain_find_path:
  assumes "path es (Some x) xs None" "\<forall>i \<in> set xs. i < length es \<and> eql (e_key (es ! i)) = Some (P i)" "length xs \<le> n"
  shows "chain_find n eql es x = Some (find P xs)"
  using assms
proof (induction xs arbitrary: n x)
  case (Cons y ys)
  obtain n' where n: "n = Suc n'" using Cons.prems(3) by (cases n) auto
  show ?case
  proof (cases ys)
    case Nil
    then show ?thesis using Cons.prems n by auto
  next
    case (Cons z zs)
    then have "path es (Some z) ys None" "e_next (es ! y) = Some z" using Cons.prems by auto
    then show ?thesis using Cons.IH [of z n'] Cons.prems n by auto
  qed
qed simp

lemma chain_pred_path:
  assumes "path es (Some c) (xs @ [p]) (Some m)" "\<forall>i \<in> set (xs @ [p]). i < length es" "m \<notin> set (xs @ [p])" "length xs < n"
  shows "chain_pred n es m c = Some p"
  using assms
proof (induction xs arbitrary: n c)
  case (Nil n)
  then show ?case by (cases n) auto
next
  case (Cons y ys)
  obtain n' where n: "n = Suc n'" using Cons.prems(4) by (cases n) auto
  obtain z zs where z: "ys @ [p] = z # zs" by (cases ys) auto
  have "path es (e_next (es ! y)) (z # zs) (Some m)" using Cons.prems(1) z by (metis append_Cons path.simps(2))
  then have e: "e_next (es ! y) = Some z" and "path es (Some z) (ys @ [p]) (Some m)" using z by auto
  then have "chain_pred n' es m z = Some p" using Cons.IH [of z n'] Cons.prems n by auto
  moreover have "z \<noteq> m" using Cons.prems(3) z by (metis append_Cons list.set_intros(1) list.set_intros(2))
  moreover have "y = c" using Cons.prems(1) by simp
  ultimately show ?case using e Cons.prems(2) unfolding n by simp
qed

lemma chain_rm_path:
  assumes "path es (Some c) (c # xs) None" "\<forall>i \<in> set (c # xs). i < length es" "\<forall>i \<in> set xs. eql (e_key (es ! i)) = Some (P i)" "length xs < n"
  shows "(\<forall>i \<in> set xs. \<not> P i) \<Longrightarrow> chain_rm n eql es c = Some None"
    and "xs = us @ r # vs \<Longrightarrow> P r \<Longrightarrow> \<forall>i \<in> set us. \<not> P i \<Longrightarrow> chain_rm n eql es c = Some (Some (last (c # us), r))"
proof -
  show "chain_rm n eql es c = Some None" if "\<forall>i \<in> set xs. \<not> P i"
    using assms that
  proof (induction xs arbitrary: n c)
    case (Nil n c)
    then show ?case by (cases n) auto
  next
    case (Cons x xs)
    obtain n' where n: "n = Suc n'" using Cons.prems(4) by (cases n) auto
    have "chain_rm n' eql es x = Some None" using Cons.IH [of x n'] Cons.prems n by auto
    then show ?case using Cons.prems n by auto
  qed
  show "chain_rm n eql es c = Some (Some (last (c # us), r))" if "xs = us @ r # vs" "P r" "\<forall>i \<in> set us. \<not> P i"
    using assms that
  proof (induction us arbitrary: xs n c)
    case (Nil xs n c)
    then show ?case by (cases n) auto
  next
    case (Cons u us)
    obtain n' where n: "n = Suc n'" using Cons.prems(4) by (cases n) auto
    have "chain_rm n' eql es u = Some (Some (last (u # us), r))"
      using Cons.IH [of u "us @ r # vs" n'] Cons.prems n by auto
    then show ?case using Cons.prems n by auto
  qed
qed

section \<open>The entries as a multiset\<close>

definition pairs :: "upb_tabent list \<Rightarrow> (u64 \<times> u64) multiset" where
  "pairs es = mset (map (\<lambda>e. (e_key e, e_val e)) (filter (\<lambda>e. e_key e \<noteq> 0) es))"

lemma pairs_Cons: "pairs (e # es) = (if e_key e \<noteq> 0 then {#(e_key e, e_val e)#} else {#}) + pairs es"
  by (simp add: pairs_def)

lemma pairs_update:
  "i < length es \<Longrightarrow> pairs (es[i := e]) + (if e_key (es ! i) \<noteq> 0 then {#(e_key (es ! i), e_val (es ! i))#} else {#}) =
     pairs es + (if e_key e \<noteq> 0 then {#(e_key e, e_val e)#} else {#})"
proof (induction es arbitrary: i)
  case (Cons x xs)
  show ?case
  proof (cases i)
    case (Suc j)
    then show ?thesis using Cons.IH [of j] Cons.prems by (simp add: pairs_Cons split: if_splits)
  qed (simp add: pairs_Cons)
qed simp

lemma pairs_next [simp]: "i < length es \<Longrightarrow> pairs (es[i := (es ! i)\<lparr>e_next := n\<rparr>]) = pairs es"
  using pairs_update [of i es "(es ! i)\<lparr>e_next := n\<rparr>"] by (simp split: if_splits)

lemma pairs_put: "i < length es \<Longrightarrow> e_key (es ! i) = 0 \<Longrightarrow> e_key e \<noteq> 0 \<Longrightarrow>
    pairs (es[i := e]) = add_mset (e_key e, e_val e) (pairs es)"
  using pairs_update [of i es e] by simp

lemma pairs_clear: "occupied es i \<Longrightarrow> e_key e = 0 \<Longrightarrow> pairs es = add_mset (e_key (es ! i), e_val (es ! i)) (pairs (es[i := e]))"
  using pairs_update [of i es e] by (simp add: occupied_def)

lemma pairs_in: "(a, v) \<in># pairs es \<longleftrightarrow> (\<exists>i. occupied es i \<and> e_key (es ! i) = a \<and> e_val (es ! i) = v)"
  by (force simp: pairs_def occupied_def in_set_conv_nth image_iff)

lemma pairs_size: "size (pairs es) = card {i. occupied es i}"
  unfolding pairs_def occupied_def by (simp add: length_filter_conv_card del: mset_map mset_filter)

lemma last_empty_Some:
  "last_empty es n = Some i \<Longrightarrow> i < n \<and> e_key (es ! i) = 0"
  by (induction n) (auto simp: upb_tabent_isempty_def less_Suc_eq split: if_splits)

lemma last_empty_None: "last_empty es n = None \<Longrightarrow> i < n \<Longrightarrow> e_key (es ! i) \<noteq> 0"
  by (induction n) (auto simp: upb_tabent_isempty_def less_Suc_eq split: if_splits)

lemma emptyent_works:
  assumes "size (pairs (t_entries t)) < length (t_entries t)"
  shows "\<exists>i. emptyent t = Some i \<and> i < length (t_entries t) \<and> e_key (t_entries t ! i) = 0"
proof (cases "emptyent t")
  case None
  have "{i. occupied (t_entries t) i} = {..<length (t_entries t)}"
    using last_empty_None [OF None [unfolded emptyent_def]] by (auto simp: occupied_def)
  then show ?thesis using assms by (simp add: pairs_size)
next
  case (Some i)
  then show ?thesis using last_empty_Some [of "t_entries t" "length (t_entries t)" i] by (simp add: emptyent_def)
qed

section \<open>Finding an entry\<close>

lemma distinct_below: "distinct xs \<Longrightarrow> \<forall>i \<in> set xs. i < n \<Longrightarrow> length xs \<le> n"
  using card_mono [of "{..<n}" "set xs"] by (auto simp: distinct_card)

definition slot_pos :: "upb_table \<Rightarrow> u32 \<Rightarrow> nat" where
  "slot_pos t hash = unat (ucast hash AND t_mask t)"

text \<open>The tail of a chain from an occupied entry, in its main position or not.\<close>

lemma scatter_tail:
  assumes s: "scatter pos es ch" and o: "occupied es i"
  shows "\<exists>ys. path es (Some i) (i # ys) None \<and> distinct (i # ys) \<and> (\<forall>j \<in> set (i # ys). occupied es j \<and> pos (e_key (es ! j)) = pos (e_key (es ! i))) \<and>
    length (i # ys) \<le> length es \<and> (pos (e_key (es ! i)) = i \<longrightarrow> ch i = i # ys)"
proof -
  define h where "h = pos (e_key (es ! i))"
  obtain xs ys where c: "ch h = xs @ i # ys" "path es (Some i) (i # ys) None" "distinct (xs @ i # ys)"
    using scatter_split [OF s o] h_def by auto
  have j: "\<forall>j \<in> set (i # ys). occupied es j \<and> pos (e_key (es ! j)) = h"
    using scatter_chain [OF s, of _ h] c(1) by auto
  have "\<forall>j \<in> set (i # ys). j < length es" using j by (auto simp: occupied_def)
  then have l: "length (i # ys) \<le> length es" using distinct_below [of "i # ys"] c(3) by auto
  have "ch i = i # ys" if "h = i"
  proof -
    have "xs = []" using scatter_head(1) [OF s, of h] c that by (cases xs) auto
    then show ?thesis using c that by simp
  qed
  then show ?thesis using c j l h_def by (metis distinct_append)
qed

lemma findentry_scatter:
  assumes s: "scatter pos (t_entries t) ch" and z: "t_size_lg2 t \<noteq> 0" and sl: "slot_pos t h < length (t_entries t)"
    and e: "\<forall>i. occupied (t_entries t) i \<longrightarrow> eql (e_key (t_entries t ! i)) = Some (P i) \<and> (P i \<longrightarrow> pos (e_key (t_entries t ! i)) = slot_pos t h)"
  shows "findentry eql t h = Some (find P (ch (slot_pos t h)))"
proof (cases "occupied (t_entries t) (slot_pos t h)")
  case False
  then show ?thesis using z sl scatter_empty [OF s False]
    by (simp add: findentry_def upb_getentry_def slot_pos_def [symmetric] occupied_def upb_tabent_isempty_def)
next
  case True
  define i where "i = slot_pos t h"
  obtain ys where y: "path (t_entries t) (Some i) (i # ys) None"
      "\<forall>j \<in> set (i # ys). occupied (t_entries t) j \<and> pos (e_key (t_entries t ! j)) = pos (e_key (t_entries t ! i))"
      "length (i # ys) \<le> length (t_entries t)" "pos (e_key (t_entries t ! i)) = i \<longrightarrow> ch i = i # ys"
    using scatter_tail [OF s, of i] True i_def by blast
  have "\<forall>j \<in> set (i # ys). j < length (t_entries t) \<and> eql (e_key (t_entries t ! j)) = Some (P j)"
    using y(2) e by (auto simp: occupied_def)
  then have "chain_find (length (t_entries t)) eql (t_entries t) i = Some (find P (i # ys))"
    using chain_find_path y(1,3) by blast
  moreover have "find P (i # ys) = find P (ch i)"
  proof (cases "pos (e_key (t_entries t ! i)) = i")
    case False
    then have "ch i = []" by (rule scatter_foreign [OF s])
    moreover have "\<forall>j \<in> set (i # ys). \<not> P j" using y(2) e False i_def by auto
    ultimately show ?thesis by (metis find_None_iff find.simps(1))
  qed (use y(4) in simp)
  ultimately show ?thesis using z sl True i_def
    by (simp add: findentry_def upb_getentry_def slot_pos_def [symmetric] occupied_def upb_tabent_isempty_def del: chain_find.simps find.simps)
qed

section \<open>Insertion\<close>

lemma key_next [simp]: "e_key (es[m := (es ! m)\<lparr>e_next := x\<rparr>] ! i) = e_key (es ! i)"
  by (cases "m = i"; cases "i < length es") (auto simp: list_update_beyond)

lemma occupied_next [simp]: "occupied (es[m := (es ! m)\<lparr>e_next := x\<rparr>]) i = occupied es i"
  by (simp add: occupied_def)

text \<open>The three cases: the main position is empty, it is the head of the chain of the key, or a node of another chain.\<close>

lemma scatter_put:
  assumes s: "scatter pos es ch" and m: "m < length es" "e_key (es ! m) = 0" and k: "k \<noteq> 0" "pos k = m"
  shows "scatter pos (es[m := \<lparr>e_key = k, e_val = v, e_next = None\<rparr>]) (ch(m := [m]))"
proof -
  have out: "m \<notin> set (ch h)" for h using scatter_unoccupied [OF s] m by (simp add: occupied_def)
  have e: "ch m = []" using scatter_empty [OF s] m by (simp add: occupied_def)
  let ?es = "es[m := \<lparr>e_key = k, e_val = v, e_next = None\<rparr>]"
  have "i \<in> set ((ch(m := [m])) h) \<longleftrightarrow> occupied ?es i \<and> pos (e_key (?es ! i)) = h" for h i
    using scatter_chain [OF s, of i h] scatter_chain [OF s, of i m] m k e by (cases "i = m") (auto simp: occupied_def)
  moreover have "(ch(m := [m])) h = [] \<or> path ?es (Some h) ((ch(m := [m])) h) None" for h
    using scatter_head(2) [OF s, of h] m out by auto
  moreover have "distinct ((ch(m := [m])) h)" for h using s by (simp add: scatter_def)
  ultimately show ?thesis unfolding scatter_def by blast
qed

lemma scatter_append:
  assumes s: "scatter pos es ch" and m: "occupied es m" "pos (e_key (es ! m)) = m"
    and n: "n < length es" "e_key (es ! n) = 0" and k: "k \<noteq> 0" "pos k = m"
  shows "scatter pos (es[n := \<lparr>e_key = k, e_val = v, e_next = e_next (es ! m)\<rparr>, m := (es ! m)\<lparr>e_next := Some n\<rparr>]) (ch(m := m # n # tl (ch m)))"
    (is "scatter pos ?es ?ch")
proof -
  have out: "n \<notin> set (ch h)" for h using scatter_unoccupied [OF s] n by (simp add: occupied_def)
  have mn: "m \<noteq> n" using m n by (auto simp: occupied_def)
  obtain ys where y: "ch m = m # ys" "path es (Some m) (m # ys) None" "distinct (m # ys)"
    using scatter_tail [OF s m(1)] m(2) by metis
  have ny: "n \<notin> set ys" using out [of m] y by simp
  have other: "m \<notin> set (ch h)" if "h \<noteq> m" for h using scatter_chain [OF s, of m h] m(2) that by simp
  have p: "path ?es (Some h) (?ch h) None" if "?ch h \<noteq> []" for h
    using scatter_head(2) [OF s, of h] that y ny mn n m out other by (auto simp: occupied_def)
  have d: "distinct (?ch h)" for h using s y ny mn by (auto simp: scatter_def)
  have c: "i \<in> set (?ch h) \<longleftrightarrow> occupied ?es i \<and> pos (e_key (?es ! i)) = h" for h i
  proof (cases "i = n")
    case True
    then show ?thesis using n k mn out [of h] m by (auto simp: occupied_def)
  next
    case False
    then have "i \<in> set (?ch h) \<longleftrightarrow> i \<in> set (ch h)" using y by simp
    moreover have "e_key (?es ! i) = e_key (es ! i)" using False mn by (cases "i = m") (use m in \<open>auto simp: occupied_def\<close>)
    moreover from this have "occupied ?es i \<longleftrightarrow> occupied es i" by (simp add: occupied_def)
    ultimately show ?thesis using scatter_chain [OF s, of i h] by simp
  qed
  show ?thesis unfolding scatter_def using p d c by blast
qed

lemma scatter_evict:
  assumes s: "scatter pos es ch" and m: "occupied es m" "pos (e_key (es ! m)) = c" "c \<noteq> m"
    and n: "n < length es" "e_key (es ! n) = 0" and k: "k \<noteq> 0" "pos k = m"
  shows "\<exists>p ch'. chain_pred (length es) (es[n := es ! m]) m c = Some p \<and> p < length es \<and> p \<noteq> n \<and> p \<noteq> m \<and>
    scatter pos (es[n := es ! m, p := (es ! p)\<lparr>e_next := Some n\<rparr>, m := \<lparr>e_key = k, e_val = v, e_next = None\<rparr>]) ch'"
proof -
  have out: "n \<notin> set (ch h)" for h using scatter_unoccupied [OF s] n by (simp add: occupied_def)
  have mn: "m \<noteq> n" using m n by (auto simp: occupied_def)
  obtain us ys where u: "ch c = us @ m # ys" "path es (Some c) us (Some m)" "path es (Some m) (m # ys) None" "distinct (us @ m # ys)"
    using scatter_split [OF s m(1)] m(2) by auto
  have "us \<noteq> []" using scatter_head(1) [OF s, of c] u(1) m(3) by (cases us) auto
  then obtain xs p where us: "us = xs @ [p]" by (metis rev_exhaust)
  have below: "i < length es" if "i \<in> set (ch c)" for i using scatter_chain [OF s, of i c] that by (simp add: occupied_def)
  have nin: "n \<notin> set us" "n \<notin> set ys" "n \<noteq> p" using out [of c] u(1) us by auto
  have pm: "p \<noteq> m" "p \<notin> set xs" "p \<notin> set ys" "m \<notin> set xs" "m \<notin> set ys" using u(4) us by auto
  have "path (es[n := es ! m]) (Some c) (xs @ [p]) (Some m)" using u(2) us nin(1) path_update by metis
  moreover have "length xs < length es" using distinct_below [of "ch c" "length es"] below u(1,4) us by fastforce
  moreover have "\<forall>i \<in> set (xs @ [p]). i < length (es[n := es ! m])" using below u(1) us by auto
  ultimately have pred: "chain_pred (length es) (es[n := es ! m]) m c = Some p"
    using chain_pred_path [of "es[n := es ! m]" c xs p m "length es"] pm by auto
  let ?es = "es[n := es ! m, p := (es ! p)\<lparr>e_next := Some n\<rparr>, m := \<lparr>e_key = k, e_val = v, e_next = None\<rparr>]"
  let ?ch = "ch(c := us @ n # ys, m := [m])"
  have chm: "ch m = []" using scatter_foreign [OF s, of m] m by simp
  have pl: "p < length es" using below [of p] u(1) us by simp
  have ml: "m < length es" using m by (simp add: occupied_def)
  have other: "h \<noteq> c \<Longrightarrow> m \<notin> set (ch h) \<and> p \<notin> set (ch h)" for h
    using scatter_chain [OF s, of m h] scatter_chain [OF s, of p h] scatter_chain [OF s, of p c] u(1) us m(2) by auto
  have c': "path ?es (Some c) (us @ n # ys) None"
  proof -
    have "path es (Some c) xs (Some p)" "path es (e_next (es ! m)) ys None" using u us by auto
    then show ?thesis using us nin pm mn pl n ml by (auto intro!: exI [of _ "Some p"])
  qed
  have p: "path ?es (Some h) (?ch h) None" if "?ch h \<noteq> []" for h
  proof -
    consider "h = m" | "h = c" "h \<noteq> m" | "h \<noteq> m" "h \<noteq> c" by blast
    then show ?thesis
    proof cases
      case 3
      then show ?thesis using scatter_head(2) [OF s, of h] that out other [of h] by simp
    qed (use c' ml in simp_all)
  qed
  have d: "distinct (?ch h)" for h using s u(4) nin by (auto simp: scatter_def)
  have i: "i \<in> set (?ch h) \<longleftrightarrow> occupied ?es i \<and> pos (e_key (?es ! i)) = h" for h i
  proof -
    consider "i = n" | "i = m" | "i \<noteq> n" "i \<noteq> m" by blast
    then show ?thesis
    proof cases
      case 1
      then show ?thesis using n m mn nin out [of h] by (auto simp: occupied_def)
    next
      case 2
      then show ?thesis using k m mn ml other [of h] u(4) by (auto simp: occupied_def)
    next
      case 3
      have "i \<in> set (?ch h) \<longleftrightarrow> i \<in> set (ch h)" using 3 u(1) chm by auto
      moreover have "e_key (?es ! i) = e_key (es ! i)" using 3 nin(3) pl by (cases "i = p") auto
      moreover from this have "occupied ?es i \<longleftrightarrow> occupied es i" by (simp add: occupied_def)
      ultimately show ?thesis using scatter_chain [OF s, of i h] by simp
    qed
  qed
  have "scatter pos ?es ?ch" unfolding scatter_def using p d i by blast
  then show ?thesis using pred pl nin(3) pm(1) by blast
qed

section \<open>Removal\<close>

lemma scatter_drop_only:
  assumes s: "scatter pos es ch" and h: "ch h = [h]" and e: "e_key e = 0"
  shows "scatter pos (es[h := e]) (ch(h := []))"
proof -
  have o: "occupied es h" "pos (e_key (es ! h)) = h" using scatter_chain [OF s, of h h] h by auto
  have out: "h \<notin> set (ch g)" if "g \<noteq> h" for g using scatter_chain [OF s, of h g] o that by simp
  have "i \<in> set ((ch(h := [])) g) \<longleftrightarrow> occupied (es[h := e]) i \<and> pos (e_key (es[h := e] ! i)) = g" for g i
    using scatter_chain [OF s, of i g] scatter_chain [OF s, of i h] o h e by (cases "i = h") (auto simp: occupied_def)
  moreover have "(ch(h := [])) g = [] \<or> path (es[h := e]) (Some g) ((ch(h := [])) g) None" for g
    using scatter_head(2) [OF s, of g] out [of g] by auto
  moreover have "distinct ((ch(h := [])) g)" for g using s by (simp add: scatter_def)
  ultimately show ?thesis unfolding scatter_def by blast
qed

lemma scatter_drop_head:
  assumes s: "scatter pos es ch" and h: "ch h = h # r # ys" and e: "e_key e = 0"
  shows "scatter pos (es[h := es ! r, r := e]) (ch(h := h # ys))"
    (is "scatter pos ?es ?ch")
proof -
  have o: "occupied es h" "pos (e_key (es ! h)) = h" "occupied es r" "pos (e_key (es ! r)) = h"
    using scatter_chain [OF s, of h h] scatter_chain [OF s, of r h] h by auto
  have d: "distinct (h # r # ys)" using s h unfolding scatter_def by metis
  have out: "h \<notin> set (ch g) \<and> r \<notin> set (ch g)" if "g \<noteq> h" for g
    using scatter_chain [OF s, of h g] scatter_chain [OF s, of r g] o that by simp
  have p: "path es (Some h) (h # r # ys) None" using scatter_head(2) [OF s, of h] h by simp
  have "i \<in> set (?ch g) \<longleftrightarrow> occupied ?es i \<and> pos (e_key (?es ! i)) = g" for g i
  proof (cases "i = r")
    case True
    then show ?thesis using o out [of g] d e by (auto simp: occupied_def)
  next
    case False
    then show ?thesis using scatter_chain [OF s, of i g] o h d by (cases "i = h") (auto simp: occupied_def)
  qed
  moreover have "?ch g = [] \<or> path ?es (Some g) (?ch g) None" for g
    using scatter_head(2) [OF s, of g] out [of g] p d o by (auto simp: occupied_def)
  moreover have "distinct (?ch g)" for g using s d by (simp add: scatter_def)
  ultimately show ?thesis unfolding scatter_def by blast
qed

lemma scatter_drop:
  assumes s: "scatter pos es ch" and h: "ch h = xs @ p # r # ys" and e: "e_key e = 0" "e_next f = e_next (es ! r)" "e_key f = e_key (es ! p)"
  shows "scatter pos (es[r := e, p := f]) (ch(h := xs @ p # ys))"
    (is "scatter pos ?es ?ch")
proof -
  have o: "occupied es r" "pos (e_key (es ! r)) = h" "occupied es p" "pos (e_key (es ! p)) = h"
    using scatter_chain [OF s, of r h] scatter_chain [OF s, of p h] h by auto
  have d: "distinct (xs @ p # r # ys)" using s h unfolding scatter_def by metis
  have out: "p \<notin> set (ch g) \<and> r \<notin> set (ch g)" if "g \<noteq> h" for g
    using scatter_chain [OF s, of p g] scatter_chain [OF s, of r g] o that by simp
  have p: "path es (Some h) (xs @ p # r # ys) None" using scatter_head(2) [OF s, of h] h by simp
  have "i \<in> set (?ch g) \<longleftrightarrow> occupied ?es i \<and> pos (e_key (?es ! i)) = g" for g i
  proof (cases "i = r")
    case True
    then show ?thesis using o out [of g] d e by (auto simp: occupied_def)
  next
    case False
    then show ?thesis using scatter_chain [OF s, of i g] o h d e by (cases "i = p") (auto simp: occupied_def)
  qed
  moreover have "?ch g = [] \<or> path ?es (Some g) (?ch g) None" for g
    using scatter_head(2) [OF s, of g] out [of g] p d o e by (auto simp: occupied_def)
  moreover have "distinct (?ch g)" for g using s d by (simp add: scatter_def)
  ultimately show ?thesis unfolding scatter_def by blast
qed

section \<open>Tables\<close>

text \<open>No element twice.\<close>

definition mdistinct :: "'a multiset \<Rightarrow> bool" where
  "mdistinct M \<longleftrightarrow> (\<forall>x. count M x \<le> 1)"

lemma mdistinct_empty [simp]: "mdistinct {#}"
  by (simp add: mdistinct_def)

lemma mdistinct_add [simp]: "mdistinct (add_mset a M) \<longleftrightarrow> a \<notin># M \<and> mdistinct M"
  unfolding mdistinct_def by (auto simp: not_in_iff le_Suc_eq)

lemma mdistinct_mset: "mdistinct (mset xs) \<longleftrightarrow> distinct xs"
  by (induction xs) simp_all

text \<open>
  The invariant of a table and the map that it stands for. The key of an entry stands for \<open>K\<close> of it: itself in
  an integer table, the string that it points to in a string table; \<open>H\<close> is the hash of a key.
\<close>

definition tab_wf :: "(u64 \<Rightarrow> 'k option) \<Rightarrow> ('k \<Rightarrow> u32) \<Rightarrow> upb_table \<Rightarrow> bool" where
  "tab_wf K H t \<longleftrightarrow> t_size_lg2 t \<le> 30 \<and> length (t_entries t) = unat (upb_table_size t) \<and>
     t_mask t = (if upb_table_size t = 0 then 0 else upb_table_size t - 1) \<and> unat (t_count t) = size (pairs (t_entries t)) \<and>
     (\<forall>p \<in># pairs (t_entries t). K (fst p) \<noteq> None) \<and> mdistinct (image_mset (\<lambda>p. K (fst p)) (pairs (t_entries t))) \<and>
     (\<exists>ch. scatter (\<lambda>a. slot_pos t (H (the (K a)))) (t_entries t) ch)"

definition tab_map :: "(u64 \<Rightarrow> 'k option) \<Rightarrow> upb_table \<Rightarrow> 'k \<Rightarrow> upb_value option" where
  "tab_map K t = map_of (map (\<lambda>e. (the (K (e_key e)), upb_value_val (e_val e) (t_ctype t))) (filter (\<lambda>e. e_key e \<noteq> 0) (t_entries t)))"

lemma tab_wf_D:
  assumes "tab_wf K H t"
  shows "t_size_lg2 t \<le> 30" "length (t_entries t) = unat (upb_table_size t)" "unat (t_count t) = size (pairs (t_entries t))"
    "t_mask t = (if upb_table_size t = 0 then 0 else upb_table_size t - 1)"
    "p \<in># pairs (t_entries t) \<Longrightarrow> \<exists>k. K (fst p) = Some k" "mdistinct (image_mset (\<lambda>p. K (fst p)) (pairs (t_entries t)))"
    "\<exists>ch. scatter (\<lambda>a. slot_pos t (H (the (K a)))) (t_entries t) ch"
  using assms unfolding tab_wf_def by auto

lemma table_size_nat: "t_size_lg2 t \<le> 30 \<Longrightarrow> unat (upb_table_size t) = (if t_size_lg2 t = 0 then 0 else 2 ^ unat (t_size_lg2 t))"
proof -
  assume "t_size_lg2 t \<le> 30"
  then have "unat (t_size_lg2 t) \<le> 30" by (simp add: word_le_nat_alt)
  then have "(2::nat) ^ unat (t_size_lg2 t) < 2 ^ 64" by (intro power_strict_increasing) auto
  then have "unat (push_bit (unat (t_size_lg2 t)) 1 :: u64) = 2 ^ unat (t_size_lg2 t)" by (subst unat_push_bit) simp_all
  then show ?thesis by (simp add: upb_table_size_def)
qed

lemma table_size_le: "t_size_lg2 t \<le> 30 \<Longrightarrow> unat (upb_table_size t) \<le> 2 ^ 30"
  using table_size_nat [of t] power_increasing [of "unat (t_size_lg2 t)" 30 "2::nat"] by (auto simp: word_le_nat_alt)

lemma slot_pos_less:
  assumes "tab_wf K H t" "t_size_lg2 t \<noteq> 0"
  shows "slot_pos t h < length (t_entries t)"
proof -
  have n: "upb_table_size t \<noteq> 0"
    using table_size_nat [OF tab_wf_D(1) [OF assms(1)]] assms(2) by (metis power_not_zero unat_0 zero_neq_numeral)
  have "slot_pos t h \<le> unat (upb_table_size t - 1)"
    unfolding slot_pos_def using tab_wf_D(4) [OF assms(1)] n by (simp add: word_and_le1 flip: word_le_nat_alt)
  also have "\<dots> < unat (upb_table_size t)" using n by (simp add: unat_minus_one unat_gt_0)
  finally show ?thesis using tab_wf_D(2) [OF assms(1)] by simp
qed

lemma getentry_slot: "slot_pos t h < length (t_entries t) \<Longrightarrow> upb_getentry t h = Some (slot_pos t h)"
  by (simp add: upb_getentry_def slot_pos_def Let_def)

lemma occupied_lg2: "tab_wf K H t \<Longrightarrow> occupied (t_entries t) i \<Longrightarrow> t_size_lg2 t \<noteq> 0"
  using tab_wf_D(1,2) [of K H t] table_size_nat [of t] by (auto simp: occupied_def)

lemma distinct_filter_nth:
  assumes "distinct (map f (filter P xs))" "i < length xs" "j < length xs" "P (xs ! i)" "P (xs ! j)" "f (xs ! i) = f (xs ! j)"
  shows "i = j"
  using assms
proof (induction xs arbitrary: i j)
  case (Cons x xs)
  have x: "f x \<noteq> f (xs ! n)" if "P x" "n < length xs" "P (xs ! n)" for n
    using Cons.prems(1) that by (auto simp: image_iff)
  show ?case
  proof (cases i; cases j)
    fix n m
    assume "i = Suc n" "j = Suc m"
    moreover have "distinct (map f (filter P xs))" using Cons.prems(1) by (simp split: if_splits)
    ultimately show ?thesis using Cons.IH [of n m] Cons.prems by simp
  next
    fix m
    assume "i = 0" "j = Suc m"
    then show ?thesis using x [of m] Cons.prems by simp
  next
    fix n
    assume "i = Suc n" "j = 0"
    then show ?thesis using x [of n] Cons.prems by simp
  qed simp
qed simp

lemma tab_keys_distinct:
  assumes "tab_wf K H t"
  shows "distinct (map (\<lambda>e. K (e_key e)) (filter (\<lambda>e. e_key e \<noteq> 0) (t_entries t)))"
proof -
  have "image_mset (\<lambda>p. K (fst p)) (pairs (t_entries t)) = mset (map (\<lambda>e. K (e_key e)) (filter (\<lambda>e. e_key e \<noteq> 0) (t_entries t)))"
    by (simp add: pairs_def image_mset.compositionality comp_def)
  then show ?thesis using tab_wf_D(6) [OF assms] by (simp only: mdistinct_mset)
qed

lemma occupied_inj:
  assumes "tab_wf K H t" "occupied (t_entries t) i" "occupied (t_entries t) j" "K (e_key (t_entries t ! i)) = K (e_key (t_entries t ! j))"
  shows "i = j"
  using distinct_filter_nth [OF tab_keys_distinct [OF assms(1)], of i j] assms(2-) by (simp add: occupied_def)

lemma occupied_key: "tab_wf K H t \<Longrightarrow> occupied (t_entries t) i \<Longrightarrow> \<exists>k. K (e_key (t_entries t ! i)) = Some k"
  using tab_wf_D(5) [of K H t "(e_key (t_entries t ! i), e_val (t_entries t ! i))"] pairs_in by fastforce

lemma tab_map_iff:
  assumes w: "tab_wf K H t"
  shows "tab_map K t k = Some v \<longleftrightarrow> (\<exists>a. (a, v_val v) \<in># pairs (t_entries t) \<and> K a = Some k \<and> v_ctype v = t_ctype t)"
proof -
  let ?l = "filter (\<lambda>e. e_key e \<noteq> 0) (t_entries t)"
  have e: "\<exists>k. K (e_key e) = Some k" if "e \<in> set ?l" for e
    using tab_wf_D(5) [OF w, of "(e_key e, e_val e)"] that by (auto simp: pairs_def)
  have "distinct (map (\<lambda>e. the (K (e_key e))) ?l)"
    using tab_keys_distinct [OF w] e unfolding distinct_map inj_on_def by (metis option.sel)
  then have "tab_map K t k = Some v \<longleftrightarrow> (\<exists>e \<in> set ?l. the (K (e_key e)) = k \<and> upb_value_val (e_val e) (t_ctype t) = v)"
    unfolding tab_map_def by (subst map_of_eq_Some_iff) (auto simp: comp_def)
  also have "\<dots> \<longleftrightarrow> (\<exists>e \<in> set ?l. K (e_key e) = Some k \<and> upb_value_val (e_val e) (t_ctype t) = v)" using e by fastforce
  also have "\<dots> \<longleftrightarrow> (\<exists>a. (a, v_val v) \<in># pairs (t_entries t) \<and> K a = Some k \<and> v_ctype v = t_ctype t)"
    by (cases v) (auto simp: pairs_def upb_value_val_def image_iff)
  finally show ?thesis .
qed

lemma tab_map_occupied:
  assumes "tab_wf K H t" "occupied (t_entries t) i" "K (e_key (t_entries t ! i)) = Some k"
  shows "tab_map K t k = Some (upb_value_val (e_val (t_entries t ! i)) (t_ctype t))"
  using assms by (auto simp: tab_map_iff upb_value_val_def pairs_in)

lemma tab_map_None:
  assumes "tab_wf K H t"
  shows "tab_map K t k = None \<longleftrightarrow> (\<forall>i. occupied (t_entries t) i \<longrightarrow> K (e_key (t_entries t ! i)) \<noteq> Some k)"
proof -
  have "tab_map K t k = None \<longleftrightarrow> (\<forall>v. tab_map K t k \<noteq> Some v)" by auto
  also have "\<dots> \<longleftrightarrow> (\<forall>a v. (a, v) \<in># pairs (t_entries t) \<longrightarrow> K a \<noteq> Some k)"
    unfolding tab_map_iff [OF assms] by (metis upb_value.select_convs(1,2))
  finally show ?thesis by (auto simp: pairs_in)
qed

lemma tab_map_add:
  assumes t: "tab_wf K H t" and t': "tab_wf K H t'" and p: "pairs (t_entries t') = add_mset (a, v) (pairs (t_entries t))"
    and k: "K a = Some k" and c: "t_ctype t' = t_ctype t"
  shows "tab_map K t' = (tab_map K t)(k \<mapsto> upb_value_val v (t_ctype t))"
proof
  fix k'
  have i: "tab_map K t' k' = Some w \<longleftrightarrow> (\<exists>b. (b, v_val w) \<in># pairs (t_entries t') \<and> K b = Some k' \<and> v_ctype w = t_ctype t')" for w
    by (rule tab_map_iff [OF t'])
  show "tab_map K t' k' = ((tab_map K t)(k \<mapsto> upb_value_val v (t_ctype t))) k'"
  proof (cases "k' = k")
    case True
    then show ?thesis using i [of "upb_value_val v (t_ctype t)"] p k c by (auto simp: upb_value_val_def)
  next
    case False
    then have "tab_map K t' k' = Some w \<longleftrightarrow> tab_map K t k' = Some w" for w
      unfolding i tab_map_iff [OF t] using p k c by auto
    then have "tab_map K t' k' = tab_map K t k'" by (metis option.exhaust)
    then show ?thesis using False by simp
  qed
qed

lemma tab_map_remove:
  assumes t: "tab_wf K H t" and t': "tab_wf K H t'" and p: "pairs (t_entries t) = add_mset (a, v) (pairs (t_entries t'))"
    and k: "K a = Some k" and c: "t_ctype t' = t_ctype t"
  shows "tab_map K t' = (tab_map K t)(k := None)"
proof -
  have "\<not> ((b, w) \<in># pairs (t_entries t') \<and> K b = Some k)" for b w
    using tab_wf_D(6) [OF t] k unfolding p by (force simp: image_iff)
  then have "tab_map K t' k = None" unfolding tab_map_None [OF t'] by (metis pairs_in)
  then show ?thesis using tab_map_add [OF t' t p k c [symmetric]] by auto
qed

text \<open>The invariant after a change of the entries.\<close>

lemma tabent_fields [simp]: "e\<lparr>e_next := n, e_key := k, e_val := v\<rparr> = \<lparr>e_key = k, e_val = v, e_next = n\<rparr>"
  by (cases e) simp

lemma table_size_entries [simp]: "upb_table_size (t\<lparr>t_count := c, t_entries := es\<rparr>) = upb_table_size t"
  by (simp add: upb_table_size_def)

lemma slot_pos_entries [simp]: "slot_pos (t\<lparr>t_count := c, t_entries := es\<rparr>) h = slot_pos t h"
  by (simp add: slot_pos_def)

lemma pairs_le: "size (pairs es) \<le> length es"
  by (simp add: pairs_def del: mset_map mset_filter)

lemma tab_wf_add:
  assumes t: "tab_wf K H t" and es: "length es = length (t_entries t)" "scatter (\<lambda>a. slot_pos t (H (the (K a)))) es ch"
    and p: "pairs es = add_mset (a, v) (pairs (t_entries t))" and k: "K a = Some k" "tab_map K t k = None"
  shows "tab_wf K H (t\<lparr>t_count := t_count t + 1, t_entries := es\<rparr>)"
proof -
  have "size (pairs (t_entries t)) \<le> length (t_entries t)" by (rule pairs_le)
  then have "unat (t_count t) \<le> 2 ^ 30"
    using tab_wf_D(2,3) [OF t] table_size_le [OF tab_wf_D(1) [OF t]] by simp
  then have c: "unat (t_count t + 1) = size (pairs es)" using p tab_wf_D(3) [OF t] by (simp add: unat_word_ariths)
  have "K (fst q) \<noteq> K a" if "q \<in># pairs (t_entries t)" for q
    using k that pairs_in [of "fst q" "snd q"] unfolding tab_map_None [OF t] by auto
  then have "mdistinct (image_mset (\<lambda>p. K (fst p)) (pairs es))" using tab_wf_D(6) [OF t] p by force
  moreover have "\<forall>p \<in># pairs es. K (fst p) \<noteq> None" using tab_wf_D(5) [OF t] p k by auto
  ultimately show ?thesis using tab_wf_D(1,2,4) [OF t] es c unfolding tab_wf_def by auto
qed

lemma tab_wf_remove:
  assumes t: "tab_wf K H t" and es: "length es = length (t_entries t)" "scatter (\<lambda>a. slot_pos t (H (the (K a)))) es ch"
    and p: "pairs (t_entries t) = add_mset (a, v) (pairs es)"
  shows "tab_wf K H (t\<lparr>t_count := t_count t - 1, t_entries := es\<rparr>)"
proof -
  have n: "unat (t_count t) = Suc (size (pairs es))" using tab_wf_D(3) [OF t] p by simp
  then have "t_count t \<noteq> 0" by (metis nat.distinct(1) unat_0)
  then have c: "unat (t_count t - 1) = size (pairs es)" using n by (simp add: unat_minus_one)
  have "mdistinct (image_mset (\<lambda>p. K (fst p)) (pairs es))" "\<forall>p \<in># pairs es. K (fst p) \<noteq> None"
    using tab_wf_D(5,6) [OF t] p by auto
  then show ?thesis using tab_wf_D(1,2,4) [OF t] es c unfolding tab_wf_def by auto
qed

section \<open>The operations under the contract of the keys\<close>

text \<open>
  What the shared code relies on: \<open>hf\<close> hashes the keys of entries and \<open>eq\<close> compares them with a key
  that is looked up, consistently with the keys that they stand for.
\<close>

locale table_keys =
  fixes K :: "u64 \<Rightarrow> 'k option" and H :: "'k \<Rightarrow> u32" and hf :: "u64 \<Rightarrow> u32 option" and eq :: "'k \<Rightarrow> u64 \<Rightarrow> bool option"
  assumes hash: "K a = Some k \<Longrightarrow> hf a = Some (H k)"
    and eql: "K a = Some k' \<Longrightarrow> eq k a = Some (k' = k)"
begin

lemma findentry_iff:
  assumes t: "tab_wf K H t"
  shows "\<exists>r. findentry (eq k) t (H k) = Some r \<and> (\<forall>i. r = Some i \<longleftrightarrow> occupied (t_entries t) i \<and> K (e_key (t_entries t ! i)) = Some k)"
proof (cases "t_size_lg2 t = 0")
  case True
  then have "\<not> occupied (t_entries t) i" for i using occupied_lg2 [OF t] by blast
  then show ?thesis using True by (simp add: findentry_def)
next
  case False
  let ?es = "t_entries t" and ?pos = "\<lambda>a. slot_pos t (H (the (K a)))"
  define P where "P i \<longleftrightarrow> K (e_key (?es ! i)) = Some k" for i
  obtain ch where s: "scatter ?pos ?es ch" using tab_wf_D(7) [OF t] by blast
  have e: "\<forall>i. occupied ?es i \<longrightarrow> eq k (e_key (?es ! i)) = Some (P i) \<and> (P i \<longrightarrow> ?pos (e_key (?es ! i)) = slot_pos t (H k))"
    using occupied_key [OF t] eql P_def by fastforce
  define r where "r = find P (ch (slot_pos t (H k)))"
  have f: "findentry (eq k) t (H k) = Some r"
    unfolding r_def by (rule findentry_scatter [OF s False slot_pos_less [OF t False] e])
  have in_ch: "i \<in> set (ch (slot_pos t (H k))) \<and> P i \<longleftrightarrow> occupied ?es i \<and> P i" for i
    using scatter_chain [OF s, of i] P_def by auto
  have "r = Some i \<longleftrightarrow> occupied ?es i \<and> P i" for i
  proof
    assume "r = Some i"
    then have "i \<in> set (ch (slot_pos t (H k))) \<and> P i" unfolding r_def by (metis find_Some_iff nth_mem)
    then show "occupied ?es i \<and> P i" using in_ch by blast
  next
    assume i: "occupied ?es i \<and> P i"
    then have "r \<noteq> None" unfolding r_def using in_ch by (metis find_None_iff)
    then obtain j where j: "r = Some j" by blast
    then have "j \<in> set (ch (slot_pos t (H k))) \<and> P j" unfolding r_def by (metis find_Some_iff nth_mem)
    then have "occupied ?es j \<and> P j" using in_ch by blast
    then have "j = i" using occupied_inj [OF t, of j i] i P_def by simp
    then show "r = Some i" using j by simp
  qed
  then show ?thesis using f P_def by blast
qed

lemma lookup_map:
  assumes t: "tab_wf K H t"
  shows "tab_lookup (eq k) t (H k) = Some (tab_map K t k)"
proof -
  obtain r where r: "findentry (eq k) t (H k) = Some r"
      "\<forall>i. r = Some i \<longleftrightarrow> occupied (t_entries t) i \<and> K (e_key (t_entries t ! i)) = Some k"
    using findentry_iff [OF t] by blast
  show ?thesis
  proof (cases r)
    case None
    then show ?thesis using r tab_map_None [OF t, of k] by (auto simp: tab_lookup_def)
  next
    case (Some i)
    then have "tab_map K t k = Some (upb_value_val (e_val (t_entries t ! i)) (t_ctype t))"
      using r(2) tab_map_occupied [OF t, of i k] by blast
    then show ?thesis using r(1) Some by (simp add: tab_lookup_def)
  qed
qed

lemma findentry_None: "tab_wf K H t \<Longrightarrow> tab_map K t k = None \<Longrightarrow> findentry (eq k) t (H k) = Some None"
  using findentry_iff [of t k] tab_map_None [of K H t k] by (metis option.exhaust)

lemma findentry_Some:
  "tab_wf K H t \<Longrightarrow> occupied (t_entries t) i \<Longrightarrow> K (e_key (t_entries t ! i)) = Some k \<Longrightarrow> findentry (eq k) t (H k) = Some (Some i)"
  using findentry_iff [of t k] by metis

text \<open>What the middle of an insertion does to the entries.\<close>

lemma insert_entries:
  assumes t: "tab_wf K H t" and k: "K tk = Some k" "tk \<noteq> 0" "tab_map K t k = None" "v_ctype val = t_ctype t"
    and room: "size (pairs (t_entries t)) < length (t_entries t)"
  shows "\<exists>t'. tab_insert (eq k) hf tk val (H k) t = Some t' \<and> tab_wf K H t' \<and> pairs (t_entries t') = add_mset (tk, v_val val) (pairs (t_entries t)) \<and>
    t_ctype t' = t_ctype t \<and> t_size_lg2 t' = t_size_lg2 t \<and> t_count t' = t_count t + 1"
proof -
  let ?es = "t_entries t" and ?pos = "\<lambda>a. slot_pos t (H (the (K a)))"
  obtain n where n: "emptyent t = Some n" "n < length ?es" "e_key (?es ! n) = 0" using emptyent_works [OF room] by blast
  have lg: "t_size_lg2 t \<noteq> 0" using room tab_wf_D(1,2) [OF t] table_size_nat [of t] by auto
  define m where "m = slot_pos t (H k)"
  have m: "m < length ?es" "upb_getentry t (H k) = Some m"
    using slot_pos_less [OF t lg] getentry_slot unfolding m_def by auto
  obtain ch where s: "scatter ?pos ?es ch" using tab_wf_D(7) [OF t] by blast
  have pk: "?pos tk = m" using k m_def by simp
  have fin: "findentry (eq k) t (H k) = Some None" by (rule findentry_None [OF t k(3)])
  define mid where "mid = (if upb_tabent_isempty (?es ! m) then Some (m, ?es[m := (?es ! m)\<lparr>e_next := None\<rparr>])
         else do {
           new \<leftarrow> emptyent t;
           h \<leftarrow> hf (e_key (?es ! m));
           chain \<leftarrow> upb_getentry t h;
           if chain = m then
             let es = ?es[new := (?es ! new)\<lparr>e_next := e_next (?es ! m)\<rparr>] in
             Some (new, es[m := (es ! m)\<lparr>e_next := Some new\<rparr>])
           else do {
             let es = ?es[new := ?es ! m];
             pred \<leftarrow> chain_pred (length es) es m chain;
             let es = es[pred := (es ! pred)\<lparr>e_next := Some new\<rparr>];
             Some (m, es[m := (es ! m)\<lparr>e_next := None\<rparr>]) } })"
  have "\<exists>our es1 ch'. mid = Some (our, es1) \<and> length es1 = length ?es \<and> our < length ?es \<and>
      scatter ?pos (es1[our := (es1 ! our)\<lparr>e_key := tk, e_val := v_val val\<rparr>]) ch' \<and>
      pairs (es1[our := (es1 ! our)\<lparr>e_key := tk, e_val := v_val val\<rparr>]) = add_mset (tk, v_val val) (pairs ?es)"
  proof (cases "e_key (?es ! m) = 0")
    case True
    let ?e = "\<lparr>e_key = tk, e_val = v_val val, e_next = None\<rparr>"
    have "scatter ?pos (?es[m := ?e]) (ch(m := [m]))" by (rule scatter_put [OF s m(1) True k(2) pk])
    moreover have "pairs (?es[m := ?e]) = add_mset (tk, v_val val) (pairs ?es)" using pairs_put [OF m(1) True, of ?e] k(2) by simp
    moreover have "mid = Some (m, ?es[m := (?es ! m)\<lparr>e_next := None\<rparr>])" using True by (simp add: mid_def upb_tabent_isempty_def)
    ultimately show ?thesis using m(1) by auto
  next
    case False
    then have o: "occupied ?es m" using m(1) by (simp add: occupied_def)
    then obtain k' where k': "K (e_key (?es ! m)) = Some k'" using occupied_key [OF t] by blast
    define c where "c = ?pos (e_key (?es ! m))"
    have hc: "hf (e_key (?es ! m)) = Some (H k')" "upb_getentry t (H k') = Some c"
      using hash [OF k'] getentry_slot [OF slot_pos_less [OF t lg]] k' c_def by auto
    have mn: "m \<noteq> n" using False n(3) by auto
    show ?thesis
    proof (cases "c = m")
      case True
      let ?e = "\<lparr>e_key = tk, e_val = v_val val, e_next = e_next (?es ! m)\<rparr>"
      let ?u = "?es[n := ?e, m := (?es ! m)\<lparr>e_next := Some n\<rparr>]"
      have "scatter ?pos ?u (ch(m := m # n # tl (ch m)))"
        by (rule scatter_append [OF s o _ n(2,3) k(2) pk]) (use True c_def in simp)
      moreover have "pairs ?u = add_mset (tk, v_val val) (pairs ?es)"
        using pairs_next [of m "?es[n := ?e]" "Some n"] pairs_put [OF n(2,3), of ?e] m(1) mn k(2) by simp
      moreover have "mid = Some (n, ?es[n := (?es ! n)\<lparr>e_next := e_next (?es ! m)\<rparr>, m := (?es ! m)\<lparr>e_next := Some n\<rparr>])"
        using False n hc True mn by (simp add: mid_def upb_tabent_isempty_def)
      ultimately show ?thesis using m(1) n(2) mn by (auto simp: list_update_swap)
    next
      case ne: False
      let ?e = "\<lparr>e_key = tk, e_val = v_val val, e_next = None\<rparr>"
      obtain p ch' where p: "chain_pred (length ?es) (?es[n := ?es ! m]) m c = Some p" "p < length ?es" "p \<noteq> n" "p \<noteq> m"
          "scatter ?pos (?es[n := ?es ! m, p := (?es ! p)\<lparr>e_next := Some n\<rparr>, m := ?e]) ch'"
        using scatter_evict [OF s o _ ne n(2,3) k(2) pk, of "v_val val"] c_def by blast
      let ?u = "?es[n := ?es ! m, p := (?es ! p)\<lparr>e_next := Some n\<rparr>]"
      have "pairs (?es[n := ?es ! m]) = add_mset (e_key (?es ! m), e_val (?es ! m)) (pairs ?es)" using pairs_put [OF n(2,3)] False by simp
      then have "pairs ?u = add_mset (e_key (?es ! m), e_val (?es ! m)) (pairs ?es)"
        using pairs_next [of p "?es[n := ?es ! m]" "Some n"] p(2,3) by simp
      then have "pairs (?u[m := ?e]) = add_mset (tk, v_val val) (pairs ?es)"
        using pairs_update [of m ?u ?e] m(1) False mn p(4) k(2) by simp
      moreover have "mid = Some (m, ?u[m := (?es ! m)\<lparr>e_next := None\<rparr>])"
        using False n hc ne mn p by (simp add: mid_def upb_tabent_isempty_def)
      ultimately show ?thesis using m(1) p(5) by auto
    qed
  qed
  then obtain our es1 ch' where mid: "mid = Some (our, es1)" and l: "length es1 = length ?es" "our < length ?es"
      and sc: "scatter ?pos (es1[our := (es1 ! our)\<lparr>e_key := tk, e_val := v_val val\<rparr>]) ch'"
      and pr: "pairs (es1[our := (es1 ! our)\<lparr>e_key := tk, e_val := v_val val\<rparr>]) = add_mset (tk, v_val val) (pairs ?es)"
    by blast
  define es2 where "es2 = es1[our := (es1 ! our)\<lparr>e_key := tk, e_val := v_val val\<rparr>]"
  define t' where "t' = t\<lparr>t_count := t_count t + 1, t_entries := es2\<rparr>"
  have w: "tab_wf K H t'"
    unfolding t'_def by (rule tab_wf_add [OF t _ _ _ k(1,3)]) (use sc pr l es2_def in auto)
  have "occupied (t_entries t') our" "e_key (t_entries t' ! our) = tk" using l k(2) by (auto simp: t'_def es2_def occupied_def)
  then have f: "findentry (eq k) t' (H k) = Some (Some our)" using findentry_Some [OF w, of our k] k(1) by simp
  have "tab_insert (eq k) hf tk val (H k) t = do { (our, es) \<leftarrow> mid;
       let t = t\<lparr>t_count := t_count t + 1, t_entries := es[our := (es ! our)\<lparr>e_key := tabkey, e_val := v_val val\<rparr>]\<rparr>;
       e \<leftarrow> findentry (eq k) t (H k);
       if e \<noteq> Some our then None else Some t }" if "tabkey = tk" for tabkey
    unfolding tab_insert_def mid_def Let_def using fin m(2) k(4) that by (simp cong: if_cong)
  from this [OF refl] have "tab_insert (eq k) hf tk val (H k) t = Some t'"
    unfolding mid using f by (simp add: t'_def es2_def)
  then show ?thesis using w pr by (simp add: t'_def es2_def)
qed

end

section \<open>Removal, initialization and iteration\<close>

context table_keys
begin

lemma rm_map:
  assumes t: "tab_wf K H t" and lg: "t_size_lg2 t \<noteq> 0"
  shows "case tab_map K t k of
      None \<Rightarrow> tab_rm (eq k) (H k) t = Some (None, t)
    | Some v \<Rightarrow> \<exists>a t'. tab_rm (eq k) (H k) t = Some (Some (v, a), t') \<and> K a = Some k \<and> tab_wf K H t' \<and>
        pairs (t_entries t) = add_mset (a, v_val v) (pairs (t_entries t')) \<and> t_ctype t' = t_ctype t \<and> t_size_lg2 t' = t_size_lg2 t \<and>
        t_count t' = t_count t - 1"
proof -
  let ?es = "t_entries t" and ?pos = "\<lambda>a. slot_pos t (H (the (K a)))"
  define m where "m = slot_pos t (H k)"
  have m: "m < length ?es" "upb_getentry t (H k) = Some m" using slot_pos_less [OF t lg] getentry_slot unfolding m_def by auto
  obtain ch where s: "scatter ?pos ?es ch" using tab_wf_D(7) [OF t] by blast
  have in_ch: "i \<in> set (ch m)" if "occupied ?es i" "K (e_key (?es ! i)) = Some k" for i
    using scatter_chain [OF s, of i m] that m_def by simp
  have absent: "tab_map K t k = None" if "\<forall>i \<in> set (ch m). K (e_key (?es ! i)) \<noteq> Some k"
    using tab_map_None [OF t, of k] in_ch that by blast
  show ?thesis
  proof (cases "e_key (?es ! m) = 0")
    case True
    then have "ch m = []" using scatter_empty [OF s, of m] by (simp add: occupied_def)
    then show ?thesis using absent m True by (simp add: tab_rm_def upb_tabent_isempty_def)
  next
    case False
    then have o: "occupied ?es m" using m(1) by (simp add: occupied_def)
    obtain ys where y: "path ?es (Some m) (m # ys) None" "distinct (m # ys)" "length (m # ys) \<le> length ?es"
        "\<forall>j \<in> set (m # ys). occupied ?es j \<and> ?pos (e_key (?es ! j)) = ?pos (e_key (?es ! m))"
        "?pos (e_key (?es ! m)) = m \<longrightarrow> ch m = m # ys"
      using scatter_tail [OF s o] by blast
    have ci: "ch m = m # ys" if "i \<in> set (ch m)" for i
      using y(5) scatter_foreign [OF s, of m] that by fastforce
    have e: "eq k (e_key (?es ! i)) = Some (K (e_key (?es ! i)) = Some k)" if "occupied ?es i" for i
      using occupied_key [OF t that] eql by auto
    have removed: "\<exists>a t'. r = Some (Some (v, a), t') \<and> K a = Some k \<and> tab_wf K H t' \<and>
        pairs (t_entries t) = add_mset (a, v_val v) (pairs (t_entries t')) \<and> t_ctype t' = t_ctype t \<and> t_size_lg2 t' = t_size_lg2 t \<and>
        t_count t' = t_count t - 1"
      if i: "occupied ?es i" "K (e_key (?es ! i)) = Some k" and v: "tab_map K t k = Some v"
        and es: "length es = length ?es" "scatter ?pos es ch'" "pairs ?es = add_mset (e_key (?es ! i), e_val (?es ! i)) (pairs es)"
        and r: "r = Some (Some (upb_value_val (e_val (?es ! i)) (t_ctype t), e_key (?es ! i)), t\<lparr>t_count := t_count t - 1, t_entries := es\<rparr>)"
      for i v es ch' r
    proof -
      have "v = upb_value_val (e_val (?es ! i)) (t_ctype t)" using tab_map_occupied [OF t i] v by simp
      then show ?thesis using tab_wf_remove [OF t es] i(2) es(3) unfolding r by (simp add: upb_value_val_def)
    qed
    show ?thesis
    proof (cases "K (e_key (?es ! m)) = Some k")
      case True
      then have c: "ch m = m # ys" using y(5) m_def by simp
      have v: "tab_map K t k = Some (upb_value_val (e_val (?es ! m)) (t_ctype t))" by (rule tab_map_occupied [OF t o True])
      show ?thesis
      proof (cases ys)
        case Nil
        let ?u = "?es[m := (?es ! m)\<lparr>e_key := 0\<rparr>]"
        have "scatter ?pos ?u (ch(m := []))" by (rule scatter_drop_only [OF s]) (use c Nil in auto)
        moreover have "pairs ?es = add_mset (e_key (?es ! m), e_val (?es ! m)) (pairs ?u)" by (rule pairs_clear [OF o]) simp
        ultimately show ?thesis unfolding v option.case
          by (intro removed [OF o True v, of ?u]) (use y(1) Nil m e [OF o] True False in \<open>auto simp: tab_rm_def upb_tabent_isempty_def Let_def\<close>)
      next
        case (Cons r zs)
        have r: "occupied ?es r" "r \<noteq> m" "e_next (?es ! m) = Some r" "r < length ?es" using y Cons by (auto simp: occupied_def)
        let ?u = "?es[m := ?es ! r, r := (?es ! r)\<lparr>e_key := 0\<rparr>]"
        have sc: "scatter ?pos ?u (ch(m := m # zs))" by (rule scatter_drop_head [OF s]) (use c Cons in auto)
        have "pairs (?es[m := ?es ! r]) + {#(e_key (?es ! m), e_val (?es ! m))#} = pairs ?es + {#(e_key (?es ! r), e_val (?es ! r))#}"
          using pairs_update [OF m(1), of "?es ! r"] False r(1) by (simp add: occupied_def)
        moreover have "pairs (?es[m := ?es ! r]) = add_mset (e_key (?es ! r), e_val (?es ! r)) (pairs ?u)"
          using pairs_clear [of "?es[m := ?es ! r]" r "(?es ! r)\<lparr>e_key := 0\<rparr>"] r by (simp add: occupied_def)
        ultimately have "pairs ?es = add_mset (e_key (?es ! m), e_val (?es ! m)) (pairs ?u)" by (simp add: add_mset_commute)
        then show ?thesis using sc unfolding v option.case
          by (intro removed [OF o True v, of ?u]) (use r m e [OF o] True False in \<open>auto simp: tab_rm_def upb_tabent_isempty_def Let_def\<close>)
      qed
    next
      case ne: False
      define P where "P i \<longleftrightarrow> K (e_key (?es ! i)) = Some k" for i
      have l: "\<forall>i \<in> set (m # ys). i < length ?es" "\<forall>i \<in> set ys. eq k (e_key (?es ! i)) = Some (P i)" "length ys < length ?es"
        using y(3,4) e P_def by (auto simp: occupied_def)
      show ?thesis
      proof (cases "\<exists>r \<in> set ys. P r")
        case True
        then obtain us r vs where u: "ys = us @ r # vs" "P r" "\<forall>i \<in> set us. \<not> P i" by (metis split_list_first_prop)
        obtain xs p where xp: "m # us = xs @ [p]" by (metis list.distinct(1) rev_exhaust)
        have o': "occupied ?es r" using y(4) u(1) by simp
        have c: "ch m = xs @ p # r # vs" using ci in_ch [OF o'] u P_def xp by (metis append.assoc append_Cons append_Nil)
        have v: "tab_map K t k = Some (upb_value_val (e_val (?es ! r)) (t_ctype t))"
          using tab_map_occupied [OF t o'] u(2) P_def by simp
        have f: "chain_rm (length ?es) (eq k) ?es m = Some (Some (p, r))"
          using chain_rm_path(2) [OF y(1) l u] xp by simp
        have "p \<in> set (m # us)" unfolding xp by simp
        then have op: "occupied ?es p" "p \<noteq> r" using scatter_chain [OF s, of p m] c y(2) u(1) by auto
        let ?u = "?es[r := (?es ! r)\<lparr>e_key := 0\<rparr>, p := (?es ! p)\<lparr>e_next := e_next (?es ! r)\<rparr>]"
        have sc: "scatter ?pos ?u (ch(m := xs @ p # vs))" by (rule scatter_drop [OF s c]) auto
        have "pairs ?es = add_mset (e_key (?es ! r), e_val (?es ! r)) (pairs ?u)"
          using pairs_clear [OF o', of "(?es ! r)\<lparr>e_key := 0\<rparr>"] pairs_next [of p "?es[r := (?es ! r)\<lparr>e_key := 0\<rparr>]"] op
          by (simp add: occupied_def)
        moreover have "r < length ?es" using o' by (simp add: occupied_def)
        ultimately show ?thesis using sc unfolding v option.case
          by (intro removed [OF o' _ v, of ?u]) (use u(2) P_def m e [OF o] ne False f op in \<open>auto simp: tab_rm_def upb_tabent_isempty_def Let_def\<close>)
      next
        case none: False
        then have "\<forall>i \<in> set ys. \<not> P i" by blast
        note f = chain_rm_path(1) [OF y(1) l this]
        have "tab_map K t k = None" by (rule absent) (use ci ne none P_def in fastforce)
        then show ?thesis using f m e [OF o] ne False by (simp add: tab_rm_def upb_tabent_isempty_def Let_def)
      qed
    qed
  qed
qed

lemma insert_map:
  assumes "tab_wf K H t" "K tk = Some k" "tk \<noteq> 0" "tab_map K t k = None" "v_ctype val = t_ctype t"
    and "size (pairs (t_entries t)) < length (t_entries t)"
  shows "\<exists>t'. tab_insert (eq k) hf tk val (H k) t = Some t' \<and> tab_wf K H t' \<and> tab_map K t' = (tab_map K t)(k \<mapsto> val) \<and>
    pairs (t_entries t') = add_mset (tk, v_val val) (pairs (t_entries t)) \<and>
    t_ctype t' = t_ctype t \<and> t_size_lg2 t' = t_size_lg2 t \<and> t_count t' = t_count t + 1"
proof -
  obtain t' where t': "tab_insert (eq k) hf tk val (H k) t = Some t'" "tab_wf K H t'"
      "pairs (t_entries t') = add_mset (tk, v_val val) (pairs (t_entries t))" "t_ctype t' = t_ctype t" "t_size_lg2 t' = t_size_lg2 t"
      "t_count t' = t_count t + 1"
    using insert_entries [OF assms] by blast
  have "upb_value_val (v_val val) (t_ctype t) = val" using assms(5) by (cases val) (simp add: upb_value_val_def)
  then show ?thesis using t' tab_map_add [OF assms(1) t'(2,3) assms(2) t'(4)] by auto
qed

end

lemma scatter_replicate: "scatter pos (replicate n empty_ent) (\<lambda>h. [])"
  by (auto simp: scatter_def occupied_def)

lemma pairs_replicate [simp]: "pairs (replicate n empty_ent) = {#}"
  by (induction n) (simp_all add: pairs_def)

text \<open>The bytes of an array of entries.\<close>

definition entries_bytes :: "u8 \<Rightarrow> u64" where
  "entries_bytes lg = push_bit (unat lg) 1 * 24"

definition fresh_table :: "upb_ctype_t \<Rightarrow> u8 \<Rightarrow> upb_table" where
  "fresh_table c lg = \<lparr>t_count = 0, t_mask = (if lg = 0 then 0 else push_bit (unat lg) 1 - 1), t_ctype = c, t_size_lg2 = lg,
     t_entries = replicate (if lg = 0 then 0 else 2 ^ unat lg) empty_ent\<rparr>"

lemma tab_init_fresh:
  assumes lg: "lg \<le> 30"
  shows "tab_init mem c lg = Some (if lg = 0 \<or> mem (entries_bytes lg) then Some (fresh_table c lg) else None)"
proof (cases "lg = 0")
  case True
  then show ?thesis by (simp add: tab_init_def fresh_table_def upb_table_size_def Let_def)
next
  case False
  have u: "unat (push_bit (unat lg) 1 :: u64) = 2 ^ unat lg"
    using table_size_nat [of "\<lparr>t_count = 0, t_mask = 0, t_ctype = c, t_size_lg2 = lg, t_entries = []\<rparr>"] lg False
    by (simp add: upb_table_size_def)
  have "(2::nat) ^ unat lg \<le> 2 ^ 30" using lg by (intro power_increasing) (auto simp: word_le_nat_alt)
  then have "unat (entries_bytes lg) = 2 ^ unat lg * 24" unfolding entries_bytes_def using u by (simp add: unat_word_ariths)
  then have b: "entries_bytes lg > 0" by (simp add: word_less_nat_alt)
  have z: "(push_bit (unat lg) 1 :: u64) \<noteq> 0" using u by (metis power_not_zero unat_0 zero_neq_numeral)
  have "\<not> lg \<ge> 31" using lg by (simp add: word_le_nat_alt)
  then show ?thesis using False b z u
    by (simp add: tab_init_def fresh_table_def upb_table_size_def Let_def entries_bytes_def del: push_bit_eq_0_iff)
qed

lemma fresh_table_wf:
  assumes lg: "lg \<le> 30"
  shows "tab_wf K H (fresh_table c lg)" "tab_map K (fresh_table c lg) = Map.empty"
proof -
  have "length (t_entries (fresh_table c lg)) = unat (upb_table_size (fresh_table c lg))"
    using table_size_nat [of "fresh_table c lg"] lg by (simp add: fresh_table_def)
  moreover have "upb_table_size (fresh_table c lg) = (if lg = 0 then 0 else push_bit (unat lg) 1)"
    by (simp add: fresh_table_def upb_table_size_def)
  moreover have "upb_table_size (fresh_table c lg) \<noteq> 0" if "lg \<noteq> 0"
  proof
    assume "upb_table_size (fresh_table c lg) = 0"
    then show False using table_size_nat [of "fresh_table c lg"] lg that by (simp add: fresh_table_def)
  qed
  moreover have "\<exists>ch. scatter pos (t_entries (fresh_table c lg)) ch" for pos
    unfolding fresh_table_def upb_table.select_convs by (rule exI, rule scatter_replicate)
  ultimately show "tab_wf K H (fresh_table c lg)"
    unfolding tab_wf_def using lg by (auto simp: fresh_table_def)
  show "tab_map K (fresh_table c lg) = Map.empty" by (simp add: tab_map_def fresh_table_def)
qed

lemma find_upt_None: "find P [j..<n] = None \<Longrightarrow> filter P [j..<n] = []"
  by (simp add: find_None_iff filter_empty_conv)

lemma find_upt_Some:
  assumes "find P [j..<n] = Some k"
  shows "P k" "j \<le> k" "k < n" "filter P [j..<n] = k # filter P [Suc k..<n]"
proof -
  obtain d where d: "d < n - j" "P (j + d)" "k = j + d" "\<forall>d' < d. \<not> P (j + d')" using assms by (auto simp: find_Some_iff)
  then show k: "P k" "j \<le> k" "k < n" by auto
  have "\<not> P i" if "j \<le> i" "i < k" for i using d(4) [rule_format, of "i - j"] d(3) that by simp
  then have "filter P [j..<k] = []" by (simp add: filter_empty_conv)
  moreover have "[j..<n] = [j..<k] @ k # [Suc k..<n]"
    using k(2,3) by (metis le_add_diff_inverse less_imp_le_nat upt_add_eq_append upt_conv_Cons)
  ultimately show "filter P [j..<n] = k # filter P [Suc k..<n]" using k(1) by simp
qed

lemma tab_next_from:
  fixes t :: upb_table
  defines "P \<equiv> \<lambda>i. \<not> upb_tabent_isempty (t_entries t ! i)"
  assumes l: "length (t_entries t) = unat (upb_table_size t)" "unat (upb_table_size t) \<le> 2 ^ 30"
    and n: "length (t_entries t) - j \<le> n" "i = (case find P [j..<length (t_entries t)] of None \<Rightarrow> SIZE_MAX | Some k \<Rightarrow> word_of_nat k)"
  shows "visited n t i = filter P [j..<length (t_entries t)]"
  using n
proof (induction n arbitrary: i j)
  case 0
  then show ?case by simp
next
  case (Suc n)
  show ?case
  proof (cases "find P [j..<length (t_entries t)]")
    case None
    note find_upt_None [OF None]
    moreover have "i \<ge> upb_table_size t" using Suc.prems(2) None l(2) by (simp add: SIZE_MAX_def word_le_nat_alt)
    ultimately show ?thesis by simp
  next
    case (Some k)
    note k = find_upt_Some [OF Some]
    have u: "unat i = k" "unat (i + 1) = Suc k"
      using Suc.prems(2) Some k(3) l unat_of_nat_u64 [of k] by (simp_all add: unat_word_ariths)
    then have "\<not> i \<ge> upb_table_size t" using k(3) l by (simp add: word_le_nat_alt)
    moreover have "visited n t (tab_next t i) = filter P [Suc k..<length (t_entries t)]"
      by (rule Suc.IH) (use Suc.prems(1) k(2,3) u in \<open>auto simp: tab_next_def P_def\<close>)
    ultimately show ?thesis using u k(4) by simp
  qed
qed

lemma visited_occupied:
  assumes "tab_wf K H t"
  shows "visited (length (t_entries t)) t (tab_begin t) = filter (occupied (t_entries t)) [0..<length (t_entries t)]"
proof -
  have "visited (length (t_entries t)) t (tab_begin t) = filter (\<lambda>i. \<not> upb_tabent_isempty (t_entries t ! i)) [0..<length (t_entries t)]"
    using tab_wf_D(2) [OF assms] table_size_le [OF tab_wf_D(1) [OF assms]]
    by (intro tab_next_from) (auto simp: tab_begin_def tab_next_def)
  also have "\<dots> = filter (occupied (t_entries t)) [0..<length (t_entries t)]"
    by (rule filter_cong) (auto simp: occupied_def upb_tabent_isempty_def)
  finally show ?thesis .
qed

end
