(* ===== verification/Upb_Int_Spec.thy ===== *)
theory Upb_Int_Spec
  imports Upb_Maps Upb_Table_Spec
begin

text \<open>
  The integer tables: the hash part under the contract \<open>table_keys\<close>, with the keys themselves, and the operations on
  both parts as operations on the map \<open>int_map\<close>. A table grows when it is full, so insertion is never undefined for
  lack of an empty entry; the bound on the number of entries keeps the size below the one that \<open>int\<close> can shift to.
\<close>

interpretation ints: table_keys Some upb_inthash inthash inteql
  by unfold_locales (auto simp: inthash_def inteql_def)

section \<open>The load of a table\<close>

lemma not_isfull:
  assumes t: "tab_wf K H t" and f: "\<not> isfull t"
  shows "Suc (size (pairs (t_entries t))) < length (t_entries t)" "t_size_lg2 t \<noteq> 0"
proof -
  have z: "upb_table_size t \<noteq> 0" using f by (auto simp: isfull_def)
  then show "t_size_lg2 t \<noteq> 0" by (auto simp: upb_table_size_def)
  have "size (pairs (t_entries t)) \<le> 2 ^ 30"
    using pairs_le [of "t_entries t"] tab_wf_D(2) [OF t] table_size_le [OF tab_wf_D(1) [OF t]] by simp
  then have "unat (t_count t + 1) = Suc (size (pairs (t_entries t)))" using tab_wf_D(3) [OF t] by (simp add: unat_word_ariths)
  then have "Suc (size (pairs (t_entries t))) * 9007199254740992 \<le> 7656119366529843 * length (t_entries t)"
    using f z tab_wf_D(2) [OF t] by (simp add: isfull_def)
  moreover have "length (t_entries t) > 0" using z tab_wf_D(2) [OF t] by (simp add: unat_gt_0)
  moreover have "c * 9007199254740992 \<le> 7656119366529843 * l \<Longrightarrow> l > 0 \<Longrightarrow> c < l" for c l :: nat by linarith
  ultimately show "Suc (size (pairs (t_entries t))) < length (t_entries t)" by blast
qed

lemma isfull_small:
  assumes t: "tab_wf K H t" and f: "isfull t" and n: "size (pairs (t_entries t)) < 2 ^ 28"
  shows "t_size_lg2 t + 1 \<le> 30" "t_size_lg2 t + 1 \<noteq> 0" "unat (t_size_lg2 t + 1) = Suc (unat (t_size_lg2 t))"
    "size (pairs (t_entries t)) < 2 ^ Suc (unat (t_size_lg2 t))"
proof -
  have l: "unat (t_size_lg2 t) \<le> 30" using tab_wf_D(1) [OF t] by (simp add: word_le_nat_alt)
  then show u: "unat (t_size_lg2 t + 1) = Suc (unat (t_size_lg2 t))" by (simp add: unat_word_ariths)
  have c: "unat (t_count t + 1) = Suc (size (pairs (t_entries t)))" using tab_wf_D(3) [OF t] n by (simp add: unat_word_ariths)
  have "unat (t_size_lg2 t) < 30"
  proof (rule ccontr)
    assume "\<not> unat (t_size_lg2 t) < 30"
    then have "unat (t_size_lg2 t) = 30" using l by simp
    then have s: "unat (upb_table_size t) = 2 ^ 30" using table_size_nat [OF tab_wf_D(1) [OF t]] by (metis unat_0 zero_neq_numeral)
    then have "upb_table_size t \<noteq> 0" by auto
    then have "Suc (size (pairs (t_entries t))) * 2 ^ 53 > 7656119366529843 * 2 ^ 30" using f c s by (simp add: isfull_def)
    then show False using n by simp
  qed
  then show "t_size_lg2 t + 1 \<le> 30" using u by (simp add: word_le_nat_alt)
  show "t_size_lg2 t + 1 \<noteq> 0" using u by (metis nat.distinct(1) unat_0)
  have "size (pairs (t_entries t)) \<le> 2 ^ unat (t_size_lg2 t)"
    using pairs_le [of "t_entries t"] tab_wf_D(2) [OF t] table_size_nat [OF tab_wf_D(1) [OF t]] by (auto split: if_splits)
  then show "size (pairs (t_entries t)) < 2 ^ Suc (unat (t_size_lg2 t))" by (simp add: le_less_trans)
qed

lemma fresh_table_props:
  assumes "lg \<le> 30" "lg \<noteq> 0"
  shows "length (t_entries (fresh_table c lg)) = 2 ^ unat lg" "pairs (t_entries (fresh_table c lg)) = {#}" "t_ctype (fresh_table c lg) = c"
    "t_size_lg2 (fresh_table c lg) = lg" "t_count (fresh_table c lg) = 0"
  using assms by (simp_all add: fresh_table_def)

lemma tab_map_pairs:
  assumes "tab_wf K H t" "tab_wf K H t'" "pairs (t_entries t') = pairs (t_entries t)" "t_ctype t' = t_ctype t"
  shows "tab_map K t' = tab_map K t"
proof
  fix k
  have "tab_map K t' k = Some v \<longleftrightarrow> tab_map K t k = Some v" for v
    unfolding tab_map_iff [OF assms(1)] tab_map_iff [OF assms(2)] assms(3,4) ..
  then show "tab_map K t' k = tab_map K t k" by (metis option.exhaust)
qed

lemma mset_occupied:
  "mset (map (\<lambda>i. (e_key (es ! i), e_val (es ! i))) (filter (occupied es) [0..<length es])) = pairs es"
proof -
  have "map (\<lambda>i. (e_key (es ! i), e_val (es ! i))) (filter (occupied es) [0..<length es]) =
      map (\<lambda>e. (e_key e, e_val e)) (map ((!) es) (filter (\<lambda>i. e_key (es ! i) \<noteq> 0) [0..<length es]))"
    using filter_cong [of "[0..<length es]" "[0..<length es]" "occupied es" "\<lambda>i. e_key (es ! i) \<noteq> 0"]
    by (simp add: comp_def occupied_def)
  also have "map ((!) es) (filter (\<lambda>i. e_key (es ! i) \<noteq> 0) [0..<length es]) = filter (\<lambda>e. e_key e \<noteq> 0) es"
    by (metis (no_types, lifting) comp_apply filter_cong filter_map map_nth)
  finally show ?thesis by (simp only: pairs_def)
qed

section \<open>The hash part of an integer table\<close>

lemma rehash_works:
  assumes t: "tab_wf Some upb_inthash t" and i: "distinct is" "\<forall>i \<in> set is. occupied (t_entries t) i"
    and n: "tab_wf Some upb_inthash nt" "t_ctype nt = t_ctype t" "\<forall>i \<in> set is. tab_map Some nt (e_key (t_entries t ! i)) = None"
      "size (pairs (t_entries nt)) + length is \<le> length (t_entries nt)"
  shows "\<exists>nt'. rehash t is nt = Some nt' \<and> tab_wf Some upb_inthash nt' \<and> t_ctype nt' = t_ctype t \<and> t_size_lg2 nt' = t_size_lg2 nt \<and>
    pairs (t_entries nt') = pairs (t_entries nt) + mset (map (\<lambda>i. (e_key (t_entries t ! i), e_val (t_entries t ! i))) is)"
  using i n
proof (induction "is" arbitrary: nt)
  case (Cons i js)
  let ?e = "t_entries t ! i"
  have o: "occupied (t_entries t) i" "e_key ?e \<noteq> 0" using Cons.prems(2) by (auto simp: occupied_def)
  obtain nt1 where n1: "tab_insert (inteql (e_key ?e)) inthash (e_key ?e) (upb_value_val (e_val ?e) (t_ctype t)) (upb_inthash (e_key ?e)) nt = Some nt1"
      "tab_wf Some upb_inthash nt1" "tab_map Some nt1 = (tab_map Some nt)(e_key ?e \<mapsto> upb_value_val (e_val ?e) (t_ctype t))"
      "pairs (t_entries nt1) = add_mset (e_key ?e, e_val ?e) (pairs (t_entries nt))" "t_ctype nt1 = t_ctype nt" "t_size_lg2 nt1 = t_size_lg2 nt"
    using ints.insert_map [OF Cons.prems(3) refl o(2), of "upb_value_val (e_val ?e) (t_ctype t)"] Cons.prems
    by (auto simp: upb_value_val_def)
  have ne: "e_key (t_entries t ! j) \<noteq> e_key ?e" if "j \<in> set js" for j
    using occupied_inj [OF t, of j i] Cons.prems(1,2) that by auto
  have l: "length (t_entries nt1) = length (t_entries nt)"
    using tab_wf_D(2) [OF n1(2)] tab_wf_D(2) [OF Cons.prems(3)] n1(6) by (simp add: upb_table_size_def)
  have "\<exists>nt'. rehash t js nt1 = Some nt' \<and> tab_wf Some upb_inthash nt' \<and> t_ctype nt' = t_ctype t \<and> t_size_lg2 nt' = t_size_lg2 nt1 \<and>
    pairs (t_entries nt') = pairs (t_entries nt1) + mset (map (\<lambda>i. (e_key (t_entries t ! i), e_val (t_entries t ! i))) js)"
    by (rule Cons.IH) (use Cons.prems n1 ne l in auto)
  then show ?case using n1 by (simp add: Let_def)
qed auto

lemma rehash_all:
  assumes t: "tab_wf Some upb_inthash t" and f: "isfull t" and n: "size (pairs (t_entries t)) < 2 ^ 28"
  shows "\<exists>nt. rehash t (visited (length (t_entries t)) t (tab_begin t)) (fresh_table (t_ctype t) (t_size_lg2 t + 1)) = Some nt \<and>
    tab_wf Some upb_inthash nt \<and> t_ctype nt = t_ctype t \<and> pairs (t_entries nt) = pairs (t_entries t) \<and> t_count nt = t_count t \<and>
    tab_map Some nt = tab_map Some t \<and> size (pairs (t_entries nt)) < length (t_entries nt) \<and> t_size_lg2 nt = t_size_lg2 t + 1"
proof -
  let ?is = "filter (occupied (t_entries t)) [0..<length (t_entries t)]" and ?f = "fresh_table (t_ctype t) (t_size_lg2 t + 1)"
  note s = isfull_small [OF t f n]
  note fp = fresh_table_props [OF s(1,2), of "t_ctype t"]
  have "length ?is = size (pairs (t_entries t))" using arg_cong [OF mset_occupied [of "t_entries t"], of size] by (simp del: mset_map mset_filter)
  then have "\<exists>nt. rehash t ?is ?f = Some nt \<and> tab_wf Some upb_inthash nt \<and> t_ctype nt = t_ctype t \<and> t_size_lg2 nt = t_size_lg2 ?f \<and>
      pairs (t_entries nt) = pairs (t_entries ?f) + mset (map (\<lambda>i. (e_key (t_entries t ! i), e_val (t_entries t ! i))) ?is)"
    using s(4) by (intro rehash_works [OF t]) (simp_all add: fresh_table_wf [OF s(1)] fp s(3))
  then obtain nt where nt: "rehash t ?is ?f = Some nt" "tab_wf Some upb_inthash nt" "t_ctype nt = t_ctype t" "t_size_lg2 nt = t_size_lg2 t + 1"
      "pairs (t_entries nt) = pairs (t_entries t)"
    unfolding fp mset_occupied by auto
  have "t_count nt = t_count t" using tab_wf_D(3) [OF t] tab_wf_D(3) [OF nt(2)] nt(5) by (simp add: word_unat_eq_iff)
  moreover have "length (t_entries nt) = 2 ^ Suc (unat (t_size_lg2 t))"
    using tab_wf_D(2) [OF nt(2)] table_size_nat [of nt] nt(4) s by simp
  ultimately show ?thesis
    using nt tab_map_pairs [OF t nt(2,5,3)] s(4) visited_occupied [OF t] by auto
qed

section \<open>Integer tables\<close>

definition int_wf :: "upb_inttable \<Rightarrow> bool" where
  "int_wf t \<longleftrightarrow> tab_wf Some upb_inthash (i_t t) \<and> i_array_size t \<noteq> 0 \<and> unat (i_array_size t) \<le> length (i_array t) \<and>
     unat (i_array_count t) = card {i. i < unat (i_array_size t) \<and> upb_arrhas (i_array t ! i)} \<and>
     (\<forall>p \<in># pairs (t_entries (i_t t)). i_array_size t \<le> fst p) \<and> unat (i_array_size t) < 2 ^ 60"

definition int_map :: "upb_inttable \<Rightarrow> u64 \<Rightarrow> upb_value option" where
  "int_map t k = (if k < i_array_size t
     then if upb_arrhas (i_array t ! unat k) then Some (upb_value_val (i_array t ! unat k) (t_ctype (i_t t))) else None
     else tab_map Some (i_t t) k)"

lemma int_wf_D:
  assumes "int_wf t"
  shows "tab_wf Some upb_inthash (i_t t)" "i_array_size t \<noteq> 0" "unat (i_array_size t) \<le> length (i_array t)"
    "unat (i_array_count t) = card {i. i < unat (i_array_size t) \<and> upb_arrhas (i_array t ! i)}"
    "p \<in># pairs (t_entries (i_t t)) \<Longrightarrow> i_array_size t \<le> fst p"
    "k < i_array_size t \<Longrightarrow> arr_get t k = Some (i_array t ! unat k)" "k < i_array_size t \<Longrightarrow> unat k < length (i_array t)"
    "unat (i_array_size t) < 2 ^ 60"
  using assms unfolding int_wf_def by (auto simp: arr_get_def word_less_nat_alt)

lemma sizedinit_works:
  assumes lg: "lg \<le> 30" and a: "unat asize < 2 ^ 60"
  shows "\<exists>t. upb_inttable_sizedinit mem c asize lg =
      Some (if (lg = 0 \<or> mem (entries_bytes (word_of_nat lg))) \<and> mem (max 1 asize * 16) then Some t else None) \<and>
    int_wf t \<and> int_map t = Map.empty \<and> t_ctype (i_t t) = c \<and> i_array_size t = max 1 asize \<and> unat (t_size_lg2 (i_t t)) = lg \<and>
    pairs (t_entries (i_t t)) = {#}"
proof -
  define n where "n = max 1 asize"
  have n: "1 \<le> unat n" "unat n < 2 ^ 60" "n \<noteq> 0" using a by (auto simp: n_def max_def word_le_nat_alt unat_gt_0)
  let ?t = "\<lparr>i_t = fresh_table c (word_of_nat lg), i_array = replicate (unat (n * 16) div 8) (- 1), i_array_size = n, i_array_count = 0\<rparr>"
  have w: "unat (word_of_nat lg :: u8) = lg" using lg by (simp add: unat_of_nat_u8)
  then have l: "(word_of_nat lg :: u8) \<le> 30" "(word_of_nat lg :: u8) = 0 \<longleftrightarrow> lg = 0"
    using lg by (auto simp: word_le_nat_alt)
  note f = fresh_table_wf(1) [OF l(1), of Some upb_inthash c] fresh_table_wf(2) [OF l(1), of Some c]
  have u: "unat (n * 16) = unat n * 16" using n(2) by (simp add: unat_word_ariths)
  then have len: "length (i_array ?t) = unat n * 2" and nz: "n * 16 \<noteq> 0" using n(1) by (auto simp: word_unat_eq_iff)
  have arr: "\<not> upb_arrhas (replicate (unat (n * 16) div 8) (- 1) ! i)" if "i < unat n" for i
    using that u by (simp add: upb_arrhas_def)
  have init: "upb_inttable_sizedinit mem c asize lg =
      Some (if (lg = 0 \<or> mem (entries_bytes (word_of_nat lg))) \<and> mem (n * 16) then Some ?t else None)"
    using tab_init_fresh [OF l(1), of mem c] l(2) nz by (simp add: upb_inttable_sizedinit_def Let_def n_def)
  have "{i. i < unat n \<and> upb_arrhas (replicate (unat (n * 16) div 8) (- 1) ! i)} = {}" using arr by blast
  moreover have p0: "pairs (t_entries (fresh_table c (word_of_nat lg))) = {#}" by (simp add: fresh_table_def)
  ultimately have "int_wf ?t" using f n len by (simp add: int_wf_def)
  moreover have "int_map ?t = Map.empty" using f arr by (auto simp: int_map_def fun_eq_iff word_less_nat_alt)
  ultimately show ?thesis using init w p0 by (intro exI [of _ ?t]) (simp add: n_def fresh_table_def)
qed

lemma init_works:
  "\<exists>t. upb_inttable_init2 mem c = Some (if mem 384 \<and> mem 16 then Some t else None) \<and> int_wf t \<and> int_map t = Map.empty \<and>
    t_ctype (i_t t) = c"
  using sizedinit_works [of 4 0 mem c] by (auto simp: upb_inttable_init2_def entries_bytes_def)

lemma inttable_lookup_map:
  assumes t: "int_wf t"
  shows "upb_inttable_lookup k t = Some (int_map t k)"
proof (cases "k < i_array_size t")
  case True
  then show ?thesis using int_wf_D(6) [OF t True]
    by (simp add: upb_inttable_lookup_def inttable_val_def int_map_def tabval_def)
next
  case False
  have "do { e \<leftarrow> findentry (inteql k) (i_t t) (upb_inthash k);
      Some (map_option (\<lambda>e. upb_value_val (e_val (t_entries (i_t t) ! e)) (t_ctype (i_t t))) e) } = Some (tab_map Some (i_t t) k)"
    using ints.lookup_map [OF int_wf_D(1) [OF t], of k] by (simp add: tab_lookup_def)
  then show ?thesis using False
    by (auto simp: upb_inttable_lookup_def inttable_val_def int_map_def tabval_def bind_eq_Some_conv option.map_comp comp_def)
qed

lemma card_put:
  assumes "k < n" "\<not> P k"
  shows "card {i. i < n \<and> (i = k \<or> P i)} = Suc (card {i. i < (n::nat) \<and> P i})"
proof -
  have "{i. i < n \<and> (i = k \<or> P i)} = insert k {i. i < n \<and> P i}" using assms by auto
  then show ?thesis using assms by simp
qed

lemma inttable_insert_map:
  assumes t: "int_wf t" and k: "int_map t k = None" and v: "v_val v \<noteq> - 1" "v_ctype v = t_ctype (i_t t)"
    and n: "size (pairs (t_entries (i_t t))) < 2 ^ 28"
  shows "\<exists>ok t'. upb_inttable_insert2 mem k v t = Some (ok, t') \<and> int_wf t' \<and> t_ctype (i_t t') = t_ctype (i_t t) \<and> i_array_size t' = i_array_size t \<and>
    (\<not> ok \<longrightarrow> t' = t) \<and> (k < i_array_size t \<or> \<not> isfull (i_t t) \<longrightarrow> t_size_lg2 (i_t t') = t_size_lg2 (i_t t) \<and>
      size (pairs (t_entries (i_t t'))) = size (pairs (t_entries (i_t t))) + (if k < i_array_size t then 0 else 1)) \<and> int_map t' = (if ok then (int_map t)(k \<mapsto> v) else int_map t) \<and>
    (ok \<longleftrightarrow> k < i_array_size t \<or> \<not> isfull (i_t t) \<or> mem (entries_bytes (t_size_lg2 (i_t t) + 1)))"
proof -
  have vv: "upb_value_val (v_val v) (t_ctype (i_t t)) = v" using v(2) by (cases v) (simp add: upb_value_val_def)
  have a: "upb_arrhas (v_val v)" using v(1) by (simp add: upb_arrhas_def)
  show ?thesis
  proof (cases "k < i_array_size t")
    case True
    have e: "\<not> upb_arrhas (i_array t ! unat k)" using k True by (simp add: int_map_def split: if_splits)
    have unat_eq: "unat k = unat x \<longleftrightarrow> x = k" for x by (auto simp: word_unat_eq_iff)
    let ?t = "t\<lparr>i_array_count := i_array_count t + 1, i_array := (i_array t)[unat k := v_val v]\<rparr>"
    have ka: "unat k < unat (i_array_size t)" "unat k < length (i_array t)" using True int_wf_D(7) [OF t] by (auto simp: word_less_nat_alt)
    have ins: "upb_inttable_insert2 mem k v t = Some (True, ?t)"
      using True int_wf_D(6) [OF t True] e a by (simp add: upb_inttable_insert2_def)
    have c: "card {i. i < unat (i_array_size t) \<and> (i = unat k \<or> upb_arrhas (i_array t ! i))} = Suc (unat (i_array_count t))"
      using card_put [OF ka(1), of "\<lambda>i. upb_arrhas (i_array t ! i)"] e int_wf_D(4) [OF t] by simp
    moreover have "card {i. i < unat (i_array_size t) \<and> (i = unat k \<or> upb_arrhas (i_array t ! i))} \<le> unat (i_array_size t)"
      using card_mono [of "{..<unat (i_array_size t)}" "{i. i < unat (i_array_size t) \<and> (i = unat k \<or> upb_arrhas (i_array t ! i))}"] by auto
    moreover have "unat (i_array_size t) < 2 ^ 64" using unsigned_less [of "i_array_size t"] by simp
    ultimately have "unat (i_array_count t + 1) = Suc (unat (i_array_count t))" by (simp add: unat_word_ariths)
    moreover have "upb_arrhas ((i_array t)[unat k := v_val v] ! i) \<longleftrightarrow> i = unat k \<or> upb_arrhas (i_array t ! i)" for i
      using ka(2) a by (cases "i = unat k") auto
    ultimately have "int_wf ?t" using t c unfolding int_wf_def by simp
    moreover have "int_map ?t = (int_map t)(k \<mapsto> v)"
      using True a vv ka by (auto simp: int_map_def fun_eq_iff nth_list_update unat_eq)
    ultimately show ?thesis using ins True by auto
  next
    case False
    have k': "tab_map Some (i_t t) k = None" "k \<noteq> 0" using k False int_wf_D(2) [OF t] by (auto simp: int_map_def word_gt_0)
    have main: "\<exists>h'. tab_insert (inteql k) inthash k v (upb_inthash k) h = Some h' \<and> int_wf (t\<lparr>i_t := h'\<rparr>) \<and> t_ctype h' = t_ctype (i_t t) \<and>
        t_size_lg2 h' = t_size_lg2 h \<and> size (pairs (t_entries h')) = Suc (size (pairs (t_entries (i_t t)))) \<and> int_map (t\<lparr>i_t := h'\<rparr>) = (int_map t)(k \<mapsto> v)"
      if h: "tab_wf Some upb_inthash h" "tab_map Some h = tab_map Some (i_t t)" "t_ctype h = t_ctype (i_t t)"
        "size (pairs (t_entries h)) < length (t_entries h)" "pairs (t_entries h) = pairs (t_entries (i_t t))" for h
    proof -
      obtain h' where h': "tab_insert (inteql k) inthash k v (upb_inthash k) h = Some h'" "tab_wf Some upb_inthash h'"
          "tab_map Some h' = (tab_map Some h)(k \<mapsto> v)" "pairs (t_entries h') = add_mset (k, v_val v) (pairs (t_entries h))"
          "t_ctype h' = t_ctype h" "t_size_lg2 h' = t_size_lg2 h"
        using ints.insert_map [OF h(1) refl k'(2), of v] k'(1) h v(2) by auto
      have "int_wf (t\<lparr>i_t := h'\<rparr>)" using t h h' False unfolding int_wf_def by auto
      moreover have "int_map (t\<lparr>i_t := h'\<rparr>) = (int_map t)(k \<mapsto> v)" using h h' False by (auto simp: int_map_def fun_eq_iff)
      ultimately show ?thesis using h' h by auto
    qed
    show ?thesis
    proof (cases "isfull (i_t t)")
      case nf: False
      note l = not_isfull [OF int_wf_D(1) [OF t] nf]
      obtain h' where h': "tab_insert (inteql k) inthash k v (upb_inthash k) (i_t t) = Some h'" "int_wf (t\<lparr>i_t := h'\<rparr>)" "t_ctype h' = t_ctype (i_t t)"
          "int_map (t\<lparr>i_t := h'\<rparr>) = (int_map t)(k \<mapsto> v)" "t_size_lg2 h' = t_size_lg2 (i_t t)"
          "size (pairs (t_entries h')) = Suc (size (pairs (t_entries (i_t t))))"
        using main [of "i_t t", OF int_wf_D(1) [OF t] refl refl _ refl] l(1) by auto
      have "upb_inttable_insert2 mem k v t = Some (True, t\<lparr>i_t := h'\<rparr>)"
        using False nf a h'(1) by (simp add: upb_inttable_insert2_def)
      then show ?thesis using h' nf False by auto
    next
      case f: True
      note s = isfull_small [OF int_wf_D(1) [OF t] f n]
      note init = tab_init_fresh [OF s(1), of mem "t_ctype (i_t t)"]
      show ?thesis
      proof (cases "mem (entries_bytes (t_size_lg2 (i_t t) + 1))")
        case m: False
        then show ?thesis using False f a init s(2) t by (auto simp: upb_inttable_insert2_def)
      next
        case m: True
        obtain nt where nt: "rehash (i_t t) (visited (length (t_entries (i_t t))) (i_t t) (tab_begin (i_t t))) (fresh_table (t_ctype (i_t t)) (t_size_lg2 (i_t t) + 1)) = Some nt"
            "tab_wf Some upb_inthash nt" "t_ctype nt = t_ctype (i_t t)" "pairs (t_entries nt) = pairs (t_entries (i_t t))" "t_count nt = t_count (i_t t)"
            "tab_map Some nt = tab_map Some (i_t t)" "size (pairs (t_entries nt)) < length (t_entries nt)" "t_size_lg2 nt = t_size_lg2 (i_t t) + 1"
          using rehash_all [OF int_wf_D(1) [OF t] f n] by blast
        obtain h' where h': "tab_insert (inteql k) inthash k v (upb_inthash k) nt = Some h'" "int_wf (t\<lparr>i_t := h'\<rparr>)" "t_ctype h' = t_ctype (i_t t)"
            "int_map (t\<lparr>i_t := h'\<rparr>) = (int_map t)(k \<mapsto> v)"
          using main [of nt, OF nt(2,6,3,7,4)] by auto
        have "upb_inttable_insert2 mem k v t = Some (True, t\<lparr>i_t := h'\<rparr>)"
          using False f a init s(2) m nt h' by (simp add: upb_inttable_insert2_def)
        then show ?thesis using h' m f False by auto
      qed
    qed
  qed
qed


section \<open>Replacing, removing and counting\<close>

lemma scatter_val:
  assumes s: "scatter pos es ch"
  shows "scatter pos (es[i := (es ! i)\<lparr>e_val := v\<rparr>]) ch"
proof -
  let ?es = "es[i := (es ! i)\<lparr>e_val := v\<rparr>]"
  have k: "e_key (?es ! j) = e_key (es ! j)" "e_next (?es ! j) = e_next (es ! j)" for j
    by (cases "i = j"; cases "i < length es"; simp add: list_update_beyond)+
  then have "occupied ?es j = occupied es j" for j by (simp add: occupied_def)
  moreover have "path ?es p xs q = path es p xs q" for p xs q by (rule path_cong) (rule k(2))
  ultimately show ?thesis using s unfolding scatter_def k by simp
qed

lemma replace_map:
  fixes v :: u64
  assumes t: "tab_wf Some upb_inthash t" and i: "occupied (t_entries t) i"
  defines "t' \<equiv> t\<lparr>t_entries := (t_entries t)[i := (t_entries t ! i)\<lparr>e_val := v\<rparr>]\<rparr>" and "k \<equiv> e_key (t_entries t ! i)"
  shows "tab_wf Some upb_inthash t'" "tab_map Some t' = (tab_map Some t)(k \<mapsto> upb_value_val v (t_ctype t))"
    "image_mset fst (pairs (t_entries t')) = image_mset fst (pairs (t_entries t))"
proof -
  have k: "k \<noteq> 0" "i < length (t_entries t)" using i by (auto simp: occupied_def k_def)
  have "pairs (t_entries t') + {#(k, e_val (t_entries t ! i))#} = pairs (t_entries t) + {#(k, v)#}"
    using pairs_update [OF k(2), of "(t_entries t ! i)\<lparr>e_val := v\<rparr>"] k(1) by (simp add: t'_def k_def)
  moreover obtain R where R1: "pairs (t_entries t) = add_mset (k, e_val (t_entries t ! i)) R"
    using pairs_in [of k "e_val (t_entries t ! i)" "t_entries t"] i k_def by (metis insert_DiffM)
  ultimately have "add_mset (k, e_val (t_entries t ! i)) (pairs (t_entries t')) = add_mset (k, e_val (t_entries t ! i)) (add_mset (k, v) R)"
    by (simp add: add_mset_commute)
  note R = R1 this [unfolded add_mset_add_mset_same_iff]
  show f: "image_mset fst (pairs (t_entries t')) = image_mset fst (pairs (t_entries t))" using R by simp
  have c: "t_size_lg2 t' = t_size_lg2 t" "t_ctype t' = t_ctype t" "t_mask t' = t_mask t" "t_count t' = t_count t" "length (t_entries t') = length (t_entries t)"
      "upb_table_size t' = upb_table_size t"
    by (simp_all add: t'_def upb_table_size_def)
  have "slot_pos t' h = slot_pos t h" for h by (simp add: slot_pos_def c)
  then have "\<exists>ch. scatter (\<lambda>a. slot_pos t' (upb_inthash (the (Some a)))) (t_entries t') ch"
    using tab_wf_D(7) [OF t] scatter_val unfolding t'_def by fastforce
  moreover have "image_mset (\<lambda>p. Some (fst p)) M = image_mset Some (image_mset fst M)" for M :: "(u64 \<times> u64) multiset"
    by (simp add: image_mset.compositionality comp_def)
  ultimately show w: "tab_wf Some upb_inthash t'"
    using t f R c unfolding tab_wf_def by simp
  have n: "(k, w) \<notin># R" for w using tab_wf_D(6) [OF t] R by (auto simp: image_iff)
  show "tab_map Some t' = (tab_map Some t)(k \<mapsto> upb_value_val v (t_ctype t))"
  proof
    fix j
    have "tab_map Some t' j = Some w \<longleftrightarrow> ((tab_map Some t)(k \<mapsto> upb_value_val v (t_ctype t))) j = Some w" for w
    proof (cases "j = k")
      case True
      then show ?thesis using n unfolding tab_map_iff [OF w] by (cases w) (auto simp: R c upb_value_val_def)
    next
      case False
      then have "((tab_map Some t)(k \<mapsto> upb_value_val v (t_ctype t))) j = Some w \<longleftrightarrow> tab_map Some t j = Some w" by simp
      then show ?thesis using False unfolding tab_map_iff [OF w] tab_map_iff [OF t] by (auto simp: R c)
    qed
    then show "tab_map Some t' j = ((tab_map Some t)(k \<mapsto> upb_value_val v (t_ctype t))) j" by (metis option.exhaust)
  qed
qed

lemma inttable_replace_map:
  assumes t: "int_wf t" and v: "v_val v \<noteq> - 1" "v_ctype v = t_ctype (i_t t)"
  shows "\<exists>t'. upb_inttable_replace k v t = Some (int_map t k \<noteq> None, t') \<and> int_wf t' \<and> t_ctype (i_t t') = t_ctype (i_t t) \<and>
    int_map t' = (if int_map t k \<noteq> None then (int_map t)(k \<mapsto> v) else int_map t)"
proof -
  have vv: "upb_value_val (v_val v) (t_ctype (i_t t)) = v" using v(2) by (cases v) (simp add: upb_value_val_def)
  have a: "upb_arrhas (v_val v)" using v(1) by (simp add: upb_arrhas_def)
  show ?thesis
  proof (cases "k < i_array_size t")
    case True
    have unat_eq: "unat k = unat x \<longleftrightarrow> x = k" for x by (auto simp: word_unat_eq_iff)
    have ka: "unat k < length (i_array t)" using True int_wf_D(7) [OF t] by simp
    let ?t = "t\<lparr>i_array := (i_array t)[unat k := v_val v]\<rparr>"
    show ?thesis
    proof (cases "upb_arrhas (i_array t ! unat k)")
      case h: True
      have "upb_arrhas ((i_array t)[unat k := v_val v] ! i) \<longleftrightarrow> upb_arrhas (i_array t ! i)" for i
        using ka a h by (cases "i = unat k") auto
      then have "int_wf ?t" using t unfolding int_wf_def by simp
      moreover have "int_map ?t = (int_map t)(k \<mapsto> v)"
        using True a vv ka by (auto simp: int_map_def fun_eq_iff nth_list_update unat_eq)
      moreover have "upb_inttable_replace k v t = Some (True, ?t)"
        using True h int_wf_D(6) [OF t True] by (simp add: upb_inttable_replace_def inttable_val_def)
      ultimately show ?thesis using True h by (auto simp: int_map_def)
    next
      case h: False
      then show ?thesis using True int_wf_D(6) [OF t True] t
        by (simp add: upb_inttable_replace_def inttable_val_def int_map_def)
    qed
  next
    case False
    note h = int_wf_D(1) [OF t]
    obtain r where r: "findentry (inteql k) (i_t t) (upb_inthash k) = Some r"
        "\<forall>i. r = Some i \<longleftrightarrow> occupied (t_entries (i_t t)) i \<and> Some (e_key (t_entries (i_t t) ! i)) = Some k"
      using ints.findentry_iff [OF h] by blast
    show ?thesis
    proof (cases r)
      case None
      then have "tab_map Some (i_t t) k = None" using r tab_map_None [OF h, of k] by auto
      then show ?thesis using None r False t by (simp add: upb_inttable_replace_def inttable_val_def int_map_def)
    next
      case (Some i)
      then have i: "occupied (t_entries (i_t t)) i" "e_key (t_entries (i_t t) ! i) = k" using r by auto
      have m: "tab_map Some (i_t t) k \<noteq> None" using tab_map_occupied [OF h i(1)] i(2) by simp
      let ?h = "(i_t t)\<lparr>t_entries := (t_entries (i_t t))[i := (t_entries (i_t t) ! i)\<lparr>e_val := v_val v\<rparr>]\<rparr>"
      note rm = replace_map [OF h i(1), of "v_val v"]
      have "fst ` set_mset (pairs (t_entries ?h)) = fst ` set_mset (pairs (t_entries (i_t t)))" using rm(3) by (metis set_image_mset)
      then have "\<forall>p \<in># pairs (t_entries ?h). i_array_size t \<le> fst p" using int_wf_D(5) [OF t] by (metis (no_types, lifting) imageE image_eqI)
      then have "int_wf (t\<lparr>i_t := ?h\<rparr>)" using t rm(1) unfolding int_wf_def by simp
      moreover have "int_map (t\<lparr>i_t := ?h\<rparr>) = (int_map t)(k \<mapsto> v)" using rm(2) i(2) vv False by (auto simp: int_map_def fun_eq_iff)
      moreover have "upb_inttable_replace k v t = Some (True, t\<lparr>i_t := ?h\<rparr>)"
        using Some r(1) False by (simp add: upb_inttable_replace_def inttable_val_def)
      ultimately show ?thesis using m False by (auto simp: int_map_def)
    qed
  qed
qed

lemma inttable_remove_map:
  assumes t: "int_wf t" and k: "k < i_array_size t \<or> t_size_lg2 (i_t t) \<noteq> 0"
  shows "\<exists>t'. upb_inttable_remove k t = Some (int_map t k, t') \<and> int_wf t' \<and> t_ctype (i_t t') = t_ctype (i_t t) \<and>
    int_map t' = (int_map t)(k := None)"
proof (cases "k < i_array_size t")
  case True
  have unat_eq: "unat k = unat x \<longleftrightarrow> x = k" for x by (auto simp: word_unat_eq_iff)
  have ka: "unat k < length (i_array t)" "unat k < unat (i_array_size t)" using True int_wf_D(7) [OF t] by (auto simp: word_less_nat_alt)
  let ?t = "t\<lparr>i_array_count := i_array_count t - 1, i_array := (i_array t)[unat k := - 1]\<rparr>"
  show ?thesis
  proof (cases "upb_arrhas (i_array t ! unat k)")
    case h: True
    let ?P = "\<lambda>i. i \<noteq> unat k \<and> upb_arrhas (i_array t ! i)"
    have "{i. i < unat (i_array_size t) \<and> (i = unat k \<or> ?P i)} = {i. i < unat (i_array_size t) \<and> upb_arrhas (i_array t ! i)}" using h by auto
    then have "unat (i_array_count t) = Suc (card {i. i < unat (i_array_size t) \<and> ?P i})"
      using card_put [OF ka(2), of ?P] int_wf_D(4) [OF t] by simp
    moreover from this have "i_array_count t \<noteq> 0" by auto
    ultimately have "unat (i_array_count t - 1) = card {i. i < unat (i_array_size t) \<and> ?P i}" by (simp add: unat_minus_one)
    moreover have "upb_arrhas ((i_array t)[unat k := - 1] ! i) \<longleftrightarrow> ?P i" for i
      using ka(1) by (cases "i = unat k") (auto simp: upb_arrhas_def)
    ultimately have "int_wf ?t" using t unfolding int_wf_def by simp
    moreover have "int_map ?t = (int_map t)(k := None)"
      using True ka(1) by (auto simp: int_map_def fun_eq_iff nth_list_update unat_eq upb_arrhas_def)
    moreover have "upb_inttable_remove k t = Some (int_map t k, ?t)" using True h int_wf_D(6) [OF t True]
      by (simp add: upb_inttable_remove_def int_map_def)
    ultimately show ?thesis by auto
  next
    case h: False
    then have "int_map t k = None" using True by (simp add: int_map_def)
    then show ?thesis using True h int_wf_D(6) [OF t True] t by (simp add: upb_inttable_remove_def fun_upd_idem)
  qed
next
  case False
  note h = int_wf_D(1) [OF t]
  have lg: "t_size_lg2 (i_t t) \<noteq> 0" using k False by simp
  note r = ints.rm_map [OF h lg, of k]
  show ?thesis
  proof (cases "tab_map Some (i_t t) k")
    case None
    then have "int_map t k = None" "tab_rm (inteql k) (upb_inthash k) (i_t t) = Some (None, i_t t)" using r False by (simp_all add: int_map_def)
    then show ?thesis using False t by (simp add: upb_inttable_remove_def fun_upd_idem)
  next
    case (Some v)
    obtain h' where h': "tab_rm (inteql k) (upb_inthash k) (i_t t) = Some (Some (v, k), h')" "tab_wf Some upb_inthash h'"
        "pairs (t_entries (i_t t)) = add_mset (k, v_val v) (pairs (t_entries h'))" "t_ctype h' = t_ctype (i_t t)"
      using r unfolding Some option.case by blast
    have "tab_map Some h' = (tab_map Some (i_t t))(k := None)" by (rule tab_map_remove [OF h h'(2,3) refl h'(4)])
    then have "int_map (t\<lparr>i_t := h'\<rparr>) = (int_map t)(k := None)" using False h'(4) by (auto simp: int_map_def fun_eq_iff)
    moreover have "int_wf (t\<lparr>i_t := h'\<rparr>)" using t h'(2,3) unfolding int_wf_def by simp
    moreover have "upb_inttable_remove k t = Some (int_map t k, t\<lparr>i_t := h'\<rparr>)" using h'(1) Some False
      by (simp add: upb_inttable_remove_def int_map_def)
    ultimately show ?thesis using h'(4) by auto
  qed
qed

end
