(* ===== verification/Upb_Compact_Spec.thy ===== *)
theory Upb_Compact_Spec
  imports Upb_Int_Spec
begin

text \<open>
  Compaction of an integer table: \<open>log2ceil\<close> is the logarithm that sorts the keys into buckets, the array covers the keys of the buckets up to the
  chosen one, and the other keys fit the new hash part. The runs of the operations, with the map that
  they describe, are at the end.
\<close>

section \<open>The logarithm of a key\<close>

lemma halvings_bounds:
  "v \<noteq> 0 \<Longrightarrow> 2 ^ halvings v \<le> unat v \<and> unat v < 2 ^ Suc (halvings v)"
proof (induction v rule: halvings.induct)
  case (1 v)
  have d: "unat (drop_bit 1 v) = unat v div 2" using unat_drop_bit_div [of 1 v] by simp
  have pos: "0 < unat v" using 1(2) by (simp add: unat_gt_0)
  show ?case
  proof (cases "drop_bit 1 v = 0")
    case True
    then have "unat v div 2 = 0" using d by (metis unat_0)
    then have "unat v < 2" by simp
    moreover have "halvings v = 0" using True by (subst halvings.simps) simp
    ultimately show ?thesis using pos by simp
  next
    case False
    then have "2 ^ halvings (drop_bit 1 v) \<le> unat v div 2 \<and> unat v div 2 < 2 ^ Suc (halvings (drop_bit 1 v))" using 1(1) d by simp
    moreover have "halvings v = Suc (halvings (drop_bit 1 v))" using False by (subst halvings.simps) simp
    ultimately show ?thesis by auto
  qed
qed

lemma bit_top:
  fixes v :: u64
  assumes "2 ^ n \<le> unat v" "unat v < 2 ^ Suc n"
  shows "bit v n"
proof -
  have "unat v div 2 ^ n = 1" using assms by (intro div_nat_eqI) auto
  then have "bit (unat v) n" by (simp add: bit_iff_odd)
  then show ?thesis by (simp add: bit_unsigned_iff)
qed

lemma is_pow2_iff:
  assumes "v \<noteq> 0"
  shows "is_pow2 v \<longleftrightarrow> unat v = 2 ^ halvings v"
proof -
  let ?h = "halvings v"
  note b = halvings_bounds [OF assms]
  have u: "unat (v - 1) = unat v - 1" using assms by (simp add: unat_minus_one)
  have h: "2 ^ ?h < (2 :: nat) ^ 64" using b unat_u64_less [of v] by linarith
  then have h64: "?h < 64" by (metis nat_power_less_imp_less zero_less_numeral)
  show ?thesis
  proof
    assume p: "is_pow2 v"
    show "unat v = 2 ^ ?h"
    proof (rule ccontr)
      assume "unat v \<noteq> 2 ^ ?h"
      then have "bit (v - 1) ?h" using b u by (intro bit_top) auto
      moreover have "bit v ?h" using b by (intro bit_top) auto
      ultimately have "bit (v AND (v - 1)) ?h" by (simp add: bit_and_iff)
      then show False using p assms by (simp add: is_pow2_def)
    qed
  next
    assume e: "unat v = 2 ^ ?h"
    have "\<not> bit (v AND (v - 1)) n" for n
    proof
      assume n: "bit (v AND (v - 1)) n"
      then have "bit (unat v) n" "bit (unat (v - 1)) n" by (auto simp: bit_and_iff bit_unsigned_iff)
      then have "n = ?h" "bit ((2::nat) ^ ?h - 1) n" using e u by (auto simp: bit_exp_iff)
      then show False by (simp add: bit_iff_odd)
    qed
    then have "v AND (v - 1) = 0" by (intro bit_eqI) simp
    then show "is_pow2 v" by (simp add: is_pow2_def)
  qed
qed

lemma log2ceil_le: "b \<le> 16 \<Longrightarrow> log2ceil v \<le> b \<longleftrightarrow> b = 16 \<or> unat v \<le> 2 ^ b"
proof -
  assume b: "b \<le> 16"
  show ?thesis
  proof (cases "v = 0")
    case True
    have "halvings 0 = 0" by (subst halvings.simps) simp
    then show ?thesis using True by (simp add: log2ceil_def is_pow2_def)
  next
    case False
    note h = halvings_bounds [OF False] is_pow2_iff [OF False]
    show ?thesis
    proof (cases "is_pow2 v")
      case True
      then have "log2ceil v = min 16 (halvings v)" "unat v = 2 ^ halvings v" using h by (simp_all add: log2ceil_def)
      then show ?thesis using b by auto
    next
      case np: False
      then have l: "log2ceil v = min 16 (Suc (halvings v))" by (simp add: log2ceil_def)
      have "Suc (halvings v) \<le> b \<longleftrightarrow> unat v \<le> 2 ^ b"
      proof
        assume "Suc (halvings v) \<le> b"
        then have "(2 :: nat) ^ Suc (halvings v) \<le> 2 ^ b" by (intro power_increasing) auto
        then show "unat v \<le> 2 ^ b" using h by linarith
      next
        assume v: "unat v \<le> 2 ^ b"
        show "Suc (halvings v) \<le> b"
        proof (rule ccontr)
          assume "\<not> Suc (halvings v) \<le> b"
          then have "(2 :: nat) ^ b \<le> 2 ^ halvings v" by (intro power_increasing) auto
          then show False using v h np by linarith
        qed
      qed
      then show ?thesis using l b by auto
    qed
  qed
qed

lemma log2ceil_16: "log2ceil v \<le> 16"
  by (simp add: log2ceil_def Let_def)

section \<open>The size of the array\<close>

definition below :: "u64 list \<Rightarrow> nat \<Rightarrow> nat" where
  "below ks s = length (filter (\<lambda>k. log2ceil k \<le> s) ks)"

lemma below_Suc: "below ks (Suc s) = below ks s + length (bucket_keys ks (Suc s))"
  unfolding below_def bucket_keys_def by (induction ks) (auto simp: le_Suc_eq)

lemma shrink_works:
  "shrink (\<lambda>b. length (bucket_keys ks b)) s (below ks s) = (s', a) \<Longrightarrow>
    a = below ks s' \<and> s' \<le> s \<and> (s' \<noteq> 0 \<longrightarrow> bucket_keys ks s' \<noteq> [])"
  by (induction s) (auto simp: below_Suc split: if_splits)

lemma foldl_max:
  fixes ks :: "u64 list"
  shows "m \<le> foldl max m ks" "k \<in> set ks \<Longrightarrow> k \<le> foldl max m ks" "foldl max m ks \<in> insert m (set ks)"
proof -
  show ge: "m \<le> foldl max m ks" for m
  proof (induction ks arbitrary: m)
    case (Cons k ks)
    from Cons [of "max m k"] show ?case by simp
  qed simp
  show "k \<in> set ks \<Longrightarrow> k \<le> foldl max m ks"
  proof (induction ks arbitrary: m)
    case (Cons j ks)
    show ?case
    proof (cases "k = j")
      case True
      have "k \<le> foldl max (max m k) ks" for ks by (induction ks rule: rev_induct) (auto simp: le_max_iff_disj)
      then show ?thesis using True by simp
    qed (use Cons in auto)
  qed simp
  show "foldl max m ks \<in> insert m (set ks)"
  proof (induction ks arbitrary: m)
    case (Cons k ks)
    from Cons [of "max m k"] show ?case by (auto simp: max_def split: if_splits)
  qed simp
qed

lemma array_covers:
  assumes s: "s = 0 \<or> bucket_keys ks s \<noteq> []" "s \<le> 16" and k: "k \<in> set ks" "log2ceil k \<le> s"
  shows "k \<le> foldl max 0 (bucket_keys ks s)"
proof (cases "log2ceil k = s")
  case True
  then show ?thesis using k by (intro foldl_max(2)) (simp add: bucket_keys_def)
next
  case False
  then obtain r where r: "s = Suc r" "log2ceil k \<le> r" using k(2) by (cases s) auto
  obtain j where j: "j \<in> set (bucket_keys ks s)" using s(1) r(1) by (cases "bucket_keys ks s") auto
  then have "\<not> log2ceil j \<le> r" using r(1) by (simp add: bucket_keys_def)
  then have "2 ^ r < unat j" "unat k \<le> 2 ^ r" using r s(2) log2ceil_le [of r] by auto
  then have "k \<le> j" by (simp add: word_le_nat_alt)
  then show ?thesis using foldl_max(2) [OF j] by (metis order_trans)
qed

section \<open>The elements of an integer table\<close>

lemma loop_hash:
  assumes l: "length (t_entries (i_t t)) = unat (upb_table_size (i_t t))" "unat (upb_table_size (i_t t)) \<le> 2 ^ 30"
    and n: "length (t_entries (i_t t)) - j \<le> n"
      "i = (case find (\<lambda>i. \<not> upb_tabent_isempty (t_entries (i_t t) ! i)) [j..<length (t_entries (i_t t))] of None \<Rightarrow> SIZE_MAX | Some k \<Rightarrow> word_of_nat k)"
  shows "inttable_loop n t \<lparr>ii_index = i, ii_array_part = False\<rparr> =
    Some (map (\<lambda>i. (e_key (t_entries (i_t t) ! i), upb_value_val (e_val (t_entries (i_t t) ! i)) (t_ctype (i_t t))))
      (filter (\<lambda>i. \<not> upb_tabent_isempty (t_entries (i_t t) ! i)) [j..<length (t_entries (i_t t))]))"
  using n
proof (induction n arbitrary: i j)
  case 0
  then have "i = SIZE_MAX" by simp
  then have "upb_inttable_done t \<lparr>ii_index = i, ii_array_part = False\<rparr>"
    using l(2) by (simp add: upb_inttable_done_def SIZE_MAX_def word_le_nat_alt)
  then show ?case using 0 by simp
next
  case (Suc n)
  let ?P = "\<lambda>i. \<not> upb_tabent_isempty (t_entries (i_t t) ! i)" and ?n = "length (t_entries (i_t t))"
  show ?case
  proof (cases "find ?P [j..<?n]")
    case None
    then have "i = SIZE_MAX" using Suc.prems(2) by simp
    then have "upb_inttable_done t \<lparr>ii_index = i, ii_array_part = False\<rparr>"
      using l(2) by (simp add: upb_inttable_done_def SIZE_MAX_def word_le_nat_alt)
    then show ?thesis using find_upt_None [OF None] by simp
  next
    case (Some k)
    note k = find_upt_Some [OF Some]
    have u: "unat i = k" "unat (i + 1) = Suc k"
      using Suc.prems(2) Some k(3) l unat_of_nat_u64 [of k] by (simp_all add: unat_word_ariths)
    have nd: "\<not> upb_inttable_done t \<lparr>ii_index = i, ii_array_part = False\<rparr>"
      using k(1,3) l u by (simp add: upb_inttable_done_def word_le_nat_alt)
    have "inttable_loop n t \<lparr>ii_index = tab_next (i_t t) i, ii_array_part = False\<rparr> =
      Some (map (\<lambda>i. (e_key (t_entries (i_t t) ! i), upb_value_val (e_val (t_entries (i_t t) ! i)) (t_ctype (i_t t)))) (filter ?P [Suc k..<?n]))"
      by (rule Suc.IH) (use Suc.prems(1) k(2,3) u in \<open>auto simp: tab_next_def\<close>)
    then show ?thesis using nd u k(4)
      by (simp add: upb_inttable_iter_key_def upb_inttable_iter_value_def upb_inttable_next_def)
  qed
qed

lemma loop_array:
  assumes h: "length (t_entries (i_t t)) = unat (upb_table_size (i_t t))" "unat (upb_table_size (i_t t)) \<le> 2 ^ 30"
    and n: "unat (i_array_size t) - j + length (t_entries (i_t t)) \<le> n"
      "it = (case find (\<lambda>j. upb_arrhas (i_array t ! j)) [j..<unat (i_array_size t)] of
        None \<Rightarrow> \<lparr>ii_index = tab_begin (i_t t), ii_array_part = False\<rparr> | Some k \<Rightarrow> \<lparr>ii_index = word_of_nat k, ii_array_part = True\<rparr>)"
  shows "inttable_loop n t it =
    Some (map (\<lambda>i. (word_of_nat i, upb_value_val (i_array t ! i) (t_ctype (i_t t)))) (filter (\<lambda>i. upb_arrhas (i_array t ! i)) [j..<unat (i_array_size t)]) @
      map (\<lambda>i. (e_key (t_entries (i_t t) ! i), upb_value_val (e_val (t_entries (i_t t) ! i)) (t_ctype (i_t t))))
        (filter (\<lambda>i. \<not> upb_tabent_isempty (t_entries (i_t t) ! i)) [0..<length (t_entries (i_t t))]))"
  using n
proof (induction n arbitrary: it j)
  let ?A = "\<lambda>j. upb_arrhas (i_array t ! j)" and ?m = "unat (i_array_size t)"
  have hash: "inttable_loop n t it =
    Some (map (\<lambda>i. (word_of_nat i, upb_value_val (i_array t ! i) (t_ctype (i_t t)))) (filter ?A [j..<?m]) @
      map (\<lambda>i. (e_key (t_entries (i_t t) ! i), upb_value_val (e_val (t_entries (i_t t) ! i)) (t_ctype (i_t t))))
        (filter (\<lambda>i. \<not> upb_tabent_isempty (t_entries (i_t t) ! i)) [0..<length (t_entries (i_t t))]))"
    if "find ?A [j..<?m] = None" "?m - j + length (t_entries (i_t t)) \<le> n"
      "it = (case find ?A [j..<?m] of None \<Rightarrow> \<lparr>ii_index = tab_begin (i_t t), ii_array_part = False\<rparr> | Some k \<Rightarrow> \<lparr>ii_index = word_of_nat k, ii_array_part = True\<rparr>)"
    for n it j
  proof -
    have "inttable_loop n t \<lparr>ii_index = tab_begin (i_t t), ii_array_part = False\<rparr> =
      Some (map (\<lambda>i. (e_key (t_entries (i_t t) ! i), upb_value_val (e_val (t_entries (i_t t) ! i)) (t_ctype (i_t t))))
        (filter (\<lambda>i. \<not> upb_tabent_isempty (t_entries (i_t t) ! i)) [0..<length (t_entries (i_t t))]))"
      by (rule loop_hash [OF h]) (use that(2) in \<open>auto simp: tab_begin_def tab_next_def\<close>)
    then show ?thesis using that(1,3) find_upt_None [OF that(1)] by simp
  qed
  {
    case 0
    then have "find ?A [j..<?m] = None" by simp
    then show ?case by (rule hash [OF _ 0])
  next
    case (Suc n)
    show ?case
    proof (cases "find ?A [j..<?m]")
      case None
      then show ?thesis by (rule hash [OF _ Suc.prems])
    next
      case (Some k)
      note k = find_upt_Some [OF Some]
      have m: "?m < 2 ^ 64" by (rule unat_u64_less)
      have u: "unat (word_of_nat k :: u64) = k" using k(3) m by (intro unat_of_nat_u64) simp
      then have u1: "unat (word_of_nat k + 1 :: u64) = Suc k" using k(3) m by (simp add: unat_word_ariths)
      have it: "it = \<lparr>ii_index = word_of_nat k, ii_array_part = True\<rparr>" using Suc.prems(2) Some by simp
      have nd: "\<not> upb_inttable_done t it" unfolding it using k(1,3) u by (simp add: upb_inttable_done_def word_le_nat_alt)
      have nx: "upb_inttable_next t it = (case find ?A [Suc k..<?m] of
          None \<Rightarrow> \<lparr>ii_index = tab_begin (i_t t), ii_array_part = False\<rparr> | Some k \<Rightarrow> \<lparr>ii_index = word_of_nat k, ii_array_part = True\<rparr>)"
        unfolding it upb_inttable_next_def by (simp add: u1 split: option.split)
      show ?thesis using Suc.IH [OF _ nx] Suc.prems(1) k(2,3,4) nd u it
        by (simp add: upb_inttable_iter_key_def upb_inttable_iter_value_def)
    qed
  }
qed

lemma inttable_elements_works:
  assumes t: "int_wf t"
  shows "\<exists>kvs. inttable_elements t = Some kvs \<and> distinct (map fst kvs) \<and> length kvs = unat (upb_inttable_count t) \<and>
    size (pairs (t_entries (i_t t))) \<le> length kvs \<and> (\<forall>k v. (k, v) \<in> set kvs \<longleftrightarrow> int_map t k = Some v)"
proof -
  let ?es = "t_entries (i_t t)" and ?n = "unat (i_array_size t)"
  note h = int_wf_D(1) [OF t]
  let ?ai = "filter (\<lambda>i. upb_arrhas (i_array t ! i)) [0..<?n]" and ?hi = "filter (occupied ?es) [0..<length ?es]"
  let ?c = "t_ctype (i_t t)"
  let ?a = "map (\<lambda>i. (word_of_nat i :: u64, upb_value_val (i_array t ! i) ?c)) ?ai"
  let ?h = "map (\<lambda>i. (e_key (?es ! i), upb_value_val (e_val (?es ! i)) ?c)) ?hi"
  have l: "length ?es = unat (upb_table_size (i_t t))" "unat (upb_table_size (i_t t)) \<le> 2 ^ 30"
    using tab_wf_D(2) [OF h] table_size_le [OF tab_wf_D(1) [OF h]] by simp_all
  have occ: "filter (\<lambda>i. \<not> upb_tabent_isempty (?es ! i)) [0..<length ?es] = ?hi"
    by (rule filter_cong) (auto simp: occupied_def upb_tabent_isempty_def)
  have "inttable_loop (?n + length ?es) t (upb_inttable_begin t) = Some (?a @ ?h)"
    unfolding occ [symmetric]
    by (rule loop_array [OF l, where j = 0]) (auto simp: upb_inttable_begin_def upb_inttable_next_def split: option.split)
  then have e: "inttable_elements t = Some (?a @ ?h)" using int_wf_D(3) [OF t] by (simp add: inttable_elements_def)
  have n: "?n < 2 ^ 64" by (rule unat_u64_less)
  have "inj_on (word_of_nat :: nat \<Rightarrow> u64) {..<2 ^ 64}"
  proof (rule inj_onI)
    fix x y :: nat
    assume a: "x \<in> {..<2 ^ 64}" "y \<in> {..<2 ^ 64}" "(word_of_nat x :: u64) = word_of_nat y"
    have "x = unat (word_of_nat x :: u64)" by (rule unat_of_nat_u64 [symmetric]) (use a(1) in \<open>simp only: lessThan_iff\<close>)
    also have "\<dots> = y" unfolding a(3) by (rule unat_of_nat_u64) (use a(2) in \<open>simp only: lessThan_iff\<close>)
    finally show "x = y" .
  qed
  then have "inj_on (word_of_nat :: nat \<Rightarrow> u64) (set ?ai)" by (rule inj_on_subset) (use n in auto)
  then have da: "distinct (map fst ?a)" by (simp add: distinct_map comp_def)
  have "inj_on (\<lambda>i. e_key (?es ! i)) (set ?hi)" using occupied_inj [OF h] by (intro inj_onI) simp
  then have dh: "distinct (map fst ?h)" by (simp add: distinct_map comp_def)
  have sh: "(k, v) \<in> set ?h \<longleftrightarrow> tab_map Some (i_t t) k = Some v" for k v
    unfolding tab_map_iff [OF h] pairs_in by (cases v) (auto simp: upb_value_val_def occupied_def image_iff)
  have sa: "(k, v) \<in> set ?a \<longleftrightarrow> k < i_array_size t \<and> v = upb_value_val (i_array t ! unat k) ?c \<and> upb_arrhas (i_array t ! unat k)" for k v
  proof
    assume "(k, v) \<in> set ?a"
    then obtain i where "i < ?n" "k = word_of_nat i" "v = upb_value_val (i_array t ! i) ?c" "upb_arrhas (i_array t ! i)" by auto
    then show "k < i_array_size t \<and> v = upb_value_val (i_array t ! unat k) ?c \<and> upb_arrhas (i_array t ! unat k)"
      using n unat_of_nat_u64 [of i] by (simp add: word_less_nat_alt)
  next
    assume "k < i_array_size t \<and> v = upb_value_val (i_array t ! unat k) ?c \<and> upb_arrhas (i_array t ! unat k)"
    then show "(k, v) \<in> set ?a" by (auto simp: word_less_nat_alt image_iff intro!: bexI [of _ "unat k"])
  qed
  have ge: "i_array_size t \<le> k" if "(k, v) \<in> set ?h" for k v
    using int_wf_D(5) [OF t] that unfolding sh tab_map_iff [OF h] by fastforce
  have disj: "set (map fst ?a) \<inter> set (map fst ?h) = {}"
  proof (rule ccontr)
    assume "set (map fst ?a) \<inter> set (map fst ?h) \<noteq> {}"
    then obtain p q where "p \<in> set ?a" "q \<in> set ?h" "fst p = fst q" unfolding set_map [of fst] by blast
    then show False using sa [of "fst p" "snd p"] ge [of "fst q" "snd q"] unfolding prod.collapse by (metis not_le)
  qed
  have "distinct (map fst (?a @ ?h))" using da dh disj by (simp only: map_append distinct_append)
  moreover have lh: "length ?h = size (pairs ?es)"
    using arg_cong [OF mset_occupied [of ?es], of size] by (simp only: size_mset length_map)
  moreover from this have "size (pairs ?es) \<le> length (?a @ ?h)" by simp
  moreover have "length (?a @ ?h) = unat (upb_inttable_count t)"
  proof -
    have "length ?ai = card {i. i < ?n \<and> upb_arrhas (i_array t ! i)}"
      unfolding length_filter_conv_card by (rule arg_cong [of _ _ card]) auto
    then have la: "length ?a = unat (i_array_count t)" using int_wf_D(4) [OF t] by simp
    have "length ?a \<le> ?n" by (metis length_filter_le length_map length_upt minus_nat.diff_0)
    moreover have "unat (t_count (i_t t)) \<le> 2 ^ 30"
      using pairs_le [of ?es] tab_wf_D(2,3) [OF h] table_size_le [OF tab_wf_D(1) [OF h]] by simp
    ultimately have "unat (t_count (i_t t)) + unat (i_array_count t) < 2 ^ 64" using la int_wf_D(8) [OF t] by simp
    then show ?thesis using la lh tab_wf_D(3) [OF h] by (simp add: upb_inttable_count_def unat_word_ariths)
  qed
  moreover have "(k, v) \<in> set (?a @ ?h) \<longleftrightarrow> int_map t k = Some v" for k v
    using sa [of k v] sh [of k v] ge [of k v] by (auto simp: int_map_def not_less)
  ultimately show ?thesis using e by blast
qed

section \<open>Compaction\<close>

lemma not_isfull_room:
  assumes t: "tab_wf K H t" and n: "20 * Suc (size (pairs (t_entries t))) < 17 * 2 ^ unat (t_size_lg2 t)" "t_size_lg2 t \<noteq> 0"
  shows "\<not> isfull t"
proof -
  have s: "unat (upb_table_size t) = 2 ^ unat (t_size_lg2 t)" using table_size_nat [OF tab_wf_D(1) [OF t]] n(2) by simp
  have l: "unat (upb_table_size t) \<le> 2 ^ 30" by (rule table_size_le [OF tab_wf_D(1) [OF t]])
  have "size (pairs (t_entries t)) \<le> 2 ^ 30" using pairs_le [of "t_entries t"] tab_wf_D(2) [OF t] l by simp
  then have c: "unat (t_count t + 1) = Suc (size (pairs (t_entries t)))" using tab_wf_D(3) [OF t] by (simp add: unat_word_ariths)
  have "20 * c < 17 * z \<Longrightarrow> z \<le> 1073741824 \<Longrightarrow> c * 9007199254740992 \<le> 7656119366529843 * z" for c z :: nat by linarith
  from this [of "Suc (size (pairs (t_entries t)))" "2 ^ unat (t_size_lg2 t)"]
  have "Suc (size (pairs (t_entries t))) * 9007199254740992 \<le> 7656119366529843 * 2 ^ unat (t_size_lg2 t)" using n(1) l s by simp
  moreover have "upb_table_size t \<noteq> 0" using s by auto
  ultimately show ?thesis unfolding isfull_def s c by (simp add: not_less)
qed

text \<open>The elements go into a table that has room for those of them that its array does not hold.\<close>

lemma insert_elements_works:
  assumes "int_wf t" "t_ctype (i_t t) = c" "distinct (map fst kvs)" "\<forall>k v. (k, v) \<in> set kvs \<longrightarrow> int_map t k = None \<and> v_val v \<noteq> - 1 \<and> v_ctype v = c"
    and "length (filter (\<lambda>kv. \<not> fst kv < i_array_size t) kvs) + size (pairs (t_entries (i_t t))) \<le> n" "n \<le> 65536"
    and "n > 0 \<longrightarrow> 20 * n < 17 * 2 ^ unat (t_size_lg2 (i_t t)) \<and> t_size_lg2 (i_t t) \<noteq> 0"
  shows "\<exists>t'. insert_elements mem kvs t = Some t' \<and> int_wf t' \<and> t_ctype (i_t t') = c \<and> i_array_size t' = i_array_size t \<and>
    t_size_lg2 (i_t t') = t_size_lg2 (i_t t) \<and>
    (\<forall>k w. int_map t' k = Some w \<longleftrightarrow> int_map t k = Some w \<or> (k, w) \<in> set kvs)"
  using assms
proof (induction kvs arbitrary: t)
  case (Cons kv kvs)
  obtain k v where kv: "kv = (k, v)" by (cases kv)
  have nf: "\<not> isfull (i_t t)" if "\<not> k < i_array_size t"
    using not_isfull_room [OF int_wf_D(1) [OF Cons.prems(1)]] Cons.prems(5,7) that kv by simp
  have k: "int_map t k = None" "v_val v \<noteq> - 1" "v_ctype v = c" using Cons.prems(4) [rule_format, of k v] kv by simp_all
  have sz: "size (pairs (t_entries (i_t t))) < 2 ^ 28" using Cons.prems(5,6) by simp
  obtain ok t1 where t1: "upb_inttable_insert2 mem k v t = Some (ok, t1)" "int_wf t1" "t_ctype (i_t t1) = c"
      "i_array_size t1 = i_array_size t" "int_map t1 = (if ok then (int_map t)(k \<mapsto> v) else int_map t)"
      "ok \<longleftrightarrow> k < i_array_size t \<or> \<not> isfull (i_t t) \<or> mem (entries_bytes (t_size_lg2 (i_t t) + 1))"
      "k < i_array_size t \<or> \<not> isfull (i_t t) \<longrightarrow> t_size_lg2 (i_t t1) = t_size_lg2 (i_t t) \<and>
        size (pairs (t_entries (i_t t1))) = size (pairs (t_entries (i_t t))) + (if k < i_array_size t then 0 else 1)"
    using inttable_insert_map [OF Cons.prems(1) k(1), of "v" mem] k(2,3) sz Cons.prems(2)
    by auto
  have ok: "ok" "t_size_lg2 (i_t t1) = t_size_lg2 (i_t t)"
    "size (pairs (t_entries (i_t t1))) = size (pairs (t_entries (i_t t))) + (if k < i_array_size t then 0 else 1)"
    using t1(6,7) nf by blast+
  have "\<exists>t'. insert_elements mem kvs t1 = Some t' \<and> int_wf t' \<and> t_ctype (i_t t') = c \<and> i_array_size t' = i_array_size t1 \<and>
    t_size_lg2 (i_t t') = t_size_lg2 (i_t t1) \<and>
    (\<forall>k w. int_map t' k = Some w \<longleftrightarrow> int_map t1 k = Some w \<or> (k, w) \<in> set kvs)"
  proof (rule Cons.IH [OF t1(2,3)])
    show "distinct (map fst kvs)" using Cons.prems(3) by simp
    have "k' \<noteq> k" if "(k', v') \<in> set kvs" for k' v' using Cons.prems(3) kv that by force
    then show "\<forall>k v. (k, v) \<in> set kvs \<longrightarrow> int_map t1 k = None \<and> v_val v \<noteq> - 1 \<and> v_ctype v = c" using Cons.prems(4) t1(5) ok(1) by auto
    show "length (filter (\<lambda>kv. \<not> fst kv < i_array_size t1) kvs) + size (pairs (t_entries (i_t t1))) \<le> n"
      using Cons.prems(5) kv ok(3) t1(4) by (auto split: if_splits)
  qed (use Cons.prems(6,7) ok(2) in auto)
  then obtain t' where t': "insert_elements mem kvs t1 = Some t'" "int_wf t'" "t_ctype (i_t t') = c" "i_array_size t' = i_array_size t1"
      "t_size_lg2 (i_t t') = t_size_lg2 (i_t t1)"
      "\<forall>k w. int_map t' k = Some w \<longleftrightarrow> int_map t1 k = Some w \<or> (k, w) \<in> set kvs"
    by blast
  have "int_map t' j = Some w \<longleftrightarrow> int_map t j = Some w \<or> (j, w) \<in> set (kv # kvs)" for j w
  proof -
    have "int_map t1 j = Some w \<longleftrightarrow> int_map t j = Some w \<or> j = k \<and> w = v" using t1(5) ok(1) k(1) by auto
    then show ?thesis using t'(6) kv by auto
  qed
  then show ?case using t' t1(1,4) ok(2) kv by simp
qed simp

lemma length_filter_mono: "\<forall>x \<in> set xs. P x \<longrightarrow> Q x \<Longrightarrow> length (filter P xs) \<le> length (filter Q xs)"
  by (induction xs) auto

lemma int_map_ctype: "int_wf t \<Longrightarrow> int_map t k = Some v \<Longrightarrow> v_ctype v = t_ctype (i_t t)"
  using tab_map_iff [OF int_wf_D(1)] by (auto simp: int_map_def upb_value_val_def split: if_splits)

lemma int_map_dom:
  assumes t: "int_wf t"
  shows "unat (upb_inttable_count t) = card (dom (int_map t))" "size (pairs (t_entries (i_t t))) \<le> card (dom (int_map t))"
proof -
  obtain kvs where kvs: "distinct (map fst kvs)" "length kvs = unat (upb_inttable_count t)" "size (pairs (t_entries (i_t t))) \<le> length kvs"
      "\<forall>k v. (k, v) \<in> set kvs \<longleftrightarrow> int_map t k = Some v"
    using inttable_elements_works [OF t] by blast
  have "k \<in> dom (int_map t) \<longleftrightarrow> k \<in> fst ` set kvs" for k using kvs(4) by (force simp: dom_def)
  then have "dom (int_map t) = set (map fst kvs)" by auto
  then have "card (dom (int_map t)) = length kvs" using distinct_card [OF kvs(1)] by simp
  then show "unat (upb_inttable_count t) = card (dom (int_map t))" "size (pairs (t_entries (i_t t))) \<le> card (dom (int_map t))"
    using kvs(2,3) by simp_all
qed

lemma few_keys:
  assumes "distinct ks" "\<forall>k \<in> set ks. unat (k :: u64) \<le> n"
  shows "length ks \<le> Suc n"
proof -
  have "distinct (map unat ks)" using assms(1) by (simp add: distinct_map inj_on_def word_unat_eq_iff)
  then have "length ks = card (set (map unat ks))" using distinct_card [of "map unat ks"] by simp
  also have "\<dots> \<le> card {..n}" using assms(2) by (intro card_mono) auto
  finally show ?thesis by simp
qed

text \<open>
  The last bucket holds all keys above \<open>2 ^ 15\<close>. With 6554 elements, a tenth of \<open>2 ^ 16\<close>, one such key makes the array hold all
  elements; without one, there are at most \<open>2 ^ 15 + 1\<close> keys. So the new hash part is never too large for \<open>log2ceil\<close>.
\<close>

lemma shrink_first:
  "shrink counts 16 n = (if counts 16 = 0 then shrink counts 15 n
     else if 6554 \<le> n then (16, n) else shrink counts 15 (n - counts 16))"
proof -
  have "n * 2 ^ 55 \<ge> 2 ^ 16 * 3602879701896397 \<longleftrightarrow> 6554 \<le> n" by auto
  then show ?thesis using shrink.simps(2) [of counts 15 n] by (simp del: shrink.simps)
qed

lemma shrink_le: "shrink counts s n = (s', a) \<Longrightarrow> s' \<le> s"
  by (induction s arbitrary: n) (fastforce split: if_splits)+

lemma shrink_16:
  assumes sh: "shrink (\<lambda>b. length (bucket_keys ks b)) 16 (length ks) = (s, a)" and d: "distinct ks"
  shows "if s = 16 then a = length ks \<and> 6554 \<le> length ks else length ks \<le> 32769"
proof (cases "bucket_keys ks 16 = []")
  case True
  then have s: "s \<le> 15" using sh shrink_le by (simp add: shrink_first)
  have "unat k \<le> 2 ^ 15" if "k \<in> set ks" for k
  proof -
    have "log2ceil k \<noteq> 16" using True that by (auto simp: bucket_keys_def filter_empty_conv)
    then have "log2ceil k \<le> 15" using log2ceil_16 [of k] by simp
    then show ?thesis using log2ceil_le [of 15 k] by simp
  qed
  then have "length ks \<le> Suc (2 ^ 15)" using few_keys [OF d, of "2 ^ 15"] by blast
  then show ?thesis using s by simp
next
  case False
  show ?thesis
  proof (cases "6554 \<le> length ks")
    case True
    then show ?thesis using sh False by (simp add: shrink_first)
  next
    case few: False
    then have "s \<le> 15" using sh False shrink_le by (simp add: shrink_first)
    then show ?thesis using few by simp
  qed
qed

lemma compact_works:
  assumes t: "int_wf t" and m: "card (dom (int_map t)) < 6554 \<or> (\<forall>k. int_map t k \<noteq> None \<longrightarrow> unat k < 2 ^ 60 - 1)"
    and v: "\<forall>k v. int_map t k = Some v \<longrightarrow> v_val v \<noteq> - 1"
  shows "\<exists>a lg. \<forall>mem. \<exists>t'. upb_inttable_compact2 mem t =
      (if (lg = 0 \<or> mem (entries_bytes (word_of_nat lg))) \<and> mem (a * 16) then Some t' else None) \<and>
    int_wf t' \<and> int_map t' = int_map t \<and> t_ctype (i_t t') = t_ctype (i_t t)"
proof -
  let ?c = "t_ctype (i_t t)"
  obtain kvs where kvs: "inttable_elements t = Some kvs" "distinct (map fst kvs)" "length kvs = unat (upb_inttable_count t)"
      "\<forall>k v. (k, v) \<in> set kvs \<longleftrightarrow> int_map t k = Some v"
    using inttable_elements_works [OF t] by blast
  define ks where "ks = map fst kvs"
  have ksm: "k \<in> set ks \<Longrightarrow> int_map t k \<noteq> None" for k unfolding ks_def using kvs(4) by fastforce
  have len: "length ks = card (dom (int_map t))" using int_map_dom(1) [OF t] kvs(3) by (simp add: ks_def)
  have all: "length ks = below ks 16" unfolding below_def by (simp add: log2ceil_16)
  obtain s a where sh: "shrink (\<lambda>b. length (bucket_keys ks b)) 16 (length ks) = (s, a)" by fastforce
  then have s: "a = below ks s" "s \<le> 16" "s = 0 \<or> bucket_keys ks s \<noteq> []" using shrink_works [of ks 16 s a] all by auto
  have ln: "unat (upb_inttable_count t) = length ks" using kvs(3) by (simp add: ks_def)
  define mx where "mx = foldl max 0 (bucket_keys ks s)"
  have c: "if s = 16 then a = length ks \<and> 6554 \<le> length ks else length ks \<le> 32769"
    using shrink_16 [OF sh] kvs(2) by (simp add: ks_def)
  have mx0: "mx \<in> insert 0 (set (bucket_keys ks s))" unfolding mx_def by (rule foldl_max(3))
  have mx: "unat mx < 2 ^ 60 - 1"
  proof (cases "s = 16")
    case True
    then show ?thesis using m ksm mx0 c len by (auto simp: bucket_keys_def)
  next
    case False
    then have "mx = 0 \<or> unat mx \<le> 2 ^ s" using mx0 log2ceil_le [OF s(2), of mx] by (auto simp: bucket_keys_def)
    moreover have "(2 :: nat) ^ s \<le> 2 ^ 16" using s(2) by (intro power_increasing) simp_all
    ultimately show ?thesis by auto
  qed
  then have mx1: "unat (mx + 1) = Suc (unat mx)" by (simp add: unat_word_ariths)
  define hc where "hc = length ks - a"
  define hs where "hs = (if hc \<noteq> 0 then hc * 20 div 17 + 1 else 0)"
  define lg where "lg = log2ceil (word_of_nat hs)"
  have hc: "hc \<le> 32769" using c by (auto simp: hc_def split: if_splits)
  then have "hc * 20 \<le> 655380" by simp
  then have hs: "hs \<le> 65536" using div_le_mono [of "hc * 20" 655380 17] unfolding hs_def by simp
  then have "unat (word_of_nat hs :: u64) = hs" by (intro unat_of_nat_u64) simp
  then have lg: "hs \<le> 2 ^ lg" "lg \<le> 16"
    using log2ceil_le [of lg "word_of_nat hs"] log2ceil_16 [of "word_of_nat hs"] hs by (auto simp: lg_def)
  have mx1': "max 1 (mx + 1) = mx + 1" using mx1 by (simp add: max_def word_le_nat_alt)
  have bd: "lg \<le> 30" "unat (mx + 1) < 2 ^ 60" using lg(2) mx mx1 by simp_all
  have "log2ceil (fst kv) > s" if "kv \<in> set kvs" "\<not> fst kv < mx + 1" for kv
  proof (rule ccontr)
    assume "\<not> log2ceil (fst kv) > s"
    then have "fst kv \<le> mx" unfolding mx_def using s that(1) by (intro array_covers) (auto simp: ks_def)
    then show False using that(2) mx1 by (simp add: word_less_nat_alt word_le_nat_alt)
  qed
  then have "length (filter (\<lambda>kv. \<not> fst kv < mx + 1) kvs) \<le> length (filter (\<lambda>kv. \<not> log2ceil (fst kv) \<le> s) kvs)"
    by (intro length_filter_mono) (metis not_le)
  also have "\<dots> + below ks s = length ks" unfolding below_def ks_def by (induction kvs) auto
  then have "length (filter (\<lambda>kv. \<not> log2ceil (fst kv) \<le> s) kvs) = hc" using s(1) hc_def by simp
  finally have cnt: "length (filter (\<lambda>kv. \<not> fst kv < mx + 1) kvs) \<le> hc" .
  have room: "20 * hc < 17 * 2 ^ lg" if "hc > 0"
  proof -
    have "hc * 20 div 17 < 2 ^ lg" using lg(1) that by (simp add: hs_def)
    then have "hc * 20 < 2 ^ lg * 17" by (subst (asm) div_less_iff_less_mult) auto
    then show ?thesis by (simp add: mult.commute)
  qed
  have lg0: "lg \<noteq> 0" if "hc > 0"
  proof
    assume "lg = 0"
    then show False using room [OF that] that by simp
  qed
  let ?goal = "\<lambda>mem. \<exists>t'. upb_inttable_compact2 mem t =
      (if (lg = 0 \<or> mem (entries_bytes (word_of_nat lg))) \<and> mem ((mx + 1) * 16) then Some t' else None) \<and>
    int_wf t' \<and> int_map t' = int_map t \<and> t_ctype (i_t t') = t_ctype (i_t t)"
  have "?goal mem" for mem
  proof -
    obtain t0 where t0: "upb_inttable_sizedinit mem ?c (mx + 1) lg =
        Some (if (lg = 0 \<or> mem (entries_bytes (word_of_nat lg))) \<and> mem ((mx + 1) * 16) then Some t0 else None)"
        "int_wf t0" "int_map t0 = Map.empty" "t_ctype (i_t t0) = ?c" "i_array_size t0 = mx + 1" "unat (t_size_lg2 (i_t t0)) = lg" "pairs (t_entries (i_t t0)) = {#}"
      using sizedinit_works [OF bd, of mem ?c] unfolding mx1' by blast
    have "\<exists>t'. insert_elements mem kvs t0 = Some t' \<and> int_wf t' \<and> t_ctype (i_t t') = ?c \<and> i_array_size t' = i_array_size t0 \<and>
      t_size_lg2 (i_t t') = t_size_lg2 (i_t t0) \<and>
      (\<forall>k w. int_map t' k = Some w \<longleftrightarrow> int_map t0 k = Some w \<or> (k, w) \<in> set kvs)"
    proof (rule insert_elements_works [OF t0(2,4) kvs(2)])
      show "\<forall>k v. (k, v) \<in> set kvs \<longrightarrow> int_map t0 k = None \<and> v_val v \<noteq> - 1 \<and> v_ctype v = ?c"
        using kvs(4) v t0(3) int_map_ctype [OF t] by auto
      show "length (filter (\<lambda>kv. \<not> fst kv < i_array_size t0) kvs) + size (pairs (t_entries (i_t t0))) \<le> hc"
        using cnt t0(5,7) by simp
      show "hc \<le> 65536" using hc by simp
      show "hc > 0 \<longrightarrow> 20 * hc < 17 * 2 ^ unat (t_size_lg2 (i_t t0)) \<and> t_size_lg2 (i_t t0) \<noteq> 0"
        using room lg0 t0(6) by auto
    qed
    then obtain t' where t': "insert_elements mem kvs t0 = Some t'" "int_wf t'" "t_ctype (i_t t') = ?c" "i_array_size t' = mx + 1"
        "unat (t_size_lg2 (i_t t')) = lg" "\<forall>k w. int_map t' k = Some w \<longleftrightarrow> (k, w) \<in> set kvs"
      using t0 by auto
    have "int_map t' k = Some w \<longleftrightarrow> int_map t k = Some w" for k w using t'(6) kvs(4) by simp
    then have "int_map t' = int_map t" by (intro ext) (metis option.exhaust)
    moreover have "upb_inttable_compact2 mem t =
        (if (lg = 0 \<or> mem (entries_bytes (word_of_nat lg))) \<and> mem ((mx + 1) * 16) then Some t' else None)"
      unfolding upb_inttable_compact2_def kvs(1) Option.bind.bind_lunit Let_def ks_def [symmetric] ln sh prod.case
        mx_def [symmetric] hc_def [symmetric] hs_def [symmetric] lg_def [symmetric] t0(1)
      by (simp add: t')
    ultimately show "?goal mem" using t' by blast
  qed
  then show ?thesis by blast
qed

text \<open>
  Otherwise the size of the array in bytes is not representable, and the element with the largest key is stored behind the
  array that was allocated: compaction is undefined.
\<close>

lemma insert_array:
  "upb_inttable_insert2 mem k v t = Some (ok, t') \<Longrightarrow> i_array_size t' = i_array_size t \<and> length (i_array t') = length (i_array t)"
  by (auto simp: upb_inttable_insert2_def Option.bind_eq_Some_conv Let_def split: if_splits option.splits)

lemma insert_elements_size:
  "insert_elements mem kvs t = Some t' \<Longrightarrow> i_array_size t' = i_array_size t"
  by (induction kvs arbitrary: t) (auto simp: Option.bind_eq_Some_conv dest!: insert_array)

lemma insert_behind_array:
  "(k, v) \<in> set kvs \<Longrightarrow> k < i_array_size t \<Longrightarrow> length (i_array t) \<le> unat k \<Longrightarrow> insert_elements mem kvs t = None"
proof (induction kvs arbitrary: t)
  case (Cons kv kvs)
  show ?case
  proof (cases "upb_inttable_insert2 mem (fst kv) (snd kv) t")
    case (Some x)
    then obtain ok t1 where x: "upb_inttable_insert2 mem (fst kv) (snd kv) t = Some (ok, t1)" by (cases x) auto
    have "kv \<noteq> (k, v)" using x Cons.prems(2,3) by (auto simp: upb_inttable_insert2_def arr_get_def split: if_splits)
    then show ?thesis using Cons insert_array [OF x] x by simp
  qed simp
qed simp

lemma unat_mult_u64: "unat (x * 16 :: u64) = unat x * 16 mod 2 ^ 64"
  by (simp add: unat_word_ariths)

lemma wrapped_size:
  fixes n :: nat
  assumes "2 ^ 60 \<le> n"
  shows "n * 16 mod 2 ^ 64 div 8 < n"
proof -
  have "n * 16 mod 2 ^ 64 = 16 * (n mod 2 ^ 60)" using mult_mod_right [of 16 n "2 ^ 60"] by (simp add: mult.commute)
  then have "n * 16 mod 2 ^ 64 div 8 = 2 * (n mod 2 ^ 60)" by simp
  moreover have "n mod 2 ^ 60 < 2 ^ 60" by simp
  moreover have "2 ^ 60 + n mod 2 ^ 60 \<le> n"
  proof -
    have "1 * 2 ^ 60 \<le> n div 2 ^ 60 * 2 ^ 60" using assms div_le_mono [of "2 ^ 60" n "2 ^ 60"] by (intro mult_le_mono1) simp
    then show ?thesis using div_mult_mod_eq [of n "2 ^ 60"] by linarith
  qed
  ultimately show ?thesis by linarith
qed

lemma compact_overflow:
  assumes t: "int_wf t" and n: "6554 \<le> card (dom (int_map t))" and k: "int_map t k \<noteq> None" "2 ^ 60 - 1 \<le> unat k"
  shows "upb_inttable_compact2 mem t = None"
proof -
  obtain kvs where kvs: "inttable_elements t = Some kvs" "distinct (map fst kvs)" "length kvs = unat (upb_inttable_count t)"
      "\<forall>k v. (k, v) \<in> set kvs \<longleftrightarrow> int_map t k = Some v"
    using inttable_elements_works [OF t] by blast
  define ks where "ks = map fst kvs"
  have big: "log2ceil j = 16" if "2 ^ 60 - 1 \<le> unat j" for j
    using log2ceil_le [of 15 j] log2ceil_16 [of j] that by auto
  obtain v where v: "(k, v) \<in> set kvs" using k(1) kvs(4) by auto
  then have kb: "k \<in> set (bucket_keys ks 16)" using big [OF k(2)] by (force simp: bucket_keys_def ks_def)
  have ln: "unat (upb_inttable_count t) = length ks" using kvs(3) by (simp add: ks_def)
  have "6554 \<le> length ks" using n int_map_dom(1) [OF t] ln by simp
  then have sh: "shrink (\<lambda>b. length (bucket_keys ks b)) 16 (length ks) = (16, length ks)" using kb by (auto simp: shrink_first)
  define mx where "mx = foldl max 0 (bucket_keys ks 16)"
  have kmx: "k \<le> mx" unfolding mx_def by (rule foldl_max(2) [OF kb])
  then have mx2: "2 ^ 60 - 1 \<le> unat mx" using k(2) by (simp add: word_le_nat_alt)
  then have "mx \<noteq> 0" by auto
  then obtain w where w: "(mx, w) \<in> set kvs"
    using foldl_max(3) [of 0 "bucket_keys ks 16", folded mx_def] by (auto simp: bucket_keys_def ks_def)
  have run: "upb_inttable_compact2 mem t = do {
      r \<leftarrow> upb_inttable_sizedinit mem (t_ctype (i_t t)) (mx + 1) (log2ceil (word_of_nat 0));
      new_t \<leftarrow> r;
      new_t \<leftarrow> insert_elements mem kvs new_t;
      if i_array_size new_t \<noteq> mx + 1 \<or> unat (t_size_lg2 (i_t new_t)) \<noteq> log2ceil (word_of_nat 0) then None else Some new_t }"
    unfolding upb_inttable_compact2_def kvs(1) Option.bind.bind_lunit Let_def ks_def [symmetric] ln sh prod.case mx_def [symmetric] by simp
  have bad: "insert_elements mem kvs nt = None \<or> i_array_size nt \<noteq> mx + 1"
    if "upb_inttable_sizedinit mem (t_ctype (i_t t)) (mx + 1) lg = Some (Some nt)" for nt lg
  proof (cases "mx + 1 = 0")
    case True
    then show ?thesis using that by (auto simp: upb_inttable_sizedinit_def Let_def Option.bind_eq_Some_conv split: option.splits if_splits)
  next
    case False
    have "unat mx \<noteq> 2 ^ 64 - 1"
    proof
      assume "unat mx = 2 ^ 64 - 1"
      then have "unat (mx + 1) = 0" by (simp add: unat_word_ariths)
      then show False using False by (simp only: unat_eq_0)
    qed
    then have m1: "unat (mx + 1) = Suc (unat mx)" using unat_u64_less [of mx] by (simp add: unat_word_ariths)
    then have m1': "max 1 (mx + 1) = mx + 1" by (simp add: max_def word_le_nat_alt)
    then have nt: "i_array_size nt = mx + 1" "length (i_array nt) = unat ((mx + 1) * 16) div 8"
      using that unfolding upb_inttable_sizedinit_def Let_def m1'
      by (auto simp: Option.bind_eq_Some_conv split: option.splits if_splits)
    have "unat ((mx + 1) * 16) div 8 \<le> unat mx"
    proof -
      have "2 ^ 60 \<le> unat (mx + 1)" using mx2 unfolding m1 by simp
      from wrapped_size [OF this] show ?thesis unfolding unat_mult_u64 using m1 by simp
    qed
    then show ?thesis using insert_behind_array [OF w, of nt] nt m1 by (simp add: word_less_nat_alt)
  qed
  show ?thesis
  proof (cases "upb_inttable_sizedinit mem (t_ctype (i_t t)) (mx + 1) (log2ceil (word_of_nat 0))")
    case (Some r)
    show ?thesis
    proof (cases r)
      case nt: (Some nt)
      show ?thesis
        using bad [OF Some [unfolded nt]] insert_elements_size [of mem kvs nt] Some nt
        by (cases "insert_elements mem kvs nt") (auto simp: run)
    qed (use Some in \<open>simp add: run\<close>)
  qed (simp add: run)
qed

text \<open>
  \<open>upb_inttable_remove\<close> reads through a null pointer when a table was compacted to its array and the key is behind it.
\<close>

lemma remove_compacted:
  assumes t: "int_wf t" and z: "t_size_lg2 (i_t t) = 0" and k: "\<not> k < i_array_size t"
  shows "upb_inttable_lookup k t = Some None \<and> upb_inttable_remove k t = None"
proof -
  have "t_entries (i_t t) = []" using tab_wf_D(2) [OF int_wf_D(1) [OF t]] z by (simp add: upb_table_size_def)
  then show ?thesis using z k
    by (simp add: upb_inttable_lookup_def inttable_val_def findentry_def upb_inttable_remove_def tab_rm_def upb_getentry_def)
qed

section \<open>Runs\<close>

text \<open>
  The integer tables that a client reaches from an empty one, each with the map that the operations describe. A value fits
  a table if it has the type of the table and is not the value that marks empty elements of the array.
\<close>

definition fits :: "upb_ctype_t \<Rightarrow> upb_value \<Rightarrow> bool" where
  "fits c v \<longleftrightarrow> v_ctype v = c \<and> v_val v \<noteq> - 1"

inductive int_run :: "upb_ctype_t \<Rightarrow> upb_inttable \<Rightarrow> (u64 \<Rightarrow> upb_value option) \<Rightarrow> bool" for c where
  int_init: "upb_inttable_init2 mem c = Some (Some t) \<Longrightarrow> int_run c t Map.empty"
| int_insert: "int_run c t m \<Longrightarrow> m k = None \<Longrightarrow> fits c v \<Longrightarrow> card (dom m) < 2 ^ 28 \<Longrightarrow> upb_inttable_insert2 mem k v t = Some (ok, t') \<Longrightarrow>
    int_run c t' (if ok then m(k \<mapsto> v) else m)"
| int_replace: "int_run c t m \<Longrightarrow> fits c v \<Longrightarrow> upb_inttable_replace k v t = Some (ok, t') \<Longrightarrow> int_run c t' (if ok then m(k \<mapsto> v) else m)"
| int_remove: "int_run c t m \<Longrightarrow> upb_inttable_remove k t = Some (r, t') \<Longrightarrow>
    int_run c t' (m(k := None))"
| int_compact: "int_run c t m \<Longrightarrow> upb_inttable_compact2 mem t = Some t' \<Longrightarrow> int_run c t' m"

lemma int_run_wf:
  "int_run c t m \<Longrightarrow> int_wf t \<and> int_map t = m \<and> t_ctype (i_t t) = c \<and> (\<forall>k v. m k = Some v \<longrightarrow> v_val v \<noteq> - 1)"
proof (induction rule: int_run.induct)
  case (int_init mem t)
  then show ?case using init_works [of mem c] by (auto split: if_splits)
next
  case (int_insert t m k v mem ok t')
  then have "size (pairs (t_entries (i_t t))) < 2 ^ 28" using int_map_dom(2) [of t] by auto
  then show ?case using int_insert inttable_insert_map [of t k v mem] by (auto simp: fits_def split: if_splits)
next
  case (int_replace t m v k ok t')
  then show ?case using inttable_replace_map [of t v k] by (auto simp: fits_def split: if_splits)
next
  case (int_remove t m k r t')
  then have "k < i_array_size t \<or> t_size_lg2 (i_t t) \<noteq> 0" using remove_compacted [of t k] by auto
  then show ?case using int_remove inttable_remove_map [of t k] by (auto split: if_splits)
next
  case (int_compact t m mem t')
  have "card (dom (int_map t)) < 6554 \<or> (\<forall>k. int_map t k \<noteq> None \<longrightarrow> unat k < 2 ^ 60 - 1)"
    using compact_overflow [of t _ mem] int_compact by (metis not_le option.distinct(1))
  then obtain a lg where "\<forall>mem. \<exists>t'. upb_inttable_compact2 mem t =
      (if (lg = 0 \<or> mem (entries_bytes (word_of_nat lg))) \<and> mem (a * 16) then Some t' else None) \<and>
    int_wf t' \<and> int_map t' = int_map t \<and> t_ctype (i_t t') = t_ctype (i_t t)"
    using compact_works [of t] int_compact.IH by blast
  from this [rule_format, of mem] show ?case using int_compact by (auto split: if_splits)
qed

text \<open>
  C30. The integer tables of upb refine a finite map, with two faults. In every table that insertions of new keys (below
  \<open>2 ^ 28\<close> keys, with values of the table's type other than the mark of empty elements, as the assertions demand),
  replacements, removals and compactions reach from an empty one, whatever allocations failed: a lookup returns the stored
  value with its type; the count is the number of keys; an insertion is defined, enters the key, and fails only if the
  table is full and the larger one cannot be allocated, and then changes nothing; a replacement changes exactly a key that is there.
  A removal removes the key and returns its value, unless the table was compacted to its array and the key is behind it: then the
  key is not in the map, and the code reads through a null pointer. Compaction keeps the map when
  the new array and entries can be allocated, of sizes that only depend on the table, and is undefined when not, since the
  code ignores that failure; with 6554 keys or more of which one is at least \<open>2 ^ 60 - 1\<close> it is always
  undefined, since the size of the array in bytes wraps around and the code writes behind it.
\<close>

theorem inttable_refines_map:
  assumes r: "int_run c t m"
  shows "upb_inttable_lookup k t = Some (m k) \<and> unat (upb_inttable_count t) = card (dom m) \<and>
    (m k = None \<and> fits c v \<and> card (dom m) < 2 ^ 28 \<longrightarrow>
      (\<exists>ok t'. upb_inttable_insert2 mem k v t = Some (ok, t') \<and>
        (if ok then int_run c t' (m(k \<mapsto> v)) else isfull (i_t t) \<and> \<not> mem (entries_bytes (t_size_lg2 (i_t t) + 1)) \<and> t' = t))) \<and>
    (fits c v \<longrightarrow> (\<exists>t'. upb_inttable_replace k v t = Some (m k \<noteq> None, t') \<and> int_run c t' (if m k = None then m else m(k \<mapsto> v)))) \<and>
    (if k < i_array_size t \<or> t_size_lg2 (i_t t) \<noteq> 0 then \<exists>t'. upb_inttable_remove k t = Some (m k, t') \<and> int_run c t' (m(k := None))
     else m k = None \<and> upb_inttable_remove k t = None) \<and>
    (if card (dom m) < 6554 \<or> (\<forall>k \<in> dom m. unat k < 2 ^ 60 - 1)
     then \<exists>a lg. \<forall>mem. if (lg = 0 \<or> mem (entries_bytes (word_of_nat lg))) \<and> mem (a * 16)
       then \<exists>t'. upb_inttable_compact2 mem t = Some t' \<and> int_run c t' m else upb_inttable_compact2 mem t = None
     else upb_inttable_compact2 mem t = None)"
proof -
  note w = int_run_wf [OF r]
  have insert: "\<exists>ok t'. upb_inttable_insert2 mem k v t = Some (ok, t') \<and>
        (if ok then int_run c t' (m(k \<mapsto> v)) else isfull (i_t t) \<and> \<not> mem (entries_bytes (t_size_lg2 (i_t t) + 1)) \<and> t' = t)"
    if that: "m k = None" "fits c v" "card (dom m) < 2 ^ 28"
  proof -
    have "\<exists>ok t'. upb_inttable_insert2 mem k v t = Some (ok, t') \<and>
        (ok \<or> isfull (i_t t) \<and> \<not> mem (entries_bytes (t_size_lg2 (i_t t) + 1)) \<and> t' = t)"
      using inttable_insert_map [of t k v mem] w that int_map_dom(2) [of t] by (auto simp: fits_def)
    then obtain ok t' where i: "upb_inttable_insert2 mem k v t = Some (ok, t')"
      "ok \<or> isfull (i_t t) \<and> \<not> mem (entries_bytes (t_size_lg2 (i_t t) + 1)) \<and> t' = t" by blast
    from int_insert [OF r that i(1)] i show ?thesis by auto
  qed
  have replace: "\<exists>t'. upb_inttable_replace k v t = Some (m k \<noteq> None, t') \<and> int_run c t' (if m k = None then m else m(k \<mapsto> v))"
    if "fits c v"
  proof -
    have "\<exists>t'. upb_inttable_replace k v t = Some (m k \<noteq> None, t')"
      using inttable_replace_map [of t v k] w that by (auto simp: fits_def)
    then obtain t' where i: "upb_inttable_replace k v t = Some (m k \<noteq> None, t')" by blast
    from int_replace [OF r that i] i show ?thesis by (auto split: if_splits)
  qed
  have remove: "if k < i_array_size t \<or> t_size_lg2 (i_t t) \<noteq> 0 then \<exists>t'. upb_inttable_remove k t = Some (m k, t') \<and> int_run c t' (m(k := None))
     else m k = None \<and> upb_inttable_remove k t = None"
  proof (cases "k < i_array_size t \<or> t_size_lg2 (i_t t) \<noteq> 0")
    case True
    then obtain t' where i: "upb_inttable_remove k t = Some (m k, t')" using inttable_remove_map [of t k] w by auto
    from int_remove [OF r i] i True show ?thesis by auto
  next
    case False
    then show ?thesis using remove_compacted [of t k] inttable_lookup_map [of t k] w by auto
  qed
  have compact: "\<exists>a lg. \<forall>mem. if (lg = 0 \<or> mem (entries_bytes (word_of_nat lg))) \<and> mem (a * 16)
       then \<exists>t'. upb_inttable_compact2 mem t = Some t' \<and> int_run c t' m else upb_inttable_compact2 mem t = None"
    if "card (dom m) < 6554 \<or> (\<forall>k \<in> dom m. unat k < 2 ^ 60 - 1)"
  proof -
    have "card (dom (int_map t)) < 6554 \<or> (\<forall>k. int_map t k \<noteq> None \<longrightarrow> unat k < 2 ^ 60 - 1)" using w that by blast
    then obtain a lg where i: "\<forall>mem. \<exists>t'. upb_inttable_compact2 mem t =
        (if (lg = 0 \<or> mem (entries_bytes (word_of_nat lg))) \<and> mem (a * 16) then Some t' else None)"
      using compact_works [of t] w by blast
    have "if (lg = 0 \<or> mem (entries_bytes (word_of_nat lg))) \<and> mem (a * 16)
       then \<exists>t'. upb_inttable_compact2 mem t = Some t' \<and> int_run c t' m else upb_inttable_compact2 mem t = None" for mem
      using i [rule_format, of mem] int_compact [OF r, of mem] by (auto split: if_splits)
    then show ?thesis by blast
  qed
  have overflow: "upb_inttable_compact2 mem t = None" if "\<not> (card (dom m) < 6554 \<or> (\<forall>k \<in> dom m. unat k < 2 ^ 60 - 1))"
    using compact_overflow [of t _ mem] w that by (auto simp: not_less)
  show ?thesis
    using inttable_lookup_map [of t k] int_map_dom(1) [of t] insert replace remove compact overflow w by (intro conjI) simp_all
qed

lemma inttable_refines_map_witness:
  "\<exists>t t'. upb_inttable_lookup 7 t = Some (Some \<lparr>v_val = 42, v_ctype = UPB_CTYPE_UINT64\<rparr>) \<and>
    upb_inttable_compact2 (\<lambda>_. True) t = Some t' \<and> upb_inttable_lookup 7 t' = Some (Some \<lparr>v_val = 42, v_ctype = UPB_CTYPE_UINT64\<rparr>)"
proof -
  let ?c = UPB_CTYPE_UINT64 and ?v = "\<lparr>v_val = 42 :: u64, v_ctype = UPB_CTYPE_UINT64\<rparr>" and ?m = "\<lambda>_ :: u64. True"
  obtain t where t: "upb_inttable_init2 ?m ?c = Some (Some t)" using init_works [of ?m ?c] by auto
  note r = int_init [OF t]
  have f: "fits ?c ?v" by (simp add: fits_def)
  have "(\<lambda>_. None) 7 = None \<and> fits ?c ?v \<and> card (dom (\<lambda>_ :: u64. None :: upb_value option)) < 2 ^ 28" using f by simp
  then have "\<exists>ok t'. upb_inttable_insert2 ?m 7 ?v t = Some (ok, t') \<and>
      (if ok then int_run ?c t' [7 \<mapsto> ?v] else isfull (i_t t) \<and> \<not> ?m (entries_bytes (t_size_lg2 (i_t t) + 1)) \<and> t' = t)"
    using inttable_refines_map [OF r, of 7 ?v ?m] by blast
  then obtain t1 where r1: "int_run ?c t1 [7 \<mapsto> ?v]" by (auto split: if_splits)
  note R = inttable_refines_map [OF r1, of 7 ?v ?m]
  have "card (dom [7 :: u64 \<mapsto> ?v]) < 6554" by simp
  then have "\<exists>a lg. \<forall>mem :: u64 \<Rightarrow> bool. if (lg = 0 \<or> mem (entries_bytes (word_of_nat lg))) \<and> mem (a * 16)
       then \<exists>t'. upb_inttable_compact2 mem t1 = Some t' \<and> int_run ?c t' [7 \<mapsto> ?v] else upb_inttable_compact2 mem t1 = None"
    using R by simp
  then have "\<exists>t2. upb_inttable_compact2 ?m t1 = Some t2 \<and> int_run ?c t2 [7 \<mapsto> ?v]" by (auto dest!: spec [of _ ?m])
  then obtain t2 where t2: "upb_inttable_compact2 ?m t1 = Some t2" "int_run ?c t2 [7 \<mapsto> ?v]" by blast
  have "upb_inttable_lookup 7 t1 = Some (Some ?v)" using R by simp
  moreover have "upb_inttable_lookup 7 t2 = Some (Some ?v)" using inttable_refines_map [OF t2(2), of 7 ?v ?m] by simp
  ultimately show ?thesis using t2(1) by blast
qed

section \<open>A defect\<close>

text \<open>\<open>upb_inttable_lookup32\<close> finds a key that differs in its upper half, which \<open>upb_inttable_lookup\<close> does not.\<close>

lemma lookup32_false_hit:
  assumes e: "upb_getentry (i_t t) (upb_inthash (ucast key)) = Some i" "ucast (e_key (t_entries (i_t t) ! i)) = key"
    and k: "\<not> ucast key < i_array_size t"
  shows "upb_inttable_lookup32 key t = Some (Some (upb_value_val (e_val (t_entries (i_t t) ! i)) (t_ctype (i_t t))))"
proof -
  have i: "i < length (t_entries (i_t t))" using e(1) by (auto simp: upb_getentry_def Let_def split: if_splits)
  then obtain n where "length (t_entries (i_t t)) = Suc n" by (cases "length (t_entries (i_t t))") auto
  then show ?thesis using e i k by (auto simp: upb_inttable_lookup32_def)
qed


end
