(* ===== verification/Upb_Hash_Spec.thy ===== *)
theory Upb_Hash_Spec
  imports Upb_Table
begin

text \<open>
  The hash of a string does not depend on its address: the loop for data that is not aligned shifts the words that it reads together, and mixes the
  same words as the loop for aligned data. A string table relies on it, because it hashes the string of the caller and its own copy.
\<close>

section \<open>The hash does not depend on the alignment\<close>

lemma bit_le_nat: "bit (le_nat bs) n \<longleftrightarrow> n div 8 < length bs \<and> bit (bs ! (n div 8)) (n mod 8)"
proof (induction bs arbitrary: n)
  case (Cons b bs)
  define v where "v = unat b + 256 * le_nat bs"
  have b: "unat b < 256" using unat_u8_le [of b] by simp
  have d: "drop_bit 8 v = le_nat bs" using b by (simp add: drop_bit_eq_div v_def)
  have t: "take_bit 8 v = unat b" using b by (simp add: take_bit_eq_mod v_def)
  show ?case
  proof (cases "n < 8")
    case True
    then have "bit v n = bit (unat b) n" using t by (metis bit_take_bit_iff)
    then show ?thesis using True by (simp add: v_def bit_unsigned_iff)
  next
    case False
    then have "bit v n = bit (le_nat bs) (n - 8)" using d by (metis bit_drop_bit_eq comp_apply le_add_diff_inverse not_less)
    moreover have "n div 8 = Suc ((n - 8) div 8)" "n mod 8 = (n - 8) mod 8" using False by (simp_all add: le_div_geq le_mod_geq)
    ultimately show ?thesis using Cons by (simp add: v_def)
  qed
qed simp

text \<open>The word of at most four bytes.\<close>

definition word_of :: "u8 list \<Rightarrow> u32" where
  "word_of bs = word_of_nat (le_nat bs)"

lemma bit_word_of: "bit (word_of bs) n \<longleftrightarrow> n < 32 \<and> n div 8 < length bs \<and> bit (bs ! (n div 8)) (n mod 8)"
  by (simp add: word_of_def bit_of_nat_iff bit_le_nat)

lemma word_of_append: "word_of (xs @ ys) = word_of xs OR push_bit (8 * length xs) (word_of ys)"
proof (rule bit_eqI)
  fix n
  assume n: "possible_bit TYPE(32 word) n"
  have "n div 8 < length xs \<longleftrightarrow> n < 8 * length xs" by (simp add: div_less_iff_less_mult mult.commute)
  moreover have "(n - 8 * length xs) div 8 = n div 8 - length xs" "(n - 8 * length xs) mod 8 = n mod 8" if "8 * length xs \<le> n"
    using that by (auto simp: div_mult_self4 nat_le_iff_add)
  moreover have "n - 8 * length xs < 32" "n div 8 - length xs < length ys \<longleftrightarrow> n div 8 < length xs + length ys" if "8 * length xs \<le> n"
  proof -
    show "n - 8 * length xs < 32" using n by simp
    have "length xs \<le> n div 8" using that by (simp add: less_eq_div_iff_mult_less_eq mult.commute)
    then show "n div 8 - length xs < length ys \<longleftrightarrow> n div 8 < length xs + length ys" by linarith
  qed
  ultimately show "bit (word_of (xs @ ys)) n = bit (word_of xs OR push_bit (8 * length xs) (word_of ys)) n"
    using n by (auto simp: bit_word_of bit_or_iff bit_push_bit_iff nth_append)
qed

lemma word_of_take4: "word_of (take 4 bs) = word_of bs"
  by (rule bit_eqI) (auto simp: bit_word_of div_less_iff_less_mult)

lemma word_of_one: "word_of [a] = ucast a"
  by (simp add: word_of_def)

lemma drop_word_of:
  assumes "length bs \<le> 4"
  shows "drop_bit (8 * n) (word_of bs) = word_of (drop n bs)"
proof (rule bit_eqI)
  fix i
  have "(8 * n + i) div 8 = n + i div 8" "(8 * n + i) mod 8 = i mod 8" by simp_all
  moreover have "n + i div 8 < length bs \<Longrightarrow> 8 * n + i < 32" using assms by linarith
  ultimately show "bit (drop_bit (8 * n) (word_of bs)) i = bit (word_of (drop n bs)) i"
    by (auto simp: bit_word_of bit_drop_bit_eq)
qed

lemma drop_push_word_of:
  assumes "length p + n \<le> 4"
  shows "drop_bit (8 * n) (push_bit (8 * n) (word_of p)) = word_of p"
proof (rule bit_eqI)
  fix i
  have "i div 8 < length p \<Longrightarrow> 8 * n + i < 32" using assms by linarith
  then show "bit (drop_bit (8 * n) (push_bit (8 * n) (word_of p))) i = bit (word_of p) i"
    by (auto simp: bit_word_of bit_drop_bit_eq bit_push_bit_iff)
qed

lemma le3_cases: "n \<le> 3 \<Longrightarrow> n = 0 \<or> n = Suc 0 \<or> n = Suc (Suc 0) \<or> n = Suc (Suc (Suc (0 :: nat)))"
  by auto

lemma gather_word_of:
  assumes "n \<le> 3" "n \<le> length d"
  shows "gather d n = word_of (take n d)"
proof -
  have three: "word_of [a, b, c] = ucast a OR push_bit 8 (ucast b) OR push_bit 16 (ucast c)" for a b c
    using word_of_append [of "[a]" "[b, c]"] word_of_append [of "[b]" "[c]"] by (simp add: word_of_one push_bit_or)
  have two: "word_of [a, b] = ucast a OR push_bit 8 (ucast b)" for a b
    using word_of_append [of "[a]" "[b]"] by (simp add: word_of_one)
  consider "n = 0" | a xs where "n = Suc 0" "d = a # xs" | a b xs where "n = Suc (Suc 0)" "d = a # b # xs"
    | a b c xs where "n = Suc (Suc (Suc 0))" "d = a # b # c # xs"
    using le3_cases [OF assms(1)] assms(2) by (auto simp: Suc_le_length_iff)
  then show ?thesis
    by cases (auto simp: gather_def two three word_of_one word_of_def [of "[]"] or.assoc or.commute or.left_commute)
qed

lemma tail_word_of:
  assumes "1 \<le> length d" "length d \<le> 3"
  shows "murmur_tail h d = (h XOR word_of d) * murmur_m"
proof -
  have b8: "bit (a :: u8) n \<Longrightarrow> n < 8" for a n using bit_imp_le_length [of a n] by simp
  have x2: "ucast a XOR push_bit 8 (ucast b) = word_of [a, b]" for a b :: u8
    using word_of_append [of "[a]" "[b]"] unfolding word_of_one
    by (intro bit_eqI) (auto simp: bit_xor_iff bit_or_iff bit_push_bit_iff bit_unsigned_iff dest: b8)
  have x3: "(word_of [a, b]) XOR push_bit 16 (ucast c) = word_of [a, b, c]" for a b c :: u8
    using word_of_append [of "[a, b]" "[c]"] unfolding word_of_one
    by (intro bit_eqI) (auto simp: bit_xor_iff bit_or_iff bit_push_bit_iff bit_unsigned_iff bit_word_of dest: b8)
  consider a where "d = [a]" | a b where "d = [a, b]" | a b c where "d = [a, b, c]"
    using le3_cases [OF assms(2)] assms(1) by (auto simp: length_Suc_conv)
  then show ?thesis
  proof cases
    case 3
    have "((h XOR push_bit 16 (ucast c)) XOR push_bit 8 (ucast b)) XOR ucast a = h XOR ((ucast a XOR push_bit 8 (ucast b)) XOR push_bit 16 (ucast c))"
      by (simp add: xor.assoc xor.commute xor.left_commute)
    then show ?thesis using 3 x3 [of a b c, symmetric] x2 [of a b, symmetric] by (simp add: murmur_tail_def)
  next
    case 2
    have "(h XOR push_bit 8 (ucast b)) XOR ucast a = h XOR (ucast a XOR push_bit 8 (ucast b))"
      by (simp add: xor.assoc xor.commute xor.left_commute)
    then show ?thesis using 2 x2 [of a b, symmetric] by (simp add: murmur_tail_def)
  next
    case 1
    then show ?thesis by (simp add: murmur_tail_def word_of_one)
  qed
qed

lemma mixed_word_of:
  assumes "drop_bit (8 * al) t = word_of p" "length p = 4 - al"
  shows "drop_bit (8 * al) t OR push_bit (8 * (4 - al)) (word_of q) = word_of (p @ q)"
  using assms word_of_append [of p q] by simp

lemma load32_word_of: "load32 d = word_of d"
  unfolding load32_def using word_of_take4 [of d] by (simp add: word_of_def)

lemma shifted_aligned:
  assumes "drop_bit (8 * al) t = word_of p" "length p = 4 - al" "1 \<le> al" "al \<le> 3" "murmur_shifted al h t data = (h', t', data')"
  shows "\<exists>p'. drop_bit (8 * al) t' = word_of p' \<and> length p' = 4 - al \<and> length data' < 4 \<and>
    murmur_aligned h (p @ data) = murmur_aligned h' (p' @ data')"
  using assms
proof (induction "length data" arbitrary: h t data p rule: less_induct)
  case less
  show ?case
  proof (cases "length data \<ge> 4")
    case False
    then have "h' = h" "t' = t" "data' = data" using less.prems(5) by (subst (asm) murmur_shifted.simps, simp)+
    then show ?thesis using less.prems(1,2) False by (intro exI [of _ p]) simp
  next
    case True
    define k where "k = drop_bit (8 * al) t OR push_bit (8 * (4 - al)) (load32 data)"
    have k: "k = load32 (p @ data)"
      using mixed_word_of [OF less.prems(1,2), of data] by (simp add: k_def load32_word_of)
    let ?p = "drop al (take 4 data)"
    have sm: "length (drop 4 data) < length data" using True by simp
    have p: "drop_bit (8 * al) (load32 data) = word_of ?p" "length ?p = 4 - al"
      using True drop_word_of [of "take 4 data" al] by (simp_all add: load32_word_of word_of_take4)
    have "murmur_shifted al (MIX h k) (load32 data) (drop 4 data) = (h', t', data')"
      using less.prems(5) True by (subst (asm) murmur_shifted.simps) (simp add: k_def Let_def)
    then obtain p' where p': "drop_bit (8 * al) t' = word_of p'" "length p' = 4 - al" "length data' < 4"
        "murmur_aligned (MIX h k) (?p @ drop 4 data) = murmur_aligned h' (p' @ data')"
      using less.hyps [OF sm p less.prems(3,4)] by blast
    have "drop 4 (p @ data) = drop al data" using less.prems(2,4) by simp
    also have "\<dots> = ?p @ drop 4 data"
      using drop_append [of al "take 4 data" "drop 4 data"] True less.prems(4) by simp
    finally have "murmur_aligned h (p @ data) = murmur_aligned (MIX h k) (?p @ drop 4 data)"
      using True k by (subst murmur_aligned.simps) simp
    then show ?thesis using p' by auto
  qed
qed

text \<open>The hash of a string, wherever it is.\<close>

definition str_hash :: "u8 list \<Rightarrow> u32" where
  "str_hash s = upb_murmur_hash2 0 s 0"

lemma murmur_aligned_short: "length d < 4 \<Longrightarrow> murmur_aligned h d = (h, d)"
  by (subst murmur_aligned.simps) simp

lemma murmur_hash2_addr: "upb_murmur_hash2 addr s 0 = str_hash s"
proof (cases "addr AND 3 \<noteq> 0 \<and> length s \<ge> 4")
  case False
  then show ?thesis by (auto simp: str_hash_def upb_murmur_hash2_def Let_def unat_eq_zero)
next
  case True
  define al where "al = unat (addr AND 3)"
  have "al \<le> unat (3 :: u64)" unfolding al_def by (simp only: word_le_nat_alt [symmetric] word_and_le1)
  moreover have "al \<noteq> 0" using True unfolding al_def unat_eq_zero by simp
  ultimately have al: "1 \<le> al" "al \<le> 3" by simp_all
  define h where "h = (0 :: u32) XOR word_of_nat (length s)"
  define t where "t = push_bit (8 * al) (gather s (4 - al))"
  let ?p = "take (4 - al) s"
  have t: "drop_bit (8 * al) t = word_of ?p" "length ?p = 4 - al"
    unfolding t_def using True al gather_word_of [of "4 - al" s] drop_push_word_of [of ?p al] by auto
  obtain h' t' data where sh: "murmur_shifted al h t (drop (4 - al) s) = (h', t', data)" by (metis prod_cases3)
  obtain p where p: "drop_bit (8 * al) t' = word_of p" "length p = 4 - al" "length data < 4" "murmur_aligned h s = murmur_aligned h' (p @ data)"
    using shifted_aligned [OF t al sh] by auto
  have l: "str_hash s = (case murmur_aligned h s of (h, data) \<Rightarrow> murmur_final (murmur_tail h data))"
    by (simp add: str_hash_def upb_murmur_hash2_def h_def Let_def)
  have r: "upb_murmur_hash2 addr s 0 = (if length data \<ge> al
         then murmur_final (murmur_tail (MIX h' (drop_bit (8 * al) t' OR push_bit (8 * (4 - al)) (gather data al))) (drop al data))
         else murmur_final ((h' XOR (drop_bit (8 * al) t' OR push_bit (8 * (4 - al)) (gather data (length data)))) * murmur_m))"
    using True al sh unfolding upb_murmur_hash2_def Let_def al_def [symmetric] h_def [symmetric] t_def [symmetric] by simp
  show ?thesis
  proof (cases "length data \<ge> al")
    case True
    have "drop_bit (8 * al) t' OR push_bit (8 * (4 - al)) (gather data al) = load32 (p @ data)"
      using mixed_word_of [OF p(1,2), of "take al data"] gather_word_of [OF al(2) True] word_of_take4 [of "p @ data"] p(2) al
      by (simp add: load32_word_of)
    moreover have "murmur_aligned h s = (MIX h' (load32 (p @ data)), drop al data)"
    proof -
      have "length (p @ data) \<ge> 4" "drop 4 (p @ data) = drop al data" "length (drop al data) < 4" using True p(2,3) al by auto
      then show ?thesis unfolding p(4) by (subst murmur_aligned.simps) (simp add: murmur_aligned_short)
    qed
    ultimately show ?thesis using True l r by simp
  next
    case False
    have "murmur_aligned h s = (h', p @ data)" unfolding p(4) by (rule murmur_aligned_short) (use False p(2) al in simp)
    moreover have "drop_bit (8 * al) t' OR push_bit (8 * (4 - al)) (gather data (length data)) = word_of (p @ data)"
      using mixed_word_of [OF p(1,2), of data] gather_word_of [of "length data" data] p(3) by simp
    moreover have "murmur_tail h' (p @ data) = (h' XOR word_of (p @ data)) * murmur_m" using False p(2) al by (intro tail_word_of) auto
    ultimately show ?thesis using False l r by simp
  qed
qed

end
