(* ===== verification/Upb_Str_Spec.thy ===== *)
theory Upb_Str_Spec
  imports Upb_Compact_Spec Upb_Hash_Spec
begin

text \<open>
  The string tables. Their keys are copies in a heap, so the contract \<open>table_keys\<close> is interpreted for every heap, and a
  table keeps its invariant and its map when blocks of other keys come and go. A resize inserts every key again and then frees the
  old copies; the runs of the operations are at the end.
\<close>

section \<open>Key copies\<close>

lemma find_holds: "find P xs = Some x \<Longrightarrow> P x"
  by (induction xs) (auto split: if_splits)

lemma fresh_addr_works:
  assumes n: "length m < 2 ^ 62"
  shows "fresh_addr m \<noteq> 0" "fresh_addr m \<notin> fst ` set m"
proof -
  let ?c = "map word_of_nat [1..<length m + 2] :: u64 list"
  have "\<exists>a \<in> set ?c. a \<noteq> 0 \<and> a \<notin> fst ` set m"
  proof (rule ccontr)
    assume a: "\<not> ?thesis"
    have u: "unat (word_of_nat i :: u64) = i" if "i \<in> {1..<length m + 2}" for i using that n by (intro unat_of_nat_u64) simp
    have inj: "inj_on (word_of_nat :: nat \<Rightarrow> u64) {1..<length m + 2}" by (rule inj_on_inverseI [of _ unat]) (rule u)
    have nz: "(word_of_nat i :: u64) \<noteq> 0" if "i \<in> {1..<length m + 2}" for i
    proof
      assume "(word_of_nat i :: u64) = 0"
      then have "unat (word_of_nat i :: u64) = 0" by (simp only: unat_0)
      then show False unfolding u [OF that] using that by simp
    qed
    have "x \<in> fst ` set m" if x: "x \<in> word_of_nat ` {1..<length m + 2}" for x
    proof -
      obtain i where i: "i \<in> {1..<length m + 2}" "x = word_of_nat i" using x by blast
      then have "x \<in> set ?c" unfolding set_map set_upt by blast
      then show ?thesis using a nz [OF i(1)] i(2) by blast
    qed
    then have "word_of_nat ` {1..<length m + 2} \<subseteq> fst ` set m" by blast
    then have "card (word_of_nat ` {1..<length m + 2} :: u64 set) \<le> card (fst ` set m)" by (intro card_mono) auto
    also have "\<dots> \<le> length m" by (metis card_length length_map set_map)
    also have "card (word_of_nat ` {1..<length m + 2} :: u64 set) = length m + 1"
      unfolding card_image [OF inj] card_atLeastLessThan by arith
    finally show False by simp
  qed
  then have "find (\<lambda>a. a \<noteq> 0 \<and> a \<notin> fst ` set m) ?c \<noteq> None" unfolding find_None_iff by blast
  then obtain a where a: "find (\<lambda>a. a \<noteq> 0 \<and> a \<notin> fst ` set m) ?c = Some a" unfolding not_None_eq ..
  then have "a \<noteq> 0 \<and> a \<notin> fst ` set m" by (rule find_holds)
  then show "fresh_addr m \<noteq> 0" "fresh_addr m \<notin> fst ` set m" using a by (simp_all add: fresh_addr_def)
qed

definition copy_of :: "u8 list \<Rightarrow> u8 list" where
  "copy_of k = le_bytes 4 (length k) @ k @ [0]"

text \<open>The bytes of a key copy.\<close>

definition copy_size :: "u8 list \<Rightarrow> u64" where
  "copy_size k = word_of_nat (length k) + 5"

lemma strcopy_eq:
  assumes "length m < 2 ^ 62"
  shows "strcopy mem k m = (if mem (copy_size k) then (fresh_addr m, (fresh_addr m, copy_of k) # m) else (0, m))"
  using fresh_addr_works(1) [OF assms]
  by (simp add: strcopy_def heap_alloc_def copy_of_def copy_size_def Let_def add.assoc)

lemma tabstr_copy: "length k < 2 ^ 32 \<Longrightarrow> map_of m a = Some (copy_of k) \<Longrightarrow> upb_tabstr m a = Some k"
  by (simp add: upb_tabstr_def copy_of_def le_nat_le_bytes Let_def)

lemma tabstr_length:
  assumes "upb_tabstr m a = Some k"
  shows "length k < 2 ^ 32"
proof -
  obtain blk where "k = take (le_nat (take 4 blk)) (drop 4 blk)"
    using assms by (auto simp: upb_tabstr_def Let_def bind_eq_Some_conv split: if_splits)
  then have "length k \<le> le_nat (take 4 blk)" by simp
  also have "\<dots> < 256 ^ length (take 4 blk)" by (rule le_nat_bound)
  also have "\<dots> \<le> 256 ^ 4" by (intro power_increasing) auto
  finally show ?thesis by simp
qed

lemma tabstr_cong: "map_of m' a = map_of m a \<Longrightarrow> upb_tabstr m' a = upb_tabstr m a"
  by (simp add: upb_tabstr_def)

interpretation strs: table_keys "upb_tabstr m" str_hash "strhash m" "streql m" for m
  by unfold_locales (auto simp: strhash_def streql_def murmur_hash2_addr)

section \<open>Tables over a changing heap\<close>

definition keys_of :: "upb_table \<Rightarrow> u64 set" where
  "keys_of t = fst ` set_mset (pairs (t_entries t))"

lemma scatter_cong:
  assumes "\<And>i. occupied es i \<Longrightarrow> pos' (e_key (es ! i)) = pos (e_key (es ! i))"
  shows "scatter pos' es = scatter pos es"
  using assms unfolding scatter_def by (intro ext) metis

lemma occupied_keys_of: "occupied (t_entries t) i \<Longrightarrow> e_key (t_entries t ! i) \<in> keys_of t"
  unfolding keys_of_def using pairs_in by force

lemma keys_of_entries: "keys_of t = {e_key e | e. e \<in> set (t_entries t) \<and> e_key e \<noteq> 0}"
  unfolding keys_of_def pairs_def by (auto simp: image_iff)

lemma tab_wf_cong:
  assumes k: "\<And>a. a \<in> keys_of t \<Longrightarrow> K' a = K a"
  shows "tab_wf K' H t = tab_wf K H t"
proof -
  have "image_mset (\<lambda>p. K' (fst p)) (pairs (t_entries t)) = image_mset (\<lambda>p. K (fst p)) (pairs (t_entries t))"
    using k by (intro image_mset_cong) (auto simp: keys_of_def)
  moreover have "(\<forall>p \<in># pairs (t_entries t). K' (fst p) \<noteq> None) = (\<forall>p \<in># pairs (t_entries t). K (fst p) \<noteq> None)"
    using k by (auto simp: keys_of_def)
  moreover have "scatter (\<lambda>a. slot_pos t (H (the (K' a)))) (t_entries t) = scatter (\<lambda>a. slot_pos t (H (the (K a)))) (t_entries t)"
    by (rule scatter_cong) (simp add: k [OF occupied_keys_of])
  ultimately show ?thesis unfolding tab_wf_def by simp
qed

lemma tab_map_cong:
  assumes k: "\<And>a. a \<in> keys_of t \<Longrightarrow> K' a = K a"
  shows "tab_map K' t = tab_map K t"
proof -
  have "K' (e_key e) = K (e_key e)" if "e \<in> set (t_entries t)" "e_key e \<noteq> 0" for e
    using k [of "e_key e"] that unfolding keys_of_entries by blast
  then show ?thesis unfolding tab_map_def by (intro arg_cong [of _ _ map_of] map_cong) auto
qed

definition heap_ok :: "heap \<Rightarrow> bool" where
  "heap_ok m \<longleftrightarrow> distinct (map fst m) \<and> 0 \<notin> fst ` set m"

lemma tab_wf_grow:
  assumes "keys_of t \<subseteq> fst ` set m" "a \<notin> fst ` set m"
  shows "tab_wf (upb_tabstr ((a, b) # m)) H t = tab_wf (upb_tabstr m) H t" "tab_map (upb_tabstr ((a, b) # m)) t = tab_map (upb_tabstr m) t"
proof -
  have x: "upb_tabstr ((a, b) # m) x = upb_tabstr m x" if "x \<in> keys_of t" for x using assms that by (intro tabstr_cong) auto
  show "tab_wf (upb_tabstr ((a, b) # m)) H t = tab_wf (upb_tabstr m) H t" by (rule tab_wf_cong [OF x])
  show "tab_map (upb_tabstr ((a, b) # m)) t = tab_map (upb_tabstr m) t" by (rule tab_map_cong [OF x])
qed

section \<open>Insertion into a table that is not full\<close>

lemma copy_insert:
  assumes t: "tab_wf (upb_tabstr m) str_hash t" "keys_of t \<subseteq> fst ` set m" and h: "heap_ok m" "length m < 2 ^ 62"
    and k: "length k < 2 ^ 32" "tab_map (upb_tabstr m) t k = None" "v_ctype v = t_ctype t"
    and room: "size (pairs (t_entries t)) < length (t_entries t)"
  defines "a \<equiv> fresh_addr m"
  defines "m' \<equiv> (a, copy_of k) # m"
  shows "heap_ok m' \<and> (\<exists>t'. tab_insert (streql m' k) (strhash m') a v (upb_murmur_hash2 ka k 0) t = Some t' \<and> tab_wf (upb_tabstr m') str_hash t' \<and>
    tab_map (upb_tabstr m') t' = (tab_map (upb_tabstr m) t)(k \<mapsto> v) \<and> keys_of t' = insert a (keys_of t) \<and> t_ctype t' = t_ctype t \<and>
    t_size_lg2 t' = t_size_lg2 t \<and> size (pairs (t_entries t')) = Suc (size (pairs (t_entries t))))"
proof -
  have a: "a \<noteq> 0" "a \<notin> fst ` set m" using fresh_addr_works [OF h(2)] a_def by auto
  note g = tab_wf_grow(1) [OF t(2) a(2), of "copy_of k" str_hash, folded m'_def] tab_wf_grow(2) [OF t(2) a(2), of "copy_of k", folded m'_def]
  have s: "upb_tabstr m' a = Some k" using k(1) by (intro tabstr_copy) (auto simp: m'_def)
  obtain t' where "tab_insert (streql m' k) (strhash m') a v (str_hash k) t = Some t'" "tab_wf (upb_tabstr m') str_hash t'"
      "tab_map (upb_tabstr m') t' = (tab_map (upb_tabstr m') t)(k \<mapsto> v)"
      "pairs (t_entries t') = add_mset (a, v_val v) (pairs (t_entries t))" "t_ctype t' = t_ctype t" "t_size_lg2 t' = t_size_lg2 t"
    using strs.insert_map [of m' t a k v] g t(1) s a(1) k(2,3) room by auto
  moreover have "heap_ok m'" using h(1) a by (auto simp: heap_ok_def m'_def)
  ultimately show ?thesis using g by (auto simp: murmur_hash2_addr keys_of_def)
qed

lemma strtable_insert_room:
  assumes t: "tab_wf (upb_tabstr m) str_hash t" "keys_of t \<subseteq> fst ` set m" and h: "heap_ok m" "length m < 2 ^ 62"
    and k: "length k < 2 ^ 32" "tab_map (upb_tabstr m) t k = None" "v_ctype v = t_ctype t" and f: "\<not> isfull t"
  shows "\<exists>t' m'. strtable_insert (Suc n) mem ka k v t m = Some (mem (copy_size k), t', m') \<and>
    (if mem (copy_size k) then m' = (fresh_addr m, copy_of k) # m else m' = m \<and> t' = t) \<and> heap_ok m' \<and>
    tab_wf (upb_tabstr m') str_hash t' \<and> keys_of t' = (if mem (copy_size k) then insert (fresh_addr m) (keys_of t) else keys_of t) \<and>
    tab_map (upb_tabstr m') t' = (if mem (copy_size k) then (tab_map (upb_tabstr m) t)(k \<mapsto> v) else tab_map (upb_tabstr m) t) \<and>
    t_ctype t' = t_ctype t \<and> t_size_lg2 t' = t_size_lg2 t \<and> size (pairs (t_entries t')) \<le> Suc (size (pairs (t_entries t)))"
proof (cases "mem (copy_size k)")
  case False
  then show ?thesis using t h f by (simp add: strcopy_eq)
next
  case True
  have "size (pairs (t_entries t)) < length (t_entries t)" using not_isfull [OF t(1) f] by simp
  note c = copy_insert [OF t h k this, of ka]
  then show ?thesis using True f fresh_addr_works(1) [OF h(2)] h(2) by (auto simp: strcopy_eq)
qed

section \<open>Resizing\<close>

text \<open>
  A state of the loop: the old table with its keys in the heap, the new table, whose keys are other blocks, and no other
  blocks. \<open>kept\<close> is the part of the map whose copies can be allocated.
\<close>

definition resizing :: "upb_table \<Rightarrow> upb_table \<Rightarrow> heap \<Rightarrow> bool" where
  "resizing t nt m \<longleftrightarrow> heap_ok m \<and> tab_wf (upb_tabstr m) str_hash t \<and> tab_wf (upb_tabstr m) str_hash nt \<and> t_ctype nt = t_ctype t \<and>
     fst ` set m = keys_of t \<union> keys_of nt \<and> keys_of t \<inter> keys_of nt = {}"

lemma size_keys_of:
  assumes "tab_wf K H t"
  shows "card (keys_of t) = size (pairs (t_entries t))"
proof -
  let ?l = "map e_key (filter (\<lambda>e. e_key e \<noteq> 0) (t_entries t))"
  have d: "distinct ?l"
    using tab_keys_distinct [OF assms] by (auto simp: distinct_map inj_on_def)
  have "keys_of t = set ?l" unfolding keys_of_entries by auto
  then have "card (keys_of t) = length ?l" using distinct_card [OF d] by simp
  also have "\<dots> = size (pairs (t_entries t))" unfolding pairs_def by (simp only: size_mset length_map)
  finally show ?thesis .
qed

lemma heap_length:
  assumes "heap_ok m" "fst ` set m = A"
  shows "length m = card A"
  using assms distinct_card [of "map fst m"] by (simp add: heap_ok_def)

lemma resize_loop_works:
  assumes "resizing t nt m" "distinct is" "\<forall>i \<in> set is. occupied (t_entries t) i"
    and "\<forall>i \<in> set is. tab_map (upb_tabstr m) nt (the (upb_tabstr m (e_key (t_entries t ! i)))) = None"
    and "size (pairs (t_entries nt)) + length is \<le> n" "n > 0 \<longrightarrow> 20 * n < 17 * 2 ^ unat (t_size_lg2 nt) \<and> t_size_lg2 nt \<noteq> 0"
    and "size (pairs (t_entries t)) \<le> 2 ^ 30"
  shows "\<exists>nt' m'. resize_loop (strtable_insert (Suc f) mem) t is nt m = Some (nt', m') \<and> resizing t nt' m' \<and>
    t_size_lg2 nt' = t_size_lg2 nt \<and> size (pairs (t_entries nt')) \<le> size (pairs (t_entries nt)) + length is \<and>
    (\<forall>a \<in> keys_of t. upb_tabstr m' a = upb_tabstr m a) \<and>
    (\<forall>k w. tab_map (upb_tabstr m') nt' k = Some w \<longleftrightarrow> tab_map (upb_tabstr m) nt k = Some w \<or>
      (\<exists>i \<in> set is. upb_tabstr m (e_key (t_entries t ! i)) = Some k \<and> mem (copy_size k) \<and> w = upb_value_val (e_val (t_entries t ! i)) (t_ctype t)))"
  using assms
proof (induction "is" arbitrary: nt m)
  case Nil
  then show ?case by simp
next
  case (Cons i js)
  let ?es = "t_entries t" and ?e = "t_entries t ! i"
  have r: "heap_ok m" "tab_wf (upb_tabstr m) str_hash t" "tab_wf (upb_tabstr m) str_hash nt" "t_ctype nt = t_ctype t"
      "fst ` set m = keys_of t \<union> keys_of nt" "keys_of t \<inter> keys_of nt = {}"
    using Cons.prems(1) by (auto simp: resizing_def)
  have o: "occupied ?es i" using Cons.prems(3) by simp
  obtain k where k: "upb_tabstr m (e_key ?e) = Some k" using occupied_key [OF r(2) o] by blast
  have n: "n > 0" "20 * Suc (size (pairs (t_entries nt))) < 17 * 2 ^ unat (t_size_lg2 nt)" "t_size_lg2 nt \<noteq> 0"
    using Cons.prems(5,6) by simp_all
  have nf: "\<not> isfull nt" by (rule not_isfull_room [OF r(3) n(2,3)])
  have "card (fst ` set m) \<le> card (keys_of t) + card (keys_of nt)" unfolding r(5) by (rule card_Un_le)
  moreover have "size (pairs (t_entries nt)) \<le> 2 ^ 30"
    using pairs_le [of "t_entries nt"] tab_wf_D(2) [OF r(3)] table_size_le [OF tab_wf_D(1) [OF r(3)]] by simp
  ultimately have hl: "length m < 2 ^ 62" using heap_length [OF r(1) refl] size_keys_of [OF r(2)] size_keys_of [OF r(3)] Cons.prems(7) by simp
  let ?v = "upb_value_val (e_val ?e) (t_ctype t)"
  have kn: "tab_map (upb_tabstr m) nt k = None" using Cons.prems(4) k by simp
  have sub: "keys_of nt \<subseteq> fst ` set m" using r(5) by simp
  have vc: "v_ctype ?v = t_ctype nt" using r(4) by (simp add: upb_value_val_def)
  obtain nt1 m1 where i1: "strtable_insert (Suc f) mem (e_key ?e + 4) k ?v nt m = Some (mem (copy_size k), nt1, m1)"
      "if mem (copy_size k) then m1 = (fresh_addr m, copy_of k) # m else m1 = m \<and> nt1 = nt" "heap_ok m1"
      "tab_wf (upb_tabstr m1) str_hash nt1" "keys_of nt1 = (if mem (copy_size k) then insert (fresh_addr m) (keys_of nt) else keys_of nt)"
      "tab_map (upb_tabstr m1) nt1 = (if mem (copy_size k) then (tab_map (upb_tabstr m) nt)(k \<mapsto> ?v) else tab_map (upb_tabstr m) nt)"
      "t_ctype nt1 = t_ctype nt" "t_size_lg2 nt1 = t_size_lg2 nt" "size (pairs (t_entries nt1)) \<le> Suc (size (pairs (t_entries nt)))"
    using strtable_insert_room [OF r(3) sub r(1) hl tabstr_length [OF k] kn vc nf] by blast
  have fa: "fresh_addr m \<notin> fst ` set m" by (rule fresh_addr_works(2) [OF hl])
  have same: "upb_tabstr m1 a = upb_tabstr m a" if "a \<in> keys_of t" for a
  proof (cases "mem (copy_size k)")
    case True
    have "a \<noteq> fresh_addr m" using that fa r(5) by auto
    then show ?thesis using i1(2) True by (intro tabstr_cong) simp
  qed (use i1(2) in simp)
  have "tab_wf (upb_tabstr m1) str_hash t" using tab_wf_cong [where K' = "upb_tabstr m1" and K = "upb_tabstr m", OF same] r(2) by simp
  then have rs: "resizing t nt1 m1" unfolding resizing_def using i1 r fa by (auto split: if_splits)
  have ko: "upb_tabstr m1 (e_key (?es ! j)) = upb_tabstr m (e_key (?es ! j))" if "occupied ?es j" for j
    by (rule same) (rule occupied_keys_of [OF that])
  have ne: "upb_tabstr m (e_key (?es ! j)) \<noteq> Some k" if "j \<in> set js" for j
    using occupied_inj [OF r(2), of j i] Cons.prems(2,3) that k by auto
  have "\<exists>nt' m'. resize_loop (strtable_insert (Suc f) mem) t js nt1 m1 = Some (nt', m') \<and> resizing t nt' m' \<and>
    t_size_lg2 nt' = t_size_lg2 nt1 \<and> size (pairs (t_entries nt')) \<le> size (pairs (t_entries nt1)) + length js \<and>
    (\<forall>a \<in> keys_of t. upb_tabstr m' a = upb_tabstr m1 a) \<and>
    (\<forall>k w. tab_map (upb_tabstr m') nt' k = Some w \<longleftrightarrow> tab_map (upb_tabstr m1) nt1 k = Some w \<or>
      (\<exists>i \<in> set js. upb_tabstr m1 (e_key (t_entries t ! i)) = Some k \<and> mem (copy_size k) \<and> w = upb_value_val (e_val (t_entries t ! i)) (t_ctype t)))"
  proof (rule Cons.IH [OF rs])
    show "\<forall>i \<in> set js. tab_map (upb_tabstr m1) nt1 (the (upb_tabstr m1 (e_key (?es ! i)))) = None"
    proof
      fix j
      assume j: "j \<in> set js"
      then have oj: "occupied ?es j" using Cons.prems(3) by simp
      obtain k' where k': "upb_tabstr m (e_key (?es ! j)) = Some k'" using occupied_key [OF r(2) oj] by blast
      have "k' \<noteq> k" using ne [OF j] k' by auto
      moreover have "tab_map (upb_tabstr m) nt k' = None" using Cons.prems(4) j k' by fastforce
      ultimately show "tab_map (upb_tabstr m1) nt1 (the (upb_tabstr m1 (e_key (?es ! j)))) = None"
        unfolding ko [OF oj] k' i1(6) by simp
    qed
  qed (use Cons.prems i1(8,9) in auto)
  then obtain nt' m' where x: "resize_loop (strtable_insert (Suc f) mem) t js nt1 m1 = Some (nt', m')" "resizing t nt' m'"
      "t_size_lg2 nt' = t_size_lg2 nt1" "size (pairs (t_entries nt')) \<le> size (pairs (t_entries nt1)) + length js"
      "\<forall>a \<in> keys_of t. upb_tabstr m' a = upb_tabstr m1 a"
      "\<forall>k w. tab_map (upb_tabstr m') nt' k = Some w \<longleftrightarrow> tab_map (upb_tabstr m1) nt1 k = Some w \<or>
      (\<exists>i \<in> set js. upb_tabstr m1 (e_key (t_entries t ! i)) = Some k \<and> mem (copy_size k) \<and> w = upb_value_val (e_val (t_entries t ! i)) (t_ctype t))"
    by blast
  have "tab_map (upb_tabstr m') nt' j = Some w \<longleftrightarrow> tab_map (upb_tabstr m) nt j = Some w \<or>
      (\<exists>i \<in> set (i # js). upb_tabstr m (e_key (t_entries t ! i)) = Some j \<and> mem (copy_size j) \<and> w = upb_value_val (e_val (t_entries t ! i)) (t_ctype t))" for j w
  proof -
    have "upb_tabstr m1 (e_key (?es ! l)) = upb_tabstr m (e_key (?es ! l))" if "l \<in> set js" for l using ko Cons.prems(3) that by simp
    then have "(\<exists>i \<in> set js. upb_tabstr m1 (e_key (?es ! i)) = Some j \<and> mem (copy_size j) \<and> w = upb_value_val (e_val (?es ! i)) (t_ctype t)) \<longleftrightarrow>
        (\<exists>i \<in> set js. upb_tabstr m (e_key (?es ! i)) = Some j \<and> mem (copy_size j) \<and> w = upb_value_val (e_val (?es ! i)) (t_ctype t))" by auto
    moreover have "tab_map (upb_tabstr m1) nt1 j = Some w \<longleftrightarrow> tab_map (upb_tabstr m) nt j = Some w \<or> j = k \<and> mem (copy_size k) \<and> w = ?v"
      unfolding i1(6) using kn by auto
    ultimately show ?thesis using x(6) [rule_format, of j w] k by auto
  qed
  moreover have "resize_loop (strtable_insert (Suc f) mem) t (i # js) nt m = Some (nt', m')"
    using k i1(1) x(1) by (simp add: Let_def del: strtable_insert.simps)
  moreover have "\<forall>a \<in> keys_of t. upb_tabstr m' a = upb_tabstr m a" using x(5) same by simp
  moreover have "size (pairs (t_entries nt')) \<le> size (pairs (t_entries nt)) + length (i # js)" using x(4) i1(9) by simp
  moreover have "t_size_lg2 nt' = t_size_lg2 nt" using x(3) i1(8) by simp
  ultimately show ?case using x(2) by blast
qed

lemma free_keys_works:
  assumes "distinct (map e_key (filter (\<lambda>e. e_key e \<noteq> 0) es))" "\<forall>e \<in> set es. e_key e \<noteq> 0 \<longrightarrow> e_key e \<in> fst ` set m"
  shows "free_keys es m = Some (filter (\<lambda>(a, b). a \<notin> e_key ` set es \<or> a = 0) m)"
  using assms
proof (induction es arbitrary: m)
  case Nil
  then show ?case by (simp add: case_prod_unfold)
next
  case (Cons e es)
  show ?case
  proof (cases "e_key e = 0")
    case True
    then have "free_keys (e # es) m = Some (filter (\<lambda>(a, b). a \<notin> e_key ` set es \<or> a = 0) m)"
      using Cons by (simp add: heap_free_def)
    also have "filter (\<lambda>(a, b). a \<notin> e_key ` set es \<or> a = 0) m = filter (\<lambda>(a, b). a \<notin> e_key ` set (e # es) \<or> a = 0) m"
      using True by (intro filter_cong) auto
    finally show ?thesis .
  next
    case False
    let ?m = "filter (\<lambda>(b, _). b \<noteq> e_key e) m"
    have "\<forall>x \<in> set es. e_key x \<noteq> 0 \<longrightarrow> e_key x \<in> fst ` set ?m"
    proof (intro ballI impI)
      fix x
      assume x: "x \<in> set es" "e_key x \<noteq> 0"
      then have "e_key x \<noteq> e_key e" using Cons.prems(1) False by (auto simp: image_iff)
      moreover obtain b where "(e_key x, b) \<in> set m" using Cons.prems(2) x by force
      ultimately show "e_key x \<in> fst ` set ?m" by (force simp: image_iff)
    qed
    then have "free_keys es ?m = Some (filter (\<lambda>(a, b). a \<notin> e_key ` set es \<or> a = 0) ?m)" using Cons False by simp
    moreover have "heap_free (e_key e) m = Some ?m" using Cons.prems(2) False by (simp add: heap_free_def)
    moreover have "filter (\<lambda>(a, b). a \<notin> e_key ` set es \<or> a = 0) ?m = filter (\<lambda>(a, b). a \<notin> e_key ` set (e # es) \<or> a = 0) m"
      unfolding filter_filter using False by (intro filter_cong) auto
    ultimately show ?thesis by simp
  qed
qed

section \<open>String tables\<close>

text \<open>The blocks of the heap are the key copies of the table.\<close>

definition str_wf :: "upb_table \<Rightarrow> heap \<Rightarrow> bool" where
  "str_wf t m \<longleftrightarrow> tab_wf (upb_tabstr m) str_hash t \<and> heap_ok m \<and> fst ` set m = keys_of t \<and> t_size_lg2 t \<noteq> 0"

definition str_map :: "upb_table \<Rightarrow> heap \<Rightarrow> u8 list \<Rightarrow> upb_value option" where
  "str_map t m = tab_map (upb_tabstr m) t"

lemma map_of_filter_key: "P a \<Longrightarrow> map_of (filter (\<lambda>(b, _). P b) m) a = map_of m a"
  by (induction m) auto

lemma distinct_entry_keys: "tab_wf K H t \<Longrightarrow> distinct (map e_key (filter (\<lambda>e. e_key e \<noteq> 0) (t_entries t)))"
  using tab_keys_distinct [of K H t] by (auto simp: distinct_map inj_on_def)

lemma uninit_works:
  assumes t: "tab_wf K H t" "keys_of t \<subseteq> fst ` set m" and h: "heap_ok m"
  shows "upb_strtable_uninit2 t m = Some (filter (\<lambda>(a, _). a \<notin> keys_of t) m)"
proof -
  have "\<forall>e \<in> set (t_entries t). e_key e \<noteq> 0 \<longrightarrow> e_key e \<in> fst ` set m" using t(2) unfolding keys_of_entries by auto
  then have "upb_strtable_uninit2 t m = Some (filter (\<lambda>(a, b). a \<notin> e_key ` set (t_entries t) \<or> a = 0) m)"
    unfolding upb_strtable_uninit2_def by (rule free_keys_works [OF distinct_entry_keys [OF t(1)]])
  also have "filter (\<lambda>(a, b). a \<notin> e_key ` set (t_entries t) \<or> a = 0) m = filter (\<lambda>(a, _). a \<notin> keys_of t) m"
    using h unfolding heap_ok_def by (intro filter_cong) (auto simp: keys_of_entries image_iff)
  finally show ?thesis .
qed

lemma next_lg2:
  assumes "lg + 1 \<le> (30 :: u8)" "lg + 1 \<noteq> 0"
  shows "ucast (ucast lg + 1 :: u64) = lg + 1"
proof -
  have "unat lg < 255"
  proof (rule ccontr)
    assume "\<not> unat lg < 255"
    then have "unat lg = 255" using unat_u8_le [of lg] by simp
    then have "unat (lg + 1) = 0" by (simp add: unat_word_ariths)
    then show False using assms(2) unfolding unat_eq_zero by simp
  qed
  then have "unat (ucast lg + 1 :: u64) = Suc (unat lg)" "unat (lg + 1) = Suc (unat lg)"
    by (simp_all add: unat_word_ariths unsigned_ucast_eq take_bit_nat_eq_self)
  moreover from this have "unat (ucast (ucast lg + 1 :: u64) :: u8) = Suc (unat lg)"
    using \<open>unat lg < 255\<close> by (simp add: unsigned_ucast_eq take_bit_nat_eq_self)
  ultimately show ?thesis by (simp add: word_unat_eq_iff)
qed

lemma resize_works:
  assumes w: "str_wf t m" and f: "isfull t" and n: "size (pairs (t_entries t)) < 2 ^ 28"
  shows "if mem (entries_bytes (t_size_lg2 t + 1))
    then \<exists>nt m'. strtable_resize (strtable_insert (Suc d) mem) mem (ucast (t_size_lg2 t) + 1) t m = Some (True, nt, m') \<and>
      str_wf nt m' \<and> str_map nt m' = str_map t m |` {k. mem (copy_size k)} \<and> t_ctype nt = t_ctype t \<and> t_size_lg2 nt = t_size_lg2 t + 1 \<and>
      size (pairs (t_entries nt)) \<le> size (pairs (t_entries t))
    else strtable_resize (strtable_insert (Suc d) mem) mem (ucast (t_size_lg2 t) + 1) t m = Some (False, t, m)"
proof -
  have t: "tab_wf (upb_tabstr m) str_hash t" "heap_ok m" "fst ` set m = keys_of t" using w by (auto simp: str_wf_def)
  note s = isfull_small [OF t(1) f n]
  note init = tab_init_fresh [OF s(1), of mem "t_ctype t"]
  note lg = next_lg2 [OF s(1,2)]
  show ?thesis
  proof (cases "mem (entries_bytes (t_size_lg2 t + 1))")
    case False
    then show ?thesis using init s(2) unfolding strtable_resize_def lg by simp
  next
    case True
    let ?f = "fresh_table (t_ctype t) (t_size_lg2 t + 1)"
    let ?is = "filter (occupied (t_entries t)) [0..<length (t_entries t)]"
    note fp = fresh_table_props [OF s(1,2), of "t_ctype t"]
    have fw: "tab_wf K str_hash ?f" "tab_map K ?f = Map.empty" for K
      by (rule fresh_table_wf(1) [OF s(1)], rule fresh_table_wf(2) [OF s(1)])
    have "keys_of ?f = {}" unfolding keys_of_def fp by simp
    then have r: "resizing t ?f m" unfolding resizing_def using t fw fp by simp
    have li: "length ?is = size (pairs (t_entries t))"
      using arg_cong [OF mset_occupied [of "t_entries t"], of size] by (simp del: mset_map mset_filter)
    have "size (pairs (t_entries t)) \<le> 2 ^ unat (t_size_lg2 t)"
      using pairs_le [of "t_entries t"] tab_wf_D(2) [OF t(1)] table_size_nat [OF tab_wf_D(1) [OF t(1)]] by (auto split: if_splits)
    moreover have "(0 :: nat) < 2 ^ unat (t_size_lg2 t)" by simp
    ultimately have room: "20 * size (pairs (t_entries t)) < 17 * 2 ^ unat (t_size_lg2 ?f)" unfolding fp(4) s(3) power_Suc by linarith
    have "\<exists>nt m'. resize_loop (strtable_insert (Suc d) mem) t ?is ?f m = Some (nt, m') \<and> resizing t nt m' \<and>
      t_size_lg2 nt = t_size_lg2 ?f \<and> size (pairs (t_entries nt)) \<le> size (pairs (t_entries ?f)) + length ?is \<and>
      (\<forall>a \<in> keys_of t. upb_tabstr m' a = upb_tabstr m a) \<and>
      (\<forall>k w. tab_map (upb_tabstr m') nt k = Some w \<longleftrightarrow> tab_map (upb_tabstr m) ?f k = Some w \<or>
        (\<exists>i \<in> set ?is. upb_tabstr m (e_key (t_entries t ! i)) = Some k \<and> mem (copy_size k) \<and> w = upb_value_val (e_val (t_entries t ! i)) (t_ctype t)))"
      by (rule resize_loop_works [OF r, where n = "size (pairs (t_entries t))"]) (use n room s(2) fw(2) fp(2,4) li in auto)
    then obtain nt m' where x: "resize_loop (strtable_insert (Suc d) mem) t ?is ?f m = Some (nt, m')" "resizing t nt m'"
        "t_size_lg2 nt = t_size_lg2 t + 1" "size (pairs (t_entries nt)) \<le> size (pairs (t_entries t))"
        "\<forall>k w. tab_map (upb_tabstr m') nt k = Some w \<longleftrightarrow> (\<exists>i \<in> set ?is. upb_tabstr m (e_key (t_entries t ! i)) = Some k \<and>
          mem (copy_size k) \<and> w = upb_value_val (e_val (t_entries t ! i)) (t_ctype t))"
      using fw(2) fp(2,4) li by auto
    have y: "heap_ok m'" "tab_wf (upb_tabstr m') str_hash t" "tab_wf (upb_tabstr m') str_hash nt" "t_ctype nt = t_ctype t"
        "fst ` set m' = keys_of t \<union> keys_of nt" "keys_of t \<inter> keys_of nt = {}"
      using x(2) by (auto simp: resizing_def)
    let ?m = "filter (\<lambda>(a, _). a \<notin> keys_of t) m'"
    have un: "upb_strtable_uninit2 t m' = Some ?m" by (rule uninit_works [OF y(2) _ y(1)]) (use y(5) in simp)
    have same: "upb_tabstr ?m a = upb_tabstr m' a" if "a \<in> keys_of nt" for a
      using that y(6) by (intro tabstr_cong map_of_filter_key [where P = "\<lambda>a. a \<notin> keys_of t"]) auto
    have ok: "heap_ok ?m" using y(1) by (auto simp: heap_ok_def distinct_map_filter)
    have "fst ` set ?m = fst ` set m' - keys_of t" by force
    then have dom: "fst ` set ?m = keys_of nt" using y(5,6) by auto
    have wf: "str_wf nt ?m"
      unfolding str_wf_def using tab_wf_cong [where K' = "upb_tabstr ?m" and K = "upb_tabstr m'", OF same] y(3) ok dom x(3) s(2) by simp
    have mp: "str_map nt ?m = tab_map (upb_tabstr m') nt"
      unfolding str_map_def by (rule tab_map_cong [OF same])
    have "tab_map (upb_tabstr m') nt k = Some w \<longleftrightarrow> (str_map t m |` {k. mem (copy_size k)}) k = Some w" for k w
    proof -
      have "(\<exists>i \<in> set ?is. upb_tabstr m (e_key (t_entries t ! i)) = Some k \<and> w = upb_value_val (e_val (t_entries t ! i)) (t_ctype t)) \<longleftrightarrow>
          str_map t m k = Some w"
        unfolding str_map_def tab_map_iff [OF t(1)] pairs_in by (cases w) (auto simp: upb_value_val_def occupied_def)
      then show ?thesis using x(5) by (auto simp: restrict_map_def)
    qed
    then have "str_map nt ?m = str_map t m |` {k. mem (copy_size k)}" unfolding mp by (intro ext) (metis option.exhaust)
    moreover have "strtable_resize (strtable_insert (Suc d) mem) mem (ucast (t_size_lg2 t) + 1) t m = Some (True, nt, ?m)"
      unfolding strtable_resize_def lg using init True s(2) x(1) visited_occupied [OF t(1)] un by (simp add: upb_strtable_begin_def del: strtable_insert.simps)
    ultimately show ?thesis using True wf x(3,4) y(4) by auto
  qed
qed

text \<open>What an insertion does to the map, the growth of a full table included.\<close>

definition str_grown :: "(u64 \<Rightarrow> bool) \<Rightarrow> upb_table \<Rightarrow> (u8 list \<Rightarrow> upb_value option) \<Rightarrow> u8 list \<Rightarrow> upb_value option" where
  "str_grown mem t M = (if isfull t \<and> mem (entries_bytes (t_size_lg2 t + 1)) then M |` {k. mem (copy_size k)} else M)"

lemma strtable_insert_map:
  assumes w: "str_wf t m" and k: "str_map t m k = None" "length k < 2 ^ 32" "v_ctype v = t_ctype t" and n: "size (pairs (t_entries t)) < 2 ^ 28"
  shows "\<exists>ok t' m'. upb_strtable_insert3 mem ka k v t m = Some (ok, t', m') \<and> str_wf t' m' \<and> t_ctype t' = t_ctype t \<and>
    str_map t' m' = (if ok then (str_grown mem t (str_map t m))(k \<mapsto> v) else str_grown mem t (str_map t m)) \<and>
    (ok \<longleftrightarrow> mem (copy_size k) \<and> (\<not> isfull t \<or> mem (entries_bytes (t_size_lg2 t + 1))))"
proof -
  have put: "\<exists>t' m'. strtable_insert (Suc d) mem ka k v u h = Some (mem (copy_size k), t', m') \<and> str_wf t' m' \<and> t_ctype t' = t_ctype u \<and>
      str_map t' m' = (if mem (copy_size k) then (str_map u h)(k \<mapsto> v) else str_map u h)"
    if u: "str_wf u h" "str_map u h k = None" "t_ctype u = t_ctype t" "\<not> isfull u" "size (pairs (t_entries u)) < 2 ^ 28" for u h d
  proof -
    have uw: "tab_wf (upb_tabstr h) str_hash u" "heap_ok h" "fst ` set h = keys_of u" "t_size_lg2 u \<noteq> 0" using u(1) by (auto simp: str_wf_def)
    have l: "length h < 2 ^ 62" using heap_length [OF uw(2,3)] size_keys_of [OF uw(1)] u(5) by simp
    have sub: "keys_of u \<subseteq> fst ` set h" using uw(3) by simp
    have vc: "v_ctype v = t_ctype u" using k(3) u(3) by simp
    obtain t' m' where "strtable_insert (Suc d) mem ka k v u h = Some (mem (copy_size k), t', m')"
        "if mem (copy_size k) then m' = (fresh_addr h, copy_of k) # h else m' = h \<and> t' = u" "heap_ok m'"
        "tab_wf (upb_tabstr m') str_hash t'" "keys_of t' = (if mem (copy_size k) then insert (fresh_addr h) (keys_of u) else keys_of u)"
        "tab_map (upb_tabstr m') t' = (if mem (copy_size k) then (tab_map (upb_tabstr h) u)(k \<mapsto> v) else tab_map (upb_tabstr h) u)"
        "t_ctype t' = t_ctype u" "t_size_lg2 t' = t_size_lg2 u"
      using strtable_insert_room [OF uw(1) sub uw(2) l k(2) u(2) [unfolded str_map_def] vc u(4)] by blast
    moreover from this have "str_wf t' m'" using uw unfolding str_wf_def by (auto split: if_splits)
    ultimately show ?thesis unfolding str_map_def by blast
  qed
  show ?thesis
  proof (cases "isfull t")
    case False
    then show ?thesis using put [OF w k(1) refl False n, of 1]
      by (auto simp: upb_strtable_insert3_def str_grown_def numeral_2_eq_2 simp del: strtable_insert.simps)
  next
    case True
    note r = resize_works [OF w True n, of mem 0]
    show ?thesis
    proof (cases "mem (entries_bytes (t_size_lg2 t + 1))")
      case False
      then have "upb_strtable_insert3 mem ka k v t m = Some (False, t, m)"
        using r True by (simp add: upb_strtable_insert3_def numeral_2_eq_2)
      then show ?thesis using False True w by (auto simp: str_grown_def)
    next
      case mt: True
      obtain nt m1 where nt: "strtable_resize (strtable_insert (Suc 0) mem) mem (ucast (t_size_lg2 t) + 1) t m = Some (True, nt, m1)"
          "str_wf nt m1" "str_map nt m1 = str_map t m |` {k. mem (copy_size k)}" "t_ctype nt = t_ctype t" "t_size_lg2 nt = t_size_lg2 t + 1"
          "size (pairs (t_entries nt)) \<le> size (pairs (t_entries t))"
        using r mt by auto
      have nw: "tab_wf (upb_tabstr m1) str_hash nt" "t_size_lg2 nt \<noteq> 0" using nt(2) by (auto simp: str_wf_def)
      have t: "tab_wf (upb_tabstr m) str_hash t" "t_size_lg2 t \<noteq> 0" using w by (auto simp: str_wf_def)
      have "size (pairs (t_entries t)) \<le> 2 ^ unat (t_size_lg2 t)"
        using pairs_le [of "t_entries t"] tab_wf_D(2) [OF t(1)] table_size_nat [OF tab_wf_D(1) [OF t(1)]] by (auto split: if_splits)
      moreover have "unat (t_size_lg2 nt) = Suc (unat (t_size_lg2 t))" using isfull_small(3) [OF t(1) True n] nt(5) by simp
      moreover have "(2 :: nat) \<le> 2 ^ unat (t_size_lg2 t)"
        using power_increasing [of 1 "unat (t_size_lg2 t)" "2 :: nat"] t(2) by (simp add: unat_gt_0 Suc_le_eq)
      ultimately have nf: "\<not> isfull nt" using nt(6) by (intro not_isfull_room [OF nw(1) _ nw(2)]) simp
      have "upb_strtable_insert3 mem ka k v t m = strtable_insert (Suc 0) mem ka k v nt m1"
        using True nt(1) nf by (simp add: upb_strtable_insert3_def numeral_2_eq_2)
      moreover have "str_map nt m1 k = None" using nt(3) k(1) by (simp add: restrict_map_def)
      ultimately show ?thesis using put [OF nt(2) _ nt(4) nf, of 0] nt(3,4,6) n mt True by (auto simp: str_grown_def simp del: strtable_insert.simps)
    qed
  qed
qed

lemma strtable_lookup_map: "str_wf t m \<Longrightarrow> upb_strtable_lookup2 ka k t m = Some (str_map t m k)"
  using strs.lookup_map [of m t k] by (simp add: upb_strtable_lookup2_def murmur_hash2_addr str_map_def str_wf_def)

lemma strtable_remove_map:
  assumes w: "str_wf t m"
  shows "\<exists>t' m'. upb_strtable_remove3 ka k t m = Some (str_map t m k, t', m') \<and> str_wf t' m' \<and> t_ctype t' = t_ctype t \<and>
    str_map t' m' = (str_map t m)(k := None)"
proof -
  have t: "tab_wf (upb_tabstr m) str_hash t" "t_size_lg2 t \<noteq> 0" "heap_ok m" "fst ` set m = keys_of t" using w by (auto simp: str_wf_def)
  note r = strs.rm_map [OF t(1,2), of k]
  show ?thesis
  proof (cases "str_map t m k")
    case None
    then have "upb_strtable_remove3 ka k t m = Some (None, t, m)"
      using r by (simp add: upb_strtable_remove3_def murmur_hash2_addr str_map_def)
    then show ?thesis using None w by (auto simp: fun_upd_idem)
  next
    case (Some v)
    then obtain a t' where a: "tab_rm (streql m k) (str_hash k) t = Some (Some (v, a), t')" "upb_tabstr m a = Some k"
        "tab_wf (upb_tabstr m) str_hash t'" "pairs (t_entries t) = add_mset (a, v_val v) (pairs (t_entries t'))"
        "t_ctype t' = t_ctype t" "t_size_lg2 t' = t_size_lg2 t"
      using r unfolding str_map_def by auto
    let ?m = "filter (\<lambda>(b, _). b \<noteq> a) m"
    have ka: "keys_of t = insert a (keys_of t')" using a(4) by (simp add: keys_of_def)
    have "a \<notin> keys_of t'" using size_keys_of [OF t(1)] size_keys_of [OF a(3)] a(4) ka
      by (metis (no_types) insert_absorb n_not_Suc_n size_add_mset)
    moreover have "fst ` set ?m = fst ` set m - {a}" by force
    ultimately have dom: "fst ` set ?m = keys_of t'" using t(4) ka by auto
    have same: "upb_tabstr ?m x = upb_tabstr m x" if "x \<in> keys_of t'" for x
      using that \<open>a \<notin> keys_of t'\<close> by (intro tabstr_cong map_of_filter_key [where P = "\<lambda>b. b \<noteq> a"]) auto
    have ok: "heap_ok ?m" using t(3) by (auto simp: heap_ok_def distinct_map_filter)
    have "a \<in> fst ` set m" using t(4) ka by simp
    moreover from this have "a \<noteq> 0" using t(3) unfolding heap_ok_def by blast
    ultimately have "heap_free a m = Some ?m" by (simp add: heap_free_def)
    then have "upb_strtable_remove3 ka k t m = Some (Some v, t', ?m)"
      using a(1) by (simp add: upb_strtable_remove3_def murmur_hash2_addr)
    moreover have "str_wf t' ?m"
      unfolding str_wf_def using tab_wf_cong [where K' = "upb_tabstr ?m" and K = "upb_tabstr m", OF same] a(3,6) ok dom t(2) by simp
    moreover have "str_map t' ?m = (str_map t m)(k := None)"
      using tab_map_cong [where K' = "upb_tabstr ?m" and K = "upb_tabstr m", OF same] tab_map_remove [OF t(1) a(3,4,2,5)]
      by (simp add: str_map_def)
    ultimately show ?thesis using Some a(5) by auto
  qed
qed

text \<open>The keys and values that an iteration sees.\<close>

definition strtable_items :: "upb_table \<Rightarrow> heap \<Rightarrow> (u8 list option \<times> upb_value option) list" where
  "strtable_items t m = map (\<lambda>i. (upb_strtable_iter_key m t (word_of_nat i), upb_strtable_iter_value t (word_of_nat i)))
     (visited (length (t_entries t)) t (upb_strtable_begin t))"

lemma strtable_items_map:
  assumes w: "str_wf t m"
  shows "distinct (strtable_items t m)" "set (strtable_items t m) = {(Some k, Some v) | k v. str_map t m k = Some v}"
    "length (strtable_items t m) = size (pairs (t_entries t))"
proof -
  have t: "tab_wf (upb_tabstr m) str_hash t" using w by (auto simp: str_wf_def)
  let ?es = "t_entries t" and ?is = "filter (occupied (t_entries t)) [0..<length (t_entries t)]"
  have item: "(upb_strtable_iter_key m t (word_of_nat i), upb_strtable_iter_value t (word_of_nat i)) =
      (upb_tabstr m (e_key (?es ! i)), Some (upb_value_val (e_val (?es ! i)) (t_ctype t)))" if "occupied ?es i" for i
  proof -
    have i: "i < unat (upb_table_size t)" "unat (upb_table_size t) \<le> 2 ^ 30"
      using that tab_wf_D(2) [OF t] table_size_le [OF tab_wf_D(1) [OF t]] by (auto simp: occupied_def)
    then have u: "unat (word_of_nat i :: u64) = i" by (intro unat_of_nat_u64) simp
    then have "\<not> upb_strtable_done t (word_of_nat i)"
      using i that by (simp add: upb_strtable_done_def word_le_nat_alt occupied_def upb_tabent_isempty_def)
    then show ?thesis using u by (simp add: upb_strtable_iter_key_def upb_strtable_iter_value_def)
  qed
  then have eq: "strtable_items t m = map (\<lambda>i. (upb_tabstr m (e_key (?es ! i)), Some (upb_value_val (e_val (?es ! i)) (t_ctype t)))) ?is"
    unfolding strtable_items_def upb_strtable_begin_def visited_occupied [OF t] by simp
  have "inj_on (\<lambda>i. (upb_tabstr m (e_key (?es ! i)), Some (upb_value_val (e_val (?es ! i)) (t_ctype t)))) (set ?is)"
    using occupied_inj [OF t] by (intro inj_onI) simp
  then show "distinct (strtable_items t m)" unfolding eq by (simp add: distinct_map)
  show "length (strtable_items t m) = size (pairs (t_entries t))"
    unfolding eq using arg_cong [OF mset_occupied [of ?es], of size] by (simp del: mset_map mset_filter)
  have "p \<in> set (strtable_items t m) \<longleftrightarrow> p \<in> {(Some k, Some v) | k v. str_map t m k = Some v}" for p
  proof
    assume "p \<in> set (strtable_items t m)"
    then obtain i where i: "occupied ?es i" "p = (upb_tabstr m (e_key (?es ! i)), Some (upb_value_val (e_val (?es ! i)) (t_ctype t)))"
      unfolding eq by auto
    obtain k where k: "upb_tabstr m (e_key (?es ! i)) = Some k" using occupied_key [OF t i(1)] by blast
    then show "p \<in> {(Some k, Some v) | k v. str_map t m k = Some v}"
      using tab_map_occupied [OF t i(1) k] i(2) by (simp add: str_map_def)
  next
    assume "p \<in> {(Some k, Some v) | k v. str_map t m k = Some v}"
    then obtain k v where p: "p = (Some k, Some v)" "tab_map (upb_tabstr m) t k = Some v" by (auto simp: str_map_def)
    then obtain i where i: "occupied ?es i" "e_val (?es ! i) = v_val v" "upb_tabstr m (e_key (?es ! i)) = Some k" "v_ctype v = t_ctype t"
      unfolding tab_map_iff [OF t] pairs_in by blast
    then have "p = (upb_tabstr m (e_key (?es ! i)), Some (upb_value_val (e_val (?es ! i)) (t_ctype t)))"
      using p(1) by (cases v) (simp add: upb_value_val_def)
    moreover have "i \<in> set ?is" using i(1) by (simp add: occupied_def)
    ultimately show "p \<in> set (strtable_items t m)" unfolding eq by auto
  qed
  then show "set (strtable_items t m) = {(Some k, Some v) | k v. str_map t m k = Some v}" by blast
qed

lemma str_map_card:
  assumes w: "str_wf t m"
  shows "finite (dom (str_map t m))" "card (dom (str_map t m)) = size (pairs (t_entries t))"
proof -
  show f: "finite (dom (str_map t m))" unfolding str_map_def tab_map_def by (rule finite_dom_map_of)
  let ?f = "\<lambda>k. (Some k, str_map t m k)"
  have s: "set (strtable_items t m) = ?f ` dom (str_map t m)"
    unfolding strtable_items_map(2) [OF w] by (auto simp: image_iff dom_def)
  have "inj_on ?f (dom (str_map t m))" by (rule inj_onI) simp
  then have "card (set (strtable_items t m)) = card (dom (str_map t m))" unfolding s by (rule card_image)
  then show "card (dom (str_map t m)) = size (pairs (t_entries t))"
    using distinct_card [OF strtable_items_map(1) [OF w]] strtable_items_map(3) [OF w] by simp
qed

section \<open>Runs\<close>

inductive str_run :: "upb_ctype_t \<Rightarrow> upb_table \<Rightarrow> heap \<Rightarrow> (u8 list \<Rightarrow> upb_value option) \<Rightarrow> bool" for c where
  str_init: "upb_strtable_init2 mem c = Some (Some t) \<Longrightarrow> str_run c t [] Map.empty"
| str_insert: "str_run c t m M \<Longrightarrow> M k = None \<Longrightarrow> v_ctype v = c \<Longrightarrow> length k < 2 ^ 32 \<Longrightarrow> card (dom M) < 2 ^ 28 \<Longrightarrow>
    upb_strtable_insert3 mem ka k v t m = Some (ok, t', m') \<Longrightarrow>
    str_run c t' m' (if ok then (str_grown mem t M)(k \<mapsto> v) else str_grown mem t M)"
| str_remove: "str_run c t m M \<Longrightarrow> upb_strtable_remove3 ka k t m = Some (r, t', m') \<Longrightarrow> str_run c t' m' (M(k := None))"

lemma str_init_wf:
  "\<exists>t. upb_strtable_init2 mem c = Some (if mem 96 then Some t else None) \<and> str_wf t [] \<and> str_map t [] = Map.empty \<and> t_ctype t = c"
proof -
  have two: "(2 :: u8) \<le> 30" "(2 :: u8) \<noteq> 0" by simp_all
  have "entries_bytes 2 = 96" by (simp add: entries_bytes_def)
  then have "upb_strtable_init2 mem c = Some (if mem 96 then Some (fresh_table c 2) else None)"
    using tab_init_fresh [OF two(1), of mem c] by (simp add: upb_strtable_init2_def)
  moreover have "str_wf (fresh_table c 2) []"
    unfolding str_wf_def using fresh_table_wf(1) [OF two(1)] fresh_table_props [OF two, of c] by (simp add: heap_ok_def keys_of_def)
  ultimately show ?thesis using fresh_table_wf(2) [OF two(1)] fresh_table_props(3) [OF two] by (auto simp: str_map_def)
qed

lemma str_run_wf:
  "str_run c t m M \<Longrightarrow> str_wf t m \<and> str_map t m = M \<and> t_ctype t = c"
proof (induction rule: str_run.induct)
  case (str_init mem t)
  then show ?case using str_init_wf [of mem c] by (auto split: if_splits)
next
  case (str_insert t m M k v mem ka ok t' m')
  then have w: "str_wf t m" "str_map t m k = None" "v_ctype v = t_ctype t" "size (pairs (t_entries t)) < 2 ^ 28"
    using str_map_card(2) [of t m] by auto
  obtain ok1 t1 m1 where "upb_strtable_insert3 mem ka k v t m = Some (ok1, t1, m1)" "str_wf t1 m1" "t_ctype t1 = t_ctype t"
      "str_map t1 m1 = (if ok1 then (str_grown mem t (str_map t m))(k \<mapsto> v) else str_grown mem t (str_map t m))"
    using strtable_insert_map [OF w(1,2) str_insert.hyps(4) w(3,4)] by blast
  then show ?case using str_insert by auto
next
  case (str_remove t m M ka k r t' m')
  then show ?case using strtable_remove_map [of t m ka k] by auto
qed

text \<open>
  C31. The string tables of upb refine a finite map, and own their keys: in every table that insertions and removals reach from an empty one, whatever
  allocations failed and wherever the strings of the caller are, every operation is defined. A lookup returns the stored value, an
  iteration sees every entry once, the heap holds one key copy for each entry, and releasing the table frees them all. An insertion fails only if its key copy or the larger table cannot be allocated.
  A growing table loses the entries whose keys cannot be copied, without a failure (\<open>str_grown\<close>).
\<close>

theorem strtable_refines_map:
  assumes r: "str_run c t m M"
  shows "upb_strtable_lookup2 ka k t m = Some (M k) \<and> finite (dom M) \<and> unat (upb_strtable_count t) = card (dom M) \<and>
    distinct (strtable_items t m) \<and> set (strtable_items t m) = {(Some k, Some v) | k v. M k = Some v} \<and>
    length m = card (dom M) \<and> upb_strtable_uninit2 t m = Some [] \<and>
    (M k = None \<and> v_ctype v = c \<and> length k < 2 ^ 32 \<and> card (dom M) < 2 ^ 28 \<longrightarrow>
      (\<exists>ok t' m'. upb_strtable_insert3 mem ka k v t m = Some (ok, t', m') \<and>
        (ok \<longleftrightarrow> mem (copy_size k) \<and> (\<not> isfull t \<or> mem (entries_bytes (t_size_lg2 t + 1)))))) \<and>
    (\<exists>t' m'. upb_strtable_remove3 ka k t m = Some (M k, t', m'))"
proof -
  have w: "str_wf t m" "str_map t m = M" "t_ctype t = c" using str_run_wf [OF r] by auto
  note card = str_map_card [OF w(1), unfolded w(2)]
  have t: "tab_wf (upb_tabstr m) str_hash t" "heap_ok m" "fst ` set m = keys_of t" using w(1) by (auto simp: str_wf_def)
  have len: "length m = card (dom M)" using heap_length [OF t(2,3)] size_keys_of [OF t(1)] card(2) by simp
  have "filter (\<lambda>(a, _). a \<notin> keys_of t) m = []" unfolding filter_empty_conv t(3) [symmetric] by force
  then have un: "upb_strtable_uninit2 t m = Some []" using uninit_works [OF t(1) _ t(2)] t(3) by simp
  have ins: "\<exists>ok t' m'. upb_strtable_insert3 mem ka k v t m = Some (ok, t', m') \<and>
      (ok \<longleftrightarrow> mem (copy_size k) \<and> (\<not> isfull t \<or> mem (entries_bytes (t_size_lg2 t + 1))))"
    if "M k = None" "v_ctype v = c" "length k < 2 ^ 32" "card (dom M) < 2 ^ 28"
    using strtable_insert_map [of t m k v mem ka] w that card(2) by auto
  show ?thesis
    using strtable_lookup_map [OF w(1), of ka k] tab_wf_D(3) [OF t(1)] card len un ins strtable_items_map [OF w(1)] w(2)
      strtable_remove_map [OF w(1), of ka k] by (auto simp: upb_strtable_count_def)
qed

text \<open>The string \<open>abcde\<close> at an odd address, found at another one.\<close>

lemma strtable_refines_map_witness:
  "\<exists>t m. upb_strtable_lookup2 5 [97, 98, 99, 100, 101] t m = Some (Some \<lparr>v_val = 7, v_ctype = UPB_CTYPE_PTR\<rparr>) \<and> length m = 1 \<and>
    upb_strtable_uninit2 t m = Some []"
proof -
  let ?c = UPB_CTYPE_PTR and ?v = "\<lparr>v_val = 7 :: u64, v_ctype = UPB_CTYPE_PTR\<rparr>" and ?m = "\<lambda>_ :: u64. True" and ?k = "[97, 98, 99, 100, 101] :: u8 list"
  obtain t where t: "upb_strtable_init2 ?m ?c = Some (Some t)" using str_init_wf [of ?m ?c] by auto
  note r = str_init [OF t]
  obtain t1 m1 where t1: "upb_strtable_insert3 ?m 3 ?k ?v t [] = Some (True, t1, m1)"
    using strtable_refines_map [OF r, of 3 ?k ?v ?m] by auto
  have "str_grown ?m t Map.empty = Map.empty" by (auto simp: str_grown_def)
  then have r1: "str_run ?c t1 m1 [?k \<mapsto> ?v]" using str_insert [OF r _ _ _ _ t1] by simp
  have "upb_strtable_lookup2 5 ?k t1 m1 = Some (Some ?v) \<and> length m1 = 1 \<and> upb_strtable_uninit2 t1 m1 = Some []"
    using strtable_refines_map [OF r1, of 5 ?k ?v ?m] by simp
  then show ?thesis by blast
qed

end
