(* ===== verification/Upb_Value_Spec.thy ===== *)
theory Upb_Value_Spec
  imports Upb_Str_Spec
begin

text \<open>
  The types of the values in the tables of upb, which only assertions check: the getter of the type of a table reads
  what the constructor of this type stored, and no other getter may read it.
\<close>

lemma value_get_make [simp]: "value_get g c (value_make f d x) = (if d = c then Some (g (f x)) else None)"
  by (simp add: value_get_def value_make_def)

lemma value_get_defined: "value_get g c v \<noteq> None \<longleftrightarrow> v_ctype v = c"
  by (simp add: value_get_def)

lemmas value_funcs = upb_value_int32_def upb_value_int64_def upb_value_uint32_def upb_value_uint64_def upb_value_bool_def
  upb_value_cstr_def upb_value_ptr_def upb_value_constptr_def upb_value_fptr_def
  upb_value_getint32_def upb_value_getint64_def upb_value_getuint32_def upb_value_getuint64_def upb_value_getbool_def
  upb_value_getcstr_def upb_value_getptr_def upb_value_getconstptr_def upb_value_getfptr_def

text \<open>The getters that may read a value.\<close>

definition readable :: "upb_ctype_t \<Rightarrow> upb_value \<Rightarrow> bool" where
  "readable c v \<longleftrightarrow> v_ctype v = c \<and> (upb_value_getint32 v \<noteq> None \<longleftrightarrow> c = UPB_CTYPE_INT32) \<and> (upb_value_getint64 v \<noteq> None \<longleftrightarrow> c = UPB_CTYPE_INT64) \<and>
     (upb_value_getuint32 v \<noteq> None \<longleftrightarrow> c = UPB_CTYPE_UINT32) \<and> (upb_value_getuint64 v \<noteq> None \<longleftrightarrow> c = UPB_CTYPE_UINT64) \<and>
     (upb_value_getbool v \<noteq> None \<longleftrightarrow> c = UPB_CTYPE_BOOL) \<and> (upb_value_getcstr v \<noteq> None \<longleftrightarrow> c = UPB_CTYPE_CSTR) \<and>
     (upb_value_getptr v \<noteq> None \<longleftrightarrow> c = UPB_CTYPE_PTR) \<and> (upb_value_getconstptr v \<noteq> None \<longleftrightarrow> c = UPB_CTYPE_CONSTPTR) \<and>
     (upb_value_getfptr v \<noteq> None \<longleftrightarrow> c = UPB_CTYPE_FPTR)"

lemma readable_type: "readable c v \<longleftrightarrow> v_ctype v = c"
  unfolding readable_def value_funcs value_get_defined by auto

lemma int_run_type: "int_run c t m \<Longrightarrow> m k = Some v \<Longrightarrow> v_ctype v = c"
  using int_run_wf [of c t m] int_map_ctype [of t k v] by auto

lemma str_run_type: "str_run c t h M \<Longrightarrow> M k = Some v \<Longrightarrow> v_ctype v = c"
  using str_run_wf [of c t h M] tab_map_iff [of "upb_tabstr h" str_hash t k v] by (auto simp: str_wf_def str_map_def)

text \<open>
  C40. Values keep their type and their contents. Every value that a lookup, a removal or an iteration takes out of a table of a type, after
  any operations on it, may be read by the getter of this type and by no other, and the getter of a type returns
  what its constructor was given.
\<close>

theorem upb_values_typed:
  assumes "int_run c t m" and "str_run d u h M"
  shows "(upb_inttable_lookup k t = Some (Some v) \<longrightarrow> readable c v) \<and> (upb_inttable_remove k t = Some (Some v, t') \<longrightarrow> readable c v) \<and>
    (upb_strtable_lookup2 ka s u h = Some (Some w) \<longrightarrow> readable d w) \<and> (upb_strtable_remove3 ka s u h = Some (Some w, u', h') \<longrightarrow> readable d w) \<and>
    ((Some s, Some w) \<in> set (strtable_items u h) \<longrightarrow> readable d w) \<and>
    upb_value_getint32 (upb_value_int32 x) = Some x \<and> upb_value_getint64 (upb_value_int64 y) = Some y \<and>
    upb_value_getuint32 (upb_value_uint32 x) = Some x \<and> upb_value_getuint64 (upb_value_uint64 y) = Some y \<and>
    upb_value_getbool (upb_value_bool b) = Some b \<and> upb_value_getcstr (upb_value_cstr y) = Some y \<and> upb_value_getptr (upb_value_ptr y) = Some y \<and>
    upb_value_getconstptr (upb_value_constptr y) = Some y \<and> upb_value_getfptr (upb_value_fptr y) = Some y"
proof -
  note i = int_run_wf [OF assms(1)] and s = str_run_wf [OF assms(2)]
  have "upb_inttable_lookup k t = Some (m k)" using inttable_lookup_map [of t k] i by simp
  moreover have "readable c v" if "upb_inttable_remove k t = Some (Some v, t')"
  proof -
    have "k < i_array_size t \<or> t_size_lg2 (i_t t) \<noteq> 0" using remove_compacted [of t k] i that by auto
    then have "m k = Some v" using inttable_remove_map [of t k] i that by auto
    then show ?thesis using int_run_type [OF assms(1)] by (simp add: readable_type)
  qed
  moreover have "upb_strtable_lookup2 ka s u h = Some (M s)" using strtable_lookup_map [of u h ka s] s by simp
  moreover have "upb_strtable_remove3 ka s u h = Some (Some w, u', h') \<Longrightarrow> M s = Some w" using strtable_remove_map [of u h ka s] s by auto
  moreover have "(Some s, Some w) \<in> set (strtable_items u h) \<Longrightarrow> M s = Some w" using strtable_items_map(2) [of u h] s by auto
  moreover have "ucast (scast x :: u64) = x" by (rule bit_eqI) (simp add: bit_unsigned_iff bit_signed_iff)
  moreover have "ucast (ucast x :: u64) = x" by (rule bit_eqI) (simp add: bit_unsigned_iff)
  ultimately show ?thesis
    using int_run_type [OF assms(1)] str_run_type [OF assms(2)] by (auto simp: readable_type value_funcs)
qed

lemma upb_values_typed_witness:
  "\<exists>t. upb_inttable_lookup 7 t = Some (Some (upb_value_int32 5)) \<and> readable UPB_CTYPE_INT32 (upb_value_int32 5)"
proof -
  let ?m = "\<lambda>_ :: u64. True" and ?v = "upb_value_int32 5"
  obtain t where t: "upb_inttable_init2 ?m UPB_CTYPE_INT32 = Some (Some t)" "int_wf t" "int_map t = Map.empty" "t_ctype (i_t t) = UPB_CTYPE_INT32"
    using init_works [of ?m UPB_CTYPE_INT32] by auto
  have v: "v_val ?v \<noteq> - 1" "v_ctype ?v = UPB_CTYPE_INT32" by (simp_all add: value_funcs value_make_def)
  have e: "size (pairs (t_entries (i_t t))) < 2 ^ 28" using int_map_dom(2) [OF t(2)] t(3) by simp
  obtain t1 where t1: "upb_inttable_insert2 ?m 7 ?v t = Some (True, t1)"
    using inttable_insert_map [OF t(2) _ v(1) _ e, of 7 ?m] t(3,4) v(2) by auto
  have r: "int_run UPB_CTYPE_INT32 t1 [7 \<mapsto> ?v]" using int_insert [OF int_init [OF t(1)] _ _ _ t1] v by (simp add: fits_def)
  obtain u where "upb_strtable_init2 ?m UPB_CTYPE_PTR = Some (Some u)" using str_init_wf [of ?m UPB_CTYPE_PTR] by auto
  note s = str_init [OF this]
  have l: "upb_inttable_lookup 7 t1 = Some (Some ?v)" using inttable_lookup_map [of t1 7] int_run_wf [OF r] by simp
  then show ?thesis using upb_values_typed [OF r s, of 7 ?v t1 0 "[]" ?v u "[]" 0 0 True] by auto
qed

end
