(* ===== verification/Poly1305.thy ===== *)
theory Poly1305
  imports CBuffer
begin

text \<open>
  BoringSSL: the one-time authenticator \<open>crypto/poly1305/poly1305.c\<close>, which is compiled on every target but
  x86-64. The number modulo \<open>2 ^ 130 - 5\<close> is kept in five 32-bit limbs of 26 bits. Input lists stand for
  \<open>in\<close> with its length; writing outside \<open>buf\<close> is undefined (\<open>None\<close>). The state on its aligned address is the
  record; the branches to the NEON code are not taken.
\<close>

unbundle bit_operations_syntax

record poly1305_state_st =
  p_r0 :: u32 p_r1 :: u32 p_r2 :: u32 p_r3 :: u32 p_r4 :: u32
  p_s1 :: u32 p_s2 :: u32 p_s3 :: u32 p_s4 :: u32
  p_h0 :: u32 p_h1 :: u32 p_h2 :: u32 p_h3 :: u32 p_h4 :: u32
  p_buf :: "u8 list"
  buf_used :: u32
  p_key :: "u8 list"

definition U8TO32_LE :: "u8 list \<Rightarrow> u32" where
  "U8TO32_LE m = word_of_nat (le_nat (take 4 m))"

definition U32TO8_LE :: "u32 \<Rightarrow> u8 list" where
  "U32TO8_LE v = le_bytes 4 (unat v)"

definition mul32x32_64 :: "u32 \<Rightarrow> u32 \<Rightarrow> u64" where
  "mul32x32_64 a b = ucast a * ucast b"

section \<open>Blocks\<close>

text \<open>The 16 bytes of \<open>m\<close> are added to the limbs, with \<open>hibit\<close> above them.\<close>

definition poly1305_add :: "u8 list \<Rightarrow> u32 \<Rightarrow> poly1305_state_st \<Rightarrow> poly1305_state_st" where
  "poly1305_add m hibit st = (let
       t0 = U8TO32_LE m;
       t1 = U8TO32_LE (drop 4 m);
       t2 = U8TO32_LE (drop 8 m);
       t3 = U8TO32_LE (drop 12 m) in
     st\<lparr>p_h0 := p_h0 st + (t0 AND 0x3ffffff),
        p_h1 := ucast (ucast (p_h1 st) + (drop_bit 26 (push_bit 32 (ucast t1) OR ucast t0) AND 0x3ffffff) :: u64),
        p_h2 := ucast (ucast (p_h2 st) + (drop_bit 20 (push_bit 32 (ucast t2) OR ucast t1) AND 0x3ffffff) :: u64),
        p_h3 := ucast (ucast (p_h3 st) + (drop_bit 14 (push_bit 32 (ucast t3) OR ucast t2) AND 0x3ffffff) :: u64),
        p_h4 := p_h4 st + (drop_bit 8 t3 OR hibit)\<rparr>)"

text \<open>The products, before the carries.\<close>

definition poly1305_products :: "poly1305_state_st \<Rightarrow> u64 list" where
  "poly1305_products st = [
     mul32x32_64 (p_h0 st) (p_r0 st) + mul32x32_64 (p_h1 st) (p_s4 st) + mul32x32_64 (p_h2 st) (p_s3 st) +
       mul32x32_64 (p_h3 st) (p_s2 st) + mul32x32_64 (p_h4 st) (p_s1 st),
     mul32x32_64 (p_h0 st) (p_r1 st) + mul32x32_64 (p_h1 st) (p_r0 st) + mul32x32_64 (p_h2 st) (p_s4 st) +
       mul32x32_64 (p_h3 st) (p_s3 st) + mul32x32_64 (p_h4 st) (p_s2 st),
     mul32x32_64 (p_h0 st) (p_r2 st) + mul32x32_64 (p_h1 st) (p_r1 st) + mul32x32_64 (p_h2 st) (p_r0 st) +
       mul32x32_64 (p_h3 st) (p_s4 st) + mul32x32_64 (p_h4 st) (p_s3 st),
     mul32x32_64 (p_h0 st) (p_r3 st) + mul32x32_64 (p_h1 st) (p_r2 st) + mul32x32_64 (p_h2 st) (p_r1 st) +
       mul32x32_64 (p_h3 st) (p_r0 st) + mul32x32_64 (p_h4 st) (p_s4 st),
     mul32x32_64 (p_h0 st) (p_r4 st) + mul32x32_64 (p_h1 st) (p_r3 st) + mul32x32_64 (p_h2 st) (p_r2 st) +
       mul32x32_64 (p_h3 st) (p_r1 st) + mul32x32_64 (p_h4 st) (p_r0 st)]"

text \<open>The statements from the label \<open>poly1305_donna_mul\<close> to the next test of \<open>len\<close>.\<close>

definition poly1305_donna_mul :: "poly1305_state_st \<Rightarrow> poly1305_state_st" where
  "poly1305_donna_mul st = (let
       t = poly1305_products st;
       h0 = ucast (t ! 0) AND 0x3ffffff;
       c = drop_bit 26 (t ! 0);
       t1 = t ! 1 + c;
       h1 = ucast t1 AND 0x3ffffff;
       b = ucast (drop_bit 26 t1) :: u32;
       t2 = t ! 2 + ucast b;
       h2 = ucast t2 AND 0x3ffffff;
       b = ucast (drop_bit 26 t2) :: u32;
       t3 = t ! 3 + ucast b;
       h3 = ucast t3 AND 0x3ffffff;
       b = ucast (drop_bit 26 t3) :: u32;
       t4 = t ! 4 + ucast b;
       h4 = ucast t4 AND 0x3ffffff;
       b = ucast (drop_bit 26 t4) :: u32 in
     st\<lparr>p_h0 := h0 + b * 5, p_h1 := h1, p_h2 := h2, p_h3 := h3, p_h4 := h4\<rparr>)"

text \<open>The bytes behind the last complete block: \<open>mp\<close> is them, a one, and zeros.\<close>

definition poly1305_donna_atmost15bytes :: "u8 list \<Rightarrow> poly1305_state_st \<Rightarrow> poly1305_state_st" where
  "poly1305_donna_atmost15bytes inp st = (
     if length inp = 0 then st
     else poly1305_donna_mul (poly1305_add (inp @ [1] @ replicate (15 - length inp) 0) 0 st))"

function poly1305_update :: "u8 list \<Rightarrow> poly1305_state_st \<Rightarrow> poly1305_state_st" where
  "poly1305_update inp st = (
     if length inp < 16 then poly1305_donna_atmost15bytes inp st
     else poly1305_update (drop 16 inp) (poly1305_donna_mul (poly1305_add inp (push_bit 24 1) st)))"
  by auto
termination by (relation "measure (\<lambda>(inp, _). length inp)") auto

declare poly1305_update.simps [simp del]

section \<open>Interface\<close>

definition CRYPTO_poly1305_init :: "u8 list \<Rightarrow> poly1305_state_st \<Rightarrow> poly1305_state_st" where
  "CRYPTO_poly1305_init key st = (let
       t0 = U8TO32_LE key;
       t1 = U8TO32_LE (drop 4 key);
       t2 = U8TO32_LE (drop 8 key);
       t3 = U8TO32_LE (drop 12 key);
       r0 = t0 AND 0x3ffffff;
       t0 = drop_bit 26 t0;
       t0 = t0 OR push_bit 6 t1;
       r1 = t0 AND 0x3ffff03;
       t1 = drop_bit 20 t1;
       t1 = t1 OR push_bit 12 t2;
       r2 = t1 AND 0x3ffc0ff;
       t2 = drop_bit 14 t2;
       t2 = t2 OR push_bit 18 t3;
       r3 = t2 AND 0x3f03fff;
       t3 = drop_bit 8 t3;
       r4 = t3 AND 0x00fffff in
     st\<lparr>p_r0 := r0, p_r1 := r1, p_r2 := r2, p_r3 := r3, p_r4 := r4,
        p_s1 := r1 * 5, p_s2 := r2 * 5, p_s3 := r3 * 5, p_s4 := r4 * 5,
        p_h0 := 0, p_h1 := 0, p_h2 := 0, p_h3 := 0, p_h4 := 0,
        buf_used := 0, p_key := take 16 (drop 16 key)\<rparr>)"

text \<open>The first part of an update tops up a started block.\<close>

definition poly1305_fill :: "u8 list \<Rightarrow> poly1305_state_st \<Rightarrow> (u8 list \<times> poly1305_state_st) option" where
  "poly1305_fill inp st = (
     if buf_used st \<noteq> 0 then do {
       let todo = 16 - buf_used st;
       let todo = (if ucast todo > (word_of_nat (length inp) :: u64) then ucast (word_of_nat (length inp) :: u64) else todo);
       buf \<leftarrow> put (p_buf st) (unat (buf_used st)) (take (unat todo) inp);
       let st = st\<lparr>p_buf := buf, buf_used := buf_used st + todo\<rparr>;
       Some (drop (unat todo) inp,
         if buf_used st = 16 then (poly1305_update (take 16 (p_buf st)) st)\<lparr>buf_used := 0\<rparr> else st) }
     else Some (inp, st))"

definition CRYPTO_poly1305_update :: "u8 list \<Rightarrow> poly1305_state_st \<Rightarrow> poly1305_state_st option" where
  "CRYPTO_poly1305_update inp st = do {
     (inp, st) \<leftarrow> poly1305_fill inp st;
     let in_len = (word_of_nat (length inp) :: u64);
     (inp, in_len, st) \<leftarrow> Some (if in_len \<ge> 16
       then let todo = in_len AND NOT 0xf in
         (drop (unat todo) inp, in_len AND 0xf, poly1305_update (take (unat todo) inp) st)
       else (inp, in_len, st));
     if in_len \<noteq> 0 then do {
       buf \<leftarrow> put (p_buf st) 0 (take (unat in_len) inp);
       Some (st\<lparr>p_buf := buf, buf_used := ucast in_len\<rparr>) }
     else Some st }"

text \<open>The carries of the limbs at the end, and the choice between \<open>h\<close> and \<open>h - p\<close>.\<close>

definition poly1305_carry :: "poly1305_state_st \<Rightarrow> poly1305_state_st" where
  "poly1305_carry st = (let
       b = drop_bit 26 (p_h0 st); h0 = p_h0 st AND 0x3ffffff;
       h1 = p_h1 st + b; b = drop_bit 26 h1; h1 = h1 AND 0x3ffffff;
       h2 = p_h2 st + b; b = drop_bit 26 h2; h2 = h2 AND 0x3ffffff;
       h3 = p_h3 st + b; b = drop_bit 26 h3; h3 = h3 AND 0x3ffffff;
       h4 = p_h4 st + b; b = drop_bit 26 h4; h4 = h4 AND 0x3ffffff;
       h0 = h0 + b * 5 in
     st\<lparr>p_h0 := h0, p_h1 := h1, p_h2 := h2, p_h3 := h3, p_h4 := h4\<rparr>)"

definition poly1305_choose :: "poly1305_state_st \<Rightarrow> poly1305_state_st" where
  "poly1305_choose st = (let
       g0 = p_h0 st + 5; b = drop_bit 26 g0; g0 = g0 AND 0x3ffffff;
       g1 = p_h1 st + b; b = drop_bit 26 g1; g1 = g1 AND 0x3ffffff;
       g2 = p_h2 st + b; b = drop_bit 26 g2; g2 = g2 AND 0x3ffffff;
       g3 = p_h3 st + b; b = drop_bit 26 g3; g3 = g3 AND 0x3ffffff;
       g4 = p_h4 st + b - push_bit 26 1;
       b = drop_bit 31 g4 - 1;
       nb = NOT b in
     st\<lparr>p_h0 := (p_h0 st AND nb) OR (g0 AND b),
        p_h1 := (p_h1 st AND nb) OR (g1 AND b),
        p_h2 := (p_h2 st AND nb) OR (g2 AND b),
        p_h3 := (p_h3 st AND nb) OR (g3 AND b),
        p_h4 := (p_h4 st AND nb) OR (g4 AND b)\<rparr>)"

text \<open>The 16 bytes \<open>mac\<close>.\<close>

definition poly1305_tag_bytes :: "poly1305_state_st \<Rightarrow> u8 list" where
  "poly1305_tag_bytes st = (let
       f0 = ucast (p_h0 st OR push_bit 26 (p_h1 st)) + ucast (U8TO32_LE (p_key st)) :: u64;
       f1 = ucast (drop_bit 6 (p_h1 st) OR push_bit 20 (p_h2 st)) + ucast (U8TO32_LE (drop 4 (p_key st))) :: u64;
       f2 = ucast (drop_bit 12 (p_h2 st) OR push_bit 14 (p_h3 st)) + ucast (U8TO32_LE (drop 8 (p_key st))) :: u64;
       f3 = ucast (drop_bit 18 (p_h3 st) OR push_bit 8 (p_h4 st)) + ucast (U8TO32_LE (drop 12 (p_key st))) :: u64;
       f1 = f1 + drop_bit 32 f0;
       f2 = f2 + drop_bit 32 f1;
       f3 = f3 + drop_bit 32 f2 in
     U32TO8_LE (ucast f0) @ U32TO8_LE (ucast f1) @ U32TO8_LE (ucast f2) @ U32TO8_LE (ucast f3))"

definition CRYPTO_poly1305_finish :: "poly1305_state_st \<Rightarrow> u8 list \<times> poly1305_state_st" where
  "CRYPTO_poly1305_finish st = (let
       st = (if buf_used st \<noteq> 0 then poly1305_update (take (unat (buf_used st)) (p_buf st)) st else st);
       st = poly1305_choose (poly1305_carry st) in
     (poly1305_tag_bytes st, st))"

end
