(* ===== verification/Poly1305_Num.thy ===== *)
theory Poly1305_Num
  imports Poly1305
begin

text \<open>
  The authenticator of RFC 8439 on numbers, and the limbs that stand for them: no carry is lost while a block
  is absorbed, and absorbing blocks evaluates the polynomial modulo \<open>2 ^ 130 - 5\<close>.
\<close>

section \<open>The standard\<close>

definition poly_p :: nat where "poly_p = 2 ^ 130 - 5"

definition clamp :: "nat \<Rightarrow> nat" where "clamp n = n AND 0x0ffffffc0ffffffc0ffffffc0fffffff"

text \<open>Every block with a one above it is added and multiplied.\<close>

function poly_eval :: "nat \<Rightarrow> nat \<Rightarrow> u8 list \<Rightarrow> nat" where
  "poly_eval r a m = (if m = [] then a else poly_eval r ((a + le_nat (take 16 m @ [1])) * r mod poly_p) (drop 16 m))"
  by auto
termination by (relation "measure (\<lambda>(r, a, m). length m)") auto

declare poly_eval.simps [simp del]

definition poly_value :: "u8 list \<Rightarrow> u8 list \<Rightarrow> nat" where
  "poly_value key m = poly_eval (clamp (le_nat (take 16 key))) 0 m"

definition poly1305_mac :: "u8 list \<Rightarrow> u8 list \<Rightarrow> u8 list" where
  "poly1305_mac key m = le_bytes 16 (poly_value key m + le_nat (take 16 (drop 16 key)))"

section \<open>Words as numbers\<close>

lemma p_simp: "poly_p = 1361129467683753853853498429727072845819" by (simp add: poly_p_def)

lemma low26: "w AND 0x3ffffff = take_bit 26 (w :: 'a::len word)"
  by (simp add: take_bit_eq_mask mask_eq_exp_minus_1)

lemma unat_low26: "unat (w AND 0x3ffffff :: 'a::len word) = unat w mod 2 ^ 26"
  unfolding low26 unsigned_take_bit_eq by (rule take_bit_eq_mod)

lemma unat_plus: "unat x + unat y < 2 ^ LENGTH('a) \<Longrightarrow> unat (x + y :: 'a::len word) = unat x + unat y"
  by (simp add: unat_word_ariths)

lemma unat_ucast_mod: "LENGTH('b) \<le> LENGTH('a) \<Longrightarrow> unat (ucast (w :: 'a::len word) :: 'b::len word) = unat w mod 2 ^ LENGTH('b)"
  by (simp add: unsigned_ucast_eq take_bit_eq_mod)

lemma unat_mul32: "unat (mul32x32_64 a b) = unat a * unat b"
proof -
  have "unat a * unat b < 2 ^ 32 * 2 ^ 32" by (intro mult_strict_mono unat_u32_less) simp_all
  then show ?thesis by (simp add: mul32x32_64_def unat_word_ariths)
qed

lemma unat_sum5:
  "a + b + c + d + e < 2 ^ 64 \<Longrightarrow> unat v = a \<Longrightarrow> unat w = b \<Longrightarrow> unat x = c \<Longrightarrow> unat y = d \<Longrightarrow> unat z = e \<Longrightarrow>
    unat (v + w + x + y + z :: u64) = a + b + c + d + e"
  by (simp add: unat_word_ariths mod_simps)

section \<open>Absorbing a block\<close>

definition limbs :: "nat \<Rightarrow> nat \<Rightarrow> nat \<Rightarrow> nat \<Rightarrow> nat \<Rightarrow> nat" where
  "limbs a b c d e = a + 2 ^ 26 * b + 2 ^ 52 * c + 2 ^ 78 * d + 2 ^ 104 * e"

definition poly_h :: "poly1305_state_st \<Rightarrow> nat" where
  "poly_h st = limbs (unat (p_h0 st)) (unat (p_h1 st)) (unat (p_h2 st)) (unat (p_h3 st)) (unat (p_h4 st))"

definition poly_r :: "poly1305_state_st \<Rightarrow> nat" where
  "poly_r st = limbs (unat (p_r0 st)) (unat (p_r1 st)) (unat (p_r2 st)) (unat (p_r3 st)) (unat (p_r4 st))"

text \<open>The clamped limbs of the key and their multiples.\<close>

definition poly_key :: "poly1305_state_st \<Rightarrow> bool" where
  "poly_key st \<longleftrightarrow> unat (p_r0 st) \<le> 0x3ffffff \<and> unat (p_r1 st) \<le> 0x3ffff03 \<and> unat (p_r2 st) \<le> 0x3ffc0ff \<and>
     unat (p_r3 st) \<le> 0x3f03fff \<and> unat (p_r4 st) \<le> 0xfffff \<and>
     unat (p_s1 st) = 5 * unat (p_r1 st) \<and> unat (p_s2 st) = 5 * unat (p_r2 st) \<and>
     unat (p_s3 st) = 5 * unat (p_r3 st) \<and> unat (p_s4 st) = 5 * unat (p_r4 st)"

text \<open>The limbs between two blocks, and behind the addition of a block.\<close>

definition poly_reduced :: "poly1305_state_st \<Rightarrow> bool" where
  "poly_reduced st \<longleftrightarrow> unat (p_h0 st) \<le> 2800000000 \<and> unat (p_h1 st) < 2 ^ 26 \<and> unat (p_h2 st) < 2 ^ 26 \<and>
     unat (p_h3 st) < 2 ^ 26 \<and> unat (p_h4 st) < 2 ^ 26"

definition poly_added :: "poly1305_state_st \<Rightarrow> bool" where
  "poly_added st \<longleftrightarrow> unat (p_h0 st) \<le> 2867108863 \<and> unat (p_h1 st) \<le> 134217726 \<and> unat (p_h2 st) \<le> 134217726 \<and>
     unat (p_h3 st) \<le> 134217726 \<and> unat (p_h4 st) \<le> 100663294"

lemma mul_bound: "a \<le> x \<Longrightarrow> b \<le> y \<Longrightarrow> x * y \<le> z \<Longrightarrow> a * b \<le> (z :: nat)"
  by (meson mult_le_mono order_trans)

text \<open>The sums of products, as numbers.\<close>

definition prods :: "poly1305_state_st \<Rightarrow> nat list" where
  "prods st = (let
       h0 = unat (p_h0 st); h1 = unat (p_h1 st); h2 = unat (p_h2 st); h3 = unat (p_h3 st); h4 = unat (p_h4 st);
       r0 = unat (p_r0 st); r1 = unat (p_r1 st); r2 = unat (p_r2 st); r3 = unat (p_r3 st); r4 = unat (p_r4 st) in
     [h0 * r0 + h1 * (5 * r4) + h2 * (5 * r3) + h3 * (5 * r2) + h4 * (5 * r1),
      h0 * r1 + h1 * r0 + h2 * (5 * r4) + h3 * (5 * r3) + h4 * (5 * r2),
      h0 * r2 + h1 * r1 + h2 * r0 + h3 * (5 * r4) + h4 * (5 * r3),
      h0 * r3 + h1 * r2 + h2 * r1 + h3 * r0 + h4 * (5 * r4),
      h0 * r4 + h1 * r3 + h2 * r2 + h3 * r1 + h4 * r0])"

text \<open>Bounds of the sums, in multiples of \<open>2 ^ 52\<close>: the second leaves room for the carry into 32 bits.\<close>

lemma prods_bounds:
  assumes "poly_key st" "poly_added st"
  shows "prods st ! 0 \<le> 321000000000000000" "prods st ! 1 \<le> 282000000000000000" "prods st ! 2 \<le> 246000000000000000"
    "prods st ! 3 \<le> 219000000000000000" "prods st ! 4 \<le> 36662000000000000"
proof -
  note b = assms [unfolded poly_key_def poly_added_def]
  have m: "x \<le> X \<Longrightarrow> y \<le> Y \<Longrightarrow> x * (5 * y) \<le> 5 * (X * Y)" for x X y Y :: nat
    using mult_le_mono [of x X y Y] by simp
  let ?h0 = "unat (p_h0 st)" and ?h1 = "unat (p_h1 st)" and ?h2 = "unat (p_h2 st)" and ?h3 = "unat (p_h3 st)" and ?h4 = "unat (p_h4 st)"
  let ?r0 = "unat (p_r0 st)" and ?r1 = "unat (p_r1 st)" and ?r2 = "unat (p_r2 st)" and ?r3 = "unat (p_r3 st)" and ?r4 = "unat (p_r4 st)"
  have h: "?h0 \<le> 2867108863" "?h1 \<le> 134217726" "?h2 \<le> 134217726" "?h3 \<le> 134217726" "?h4 \<le> 100663294"
    and r: "?r0 \<le> 67108863" "?r1 \<le> 67108611" "?r2 \<le> 67092735" "?r3 \<le> 66076671" "?r4 \<le> 1048575" using b by simp_all
  note hr = mult_le_mono [OF h(1) r(1)] mult_le_mono [OF h(1) r(2)] mult_le_mono [OF h(1) r(3)] mult_le_mono [OF h(1) r(4)] mult_le_mono [OF h(1) r(5)]
    mult_le_mono [OF h(2) r(1)] mult_le_mono [OF h(2) r(2)] mult_le_mono [OF h(2) r(3)] mult_le_mono [OF h(2) r(4)] m [OF h(2) r(5)]
    mult_le_mono [OF h(3) r(1)] mult_le_mono [OF h(3) r(2)] mult_le_mono [OF h(3) r(3)] m [OF h(3) r(4)] m [OF h(3) r(5)]
    mult_le_mono [OF h(4) r(1)] mult_le_mono [OF h(4) r(2)] m [OF h(4) r(3)] m [OF h(4) r(4)] m [OF h(4) r(5)]
    mult_le_mono [OF h(5) r(1)] m [OF h(5) r(2)] m [OF h(5) r(3)] m [OF h(5) r(4)] m [OF h(5) r(5)]
  note hr = hr [simplified]
  show "prods st ! 0 \<le> 321000000000000000" unfolding prods_def Let_def by (simp, use hr in linarith)
  show "prods st ! 1 \<le> 282000000000000000" unfolding prods_def Let_def by (simp, use hr in linarith)
  show "prods st ! 2 \<le> 246000000000000000" unfolding prods_def Let_def by (simp, use hr in linarith)
  show "prods st ! 3 \<le> 219000000000000000" unfolding prods_def Let_def by (simp, use hr in linarith)
  show "prods st ! 4 \<le> 36662000000000000" unfolding prods_def Let_def by (simp, use hr in linarith)
qed
lemma products_exact:
  assumes "poly_key st" "poly_added st"
  shows "unat (poly1305_products st ! 0) = prods st ! 0" "unat (poly1305_products st ! 1) = prods st ! 1"
    "unat (poly1305_products st ! 2) = prods st ! 2" "unat (poly1305_products st ! 3) = prods st ! 3"
    "unat (poly1305_products st ! 4) = prods st ! 4"
proof -
  note b = prods_bounds [OF assms] and s = assms(1) [unfolded poly_key_def]
  have u: "unat (poly1305_products st ! i) = prods st ! i" if "i < 5" "prods st ! i < 2 ^ 64" for i
  proof -
    have "i = 0 \<or> i = 1 \<or> i = 2 \<or> i = 3 \<or> i = 4" using that(1) by linarith
    then show ?thesis using that(2) s unfolding prods_def poly1305_products_def Let_def
      by (elim disjE; simp; intro unat_sum5; simp add: unat_mul32)
  qed
  show "unat (poly1305_products st ! 0) = prods st ! 0" by (rule u) (use b(1) in simp_all)
  show "unat (poly1305_products st ! 1) = prods st ! 1" by (rule u) (use b(2) in simp_all)
  show "unat (poly1305_products st ! 2) = prods st ! 2" by (rule u) (use b(3) in simp_all)
  show "unat (poly1305_products st ! 3) = prods st ! 3" by (rule u) (use b(4) in simp_all)
  show "unat (poly1305_products st ! 4) = prods st ! 4" by (rule u) (use b(5) in simp_all)
qed

text \<open>One carry: the 32-bit truncation loses nothing while the sum is below \<open>2 ^ 58\<close>.\<close>

lemma low32: "unat (ucast (t :: u64) AND 0x3ffffff :: u32) = unat t mod 2 ^ 26"
proof -
  have "unat t mod 2 ^ 32 mod 2 ^ 26 = unat t mod 2 ^ 26" by (rule mod_mod_cancel) (simp add: le_imp_power_dvd)
  then show ?thesis unfolding unat_low26 by (simp add: unat_ucast_mod)
qed

lemma carry32:
  fixes t :: u64
  assumes "unat t < 2 ^ 58"
  shows "unat (ucast (drop_bit 26 t) :: u32) = unat t div 2 ^ 26"
proof -
  have "unat t div 2 ^ 26 < 2 ^ 32" using assms by (simp add: div_less_iff_less_mult)
  then show ?thesis by (simp add: unat_ucast_mod unat_drop_bit_div)
qed

text \<open>The carries as numbers.\<close>

definition carried :: "nat list \<Rightarrow> nat \<Rightarrow> nat" where
  "carried t i = rec_nat (t ! 0) (\<lambda>i c. t ! Suc i + c div 2 ^ 26) i"

lemma carried_simps [simp]:
  "carried t 0 = t ! 0" "carried t (Suc i) = t ! Suc i + carried t i div 2 ^ 26"
  by (simp_all add: carried_def)

lemma mul_limbs:
  assumes "poly_key st" "poly_added st"
  defines "c \<equiv> carried (prods st)"
  shows "unat (p_h0 (poly1305_donna_mul st)) = c 0 mod 2 ^ 26 + 5 * (c 4 div 2 ^ 26)"
    "unat (p_h1 (poly1305_donna_mul st)) = c 1 mod 2 ^ 26" "unat (p_h2 (poly1305_donna_mul st)) = c 2 mod 2 ^ 26"
    "unat (p_h3 (poly1305_donna_mul st)) = c 3 mod 2 ^ 26" "unat (p_h4 (poly1305_donna_mul st)) = c 4 mod 2 ^ 26"
    "5 * (c 4 div 2 ^ 26) \<le> 2732000000"
    "c 1 < 2 ^ 58" "c 2 < 2 ^ 58" "c 3 < 2 ^ 58" "c 4 < 2 ^ 58"
proof -
  note b = prods_bounds [OF assms(1,2)] and e = products_exact [OF assms(1,2)]
  define t where "t = poly1305_products st"
  define t1 where "t1 = t ! 1 + drop_bit 26 (t ! 0)"
  define t2 where "t2 = t ! 2 + ucast (ucast (drop_bit 26 t1) :: u32)"
  define t3 where "t3 = t ! 3 + ucast (ucast (drop_bit 26 t2) :: u32)"
  define t4 where "t4 = t ! 4 + ucast (ucast (drop_bit 26 t3) :: u32)"
  define n where "n = prods st"
  have e: "unat (t ! 0) = n ! 0" "unat (t ! 1) = n ! 1" "unat (t ! 2) = n ! 2" "unat (t ! 3) = n ! 3" "unat (t ! 4) = n ! 4"
    using e by (simp_all add: t_def n_def)
  have b: "n ! 0 \<le> 321000000000000000" "n ! 1 \<le> 282000000000000000" "n ! 2 \<le> 246000000000000000"
    "n ! 3 \<le> 219000000000000000" "n ! 4 \<le> 36662000000000000" using b by (simp_all add: n_def)
  have c: "c 0 = n ! 0" "c 1 = n ! 1 + c 0 div 2 ^ 26" "c 2 = n ! 2 + c 1 div 2 ^ 26" "c 3 = n ! 3 + c 2 div 2 ^ 26" "c 4 = n ! 4 + c 3 div 2 ^ 26"
    unfolding c_def n_def by (simp_all add: numeral_eq_Suc del: power_Suc)
  have k1: "c 1 \<le> 282000005000000000" using add_mono [OF b(2) div_le_mono [OF b(1), of "2 ^ 26"]] unfolding c(1,2) by simp
  have k2: "c 2 \<le> 246000005000000000" using add_mono [OF b(3) div_le_mono [OF k1, of "2 ^ 26"]] unfolding c(3) by simp
  have k3: "c 3 \<le> 219000005000000000" using add_mono [OF b(4) div_le_mono [OF k2, of "2 ^ 26"]] unfolding c(4) by simp
  have k4: "c 4 \<le> 36662005000000000" using add_mono [OF b(5) div_le_mono [OF k3, of "2 ^ 26"]] unfolding c(5) by simp
  note k = k1 k2 k3 k4
  show l: "c 1 < 2 ^ 58" "c 2 < 2 ^ 58" "c 3 < 2 ^ 58" "c 4 < 2 ^ 58" using k by simp_all
  show m: "5 * (c 4 div 2 ^ 26) \<le> 2732000000" using div_le_mono [OF k4, of "2 ^ 26"] by simp
  have add: "unat (x + y :: u64) = p + q" if "unat x = p" "unat y = q" "p + q < 2 ^ 58" for x y p q
    using that by (subst unat_plus) simp_all
  have up: "unat (ucast (ucast (drop_bit 26 x) :: u32) :: u64) = unat x div 2 ^ 26" if "unat x < 2 ^ 58" for x :: u64
    unfolding unat_ucast_u32_u64 by (rule carry32 [OF that])
  have d: "unat (drop_bit 26 (t ! 0)) = c 0 div 2 ^ 26" unfolding unat_drop_bit_div e(1) c(1) by (rule refl)
  have 1: "unat t1 = c 1" unfolding t1_def c(2) by (rule add [OF e(2) d l(1) [unfolded c(2)]])
  have 2: "unat t2 = c 2" unfolding t2_def c(3) by (rule add [OF e(3) _ l(2) [unfolded c(3)]]) (simp only: up 1 l)
  have 3: "unat t3 = c 3" unfolding t3_def c(4) by (rule add [OF e(4) _ l(3) [unfolded c(4)]]) (simp only: up 2 l)
  have 4: "unat t4 = c 4" unfolding t4_def c(5) by (rule add [OF e(5) _ l(4) [unfolded c(5)]]) (simp only: up 3 l)
  have u: "poly1305_donna_mul st = st\<lparr>p_h0 := (ucast (t ! 0) AND 0x3ffffff) + ucast (drop_bit 26 t4) * 5, p_h1 := ucast t1 AND 0x3ffffff,
      p_h2 := ucast t2 AND 0x3ffffff, p_h3 := ucast t3 AND 0x3ffffff, p_h4 := ucast t4 AND 0x3ffffff\<rparr>"
    unfolding poly1305_donna_mul_def Let_def t_def [symmetric] t1_def [symmetric]
    unfolding t2_def [symmetric] unfolding t3_def [symmetric] unfolding t4_def [symmetric] by (rule refl)
  have f: "p_h0 (poly1305_donna_mul st) = (ucast (t ! 0) AND 0x3ffffff) + ucast (drop_bit 26 t4) * 5"
    "p_h1 (poly1305_donna_mul st) = ucast t1 AND 0x3ffffff" "p_h2 (poly1305_donna_mul st) = ucast t2 AND 0x3ffffff"
    "p_h3 (poly1305_donna_mul st) = ucast t3 AND 0x3ffffff" "p_h4 (poly1305_donna_mul st) = ucast t4 AND 0x3ffffff"
    unfolding u by simp_all
  have 5: "unat (ucast (drop_bit 26 t4) * 5 :: u32) = 5 * (c 4 div 2 ^ 26)"
  proof -
    have "unat (ucast (drop_bit 26 t4) :: u32) = c 4 div 2 ^ 26" by (simp only: carry32 4 l)
    then show ?thesis using m unfolding unat_word_ariths by simp
  qed
  show "unat (p_h1 (poly1305_donna_mul st)) = c 1 mod 2 ^ 26" "unat (p_h2 (poly1305_donna_mul st)) = c 2 mod 2 ^ 26"
    "unat (p_h3 (poly1305_donna_mul st)) = c 3 mod 2 ^ 26" "unat (p_h4 (poly1305_donna_mul st)) = c 4 mod 2 ^ 26"
    by (simp_all only: f low32 1 2 3 4 l)
  have 0: "unat (ucast (t ! 0) AND 0x3ffffff :: u32) = c 0 mod 2 ^ 26"
    by (simp only: low32 e(1) c(1))
  have "c 0 mod 2 ^ 26 < 2 ^ 26" by (rule mod_less_divisor) simp
  then show "unat (p_h0 (poly1305_donna_mul st)) = c 0 mod 2 ^ 26 + 5 * (c 4 div 2 ^ 26)"
    unfolding f(1) using m by (subst unat_plus) (simp_all only: 0 5, simp)
qed
text \<open>Folding the carry out of the fifth limb keeps the number modulo \<open>2 ^ 130 - 5\<close>.\<close>

lemma prods_value:
  "\<exists>K. poly_h st * poly_r st + 5 * K = limbs (prods st ! 0) (prods st ! 1) (prods st ! 2) (prods st ! 3) (prods st ! 4) + 2 ^ 130 * K"
proof -
  obtain h0 h1 h2 h3 h4 where h: "unat (p_h0 st) = h0" "unat (p_h1 st) = h1" "unat (p_h2 st) = h2" "unat (p_h3 st) = h3" "unat (p_h4 st) = h4"
    by simp
  obtain r0 r1 r2 r3 r4 where r: "unat (p_r0 st) = r0" "unat (p_r1 st) = r1" "unat (p_r2 st) = r2" "unat (p_r3 st) = r3" "unat (p_r4 st) = r4"
    by simp
  show ?thesis unfolding poly_h_def poly_r_def prods_def limbs_def Let_def h r
    by (rule exI [of _ "h1 * r4 + h2 * r3 + h3 * r2 + h4 * r1 + 2 ^ 26 * (h2 * r4 + h3 * r3 + h4 * r2) +
        2 ^ 52 * (h3 * r4 + h4 * r3) + 2 ^ 78 * (h4 * r4)"]) (simp add: algebra_simps)
qed

lemma carry_sum:
  assumes "t0 = 2 ^ 26 * q0 + m0" "t1 + q0 = 2 ^ 26 * q1 + m1" "t2 + q1 = 2 ^ 26 * q2 + m2" "t3 + q2 = 2 ^ 26 * q3 + m3"
    "t4 + q3 = 2 ^ 26 * q4 + m4"
  shows "limbs t0 t1 t2 t3 t4 = limbs m0 m1 m2 m3 m4 + 2 ^ 130 * q4"
  using assms unfolding limbs_def by simp

lemma carried_value:
  "limbs (t ! 0) (t ! 1) (t ! 2) (t ! 3) (t ! 4) = limbs (carried t 0 mod 2 ^ 26) (carried t 1 mod 2 ^ 26) (carried t 2 mod 2 ^ 26)
     (carried t 3 mod 2 ^ 26) (carried t 4 mod 2 ^ 26) + 2 ^ 130 * (carried t 4 div 2 ^ 26)"
proof (rule carry_sum)
  have c: "carried t 1 = t ! 1 + carried t 0 div 2 ^ 26" "carried t 2 = t ! 2 + carried t 1 div 2 ^ 26"
    "carried t 3 = t ! 3 + carried t 2 div 2 ^ 26" "carried t 4 = t ! 4 + carried t 3 div 2 ^ 26"
    by (simp_all add: numeral_eq_Suc del: power_Suc)
  note d = mult_div_mod_eq [symmetric, of _ "2 ^ 26"]
  show "t ! 0 = 2 ^ 26 * (carried t 0 div 2 ^ 26) + carried t 0 mod 2 ^ 26" unfolding d [symmetric] by (rule carried_simps(1) [symmetric])
  show "t ! 1 + carried t 0 div 2 ^ 26 = 2 ^ 26 * (carried t 1 div 2 ^ 26) + carried t 1 mod 2 ^ 26"
    "t ! 2 + carried t 1 div 2 ^ 26 = 2 ^ 26 * (carried t 2 div 2 ^ 26) + carried t 2 mod 2 ^ 26"
    "t ! 3 + carried t 2 div 2 ^ 26 = 2 ^ 26 * (carried t 3 div 2 ^ 26) + carried t 3 mod 2 ^ 26"
    "t ! 4 + carried t 3 div 2 ^ 26 = 2 ^ 26 * (carried t 4 div 2 ^ 26) + carried t 4 mod 2 ^ 26"
    unfolding mult_div_mod_eq by (rule c [symmetric])+
qed

lemma poly1305_donna_mul_mod:
  assumes "poly_key st" "poly_added st"
  shows "poly_h (poly1305_donna_mul st) mod poly_p = poly_h st * poly_r st mod poly_p" "poly_reduced (poly1305_donna_mul st)"
proof -
  define c where "c = carried (prods st)"
  define q where "q = c 4 div 2 ^ 26"
  note m = mul_limbs [OF assms, folded c_def, folded q_def]
  have l: "c i mod 2 ^ 26 < 2 ^ 26" for i by (rule mod_less_divisor) simp
  obtain K where K: "poly_h st * poly_r st + 5 * K = limbs (prods st ! 0) (prods st ! 1) (prods st ! 2) (prods st ! 3) (prods st ! 4) + 2 ^ 130 * K"
    using prods_value by blast
  have h: "poly_h (poly1305_donna_mul st) = limbs (c 0 mod 2 ^ 26) (c 1 mod 2 ^ 26) (c 2 mod 2 ^ 26) (c 3 mod 2 ^ 26) (c 4 mod 2 ^ 26) + 5 * q"
    unfolding poly_h_def m by (simp add: limbs_def)
  have "poly_h st * poly_r st + 5 * (K + q) = poly_h (poly1305_donna_mul st) + 2 ^ 130 * (K + q)"
    using K unfolding carried_value [of "prods st", folded c_def, folded q_def] h by simp
  then have "poly_h st * poly_r st = poly_h (poly1305_donna_mul st) + poly_p * (K + q)" unfolding p_simp by simp
  then show "poly_h (poly1305_donna_mul st) mod poly_p = poly_h st * poly_r st mod poly_p" by simp
  show "poly_reduced (poly1305_donna_mul st)" unfolding poly_reduced_def m(1-5) using m(6) l [of 0] l by simp
qed

text \<open>Nothing but the limbs is changed.\<close>

definition same_key :: "poly1305_state_st \<Rightarrow> poly1305_state_st \<Rightarrow> bool" where
  "same_key st st' \<longleftrightarrow> (\<exists>a b c d e. st' = st\<lparr>p_h0 := a, p_h1 := b, p_h2 := c, p_h3 := d, p_h4 := e\<rparr>)"

lemma same_key_refl [simp]: "same_key st st"
  unfolding same_key_def by (rule exI [of _ "p_h0 st"], rule exI [of _ "p_h1 st"], rule exI [of _ "p_h2 st"], rule exI [of _ "p_h3 st"], rule exI [of _ "p_h4 st"]) simp

lemma same_key_trans: "same_key a b \<Longrightarrow> same_key b c \<Longrightarrow> same_key a c"
  unfolding same_key_def by fastforce

lemma same_key_simps:
  assumes "same_key st st'"
  shows "poly_key st' = poly_key st" "poly_r st' = poly_r st" "p_buf st' = p_buf st" "buf_used st' = buf_used st" "p_key st' = p_key st"
  using assms by (auto simp: same_key_def poly_key_def poly_r_def)

lemma same_key_mul: "same_key st (poly1305_donna_mul st)"
  unfolding same_key_def poly1305_donna_mul_def Let_def by blast

lemma same_key_add: "same_key st (poly1305_add m hibit st)"
  unfolding same_key_def poly1305_add_def Let_def by blast

section \<open>Adding a block\<close>

lemma unat_join: "unat (push_bit 32 (ucast (a :: u32)) OR ucast (b :: u32) :: u64) = 2 ^ 32 * unat a + unat b"
proof -
  have "push_bit 32 (ucast a) OR ucast b = (push_bit 32 (ucast a) + ucast b :: u64)"
    by (rule disjunctive_add [symmetric]) (auto simp: bit_simps dest: bit_imp_le_length)
  moreover have "unat (push_bit 32 (ucast a) :: u64) = 2 ^ 32 * unat a"
    using unat_u32_less [of a] by (simp add: push_bit_eq_mult unat_word_ariths)
  ultimately show ?thesis using unat_u32_less [of a] unat_u32_less [of b] by (simp add: unat_plus)
qed

text \<open>The 26-bit slices of four 32-bit words are the words.\<close>

lemma slice: "0 < c \<Longrightarrow> x < c * a \<Longrightarrow> (c * a * t + x) div c mod (a * b) = a * (t mod b) + x div (c :: nat)"
proof -
  assume c: "0 < c" "x < c * a"
  have "(c * a * t + x) div c = a * t + x div c" using c(1) by (simp add: mult.assoc)
  moreover have "x div c < a" using c by (simp add: div_less_iff_less_mult mult.commute)
  ultimately show ?thesis by (simp add: mod_mult2_eq)
qed

lemma slices:
  fixes t0 t1 t2 t3 :: nat
  assumes "t0 < 2 ^ 32" "t1 < 2 ^ 32" "t2 < 2 ^ 32" "t3 < 2 ^ 32"
  shows "limbs (t0 mod 2 ^ 26) ((2 ^ 32 * t1 + t0) div 2 ^ 26 mod 2 ^ 26) ((2 ^ 32 * t2 + t1) div 2 ^ 20 mod 2 ^ 26)
      ((2 ^ 32 * t3 + t2) div 2 ^ 14 mod 2 ^ 26) (t3 div 2 ^ 8) = t0 + 2 ^ 32 * t1 + 2 ^ 64 * t2 + 2 ^ 96 * t3"
proof -
  have 1: "(2 ^ 32 * t1 + t0) div 2 ^ 26 mod 2 ^ 26 = 2 ^ 6 * (t1 mod 2 ^ 20) + t0 div 2 ^ 26"
    using slice [of "2 ^ 26" t0 "2 ^ 6" t1 "2 ^ 20"] assms(1) by simp
  have 2: "(2 ^ 32 * t2 + t1) div 2 ^ 20 mod 2 ^ 26 = 2 ^ 12 * (t2 mod 2 ^ 14) + t1 div 2 ^ 20"
    using slice [of "2 ^ 20" t1 "2 ^ 12" t2 "2 ^ 14"] assms(2) by simp
  have 3: "(2 ^ 32 * t3 + t2) div 2 ^ 14 mod 2 ^ 26 = 2 ^ 18 * (t3 mod 2 ^ 8) + t2 div 2 ^ 14"
    using slice [of "2 ^ 14" t2 "2 ^ 18" t3 "2 ^ 8"] assms(3) by simp
  obtain a0 b0 a1 b1 a2 b2 a3 b3 where d: "t0 div 2 ^ 26 = a0" "t0 mod 2 ^ 26 = b0" "t1 div 2 ^ 20 = a1" "t1 mod 2 ^ 20 = b1"
    "t2 div 2 ^ 14 = a2" "t2 mod 2 ^ 14 = b2" "t3 div 2 ^ 8 = a3" "t3 mod 2 ^ 8 = b3" by simp
  have e: "t0 = 2 ^ 26 * a0 + b0" "t1 = 2 ^ 20 * a1 + b1" "t2 = 2 ^ 14 * a2 + b2" "t3 = 2 ^ 8 * a3 + b3"
    unfolding d [symmetric] by (rule mult_div_mod_eq [symmetric])+
  show ?thesis unfolding 1 2 3 limbs_def d unfolding e by simp
qed
lemma unat_U8TO32: "unat (U8TO32_LE m) = le_nat (take 4 m)"
proof -
  have "le_nat (take 4 m) < 256 ^ length (take 4 m)" by (rule le_nat_bound)
  also have "\<dots> \<le> 256 ^ 4" by (rule power_increasing) simp_all
  finally show ?thesis unfolding U8TO32_LE_def by (simp add: unat_of_nat)
qed

lemma le_nat_append2: "le_nat (xs @ ys) = le_nat xs + 256 ^ length xs * le_nat ys"
  by (induction xs) (simp_all add: algebra_simps)

lemma le_nat_words:
  assumes "length m \<ge> 16"
  shows "le_nat (take 16 m) = le_nat (take 4 m) + 2 ^ 32 * le_nat (take 4 (drop 4 m)) + 2 ^ 64 * le_nat (take 4 (drop 8 m)) +
    2 ^ 96 * le_nat (take 4 (drop 12 m))"
proof -
  have t: "take 16 m = take 4 m @ take 4 (drop 4 m) @ take 4 (drop 8 m) @ take 4 (drop 12 m)"
    using take_add [of 4 12 m] take_add [of 4 8 "drop 4 m"] take_add [of 4 4 "drop 8 m"] by simp
  show ?thesis unfolding t using assms by (simp add: le_nat_append2)
qed

lemma unat_limb_add:
  "unat h \<le> a \<Longrightarrow> a + 2 ^ 26 \<le> 2 ^ 32 \<Longrightarrow> unat (ucast (ucast (h :: u32) + (x AND 0x3ffffff)) :: u32) = unat h + unat (x :: u64) mod 2 ^ 26"
proof -
  assume a: "unat h \<le> a" "a + 2 ^ 26 \<le> 2 ^ 32"
  have l: "unat x mod 2 ^ 26 < 2 ^ 26" by (rule mod_less_divisor) simp
  have "unat (ucast h + (x AND 0x3ffffff) :: u64) = unat h + unat x mod 2 ^ 26"
    by (subst unat_plus) (use a l in \<open>simp_all add: unat_low26\<close>)
  then show ?thesis using a l by (simp add: unat_ucast_mod)
qed

lemma unat_slice_add:
  "unat h < 2 ^ 26 \<Longrightarrow> unat (ucast (ucast (h :: u32) + (drop_bit k (push_bit 32 (ucast (a :: u32)) OR ucast (b :: u32)) AND 0x3ffffff) :: u64) :: u32) =
    unat h + (2 ^ 32 * unat a + unat b) div 2 ^ k mod 2 ^ 26"
  unfolding unat_join [symmetric] unat_drop_bit_div [symmetric] by (rule unat_limb_add [of _ "2 ^ 26"]) simp_all

lemma poly1305_add_value:
  assumes "poly_reduced st" "length m \<ge> 16" "hibit = 0 \<or> hibit = push_bit 24 1"
  shows "poly_h (poly1305_add m hibit st) = poly_h st + (le_nat (take 16 m) + 2 ^ 104 * unat hibit)" "poly_added (poly1305_add m hibit st)"
proof -
  let ?s = "poly1305_add m hibit st"
  define t0 t1 t2 t3 where "t0 = U8TO32_LE m" and "t1 = U8TO32_LE (drop 4 m)" and "t2 = U8TO32_LE (drop 8 m)" and "t3 = U8TO32_LE (drop 12 m)"
  note r = assms(1) [unfolded poly_reduced_def]
  have l: "x mod 2 ^ 26 < 2 ^ 26" for x :: nat by (rule mod_less_divisor) simp
  have s: "p_h0 ?s = p_h0 st + (t0 AND 0x3ffffff)"
      "p_h1 ?s = ucast (ucast (p_h1 st) + (drop_bit 26 (push_bit 32 (ucast t1) OR ucast t0) AND 0x3ffffff) :: u64)"
      "p_h2 ?s = ucast (ucast (p_h2 st) + (drop_bit 20 (push_bit 32 (ucast t2) OR ucast t1) AND 0x3ffffff) :: u64)"
      "p_h3 ?s = ucast (ucast (p_h3 st) + (drop_bit 14 (push_bit 32 (ucast t3) OR ucast t2) AND 0x3ffffff) :: u64)"
      "p_h4 ?s = p_h4 st + (drop_bit 8 t3 OR hibit)"
    unfolding poly1305_add_def Let_def t0_def t1_def t2_def t3_def by simp_all
  obtain y0 y1 y2 y3 where y: "unat t0 mod 2 ^ 26 = y0" "(2 ^ 32 * unat t1 + unat t0) div 2 ^ 26 mod 2 ^ 26 = y1"
      "(2 ^ 32 * unat t2 + unat t1) div 2 ^ 20 mod 2 ^ 26 = y2" "(2 ^ 32 * unat t3 + unat t2) div 2 ^ 14 mod 2 ^ 26 = y3" by simp
  have yl: "y0 < 2 ^ 26" "y1 < 2 ^ 26" "y2 < 2 ^ 26" "y3 < 2 ^ 26" unfolding y [symmetric] by (rule l)+
  have 0: "unat (p_h0 ?s) = unat (p_h0 st) + y0"
    unfolding s y(1) [symmetric] unat_low26 [symmetric] by (rule unat_plus) (use r yl(1) in \<open>simp add: unat_low26 y(1) [simplified]\<close>)
  have 1: "unat (p_h1 ?s) = unat (p_h1 st) + y1"
    unfolding s y(2) [symmetric] by (rule unat_slice_add) (use r in simp)
  have 2: "unat (p_h2 ?s) = unat (p_h2 st) + y2"
    unfolding s y(3) [symmetric] by (rule unat_slice_add) (use r in simp)
  have 3: "unat (p_h3 ?s) = unat (p_h3 st) + y3"
    unfolding s y(4) [symmetric] by (rule unat_slice_add) (use r in simp)
  have b: "unat t3 div 2 ^ 8 < 2 ^ 24" using unat_u32_less [of t3] by (simp add: div_less_iff_less_mult)
  have d: "drop_bit 8 t3 OR hibit = drop_bit 8 t3 + hibit"
  proof (rule disjunctive_add [symmetric])
    fix n
    have "n = 24" if "bit hibit n" using assms(3)
    proof
      assume "hibit = push_bit 24 1"
      then show ?thesis using that by (simp only: bit_push_bit_iff bit_1_iff) auto
    qed (use that in simp)
    moreover have "\<not> bit (drop_bit 8 t3) 24" by (auto simp: bit_drop_bit_eq dest: bit_imp_le_length)
    ultimately show "\<not> bit (drop_bit 8 t3) n \<or> \<not> bit hibit n" by blast
  qed
  have hb: "unat hibit \<le> 2 ^ 24" using assms(3) by auto
  have 4: "unat (drop_bit 8 t3 OR hibit) = unat t3 div 2 ^ 8 + unat hibit"
    unfolding d by (subst unat_plus) (use b hb in \<open>simp_all add: unat_drop_bit_div\<close>)
  have 5: "unat (p_h4 ?s) = unat (p_h4 st) + (unat t3 div 2 ^ 8 + unat hibit)"
    unfolding s by (subst unat_plus) (use r b hb in \<open>simp_all add: 4\<close>)
  have v: "limbs (a + a') (b + b') (c + c') (d + d') (e + (e' + x)) = limbs a b c d e + (limbs a' b' c' d' e' + 2 ^ 104 * x)"
    for a a' b b' c c' d d' e e' x by (simp add: limbs_def)
  show "poly_h ?s = poly_h st + (le_nat (take 16 m) + 2 ^ 104 * unat hibit)"
    unfolding poly_h_def 0 1 2 3 5 v y [symmetric] slices [OF unat_u32_less unat_u32_less unat_u32_less unat_u32_less]
    unfolding le_nat_words [OF assms(2)] t0_def t1_def t2_def t3_def unat_U8TO32 by (rule refl)
  show "poly_added ?s" unfolding poly_added_def 0 1 2 3 5
    using r yl b hb by simp
qed

section \<open>Absorbing blocks\<close>

text \<open>Between two blocks: the limbs are reduced and stand for \<open>a\<close>.\<close>

definition poly_at :: "nat \<Rightarrow> poly1305_state_st \<Rightarrow> bool" where
  "poly_at a st \<longleftrightarrow> poly_key st \<and> poly_reduced st \<and> poly_h st mod poly_p = a mod poly_p"

lemma absorb:
  assumes "poly_at a st" "length m \<ge> 16" "hibit = 0 \<or> hibit = push_bit 24 1"
  shows "poly_at ((a + (le_nat (take 16 m) + 2 ^ 104 * unat hibit)) * poly_r st mod poly_p) (poly1305_donna_mul (poly1305_add m hibit st))"
proof -
  let ?x = "le_nat (take 16 m) + 2 ^ 104 * unat hibit" and ?s = "poly1305_add m hibit st"
  have a: "poly_key st" "poly_reduced st" "poly_h st mod poly_p = a mod poly_p" using assms(1) by (simp_all add: poly_at_def)
  note ad = poly1305_add_value [OF a(2) assms(2,3)] and k = same_key_simps [OF same_key_add [of st m hibit]]
  have k': "poly_key ?s" using k a by simp
  note m = poly1305_donna_mul_mod [OF k' ad(2)]
  have "(poly_h st + ?x) * poly_r st mod poly_p = (a + ?x) * poly_r st mod poly_p"
    by (rule mod_mult_cong [OF mod_add_cong [OF a(3) refl] refl])
  then show ?thesis using m k' by (simp add: poly_at_def ad k same_key_simps [OF same_key_mul])
qed

lemma eval_step: "length b = 16 \<Longrightarrow> poly_eval r a (b @ m) = poly_eval r ((a + le_nat (b @ [1])) * r mod poly_p) m"
  by (subst poly_eval.simps) auto

lemma eval_mod: "0 < length m \<Longrightarrow> poly_eval r (a mod poly_p) m = poly_eval r a m"
proof -
  assume m: "0 < length m"
  have "(a mod poly_p + x) * r mod poly_p = (a + x) * r mod poly_p" for x
    by (rule mod_mult_cong [OF mod_add_cong [OF _ refl] refl]) simp
  then show ?thesis using m by (subst (1 2) poly_eval.simps) simp
qed
lemma le_nat_zeros: "le_nat (xs @ replicate n 0) = le_nat xs"
proof -
  have "le_nat (replicate n 0) = 0" by (induction n) simp_all
  then show ?thesis by (simp add: le_nat_append2)
qed

lemma eval_tail: "0 < length m \<Longrightarrow> length m < 16 \<Longrightarrow> poly_eval r a m = (a + le_nat (m @ [1])) * r mod poly_p"
  by (subst poly_eval.simps) (auto simp: poly_eval.simps)

lemma poly_at_tail:
  assumes "poly_at a st" "length m < 16"
  shows "poly_at (poly_eval (poly_r st) a m) (poly1305_donna_atmost15bytes m st) \<and> same_key st (poly1305_donna_atmost15bytes m st)"
proof (cases "m = []")
  case True
  then show ?thesis using assms by (simp add: poly1305_donna_atmost15bytes_def poly_eval.simps)
next
  case False
  let ?b = "m @ [1] @ replicate (15 - length m) 0"
  have b: "length ?b = 16" "le_nat (take 16 ?b) = le_nat (m @ [1])"
    using assms(2) le_nat_zeros [of "m @ [1]" "15 - length m"] by simp_all
  have "16 \<le> length ?b" unfolding b(1) by (rule order_refl)
  from absorb [OF assms(1) this, of 0] show ?thesis
    using False assms(2) same_key_trans [OF same_key_add same_key_mul] b
    by (simp add: poly1305_donna_atmost15bytes_def eval_tail)
qed

text \<open>The loop over the blocks evaluates the polynomial.\<close>

lemma poly1305_update_eval:
  "poly_at a st \<Longrightarrow> poly_at (poly_eval (poly_r st) a m) (poly1305_update m st) \<and> same_key st (poly1305_update m st)"
proof (induction m st arbitrary: a rule: poly1305_update.induct)
  case (1 m st)
  show ?case
  proof (cases "length m < 16")
    case True
    then show ?thesis using poly_at_tail [OF "1.prems" True] by (simp add: poly1305_update.simps [of m])
  next
    case False
    let ?s = "poly1305_donna_mul (poly1305_add m (push_bit 24 1) st)"
    have k: "same_key st ?s" by (rule same_key_trans [OF same_key_add same_key_mul])
    let ?a = "(a + (le_nat (take 16 m) + 2 ^ 104 * unat (push_bit 24 1 :: u32))) * poly_r st mod poly_p"
    have "16 \<le> length m" using False by simp
    then have at: "poly_at ?a ?s" by (intro absorb "1.prems" disjI2 refl)
    have l: "le_nat (take 16 m @ [1]) = le_nat (take 16 m) + 2 ^ 104 * unat (push_bit 24 1 :: u32)"
      using False by (simp add: le_nat_append2)
    have "m \<noteq> []" using False by auto
    then have e: "poly_eval (poly_r st) a m = poly_eval (poly_r st) ?a (drop 16 m)"
      by (subst poly_eval.simps) (simp only: l if_False)
    note ih = "1.IH" [OF False at, unfolded same_key_simps [OF k]]
    show ?thesis unfolding poly1305_update.simps [of m] e if_not_P [OF False] using ih same_key_trans [OF k] by blast
  qed
qed

lemma eval_append: "16 dvd length x \<Longrightarrow> poly_eval r a (x @ y) = poly_eval r (poly_eval r a x) y"
proof (induction r a x rule: poly_eval.induct)
  case (1 r a x)
  show ?case
  proof (cases "x = []")
    case True
    then show ?thesis by (simp add: poly_eval.simps [of r a "[]"])
  next
    case False
    then have l: "16 \<le> length x" using "1.prems" by (auto dest: dvd_imp_le)
    have d: "16 dvd length (drop 16 x)" using l "1.prems" by simp
    have "poly_eval r a (x @ y) = poly_eval r ((a + le_nat (take 16 x @ [1])) * r mod poly_p) (drop 16 x @ y)"
      using False l by (subst poly_eval.simps) simp
    also have "\<dots> = poly_eval r (poly_eval r ((a + le_nat (take 16 x @ [1])) * r mod poly_p) (drop 16 x)) y"
      by (rule "1.IH" [OF False d])
    also have "poly_eval r ((a + le_nat (take 16 x @ [1])) * r mod poly_p) (drop 16 x) = poly_eval r a x"
      using False by (subst (2) poly_eval.simps) simp
    finally show ?thesis .
  qed
qed

lemma eval_small: "a < poly_p \<Longrightarrow> poly_eval r a m < poly_p"
proof (induction r a m rule: poly_eval.induct)
  case (1 r a m)
  then show ?case by (subst poly_eval.simps) (simp add: p_simp)
qed

end
