(* ===== verification/Poly1305_Spec.thy ===== *)
theory Poly1305_Spec
  imports Poly1305_Num
begin

text \<open>
  The authenticator against RFC 8439: the pieces of a message are collected to its blocks, the limbs of the
  key are the clamped key, and the tag at the end is that of the standard, but for the values of the
  polynomial on which the last carry is lost.
\<close>

section \<open>Pieces\<close>

definition poly_holds :: "u8 list \<Rightarrow> nat \<Rightarrow> u8 list \<Rightarrow> poly1305_state_st \<Rightarrow> bool" where
  "poly_holds s r m st \<longleftrightarrow> poly_at (poly_eval r 0 (take (16 * (length m div 16)) m)) st \<and> poly_r st = r \<and> p_key st = s \<and>
     length (p_buf st) = 16 \<and> unat (buf_used st) = length m mod 16 \<and> take (length m mod 16) (p_buf st) = rest 16 m"

lemma unat_round_down: "unat (w AND NOT 0xf :: u64) = 16 * (unat w div 16)" "unat (w AND 0xf :: u64) = unat w mod 16"
proof -
  have m: "w AND 0xf = take_bit 4 w" by (simp add: take_bit_eq_mask mask_eq_exp_minus_1)
  then show r: "unat (w AND 0xf :: u64) = unat w mod 16" unfolding m unsigned_take_bit_eq by (simp add: take_bit_eq_mod)
  have "(w AND NOT 0xf) + (w AND 0xf) = w" by (subst disjunctive_add) (auto simp: bit_simps bit_eq_iff)
  then have "w AND NOT 0xf = w - (w AND 0xf)" by (simp add: eq_diff_eq)
  moreover have "w AND 0xf \<le> w" by (simp add: word_le_nat_alt r)
  ultimately have "unat (w AND NOT 0xf) = unat w - unat (w AND 0xf)" by (simp only: unat_sub)
  then show "unat (w AND NOT 0xf :: u64) = 16 * (unat w div 16)" unfolding r by (simp add: minus_mod_eq_mult_div)
qed


lemma round_down: "take (16 * (length (x @ y) div 16)) (x @ y) = x @ take (16 * (length y div 16)) y" if "16 dvd length x"
  using that by (auto simp: dvd_def)

lemma rest_aligned: "16 dvd length x \<Longrightarrow> rest 16 (x @ y) = rest 16 y"
  by (auto simp: dvd_def rest_def)

lemma take_rest: "take (16 * (length m div 16)) m @ rest 16 m = m"
  by (simp add: rest_def)

lemma length_rest16: "length (rest 16 m) = length m mod 16"
  by (simp add: rest_def minus_mod_eq_mult_div [symmetric])

lemma poly_at_buf [simp]:
  "poly_at a (st\<lparr>p_buf := b\<rparr>) = poly_at a st" "poly_at a (st\<lparr>buf_used := n\<rparr>) = poly_at a st"
  "poly_r (st\<lparr>p_buf := b\<rparr>) = poly_r st" "poly_r (st\<lparr>buf_used := n\<rparr>) = poly_r st"
  by (simp_all add: poly_at_def poly_key_def poly_reduced_def poly_h_def poly_r_def)

lemma holds_aligned:
  "16 dvd length m \<Longrightarrow> poly_holds s r m st \<longleftrightarrow>
    poly_at (poly_eval r 0 m) st \<and> poly_r st = r \<and> p_key st = s \<and> length (p_buf st) = 16 \<and> buf_used st = 0"
  by (auto simp: poly_holds_def dvd_def rest_def unat_eq_zero)

text \<open>The bytes behind the last complete block, topped up.\<close>

lemma poly1305_fill_holds:
  assumes "poly_holds s r m st" "length p < 2 ^ 64"
  shows "\<exists>k st'. poly1305_fill p st = Some (drop k p, st') \<and> k \<le> length p \<and> poly_holds s r (m @ take k p) st' \<and>
    (k = length p \<or> 16 dvd length (m @ take k p))"
proof (cases "length m mod 16 = 0")
  case True
  then have "buf_used st = 0" using assms(1) by (simp add: poly_holds_def unat_eq_zero)
  then have "poly1305_fill p st = Some (drop 0 p, st)" by (simp add: poly1305_fill_def)
  then show ?thesis using assms(1) True by (intro exI [of _ 0] exI [of _ st]) auto
next
  case False
  define n where "n = length m mod 16"
  define q where "q = take (16 * (length m div 16)) m"
  define k where "k = min (16 - n) (length p)"
  have n: "0 < n" "n < 16" using False by (simp_all add: n_def)
  have "length q = 16 * (length m div 16)" by (simp add: q_def)
  then have q: "16 dvd length q" "m = q @ rest 16 m" "length (rest 16 m) = n"
    by (simp_all add: q_def take_rest n_def length_rest16)
  have h: "poly_at (poly_eval r 0 q) st" "poly_r st = r" "p_key st = s" "length (p_buf st) = 16" "unat (buf_used st) = n"
    "take n (p_buf st) = rest 16 m" using assms(1) by (simp_all add: poly_holds_def q_def n_def)
  have bu: "buf_used st \<noteq> 0" using h(5) n(1) by auto
  define todo where "todo = (if ucast (16 - buf_used st) > (word_of_nat (length p) :: u64) then ucast (word_of_nat (length p) :: u64) else 16 - buf_used st)"
  have s16: "unat (16 - buf_used st) = 16 - n" using n(2) by (simp add: unat_sub word_le_nat_alt h(5))
  have todo: "unat todo = k"
    using assms(2) s16 by (auto simp: todo_def k_def word_less_nat_alt unat_of_nat unat_ucast_mod)
  have kn: "k \<le> length p" "n + k \<le> 16" using n by (simp_all add: k_def)
  have bu': "unat (buf_used st + todo) = n + k" using kn h(5) todo by (subst unat_plus) simp_all
  obtain buf where buf: "put (p_buf st) n (take k p) = Some buf" using put_Some [of n "take k p" "p_buf st"] kn h(4) by auto
  have len: "length buf = 16" using length_put [OF buf] h(4) by simp
  have tb: "take (n + k) buf = rest 16 m @ take k p" using take_put [OF buf] kn h(6) by simp
  let ?s = "st\<lparr>p_buf := buf, buf_used := buf_used st + todo\<rparr>"
  have at: "poly_at (poly_eval r 0 q) ?s" using h(1) by simp
  have r: "poly_r ?s = r" using h(2) by simp
  let ?t = "if buf_used ?s = 16 then (poly1305_update (take 16 buf) ?s)\<lparr>buf_used := 0\<rparr> else ?s"
  have e: "poly1305_fill p st = Some (drop k p, ?t)"
    unfolding poly1305_fill_def Let_def todo_def [symmetric] h(5) todo using bu buf by simp
  have b16: "buf_used ?s = 16 \<longleftrightarrow> n + k = 16" using bu' by (simp add: word_unat_eq_iff)
  have mk: "m @ take k p = q @ rest 16 m @ take k p" using q(2) by simp
  have l: "length (rest 16 m @ take k p) = n + k" using q(3) kn by simp
  have "poly_holds s r (m @ take k p) ?t"
  proof (cases "n + k = 16")
    case True
    have t: "take 16 buf = rest 16 m @ take k p" using tb True by simp
    note u = poly1305_update_eval [OF at, of "take 16 buf", unfolded r]
    have "poly_at (poly_eval r 0 (q @ take 16 buf)) (poly1305_update (take 16 buf) ?s)" using u eval_append [OF q(1)] by simp
    moreover have "16 dvd length (q @ take 16 buf)" using q(1) len by simp
    moreover have "poly_r (poly1305_update (take 16 buf) ?s) = r" "p_key (poly1305_update (take 16 buf) ?s) = s"
      "length (p_buf (poly1305_update (take 16 buf) ?s)) = 16"
      unfolding same_key_simps [OF conjunct2 [OF u]] using h len by simp_all
    ultimately show ?thesis using b16 True unfolding mk t [symmetric] by (simp add: holds_aligned)
  next
    case False
    then show ?thesis unfolding poly_holds_def mk round_down [OF q(1)] rest_aligned [OF q(1)] using at r b16 bu' kn tb l h(3) len q(1)
      by (auto simp: rest_short mod_eq_0_iff_dvd dvd_def)
  qed
  moreover have "k = length p \<or> 16 dvd length (m @ take k p)"
  proof (cases "k = length p")
    case False
    then have "n + k = 16" using n by (simp add: k_def min_def split: if_splits)
    then have "length (m @ take k p) = length q + 16" unfolding mk length_append using l by simp
    then show ?thesis using q(1) by simp
  qed simp
  ultimately show ?thesis using e kn(1) by blast
qed


lemma poly1305_update_holds:
  assumes "poly_holds s r m st" "length p < 2 ^ 64"
  shows "\<exists>st'. CRYPTO_poly1305_update p st = Some st' \<and> poly_holds s r (m @ p) st'"
proof -
  obtain k st1 where f: "poly1305_fill p st = Some (drop k p, st1)" "k \<le> length p" "poly_holds s r (m @ take k p) st1"
    "k = length p \<or> 16 dvd length (m @ take k p)" using poly1305_fill_holds [OF assms] by blast
  define x where "x = m @ take k p"
  define d where "d = drop k p"
  define n where "n = length d"
  have xd: "m @ p = x @ d" by (simp add: x_def d_def)
  have n64: "n < 2 ^ 64" using assms(2) by (simp add: n_def d_def)
  show ?thesis
  proof (cases "n = 0")
    case True
    then have "CRYPTO_poly1305_update p st = Some st1" using f(1,2) by (simp add: CRYPTO_poly1305_update_def n_def d_def)
    then show ?thesis using f(3) True xd by (simp add: x_def n_def d_def)
  next
    case False
    then have al: "16 dvd length x" using f(4) by (auto simp: n_def d_def x_def)
    have h: "poly_at (poly_eval r 0 x) st1" "poly_r st1 = r" "p_key st1 = s" "length (p_buf st1) = 16" "buf_used st1 = 0"
      using f(3) by (simp_all add: x_def [symmetric] holds_aligned [OF al])
    define w where "w = (word_of_nat n :: u64)"
    have w: "unat w = n" using n64 by (simp add: w_def unat_of_nat)
    define c where "c = 16 * (n div 16)"
    define st2 where "st2 = (if w \<ge> 16 then poly1305_update (take c d) st1 else st1)"
    have dl: "length d = n" by (simp add: n_def)
    have c: "c \<le> n" "n - c = n mod 16" "16 dvd c" by (simp_all add: c_def minus_mult_div_eq_mod)
    have w16: "w \<ge> 16 \<longleftrightarrow> n \<ge> 16" using w by (simp add: word_le_nat_alt)
    have b: "(if w \<ge> 16 then let todo = w AND NOT 0xf in (drop (unat todo) d, w AND 0xf, poly1305_update (take (unat todo) d) st1)
        else (d, w, st1)) = (drop c d, word_of_nat (n mod 16), st2)"
    proof (cases "w \<ge> 16")
      case True
      have "unat (word_of_nat (n mod 16) :: u64) = n mod 16" by (rule unat_of_nat_u64) (rule less_trans [OF mod_less_divisor], simp_all)
      then have "w AND 0xf = word_of_nat (n mod 16)" unfolding word_unat_eq_iff unat_round_down w by simp
      then show ?thesis unfolding st2_def if_P [OF True] Let_def unat_round_down w c_def by simp
    next
      case False
      then have "n mod 16 = n" "c = 0" by (simp_all add: w16 c_def)
      then show ?thesis unfolding st2_def if_not_P [OF False] by (simp add: w_def)
    qed
    have 2: "poly_at (poly_eval r 0 (x @ take c d)) st2 \<and> poly_r st2 = r \<and> p_key st2 = s \<and> length (p_buf st2) = 16 \<and> buf_used st2 = 0"
    proof (cases "n \<ge> 16")
      case True
      note u = poly1305_update_eval [OF h(1), of "take c d", unfolded h(2)]
      then show ?thesis using True h by (simp add: st2_def w16 eval_append [OF al] same_key_simps [OF conjunct2 [OF u]])
    next
      case F: False
      then show ?thesis using h by (simp add: st2_def w16 c_def)
    qed
    have al2: "16 dvd length (x @ take c d)" using al c dl by simp
    have rd: "rest 16 (m @ p) = drop c d" "take (16 * (length (m @ p) div 16)) (m @ p) = x @ take c d"
      "length (m @ p) mod 16 = n mod 16"
      unfolding xd using al by (simp_all add: rest_aligned round_down) (auto simp: rest_def c_def dl dvd_def)
    have dc: "length (drop c d) = n mod 16" using c dl by simp
    show ?thesis
    proof (cases "n mod 16 = 0")
      case True
      then have "CRYPTO_poly1305_update p st = Some st2"
        unfolding CRYPTO_poly1305_update_def f(1) d_def [symmetric] Option.bind.simps prod.case Let_def dl
        using b unfolding Let_def w_def [symmetric] by simp
      then show ?thesis using 2 rd True dc by (intro exI [of _ st2]) (simp add: poly_holds_def)
    next
      case F: False
      obtain buf where buf: "put (p_buf st2) 0 (drop c d) = Some buf" using put_Some [of 0 "drop c d" "p_buf st2"] 2 dc by auto
      have "CRYPTO_poly1305_update p st = Some (st2\<lparr>p_buf := buf, buf_used := word_of_nat (n mod 16)\<rparr>)"
        unfolding CRYPTO_poly1305_update_def f(1) d_def [symmetric] Option.bind.simps prod.case Let_def dl
        using b F buf dc unfolding Let_def w_def [symmetric] by (simp add: word_unat_eq_iff unat_of_nat unat_ucast_mod)
      then show ?thesis using 2 rd F dc take_put [OF buf] length_put [OF buf]
        by (intro exI [of _ "st2\<lparr>p_buf := buf, buf_used := word_of_nat (n mod 16)\<rparr>"]) (simp add: poly_holds_def unat_of_nat)
    qed
  qed
qed
section \<open>The key\<close>

lemma unat_window:
  assumes "k \<le> 32"
  shows "unat (drop_bit k a OR push_bit (32 - k) b :: u32) = (2 ^ 32 * unat b + unat a) div 2 ^ k mod 2 ^ 32"
proof -
  have "drop_bit k a OR push_bit (32 - k) b = ucast (drop_bit k (push_bit 32 (ucast b) OR ucast a :: u64))"
    using assms by (intro bit_word_eqI) (auto simp: bit_simps add.commute dest: bit_imp_le_length)
  moreover have "unat (ucast w :: u32) = unat w mod 2 ^ 32" for w :: u64 by (simp add: unat_ucast_mod)
  ultimately show ?thesis by (simp only: unat_drop_bit_div unat_join)
qed

lemma mod_and: "c < 2 ^ n \<Longrightarrow> n \<le> k \<Longrightarrow> (x mod 2 ^ k AND c) = (x mod 2 ^ n AND (c :: nat))"
proof -
  assume "c < 2 ^ n" "n \<le> k"
  then have "take_bit n c = c" "take_bit n (take_bit k x) = take_bit n x" by (simp_all add: take_bit_nat_eq_self min_def)
  moreover have "y AND take_bit n c = take_bit n y AND take_bit n c" for y :: nat by (rule bit_eqI) (auto simp: bit_simps)
  ultimately show ?thesis unfolding take_bit_eq_mod [symmetric] by metis
qed

text \<open>A number in slices of 26 bits, and the slices of the conjunction with a mask.\<close>

lemma limbs_chain:
  "x = 2 ^ 26 * a + m0 \<Longrightarrow> a = 2 ^ 26 * b + m1 \<Longrightarrow> b = 2 ^ 26 * c + m2 \<Longrightarrow> c = 2 ^ 26 * d + m3 \<Longrightarrow> x = limbs m0 m1 m2 m3 d"
  by (simp add: limbs_def)

lemma limbs_slices: "x = limbs (x mod 2 ^ 26) (x div 2 ^ 26 mod 2 ^ 26) (x div 2 ^ 52 mod 2 ^ 26) (x div 2 ^ 78 mod 2 ^ 26) (x div 2 ^ 104)"
proof (rule limbs_chain)
  have d: "y = 2 ^ 26 * (y div 2 ^ 26) + y mod 2 ^ 26" for y :: nat by (rule mult_div_mod_eq [symmetric])
  have e: "x div 2 ^ 26 div 2 ^ 26 = x div 2 ^ 52" "x div 2 ^ 52 div 2 ^ 26 = x div 2 ^ 78" "x div 2 ^ 78 div 2 ^ 26 = x div 2 ^ 104"
    unfolding div_mult2_eq [symmetric] by simp_all
  show "x = 2 ^ 26 * (x div 2 ^ 26) + x mod 2 ^ 26" by (rule d)
  show "x div 2 ^ 26 = 2 ^ 26 * (x div 2 ^ 52) + x div 2 ^ 26 mod 2 ^ 26" unfolding e(1) [symmetric] by (rule d)
  show "x div 2 ^ 52 = 2 ^ 26 * (x div 2 ^ 78) + x div 2 ^ 52 mod 2 ^ 26" unfolding e(2) [symmetric] by (rule d)
  show "x div 2 ^ 78 = 2 ^ 26 * (x div 2 ^ 104) + x div 2 ^ 78 mod 2 ^ 26" unfolding e(3) [symmetric] by (rule d)
qed

lemma and_slice: "(x AND c) div 2 ^ k mod 2 ^ n = (x div 2 ^ k mod 2 ^ n AND c div 2 ^ k mod 2 ^ n :: nat)"
  unfolding drop_bit_eq_div [symmetric] take_bit_eq_mod [symmetric] by (rule bit_eqI) (auto simp: bit_simps)

lemma word_slices:
  fixes t0 t1 t2 t3 :: nat
  assumes "t0 < 2 ^ 32" "t1 < 2 ^ 32"
  defines "x \<equiv> t0 + 2 ^ 32 * t1 + 2 ^ 64 * t2 + 2 ^ 96 * t3"
  shows "x mod 2 ^ 26 = t0 mod 2 ^ 26" "x div 2 ^ 26 mod 2 ^ 26 = (2 ^ 32 * t1 + t0) div 2 ^ 26 mod 2 ^ 26"
    "x div 2 ^ 52 mod 2 ^ 26 = (2 ^ 32 * t2 + t1) div 2 ^ 20 mod 2 ^ 26"
proof -
  have m: "(a + c * (b * z)) div c mod b = a div c mod b" if "0 < c" for a b c z :: nat
    using that by simp
  have pos: "0 < (2 :: nat) ^ k" for k by simp
  have "x = t0 + 2 ^ 26 * (2 ^ 6 * t1 + 2 ^ 38 * t2 + 2 ^ 70 * t3)" by (simp add: x_def)
  then show "x mod 2 ^ 26 = t0 mod 2 ^ 26" by (simp only: mod_mult_self2)
  have "x = (2 ^ 32 * t1 + t0) + 2 ^ 26 * (2 ^ 26 * (2 ^ 12 * t2 + 2 ^ 44 * t3))" by (simp add: x_def)
  then show "x div 2 ^ 26 mod 2 ^ 26 = (2 ^ 32 * t1 + t0) div 2 ^ 26 mod 2 ^ 26" by (simp only: m [OF pos])
  have "x = t0 + 2 ^ 32 * ((2 ^ 32 * t2 + t1) + 2 ^ 20 * (2 ^ 26 * (2 ^ 18 * t3)))" by (simp add: x_def)
  then have "x div 2 ^ 32 = (2 ^ 32 * t2 + t1) + 2 ^ 20 * (2 ^ 26 * (2 ^ 18 * t3))" using assms(1) by simp
  moreover have "x div 2 ^ 52 = x div 2 ^ 32 div 2 ^ 20" unfolding div_mult2_eq [symmetric] by simp
  ultimately show "x div 2 ^ 52 mod 2 ^ 26 = (2 ^ 32 * t2 + t1) div 2 ^ 20 mod 2 ^ 26" by (simp only: m [OF pos])
qed

lemma word_slices_high:
  fixes t0 t1 t2 t3 :: nat
  assumes "t0 < 2 ^ 32" "t1 < 2 ^ 32" "t2 < 2 ^ 32" "t3 < 2 ^ 32"
  defines "x \<equiv> t0 + 2 ^ 32 * t1 + 2 ^ 64 * t2 + 2 ^ 96 * t3"
  shows "x div 2 ^ 78 mod 2 ^ 26 = (2 ^ 32 * t3 + t2) div 2 ^ 14 mod 2 ^ 26" "x div 2 ^ 104 = t3 div 2 ^ 8"
proof -
  have "x = (t0 + 2 ^ 32 * t1) + 2 ^ 64 * (2 ^ 32 * t3 + t2)" "t0 + 2 ^ 32 * t1 < 2 ^ 64" using assms(1,2) by (simp_all add: x_def)
  then have "x div 2 ^ 64 = 2 ^ 32 * t3 + t2" by simp
  moreover have "x div 2 ^ 78 = x div 2 ^ 64 div 2 ^ 14" unfolding div_mult2_eq [symmetric] by simp
  ultimately show "x div 2 ^ 78 mod 2 ^ 26 = (2 ^ 32 * t3 + t2) div 2 ^ 14 mod 2 ^ 26" by (simp only:)
  have "x = (t0 + 2 ^ 32 * t1 + 2 ^ 64 * t2) + 2 ^ 96 * t3" "t0 + 2 ^ 32 * t1 + 2 ^ 64 * t2 < 2 ^ 96" using assms(1-3) by (simp_all add: x_def)
  then have "x div 2 ^ 96 = t3" by simp
  moreover have "x div 2 ^ 104 = x div 2 ^ 96 div 2 ^ 8" unfolding div_mult2_eq [symmetric] by simp
  ultimately show "x div 2 ^ 104 = t3 div 2 ^ 8" by (simp only:)
qed

lemma unat_and_le: "unat (x AND c) \<le> unat (c :: u32)"
  unfolding word_le_nat_alt [symmetric] by (rule word_and_le1)

lemma limb_slice:
  fixes w c :: u32
  assumes "unat w mod 2 ^ 26 = N div 2 ^ k mod 2 ^ 26" "unat c = C div 2 ^ k mod 2 ^ 26"
  shows "unat (w AND c) = (N AND C) div 2 ^ k mod 2 ^ 26"
proof -
  have "unat c < 2 ^ 26" unfolding assms(2) by (rule mod_less_divisor) simp
  then have "unat w mod 2 ^ 32 AND unat c = unat w mod 2 ^ 26 AND unat c" by (rule mod_and) simp
  moreover have "unat w mod 2 ^ 32 = unat w" by (rule mod_less) (rule unat_u32_less)
  ultimately show ?thesis unfolding and_slice assms [symmetric] by (simp only: unsigned_and_eq)
qed

text \<open>The limbs of the multiplier are those of the clamped key.\<close>

lemma init_limbs:
  assumes "16 \<le> length key"
  shows "poly_r (CRYPTO_poly1305_init key st) = clamp (le_nat (take 16 key))" "poly_key (CRYPTO_poly1305_init key st)"
proof -
  let ?s = "CRYPTO_poly1305_init key st"
  define t0 t1 t2 t3 where "t0 = U8TO32_LE key" and "t1 = U8TO32_LE (drop 4 key)" and "t2 = U8TO32_LE (drop 8 key)" and "t3 = U8TO32_LE (drop 12 key)"
  have s: "p_r0 ?s = t0 AND 0x3ffffff" "p_r1 ?s = (drop_bit 26 t0 OR push_bit 6 t1) AND 0x3ffff03"
      "p_r2 ?s = (drop_bit 20 t1 OR push_bit 12 t2) AND 0x3ffc0ff" "p_r3 ?s = (drop_bit 14 t2 OR push_bit 18 t3) AND 0x3f03fff"
      "p_r4 ?s = drop_bit 8 t3 AND 0x00fffff"
      "p_s1 ?s = p_r1 ?s * 5" "p_s2 ?s = p_r2 ?s * 5" "p_s3 ?s = p_r3 ?s * 5" "p_s4 ?s = p_r4 ?s * 5"
    unfolding CRYPTO_poly1305_init_def Let_def t0_def t1_def t2_def t3_def by simp_all
  have five: "unat (w * 5) = 5 * unat w" if "unat w \<le> 0x3ffffff" for w :: u32
    using that by (simp add: unat_word_ariths mult.commute)
  have b: "unat (p_r0 ?s) \<le> 0x3ffffff" "unat (p_r1 ?s) \<le> 0x3ffff03" "unat (p_r2 ?s) \<le> 0x3ffc0ff" "unat (p_r3 ?s) \<le> 0x3f03fff" "unat (p_r4 ?s) \<le> 0xfffff"
    unfolding s using unat_and_le [of _ "0x3ffffff"] unat_and_le [of _ "0x3ffff03"] unat_and_le [of _ "0x3ffc0ff"]
      unat_and_le [of _ "0x3f03fff"] unat_and_le [of _ "0x00fffff"] by (simp_all only: unat_numeral) simp_all
  then show "poly_key ?s" unfolding poly_key_def s(6-9) by (simp add: five)
  define N where "N = unat t0 + 2 ^ 32 * unat t1 + 2 ^ 64 * unat t2 + 2 ^ 96 * unat t3"
  have N: "le_nat (take 16 key) = N"
    unfolding le_nat_words [OF assms] N_def t0_def t1_def t2_def t3_def unat_U8TO32 by (rule refl)
  define C where "C = (0x0ffffffc0ffffffc0ffffffc0fffffff :: nat)"
  have C: "C mod 2 ^ 26 = 0x3ffffff" "C div 2 ^ 26 mod 2 ^ 26 = 0x3ffff03" "C div 2 ^ 52 mod 2 ^ 26 = 0x3ffc0ff"
    "C div 2 ^ 78 mod 2 ^ 26 = 0x3f03fff" "C div 2 ^ 104 mod 2 ^ 26 = 0xfffff" by (simp_all add: C_def)
  note sl = word_slices [OF unat_u32_less [of t0] unat_u32_less [of t1], of "unat t2" "unat t3", folded N_def]
    and sh = word_slices_high [OF unat_u32_less [of t0] unat_u32_less [of t1] unat_u32_less [of t2] unat_u32_less [of t3], folded N_def]
  have mm: "y mod 2 ^ 32 mod 2 ^ 26 = y mod 2 ^ 26" for y :: nat by (rule mod_mod_cancel) (simp add: le_imp_power_dvd)
  have 0: "unat (p_r0 ?s) = (N AND C) mod 2 ^ 26"
    using limb_slice [of t0 N 0 "0x3ffffff" C] sl(1) C(1) unfolding s by simp
  have 1: "unat (p_r1 ?s) = (N AND C) div 2 ^ 26 mod 2 ^ 26"
    unfolding s by (rule limb_slice) (use unat_window [of 26 t0 t1] sl(2) mm in simp, simp only: C, simp)
  have 2: "unat (p_r2 ?s) = (N AND C) div 2 ^ 52 mod 2 ^ 26"
    unfolding s by (rule limb_slice) (use unat_window [of 20 t1 t2] sl(3) mm in simp, simp only: C, simp)
  have 3: "unat (p_r3 ?s) = (N AND C) div 2 ^ 78 mod 2 ^ 26"
    unfolding s by (rule limb_slice) (use unat_window [of 14 t2 t3] sh(1) mm in simp, simp only: C, simp)
  have 4: "unat (p_r4 ?s) = (N AND C) div 2 ^ 104 mod 2 ^ 26"
    unfolding s by (rule limb_slice) (use sh(2) in \<open>simp add: unat_drop_bit_div\<close>, simp only: C, simp)
  have t: "(N AND C) div 2 ^ 104 mod 2 ^ 26 = (N AND C) div 2 ^ 104"
  proof (rule mod_less)
    have "int (N AND C) \<le> int C" unfolding of_nat_and_eq by (rule AND_upper2) simp
    then have "N AND C \<le> C" by simp
    then have "(N AND C) div 2 ^ 104 \<le> C div 2 ^ 104" by (rule div_le_mono)
    then show "(N AND C) div 2 ^ 104 < 2 ^ 26" by (simp add: C_def)
  qed
  show "poly_r ?s = clamp (le_nat (take 16 key))"
    unfolding poly_r_def 0 1 2 3 4 t limbs_slices [symmetric] unfolding N clamp_def C_def by (rule refl)
qed
section \<open>The tag\<close>

text \<open>The last carries: all limbs are below \<open>2 ^ 26\<close>, but the first may exceed that bound, when the carry out of the
  fifth limb is one and all limbs above the second are zero.\<close>

definition poly_almost :: "poly1305_state_st \<Rightarrow> bool" where
  "poly_almost st \<longleftrightarrow> unat (p_h0 st) < 2 ^ 26 + 5 \<and> unat (p_h1 st) < 2 ^ 26 \<and> unat (p_h2 st) < 2 ^ 26 \<and>
     unat (p_h3 st) < 2 ^ 26 \<and> unat (p_h4 st) < 2 ^ 26 \<and>
     (2 ^ 26 \<le> unat (p_h0 st) \<longrightarrow> unat (p_h1 st) < 63 \<and> p_h2 st = 0 \<and> p_h3 st = 0 \<and> p_h4 st = 0)"

lemma add_small: "unat x < 2 ^ 31 \<Longrightarrow> unat y < 2 ^ 31 \<Longrightarrow> unat (x + y :: u32) = unat x + unat y"
  by (rule unat_plus) simp

lemma carry_num:
  fixes h0 h1 h2 h3 h4 :: nat
  assumes "h0 < 2 ^ 32" "h1 < 2 ^ 26" "h2 < 2 ^ 26" "h3 < 2 ^ 26" "h4 < 2 ^ 26"
  defines "x1 \<equiv> h1 + h0 div 2 ^ 26" and "x2 \<equiv> h2 + (h1 + h0 div 2 ^ 26) div 2 ^ 26"
    and "x3 \<equiv> h3 + (h2 + (h1 + h0 div 2 ^ 26) div 2 ^ 26) div 2 ^ 26"
  defines "x4 \<equiv> h4 + x3 div 2 ^ 26"
  shows "x1 < 2 ^ 26 + 64" "x2 \<le> 2 ^ 26" "x3 \<le> 2 ^ 26" "x4 \<le> 2 ^ 26" "x4 div 2 ^ 26 \<le> 1"
    "x4 div 2 ^ 26 = 1 \<Longrightarrow> x4 mod 2 ^ 26 = 0 \<and> x3 mod 2 ^ 26 = 0 \<and> x2 mod 2 ^ 26 = 0 \<and> x1 mod 2 ^ 26 < 63"
proof -
  have small: "y div 2 ^ 26 \<le> 1" "y div 2 ^ 26 = 1 \<longleftrightarrow> y \<ge> 2 ^ 26" if "y < 2 ^ 27" for y :: nat
    using that by auto
  have c0: "h0 div 2 ^ 26 < 64" using assms(1) by (simp add: div_less_iff_less_mult)
  then show x1: "x1 < 2 ^ 26 + 64" using assms(2) by (simp add: x1_def)
  have s1: "x1 div 2 ^ 26 \<le> 1" "x1 div 2 ^ 26 = 1 \<longleftrightarrow> x1 \<ge> 2 ^ 26" using small [of x1] x1 by simp_all
  have x2': "x2 = h2 + x1 div 2 ^ 26" by (simp add: x1_def x2_def)
  then show x2: "x2 \<le> 2 ^ 26" using s1(1) assms(3) by simp
  have s2: "x2 div 2 ^ 26 \<le> 1" "x2 div 2 ^ 26 = 1 \<longleftrightarrow> x2 \<ge> 2 ^ 26" using small [of x2] x2 by simp_all
  have x3': "x3 = h3 + x2 div 2 ^ 26" by (simp add: x2_def x3_def)
  then show x3: "x3 \<le> 2 ^ 26" using s2(1) assms(4) by simp
  have s3: "x3 div 2 ^ 26 \<le> 1" "x3 div 2 ^ 26 = 1 \<longleftrightarrow> x3 \<ge> 2 ^ 26" using small [of x3] x3 by simp_all
  show x4: "x4 \<le> 2 ^ 26" using s3(1) assms(5) by (simp add: x4_def)
  then show s4: "x4 div 2 ^ 26 \<le> 1" using small [of x4] by simp
  assume c4: "x4 div 2 ^ 26 = 1"
  then have e4: "x4 = 2 ^ 26" using x4 small(2) [of x4] by simp
  then have e3: "x3 = 2 ^ 26" using s3 x3 assms(5) by (simp add: x4_def)
  then have e2: "x2 = 2 ^ 26" using s2 x2 assms(4) unfolding x3' by simp
  then have e1: "2 ^ 26 \<le> x1" using s1 assms(3) unfolding x2' by simp
  have "x1 mod 2 ^ 26 = x1 - 2 ^ 26" using e1 x1 by (simp add: le_mod_geq)
  moreover have "x1 < 2 ^ 26 + 63" using c0 assms(2) by (simp add: x1_def)
  ultimately show "x4 mod 2 ^ 26 = 0 \<and> x3 mod 2 ^ 26 = 0 \<and> x2 mod 2 ^ 26 = 0 \<and> x1 mod 2 ^ 26 < 63"
    using e1 e2 e3 e4 by simp
qed

lemma poly1305_carry_value:
  assumes "poly_reduced st"
  shows "poly_h (poly1305_carry st) mod poly_p = poly_h st mod poly_p" "poly_almost (poly1305_carry st)"
    "same_key st (poly1305_carry st)"
proof -
  let ?s = "poly1305_carry st"
  show "same_key st ?s" unfolding same_key_def poly1305_carry_def Let_def by blast
  define h0 h1 h2 h3 h4 where "h0 = unat (p_h0 st)" and "h1 = unat (p_h1 st)" and "h2 = unat (p_h2 st)" and "h3 = unat (p_h3 st)" and "h4 = unat (p_h4 st)"
  have b: "h0 < 2 ^ 32" "h1 < 2 ^ 26" "h2 < 2 ^ 26" "h3 < 2 ^ 26" "h4 < 2 ^ 26"
    using assms by (simp_all add: poly_reduced_def h0_def h1_def h2_def h3_def h4_def)
  note n = carry_num [OF b]
  define w1 where "w1 = p_h1 st + drop_bit 26 (p_h0 st)"
  define w2 where "w2 = p_h2 st + drop_bit 26 w1"
  define w3 where "w3 = p_h3 st + drop_bit 26 w2"
  define w4 where "w4 = p_h4 st + drop_bit 26 w3"
  define x1 where "x1 = h1 + h0 div 2 ^ 26"
  define x2 where "x2 = h2 + x1 div 2 ^ 26"
  define x3 where "x3 = h3 + x2 div 2 ^ 26"
  define x4 where "x4 = h4 + x3 div 2 ^ 26"
  note n = n [folded x1_def, folded x2_def, folded x3_def, folded x4_def]
  have w1: "unat w1 = x1" unfolding w1_def x1_def h1_def h0_def
    by (subst unat_plus) (use n(1) in \<open>simp_all add: unat_drop_bit_div x1_def h1_def h0_def\<close>)
  have w2: "unat w2 = x2" unfolding w2_def x2_def h2_def
    by (subst unat_plus) (use n(2) in \<open>simp_all add: unat_drop_bit_div w1 x2_def h2_def\<close>)
  have w3: "unat w3 = x3" unfolding w3_def x3_def h3_def
    by (subst unat_plus) (use n(3) in \<open>simp_all add: unat_drop_bit_div w2 x3_def h3_def\<close>)
  have w4: "unat w4 = x4" unfolding w4_def x4_def h4_def
    by (subst unat_plus) (use n(4) in \<open>simp_all add: unat_drop_bit_div w3 x4_def h4_def\<close>)
  have u: "?s = st\<lparr>p_h0 := (p_h0 st AND 0x3ffffff) + drop_bit 26 w4 * 5, p_h1 := w1 AND 0x3ffffff,
      p_h2 := w2 AND 0x3ffffff, p_h3 := w3 AND 0x3ffffff, p_h4 := w4 AND 0x3ffffff\<rparr>"
    unfolding poly1305_carry_def Let_def w1_def [symmetric] unfolding w2_def [symmetric] unfolding w3_def [symmetric]
    unfolding w4_def [symmetric] by (rule refl)
  have f: "p_h0 ?s = (p_h0 st AND 0x3ffffff) + drop_bit 26 w4 * 5" "p_h1 ?s = w1 AND 0x3ffffff" "p_h2 ?s = w2 AND 0x3ffffff"
    "p_h3 ?s = w3 AND 0x3ffffff" "p_h4 ?s = w4 AND 0x3ffffff" unfolding u by simp_all
  obtain q where q: "x4 div 2 ^ 26 = q" "q \<le> 1" using n(5) by blast
  have w5: "unat (drop_bit 26 w4 * 5) = 5 * q"
    using q by (simp add: unat_word_ariths unat_drop_bit_div w4 mult.commute)
  have l: "y mod 2 ^ 26 < 2 ^ 26" for y :: nat by (rule mod_less_divisor) simp
  have g0: "unat (p_h0 ?s) = h0 mod 2 ^ 26 + 5 * q"
    unfolding f(1) by (subst unat_plus) (use l [of h0] q(2) in \<open>simp_all only: w5 unat_low26 h0_def, simp\<close>)
  have g: "unat (p_h1 ?s) = x1 mod 2 ^ 26" "unat (p_h2 ?s) = x2 mod 2 ^ 26" "unat (p_h3 ?s) = x3 mod 2 ^ 26" "unat (p_h4 ?s) = x4 mod 2 ^ 26"
    unfolding f by (simp_all only: unat_low26 w1 w2 w3 w4)
  have "limbs h0 h1 h2 h3 h4 = limbs (h0 mod 2 ^ 26) (x1 mod 2 ^ 26) (x2 mod 2 ^ 26) (x3 mod 2 ^ 26) (x4 mod 2 ^ 26) + 2 ^ 130 * q"
    using carried_value [of "[h0, h1, h2, h3, h4]"] by (simp add: numeral_eq_Suc x1_def x2_def x3_def x4_def q(1) [symmetric] del: power_Suc)
  then have "poly_h st + 5 * q = poly_h ?s + 2 ^ 130 * q"
    unfolding poly_h_def g0 g h0_def [symmetric] h1_def [symmetric] h2_def [symmetric] h3_def [symmetric] h4_def [symmetric]
    by (simp add: limbs_def)
  then have "poly_h st = poly_h ?s + poly_p * q" unfolding p_simp by simp
  then show "poly_h ?s mod poly_p = poly_h st mod poly_p" by simp
  obtain y where y: "h0 mod 2 ^ 26 = y" "y < 2 ^ 26" using l [of h0] by blast
  show "poly_almost ?s"
  proof (cases "q = 0")
    case True
    then show ?thesis unfolding poly_almost_def g0 g y(1) using y(2) by simp
  next
    case False
    then have "q = 1" using q(2) by simp
    then show ?thesis using n(6) q(1) y(2) g unfolding poly_almost_def g0 y(1) by (simp add: unat_eq_zero)
  qed
qed
text \<open>The choice between the number and the number less \<open>2 ^ 130 - 5\<close>.\<close>

definition poly_normal :: "poly1305_state_st \<Rightarrow> bool" where
  "poly_normal st \<longleftrightarrow> unat (p_h0 st) < 2 ^ 26 \<and> unat (p_h1 st) < 2 ^ 26 \<and> unat (p_h2 st) < 2 ^ 26 \<and>
     unat (p_h3 st) < 2 ^ 26 \<and> unat (p_h4 st) < 2 ^ 26"

lemma limbs_less:
  "a < 2 ^ 26 + 5 \<Longrightarrow> b < 2 ^ 26 \<Longrightarrow> c < 2 ^ 26 \<Longrightarrow> d < 2 ^ 26 \<Longrightarrow> e < 2 ^ 26 \<Longrightarrow> limbs a b c d e < 2 ^ 130 + 5"
  by (simp add: limbs_def)

lemma top_bit:
  fixes w :: u32
  assumes "unat w \<le> 2 ^ 26"
  shows "drop_bit 31 (w - push_bit 26 1) = (if unat w = 2 ^ 26 then 0 else 1)"
proof (cases "unat w = 2 ^ 26")
  case True
  then have "w = push_bit 26 1" by (simp add: word_unat_eq_iff)
  then show ?thesis using True by simp
next
  case False
  then have l: "unat w < 2 ^ 26" using assms by simp
  have "w - push_bit 26 1 = w + 4227858432" by simp
  then have "unat (w - push_bit 26 1) = unat w + 4227858432" using l by (subst \<open>w - push_bit 26 1 = _\<close>, subst unat_plus) simp_all
  then have "unat (drop_bit 31 (w - push_bit 26 1)) = 1" using l by (simp add: unat_drop_bit_div)
  then show ?thesis using False by (simp add: word_unat_eq_iff)
qed

lemma poly1305_choose_value:
  assumes "poly_almost st"
  shows "poly_h (poly1305_choose st) = poly_h st mod poly_p" "poly_normal (poly1305_choose st) \<or> poly1305_choose st = st"
    "p_key (poly1305_choose st) = p_key st"
proof -
  let ?s = "poly1305_choose st"
  show "p_key ?s = p_key st" by (simp add: poly1305_choose_def Let_def)
  define h0 h1 h2 h3 h4 where "h0 = unat (p_h0 st) + 5" and "h1 = unat (p_h1 st)" and "h2 = unat (p_h2 st)" and "h3 = unat (p_h3 st)" and "h4 = unat (p_h4 st)"
  note a = assms [unfolded poly_almost_def]
  have b: "h0 < 2 ^ 32" "h1 < 2 ^ 26" "h2 < 2 ^ 26" "h3 < 2 ^ 26" "h4 < 2 ^ 26"
    using a by (simp_all add: h0_def h1_def h2_def h3_def h4_def)
  define w0 where "w0 = p_h0 st + 5"
  define w1 where "w1 = p_h1 st + drop_bit 26 w0"
  define w2 where "w2 = p_h2 st + drop_bit 26 w1"
  define w3 where "w3 = p_h3 st + drop_bit 26 w2"
  define w4 where "w4 = p_h4 st + drop_bit 26 w3"
  define x1 where "x1 = h1 + h0 div 2 ^ 26"
  define x2 where "x2 = h2 + x1 div 2 ^ 26"
  define x3 where "x3 = h3 + x2 div 2 ^ 26"
  define x4 where "x4 = h4 + x3 div 2 ^ 26"
  note n = carry_num [OF b, folded x1_def, folded x2_def, folded x3_def, folded x4_def]
  have w0: "unat w0 = h0" unfolding w0_def h0_def by (subst unat_plus) (use a in simp_all)
  have w1: "unat w1 = x1" unfolding w1_def x1_def h1_def
    by (subst unat_plus) (use n(1) in \<open>simp_all add: unat_drop_bit_div w0 x1_def h1_def\<close>)
  have w2: "unat w2 = x2" unfolding w2_def x2_def h2_def
    by (subst unat_plus) (use n(2) in \<open>simp_all add: unat_drop_bit_div w1 x2_def h2_def\<close>)
  have w3: "unat w3 = x3" unfolding w3_def x3_def h3_def
    by (subst unat_plus) (use n(3) in \<open>simp_all add: unat_drop_bit_div w2 x3_def h3_def\<close>)
  have w4: "unat w4 = x4" unfolding w4_def x4_def h4_def
    by (subst unat_plus) (use n(4) in \<open>simp_all add: unat_drop_bit_div w3 x4_def h4_def\<close>)
  define b where "b = drop_bit 31 (w4 - push_bit 26 1) - 1"
  have u: "?s = st\<lparr>p_h0 := (p_h0 st AND NOT b) OR ((w0 AND 0x3ffffff) AND b), p_h1 := (p_h1 st AND NOT b) OR ((w1 AND 0x3ffffff) AND b),
      p_h2 := (p_h2 st AND NOT b) OR ((w2 AND 0x3ffffff) AND b), p_h3 := (p_h3 st AND NOT b) OR ((w3 AND 0x3ffffff) AND b),
      p_h4 := (p_h4 st AND NOT b) OR ((w4 - push_bit 26 1) AND b)\<rparr>"
    unfolding poly1305_choose_def Let_def w0_def [symmetric] unfolding w1_def [symmetric] unfolding w2_def [symmetric]
    unfolding w3_def [symmetric] unfolding w4_def [symmetric] b_def [symmetric] by (rule refl)
  have l: "y mod 2 ^ 26 < 2 ^ 26" for y :: nat by (rule mod_less_divisor) simp
  have "limbs h0 h1 h2 h3 h4 = poly_h st + 5" unfolding poly_h_def h0_def h1_def h2_def h3_def h4_def by (simp add: limbs_def)
  then have v: "poly_h st + 5 = limbs (h0 mod 2 ^ 26) (x1 mod 2 ^ 26) (x2 mod 2 ^ 26) (x3 mod 2 ^ 26) (x4 mod 2 ^ 26) + 2 ^ 130 * (x4 div 2 ^ 26)"
    using carried_value [of "[h0, h1, h2, h3, h4]"] by (simp add: numeral_eq_Suc x1_def x2_def x3_def x4_def del: power_Suc)
  have lt: "poly_h st < 2 ^ 130 + 5" unfolding poly_h_def using a by (intro limbs_less) simp_all
  show "poly_h ?s = poly_h st mod poly_p" and "poly_normal ?s \<or> ?s = st"
  proof (atomize (full), cases "x4 = 2 ^ 26")
    case True
    then have b1: "b = - 1" using top_bit [of w4] w4 by (simp add: b_def)
    have "w4 = push_bit 26 1" using True w4 by (simp add: word_unat_eq_iff)
    then have f: "p_h0 ?s = w0 AND 0x3ffffff" "p_h1 ?s = w1 AND 0x3ffffff" "p_h2 ?s = w2 AND 0x3ffffff" "p_h3 ?s = w3 AND 0x3ffffff" "p_h4 ?s = 0"
      unfolding u b1 by simp_all
    have g: "unat (p_h0 ?s) = h0 mod 2 ^ 26" "unat (p_h1 ?s) = x1 mod 2 ^ 26" "unat (p_h2 ?s) = x2 mod 2 ^ 26" "unat (p_h3 ?s) = x3 mod 2 ^ 26" "unat (p_h4 ?s) = 0"
      unfolding f by (simp_all only: unat_low26 w0 w1 w2 w3 unat_0)
    have nrm: "poly_normal ?s" unfolding poly_normal_def g using l by simp
    have "x4 mod 2 ^ 26 = 0" "x4 div 2 ^ 26 = 1" using True by simp_all
    then have "poly_h st + 5 = poly_h ?s + 2 ^ 130" using v unfolding poly_h_def [of ?s] g by simp
    then have "poly_h st = poly_h ?s + poly_p" "poly_h ?s < poly_p" using lt by (simp_all add: p_simp)
    then show "poly_h ?s = poly_h st mod poly_p \<and> (poly_normal ?s \<or> ?s = st)" using nrm by simp
  next
    case False
    then have b0: "b = 0" using top_bit [of w4] w4 n(4) by (simp add: b_def)
    have "?s = st" unfolding u b0 by simp
    moreover have "x4 div 2 ^ 26 = 0" using False n(4) by simp
    then have "poly_h st + 5 < 2 ^ 130" unfolding v using limbs_less l
      by (auto simp: limbs_def)
    then have "poly_h st < poly_p" by (simp add: p_simp)
    ultimately show "poly_h ?s = poly_h st mod poly_p \<and> (poly_normal ?s \<or> ?s = st)" by simp
  qed
qed
text \<open>Joining the limbs to words of 32 bits.\<close>

lemma bit_less: "unat (a :: u32) < 2 ^ m \<Longrightarrow> bit a n \<Longrightarrow> n < m"
proof -
  assume a: "unat a < 2 ^ m" "bit a n"
  have "take_bit m a = a" using a(1) by (simp add: word_unat_eq_iff unsigned_take_bit_eq take_bit_nat_eq_self)
  then show "n < m" using a(2) by (metis bit_take_bit_iff)
qed

lemma unat_limb_join:
  assumes "unat a < 2 ^ (k + j)" "j < 32"
  shows "unat (drop_bit k a OR push_bit j b :: u32) = (unat a div 2 ^ k + 2 ^ j * unat b) mod 2 ^ 32"
proof -
  have "drop_bit k a OR push_bit j b = drop_bit k a + push_bit j b"
    by (rule disjunctive_add [symmetric]) (use bit_less [OF assms(1)] in \<open>force simp: bit_simps\<close>)
  moreover have "unat (2 ^ j :: u32) = 2 ^ j"
  proof -
    have "(2 :: nat) ^ j < 2 ^ 32" using assms(2) by (intro power_strict_increasing) simp_all
    then have "unat (word_of_nat (2 ^ j) :: u32) = 2 ^ j" unfolding unat_of_nat by (intro mod_less) simp
    then show ?thesis by simp
  qed
  ultimately show ?thesis by (simp add: unat_word_ariths unat_drop_bit_div push_bit_eq_mult mod_simps mult.commute)
qed

text \<open>A first limb above its bound is joined all the same when the second limb is even.\<close>

lemma unat_even_join:
  assumes "unat a < 2 ^ 27" "even (unat b)"
  shows "unat (a OR push_bit 26 b :: u32) = (unat a + 2 ^ 26 * unat b) mod 2 ^ 32"
proof -
  have "odd (unat b) \<longleftrightarrow> bit b 0" unfolding bit_0 [symmetric] by (simp add: bit_unsigned_iff)
  then have b0: "\<not> bit b 0" using assms(2) by blast
  have "\<not> bit a n \<or> \<not> bit (push_bit 26 b) n" for n
  proof (cases "n < 27")
    case True
    then show ?thesis using b0 by (cases "n = 26") (auto simp: bit_simps)
  next
    case False
    then show ?thesis using bit_less [OF assms(1)] by auto
  qed
  then have "a OR push_bit 26 b = a + push_bit 26 b" by (intro disjunctive_add [symmetric])
  then show ?thesis by (simp add: unat_word_ariths push_bit_eq_mult mod_simps mult.commute)
qed

definition joined :: "poly1305_state_st \<Rightarrow> nat list" where
  "joined st = [unat (p_h0 st OR push_bit 26 (p_h1 st)), unat (drop_bit 6 (p_h1 st) OR push_bit 20 (p_h2 st)),
     unat (drop_bit 12 (p_h2 st) OR push_bit 14 (p_h3 st)), unat (drop_bit 18 (p_h3 st) OR push_bit 8 (p_h4 st))]"

definition words4 :: "nat list \<Rightarrow> nat" where
  "words4 w = w ! 0 + 2 ^ 32 * w ! 1 + 2 ^ 64 * w ! 2 + 2 ^ 96 * w ! 3"

lemma join_num:
  fixes h0 h1 h2 h3 h4 :: nat
  assumes "h0 < 2 ^ 26" "h1 < 2 ^ 26" "h2 < 2 ^ 26" "h3 < 2 ^ 26" "h4 < 2 ^ 26"
  shows "(h0 + 2 ^ 26 * h1) mod 2 ^ 32 + 2 ^ 32 * ((h1 div 2 ^ 6 + 2 ^ 20 * h2) mod 2 ^ 32) + 2 ^ 64 * ((h2 div 2 ^ 12 + 2 ^ 14 * h3) mod 2 ^ 32) +
    2 ^ 96 * ((h3 div 2 ^ 18 + 2 ^ 8 * h4) mod 2 ^ 32) = limbs h0 h1 h2 h3 h4 mod 2 ^ 128"
proof -
  have s: "(x + c * y) mod (c * d) = x + c * (y mod d)" if "x < c" for x c y d :: nat
    using that by (simp add: mod_mult2_eq)
  obtain a1 b1 a2 b2 a3 b3 a4 b4 where d: "h1 div 2 ^ 6 = a1" "h1 mod 2 ^ 6 = b1" "h2 div 2 ^ 12 = a2" "h2 mod 2 ^ 12 = b2"
    "h3 div 2 ^ 18 = a3" "h3 mod 2 ^ 18 = b3" "h4 div 2 ^ 24 = a4" "h4 mod 2 ^ 24 = b4" by simp
  have e: "h1 = 2 ^ 6 * a1 + b1" "h2 = 2 ^ 12 * a2 + b2" "h3 = 2 ^ 18 * a3 + b3" "h4 = 2 ^ 24 * a4 + b4"
    unfolding d [symmetric] by (rule mult_div_mod_eq [symmetric])+
  have bb: "b1 < 2 ^ 6" "b2 < 2 ^ 12" "b3 < 2 ^ 18" "b4 < 2 ^ 24" unfolding d [symmetric] by (rule mod_less_divisor, simp)+
  have aa: "a1 < 2 ^ 20" "a2 < 2 ^ 14" "a3 < 2 ^ 8" unfolding d [symmetric] using assms by (simp_all add: div_less_iff_less_mult)
  have w: "(h0 + 2 ^ 26 * h1) mod 2 ^ 32 = h0 + 2 ^ 26 * b1" "(a1 + 2 ^ 20 * h2) mod 2 ^ 32 = a1 + 2 ^ 20 * b2"
    "(a2 + 2 ^ 14 * h3) mod 2 ^ 32 = a2 + 2 ^ 14 * b3" "(a3 + 2 ^ 8 * h4) mod 2 ^ 32 = a3 + 2 ^ 8 * b4"
    using s [OF assms(1), of h1 "2 ^ 6"] s [OF aa(1), of h2 "2 ^ 12"] s [OF aa(2), of h3 "2 ^ 18"] s [OF aa(3), of h4 "2 ^ 24"]
    unfolding d by simp_all
  let ?v = "h0 + 2 ^ 26 * b1 + 2 ^ 32 * (a1 + 2 ^ 20 * b2) + 2 ^ 64 * (a2 + 2 ^ 14 * b3) + 2 ^ 96 * (a3 + 2 ^ 8 * b4)"
  have "limbs h0 h1 h2 h3 h4 = ?v + 2 ^ 128 * a4" unfolding limbs_def e by simp
  moreover have "?v < 2 ^ 128" using assms(1) aa bb by simp
  ultimately show ?thesis unfolding w d by simp
qed

lemma joined_value:
  assumes "poly_normal st"
  shows "words4 (joined st) = poly_h st mod 2 ^ 128"
proof -
  note n = assms [unfolded poly_normal_def]
  have j: "unat (drop_bit 0 (p_h0 st) OR push_bit 26 (p_h1 st)) = (unat (p_h0 st) div 2 ^ 0 + 2 ^ 26 * unat (p_h1 st)) mod 2 ^ 32"
    "unat (drop_bit 6 (p_h1 st) OR push_bit 20 (p_h2 st)) = (unat (p_h1 st) div 2 ^ 6 + 2 ^ 20 * unat (p_h2 st)) mod 2 ^ 32"
    "unat (drop_bit 12 (p_h2 st) OR push_bit 14 (p_h3 st)) = (unat (p_h2 st) div 2 ^ 12 + 2 ^ 14 * unat (p_h3 st)) mod 2 ^ 32"
    "unat (drop_bit 18 (p_h3 st) OR push_bit 8 (p_h4 st)) = (unat (p_h3 st) div 2 ^ 18 + 2 ^ 8 * unat (p_h4 st)) mod 2 ^ 32"
    by (rule unat_limb_join; use n in simp)+
  have w: "joined st = [(unat (p_h0 st) + 2 ^ 26 * unat (p_h1 st)) mod 2 ^ 32, (unat (p_h1 st) div 2 ^ 6 + 2 ^ 20 * unat (p_h2 st)) mod 2 ^ 32,
      (unat (p_h2 st) div 2 ^ 12 + 2 ^ 14 * unat (p_h3 st)) mod 2 ^ 32, (unat (p_h3 st) div 2 ^ 18 + 2 ^ 8 * unat (p_h4 st)) mod 2 ^ 32]"
    unfolding joined_def j(2-4) [symmetric] using j(1) by simp
  have "words4 [a, b, c, d] = a + 2 ^ 32 * b + 2 ^ 64 * c + 2 ^ 96 * d" for a b c d by (simp add: words4_def)
  then show ?thesis unfolding w poly_h_def using join_num n by simp
qed

text \<open>The values of the polynomial on which the carry into the second limb is lost.\<close>

definition lost_carry :: "nat \<Rightarrow> bool" where
  "lost_carry v \<longleftrightarrow> 2 ^ 27 \<le> v \<and> v < 2 ^ 32 \<and> v mod 2 ^ 27 < 5"

lemma joined_almost:
  assumes "poly_almost st" "\<not> lost_carry (poly_h st)"
  shows "words4 (joined st) = poly_h st mod 2 ^ 128"
proof (cases "unat (p_h0 st) < 2 ^ 26")
  case True
  then show ?thesis using assms(1) by (intro joined_value) (simp add: poly_normal_def poly_almost_def)
next
  case False
  define h0 h1 where "h0 = unat (p_h0 st)" and "h1 = unat (p_h1 st)"
  have h: "2 ^ 26 \<le> h0" "h0 < 2 ^ 26 + 5" "h1 < 63" "p_h2 st = 0" "p_h3 st = 0" "p_h4 st = 0"
    using assms(1) False by (auto simp: poly_almost_def h0_def h1_def)
  have v: "poly_h st = h0 + 2 ^ 26 * h1" unfolding poly_h_def limbs_def h(4-6) h0_def h1_def by simp
  have ev: "even h1"
  proof (rule ccontr)
    assume "odd h1"
    then obtain k where k: "h1 = 2 * k + 1" by (blast elim: oddE)
    obtain j where j: "h0 = 2 ^ 26 + j" "j < 5" using h(1,2) by (metis add.commute le_Suc_ex nat_add_left_cancel_less)
    have "poly_h st = 2 ^ 27 * (k + 1) + j" unfolding v k j(1) by simp
    moreover from this have "poly_h st mod 2 ^ 27 = j" using j(2) by (simp only: mult.commute [of "2 ^ 27"] mod_mult_self3 mod_mult_self4) simp
    moreover have "k + 1 \<le> 31" using h(3) k by simp
    ultimately have "lost_carry (poly_h st)" using j(2) by (simp add: lost_carry_def)
    then show False using assms(2) by blast
  qed
  have lt: "h0 + 2 ^ 26 * h1 < 2 ^ 32" using h(2,3) by simp
  have "unat (p_h0 st OR push_bit 26 (p_h1 st)) = (h0 + 2 ^ 26 * h1) mod 2 ^ 32"
    unfolding h0_def h1_def by (rule unat_even_join) (use h(2) ev in \<open>simp_all add: h0_def h1_def\<close>)
  moreover have "drop_bit 6 (p_h1 st) = 0" using h(3) by (simp add: word_unat_eq_iff unat_drop_bit_div h1_def)
  ultimately have "joined st = [h0 + 2 ^ 26 * h1, 0, 0, 0]" unfolding joined_def h(4-6) using lt by simp
  then show ?thesis unfolding v words4_def using lt by simp
qed
lemma le_bytes_add: "le_bytes (m + n) v = le_bytes m v @ le_bytes n (v div 256 ^ m)"
  by (induction m arbitrary: v) (simp_all add: div_mult2_eq)

lemma le_bytes_cong: "v mod 256 ^ n = w mod 256 ^ n \<Longrightarrow> le_bytes n v = le_bytes n w"
proof -
  have "le_bytes n (x mod 256 ^ n) = le_bytes n x" for x
    unfolding le_nat_le_bytes [symmetric] by (rule le_bytes_le_nat) simp
  then show "v mod 256 ^ n = w mod 256 ^ n \<Longrightarrow> le_bytes n v = le_bytes n w" by metis
qed

lemma U32TO8_bytes: "U32TO8_LE (ucast (f :: u64)) = le_bytes 4 (unat f)"
  unfolding U32TO8_LE_def by (rule le_bytes_cong) (simp add: unat_ucast_mod)

lemma tag_num:
  fixes a b c d :: nat
  defines "f1 \<equiv> b + a div 2 ^ 32"
  defines "f2 \<equiv> c + f1 div 2 ^ 32"
  defines "f3 \<equiv> d + f2 div 2 ^ 32"
  shows "le_bytes 16 (a + 2 ^ 32 * b + 2 ^ 64 * c + 2 ^ 96 * d) = le_bytes 4 a @ le_bytes 4 f1 @ le_bytes 4 f2 @ le_bytes 4 f3"
proof -
  have s: "le_bytes (4 + n) (x + 2 ^ 32 * y) = le_bytes 4 x @ le_bytes n (y + x div 2 ^ 32)" for n x y
  proof -
    have "le_bytes 4 (x + 2 ^ 32 * y) = le_bytes 4 x" by (rule le_bytes_cong) simp
    then show ?thesis unfolding le_bytes_add by (simp add: add.commute)
  qed
  define C B where "C = c + 2 ^ 32 * d" and "B = b + 2 ^ 32 * C"
  have "a + 2 ^ 32 * b + 2 ^ 64 * c + 2 ^ 96 * d = a + 2 ^ 32 * B" by (simp add: B_def C_def)
  moreover have "B + a div 2 ^ 32 = f1 + 2 ^ 32 * C" "C + f1 div 2 ^ 32 = f2 + 2 ^ 32 * d" "d + f2 div 2 ^ 32 = f3"
    by (simp_all add: B_def C_def f1_def f2_def f3_def)
  moreover have "le_bytes 16 (x + 2 ^ 32 * y) = le_bytes 4 x @ le_bytes 12 (y + x div 2 ^ 32)"
    "le_bytes 12 (x + 2 ^ 32 * y) = le_bytes 4 x @ le_bytes 8 (y + x div 2 ^ 32)"
    "le_bytes 8 (x + 2 ^ 32 * y) = le_bytes 4 x @ le_bytes 4 (y + x div 2 ^ 32)" for x y
    using s [of 12 x y] s [of 8 x y] s [of 4 x y] by simp_all
  ultimately show ?thesis by (simp only: append_assoc)
qed

lemma poly1305_tag_value:
  assumes "16 \<le> length (p_key st)"
  shows "poly1305_tag_bytes st = le_bytes 16 (words4 (joined st) + le_nat (take 16 (p_key st)))"
proof -
  define w where "w = joined st"
  define k where "k i = le_nat (take 4 (drop (4 * i) (p_key st)))" for i
  define a0 a1 a2 a3 where "a0 = p_h0 st OR push_bit 26 (p_h1 st)" and "a1 = drop_bit 6 (p_h1 st) OR push_bit 20 (p_h2 st)"
    and "a2 = drop_bit 12 (p_h2 st) OR push_bit 14 (p_h3 st)" and "a3 = drop_bit 18 (p_h3 st) OR push_bit 8 (p_h4 st)"
  define f0 where "f0 = (ucast a0 + ucast (U8TO32_LE (p_key st)) :: u64)"
  define f1 where "f1 = (ucast a1 + ucast (U8TO32_LE (drop 4 (p_key st))) + drop_bit 32 f0 :: u64)"
  define f2 where "f2 = (ucast a2 + ucast (U8TO32_LE (drop 8 (p_key st))) + drop_bit 32 f1 :: u64)"
  define f3 where "f3 = (ucast a3 + ucast (U8TO32_LE (drop 12 (p_key st))) + drop_bit 32 f2 :: u64)"
  have wa: "w = [unat a0, unat a1, unat a2, unat a3]" by (simp add: w_def joined_def a0_def a1_def a2_def a3_def)
  have sum: "unat (ucast x + ucast (U8TO32_LE m) + y :: u64) = unat x + le_nat (take 4 m) + unat y" if "unat y < 2 ^ 62" for x :: u32 and m and y :: u64
    unfolding unat_U8TO32 [symmetric] using that unat_u32_less [of x] unat_u32_less [of "U8TO32_LE m"] by (simp add: unat_plus)
  have dr: "unat (drop_bit 32 f) = unat f div 2 ^ 32" for f :: u64 by (simp add: unat_drop_bit_div)
  have lt: "unat (drop_bit 32 f) < 2 ^ 62" for f :: u64 using unat_u64_less [of f] by (simp add: dr div_less_iff_less_mult)
  have 0: "unat f0 = w ! 0 + k 0" using sum [of 0 a0 "p_key st"] unfolding f0_def wa k_def by simp
  have 1: "unat f1 = w ! 1 + k 1 + unat f0 div 2 ^ 32" unfolding f1_def sum [OF lt] dr by (simp add: wa k_def)
  have 2: "unat f2 = w ! 2 + k 2 + unat f1 div 2 ^ 32" unfolding f2_def sum [OF lt] dr by (simp add: wa k_def)
  have 3: "unat f3 = w ! 3 + k 3 + unat f2 div 2 ^ 32" unfolding f3_def sum [OF lt] dr by (simp add: wa k_def)
  have "poly1305_tag_bytes st = le_bytes 4 (unat f0) @ le_bytes 4 (unat f1) @ le_bytes 4 (unat f2) @ le_bytes 4 (unat f3)"
    unfolding poly1305_tag_bytes_def Let_def a0_def [symmetric] a1_def [symmetric] a2_def [symmetric] a3_def [symmetric] f0_def [symmetric]
    unfolding f1_def [symmetric] unfolding f2_def [symmetric] unfolding f3_def [symmetric] U32TO8_bytes by (rule refl)
  also have "\<dots> = le_bytes 16 ((w ! 0 + k 0) + 2 ^ 32 * (w ! 1 + k 1) + 2 ^ 64 * (w ! 2 + k 2) + 2 ^ 96 * (w ! 3 + k 3))"
    unfolding tag_num 3 2 1 0 by (rule refl)
  also have "(w ! 0 + k 0) + 2 ^ 32 * (w ! 1 + k 1) + 2 ^ 64 * (w ! 2 + k 2) + 2 ^ 96 * (w ! 3 + k 3) = words4 w + le_nat (take 16 (p_key st))"
    unfolding le_nat_words [OF assms] words4_def k_def by (simp add: add_mult_distrib2)
  finally show ?thesis unfolding w_def .
qed

lemma poly1305_finish_holds:
  assumes "poly_holds s r m st" "length s = 16" "\<not> lost_carry (poly_eval r 0 m)"
  shows "fst (CRYPTO_poly1305_finish st) = le_bytes 16 (poly_eval r 0 m + le_nat s)"
proof -
  define q where "q = take (16 * (length m div 16)) m"
  have q: "16 dvd length q" "m = q @ rest 16 m" by (simp_all add: q_def take_rest)
  have h: "poly_at (poly_eval r 0 q) st" "poly_r st = r" "p_key st = s" "unat (buf_used st) = length m mod 16"
    "take (unat (buf_used st)) (p_buf st) = rest 16 m" using assms(1) by (simp_all add: poly_holds_def q_def)
  define st1 where "st1 = (if buf_used st \<noteq> 0 then poly1305_update (take (unat (buf_used st)) (p_buf st)) st else st)"
  have 1: "poly_at (poly_eval r 0 m) st1 \<and> p_key st1 = s"
  proof (cases "buf_used st = 0")
    case True
    then have "rest 16 m = []" using h(4,5) by simp
    then have "m = q" using q(2) by simp
    then show ?thesis using True h by (simp add: st1_def)
  next
    case False
    note u = poly1305_update_eval [OF h(1), of "rest 16 m", unfolded h(2)]
    have "poly_eval r 0 m = poly_eval r (poly_eval r 0 q) (rest 16 m)" by (subst q(2)) (rule eval_append [OF q(1)])
    then show ?thesis using False u h(3,5) same_key_simps [OF conjunct2 [OF u]] by (simp add: st1_def)
  qed
  then have rd: "poly_reduced st1" "poly_h st1 mod poly_p = poly_eval r 0 m mod poly_p" by (simp_all add: poly_at_def)
  have ev: "poly_eval r 0 m < poly_p" by (rule eval_small) (simp add: p_simp)
  define st2 where "st2 = poly1305_carry st1"
  define st3 where "st3 = poly1305_choose st2"
  note c = poly1305_carry_value [OF rd(1), folded st2_def] and d = poly1305_choose_value [OF poly1305_carry_value(2) [OF rd(1)], folded st2_def, folded st3_def]
  have v: "poly_h st3 = poly_eval r 0 m" using d(1) c(1) rd(2) ev by simp
  have k: "p_key st3 = s" using d(3) same_key_simps(5) [OF c(3)] 1 by simp
  have "words4 (joined st3) = poly_h st3 mod 2 ^ 128"
    using d(2)
  proof
    assume "poly_normal st3"
    then show ?thesis by (rule joined_value)
  next
    assume e: "st3 = st2"
    show ?thesis by (rule joined_almost) (use c(2) e assms(3) v in simp_all)
  qed
  moreover have "fst (CRYPTO_poly1305_finish st) = poly1305_tag_bytes st3"
    unfolding CRYPTO_poly1305_finish_def Let_def st3_def st2_def st1_def by simp
  moreover have "poly1305_tag_bytes st3 = le_bytes 16 (words4 (joined st3) + le_nat s)"
    using poly1305_tag_value [of st3] k assms(2) by simp
  moreover have "(poly_eval r 0 m mod 2 ^ 128 + le_nat s) mod 256 ^ 16 = (poly_eval r 0 m + le_nat s) mod 256 ^ 16"
  proof -
    have "(256 :: nat) ^ 16 = 2 ^ 128" by simp
    then show ?thesis by (simp only: mod_add_left_eq)
  qed
  ultimately show ?thesis unfolding v using le_bytes_cong by metis
qed

lemma poly1305_init_holds:
  assumes "length key = 32" "length (p_buf st) = 16"
  shows "poly_holds (take 16 (drop 16 key)) (clamp (le_nat (take 16 key))) [] (CRYPTO_poly1305_init key st)"
proof -
  have l: "16 \<le> length key" using assms(1) by simp
  have "p_h0 (CRYPTO_poly1305_init key st) = 0" "p_h1 (CRYPTO_poly1305_init key st) = 0" "p_h2 (CRYPTO_poly1305_init key st) = 0"
    "p_h3 (CRYPTO_poly1305_init key st) = 0" "p_h4 (CRYPTO_poly1305_init key st) = 0" "buf_used (CRYPTO_poly1305_init key st) = 0"
    "p_buf (CRYPTO_poly1305_init key st) = p_buf st" "p_key (CRYPTO_poly1305_init key st) = take 16 (drop 16 key)"
    by (simp_all add: CRYPTO_poly1305_init_def Let_def)
  then show ?thesis using init_limbs [OF l] assms(2)
    by (simp add: poly_holds_def poly_at_def poly_reduced_def poly_h_def limbs_def poly_eval.simps rest_def)
qed

section \<open>The authenticator\<close>

definition poly1305_updates :: "u8 list list \<Rightarrow> poly1305_state_st \<Rightarrow> poly1305_state_st option" where
  "poly1305_updates ps st = foldl (\<lambda>c p. Option.bind c (CRYPTO_poly1305_update p)) (Some st) ps"

lemma poly1305_updates_holds:
  "poly_holds s r m st \<Longrightarrow> \<forall>p \<in> set ps. length p < 2 ^ 64 \<Longrightarrow> \<exists>st'. poly1305_updates ps st = Some st' \<and> poly_holds s r (m @ concat ps) st'"
proof (induction ps arbitrary: m st)
  case (Cons p ps)
  then obtain st1 where st1: "CRYPTO_poly1305_update p st = Some st1" "poly_holds s r (m @ p) st1"
    using poly1305_update_holds [OF Cons.prems(1), of p] by auto
  show ?case using Cons.IH [OF st1(2)] Cons.prems(2) st1(1) by (simp add: poly1305_updates_def)
qed (simp add: poly1305_updates_def)

text \<open>
  C36. The authenticator of \<open>poly1305.c\<close> is that of RFC 8439: whatever the state holds before, and however the
  message is cut into pieces, the tag is the polynomial of the message at the clamped key modulo
  \<open>2 ^ 130 - 5\<close>, plus the second half of the key, modulo \<open>2 ^ 128\<close>. Excepted are messages whose
  polynomial is a multiple of \<open>2 ^ 27\<close> below \<open>2 ^ 32\<close> plus at most 4, on which the code drops a carry.
\<close>

theorem poly1305_tag:
  assumes "length key = 32" "length (p_buf st0) = 16" "\<forall>p \<in> set ps. length p < 2 ^ 64" "\<not> lost_carry (poly_value key (concat ps))"
  shows "\<exists>st. poly1305_updates ps (CRYPTO_poly1305_init key st0) = Some st \<and>
    fst (CRYPTO_poly1305_finish st) = poly1305_mac key (concat ps)"
proof -
  obtain st where st: "poly1305_updates ps (CRYPTO_poly1305_init key st0) = Some st"
    "poly_holds (take 16 (drop 16 key)) (clamp (le_nat (take 16 key))) (concat ps) st"
    using poly1305_updates_holds [OF poly1305_init_holds [OF assms(1,2)] assms(3)] by auto
  have "fst (CRYPTO_poly1305_finish st) = poly1305_mac key (concat ps)"
    using poly1305_finish_holds [OF st(2)] assms(1,4) by (simp add: poly1305_mac_def poly_value_def)
  then show ?thesis using st(1) by blast
qed

text \<open>
  C37. While blocks are absorbed nothing is lost to the widths of the integers: the sums of products are
  exact in 64 bits, every carry that the code truncates to 32 bits fits, and so does the first limb with the
  last carry times five. The carry out of the second limb comes within three percent of its bound.
\<close>

theorem poly1305_no_wrap:
  fixes key m b :: "u8 list" and st0 :: poly1305_state_st
  assumes "length key = 32" "length b = 16" "hibit = 0 \<or> hibit = push_bit 24 1"
  defines "st \<equiv> poly1305_add b hibit (poly1305_update m (CRYPTO_poly1305_init key st0))"
  shows "map unat (poly1305_products st) = prods st \<and> (\<forall>i \<in> {1, 2, 3, 4}. carried (prods st) i div 2 ^ 26 < 2 ^ 32) \<and>
    unat (p_h0 (poly1305_donna_mul st)) = carried (prods st) 0 mod 2 ^ 26 + 5 * (carried (prods st) 4 div 2 ^ 26)"
proof -
  have l: "16 \<le> length key" using assms(1) by simp
  have "poly_at 0 (CRYPTO_poly1305_init key st0)" using init_limbs [OF l]
    by (simp add: poly_at_def poly_reduced_def poly_h_def limbs_def) (simp add: CRYPTO_poly1305_init_def Let_def)
  then have at: "poly_at (poly_eval (clamp (le_nat (take 16 key))) 0 m) (poly1305_update m (CRYPTO_poly1305_init key st0))"
    using poly1305_update_eval [of 0 "CRYPTO_poly1305_init key st0" m] init_limbs [OF l, of st0] by simp
  have k: "poly_key st" "poly_added st" using at poly1305_add_value(2) [of _ b hibit] assms(2,3)
    by (simp_all add: st_def poly_at_def same_key_simps [OF same_key_add])
  note e = products_exact [OF k] and m = mul_limbs [OF k]
  have "length (poly1305_products st) = 5" "length (prods st) = 5" by (simp_all add: poly1305_products_def prods_def Let_def)
  then have p: "map unat (poly1305_products st) = prods st"
    using e by (intro nth_equalityI) (auto simp: less_Suc_eq numeral_eq_Suc)
  have d: "x div 2 ^ 26 < 2 ^ 32" if "x < 2 ^ 58" for x :: nat using that by (simp add: div_less_iff_less_mult)
  show ?thesis using p m(1) d [OF m(7)] d [OF m(8)] d [OF m(9)] d [OF m(10)] by blast
qed

lemma le_bytes_numeral: "le_bytes (numeral k) v = word_of_nat v # le_bytes (pred_numeral k) (v div 256)"
  by (subst numeral_eq_Suc) simp

text \<open>A state with an empty buffer, and the test vector of RFC 8439 in three pieces.\<close>

definition poly_start :: poly1305_state_st where
  "poly_start = \<lparr>p_r0 = 0, p_r1 = 0, p_r2 = 0, p_r3 = 0, p_r4 = 0, p_s1 = 0, p_s2 = 0, p_s3 = 0, p_s4 = 0,
     p_h0 = 0, p_h1 = 0, p_h2 = 0, p_h3 = 0, p_h4 = 0, p_buf = replicate 16 0, buf_used = 0, p_key = []\<rparr>"

definition rfc_key :: "u8 list" where
  "rfc_key = [0x85, 0xd6, 0xbe, 0x78, 0x57, 0x55, 0x6d, 0x33, 0x7f, 0x44, 0x52, 0xfe, 0x42, 0xd5, 0x06, 0xa8,
     0x01, 0x03, 0x80, 0x8a, 0xfb, 0x0d, 0xb2, 0xfd, 0x4a, 0xbf, 0xf6, 0xaf, 0x41, 0x49, 0xf5, 0x1b]"

definition rfc_pieces :: "u8 list list" where
  "rfc_pieces = [[0x43, 0x72, 0x79, 0x70, 0x74, 0x6f, 0x67, 0x72, 0x61, 0x70, 0x68, 0x69, 0x63], [],
     [0x20, 0x46, 0x6f, 0x72, 0x75, 0x6d, 0x20, 0x52, 0x65, 0x73, 0x65, 0x61, 0x72, 0x63, 0x68, 0x20, 0x47, 0x72, 0x6f, 0x75, 0x70]]"

lemma poly1305_tag_witness:
  "\<exists>st. poly1305_updates rfc_pieces (CRYPTO_poly1305_init rfc_key poly_start) = Some st \<and> fst (CRYPTO_poly1305_finish st) =
    [0xa8, 0x06, 0x1d, 0xc1, 0x30, 0x51, 0x36, 0xc6, 0xc2, 0x2b, 0x8b, 0xaf, 0x0c, 0x01, 0x27, 0xa9]"
proof -
  have v: "poly_value rfc_key (concat rfc_pieces) = 868244031557762678448005180662195487655"
    by (simp add: poly_value_def clamp_def rfc_key_def rfc_pieces_def poly_eval.simps poly_p_def)
  then have "poly1305_mac rfc_key (concat rfc_pieces) =
      [0xa8, 0x06, 0x1d, 0xc1, 0x30, 0x51, 0x36, 0xc6, 0xc2, 0x2b, 0x8b, 0xaf, 0x0c, 0x01, 0x27, 0xa9]"
    by (simp add: poly1305_mac_def rfc_key_def le_bytes_numeral)
  moreover have "\<not> lost_carry (poly_value rfc_key (concat rfc_pieces))" unfolding v by (simp add: lost_carry_def)
  ultimately show ?thesis using poly1305_tag [of rfc_key poly_start rfc_pieces] by (simp add: rfc_key_def rfc_pieces_def poly_start_def)
qed

text \<open>A key and a block of the exception.\<close>

definition lost_key :: "u8 list" where
  "lost_key = [0, 0, 0, 0, 0xfc, 0xff, 0xff, 0x0f, 0xfc, 0xff, 0xff, 0x0f, 0xfc, 0xff, 0xff, 0x0f,
     0, 0, 0, 0, 0, 0, 0, 0, 0, 0, 0, 0, 0, 0, 0, 0]"

definition lost_block :: "u8 list" where
  "lost_block = [0xbf, 0x99, 0xac, 0xa9, 0x34, 0xae, 0xbb, 0x21, 0x2a, 0xb8, 0x97, 0xb4, 0xa1, 0x99, 0xac, 0xc3]"

lemma poly1305_no_wrap_witness:
  "carried (prods (poly1305_add lost_block 0 (poly1305_update lost_block (CRYPTO_poly1305_init lost_key poly_start)))) 1 div 2 ^ 26 < 2 ^ 32"
  using poly1305_no_wrap [of lost_key lost_block 0 lost_block poly_start] by (simp add: lost_key_def lost_block_def)

text \<open>
  C38. The exception is real: on this key and this one-block message the code drops the carry from the first limb
  into the second, because \<open>CRYPTO_poly1305_finish\<close> joins the limbs by a bitwise or without the carry
  that its last addition to the first limb may need. Its tag is \<open>2 ^ 26\<close>, that of RFC 8439 is \<open>2 ^ 27\<close>.
\<close>

theorem poly1305_carry_lost:
  "\<exists>st. CRYPTO_poly1305_update lost_block (CRYPTO_poly1305_init lost_key poly_start) = Some st \<and>
    fst (CRYPTO_poly1305_finish st) = le_bytes 16 (2 ^ 26) \<and> poly1305_mac lost_key lost_block = le_bytes 16 (2 ^ 27)"
proof -
  have i: "CRYPTO_poly1305_init lost_key poly_start = poly_start\<lparr>p_r0 := 0, p_r1 := 67108608, p_r2 := 67092735, p_r3 := 66076671,
      p_r4 := 1048575, p_s1 := 335543040, p_s2 := 335463675, p_s3 := 330383355, p_s4 := 5242875, p_key := [0, 0, 0, 0, 0, 0, 0, 0, 0, 0, 0, 0, 0, 0, 0, 0]\<rparr>"
    by (simp add: CRYPTO_poly1305_init_def lost_key_def Let_def U8TO32_LE_def poly_start_def)
  have "poly1305_mac lost_key lost_block = le_bytes 16 (2 ^ 27)"
    by (simp add: poly1305_mac_def poly_value_def clamp_def lost_key_def lost_block_def poly_eval.simps poly_p_def)
  then show ?thesis unfolding i
    apply (simp add: CRYPTO_poly1305_update_def poly1305_fill_def poly_start_def lost_block_def)
    apply (simp add: poly1305_update.simps poly1305_donna_atmost15bytes_def)
    apply (simp add: poly1305_add_def U8TO32_LE_def Let_def)
    apply (simp add: poly1305_donna_mul_def poly1305_products_def mul32x32_64_def Let_def)
    apply (simp add: CRYPTO_poly1305_finish_def poly1305_carry_def Let_def)
    apply (simp add: poly1305_choose_def Let_def)
    apply (simp add: poly1305_tag_bytes_def U8TO32_LE_def U32TO8_LE_def Let_def le_bytes_numeral)
    done
qed

end
