(* ===== verification/Spec2Isabelle.thy ===== *)
theory Spec2Isabelle
  imports Pb_Encode_Spec Pb_Varint Pb_Decode_Safe Base64_Spec Cbb_Asn1_Spec Pool_Spec Stack_Spec Obj_Spec Hmac_Spec Ber_Spec Upb_Value_Spec Poly1305_Spec
begin

text \<open>
  Verification library for the C code of LadyBook, an iOS application whose C code is vendored by
  CocoaPods under \<open>src/LadyBook/Pods\<close>. The application itself is Swift; the C code that carries logic of
  its own is the protobuf library nanopb (used by Firebase), BoringSSL (used by gRPC) and the tables of
  upb, the protobuf runtime of gRPC.

  The parts and how they interact. nanopb encodes and decodes protobuf messages that are C structs,
  driven by generated arrays of field descriptors. BoringSSL reads and writes byte strings with the
  \<open>CBS\<close> and \<open>CBB\<close> objects, on which its ASN.1 code stands; the buffer pool shares certificates between
  connections, in a hash table and with atomic reference counts; the registry of object identifiers
  keeps the added objects in four hash tables and parses their texts with the byte string writer; the
  stack, the array of pointers of all other parts, is searched and sorted by comparison functions. The digests share one collector of
  blocks. The tables of upb, which its definition pools and message descriptors are made of, share one scatter table.

  Common conventions. The C integer types are words of their width (\<open>u8\<close> to \<open>u64\<close>), on the 64-bit
  little-endian target; signed results are integers where no wrap-around can occur, and \<open>sint\<close> where it can. Pointers that are not
  compared or subtracted are the data they lead to; a byte buffer that is written through a pointer is a
  list of fixed length with a cursor (\<open>put\<close> of \<open>CBuffer\<close>). \<open>None\<close> as the result of a function is
  behaviour that C leaves undefined, a violated \<open>assert\<close> or an exhausted fuel, so that a theorem which gives a
  result shows their absence; errors that the code reports are values of an inner option or flag. The
  outcome of every allocation is a parameter (\<open>mem\<close>, or the \<open>hoom\<close> of a heap).

  Shared theories. \<open>CPrelude\<close>: integer types, the control-flow combinators of success flags (\<open>step\<close>,
  \<open>and_then\<close>) and generic lemmas. \<open>CMemory\<close>: the byte-addressed heap that nanopb's structs live in.
  \<open>CBuffer\<close>: output buffers, big-endian numbers, blocks of lists. \<open>Compare\<close>: the locale
  \<open>comparison\<close> (what sorting and searching rely on), \<open>qsort\<close>, \<open>strcmp\<close>.

  nanopb (\<open>pb_common.c\<close>, \<open>pb_encode.c\<close>, \<open>pb_decode.c\<close>). \<open>Pb_Common\<close> has the descriptors and the
  field iterator, whose search is shown to end at the first match. \<open>Pb_Encode\<close> has every function of
  the encoder. \<open>Pb_Wire\<close> defines the bytes of a message in the wire format from the message in memory, and a bound
  of its size (\<open>message_volume\<close>), which the encoder's theorem needs to be below \<open>2 ^ 64\<close>; \<open>Pb_Encode_Spec\<close> has the contract
  \<open>emits\<close>, one outcome, whatever the stream is (sizing pass, buffer, callback), and shows that this outcome is that of the wire format. \<open>Pb_Decode\<close> has every function of the decoder, over streams and the heap. \<open>Pb_Varint\<close> shows the round trips of
  the scalar formats; \<open>Pb_Decode_Safe\<close> the memory safety and termination on arbitrary input for
  static message layouts, through contracts that are closed under the control flow. Recursion over submessages and
  extensions takes fuel; the safety theorem shows that fuel larger than the input and the nesting of the
  descriptors is enough.

  BoringSSL, bytes and ASN.1. \<open>Base64\<close>, \<open>Base64_Spec\<close>: \<open>base64.c\<close>, one-shot and streaming, against the text of RFC
  4648. \<open>Cbs\<close>: the reader \<open>cbs.c\<close>; \<open>Cbb\<close>: the writer \<open>cbb.c\<close>, a buffer and a chain of children with pending
  lengths; \<open>Cbb_Inv\<close>: the invariant of the chain under all operations; \<open>Cbb_Spec\<close>: the writer refines a recursive
  encoding (\<open>appends\<close> is the contract of a client, \<open>keeping\<close> that it preserves the invariant); \<open>Asn1_Spec\<close>: the readers
  of elements, integers, octet strings and booleans against their writers; \<open>Unicode\<close>,
  \<open>Unicode_Spec\<close>: \<open>unicode.c\<close>; \<open>Ber\<close>, \<open>Ber_Spec\<close>: \<open>ber.c\<close>, the conversion to DER against a datatype of BER trees, with what
  its search for BER forgets (\<open>ber_seen\<close> against \<open>has_ber\<close>), and implicitly tagged strings in chunks; \<open>Cbb_Asn1\<close>, \<open>Cbb_Asn1_Spec\<close>: object identifiers and their texts, and the sorting of \<open>SET OF\<close>.
  \<open>Ct_Word\<close>: the branch-free operations of \<open>internal.h\<close>.

  BoringSSL, containers. \<open>Lhash\<close>, \<open>Lhash_Spec\<close>: \<open>lhash.c\<close>, which refines a finite map under the locale \<open>lhash_keys\<close>
  (the contract of the hash and comparison functions); it is interpreted on the keys of the pool and on the four of the registry.
  \<open>Pool\<close>, \<open>Pool_Spec\<close>: \<open>pool.c\<close> and the reference counts as the atomic steps of any number of threads; \<open>pool_inv\<close> counts
  the references to every buffer, and the lemmas on it give safety, sharing, progress (a rank that every step
  lowers) and the absence of leaks. \<open>Stack\<close>, \<open>Stack_Spec\<close>: \<open>stack.c\<close>, which refines a list. \<open>Obj\<close>, \<open>Obj_Spec\<close>: \<open>obj.c\<close>, the
  objects that were added laid over the generated tables.

  BoringSSL, digests. \<open>Md32\<close> has the collector \<open>md32_common.h\<close>, a function of the block function and of the other macros that
  a digest defines before it includes the file; \<open>Md32_Spec\<close> has the contract \<open>md32\<close> of these macros as a locale and shows that the
  collector, fed with any pieces, hashes the padded message block by block. \<open>Sha\<close>, \<open>Sha_Spec\<close>: \<open>sha1.c\<close> and \<open>sha256.c\<close> against
  FIPS 180-4; \<open>Md\<close>, \<open>Md_Spec\<close>: \<open>md5.c\<close> and \<open>md4.c\<close> against RFC 1321 and RFC 1320, with \<open>Md_Sine\<close>, which evaluates
  the sines that the constants of MD5 are made of. Both interpret the locale. \<open>Evp\<close> has \<open>digest.c\<close>, the digests behind their tables of methods, \<open>Hmac\<close> has \<open>hmac.c\<close> and \<open>hkdf.c\<close> on top of
  them; \<open>Hmac_Spec\<close> states what they rely on of a digest as the locale \<open>evp_digest\<close>, interpreted on five digests, and shows
  the functions to be those of RFC 2104 and RFC 5869, with their failures.

  BoringSSL, authenticator. \<open>Poly1305\<close>: \<open>poly1305.c\<close>, with the jumps of its block loop as recursion. \<open>Poly1305_Num\<close> has RFC 8439 on natural
  numbers and shows that the five limbs compute it, with bounds that leave no carry behind; \<open>Poly1305_Spec\<close> shows the tag for any
  pieces, and the values on which the code drops its very last carry (\<open>lost_carry\<close>), with an example.

  upb. \<open>Upb_Table\<close> has the values, the hash function and the chained scatter table of \<open>table.c\<close>, \<open>Upb_Maps\<close> the tables of strings
  (over a heap of key copies) and of integers (with an array part). \<open>Upb_Table_Spec\<close> shows that the scatter table keeps its
  chains, with the chains as a ghost, under the locale \<open>table_keys\<close>, which is interpreted for integers in \<open>Upb_Int_Spec\<close> and for strings of
  every heap in \<open>Upb_Str_Spec\<close>; \<open>Upb_Hash_Spec\<close> shows that the hash does not depend on the alignment of a string. \<open>Upb_Compact_Spec\<close>
  shows when compaction keeps an integer table and when it is undefined (a failed allocation, which the code ignores, and an array whose size in bytes wraps
  around), and the refinement of a map by its runs; \<open>Upb_Str_Spec\<close> the same for strings, with the
  ownership of the keys; \<open>Upb_Value_Spec\<close> that values keep their types. Walks along chains take the number of entries as fuel, and
  insertion and resizing, which call each other, depth two; the refinement theorems show both to be enough. The bound \<open>2 ^ 28\<close> on the entries that insertions
  make keeps sizes below the shift of an \<open>int\<close>; compaction has no bound, since its hash part gets at most 32769 keys.

  Not modelled. The Swift application and the C++ and Objective-C pods (gRPC, Firestore, leveldb, abseil,
  Firebase) are not C. Generated tables (\<open>obj_dat.h\<close>, the descriptors of nanopb, upb) are data: they are parameters,
  with what the code relies on as named hypotheses (\<open>tables_ok\<close>). The ciphers, SHA-384 and SHA-512, the assembly and vector variants of the digests and of the authenticator, the bignum, public-key, X.509 and TLS
  code of BoringSSL and the arena, the encoder and the decoder of upb are not modelled. Error
  queues and the functions that only free memory have no effect that the model shows.
\<close>

end
